(* ===== verification/OSF_Prelude.thy ===== *)
theory OSF_Prelude
  imports Main "HOL-Library.Word"
begin

text \<open>
  Shared material of the kernel development: the kernel's error codes, the C integer
  conversions the modelled code relies on (the kernel is compiled for the Alpha, so
  \<open>long\<close> and pointers have 64 bits, \<open>int\<close> 32 and \<open>short\<close> 16), and the list lemmas the
  components share.
\<close>

unbundle bit_operations_syntax

section \<open>Error codes\<close>

text \<open>The values of \<open>sys/errno.h\<close> that the modelled system calls return.\<close>

datatype errno =
    EPERM | ENOENT | EINTR | E2BIG | EAGAIN | EACCES | EFAULT | EEXIST | EINVAL
  | EFBIG | ENOSPC | ERANGE | EDEADLK | ENOLCK | ENOMSG | EIDRM
  | ENOMEM | EMFILE

section \<open>C integer conversions\<close>

text \<open>
  Narrow C integers are kept as \<open>int\<close> with the conversion written out where a value is
  stored: \<open>u16\<close> is a store into an \<open>unsigned short\<close>, \<open>s16\<close> into a \<open>short\<close>, and so on.
\<close>

definition u16 :: "int \<Rightarrow> int" where
  "u16 x = x mod 65536"

definition s16 :: "int \<Rightarrow> int" where
  "s16 x = (x + 32768) mod 65536 - 32768"

definition u32 :: "int \<Rightarrow> int" where
  "u32 x = x mod 4294967296"

definition s32 :: "int \<Rightarrow> int" where
  "s32 x = (x + 2147483648) mod 4294967296 - 2147483648"

definition u64 :: "int \<Rightarrow> int" where
  "u64 x = x mod 18446744073709551616"

definition s64 :: "int \<Rightarrow> int" where
  "s64 x = (x + 9223372036854775808) mod 18446744073709551616 - 9223372036854775808"

named_theorems cint "conversions that change nothing because the value fits"

lemma u16_id [cint]: "0 \<le> x \<Longrightarrow> x < 65536 \<Longrightarrow> u16 x = x"
  by (simp add: u16_def)

lemma s16_id [cint]: "-32768 \<le> x \<Longrightarrow> x < 32768 \<Longrightarrow> s16 x = x"
  by (simp add: s16_def)

lemma u32_id [cint]: "0 \<le> x \<Longrightarrow> x < 4294967296 \<Longrightarrow> u32 x = x"
  by (simp add: u32_def)

lemma s32_id [cint]: "-2147483648 \<le> x \<Longrightarrow> x < 2147483648 \<Longrightarrow> s32 x = x"
  by (simp add: s32_def)

lemma u64_id [cint]: "0 \<le> x \<Longrightarrow> x < 18446744073709551616 \<Longrightarrow> u64 x = x"
  by (simp add: u64_def)

lemma s64_id [cint]: "-9223372036854775808 \<le> x \<Longrightarrow> x < 9223372036854775808 \<Longrightarrow> s64 x = x"
  by (simp add: s64_def)

lemma u16_range [simp]: "0 \<le> u16 x" "u16 x < 65536"
  by (simp_all add: u16_def)

lemma s16_range [simp]: "-32768 \<le> s16 x" "s16 x < 32768"
  by (simp_all add: s16_def)

section \<open>Lists\<close>

text \<open>
  Reading an array element that may be out of range: the kernel would touch memory beyond
  the array, so the model yields \<open>None\<close>, which every caller turns into a fault.
\<close>

definition aref :: "'a list \<Rightarrow> nat \<Rightarrow> 'a option" where
  "aref xs i = (if i < length xs then Some (xs ! i) else None)"

lemma aref_Some_iff: "aref xs i = Some x \<longleftrightarrow> i < length xs \<and> xs ! i = x"
  by (auto simp: aref_def)

lemma aref_None_iff: "aref xs i = None \<longleftrightarrow> length xs \<le> i"
  by (auto simp: aref_def)

lemma aref_update:
  "aref (xs[i := y]) j = (if j = i \<and> i < length xs then Some y else aref xs j)"
  by (auto simp: aref_def)

lemma list_update_fix [simp]: "xs ! i = x \<Longrightarrow> xs[i := x] = xs"
  by auto

lemma set_list_updateD: "x \<in> set (xs[i := y]) \<Longrightarrow> x \<in> set xs \<or> x = y"
  using set_update_subset_insert [of xs i y] by auto

lemma nth_Cons_offset: "i < k \<Longrightarrow> (b # bs) ! (k - i) = bs ! (k - Suc i)"
  by (cases "k - i") (auto simp: Suc_diff_Suc diff_Suc split: nat.splits)

lemma all_less_Cons_offset:
  "i < k \<Longrightarrow> (\<forall>j<k - i. P ((b # bs) ! j)) \<longleftrightarrow> P b \<and> (\<forall>j<k - Suc i. P (bs ! j))"
  using All_less_Suc2 [of "k - Suc i" "\<lambda>j. P ((b # bs) ! j)"] by (simp add: Suc_diff_Suc)

end
