(* ===== verification/Svipc_Ipc.thy ===== *)
theory Svipc_Ipc
  imports OSF_Prelude
begin

text \<open>
  The common System V IPC routines of \<open>kernel/bsd/svipc_ipc.c\<close>: the permission structure,
  the access check \<open>ipcaccess\<close> and the key lookup \<open>ipcget\<close>, in the configuration without
  the \<open>SEC_*\<close> options. Two locales state what the facilities (semaphores, message queues)
  rely on: \<open>ipc_facility\<close> for the key table and \<open>ipc_ids\<close> for the identifiers that
  encode a slot and its sequence number.
\<close>

section \<open>Data\<close>

text \<open>\<open>struct ipc_perm\<close> of \<open>sys/ipc.h\<close>, and the credentials of the calling process.\<close>

record ipc_perm =
  ip_uid :: int
  ip_gid :: int
  ip_cuid :: int
  ip_cgid :: int
  ip_mode :: "32 word"
  ip_seq :: int
  ip_key :: int

record ucred =
  cr_uid :: int
  cr_gid :: int

definition IPC_CREAT :: "64 word" where "IPC_CREAT = 0x200"
definition IPC_EXCL :: "64 word" where "IPC_EXCL = 0x400"
definition IPC_NOWAIT :: "64 word" where "IPC_NOWAIT = 0x800"
definition IPC_ALLOC :: "32 word" where "IPC_ALLOC = 0x8000"
definition IPC_R :: "64 word" where "IPC_R = 0x100"
definition IPC_W :: "64 word" where "IPC_W = 0x80"
definition IPC_PRIVATE :: int where "IPC_PRIVATE = 0"

lemmas ipc_flag_defs = IPC_CREAT_def IPC_EXCL_def IPC_NOWAIT_def IPC_ALLOC_def IPC_R_def IPC_W_def

text \<open>An entry is allocated when the \<open>IPC_ALLOC\<close> bit of its mode is set.\<close>

definition ipc_allocated :: "ipc_perm \<Rightarrow> bool" where
  "ipc_allocated p \<longleftrightarrow> ip_mode p AND IPC_ALLOC \<noteq> 0"

section \<open>Privilege and access\<close>

text \<open>\<open>suser\<close> (\<open>bsd/kern_prot.c\<close>): zero for the super-user, whose accounting flag
  \<open>ASU\<close> it sets, \<open>EPERM\<close> otherwise. The flag is passed and returned.\<close>

definition suser :: "ucred \<Rightarrow> bool \<Rightarrow> errno option \<times> bool" where
  "suser cr asu = (if cr_uid cr = 0 then (None, True) else (Some EPERM, asu))"

text \<open>\<open>ipcaccess\<close> returns nonzero (\<open>True\<close>) when access is refused.\<close>

definition ipcaccess :: "ucred \<Rightarrow> ipc_perm \<Rightarrow> 64 word \<Rightarrow> bool" where
  "ipcaccess cr p mode =
     (if cr_uid cr = 0 then False
      else
        let mode =
          (if cr_uid cr \<noteq> ip_uid p \<and> cr_uid cr \<noteq> ip_cuid p then
             let mode = drop_bit 3 mode in
             if cr_gid cr \<noteq> ip_gid p \<and> cr_gid cr \<noteq> ip_cgid p then drop_bit 3 mode else mode
           else mode)
        in \<not> (mode AND ucast (ip_mode p) \<noteq> 0))"

section \<open>Key lookup\<close>

text \<open>
  \<open>ipcget\<close> walks the facility's table through the address of its first entry and the
  entry size; the model takes the table as a list and the access to the embedded
  \<open>ipc_perm\<close> as the pair \<open>perm\<close>, \<open>set_perm\<close>. The private search stops at the first free
  entry; the keyed search remembers the first free entry and stops at an allocated entry
  with the key.
\<close>

datatype ipc_scan = ScanErr errno | ScanFound nat | ScanEnd "nat option"

fun ipcget_private :: "('e \<Rightarrow> ipc_perm) \<Rightarrow> nat \<Rightarrow> 'e list \<Rightarrow> nat option" where
  "ipcget_private perm i [] = None"
| "ipcget_private perm i (b # bs) =
     (if ipc_allocated (perm b) then ipcget_private perm (Suc i) bs else Some i)"

fun ipcget_scan ::
  "('e \<Rightarrow> ipc_perm) \<Rightarrow> int \<Rightarrow> 64 word \<Rightarrow> nat \<Rightarrow> nat option \<Rightarrow> 'e list \<Rightarrow> ipc_scan" where
  "ipcget_scan perm key flag i a [] = ScanEnd a"
| "ipcget_scan perm key flag i a (b # bs) =
     (if ipc_allocated (perm b) then
        if ip_key (perm b) = key then
          if flag AND (IPC_CREAT OR IPC_EXCL) = (IPC_CREAT OR IPC_EXCL) then ScanErr EEXIST
          else if (flag AND 0x1FF) AND ucast (NOT (ip_mode (perm b))) \<noteq> 0 then ScanErr EACCES
          else ScanFound i
        else ipcget_scan perm key flag (Suc i) a bs
      else ipcget_scan perm key flag (Suc i) (if a = None then Some i else a) bs)"

text \<open>The \<open>init:\<close> label: the new entry's permission structure; \<open>seq\<close> is kept.\<close>

definition ipc_init :: "ucred \<Rightarrow> int \<Rightarrow> 64 word \<Rightarrow> ipc_perm \<Rightarrow> ipc_perm" where
  "ipc_init cr key flag p =
     p\<lparr>ip_mode := IPC_ALLOC OR ucast (flag AND 0x1FF), ip_key := key,
       ip_cuid := cr_uid cr, ip_uid := cr_uid cr, ip_cgid := cr_gid cr, ip_gid := cr_gid cr\<rparr>"

text \<open>The result is the status word (\<open>True\<close> for a new entry), the entry's index and the
  table.\<close>

definition ipcget ::
  "('e \<Rightarrow> ipc_perm) \<Rightarrow> (ipc_perm \<Rightarrow> 'e \<Rightarrow> 'e) \<Rightarrow> ucred \<Rightarrow> int \<Rightarrow> 64 word \<Rightarrow> 'e list
    \<Rightarrow> errno + bool \<times> nat \<times> 'e list" where
  "ipcget perm set_perm cr key flag tbl =
     (let init = (\<lambda>i. Inr (True, i,
                    tbl[i := set_perm (ipc_init cr key flag (perm (tbl ! i))) (tbl ! i)]))
      in if key = IPC_PRIVATE then
           (case ipcget_private perm 0 tbl of None \<Rightarrow> Inl ENOSPC | Some i \<Rightarrow> init i)
         else
           (case ipcget_scan perm key flag 0 None tbl of
              ScanErr e \<Rightarrow> Inl e
            | ScanFound i \<Rightarrow> Inr (False, i, tbl)
            | ScanEnd a \<Rightarrow>
                if flag AND IPC_CREAT = 0 then Inl ENOENT
                else (case a of None \<Rightarrow> Inl ENOSPC | Some i \<Rightarrow> init i)))"

section \<open>What the searches find\<close>

lemma ipcget_private_Some:
  "ipcget_private perm i bs = Some k \<Longrightarrow>
     i \<le> k \<and> k < i + length bs \<and> \<not> ipc_allocated (perm (bs ! (k - i)))
     \<and> (\<forall>j<k - i. ipc_allocated (perm (bs ! j)))"
proof (induction bs arbitrary: i)
  case Nil
  then show ?case by simp
next
  case (Cons b bs)
  show ?case
  proof (cases "ipc_allocated (perm b)")
    case True
    with Cons.prems have "ipcget_private perm (Suc i) bs = Some k" by simp
    from Cons.IH [OF this] True show ?thesis
      by (auto simp: nth_Cons_offset
          all_less_Cons_offset [where P = "\<lambda>b. ipc_allocated (perm b)"])
  next
    case False
    with Cons.prems show ?thesis by simp
  qed
qed

lemma ipcget_private_None:
  "ipcget_private perm i bs = None \<longleftrightarrow> (\<forall>b\<in>set bs. ipc_allocated (perm b))"
  by (induction bs arbitrary: i) auto

definition ipc_has_key :: "('e \<Rightarrow> ipc_perm) \<Rightarrow> int \<Rightarrow> 'e \<Rightarrow> bool" where
  "ipc_has_key perm key b \<longleftrightarrow> ipc_allocated (perm b) \<and> ip_key (perm b) = key"

lemma ipcget_scan_Found:
  "ipcget_scan perm key flag i a bs = ScanFound k \<Longrightarrow>
     i \<le> k \<and> k < i + length bs \<and> ipc_has_key perm key (bs ! (k - i))
     \<and> (flag AND 0x1FF) AND ucast (NOT (ip_mode (perm (bs ! (k - i))))) = 0
     \<and> flag AND (IPC_CREAT OR IPC_EXCL) \<noteq> (IPC_CREAT OR IPC_EXCL)"
proof (induction bs arbitrary: i a)
  case Nil
  then show ?case by simp
next
  case (Cons b bs)
  show ?case
  proof (cases "ipc_has_key perm key b")
    case True
    with Cons.prems show ?thesis by (auto simp: ipc_has_key_def split: if_splits)
  next
    case False
    then obtain a' where "ipcget_scan perm key flag (Suc i) a' bs = ScanFound k"
      using Cons.prems by (auto simp: ipc_has_key_def split: if_splits)
    from Cons.IH [OF this] show ?thesis
      by (auto simp: nth_Cons_offset)
  qed
qed

lemma ipcget_scan_End_no_key:
  "ipcget_scan perm key flag i a bs = ScanEnd a' \<Longrightarrow> b \<in> set bs \<Longrightarrow> \<not> ipc_has_key perm key b"
  by (induction bs arbitrary: i a) (auto simp: ipc_has_key_def split: if_splits)

lemma ipcget_scan_End_held:
  "ipcget_scan perm key flag i (Some k) bs = ScanEnd a' \<Longrightarrow> a' = Some k"
  by (induction bs arbitrary: i) (auto split: if_splits)

lemma ipcget_scan_End_first_free:
  "ipcget_scan perm key flag i None bs = ScanEnd a \<Longrightarrow> a = ipcget_private perm i bs"
  by (induction bs arbitrary: i) (auto split: if_splits dest: ipcget_scan_End_held)

lemma ipcget_scan_key:
  "b \<in> set bs \<Longrightarrow> ipc_has_key perm key b \<Longrightarrow>
     \<exists>k. ipcget_scan perm key flag i a bs \<in> {ScanErr EEXIST, ScanErr EACCES, ScanFound k}"
  by (induction bs arbitrary: i a) (auto simp: ipc_has_key_def)

section \<open>The facility table\<close>

text \<open>
  What a facility promises \<open>ipcget\<close>: its accessors of the embedded \<open>ipc_perm\<close> are a field.
  The lemmas say what \<open>ipcget\<close> promises in return.
\<close>

definition ipc_keys_unique :: "('e \<Rightarrow> ipc_perm) \<Rightarrow> 'e list \<Rightarrow> bool" where
  "ipc_keys_unique perm tbl \<longleftrightarrow>
     (\<forall>i<length tbl. \<forall>j<length tbl. \<forall>key. key \<noteq> IPC_PRIVATE \<longrightarrow>
        ipc_has_key perm key (tbl ! i) \<longrightarrow> ipc_has_key perm key (tbl ! j) \<longrightarrow> i = j)"

text \<open>Storing an entry that has no key its predecessor did not have keeps the keys unique.\<close>

lemma ipc_keys_unique_upd:
  assumes "ipc_keys_unique perm tbl"
    and "\<And>key. k < length tbl \<Longrightarrow> ipc_has_key perm key e \<Longrightarrow> ipc_has_key perm key (tbl ! k)"
  shows "ipc_keys_unique perm (tbl[k := e])"
  unfolding ipc_keys_unique_def
  using assms [unfolded ipc_keys_unique_def]
  by (metis length_list_update nth_list_update_eq nth_list_update_neq)

lemma ipc_keys_unique_cong:
  assumes "map perm tbl = map perm tbl'"
  shows "ipc_keys_unique perm tbl = ipc_keys_unique perm tbl'"
proof -
  have "length tbl = length tbl'" using assms by (rule map_eq_imp_length_eq)
  moreover have "i < length tbl \<Longrightarrow> perm (tbl ! i) = perm (tbl' ! i)" for i
    using assms calculation by (metis nth_map)
  ultimately show ?thesis by (auto simp: ipc_keys_unique_def ipc_has_key_def)
qed

lemma ipc_init_allocated [simp]: "ipc_allocated (ipc_init cr key flag p)"
proof -
  have "bit (IPC_ALLOC OR ucast (flag AND 0x1FF)) 15"
    by (simp add: IPC_ALLOC_def bit_simps)
  moreover have "bit IPC_ALLOC 15" by (simp add: IPC_ALLOC_def)
  ultimately have "bit ((IPC_ALLOC OR ucast (flag AND 0x1FF)) AND IPC_ALLOC) 15"
    by (simp add: bit_and_iff)
  then show ?thesis
    by (auto simp: ipc_allocated_def ipc_init_def)
qed

lemma ipc_init_fields [simp]:
  "ip_key (ipc_init cr key flag p) = key" "ip_seq (ipc_init cr key flag p) = ip_seq p"
  "ip_uid (ipc_init cr key flag p) = cr_uid cr" "ip_cuid (ipc_init cr key flag p) = cr_uid cr"
  by (simp_all add: ipc_init_def)

locale ipc_facility =
  fixes perm :: "'e \<Rightarrow> ipc_perm"
    and set_perm :: "ipc_perm \<Rightarrow> 'e \<Rightarrow> 'e"
  assumes perm_set_perm: "perm (set_perm p e) = p"
begin

lemma ipcget_new:
  assumes "ipcget perm set_perm cr key flag tbl = Inr (True, i, tbl')"
  shows "i < length tbl \<and> \<not> ipc_allocated (perm (tbl ! i))
    \<and> tbl' = tbl[i := set_perm (ipc_init cr key flag (perm (tbl ! i))) (tbl ! i)]
    \<and> (key \<noteq> IPC_PRIVATE \<longrightarrow> (\<forall>b\<in>set tbl. \<not> ipc_has_key perm key b))"
  using assms
  by (auto simp: ipcget_def Let_def split: if_splits option.splits ipc_scan.splits
      dest!: ipcget_private_Some dest: ipcget_scan_End_first_free ipcget_scan_End_no_key
      intro: sym)
    (metis ipcget_private_Some ipcget_scan_End_first_free ipcget_scan_End_no_key
      add_0 diff_zero)+

lemma ipcget_old:
  assumes "ipcget perm set_perm cr key flag tbl = Inr (False, i, tbl')"
  shows "i < length tbl \<and> tbl' = tbl \<and> key \<noteq> IPC_PRIVATE \<and> ipc_has_key perm key (tbl ! i)
    \<and> (flag AND 0x1FF) AND ucast (NOT (ip_mode (perm (tbl ! i)))) = 0"
  using assms
  by (auto simp: ipcget_def Let_def split: if_splits option.splits ipc_scan.splits
      dest!: ipcget_scan_Found)

lemma ipcget_length: "ipcget perm set_perm cr key flag tbl = Inr (s, i, tbl') \<Longrightarrow> length tbl' = length tbl"
  by (auto simp: ipcget_def Let_def split: if_splits option.splits ipc_scan.splits)

lemma ipcget_keys_unique:
  assumes uniq: "ipc_keys_unique perm tbl"
    and get: "ipcget perm set_perm cr key flag tbl = Inr (s, i, tbl')"
  shows "ipc_keys_unique perm tbl'"
proof (cases s)
  case False
  with get uniq ipcget_old show ?thesis by metis
next
  case True
  with get have new: "i < length tbl \<and> \<not> ipc_allocated (perm (tbl ! i))
      \<and> tbl' = tbl[i := set_perm (ipc_init cr key flag (perm (tbl ! i))) (tbl ! i)]
      \<and> (key \<noteq> IPC_PRIVATE \<longrightarrow> (\<forall>b\<in>set tbl. \<not> ipc_has_key perm key b))"
    using ipcget_new by simp
  have only: "j = i \<or> \<not> ipc_has_key perm key (tbl ! j)"
    if "j < length tbl" "key \<noteq> IPC_PRIVATE" for j
    using new that nth_mem by blast
  have at_i: "key' = key" if "ipc_has_key perm key' (tbl' ! i)" for key'
    using new that by (simp add: ipc_has_key_def perm_set_perm)
  have off_i: "tbl' ! j = tbl ! j" if "j \<noteq> i" for j
    using new that by simp
  show ?thesis
    unfolding ipc_keys_unique_def
    using uniq [unfolded ipc_keys_unique_def] new only at_i off_i
    by (metis length_list_update)
qed

lemma ipcget_errors:
  assumes "ipcget perm set_perm cr key flag tbl = Inl e"
  shows "e \<in> {ENOSPC, ENOENT, EEXIST, EACCES}"
    and "e = ENOSPC \<Longrightarrow> \<forall>b\<in>set tbl. ipc_allocated (perm b)"
proof -
  have scan: "e' \<in> {EEXIST, EACCES}" if "ipcget_scan perm key flag i a bs = ScanErr e'" for e' i a bs
    using that by (induction bs arbitrary: i a) (auto split: if_splits)
  show "e \<in> {ENOSPC, ENOENT, EEXIST, EACCES}"
    using assms by (auto simp: ipcget_def Let_def split: if_splits option.splits ipc_scan.splits
        dest: scan)
  show "\<forall>b\<in>set tbl. ipc_allocated (perm b)" if "e = ENOSPC"
    using assms that scan
    by (auto simp: ipcget_def Let_def ipcget_private_None
        split: if_splits option.splits ipc_scan.splits dest: ipcget_scan_End_first_free)
      (metis ipcget_private_None ipcget_scan_End_first_free)
qed

end

section \<open>Identifiers\<close>

text \<open>
  \<open>semget\<close> and \<open>msgget\<close> return \<open>seq * n + slot\<close>; \<open>semconv\<close> and \<open>msgconv\<close> take it apart
  again. The locale states the decoding, its lemmas that it inverts the encoding and
  refuses identifiers of removed entries.
\<close>

locale ipc_ids =
  fixes perm :: "'e \<Rightarrow> ipc_perm"
    and mni :: int
    and conv :: "'e list \<Rightarrow> int \<Rightarrow> nat option"
    and fits :: "int \<Rightarrow> bool"
  assumes conv_iff: "int (length tbl) = mni \<Longrightarrow> fits d \<Longrightarrow> conv tbl d = Some k \<longleftrightarrow>
      0 \<le> d \<and> k = nat (d mod mni) \<and> k < length tbl
      \<and> ipc_allocated (perm (tbl ! k)) \<and> d div mni = ip_seq (perm (tbl ! k))"
begin

lemma conv_encode:
  assumes "int (length tbl) = mni" "k < length tbl" "ipc_allocated (perm (tbl ! k))"
    and "0 \<le> ip_seq (perm (tbl ! k))" "fits (ip_seq (perm (tbl ! k)) * mni + int k)"
  shows "conv tbl (ip_seq (perm (tbl ! k)) * mni + int k) = Some k"
proof -
  have "int k < mni" "0 < mni" using assms(1,2) by auto
  with assms show ?thesis by (simp add: conv_iff)
qed

lemma conv_slot: "int (length tbl) = mni \<Longrightarrow> fits d \<Longrightarrow> conv tbl d = Some k \<Longrightarrow>
    k < length tbl \<and> ipc_allocated (perm (tbl ! k)) \<and> 0 \<le> d
    \<and> d = ip_seq (perm (tbl ! k)) * mni + int k"
  using div_mult_mod_eq [of d mni] by (auto simp: conv_iff)

text \<open>Once a slot is free, or reused with another sequence number, its old identifier is
  refused.\<close>

lemma conv_removed:
  assumes "int (length tbl) = mni" "fits d" "conv tbl d = Some k"
    and "ip_seq (perm e) \<noteq> ip_seq (perm (tbl ! k)) \<or> \<not> ipc_allocated (perm e)"
  shows "conv (tbl[k := e]) d = None"
proof (cases "conv (tbl[k := e]) d")
  case (Some j)
  have len: "int (length (tbl[k := e])) = mni" using assms(1) by simp
  have old: "k = nat (d mod mni)" "k < length tbl" "d div mni = ip_seq (perm (tbl ! k))"
    using iffD1 [OF conv_iff [OF assms(1,2)] assms(3)] by simp_all
  have new: "j = nat (d mod mni)" "ipc_allocated (perm (tbl[k := e] ! j))"
    "d div mni = ip_seq (perm (tbl[k := e] ! j))"
    using iffD1 [OF conv_iff [OF len assms(2)] Some] by blast+
  have "j = k" using old(1) new(1) by simp
  with old new assms(4) show ?thesis by simp
qed simp

text \<open>Freeing a slot refuses its identifier and changes the decoding of no other.\<close>

lemma conv_freed:
  assumes len: "int (length tbl) = mni" and fits: "fits d" and free: "\<not> ipc_allocated (perm e)"
  shows "conv (tbl[k := e]) d = (if conv tbl d = Some k then None else conv tbl d)"
proof -
  have len': "int (length (tbl[k := e])) = mni" using len by simp
  have "conv (tbl[k := e]) d = Some j \<longleftrightarrow> conv tbl d = Some j \<and> j \<noteq> k" for j
    unfolding conv_iff [OF len' fits] conv_iff [OF len fits]
    using free by (cases "j = k") auto
  then show ?thesis by (metis not_None_eq)
qed

end

end
