(* ===== verification/Svipc_Sem.thy ===== *)
theory Svipc_Sem
  imports Svipc_Ipc
begin

text \<open>
  The System V semaphore facility, \<open>kernel/bsd/svipc_sem.c\<close>: its data (\<open>sys/sem.h\<close>) and
  every operation, in the configuration without the \<open>SEC_*\<close> options.

  A semaphore array is the list \<open>sem_base\<close> of its slot; \<open>kfree\<close> of it leaves the empty
  list, so that a later access through the dangling pointer is a fault. The undo structure
  of a process is found through its pid (\<open>u.u_semundo\<close>), and the chain \<open>semundo_head\<close> of
  undo structures is the list of their owners. \<open>wakeup\<close> calls are recorded in order in
  \<open>sem_wakeups\<close>. What the user's memory holds, whether the exhaustible undo zone has a
  free element, and whether a sleep is interrupted are arguments.
\<close>

section \<open>Data\<close>

record sem =
  semval :: int
  sempid :: int
  semncnt :: int
  semzcnt :: int

record semid_ds =
  sem_perm :: ipc_perm
  sem_base :: "sem list"
  sem_nsems :: int
  sem_otime :: int
  sem_ctime :: int

record sembuf =
  sem_num :: int
  sem_op :: int
  sem_flg :: "16 word"

record undo_entry =
  uent_aoe :: int
  uent_num :: int
  uent_id :: int

record sem_undo =
  un_cnt :: int
  un_entp :: "undo_entry list"

record seminfo =
  semmni :: int
  semmsl :: int
  semopm :: int
  semume :: int
  semvmx :: int
  semaem :: int

text \<open>The two sleep channels of a semaphore are the addresses of its two counters.\<close>

datatype sem_chan = NCnt nat nat | ZCnt nat nat

record sem_state =
  sema :: "semid_ds list"
  semundo_head :: "int list"
  u_semundo :: "int \<Rightarrow> sem_undo option"
  sem_count :: int
  sem_asu :: bool
  sem_wakeups :: "sem_chan list"

record sem_env =
  se_cred :: ucred
  se_pid :: int
  se_time :: int
  se_zalloc :: bool

definition SEM_UNDO :: "16 word" where "SEM_UNDO = 0x1000"
definition SEM_A :: "64 word" where "SEM_A = IPC_W"
definition SEM_R :: "64 word" where "SEM_R = IPC_R"

definition undo_flag :: "sembuf \<Rightarrow> bool" where
  "undo_flag op \<longleftrightarrow> sem_flg op AND SEM_UNDO \<noteq> 0"

definition nowait_flag :: "sembuf \<Rightarrow> bool" where
  "nowait_flag op \<longleftrightarrow> sem_flg op AND ucast IPC_NOWAIT \<noteq> 0"

section \<open>Access to the arrays\<close>

definition sem_ref :: "sem_state \<Rightarrow> nat \<Rightarrow> nat \<Rightarrow> sem option" where
  "sem_ref st slot num =
     (case aref (sema st) slot of None \<Rightarrow> None | Some sp \<Rightarrow> aref (sem_base sp) num)"

definition sp_upd :: "(semid_ds \<Rightarrow> semid_ds) \<Rightarrow> nat \<Rightarrow> sem_state \<Rightarrow> sem_state" where
  "sp_upd f slot st = st\<lparr>sema := (sema st)[slot := f (sema st ! slot)]\<rparr>"

definition sem_upd :: "(sem \<Rightarrow> sem) \<Rightarrow> nat \<Rightarrow> nat \<Rightarrow> sem_state \<Rightarrow> sem_state" where
  "sem_upd f slot num =
     sp_upd (\<lambda>sp. sp\<lparr>sem_base := (sem_base sp)[num := f (sem_base sp ! num)]\<rparr>) slot"

definition sem_wakeup :: "sem_chan \<Rightarrow> sem_state \<Rightarrow> sem_state" where
  "sem_wakeup ch st = st\<lparr>sem_wakeups := sem_wakeups st @ [ch]\<rparr>"

text \<open>Clear a counter and wake its sleepers, where it is not zero.\<close>

definition wake_ncnt :: "nat \<Rightarrow> nat \<Rightarrow> sem_state \<Rightarrow> sem_state" where
  "wake_ncnt slot num st =
     (case sem_ref st slot num of
        None \<Rightarrow> st
      | Some semp \<Rightarrow>
          if semncnt semp \<noteq> 0
          then sem_wakeup (NCnt slot num) (sem_upd (\<lambda>s. s\<lparr>semncnt := 0\<rparr>) slot num st)
          else st)"

definition wake_zcnt :: "nat \<Rightarrow> nat \<Rightarrow> sem_state \<Rightarrow> sem_state" where
  "wake_zcnt slot num st =
     (case sem_ref st slot num of
        None \<Rightarrow> st
      | Some semp \<Rightarrow>
          if semzcnt semp \<noteq> 0
          then sem_wakeup (ZCnt slot num) (sem_upd (\<lambda>s. s\<lparr>semzcnt := 0\<rparr>) slot num st)
          else st)"

section \<open>semaoe: adjust-on-exit entries\<close>

definition uent_before :: "int \<Rightarrow> int \<Rightarrow> undo_entry \<Rightarrow> bool" where
  "uent_before sid num e \<longleftrightarrow> uent_id e < sid \<or> uent_id e = sid \<and> uent_num e < num"

definition uent_match :: "int \<Rightarrow> int \<Rightarrow> undo_entry \<Rightarrow> bool" where
  "uent_match sid num e \<longleftrightarrow> uent_id e = sid \<and> uent_num e = num"

definition set_undo :: "int \<Rightarrow> sem_undo \<Rightarrow> sem_state \<Rightarrow> sem_state" where
  "set_undo pid un st = st\<lparr>u_semundo := (u_semundo st)(pid \<mapsto> un)\<rparr>"

text \<open>No matching entry: a new one goes between \<open>puentp\<close> and \<open>uentp\<close>, and the first entry
  of a process puts its structure at the head of the chain.\<close>

definition semaoe_new ::
  "int \<Rightarrow> seminfo \<Rightarrow> int \<Rightarrow> int \<Rightarrow> int \<Rightarrow> sem_undo \<Rightarrow> undo_entry list \<Rightarrow> undo_entry list
    \<Rightarrow> sem_state \<Rightarrow> errno option \<times> sem_state" where
  "semaoe_new pid info val sid num un pre post st =
     (if un_cnt un < semume info then
        let new = \<lparr>uent_aoe = s16 (- val), uent_num = s16 num, uent_id = s32 sid\<rparr>;
            st = set_undo pid \<lparr>un_cnt = s16 (un_cnt un + 1), un_entp = pre @ new # post\<rparr> st
        in (None, if un_entp un = [] then st\<lparr>semundo_head := pid # semundo_head st\<rparr> else st)
      else (Some EINVAL, st))"

text \<open>A matching entry \<open>e\<close>: subtract, back out when the adjustment leaves the range, and
  remove the entry (and an empty structure from the chain) when it is zero.\<close>

definition semaoe_found ::
  "int \<Rightarrow> seminfo \<Rightarrow> int \<Rightarrow> sem_undo \<Rightarrow> undo_entry list \<Rightarrow> undo_entry \<Rightarrow> undo_entry list
    \<Rightarrow> sem_state \<Rightarrow> errno option \<times> sem_state" where
  "semaoe_found pid info val un pre e rest st =
     (let aoe = s16 (uent_aoe e - val) in
      if aoe > semaem info \<or> aoe < - semaem info then
        (Some ERANGE,
         set_undo pid (un\<lparr>un_entp := pre @ e\<lparr>uent_aoe := s16 (aoe + val)\<rparr> # rest\<rparr>) st)
      else if aoe = 0 then
        let st = set_undo pid \<lparr>un_cnt = s16 (un_cnt un - 1), un_entp = pre @ rest\<rparr> st
        in (None, if pre @ rest = []
                  then st\<lparr>semundo_head := remove1 pid (semundo_head st)\<rparr> else st)
      else (None, set_undo pid (un\<lparr>un_entp := pre @ e\<lparr>uent_aoe := aoe\<rparr> # rest\<rparr>) st))"

text \<open>The search: \<open>puentp\<close> is the last entry before the pair, \<open>uentp\<close> the next one.\<close>

definition semaoe_ents ::
  "int \<Rightarrow> seminfo \<Rightarrow> int \<Rightarrow> int \<Rightarrow> int \<Rightarrow> sem_undo \<Rightarrow> sem_state \<Rightarrow> errno option \<times> sem_state" where
  "semaoe_ents pid info val sid num un st =
     (let pre = takeWhile (uent_before sid num) (un_entp un);
          post = dropWhile (uent_before sid num) (un_entp un)
      in case post of
           [] \<Rightarrow> semaoe_new pid info val sid num un pre post st
         | e # rest \<Rightarrow>
             if uent_match sid num e then semaoe_found pid info val un pre e rest st
             else semaoe_new pid info val sid num un pre post st)"

definition semaoe ::
  "sem_env \<Rightarrow> seminfo \<Rightarrow> int \<Rightarrow> int \<Rightarrow> int \<Rightarrow> sem_state \<Rightarrow> errno option \<times> sem_state" where
  "semaoe env info val sid num st =
     (if val = 0 then (None, st)
      else if val > semaem info \<or> val < - semaem info then (Some ERANGE, st)
      else case u_semundo st (se_pid env) of
             Some un \<Rightarrow> semaoe_ents (se_pid env) info val sid num un st
           | None \<Rightarrow>
               if se_zalloc env then
                 semaoe_ents (se_pid env) info val sid num \<lparr>un_cnt = 0, un_entp = []\<rparr>
                   (set_undo (se_pid env) \<lparr>un_cnt = 0, un_entp = []\<rparr> st)
               else (Some ENOSPC, st))"

section \<open>semconv\<close>

definition semconv :: "seminfo \<Rightarrow> semid_ds list \<Rightarrow> int \<Rightarrow> nat option" where
  "semconv info tbl s =
     (if s < 0 then None
      else
        let slot = nat (s mod semmni info)
        in case aref tbl slot of
             None \<Rightarrow> None
           | Some sp \<Rightarrow>
               if \<not> ipc_allocated (sem_perm sp) \<or> s div semmni info \<noteq> ip_seq (sem_perm sp)
               then None else Some slot)"

section \<open>semunrm: removing undo entries\<close>

text \<open>The inner loop stops at the first entry with a larger semaphore identifier or a larger
  semaphore number, whichever set it belongs to. The bounds are unsigned.\<close>

fun semunrm_ents :: "int \<Rightarrow> int \<Rightarrow> int \<Rightarrow> undo_entry list \<Rightarrow> undo_entry list" where
  "semunrm_ents sid low high [] = []"
| "semunrm_ents sid low high (e # es) =
     (if uent_id e \<le> sid \<and> u64 (uent_num e) \<le> u64 high then
        if uent_id e = sid \<and> u64 (uent_num e) \<ge> u64 low then semunrm_ents sid low high es
        else e # semunrm_ents sid low high es
      else e # es)"

text \<open>The outer loop over the chain: structures left without entries leave the chain.\<close>

fun semunrm_procs :: "int \<Rightarrow> int \<Rightarrow> int \<Rightarrow> int list \<Rightarrow> sem_state \<Rightarrow> int list \<times> sem_state" where
  "semunrm_procs sid low high [] st = ([], st)"
| "semunrm_procs sid low high (pid # pids) st =
     (case u_semundo st pid of
        None \<Rightarrow> semunrm_procs sid low high pids st
      | Some un \<Rightarrow>
          let es = semunrm_ents sid low high (un_entp un);
              removed = length (un_entp un) - length es;
              st = set_undo pid \<lparr>un_cnt = s16 (un_cnt un - int removed), un_entp = es\<rparr> st;
              (pids', st) = semunrm_procs sid low high pids st
          in (if es = [] then pids' else pid # pids', st))"

definition semunrm :: "int \<Rightarrow> int \<Rightarrow> int \<Rightarrow> sem_state \<Rightarrow> sem_state" where
  "semunrm sid low high st =
     (let (pids, st) = semunrm_procs sid low high (semundo_head st) st
      in st\<lparr>semundo_head := pids\<rparr>)"

section \<open>semundo: backing out of a semop\<close>

text \<open>The body of the loop for one operation; \<open>None\<close> is an access beyond the array.\<close>

definition semundo_one ::
  "sem_env \<Rightarrow> seminfo \<Rightarrow> int \<Rightarrow> nat \<Rightarrow> sembuf \<Rightarrow> sem_state \<Rightarrow> sem_state option" where
  "semundo_one env info sid slot op st =
     (if sem_op op = 0 then Some st
      else
        case sem_ref st slot (nat (sem_num op)) of
          None \<Rightarrow> None
        | Some semp \<Rightarrow>
            let st = sem_upd (\<lambda>s. s\<lparr>semval := u16 (semval s - sem_op op)\<rparr>) slot (nat (sem_num op)) st
            in Some (if undo_flag op
                     then snd (semaoe env info (- sem_op op) sid (sem_num op) st) else st))"

text \<open>The argument is the list of the operations already done, the last one first.\<close>

fun semundo_loop ::
  "sem_env \<Rightarrow> seminfo \<Rightarrow> int \<Rightarrow> nat \<Rightarrow> sembuf list \<Rightarrow> sem_state \<Rightarrow> sem_state option" where
  "semundo_loop env info sid slot [] st = Some st"
| "semundo_loop env info sid slot (op # ops) st =
     (case semundo_one env info sid slot op st of
        None \<Rightarrow> None
      | Some st \<Rightarrow> semundo_loop env info sid slot ops st)"

definition semundo ::
  "sem_env \<Rightarrow> seminfo \<Rightarrow> sembuf list \<Rightarrow> int \<Rightarrow> nat \<Rightarrow> sem_state \<Rightarrow> sem_state option" where
  "semundo env info ops sid slot st = semundo_loop env info sid slot (rev ops) st"

section \<open>semop\<close>

datatype sem_outcome =
    SemRet int
  | SemErr errno
  | SemSleep sem_chan
  | SemFault

text \<open>Leave with an error after backing out of the operations already done.\<close>

definition semop_fail ::
  "sem_env \<Rightarrow> seminfo \<Rightarrow> sembuf list \<Rightarrow> int \<Rightarrow> nat \<Rightarrow> sem_outcome \<Rightarrow> sem_state
    \<Rightarrow> sem_outcome \<times> sem_state" where
  "semop_fail env info dn sid slot out st =
     (if dn = [] then (out, st)
      else case semundo env info dn sid slot st of
             None \<Rightarrow> (SemFault, st) | Some st \<Rightarrow> (out, st))"

text \<open>\<open>WAIT_FOR_SEM\<close> up to the sleep; \<open>wait_done\<close> below is what follows the sleep.\<close>

definition sem_chan_upd :: "(int \<Rightarrow> int) \<Rightarrow> sem_chan \<Rightarrow> sem_state \<Rightarrow> sem_state" where
  "sem_chan_upd f ch =
     (case ch of NCnt slot num \<Rightarrow> sem_upd (\<lambda>s. s\<lparr>semncnt := f (semncnt s)\<rparr>) slot num
               | ZCnt slot num \<Rightarrow> sem_upd (\<lambda>s. s\<lparr>semzcnt := f (semzcnt s)\<rparr>) slot num)"

definition sem_chan_ref :: "sem_state \<Rightarrow> sem_chan \<Rightarrow> int option" where
  "sem_chan_ref st ch =
     (case ch of NCnt slot num \<Rightarrow> map_option semncnt (sem_ref st slot num)
               | ZCnt slot num \<Rightarrow> map_option semzcnt (sem_ref st slot num))"

definition wait_for_sem ::
  "sem_env \<Rightarrow> seminfo \<Rightarrow> sembuf list \<Rightarrow> int \<Rightarrow> nat \<Rightarrow> sembuf \<Rightarrow> sem_chan \<Rightarrow> sem_state
    \<Rightarrow> sem_outcome \<times> sem_state" where
  "wait_for_sem env info dn sid slot op ch st =
     (case (if dn = [] then Some st else semundo env info dn sid slot st) of
        None \<Rightarrow> (SemFault, st)
      | Some st \<Rightarrow>
          if nowait_flag op then (SemErr EAGAIN, st)
          else (SemSleep ch, sem_chan_upd (\<lambda>n. u16 (n + 1)) ch st))"

definition wait_done :: "bool \<Rightarrow> sem_chan \<Rightarrow> sem_state \<Rightarrow> (bool \<times> sem_state) option" where
  "wait_done interrupted ch st =
     (if \<not> interrupted then Some (True, st)
      else case sem_chan_ref st ch of
             None \<Rightarrow> None
           | Some n \<Rightarrow>
               if n \<le> 1 then Some (False, sem_wakeup ch (sem_chan_upd (\<lambda>_. 0) ch st))
               else Some (False, sem_chan_upd (\<lambda>n. u16 (n - 1)) ch st))"

text \<open>The loop over the operations; \<open>dn\<close> are those done so far, in order.\<close>

fun semop_loop ::
  "sem_env \<Rightarrow> seminfo \<Rightarrow> int \<Rightarrow> nat \<Rightarrow> sembuf list \<Rightarrow> sembuf list \<Rightarrow> sem_state
    \<Rightarrow> sem_outcome \<times> sem_state" where
  "semop_loop env info sid slot dn [] st = (SemRet 0, st)"
| "semop_loop env info sid slot dn (op # ops) st =
     (let num = nat (sem_num op) in
      case sem_ref st slot num of
        None \<Rightarrow> (SemFault, st)
      | Some semp \<Rightarrow>
          if sem_op op > 0 then
            if sem_op op + semval semp > semvmx info
            then semop_fail env info dn sid slot (SemErr ERANGE) st
            else
              (case (if undo_flag op then semaoe env info (sem_op op) sid (sem_num op) st
                     else (None, st)) of
                 (Some e, st) \<Rightarrow> semop_fail env info dn sid slot (SemErr e) st
               | (None, st) \<Rightarrow>
                   let st = sem_upd (\<lambda>s. s\<lparr>semval := u16 (semval s + sem_op op)\<rparr>) slot num st;
                       st = wake_ncnt slot num st
                   in semop_loop env info sid slot (dn @ [op]) ops st)
          else if sem_op op < 0 then
            if semval semp \<ge> - sem_op op then
              (case (if undo_flag op then semaoe env info (sem_op op) sid (sem_num op) st
                     else (None, st)) of
                 (Some e, st) \<Rightarrow> semop_fail env info dn sid slot (SemErr e) st
               | (None, st) \<Rightarrow>
                   let st = sem_upd (\<lambda>s. s\<lparr>semval := u16 (semval s + sem_op op)\<rparr>) slot num st;
                       st = (if u16 (semval semp + sem_op op) = 0 then wake_zcnt slot num st else st)
                   in semop_loop env info sid slot (dn @ [op]) ops st)
            else wait_for_sem env info dn sid slot op (NCnt slot num) st
          else if semval semp \<noteq> 0 then wait_for_sem env info dn sid slot op (ZCnt slot num) st
          else semop_loop env info sid slot (dn @ [op]) ops st)"

text \<open>All operations succeeded.\<close>

fun set_sempids :: "int \<Rightarrow> nat \<Rightarrow> sembuf list \<Rightarrow> sem_state \<Rightarrow> sem_state" where
  "set_sempids pid slot [] st = st"
| "set_sempids pid slot (op # ops) st =
     set_sempids pid slot ops (sem_upd (\<lambda>s. s\<lparr>sempid := pid\<rparr>) slot (nat (sem_num op)) st)"

definition semop_finish ::
  "sem_env \<Rightarrow> nat \<Rightarrow> sembuf list \<Rightarrow> sem_outcome \<times> sem_state \<Rightarrow> sem_outcome \<times> sem_state" where
  "semop_finish env slot ops r =
     (case r of
        (SemRet v, st) \<Rightarrow>
          (SemRet 0,
           (sp_upd (\<lambda>sp. sp\<lparr>sem_otime := se_time env\<rparr>) slot (set_sempids (se_pid env) slot ops st))
             \<lparr>sem_count := sem_count st + 1\<rparr>)
      | _ \<Rightarrow> r)"

text \<open>The \<open>check:\<close> label. After a sleep the identifier is checked again and the operations are
  copied in again from user memory (\<open>None\<close> where the copy faults).\<close>

definition semop_check ::
  "sem_env \<Rightarrow> seminfo \<Rightarrow> bool \<Rightarrow> int \<Rightarrow> nat \<Rightarrow> sembuf list option \<Rightarrow> sem_state
    \<Rightarrow> sem_outcome \<times> sem_state" where
  "semop_check env info again sid slot uops st =
     (if again \<and> semconv info (sema st) sid = None then (SemErr EIDRM, st)
      else case uops of
             None \<Rightarrow> (SemErr EFAULT, st)
           | Some ops \<Rightarrow> semop_finish env slot ops (semop_loop env info sid slot [] ops st))"

text \<open>The check of every operation before the first attempt.\<close>

fun semop_perm :: "ucred \<Rightarrow> semid_ds \<Rightarrow> sembuf list \<Rightarrow> errno option" where
  "semop_perm cr sp [] = None"
| "semop_perm cr sp (op # ops) =
     (if ipcaccess cr (sem_perm sp) (if sem_op op \<noteq> 0 then SEM_A else SEM_R) then Some EACCES
      else if sem_num op \<ge> sem_nsems sp then Some EFBIG
      else semop_perm cr sp ops)"

definition semop ::
  "sem_env \<Rightarrow> seminfo \<Rightarrow> int \<Rightarrow> int \<Rightarrow> sembuf list option \<Rightarrow> sem_state
    \<Rightarrow> sem_outcome \<times> sem_state" where
  "semop env info sid nsops uops st =
     (case semconv info (sema st) sid of
        None \<Rightarrow> (SemErr EINVAL, st)
      | Some slot \<Rightarrow>
          if nsops > semopm info then (SemErr E2BIG, st)
          else case uops of
                 None \<Rightarrow> (SemErr EFAULT, st)
               | Some ops \<Rightarrow>
                   (case semop_perm (se_cred env) (sema st ! slot) ops of
                      Some e \<Rightarrow> (SemErr e, st)
                    | None \<Rightarrow> semop_check env info False sid slot (Some ops) st))"

text \<open>What a sleeper in \<open>semop\<close> does when its sleep ends.\<close>

definition semop_resume ::
  "sem_env \<Rightarrow> seminfo \<Rightarrow> int \<Rightarrow> nat \<Rightarrow> sem_chan \<Rightarrow> bool \<Rightarrow> sembuf list option \<Rightarrow> sem_state
    \<Rightarrow> sem_outcome \<times> sem_state" where
  "semop_resume env info sid slot ch interrupted uops st =
     (case wait_done interrupted ch st of
        None \<Rightarrow> (SemFault, st)
      | Some (False, st) \<Rightarrow> (SemErr EINTR, st)
      | Some (True, st) \<Rightarrow> semop_check env info True sid slot uops st)"

end
