(* ===== verification/Svipc_Semctl.thy ===== *)
theory Svipc_Semctl
  imports Svipc_Sem
begin

text \<open>
  The remaining entry points of \<open>kernel/bsd/svipc_sem.c\<close>: \<open>semctl\<close> by command, \<open>semget\<close>,
  \<open>semexit\<close> and the initial state. What the user supplies (the structure of \<open>IPC_SET\<close>, the
  values of \<open>SETALL\<close>) is an argument with \<open>None\<close> for a faulting copy; whether a copy out
  succeeds is an argument too. A result is the error or the return value, the data copied
  out, and the new state.
\<close>

section \<open>semctl\<close>

datatype sem_data = NoData | DsData semid_ds | ValsData "int list"

type_synonym sem_res = "(errno + int) \<times> sem_data \<times> sem_state"

text \<open>The owner check of \<open>IPC_RMID\<close> and \<open>IPC_SET\<close>: owner, creator or super-user.\<close>

definition sem_owner :: "ucred \<Rightarrow> ipc_perm \<Rightarrow> sem_state \<Rightarrow> errno option \<times> sem_state" where
  "sem_owner cr p st =
     (if cr_uid cr \<noteq> ip_uid p \<and> cr_uid cr \<noteq> ip_cuid p then
        let (e, asu) = suser cr (sem_asu st) in (e, st\<lparr>sem_asu := asu\<rparr>)
      else (None, st))"

text \<open>\<open>IPC_RMID\<close>: the loop over the semaphores, which wakes every sleeper.\<close>

fun rmid_sems :: "nat \<Rightarrow> nat \<Rightarrow> nat \<Rightarrow> sem_state \<Rightarrow> sem_state" where
  "rmid_sems slot num 0 st = st"
| "rmid_sems slot num (Suc n) st =
     rmid_sems slot (Suc num) n
       (wake_zcnt slot num
          (wake_ncnt slot num (sem_upd (\<lambda>s. s\<lparr>semval := 0, sempid := 0\<rparr>) slot num st)))"

definition semctl_rmid :: "sem_env \<Rightarrow> seminfo \<Rightarrow> int \<Rightarrow> nat \<Rightarrow> sem_state \<Rightarrow> sem_res" where
  "semctl_rmid env info sid slot st =
     (let sp = sema st ! slot in
      case sem_owner (se_cred env) (sem_perm sp) st of
        (Some e, st) \<Rightarrow> (Inl e, NoData, st)
      | (None, st) \<Rightarrow>
          let st = semunrm sid 0 (sem_nsems sp) st;
              st = rmid_sems slot 0 (nat (sem_nsems sp)) st;
              seq = (if s64 (sid + semmni info) < 0 then 0 else u16 (ip_seq (sem_perm sp) + 1));
              st = sp_upd (\<lambda>sp. sp\<lparr>sem_base := [],
                             sem_perm := (sem_perm sp)\<lparr>ip_seq := seq, ip_mode := 0\<rparr>\<rparr>) slot st
          in (Inr 0, NoData, st))"

definition semctl_set ::
  "sem_env \<Rightarrow> nat \<Rightarrow> semid_ds option \<Rightarrow> sem_state \<Rightarrow> sem_res" where
  "semctl_set env slot uds st =
     (case sem_owner (se_cred env) (sem_perm (sema st ! slot)) st of
        (Some e, st) \<Rightarrow> (Inl e, NoData, st)
      | (None, st) \<Rightarrow>
          (case uds of
             None \<Rightarrow> (Inl EFAULT, NoData, st)
           | Some ds \<Rightarrow>
               (Inr 0, NoData,
                sp_upd (\<lambda>sp. sp\<lparr>sem_perm := (sem_perm sp)
                    \<lparr>ip_uid := ip_uid (sem_perm ds), ip_gid := ip_gid (sem_perm ds),
                     ip_mode := (ip_mode (sem_perm ds) AND 0x1FF) OR IPC_ALLOC\<rparr>,
                    sem_ctime := se_time env\<rparr>) slot st)))"

definition semctl_stat :: "sem_env \<Rightarrow> nat \<Rightarrow> bool \<Rightarrow> sem_state \<Rightarrow> sem_res" where
  "semctl_stat env slot copyout st =
     (let sp = sema st ! slot in
      if ipcaccess (se_cred env) (sem_perm sp) SEM_R then (Inl EACCES, NoData, st)
      else if \<not> copyout then (Inl EFAULT, NoData, st)
      else (Inr 0, DsData sp, st))"

text \<open>\<open>GETNCNT\<close>, \<open>GETPID\<close>, \<open>GETVAL\<close> and \<open>GETZCNT\<close> differ in the field they return. Reading
  past the array cannot happen after the range check; the model returns \<open>EFAULT\<close> there.\<close>

definition semctl_get ::
  "(sem \<Rightarrow> int) \<Rightarrow> sem_env \<Rightarrow> nat \<Rightarrow> int \<Rightarrow> sem_state \<Rightarrow> sem_res" where
  "semctl_get field env slot semnum st =
     (let sp = sema st ! slot in
      if ipcaccess (se_cred env) (sem_perm sp) SEM_R then (Inl EACCES, NoData, st)
      else if semnum \<ge> sem_nsems sp \<or> semnum < 0 then (Inl EINVAL, NoData, st)
      else case sem_ref st slot (nat semnum) of
             None \<Rightarrow> (Inl EFAULT, NoData, st)
           | Some semp \<Rightarrow> (Inr (field semp), NoData, st))"

definition semctl_getncnt :: "sem_env \<Rightarrow> nat \<Rightarrow> int \<Rightarrow> sem_state \<Rightarrow> sem_res" where
  "semctl_getncnt = semctl_get semncnt"

definition semctl_getpid :: "sem_env \<Rightarrow> nat \<Rightarrow> int \<Rightarrow> sem_state \<Rightarrow> sem_res" where
  "semctl_getpid = semctl_get sempid"

definition semctl_getval :: "sem_env \<Rightarrow> nat \<Rightarrow> int \<Rightarrow> sem_state \<Rightarrow> sem_res" where
  "semctl_getval = semctl_get semval"

definition semctl_getzcnt :: "sem_env \<Rightarrow> nat \<Rightarrow> int \<Rightarrow> sem_state \<Rightarrow> sem_res" where
  "semctl_getzcnt = semctl_get semzcnt"

lemmas semctl_get_defs = semctl_getncnt_def semctl_getpid_def semctl_getval_def semctl_getzcnt_def

text \<open>\<open>GETALL\<close> copies the values out one by one; \<open>fault_at\<close> is the first copy that faults.\<close>

definition semctl_getall :: "sem_env \<Rightarrow> nat \<Rightarrow> nat option \<Rightarrow> sem_state \<Rightarrow> sem_res" where
  "semctl_getall env slot fault_at st =
     (let sp = sema st ! slot;
          vals = map semval (take (nat (sem_nsems sp)) (sem_base sp))
      in if ipcaccess (se_cred env) (sem_perm sp) SEM_R then (Inl EACCES, NoData, st)
         else case fault_at of
                None \<Rightarrow> (Inr 0, ValsData vals, st)
              | Some k \<Rightarrow>
                  if k < nat (sem_nsems sp) then (Inl EFAULT, ValsData (take k vals), st)
                  else (Inr 0, ValsData vals, st))"

text \<open>Store a value and wake the sleepers it may satisfy.\<close>

definition sem_setval :: "nat \<Rightarrow> nat \<Rightarrow> int \<Rightarrow> sem_state \<Rightarrow> sem_state" where
  "sem_setval slot num v st =
     (let st = sem_upd (\<lambda>s. s\<lparr>semval := u16 v\<rparr>) slot num st
      in if u16 v \<noteq> 0 then wake_ncnt slot num st else wake_zcnt slot num st)"

definition semctl_setval ::
  "sem_env \<Rightarrow> seminfo \<Rightarrow> int \<Rightarrow> nat \<Rightarrow> int \<Rightarrow> int \<Rightarrow> sem_state \<Rightarrow> sem_res" where
  "semctl_setval env info sid slot semnum arg st =
     (let sp = sema st ! slot in
      if ipcaccess (se_cred env) (sem_perm sp) SEM_A then (Inl EACCES, NoData, st)
      else if semnum \<ge> sem_nsems sp \<or> semnum < 0 then (Inl EINVAL, NoData, st)
      else if u32 arg > semvmx info then (Inl ERANGE, NoData, st)
      else
        let num = nat semnum;
            st = sem_setval slot num arg st;
            st = sem_upd (\<lambda>s. s\<lparr>sempid := se_pid env\<rparr>) slot num st
        in (Inr 0, NoData, semunrm sid semnum semnum st))"

fun setall_sems :: "int \<Rightarrow> nat \<Rightarrow> nat \<Rightarrow> int list \<Rightarrow> sem_state \<Rightarrow> sem_state" where
  "setall_sems pid slot num [] st = st"
| "setall_sems pid slot num (v # vs) st =
     setall_sems pid slot (Suc num) vs
       (sem_upd (\<lambda>s. s\<lparr>sempid := pid\<rparr>) slot num (sem_setval slot num v st))"

definition semctl_setall ::
  "sem_env \<Rightarrow> seminfo \<Rightarrow> int \<Rightarrow> nat \<Rightarrow> int list option \<Rightarrow> sem_state \<Rightarrow> sem_res" where
  "semctl_setall env info sid slot uvals st =
     (let sp = sema st ! slot in
      if ipcaccess (se_cred env) (sem_perm sp) SEM_A then (Inl EACCES, NoData, st)
      else case uvals of
             None \<Rightarrow> (Inl EFAULT, NoData, st)
           | Some vs \<Rightarrow>
               let vs = map u16 (take (nat (sem_nsems sp)) vs)
               in if list_ex (\<lambda>v. v > semvmx info) vs then (Inl ERANGE, NoData, st)
                  else (Inr 0, NoData,
                        setall_sems (se_pid env) slot 0 vs (semunrm sid 0 (sem_nsems sp) st)))"

text \<open>What the user's memory supplies to one \<open>semctl\<close> call.\<close>

record sem_user =
  su_ds :: "semid_ds option"
  su_vals :: "int list option"
  su_copyout :: bool
  su_fault_at :: "nat option"

definition semctl ::
  "sem_env \<Rightarrow> seminfo \<Rightarrow> sem_user \<Rightarrow> int \<Rightarrow> int \<Rightarrow> int \<Rightarrow> int \<Rightarrow> sem_state \<Rightarrow> sem_res" where
  "semctl env info usr sid semnum cmd arg st =
     (case semconv info (sema st) sid of
        None \<Rightarrow> (Inl EINVAL, NoData, st)
      | Some slot \<Rightarrow>
          if cmd = 0 then semctl_rmid env info sid slot st
          else if cmd = 1 then semctl_set env slot (su_ds usr) st
          else if cmd = 2 then semctl_stat env slot (su_copyout usr) st
          else if cmd = 3 then semctl_getncnt env slot semnum st
          else if cmd = 4 then semctl_getpid env slot semnum st
          else if cmd = 5 then semctl_getval env slot semnum st
          else if cmd = 6 then semctl_getall env slot (su_fault_at usr) st
          else if cmd = 7 then semctl_getzcnt env slot semnum st
          else if cmd = 8 then semctl_setval env info sid slot semnum arg st
          else if cmd = 9 then semctl_setall env info sid slot (su_vals usr) st
          else (Inl EINVAL, NoData, st))"

section \<open>semexit\<close>

text \<open>The entries of the exiting process, one by one; \<open>None\<close> when an entry's semaphore number
  is beyond the array, which the code does not check.\<close>

fun semexit_ents :: "seminfo \<Rightarrow> undo_entry list \<Rightarrow> sem_state \<Rightarrow> sem_state option" where
  "semexit_ents info [] st = Some st"
| "semexit_ents info (e # es) st =
     (case semconv info (sema st) (uent_id e) of
        None \<Rightarrow> semexit_ents info es st
      | Some slot \<Rightarrow>
          let num = nat (uent_num e) in
          case sem_ref st slot num of
            None \<Rightarrow> None
          | Some semp \<Rightarrow>
              let val = semval semp + uent_aoe e in
              if val < 0 \<or> val > semvmx info then semexit_ents info es st
              else
                let st = sem_upd (\<lambda>s. s\<lparr>semval := u16 val\<rparr>) slot num st;
                    st = (if val = 0 then wake_zcnt slot num st else st);
                    st = (if uent_aoe e > 0 then wake_ncnt slot num st else st)
                in semexit_ents info es st)"

definition semexit :: "int \<Rightarrow> seminfo \<Rightarrow> sem_state \<Rightarrow> sem_state option" where
  "semexit pid info st =
     (case u_semundo st pid of
        None \<Rightarrow> Some st
      | Some un \<Rightarrow>
          (case (if un_entp un = [] then Some st
                 else map_option
                        (\<lambda>st. st\<lparr>semundo_head := remove1 pid (semundo_head st)\<rparr>)
                        (semexit_ents info (un_entp un) st)) of
             None \<Rightarrow> None
           | Some st \<Rightarrow> Some (st\<lparr>u_semundo := (u_semundo st)(pid := None)\<rparr>)))"

section \<open>semget\<close>

definition sem_set_perm :: "ipc_perm \<Rightarrow> semid_ds \<Rightarrow> semid_ds" where
  "sem_set_perm p sp = sp\<lparr>sem_perm := p\<rparr>"

definition zero_sem :: sem where
  "zero_sem = \<lparr>semval = 0, sempid = 0, semncnt = 0, semzcnt = 0\<rparr>"

definition semget ::
  "sem_env \<Rightarrow> seminfo \<Rightarrow> int \<Rightarrow> int \<Rightarrow> 64 word \<Rightarrow> sem_state \<Rightarrow> (errno + int) \<times> sem_state" where
  "semget env info key nsems semflg st =
     (case ipcget sem_perm sem_set_perm (se_cred env) (s32 key) semflg (sema st) of
        Inl e \<Rightarrow> (Inl e, st)
      | Inr (s, slot, tbl) \<Rightarrow>
          let st = st\<lparr>sema := tbl\<rparr>;
              retval = (\<lambda>st. ip_seq (sem_perm (sema st ! slot)) * semmni info + int slot)
          in if s then
               if nsems \<le> 0 \<or> nsems > semmsl info then
                 (Inl EINVAL,
                  sp_upd (\<lambda>sp. sp\<lparr>sem_perm := (sem_perm sp)\<lparr>ip_mode := 0\<rparr>\<rparr>) slot st)
               else
                 let st = sp_upd (\<lambda>sp. sp\<lparr>sem_base := replicate (nat nsems) zero_sem,
                            sem_nsems := u16 nsems, sem_ctime := se_time env, sem_otime := 0\<rparr>) slot st
                 in (Inr (retval st), st)
             else if nsems < 0 \<or> (nsems \<noteq> 0 \<and> sem_nsems (tbl ! slot) < nsems) then (Inl EINVAL, st)
             else (Inr (retval st), st))"

section \<open>The initial state\<close>

text \<open>The table is zeroed static storage.\<close>

definition zero_perm :: ipc_perm where
  "zero_perm = \<lparr>ip_uid = 0, ip_gid = 0, ip_cuid = 0, ip_cgid = 0, ip_mode = 0, ip_seq = 0, ip_key = 0\<rparr>"

definition zero_semid_ds :: semid_ds where
  "zero_semid_ds =
     \<lparr>sem_perm = zero_perm, sem_base = [], sem_nsems = 0, sem_otime = 0, sem_ctime = 0\<rparr>"

definition sem_init :: "seminfo \<Rightarrow> sem_state" where
  "sem_init info =
     \<lparr>sema = replicate (nat (semmni info)) zero_semid_ds, semundo_head = [],
      u_semundo = (\<lambda>_. None), sem_count = 0, sem_asu = False, sem_wakeups = []\<rparr>"

end
