(* ===== verification/Svipc_Sem_Undo.thy ===== *)
theory Svipc_Sem_Undo
  imports Svipc_Semctl
begin

text \<open>
  The undo bookkeeping of \<open>svipc_sem.c\<close>: well-formedness of the undo structures, the
  refinement of \<open>semaoe\<close> to a pure step on a sorted entry list and from there to a map from
  (set, semaphore) to adjustment, and the fact \<open>semundo\<close> rests on: adjusting by the
  negated value takes an adjustment back.
\<close>

section \<open>Well-formed parameters and undo structures\<close>

text \<open>The parameters of \<open>conf/param.c\<close> that the 16-bit fields and 32-bit identifiers need.
  The defaults of \<open>sys/param.h\<close> (\<open>SEMVMX\<close> 32767, \<open>SEMAEM\<close> 16384) satisfy it.\<close>

definition seminfo_ok :: "seminfo \<Rightarrow> bool" where
  "seminfo_ok info \<longleftrightarrow>
     0 < semmni info \<and> semmni info \<le> 32767 \<and> 0 < semmsl info \<and> semmsl info \<le> 32767
     \<and> 0 \<le> semvmx info \<and> semvmx info \<le> 65535 \<and> 0 \<le> semaem info \<and> semaem info \<le> 16384
     \<and> semume info \<le> 32767"

definition uent_less :: "undo_entry \<Rightarrow> undo_entry \<Rightarrow> bool" where
  "uent_less e f \<longleftrightarrow> uent_before (uent_id f) (uent_num f) e"

definition uent_ok :: "seminfo \<Rightarrow> undo_entry \<Rightarrow> bool" where
  "uent_ok info e \<longleftrightarrow>
     uent_aoe e \<noteq> 0 \<and> - semaem info \<le> uent_aoe e \<and> uent_aoe e \<le> semaem info
     \<and> 0 \<le> uent_num e \<and> uent_num e < 32768 \<and> 0 \<le> uent_id e \<and> uent_id e < 2147483648"

definition ents_ok :: "seminfo \<Rightarrow> undo_entry list \<Rightarrow> bool" where
  "ents_ok info es \<longleftrightarrow>
     sorted_wrt uent_less es \<and> (\<forall>e\<in>set es. uent_ok info e) \<and> int (length es) \<le> max 0 (semume info)"

definition undo_ok :: "seminfo \<Rightarrow> sem_undo \<Rightarrow> bool" where
  "undo_ok info un \<longleftrightarrow> ents_ok info (un_entp un) \<and> un_cnt un = int (length (un_entp un))"

definition undo_ents :: "sem_state \<Rightarrow> int \<Rightarrow> undo_entry list" where
  "undo_ents st pid = (case u_semundo st pid of None \<Rightarrow> [] | Some un \<Rightarrow> un_entp un)"

text \<open>Every structure is well formed, and the chain holds each process that has entries,
  once.\<close>

definition undos_ok :: "seminfo \<Rightarrow> sem_state \<Rightarrow> bool" where
  "undos_ok info st \<longleftrightarrow>
     distinct (semundo_head st) \<and> set (semundo_head st) = {p. undo_ents st p \<noteq> []}
     \<and> (\<forall>p un. u_semundo st p = Some un \<longrightarrow> undo_ok info un)"

lemma uent_less_trans: "uent_less e f \<Longrightarrow> uent_less f g \<Longrightarrow> uent_less e g"
  by (auto simp: uent_less_def uent_before_def)

lemma uent_less_irrefl: "\<not> uent_less e e"
  by (simp add: uent_less_def uent_before_def)

lemma uent_before_match: "uent_match sid num f \<Longrightarrow> uent_before sid num e \<longleftrightarrow> uent_less e f"
  by (auto simp: uent_less_def uent_match_def)

lemma uent_before_less: "uent_less e f \<Longrightarrow> uent_before sid num f \<Longrightarrow> uent_before sid num e"
  by (auto simp: uent_less_def uent_before_def)

lemma uent_trichotomy:
  "\<not> uent_before sid num e \<Longrightarrow> \<not> uent_match sid num e \<Longrightarrow>
     uent_match sid num new \<Longrightarrow> uent_less new e"
  by (auto simp: uent_less_def uent_before_def uent_match_def)

section \<open>The pure adjustment step\<close>

definition aoe_insert ::
  "seminfo \<Rightarrow> int \<Rightarrow> int \<Rightarrow> int \<Rightarrow> undo_entry list \<Rightarrow> undo_entry list \<Rightarrow> undo_entry list
    \<Rightarrow> errno option \<times> undo_entry list" where
  "aoe_insert info val sid num es pre post =
     (if int (length es) < semume info
      then (None, pre @ \<lparr>uent_aoe = - val, uent_num = num, uent_id = sid\<rparr> # post)
      else (Some EINVAL, es))"

definition aoe_step ::
  "seminfo \<Rightarrow> int \<Rightarrow> int \<Rightarrow> int \<Rightarrow> undo_entry list \<Rightarrow> errno option \<times> undo_entry list" where
  "aoe_step info val sid num es =
     (if val = 0 then (None, es)
      else if val > semaem info \<or> val < - semaem info then (Some ERANGE, es)
      else
        let pre = takeWhile (uent_before sid num) es;
            post = dropWhile (uent_before sid num) es
        in case post of
             [] \<Rightarrow> aoe_insert info val sid num es pre post
           | e # rest \<Rightarrow>
               if uent_match sid num e then
                 let aoe = uent_aoe e - val in
                 if aoe > semaem info \<or> aoe < - semaem info then (Some ERANGE, es)
                 else if aoe = 0 then (None, pre @ rest)
                 else (None, pre @ e\<lparr>uent_aoe := aoe\<rparr> # rest)
               else aoe_insert info val sid num es pre post)"

text \<open>The adjustment of one semaphore, zero without an entry.\<close>

fun aoe_of :: "undo_entry list \<Rightarrow> int \<Rightarrow> int \<Rightarrow> int" where
  "aoe_of [] sid num = 0"
| "aoe_of (e # es) sid num = (if uent_match sid num e then uent_aoe e else aoe_of es sid num)"

lemma aoe_of_append:
  "aoe_of (es @ fs) sid num =
     (if \<exists>e\<in>set es. uent_match sid num e then aoe_of es sid num else aoe_of fs sid num)"
  by (induction es) auto

lemma aoe_of_none: "\<forall>e\<in>set es. \<not> uent_match sid num e \<Longrightarrow> aoe_of es sid num = 0"
  by (induction es) auto

lemma uent_match_unique:
  "uent_match sid num e \<Longrightarrow> uent_match sid' num' e \<Longrightarrow> sid = sid' \<and> num = num'"
  by (auto simp: uent_match_def)

lemma takeWhile_not_match:
  "e \<in> set (takeWhile (uent_before sid num) es) \<Longrightarrow> \<not> uent_match sid num e"
  by (auto dest!: set_takeWhileD simp: uent_before_def uent_match_def)

lemma dropWhile_less:
  assumes "sorted_wrt uent_less es" "dropWhile (uent_before sid num) es = e # rest" "f \<in> set rest"
  shows "uent_less e f"
proof -
  have "sorted_wrt uent_less (takeWhile (uent_before sid num) es @ e # rest)"
    using assms(1,2) by (metis takeWhile_dropWhile_id)
  with assms(3) show ?thesis by (simp add: sorted_wrt_append)
qed

lemma dropWhile_hd_not_before:
  "dropWhile (uent_before sid num) es = e # rest \<Longrightarrow> \<not> uent_before sid num e"
  by (metis hd_dropWhile list.distinct(1) list.sel(1))

text \<open>Where \<open>semaoe\<close> splits the entry list, whatever the list: everything before the place of
  the pair, and a rest that does not start before it.\<close>

definition splits_at :: "int \<Rightarrow> int \<Rightarrow> undo_entry list \<Rightarrow> undo_entry list \<Rightarrow> bool" where
  "splits_at sid num pre post \<longleftrightarrow>
     (\<forall>e\<in>set pre. uent_before sid num e) \<and> (post = [] \<or> \<not> uent_before sid num (hd post))"

lemma splits_at_while:
  "splits_at sid num pre post \<Longrightarrow>
     takeWhile (uent_before sid num) (pre @ post) = pre
     \<and> dropWhile (uent_before sid num) (pre @ post) = post"
  by (cases post) (auto simp: splits_at_def takeWhile_tail)

lemma splits_at_exists: "\<exists>pre post. es = pre @ post \<and> splits_at sid num pre post"
proof -
  have "es = takeWhile (uent_before sid num) es @ dropWhile (uent_before sid num) es"
    by simp
  moreover have "splits_at sid num (takeWhile (uent_before sid num) es)
      (dropWhile (uent_before sid num) es)"
    using hd_dropWhile [of "uent_before sid num" es]
    by (auto simp: splits_at_def dest: set_takeWhileD)
  ultimately show ?thesis by blast
qed

lemma aoe_step_split:
  assumes "splits_at sid num pre post"
  shows "aoe_step info val sid num (pre @ post) =
     (if val = 0 then (None, pre @ post)
      else if val > semaem info \<or> val < - semaem info then (Some ERANGE, pre @ post)
      else case post of
             [] \<Rightarrow> aoe_insert info val sid num (pre @ post) pre post
           | e # rest \<Rightarrow>
               if uent_match sid num e then
                 if uent_aoe e - val > semaem info \<or> uent_aoe e - val < - semaem info
                 then (Some ERANGE, pre @ post)
                 else if uent_aoe e - val = 0 then (None, pre @ rest)
                 else (None, pre @ e\<lparr>uent_aoe := uent_aoe e - val\<rparr> # rest)
               else aoe_insert info val sid num (pre @ post) pre post)"
  unfolding aoe_step_def Let_def
    conjunct1 [OF splits_at_while [OF assms]] conjunct2 [OF splits_at_while [OF assms]]
  by (rule refl)

lemma splits_at_sorted_rest:
  assumes "splits_at sid num pre (e # rest)" "sorted_wrt uent_less (pre @ e # rest)"
  shows "splits_at sid num pre rest"
proof (cases rest)
  case Nil
  with assms(1) show ?thesis by (simp add: splits_at_def)
next
  case (Cons f fs)
  with assms(2) have "uent_less e f" by (simp add: sorted_wrt_append)
  with assms(1) Cons uent_before_less [of e f sid num] show ?thesis
    by (auto simp: splits_at_def)
qed

lemma uent_less_not_match: "uent_less e f \<Longrightarrow> uent_match sid num e \<Longrightarrow> \<not> uent_match sid num f"
  unfolding uent_less_def uent_before_def uent_match_def by (metis less_irrefl)

lemma uent_before_not_match: "uent_before sid num e \<Longrightarrow> \<not> uent_match sid num e"
  unfolding uent_before_def uent_match_def by (metis less_irrefl)

text \<open>Inserting at the split keeps the order; so does changing an adjustment.\<close>

lemma sorted_insert_at:
  assumes sp: "splits_at sid num pre post" and so: "sorted_wrt uent_less (pre @ post)"
    and new: "uent_match sid num n" and nomatch: "post = [] \<or> \<not> uent_match sid num (hd post)"
  shows "sorted_wrt uent_less (pre @ n # post)"
proof -
  have pre: "uent_less e n" if "e \<in> set pre" for e
    using sp new that by (auto simp: splits_at_def uent_less_def uent_match_def)
  have post: "uent_less n e" if "e \<in> set post" for e
  proof (cases post)
    case (Cons f fs)
    with sp nomatch new have "uent_less n f"
      using uent_trichotomy [of sid num f n] by (auto simp: splits_at_def)
    moreover have "e = f \<or> uent_less f e"
      using so that Cons by (auto simp: sorted_wrt_append)
    ultimately show ?thesis using uent_less_trans by blast
  qed (use that in simp)
  show ?thesis using so pre post by (auto simp: sorted_wrt_append)
qed

lemma uent_less_upd [simp]:
  "uent_less (e\<lparr>uent_aoe := a\<rparr>) f \<longleftrightarrow> uent_less e f" "uent_less f (e\<lparr>uent_aoe := a\<rparr>) \<longleftrightarrow> uent_less f e"
  "uent_match sid num (e\<lparr>uent_aoe := a\<rparr>) \<longleftrightarrow> uent_match sid num e"
  "uent_before sid num (e\<lparr>uent_aoe := a\<rparr>) \<longleftrightarrow> uent_before sid num e"
  by (simp_all add: uent_less_def uent_before_def uent_match_def)

section \<open>The step keeps the entries well formed and is a map update\<close>

lemma ents_ok_insert:
  assumes "seminfo_ok info" "splits_at sid num pre post" "ents_ok info (pre @ post)"
    and "post = [] \<or> \<not> uent_match sid num (hd post)"
    and "0 \<le> num" "num < 32768" "0 \<le> sid" "sid < 2147483648"
    and "a \<noteq> 0" "- semaem info \<le> a" "a \<le> semaem info" "int (length (pre @ post)) < semume info"
  shows "ents_ok info (pre @ \<lparr>uent_aoe = a, uent_num = num, uent_id = sid\<rparr> # post)"
  using assms sorted_insert_at [of sid num pre post "\<lparr>uent_aoe = a, uent_num = num, uent_id = sid\<rparr>"]
  by (auto simp: ents_ok_def uent_ok_def uent_match_def)

lemma aoe_step_ok:
  assumes info: "seminfo_ok info" and es: "ents_ok info es"
    and rng: "0 \<le> num" "num < 32768" "0 \<le> sid" "sid < 2147483648"
    and step: "aoe_step info val sid num es = (r, es')"
  shows "ents_ok info es'"
proof -
  obtain pre post where split: "es = pre @ post" "splits_at sid num pre post"
    using splits_at_exists by blast
  note st = step [unfolded split(1) aoe_step_split [OF split(2)]]
  consider (same) "es' = es"
    | (new) "post = [] \<or> \<not> uent_match sid num (hd post)" "val \<noteq> 0" "- semaem info \<le> val"
        "val \<le> semaem info" "int (length es) < semume info"
        "es' = pre @ \<lparr>uent_aoe = - val, uent_num = num, uent_id = sid\<rparr> # post"
    | (gone) e rest where "post = e # rest" "es' = pre @ rest"
    | (adj) e rest where "post = e # rest" "es' = pre @ e\<lparr>uent_aoe := uent_aoe e - val\<rparr> # rest"
        "uent_aoe e - val \<noteq> 0" "- semaem info \<le> uent_aoe e - val" "uent_aoe e - val \<le> semaem info"
    using st split(1) by (auto simp: aoe_insert_def split: if_splits list.splits)
  then show ?thesis
  proof cases
    case same
    with es show ?thesis by simp
  next
    case new
    then show ?thesis using ents_ok_insert [OF info split(2)] es rng split(1) by simp
  next
    case gone
    with es split(1) show ?thesis by (auto simp: ents_ok_def sorted_wrt_append)
  next
    case adj
    with es split(1) show ?thesis by (auto simp: ents_ok_def sorted_wrt_append uent_ok_def)
  qed
qed

lemma aoe_of_pre:
  "splits_at sid num pre post \<Longrightarrow> aoe_of (pre @ post) sid num = aoe_of post sid num"
  by (auto simp: splits_at_def aoe_of_append dest: uent_before_not_match)

lemma aoe_of_other:
  "\<not> uent_match s n e \<Longrightarrow> aoe_of (es @ e # fs) s n = aoe_of (es @ fs) s n"
  by (induction es) auto

lemma aoe_of_rest:
  assumes "sorted_wrt uent_less (e # rest)" "uent_match sid num e"
  shows "aoe_of rest sid num = 0"
  using assms by (intro aoe_of_none) (auto dest: uent_less_not_match)

lemma aoe_of_no_match:
  assumes "sorted_wrt uent_less post" "post = [] \<or> \<not> uent_before sid num (hd post)"
    and "post = [] \<or> \<not> uent_match sid num (hd post)"
  shows "aoe_of post sid num = 0"
proof (intro aoe_of_none ballI)
  fix e assume e: "e \<in> set post"
  then obtain f fs where post: "post = f # fs" by (cases post) auto
  have less: "uent_less \<lparr>uent_aoe = 0, uent_num = num, uent_id = sid\<rparr> f"
    by (rule uent_trichotomy [of sid num]) (use assms post in \<open>auto simp: uent_match_def\<close>)
  have "e = f \<or> uent_less f e" using assms(1) e post by auto
  with less uent_less_trans
  have "uent_less \<lparr>uent_aoe = 0, uent_num = num, uent_id = sid\<rparr> e" by blast
  then show "\<not> uent_match sid num e"
    by (rule uent_less_not_match) (simp add: uent_match_def)
qed

text \<open>A successful step subtracts the value from one adjustment and changes no other.\<close>

lemma aoe_step_map:
  assumes es: "ents_ok info es" and step: "aoe_step info val sid num es = (None, es')"
  shows "aoe_of es' s n = (if s = sid \<and> n = num then aoe_of es sid num - val else aoe_of es s n)"
proof -
  obtain pre post where split: "es = pre @ post" "splits_at sid num pre post"
    using splits_at_exists by blast
  have so: "sorted_wrt uent_less post" "sorted_wrt uent_less (pre @ post)"
    using es split(1) by (auto simp: ents_ok_def sorted_wrt_append)
  note old = aoe_of_pre [OF split(2)]
  note st = step [unfolded split(1) aoe_step_split [OF split(2)]]
  consider (zero) "val = 0" "es' = es"
    | (new) "post = [] \<or> \<not> uent_match sid num (hd post)"
        "es' = pre @ \<lparr>uent_aoe = - val, uent_num = num, uent_id = sid\<rparr> # post"
    | (gone) e rest where "post = e # rest" "uent_match sid num e" "es' = pre @ rest"
        "uent_aoe e - val = 0"
    | (adj) e rest where "post = e # rest" "uent_match sid num e"
        "es' = pre @ e\<lparr>uent_aoe := uent_aoe e - val\<rparr> # rest"
    using st split(1) by (auto simp: aoe_insert_def split: if_splits list.splits)
  then show ?thesis
  proof cases
    case zero
    then show ?thesis by simp
  next
    case new
    let ?e = "\<lparr>uent_aoe = - val, uent_num = num, uent_id = sid\<rparr>"
    have "uent_match sid num ?e" by (simp add: uent_match_def)
    moreover have "splits_at sid num pre (?e # post)"
      using split(2) by (auto simp: splits_at_def uent_before_def)
    moreover have "aoe_of post sid num = 0"
      using aoe_of_no_match [OF so(1)] split(2) new(1) by (auto simp: splits_at_def)
    ultimately have "aoe_of es' sid num = aoe_of es sid num - val"
      using new(2) old split(1) aoe_of_pre [of sid num pre "?e # post"] by simp
    moreover have "aoe_of es' s n = aoe_of es s n" if "\<not> (s = sid \<and> n = num)"
      using aoe_of_other [of s n ?e pre post] that new(2) split(1) uent_match_unique
        \<open>uent_match sid num ?e\<close> by metis
    ultimately show ?thesis by simp
  next
    case gone
    have "aoe_of rest sid num = 0"
      using aoe_of_rest so(1) gone(1,2) by blast
    moreover have "splits_at sid num pre rest"
      using splits_at_sorted_rest split(2) so(2) gone(1) by blast
    ultimately have "aoe_of es' sid num = aoe_of es sid num - val"
      using gone old split(1) aoe_of_pre [of sid num pre rest] by simp
    moreover have "aoe_of es' s n = aoe_of es s n" if "\<not> (s = sid \<and> n = num)"
      using aoe_of_other [of s n e pre rest] that gone split(1) uent_match_unique by metis
    ultimately show ?thesis by simp
  next
    case adj
    let ?e = "e\<lparr>uent_aoe := uent_aoe e - val\<rparr>"
    have "splits_at sid num pre (?e # rest)"
      using split(2) adj(1) by (auto simp: splits_at_def)
    then have "aoe_of es' sid num = aoe_of es sid num - val"
      using adj old split(1) aoe_of_pre [of sid num pre "?e # rest"] by simp
    moreover have "aoe_of es' s n = aoe_of es s n" if "\<not> (s = sid \<and> n = num)"
    proof -
      have "\<not> uent_match s n e" using that adj(2) by (auto simp: uent_match_def)
      then show ?thesis
        using aoe_of_other [of s n e pre rest] aoe_of_other [of s n ?e pre rest] adj split(1)
        by simp
    qed
    ultimately show ?thesis by simp
  qed
qed

section \<open>Negation takes an adjustment back\<close>

lemma aoe_step_inverse:
  assumes info: "seminfo_ok info" and es: "ents_ok info es"
    and step: "aoe_step info val sid num es = (None, es')"
  shows "aoe_step info (- val) sid num es' = (None, es)"
proof -
  obtain pre post where split: "es = pre @ post" "splits_at sid num pre post"
    using splits_at_exists by blast
  have so: "sorted_wrt uent_less (pre @ post)"
    using es split(1) by (auto simp: ents_ok_def)
  note st = step [unfolded split(1) aoe_step_split [OF split(2)]]
  consider (zero) "val = 0" "es' = es"
    | (new) "val \<noteq> 0" "val \<le> semaem info" "- semaem info \<le> val"
        "es' = pre @ \<lparr>uent_aoe = - val, uent_num = num, uent_id = sid\<rparr> # post"
    | (gone) e rest where "val \<noteq> 0" "val \<le> semaem info" "- semaem info \<le> val"
        "post = e # rest" "uent_match sid num e" "es' = pre @ rest" "uent_aoe e = val"
    | (adj) e rest where "val \<noteq> 0" "val \<le> semaem info" "- semaem info \<le> val"
        "post = e # rest" "uent_match sid num e"
        "es' = pre @ e\<lparr>uent_aoe := uent_aoe e - val\<rparr> # rest"
    using st split(1) by (auto simp: aoe_insert_def split: if_splits list.splits)
  then show ?thesis
  proof cases
    case zero
    then show ?thesis by (simp add: aoe_step_def)
  next
    case new
    let ?e = "\<lparr>uent_aoe = - val, uent_num = num, uent_id = sid\<rparr>"
    have "splits_at sid num pre (?e # post)"
      using split(2) by (auto simp: splits_at_def uent_before_def)
    moreover have "0 \<le> semaem info" using info by (simp add: seminfo_ok_def)
    ultimately show ?thesis
      using new split(1) by (simp add: aoe_step_split uent_match_def)
  next
    case gone
    have at: "splits_at sid num pre rest"
      using splits_at_sorted_rest split(2) so gone(4) by blast
    have "rest = [] \<or> \<not> uent_match sid num (hd rest)"
      using so gone(4,5) uent_less_not_match by (cases rest) (auto simp: sorted_wrt_append)
    moreover have "int (length (pre @ rest)) < semume info"
      using es split(1) gone(4) by (auto simp: ents_ok_def)
    moreover have "\<lparr>uent_aoe = val, uent_num = num, uent_id = sid\<rparr> = e"
      using gone(5,7) by (auto simp: uent_match_def)
    ultimately show ?thesis
      using gone split(1) aoe_step_split [OF at]
      by (auto simp: aoe_insert_def split: list.split)
  next
    case adj
    let ?e = "e\<lparr>uent_aoe := uent_aoe e - val\<rparr>"
    have "splits_at sid num pre (?e # rest)"
      using split(2) adj(4) by (auto simp: splits_at_def)
    moreover have "uent_ok info e" using es split(1) adj(4) by (auto simp: ents_ok_def)
    ultimately show ?thesis
      using adj split(1) by (auto simp: aoe_step_split uent_ok_def)
  qed
qed

section \<open>semaoe refines the pure step\<close>

lemma undo_ents_set_undo [simp]:
  "undo_ents (set_undo pid un st) p = (if p = pid then un_entp un else undo_ents st p)"
  "undo_ents (st\<lparr>semundo_head := h\<rparr>) p = undo_ents st p"
  "undo_ents (st\<lparr>sema := t\<rparr>) p = undo_ents st p"
  "undo_ents (st\<lparr>sem_wakeups := w\<rparr>) p = undo_ents st p"
  by (simp_all add: undo_ents_def set_undo_def)

lemma set_undo_frame [simp]:
  "semundo_head (set_undo pid un st) = semundo_head st" "sema (set_undo pid un st) = sema st"
  "sem_count (set_undo pid un st) = sem_count st" "sem_asu (set_undo pid un st) = sem_asu st"
  "sem_wakeups (set_undo pid un st) = sem_wakeups st"
  "u_semundo (set_undo pid un st) = (u_semundo st)(pid \<mapsto> un)"
  by (simp_all add: set_undo_def)

lemma undos_ok_set:
  assumes "undos_ok info st" "undo_ok info un" "(un_entp un = []) = (undo_ents st pid = [])"
  shows "undos_ok info (set_undo pid un st)"
  using assms by (auto simp: undos_ok_def undo_ents_def set_undo_def)

lemma undos_ok_add:
  assumes "undos_ok info st" "undo_ok info un" "un_entp un \<noteq> []" "undo_ents st pid = []"
  shows "undos_ok info ((set_undo pid un st)\<lparr>semundo_head := pid # semundo_head st\<rparr>)"
  using assms by (auto simp: undos_ok_def undo_ents_def set_undo_def)

lemma undos_ok_remove:
  assumes "undos_ok info st" "undo_ok info un" "un_entp un = []"
  shows "undos_ok info ((set_undo pid un st)\<lparr>semundo_head := remove1 pid (semundo_head st)\<rparr>)"
  using assms by (auto simp: undos_ok_def undo_ents_def set_undo_def)

lemma undos_ok_undo: "undos_ok info st \<Longrightarrow> u_semundo st pid = Some un \<Longrightarrow> undo_ok info un"
  by (simp add: undos_ok_def)

lemma undos_ok_ents: "undos_ok info st \<Longrightarrow> ents_ok info (undo_ents st pid)"
  by (auto simp: undo_ents_def undos_ok_def undo_ok_def ents_ok_def split: option.splits)

lemma s16_back: "s16 (s16 (a - v) + v) = s16 a"
proof -
  have "((a - v + 32768) mod 65536 - 32768 + v + 32768) mod 65536 = (a + 32768) mod 65536"
    using mod_add_left_eq [of "a - v + 32768" 65536 v] by (simp add: algebra_simps)
  then show ?thesis by (simp add: s16_def)
qed

lemma s16_out_of_range:
  assumes "- 16384 \<le> a" "a \<le> 16384" "- 16384 \<le> v" "v \<le> 16384" "0 \<le> m" "m \<le> (16384::int)"
  shows "s16 (a - v) > m \<or> s16 (a - v) < - m \<longleftrightarrow> a - v > m \<or> a - v < - m"
    and "\<not> (a - v > m \<or> a - v < - m) \<Longrightarrow> s16 (a - v) = a - v"
proof -
  show "s16 (a - v) = a - v" if "\<not> (a - v > m \<or> a - v < - m)"
    using that assms by (intro s16_id) auto
  show "s16 (a - v) > m \<or> s16 (a - v) < - m \<longleftrightarrow> a - v > m \<or> a - v < - m"
  proof (cases "a - v = 32768")
    case True
    with assms show ?thesis by (simp add: s16_def)
  next
    case False
    with assms have "s16 (a - v) = a - v" by (intro s16_id) auto
    then show ?thesis by simp
  qed
qed

lemma semaoe_ents_refine:
  assumes info: "seminfo_ok info" and un: "u_semundo st pid = Some un" "undo_ok info un"
    and val: "val \<noteq> 0" "val \<le> semaem info" "- semaem info \<le> val"
    and rng: "0 \<le> num" "num < 32768" "0 \<le> sid" "sid < 2147483648"
  shows "fst (semaoe_ents pid info val sid num un st) = fst (aoe_step info val sid num (un_entp un))
    \<and> undo_ents (snd (semaoe_ents pid info val sid num un st)) pid
       = snd (aoe_step info val sid num (un_entp un))"
proof -
  obtain pre post where split: "un_entp un = pre @ post" "splits_at sid num pre post"
    using splits_at_exists by blast
  note w = conjunct1 [OF splits_at_while [OF split(2)]] conjunct2 [OF splits_at_while [OF split(2)]]
  have cnt: "un_cnt un = int (length (pre @ post))" "ents_ok info (pre @ post)"
    using un(2) split(1) by (simp_all add: undo_ok_def)
  have conv: "s16 (- val) = - val" "s16 num = num" "s32 sid = sid"
    using val rng info by (auto simp: seminfo_ok_def intro!: s16_id s32_id)
  have un_eq: "undo_ents st pid = pre @ post" using un(1) split(1) by (simp add: undo_ents_def)
  have new: "fst (semaoe_new pid info val sid num un pre post st) = fst (aoe_insert info val sid num (pre @ post) pre post)
      \<and> undo_ents (snd (semaoe_new pid info val sid num un pre post st)) pid
         = snd (aoe_insert info val sid num (pre @ post) pre post)"
    using cnt(1) conv un_eq by (auto simp: semaoe_new_def aoe_insert_def Let_def)
  have eq: "semaoe_ents pid info val sid num un st =
      (case post of
         [] \<Rightarrow> semaoe_new pid info val sid num un pre post st
       | e # rest \<Rightarrow>
           if uent_match sid num e then semaoe_found pid info val un pre e rest st
           else semaoe_new pid info val sid num un pre post st)"
    unfolding semaoe_ents_def Let_def split(1) w by (rule refl)
  note step = aoe_step_split [OF split(2), of info val]
  show ?thesis
  proof (cases post)
    case Nil
    with new eq step split(1) val show ?thesis by simp
  next
    case (Cons e rest)
    have "uent_ok info e" using cnt(2) Cons by (auto simp: ents_ok_def)
    then have e: "- 16384 \<le> uent_aoe e" "uent_aoe e \<le> 16384" "s16 (uent_aoe e) = uent_aoe e"
      using info by (auto simp: uent_ok_def seminfo_ok_def intro!: s16_id)
    have v: "- 16384 \<le> val" "val \<le> 16384" "0 \<le> semaem info" "semaem info \<le> 16384"
      using info val by (auto simp: seminfo_ok_def)
    note r = s16_out_of_range [OF e(1,2) v]
    have unwound: "e\<lparr>uent_aoe := s16 (s16 (uent_aoe e - val) + val)\<rparr> = e"
      using s16_back [of "uent_aoe e" val] e(3) by simp
    have found: "fst (semaoe_found pid info val un pre e rest st) = fst (aoe_step info val sid num (pre @ post))
        \<and> undo_ents (snd (semaoe_found pid info val un pre e rest st)) pid
           = snd (aoe_step info val sid num (pre @ post))" if m: "uent_match sid num e"
    proof (cases "uent_aoe e - val > semaem info \<or> uent_aoe e - val < - semaem info")
      case True
      have "semaoe_found pid info val un pre e rest st =
          (Some ERANGE, set_undo pid (un\<lparr>un_entp := pre @ e # rest\<rparr>) st)"
        unfolding semaoe_found_def Let_def using r(1) True unwound by simp
      moreover have "aoe_step info val sid num (pre @ post) = (Some ERANGE, pre @ e # rest)"
        unfolding step using m True val Cons by simp
      ultimately show ?thesis by simp
    next
      case False
      note eq = r(2) [OF False]
      show ?thesis
        unfolding step semaoe_found_def Let_def eq using m False val Cons by simp
    qed
    show ?thesis
      unfolding eq using found new step split(1) val Cons by simp
  qed
qed

lemma semaoe_ents_undos:
  assumes info: "seminfo_ok info" and ok: "undos_ok info st" and un: "u_semundo st pid = Some un"
    and val: "val \<noteq> 0" "val \<le> semaem info" "- semaem info \<le> val"
    and rng: "0 \<le> num" "num < 32768" "0 \<le> sid" "sid < 2147483648"
  shows "undos_ok info (snd (semaoe_ents pid info val sid num un st))"
proof -
  have uok: "undo_ok info un" using ok un by (rule undos_ok_undo)
  have es: "ents_ok info (un_entp un)" "un_cnt un = int (length (un_entp un))"
    using uok by (simp_all add: undo_ok_def)
  have ent: "undo_ents st pid = un_entp un" using un by (simp add: undo_ents_def)
  let ?r = "semaoe_ents pid info val sid num un st"
  have new_ok: "ents_ok info (undo_ents (snd ?r) pid)"
    using semaoe_ents_refine [OF info un uok val rng] aoe_step_ok [OF info es(1) rng]
    by (metis prod.collapse)
  have len: "int (length (un_entp un)) \<le> 32767"
    using es(1) info by (auto simp: ents_ok_def seminfo_ok_def)
  let ?pre = "takeWhile (uent_before sid num) (un_entp un)"
  let ?post = "dropWhile (uent_before sid num) (un_entp un)"
  have new: "undos_ok info (snd (semaoe_new pid info val sid num un ?pre ?post st))"
    if "?r = semaoe_new pid info val sid num un ?pre ?post st"
  proof (cases "un_cnt un < semume info")
    case True
    let ?un = "\<lparr>un_cnt = s16 (un_cnt un + 1),
        un_entp = ?pre @ \<lparr>uent_aoe = s16 (- val), uent_num = s16 num, uent_id = s32 sid\<rparr> # ?post\<rparr>"
    have l: "length (?pre @ ?post) = length (un_entp un)" by simp
    have "s16 (un_cnt un + 1) = un_cnt un + 1"
      using True info es(2) by (intro s16_id) (auto simp: seminfo_ok_def)
    then have "undo_ok info ?un"
      using new_ok that True es(2) l
      by (simp add: undo_ok_def semaoe_new_def Let_def split: if_splits del: takeWhile_dropWhile_id)
    then show ?thesis
      using True ok ent undos_ok_add [of info st ?un pid] undos_ok_set [of info st ?un pid]
      by (simp add: semaoe_new_def Let_def)
  next
    case False
    with ok show ?thesis by (simp add: semaoe_new_def)
  qed
  show ?thesis
  proof (cases ?post)
    case Nil
    have "?r = semaoe_new pid info val sid num un ?pre ?post st"
      unfolding semaoe_ents_def Let_def by (subst Nil) simp
    then show ?thesis using new by simp
  next
    case (Cons e rest)
    have split: "un_entp un = ?pre @ e # rest"
      using takeWhile_dropWhile_id [of "uent_before sid num" "un_entp un"] Cons by simp
    have nonempty: "un_entp un \<noteq> []"
      using Cons by auto
    have found: "undos_ok info (snd (semaoe_found pid info val un ?pre e rest st))"
      if r: "?r = semaoe_found pid info val un ?pre e rest st"
    proof -
      define aoe where "aoe = s16 (uent_aoe e - val)"
      have keep: "undos_ok info (snd ?r)"
        if k: "?r = (x, set_undo pid (un\<lparr>un_entp := ?pre @ e\<lparr>uent_aoe := a\<rparr> # rest\<rparr>) st)" for x a
      proof -
        let ?un = "un\<lparr>un_entp := ?pre @ e\<lparr>uent_aoe := a\<rparr> # rest\<rparr>"
        have "length (un_entp ?un) = length (un_entp un)"
          using arg_cong [OF split, of length] by simp
        then have "undo_ok info ?un"
          using new_ok es(2) unfolding k by (simp add: undo_ok_def)
        then show ?thesis
          unfolding k using ok ent nonempty by (simp add: undos_ok_set)
      qed
      consider (bad) "aoe > semaem info \<or> aoe < - semaem info"
        | (gone) "\<not> (aoe > semaem info \<or> aoe < - semaem info)" "aoe = 0"
        | (adj) "\<not> (aoe > semaem info \<or> aoe < - semaem info)" "aoe \<noteq> 0" by blast
      then show ?thesis
      proof cases
        case gone
        let ?un = "\<lparr>un_cnt = s16 (un_cnt un - 1), un_entp = ?pre @ rest\<rparr>"
        have eq: "semaoe_found pid info val un ?pre e rest st =
            (let st = set_undo pid ?un st
             in (None, if ?pre @ rest = []
                  then st\<lparr>semundo_head := remove1 pid (semundo_head st)\<rparr> else st))"
          using gone unfolding semaoe_found_def Let_def aoe_def by simp
        have len1: "int (length (un_entp un)) = int (length (?pre @ rest)) + 1"
          using arg_cong [OF split, of length] by simp
        have "s16 (un_cnt un - 1) = int (length (?pre @ rest))"
          using es(2) len len1 by (subst s16_id) auto
        moreover have "ents_ok info (?pre @ rest)"
          using new_ok unfolding r eq Let_def by (simp split: if_splits)
        ultimately have "undo_ok info ?un" by (simp add: undo_ok_def)
        then show ?thesis
          unfolding eq Let_def
          using ok ent nonempty undos_ok_remove [of info st ?un pid] undos_ok_set [of info st ?un pid]
          by auto
      next
        case bad
        then show ?thesis
          using keep [of "Some ERANGE" "s16 (aoe + val)"]
          unfolding r semaoe_found_def Let_def aoe_def by simp
      next
        case adj
        then show ?thesis
          using keep [of None aoe] unfolding r semaoe_found_def Let_def aoe_def by simp
      qed
    qed
    have "?r = (if uent_match sid num e then semaoe_found pid info val un ?pre e rest st
        else semaoe_new pid info val sid num un ?pre ?post st)"
      unfolding semaoe_ents_def Let_def by (subst Cons) simp
    then show ?thesis
      using new found by (cases "uent_match sid num e") simp_all
  qed
qed

text \<open>Everything but the caller's undo structure and the chain is left alone.\<close>

lemma semaoe_frame:
  "sema (snd (semaoe env info val sid num st)) = sema st"
  "sem_count (snd (semaoe env info val sid num st)) = sem_count st"
  "sem_asu (snd (semaoe env info val sid num st)) = sem_asu st"
  "sem_wakeups (snd (semaoe env info val sid num st)) = sem_wakeups st"
  "p \<noteq> se_pid env \<Longrightarrow> u_semundo (snd (semaoe env info val sid num st)) p = u_semundo st p"
  "u_semundo st (se_pid env) \<noteq> None \<Longrightarrow> u_semundo (snd (semaoe env info val sid num st)) (se_pid env) \<noteq> None"
  by (auto simp: semaoe_def semaoe_ents_def semaoe_new_def semaoe_found_def Let_def
      split: option.split list.split)

lemma empty_undo_ok: "undo_ok info \<lparr>un_cnt = 0, un_entp = []\<rparr>"
  by (simp add: undo_ok_def ents_ok_def)

lemma semaoe_undos:
  assumes info: "seminfo_ok info" and ok: "undos_ok info st"
    and rng: "0 \<le> num" "num < 32768" "0 \<le> sid" "sid < 2147483648"
  shows "undos_ok info (snd (semaoe env info val sid num st))"
proof (cases "u_semundo st (se_pid env)")
  case None
  let ?st = "set_undo (se_pid env) \<lparr>un_cnt = 0, un_entp = []\<rparr> st"
  have "undos_ok info ?st"
    using ok None by (intro undos_ok_set empty_undo_ok) (auto simp: undo_ents_def)
  moreover have "u_semundo ?st (se_pid env) = Some \<lparr>un_cnt = 0, un_entp = []\<rparr>" by simp
  ultimately show ?thesis
    using None ok semaoe_ents_undos [OF info _ _ _ _ _ rng] by (simp add: semaoe_def)
next
  case (Some un)
  then show ?thesis
    using ok semaoe_ents_undos [OF info ok Some _ _ _ rng] by (simp add: semaoe_def)
qed

text \<open>The refinement: where the undo structure exists or can be allocated, \<open>semaoe\<close> is the
  pure step on the caller's entries.\<close>

lemma semaoe_refine:
  assumes info: "seminfo_ok info" and ok: "undos_ok info st"
    and rng: "0 \<le> num" "num < 32768" "0 \<le> sid" "sid < 2147483648"
    and zone: "u_semundo st (se_pid env) \<noteq> None \<or> se_zalloc env"
  shows "fst (semaoe env info val sid num st)
      = fst (aoe_step info val sid num (undo_ents st (se_pid env)))
    \<and> undo_ents (snd (semaoe env info val sid num st)) (se_pid env)
      = snd (aoe_step info val sid num (undo_ents st (se_pid env)))"
proof (cases "val = 0 \<or> val > semaem info \<or> val < - semaem info")
  case True
  then show ?thesis by (auto simp: semaoe_def aoe_step_def)
next
  case False
  then have val: "val \<noteq> 0" "val \<le> semaem info" "- semaem info \<le> val" by auto
  show ?thesis
  proof (cases "u_semundo st (se_pid env)")
    case None
    let ?un = "\<lparr>un_cnt = 0, un_entp = []\<rparr>"
    have "u_semundo (set_undo (se_pid env) ?un st) (se_pid env) = Some ?un" by simp
    from semaoe_ents_refine [OF info this empty_undo_ok val rng] None zone val
    show ?thesis by (simp add: semaoe_def undo_ents_def)
  next
    case (Some un)
    from semaoe_ents_refine [OF info Some undos_ok_undo [OF ok Some] val rng] Some val
    show ?thesis by (simp add: semaoe_def undo_ents_def)
  qed
qed

lemma semaoe_nospace:
  "u_semundo st (se_pid env) = None \<Longrightarrow> \<not> se_zalloc env \<Longrightarrow> semaoe env info val sid num st = (r, st') \<Longrightarrow>
     st' = st \<and> (r = None \<longrightarrow> val = 0)"
  by (auto simp: semaoe_def split: if_splits)

section \<open>semunrm\<close>

lemma semunrm_ents_subset: "set (semunrm_ents sid low high es) \<subseteq> set es"
  by (induction es) auto

lemma semunrm_ents_sorted:
  "sorted_wrt uent_less es \<Longrightarrow> sorted_wrt uent_less (semunrm_ents sid low high es)"
proof (induction es)
  case (Cons e es)
  then have "\<forall>f\<in>set (semunrm_ents sid low high es). uent_less e f"
    using semunrm_ents_subset [of sid low high es] by auto
  with Cons show ?case by simp
qed simp

lemma semunrm_ents_length: "length (semunrm_ents sid low high es) \<le> length es"
  by (induction es) auto

lemma semunrm_ents_ok: "ents_ok info es \<Longrightarrow> ents_ok info (semunrm_ents sid low high es)"
  using semunrm_ents_subset [of sid low high es] semunrm_ents_sorted [of es sid low high]
    semunrm_ents_length [of sid low high es]
  unfolding ents_ok_def by (auto dest: subsetD)

lemma semunrm_procs_frame:
  "sema (snd (semunrm_procs sid low high pids st)) = sema st
   \<and> sem_count (snd (semunrm_procs sid low high pids st)) = sem_count st
   \<and> sem_asu (snd (semunrm_procs sid low high pids st)) = sem_asu st
   \<and> sem_wakeups (snd (semunrm_procs sid low high pids st)) = sem_wakeups st
   \<and> semundo_head (snd (semunrm_procs sid low high pids st)) = semundo_head st
   \<and> (\<forall>p. p \<notin> set pids \<longrightarrow> u_semundo (snd (semunrm_procs sid low high pids st)) p = u_semundo st p)"
  by (induction pids arbitrary: st)
    (auto simp: Let_def case_prod_beta split: option.split)

lemma semunrm_frame [simp]:
  "sema (semunrm sid low high st) = sema st" "sem_count (semunrm sid low high st) = sem_count st"
  "sem_asu (semunrm sid low high st) = sem_asu st"
  "sem_wakeups (semunrm sid low high st) = sem_wakeups st"
  using semunrm_procs_frame [of sid low high "semundo_head st" st]
  by (auto simp: semunrm_def case_prod_beta)

lemma semunrm_procs_undo:
  "distinct pids \<Longrightarrow> p \<in> set pids \<Longrightarrow>
     u_semundo (snd (semunrm_procs sid low high pids st)) p =
       map_option (\<lambda>un. \<lparr>un_cnt = s16 (un_cnt un - int (length (un_entp un)
                            - length (semunrm_ents sid low high (un_entp un)))),
                        un_entp = semunrm_ents sid low high (un_entp un)\<rparr>) (u_semundo st p)"
proof (induction pids arbitrary: st)
  case (Cons q pids)
  then show ?case
    using semunrm_procs_frame [of sid low high pids]
    by (cases "p = q"; cases "u_semundo st q") (auto simp: Let_def case_prod_beta)
qed simp

lemma semunrm_procs_chain:
  "distinct pids \<Longrightarrow> fst (semunrm_procs sid low high pids st) =
     filter (\<lambda>p. \<exists>un. u_semundo st p = Some un \<and> semunrm_ents sid low high (un_entp un) \<noteq> []) pids"
proof (induction pids arbitrary: st)
  case (Cons q pids)
  have keep: "u_semundo (set_undo q un st) p = u_semundo st p" if "p \<in> set pids" for p un
    using Cons.prems that by auto
  show ?case
    using Cons keep by (cases "u_semundo st q") (auto simp: Let_def case_prod_beta intro!: filter_cong)
qed simp

lemma semunrm_undo:
  assumes ok: "undos_ok info st" and info: "seminfo_ok info"
  shows "undo_ents (semunrm sid low high st) p = semunrm_ents sid low high (undo_ents st p)"
    and "u_semundo (semunrm sid low high st) p = Some un \<Longrightarrow> undo_ok info un"
proof -
  have d: "distinct (semundo_head st)" "p \<in> set (semundo_head st) \<longleftrightarrow> undo_ents st p \<noteq> []"
    using ok by (auto simp: undos_ok_def)
  let ?r = "snd (semunrm_procs sid low high (semundo_head st) st)"
  have r: "u_semundo (semunrm sid low high st) = u_semundo ?r"
    by (simp add: semunrm_def case_prod_beta)
  have out: "p \<notin> set (semundo_head st) \<Longrightarrow> u_semundo ?r p = u_semundo st p"
    using semunrm_procs_frame by blast
  note inn = semunrm_procs_undo [OF d(1), of p sid low high st]
  show "undo_ents (semunrm sid low high st) p = semunrm_ents sid low high (undo_ents st p)"
    using r out inn d(2)
    by (cases "p \<in> set (semundo_head st)") (auto simp: undo_ents_def split: option.splits)
  show "undo_ok info un" if "u_semundo (semunrm sid low high st) p = Some un"
  proof (cases "p \<in> set (semundo_head st)")
    case False
    then show ?thesis using that r out ok by (auto simp: undos_ok_def)
  next
    case True
    then obtain un0 where un0: "u_semundo st p = Some un0"
      using True d(2) by (cases "u_semundo st p") (auto simp: undo_ents_def)
    have ok0: "undo_ok info un0" using ok un0 by (rule undos_ok_undo)
    let ?es = "semunrm_ents sid low high (un_entp un0)"
    have le: "length ?es \<le> length (un_entp un0)" "int (length (un_entp un0)) \<le> 32767"
      using semunrm_ents_length ok0 info by (auto simp: undo_ok_def ents_ok_def seminfo_ok_def)
    have "s16 (un_cnt un0 - int (length (un_entp un0) - length ?es)) = int (length ?es)"
      using le ok0 by (subst s16_id) (auto simp: undo_ok_def)
    moreover have "ents_ok info ?es" using ok0 semunrm_ents_ok by (auto simp: undo_ok_def)
    ultimately show ?thesis using that r inn un0 True by (auto simp: undo_ok_def)
  qed
qed

lemma semunrm_undos_ok:
  assumes ok: "undos_ok info st" and info: "seminfo_ok info"
  shows "undos_ok info (semunrm sid low high st)"
proof -
  have d: "distinct (semundo_head st)" "set (semundo_head st) = {p. undo_ents st p \<noteq> []}"
    using ok by (auto simp: undos_ok_def)
  have h: "semundo_head (semunrm sid low high st) =
      filter (\<lambda>p. \<exists>un. u_semundo st p = Some un \<and> semunrm_ents sid low high (un_entp un) \<noteq> [])
        (semundo_head st)"
    using semunrm_procs_chain [OF d(1)] by (simp add: semunrm_def case_prod_beta)
  have nil: "semunrm_ents sid low high [] = []" by simp
  have "set (semundo_head (semunrm sid low high st)) = {p. undo_ents (semunrm sid low high st) p \<noteq> []}"
    unfolding h using d(2) semunrm_undo(1) [OF ok info] nil
    by (auto simp: undo_ents_def split: option.splits)
  with d(1) h semunrm_undo(2) [OF ok info] show ?thesis
    by (auto simp: undos_ok_def)
qed

text \<open>What the walk removes: every entry of the set from \<open>low\<close> on, provided no entry it passes
  has a semaphore number above \<open>high\<close>.\<close>

lemma semunrm_ents_filter:
  assumes "sorted_wrt uent_less es" "0 \<le> low" "0 \<le> high" "high < 18446744073709551616"
    and "low < 18446744073709551616"
    and "\<forall>e\<in>set es. 0 \<le> uent_num e \<and> uent_num e < 32768 \<and> (uent_id e < sid \<longrightarrow> uent_num e \<le> high)"
  shows "semunrm_ents sid low high es =
    filter (\<lambda>e. \<not> (uent_id e = sid \<and> low \<le> uent_num e \<and> uent_num e \<le> high)) es"
  using assms
proof (induction es)
  case (Cons e es)
  have conv: "u64 (uent_num e) = uent_num e" "u64 high = high" "u64 low = low"
    using Cons.prems by (auto intro!: u64_id)
  have ih: "semunrm_ents sid low high es =
      filter (\<lambda>e. \<not> (uent_id e = sid \<and> low \<le> uent_num e \<and> uent_num e \<le> high)) es"
    using Cons by simp
  show ?case
  proof (cases "uent_id e \<le> sid \<and> uent_num e \<le> high")
    case True
    with conv ih show ?thesis by auto
  next
    case False
    have "\<not> (uent_id f = sid \<and> low \<le> uent_num f \<and> uent_num f \<le> high)" if "f \<in> set es" for f
    proof -
      have "uent_less e f" "uent_id e < sid \<longrightarrow> uent_num e \<le> high"
        using Cons.prems that by auto
      with False show ?thesis by (auto simp: uent_less_def uent_before_def)
    qed
    then have "filter (\<lambda>e. \<not> (uent_id e = sid \<and> low \<le> uent_num e \<and> uent_num e \<le> high)) es = es"
      by (simp add: filter_id_conv)
    moreover have "\<not> (uent_id e = sid \<and> low \<le> uent_num e \<and> uent_num e \<le> high)"
      using False by auto
    ultimately show ?thesis using False conv by auto
  qed
qed simp

end
