(* ===== verification/Svipc_Sem_Atomic.thy ===== *)
theory Svipc_Sem_Atomic
  imports Svipc_Sem_Undo
begin

text \<open>
  \<open>semop\<close> is all or nothing. The semaphore table's invariant, the effect of one operation
  that can proceed, and the contract between the operations and \<open>semundo\<close>, stated as the
  locale \<open>rollback\<close>: an operation that was done can be taken back from any state that looks
  like the one it left. The locale's lemma lifts this to a sequence undone in reverse.
\<close>

section \<open>The table invariant\<close>

definition sem_ok :: "seminfo \<Rightarrow> sem \<Rightarrow> bool" where
  "sem_ok info s \<longleftrightarrow>
     0 \<le> semval s \<and> semval s \<le> semvmx info \<and> 0 \<le> semncnt s \<and> semncnt s < 65536
     \<and> 0 \<le> semzcnt s \<and> semzcnt s < 65536"

definition sp_ok :: "seminfo \<Rightarrow> semid_ds \<Rightarrow> bool" where
  "sp_ok info sp \<longleftrightarrow>
     (\<forall>s\<in>set (sem_base sp). sem_ok info s) \<and> 0 \<le> ip_seq (sem_perm sp) \<and> ip_seq (sem_perm sp) < 65536
     \<and> int (length (sem_base sp)) \<le> semmsl info
     \<and> (ipc_allocated (sem_perm sp) \<longrightarrow> int (length (sem_base sp)) = sem_nsems sp \<and> 0 < sem_nsems sp)"

definition tbl_ok :: "seminfo \<Rightarrow> semid_ds list \<Rightarrow> bool" where
  "tbl_ok info tbl \<longleftrightarrow> length tbl = nat (semmni info) \<and> (\<forall>sp\<in>set tbl. sp_ok info sp)"

definition sem_inv :: "seminfo \<Rightarrow> sem_state \<Rightarrow> bool" where
  "sem_inv info st \<longleftrightarrow> tbl_ok info (sema st) \<and> undos_ok info st"

text \<open>Reading and writing one semaphore.\<close>

lemma sem_ref_upd:
  "sem_ref (sem_upd f slot num st) s n =
     (if s = slot \<and> n = num then map_option f (sem_ref st slot num) else sem_ref st s n)"
proof (cases "s = slot")
  case True
  then show ?thesis
    by (cases "slot < length (sema st)")
      (auto simp: sem_ref_def sem_upd_def sp_upd_def aref_def nth_list_update)
next
  case False
  then show ?thesis by (simp add: sem_ref_def sem_upd_def sp_upd_def aref_def)
qed

lemma sem_upd_frame [simp]:
  "semundo_head (sem_upd f slot num st) = semundo_head st"
  "u_semundo (sem_upd f slot num st) = u_semundo st"
  "sem_count (sem_upd f slot num st) = sem_count st" "sem_asu (sem_upd f slot num st) = sem_asu st"
  "sem_wakeups (sem_upd f slot num st) = sem_wakeups st"
  "length (sema (sem_upd f slot num st)) = length (sema st)"
  by (simp_all add: sem_upd_def sp_upd_def)

lemma sem_ref_Some:
  "sem_ref st slot num = Some s \<Longrightarrow>
     slot < length (sema st) \<and> num < length (sem_base (sema st ! slot)) \<and> s = sem_base (sema st ! slot) ! num"
  by (auto simp: sem_ref_def aref_def split: option.splits if_splits)

lemma tbl_ok_upd:
  assumes "tbl_ok info (sema st)" "\<And>s. sem_ref st slot num = Some s \<Longrightarrow> sem_ok info (f s)"
  shows "tbl_ok info (sema (sem_upd f slot num st))"
proof (cases "slot < length (sema st)")
  case True
  then have sp: "sp_ok info (sema st ! slot)" using assms(1) by (auto simp: tbl_ok_def)
  let ?sp = "sema st ! slot"
  let ?sp' = "?sp\<lparr>sem_base := (sem_base ?sp)[num := f (sem_base ?sp ! num)]\<rparr>"
  have "sem_ok info s" if "s \<in> set (sem_base ?sp')" for s
  proof (cases "num < length (sem_base ?sp)")
    case True
    then have "sem_ok info (f (sem_base ?sp ! num))"
      using assms(2) \<open>slot < length (sema st)\<close> by (simp add: sem_ref_def aref_def)
    then show ?thesis using that sp set_list_updateD by (fastforce simp: sp_ok_def)
  next
    case False
    then show ?thesis using that sp by (simp add: sp_ok_def list_update_beyond)
  qed
  then have "sp_ok info ?sp'" using sp by (simp add: sp_ok_def)
  then show ?thesis
    using assms(1) set_list_updateD by (fastforce simp: tbl_ok_def sem_upd_def sp_upd_def)
next
  case False
  then show ?thesis using assms(1) by (simp add: sem_upd_def sp_upd_def list_update_beyond)
qed

lemma tbl_ok_ref: "tbl_ok info (sema st) \<Longrightarrow> sem_ref st slot num = Some s \<Longrightarrow> sem_ok info s"
proof -
  assume tbl: "tbl_ok info (sema st)" and ref: "sem_ref st slot num = Some s"
  note s = sem_ref_Some [OF ref]
  then have "sp_ok info (sema st ! slot)" using tbl by (auto simp: tbl_ok_def)
  then show "sem_ok info s" using s by (auto simp: sp_ok_def)
qed

lemma undos_ok_cong:
  "u_semundo st' = u_semundo st \<Longrightarrow> semundo_head st' = semundo_head st \<Longrightarrow>
     undos_ok info st' = undos_ok info st"
  by (simp add: undos_ok_def undo_ents_def)

lemma undo_ents_cong: "u_semundo st' = u_semundo st \<Longrightarrow> undo_ents st' = undo_ents st"
  by (rule ext) (simp add: undo_ents_def)

lemma sem_inv_upd:
  assumes "sem_inv info st" "\<And>s. sem_ref st slot num = Some s \<Longrightarrow> sem_ok info (f s)"
  shows "sem_inv info (sem_upd f slot num st)"
  using assms tbl_ok_upd by (simp add: sem_inv_def cong: undos_ok_cong)

lemma sem_inv_wakeup [simp]: "sem_inv info (sem_wakeup ch st) = sem_inv info st"
  by (simp add: sem_inv_def sem_wakeup_def undos_ok_def undo_ents_def)

lemma wake_inv:
  assumes "sem_inv info st"
  shows "sem_inv info (wake_ncnt slot num st)" "sem_inv info (wake_zcnt slot num st)"
proof -
  have ok: "sem_ref st slot num = Some s \<Longrightarrow> sem_ok info s" for s
    using assms tbl_ok_ref by (auto simp: sem_inv_def)
  show "sem_inv info (wake_ncnt slot num st)"
    using assms ok by (auto simp: wake_ncnt_def split: option.split intro!: sem_inv_upd simp: sem_ok_def)
  show "sem_inv info (wake_zcnt slot num st)"
    using assms ok by (auto simp: wake_zcnt_def split: option.split intro!: sem_inv_upd simp: sem_ok_def)
qed

section \<open>The rollback contract\<close>

text \<open>
  An operation either gives a next state or cannot proceed. The contract: whatever state
  looks like the one the operation left, \<open>revert\<close> gives one that looks like the one it
  started from.
\<close>

locale rollback =
  fixes inv :: "'s \<Rightarrow> bool"
    and same :: "'s \<Rightarrow> 's \<Rightarrow> bool"
    and good :: "'o \<Rightarrow> bool"
    and exec :: "'o \<Rightarrow> 's \<Rightarrow> 's option"
    and revert :: "'o \<Rightarrow> 's \<Rightarrow> 's option"
  assumes exec_inv: "inv s \<Longrightarrow> good x \<Longrightarrow> exec x s = Some s' \<Longrightarrow> inv s'"
    and revert_exec: "inv s \<Longrightarrow> good x \<Longrightarrow> exec x s = Some s' \<Longrightarrow> inv t \<Longrightarrow> same s' t \<Longrightarrow>
      \<exists>t'. revert x t = Some t' \<and> inv t' \<and> same s t'"
    and same_refl: "same s s"
begin

fun exec_all :: "'o list \<Rightarrow> 's \<Rightarrow> 's option" where
  "exec_all [] s = Some s"
| "exec_all (x # xs) s = (case exec x s of None \<Rightarrow> None | Some s' \<Rightarrow> exec_all xs s')"

fun revert_all :: "'o list \<Rightarrow> 's \<Rightarrow> 's option" where
  "revert_all [] s = Some s"
| "revert_all (x # xs) s = (case revert x s of None \<Rightarrow> None | Some s' \<Rightarrow> revert_all xs s')"

lemma exec_all_inv: "inv s \<Longrightarrow> list_all good xs \<Longrightarrow> exec_all xs s = Some s' \<Longrightarrow> inv s'"
  by (induction xs arbitrary: s) (auto split: option.splits dest: exec_inv)

lemma exec_all_append:
  "exec_all (xs @ ys) s = (case exec_all xs s of None \<Rightarrow> None | Some s' \<Rightarrow> exec_all ys s')"
  by (induction xs arbitrary: s) (auto split: option.split)

lemma revert_all_append:
  "revert_all (xs @ ys) s = (case revert_all xs s of None \<Rightarrow> None | Some s' \<Rightarrow> revert_all ys s')"
  by (induction xs arbitrary: s) (auto split: option.split)

lemma revert_exec_all:
  "inv s \<Longrightarrow> list_all good xs \<Longrightarrow> exec_all xs s = Some s' \<Longrightarrow> inv t \<Longrightarrow> same s' t \<Longrightarrow>
     \<exists>t'. revert_all (rev xs) t = Some t' \<and> inv t' \<and> same s t'"
proof (induction xs arbitrary: s)
  case Nil
  then show ?case by simp
next
  case (Cons x xs)
  then obtain s1 where s1: "exec x s = Some s1" "exec_all xs s1 = Some s'"
    by (auto split: option.splits)
  have "inv s1" using Cons.prems s1(1) exec_inv by auto
  moreover have "list_all good xs" using Cons.prems(2) by simp
  ultimately obtain t1 where t1: "revert_all (rev xs) t = Some t1" "inv t1" "same s1 t1"
    using Cons.IH s1(2) Cons.prems(4,5) by blast
  then obtain t' where "revert x t1 = Some t'" "inv t'" "same s t'"
    using revert_exec [of s x s1 t1] Cons.prems s1(1) by auto
  then show ?case using t1(1) by (auto simp: revert_all_append)
qed

end

section \<open>One operation of semop\<close>

definition sembuf_ok :: "sembuf \<Rightarrow> bool" where
  "sembuf_ok op \<longleftrightarrow>
     0 \<le> sem_num op \<and> sem_num op < 65536 \<and> -32768 \<le> sem_op op \<and> sem_op op < 32768"

text \<open>The state after an operation that can proceed; \<open>None\<close> when it would fail or sleep.\<close>

definition semop_do ::
  "sem_env \<Rightarrow> seminfo \<Rightarrow> int \<Rightarrow> nat \<Rightarrow> sembuf \<Rightarrow> sem_state \<Rightarrow> sem_state option" where
  "semop_do env info sid slot op st =
     (let num = nat (sem_num op) in
      case sem_ref st slot num of
        None \<Rightarrow> None
      | Some semp \<Rightarrow>
          if sem_op op = 0 then (if semval semp \<noteq> 0 then None else Some st)
          else if sem_op op + semval semp > semvmx info \<and> sem_op op > 0
               \<or> sem_op op + semval semp < 0 then None
          else
            (case (if undo_flag op then semaoe env info (sem_op op) sid (sem_num op) st
                   else (None, st)) of
               (Some e, st) \<Rightarrow> None
             | (None, st) \<Rightarrow>
                 let st = sem_upd (\<lambda>s. s\<lparr>semval := u16 (semval s + sem_op op)\<rparr>) slot num st
                 in Some (if sem_op op > 0 then wake_ncnt slot num st
                          else if u16 (semval semp + sem_op op) = 0 then wake_zcnt slot num st
                          else st)))"

text \<open>What the caller of a failed \<open>semop\<close> can still tell: the values, the permissions and sizes
  of the sets, and its own and the other processes' adjustments.\<close>

definition sem_vals :: "sem_state \<Rightarrow> nat \<Rightarrow> nat \<Rightarrow> int option" where
  "sem_vals st slot num = map_option semval (sem_ref st slot num)"

definition sem_hdrs :: "sem_state \<Rightarrow> (ipc_perm \<times> int \<times> int \<times> int) list" where
  "sem_hdrs st = map (\<lambda>sp. (sem_perm sp, sem_nsems sp, sem_otime sp, sem_ctime sp)) (sema st)"

definition sem_same :: "sem_state \<Rightarrow> sem_state \<Rightarrow> bool" where
  "sem_same s t \<longleftrightarrow>
     sem_vals t = sem_vals s \<and> sem_hdrs t = sem_hdrs s \<and> undo_ents t = undo_ents s
     \<and> (\<forall>p. u_semundo s p \<noteq> None \<longrightarrow> u_semundo t p \<noteq> None)
     \<and> sem_count t = sem_count s \<and> sem_asu t = sem_asu s"

lemma sem_same_refl: "sem_same s s"
  by (simp add: sem_same_def)

lemma sem_same_trans: "sem_same s t \<Longrightarrow> sem_same t u \<Longrightarrow> sem_same s u"
  by (auto simp: sem_same_def)

lemma sem_hdrs_upd [simp]: "sem_hdrs (sem_upd f slot num st) = sem_hdrs st"
  by (cases "slot < length (sema st)")
    (simp_all add: sem_hdrs_def sem_upd_def sp_upd_def map_update list_update_beyond)

lemma sem_vals_upd:
  "sem_vals (sem_upd f slot num st) =
     (\<lambda>s n. if s = slot \<and> n = num then map_option (\<lambda>x. semval (f x)) (sem_ref st slot num)
            else sem_vals st s n)"
  by (intro ext) (auto simp: sem_vals_def sem_ref_upd option.map_comp comp_def)

lemma sem_wakeup_frame [simp]:
  "sem_ref (sem_wakeup ch st) = sem_ref st" "sem_vals (sem_wakeup ch st) = sem_vals st"
  "sem_hdrs (sem_wakeup ch st) = sem_hdrs st" "u_semundo (sem_wakeup ch st) = u_semundo st"
  "semundo_head (sem_wakeup ch st) = semundo_head st" "undo_ents (sem_wakeup ch st) = undo_ents st"
  "sem_count (sem_wakeup ch st) = sem_count st" "sem_asu (sem_wakeup ch st) = sem_asu st"
  "sema (sem_wakeup ch st) = sema st"
  by (auto simp: sem_wakeup_def sem_ref_def sem_vals_def sem_hdrs_def undo_ents_def intro!: ext)

lemma undo_ents_upd [simp]: "undo_ents (sem_upd f slot num st) = undo_ents st"
  by (rule undo_ents_cong) simp

lemma sem_same_wake:
  "sem_same st (wake_ncnt slot num st)" "sem_same st (wake_zcnt slot num st)"
  by (auto simp: sem_same_def wake_ncnt_def wake_zcnt_def sem_vals_upd sem_vals_def
      split: option.split intro!: ext)

lemma sem_same_vals_ref:
  "sem_same s t \<Longrightarrow> sem_ref s slot num = Some x \<Longrightarrow>
     \<exists>y. sem_ref t slot num = Some y \<and> semval y = semval x"
proof -
  assume same: "sem_same s t" and x: "sem_ref s slot num = Some x"
  from same have "sem_vals t slot num = sem_vals s slot num" by (simp add: sem_same_def)
  with x show ?thesis by (auto simp: sem_vals_def)
qed

lemma semaoe_some:
  "semaoe env info val sid num st = (None, st') \<Longrightarrow> val \<noteq> 0 \<Longrightarrow> u_semundo st' (se_pid env) \<noteq> None"
  by (auto simp: semaoe_def semaoe_ents_def semaoe_new_def semaoe_found_def Let_def
      split: if_splits option.splits list.splits)

lemma semaoe_views [simp]:
  "sem_ref (snd (semaoe env info val sid num st)) = sem_ref st"
  "sem_vals (snd (semaoe env info val sid num st)) = sem_vals st"
  "sem_hdrs (snd (semaoe env info val sid num st)) = sem_hdrs st"
  by (auto simp: sem_ref_def sem_vals_def sem_hdrs_def semaoe_frame intro!: ext)

lemma semaoe_ents_other:
  "p \<noteq> se_pid env \<Longrightarrow> undo_ents (snd (semaoe env info val sid num st)) p = undo_ents st p"
  by (simp add: undo_ents_def semaoe_frame)

lemma tbl_ok_num:
  assumes "seminfo_ok info" "tbl_ok info (sema st)" "sem_ref st slot num = Some x"
  shows "int num < 32768"
proof -
  note x = sem_ref_Some [OF assms(3)]
  then have "sp_ok info (sema st ! slot)" using assms(2) by (auto simp: tbl_ok_def)
  then have "int (length (sem_base (sema st ! slot))) \<le> 32767"
    using assms(1) by (simp add: sp_ok_def seminfo_ok_def)
  with x show ?thesis by linarith
qed

text \<open>The adjustment of a semaphore that exists keeps the invariant.\<close>

lemma semaoe_inv:
  assumes "seminfo_ok info" "0 \<le> sid" "sid < 2147483648" "sem_inv info st" "sembuf_ok op"
    and "sem_ref st slot (nat (sem_num op)) = Some x"
  shows "sem_inv info (snd (semaoe env info val sid (sem_num op) st))"
proof -
  have "sem_num op < 32768" "0 \<le> sem_num op"
    using tbl_ok_num assms by (fastforce simp: sem_inv_def sembuf_ok_def)+
  then show ?thesis
    using assms semaoe_undos by (simp add: sem_inv_def semaoe_frame)
qed

lemma semop_do_inv:
  assumes info: "seminfo_ok info" "0 \<le> sid" "sid < 2147483648" and inv: "sem_inv info s"
    and op: "sembuf_ok op" and ex: "semop_do env info sid slot op s = Some s'"
  shows "sem_inv info s'"
proof (cases "sem_op op = 0")
  case True
  with ex inv show ?thesis by (auto simp: semop_do_def Let_def split: option.splits if_splits)
next
  case False
  let ?num = "nat (sem_num op)"
  let ?f = "\<lambda>x. x\<lparr>semval := u16 (semval x + sem_op op)\<rparr>"
  define s1 where "s1 = (if undo_flag op then snd (semaoe env info (sem_op op) sid (sem_num op) s) else s)"
  from ex False obtain x where x: "sem_ref s slot ?num = Some x"
    and rng: "\<not> (sem_op op + semval x > semvmx info \<and> sem_op op > 0)" "0 \<le> sem_op op + semval x"
    and s': "s' \<in> {wake_ncnt slot ?num (sem_upd ?f slot ?num s1), wake_zcnt slot ?num (sem_upd ?f slot ?num s1),
                sem_upd ?f slot ?num s1}"
    by (auto simp: semop_do_def Let_def s1_def split: option.splits if_splits prod.splits)
  have inv1: "sem_inv info s1" using semaoe_inv [OF info inv op x] inv by (simp add: s1_def)
  have x_ok: "sem_ok info x" using tbl_ok_ref inv x by (auto simp: sem_inv_def)
  have "sem_ref s1 slot ?num = Some x" using x by (simp add: s1_def)
  moreover have "sem_ok info (?f x)"
    using x_ok rng info(1) False by (auto simp: sem_ok_def seminfo_ok_def u16_id)
  ultimately have "sem_inv info (sem_upd ?f slot ?num s1)"
    by (intro sem_inv_upd [OF inv1]) simp
  with s' wake_inv show ?thesis by auto
qed

lemma semop_do_effect:
  assumes ex: "semop_do env info sid slot op s = Some s'" and op: "sem_op op \<noteq> 0"
  obtains x s1 where "sem_ref s slot (nat (sem_num op)) = Some x"
    and "0 \<le> sem_op op + semval x" "sem_op op > 0 \<longrightarrow> sem_op op + semval x \<le> semvmx info"
    and "s1 = (if undo_flag op then snd (semaoe env info (sem_op op) sid (sem_num op) s) else s)"
    and "undo_flag op \<longrightarrow> fst (semaoe env info (sem_op op) sid (sem_num op) s) = None"
    and "sem_same (sem_upd (\<lambda>x. x\<lparr>semval := u16 (semval x + sem_op op)\<rparr>) slot (nat (sem_num op)) s1) s'"
    and "u_semundo s' = u_semundo s1"
proof -
  let ?num = "nat (sem_num op)"
  let ?f = "\<lambda>x. x\<lparr>semval := u16 (semval x + sem_op op)\<rparr>"
  define s1 where "s1 = (if undo_flag op then snd (semaoe env info (sem_op op) sid (sem_num op) s) else s)"
  have frame: "u_semundo (wake_ncnt sl n t) = u_semundo t" "u_semundo (wake_zcnt sl n t) = u_semundo t" for sl n t
    by (auto simp: wake_ncnt_def wake_zcnt_def split: option.split)
  from ex op obtain x where x: "sem_ref s slot ?num = Some x"
    and rng: "\<not> (sem_op op + semval x > semvmx info \<and> sem_op op > 0)" "0 \<le> sem_op op + semval x"
    and none: "undo_flag op \<longrightarrow> fst (semaoe env info (sem_op op) sid (sem_num op) s) = None"
    and s': "s' \<in> {wake_ncnt slot ?num (sem_upd ?f slot ?num s1), wake_zcnt slot ?num (sem_upd ?f slot ?num s1),
                sem_upd ?f slot ?num s1}"
    by (auto simp: semop_do_def Let_def s1_def split: option.splits if_splits prod.splits)
  have "sem_same (sem_upd ?f slot ?num s1) s'" "u_semundo s' = u_semundo s1"
    using s' sem_same_wake sem_same_refl frame by auto
  with x rng none that s1_def show ?thesis by (auto simp: not_less)
qed

lemma semundo_one_reverts:
  assumes info: "seminfo_ok info" "0 \<le> sid" "sid < 2147483648" and inv: "sem_inv info s"
    and op: "sembuf_ok op" and ex: "semop_do env info sid slot op s = Some s'"
    and t: "sem_inv info t" "sem_same s' t"
  shows "\<exists>t'. semundo_one env info sid slot op t = Some t' \<and> sem_inv info t' \<and> sem_same s t'"
proof (cases "sem_op op = 0")
  case True
  with ex have "s' = s" by (auto simp: semop_do_def Let_def split: option.splits if_splits)
  with True t show ?thesis by (simp add: semundo_one_def)
next
  case False
  let ?num = "nat (sem_num op)" and ?p = "se_pid env"
  let ?f = "\<lambda>x. x\<lparr>semval := u16 (semval x + sem_op op)\<rparr>"
  let ?g = "\<lambda>x. x\<lparr>semval := u16 (semval x - sem_op op)\<rparr>"
  obtain x s1 where x: "sem_ref s slot ?num = Some x"
    and rng: "0 \<le> sem_op op + semval x" "sem_op op > 0 \<longrightarrow> sem_op op + semval x \<le> semvmx info"
    and s1: "s1 = (if undo_flag op then snd (semaoe env info (sem_op op) sid (sem_num op) s) else s)"
    and none: "undo_flag op \<longrightarrow> fst (semaoe env info (sem_op op) sid (sem_num op) s) = None"
    and same1: "sem_same (sem_upd ?f slot ?num s1) s'" and und: "u_semundo s' = u_semundo s1"
    by (rule semop_do_effect [OF ex False]) (rule that; assumption)
  have xok: "sem_ok info x" using tbl_ok_ref inv x by (auto simp: sem_inv_def)
  have u: "u16 (semval x + sem_op op) = semval x + sem_op op"
    using xok rng info(1) by (intro u16_id) (auto simp: sem_ok_def seminfo_ok_def)
  have same: "sem_same (sem_upd ?f slot ?num s1) t" using same1 t(2) by (rule sem_same_trans)
  have "sem_ref (sem_upd ?f slot ?num s1) slot ?num = Some (?f x)"
    using x by (simp add: sem_ref_upd s1)
  from sem_same_vals_ref [OF same this] obtain y
    where y: "sem_ref t slot ?num = Some y" "semval y = semval x + sem_op op"
    using u by auto
  have gy: "u16 (semval y - sem_op op) = semval x"
    using y(2) xok info(1) by (simp add: sem_ok_def seminfo_ok_def u16_id)
  define t1 where "t1 = sem_upd ?g slot ?num t"
  have t1_inv: "sem_inv info t1"
    unfolding t1_def using t(1) y(1) gy xok tbl_ok_ref [of info t slot ?num y]
    by (intro sem_inv_upd) (auto simp: sem_ok_def sem_inv_def)
  have same_t1: "sem_vals t1 = sem_vals s" "sem_hdrs t1 = sem_hdrs s" "undo_ents t1 = undo_ents s1"
    "sem_count t1 = sem_count s" "sem_asu t1 = sem_asu s"
    "\<forall>p. u_semundo s1 p \<noteq> None \<longrightarrow> u_semundo t1 p \<noteq> None"
    using same x y(1) gy
    by (auto simp: sem_same_def t1_def s1 sem_vals_upd semaoe_frame intro!: ext)
      (simp_all add: sem_vals_def)
  show ?thesis
  proof (cases "undo_flag op")
    case False
    then have "s1 = s" by (simp add: s1)
    then have "sem_same s t1" using same_t1 by (simp add: sem_same_def)
    then show ?thesis
      using False \<open>sem_op op \<noteq> 0\<close> y(1) t1_inv by (simp add: semundo_one_def t1_def)
  next
    case True
    define t2 where "t2 = snd (semaoe env info (- sem_op op) sid (sem_num op) t1)"
    have num: "0 \<le> sem_num op" "sem_num op < 32768"
      using tbl_ok_num [OF info(1) _ x] inv op by (auto simp: sem_inv_def sembuf_ok_def)
    have undos: "undos_ok info s" "undos_ok info t1" using inv t1_inv by (simp_all add: sem_inv_def)
    have step: "semaoe env info (sem_op op) sid (sem_num op) s = (None, s1)"
      using none True s1 by (metis prod.collapse)
    have zone: "u_semundo s ?p \<noteq> None \<or> se_zalloc env"
      using semaoe_nospace [OF _ _ step] \<open>sem_op op \<noteq> 0\<close> by blast
    have "aoe_step info (sem_op op) sid (sem_num op) (undo_ents s ?p) = (None, undo_ents s1 ?p)"
      using semaoe_refine [OF info(1) undos(1) num info(2,3) zone, of "sem_op op"] step
      by (metis fst_conv prod.collapse snd_conv)
    then have inverse: "aoe_step info (- sem_op op) sid (sem_num op) (undo_ents t1 ?p) = (None, undo_ents s ?p)"
      using aoe_step_inverse [OF info(1) undos_ok_ents [OF undos(1)]] same_t1(3) by simp
    have zone1: "u_semundo t1 ?p \<noteq> None \<or> se_zalloc env"
      using semaoe_some [OF step \<open>sem_op op \<noteq> 0\<close>] same_t1(6) by blast
    have ents: "undo_ents t2 = undo_ents s"
    proof
      fix p
      show "undo_ents t2 p = undo_ents s p"
        using semaoe_refine [OF info(1) undos(2) num info(2,3) zone1, of "- sem_op op"] inverse
          same_t1(3) step semaoe_ents_other [of p env] t2_def
        by (cases "p = ?p") (auto, metis snd_conv)
    qed
    have t1ref: "sem_ref t1 slot ?num = Some (?g y)" using y(1) by (simp add: t1_def sem_ref_upd)
    have "sem_inv info t2"
      unfolding t2_def by (rule semaoe_inv [OF info t1_inv op t1ref])
    moreover have "\<forall>p. u_semundo s p \<noteq> None \<longrightarrow> u_semundo t2 p \<noteq> None"
      using same_t1(6) semaoe_frame(5,6) step t2_def by (metis snd_conv)
    then have "sem_same s t2"
      using same_t1 ents by (simp add: sem_same_def t2_def semaoe_frame)
    ultimately show ?thesis
      using True \<open>sem_op op \<noteq> 0\<close> y(1) by (simp add: semundo_one_def t1_def t2_def)
  qed
qed

interpretation sem_rb: rollback
  "\<lambda>st. seminfo_ok info \<and> 0 \<le> sid \<and> sid < 2147483648 \<and> sem_inv info st" sem_same sembuf_ok
  "semop_do env info sid slot" "semundo_one env info sid slot"
  for env info sid slot
proof unfold_locales
  fix s x s'
  assume "seminfo_ok info \<and> 0 \<le> sid \<and> sid < 2147483648 \<and> sem_inv info s" "sembuf_ok x"
    "semop_do env info sid slot x s = Some s'"
  then show "seminfo_ok info \<and> 0 \<le> sid \<and> sid < 2147483648 \<and> sem_inv info s'"
    using semop_do_inv by blast
next
  fix s x s' t
  assume "seminfo_ok info \<and> 0 \<le> sid \<and> sid < 2147483648 \<and> sem_inv info s" "sembuf_ok x"
    "semop_do env info sid slot x s = Some s'"
    "seminfo_ok info \<and> 0 \<le> sid \<and> sid < 2147483648 \<and> sem_inv info t" "sem_same s' t"
  then show "\<exists>t'. semundo_one env info sid slot x t = Some t' \<and>
      (seminfo_ok info \<and> 0 \<le> sid \<and> sid < 2147483648 \<and> sem_inv info t') \<and> sem_same s t'"
    using semundo_one_reverts by blast
qed (rule sem_same_refl)

section \<open>The loop of semop\<close>

lemma semop_loop_go:
  assumes "sem_inv info st" "semop_do env info sid slot op st = Some st'"
  shows "semop_loop env info sid slot dn (op # ops) st = semop_loop env info sid slot (dn @ [op]) ops st'"
proof -
  have "0 \<le> semval x" if "sem_ref st slot (nat (sem_num op)) = Some x" for x
    using assms(1) that tbl_ok_ref by (fastforce simp: sem_inv_def sem_ok_def)
  with assms(2) show ?thesis
    by (auto simp: semop_do_def Let_def split: option.splits if_splits prod.splits)
qed

lemma semaoe_err_same:
  assumes info: "seminfo_ok info" "0 \<le> sid" "sid < 2147483648" and inv: "sem_inv info st"
    and op: "sembuf_ok op" and x: "sem_ref st slot (nat (sem_num op)) = Some x"
    and err: "semaoe env info val sid (sem_num op) st = (Some e, st1)"
  shows "sem_same st st1 \<and> sem_inv info st1"
proof -
  have num: "0 \<le> sem_num op" "sem_num op < 32768"
    using tbl_ok_num [OF info(1) _ x] inv op by (auto simp: sem_inv_def sembuf_ok_def)
  have undos: "undos_ok info st" using inv by (simp add: sem_inv_def)
  have st1: "st1 = snd (semaoe env info val sid (sem_num op) st)" using err by simp
  have err_ents: "aoe_step info val sid (sem_num op) es = (Some e, es') \<Longrightarrow> es' = es" for es es'
    by (auto simp: aoe_step_def aoe_insert_def Let_def split: if_splits list.splits)
  have "undo_ents st1 (se_pid env) = undo_ents st (se_pid env)"
  proof (cases "u_semundo st (se_pid env) \<noteq> None \<or> se_zalloc env")
    case True
    from semaoe_refine [OF info(1) undos num info(2,3) True, of val] err
    have "aoe_step info val sid (sem_num op) (undo_ents st (se_pid env))
        = (Some e, undo_ents st1 (se_pid env))"
      by (metis fst_conv prod.collapse snd_conv)
    then show ?thesis by (rule err_ents)
  next
    case False
    with semaoe_nospace [OF _ _ err] show ?thesis by simp
  qed
  then have "undo_ents st1 = undo_ents st"
    using semaoe_ents_other st1 by (intro ext) metis
  moreover have "\<forall>p. u_semundo st p \<noteq> None \<longrightarrow> u_semundo st1 p \<noteq> None"
    using semaoe_frame(5,6) st1 by metis
  ultimately have "sem_same st st1"
    by (simp add: sem_same_def st1 semaoe_frame)
  moreover have "sem_inv info st1"
    unfolding st1 by (rule semaoe_inv [OF info inv op x])
  ultimately show ?thesis by simp
qed

text \<open>An operation that cannot proceed ends the loop in one of three ways.\<close>

lemma semop_loop_stop:
  assumes info: "seminfo_ok info" "0 \<le> sid" "sid < 2147483648" and inv: "sem_inv info st"
    and op: "sembuf_ok op" and stop: "semop_do env info sid slot op st = None"
  obtains (fault) "sem_ref st slot (nat (sem_num op)) = None"
      "semop_loop env info sid slot dn (op # ops) st = (SemFault, st)"
    | (fail) e st1 where "sem_same st st1" "sem_inv info st1"
      "semop_loop env info sid slot dn (op # ops) st = semop_fail env info dn sid slot (SemErr e) st1"
    | (wait) ch where "ch \<in> {NCnt slot (nat (sem_num op)), ZCnt slot (nat (sem_num op))}"
      "semop_loop env info sid slot dn (op # ops) st = wait_for_sem env info dn sid slot op ch st"
proof (cases "sem_ref st slot (nat (sem_num op))")
  case None
  then show thesis using fault by simp
next
  case (Some x)
  have nonneg: "0 \<le> semval x"
    using inv Some tbl_ok_ref by (fastforce simp: sem_inv_def sem_ok_def)
  consider (over) "sem_op op > 0" "sem_op op + semval x > semvmx info"
    | (zero) "sem_op op = 0" "semval x \<noteq> 0"
    | (under) "sem_op op < 0" "sem_op op + semval x < 0"
    | (aoe) e st1 where "sem_op op \<noteq> 0" "undo_flag op" "semaoe env info (sem_op op) sid (sem_num op) st = (Some e, st1)"
        "sem_op op > 0 \<longrightarrow> sem_op op + semval x \<le> semvmx info" "0 \<le> sem_op op + semval x"
    using stop Some nonneg
    by (force simp: semop_do_def Let_def split: if_splits prod.splits option.splits)
  then show thesis
  proof cases
    case over
    then show thesis using Some fail [of st ERANGE] inv sem_same_refl by simp
  next
    case zero
    then show thesis using Some wait [of "ZCnt slot (nat (sem_num op))"] by simp
  next
    case under
    then show thesis using Some wait [of "NCnt slot (nat (sem_num op))"] by simp
  next
    case aoe
    have loop: "semop_loop env info sid slot dn (op # ops) st
        = semop_fail env info dn sid slot (SemErr e) st1"
    proof (cases "sem_op op > 0")
      case True
      with Some aoe show ?thesis by simp
    next
      case False
      with aoe have "sem_op op < 0" "- sem_op op \<le> semval x" by linarith+
      with Some aoe False show ?thesis by simp
    qed
    then show thesis
      using fail semaoe_err_same [OF info inv op Some aoe(3)] by blast
  qed
qed

lemma semundo_loop_revert: "semundo_loop env info sid slot ops st = sem_rb.revert_all env info sid slot ops st"
  by (induction ops arbitrary: st) (auto split: option.split)

lemma sem_inv_chan:
  assumes "sem_inv info st" "\<And>n. 0 \<le> n \<Longrightarrow> n < 65536 \<Longrightarrow> 0 \<le> f n \<and> f n < 65536"
  shows "sem_inv info (sem_chan_upd f ch st)" "sem_same st (sem_chan_upd f ch st)"
proof -
  have ok: "sem_ref st sl n = Some x \<Longrightarrow> sem_ok info x" for sl n x
    using assms(1) tbl_ok_ref by (auto simp: sem_inv_def)
  show "sem_inv info (sem_chan_upd f ch st)"
    using assms ok by (auto simp: sem_chan_upd_def sem_ok_def split: sem_chan.split intro!: sem_inv_upd)
  show "sem_same st (sem_chan_upd f ch st)"
    by (auto simp: sem_chan_upd_def sem_same_def sem_vals_upd sem_vals_def split: sem_chan.split intro!: ext)
qed

text \<open>The outcome of the loop, for a caller whose operations \<open>dn\<close> brought \<open>st0\<close> to \<open>st\<close>.\<close>

definition semop_outcome_ok ::
  "sem_env \<Rightarrow> seminfo \<Rightarrow> int \<Rightarrow> nat \<Rightarrow> sembuf list \<Rightarrow> sem_state \<Rightarrow> sem_outcome \<times> sem_state \<Rightarrow> bool" where
  "semop_outcome_ok env info sid slot ops st0 r \<longleftrightarrow>
     (case r of
        (SemRet v, st) \<Rightarrow> v = 0 \<and> sem_rb.exec_all env info sid slot ops st0 = Some st
      | (SemErr e, st) \<Rightarrow> sem_same st0 st \<and> sem_inv info st
      | (SemSleep ch, st) \<Rightarrow> sem_same st0 st \<and> sem_inv info st
      | (SemFault, st) \<Rightarrow> \<exists>op\<in>set ops. sem_ref st0 slot (nat (sem_num op)) = None)"

lemma semop_do_ref:
  assumes "semop_do env info sid slot op st = Some st'"
  shows "sem_ref st' sl n = None \<longleftrightarrow> sem_ref st sl n = None"
proof (cases "sem_op op = 0")
  case True
  with assms show ?thesis by (auto simp: semop_do_def Let_def split: option.splits if_splits)
next
  case False
  then obtain s1 f where "sem_same (sem_upd f slot (nat (sem_num op)) s1) st'" "sem_ref s1 = sem_ref st"
    using semop_do_effect [OF assms] by (metis semaoe_views(1))
  then have "(sem_vals st' sl n = None) = (sem_vals st sl n = None)"
    by (auto simp: sem_same_def sem_vals_upd sem_vals_def)
  then show ?thesis by (simp add: sem_vals_def)
qed

lemma exec_all_ref:
  "sem_rb.exec_all env info sid slot ops st = Some st' \<Longrightarrow>
     sem_ref st' sl n = None \<longleftrightarrow> sem_ref st sl n = None"
  by (induction ops arbitrary: st) (auto split: option.splits simp: semop_do_ref)

lemma semop_loop_outcome:
  assumes info: "seminfo_ok info" "0 \<le> sid" "sid < 2147483648"
    and inv0: "sem_inv info st0" and dn: "sem_rb.exec_all env info sid slot dn st0 = Some st"
    and good: "list_all sembuf_ok (dn @ ops)"
  shows "semop_outcome_ok env info sid slot (dn @ ops) st0 (semop_loop env info sid slot dn ops st)"
  using dn good
proof (induction ops arbitrary: dn st)
  case Nil
  then show ?case by (simp add: semop_outcome_ok_def)
next
  case (Cons op ops)
  have inv: "sem_inv info st"
    using sem_rb.exec_all_inv [of info sid st0 dn env slot st] Cons.prems info inv0 by simp
  have op: "sembuf_ok op" and gdn: "list_all sembuf_ok dn" using Cons.prems by simp_all
  have rev: "\<exists>t'. semundo env info dn sid slot t = Some t' \<and> sem_inv info t' \<and> sem_same st0 t'"
    if "sem_inv info t" "sem_same st t" for t
    using sem_rb.revert_exec_all [of info sid st0 dn env slot st t] Cons.prems(1) gdn info inv0 that
    by (simp add: semundo_def semundo_loop_revert)
  have dn_nil: "dn = [] \<Longrightarrow> st = st0" using Cons.prems(1) by simp
  show ?case
  proof (cases "semop_do env info sid slot op st")
    case (Some st')
    have "sem_rb.exec_all env info sid slot (dn @ [op]) st0 = Some st'"
      using Cons.prems(1) Some by (simp add: sem_rb.exec_all_append)
    from Cons.IH [OF this] Cons.prems(2) semop_loop_go [OF inv Some] show ?thesis by simp
  next
    case None
    show ?thesis
    proof (cases rule: semop_loop_stop [OF info inv op None, of dn ops, case_names fault fail wait])
      case fault
      have "sem_ref st0 slot (nat (sem_num op)) = None"
      proof (rule ccontr)
        assume "sem_ref st0 slot (nat (sem_num op)) \<noteq> None"
        obtain t' where "sem_same st0 t'" "semundo env info dn sid slot st = Some t'"
          using rev [OF inv sem_same_refl] by blast
        with \<open>sem_ref st0 slot _ \<noteq> None\<close> fault(1) Cons.prems(1) show False
          using exec_all_ref by metis
      qed
      with fault(2) show ?thesis by (simp add: semop_outcome_ok_def)
    next
      case (fail e st1)
      then show ?thesis
        using rev [of st1] dn_nil by (cases "dn = []") (auto simp: semop_fail_def semop_outcome_ok_def)
    next
      case (wait ch)
      obtain t where t: "(if dn = [] then Some st else semundo env info dn sid slot st) = Some t"
        "sem_inv info t" "sem_same st0 t"
        using rev [OF inv sem_same_refl] dn_nil inv sem_same_refl by (cases "dn = []") auto
      have "sem_inv info (sem_chan_upd (\<lambda>n. u16 (n + 1)) ch t) \<and> sem_same st0 (sem_chan_upd (\<lambda>n. u16 (n + 1)) ch t)"
        using sem_inv_chan [OF t(2), of "\<lambda>n. u16 (n + 1)" ch] sem_same_trans [OF t(3)] by simp
      with wait t show ?thesis by (simp add: wait_for_sem_def semop_outcome_ok_def)
    qed
  qed
qed

end
