(* ===== verification/Svipc_Sem_Props.thy ===== *)
theory Svipc_Sem_Props
  imports Svipc_Sem_Atomic
begin

text \<open>
  The semaphore facility as a whole: its key table and identifiers are instances of the
  common IPC contracts, every entry point keeps the invariant, and what \<open>semop\<close>,
  \<open>semctl\<close>, \<open>semget\<close> and \<open>semexit\<close> do.
\<close>

section \<open>The IPC contracts\<close>

interpretation sem_fac: ipc_facility sem_perm sem_set_perm
  by unfold_locales (simp add: sem_set_perm_def)

interpretation sem_ids: ipc_ids sem_perm "semmni info" "semconv info" "\<lambda>_. True"
  for info
proof unfold_locales
  fix tbl :: "semid_ds list" and d k
  assume len: "int (length tbl) = semmni info"
  show "semconv info tbl d = Some k \<longleftrightarrow>
      0 \<le> d \<and> k = nat (d mod semmni info) \<and> k < length tbl
      \<and> ipc_allocated (sem_perm (tbl ! k)) \<and> d div semmni info = ip_seq (sem_perm (tbl ! k))"
    by (auto simp: semconv_def Let_def aref_def split: option.splits)
qed

lemma sem_table_length: "tbl_ok info tbl \<Longrightarrow> seminfo_ok info \<Longrightarrow> int (length tbl) = semmni info"
  by (simp add: tbl_ok_def seminfo_ok_def)

text \<open>An identifier that \<open>semconv\<close> accepts fits into 31 bits.\<close>

lemma semconv_range:
  assumes "seminfo_ok info" "tbl_ok info tbl" "semconv info tbl sid = Some slot"
  shows "slot < length tbl \<and> 0 \<le> sid \<and> sid < 2147483648"
proof -
  note len = sem_table_length [OF assms(2,1)]
  note c = sem_ids.conv_slot [OF len TrueI assms(3)]
  then have "sp_ok info (tbl ! slot)" using assms(2) by (auto simp: tbl_ok_def)
  then have seq: "0 \<le> ip_seq (sem_perm (tbl ! slot))" "ip_seq (sem_perm (tbl ! slot)) \<le> 65535"
    by (auto simp: sp_ok_def)
  have mni: "0 < semmni info" "semmni info \<le> 32767" using assms(1) by (auto simp: seminfo_ok_def)
  have "ip_seq (sem_perm (tbl ! slot)) * semmni info \<le> 65535 * 32767"
    by (rule mult_mono) (use seq mni in auto)
  moreover have "int slot < 32767" using c len mni by linarith
  ultimately show ?thesis using c by auto
qed

section \<open>semop\<close>

lemma semop_perm_range:
  "semop_perm cr sp ops = None \<Longrightarrow> op \<in> set ops \<Longrightarrow> sem_num op < sem_nsems sp"
  by (induction ops) (auto split: if_splits)

lemma set_sempids_frame:
  "sem_vals (set_sempids pid slot ops st) = sem_vals st
   \<and> undo_ents (set_sempids pid slot ops st) = undo_ents st
   \<and> u_semundo (set_sempids pid slot ops st) = u_semundo st"
proof (induction ops arbitrary: st)
  case (Cons op ops)
  have "sem_vals (sem_upd (\<lambda>s. s\<lparr>sempid := pid\<rparr>) slot (nat (sem_num op)) st) = sem_vals st"
    by (auto simp: sem_vals_upd sem_vals_def intro!: ext)
  with Cons show ?case by simp
qed simp

lemma set_sempids_inv: "sem_inv info st \<Longrightarrow> sem_inv info (set_sempids pid slot ops st)"
proof (induction ops arbitrary: st)
  case (Cons op ops)
  have "sem_inv info (sem_upd (\<lambda>s. s\<lparr>sempid := pid\<rparr>) slot (nat (sem_num op)) st)"
    by (rule sem_inv_upd [OF Cons.prems])
      (use Cons.prems tbl_ok_ref in \<open>fastforce simp: sem_inv_def sem_ok_def\<close>)
  with Cons show ?case by simp
qed simp

lemma sem_inv_hdr:
  assumes "sem_inv info st" "slot < length (sema st) \<Longrightarrow> sp_ok info (f (sema st ! slot))"
  shows "sem_inv info (sp_upd f slot st)"
proof -
  have "sp_ok info sp" if "sp \<in> set ((sema st)[slot := f (sema st ! slot)])" for sp
  proof (cases "slot < length (sema st)")
    case True
    with set_list_updateD [OF that] assms show ?thesis
      by (auto simp: sem_inv_def tbl_ok_def)
  next
    case False
    then show ?thesis using that assms(1) by (auto simp: sem_inv_def tbl_ok_def list_update_beyond)
  qed
  with assms(1) show ?thesis
    by (simp add: sem_inv_def tbl_ok_def sp_upd_def undos_ok_def undo_ents_def)
qed

lemma sem_inv_sp: "sem_inv info st \<Longrightarrow> slot < length (sema st) \<Longrightarrow> sp_ok info (sema st ! slot)"
  by (simp add: sem_inv_def tbl_ok_def)

lemma sp_upd_views:
  assumes "\<And>sp. sem_base (f sp) = sem_base sp"
  shows "sem_ref (sp_upd f slot st) = sem_ref st" "sem_vals (sp_upd f slot st) = sem_vals st"
    "undo_ents (sp_upd f slot st) = undo_ents st"
proof -
  show r: "sem_ref (sp_upd f slot st) = sem_ref st"
  proof (intro ext)
    fix s n
    show "sem_ref (sp_upd f slot st) s n = sem_ref st s n"
      by (cases "s = slot"; cases "slot < length (sema st)")
        (simp_all add: sem_ref_def sp_upd_def aref_def assms)
  qed
  then show "sem_vals (sp_upd f slot st) = sem_vals st"
    by (intro ext) (simp add: sem_vals_def)
  show "undo_ents (sp_upd f slot st) = undo_ents st"
    by (rule undo_ents_cong) (simp add: sp_upd_def)
qed

lemma sem_count_views [simp]:
  "sem_vals (st\<lparr>sem_count := n\<rparr>) = sem_vals st" "undo_ents (st\<lparr>sem_count := n\<rparr>) = undo_ents st"
  by (auto simp: sem_vals_def sem_ref_def undo_ents_def intro!: ext)

lemma sem_inv_count [simp]:
  "sem_inv info (st\<lparr>sem_count := n\<rparr>) = sem_inv info st" "sem_inv info (st\<lparr>sem_asu := b\<rparr>) = sem_inv info st"
  by (simp_all add: sem_inv_def undos_ok_def undo_ents_def)

text \<open>What a call of \<open>semop\<close> may leave, for the state \<open>st\<close> it started in: either all the
  operations were done, or values, headers and adjustments are untouched.\<close>

definition semop_result_ok ::
  "sem_env \<Rightarrow> seminfo \<Rightarrow> int \<Rightarrow> nat \<Rightarrow> sembuf list \<Rightarrow> sem_state \<Rightarrow> sem_outcome \<times> sem_state \<Rightarrow> bool" where
  "semop_result_ok env info sid slot ops st r \<longleftrightarrow>
     (case r of
        (SemRet v, st') \<Rightarrow> sem_inv info st' \<and>
           (\<exists>st1. sem_rb.exec_all env info sid slot ops st = Some st1
              \<and> sem_vals st' = sem_vals st1 \<and> undo_ents st' = undo_ents st1)
      | (SemErr e, st') \<Rightarrow> sem_same st st' \<and> sem_inv info st'
      | (SemSleep ch, st') \<Rightarrow> sem_same st st' \<and> sem_inv info st'
      | (SemFault, st') \<Rightarrow> \<exists>op\<in>set ops. sem_ref st slot (nat (sem_num op)) = None)"

lemma sp_ok_otime: "sp_ok info sp \<Longrightarrow> sp_ok info (sp\<lparr>sem_otime := t\<rparr>)"
  by (simp add: sp_ok_def)

lemma semop_finish_result:
  assumes info: "seminfo_ok info" "0 \<le> sid" "sid < 2147483648" and inv: "sem_inv info st"
    and good: "list_all sembuf_ok ops"
  shows "semop_result_ok env info sid slot ops st
    (semop_finish env slot ops (semop_loop env info sid slot [] ops st))"
proof -
  obtain out st1 where r: "semop_loop env info sid slot [] ops st = (out, st1)" by fastforce
  have o: "semop_outcome_ok env info sid slot ops st (out, st1)"
    using semop_loop_outcome [OF info inv, of env slot "[]" st ops] good r by simp
  show ?thesis
  proof (cases out)
    case (SemRet v)
    with o have ex: "sem_rb.exec_all env info sid slot ops st = Some st1"
      by (simp add: semop_outcome_ok_def)
    then have inv1: "sem_inv info st1"
      using sem_rb.exec_all_inv [of info sid st ops env slot st1] info inv good by simp
    let ?st2 = "sp_upd (\<lambda>sp. sp\<lparr>sem_otime := se_time env\<rparr>) slot (set_sempids (se_pid env) slot ops st1)"
    have inv2: "sem_inv info (?st2\<lparr>sem_count := n\<rparr>)" for n
      using sem_inv_hdr [OF set_sempids_inv [OF inv1]] sp_ok_otime sem_inv_sp set_sempids_inv [OF inv1]
      by simp
    have views: "sem_vals (?st2\<lparr>sem_count := n\<rparr>) = sem_vals st1 \<and> undo_ents (?st2\<lparr>sem_count := n\<rparr>) = undo_ents st1" for n
      using set_sempids_frame [of "se_pid env" slot ops st1] by (simp add: sp_upd_views)
    show ?thesis
      using r SemRet inv2 views ex by (simp add: semop_finish_def semop_result_ok_def)
  qed (use r o in \<open>simp_all add: semop_finish_def semop_result_ok_def semop_outcome_ok_def\<close>)
qed

text \<open>The total a list of operations adds to one semaphore, and the part of it that is
  recorded for undo.\<close>

definition op_total :: "sembuf list \<Rightarrow> int \<Rightarrow> int" where
  "op_total ops num = sum_list (map sem_op (filter (\<lambda>op. sem_num op = num) ops))"

definition undo_total :: "sembuf list \<Rightarrow> int \<Rightarrow> int" where
  "undo_total ops num = sum_list (map sem_op (filter (\<lambda>op. sem_num op = num \<and> undo_flag op) ops))"

lemma semop_do_vals:
  assumes info: "seminfo_ok info" and inv: "sem_inv info st"
    and op: "sembuf_ok op" and ex: "semop_do env info sid slot op st = Some st'"
  shows "sem_vals st' sl n = (if sl = slot \<and> int n = sem_num op
           then map_option (\<lambda>v. v + sem_op op) (sem_vals st sl n) else sem_vals st sl n)"
proof (cases "sem_op op = 0")
  case True
  with ex have "st' = st" by (auto simp: semop_do_def Let_def split: option.splits if_splits)
  with True show ?thesis by (simp add: option.map_ident)
next
  case False
  let ?num = "nat (sem_num op)"
  have num: "int n = sem_num op \<longleftrightarrow> n = ?num" using op by (auto simp: sembuf_ok_def)
  obtain x s1 where x: "sem_ref st slot ?num = Some x"
    and rng: "0 \<le> sem_op op + semval x" "sem_op op > 0 \<longrightarrow> sem_op op + semval x \<le> semvmx info"
    and s1: "s1 = (if undo_flag op then snd (semaoe env info (sem_op op) sid (sem_num op) st) else st)"
    and "undo_flag op \<longrightarrow> fst (semaoe env info (sem_op op) sid (sem_num op) st) = None"
    and same: "sem_same (sem_upd (\<lambda>x. x\<lparr>semval := u16 (semval x + sem_op op)\<rparr>) slot ?num s1) st'"
    and "u_semundo st' = u_semundo s1"
    by (rule semop_do_effect [OF ex False]) (rule that; assumption)
  have "sem_ok info x" using tbl_ok_ref inv x by (auto simp: sem_inv_def)
  then have u: "u16 (semval x + sem_op op) = semval x + sem_op op"
    using rng info by (intro u16_id) (auto simp: sem_ok_def seminfo_ok_def)
  have s1v: "sem_ref s1 = sem_ref st" "sem_vals s1 = sem_vals st" by (simp_all add: s1)
  have "sem_vals st' sl n =
      (if sl = slot \<and> n = ?num then Some (semval x + sem_op op) else sem_vals st sl n)"
    using same x u s1v by (simp add: sem_same_def sem_vals_upd)
  moreover have "sem_vals st slot ?num = Some (semval x)" using x by (simp add: sem_vals_def)
  ultimately show ?thesis using num by auto
qed

lemma semop_do_undo:
  assumes info: "seminfo_ok info" "0 \<le> sid" "sid < 2147483648" and inv: "sem_inv info st"
    and op: "sembuf_ok op" and ex: "semop_do env info sid slot op st = Some st'"
  shows "aoe_of (undo_ents st' p) s n = aoe_of (undo_ents st p) s n
      - (if p = se_pid env \<and> s = sid \<and> n = sem_num op \<and> undo_flag op then sem_op op else 0)"
proof (cases "sem_op op = 0 \<or> \<not> undo_flag op")
  case True
  show ?thesis
  proof (cases "sem_op op = 0")
    case True
    with ex have "st' = st" by (auto simp: semop_do_def Let_def split: option.splits if_splits)
    with True show ?thesis by simp
  next
    case False
    with True have noundo: "\<not> undo_flag op" by simp
    have "u_semundo st' = u_semundo st"
      by (rule semop_do_effect [OF ex False]) (simp add: noundo)
    then have "undo_ents st' = undo_ents st" by (rule undo_ents_cong)
    then show ?thesis using noundo by simp
  qed
next
  case False
  then have nz: "sem_op op \<noteq> 0" by simp
  let ?num = "nat (sem_num op)"
  obtain x s1 where x: "sem_ref st slot ?num = Some x"
    and "0 \<le> sem_op op + semval x" "sem_op op > 0 \<longrightarrow> sem_op op + semval x \<le> semvmx info"
    and s1: "s1 = (if undo_flag op then snd (semaoe env info (sem_op op) sid (sem_num op) st) else st)"
    and none: "undo_flag op \<longrightarrow> fst (semaoe env info (sem_op op) sid (sem_num op) st) = None"
    and "sem_same (sem_upd (\<lambda>x. x\<lparr>semval := u16 (semval x + sem_op op)\<rparr>) slot ?num s1) st'"
    and und: "u_semundo st' = u_semundo s1"
    by (rule semop_do_effect [OF ex nz]) (rule that; assumption)
  have step: "semaoe env info (sem_op op) sid (sem_num op) st = (None, s1)"
    using none False s1 by (metis prod.collapse)
  have num: "0 \<le> sem_num op" "sem_num op < 32768"
    using tbl_ok_num [OF info(1) _ x] inv op by (auto simp: sem_inv_def sembuf_ok_def)
  have undos: "undos_ok info st" using inv by (simp add: sem_inv_def)
  have zone: "u_semundo st (se_pid env) \<noteq> None \<or> se_zalloc env"
    using semaoe_nospace [OF _ _ step] False by blast
  have "aoe_step info (sem_op op) sid (sem_num op) (undo_ents st (se_pid env))
      = (None, undo_ents s1 (se_pid env))"
    using semaoe_refine [OF info(1) undos num info(2,3) zone, of "sem_op op"] step
    by (metis fst_conv prod.collapse snd_conv)
  note own = aoe_step_map [OF undos_ok_ents [OF undos] this]
  have "undo_ents st' = undo_ents s1" using und by (rule undo_ents_cong)
  moreover have "p \<noteq> se_pid env \<Longrightarrow> undo_ents s1 p = undo_ents st p"
    using semaoe_ents_other step by (metis snd_conv)
  ultimately show ?thesis using own False by (cases "p = se_pid env") auto
qed

lemma exec_all_effect:
  assumes info: "seminfo_ok info" "0 \<le> sid" "sid < 2147483648"
  shows "sem_inv info st \<Longrightarrow> list_all sembuf_ok ops \<Longrightarrow>
    sem_rb.exec_all env info sid slot ops st = Some st1 \<Longrightarrow>
    sem_vals st1 sl n = (if sl = slot then map_option (\<lambda>v. v + op_total ops (int n)) (sem_vals st sl n)
                         else sem_vals st sl n)
    \<and> aoe_of (undo_ents st1 p) s k = aoe_of (undo_ents st p) s k
        - (if p = se_pid env \<and> s = sid then undo_total ops k else 0)"
proof (induction ops arbitrary: st)
  case Nil
  then show ?case by (simp add: op_total_def undo_total_def option.map_ident)
next
  case (Cons op ops)
  then obtain st' where st': "semop_do env info sid slot op st = Some st'"
    "sem_rb.exec_all env info sid slot ops st' = Some st1"
    by (auto split: option.splits)
  have op: "sembuf_ok op" "list_all sembuf_ok ops" using Cons.prems by simp_all
  have "sem_inv info st'" using semop_do_inv [OF info Cons.prems(1) op(1) st'(1)] .
  from Cons.IH [OF this op(2) st'(2)]
    semop_do_vals [OF info(1) Cons.prems(1) op(1) st'(1), of sl n]
    semop_do_undo [OF info Cons.prems(1) op(1) st'(1), of p s k]
  show ?case
    by (auto simp: op_total_def undo_total_def option.map_comp comp_def algebra_simps)
qed

section \<open>Every entry point keeps the invariant\<close>

lemma semop_check_inv:
  assumes info: "seminfo_ok info" "0 \<le> sid" "sid < 2147483648" and inv: "sem_inv info st"
    and good: "\<forall>ops. uops = Some ops \<longrightarrow> list_all sembuf_ok ops"
    and r: "semop_check env info again sid slot uops st = (out, st')" "out \<noteq> SemFault"
  shows "sem_inv info st'"
proof (cases "again \<and> semconv info (sema st) sid = None \<or> uops = None")
  case True
  with r inv show ?thesis by (auto simp: semop_check_def split: if_splits)
next
  case False
  then obtain ops where ops: "uops = Some ops" by auto
  with False r(1) have "semop_finish env slot ops (semop_loop env info sid slot [] ops st) = (out, st')"
    by (auto simp: semop_check_def)
  with semop_finish_result [OF info inv, of ops env slot] good ops r(2) show ?thesis
    by (auto simp: semop_result_ok_def split: sem_outcome.splits)
qed

lemma semop_inv:
  assumes info: "seminfo_ok info" and inv: "sem_inv info st"
    and good: "\<forall>ops. uops = Some ops \<longrightarrow> list_all sembuf_ok ops"
    and r: "semop env info sid nsops uops st = (out, st')" "out \<noteq> SemFault"
  shows "sem_inv info st'"
proof -
  have tbl: "tbl_ok info (sema st)" using inv by (simp add: sem_inv_def)
  show ?thesis
    using r inv good semconv_range [OF info tbl, of sid]
    by (auto simp: semop_def split: option.splits if_splits intro: semop_check_inv [OF info])
qed

lemma wait_done_inv: "sem_inv info st \<Longrightarrow> wait_done i ch st = Some (b, st') \<Longrightarrow> sem_inv info st'"
  by (auto simp: wait_done_def split: if_splits option.splits intro!: sem_inv_chan)

lemma semop_resume_inv:
  assumes info: "seminfo_ok info" and inv: "sem_inv info st"
    and good: "\<forall>ops. uops = Some ops \<longrightarrow> list_all sembuf_ok ops"
    and r: "semop_resume env info sid slot ch i uops st = (out, st')" "out \<noteq> SemFault"
  shows "sem_inv info st'"
proof -
  obtain b st1 where w: "wait_done i ch st = Some (b, st1)"
    using r by (cases "wait_done i ch st") (auto simp: semop_resume_def)
  have inv1: "sem_inv info st1" using wait_done_inv [OF inv w] .
  have tbl: "tbl_ok info (sema st1)" using inv1 by (simp add: sem_inv_def)
  show ?thesis
  proof (cases "b \<and> semconv info (sema st1) sid \<noteq> None")
    case True
    then obtain k where "semconv info (sema st1) sid = Some k" by auto
    with semconv_range [OF info tbl this] True w r show ?thesis
      using semop_check_inv [OF info _ _ inv1 good] by (auto simp: semop_resume_def)
  next
    case False
    with w r inv1 show ?thesis by (cases b) (auto simp: semop_resume_def semop_check_def)
  qed
qed

text \<open>Storing a value and waking the sleepers.\<close>

lemma sem_setval_inv:
  assumes "sem_inv info st" "u16 v \<le> semvmx info"
  shows "sem_inv info (sem_setval slot num v st)"
proof -
  have "sem_inv info (sem_upd (\<lambda>s. s\<lparr>semval := u16 v\<rparr>) slot num st)"
    by (rule sem_inv_upd [OF assms(1)])
      (use assms tbl_ok_ref in \<open>fastforce simp: sem_inv_def sem_ok_def\<close>)
  from wake_inv [OF this, of slot num] show ?thesis by (auto simp only: sem_setval_def Let_def split: if_split)
qed

lemma sem_pid_inv: "sem_inv info st \<Longrightarrow> sem_inv info (sem_upd (\<lambda>s. s\<lparr>sempid := p\<rparr>) slot num st)"
  by (rule sem_inv_upd) (auto simp: sem_inv_def sem_ok_def dest: tbl_ok_ref)

lemma setall_sems_inv:
  "sem_inv info st \<Longrightarrow> \<forall>v\<in>set vs. u16 v \<le> semvmx info \<Longrightarrow> sem_inv info (setall_sems pid slot num vs st)"
  by (induction vs arbitrary: num st) (simp_all add: sem_pid_inv sem_setval_inv)

lemma rmid_sems_inv:
  "seminfo_ok info \<Longrightarrow> sem_inv info st \<Longrightarrow> sem_inv info (rmid_sems slot num n st)"
proof (induction n arbitrary: num st)
  case (Suc n)
  have "sem_inv info (sem_upd (\<lambda>s. s\<lparr>semval := 0, sempid := 0\<rparr>) slot num st)"
    by (rule sem_inv_upd [OF Suc.prems(2)])
      (use Suc.prems tbl_ok_ref in \<open>fastforce simp: sem_inv_def sem_ok_def seminfo_ok_def\<close>)
  then show ?case using Suc by (simp add: wake_inv)
qed simp

lemma semunrm_inv: "seminfo_ok info \<Longrightarrow> sem_inv info st \<Longrightarrow> sem_inv info (semunrm sid low high st)"
  by (simp add: sem_inv_def semunrm_undos_ok)

lemma sem_owner_frame:
  "sem_owner cr p st = (e, st') \<Longrightarrow> \<exists>b. st' = st\<lparr>sem_asu := b\<rparr>"
proof -
  assume "sem_owner cr p st = (e, st')"
  then have "st' = st\<lparr>sem_asu := sem_asu st'\<rparr>"
    by (auto simp: sem_owner_def suser_def split: if_splits)
  then show ?thesis ..
qed

text \<open>The table and what every \<open>semctl\<close> helper does to it.\<close>

lemma length_sema [simp]:
  "length (sema (sp_upd f slot st)) = length (sema st)"
  "length (sema (wake_ncnt slot num st)) = length (sema st)"
  "length (sema (wake_zcnt slot num st)) = length (sema st)"
  "length (sema (rmid_sems slot num n st)) = length (sema st)"
  by (simp add: sp_upd_def, (auto simp: wake_ncnt_def wake_zcnt_def sem_wakeup_def split: option.split)[2],
      induction n arbitrary: num st)
    (auto simp: wake_ncnt_def wake_zcnt_def sem_wakeup_def split: option.split)

lemma semctl_rmid_inv:
  assumes info: "seminfo_ok info" and inv: "sem_inv info st"
  shows "sem_inv info (snd (snd (semctl_rmid env info sid slot st)))"
proof -
  obtain e st1 where o: "sem_owner (se_cred env) (sem_perm (sema st ! slot)) st = (e, st1)" by fastforce
  then obtain b where st1: "st1 = st\<lparr>sem_asu := b\<rparr>" using sem_owner_frame by blast
  have inv1: "sem_inv info st1" using inv st1 by simp
  show ?thesis
  proof (cases e)
    case None
    define n where "n = sem_nsems (sema st ! slot)"
    have i3: "sem_inv info (rmid_sems slot 0 (nat n) (semunrm sid 0 n st1))"
      by (intro rmid_sems_inv semunrm_inv info inv1)
    let ?st3 = "rmid_sems slot 0 (nat n) (semunrm sid 0 n st1)"
    have hdr: "sem_inv info (sp_upd (\<lambda>sp. sp\<lparr>sem_base := [],
        sem_perm := (sem_perm sp)\<lparr>ip_seq := q, ip_mode := 0\<rparr>\<rparr>) slot ?st3)"
      if q: "0 \<le> q" "q < 65536" for q
      by (rule sem_inv_hdr [OF i3])
        (use info q in \<open>simp add: sp_ok_def seminfo_ok_def ipc_allocated_def\<close>)
    show ?thesis
      using o None hdr [of 0] hdr [of "u16 (ip_seq (sem_perm (sema st ! slot)) + 1)"]
      by (simp add: semctl_rmid_def Let_def n_def)
  qed (use o inv1 in \<open>simp add: semctl_rmid_def\<close>)
qed

lemma semctl_set_inv:
  assumes inv: "sem_inv info st" and al: "ipc_allocated (sem_perm (sema st ! slot))"
  shows "sem_inv info (snd (snd (semctl_set env slot uds st)))"
proof -
  obtain e st1 where o: "sem_owner (se_cred env) (sem_perm (sema st ! slot)) st = (e, st1)" by fastforce
  then obtain b where st1: "st1 = st\<lparr>sem_asu := b\<rparr>" using sem_owner_frame by blast
  have inv1: "sem_inv info st1" using inv st1 by simp
  show ?thesis
    using o inv1 al sem_inv_sp [OF inv, of slot]
    by (auto simp: semctl_set_def split: option.split intro!: sem_inv_hdr)
      (auto simp: sp_ok_def st1)
qed

lemma u16_le: "0 \<le> v \<Longrightarrow> u16 v \<le> v"
  by (simp add: u16_def zmod_le_nonneg_dividend)

lemma u16_u32: "u16 (u32 v) = u16 v"
  by (simp add: u16_def u32_def mod_mod_cancel)

lemma u16_le_u32: "u16 v \<le> u32 v"
  using u16_le [of "u32 v"] by (simp add: u16_u32) (simp add: u32_def)

lemma semctl_inv:
  assumes info: "seminfo_ok info" and inv: "sem_inv info st"
  shows "sem_inv info (snd (snd (semctl env info usr sid semnum cmd arg st)))"
proof (cases "semconv info (sema st) sid")
  case None
  with inv show ?thesis by (simp add: semctl_def)
next
  case (Some slot)
  have tbl: "tbl_ok info (sema st)" using inv by (simp add: sem_inv_def)
  have al: "ipc_allocated (sem_perm (sema st ! slot))"
    using sem_ids.conv_slot [OF sem_table_length [OF tbl info] TrueI Some] by simp
  have get: "sem_inv info (snd (snd (semctl_get f env slot semnum st)))" for f
    using inv by (simp add: semctl_get_def Let_def split: option.split)
  have other: "sem_inv info (snd (snd (semctl_stat env slot c st)))"
      "sem_inv info (snd (snd (semctl_getall env slot k st)))" for c k
    using inv by (simp_all add: semctl_stat_def semctl_getall_def Let_def split: option.split)
  have setval: "sem_inv info (snd (snd (semctl_setval env info sid slot semnum arg st)))"
    using inv u16_le_u32 [of arg]
    by (auto simp: semctl_setval_def Let_def intro!: semunrm_inv [OF info] sem_pid_inv sem_setval_inv)
  have setall: "sem_inv info (snd (snd (semctl_setall env info sid slot uvs st)))" for uvs
    using inv
    by (auto simp: semctl_setall_def Let_def list_ex_iff split: option.split
        intro!: setall_sems_inv semunrm_inv [OF info]) (auto simp: u16_def not_less)
  show ?thesis
    using Some inv by (simp add: semctl_def semctl_get_defs get other setval setall semctl_rmid_inv [OF info inv]
        semctl_set_inv [OF inv al])
qed

lemma semget_inv:
  assumes info: "seminfo_ok info" and inv: "sem_inv info st"
  shows "sem_inv info (snd (semget env info key nsems flg st))"
proof (cases "ipcget sem_perm sem_set_perm (se_cred env) (s32 key) flg (sema st)")
  case (Inl e)
  then show ?thesis using inv by (simp add: semget_def)
next
  case (Inr r)
  obtain s slot tbl where r: "r = (s, slot, tbl)" by (cases r)
  show ?thesis
  proof (cases s)
    case False
    with Inr r have "tbl = sema st" using sem_fac.ipcget_old by simp
    then show ?thesis using Inr r False inv by (simp add: semget_def Let_def)
  next
    case True
    let ?p = "ipc_init (se_cred env) (s32 key) flg (sem_perm (sema st ! slot))"
    let ?sp = "sema st ! slot"
    have new: "slot < length (sema st)" "tbl = (sema st)[slot := sem_set_perm ?p ?sp]"
      using sem_fac.ipcget_new Inr [unfolded r] True by simp_all
    have ok: "sp_ok info ?sp" using sem_inv_sp [OF inv new(1)] .
    have upd: "sp_upd f slot (st\<lparr>sema := tbl\<rparr>) = sp_upd (\<lambda>sp. f (sem_set_perm ?p sp)) slot st" for f
      using new by (simp add: sp_upd_def)
    have hdr: "sem_inv info (sp_upd (\<lambda>sp. f (sem_set_perm ?p sp)) slot st)"
      if "sp_ok info (f (sem_set_perm ?p ?sp))" for f
      by (rule sem_inv_hdr [OF inv]) (rule that)
    have bad: "sem_inv info (snd (semget env info key nsems flg st))"
      if "nsems \<le> 0 \<or> nsems > semmsl info"
      using Inr r True that ok
      by (simp add: semget_def Let_def upd, intro hdr) (simp add: sp_ok_def sem_set_perm_def ipc_allocated_def)
    have good: "sem_inv info (snd (semget env info key nsems flg st))"
      if "\<not> (nsems \<le> 0 \<or> nsems > semmsl info)"
    proof -
      have "0 < nsems" "nsems \<le> 32767" "u16 nsems = nsems"
        using that info by (auto simp: seminfo_ok_def u16_id)
      then show ?thesis
        using Inr r True that ok info
        by (simp add: semget_def Let_def upd, intro hdr)
          (auto simp: sp_ok_def sem_set_perm_def sem_ok_def zero_sem_def seminfo_ok_def)
    qed
    show ?thesis using bad good by blast
  qed
qed

lemma semexit_ents_frame:
  "semexit_ents info es st = Some st' \<Longrightarrow>
     u_semundo st' = u_semundo st \<and> semundo_head st' = semundo_head st"
  by (induction es arbitrary: st)
    (auto simp: Let_def wake_ncnt_def wake_zcnt_def sem_wakeup_def split: option.splits if_splits)

lemma semexit_ents_inv:
  "seminfo_ok info \<Longrightarrow> sem_inv info st \<Longrightarrow> semexit_ents info es st = Some st' \<Longrightarrow> sem_inv info st'"
proof (induction es arbitrary: st)
  case (Cons e es)
  have upd: "sem_inv info (sem_upd (\<lambda>s. s\<lparr>semval := u16 val\<rparr>) slot num st)"
    if "0 \<le> val" "val \<le> semvmx info" for val slot num
    by (rule sem_inv_upd [OF Cons.prems(2)])
      (use that Cons.prems tbl_ok_ref in
        \<open>fastforce simp: sem_inv_def sem_ok_def seminfo_ok_def u16_id\<close>)
  note step = Cons.IH [OF Cons.prems(1)]
  show ?case
  proof (cases "semconv info (sema st) (uent_id e)")
    case None
    with Cons.prems step show ?thesis by simp
  next
    case (Some slot)
    note slot = Some
    obtain semp where semp: "sem_ref st slot (nat (uent_num e)) = Some semp"
      using Cons.prems(3) slot by (auto simp: Let_def split: option.splits)
    define val where "val = semval semp + uent_aoe e"
    show ?thesis
    proof (cases "val < 0 \<or> val > semvmx info")
      case True
      with Cons.prems step slot semp show ?thesis by (auto simp: Let_def val_def)
    next
      case False
      then have "0 \<le> val" "val \<le> semvmx info" by auto
      note i1 = upd [OF this, of slot "nat (uent_num e)"]
      have "sem_inv info (if val = 0 then wake_zcnt slot (nat (uent_num e)) s else s)"
        "sem_inv info (if uent_aoe e > 0 then wake_ncnt slot (nat (uent_num e)) s else s)"
        if "sem_inv info s" for s
        using that wake_inv by auto
      note i2 = this(2) [OF this(1) [OF i1]]
      show ?thesis
        using step [OF i2] Cons.prems(3) slot semp False
        by (simp only: semexit_ents.simps Let_def option.case val_def [symmetric] if_False)
    qed
  qed
qed simp

lemma semexit_undos:
  assumes und: "undos_ok info st" and "u_semundo st1 = u_semundo st"
    and "semundo_head st1 = remove1 pid (semundo_head st)"
  shows "undos_ok info (st1\<lparr>u_semundo := (u_semundo st1)(pid := None)\<rparr>)"
  using assms by (auto simp: undos_ok_def undo_ents_def)

lemma semexit_inv:
  assumes info: "seminfo_ok info" and inv: "sem_inv info st" and ex: "semexit pid info st = Some st'"
  shows "sem_inv info st'"
proof (cases "u_semundo st pid")
  case None
  with inv ex show ?thesis by (simp add: semexit_def)
next
  case (Some un)
  have und: "undos_ok info st" using inv by (simp add: sem_inv_def)
  show ?thesis
  proof (cases "un_entp un = []")
    case True
    then have "pid \<notin> set (semundo_head st)" using und Some by (simp add: undos_ok_def undo_ents_def)
    then show ?thesis
      using True ex Some inv semexit_undos [OF und, of st pid]
      by (auto simp: semexit_def sem_inv_def remove1_idem)
  next
    case False
    then obtain st2 where st2: "semexit_ents info (un_entp un) st = Some st2"
      and st': "st' = st2\<lparr>semundo_head := remove1 pid (semundo_head st2),
                 u_semundo := (u_semundo st2)(pid := None)\<rparr>"
      using ex Some by (auto simp: semexit_def split: option.splits)
    have "sem_inv info st2" using semexit_ents_inv [OF info inv st2] .
    then show ?thesis
      using semexit_ents_frame [OF st2] st' semexit_undos
        [OF und, of "st2\<lparr>semundo_head := remove1 pid (semundo_head st2)\<rparr>" pid]
      by (simp add: sem_inv_def)
  qed
qed

end
