(* ===== verification/Svipc_Sem_Reach.thy ===== *)
theory Svipc_Sem_Reach
  imports Svipc_Sem_Props
begin

text \<open>
  The semaphore facility as a state machine: a step is one system call, one end of a sleep
  or one process exit; the reachable states are those after any sequence of steps from the
  zeroed table of \<open>seminit\<close>. Every reachable state satisfies \<open>sem_inv\<close> and has unique keys.
\<close>

section \<open>The permission structures\<close>

definition sem_perms :: "sem_state \<Rightarrow> ipc_perm list" where
  "sem_perms st = map sem_perm (sema st)"

lemma sem_perms_sp_upd [simp]:
  assumes "\<And>sp. sem_perm (f sp) = sem_perm sp"
  shows "sem_perms (sp_upd f slot st) = sem_perms st"
proof (cases "slot < length (sema st)")
  case True
  then have "sem_perm (sema st ! slot) = map sem_perm (sema st) ! slot" by simp
  then show ?thesis by (simp add: sem_perms_def sp_upd_def map_update assms del: nth_map)
next
  case False
  then show ?thesis by (simp add: sem_perms_def sp_upd_def list_update_beyond)
qed

lemma sem_perms_frame [simp]:
  "sem_perms (sem_upd g slot num st) = sem_perms st"
  "sem_perms (sem_wakeup ch st) = sem_perms st"
  "sem_perms (st\<lparr>sem_count := n\<rparr>) = sem_perms st"
  "sem_perms (st\<lparr>semundo_head := hd'\<rparr>) = sem_perms st"
  "sem_perms (st\<lparr>u_semundo := us\<rparr>) = sem_perms st"
  "sem_perms (st\<lparr>sem_asu := b\<rparr>) = sem_perms st"
  by (simp_all add: sem_upd_def) (simp_all add: sem_perms_def sem_wakeup_def)

lemma sem_perms_wake [simp]:
  "sem_perms (wake_ncnt slot num st) = sem_perms st"
  "sem_perms (wake_zcnt slot num st) = sem_perms st"
  by (simp_all add: wake_ncnt_def wake_zcnt_def split: option.split)

lemma sem_perms_semaoe [simp]: "sem_perms (snd (semaoe env info val sid num st)) = sem_perms st"
  using semaoe_frame by (simp add: sem_perms_def)

lemma sem_perms_semunrm [simp]: "sem_perms (semunrm sid low high st) = sem_perms st"
  by (simp add: sem_perms_def)

lemma sem_perms_rmid_sems [simp]: "sem_perms (rmid_sems slot num n st) = sem_perms st"
  by (induction n arbitrary: num st) simp_all

lemma sem_perms_setval [simp]: "sem_perms (sem_setval slot num v st) = sem_perms st"
  by (simp add: sem_setval_def Let_def)

lemma sem_perms_setall [simp]: "sem_perms (setall_sems pid slot num vs st) = sem_perms st"
  by (induction vs arbitrary: num st) simp_all

lemma sem_perms_set_sempids [simp]: "sem_perms (set_sempids pid slot ops st) = sem_perms st"
  by (induction ops arbitrary: st) simp_all

lemma sem_perms_semundo: "semundo_loop env info sid slot ops st = Some st' \<Longrightarrow> sem_perms st' = sem_perms st"
  by (induction ops arbitrary: st) (auto simp: semundo_one_def Let_def split: option.splits if_splits)

lemma sem_perms_fail: "semop_fail env info dn sid slot out st = (out', st') \<Longrightarrow> sem_perms st' = sem_perms st"
  by (auto simp: semop_fail_def semundo_def split: if_splits option.splits dest: sem_perms_semundo)

lemma sem_perms_chan [simp]: "sem_perms (sem_chan_upd f ch st) = sem_perms st"
  by (simp add: sem_chan_upd_def split: sem_chan.split)

lemma sem_perms_wait: "wait_for_sem env info dn sid slot op ch st = (out, st') \<Longrightarrow> sem_perms st' = sem_perms st"
  by (auto simp: wait_for_sem_def semundo_def split: if_splits option.splits dest: sem_perms_semundo)

lemma sem_perms_loop: "semop_loop env info sid slot dn ops st = (out, st') \<Longrightarrow> sem_perms st' = sem_perms st"
proof (induction ops arbitrary: dn st)
  case (Cons op ops)
  have aoe: "semaoe env info v s n st = (e, st1) \<Longrightarrow> sem_perms st1 = sem_perms st" for v s n e st1
    using sem_perms_semaoe [of env info v s n st] by simp
  show ?case
    using Cons.prems
    by (auto simp: Let_def split: option.splits if_splits prod.splits
        dest!: Cons.IH aoe sem_perms_fail dest: sem_perms_wait)
qed simp

lemma sem_perms_check: "semop_check env info again sid slot uops st = (out, st') \<Longrightarrow> sem_perms st' = sem_perms st"
  by (auto simp: semop_check_def semop_finish_def split: if_splits option.splits prod.splits sem_outcome.splits
      dest: sem_perms_loop)

lemma sem_perms_semop: "semop env info sid n uops st = (out, st') \<Longrightarrow> sem_perms st' = sem_perms st"
  by (auto simp: semop_def split: if_splits option.splits dest: sem_perms_check)

lemma sem_perms_wait_done: "wait_done i ch st = Some (b, st') \<Longrightarrow> sem_perms st' = sem_perms st"
  by (auto simp: wait_done_def split: if_splits option.splits)

lemma sem_perms_resume: "semop_resume env info sid slot ch i uops st = (out, st') \<Longrightarrow> sem_perms st' = sem_perms st"
  by (auto simp: semop_resume_def split: option.splits bool.splits prod.splits
      dest!: sem_perms_check dest: sem_perms_wait_done)

lemma sem_perms_exit_ents: "semexit_ents info es st = Some st' \<Longrightarrow> sem_perms st' = sem_perms st"
  by (induction es arbitrary: st) (auto simp: Let_def split: option.splits if_splits)

lemma sem_perms_semexit: "semexit pid info st = Some st' \<Longrightarrow> sem_perms st' = sem_perms st"
  by (auto simp: semexit_def split: option.splits if_splits dest: sem_perms_exit_ents)

section \<open>Unique keys\<close>

definition sem_keys_unique :: "sem_state \<Rightarrow> bool" where
  "sem_keys_unique st \<longleftrightarrow> ipc_keys_unique sem_perm (sema st)"

lemma sem_keys_cong: "sem_perms st = sem_perms st' \<Longrightarrow> sem_keys_unique st = sem_keys_unique st'"
  unfolding sem_keys_unique_def by (rule ipc_keys_unique_cong) (simp add: sem_perms_def)

lemma sem_keys_sp_upd:
  assumes "sem_keys_unique st"
    and "\<And>key. ipc_has_key sem_perm key (f (sema st ! slot)) \<Longrightarrow> ipc_has_key sem_perm key (sema st ! slot)"
  shows "sem_keys_unique (sp_upd f slot st)"
  using assms unfolding sem_keys_unique_def by (simp add: sp_upd_def ipc_keys_unique_upd)

lemma sem_keys_semctl:
  assumes info: "seminfo_ok info" and inv: "sem_inv info st" and uniq: "sem_keys_unique st"
  shows "sem_keys_unique (snd (snd (semctl env info usr sid semnum cmd arg st)))"
proof (cases "semconv info (sema st) sid")
  case None
  with uniq show ?thesis by (simp add: semctl_def)
next
  case (Some slot)
  have tbl: "tbl_ok info (sema st)" using inv by (simp add: sem_inv_def)
  have al: "ipc_allocated (sem_perm (sema st ! slot))"
    using sem_ids.conv_slot [OF sem_table_length [OF tbl info] TrueI Some] by simp
  obtain e st1 where o: "sem_owner (se_cred env) (sem_perm (sema st ! slot)) st = (e, st1)" by fastforce
  then obtain b where st1: "st1 = st\<lparr>sem_asu := b\<rparr>" using sem_owner_frame by blast
  have uniq1: "sem_keys_unique st1" using uniq by (simp add: st1 sem_keys_unique_def)
  have rmid: "sem_keys_unique (snd (snd (semctl_rmid env info sid slot st)))"
  proof (cases e)
    case None
    show ?thesis
      using None o uniq1
      by (simp add: semctl_rmid_def Let_def, intro conjI impI sem_keys_sp_upd)
        (simp_all add: ipc_has_key_def ipc_allocated_def iffD2 [OF sem_keys_cong] uniq1)
  qed (use o uniq1 in \<open>simp add: semctl_rmid_def\<close>)
  have set: "sem_keys_unique (snd (snd (semctl_set env slot uds st)))" for uds
    using o uniq1 al by (auto simp: semctl_set_def ipc_has_key_def st1 split: option.split intro!: sem_keys_sp_upd)
  have get: "sem_keys_unique (snd (snd (semctl_get f env slot semnum st)))" for f
    using uniq by (simp add: semctl_get_def Let_def split: option.split)
  have other: "sem_keys_unique (snd (snd (semctl_stat env slot c st)))"
      "sem_keys_unique (snd (snd (semctl_getall env slot k st)))" for c k
    using uniq by (simp_all add: semctl_stat_def semctl_getall_def Let_def split: option.split)
  have "sem_perms (snd (snd (semctl_setval env info sid slot semnum arg st))) = sem_perms st"
    "sem_perms (snd (snd (semctl_setall env info sid slot uvs st))) = sem_perms st" for uvs
    by (simp_all add: semctl_setval_def semctl_setall_def Let_def split: option.split)
  then have vals: "sem_keys_unique (snd (snd (semctl_setval env info sid slot semnum arg st)))"
    "sem_keys_unique (snd (snd (semctl_setall env info sid slot uvs st)))" for uvs
    using uniq sem_keys_cong by blast+
  show ?thesis
    using Some uniq by (simp add: semctl_def semctl_get_defs get other vals rmid set)
qed

lemma sem_keys_semget:
  assumes uniq: "sem_keys_unique st"
  shows "sem_keys_unique (snd (semget env info key nsems flg st))"
proof (cases "ipcget sem_perm sem_set_perm (se_cred env) (s32 key) flg (sema st)")
  case (Inl e)
  then show ?thesis using uniq by (simp add: semget_def)
next
  case (Inr r)
  obtain s slot tbl where r: "r = (s, slot, tbl)" by (cases r)
  have u: "sem_keys_unique (st\<lparr>sema := tbl\<rparr>)"
    using sem_fac.ipcget_keys_unique uniq Inr r by (simp add: sem_keys_unique_def)
  show ?thesis
    using u by (auto simp: semget_def Let_def Inr r ipc_has_key_def ipc_allocated_def intro!: sem_keys_sp_upd)
qed

section \<open>Steps and reachable states\<close>

inductive sem_step :: "seminfo \<Rightarrow> sem_state \<Rightarrow> sem_state \<Rightarrow> bool" for info where
  step_semop: "semop env info sid n uops st = (out, st') \<Longrightarrow> out \<noteq> SemFault \<Longrightarrow>
      \<forall>ops. uops = Some ops \<longrightarrow> list_all sembuf_ok ops \<Longrightarrow> sem_step info st st'"
| step_resume: "semop_resume env info sid slot ch i uops st = (out, st') \<Longrightarrow> out \<noteq> SemFault \<Longrightarrow>
      \<forall>ops. uops = Some ops \<longrightarrow> list_all sembuf_ok ops \<Longrightarrow> sem_step info st st'"
| step_semctl: "semctl env info usr sid semnum cmd arg st = (res, out, st') \<Longrightarrow> sem_step info st st'"
| step_semget: "semget env info key nsems flg st = (res, st') \<Longrightarrow> sem_step info st st'"
| step_semexit: "semexit pid info st = Some st' \<Longrightarrow> sem_step info st st'"

inductive sem_reach :: "seminfo \<Rightarrow> sem_state \<Rightarrow> bool" for info where
  reach_init: "sem_reach info (sem_init info)"
| reach_step: "sem_reach info st \<Longrightarrow> sem_step info st st' \<Longrightarrow> sem_reach info st'"

lemma sem_init_inv: "seminfo_ok info \<Longrightarrow> sem_inv info (sem_init info) \<and> sem_keys_unique (sem_init info)"
  by (auto simp: sem_inv_def tbl_ok_def sem_init_def undos_ok_def undo_ents_def sp_ok_def seminfo_ok_def
      zero_semid_ds_def zero_perm_def ipc_allocated_def sem_keys_unique_def ipc_keys_unique_def ipc_has_key_def)

lemma sem_step_inv:
  assumes info: "seminfo_ok info" and inv: "sem_inv info st" and uniq: "sem_keys_unique st"
    and step: "sem_step info st st'"
  shows "sem_inv info st' \<and> sem_keys_unique st'"
  using step
proof cases
  case (step_semop env sid n uops out)
  then show ?thesis
    using semop_inv [OF info inv] sem_perms_semop sem_keys_cong uniq by metis
next
  case (step_resume env sid slot ch i uops out)
  then show ?thesis
    using semop_resume_inv [OF info inv] sem_perms_resume sem_keys_cong uniq by metis
next
  case (step_semctl env usr sid semnum cmd arg res out)
  then show ?thesis
    using semctl_inv [OF info inv, of env usr sid semnum cmd arg]
      sem_keys_semctl [OF info inv uniq, of env usr sid semnum cmd arg] by simp
next
  case (step_semget env key nsems flg res)
  then show ?thesis
    using semget_inv [OF info inv, of env key nsems flg] sem_keys_semget [OF uniq, of env info key nsems flg]
    by simp
next
  case (step_semexit pid)
  then show ?thesis
    using semexit_inv [OF info inv] sem_perms_semexit sem_keys_cong uniq by metis
qed

lemma sem_reach_inv:
  assumes "sem_reach info st" "seminfo_ok info"
  shows "sem_inv info st \<and> sem_keys_unique st"
  using assms by (induction) (auto dest: sem_init_inv sem_step_inv)

end
