(* ===== verification/Svipc_Sem_Claims.thy ===== *)
theory Svipc_Sem_Claims
  imports Svipc_Sem_Reach
begin

text \<open>
  What the semaphore facility promises its callers: \<open>semop\<close> is all or nothing, identifiers
  are refused once their set is removed, \<open>SETVAL\<close> and the exit of a process do what they
  say, and the two places where the code does not keep its promise (a sleeper's operations
  are not checked again, and \<open>semunrm\<close> stops too early).
\<close>

section \<open>A concrete system\<close>

text \<open>A small configuration, the super-user as process 7, and the states the examples below
  run in.\<close>

definition ex_info :: seminfo where
  "ex_info = \<lparr>semmni = 4, semmsl = 8, semopm = 10, semume = 10, semvmx = 32767, semaem = 16384\<rparr>"

definition ex_env :: "int \<Rightarrow> sem_env" where
  "ex_env pid = \<lparr>se_cred = \<lparr>cr_uid = 0, cr_gid = 0\<rparr>, se_pid = pid, se_time = 100, se_zalloc = True\<rparr>"

definition ex_op :: "int \<Rightarrow> int \<Rightarrow> 16 word \<Rightarrow> sembuf" where
  "ex_op num n flg = \<lparr>sem_num = num, sem_op = n, sem_flg = flg\<rparr>"

text \<open>Two private sets of four semaphores, with the identifiers 0 and 1.\<close>

definition ex_sets :: sem_state where
  "ex_sets = snd (semget (ex_env 7) ex_info 0 4 0x180 (snd (semget (ex_env 7) ex_info 0 4 0x180 (sem_init ex_info))))"

text \<open>Process 7 has added 5 to semaphore 3 of set 0 and 2 to semaphore 0 of set 1, with undo.\<close>

definition ex_undo :: sem_state where
  "ex_undo =
     snd (semop (ex_env 7) ex_info 1 1 (Some [ex_op 0 2 SEM_UNDO])
       (snd (semop (ex_env 7) ex_info 0 1 (Some [ex_op 3 5 SEM_UNDO]) ex_sets)))"

lemmas ex_defs = ex_info_def ex_env_def ex_op_def SEM_UNDO_def SEM_A_def SEM_R_def ipc_flag_defs IPC_PRIVATE_def

lemma ex_info_ok: "seminfo_ok ex_info"
  by (simp add: seminfo_ok_def ex_info_def)

lemma ex_sets_reach: "sem_reach ex_info ex_sets"
  unfolding ex_sets_def
  by (intro reach_step [OF reach_step [OF reach_init]] step_semget) (rule surjective_pairing)+

lemma ex_undo_reach: "sem_reach ex_info ex_undo"
proof -
  have run: "fst (semop (ex_env 7) ex_info 0 1 (Some [ex_op 3 5 SEM_UNDO]) ex_sets) \<noteq> SemFault"
    "fst (semop (ex_env 7) ex_info 1 1 (Some [ex_op 0 2 SEM_UNDO])
       (snd (semop (ex_env 7) ex_info 0 1 (Some [ex_op 3 5 SEM_UNDO]) ex_sets))) \<noteq> SemFault"
    by code_simp+
  have ok: "list_all sembuf_ok [ex_op 3 5 SEM_UNDO]" "list_all sembuf_ok [ex_op 0 2 SEM_UNDO]"
    by (simp_all add: sembuf_ok_def ex_op_def)
  show ?thesis
    unfolding ex_undo_def
    by (intro reach_step [OF reach_step [OF ex_sets_reach]] step_semop)
      (rule surjective_pairing run | use ok in simp)+
qed

section \<open>Reachable states\<close>

text \<open>C16: In every state that the system calls, the ends of sleeps and the process exits can
  reach, every semaphore's value lies between 0 and \<open>semvmx\<close>, every allocated set has the
  number of semaphores it was created with, the undo structures are sorted, in range and
  exactly those on the chain, and no two allocated sets share a key other than
  \<open>IPC_PRIVATE\<close>.\<close>
theorem sem_reachable_invariant:
  assumes "sem_reach info st" "seminfo_ok info"
  shows "sem_inv info st \<and> sem_keys_unique st
    \<and> (\<forall>slot num s. sem_ref st slot num = Some s \<longrightarrow> 0 \<le> semval s \<and> semval s \<le> semvmx info)"
  using sem_reach_inv [OF assms] tbl_ok_ref by (auto simp: sem_inv_def sem_ok_def)

theorem sem_reachable_invariant_witness:
  "sem_inv ex_info ex_undo \<and> sem_keys_unique ex_undo"
  using sem_reachable_invariant [OF ex_undo_reach ex_info_ok] by simp

section \<open>semop\<close>

lemma semop_first_attempt:
  assumes info: "seminfo_ok info" and inv: "sem_inv info st" and good: "list_all sembuf_ok ops"
    and slot: "semconv info (sema st) sid = Some slot"
    and perm: "semop_perm (se_cred env) (sema st ! slot) ops = None" and op: "op \<in> set ops"
  shows "sem_ref st slot (nat (sem_num op)) \<noteq> None"
proof -
  have tbl: "tbl_ok info (sema st)" using inv by (simp add: sem_inv_def)
  note c = sem_ids.conv_slot [OF sem_table_length [OF tbl info] TrueI slot]
  then have "sp_ok info (sema st ! slot)" using sem_inv_sp [OF inv] by blast
  then have "int (length (sem_base (sema st ! slot))) = sem_nsems (sema st ! slot)"
    using c by (simp add: sp_ok_def)
  moreover have "0 \<le> sem_num op" using good op by (auto simp: list_all_iff sembuf_ok_def)
  ultimately show ?thesis
    using semop_perm_range [OF perm op] c by (simp add: sem_ref_def aref_def)
qed

definition semop_done ::
  "sem_env \<Rightarrow> int \<Rightarrow> nat \<Rightarrow> sembuf list \<Rightarrow> sem_state \<Rightarrow> sem_state \<Rightarrow> bool" where
  "semop_done env sid slot ops st st' \<longleftrightarrow>
     (\<forall>sl n. sem_vals st' sl n =
        (if sl = slot then map_option (\<lambda>v. v + op_total ops (int n)) (sem_vals st sl n)
         else sem_vals st sl n))
     \<and> (\<forall>p s k. aoe_of (undo_ents st' p) s k = aoe_of (undo_ents st p) s k
          - (if p = se_pid env \<and> s = sid then undo_total ops k else 0))"

text \<open>C1: \<open>semop\<close> is all or nothing and never touches memory beyond the set on its first
  attempt. When it returns 0, every semaphore of the set has changed by exactly the sum of
  the operations on it, and the caller's adjust-on-exit values by the negated sum of those
  with \<open>SEM_UNDO\<close>; nothing else has changed its value. When it fails or goes to sleep, after
  any number of operations was already done, every value, every header and every process's
  adjustments are as before.\<close>
theorem semop_all_or_nothing:
  assumes info: "seminfo_ok info" and inv: "sem_inv info st" and good: "list_all sembuf_ok ops"
    and r: "semop env info sid nsops (Some ops) st = (out, st')"
  shows "case out of
      SemRet v \<Rightarrow> v = 0 \<and> (\<exists>slot. semconv info (sema st) sid = Some slot \<and> semop_done env sid slot ops st st')
    | SemErr e \<Rightarrow> sem_same st st'
    | SemSleep ch \<Rightarrow> sem_same st st'
    | SemFault \<Rightarrow> False"
proof -
  have tbl: "tbl_ok info (sema st)" using inv by (simp add: sem_inv_def)
  show ?thesis
  proof (cases "semconv info (sema st) sid")
    case (Some slot)
    note sid = semconv_range [OF info tbl Some]
    show ?thesis
    proof (cases "nsops > semopm info \<or> semop_perm (se_cred env) (sema st ! slot) ops \<noteq> None")
      case True
      with r Some show ?thesis by (auto simp: semop_def sem_same_refl split: if_splits)
    next
      case False
      then have fin: "semop_finish env slot ops (semop_loop env info sid slot [] ops st) = (out, st')"
        using r Some by (auto simp: semop_def semop_check_def)
      have ok: "semop_result_ok env info sid slot ops st (out, st')"
        using semop_finish_result [OF info _ _ inv good, of sid env slot] sid fin by simp
      have ret: "v = 0" if "out = SemRet v" for v
        using fin that by (auto simp: semop_finish_def split: sem_outcome.splits prod.splits)
      show ?thesis
      proof (cases out)
        case (SemRet v)
        with ok obtain st1 where ex: "sem_rb.exec_all env info sid slot ops st = Some st1"
          and same: "sem_vals st' = sem_vals st1" "undo_ents st' = undo_ents st1"
          by (auto simp: semop_result_ok_def)
        have "semop_done env sid slot ops st st'"
          using exec_all_effect [OF info _ _ inv good ex] sid same by (simp add: semop_done_def)
        with SemRet ret Some show ?thesis by simp
      next
        case SemFault
        then obtain op where "op \<in> set ops" "sem_ref st slot (nat (sem_num op)) = None"
          using ok by (auto simp: semop_result_ok_def)
        moreover have "semop_perm (se_cred env) (sema st ! slot) ops = None" using False by blast
        ultimately show ?thesis using semop_first_attempt [OF info inv good Some] SemFault by blast
      qed (use ok in \<open>simp_all add: semop_result_ok_def\<close>)
    qed
  qed (use r in \<open>auto simp: semop_def sem_same_refl\<close>)
qed

text \<open>The second operation cannot proceed: the first is backed out.\<close>

theorem semop_all_or_nothing_witness:
  "\<exists>ch st'. semop (ex_env 8) ex_info 0 2 (Some [ex_op 3 4 SEM_UNDO, ex_op 2 (- 1) 0]) ex_undo
      = (SemSleep ch, st') \<and> sem_same ex_undo st'"
proof -
  have "fst (semop (ex_env 8) ex_info 0 2 (Some [ex_op 3 4 SEM_UNDO, ex_op 2 (- 1) 0]) ex_undo)
      = SemSleep (NCnt 0 2)"
    by code_simp
  then obtain st' where r: "semop (ex_env 8) ex_info 0 2 (Some [ex_op 3 4 SEM_UNDO, ex_op 2 (- 1) 0]) ex_undo
      = (SemSleep (NCnt 0 2), st')"
    by (metis prod.collapse)
  have "list_all sembuf_ok [ex_op 3 4 SEM_UNDO, ex_op 2 (- 1) 0]"
    by (simp add: sembuf_ok_def ex_op_def)
  from semop_all_or_nothing [OF ex_info_ok _ this r] sem_reach_inv [OF ex_undo_reach ex_info_ok] r
  show ?thesis by auto
qed

text \<open>A sleeper's operations are copied in again when it wakes up, and neither their
  semaphore numbers nor the permissions are checked again: a process that changes its
  operation array while it sleeps makes the kernel use a semaphore number beyond the set.
  From a reachable state, \<open>semop\<close> goes to sleep on a valid operation, and when it is woken up
  with the set still in place its retry touches memory outside the array.\<close>
theorem semop_retry_unchecked:
  "\<exists>st ops ops' ch st1. sem_reach ex_info st \<and> list_all sembuf_ok ops \<and> list_all sembuf_ok ops'
     \<and> semop (ex_env 7) ex_info 0 1 (Some ops) st = (SemSleep ch, st1)
     \<and> semconv ex_info (sema st1) 0 = Some 0
     \<and> fst (semop_resume (ex_env 7) ex_info 0 0 ch False (Some ops') st1) = SemFault"
proof -
  let ?ops = "[ex_op 2 (- 1) 0]" and ?ops' = "[ex_op 9 1 0]"
  have run: "fst (semop (ex_env 7) ex_info 0 1 (Some ?ops) ex_sets) = SemSleep (NCnt 0 2)"
    "semconv ex_info (sema (snd (semop (ex_env 7) ex_info 0 1 (Some ?ops) ex_sets))) 0 = Some 0"
    "fst (semop_resume (ex_env 7) ex_info 0 0 (NCnt 0 2) False (Some ?ops')
       (snd (semop (ex_env 7) ex_info 0 1 (Some ?ops) ex_sets))) = SemFault"
    by code_simp+
  have ok: "list_all sembuf_ok ?ops" "list_all sembuf_ok ?ops'"
    by (simp_all add: sembuf_ok_def ex_op_def)
  obtain st1 where r: "semop (ex_env 7) ex_info 0 1 (Some ?ops) ex_sets = (SemSleep (NCnt 0 2), st1)"
    using run(1) by (metis prod.collapse)
  note run' = run(2,3) [unfolded r snd_conv]
  show ?thesis
    by (rule exI [of _ ex_sets], rule exI [of _ ?ops], rule exI [of _ ?ops'], rule exI [of _ "NCnt 0 2"],
        rule exI [of _ st1]) (intro conjI ex_sets_reach ok r run')
qed

section \<open>semexit\<close>

text \<open>What the exit of a process adds to a value: its adjustment, unless the result leaves
  the range.\<close>

definition exit_val :: "seminfo \<Rightarrow> int \<Rightarrow> int \<Rightarrow> int" where
  "exit_val info a v = (if v + a < 0 \<or> v + a > semvmx info then v else v + a)"

text \<open>The adjustment entries \<open>es\<close> hold for semaphore \<open>n\<close> of the set in slot \<open>sl\<close>.\<close>

definition exit_aoe :: "seminfo \<Rightarrow> semid_ds list \<Rightarrow> undo_entry list \<Rightarrow> nat \<Rightarrow> nat \<Rightarrow> int" where
  "exit_aoe info tbl es sl n =
     (if sl < length tbl \<and> ipc_allocated (sem_perm (tbl ! sl))
      then aoe_of es (ip_seq (sem_perm (tbl ! sl)) * semmni info + int sl) (int n) else 0)"

lemma semconv_perms: "sem_perms st' = sem_perms st \<Longrightarrow> semconv info (sema st') d = semconv info (sema st) d"
proof -
  assume p: "sem_perms st' = sem_perms st"
  then have len: "length (sema st') = length (sema st)"
    unfolding sem_perms_def by (rule map_eq_imp_length_eq)
  have "k < length (sema st) \<Longrightarrow> sem_perm (sema st' ! k) = sem_perm (sema st ! k)" for k
    using p len unfolding sem_perms_def by (metis nth_map)
  then have q: "map_option sem_perm (aref (sema st') k) = map_option sem_perm (aref (sema st) k)" for k
    using len by (simp add: aref_def)
  have "semconv info tbl d = (if d < 0 then None
      else case map_option sem_perm (aref tbl (nat (d mod semmni info))) of None \<Rightarrow> None
        | Some p \<Rightarrow> if \<not> ipc_allocated p \<or> d div semmni info \<noteq> ip_seq p then None
                    else Some (nat (d mod semmni info)))" for tbl
    by (simp add: semconv_def Let_def split: option.split)
  then show ?thesis by (simp only: q)
qed

lemma exit_aoe_perms: "sem_perms st' = sem_perms st \<Longrightarrow> exit_aoe info (sema st') es sl n = exit_aoe info (sema st) es sl n"
  unfolding exit_aoe_def sem_perms_def by (metis length_map nth_map)

lemma exit_aoe_Cons:
  assumes info: "seminfo_ok info" and tbl: "tbl_ok info tbl" and c: "semconv info tbl (uent_id e) = r"
    and nn: "0 \<le> uent_num e"
  shows "exit_aoe info tbl (e # es) sl n =
    (if r = Some sl \<and> n = nat (uent_num e) then uent_aoe e else exit_aoe info tbl es sl n)"
proof -
  note len = sem_table_length [OF tbl info]
  have eq: "ip_seq (sem_perm (tbl ! sl)) * semmni info + int sl = uent_id e \<longleftrightarrow> r = Some sl"
    if "sl < length tbl" "ipc_allocated (sem_perm (tbl ! sl))"
  proof
    assume *: "ip_seq (sem_perm (tbl ! sl)) * semmni info + int sl = uent_id e"
    have "0 \<le> ip_seq (sem_perm (tbl ! sl))" using tbl that(1) by (auto simp: tbl_ok_def sp_ok_def)
    then show "r = Some sl" using sem_ids.conv_encode [OF len that _ TrueI] * c by simp
  next
    assume "r = Some sl"
    then show "ip_seq (sem_perm (tbl ! sl)) * semmni info + int sl = uent_id e"
      using sem_ids.conv_slot [OF len TrueI] c by simp
  qed
  have "\<not> (sl < length tbl \<and> ipc_allocated (sem_perm (tbl ! sl))) \<Longrightarrow> r \<noteq> Some sl"
    using sem_ids.conv_slot [OF len TrueI] c by metis
  with eq nn show ?thesis by (auto simp: exit_aoe_def uent_match_def)
qed

lemma sem_inv_val: "sem_inv info st \<Longrightarrow> sem_vals st sl n = Some v \<Longrightarrow> 0 \<le> v \<and> v \<le> semvmx info"
  using tbl_ok_ref by (fastforce simp: sem_vals_def sem_inv_def sem_ok_def)

lemma exit_aoe_last:
  assumes info: "seminfo_ok info" and tbl: "tbl_ok info tbl" and c: "semconv info tbl (uent_id e) = Some sl"
    and nn: "0 \<le> uent_num e" and es: "\<forall>f\<in>set es. uent_less e f"
  shows "exit_aoe info tbl es sl (nat (uent_num e)) = 0"
proof -
  have "ip_seq (sem_perm (tbl ! sl)) * semmni info + int sl = uent_id e"
    using sem_ids.conv_slot [OF sem_table_length [OF tbl info] TrueI c] by simp
  moreover have "aoe_of es (uent_id e) (uent_num e) = 0"
    using es uent_less_not_match [of e _ "uent_id e" "uent_num e"]
    by (intro aoe_of_none) (auto simp: uent_match_def)
  ultimately show ?thesis using nn by (simp add: exit_aoe_def)
qed

lemma sem_vals_None: "sem_vals st sl n = None \<longleftrightarrow> sem_ref st sl n = None"
  by (simp add: sem_vals_def)

lemma wake_views [simp]:
  "sem_vals (wake_ncnt slot num st) = sem_vals st" "sem_vals (wake_zcnt slot num st) = sem_vals st"
  using sem_same_wake [of st slot num] by (simp_all add: sem_same_def)

lemma semexit_ents_vals:
  assumes info: "seminfo_ok info"
  shows "sem_inv info st \<Longrightarrow> sorted_wrt uent_less es \<Longrightarrow> \<forall>e\<in>set es. 0 \<le> uent_num e \<Longrightarrow>
    \<forall>e\<in>set es. \<forall>sl. semconv info (sema st) (uent_id e) = Some sl \<longrightarrow> sem_ref st sl (nat (uent_num e)) \<noteq> None \<Longrightarrow>
    \<exists>st'. semexit_ents info es st = Some st'
      \<and> (\<forall>sl n. sem_vals st' sl n = map_option (exit_val info (exit_aoe info (sema st) es sl n)) (sem_vals st sl n))"
proof (induction es arbitrary: st)
  case Nil
  then show ?case
    using sem_inv_val [OF Nil(1)] by (auto simp: exit_aoe_def exit_val_def option.map_ident intro!: option.map_ident_strong [symmetric])
next
  case (Cons e es)
  have tbl: "tbl_ok info (sema st)" using Cons.prems(1) by (simp add: sem_inv_def)
  have es: "sorted_wrt uent_less es" "\<forall>f\<in>set es. uent_less e f" "0 \<le> uent_num e"
    "\<forall>e\<in>set es. 0 \<le> uent_num e" using Cons.prems by auto
  have live: "\<forall>e\<in>set es. \<forall>sl. semconv info (sema st) (uent_id e) = Some sl \<longrightarrow> sem_ref st sl (nat (uent_num e)) \<noteq> None"
    using Cons.prems(4) by simp
  show ?case
  proof (cases "semconv info (sema st) (uent_id e)")
    case None
    with Cons.IH [OF Cons.prems(1) es(1,4) live] show ?thesis
      by (simp add: exit_aoe_Cons [OF info tbl None es(3)])
  next
    case (Some slot)
    define num where "num = nat (uent_num e)"
    obtain semp where semp: "sem_ref st slot num = Some semp"
      using Cons.prems(4) Some by (auto simp: num_def)
    note aoe = exit_aoe_Cons [OF info tbl Some es(3)]
    note last = exit_aoe_last [OF info tbl Some es(3,2), folded num_def]
    have v: "sem_vals st slot num = Some (semval semp)" using semp by (simp add: sem_vals_def)
    note vr = sem_inv_val [OF Cons.prems(1) v]
    have v0: "exit_val info 0 w = w" if "0 \<le> w" "w \<le> semvmx info" for w
      using that by (simp add: exit_val_def)
    define val where "val = semval semp + uent_aoe e"
    show ?thesis
    proof (cases "val < 0 \<or> val > semvmx info")
      case True
      obtain st' where st': "semexit_ents info es st = Some st'"
        "\<forall>sl n. sem_vals st' sl n = map_option (exit_val info (exit_aoe info (sema st) es sl n)) (sem_vals st sl n)"
        using Cons.IH [OF Cons.prems(1) es(1,4) live] by blast
      have "semexit_ents info (e # es) st = Some st'"
        using Some semp True st'(1) by (simp add: Let_def num_def val_def)
      moreover have "sem_vals st' sl n = map_option (exit_val info (exit_aoe info (sema st) (e # es) sl n)) (sem_vals st sl n)" for sl n
        using st'(2) last True v v0 vr
        by (auto simp: aoe num_def [symmetric] exit_val_def val_def)
      ultimately show ?thesis by blast
    next
      case False
      then have val: "0 \<le> val" "val \<le> semvmx info" by auto
      define s1 where "s1 = sem_upd (\<lambda>s. s\<lparr>semval := u16 val\<rparr>) slot num st"
      define s2 where "s2 = (if val = 0 then wake_zcnt slot num s1 else s1)"
      define s3 where "s3 = (if uent_aoe e > 0 then wake_ncnt slot num s2 else s2)"
      have u: "u16 val = val" using val info by (simp add: u16_id seminfo_ok_def)
      have "sem_inv info s1"
        unfolding s1_def
        by (rule sem_inv_upd [OF Cons.prems(1)])
          (use val u Cons.prems(1) tbl_ok_ref in \<open>fastforce simp: sem_inv_def sem_ok_def\<close>)
      then have inv3: "sem_inv info s3" unfolding s3_def s2_def using wake_inv by simp
      have vals3: "sem_vals s3 = (\<lambda>sl n. if sl = slot \<and> n = num then Some val else sem_vals st sl n)"
        using semp u by (auto simp: s3_def s2_def s1_def sem_vals_upd intro!: ext)
      have perms: "sem_perms s3 = sem_perms st" by (simp add: s3_def s2_def s1_def)
      have live3: "\<forall>e\<in>set es. \<forall>sl. semconv info (sema s3) (uent_id e) = Some sl \<longrightarrow> sem_ref s3 sl (nat (uent_num e)) \<noteq> None"
        using live vals3 by (auto simp: semconv_perms [OF perms] simp flip: sem_vals_None)
      obtain st' where st': "semexit_ents info es s3 = Some st'"
        "\<forall>sl n. sem_vals st' sl n = map_option (exit_val info (exit_aoe info (sema s3) es sl n)) (sem_vals s3 sl n)"
        using Cons.IH [OF inv3 es(1,4) live3] by blast
      have "semexit_ents info (e # es) st = Some st'"
        using Some semp False st'(1)
        by (simp only: semexit_ents.simps Let_def option.case num_def [symmetric] val_def [symmetric]
            if_False s1_def [symmetric] s2_def [symmetric] s3_def [symmetric])
      moreover have "sem_vals st' sl n = map_option (exit_val info (exit_aoe info (sema st) (e # es) sl n)) (sem_vals st sl n)" for sl n
        using st'(2) last v val v0 vals3
        by (auto simp: aoe num_def [symmetric] exit_aoe_perms [OF perms] exit_val_def val_def)
      ultimately show ?thesis by blast
    qed
  qed
qed

text \<open>C27: The exit of a process that still has adjust-on-exit entries adds each of them to its
  semaphore, exactly once and only where the result stays between 0 and \<open>semvmx\<close>, leaves
  every other semaphore alone, and forgets the process's entries but no other process's. The
  entries are those whose identifier is still valid; the code relies on their semaphore
  numbers lying inside the set.\<close>
theorem semexit_applies_adjustments:
  assumes info: "seminfo_ok info" and inv: "sem_inv info st"
    and live: "\<forall>e\<in>set (undo_ents st pid). \<forall>sl. semconv info (sema st) (uent_id e) = Some sl
      \<longrightarrow> uent_num e < sem_nsems (sema st ! sl)"
  shows "\<exists>st'. semexit pid info st = Some st'
    \<and> undo_ents st' = (undo_ents st)(pid := []) \<and> pid \<notin> set (semundo_head st')
    \<and> (\<forall>sl n. sem_vals st' sl n =
        map_option (exit_val info (exit_aoe info (sema st) (undo_ents st pid) sl n)) (sem_vals st sl n))"
proof -
  have und: "undos_ok info st" and tbl: "tbl_ok info (sema st)" using inv by (simp_all add: sem_inv_def)
  have es: "sorted_wrt uent_less (undo_ents st pid)" "\<forall>e\<in>set (undo_ents st pid). 0 \<le> uent_num e"
    using undos_ok_ents [OF und, of pid] by (auto simp: ents_ok_def uent_ok_def)
  have ref: "\<forall>e\<in>set (undo_ents st pid). \<forall>sl. semconv info (sema st) (uent_id e) = Some sl
      \<longrightarrow> sem_ref st sl (nat (uent_num e)) \<noteq> None"
  proof (intro ballI allI impI)
    fix e sl
    assume e: "e \<in> set (undo_ents st pid)" and c: "semconv info (sema st) (uent_id e) = Some sl"
    note s = sem_ids.conv_slot [OF sem_table_length [OF tbl info] TrueI c]
    then have "sp_ok info (sema st ! sl)" using sem_inv_sp [OF inv] by blast
    then show "sem_ref st sl (nat (uent_num e)) \<noteq> None"
      using live e c s es(2) by (auto simp: sp_ok_def sem_ref_def aref_def nat_less_iff)
  qed
  obtain st1 where st1: "semexit_ents info (undo_ents st pid) st = Some st1"
    "\<And>sl n. sem_vals st1 sl n =
        map_option (exit_val info (exit_aoe info (sema st) (undo_ents st pid) sl n)) (sem_vals st sl n)"
    using semexit_ents_vals [OF info inv es ref] by blast
  note fr = semexit_ents_frame [OF st1(1)]
  have head: "pid \<in> set (semundo_head st) \<longleftrightarrow> undo_ents st pid \<noteq> []" "distinct (semundo_head st)"
    using und by (auto simp: undos_ok_def)
  show ?thesis
  proof (cases "undo_ents st pid = []")
    case True
    then have "semexit pid info st = Some (st\<lparr>u_semundo := (u_semundo st)(pid := None)\<rparr>)"
      by (cases "u_semundo st pid") (simp_all add: semexit_def undo_ents_def fun_upd_idem)
    moreover have "sem_vals (st\<lparr>u_semundo := us\<rparr>) = sem_vals st" for us
      by (intro ext) (simp add: sem_vals_def sem_ref_def)
    ultimately show ?thesis
      using True st1 head by (auto simp: undo_ents_def)
  next
    case False
    then obtain un where un: "u_semundo st pid = Some un" "un_entp un = undo_ents st pid"
      by (auto simp: undo_ents_def split: option.splits)
    let ?st' = "st1\<lparr>semundo_head := remove1 pid (semundo_head st1), u_semundo := (u_semundo st1)(pid := None)\<rparr>"
    have "semexit pid info st = Some ?st'" using un False st1(1) by (simp add: semexit_def)
    moreover have "sem_vals ?st' = sem_vals st1" by (intro ext) (simp add: sem_vals_def sem_ref_def)
    ultimately show ?thesis using st1(2) fr head by (auto simp: undo_ents_def)
  qed
qed

theorem semexit_applies_adjustments_witness:
  "\<exists>st'. semexit 7 ex_info ex_undo = Some st' \<and> sem_vals st' 0 3 = Some 0 \<and> sem_vals st' 1 0 = Some 0
     \<and> undo_ents st' 7 = []"
proof -
  have live: "\<forall>e\<in>set (undo_ents ex_undo 7). \<forall>sl. semconv ex_info (sema ex_undo) (uent_id e) = Some sl
      \<longrightarrow> uent_num e < sem_nsems (sema ex_undo ! sl)"
  proof -
    have ev: "undo_ents ex_undo 7 = [\<lparr>uent_aoe = - 5, uent_num = 3, uent_id = 0\<rparr>, \<lparr>uent_aoe = - 2, uent_num = 0, uent_id = 1\<rparr>]"
      "semconv ex_info (sema ex_undo) 0 = Some 0" "semconv ex_info (sema ex_undo) 1 = Some 1"
      "sem_nsems (sema ex_undo ! 0) = 4" "sem_nsems (sema ex_undo ! 1) = 4"
      by code_simp+
    then show ?thesis by simp
  qed
  have v: "sem_vals ex_undo 0 3 = Some 5" "sem_vals ex_undo 1 0 = Some 2"
    "exit_aoe ex_info (sema ex_undo) (undo_ents ex_undo 7) 0 3 = - 5"
    "exit_aoe ex_info (sema ex_undo) (undo_ents ex_undo 7) 1 0 = - 2"
    by code_simp+
  from semexit_applies_adjustments [OF ex_info_ok conjunct1 [OF sem_reach_inv [OF ex_undo_reach ex_info_ok]] live]
  show ?thesis using v by (auto simp: exit_val_def ex_info_def)
qed

section \<open>Removing undo entries\<close>

lemma vals_pid: "sem_vals (sem_upd (\<lambda>s. s\<lparr>sempid := p\<rparr>) slot num st) = sem_vals st"
  by (auto simp: sem_vals_upd sem_vals_def intro!: ext)

lemma vals_setval:
  "sem_vals (sem_setval slot num v st) = (\<lambda>sl n. if sl = slot \<and> n = num
     then map_option (\<lambda>_. u16 v) (sem_vals st slot num) else sem_vals st sl n)"
  by (auto simp: sem_setval_def Let_def sem_vals_upd sem_vals_def option.map_comp comp_def intro!: ext)

text \<open>A successful \<open>SETVAL\<close> stores the value, records the caller as the last process to
  operate on the semaphore, changes no other semaphore, and removes that semaphore's
  adjust-on-exit entries of every process that holds no entry with a smaller identifier and
  a larger semaphore number; no other entry is touched.\<close>
theorem setval_stores_and_clears:
  assumes info: "seminfo_ok info" and inv: "sem_inv info st"
    and r: "semctl env info usr sid semnum 8 arg st = (Inr v, out, st')"
  shows "\<exists>slot. semconv info (sema st) sid = Some slot
    \<and> (\<forall>sl n. sem_vals st' sl n = (if sl = slot \<and> int n = semnum then Some (u32 arg) else sem_vals st sl n))
    \<and> map_option sempid (sem_ref st' slot (nat semnum)) = Some (se_pid env)
    \<and> (\<forall>p. (\<forall>e\<in>set (undo_ents st p). uent_id e < sid \<longrightarrow> uent_num e \<le> semnum) \<longrightarrow>
         undo_ents st' p = filter (\<lambda>e. \<not> uent_match sid semnum e) (undo_ents st p))"
proof -
  have tbl: "tbl_ok info (sema st)" and und: "undos_ok info st" using inv by (simp_all add: sem_inv_def)
  obtain slot where slot: "semconv info (sema st) sid = Some slot"
    using r by (auto simp: semctl_def split: option.splits)
  have sv: "semctl_setval env info sid slot semnum arg st = (Inr v, out, st')"
    using r slot by (simp add: semctl_def)
  have rng: "0 \<le> semnum" "semnum < sem_nsems (sema st ! slot)" "u32 arg \<le> semvmx info"
    using sv by (auto simp: semctl_setval_def Let_def split: if_splits)
  define st1 where "st1 = sem_upd (\<lambda>s. s\<lparr>sempid := se_pid env\<rparr>) slot (nat semnum) (sem_setval slot (nat semnum) arg st)"
  have st': "st' = semunrm sid semnum semnum st1"
    using sv rng by (auto simp: semctl_setval_def Let_def st1_def split: if_splits)
  note c = sem_ids.conv_slot [OF sem_table_length [OF tbl info] TrueI slot]
  have sp: "sp_ok info (sema st ! slot)" using sem_inv_sp [OF inv] c by blast
  then have ref: "sem_ref st slot (nat semnum) \<noteq> None"
    using rng c by (simp add: sp_ok_def sem_ref_def aref_def nat_less_iff)
  have u: "u16 arg = u32 arg"
    using rng(3) info u16_id [of "u32 arg"] by (simp add: u16_u32 seminfo_ok_def) (simp add: u32_def)
  have vals1: "sem_vals st1 = (\<lambda>sl n. if sl = slot \<and> n = nat semnum then Some (u32 arg) else sem_vals st sl n)"
    using ref u by (auto simp: st1_def vals_pid vals_setval simp flip: sem_vals_None intro!: ext)
  have undo1: "undo_ents st1 = undo_ents st"
    using sem_same_wake by (simp add: st1_def sem_setval_def Let_def sem_same_def)
  have inv1: "sem_inv info st1"
    unfolding st1_def using u rng(3) by (intro sem_pid_inv sem_setval_inv inv) simp
  then have und1: "undos_ok info st1" by (simp add: sem_inv_def)
  have small: "semnum < 32768"
    using sp c rng(2) info by (auto simp: sp_ok_def seminfo_ok_def)
  have vals': "sem_vals st' = sem_vals st1" and ref': "sem_ref st' = sem_ref st1"
    by (auto simp: st' sem_vals_def sem_ref_def intro!: ext)
  have pid: "map_option sempid (sem_ref st' slot (nat semnum)) = Some (se_pid env)"
  proof -
    have "sem_ref (sem_setval slot (nat semnum) arg st) slot (nat semnum) \<noteq> None"
      using ref by (auto simp: vals_setval simp flip: sem_vals_None)
    then show ?thesis by (auto simp: ref' st1_def sem_ref_upd)
  qed
  have clear: "undo_ents st' p = filter (\<lambda>e. \<not> uent_match sid semnum e) (undo_ents st p)"
    if few: "\<forall>e\<in>set (undo_ents st p). uent_id e < sid \<longrightarrow> uent_num e \<le> semnum" for p
  proof -
    have es: "sorted_wrt uent_less (undo_ents st p)" "\<forall>e\<in>set (undo_ents st p). 0 \<le> uent_num e \<and> uent_num e < 32768"
      using undos_ok_ents [OF und, of p] by (auto simp: ents_ok_def uent_ok_def)
    have "undo_ents st' p = semunrm_ents sid semnum semnum (undo_ents st p)"
      using semunrm_undo(1) [OF und1 info] undo1 by (simp add: st')
    also have "\<dots> = filter (\<lambda>e. \<not> (uent_id e = sid \<and> semnum \<le> uent_num e \<and> uent_num e \<le> semnum)) (undo_ents st p)"
      using es rng small few by (intro semunrm_ents_filter) auto
    finally show ?thesis by (simp add: uent_match_def antisym_conv eq_commute cong: conj_cong) (auto intro!: filter_cong)
  qed
  show ?thesis
    using slot vals' vals1 pid clear rng by (intro exI [of _ slot]) auto
qed

theorem setval_stores_and_clears_witness:
  "\<exists>st' out. semctl (ex_env 9) ex_info \<lparr>su_ds = None, su_vals = None, su_copyout = True, su_fault_at = None\<rparr>
      0 3 8 6 ex_undo = (Inr 0, out, st')
    \<and> sem_vals st' 0 3 = Some 6 \<and> undo_ents st' 7 = [\<lparr>uent_aoe = - 2, uent_num = 0, uent_id = 1\<rparr>]"
proof -
  let ?usr = "\<lparr>su_ds = None, su_vals = None, su_copyout = True, su_fault_at = None\<rparr>"
  have ev: "undo_ents ex_undo 7 = [\<lparr>uent_aoe = - 5, uent_num = 3, uent_id = 0\<rparr>, \<lparr>uent_aoe = - 2, uent_num = 0, uent_id = 1\<rparr>]"
    "semconv ex_info (sema ex_undo) 0 = Some 0"
    "fst (semctl (ex_env 9) ex_info ?usr 0 3 8 6 ex_undo) = Inr 0"
    by code_simp+
  obtain out st' where r: "semctl (ex_env 9) ex_info ?usr 0 3 8 6 ex_undo = (Inr 0, out, st')"
    using ev(3) by (metis prod.collapse)
  from setval_stores_and_clears [OF ex_info_ok conjunct1 [OF sem_reach_inv [OF ex_undo_reach ex_info_ok]] r]
  show ?thesis using r ev(1,2) by (auto simp: uent_match_def u32_def)
qed

text \<open>The condition of the previous property is needed: the walk of \<open>semunrm\<close> ends at the
  first entry whose semaphore number exceeds the bound, even when that entry belongs to
  another set. In a reachable state of two sets, \<open>SETVAL\<close> to 9 succeeds on semaphore 0 of set
  1 but leaves process 7's entry for it, and the exit of process 7 then takes 2 from
  the value that was set.\<close>
theorem setval_keeps_stale_entry:
  "\<exists>st usr out st' st''. sem_reach ex_info st
    \<and> semctl (ex_env 9) ex_info usr 1 0 8 9 st = (Inr 0, out, st')
    \<and> sem_vals st' 1 0 = Some 9 \<and> aoe_of (undo_ents st' 7) 1 0 = - 2
    \<and> semexit 7 ex_info st' = Some st'' \<and> sem_vals st'' 1 0 = Some 7"
proof -
  let ?usr = "\<lparr>su_ds = None, su_vals = None, su_copyout = True, su_fault_at = None\<rparr>"
  let ?r = "semctl (ex_env 9) ex_info ?usr 1 0 8 9 ex_undo"
  have ev: "fst ?r = Inr 0" "sem_vals (snd (snd ?r)) 1 0 = Some 9"
    "aoe_of (undo_ents (snd (snd ?r)) 7) 1 0 = - 2"
    "map_option (\<lambda>s. sem_vals s 1 0) (semexit 7 ex_info (snd (snd ?r))) = Some (Some 7)"
    by code_simp+
  obtain out st' where r: "?r = (Inr 0, out, st')"
    using ev(1) by (metis prod.collapse)
  note ev' = ev(2,3,4) [unfolded r snd_conv]
  obtain st'' where "semexit 7 ex_info st' = Some st''" "sem_vals st'' 1 0 = Some 7"
    using ev'(3) by auto
  with ev' r ex_undo_reach show ?thesis by blast
qed

section \<open>Identifiers\<close>

text \<open>A successful \<open>IPC_RMID\<close> invalidates the identifier it was given: \<open>semconv\<close> refuses it
  afterwards, for every later call, until another set takes the slot with the same
  sequence number; the sequence number has been advanced.\<close>
theorem rmid_invalidates:
  assumes info: "seminfo_ok info" and inv: "sem_inv info st"
    and r: "semctl env info usr sid semnum 0 arg st = (Inr v, out, st')"
  shows "semconv info (sema st') sid = None
    \<and> (\<exists>slot. semconv info (sema st) sid = Some slot \<and> sem_base (sema st' ! slot) = []
        \<and> ip_seq (sem_perm (sema st' ! slot)) = u16 (ip_seq (sem_perm (sema st ! slot)) + 1)
        \<and> (\<forall>d. semconv info (sema st) d \<noteq> Some slot \<longrightarrow> semconv info (sema st') d = semconv info (sema st) d))"
proof -
  have tbl: "tbl_ok info (sema st)" using inv by (simp add: sem_inv_def)
  obtain slot where slot: "semconv info (sema st) sid = Some slot"
    using r by (auto simp: semctl_def split: option.splits)
  have rm: "semctl_rmid env info sid slot st = (Inr v, out, st')"
    using r slot by (simp add: semctl_def)
  note len = sem_table_length [OF tbl info]
  note c = sem_ids.conv_slot [OF len TrueI slot]
  note rg = semconv_range [OF info tbl slot]
  obtain st1 where o: "sem_owner (se_cred env) (sem_perm (sema st ! slot)) st = (None, st1)"
    using rm by (auto simp: semctl_rmid_def Let_def split: prod.splits option.splits)
  obtain b where st1: "st1 = st\<lparr>sem_asu := b\<rparr>" using sem_owner_frame [OF o] by blast
  have "s64 (sid + semmni info) = sid + semmni info"
    using rg info by (intro s64_id) (auto simp: seminfo_ok_def)
  then have nonneg: "\<not> s64 (sid + semmni info) < 0" using rg info by (simp add: seminfo_ok_def)
  let ?n = "sem_nsems (sema st ! slot)"
  let ?f = "\<lambda>sp. sp\<lparr>sem_base := [], sem_perm := (sem_perm sp)\<lparr>ip_seq := u16 (ip_seq (sem_perm (sema st ! slot)) + 1), ip_mode := 0\<rparr>\<rparr>"
  let ?st2 = "rmid_sems slot 0 (nat ?n) (semunrm sid 0 ?n st1)"
  have st': "st' = sp_upd ?f slot ?st2"
    using rm o nonneg by (simp add: semctl_rmid_def Let_def)
  have perms: "sem_perms ?st2 = sem_perms st" by (simp add: st1)
  have len2: "length (sema ?st2) = length (sema st)" by (simp add: st1)
  have sema': "sema st' = (sema ?st2)[slot := ?f (sema ?st2 ! slot)]" by (simp add: st' sp_upd_def)
  have conv2: "semconv info (sema ?st2) d = semconv info (sema st) d" for d
    by (rule semconv_perms [OF perms])
  have gone: "semconv info (sema st') sid = None"
    unfolding sema' using len len2 conv2 slot
    by (intro sem_ids.conv_removed [of _ _ _ slot]) (simp_all add: ipc_allocated_def)
  have others: "semconv info (sema st') d = semconv info (sema st) d" if "semconv info (sema st) d \<noteq> Some slot" for d
    unfolding sema' using len len2 that
    by (subst sem_ids.conv_freed) (simp_all add: ipc_allocated_def conv2)
  show ?thesis using gone slot others c len2 by (auto simp: sema')
qed

theorem rmid_invalidates_witness:
  "\<exists>out st'. semctl (ex_env 9) ex_info \<lparr>su_ds = None, su_vals = None, su_copyout = True, su_fault_at = None\<rparr>
      0 0 0 0 ex_undo = (Inr 0, out, st') \<and> semconv ex_info (sema st') 0 = None
      \<and> semconv ex_info (sema st') 1 = Some 1"
proof -
  let ?usr = "\<lparr>su_ds = None, su_vals = None, su_copyout = True, su_fault_at = None\<rparr>"
  have ev: "semconv ex_info (sema ex_undo) 0 = Some 0" "semconv ex_info (sema ex_undo) 1 = Some 1"
    by code_simp+
  have ret: "fst (semctl (ex_env 9) ex_info ?usr 0 0 0 0 ex_undo) = Inr 0"
    by (simp add: semctl_def ev semctl_rmid_def sem_owner_def suser_def ex_env_def Let_def)
  obtain out st' where r: "semctl (ex_env 9) ex_info ?usr 0 0 0 0 ex_undo = (Inr 0, out, st')"
    using ret by (metis prod.collapse)
  from rmid_invalidates [OF ex_info_ok conjunct1 [OF sem_reach_inv [OF ex_undo_reach ex_info_ok]] r]
  show ?thesis using r ev by auto
qed

text \<open>The identifier that \<open>semget\<close> returns is accepted by \<open>semconv\<close> and leads to a set with
  the key and at least the number of semaphores asked for. Either the state is unchanged
  and the set was there, or the identifier was invalid before, the set is new with all
  semaphores zero, and every other identifier means what it meant.\<close>
theorem semget_identifier:
  assumes info: "seminfo_ok info" and inv: "sem_inv info st"
    and r: "semget env info key nsems flg st = (Inr d, st')"
  shows "\<exists>slot. semconv info (sema st') d = Some slot
    \<and> ip_key (sem_perm (sema st' ! slot)) = s32 key \<and> nsems \<le> sem_nsems (sema st' ! slot)
    \<and> (st' = st \<or> (semconv info (sema st) d = None
          \<and> sem_base (sema st' ! slot) = replicate (nat nsems) zero_sem
          \<and> (\<forall>d'. d' \<noteq> d \<longrightarrow> semconv info (sema st') d' = semconv info (sema st) d')))"
proof -
  have tbl: "tbl_ok info (sema st)" using inv by (simp add: sem_inv_def)
  note len = sem_table_length [OF tbl info]
  obtain s slot t where g: "ipcget sem_perm sem_set_perm (se_cred env) (s32 key) flg (sema st) = Inr (s, slot, t)"
    using r by (auto simp: semget_def split: sum.splits)
  have seq: "0 \<le> ip_seq (sem_perm (sema st ! k))" if "k < length (sema st)" for k
    using sem_inv_sp [OF inv that] by (simp add: sp_ok_def)
  show ?thesis
  proof (cases s)
    case False
    note old = sem_fac.ipcget_old [OF g [unfolded iffD2 [OF eq_False False]]]
    then have "st' = st" "d = ip_seq (sem_perm (sema st ! slot)) * semmni info + int slot"
      and nsems: "nsems = 0 \<or> nsems \<le> sem_nsems (sema st ! slot)"
      using r g False by (auto simp: semget_def Let_def split: if_splits)
    moreover have "ipc_allocated (sem_perm (sema st ! slot))" "ip_key (sem_perm (sema st ! slot)) = s32 key"
      using old by (simp_all add: ipc_has_key_def)
    moreover have "0 < sem_nsems (sema st ! slot)"
      using sem_inv_sp [OF inv] old calculation(4) by (simp add: sp_ok_def)
    ultimately show ?thesis
      using sem_ids.conv_encode [OF len _ _ seq TrueI] old by (intro exI [of _ slot]) auto
  next
    case True
    note new = sem_fac.ipcget_new [OF g [unfolded iffD2 [OF eq_True True]]]
    define sp where "sp = sema st ! slot"
    define p where "p = ipc_init (se_cred env) (s32 key) flg (sem_perm sp)"
    define sp' where "sp' = (sem_set_perm p sp)\<lparr>sem_base := replicate (nat nsems) zero_sem,
        sem_nsems := u16 nsems, sem_ctime := se_time env, sem_otime := 0\<rparr>"
    have ns: "0 < nsems" "nsems \<le> semmsl info" using r g True by (auto simp: semget_def Let_def split: if_splits)
    then have u: "u16 nsems = nsems" using info by (simp add: u16_id seminfo_ok_def)
    have perm': "sem_perm sp' = p" by (simp add: sp'_def sem_set_perm_def)
    have st': "st' = st\<lparr>sema := (sema st)[slot := sp']\<rparr>"
      using r g True ns new by (auto simp: semget_def Let_def sp_upd_def sp'_def p_def sp_def)
    have d: "d = ip_seq p * semmni info + int slot"
      using r g True ns new perm' by (auto simp: semget_def Let_def sp_upd_def sp'_def p_def sp_def sem_set_perm_def)
    have len': "int (length ((sema st)[slot := sp'])) = semmni info" using len by simp
    have at: "(sema st)[slot := sp'] ! slot = sp'" using new by simp
    have al: "ipc_allocated p" "ip_seq p = ip_seq (sem_perm sp)" "ip_key p = s32 key" by (simp_all add: p_def)
    have conv: "semconv info (sema st') d = Some slot"
      using sem_ids.conv_encode [OF len', of slot] new al seq [of slot] perm' d by (simp add: st' sp_def)
    have c: "semconv info t d' = Some j \<longleftrightarrow> 0 \<le> d' \<and> j = nat (d' mod semmni info) \<and> j < length t
        \<and> ipc_allocated (sem_perm (t ! j)) \<and> d' div semmni info = ip_seq (sem_perm (t ! j))"
      if "int (length t) = semmni info" for t d' j using sem_ids.conv_iff [OF that TrueI] .
    have mine: "d' = d" if "semconv info (sema st') d' = Some slot" for d'
      using sem_ids.conv_slot [OF len' TrueI, of d' slot] that at perm' d by (simp add: st')
    have "semconv info (sema st') d' = Some j \<longleftrightarrow> semconv info (sema st) d' = Some j" if "j \<noteq> slot" for d' j
      unfolding st' using that by (simp add: c [OF len'] c [OF len])
    moreover have "semconv info (sema st) d' \<noteq> Some slot" for d'
      using c [OF len, of d' slot] new by blast
    ultimately have others: "semconv info (sema st') d' = semconv info (sema st) d'" if "d' \<noteq> d" for d'
      using mine that by (metis not_None_eq)
    have fresh: "semconv info (sema st) d = None"
    proof (rule ccontr)
      assume "semconv info (sema st) d \<noteq> None"
      then obtain j where j: "semconv info (sema st) d = Some j" by auto
      have "j = slot" using c [OF len, of d j] c [OF len', of d slot] j conv by (simp add: st')
      with j \<open>\<And>d'. semconv info (sema st) d' \<noteq> Some slot\<close> show False by simp
    qed
    show ?thesis
      using conv fresh others at perm' al u by (intro exI [of _ slot]) (simp add: st' sp'_def)
  qed
qed

theorem semget_identifier_witness:
  "\<exists>st'. semget (ex_env 9) ex_info 77 3 (IPC_CREAT OR 0x1B0) ex_undo = (Inr 2, st')
     \<and> semconv ex_info (sema st') 2 \<noteq> None \<and> semconv ex_info (sema ex_undo) 2 = None"
proof -
  have ev: "fst (semget (ex_env 9) ex_info 77 3 (IPC_CREAT OR 0x1B0) ex_undo) = Inr 2"
    "semconv ex_info (sema ex_undo) 2 = None"
    by code_simp+
  obtain st' where r: "semget (ex_env 9) ex_info 77 3 (IPC_CREAT OR 0x1B0) ex_undo = (Inr 2, st')"
    using ev(1) by (metis prod.collapse)
  from semget_identifier [OF ex_info_ok conjunct1 [OF sem_reach_inv [OF ex_undo_reach ex_info_ok]] r]
  show ?thesis using r ev(2) by auto
qed

section \<open>Adjust-on-exit\<close>

text \<open>\<open>semaoe\<close> maintains, for the calling process, a finite map from (set, semaphore) to
  adjustment: when it succeeds it subtracts the value from exactly one adjustment, when it
  fails no process's entries change, and the adjustments of other processes never change.
  It fails only with \<open>ERANGE\<close>, \<open>EINVAL\<close> (too many entries) or \<open>ENOSPC\<close> (no undo structure).\<close>
theorem semaoe_adjusts_map:
  assumes info: "seminfo_ok info" and und: "undos_ok info st"
    and rng: "0 \<le> num" "num < 32768" "0 \<le> sid" "sid < 2147483648"
  shows "case semaoe env info val sid num st of
      (None, st') \<Rightarrow> \<forall>p s n. aoe_of (undo_ents st' p) s n = aoe_of (undo_ents st p) s n
          - (if p = se_pid env \<and> s = sid \<and> n = num then val else 0)
    | (Some e, st') \<Rightarrow> undo_ents st' = undo_ents st \<and> e \<in> {ERANGE, EINVAL, ENOSPC}"
proof -
  let ?pid = "se_pid env"
  obtain r st' where run: "semaoe env info val sid num st = (r, st')" by fastforce
  have other: "undo_ents st' p = undo_ents st p" if "p \<noteq> ?pid" for p
    using semaoe_ents_other [OF that, of info val sid num st] run by simp
  have ents: "ents_ok info (undo_ents st ?pid)" using undos_ok_ents [OF und] .
  show ?thesis
  proof (cases "u_semundo st ?pid \<noteq> None \<or> se_zalloc env")
    case True
    have step: "aoe_step info val sid num (undo_ents st ?pid) = (r, undo_ents st' ?pid)"
      using semaoe_refine [OF info und rng True, of val] run by (simp add: prod_eq_iff)
    show ?thesis
    proof (cases r)
      case None
      with step have "aoe_step info val sid num (undo_ents st ?pid) = (None, undo_ents st' ?pid)" by simp
      note own = aoe_step_map [OF ents this]
      have "aoe_of (undo_ents st' p) s n = aoe_of (undo_ents st p) s n
          - (if p = ?pid \<and> s = sid \<and> n = num then val else 0)" for p s n
        using own [of s n] other [of p] by (cases "p = ?pid") auto
      with run None show ?thesis by simp
    next
      case (Some e)
      with step have "undo_ents st' ?pid = undo_ents st ?pid \<and> e \<in> {ERANGE, EINVAL, ENOSPC}"
        by (auto simp: aoe_step_def aoe_insert_def Let_def split: if_splits list.splits)
      with other have "undo_ents st' = undo_ents st \<and> e \<in> {ERANGE, EINVAL, ENOSPC}" by (metis ext)
      with run Some show ?thesis by simp
    qed
  next
    case False
    with semaoe_nospace [OF _ _ run] have "st' = st" "r = None \<longrightarrow> val = 0" by simp_all
    moreover have "\<forall>e. r = Some e \<longrightarrow> e \<in> {ERANGE, EINVAL, ENOSPC}"
      using run False by (auto simp: semaoe_def split: if_splits)
    ultimately show ?thesis using run by (auto split: option.splits)
  qed
qed

theorem semaoe_adjusts_map_witness:
  "\<exists>st'. semaoe (ex_env 7) ex_info 4 0 3 ex_undo = (None, st') \<and> aoe_of (undo_ents st' 7) 0 3 = - 9"
proof -
  have ev: "fst (semaoe (ex_env 7) ex_info 4 0 3 ex_undo) = None" "aoe_of (undo_ents ex_undo 7) 0 3 = - 5"
    by code_simp+
  obtain st' where r: "semaoe (ex_env 7) ex_info 4 0 3 ex_undo = (None, st')"
    using ev(1) by (metis prod.collapse)
  have und: "undos_ok ex_info ex_undo"
    using sem_reach_inv [OF ex_undo_reach ex_info_ok] by (simp add: sem_inv_def)
  from semaoe_adjusts_map [OF ex_info_ok und, of 3 0 "ex_env 7" 4] r ev(2)
  show ?thesis by (simp add: ex_env_def)
qed

section \<open>Access\<close>

text \<open>The class of bits that decides.\<close>

definition ipc_class :: "ucred \<Rightarrow> ipc_perm \<Rightarrow> nat" where
  "ipc_class cr p =
     (if cr_uid cr \<in> {ip_uid p, ip_cuid p} then 0
      else if cr_gid cr \<in> {ip_gid p, ip_cgid p} then 1 else 2)"

text \<open>\<open>ipcaccess\<close> refuses exactly the callers who are not the super-user and none of whose
  requested permissions is granted by the class they belong to: the owner bits for owner and
  creator, else the group bits for their groups, else the bits for others.\<close>
theorem ipcaccess_by_class:
  "ipcaccess cr p mode \<longleftrightarrow>
     cr_uid cr \<noteq> 0 \<and> (\<nexists>n. bit mode (n + 3 * ipc_class cr p) \<and> bit (ip_mode p) n)"
proof -
  have nz: "drop_bit k mode AND ucast (ip_mode p) = 0 \<longleftrightarrow>
      (\<nexists>n. bit mode (n + k) \<and> bit (ip_mode p) n)" for k
  proof -
    have lt: "n < 32" if "bit (ip_mode p) n" for n
      using bit_imp_le_length [OF that] by simp
    have "bit (drop_bit k mode AND ucast (ip_mode p)) n \<longleftrightarrow> bit mode (n + k) \<and> bit (ip_mode p) n" for n
      using lt [of n] by (auto simp: bit_and_iff bit_drop_bit_eq bit_unsigned_iff comp_def add.commute)
    then have "(\<forall>n. \<not> bit (drop_bit k mode AND (ucast (ip_mode p) :: 64 word)) n) \<longleftrightarrow>
        (\<nexists>n. bit mode (n + k) \<and> bit (ip_mode p) n)"
      using lt by blast
    moreover have "drop_bit k mode AND ucast (ip_mode p) = 0 \<longleftrightarrow>
        (\<forall>n. \<not> bit (drop_bit k mode AND (ucast (ip_mode p) :: 64 word)) n)"
      by (metis bit_0_eq bit_eqI bot_apply bot_bool_def)
    ultimately show ?thesis by blast
  qed
  show ?thesis
    using nz [of 0] nz [of 3] nz [of 6]
    by (auto simp: ipcaccess_def ipc_class_def Let_def drop_bit_drop_bit)
qed

end
