(* ===== verification/Svipc_Msg.thy ===== *)
theory Svipc_Msg
  imports Svipc_Ipc
begin

text \<open>
  The System V message queues, \<open>kernel/bsd/svipc_msg.c\<close> with the data of \<open>sys/msg.h\<close>, in the
  configuration without the \<open>SEC_*\<close> options.

  The messages of a queue are the list \<open>msg_q\<close> from \<open>msg_first\<close> to \<open>msg_last\<close>; the list of
  message types receivers wait for is \<open>msg_wait_list\<close>. Every system call but \<open>IPC_SET\<close> and
  \<open>IPC_STAT\<close> holds \<open>msg_lock\<close>, so a call is one step up to its end or its sleep; a sleep
  releases the lock, and the call goes on in \<open>msgsnd_resume\<close> or \<open>msgrcv_resume\<close>. What the
  user's memory holds and whether a copy faults are arguments; \<open>wakeup\<close> calls are recorded
  in order.
\<close>

section \<open>Data\<close>

record msg =
  msg_type :: int
  msg_ts :: int
  msg_text :: "8 word list"

record msg_wait =
  msg_wait_type :: int
  msg_wait_cnt :: int

record msqid_ds =
  msg_perm :: ipc_perm
  msg_q :: "msg list"
  msg_cbytes :: int
  msg_qnum :: int
  msg_qbytes :: int
  msg_lspid :: int
  msg_lrpid :: int
  msg_stime :: int
  msg_rtime :: int
  msg_ctime :: int
  msg_wait_list :: "msg_wait list"

record msginfo =
  msgmax :: int
  msgmnb :: int
  msgmni :: int
  msgtql :: int

text \<open>The sleep channels: a wait structure (of a queue and a type), \<open>&msg_qnum\<close>, the queue
  itself and \<open>&msghdr_wait\<close>.\<close>

datatype msg_chan = MWait nat int | MRead nat | MWrite nat | MHdr

record msg_state =
  msgque :: "msqid_ds list"
  cur_msghdrs :: int
  msghdr_wait :: int
  msg_count :: int
  msg_asu :: bool
  msg_wakeups :: "msg_chan list"

record msg_env =
  me_cred :: ucred
  me_pid :: int
  me_time :: int

definition MSG_NOERROR :: "64 word" where "MSG_NOERROR = 0x1000"
definition MSG_TAG :: "64 word" where "MSG_TAG = 0x2000"
definition MSG_R :: "64 word" where "MSG_R = IPC_R"
definition MSG_W :: "64 word" where "MSG_W = IPC_W"
definition MSG_RWAIT :: "32 word" where "MSG_RWAIT = 0x200"
definition MSG_WWAIT :: "32 word" where "MSG_WWAIT = 0x400"

datatype msg_outcome = MsgRet int "8 word list" int | MsgErr errno | MsgSleep msg_chan

section \<open>Access\<close>

definition qp_upd :: "(msqid_ds \<Rightarrow> msqid_ds) \<Rightarrow> nat \<Rightarrow> msg_state \<Rightarrow> msg_state" where
  "qp_upd f slot st = st\<lparr>msgque := (msgque st)[slot := f (msgque st ! slot)]\<rparr>"

definition msg_wakeup :: "msg_chan \<Rightarrow> msg_state \<Rightarrow> msg_state" where
  "msg_wakeup ch st = st\<lparr>msg_wakeups := msg_wakeups st @ [ch]\<rparr>"

definition mode_upd :: "(32 word \<Rightarrow> 32 word) \<Rightarrow> msqid_ds \<Rightarrow> msqid_ds" where
  "mode_upd f qp = qp\<lparr>msg_perm := (msg_perm qp)\<lparr>ip_mode := f (ip_mode (msg_perm qp))\<rparr>\<rparr>"

definition mode_has :: "32 word \<Rightarrow> msqid_ds \<Rightarrow> bool" where
  "mode_has b qp \<longleftrightarrow> ip_mode (msg_perm qp) AND b \<noteq> 0"

section \<open>msgconv\<close>

text \<open>The parameter is an \<open>int\<close>; the callers pass a \<open>long\<close>.\<close>

definition msgconv :: "msginfo \<Rightarrow> msqid_ds list \<Rightarrow> int \<Rightarrow> nat option" where
  "msgconv info tbl d =
     (let d = s32 d in
      if d < 0 then None
      else
        let slot = nat (d mod msgmni info)
        in case aref tbl slot of
             None \<Rightarrow> None
           | Some qp \<Rightarrow>
               if \<not> ipc_allocated (msg_perm qp) \<or> d div msgmni info \<noteq> ip_seq (msg_perm qp)
               then None else Some slot)"

section \<open>Freeing a message\<close>

definition free_msghdr :: "msg_state \<Rightarrow> msg_state" where
  "free_msghdr st =
     (let st = (if msghdr_wait st \<noteq> 0 then msg_wakeup MHdr (st\<lparr>msghdr_wait := 0\<rparr>) else st)
      in st\<lparr>cur_msghdrs := cur_msghdrs st - 1\<rparr>)"

text \<open>\<open>msgfree\<close> unlinks the message at position \<open>i\<close> (given in C by the message and its
  predecessor).\<close>

definition msgfree :: "nat \<Rightarrow> nat \<Rightarrow> msg_state \<Rightarrow> msg_state" where
  "msgfree slot i st =
     (let st = qp_upd (\<lambda>qp. qp\<lparr>msg_q := take i (msg_q qp) @ drop (Suc i) (msg_q qp),
                              msg_qnum := u64 (msg_qnum qp - 1)\<rparr>) slot st;
          st = (if mode_has MSG_WWAIT (msgque st ! slot)
                then msg_wakeup (MWrite slot) (qp_upd (mode_upd (\<lambda>m. m AND NOT MSG_WWAIT)) slot st)
                else st)
      in free_msghdr st)"

section \<open>msgctl\<close>

type_synonym msg_res = "(errno + int) \<times> msqid_ds option \<times> msg_state"

definition msg_owner :: "ucred \<Rightarrow> ipc_perm \<Rightarrow> msg_state \<Rightarrow> errno option \<times> msg_state" where
  "msg_owner cr p st =
     (if cr_uid cr \<noteq> ip_uid p \<and> cr_uid cr \<noteq> ip_cuid p then
        let (e, asu) = suser cr (msg_asu st) in (e, st\<lparr>msg_asu := asu\<rparr>)
      else (None, st))"

text \<open>\<open>while (qp->msg_first) msgfree(qp, NULL, qp->msg_first)\<close>, for a queue of \<open>n\<close> messages.\<close>

fun rmid_msgs :: "nat \<Rightarrow> nat \<Rightarrow> msg_state \<Rightarrow> msg_state" where
  "rmid_msgs slot 0 st = st"
| "rmid_msgs slot (Suc n) st = rmid_msgs slot n (msgfree slot 0 st)"

fun wake_waits :: "nat \<Rightarrow> msg_wait list \<Rightarrow> msg_state \<Rightarrow> msg_state" where
  "wake_waits slot [] st = st"
| "wake_waits slot (w # ws) st = wake_waits slot ws (msg_wakeup (MWait slot (msg_wait_type w)) st)"

text \<open>\<open>IPC_RMID\<close> once the lock is held, which may be after another caller removed the queue.\<close>

definition msgctl_rmid_locked :: "msginfo \<Rightarrow> int \<Rightarrow> msg_state \<Rightarrow> msg_res" where
  "msgctl_rmid_locked info msqid st =
     (case msgconv info (msgque st) msqid of
        None \<Rightarrow> (Inl EIDRM, None, st)
      | Some slot \<Rightarrow>
          let st = rmid_msgs slot (length (msg_q (msgque st ! slot))) st;
              st = qp_upd (\<lambda>qp. qp\<lparr>msg_cbytes := 0\<rparr>) slot st;
              seq = (\<lambda>s. if s64 (msqid + msgmni info) < 0 then 0 else u16 (s + 1));
              st = qp_upd (\<lambda>qp. qp\<lparr>msg_perm := (msg_perm qp)\<lparr>ip_seq := seq (ip_seq (msg_perm qp))\<rparr>\<rparr>) slot st;
              st = wake_waits slot (msg_wait_list (msgque st ! slot)) st;
              st = qp_upd (\<lambda>qp. qp\<lparr>msg_wait_list := []\<rparr>) slot st;
              st = (if mode_has MSG_RWAIT (msgque st ! slot) then msg_wakeup (MRead slot) st else st);
              st = (if mode_has MSG_WWAIT (msgque st ! slot) then msg_wakeup (MWrite slot) st else st);
              st = qp_upd (mode_upd (\<lambda>_. 0)) slot st
          in (Inr 0, None, st))"

definition msgctl_rmid :: "msg_env \<Rightarrow> msginfo \<Rightarrow> int \<Rightarrow> nat \<Rightarrow> msg_state \<Rightarrow> msg_res" where
  "msgctl_rmid env info msqid slot st =
     (case msg_owner (me_cred env) (msg_perm (msgque st ! slot)) st of
        (Some e, st) \<Rightarrow> (Inl e, None, st)
      | (None, st) \<Rightarrow> msgctl_rmid_locked info msqid st)"

definition msgctl_set :: "msg_env \<Rightarrow> nat \<Rightarrow> msqid_ds option \<Rightarrow> msg_state \<Rightarrow> msg_res" where
  "msgctl_set env slot uds st =
     (case msg_owner (me_cred env) (msg_perm (msgque st ! slot)) st of
        (Some e, st) \<Rightarrow> (Inl e, None, st)
      | (None, st) \<Rightarrow>
          (case uds of
             None \<Rightarrow> (Inl EFAULT, None, st)
           | Some ds \<Rightarrow>
               (case (if msg_qbytes ds > msg_qbytes (msgque st ! slot)
                      then suser (me_cred env) (msg_asu st) else (None, msg_asu st)) of
                  (Some e, asu) \<Rightarrow> (Inl e, None, st\<lparr>msg_asu := asu\<rparr>)
                | (None, asu) \<Rightarrow>
                    (Inr 0, None,
                     qp_upd (\<lambda>qp. qp\<lparr>msg_perm := (msg_perm qp)
                         \<lparr>ip_uid := ip_uid (msg_perm ds), ip_gid := ip_gid (msg_perm ds),
                          ip_mode := (ip_mode (msg_perm qp) AND NOT 0x1FF)
                                       OR (ip_mode (msg_perm ds) AND 0x1FF)\<rparr>,
                         msg_qbytes := u64 (msg_qbytes ds), msg_ctime := me_time env\<rparr>)
                       slot (st\<lparr>msg_asu := asu\<rparr>)))))"

definition msgctl_stat :: "msg_env \<Rightarrow> nat \<Rightarrow> bool \<Rightarrow> msg_state \<Rightarrow> msg_res" where
  "msgctl_stat env slot copyout st =
     (let qp = msgque st ! slot in
      if ipcaccess (me_cred env) (msg_perm qp) MSG_R then (Inl EACCES, None, st)
      else if \<not> copyout then (Inl EFAULT, None, st)
      else (Inr 0, Some qp, st))"

definition msgctl ::
  "msg_env \<Rightarrow> msginfo \<Rightarrow> msqid_ds option \<Rightarrow> bool \<Rightarrow> int \<Rightarrow> int \<Rightarrow> msg_state \<Rightarrow> msg_res" where
  "msgctl env info uds copyout msqid cmd st =
     (case msgconv info (msgque st) msqid of
        None \<Rightarrow> (Inl EINVAL, None, st)
      | Some slot \<Rightarrow>
          if cmd = 0 then msgctl_rmid env info msqid slot st
          else if cmd = 1 then msgctl_set env slot uds st
          else if cmd = 2 then msgctl_stat env slot copyout st
          else (Inl EINVAL, None, st))"

section \<open>msgget\<close>

definition msg_set_perm :: "ipc_perm \<Rightarrow> msqid_ds \<Rightarrow> msqid_ds" where
  "msg_set_perm p qp = qp\<lparr>msg_perm := p\<rparr>"

definition msgget ::
  "msg_env \<Rightarrow> msginfo \<Rightarrow> int \<Rightarrow> 64 word \<Rightarrow> msg_state \<Rightarrow> (errno + int) \<times> msg_state" where
  "msgget env info key msgflg st =
     (case ipcget msg_perm msg_set_perm (me_cred env) (s32 key) msgflg (msgque st) of
        Inl e \<Rightarrow> (Inl e, st)
      | Inr (s, slot, tbl) \<Rightarrow>
          let st = st\<lparr>msgque := tbl\<rparr>;
              st = (if s then qp_upd (\<lambda>qp. qp\<lparr>msg_q := [], msg_qnum := 0,
                              msg_qbytes := u64 (msgmnb info), msg_lspid := 0, msg_lrpid := 0,
                              msg_stime := 0, msg_rtime := 0, msg_ctime := me_time env\<rparr>) slot st
                    else st)
          in (Inr (ip_seq (msg_perm (msgque st ! slot)) * msgmni info + int slot), st))"

section \<open>msgrcv\<close>

text \<open>The search. For a positive type the first message of the type, for a negative one the
  first of those with the lowest type up to its absolute value (64-bit negation); \<open>best\<close> is
  \<open>best_mp\<close>, as a position and type.\<close>

fun msg_search :: "int \<Rightarrow> nat \<Rightarrow> (nat \<times> int) option \<Rightarrow> msg list \<Rightarrow> (nat \<times> int) option" where
  "msg_search msgtyp i best [] = best"
| "msg_search msgtyp i best (mp # mps) =
     (if msgtyp > 0 then
        if msgtyp \<noteq> msg_type mp then msg_search msgtyp (Suc i) best mps
        else Some (i, msg_type mp)
      else if msg_type mp \<le> s64 (- msgtyp) then
        (case best of
           Some (j, t) \<Rightarrow>
             if t \<le> msg_type mp then msg_search msgtyp (Suc i) best mps
             else msg_search msgtyp (Suc i) (Some (i, msg_type mp)) mps
         | None \<Rightarrow> msg_search msgtyp (Suc i) (Some (i, msg_type mp)) mps)
      else msg_search msgtyp (Suc i) best mps)"

definition msg_select :: "int \<Rightarrow> msg list \<Rightarrow> nat option" where
  "msg_select msgtyp q =
     (if msgtyp = 0 then (if q = [] then None else Some 0)
      else map_option fst (msg_search msgtyp 0 None q))"

text \<open>A receiver that waits for a type: count it in the structure of the type, a new one at the
  head of the list if there is none.\<close>

fun wait_incr :: "int \<Rightarrow> msg_wait list \<Rightarrow> msg_wait list option" where
  "wait_incr t [] = None"
| "wait_incr t (w # ws) =
     (if msg_wait_type w = t then Some (w\<lparr>msg_wait_cnt := msg_wait_cnt w + 1\<rparr> # ws)
      else map_option (Cons w) (wait_incr t ws))"

definition wait_add :: "int \<Rightarrow> msg_wait list \<Rightarrow> msg_wait list" where
  "wait_add t ws =
     (case wait_incr t ws of
        Some ws' \<Rightarrow> ws'
      | None \<Rightarrow> \<lparr>msg_wait_type = t, msg_wait_cnt = 1\<rparr> # ws)"

text \<open>A receiver whose wait was interrupted.\<close>

fun wait_drop :: "int \<Rightarrow> msg_wait list \<Rightarrow> msg_wait list" where
  "wait_drop t [] = []"
| "wait_drop t (w # ws) =
     (if msg_wait_type w = t then
        if msg_wait_cnt w - 1 = 0 then ws
        else w\<lparr>msg_wait_cnt := msg_wait_cnt w - 1\<rparr> # ws
      else w # wait_drop t ws)"

text \<open>The arguments of one \<open>msgrcv\<close> call: \<open>rc_copytype\<close> and \<open>rc_copytext\<close> say whether the
  copies out succeed.\<close>

record rcv_args =
  rc_msqid :: int
  rc_msgsz :: int
  rc_msgtyp :: int
  rc_msgflg :: "64 word"
  rc_copytype :: bool
  rc_copytext :: bool

text \<open>The message at position \<open>i\<close> is delivered.\<close>

definition msgrcv_take ::
  "msg_env \<Rightarrow> rcv_args \<Rightarrow> nat \<Rightarrow> nat \<Rightarrow> msg_state \<Rightarrow> msg_outcome \<times> msg_state" where
  "msgrcv_take env a slot i st =
     (let mp = msg_q (msgque st ! slot) ! i in
      if rc_msgsz a < msg_ts mp \<and> rc_msgflg a AND MSG_NOERROR = 0 then (MsgErr E2BIG, st)
      else
        let size = (if rc_msgsz a < msg_ts mp then rc_msgsz a else msg_ts mp) in
        if \<not> rc_copytype a then (MsgErr EFAULT, st)
        else if size \<noteq> 0 \<and> \<not> rc_copytext a then (MsgErr EFAULT, st)
        else
          let st = qp_upd (\<lambda>qp. qp\<lparr>msg_cbytes := u16 (msg_cbytes qp - msg_ts mp),
                     msg_lrpid := me_pid env, msg_rtime := me_time env\<rparr>) slot st;
              st = msgfree slot i st
          in (MsgRet (msg_type mp) (take (nat size) (msg_text mp)) size, st\<lparr>msg_count := msg_count st + 1\<rparr>))"

text \<open>No message matches: fail, or record the wait and sleep.\<close>

definition msgrcv_wait :: "rcv_args \<Rightarrow> nat \<Rightarrow> msg_state \<Rightarrow> msg_outcome \<times> msg_state" where
  "msgrcv_wait a slot st =
     (if rc_msgflg a AND IPC_NOWAIT \<noteq> 0 then (MsgErr ENOMSG, st)
      else if rc_msgtyp a > 0 then
        (MsgSleep (MWait slot (rc_msgtyp a)),
         qp_upd (\<lambda>qp. qp\<lparr>msg_wait_list := wait_add (rc_msgtyp a) (msg_wait_list qp)\<rparr>) slot st)
      else
        (MsgSleep (MRead slot), qp_upd (mode_upd (\<lambda>m. m OR MSG_RWAIT)) slot st))"

text \<open>One pass of the loop, with the lock held.\<close>

definition msgrcv_pass ::
  "msg_env \<Rightarrow> msginfo \<Rightarrow> bool \<Rightarrow> rcv_args \<Rightarrow> msg_state \<Rightarrow> msg_outcome \<times> msg_state" where
  "msgrcv_pass env info firstpass a st =
     (case msgconv info (msgque st) (rc_msqid a) of
        None \<Rightarrow> (MsgErr (if firstpass then EINVAL else EIDRM), st)
      | Some slot \<Rightarrow>
          let qp = msgque st ! slot in
          if ipcaccess (me_cred env) (msg_perm qp) MSG_R then (MsgErr EACCES, st)
          else if rc_msgsz a < 0 then (MsgErr EINVAL, st)
          else case msg_select (rc_msgtyp a) (msg_q qp) of
                 Some i \<Rightarrow> msgrcv_take env a slot i st
               | None \<Rightarrow> msgrcv_wait a slot st)"

text \<open>\<open>MSG_TAG\<close> overrides the type asked for.\<close>

definition rcv_tag :: "msg_env \<Rightarrow> rcv_args \<Rightarrow> rcv_args" where
  "rcv_tag env a = (if rc_msgflg a AND MSG_TAG \<noteq> 0 then a\<lparr>rc_msgtyp := me_pid env\<rparr> else a)"

definition msgrcv ::
  "msg_env \<Rightarrow> msginfo \<Rightarrow> rcv_args \<Rightarrow> msg_state \<Rightarrow> msg_outcome \<times> msg_state" where
  "msgrcv env info a st = msgrcv_pass env info True (rcv_tag env a) st"

text \<open>The end of a receiver's sleep; \<open>a\<close> are the arguments after \<open>rcv_tag\<close>.\<close>

definition msgrcv_resume ::
  "msg_env \<Rightarrow> msginfo \<Rightarrow> rcv_args \<Rightarrow> bool \<Rightarrow> msg_state \<Rightarrow> msg_outcome \<times> msg_state" where
  "msgrcv_resume env info a interrupted st =
     (if \<not> interrupted then msgrcv_pass env info False a st
      else if rc_msgtyp a > 0 then
        (case msgconv info (msgque st) (rc_msqid a) of
           None \<Rightarrow> (MsgErr EIDRM, st)
         | Some slot \<Rightarrow>
             (MsgErr EINTR,
              qp_upd (\<lambda>qp. qp\<lparr>msg_wait_list := wait_drop (rc_msgtyp a) (msg_wait_list qp)\<rparr>) slot st))
      else (MsgErr EINTR, st))"

section \<open>msgsnd\<close>

text \<open>The arguments of one \<open>msgsnd\<close> call: \<open>sn_type\<close> is what \<open>copyin\<close> finds as the message type,
  \<open>sn_text\<close> the user's text; \<open>None\<close> where the copy faults.\<close>

record snd_args =
  sn_msqid :: int
  sn_msgsz :: int
  sn_msgflg :: "64 word"
  sn_type :: "int option"
  sn_text :: "8 word list option"

text \<open>After a message was appended: wake the readers, and free every wait structure of its
  type after waking its sleepers.\<close>

fun wake_type :: "nat \<Rightarrow> int \<Rightarrow> msg_wait list \<Rightarrow> msg_state \<Rightarrow> msg_wait list \<times> msg_state" where
  "wake_type slot t [] st = ([], st)"
| "wake_type slot t (w # ws) st =
     (if msg_wait_type w = t then wake_type slot t ws (msg_wakeup (MWait slot t) st)
      else let (ws', st) = wake_type slot t ws st in (w # ws', st))"

definition msgsnd_put ::
  "msg_env \<Rightarrow> nat \<Rightarrow> int \<Rightarrow> int \<Rightarrow> 8 word list \<Rightarrow> msg_state \<Rightarrow> msg_state" where
  "msgsnd_put env slot cnt type txt st =
     (let mp = \<lparr>msg_type = type, msg_ts = cnt, msg_text = txt\<rparr>;
          st = qp_upd (\<lambda>qp. qp\<lparr>msg_qnum := u64 (msg_qnum qp + 1), msg_cbytes := u16 (msg_cbytes qp + cnt),
                 msg_lspid := me_pid env, msg_stime := me_time env, msg_q := msg_q qp @ [mp]\<rparr>) slot st;
          st = (if mode_has MSG_RWAIT (msgque st ! slot)
                then msg_wakeup (MRead slot) (qp_upd (mode_upd (\<lambda>m. m AND NOT MSG_RWAIT)) slot st)
                else st);
          (ws, st) = wake_type slot type (msg_wait_list (msgque st ! slot)) st;
          st = qp_upd (\<lambda>qp. qp\<lparr>msg_wait_list := ws\<rparr>) slot st
      in st\<lparr>msg_count := msg_count st + 1\<rparr>)"

definition msgsnd_pass ::
  "msg_env \<Rightarrow> msginfo \<Rightarrow> bool \<Rightarrow> snd_args \<Rightarrow> msg_state \<Rightarrow> msg_outcome \<times> msg_state" where
  "msgsnd_pass env info firstpass a st =
     (case msgconv info (msgque st) (sn_msqid a) of
        None \<Rightarrow> (MsgErr (if firstpass then EINVAL else EIDRM), st)
      | Some slot \<Rightarrow>
          let qp = msgque st ! slot; cnt = s32 (sn_msgsz a);
              type = (if sn_msgflg a AND MSG_TAG \<noteq> 0 then Some (me_pid env) else sn_type a);
              nowait = (sn_msgflg a AND IPC_NOWAIT \<noteq> 0)
          in if ipcaccess (me_cred env) (msg_perm qp) MSG_W then (MsgErr EACCES, st)
             else if cnt < 0 \<or> cnt > msgmax info then (MsgErr EINVAL, st)
             else case type of
               None \<Rightarrow> (MsgErr EFAULT, st)
             | Some t \<Rightarrow>
                 if t < 1 then (MsgErr EINVAL, st)
                 else if cnt + msg_cbytes qp > msg_qbytes qp then
                   if nowait then (MsgErr EAGAIN, st)
                   else (MsgSleep (MWrite slot), qp_upd (mode_upd (\<lambda>m. m OR MSG_WWAIT)) slot st)
                 else if cur_msghdrs st \<ge> msgtql info then
                   if nowait then (MsgErr EAGAIN, st)
                   else (MsgSleep MHdr, st\<lparr>msghdr_wait := msghdr_wait st + 1\<rparr>)
                 else
                   let st = st\<lparr>cur_msghdrs := cur_msghdrs st + 1\<rparr> in
                   if cnt = 0 then (MsgRet 0 [] 0, msgsnd_put env slot cnt t [] st)
                   else case sn_text a of
                     None \<Rightarrow> (MsgErr EFAULT, free_msghdr st)
                   | Some txt \<Rightarrow> (MsgRet 0 [] 0, msgsnd_put env slot cnt t (take (nat cnt) txt) st))"

definition msgsnd ::
  "msg_env \<Rightarrow> msginfo \<Rightarrow> snd_args \<Rightarrow> msg_state \<Rightarrow> msg_outcome \<times> msg_state" where
  "msgsnd env info a st = msgsnd_pass env info True a st"

text \<open>The end of a sender's sleep on \<open>ch\<close>.\<close>

definition msgsnd_resume ::
  "msg_env \<Rightarrow> msginfo \<Rightarrow> snd_args \<Rightarrow> msg_chan \<Rightarrow> bool \<Rightarrow> msg_state \<Rightarrow> msg_outcome \<times> msg_state" where
  "msgsnd_resume env info a ch interrupted st =
     (if \<not> interrupted then msgsnd_pass env info False a st
      else case ch of
             MWrite slot \<Rightarrow>
               (MsgErr EINTR,
                msg_wakeup (MWrite slot) (qp_upd (mode_upd (\<lambda>m. m AND NOT MSG_WWAIT)) slot st))
           | _ \<Rightarrow> (MsgErr EINTR, st))"

section \<open>The initial state\<close>

definition zero_msqid :: msqid_ds where
  "zero_msqid =
     \<lparr>msg_perm = \<lparr>ip_uid = 0, ip_gid = 0, ip_cuid = 0, ip_cgid = 0, ip_mode = 0, ip_seq = 0, ip_key = 0\<rparr>,
      msg_q = [], msg_cbytes = 0, msg_qnum = 0, msg_qbytes = 0, msg_lspid = 0, msg_lrpid = 0,
      msg_stime = 0, msg_rtime = 0, msg_ctime = 0, msg_wait_list = []\<rparr>"

definition msg_init :: "msginfo \<Rightarrow> msg_state" where
  "msg_init info =
     \<lparr>msgque = replicate (nat (msgmni info)) zero_msqid, cur_msghdrs = 0, msghdr_wait = 0,
      msg_count = 0, msg_asu = False, msg_wakeups = []\<rparr>"

end
