(* ===== verification/Svipc_Msg_Props.thy ===== *)
theory Svipc_Msg_Props
  imports Svipc_Msg
begin

text \<open>
  The message queues as a whole: what each operation does to the table of queues, the
  invariant, and the two contracts of the common IPC code.
\<close>

section \<open>The table after an update\<close>

lemma qp_upd_simps [simp]:
  "msgque (qp_upd f slot st) = (msgque st)[slot := f (msgque st ! slot)]"
  "cur_msghdrs (qp_upd f slot st) = cur_msghdrs st" "msghdr_wait (qp_upd f slot st) = msghdr_wait st"
  "msg_wakeups (qp_upd f slot st) = msg_wakeups st"
  by (simp_all add: qp_upd_def)

lemma msg_wakeup_simps [simp]:
  "msgque (msg_wakeup ch st) = msgque st" "cur_msghdrs (msg_wakeup ch st) = cur_msghdrs st"
  by (simp_all add: msg_wakeup_def)

lemma msg_wakeup_if [simp]:
  "msgque (if b then msg_wakeup ch st else st) = msgque st"
  "cur_msghdrs (if b then msg_wakeup ch st else st) = cur_msghdrs st"
  by simp_all

lemma free_msghdr_simps [simp]:
  "msgque (free_msghdr st) = msgque st" "cur_msghdrs (free_msghdr st) = cur_msghdrs st - 1"
  by (simp_all add: free_msghdr_def Let_def)

text \<open>Clearing a bit that is not set changes nothing.\<close>

lemma mode_clear: "\<not> mode_has b qp \<Longrightarrow> mode_upd (\<lambda>m. m AND NOT b) qp = qp"
proof -
  assume "\<not> mode_has b qp"
  then have z: "ip_mode (msg_perm qp) AND b = 0" by (simp add: mode_has_def)
  have "ip_mode (msg_perm qp) AND NOT b = ip_mode (msg_perm qp)"
  proof (rule bit_word_eqI)
    fix n
    have "\<not> (bit (ip_mode (msg_perm qp)) n \<and> bit b n)"
      using z by (metis bit_0_eq bit_and_iff bot_apply bot_bool_def)
    moreover assume "n < LENGTH(32)"
    ultimately show "bit (ip_mode (msg_perm qp) AND NOT b) n = bit (ip_mode (msg_perm qp)) n"
      by (auto simp: bit_and_iff bit_not_iff)
  qed
  then show ?thesis by (simp add: mode_upd_def)
qed

definition qp_free :: "nat \<Rightarrow> msqid_ds \<Rightarrow> msqid_ds" where
  "qp_free i qp = mode_upd (\<lambda>m. m AND NOT MSG_WWAIT)
     (qp\<lparr>msg_q := take i (msg_q qp) @ drop (Suc i) (msg_q qp), msg_qnum := u64 (msg_qnum qp - 1)\<rparr>)"

lemma msgfree_table:
  assumes "slot < length (msgque st)"
  shows "msgque (msgfree slot i st) = (msgque st)[slot := qp_free i (msgque st ! slot)]"
    and "cur_msghdrs (msgfree slot i st) = cur_msghdrs st - 1"
  using assms by (simp_all add: msgfree_def Let_def qp_free_def mode_clear)

definition qp_put :: "msg_env \<Rightarrow> int \<Rightarrow> int \<Rightarrow> 8 word list \<Rightarrow> msqid_ds \<Rightarrow> msqid_ds" where
  "qp_put env cnt t txt qp = (mode_upd (\<lambda>m. m AND NOT MSG_RWAIT)
     (qp\<lparr>msg_qnum := u64 (msg_qnum qp + 1), msg_cbytes := u16 (msg_cbytes qp + cnt),
        msg_lspid := me_pid env, msg_stime := me_time env,
        msg_q := msg_q qp @ [\<lparr>msg_type = t, msg_ts = cnt, msg_text = txt\<rparr>]\<rparr>))
     \<lparr>msg_wait_list := filter (\<lambda>w. msg_wait_type w \<noteq> t) (msg_wait_list qp)\<rparr>"

lemma wake_type_simps [simp]:
  "fst (wake_type slot t ws st) = filter (\<lambda>w. msg_wait_type w \<noteq> t) ws"
  "msgque (snd (wake_type slot t ws st)) = msgque st"
  "cur_msghdrs (snd (wake_type slot t ws st)) = cur_msghdrs st"
  by (induction ws arbitrary: st) (auto simp: case_prod_beta)

lemma mode_upd_simps [simp]:
  "msg_q (mode_upd f qp) = msg_q qp" "msg_cbytes (mode_upd f qp) = msg_cbytes qp"
  "msg_qnum (mode_upd f qp) = msg_qnum qp" "msg_qbytes (mode_upd f qp) = msg_qbytes qp"
  "msg_wait_list (mode_upd f qp) = msg_wait_list qp" "ip_seq (msg_perm (mode_upd f qp)) = ip_seq (msg_perm qp)"
  "ip_key (msg_perm (mode_upd f qp)) = ip_key (msg_perm qp)"
  "ip_mode (msg_perm (mode_upd f qp)) = f (ip_mode (msg_perm qp))"
  by (simp_all add: mode_upd_def)

lemma msgsnd_put_table:
  assumes "slot < length (msgque st)"
  shows "msgque (msgsnd_put env slot cnt t txt st) = (msgque st)[slot := qp_put env cnt t txt (msgque st ! slot)]"
    and "cur_msghdrs (msgsnd_put env slot cnt t txt st) = cur_msghdrs st"
  using assms by (simp_all add: msgsnd_put_def Let_def case_prod_beta qp_put_def mode_clear)

fun qp_free_all :: "nat \<Rightarrow> msqid_ds \<Rightarrow> msqid_ds" where
  "qp_free_all 0 qp = qp"
| "qp_free_all (Suc n) qp = qp_free_all n (qp_free 0 qp)"

lemma rmid_msgs_table:
  "slot < length (msgque st) \<Longrightarrow> msgque (rmid_msgs slot n st) = (msgque st)[slot := qp_free_all n (msgque st ! slot)]"
  "slot < length (msgque st) \<Longrightarrow> cur_msghdrs (rmid_msgs slot n st) = cur_msghdrs st - int n"
  by (induction n arbitrary: st) (simp_all add: msgfree_table)

lemma wake_waits_simps [simp]:
  "msgque (wake_waits slot ws st) = msgque st" "cur_msghdrs (wake_waits slot ws st) = cur_msghdrs st"
  by (induction ws arbitrary: st) simp_all

lemma qp_free_simps [simp]:
  "msg_q (qp_free i qp) = take i (msg_q qp) @ drop (Suc i) (msg_q qp)"
  "msg_wait_list (qp_free i qp) = msg_wait_list qp" "msg_cbytes (qp_free i qp) = msg_cbytes qp"
  "msg_qbytes (qp_free i qp) = msg_qbytes qp" "ip_seq (msg_perm (qp_free i qp)) = ip_seq (msg_perm qp)"
  "ip_key (msg_perm (qp_free i qp)) = ip_key (msg_perm qp)"
  by (simp_all add: qp_free_def)

lemma qp_free_all_q: "length (msg_q qp) = n \<Longrightarrow> msg_q (qp_free_all n qp) = []"
  by (induction n arbitrary: qp) simp_all

lemma qp_free_all_simps [simp]:
  "ip_seq (msg_perm (qp_free_all n qp)) = ip_seq (msg_perm qp)"
  "msg_qbytes (qp_free_all n qp) = msg_qbytes qp"
  "ip_key (msg_perm (qp_free_all n qp)) = ip_key (msg_perm qp)"
  by (induction n arbitrary: qp) simp_all

definition qp_removed :: "int \<Rightarrow> msqid_ds \<Rightarrow> msqid_ds" where
  "qp_removed seq qp =
     mode_upd (\<lambda>_. 0) ((qp_free_all (length (msg_q qp)) qp)
       \<lparr>msg_cbytes := 0, msg_perm := (msg_perm (qp_free_all (length (msg_q qp)) qp))\<lparr>ip_seq := seq\<rparr>,
        msg_wait_list := []\<rparr>)"

lemma rmid_table:
  assumes "slot < length (msgque st)" "msgconv info (msgque st) msqid = Some slot"
    and "msgctl_rmid_locked info msqid st = (r, d, st')"
  shows "r = Inr 0
    \<and> msgque st' = (msgque st)[slot := qp_removed
        (if s64 (msqid + msgmni info) < 0 then 0 else u16 (ip_seq (msg_perm (msgque st ! slot)) + 1)) (msgque st ! slot)]
    \<and> cur_msghdrs st' = cur_msghdrs st - int (length (msg_q (msgque st ! slot)))"
proof -
  let ?qp = "msgque st ! slot"
  let ?st1 = "rmid_msgs slot (length (msg_q ?qp)) st"
  have t1: "msgque ?st1 = (msgque st)[slot := qp_free_all (length (msg_q ?qp)) ?qp]"
    "cur_msghdrs ?st1 = cur_msghdrs st - int (length (msg_q ?qp))"
    using rmid_msgs_table [OF assms(1)] by simp_all
  show ?thesis
    using assms(3) assms(1)
    unfolding msgctl_rmid_locked_def assms(2) option.case Let_def prod.inject
    by (elim conjE, hypsubst) (simp add: t1 qp_removed_def mode_upd_def)
qed

section \<open>The invariant\<close>

definition msginfo_ok :: "msginfo \<Rightarrow> bool" where
  "msginfo_ok info \<longleftrightarrow>
     0 < msgmni info \<and> msgmni info \<le> 32767 \<and> 0 \<le> msgmax info \<and> msgmax info < 2147483648
     \<and> 0 \<le> msgmnb info \<and> msgmnb info < 2147483648 \<and> 0 \<le> msgtql info \<and> msgtql info < 2147483648"

definition msg_ok :: "msginfo \<Rightarrow> msg \<Rightarrow> bool" where
  "msg_ok info m \<longleftrightarrow>
     1 \<le> msg_type m \<and> 0 \<le> msg_ts m \<and> msg_ts m \<le> msgmax info \<and> int (length (msg_text m)) = msg_ts m"

definition q_bytes :: "msg list \<Rightarrow> int" where
  "q_bytes q = sum_list (map msg_ts q)"

text \<open>The byte count is 16 bits wide: it is the number of bytes queued modulo 65536.\<close>

definition qp_ok :: "msginfo \<Rightarrow> msqid_ds \<Rightarrow> bool" where
  "qp_ok info qp \<longleftrightarrow>
     (\<forall>m\<in>set (msg_q qp). msg_ok info m)
     \<and> msg_cbytes qp = u16 (q_bytes (msg_q qp)) \<and> msg_qnum qp = u64 (int (length (msg_q qp)))
     \<and> 0 \<le> msg_qbytes qp \<and> 0 \<le> ip_seq (msg_perm qp) \<and> ip_seq (msg_perm qp) < 65536
     \<and> distinct (map msg_wait_type (msg_wait_list qp))
     \<and> (\<forall>w\<in>set (msg_wait_list qp). 0 < msg_wait_type w)
     \<and> (\<not> ipc_allocated (msg_perm qp) \<longrightarrow> msg_q qp = [] \<and> msg_wait_list qp = [])"

definition msg_total :: "msqid_ds list \<Rightarrow> int" where
  "msg_total tbl = sum_list (map (\<lambda>qp. int (length (msg_q qp))) tbl)"

definition msg_inv :: "msginfo \<Rightarrow> msg_state \<Rightarrow> bool" where
  "msg_inv info st \<longleftrightarrow>
     length (msgque st) = nat (msgmni info) \<and> (\<forall>qp\<in>set (msgque st). qp_ok info qp)
     \<and> cur_msghdrs st = msg_total (msgque st) \<and> cur_msghdrs st \<le> msgtql info
     \<and> ipc_keys_unique msg_perm (msgque st)"

lemma wrap_add:
  "u16 (u16 a + b) = u16 (a + b)" "u16 (u16 a - b) = u16 (a - b)"
  "u64 (u64 a + b) = u64 (a + b)" "u64 (u64 a - b) = u64 (a - b)"
  "u16 (a + u16 b) = u16 (a + b)" "u64 (a + u64 b) = u64 (a + b)"
  by (simp_all add: u16_def u64_def mod_simps)

lemma sum_upd:
  fixes f :: "'a \<Rightarrow> int"
  shows "k < length xs \<Longrightarrow> sum_list (map f (xs[k := y])) = sum_list (map f xs) - f (xs ! k) + f y"
  by (induction xs arbitrary: k) (auto split: nat.splits)

lemma msg_total_upd:
  "k < length tbl \<Longrightarrow> msg_total (tbl[k := qp]) =
     msg_total tbl - int (length (msg_q (tbl ! k))) + int (length (msg_q qp))"
  by (simp add: msg_total_def sum_upd)

lemma msg_total_nonneg: "0 \<le> msg_total tbl"
  by (auto simp: msg_total_def intro!: sum_list_nonneg)

lemma q_bytes_append [simp]: "q_bytes (q @ q') = q_bytes q + q_bytes q'" "q_bytes [] = 0"
  "q_bytes (m # q) = msg_ts m + q_bytes q"
  by (simp_all add: q_bytes_def)

lemma q_bytes_remove:
  assumes "i < length q"
  shows "q_bytes (take i q @ drop (Suc i) q) = q_bytes q - msg_ts (q ! i)"
proof -
  have "q_bytes q = q_bytes (take i q @ q ! i # drop (Suc i) q)"
    using id_take_nth_drop [OF assms] by simp
  then show ?thesis by simp
qed

text \<open>The mode changes of the facility keep the allocation bit.\<close>

lemma alloc_mode:
  "(m AND NOT MSG_WWAIT) AND IPC_ALLOC = m AND IPC_ALLOC"
  "(m AND NOT MSG_RWAIT) AND IPC_ALLOC = m AND IPC_ALLOC"
  "(m OR MSG_WWAIT) AND IPC_ALLOC = m AND IPC_ALLOC"
  "(m OR MSG_RWAIT) AND IPC_ALLOC = m AND IPC_ALLOC"
  "((m AND NOT 0x1FF) OR (x AND 0x1FF)) AND IPC_ALLOC = m AND IPC_ALLOC"
  for m x :: "32 word"
  by (simp_all add: MSG_WWAIT_def MSG_RWAIT_def IPC_ALLOC_def and.assoc bit.conj_disj_distrib2)

lemma alloc_set: "((m AND - 512) OR (x AND 511)) AND IPC_ALLOC = m AND IPC_ALLOC" for m x :: "32 word"
  using alloc_mode(5) [of m x] by simp

lemma alloc_upd [simp]:
  "ipc_allocated (msg_perm (mode_upd (\<lambda>m. m AND NOT MSG_WWAIT) qp)) = ipc_allocated (msg_perm qp)"
  "ipc_allocated (msg_perm (mode_upd (\<lambda>m. m AND NOT MSG_RWAIT) qp)) = ipc_allocated (msg_perm qp)"
  "ipc_allocated (msg_perm (mode_upd (\<lambda>m. m OR MSG_WWAIT) qp)) = ipc_allocated (msg_perm qp)"
  "ipc_allocated (msg_perm (mode_upd (\<lambda>m. m OR MSG_RWAIT) qp)) = ipc_allocated (msg_perm qp)"
  by (simp_all add: ipc_allocated_def alloc_mode)

lemma qp_free_alloc [simp]:
  "ipc_allocated (msg_perm (qp_free i qp)) = ipc_allocated (msg_perm qp)"
  by (simp add: qp_free_def)

text \<open>A slot is replaced by an entry with the same key (or none) and a shorter or one longer
  queue.\<close>

lemma msg_inv_upd:
  assumes inv: "msg_inv info st" and slot: "slot < length (msgque st)"
    and q: "msgque st' = (msgque st)[slot := qp]" and ok: "qp_ok info qp"
    and cur: "cur_msghdrs st' = cur_msghdrs st - int (length (msg_q (msgque st ! slot))) + int (length (msg_q qp))"
      "cur_msghdrs st' \<le> msgtql info"
    and key: "\<And>key. ipc_has_key msg_perm key qp \<Longrightarrow> ipc_has_key msg_perm key (msgque st ! slot)"
  shows "msg_inv info st'"
  using assms set_list_updateD [of _ "msgque st" slot qp] ipc_keys_unique_upd [of msg_perm "msgque st" slot qp]
  by (auto simp: msg_inv_def msg_total_upd)

lemma msg_inv_slot: "msg_inv info st \<Longrightarrow> slot < length (msgque st) \<Longrightarrow> qp_ok info (msgque st ! slot)"
  by (simp add: msg_inv_def)

section \<open>The IPC contracts\<close>

interpretation msg_fac: ipc_facility msg_perm msg_set_perm
  by unfold_locales (simp add: msg_set_perm_def)

interpretation msg_ids: ipc_ids msg_perm "msgmni info" "msgconv info"
    "\<lambda>d. -2147483648 \<le> d \<and> d < 2147483648"
  for info
proof unfold_locales
  fix tbl :: "msqid_ds list" and d :: int and k
  assume "int (length tbl) = msgmni info" and "-2147483648 \<le> d \<and> d < 2147483648"
  then show "msgconv info tbl d = Some k \<longleftrightarrow>
      0 \<le> d \<and> k = nat (d mod msgmni info) \<and> k < length tbl
      \<and> ipc_allocated (msg_perm (tbl ! k)) \<and> d div msgmni info = ip_seq (msg_perm (tbl ! k))"
    by (auto simp: msgconv_def Let_def aref_def s32_id split: option.splits)
qed

lemma msg_table_length: "msg_inv info st \<Longrightarrow> msginfo_ok info \<Longrightarrow> int (length (msgque st)) = msgmni info"
  by (simp add: msg_inv_def msginfo_ok_def)

lemma msgconv_s32: "msgconv info tbl (s32 d) = msgconv info tbl d"
  by (simp add: msgconv_def s32_def mod_simps)

lemma s32_bounds: "-2147483648 \<le> s32 d \<and> s32 d < 2147483648"
  by (simp add: s32_def)

lemma msgconv_slot:
  assumes "msginfo_ok info" "msg_inv info st" "msgconv info (msgque st) d = Some slot"
  shows "slot < length (msgque st) \<and> ipc_allocated (msg_perm (msgque st ! slot)) \<and> 0 \<le> s32 d
    \<and> s32 d = ip_seq (msg_perm (msgque st ! slot)) * msgmni info + int slot"
  using msg_ids.conv_slot [OF msg_table_length [OF assms(2,1)] s32_bounds, of d slot] assms(3)
  by (simp add: msgconv_s32)

section \<open>Every operation keeps the invariant\<close>

lemma msg_inv_more [simp]:
  "msg_inv info (st\<lparr>msg_count := n\<rparr>) = msg_inv info st" "msg_inv info (st\<lparr>msg_asu := b\<rparr>) = msg_inv info st"
  "msg_inv info (st\<lparr>msghdr_wait := n\<rparr>) = msg_inv info st"
  "msg_inv info (msg_wakeup ch st) = msg_inv info st"
  by (simp_all add: msg_inv_def msg_wakeup_def)

lemma msg_owner_frame: "msg_owner cr p st = (e, st') \<Longrightarrow> \<exists>b. st' = st\<lparr>msg_asu := b\<rparr>"
proof -
  assume "msg_owner cr p st = (e, st')"
  then have "st' = st\<lparr>msg_asu := msg_asu st'\<rparr>"
    by (auto simp: msg_owner_def suser_def split: if_splits)
  then show ?thesis ..
qed

text \<open>An update that keeps the queue and the key of the slot.\<close>

lemma msg_inv_same:
  assumes "msg_inv info st" "slot < length (msgque st)" "qp_ok info (f (msgque st ! slot))"
    and "msg_q (f (msgque st ! slot)) = msg_q (msgque st ! slot)"
    and "ip_key (msg_perm (f (msgque st ! slot))) = ip_key (msg_perm (msgque st ! slot))"
    and "ipc_allocated (msg_perm (f (msgque st ! slot))) = ipc_allocated (msg_perm (msgque st ! slot))"
  shows "msg_inv info (qp_upd f slot st)"
  by (rule msg_inv_upd [OF assms(1,2), where qp = "f (msgque st ! slot)"])
    (use assms in \<open>auto simp: ipc_has_key_def msg_inv_def\<close>)

lemma qp_ok_mode:
  "qp_ok info qp \<Longrightarrow> qp_ok info (mode_upd (\<lambda>m. m AND NOT MSG_WWAIT) qp)"
  "qp_ok info qp \<Longrightarrow> qp_ok info (mode_upd (\<lambda>m. m AND NOT MSG_RWAIT) qp)"
  "qp_ok info qp \<Longrightarrow> qp_ok info (mode_upd (\<lambda>m. m OR MSG_WWAIT) qp)"
  "qp_ok info qp \<Longrightarrow> qp_ok info (mode_upd (\<lambda>m. m OR MSG_RWAIT) qp)"
  by (simp_all add: qp_ok_def)

text \<open>The entry after a message at position \<open>i\<close> was delivered.\<close>

definition qp_take :: "msg_env \<Rightarrow> nat \<Rightarrow> msqid_ds \<Rightarrow> msqid_ds" where
  "qp_take env i qp =
     qp_free i (qp\<lparr>msg_cbytes := u16 (msg_cbytes qp - msg_ts (msg_q qp ! i)), msg_lrpid := me_pid env,
                  msg_rtime := me_time env\<rparr>)"

lemma qp_take_ok:
  assumes "qp_ok info qp" "i < length (msg_q qp)"
  shows "qp_ok info (qp_take env i qp)"
proof -
  have "set (take i (msg_q qp) @ drop (Suc i) (msg_q qp)) \<subseteq> set (msg_q qp)"
    by (auto dest: in_set_takeD in_set_dropD)
  moreover have "length (take i (msg_q qp) @ drop (Suc i) (msg_q qp)) = length (msg_q qp) - 1"
    using assms(2) by simp
  moreover have "u64 (u64 (int (length (msg_q qp))) - 1) = u64 (int (length (msg_q qp) - 1))"
    using assms(2) by (simp add: wrap_add of_nat_diff)
  ultimately show ?thesis
    using assms q_bytes_remove [OF assms(2)]
    by (auto simp: qp_ok_def qp_take_def qp_free_def wrap_add)
qed

lemma rcv_take_table:
  assumes "slot < length (msgque st)" "msgrcv_take env a slot i st = (MsgRet t bs n, st')"
  shows "msgque st' = (msgque st)[slot := qp_take env i (msgque st ! slot)]"
    "cur_msghdrs st' = cur_msghdrs st - 1"
  using assms by (auto simp: msgrcv_take_def Let_def msgfree_table qp_take_def split: if_splits)

lemma rcv_take_inv:
  assumes "msg_inv info st" "slot < length (msgque st)" "i < length (msg_q (msgque st ! slot))"
    and "msgrcv_take env a slot i st = (out, st')"
  shows "msg_inv info st'"
proof (cases out)
  case (MsgRet t bs n)
  note tbl = rcv_take_table [OF assms(2) assms(4) [unfolded MsgRet]]
  show ?thesis
    by (rule msg_inv_upd [OF assms(1,2) tbl(1) qp_take_ok [OF msg_inv_slot [OF assms(1,2)] assms(3)]])
      (use assms tbl in \<open>auto simp: qp_take_def ipc_has_key_def msg_inv_def\<close>)
qed (use assms in \<open>auto simp: msgrcv_take_def Let_def split: if_splits\<close>)

lemma wait_incr_types:
  "wait_incr t ws = Some ws' \<Longrightarrow> map msg_wait_type ws' = map msg_wait_type ws"
  "wait_incr t ws = None \<longleftrightarrow> t \<notin> msg_wait_type ` set ws"
  by (induction ws arbitrary: ws') (auto split: if_splits)

lemma wait_add_types:
  "distinct (map msg_wait_type ws) \<Longrightarrow> distinct (map msg_wait_type (wait_add t ws))"
  "msg_wait_type ` set (wait_add t ws) = insert t (msg_wait_type ` set ws)"
proof -
  show "distinct (map msg_wait_type ws) \<Longrightarrow> distinct (map msg_wait_type (wait_add t ws))"
    using wait_incr_types [of t ws] by (auto simp: wait_add_def split: option.split)
  show "msg_wait_type ` set (wait_add t ws) = insert t (msg_wait_type ` set ws)"
  proof (cases "wait_incr t ws")
    case (Some ws')
    then have "set (map msg_wait_type ws') = set (map msg_wait_type ws)" "t \<in> msg_wait_type ` set ws"
      using wait_incr_types [of t ws] by (metis, metis option.distinct(1))
    with Some show ?thesis by (auto simp: wait_add_def)
  qed (simp add: wait_add_def)
qed

lemma wait_add_pos:
  assumes "\<forall>w\<in>set ws. 0 < msg_wait_type w" "0 < k"
  shows "\<forall>w\<in>set (wait_add k ws). 0 < msg_wait_type w"
proof
  fix w
  assume "w \<in> set (wait_add k ws)"
  then have "msg_wait_type w \<in> insert k (msg_wait_type ` set ws)"
    using wait_add_types(2) [of k ws] by blast
  then show "0 < msg_wait_type w" using assms by auto
qed

lemma wait_drop_subset: "set (map msg_wait_type (wait_drop t ws)) \<subseteq> set (map msg_wait_type ws)"
  by (induction ws) auto

lemma wait_drop_distinct: "distinct (map msg_wait_type ws) \<Longrightarrow> distinct (map msg_wait_type (wait_drop t ws))"
  using wait_drop_subset by (induction ws) fastforce+

lemma rcv_wait_inv:
  assumes "msg_inv info st" "slot < length (msgque st)" "ipc_allocated (msg_perm (msgque st ! slot))"
    and "msgrcv_wait a slot st = (out, st')"
  shows "msg_inv info st'"
proof -
  note ok = msg_inv_slot [OF assms(1,2)]
  have "msg_inv info (qp_upd (\<lambda>qp. qp\<lparr>msg_wait_list := wait_add k (msg_wait_list qp)\<rparr>) slot st)" if "0 < k" for k
    by (rule msg_inv_same [OF assms(1,2)]) 
      (use ok that assms(3) wait_add_types(1) wait_add_pos [of "msg_wait_list (msgque st ! slot)" k]
        in \<open>simp_all add: qp_ok_def\<close>)
  moreover have "msg_inv info (qp_upd (mode_upd (\<lambda>m. m OR MSG_RWAIT)) slot st)"
    by (rule msg_inv_same [OF assms(1,2)]) (use ok in \<open>auto simp: qp_ok_mode\<close>)
  ultimately show ?thesis
    using assms(1,4) by (auto simp: msgrcv_wait_def split: if_splits)
qed

lemma msg_search_range:
  "msg_search t i best q = Some (j, y) \<Longrightarrow> best = Some (j, y) \<or> i \<le> j \<and> j < i + length q"
  by (induction q arbitrary: i best) (fastforce split: if_splits option.splits)+

lemma msg_select_range: "msg_select t q = Some i \<Longrightarrow> i < length q"
  using msg_search_range [of t 0 None q] by (auto simp: msg_select_def split: if_splits)

lemma msgrcv_pass_inv:
  assumes "msginfo_ok info" "msg_inv info st" "msgrcv_pass env info fp a st = (out, st')"
  shows "msg_inv info st'"
proof (cases "msgconv info (msgque st) (rc_msqid a)")
  case None
  with assms show ?thesis by (simp add: msgrcv_pass_def)
next
  case (Some slot)
  note c = msgconv_slot [OF assms(1,2) Some]
  show ?thesis
    using assms Some c
    by (auto simp: msgrcv_pass_def Let_def split: if_splits option.splits
        dest: msg_select_range intro: rcv_take_inv rcv_wait_inv)
qed

lemma msgrcv_resume_inv:
  assumes "msginfo_ok info" "msg_inv info st" "msgrcv_resume env info a i st = (out, st')"
  shows "msg_inv info st'"
proof (cases "i \<and> rc_msgtyp a > 0 \<and> msgconv info (msgque st) (rc_msqid a) \<noteq> None")
  case True
  then obtain slot where slot: "msgconv info (msgque st) (rc_msqid a) = Some slot" by auto
  note c = msgconv_slot [OF assms(1,2) slot]
  note ok = msg_inv_slot [OF assms(2) conjunct1 [OF c]]
  have d: "\<forall>w\<in>set (wait_drop k ws). 0 < msg_wait_type w" if "\<forall>w\<in>set ws. 0 < msg_wait_type w"
    for ws :: "msg_wait list" and k
    using wait_drop_subset [of k ws] that by (auto simp: image_subset_iff)
  have "msg_inv info (qp_upd (\<lambda>qp. qp\<lparr>msg_wait_list := wait_drop k (msg_wait_list qp)\<rparr>) slot st)" for k
    by (rule msg_inv_same [OF assms(2) conjunct1 [OF c]])
      (use ok c d [of "msg_wait_list (msgque st ! slot)" k] wait_drop_distinct in \<open>simp_all add: qp_ok_def\<close>)
  with True slot assms(3) show ?thesis by (auto simp: msgrcv_resume_def)
next
  case False
  with assms msgrcv_pass_inv [OF assms(1,2)] show ?thesis
    by (auto simp: msgrcv_resume_def split: if_splits)
qed

lemma qp_put_perm [simp]:
  "ipc_allocated (msg_perm (qp_put env cnt t bs qp)) = ipc_allocated (msg_perm qp)"
  "ip_seq (msg_perm (qp_put env cnt t bs qp)) = ip_seq (msg_perm qp)"
  "msg_q (qp_put env cnt t bs qp) = msg_q qp @ [\<lparr>msg_type = t, msg_ts = cnt, msg_text = bs\<rparr>]"
  by (simp_all add: qp_put_def ipc_allocated_def alloc_mode)

text \<open>A sender supplies as many bytes as it announces.\<close>

definition snd_ok :: "snd_args \<Rightarrow> bool" where
  "snd_ok a \<longleftrightarrow> (\<forall>bs. sn_text a = Some bs \<longrightarrow> s32 (sn_msgsz a) \<le> int (length bs))"

lemma qp_put_ok:
  assumes "qp_ok info qp" "ipc_allocated (msg_perm qp)"
    and "1 \<le> t" "0 \<le> cnt" "cnt \<le> msgmax info" "int (length bs) = cnt"
  shows "qp_ok info (qp_put env cnt t bs qp)"
  using assms
  by (auto simp: qp_ok_def qp_put_def wrap_add msg_ok_def add.commute ipc_allocated_def alloc_mode
      intro: distinct_map_filter)

lemma msgsnd_put_inv:
  assumes inv: "msg_inv info st" and slot: "slot < length (msgque st)" "ipc_allocated (msg_perm (msgque st ! slot))"
    and m: "1 \<le> t" "0 \<le> cnt" "cnt \<le> msgmax info" "int (length bs) = cnt" and room: "cur_msghdrs st < msgtql info"
  shows "msg_inv info (msgsnd_put env slot cnt t bs (st\<lparr>cur_msghdrs := cur_msghdrs st + 1\<rparr>))"
proof -
  let ?st = "st\<lparr>cur_msghdrs := cur_msghdrs st + 1\<rparr>"
  let ?qp = "qp_put env cnt t bs (msgque st ! slot)"
  have "msgque (msgsnd_put env slot cnt t bs ?st) = (msgque st)[slot := ?qp]"
    "cur_msghdrs (msgsnd_put env slot cnt t bs ?st) = cur_msghdrs st + 1"
    using slot(1) by (simp_all add: msgsnd_put_table)
  moreover have "qp_ok info ?qp"
    using qp_put_ok [OF msg_inv_slot [OF inv slot(1)] slot(2) m] .
  moreover have "ipc_has_key msg_perm key ?qp \<Longrightarrow> ipc_has_key msg_perm key (msgque st ! slot)" for key
    by (simp add: ipc_has_key_def qp_put_def ipc_allocated_def alloc_mode)
  moreover have "length (msg_q ?qp) = length (msg_q (msgque st ! slot)) + 1" by (simp add: qp_put_def)
  ultimately show ?thesis
    using msg_inv_upd [OF inv slot(1), of "msgsnd_put env slot cnt t bs ?st" ?qp] room by simp
qed

lemma msgsnd_pass_inv:
  assumes info: "msginfo_ok info" and inv: "msg_inv info st" and a: "snd_ok a"
    and r: "msgsnd_pass env info fp a st = (out, st')"
  shows "msg_inv info st'"
proof (cases "msgconv info (msgque st) (sn_msqid a)")
  case None
  with inv r show ?thesis by (simp add: msgsnd_pass_def)
next
  case (Some slot)
  note c = msgconv_slot [OF info inv Some]
  have wait: "msg_inv info (qp_upd (mode_upd (\<lambda>m. m OR MSG_WWAIT)) slot st)"
    by (rule msg_inv_same [OF inv]) (use c msg_inv_slot [OF inv] in \<open>auto simp: qp_ok_mode\<close>)
  have fail: "msg_inv info (free_msghdr (st\<lparr>cur_msghdrs := cur_msghdrs st + 1\<rparr>))"
    using inv by (simp add: msg_inv_def)
  have len: "int (length (take (nat (s32 (sn_msgsz a))) bs)) = s32 (sn_msgsz a)"
    if "sn_text a = Some bs" "0 \<le> s32 (sn_msgsz a)" for bs
    using a that by (auto simp: snd_ok_def)
  show ?thesis
    using r Some inv c wait fail len
    by (auto simp: msgsnd_pass_def Let_def not_less not_le split: if_splits option.splits
        intro!: msgsnd_put_inv)
qed

lemma msgsnd_resume_inv:
  assumes "msginfo_ok info" "msg_inv info st" "snd_ok a" "msgsnd_resume env info a ch i st = (out, st')"
  shows "msg_inv info st'"
proof -
  have "msg_inv info (qp_upd (mode_upd (\<lambda>m. m AND NOT MSG_WWAIT)) slot st)" for slot
  proof (cases "slot < length (msgque st)")
    case True
    show ?thesis
      by (rule msg_inv_same [OF assms(2) True]) (use True msg_inv_slot [OF assms(2)] in \<open>auto simp: qp_ok_mode\<close>)
  next
    case False
    then have "qp_upd (mode_upd (\<lambda>m. m AND NOT MSG_WWAIT)) slot st = st"
      by (simp add: qp_upd_def list_update_beyond)
    then show ?thesis using assms(2) by simp
  qed
  then show ?thesis
    using assms msgsnd_pass_inv by (auto simp: msgsnd_resume_def split: if_splits msg_chan.splits)
qed

lemma qp_removed_ok:
  assumes "qp_ok info qp" "0 \<le> seq" "seq < 65536"
  shows "qp_ok info (qp_removed seq qp)" "msg_q (qp_removed seq qp) = []"
    "\<not> ipc_allocated (msg_perm (qp_removed seq qp))"
proof -
  have n: "msg_qnum (qp_free_all n qp) = u64 (msg_qnum qp - int n)" if "length (msg_q qp) = n" "0 < n" for n qp
    using that
  proof (induction n arbitrary: qp)
    case (Suc n)
    show ?case
    proof (cases n)
      case (Suc m)
      with Suc.IH [of "qp_free 0 qp"] Suc.prems show ?thesis by (simp add: qp_free_def wrap_add algebra_simps)
    qed (simp add: qp_free_def)
  qed simp
  have q: "msg_q (qp_free_all (length (msg_q qp)) qp) = []" by (rule qp_free_all_q) simp
  have num: "msg_qnum (qp_free_all (length (msg_q qp)) qp) = 0"
  proof (cases "msg_q qp = []")
    case False
    then show ?thesis using n [of qp "length (msg_q qp)"] assms(1) by (simp add: qp_ok_def wrap_add) (simp add: u64_def)
  qed (use assms(1) in \<open>simp add: qp_ok_def u64_def\<close>)
  show "msg_q (qp_removed seq qp) = []" "\<not> ipc_allocated (msg_perm (qp_removed seq qp))"
    by (simp_all add: qp_removed_def q ipc_allocated_def)
  show "qp_ok info (qp_removed seq qp)"
    using assms by (simp add: qp_ok_def qp_removed_def q num ipc_allocated_def u16_def u64_def)
qed

lemma rmid_locked_inv:
  assumes info: "msginfo_ok info" and inv: "msg_inv info st"
    and r: "msgctl_rmid_locked info msqid st = (res, d, st')"
  shows "msg_inv info st'"
proof (cases "msgconv info (msgque st) msqid")
  case None
  with inv r show ?thesis by (simp add: msgctl_rmid_locked_def)
next
  case (Some slot)
  note c = msgconv_slot [OF info inv Some]
  note t = rmid_table [OF conjunct1 [OF c] Some r]
  define seq where "seq = (if s64 (msqid + msgmni info) < 0 then 0 else u16 (ip_seq (msg_perm (msgque st ! slot)) + 1))"
  have "0 \<le> seq" "seq < 65536" by (simp_all add: seq_def)
  note ok = qp_removed_ok [OF msg_inv_slot [OF inv conjunct1 [OF c]] this]
  have total: "0 \<le> msg_total ((msgque st)[slot := qp_removed seq (msgque st ! slot)])" by (rule msg_total_nonneg)
  show ?thesis
    by (rule msg_inv_upd [OF inv conjunct1 [OF c], of st' "qp_removed seq (msgque st ! slot)"])
      (use t ok inv in \<open>auto simp: seq_def [symmetric] ipc_has_key_def msg_inv_def\<close>)
qed

lemma msgctl_set_inv:
  assumes info: "msginfo_ok info" and inv: "msg_inv info st" and slot: "slot < length (msgque st)"
    and r: "msgctl_set env slot uds st = (res, d, st')"
  shows "msg_inv info st'"
proof -
  obtain e st1 where o: "msg_owner (me_cred env) (msg_perm (msgque st ! slot)) st = (e, st1)" by fastforce
  then obtain b where st1: "st1 = st\<lparr>msg_asu := b\<rparr>" using msg_owner_frame by blast
  have upd: "msg_inv info (qp_upd (\<lambda>qp. qp\<lparr>msg_perm := (msg_perm qp)
         \<lparr>ip_uid := ip_uid (msg_perm ds), ip_gid := ip_gid (msg_perm ds),
          ip_mode := (ip_mode (msg_perm qp) AND NOT 0x1FF) OR (ip_mode (msg_perm ds) AND 0x1FF)\<rparr>,
         msg_qbytes := u64 (msg_qbytes ds), msg_ctime := me_time env\<rparr>) slot (st1\<lparr>msg_asu := x\<rparr>))" for ds x
    by (rule msg_inv_same)
      (use inv slot msg_inv_slot [OF inv slot] in
        \<open>simp_all add: st1 qp_ok_def ipc_allocated_def alloc_set u64_def\<close>)
  show ?thesis
    using r o inv upd by (auto simp: msgctl_set_def st1 split: option.splits prod.splits)
qed

lemma msgctl_inv:
  assumes info: "msginfo_ok info" and inv: "msg_inv info st"
    and r: "msgctl env info uds c msqid cmd st = (res, d, st')"
  shows "msg_inv info st'"
proof (cases "msgconv info (msgque st) msqid")
  case None
  with inv r show ?thesis by (simp add: msgctl_def)
next
  case (Some slot)
  note s = msgconv_slot [OF info inv Some]
  obtain e st1 where o: "msg_owner (me_cred env) (msg_perm (msgque st ! slot)) st = (e, st1)" by fastforce
  then obtain b where st1: "st1 = st\<lparr>msg_asu := b\<rparr>" using msg_owner_frame by blast
  have rmid: "msgctl_rmid env info msqid slot st = (res, d, st') \<Longrightarrow> msg_inv info st'"
    using o inv rmid_locked_inv [OF info, of st1 msqid res d st']
    by (auto simp: msgctl_rmid_def st1 split: option.splits)
  show ?thesis
    using r Some inv rmid msgctl_set_inv [OF info inv, of slot env uds res d st'] s
    by (auto simp: msgctl_def msgctl_stat_def Let_def split: if_splits)
qed

lemma msgget_inv:
  assumes info: "msginfo_ok info" and inv: "msg_inv info st"
    and r: "msgget env info key flg st = (res, st')"
  shows "msg_inv info st'"
proof (cases "ipcget msg_perm msg_set_perm (me_cred env) (s32 key) flg (msgque st)")
  case (Inl e)
  then show ?thesis using inv r by (simp add: msgget_def)
next
  case (Inr x)
  obtain s slot tbl where x: "x = (s, slot, tbl)" by (cases x)
  show ?thesis
  proof (cases s)
    case False
    with Inr x have "tbl = msgque st" using msg_fac.ipcget_old by simp
    then show ?thesis using Inr x r False inv by (auto simp: msgget_def Let_def)
  next
    case True
    define qp where "qp = msgque st ! slot"
    define p where "p = ipc_init (me_cred env) (s32 key) flg (msg_perm qp)"
    have new: "slot < length (msgque st)" "tbl = (msgque st)[slot := msg_set_perm p qp]"
      "\<not> ipc_allocated (msg_perm qp)" "s32 key \<noteq> IPC_PRIVATE \<longrightarrow> (\<forall>b\<in>set (msgque st). \<not> ipc_has_key msg_perm (s32 key) b)"
      using msg_fac.ipcget_new Inr [unfolded x] True by (auto simp: p_def qp_def)
    define qp' where "qp' = (msg_set_perm p qp)\<lparr>msg_q := [], msg_qnum := 0, msg_qbytes := u64 (msgmnb info),
        msg_lspid := 0, msg_lrpid := 0, msg_stime := 0, msg_rtime := 0, msg_ctime := me_time env\<rparr>"
    have st': "msgque st' = (msgque st)[slot := qp']" "cur_msghdrs st' = cur_msghdrs st"
      using r Inr x True new by (auto simp: msgget_def Let_def qp'_def)
    have ok: "qp_ok info qp" using msg_inv_slot [OF inv new(1)] by (simp add: qp_def)
    then have ok': "qp_ok info qp'" and q: "msg_q qp = []"
      using new(3) by (simp_all add: qp_ok_def qp'_def msg_set_perm_def p_def) (simp_all add: u64_def)
    have "ipc_keys_unique msg_perm ((msgque st)[slot := msg_set_perm p qp])"
      using msg_fac.ipcget_keys_unique [of "msgque st"] inv Inr x new(2) by (simp add: msg_inv_def)
    moreover have "map msg_perm ((msgque st)[slot := qp']) = map msg_perm ((msgque st)[slot := msg_set_perm p qp])"
      by (simp add: map_update qp'_def)
    ultimately have "ipc_keys_unique msg_perm (msgque st')" using ipc_keys_unique_cong st'(1) by metis
    then show ?thesis
      using inv st' ok' q new(1) set_list_updateD [of _ "msgque st" slot qp']
      by (auto simp: msg_inv_def msg_total_upd qp_def) (simp_all add: qp'_def msg_set_perm_def)
  qed
qed

section \<open>Steps and reachable states\<close>

text \<open>A step is a system call up to its end or sleep, the end of a sleep, or the part of
  \<open>IPC_RMID\<close> after the lock was waited for.\<close>

inductive msg_step :: "msginfo \<Rightarrow> msg_state \<Rightarrow> msg_state \<Rightarrow> bool" for info where
  mstep_snd: "msgsnd env info a st = (out, st') \<Longrightarrow> snd_ok a \<Longrightarrow> msg_step info st st'"
| mstep_snd_resume: "msgsnd_resume env info a ch i st = (out, st') \<Longrightarrow> snd_ok a \<Longrightarrow> msg_step info st st'"
| mstep_rcv: "msgrcv env info b st = (out, st') \<Longrightarrow> msg_step info st st'"
| mstep_rcv_resume: "msgrcv_resume env info b i st = (out, st') \<Longrightarrow> msg_step info st st'"
| mstep_ctl: "msgctl env info uds c msqid cmd st = (res, d, st') \<Longrightarrow> msg_step info st st'"
| mstep_rmid: "msgctl_rmid_locked info msqid st = (res, d, st') \<Longrightarrow> msg_step info st st'"
| mstep_get: "msgget env info key flg st = (r, st') \<Longrightarrow> msg_step info st st'"


inductive msg_reach :: "msginfo \<Rightarrow> msg_state \<Rightarrow> bool" for info where
  mreach_init: "msg_reach info (msg_init info)"
| mreach_step: "msg_reach info st \<Longrightarrow> msg_step info st st' \<Longrightarrow> msg_reach info st'"

lemma msg_init_inv: "msginfo_ok info \<Longrightarrow> msg_inv info (msg_init info)"
  by (auto simp: msg_inv_def msg_init_def qp_ok_def zero_msqid_def u16_def u64_def ipc_allocated_def
      msg_total_def sum_list_replicate ipc_keys_unique_def ipc_has_key_def msginfo_ok_def)

lemma msg_step_inv:
  assumes "msginfo_ok info" "msg_inv info st" "msg_step info st st'"
  shows "msg_inv info st'"
  using assms(3)
proof cases
  case mstep_snd
  then show ?thesis using msgsnd_pass_inv [OF assms(1,2)] by (simp add: msgsnd_def)
next
  case mstep_snd_resume
  then show ?thesis using msgsnd_resume_inv [OF assms(1,2)] by blast
next
  case mstep_rcv
  then show ?thesis using msgrcv_pass_inv [OF assms(1,2)] by (simp add: msgrcv_def)
next
  case mstep_rcv_resume
  then show ?thesis using msgrcv_resume_inv [OF assms(1,2)] by blast
next
  case mstep_ctl
  then show ?thesis using msgctl_inv [OF assms(1,2)] by blast
next
  case mstep_rmid
  then show ?thesis using rmid_locked_inv [OF assms(1,2)] by blast
next
  case mstep_get
  then show ?thesis using msgget_inv [OF assms(1,2)] by blast
qed

lemma msg_reach_inv: "msg_reach info st \<Longrightarrow> msginfo_ok info \<Longrightarrow> msg_inv info st"
  by (induction rule: msg_reach.induct) (auto intro: msg_init_inv msg_step_inv)

end
