(* ===== verification/Svipc_Msg_Wait.thy ===== *)
theory Svipc_Msg_Wait
  imports Svipc_Msg_Props
begin

text \<open>
  The message queues with the processes that sleep in them.  A wake-up moves the sleepers of its
  channel to those that are about to run again; the wait structures, the marks in the mode and the
  count of waiters for headers agree with the sleepers that have not been woken.
\<close>

section \<open>Sleepers\<close>

datatype msg_call = RcvCall rcv_args | SndCall snd_args

record msg_sleeper =
  sl_call :: msg_call
  sl_chan :: msg_chan

definition asleep :: "msg_call \<Rightarrow> msg_outcome \<Rightarrow> msg_sleeper list" where
  "asleep c out = (case out of MsgSleep ch \<Rightarrow> [\<lparr>sl_call = c, sl_chan = ch\<rparr>] | _ \<Rightarrow> [])"

text \<open>The channels that were woken between two states, and the sleepers that sleep on.\<close>

definition woken_chans :: "msg_state \<Rightarrow> msg_state \<Rightarrow> msg_chan set" where
  "woken_chans st st' = set (drop (length (msg_wakeups st)) (msg_wakeups st'))"

definition still :: "msg_state \<Rightarrow> msg_state \<Rightarrow> msg_sleeper list \<Rightarrow> msg_sleeper list" where
  "still st st' sl = filter (\<lambda>s. sl_chan s \<notin> woken_chans st st') sl"

definition woken :: "msg_state \<Rightarrow> msg_state \<Rightarrow> msg_sleeper list \<Rightarrow> msg_sleeper list" where
  "woken st st' sl = filter (\<lambda>s. sl_chan s \<in> woken_chans st st') sl"

text \<open>
  The runs of the facility: the state, the calls asleep, and the calls that were woken and have
  not run yet.  A call that sleeps goes on when it was woken, or is interrupted before it is woken.
\<close>

inductive msg_run :: "msginfo \<Rightarrow> msg_state \<Rightarrow> msg_sleeper list \<Rightarrow> msg_sleeper list \<Rightarrow> bool" for info where
  mrun_init: "msg_run info (msg_init info) [] []"
| mrun_snd: "msg_run info st sl wk \<Longrightarrow> msgsnd env info a st = (out, st') \<Longrightarrow> snd_ok a \<Longrightarrow>
    msg_run info st' (asleep (SndCall a) out @ still st st' sl) (woken st st' sl @ wk)"
| mrun_rcv: "msg_run info st sl wk \<Longrightarrow> msgrcv env info b st = (out, st') \<Longrightarrow>
    msg_run info st' (asleep (RcvCall (rcv_tag env b)) out @ still st st' sl) (woken st st' sl @ wk)"
| mrun_snd_again: "msg_run info st sl wk \<Longrightarrow> s \<in> set wk \<Longrightarrow> sl_call s = SndCall a \<Longrightarrow> snd_ok a \<Longrightarrow>
    msgsnd_resume env info a (sl_chan s) False st = (out, st') \<Longrightarrow>
    msg_run info st' (asleep (SndCall a) out @ still st st' sl) (woken st st' sl @ remove1 s wk)"
| mrun_rcv_again: "msg_run info st sl wk \<Longrightarrow> s \<in> set wk \<Longrightarrow> sl_call s = RcvCall b \<Longrightarrow>
    msgrcv_resume env info b False st = (out, st') \<Longrightarrow>
    msg_run info st' (asleep (RcvCall b) out @ still st st' sl) (woken st st' sl @ remove1 s wk)"
| mrun_snd_intr: "msg_run info st sl wk \<Longrightarrow> s \<in> set sl \<Longrightarrow> sl_call s = SndCall a \<Longrightarrow> snd_ok a \<Longrightarrow>
    msgsnd_resume env info a (sl_chan s) True st = (out, st') \<Longrightarrow>
    msg_run info st' (still st st' (remove1 s sl)) (woken st st' (remove1 s sl) @ wk)"
| mrun_rcv_intr: "msg_run info st sl wk \<Longrightarrow> s \<in> set sl \<Longrightarrow> sl_call s = RcvCall b \<Longrightarrow>
    msgrcv_resume env info b True st = (out, st') \<Longrightarrow>
    msg_run info st' (still st st' (remove1 s sl)) (woken st st' (remove1 s sl) @ wk)"
| mrun_ctl: "msg_run info st sl wk \<Longrightarrow> msgctl env info uds c msqid cmd st = (res, d, st') \<Longrightarrow>
    msg_run info st' (still st st' sl) (woken st st' sl @ wk)"
| mrun_rmid: "msg_run info st sl wk \<Longrightarrow> msgctl_rmid_locked info msqid st = (res, d, st') \<Longrightarrow>
    msg_run info st' (still st st' sl) (woken st st' sl @ wk)"
| mrun_get: "msg_run info st sl wk \<Longrightarrow> msgget env info key flg st = (r, st') \<Longrightarrow>
    msg_run info st' (still st st' sl) (woken st st' sl @ wk)"

lemma msg_run_reach: "msg_run info st sl wk \<Longrightarrow> msg_reach info st"
  by (induction rule: msg_run.induct) (auto intro: mreach_init mreach_step msg_step.intros)

section \<open>Why a call sleeps\<close>

text \<open>No message is one a receiver for \<open>typ\<close> may have.\<close>

definition none_for :: "int \<Rightarrow> msg list \<Rightarrow> bool" where
  "none_for typ q \<longleftrightarrow> (\<forall>m\<in>set q. if typ > 0 then msg_type m \<noteq> typ else typ \<noteq> 0 \<and> msg_type m > s64 (- typ))"

lemma msg_search_best: "msg_search t i (Some b) q \<noteq> None"
  by (induction q arbitrary: i b) (auto split: option.splits)

lemma msg_search_None: "msg_search t i None q = None \<longleftrightarrow> (\<forall>m\<in>set q. if t > 0 then msg_type m \<noteq> t else msg_type m > s64 (- t))"
  by (induction q arbitrary: i) (auto simp: msg_search_best)

lemma msg_select_None: "msg_select t q = None \<longleftrightarrow> none_for t q"
  by (auto simp: msg_select_def none_for_def msg_search_None)

lemma none_for_subset: "none_for t q \<Longrightarrow> set q' \<subseteq> set q \<Longrightarrow> none_for t q'"
  by (auto simp: none_for_def)

definition wait_cnt :: "int \<Rightarrow> msg_wait list \<Rightarrow> int" where
  "wait_cnt t ws = sum_list (map msg_wait_cnt (filter (\<lambda>w. msg_wait_type w = t) ws))"

definition sleeps_on :: "msg_chan \<Rightarrow> msg_sleeper list \<Rightarrow> int" where
  "sleeps_on ch sl = int (length (filter (\<lambda>s. sl_chan s = ch) sl))"

definition has_reason :: "msginfo \<Rightarrow> msg_state \<Rightarrow> msg_sleeper \<Rightarrow> bool" where
  "has_reason info st s \<longleftrightarrow>
     (case (sl_call s, sl_chan s) of
        (RcvCall a, MWait slot t) \<Rightarrow> t = rc_msgtyp a \<and> 0 < t \<and> msgconv info (msgque st) (rc_msqid a) = Some slot
          \<and> none_for t (msg_q (msgque st ! slot))
      | (RcvCall a, MRead slot) \<Rightarrow> \<not> 0 < rc_msgtyp a \<and> msgconv info (msgque st) (rc_msqid a) = Some slot
          \<and> none_for (rc_msgtyp a) (msg_q (msgque st ! slot)) \<and> mode_has MSG_RWAIT (msgque st ! slot)
      | (SndCall a, MWrite slot) \<Rightarrow> msgconv info (msgque st) (sn_msqid a) = Some slot \<and> mode_has MSG_WWAIT (msgque st ! slot)
      | (SndCall a, MHdr) \<Rightarrow> 0 < msghdr_wait st \<and> msgtql info \<le> cur_msghdrs st
      | _ \<Rightarrow> False)"

definition waits_ok :: "msginfo \<Rightarrow> msg_state \<Rightarrow> msg_sleeper list \<Rightarrow> bool" where
  "waits_ok info st sl \<longleftrightarrow>
     (\<forall>slot<length (msgque st). (\<forall>t. wait_cnt t (msg_wait_list (msgque st ! slot)) = sleeps_on (MWait slot t) sl)
        \<and> (\<forall>w\<in>set (msg_wait_list (msgque st ! slot)). 0 < msg_wait_cnt w))
     \<and> (\<forall>s\<in>set sl. has_reason info st s) \<and> 0 \<le> msghdr_wait st"

lemma waits_okD:
  assumes "waits_ok info st sl"
  shows "slot < length (msgque st) \<Longrightarrow> wait_cnt t (msg_wait_list (msgque st ! slot)) = sleeps_on (MWait slot t) sl"
    "slot < length (msgque st) \<Longrightarrow> w \<in> set (msg_wait_list (msgque st ! slot)) \<Longrightarrow> 0 < msg_wait_cnt w"
    "s \<in> set sl \<Longrightarrow> has_reason info st s" "0 \<le> msghdr_wait st"
  using assms unfolding waits_ok_def by blast+

lemma sleeps_on_simps [simp]:
  "sleeps_on ch [] = 0" "sleeps_on ch (s # sl) = (if sl_chan s = ch then 1 else 0) + sleeps_on ch sl"
  "sleeps_on ch (sl @ sl') = sleeps_on ch sl + sleeps_on ch sl'"
  by (simp_all add: sleeps_on_def)

lemma sleeps_on_none: "sleeps_on ch sl = 0 \<longleftrightarrow> (\<forall>s\<in>set sl. sl_chan s \<noteq> ch)"
  by (simp add: sleeps_on_def filter_empty_conv)

lemma sleeps_on_filter: "sleeps_on ch (filter (\<lambda>s. sl_chan s \<notin> W) sl) = (if ch \<in> W then 0 else sleeps_on ch sl)"
  by (induction sl) auto

lemma sleeps_on_remove: "s \<in> set sl \<Longrightarrow> sleeps_on ch (remove1 s sl) = sleeps_on ch sl - (if sl_chan s = ch then 1 else 0)"
  by (induction sl) auto

text \<open>The queue a sleeper waits for.\<close>

definition chan_slot :: "msg_chan \<Rightarrow> nat option" where
  "chan_slot ch = (case ch of MWait slot t \<Rightarrow> Some slot | MRead slot \<Rightarrow> Some slot | MWrite slot \<Rightarrow> Some slot | MHdr \<Rightarrow> None)"

lemma msgconv_upd_other: "msgconv info tbl d = Some k \<Longrightarrow> k \<noteq> slot \<Longrightarrow> msgconv info (tbl[slot := qp]) d = Some k"
  by (auto simp: msgconv_def Let_def aref_def split: if_splits option.splits)

lemma msgconv_upd_same:
  "msgconv info tbl d = Some slot \<Longrightarrow> ipc_allocated (msg_perm qp) = ipc_allocated (msg_perm (tbl ! slot)) \<Longrightarrow>
     ip_seq (msg_perm qp) = ip_seq (msg_perm (tbl ! slot)) \<Longrightarrow> msgconv info (tbl[slot := qp]) d = Some slot"
  by (auto simp: msgconv_def Let_def aref_def nth_list_update split: if_splits option.splits)

text \<open>A change of one queue, after which the sleepers \<open>sl'\<close> are left.\<close>

lemma waits_ok_upd:
  assumes ok: "waits_ok info st sl" and slot: "slot < length (msgque st)" and q: "msgque st' = (msgque st)[slot := qp]"
    and sl': "\<And>s. s \<in> set sl' \<Longrightarrow> s \<in> set sl \<or> has_reason info st' s"
    and other: "\<And>k t. k \<noteq> slot \<Longrightarrow> sleeps_on (MWait k t) sl' = sleeps_on (MWait k t) sl"
    and cnt: "\<And>t. wait_cnt t (msg_wait_list qp) = sleeps_on (MWait slot t) sl'"
      "\<And>w. w \<in> set (msg_wait_list qp) \<Longrightarrow> 0 < msg_wait_cnt w"
    and here: "\<And>s. s \<in> set sl' \<Longrightarrow> s \<in> set sl \<Longrightarrow> has_reason info st s \<Longrightarrow> chan_slot (sl_chan s) = Some slot \<Longrightarrow> has_reason info st' s"
    and hdr: "\<And>s. s \<in> set sl' \<Longrightarrow> s \<in> set sl \<Longrightarrow> sl_chan s = MHdr \<Longrightarrow> 0 < msghdr_wait st' \<and> msgtql info \<le> cur_msghdrs st'"
      "0 \<le> msghdr_wait st'"
  shows "waits_ok info st' sl'"
proof -
  have "has_reason info st' s" if s: "s \<in> set sl'" for s
  proof (cases "s \<in> set sl \<and> chan_slot (sl_chan s) \<noteq> Some slot")
    case True
    note r = waits_okD(3) [OF ok conjunct1 [OF True]]
    show ?thesis
    proof (cases "sl_chan s = MHdr")
      case hd: True
      then show ?thesis using r hdr(1) [OF s conjunct1 [OF True] hd] by (simp add: has_reason_def split: msg_call.splits)
    next
      case False
      then show ?thesis using r True msgconv_upd_other
        by (auto simp: has_reason_def chan_slot_def q split: msg_call.splits msg_chan.splits)
    qed
  next
    case False
    then show ?thesis using sl' [OF s] here [OF s] waits_okD(3) [OF ok] by blast
  qed
  moreover have "(\<forall>t. wait_cnt t (msg_wait_list (msgque st' ! k)) = sleeps_on (MWait k t) sl')
      \<and> (\<forall>w\<in>set (msg_wait_list (msgque st' ! k)). 0 < msg_wait_cnt w)" if "k < length (msgque st')" for k
  proof (cases "k = slot")
    case True
    then show ?thesis using cnt slot by (simp add: q)
  next
    case False
    then show ?thesis using waits_okD(1,2) [OF ok, of k] that other by (simp add: q)
  qed
  ultimately show ?thesis using hdr(2) unfolding waits_ok_def by blast
qed

text \<open>A change outside the queues and the headers.\<close>

lemma waits_ok_cong:
  assumes "msgque st' = msgque st" "cur_msghdrs st' = cur_msghdrs st" "msghdr_wait st' = msghdr_wait st"
  shows "waits_ok info st' sl = waits_ok info st sl"
proof -
  have "has_reason info st' s = has_reason info st s" for s
    unfolding has_reason_def assms by simp
  then show ?thesis unfolding waits_ok_def assms by simp
qed

lemma woken_none [simp]: "woken_chans st st = {}"
  by (simp add: woken_chans_def)

section \<open>Wake-ups\<close>

definition wakes :: "msg_state \<Rightarrow> msg_chan list \<Rightarrow> msg_state \<Rightarrow> bool" where
  "wakes st chs st' \<longleftrightarrow> msg_wakeups st' = msg_wakeups st @ chs"

lemma wakes_chans: "wakes st chs st' \<Longrightarrow> woken_chans st st' = set chs"
  by (simp add: wakes_def woken_chans_def)

lemma wakes_trans: "wakes st chs st1 \<Longrightarrow> wakes st1 chs' st2 \<Longrightarrow> wakes st (chs @ chs') st2"
  by (simp add: wakes_def)

lemma wakes_refl [simp]: "wakes st [] st"
  by (simp add: wakes_def)

lemma still_trans:
  "wakes st chs st1 \<Longrightarrow> wakes st1 chs' st2 \<Longrightarrow> still st st2 sl = still st1 st2 (still st st1 sl)"
  by (simp add: still_def wakes_chans [OF wakes_trans, of st chs st1 chs' st2] wakes_chans)

lemma still_simps [simp]: "still st st sl = sl" "set (still st st' sl) \<subseteq> set sl"
  by (auto simp: still_def)

lemma msg_wakeup_more [simp]:
  "msg_wakeups (msg_wakeup ch st) = msg_wakeups st @ [ch]" "msghdr_wait (msg_wakeup ch st) = msghdr_wait st"
  by (simp_all add: msg_wakeup_def)

lemma free_msghdr_wakes:
  "wakes st (if msghdr_wait st \<noteq> 0 then [MHdr] else []) (free_msghdr st)" "msghdr_wait (free_msghdr st) = 0"
  by (simp_all add: free_msghdr_def Let_def wakes_def)

lemma msgfree_wakes:
  "slot < length (msgque st) \<Longrightarrow> wakes st ((if mode_has MSG_WWAIT (msgque st ! slot) then [MWrite slot] else [])
     @ (if msghdr_wait st \<noteq> 0 then [MHdr] else [])) (msgfree slot i st)"
  "msghdr_wait (msgfree slot i st) = 0"
proof -
  define st1 where "st1 = qp_upd (\<lambda>qp. qp\<lparr>msg_q := take i (msg_q qp) @ drop (Suc i) (msg_q qp), msg_qnum := u64 (msg_qnum qp - 1)\<rparr>) slot st"
  define st2 where "st2 = (if mode_has MSG_WWAIT (msgque st1 ! slot)
    then msg_wakeup (MWrite slot) (qp_upd (mode_upd (\<lambda>m. m AND NOT MSG_WWAIT)) slot st1) else st1)"
  have f: "msgfree slot i st = free_msghdr st2" by (simp add: msgfree_def Let_def st1_def st2_def)
  show "msghdr_wait (msgfree slot i st) = 0" by (simp add: f free_msghdr_wakes)
  assume slot: "slot < length (msgque st)"
  have m: "mode_has MSG_WWAIT (msgque st1 ! slot) = mode_has MSG_WWAIT (msgque st ! slot)"
    using slot by (simp add: st1_def mode_has_def)
  have "wakes st (if mode_has MSG_WWAIT (msgque st ! slot) then [MWrite slot] else []) st2"
    using m by (simp add: st2_def wakes_def) (simp add: st1_def)
  moreover have "msghdr_wait st2 = msghdr_wait st" by (simp add: st2_def st1_def)
  ultimately show "wakes st ((if mode_has MSG_WWAIT (msgque st ! slot) then [MWrite slot] else [])
     @ (if msghdr_wait st \<noteq> 0 then [MHdr] else [])) (msgfree slot i st)"
    unfolding f using wakes_trans free_msghdr_wakes(1) [of st2] by fastforce
qed

lemma wake_type_wakes:
  "wakes st (map (\<lambda>_. MWait slot t) (filter (\<lambda>w. msg_wait_type w = t) ws)) (snd (wake_type slot t ws st))"
  "msghdr_wait (snd (wake_type slot t ws st)) = msghdr_wait st"
  by (induction ws arbitrary: st) (auto simp: case_prod_beta wakes_def)

lemma msgsnd_put_wakes:
  assumes "slot < length (msgque st)"
  shows "wakes st ((if mode_has MSG_RWAIT (msgque st ! slot) then [MRead slot] else [])
     @ map (\<lambda>_. MWait slot t) (filter (\<lambda>w. msg_wait_type w = t) (msg_wait_list (msgque st ! slot)))) (msgsnd_put env slot cnt t txt st)"
    "msghdr_wait (msgsnd_put env slot cnt t txt st) = msghdr_wait st"
proof -
  define st1 where "st1 = qp_upd (\<lambda>qp. qp\<lparr>msg_qnum := u64 (msg_qnum qp + 1), msg_cbytes := u16 (msg_cbytes qp + cnt),
      msg_lspid := me_pid env, msg_stime := me_time env, msg_q := msg_q qp @ [\<lparr>msg_type = t, msg_ts = cnt, msg_text = txt\<rparr>]\<rparr>) slot st"
  define st2 where "st2 = (if mode_has MSG_RWAIT (msgque st1 ! slot)
    then msg_wakeup (MRead slot) (qp_upd (mode_upd (\<lambda>m. m AND NOT MSG_RWAIT)) slot st1) else st1)"
  define st3 where "st3 = snd (wake_type slot t (msg_wait_list (msgque st2 ! slot)) st2)"
  have m: "mode_has MSG_RWAIT (msgque st1 ! slot) = mode_has MSG_RWAIT (msgque st ! slot)"
    using assms by (simp add: st1_def mode_has_def)
  have 2: "wakes st (if mode_has MSG_RWAIT (msgque st ! slot) then [MRead slot] else []) st2"
    using m by (simp add: st2_def wakes_def) (simp add: st1_def)
  have ws: "msg_wait_list (msgque st2 ! slot) = msg_wait_list (msgque st ! slot)" "msghdr_wait st2 = msghdr_wait st"
    using assms by (simp_all add: st2_def st1_def)
  have f: "msg_wakeups (msgsnd_put env slot cnt t txt st) = msg_wakeups st3" "msghdr_wait (msgsnd_put env slot cnt t txt st) = msghdr_wait st3"
    unfolding msgsnd_put_def Let_def case_prod_beta st1_def [symmetric] st2_def [symmetric] st3_def by simp_all
  have 3: "wakes st2 (map (\<lambda>_. MWait slot t) (filter (\<lambda>w. msg_wait_type w = t) (msg_wait_list (msgque st ! slot)))) st3"
    unfolding st3_def ws(1) by (rule wake_type_wakes)
  show "wakes st ((if mode_has MSG_RWAIT (msgque st ! slot) then [MRead slot] else [])
     @ map (\<lambda>_. MWait slot t) (filter (\<lambda>w. msg_wait_type w = t) (msg_wait_list (msgque st ! slot)))) (msgsnd_put env slot cnt t txt st)"
    using wakes_trans [OF 2 3] by (simp add: wakes_def f)
  show "msghdr_wait (msgsnd_put env slot cnt t txt st) = msghdr_wait st"
    by (simp add: f st3_def wake_type_wakes ws)
qed

section \<open>Wait lists\<close>

lemma wait_cnt_simps [simp]:
  "wait_cnt t [] = 0" "wait_cnt t (w # ws) = (if msg_wait_type w = t then msg_wait_cnt w else 0) + wait_cnt t ws"
  by (simp_all add: wait_cnt_def)

lemma wait_cnt_none: "t \<notin> msg_wait_type ` set ws \<Longrightarrow> wait_cnt t ws = 0"
  by (induction ws) auto

lemma wait_cnt_pos: "(\<And>w. w \<in> set ws \<Longrightarrow> 0 < msg_wait_cnt w) \<Longrightarrow> wait_cnt t ws \<noteq> 0 \<longleftrightarrow> t \<in> msg_wait_type ` set ws"
proof (induction ws)
  case (Cons w ws)
  have "0 \<le> wait_cnt t ws" unfolding wait_cnt_def using Cons.prems by (intro sum_list_nonneg) (auto intro: less_imp_le)
  then show ?case using Cons by (force intro: less_imp_neq [symmetric])
qed simp

lemma wait_cnt_filter: "wait_cnt u (filter (\<lambda>w. msg_wait_type w \<noteq> t) ws) = (if u = t then 0 else wait_cnt u ws)"
  by (induction ws) auto

lemma wait_incr_cnt: "wait_incr t ws = Some ws' \<Longrightarrow> wait_cnt u ws' = wait_cnt u ws + (if u = t then 1 else 0)"
  by (induction ws arbitrary: ws') (auto split: if_splits)

lemma wait_add_cnt: "wait_cnt u (wait_add t ws) = wait_cnt u ws + (if u = t then 1 else 0)"
  using wait_incr_cnt by (auto simp: wait_add_def split: option.splits)

lemma wait_incr_cnts: "wait_incr t ws = Some ws' \<Longrightarrow> \<forall>w\<in>set ws. 0 < msg_wait_cnt w \<Longrightarrow> \<forall>w\<in>set ws'. 0 < msg_wait_cnt w"
  by (induction ws arbitrary: ws') (auto split: if_splits)

lemma wait_add_cnts: "\<forall>w\<in>set ws. 0 < msg_wait_cnt w \<Longrightarrow> \<forall>w\<in>set (wait_add t ws). 0 < msg_wait_cnt w"
  using wait_incr_cnts by (auto simp: wait_add_def split: option.splits)

lemma wait_drop_cnt:
  "\<forall>w\<in>set ws. 0 < msg_wait_cnt w \<Longrightarrow> wait_cnt t ws \<noteq> 0 \<Longrightarrow> wait_cnt u (wait_drop t ws) = wait_cnt u ws - (if u = t then 1 else 0)"
  by (induction ws) auto

lemma wait_drop_cnts: "\<forall>w\<in>set ws. 0 < msg_wait_cnt w \<Longrightarrow> \<forall>w\<in>set (wait_drop t ws). 0 < msg_wait_cnt w"
  by (induction ws) auto

section \<open>The operations keep the agreement\<close>

lemma mode_has_upd [simp]:
  "mode_has MSG_RWAIT (mode_upd (\<lambda>m. m AND NOT MSG_WWAIT) qp) = mode_has MSG_RWAIT qp"
  "mode_has MSG_WWAIT (mode_upd (\<lambda>m. m AND NOT MSG_RWAIT) qp) = mode_has MSG_WWAIT qp"
  "mode_has MSG_RWAIT (mode_upd (\<lambda>m. m OR MSG_WWAIT) qp) = mode_has MSG_RWAIT qp"
  "mode_has MSG_WWAIT (mode_upd (\<lambda>m. m OR MSG_RWAIT) qp) = mode_has MSG_WWAIT qp"
  "mode_has MSG_RWAIT (mode_upd (\<lambda>m. m OR MSG_RWAIT) qp)" "mode_has MSG_WWAIT (mode_upd (\<lambda>m. m OR MSG_WWAIT) qp)"
  by (simp_all add: mode_has_def mode_upd_def MSG_RWAIT_def MSG_WWAIT_def and.assoc bit.conj_disj_distrib2)

lemma mode_has_qp_free [simp]: "mode_has MSG_RWAIT (qp_free i qp) = mode_has MSG_RWAIT qp"
  by (simp add: qp_free_def) (simp add: mode_has_def)

text \<open>Changes that no sleeper notices.\<close>

lemma waits_ok_same:
  assumes ok: "waits_ok info st sl" and slot: "slot < length (msgque st)"
    and st': "msgque st' = (msgque st)[slot := qp]" "cur_msghdrs st' = cur_msghdrs st" "msghdr_wait st' = msghdr_wait st"
    and qp: "msg_q qp = msg_q (msgque st ! slot)" "msg_wait_list qp = msg_wait_list (msgque st ! slot)"
      "mode_has MSG_RWAIT qp = mode_has MSG_RWAIT (msgque st ! slot)" "mode_has MSG_WWAIT qp = mode_has MSG_WWAIT (msgque st ! slot)"
      "ipc_allocated (msg_perm qp) = ipc_allocated (msg_perm (msgque st ! slot))" "ip_seq (msg_perm qp) = ip_seq (msg_perm (msgque st ! slot))"
  shows "waits_ok info st' sl"
proof (rule waits_ok_upd [OF ok slot st'(1)])
  fix s assume s: "s \<in> set sl" "has_reason info st s" "chan_slot (sl_chan s) = Some slot"
  then show "has_reason info st' s" using msgconv_upd_same [OF _ qp(5,6)] slot qp
    by (auto simp: has_reason_def chan_slot_def st' split: msg_call.splits msg_chan.splits)
next
  fix s assume s: "s \<in> set sl" "sl_chan s = MHdr"
  then show "0 < msghdr_wait st' \<and> msgtql info \<le> cur_msghdrs st'"
    using waits_okD(3) [OF ok s(1)] by (auto simp: has_reason_def st' split: msg_call.splits)
qed (use waits_okD [OF ok] slot qp in \<open>auto simp: st'\<close>)

lemma msgfree_waits:
  assumes ok: "waits_ok info st sl" and slot: "slot < length (msgque st)"
  shows "waits_ok info (msgfree slot i st) (still st (msgfree slot i st) sl)"
proof -
  let ?st = "msgfree slot i st" and ?qp = "msgque st ! slot"
  define W where "W = woken_chans st ?st"
  have W: "W = (if mode_has MSG_WWAIT ?qp then {MWrite slot} else {}) \<union> (if msghdr_wait st \<noteq> 0 then {MHdr} else {})"
    unfolding W_def wakes_chans [OF msgfree_wakes(1) [OF slot]] by auto
  have sl': "still st ?st sl = filter (\<lambda>s. sl_chan s \<notin> W) sl" by (simp add: still_def W_def)
  have cnt: "sleeps_on (MWait k t) (still st ?st sl) = sleeps_on (MWait k t) sl" for k t
    unfolding sl' sleeps_on_filter by (simp add: W)
  have noh: "msghdr_wait st \<noteq> 0" if "s \<in> set sl" "sl_chan s = MHdr" for s
    using waits_okD(3) [OF ok that(1)] that(2) by (auto simp: has_reason_def split: msg_call.splits)
  have sub: "set (take i q @ drop (Suc i) q) \<subseteq> set q" for q :: "msg list" by (auto dest: in_set_takeD in_set_dropD)
  show ?thesis
  proof (rule waits_ok_upd [OF ok slot msgfree_table(1) [OF slot]])
    fix s assume s: "s \<in> set (still st ?st sl)" "has_reason info st s" "chan_slot (sl_chan s) = Some slot"
    then have w: "sl_chan s \<noteq> MWrite slot \<or> \<not> mode_has MSG_WWAIT ?qp" by (auto simp: sl' W split: if_splits)
    have "msgconv info (msgque ?st) d = Some slot" if "msgconv info (msgque st) d = Some slot" for d
      unfolding msgfree_table(1) [OF slot] by (rule msgconv_upd_same [OF that]) simp_all
    then show "has_reason info ?st s" using s(2,3) w slot none_for_subset [OF _ sub]
      by (auto simp: has_reason_def chan_slot_def msgfree_table(1) [OF slot] simp del: set_append split: msg_call.splits msg_chan.splits)
  next
    fix s assume s: "s \<in> set (still st ?st sl)" "s \<in> set sl" "sl_chan s = MHdr"
    then show "0 < msghdr_wait ?st \<and> msgtql info \<le> cur_msghdrs ?st" using noh [OF s(2,3)] by (auto simp: sl' W)
  next
    show "wait_cnt t (msg_wait_list (qp_free i ?qp)) = sleeps_on (MWait slot t) (still st ?st sl)" for t
      unfolding cnt using waits_okD(1) [OF ok slot] by simp
    show "0 < msg_wait_cnt w" if "w \<in> set (msg_wait_list (qp_free i ?qp))" for w using waits_okD(2) [OF ok slot] that by simp
    show "sleeps_on (MWait k t) (still st ?st sl) = sleeps_on (MWait k t) sl" for k t by (rule cnt)
  qed (auto simp: sl' msgfree_wakes(2))
qed

lemma wakes_upd [simp]: "wakes st [] (qp_upd f slot st)" "wakes st [] (st\<lparr>msg_count := n\<rparr>)" "wakes st [] (st\<lparr>msg_asu := b\<rparr>)"
  "wakes st [] (st\<lparr>cur_msghdrs := k\<rparr>)" "wakes st [] (st\<lparr>msghdr_wait := k\<rparr>)"
  by (simp_all add: wakes_def)

lemma still_quiet [simp]: "wakes st [] st' \<Longrightarrow> still st st' sl = sl"
  by (simp add: still_def wakes_chans)

lemma free_msghdr_waits:
  assumes ok: "waits_ok info st sl"
  shows "waits_ok info (free_msghdr (st\<lparr>cur_msghdrs := cur_msghdrs st + 1\<rparr>))
    (still st (free_msghdr (st\<lparr>cur_msghdrs := cur_msghdrs st + 1\<rparr>)) sl)"
proof -
  let ?s1 = "st\<lparr>cur_msghdrs := cur_msghdrs st + 1\<rparr>"
  have noh: "msghdr_wait st \<noteq> 0" if "s \<in> set sl" "sl_chan s = MHdr" for s
    using waits_okD(3) [OF ok that(1)] that(2) by (auto simp: has_reason_def split: msg_call.splits)
  have W: "woken_chans st (free_msghdr ?s1) = (if msghdr_wait st \<noteq> 0 then {MHdr} else {})"
    using wakes_chans [OF wakes_trans [OF wakes_upd(4) free_msghdr_wakes(1)], of st "cur_msghdrs st + 1"] by simp
  have sl': "still st (free_msghdr ?s1) sl = filter (\<lambda>s. sl_chan s \<noteq> MHdr) sl"
    using noh by (auto simp: still_def W intro!: filter_True [symmetric])
  have "has_reason info (free_msghdr ?s1) s" if s: "s \<in> set sl" "sl_chan s \<noteq> MHdr" for s
    using waits_okD(3) [OF ok s(1)] s(2) by (auto simp: has_reason_def split: msg_call.splits msg_chan.splits)
  moreover have "sleeps_on (MWait k t) (filter (\<lambda>s. sl_chan s \<noteq> MHdr) sl) = sleeps_on (MWait k t) sl" for k t
    using sleeps_on_filter [of "MWait k t" "{MHdr}" sl] by simp
  ultimately show ?thesis using waits_okD(1,2) [OF ok] unfolding sl' waits_ok_def by (auto simp: free_msghdr_wakes(2))
qed

text \<open>Receiving.\<close>

lemma rcv_take_waits:
  assumes ok: "waits_ok info st sl" and slot: "slot < length (msgque st)" and r: "msgrcv_take env a slot i st = (out, st')"
  shows "waits_ok info st' (asleep c out @ still st st' sl)"
proof (cases out)
  case (MsgRet t bs n)
  define st1 where "st1 = qp_upd (\<lambda>qp. qp\<lparr>msg_cbytes := u16 (msg_cbytes qp - msg_ts (msg_q (msgque st ! slot) ! i)),
      msg_lrpid := me_pid env, msg_rtime := me_time env\<rparr>) slot st"
  have e: "st' = (msgfree slot i st1)\<lparr>msg_count := msg_count (msgfree slot i st1) + 1\<rparr>"
    using r MsgRet by (auto simp: msgrcv_take_def Let_def st1_def split: if_splits)
  have 1: "waits_ok info st1 sl"
    by (rule waits_ok_same [OF ok slot, where qp = "(msgque st ! slot)\<lparr>msg_cbytes := u16 (msg_cbytes (msgque st ! slot) - msg_ts (msg_q (msgque st ! slot) ! i)),
        msg_lrpid := me_pid env, msg_rtime := me_time env\<rparr>"]) (simp_all add: st1_def mode_has_def)
  have s1: "slot < length (msgque st1)" using slot by (simp add: st1_def)
  have w: "wakes st [] st1" by (simp add: st1_def)
  note 2 = msgfree_waits [OF 1 s1, of i]
  have "still st st' sl = still st1 (msgfree slot i st1) sl"
    by (simp add: still_def woken_chans_def e) (simp add: st1_def)
  then show ?thesis using 2 waits_ok_cong [of st' "msgfree slot i st1"] MsgRet by (simp add: e asleep_def)
next
  case (MsgErr e)
  then have "st' = st" using r by (auto simp: msgrcv_take_def Let_def split: if_splits)
  then show ?thesis using ok MsgErr by (simp add: asleep_def)
qed (use r in \<open>auto simp: msgrcv_take_def Let_def split: if_splits\<close>)

text \<open>A new sleeper.\<close>

lemma waits_ok_sleep:
  assumes ok: "waits_ok info st sl" and slot: "slot < length (msgque st)"
    and ch: "chan_slot ch = Some slot" and r: "has_reason info st' \<lparr>sl_call = c, sl_chan = ch\<rparr>"
    and st': "msgque st' = (msgque st)[slot := qp]" "cur_msghdrs st' = cur_msghdrs st" "msghdr_wait st' = msghdr_wait st"
    and qp: "msg_q qp = msg_q (msgque st ! slot)"
      "\<And>t. wait_cnt t (msg_wait_list qp) = wait_cnt t (msg_wait_list (msgque st ! slot)) + (if ch = MWait slot t then 1 else 0)"
      "\<forall>w\<in>set (msg_wait_list (msgque st ! slot)). 0 < msg_wait_cnt w \<Longrightarrow> \<forall>w\<in>set (msg_wait_list qp). 0 < msg_wait_cnt w"
      "mode_has MSG_RWAIT (msgque st ! slot) \<Longrightarrow> mode_has MSG_RWAIT qp" "mode_has MSG_WWAIT (msgque st ! slot) \<Longrightarrow> mode_has MSG_WWAIT qp"
      "ipc_allocated (msg_perm qp) = ipc_allocated (msg_perm (msgque st ! slot))" "ip_seq (msg_perm qp) = ip_seq (msg_perm (msgque st ! slot))"
  shows "waits_ok info st' (\<lparr>sl_call = c, sl_chan = ch\<rparr> # sl)"
proof (rule waits_ok_upd [OF ok slot st'(1)])
  fix s assume s: "s \<in> set (\<lparr>sl_call = c, sl_chan = ch\<rparr> # sl)" "s \<in> set sl" "sl_chan s = MHdr"
  then show "0 < msghdr_wait st' \<and> msgtql info \<le> cur_msghdrs st'"
    using waits_okD(3) [OF ok s(2)] by (auto simp: has_reason_def st' split: msg_call.splits)
next
  show "s \<in> set sl \<or> has_reason info st' s" if "s \<in> set (\<lparr>sl_call = c, sl_chan = ch\<rparr> # sl)" for s using that r by auto
  show "sleeps_on (MWait k t) (\<lparr>sl_call = c, sl_chan = ch\<rparr> # sl) = sleeps_on (MWait k t) sl" if "k \<noteq> slot" for k t
    using ch that by (auto simp: chan_slot_def)
  show "wait_cnt t (msg_wait_list qp) = sleeps_on (MWait slot t) (\<lparr>sl_call = c, sl_chan = ch\<rparr> # sl)" for t
    using qp(2) [of t] waits_okD(1) [OF ok slot, of t] by simp
  show "0 < msg_wait_cnt w" if "w \<in> set (msg_wait_list qp)" for w
  proof -
    have "\<forall>w\<in>set (msg_wait_list (msgque st ! slot)). 0 < msg_wait_cnt w" using waits_okD(2) [OF ok slot] by simp
    from qp(3) [OF this] that show ?thesis by simp
  qed
  show "0 \<le> msghdr_wait st'" using waits_okD(4) [OF ok] st' by simp
  show "has_reason info st' s" if "s \<in> set (\<lparr>sl_call = c, sl_chan = ch\<rparr> # sl)" "s \<in> set sl" "has_reason info st s" "chan_slot (sl_chan s) = Some slot" for s
    using that(3,4) msgconv_upd_same [OF _ qp(6,7)] slot qp(1,4,5)
    by (auto simp: has_reason_def chan_slot_def st' split: msg_call.splits msg_chan.splits)
qed

lemma rcv_wait_waits:
  assumes ok: "waits_ok info st sl" and c: "msgconv info (msgque st) (rc_msqid a) = Some slot" "slot < length (msgque st)"
    and none: "none_for (rc_msgtyp a) (msg_q (msgque st ! slot))" and r: "msgrcv_wait a slot st = (out, st')"
  shows "waits_ok info st' (asleep (RcvCall a) out @ still st st' sl)"
proof -
  let ?qp = "msgque st ! slot"
  consider "out = MsgErr ENOMSG" "st' = st"
    | "0 < rc_msgtyp a" "out = MsgSleep (MWait slot (rc_msgtyp a))"
      "st' = qp_upd (\<lambda>qp. qp\<lparr>msg_wait_list := wait_add (rc_msgtyp a) (msg_wait_list qp)\<rparr>) slot st"
    | "\<not> 0 < rc_msgtyp a" "out = MsgSleep (MRead slot)" "st' = qp_upd (mode_upd (\<lambda>m. m OR MSG_RWAIT)) slot st"
  proof -
    have "out = MsgErr ENOMSG \<and> st' = st \<or> 0 < rc_msgtyp a \<and> out = MsgSleep (MWait slot (rc_msgtyp a))
          \<and> st' = qp_upd (\<lambda>qp. qp\<lparr>msg_wait_list := wait_add (rc_msgtyp a) (msg_wait_list qp)\<rparr>) slot st
        \<or> \<not> 0 < rc_msgtyp a \<and> out = MsgSleep (MRead slot) \<and> st' = qp_upd (mode_upd (\<lambda>m. m OR MSG_RWAIT)) slot st"
      using r by (simp add: msgrcv_wait_def split: if_splits)
    then show thesis using that by (elim disjE conjE)
  qed
  then show ?thesis
  proof cases
    case 1
    then show ?thesis using ok by (simp add: asleep_def)
  next
    case 2
    let ?q = "?qp\<lparr>msg_wait_list := wait_add (rc_msgtyp a) (msg_wait_list ?qp)\<rparr>"
    have "has_reason info st' \<lparr>sl_call = RcvCall a, sl_chan = MWait slot (rc_msgtyp a)\<rparr>"
      using 2 none c by (auto simp: has_reason_def intro: msgconv_upd_same)
    from waits_ok_sleep [OF ok c(2) _ this, where qp = ?q] show ?thesis
      using 2 c(2) wait_add_cnt wait_add_cnts by (simp add: asleep_def chan_slot_def mode_has_def)
  next
    case 3
    let ?q = "mode_upd (\<lambda>m. m OR MSG_RWAIT) ?qp"
    have "has_reason info st' \<lparr>sl_call = RcvCall a, sl_chan = MRead slot\<rparr>"
      using 3 none c by (auto simp: has_reason_def intro: msgconv_upd_same)
    from waits_ok_sleep [OF ok c(2) _ this, where qp = ?q] show ?thesis
      using 3 c(2) by (simp add: asleep_def chan_slot_def)
  qed
qed

lemma msgrcv_pass_waits:
  assumes info: "msginfo_ok info" "msg_inv info st" and ok: "waits_ok info st sl" and r: "msgrcv_pass env info fp a st = (out, st')"
  shows "waits_ok info st' (asleep (RcvCall a) out @ still st st' sl)"
proof (cases "msgconv info (msgque st) (rc_msqid a)")
  case None
  then show ?thesis using r ok by (auto simp: msgrcv_pass_def asleep_def)
next
  case (Some slot)
  note c = conjunct1 [OF msgconv_slot [OF info Some]]
  show ?thesis
  proof (cases "out = MsgErr EACCES \<and> st' = st \<or> out = MsgErr EINVAL \<and> st' = st")
    case True
    then show ?thesis using ok by (auto simp: asleep_def)
  next
    case False
    then have "case msg_select (rc_msgtyp a) (msg_q (msgque st ! slot)) of
        Some i \<Rightarrow> msgrcv_take env a slot i st = (out, st') | None \<Rightarrow> msgrcv_wait a slot st = (out, st')"
      using r Some by (auto simp: msgrcv_pass_def Let_def split: if_splits option.splits)
    then show ?thesis
      using rcv_take_waits [OF ok c] rcv_wait_waits [OF ok Some c] msg_select_None
      by (cases "msg_select (rc_msgtyp a) (msg_q (msgque st ! slot))") auto
  qed
qed

text \<open>Sending.\<close>

lemma mode_has_put:
  "mode_has MSG_WWAIT (qp_put env cnt t bs qp) = mode_has MSG_WWAIT qp"
  "msg_wait_list (qp_put env cnt t bs qp) = filter (\<lambda>w. msg_wait_type w \<noteq> t) (msg_wait_list qp)"
proof -
  have "mode_has b (q\<lparr>msg_wait_list := x\<rparr>) = mode_has b q" for b q x by (simp add: mode_has_def)
  then show "mode_has MSG_WWAIT (qp_put env cnt t bs qp) = mode_has MSG_WWAIT qp"
    by (simp add: qp_put_def) (simp add: mode_has_def)
qed (simp add: qp_put_def)

lemma msgsnd_put_waits:
  assumes ok: "waits_ok info st sl" and slot: "slot < length (msgque st)"
    and st': "st' = msgsnd_put env slot cnt t bs (st\<lparr>cur_msghdrs := cur_msghdrs st + 1\<rparr>)"
  shows "waits_ok info st' (still st st' sl)"
proof -
  let ?qp = "msgque st ! slot" and ?s0 = "st\<lparr>cur_msghdrs := cur_msghdrs st + 1\<rparr>"
  have slot0: "slot < length (msgque ?s0)" using slot by simp
  have q: "msgque st' = (msgque st)[slot := qp_put env cnt t bs ?qp]" "cur_msghdrs st' = cur_msghdrs st + 1" "msghdr_wait st' = msghdr_wait st"
    using msgsnd_put_table [OF slot0] msgsnd_put_wakes(2) [OF slot0] by (simp_all add: st')
  define W where "W = woken_chans st st'"
  have W: "W = (if mode_has MSG_RWAIT ?qp then {MRead slot} else {}) \<union> (if t \<in> msg_wait_type ` set (msg_wait_list ?qp) then {MWait slot t} else {})"
    unfolding W_def st' wakes_chans [OF wakes_trans [OF wakes_upd(4) msgsnd_put_wakes(1) [OF slot0]]] by auto
  have sl': "still st st' sl = filter (\<lambda>s. sl_chan s \<notin> W) sl" by (simp add: still_def W_def)
  have listed: "wait_cnt t (msg_wait_list ?qp) \<noteq> 0 \<longleftrightarrow> t \<in> msg_wait_type ` set (msg_wait_list ?qp)"
    by (rule wait_cnt_pos) (rule waits_okD(2) [OF ok slot])
  have gone: "MWait slot t \<in> W \<or> sleeps_on (MWait slot t) sl = 0"
    using listed waits_okD(1) [OF ok slot, of t] by (auto simp: W)
  show ?thesis
  proof (rule waits_ok_upd [OF ok slot q(1)])
    show "sleeps_on (MWait k u) (still st st' sl) = sleeps_on (MWait k u) sl" if "k \<noteq> slot" for k u
      unfolding sl' sleeps_on_filter using that by (simp add: W)
    show "wait_cnt u (msg_wait_list (qp_put env cnt t bs ?qp)) = sleeps_on (MWait slot u) (still st st' sl)" for u
      unfolding sl' sleeps_on_filter mode_has_put(2) wait_cnt_filter using gone waits_okD(1) [OF ok slot, of u] by (auto simp: W split: if_splits)
    show "0 < msg_wait_cnt w" if "w \<in> set (msg_wait_list (qp_put env cnt t bs ?qp))" for w
      using waits_okD(2) [OF ok slot, of w] that by (simp add: mode_has_put)
  next
    fix s assume s: "s \<in> set (still st st' sl)" "s \<in> set sl" "has_reason info st s" "chan_slot (sl_chan s) = Some slot"
    have n: "sl_chan s \<notin> W" using s(1) by (simp add: sl')
    have t: "sl_chan s \<noteq> MWait slot t" using gone n s(2) by (auto simp: sleeps_on_none)
    have rd: "sl_chan s = MRead slot \<Longrightarrow> \<not> mode_has MSG_RWAIT ?qp" using n by (auto simp: W)
    have "msgconv info (msgque st') d = Some slot" if "msgconv info (msgque st) d = Some slot" for d
      unfolding q(1) by (rule msgconv_upd_same [OF that]) simp_all
    then show "has_reason info st' s" using s(3,4) t rd slot
      by (auto simp: has_reason_def chan_slot_def q(1) none_for_def mode_has_put split: msg_call.splits msg_chan.splits)
  next
    fix s assume s: "s \<in> set sl" "sl_chan s = MHdr"
    then show "0 < msghdr_wait st' \<and> msgtql info \<le> cur_msghdrs st'"
      using waits_okD(3) [OF ok s(1)] by (auto simp: has_reason_def q split: msg_call.splits)
  qed (use waits_okD(4) [OF ok] in \<open>auto simp: sl' q\<close>)
qed

lemma msgsnd_sleep_waits:
  assumes ok: "waits_ok info st sl" and c: "msgconv info (msgque st) (sn_msqid a) = Some slot" "slot < length (msgque st)"
  shows "waits_ok info (qp_upd (mode_upd (\<lambda>m. m OR MSG_WWAIT)) slot st) (\<lparr>sl_call = SndCall a, sl_chan = MWrite slot\<rparr> # sl)"
proof (rule waits_ok_sleep [OF ok c(2), where qp = "mode_upd (\<lambda>m. m OR MSG_WWAIT) (msgque st ! slot)"])
  show "has_reason info (qp_upd (mode_upd (\<lambda>m. m OR MSG_WWAIT)) slot st) \<lparr>sl_call = SndCall a, sl_chan = MWrite slot\<rparr>"
    using c by (auto simp: has_reason_def intro: msgconv_upd_same)
qed (simp_all add: chan_slot_def)

lemma msghdr_sleep_waits:
  assumes ok: "waits_ok info st sl" and full: "msgtql info \<le> cur_msghdrs st"
  shows "waits_ok info (st\<lparr>msghdr_wait := msghdr_wait st + 1\<rparr>) (\<lparr>sl_call = SndCall a, sl_chan = MHdr\<rparr> # sl)"
proof -
  have "has_reason info (st\<lparr>msghdr_wait := msghdr_wait st + 1\<rparr>) s" if "s \<in> set sl" for s
    using waits_okD(3) [OF ok that] by (auto simp: has_reason_def split: msg_call.splits msg_chan.splits)
  moreover have "has_reason info (st\<lparr>msghdr_wait := msghdr_wait st + 1\<rparr>) \<lparr>sl_call = SndCall a, sl_chan = MHdr\<rparr>"
    using full waits_okD(4) [OF ok] by (simp add: has_reason_def)
  ultimately show ?thesis using ok by (simp add: waits_ok_def)
qed

lemma msgsnd_pass_waits:
  assumes info: "msginfo_ok info" "msg_inv info st" and ok: "waits_ok info st sl" and r: "msgsnd_pass env info fp a st = (out, st')"
  shows "waits_ok info st' (asleep (SndCall a) out @ still st st' sl)"
proof (cases "msgconv info (msgque st) (sn_msqid a)")
  case None
  then show ?thesis using r ok by (auto simp: msgsnd_pass_def asleep_def)
next
  case (Some slot)
  note c = conjunct1 [OF msgconv_slot [OF info Some]]
  let ?s1 = "st\<lparr>cur_msghdrs := cur_msghdrs st + 1\<rparr>"
  have "(\<exists>e. out = MsgErr e \<and> st' = st) \<or> out = MsgSleep (MWrite slot) \<and> st' = qp_upd (mode_upd (\<lambda>m. m OR MSG_WWAIT)) slot st
      \<or> out = MsgSleep MHdr \<and> st' = st\<lparr>msghdr_wait := msghdr_wait st + 1\<rparr> \<and> msgtql info \<le> cur_msghdrs st
      \<or> out = MsgErr EFAULT \<and> st' = free_msghdr ?s1
      \<or> (\<exists>cnt t bs. out = MsgRet 0 [] 0 \<and> st' = msgsnd_put env slot cnt t bs ?s1)"
    using r Some by (auto simp: msgsnd_pass_def Let_def split: if_splits option.splits)
  then show ?thesis
    using ok msgsnd_sleep_waits [OF ok Some c] msghdr_sleep_waits [OF ok] free_msghdr_waits [OF ok] msgsnd_put_waits [OF ok c]
    by (elim disjE exE conjE) (simp_all add: asleep_def)
qed

section \<open>Interrupted sleeps\<close>

text \<open>A sleeper that is not in a wait list leaves.\<close>

lemma waits_ok_leave:
  assumes "waits_ok info st sl" "\<And>k t. sl_chan s \<noteq> MWait k t"
  shows "waits_ok info st (remove1 s sl)"
proof -
  have "sleeps_on (MWait k t) (remove1 s sl) = sleeps_on (MWait k t) sl" for k t
    using sleeps_on_remove [of s sl "MWait k t"] assms(2) by (cases "s \<in> set sl") (simp_all add: remove1_idem)
  then show ?thesis using assms(1) set_remove1_subset [of s sl] by (auto simp: waits_ok_def)
qed

lemma msgsnd_intr_waits:
  assumes ok: "waits_ok info st sl" and s: "s \<in> set sl" "sl_call s = SndCall a" and info: "msginfo_ok info" "msg_inv info st"
    and r: "msgsnd_resume env info a (sl_chan s) True st = (out, st')"
  shows "waits_ok info st' (still st st' (remove1 s sl))"
proof -
  have h: "has_reason info st s" by (rule waits_okD(3) [OF ok s(1)])
  then have nw: "sl_chan s \<noteq> MWait k t" for k t using s(2) by (auto simp: has_reason_def)
  have l: "waits_ok info st (remove1 s sl)" by (rule waits_ok_leave [OF ok nw])
  show ?thesis
  proof (cases "sl_chan s")
    case (MWrite slot)
    then have c: "msgconv info (msgque st) (sn_msqid a) = Some slot" using h s(2) by (simp add: has_reason_def)
    note slot = conjunct1 [OF msgconv_slot [OF info c]]
    let ?qp = "mode_upd (\<lambda>m. m AND NOT MSG_WWAIT) (msgque st ! slot)"
    have st': "msgque st' = (msgque st)[slot := ?qp]" "cur_msghdrs st' = cur_msghdrs st" "msghdr_wait st' = msghdr_wait st"
      "wakes st [MWrite slot] st'"
      using r MWrite by (auto simp: msgsnd_resume_def wakes_def)
    have sl': "still st st' (remove1 s sl) = filter (\<lambda>x. sl_chan x \<notin> {MWrite slot}) (remove1 s sl)"
      by (simp add: still_def wakes_chans [OF st'(4)])
    have cnt: "sleeps_on (MWait k t) (still st st' (remove1 s sl)) = sleeps_on (MWait k t) (remove1 s sl)" for k t
      unfolding sl' sleeps_on_filter by simp
    show ?thesis
    proof (rule waits_ok_upd [OF l slot st'(1)])
      fix x assume x: "x \<in> set (still st st' (remove1 s sl))" "has_reason info st x" "chan_slot (sl_chan x) = Some slot"
      have "msgconv info (msgque st') d = Some slot" if "msgconv info (msgque st) d = Some slot" for d
        unfolding st'(1) by (rule msgconv_upd_same [OF that]) simp_all
      then show "has_reason info st' x" using x slot
        by (auto simp: sl' has_reason_def chan_slot_def st'(1) split: msg_call.splits msg_chan.splits)
    next
      fix x assume x: "x \<in> set (remove1 s sl)" "sl_chan x = MHdr"
      then show "0 < msghdr_wait st' \<and> msgtql info \<le> cur_msghdrs st'"
        using waits_okD(3) [OF l x(1)] by (auto simp: has_reason_def st' split: msg_call.splits)
    next
      show "sleeps_on (MWait k t) (still st st' (remove1 s sl)) = sleeps_on (MWait k t) (remove1 s sl)" for k t by (rule cnt)
      show "wait_cnt t (msg_wait_list ?qp) = sleeps_on (MWait slot t) (still st st' (remove1 s sl))" for t
        unfolding cnt using waits_okD(1) [OF l slot] by simp
      show "0 < msg_wait_cnt w" if "w \<in> set (msg_wait_list ?qp)" for w using waits_okD(2) [OF l slot, of w] that by simp
    qed (use waits_okD(4) [OF ok] in \<open>auto simp: sl' st'\<close>)
  qed (use r l nw h s(2) in \<open>auto simp: msgsnd_resume_def has_reason_def\<close>)
qed

lemma msgrcv_intr_waits:
  assumes ok: "waits_ok info st sl" and s: "s \<in> set sl" "sl_call s = RcvCall a" and info: "msginfo_ok info" "msg_inv info st"
    and r: "msgrcv_resume env info a True st = (out, st')"
  shows "waits_ok info st' (still st st' (remove1 s sl))"
proof -
  have h: "has_reason info st s" by (rule waits_okD(3) [OF ok s(1)])
  show ?thesis
  proof (cases "0 < rc_msgtyp a")
    case False
    then have "st' = st" "\<And>k t. sl_chan s \<noteq> MWait k t" using r h s(2) by (auto simp: msgrcv_resume_def has_reason_def)
    then show ?thesis using waits_ok_leave [OF ok] by simp
  next
    case True
    obtain slot where c: "msgconv info (msgque st) (rc_msqid a) = Some slot" and ch: "sl_chan s = MWait slot (rc_msgtyp a)"
      using h s(2) True by (auto simp: has_reason_def split: msg_chan.splits)
    note slot = conjunct1 [OF msgconv_slot [OF info c]]
    let ?ws = "msg_wait_list (msgque st ! slot)"
    let ?qp = "(msgque st ! slot)\<lparr>msg_wait_list := wait_drop (rc_msgtyp a) ?ws\<rparr>"
    have st': "msgque st' = (msgque st)[slot := ?qp]" "cur_msghdrs st' = cur_msghdrs st" "msghdr_wait st' = msghdr_wait st" "wakes st [] st'"
      using r c True by (auto simp: msgrcv_resume_def)
    have pos: "\<forall>w\<in>set ?ws. 0 < msg_wait_cnt w" using waits_okD(2) [OF ok slot] by simp
    have "sleeps_on (MWait slot (rc_msgtyp a)) sl \<noteq> 0" using s(1) ch by (auto simp: sleeps_on_none)
    then have nz: "wait_cnt (rc_msgtyp a) ?ws \<noteq> 0" using waits_okD(1) [OF ok slot] by simp
    have sub: "x \<in> set (remove1 s sl) \<Longrightarrow> x \<in> set sl" for x using set_remove1_subset [of s sl] by blast
    show ?thesis unfolding still_quiet [OF st'(4)]
    proof (rule waits_ok_upd [OF ok slot st'(1)])
      fix x assume x: "has_reason info st x" "chan_slot (sl_chan x) = Some slot"
      have "msgconv info (msgque st') d = Some slot" if "msgconv info (msgque st) d = Some slot" for d
        unfolding st'(1) by (rule msgconv_upd_same [OF that]) simp_all
      then show "has_reason info st' x" using x slot
        by (auto simp: has_reason_def chan_slot_def st'(1) mode_has_def split: msg_call.splits msg_chan.splits)
    next
      fix x assume x: "x \<in> set sl" "sl_chan x = MHdr"
      then show "0 < msghdr_wait st' \<and> msgtql info \<le> cur_msghdrs st'"
        using waits_okD(3) [OF ok x(1)] by (auto simp: has_reason_def st' split: msg_call.splits)
    next
      show "sleeps_on (MWait k t) (remove1 s sl) = sleeps_on (MWait k t) sl" if "k \<noteq> slot" for k t
        using sleeps_on_remove [OF s(1), of "MWait k t"] ch that by simp
      show "wait_cnt t (msg_wait_list ?qp) = sleeps_on (MWait slot t) (remove1 s sl)" for t
        using sleeps_on_remove [OF s(1), of "MWait slot t"] ch wait_drop_cnt [OF pos nz] waits_okD(1) [OF ok slot] by simp
      show "0 < msg_wait_cnt w" if "w \<in> set (msg_wait_list ?qp)" for w using wait_drop_cnts [OF pos] that by simp
    qed (use waits_okD(4) [OF ok] sub in \<open>auto simp: st'\<close>)
  qed
qed

section \<open>Removal, creation and control\<close>

lemma rmid_msgs_waits:
  "waits_ok info st sl \<Longrightarrow> slot < length (msgque st) \<Longrightarrow>
     waits_ok info (rmid_msgs slot n st) (still st (rmid_msgs slot n st) sl) \<and> (\<exists>chs. wakes st chs (rmid_msgs slot n st))"
proof (induction n arbitrary: st sl)
  case 0
  have "\<exists>chs. wakes st chs st" using wakes_refl by blast
  then show ?case using 0 by simp
next
  case (Suc n)
  let ?s1 = "msgfree slot 0 st"
  have l: "slot < length (msgque ?s1)" using Suc.prems(2) by (simp add: msgfree_table)
  from Suc.IH [OF msgfree_waits [OF Suc.prems, of 0] l]
  obtain chs where w: "waits_ok info (rmid_msgs slot n ?s1) (still ?s1 (rmid_msgs slot n ?s1) (still st ?s1 sl))"
    "wakes ?s1 chs (rmid_msgs slot n ?s1)" by blast
  note f = msgfree_wakes(1) [OF Suc.prems(2), of 0]
  show ?case using w(1) wakes_trans [OF f w(2)] by (auto simp: still_trans [OF f w(2)])
qed

lemma wake_waits_wakes:
  "wakes st (map (\<lambda>w. MWait slot (msg_wait_type w)) ws) (wake_waits slot ws st)" "msghdr_wait (wake_waits slot ws st) = msghdr_wait st"
  by (induction ws arbitrary: st) (auto simp: wakes_def)

lemma rmid_locked_waits:
  assumes info: "msginfo_ok info" "msg_inv info st" and ok: "waits_ok info st sl"
    and r: "msgctl_rmid_locked info msqid st = (res, d, st')"
  shows "waits_ok info st' (still st st' sl)"
proof (cases "msgconv info (msgque st) msqid")
  case None
  then show ?thesis using r ok by (simp add: msgctl_rmid_locked_def)
next
  case (Some slot)
  note slot = conjunct1 [OF msgconv_slot [OF info Some]]
  define st1 where "st1 = rmid_msgs slot (length (msg_q (msgque st ! slot))) st"
  obtain chs where w: "waits_ok info st1 (still st st1 sl)" "wakes st chs st1"
    using rmid_msgs_waits [OF ok slot] unfolding st1_def by blast
  have slot1: "slot < length (msgque st1)" using slot by (simp add: st1_def rmid_msgs_table)
  let ?qp = "msgque st1 ! slot"
  define W where "W = map (\<lambda>w. MWait slot (msg_wait_type w)) (msg_wait_list ?qp)
     @ (if mode_has MSG_RWAIT ?qp then [MRead slot] else []) @ (if mode_has MSG_WWAIT ?qp then [MWrite slot] else [])"
  define seq where "seq = (if s64 (msqid + msgmni info) < 0 then 0 else u16 (ip_seq (msg_perm ?qp) + 1))"
  define qp' where "qp' = mode_upd (\<lambda>_. 0) (?qp\<lparr>msg_cbytes := 0, msg_perm := (msg_perm ?qp)\<lparr>ip_seq := seq\<rparr>, msg_wait_list := []\<rparr>)"
  have m: "mode_has b (?qp\<lparr>msg_cbytes := x, msg_perm := (msg_perm ?qp)\<lparr>ip_seq := y\<rparr>, msg_wait_list := z\<rparr>) = mode_has b ?qp" for b x y z
    by (simp add: mode_has_def)
  define q2 where "q2 = ?qp\<lparr>msg_cbytes := 0, msg_perm := (msg_perm ?qp)\<lparr>ip_seq := seq\<rparr>\<rparr>"
  define a2 where "a2 = qp_upd (\<lambda>qp. qp\<lparr>msg_perm := (msg_perm qp)\<lparr>ip_seq := (\<lambda>s. if s64 (msqid + msgmni info) < 0 then 0 else u16 (s + 1)) (ip_seq (msg_perm qp))\<rparr>\<rparr>) slot
      (qp_upd (\<lambda>qp. qp\<lparr>msg_cbytes := 0\<rparr>) slot st1)"
  define a4 where "a4 = qp_upd (\<lambda>qp. qp\<lparr>msg_wait_list := []\<rparr>) slot (wake_waits slot (msg_wait_list (msgque a2 ! slot)) a2)"
  define a5 where "a5 = (if mode_has MSG_RWAIT (msgque a4 ! slot) then msg_wakeup (MRead slot) a4 else a4)"
  define a6 where "a6 = (if mode_has MSG_WWAIT (msgque a5 ! slot) then msg_wakeup (MWrite slot) a5 else a5)"
  have e: "st' = qp_upd (mode_upd (\<lambda>_. 0)) slot a6"
    using r unfolding msgctl_rmid_locked_def Some option.case Let_def st1_def [symmetric] a6_def a5_def a4_def a2_def prod.inject by (elim conjE) (rule sym)
  have f2: "msgque a2 = (msgque st1)[slot := q2]" "cur_msghdrs a2 = cur_msghdrs st1" "msghdr_wait a2 = msghdr_wait st1" "wakes st1 [] a2"
    using slot1 by (simp_all add: a2_def q2_def seq_def wakes_def)
  have f4: "msgque a4 = (msgque st1)[slot := q2\<lparr>msg_wait_list := []\<rparr>]" "cur_msghdrs a4 = cur_msghdrs st1" "msghdr_wait a4 = msghdr_wait st1"
    "wakes st1 (map (\<lambda>w. MWait slot (msg_wait_type w)) (msg_wait_list ?qp)) a4"
    using slot1 f2 wake_waits_wakes(1) [of a2 slot "msg_wait_list ?qp"] wake_waits_wakes(2) [of slot "msg_wait_list ?qp" a2] by (simp_all add: a4_def wakes_def q2_def)
  have f5: "msgque a5 = msgque a4" "cur_msghdrs a5 = cur_msghdrs st1" "msghdr_wait a5 = msghdr_wait st1"
    "wakes a4 (if mode_has MSG_RWAIT ?qp then [MRead slot] else []) a5"
    using slot1 f4 by (simp_all add: a5_def wakes_def q2_def m)
  have f6: "msgque a6 = msgque a4" "cur_msghdrs a6 = cur_msghdrs st1" "msghdr_wait a6 = msghdr_wait st1"
    "wakes a5 (if mode_has MSG_WWAIT ?qp then [MWrite slot] else []) a6"
    using slot1 f4 f5 by (simp_all add: a6_def wakes_def q2_def m)
  have st': "msgque st' = (msgque st1)[slot := qp']" "cur_msghdrs st' = cur_msghdrs st1" "msghdr_wait st' = msghdr_wait st1" "wakes st1 W st'"
    using slot1 f4 f6 wakes_trans [OF wakes_trans [OF f4(4) f5(4)] f6(4)] by (simp_all add: e qp'_def q2_def W_def wakes_def)
  let ?sl = "still st st1 sl"
  have sl': "still st st' sl = filter (\<lambda>s. sl_chan s \<notin> set W) ?sl"
    unfolding still_trans [OF w(2) st'(4)] by (simp add: still_def [of st1] wakes_chans [OF st'(4)])
  have away: "chan_slot (sl_chan s) \<noteq> Some slot" if s: "s \<in> set (still st st' sl)" for s
  proof
    assume c: "chan_slot (sl_chan s) = Some slot"
    have s1: "s \<in> set ?sl" "sl_chan s \<notin> set W" using s by (auto simp: sl')
    have "sl_chan s \<noteq> MWait slot t" for t
    proof
      assume e: "sl_chan s = MWait slot t"
      then have "sleeps_on (MWait slot t) ?sl \<noteq> 0" using s1(1) by (auto simp: sleeps_on_none)
      then have "t \<in> msg_wait_type ` set (msg_wait_list ?qp)"
        using waits_okD(1) [OF w(1) slot1, of t] wait_cnt_none by metis
      then show False using s1(2) e by (auto simp: W_def)
    qed
    then show False using waits_okD(3) [OF w(1) s1(1)] s1(2) c
      by (auto simp: has_reason_def chan_slot_def W_def split: msg_call.splits msg_chan.splits if_splits)
  qed
  show ?thesis
  proof (rule waits_ok_upd [OF w(1) slot1 st'(1)])
    fix s assume s: "s \<in> set ?sl" "sl_chan s = MHdr"
    then show "0 < msghdr_wait st' \<and> msgtql info \<le> cur_msghdrs st'"
      using waits_okD(3) [OF w(1) s(1)] by (auto simp: has_reason_def st' split: msg_call.splits)
  next
    show "sleeps_on (MWait k t) (still st st' sl) = sleeps_on (MWait k t) ?sl" if "k \<noteq> slot" for k t
      unfolding sl' sleeps_on_filter using that by (auto simp: W_def split: if_splits)
    show "wait_cnt t (msg_wait_list qp') = sleeps_on (MWait slot t) (still st st' sl)" for t
    proof -
      have "sleeps_on (MWait slot t) (still st st' sl) = 0" using away by (force simp: sleeps_on_none chan_slot_def)
      then show ?thesis by (simp add: qp'_def)
    qed
    show "s \<in> set ?sl \<or> has_reason info st' s" if "s \<in> set (still st st' sl)" for s using that by (simp add: sl')
    show "has_reason info st' s" if "s \<in> set (still st st' sl)" "chan_slot (sl_chan s) = Some slot" for s using away that by blast
  qed (use waits_okD(4) [OF w(1)] in \<open>simp_all add: qp'_def st'\<close>)
qed

lemma mode_has_set:
  "((m AND NOT 0x1FF) OR (x AND 0x1FF)) AND MSG_RWAIT = m AND MSG_RWAIT"
  "((m AND NOT 0x1FF) OR (x AND 0x1FF)) AND MSG_WWAIT = m AND MSG_WWAIT" for m x :: "32 word"
  by (simp_all add: MSG_RWAIT_def MSG_WWAIT_def and.assoc bit.conj_disj_distrib2)

lemma msgctl_set_waits:
  assumes ok: "waits_ok info st sl" and slot: "slot < length (msgque st)" and r: "msgctl_set env slot uds st = (res, d, st')"
  shows "waits_ok info st' (still st st' sl)"
proof -
  obtain e st1 where o: "msg_owner (me_cred env) (msg_perm (msgque st ! slot)) st = (e, st1)" by fastforce
  then obtain b where st1: "st1 = st\<lparr>msg_asu := b\<rparr>" using msg_owner_frame by blast
  have asu: "waits_ok info (st\<lparr>msg_asu := x\<rparr>) sl" for x using ok waits_ok_cong [of "st\<lparr>msg_asu := x\<rparr>" st] by simp
  define set_ds where "set_ds (ds :: msqid_ds) qp = qp\<lparr>msg_perm := (msg_perm qp)
       \<lparr>ip_uid := ip_uid (msg_perm ds), ip_gid := ip_gid (msg_perm ds),
        ip_mode := (ip_mode (msg_perm qp) AND NOT 0x1FF) OR (ip_mode (msg_perm ds) AND 0x1FF)\<rparr>,
       msg_qbytes := u64 (msg_qbytes ds), msg_ctime := me_time env\<rparr>" for ds and qp :: msqid_ds
  have f: "msg_q (set_ds ds qp) = msg_q qp" "msg_wait_list (set_ds ds qp) = msg_wait_list qp"
    "ip_seq (msg_perm (set_ds ds qp)) = ip_seq (msg_perm qp)"
    "ip_mode (msg_perm (set_ds ds qp)) = (ip_mode (msg_perm qp) AND NOT 0x1FF) OR (ip_mode (msg_perm ds) AND 0x1FF)" for ds qp
    by (simp_all add: set_ds_def)
  have asu_simps: "msgque (st\<lparr>msg_asu := x\<rparr>) = msgque st" "cur_msghdrs (st\<lparr>msg_asu := x\<rparr>) = cur_msghdrs st"
    "msghdr_wait (st\<lparr>msg_asu := x\<rparr>) = msghdr_wait st" for x by simp_all
  have upd: "waits_ok info (qp_upd (set_ds ds) slot (st\<lparr>msg_asu := x\<rparr>)) sl" for ds x
    by (rule waits_ok_same [OF ok slot, where qp = "set_ds ds (msgque st ! slot)"])
      (simp_all only: f mode_has_def ipc_allocated_def mode_has_set alloc_mode asu_simps qp_upd_simps)
  have q: "wakes st [] (qp_upd f slot (st\<lparr>msg_asu := x\<rparr>))" for f x by (simp add: wakes_def)
  have "waits_ok info (qp_upd (set_ds ds) slot (st\<lparr>msg_asu := x\<rparr>)) (still st (qp_upd (set_ds ds) slot (st\<lparr>msg_asu := x\<rparr>)) sl)" for ds x
    using upd q by simp
  note U = this [unfolded set_ds_def]
  show ?thesis using r o asu U ok by (auto simp: msgctl_set_def st1 split: option.splits prod.splits)
qed

lemma msgctl_waits:
  assumes info: "msginfo_ok info" "msg_inv info st" and ok: "waits_ok info st sl"
    and r: "msgctl env info uds c msqid cmd st = (res, d, st')"
  shows "waits_ok info st' (still st st' sl)"
proof (cases "msgconv info (msgque st) msqid")
  case None
  then show ?thesis using r ok by (simp add: msgctl_def)
next
  case (Some slot)
  note slot = conjunct1 [OF msgconv_slot [OF info Some]]
  obtain e st1 where o: "msg_owner (me_cred env) (msg_perm (msgque st ! slot)) st = (e, st1)" by fastforce
  then obtain b where st1: "st1 = st\<lparr>msg_asu := b\<rparr>" using msg_owner_frame by blast
  have ok1: "waits_ok info st1 sl" "msg_inv info st1" using ok info waits_ok_cong [of st1 st] by (simp_all add: st1)
  have w: "still st st' sl = still st1 st' sl" by (simp add: still_def woken_chans_def st1)
  have rmid: "waits_ok info st' (still st st' sl)" if "msgctl_rmid env info msqid slot st = (res, d, st')"
  proof (cases e)
    case None
    then have "msgctl_rmid_locked info msqid st1 = (res, d, st')" using that o by (simp add: msgctl_rmid_def)
    from rmid_locked_waits [OF info(1) ok1(2,1) this] show ?thesis unfolding w .
  next
    case (Some e)
    then have "st' = st1" using that o by (simp add: msgctl_rmid_def)
    then show ?thesis unfolding w using ok1 by simp
  qed
  show ?thesis using r Some rmid msgctl_set_waits [OF ok slot, of env uds res d st'] ok
    by (auto simp: msgctl_def msgctl_stat_def Let_def split: if_splits)
qed

lemma msgget_waits:
  assumes info: "msginfo_ok info" "msg_inv info st" and ok: "waits_ok info st sl"
    and r: "msgget env info key flg st = (res, st')"
  shows "waits_ok info st' (still st st' sl)"
proof (cases "ipcget msg_perm msg_set_perm (me_cred env) (s32 key) flg (msgque st)")
  case (Inl e)
  then show ?thesis using r ok by (simp add: msgget_def)
next
  case (Inr x)
  obtain s slot tbl where x: "x = (s, slot, tbl)" by (cases x)
  show ?thesis
  proof (cases s)
    case False
    with Inr x have "tbl = msgque st" using msg_fac.ipcget_old by simp
    then show ?thesis using Inr x r False ok by (auto simp: msgget_def Let_def)
  next
    case True
    let ?qp = "msgque st ! slot"
    have new: "slot < length (msgque st)" "tbl = (msgque st)[slot := msg_set_perm (ipc_init (me_cred env) (s32 key) flg (msg_perm ?qp)) ?qp]"
      "\<not> ipc_allocated (msg_perm ?qp)"
      using msg_fac.ipcget_new Inr [unfolded x] True by auto
    have none: "msg_wait_list ?qp = []" using msg_inv_slot [OF info(2) new(1)] new(3) by (simp add: qp_ok_def)
    define qp' where "qp' = (msg_set_perm (ipc_init (me_cred env) (s32 key) flg (msg_perm ?qp)) ?qp)\<lparr>msg_q := [], msg_qnum := 0, msg_qbytes := u64 (msgmnb info),
        msg_lspid := 0, msg_lrpid := 0, msg_stime := 0, msg_rtime := 0, msg_ctime := me_time env\<rparr>"
    have st': "msgque st' = (msgque st)[slot := qp']" "cur_msghdrs st' = cur_msghdrs st" "msghdr_wait st' = msghdr_wait st" "wakes st [] st'"
      using r Inr x True new by (auto simp: msgget_def Let_def qp'_def wakes_def)
    have ws: "msg_wait_list qp' = []" using none by (simp add: qp'_def msg_set_perm_def)
    show ?thesis unfolding still_quiet [OF st'(4)]
    proof (rule waits_ok_upd [OF ok new(1) st'(1)])
      fix s assume s: "has_reason info st s" "chan_slot (sl_chan s) = Some slot"
      have "msgconv info (msgque st) d \<noteq> Some slot" for d using msgconv_slot [OF info, of d slot] new(3) by blast
      then show "has_reason info st' s" using s
        by (auto simp: has_reason_def chan_slot_def split: msg_call.splits msg_chan.splits)
    next
      fix s assume s: "s \<in> set sl" "sl_chan s = MHdr"
      then show "0 < msghdr_wait st' \<and> msgtql info \<le> cur_msghdrs st'"
        using waits_okD(3) [OF ok s(1)] by (auto simp: has_reason_def st' split: msg_call.splits)
    next
      show "wait_cnt t (msg_wait_list qp') = sleeps_on (MWait slot t) sl" for t
        using waits_okD(1) [OF ok new(1), of t] by (simp add: ws none)
    qed (use waits_okD(4) [OF ok] in \<open>simp_all add: ws st'\<close>)
  qed
qed

section \<open>Runs\<close>

lemma msg_init_waits: "msginfo_ok info \<Longrightarrow> waits_ok info (msg_init info) []"
  by (simp add: waits_ok_def msg_init_def zero_msqid_def)

lemma msg_run_waits:
  assumes "msg_run info st sl wk" "msginfo_ok info"
  shows "msg_inv info st \<and> waits_ok info st sl"
  using assms(1)
proof (induction rule: msg_run.induct)
  case mrun_init
  then show ?case using msg_init_inv msg_init_waits assms(2) by blast
next
  case (mrun_snd st sl wk env a out st')
  then have "msgsnd_pass env info True a st = (out, st')" by (simp add: msgsnd_def)
  then show ?case using msgsnd_pass_waits [OF assms(2)] msgsnd_pass_inv [OF assms(2)] mrun_snd by blast
next
  case (mrun_rcv st sl wk env b out st')
  then have "msgrcv_pass env info True (rcv_tag env b) st = (out, st')" by (simp add: msgrcv_def)
  then show ?case using msgrcv_pass_waits [OF assms(2)] msgrcv_pass_inv [OF assms(2)] mrun_rcv by blast
next
  case (mrun_snd_again st sl wk s a env out st')
  then have "msgsnd_pass env info False a st = (out, st')" by (simp add: msgsnd_resume_def)
  then show ?case using msgsnd_pass_waits [OF assms(2)] msgsnd_pass_inv [OF assms(2)] mrun_snd_again by blast
next
  case (mrun_rcv_again st sl wk s b env out st')
  then have "msgrcv_pass env info False b st = (out, st')" by (simp add: msgrcv_resume_def)
  then show ?case using msgrcv_pass_waits [OF assms(2)] msgrcv_pass_inv [OF assms(2)] mrun_rcv_again by blast
next
  case (mrun_snd_intr st sl wk s a env out st')
  then show ?case using msgsnd_intr_waits [OF _ _ _ assms(2)] msgsnd_resume_inv [OF assms(2)] by blast
next
  case (mrun_rcv_intr st sl wk s b env out st')
  then show ?case using msgrcv_intr_waits [OF _ _ _ assms(2)] msgrcv_resume_inv [OF assms(2)] by blast
next
  case (mrun_ctl st sl wk env uds c msqid cmd res d st')
  then show ?case using msgctl_waits [OF assms(2)] msgctl_inv [OF assms(2)] by blast
next
  case (mrun_rmid st sl wk msqid res d st')
  then show ?case using rmid_locked_waits [OF assms(2)] rmid_locked_inv [OF assms(2)] by blast
next
  case (mrun_get st sl wk env key flg r st')
  then show ?case using msgget_waits [OF assms(2)] msgget_inv [OF assms(2)] by blast
qed

end
