(* ===== verification/Svipc_Msg_Claims.thy ===== *)
theory Svipc_Msg_Claims
  imports Svipc_Msg_Wait
begin

text \<open>
  What the message queues promise: which message a receiver gets, that a message sent is the
  message received, what the byte limit of a queue means, what an identifier denotes, and the
  places where narrow integers break these promises.
\<close>

section \<open>Reachable states\<close>


definition ex_minfo :: msginfo where
  "ex_minfo = \<lparr>msgmax = 8192, msgmnb = 16384, msgmni = 4, msgtql = 40\<rparr>"

definition ex_menv :: "int \<Rightarrow> msg_env" where
  "ex_menv pid = \<lparr>me_cred = \<lparr>cr_uid = 0, cr_gid = 0\<rparr>, me_pid = pid, me_time = 100\<rparr>"

definition ex_snd :: "int \<Rightarrow> int \<Rightarrow> 8 word list \<Rightarrow> snd_args" where
  "ex_snd d t bs =
     \<lparr>sn_msqid = d, sn_msgsz = int (length bs), sn_msgflg = 0, sn_type = Some t, sn_text = Some bs\<rparr>"

definition ex_rcv :: "int \<Rightarrow> int \<Rightarrow> rcv_args" where
  "ex_rcv d t =
     \<lparr>rc_msqid = d, rc_msgsz = 100, rc_msgtyp = t, rc_msgflg = 0, rc_copytype = True, rc_copytext = True\<rparr>"

text \<open>One queue, with the identifier 0, that holds messages of types 5, 2 and 2.\<close>

definition ex_queue :: msg_state where
  "ex_queue =
     snd (msgsnd (ex_menv 7) ex_minfo (ex_snd 0 2 [4]) (snd (msgsnd (ex_menv 7) ex_minfo (ex_snd 0 2 [2, 3])
       (snd (msgsnd (ex_menv 7) ex_minfo (ex_snd 0 5 [1])
         (snd (msgget (ex_menv 7) ex_minfo 0 0x180 (msg_init ex_minfo))))))))"

lemma ex_minfo_ok: "msginfo_ok ex_minfo"
  by (simp add: msginfo_ok_def ex_minfo_def)

lemma ex_snd_ok: "length bs < 2147483648 \<Longrightarrow> snd_ok (ex_snd d t bs)"
  by (simp add: snd_ok_def ex_snd_def s32_id)

lemma ex_queue_reach: "msg_reach ex_minfo ex_queue"
  unfolding ex_queue_def
  by (intro mreach_step [OF mreach_step [OF mreach_step [OF mreach_step [OF mreach_init
        mstep_get [OF surjective_pairing]] mstep_snd [OF surjective_pairing]] mstep_snd [OF surjective_pairing]]
      mstep_snd [OF surjective_pairing]] ex_snd_ok) simp_all

lemma ex_queue_inv: "msg_inv ex_minfo ex_queue"
  by (rule msg_reach_inv [OF ex_queue_reach ex_minfo_ok])

lemma ex_queue_eval:
  "msgconv ex_minfo (msgque ex_queue) 0 = Some 0" "length (msgque ex_queue) = 4"
  "map msg_type (msg_q (msgque ex_queue ! 0)) = [5, 2, 2]"
  "map msg_text (msg_q (msgque ex_queue ! 0)) = [[1], [2, 3], [4]]"
  by code_simp+








section \<open>Which message is received\<close>

text \<open>The message at position \<open>i\<close> is the one a receiver asking for \<open>typ\<close> is entitled to.\<close>

definition msg_entitled :: "int \<Rightarrow> msg list \<Rightarrow> nat \<Rightarrow> bool" where
  "msg_entitled typ q i \<longleftrightarrow>
     i < length q
     \<and> (typ = 0 \<longrightarrow> i = 0)
     \<and> (typ > 0 \<longrightarrow> msg_type (q ! i) = typ \<and> (\<forall>j<i. msg_type (q ! j) \<noteq> typ))
     \<and> (typ < 0 \<longrightarrow> msg_type (q ! i) \<le> - typ
          \<and> (\<forall>j<length q. msg_type (q ! i) \<le> msg_type (q ! j))
          \<and> (\<forall>j<i. msg_type (q ! i) < msg_type (q ! j)))"

definition is_best :: "int \<Rightarrow> msg list \<Rightarrow> (nat \<times> int) option \<Rightarrow> bool" where
  "is_best lim p best \<longleftrightarrow>
     (case best of
        None \<Rightarrow> \<forall>m\<in>set p. msg_type m > lim
      | Some (j, y) \<Rightarrow> j < length p \<and> y = msg_type (p ! j) \<and> y \<le> lim
          \<and> (\<forall>k<length p. y \<le> msg_type (p ! k)) \<and> (\<forall>k<j. y < msg_type (p ! k)))"

lemma is_best_skip:
  assumes "is_best lim p best" "lim < msg_type m \<or> (\<exists>j y. best = Some (j, y) \<and> y \<le> msg_type m)"
  shows "is_best lim (p @ [m]) best"
  using assms by (cases best) (auto simp: is_best_def nth_append less_Suc_eq split: option.splits)

lemma is_best_new:
  assumes "is_best lim p best" "msg_type m \<le> lim" "\<forall>j y. best = Some (j, y) \<longrightarrow> msg_type m < y"
  shows "is_best lim (p @ [m]) (Some (length p, msg_type m))"
  using assms by (cases best) (force simp: is_best_def nth_append less_Suc_eq in_set_conv_nth split: option.splits)+

lemma msg_search_neg:
  "\<not> t > 0 \<Longrightarrow> is_best (s64 (- t)) p best \<Longrightarrow> is_best (s64 (- t)) (p @ q) (msg_search t (length p) best q)"
proof (induction q arbitrary: p best)
  case (Cons m q)
  have next_p: "is_best (s64 (- t)) ((p @ [m]) @ q) (msg_search t (length (p @ [m])) b q)"
    if "is_best (s64 (- t)) (p @ [m]) b" for b
    using Cons.IH [OF Cons.prems(1) that] .
  show ?case
  proof (cases "msg_type m \<le> s64 (- t) \<and> (\<forall>j y. best = Some (j, y) \<longrightarrow> msg_type m < y)")
    case True
    then show ?thesis
      using next_p [OF is_best_new [OF Cons.prems(2)]] Cons.prems(1) by (auto split: option.split)
  next
    case False
    then have "is_best (s64 (- t)) (p @ [m]) best" by (intro is_best_skip [OF Cons.prems(2)]) auto
    from next_p [OF this] False Cons.prems(1) show ?thesis by (auto split: option.split)
  qed
qed simp

lemma msg_search_pos:
  "t > 0 \<Longrightarrow> msg_search t i None q = Some (j, y) \<Longrightarrow>
     i \<le> j \<and> j < i + length q \<and> msg_type (q ! (j - i)) = t \<and> (\<forall>k<j - i. msg_type (q ! k) \<noteq> t)"
proof (induction q arbitrary: i)
  case (Cons m q)
  show ?case
  proof (cases "msg_type m = t")
    case True
    with Cons.prems show ?thesis by auto
  next
    case False
    then have "msg_search t (Suc i) None q = Some (j, y)" using Cons.prems by auto
    from Cons.IH [OF Cons.prems(1) this] False show ?thesis
      by (auto simp: nth_Cons_offset all_less_Cons_offset [where P = "\<lambda>m. msg_type m \<noteq> t"])
  qed
qed simp

lemma msg_search_pos_None:
  "t > 0 \<Longrightarrow> msg_search t i None q = None \<longleftrightarrow> (\<forall>m\<in>set q. msg_type m \<noteq> t)"
  by (induction q arbitrary: i) auto

lemma msg_select_entitled:
  assumes "- 9223372036854775808 < typ" "msg_select typ q = Some i"
  shows "msg_entitled typ q i"
proof (cases "typ < 0")
  case True
  then have s: "s64 (- typ) = - typ" using assms(1) by (intro s64_id) auto
  obtain y where y: "msg_search typ 0 None q = Some (i, y)"
    using assms(2) True by (auto simp: msg_select_def)
  have "is_best (s64 (- typ)) ([] @ q) (msg_search typ (length []) None q)"
    using True msg_search_neg [of "typ" "[]" None q] by (simp add: is_best_def)
  then show ?thesis using y True s by (auto simp: is_best_def msg_entitled_def)
next
  case False
  then show ?thesis
    using assms(2) msg_search_pos [of "typ" 0 q i]
    by (cases "typ = 0") (auto simp: msg_select_def msg_entitled_def split: if_splits)
qed

text \<open>C14: A successful \<open>msgrcv\<close> delivers exactly the message it is entitled to: the first of
  the queue, the first of the type asked for, or, for a negative type, the first of those
  with the lowest type not above its absolute value. The text is cut to the caller's buffer,
  the message leaves its queue, the order of the others is kept, and no other queue
  changes.\<close>
theorem msgrcv_delivers_entitled:
  assumes info: "msginfo_ok info" and inv: "msg_inv info st"
    and ty: "rc_msgflg a AND MSG_TAG = 0" "- 9223372036854775808 < rc_msgtyp a"
    and r: "msgrcv env info a st = (MsgRet t bs n, st')"
  shows "\<exists>slot i. msgconv info (msgque st) (rc_msqid a) = Some slot
    \<and> (let q = msg_q (msgque st ! slot) in
         msg_entitled (rc_msgtyp a) q i \<and> t = msg_type (q ! i)
         \<and> n = min (rc_msgsz a) (msg_ts (q ! i)) \<and> bs = take (nat n) (msg_text (q ! i))
         \<and> msg_q (msgque st' ! slot) = take i q @ drop (Suc i) q)
    \<and> (\<forall>s. s \<noteq> slot \<longrightarrow> msgque st' ! s = msgque st ! s)"
proof -
  have pass: "msgrcv_pass env info True a st = (MsgRet t bs n, st')"
    using r ty(1) by (simp add: msgrcv_def rcv_tag_def)
  obtain slot where slot: "msgconv info (msgque st) (rc_msqid a) = Some slot"
    using pass by (auto simp: msgrcv_pass_def split: option.splits)
  note c = msgconv_slot [OF info inv slot]
  obtain i where sel: "msg_select (rc_msgtyp a) (msg_q (msgque st ! slot)) = Some i"
    and tk: "msgrcv_take env a slot i st = (MsgRet t bs n, st')"
    using pass slot by (auto simp: msgrcv_pass_def Let_def msgrcv_wait_def split: option.splits if_splits)
  note tbl = rcv_take_table [OF conjunct1 [OF c] tk]
  have "t = msg_type (msg_q (msgque st ! slot) ! i)
      \<and> n = min (rc_msgsz a) (msg_ts (msg_q (msgque st ! slot) ! i))
      \<and> bs = take (nat n) (msg_text (msg_q (msgque st ! slot) ! i))"
    using tk by (auto simp: msgrcv_take_def Let_def split: if_splits)
  then show ?thesis
    using slot msg_select_entitled [OF ty(2) sel] tbl(1) c
    by (intro exI [of _ slot] exI [of _ i]) (simp add: Let_def qp_take_def)
qed

theorem msgrcv_delivers_entitled_witness:
  "\<exists>st'. msgrcv (ex_menv 8) ex_minfo (ex_rcv 0 (- 4)) ex_queue = (MsgRet 2 [2, 3] 2, st')
     \<and> map msg_type (msg_q (msgque st' ! 0)) = [5, 2]"
proof -
  have ev: "fst (msgrcv (ex_menv 8) ex_minfo (ex_rcv 0 (- 4)) ex_queue) = MsgRet 2 [2, 3] 2" by code_simp
  then obtain st' where r: "msgrcv (ex_menv 8) ex_minfo (ex_rcv 0 (- 4)) ex_queue = (MsgRet 2 [2, 3] 2, st')"
    by (metis prod.collapse)
  obtain a b c where q: "msg_q (msgque ex_queue ! 0) = [a, b, c]" "msg_type a = 5" "msg_type b = 2" "msg_type c = 2"
    using ex_queue_eval(3) by auto
  have "rc_msgflg (ex_rcv 0 (- 4)) AND MSG_TAG = 0" "- 9223372036854775808 < rc_msgtyp (ex_rcv 0 (- 4))"
    "rc_msqid (ex_rcv 0 (- 4)) = 0" "rc_msgtyp (ex_rcv 0 (- 4)) = - 4"
    by (simp_all add: ex_rcv_def)
  from msgrcv_delivers_entitled [OF ex_minfo_ok ex_queue_inv this(1,2) r] this(3,4) q ex_queue_eval(1)
  obtain i where i: "msg_entitled (- 4) [a, b, c] i" "msg_q (msgque st' ! 0) = take i [a, b, c] @ drop (Suc i) [a, b, c]"
    by (auto simp: Let_def)
  have "i = 1"
  proof -
    have "i < 3" "msg_type ([a, b, c] ! i) \<le> 4" "\<forall>j<i. msg_type ([a, b, c] ! i) < msg_type ([a, b, c] ! j)"
      using i(1) by (auto simp: msg_entitled_def)
    moreover have "i = 0 \<or> i = 1 \<or> i = 2" using \<open>i < 3\<close> by auto
    ultimately show ?thesis using q by (auto simp: numeral_2_eq_2)
  qed
  with i(2) q r show ?thesis by simp
qed

section \<open>Sending\<close>

text \<open>What a successful \<open>msgsnd\<close> did.\<close>

lemma msgsnd_effect:
  assumes info: "msginfo_ok info" and inv: "msg_inv info st"
    and r: "msgsnd env info a st = (MsgRet v w x, st')"
  obtains slot t where "msgconv info (msgque st) (sn_msqid a) = Some slot" "slot < length (msgque st)"
    "(if sn_msgflg a AND MSG_TAG \<noteq> 0 then Some (me_pid env) else sn_type a) = Some t" "1 \<le> t"
    "0 \<le> s32 (sn_msgsz a)" "s32 (sn_msgsz a) \<le> msgmax info"
    "s32 (sn_msgsz a) + msg_cbytes (msgque st ! slot) \<le> msg_qbytes (msgque st ! slot)"
    "cur_msghdrs st < msgtql info"
    "msgque st' = (msgque st)[slot := qp_put env (s32 (sn_msgsz a)) t
        (if s32 (sn_msgsz a) = 0 then [] else take (nat (s32 (sn_msgsz a))) (the (sn_text a))) (msgque st ! slot)]"
    "s32 (sn_msgsz a) = 0 \<or> sn_text a \<noteq> None"
proof -
  obtain slot where slot: "msgconv info (msgque st) (sn_msqid a) = Some slot"
    using r by (auto simp: msgsnd_def msgsnd_pass_def split: option.splits)
  note c = msgconv_slot [OF info inv slot]
  show ?thesis
    using r slot c
    by (intro that [of slot "the (if sn_msgflg a AND MSG_TAG \<noteq> 0 then Some (me_pid env) else sn_type a)"])
      (auto simp: msgsnd_def msgsnd_pass_def Let_def msgsnd_put_table split: if_splits option.splits)
qed

text \<open>A message that was sent is received as it was sent: when a \<open>msgsnd\<close> of type \<open>t\<close>
  succeeds on a queue without other messages of that type, a \<open>msgrcv\<close> for the type with a
  large enough buffer returns its type and text, and the queue is as before.\<close>
theorem msgsnd_msgrcv_roundtrip:
  assumes info: "msginfo_ok info" and inv: "msg_inv info st" and a: "snd_ok a"
    and s: "msgsnd env info a st = (MsgRet v w x, st1)"
    and slot: "msgconv info (msgque st) (sn_msqid a) = Some slot"
    and ty: "sn_msgflg a AND MSG_TAG = 0" "sn_type a = Some t"
    and none: "\<forall>m\<in>set (msg_q (msgque st ! slot)). msg_type m \<noteq> t"
    and b: "rc_msqid b = sn_msqid a" "rc_msgtyp b = t" "s32 (sn_msgsz a) \<le> rc_msgsz b"
      "rc_msgflg b AND MSG_TAG = 0" "rc_copytype b" "rc_copytext b"
    and acc: "\<not> ipcaccess (me_cred env') (msg_perm (msgque st1 ! slot)) MSG_R"
  shows "\<exists>st2. msgrcv env' info b st1 =
      (MsgRet t (if s32 (sn_msgsz a) = 0 then [] else take (nat (s32 (sn_msgsz a))) (the (sn_text a)))
         (s32 (sn_msgsz a)), st2)
    \<and> msg_q (msgque st2 ! slot) = msg_q (msgque st ! slot)"
proof -
  let ?cnt = "s32 (sn_msgsz a)"
  define bs where "bs = (if ?cnt = 0 then [] else take (nat ?cnt) (the (sn_text a)))"
  obtain slot' t' where e: "msgconv info (msgque st) (sn_msqid a) = Some slot'" "slot' < length (msgque st)"
    "(if sn_msgflg a AND MSG_TAG \<noteq> 0 then Some (me_pid env) else sn_type a) = Some t'" "1 \<le> t'"
    "0 \<le> ?cnt" "msgque st1 = (msgque st)[slot' := qp_put env ?cnt t' bs (msgque st ! slot')]"
    using msgsnd_effect [OF info inv s] unfolding bs_def by metis
  have eq: "slot' = slot" "t' = t" using e(1,3) slot ty by auto
  have inv1: "msg_inv info st1"
    using msgsnd_pass_inv [OF info inv a] s by (simp add: msgsnd_def)
  have conv1: "msgconv info (msgque st1) (sn_msqid a) = Some slot"
  proof -
    note len = msg_table_length [OF inv info] msg_table_length [OF inv1 info]
    have "msgconv info (msgque st) (s32 (sn_msqid a)) = Some slot" using slot by (simp add: msgconv_s32)
    then have "msgconv info (msgque st1) (s32 (sn_msqid a)) = Some slot"
      unfolding msg_ids.conv_iff [OF len(1) s32_bounds] msg_ids.conv_iff [OF len(2) s32_bounds]
      using e(2,6) eq by auto
    then show ?thesis by (simp add: msgconv_s32)
  qed
  let ?q = "msg_q (msgque st ! slot)" and ?m = "\<lparr>msg_type = t, msg_ts = ?cnt, msg_text = bs\<rparr>"
  have q1: "msg_q (msgque st1 ! slot) = ?q @ [?m]" using e(2,6) eq by (simp add: qp_put_def)
  have t0: "0 < t" using e(4) eq by simp
  have sel: "msg_select t (?q @ [?m]) = Some (length ?q)"
  proof -
    have "msg_search t i None (q @ [?m]) = Some (i + length q, t)" if "\<forall>m\<in>set q. msg_type m \<noteq> t" for i q
      using that t0 by (induction q arbitrary: i) auto
    from this [of ?q 0] none t0 show ?thesis by (simp add: msg_select_def)
  qed
  have size: "int (length bs) = ?cnt"
    using msg_inv_slot [OF inv1, of slot] e(2,6) q1 eq by (simp add: qp_ok_def msg_ok_def)
  obtain st2 where take: "msgrcv_take env' b slot (length ?q) st1 = (MsgRet t bs ?cnt, st2)"
    using b(3,5,6) q1 size by (auto simp: msgrcv_take_def Let_def)
  have "msgrcv env' info b st1 = (MsgRet t bs ?cnt, st2)"
    using conv1 acc b e(5) q1 sel take by (simp add: msgrcv_def rcv_tag_def msgrcv_pass_def Let_def)
  moreover have "msg_q (msgque st2 ! slot) = ?q"
  proof -
    have l1: "slot < length (msgque st1)" using e(2,6) eq by simp
    show ?thesis using rcv_take_table [OF l1 take] l1 q1 by (simp add: qp_take_def)
  qed
  ultimately show ?thesis by (auto simp: bs_def)
qed

theorem msgsnd_msgrcv_roundtrip_witness:
  "\<exists>st1 st2. msgsnd (ex_menv 7) ex_minfo (ex_snd 0 9 [7, 8]) ex_queue = (MsgRet 0 [] 0, st1)
    \<and> msgrcv (ex_menv 8) ex_minfo (ex_rcv 0 9) st1 = (MsgRet 9 [7, 8] 2, st2)"
proof -
  let ?a = "ex_snd 0 9 [7, 8]" and ?b = "ex_rcv 0 9"
  have "fst (msgsnd (ex_menv 7) ex_minfo ?a ex_queue) = MsgRet 0 [] 0" by code_simp
  then obtain st1 where r: "msgsnd (ex_menv 7) ex_minfo ?a ex_queue = (MsgRet 0 [] 0, st1)"
    by (metis prod.collapse)
  have args: "sn_msqid ?a = 0" "s32 (sn_msgsz ?a) = 2" "sn_msgflg ?a AND MSG_TAG = 0" "sn_type ?a = Some 9"
    "the (sn_text ?a) = [7, 8]" "rc_msqid ?b = sn_msqid ?a" "rc_msgtyp ?b = 9" "s32 (sn_msgsz ?a) \<le> rc_msgsz ?b"
    "rc_msgflg ?b AND MSG_TAG = 0" "rc_copytype ?b" "rc_copytext ?b"
    by (simp_all add: ex_snd_def ex_rcv_def s32_def)
  have slot: "msgconv ex_minfo (msgque ex_queue) (sn_msqid ?a) = Some 0"
    using ex_queue_eval(1) args(1) by simp
  have "\<forall>x\<in>set (map msg_type (msg_q (msgque ex_queue ! 0))). x \<noteq> 9" using ex_queue_eval(3) by simp
  then have none: "\<forall>m\<in>set (msg_q (msgque ex_queue ! 0)). msg_type m \<noteq> 9" by simp
  have acc: "\<not> ipcaccess (me_cred (ex_menv 8)) p MSG_R" for p by (simp add: ipcaccess_def ex_menv_def)
  from msgsnd_msgrcv_roundtrip [OF ex_minfo_ok ex_queue_inv ex_snd_ok r slot args(3,4) none args(6-11) acc]
    r args(2,5) show ?thesis by auto
qed

text \<open>C39: While no more than 65535 bytes may be queued, the byte limit of a queue is exact: a
  successful \<open>msgsnd\<close> on a queue that holds at most 65535 bytes leaves at most \<open>msg_qbytes\<close>
  bytes queued, and the recorded byte count is the number of bytes.\<close>
theorem msgsnd_keeps_limit:
  assumes info: "msginfo_ok info" and inv: "msg_inv info st"
    and r: "msgsnd env info a st = (MsgRet v w x, st')"
    and slot: "msgconv info (msgque st) (sn_msqid a) = Some slot"
    and small: "q_bytes (msg_q (msgque st ! slot)) \<le> 65535" "msg_qbytes (msgque st ! slot) \<le> 65535"
  shows "q_bytes (msg_q (msgque st' ! slot)) \<le> msg_qbytes (msgque st' ! slot)
    \<and> msg_cbytes (msgque st' ! slot) = q_bytes (msg_q (msgque st' ! slot))"
proof -
  obtain slot' t bs where e: "msgconv info (msgque st) (sn_msqid a) = Some slot'" "slot' < length (msgque st)"
    "0 \<le> s32 (sn_msgsz a)"
    "s32 (sn_msgsz a) + msg_cbytes (msgque st ! slot') \<le> msg_qbytes (msgque st ! slot')"
    "msgque st' = (msgque st)[slot' := qp_put env (s32 (sn_msgsz a)) t bs (msgque st ! slot')]"
    by (rule msgsnd_effect [OF info inv r]) blast
  have eq: "slot' = slot" using e(1) slot by simp
  have ok: "qp_ok info (msgque st ! slot)" using msg_inv_slot [OF inv] e(2) eq by simp
  have "0 \<le> q_bytes (msg_q (msgque st ! slot))"
    using ok by (auto simp: q_bytes_def qp_ok_def msg_ok_def intro!: sum_list_nonneg)
  then have cb: "msg_cbytes (msgque st ! slot) = q_bytes (msg_q (msgque st ! slot))"
    using ok small(1) by (simp add: qp_ok_def u16_id)
  then show ?thesis
    using e eq small \<open>0 \<le> q_bytes _\<close> by (simp add: qp_put_def u16_id)
qed

theorem msgsnd_keeps_limit_witness:
  "\<exists>st'. msgsnd (ex_menv 7) ex_minfo (ex_snd 0 9 [7, 8]) ex_queue = (MsgRet 0 [] 0, st')
    \<and> q_bytes (msg_q (msgque st' ! 0)) \<le> msg_qbytes (msgque st' ! 0)"
proof -
  have ev: "fst (msgsnd (ex_menv 7) ex_minfo (ex_snd 0 9 [7, 8]) ex_queue) = MsgRet 0 [] 0"
    "q_bytes (msg_q (msgque ex_queue ! 0)) = 4" "msg_qbytes (msgque ex_queue ! 0) = 16384" by code_simp+
  then obtain st' where r: "msgsnd (ex_menv 7) ex_minfo (ex_snd 0 9 [7, 8]) ex_queue = (MsgRet 0 [] 0, st')"
    by (metis prod.collapse)
  have "msgconv ex_minfo (msgque ex_queue) (sn_msqid (ex_snd 0 9 [7, 8])) = Some 0"
    using ex_queue_eval(1) by (simp add: ex_snd_def)
  from msgsnd_keeps_limit [OF ex_minfo_ok ex_queue_inv r this] ev r show ?thesis by simp
qed

text \<open>Beyond 65535 the limit means nothing: when the super-user raised \<open>msg_qbytes\<close> to
  65535 + \<open>msgmax\<close> or more, the 16-bit byte count never reaches it, so that no \<open>msgsnd\<close> ever
  waits for room on the queue or fails for lack of it, whatever the queue holds.\<close>
theorem msgsnd_limit_unenforced:
  assumes "msginfo_ok info" "msg_inv info st" "msgconv info (msgque st) (sn_msqid a) = Some slot"
    and "65535 + msgmax info \<le> msg_qbytes (msgque st ! slot)"
  shows "(\<forall>s. fst (msgsnd env info a st) \<noteq> MsgSleep (MWrite s))
    \<and> (fst (msgsnd env info a st) = MsgErr EAGAIN \<longrightarrow> msgtql info \<le> cur_msghdrs st)"
proof -
  have c: "slot < length (msgque st)" using msgconv_slot [OF assms(1-3)] by blast
  have "u16 x \<le> 65535" for x using u16_range(2) [of x] by linarith
  then have "msg_cbytes (msgque st ! slot) \<le> 65535"
    using msg_inv_slot [OF assms(2) c] by (simp add: qp_ok_def)
  then have room: "\<not> (s32 (sn_msgsz a) + msg_cbytes (msgque st ! slot) > msg_qbytes (msgque st ! slot))"
    if "s32 (sn_msgsz a) \<le> msgmax info" using assms(4) that by simp
  show ?thesis
    using room assms(3) by (auto simp: msgsnd_def msgsnd_pass_def Let_def split: option.splits)
qed

definition ex_big :: msg_state where
  "ex_big = snd (snd (msgctl (ex_menv 7) ex_minfo (Some (zero_msqid\<lparr>msg_qbytes := 100000\<rparr>)) True 0 1 ex_queue))"

theorem msgsnd_limit_unenforced_witness:
  "\<forall>s. fst (msgsnd (ex_menv 7) ex_minfo (ex_snd 0 9 [7, 8]) ex_big) \<noteq> MsgSleep (MWrite s)"
proof -
  obtain res d where "msgctl (ex_menv 7) ex_minfo (Some (zero_msqid\<lparr>msg_qbytes := 100000\<rparr>)) True 0 1 ex_queue
      = (res, d, ex_big)"
    unfolding ex_big_def by (metis prod.collapse)
  from msgctl_inv [OF ex_minfo_ok ex_queue_inv this] have inv: "msg_inv ex_minfo ex_big" .
  have ev: "msgconv ex_minfo (msgque ex_big) 0 = Some 0" "msg_qbytes (msgque ex_big ! 0) = 100000" by code_simp+
  have "sn_msqid (ex_snd 0 9 [7, 8]) = 0" "msgmax ex_minfo = 8192" by (simp_all add: ex_snd_def ex_minfo_def)
  with msgsnd_limit_unenforced [OF ex_minfo_ok inv, of "ex_snd 0 9 [7, 8]" 0 "ex_menv 7"] ev show ?thesis by simp
qed

section \<open>Identifiers\<close>

text \<open>A successful \<open>IPC_RMID\<close> empties the queue and invalidates its identifier, and changes
  the meaning of no other; the sequence number of the slot advances, provided the caller
  passed the identifier itself and not a 64-bit number that \<open>msgconv\<close> truncates to it.\<close>
theorem msg_rmid_invalidates:
  assumes info: "msginfo_ok info" and inv: "msg_inv info st"
    and r: "msgctl env info uds c msqid 0 st = (Inr v, d, st')"
  shows "msgconv info (msgque st') msqid = None
    \<and> (\<exists>slot. msgconv info (msgque st) msqid = Some slot \<and> msg_q (msgque st' ! slot) = []
        \<and> (0 \<le> msqid \<and> msqid < 2147483648 \<longrightarrow>
             ip_seq (msg_perm (msgque st' ! slot)) = u16 (ip_seq (msg_perm (msgque st ! slot)) + 1))
        \<and> (\<forall>k. msgconv info (msgque st) k \<noteq> Some slot \<longrightarrow> msgconv info (msgque st') k = msgconv info (msgque st) k))"
proof -
  obtain slot where slot: "msgconv info (msgque st) msqid = Some slot"
    using r by (auto simp: msgctl_def split: option.splits)
  note s = msgconv_slot [OF info inv slot]
  obtain e st1 where o: "msg_owner (me_cred env) (msg_perm (msgque st ! slot)) st = (e, st1)" by fastforce
  then obtain b where st1: "st1 = st\<lparr>msg_asu := b\<rparr>" using msg_owner_frame by blast
  have lk: "msgctl_rmid_locked info msqid st1 = (Inr v, d, st')"
    using r slot o by (auto simp: msgctl_def msgctl_rmid_def split: option.splits)
  define seq where "seq = (if s64 (msqid + msgmni info) < 0 then 0
      else u16 (ip_seq (msg_perm (msgque st ! slot)) + 1))"
  have t: "msgque st' = (msgque st)[slot := qp_removed seq (msgque st ! slot)]"
    using rmid_table [of slot st1 info msqid, OF _ _ lk] s slot by (simp add: st1 seq_def)
  have "0 \<le> seq" "seq < 65536" by (simp_all add: seq_def)
  note rem = qp_removed_ok [OF msg_inv_slot [OF inv conjunct1 [OF s]] this]
  have conv: "msgconv info (msgque st') k = (if msgconv info (msgque st) k = Some slot then None else msgconv info (msgque st) k)" for k
    using msg_ids.conv_freed [OF msg_table_length [OF inv info] s32_bounds rem(3), where k = slot, of k]
    by (simp add: t msgconv_s32)
  have sq: "seq = u16 (ip_seq (msg_perm (msgque st ! slot)) + 1)" if "0 \<le> msqid" "msqid < 2147483648"
  proof -
    have "s64 (msqid + msgmni info) = msqid + msgmni info"
      using that info by (intro s64_id) (auto simp: msginfo_ok_def)
    then show ?thesis using that info by (simp add: seq_def msginfo_ok_def)
  qed
  have "ip_seq (msg_perm (msgque st' ! slot)) = seq" using t s by (simp add: qp_removed_def)
  then show ?thesis using slot conv rem(2) sq t s by (intro conjI exI [of _ slot]) auto
qed

theorem msg_rmid_invalidates_witness:
  "\<exists>st'. msgctl (ex_menv 7) ex_minfo None True 0 0 ex_queue = (Inr 0, None, st') \<and> msgconv ex_minfo (msgque st') 0 = None"
proof -
  have "fst (msgctl (ex_menv 7) ex_minfo None True 0 0 ex_queue) = Inr 0
      \<and> fst (snd (msgctl (ex_menv 7) ex_minfo None True 0 0 ex_queue)) = None"
    by (simp add: msgctl_def ex_queue_eval(1) msgctl_rmid_def msg_owner_def suser_def ex_menv_def
        msgctl_rmid_locked_def Let_def)
  then obtain st' where r: "msgctl (ex_menv 7) ex_minfo None True 0 0 ex_queue = (Inr 0, None, st')"
    by (metis prod.collapse)
  from msg_rmid_invalidates [OF ex_minfo_ok ex_queue_inv r] r show ?thesis by auto
qed

end
