(* ===== verification/Bpf.thy ===== *)
theory Bpf
  imports OSF_Prelude
begin

text \<open>
  The BSD packet filter of \<open>kernel/net/bpf_filter.c\<close> in its kernel configuration: loads from a
  flat packet or an mbuf chain, the instruction interpreter \<open>bpf_filter\<close> and the verifier
  \<open>bpf_validate\<close> that \<open>BIOCSETF\<close> (\<open>net/pfilt_bpf.c\<close>) runs on a user's program.

  The flat \<open>switch\<close> of the interpreter is split by instruction class; every \<open>case\<close> keeps its
  full code. \<open>A\<close>, \<open>X\<close> and \<open>mem\<close> start with whatever the stack holds, so they are arguments.
  Memory is only read where the model has bytes for it: a read before or beyond a buffer, an
  access beyond \<open>mem\<close>, a fetch outside the program and a division by zero are faults. A
  shift by 32 or more, which C leaves undefined, is a parameter.
\<close>

section \<open>Instructions\<close>

record bpf_insn =
  bi_code :: "16 word"
  bi_jt :: "8 word"
  bi_jf :: "8 word"
  bi_k :: "32 word"

definition BPF_CLASS :: "16 word \<Rightarrow> 16 word" where "BPF_CLASS c = c AND 0x07"
definition BPF_MODE :: "16 word \<Rightarrow> 16 word" where "BPF_MODE c = c AND 0xe0"
definition BPF_OP :: "16 word \<Rightarrow> 16 word" where "BPF_OP c = c AND 0xf0"

definition BPF_LD :: "16 word" where "BPF_LD = 0x00"
definition BPF_LDX :: "16 word" where "BPF_LDX = 0x01"
definition BPF_ST :: "16 word" where "BPF_ST = 0x02"
definition BPF_STX :: "16 word" where "BPF_STX = 0x03"
definition BPF_ALU :: "16 word" where "BPF_ALU = 0x04"
definition BPF_JMP :: "16 word" where "BPF_JMP = 0x05"
definition BPF_RET :: "16 word" where "BPF_RET = 0x06"
definition BPF_MISC :: "16 word" where "BPF_MISC = 0x07"
definition BPF_W :: "16 word" where "BPF_W = 0x00"
definition BPF_H :: "16 word" where "BPF_H = 0x08"
definition BPF_B :: "16 word" where "BPF_B = 0x10"
definition BPF_IMM :: "16 word" where "BPF_IMM = 0x00"
definition BPF_ABS :: "16 word" where "BPF_ABS = 0x20"
definition BPF_IND :: "16 word" where "BPF_IND = 0x40"
definition BPF_MEM :: "16 word" where "BPF_MEM = 0x60"
definition BPF_LEN :: "16 word" where "BPF_LEN = 0x80"
definition BPF_MSH :: "16 word" where "BPF_MSH = 0xa0"
definition BPF_ADD :: "16 word" where "BPF_ADD = 0x00"
definition BPF_SUB :: "16 word" where "BPF_SUB = 0x10"
definition BPF_MUL :: "16 word" where "BPF_MUL = 0x20"
definition BPF_DIV :: "16 word" where "BPF_DIV = 0x30"
definition BPF_OR :: "16 word" where "BPF_OR = 0x40"
definition BPF_AND :: "16 word" where "BPF_AND = 0x50"
definition BPF_LSH :: "16 word" where "BPF_LSH = 0x60"
definition BPF_RSH :: "16 word" where "BPF_RSH = 0x70"
definition BPF_NEG :: "16 word" where "BPF_NEG = 0x80"
definition BPF_JA :: "16 word" where "BPF_JA = 0x00"
definition BPF_JEQ :: "16 word" where "BPF_JEQ = 0x10"
definition BPF_JGT :: "16 word" where "BPF_JGT = 0x20"
definition BPF_JGE :: "16 word" where "BPF_JGE = 0x30"
definition BPF_JSET :: "16 word" where "BPF_JSET = 0x40"
definition BPF_K :: "16 word" where "BPF_K = 0x00"
definition BPF_X :: "16 word" where "BPF_X = 0x08"
definition BPF_A :: "16 word" where "BPF_A = 0x10"
definition BPF_TAX :: "16 word" where "BPF_TAX = 0x00"
definition BPF_TXA :: "16 word" where "BPF_TXA = 0x80"
definition BPF_MEMWORDS :: int where "BPF_MEMWORDS = 16"

lemmas bpf_codes =
  BPF_LD_def BPF_LDX_def BPF_ST_def BPF_STX_def BPF_ALU_def BPF_JMP_def BPF_RET_def BPF_MISC_def
  BPF_W_def BPF_H_def BPF_B_def BPF_IMM_def BPF_ABS_def BPF_IND_def BPF_MEM_def BPF_LEN_def BPF_MSH_def
  BPF_ADD_def BPF_SUB_def BPF_MUL_def BPF_DIV_def BPF_OR_def BPF_AND_def BPF_LSH_def BPF_RSH_def BPF_NEG_def
  BPF_JA_def BPF_JEQ_def BPF_JGT_def BPF_JGE_def BPF_JSET_def BPF_K_def BPF_X_def BPF_A_def BPF_TAX_def BPF_TXA_def

section \<open>Packets\<close>

text \<open>\<open>bm_buf\<close> holds the bytes from the data pointer to the end of the mbuf's storage, of which
  the first \<open>bm_len\<close> are data.\<close>

record bpf_mbuf =
  bm_len :: int
  bm_buf :: "8 word list"

datatype bpf_pkt = Flat "8 word list" | Chain "bpf_mbuf list"

definition buflen :: "bpf_pkt \<Rightarrow> 32 word" where
  "buflen p = (case p of Flat bs \<Rightarrow> word_of_nat (length bs) | Chain ms \<Rightarrow> 0)"

definition byte_at :: "8 word list \<Rightarrow> int \<Rightarrow> 8 word option" where
  "byte_at bs i = (if i < 0 then None else aref bs (nat i))"

definition EXTRACT_SHORT :: "8 word list \<Rightarrow> int \<Rightarrow> 32 word option" where
  "EXTRACT_SHORT bs i =
     (case (byte_at bs i, byte_at bs (i + 1)) of
        (Some a, Some b) \<Rightarrow> Some (push_bit 8 (ucast a) OR ucast b)
      | _ \<Rightarrow> None)"

definition EXTRACT_LONG :: "8 word list \<Rightarrow> int \<Rightarrow> 32 word option" where
  "EXTRACT_LONG bs i =
     (case (byte_at bs i, byte_at bs (i + 1), byte_at bs (i + 2), byte_at bs (i + 3)) of
        (Some a, Some b, Some c, Some d) \<Rightarrow>
          Some (push_bit 24 (ucast a) OR push_bit 16 (ucast b) OR push_bit 8 (ucast c) OR ucast d)
      | _ \<Rightarrow> None)"

text \<open>\<open>MINDEX\<close> and the loops of \<open>m_xword\<close> and \<open>m_xhalf\<close>: the mbuf that holds offset \<open>k\<close>, the
  mbufs after it and the offset inside it; \<open>None\<close> at the end of the chain.\<close>

fun mindex :: "bpf_mbuf list \<Rightarrow> int \<Rightarrow> (bpf_mbuf \<times> bpf_mbuf list \<times> int) option" where
  "mindex [] k = None"
| "mindex (m # ms) k = (if k \<ge> bm_len m then mindex ms (k - bm_len m) else Some (m, ms, k))"

text \<open>The result is the value and \<open>*err\<close>; \<open>None\<close> is a read outside the storage. The cases that
  straddle two mbufs index \<open>cp\<close>, which already points at offset \<open>k\<close>, by \<open>k\<close> again.\<close>

definition m_xword :: "bpf_mbuf list \<Rightarrow> int \<Rightarrow> (32 word \<times> bool) option" where
  "m_xword ms k =
     (case mindex ms k of
        None \<Rightarrow> Some (0, True)
      | Some (m, rest, k) \<Rightarrow>
          if bm_len m - k \<ge> 4 then map_option (\<lambda>v. (v, False)) (EXTRACT_LONG (bm_buf m) k)
          else case rest of
            [] \<Rightarrow> Some (0, True)
          | m0 # _ \<Rightarrow>
              if bm_len m0 + bm_len m - k < 4 then Some (0, True)
              else
                let cp = (\<lambda>j. byte_at (bm_buf m) (k + j)); np = byte_at (bm_buf m0);
                    bytes = (if bm_len m - k = 1 then (cp k, np 0, np 1, np 2)
                             else if bm_len m - k = 2 then (cp k, cp (k + 1), np 0, np 1)
                             else (cp k, cp (k + 1), cp (k + 2), np 0))
                in case bytes of
                     (Some a, Some b, Some c, Some d) \<Rightarrow>
                       Some (push_bit 24 (ucast a) OR push_bit 16 (ucast b)
                               OR push_bit 8 (ucast c) OR ucast d, False)
                   | _ \<Rightarrow> None)"

definition m_xhalf :: "bpf_mbuf list \<Rightarrow> int \<Rightarrow> (32 word \<times> bool) option" where
  "m_xhalf ms k =
     (case mindex ms k of
        None \<Rightarrow> Some (0, True)
      | Some (m, rest, k) \<Rightarrow>
          if bm_len m - k \<ge> 2 then map_option (\<lambda>v. (v, False)) (EXTRACT_SHORT (bm_buf m) k)
          else case rest of
            [] \<Rightarrow> Some (0, True)
          | m0 # _ \<Rightarrow>
              (case (byte_at (bm_buf m) (k + k), byte_at (bm_buf m0) 0) of
                 (Some a, Some b) \<Rightarrow> Some (push_bit 8 (ucast a) OR ucast b, False)
               | _ \<Rightarrow> None))"

section \<open>Loads\<close>

datatype bpf_load = LdVal "32 word" | LdReject | LdFault

text \<open>The \<open>buflen != 0\<close> test and the mbuf access of each load. A null mbuf pointer is a fault.\<close>

definition ld_val :: "32 word option \<Rightarrow> bpf_load" where
  "ld_val v = (case v of None \<Rightarrow> LdFault | Some v \<Rightarrow> LdVal v)"

definition flat_bytes :: "bpf_pkt \<Rightarrow> 8 word list" where
  "flat_bytes p = (case p of Flat bs \<Rightarrow> bs | Chain ms \<Rightarrow> [])"

definition mbufs :: "bpf_pkt \<Rightarrow> bpf_mbuf list" where
  "mbufs p = (case p of Flat bs \<Rightarrow> [] | Chain ms \<Rightarrow> ms)"

definition bpf_ldw :: "bpf_pkt \<Rightarrow> 32 word \<Rightarrow> bpf_load" where
  "bpf_ldw p k =
     (if u64 (sint k + 4) > uint (buflen p) then
        if buflen p \<noteq> 0 then LdReject
        else if mbufs p = [] then LdFault
        else case m_xword (mbufs p) (sint k) of
               None \<Rightarrow> LdFault
             | Some (v, err) \<Rightarrow> if err then LdReject else LdVal v
      else ld_val (EXTRACT_LONG (flat_bytes p) (sint k)))"

text \<open>The absolute half-word load does not look at the error, the indirect one does.\<close>

definition bpf_ldh :: "bool \<Rightarrow> bpf_pkt \<Rightarrow> 32 word \<Rightarrow> bpf_load" where
  "bpf_ldh check p k =
     (if u64 (sint k + 2) > uint (buflen p) then
        if buflen p \<noteq> 0 then LdReject
        else if mbufs p = [] then LdFault
        else case m_xhalf (mbufs p) (sint k) of
               None \<Rightarrow> LdFault
             | Some (v, err) \<Rightarrow> if check \<and> err then LdReject else LdVal v
      else ld_val (EXTRACT_SHORT (flat_bytes p) (sint k)))"

text \<open>The byte loads differ in how they widen an mbuf's byte: \<open>u_char\<close> or (signed) \<open>char\<close>.\<close>

definition bpf_ldb :: "(8 word \<Rightarrow> 32 word) \<Rightarrow> bpf_pkt \<Rightarrow> 32 word \<Rightarrow> bpf_load" where
  "bpf_ldb widen p k =
     (if k \<ge> buflen p then
        if buflen p \<noteq> 0 then LdReject
        else if mbufs p = [] then LdFault
        else case mindex (mbufs p) (sint k) of
               None \<Rightarrow> LdReject
             | Some (m, rest, k) \<Rightarrow> ld_val (map_option widen (byte_at (bm_buf m) k))
      else ld_val (map_option ucast (byte_at (flat_bytes p) (sint k))))"

section \<open>The interpreter\<close>

record bpf_state =
  bs_pc :: int
  bs_A :: "32 word"
  bs_X :: "32 word"
  bs_mem :: "32 word list"

text \<open>What a run is given: the packet, its original length and the machine's result for a
  shift (left or right) by 32 or more.\<close>

record bpf_env =
  be_pkt :: bpf_pkt
  be_wirelen :: "32 word"
  be_shift :: "bool \<Rightarrow> 32 word \<Rightarrow> 32 word \<Rightarrow> 32 word"

datatype bpf_fault = BadPc | BadMem | BadPkt | DivZero

datatype bpf_res = BNext bpf_state | BRet "32 word" | BFault bpf_fault

definition bpf_next :: "bpf_state \<Rightarrow> bpf_res" where
  "bpf_next s = BNext (s\<lparr>bs_pc := bs_pc s + 1\<rparr>)"

definition set_A :: "bpf_state \<Rightarrow> 32 word \<Rightarrow> bpf_res" where
  "set_A s v = bpf_next (s\<lparr>bs_A := v\<rparr>)"

definition set_X :: "bpf_state \<Rightarrow> 32 word \<Rightarrow> bpf_res" where
  "set_X s v = bpf_next (s\<lparr>bs_X := v\<rparr>)"

definition loaded :: "(32 word \<Rightarrow> bpf_res) \<Rightarrow> bpf_load \<Rightarrow> bpf_res" where
  "loaded f l = (case l of LdVal v \<Rightarrow> f v | LdReject \<Rightarrow> BRet 0 | LdFault \<Rightarrow> BFault BadPkt)"

definition mem_get :: "(32 word \<Rightarrow> bpf_res) \<Rightarrow> bpf_state \<Rightarrow> 32 word \<Rightarrow> bpf_res" where
  "mem_get f s k =
     (if sint k < 0 then BFault BadMem
      else case aref (bs_mem s) (nat (sint k)) of None \<Rightarrow> BFault BadMem | Some v \<Rightarrow> f v)"

definition mem_put :: "bpf_state \<Rightarrow> 32 word \<Rightarrow> 32 word \<Rightarrow> bpf_res" where
  "mem_put s k v =
     (if sint k < 0 \<or> nat (sint k) \<ge> length (bs_mem s) then BFault BadMem
      else bpf_next (s\<lparr>bs_mem := (bs_mem s)[nat (sint k) := v]\<rparr>))"

definition jump :: "bpf_state \<Rightarrow> int \<Rightarrow> bpf_res" where
  "jump s d = bpf_next (s\<lparr>bs_pc := bs_pc s + d\<rparr>)"

definition shift :: "bpf_env \<Rightarrow> bool \<Rightarrow> 32 word \<Rightarrow> 32 word \<Rightarrow> 32 word" where
  "shift env left a n =
     (if n \<ge> 32 then be_shift env left a n
      else if left then push_bit (unat n) a else drop_bit (unat n) a)"

definition bpf_ret :: "bpf_insn \<Rightarrow> bpf_state \<Rightarrow> bpf_res" where
  "bpf_ret i s =
     (if bi_code i = BPF_RET OR BPF_K then BRet (bi_k i)
      else if bi_code i = BPF_RET OR BPF_A then BRet (bs_A s)
      else BRet 0)"

definition bpf_ld :: "bpf_env \<Rightarrow> bpf_insn \<Rightarrow> bpf_state \<Rightarrow> bpf_res" where
  "bpf_ld env i s =
     (let c = bi_code i; p = be_pkt env; k = bi_k i; kx = bs_X s + bi_k i in
      if c = BPF_LD OR BPF_W OR BPF_ABS then loaded (set_A s) (bpf_ldw p k)
      else if c = BPF_LD OR BPF_H OR BPF_ABS then loaded (set_A s) (bpf_ldh False p k)
      else if c = BPF_LD OR BPF_B OR BPF_ABS then loaded (set_A s) (bpf_ldb ucast p k)
      else if c = BPF_LD OR BPF_W OR BPF_LEN then set_A s (be_wirelen env)
      else if c = BPF_LD OR BPF_W OR BPF_IND then loaded (set_A s) (bpf_ldw p kx)
      else if c = BPF_LD OR BPF_H OR BPF_IND then loaded (set_A s) (bpf_ldh True p kx)
      else if c = BPF_LD OR BPF_B OR BPF_IND then loaded (set_A s) (bpf_ldb scast p kx)
      else if c = BPF_LD OR BPF_IMM then set_A s k
      else if c = BPF_LD OR BPF_MEM then mem_get (set_A s) s k
      else BRet 0)"

definition bpf_ldx :: "bpf_env \<Rightarrow> bpf_insn \<Rightarrow> bpf_state \<Rightarrow> bpf_res" where
  "bpf_ldx env i s =
     (let c = bi_code i; k = bi_k i in
      if c = BPF_LDX OR BPF_W OR BPF_LEN then set_X s (be_wirelen env)
      else if c = BPF_LDX OR BPF_MSH OR BPF_B then
        loaded (\<lambda>v. set_X s (push_bit 2 (v AND 0xf))) (bpf_ldb scast (be_pkt env) k)
      else if c = BPF_LDX OR BPF_IMM then set_X s k
      else if c = BPF_LDX OR BPF_MEM then mem_get (set_X s) s k
      else BRet 0)"

definition bpf_st :: "bpf_insn \<Rightarrow> bpf_state \<Rightarrow> bpf_res" where
  "bpf_st i s =
     (if bi_code i = BPF_ST then mem_put s (bi_k i) (bs_A s)
      else if bi_code i = BPF_STX then mem_put s (bi_k i) (bs_X s)
      else BRet 0)"

definition bpf_jmp :: "bpf_insn \<Rightarrow> bpf_state \<Rightarrow> bpf_res" where
  "bpf_jmp i s =
     (let c = bi_code i; a = bs_A s; x = bs_X s; k = bi_k i;
          branch = (\<lambda>b. jump s (uint (if b then bi_jt i else bi_jf i)))
      in
      if c = BPF_JMP OR BPF_JA then jump s (sint k)
      else if c = BPF_JMP OR BPF_JGT OR BPF_K then branch (a > k)
      else if c = BPF_JMP OR BPF_JGE OR BPF_K then branch (a \<ge> k)
      else if c = BPF_JMP OR BPF_JEQ OR BPF_K then branch (a = k)
      else if c = BPF_JMP OR BPF_JSET OR BPF_K then branch (a AND k \<noteq> 0)
      else if c = BPF_JMP OR BPF_JGT OR BPF_X then branch (a > x)
      else if c = BPF_JMP OR BPF_JGE OR BPF_X then branch (a \<ge> x)
      else if c = BPF_JMP OR BPF_JEQ OR BPF_X then branch (a = x)
      else if c = BPF_JMP OR BPF_JSET OR BPF_X then branch (a AND x \<noteq> 0)
      else BRet 0)"

definition bpf_alu :: "bpf_env \<Rightarrow> bpf_insn \<Rightarrow> bpf_state \<Rightarrow> bpf_res" where
  "bpf_alu env i s =
     (let c = bi_code i; a = bs_A s; x = bs_X s; k = bi_k i in
      if c = BPF_ALU OR BPF_ADD OR BPF_X then set_A s (a + x)
      else if c = BPF_ALU OR BPF_SUB OR BPF_X then set_A s (a - x)
      else if c = BPF_ALU OR BPF_MUL OR BPF_X then set_A s (a * x)
      else if c = BPF_ALU OR BPF_DIV OR BPF_X then (if x = 0 then BRet 0 else set_A s (a div x))
      else if c = BPF_ALU OR BPF_AND OR BPF_X then set_A s (a AND x)
      else if c = BPF_ALU OR BPF_OR OR BPF_X then set_A s (a OR x)
      else if c = BPF_ALU OR BPF_LSH OR BPF_X then set_A s (shift env True a x)
      else if c = BPF_ALU OR BPF_RSH OR BPF_X then set_A s (shift env False a x)
      else if c = BPF_ALU OR BPF_ADD OR BPF_K then set_A s (a + k)
      else if c = BPF_ALU OR BPF_SUB OR BPF_K then set_A s (a - k)
      else if c = BPF_ALU OR BPF_MUL OR BPF_K then set_A s (a * k)
      else if c = BPF_ALU OR BPF_DIV OR BPF_K then (if k = 0 then BFault DivZero else set_A s (a div k))
      else if c = BPF_ALU OR BPF_AND OR BPF_K then set_A s (a AND k)
      else if c = BPF_ALU OR BPF_OR OR BPF_K then set_A s (a OR k)
      else if c = BPF_ALU OR BPF_LSH OR BPF_K then set_A s (shift env True a k)
      else if c = BPF_ALU OR BPF_RSH OR BPF_K then set_A s (shift env False a k)
      else if c = BPF_ALU OR BPF_NEG then set_A s (- a)
      else BRet 0)"

definition bpf_misc :: "bpf_insn \<Rightarrow> bpf_state \<Rightarrow> bpf_res" where
  "bpf_misc i s =
     (if bi_code i = BPF_MISC OR BPF_TAX then set_X s (bs_A s)
      else if bi_code i = BPF_MISC OR BPF_TXA then set_A s (bs_X s)
      else BRet 0)"

text \<open>The dispatch. Every \<open>case\<close> constant of a group has the group's class, so that looking at
  the class first does not change which case is taken.\<close>

definition bpf_exec :: "bpf_env \<Rightarrow> bpf_insn \<Rightarrow> bpf_state \<Rightarrow> bpf_res" where
  "bpf_exec env i s =
     (let c = BPF_CLASS (bi_code i) in
      if c = BPF_RET then bpf_ret i s
      else if c = BPF_LD then bpf_ld env i s
      else if c = BPF_LDX then bpf_ldx env i s
      else if c = BPF_ST \<or> c = BPF_STX then bpf_st i s
      else if c = BPF_JMP then bpf_jmp i s
      else if c = BPF_ALU then bpf_alu env i s
      else bpf_misc i s)"

definition bpf_step :: "bpf_env \<Rightarrow> bpf_insn list \<Rightarrow> bpf_state \<Rightarrow> bpf_res" where
  "bpf_step env prog s =
     (if bs_pc s < 0 then BFault BadPc
      else case aref prog (nat (bs_pc s)) of
             None \<Rightarrow> BFault BadPc
           | Some i \<Rightarrow> bpf_exec env i s)"

datatype bpf_outcome = Value "32 word" | Fault bpf_fault

text \<open>The loop, with fuel: \<open>None\<close> when it has not ended.\<close>

fun bpf_run :: "nat \<Rightarrow> bpf_env \<Rightarrow> bpf_insn list \<Rightarrow> bpf_state \<Rightarrow> bpf_outcome option" where
  "bpf_run 0 env prog s = None"
| "bpf_run (Suc n) env prog s =
     (case bpf_step env prog s of
        BNext s \<Rightarrow> bpf_run n env prog s
      | BRet v \<Rightarrow> Some (Value v)
      | BFault f \<Rightarrow> Some (Fault f))"

definition bpf_filter ::
  "nat \<Rightarrow> bpf_env \<Rightarrow> bpf_insn list option \<Rightarrow> bpf_state \<Rightarrow> bpf_outcome option" where
  "bpf_filter n env pc s =
     (case pc of None \<Rightarrow> Some (Value (- 1)) | Some prog \<Rightarrow> bpf_run n env prog (s\<lparr>bs_pc := 0\<rparr>))"

section \<open>The verifier\<close>

text \<open>The checks of instruction number \<open>i\<close> of \<open>len\<close>; the sums are \<open>int\<close> sums, which wrap.\<close>

definition bpf_check :: "int \<Rightarrow> int \<Rightarrow> bpf_insn \<Rightarrow> bool" where
  "bpf_check len i p =
     (let c = bi_code p; from = s32 (i + 1) in
      (BPF_CLASS c = BPF_JMP \<longrightarrow>
         (if BPF_OP c = BPF_JA then s32 (from + sint (bi_k p)) < len
          else s32 (from + uint (bi_jt p)) < len \<and> s32 (from + uint (bi_jf p)) < len))
      \<and> \<not> ((BPF_CLASS c = BPF_ST \<or> BPF_CLASS c = BPF_LD \<and> c AND 0xe0 = BPF_MEM)
            \<and> (sint (bi_k p) \<ge> BPF_MEMWORDS \<or> sint (bi_k p) < 0))
      \<and> \<not> (c = BPF_ALU OR BPF_DIV OR BPF_K \<and> bi_k p = 0))"

fun bpf_check_all :: "int \<Rightarrow> int \<Rightarrow> bpf_insn list \<Rightarrow> bool" where
  "bpf_check_all len i [] \<longleftrightarrow> True"
| "bpf_check_all len i (p # ps) \<longleftrightarrow> bpf_check len i p \<and> bpf_check_all len (i + 1) ps"

text \<open>\<open>None\<close>: the last line reads \<open>f[-1]\<close>.\<close>

definition bpf_validate :: "bpf_insn list \<Rightarrow> bool option" where
  "bpf_validate f =
     (if \<not> bpf_check_all (int (length f)) 0 f then Some False
      else if f = [] then None
      else Some (BPF_CLASS (bi_code (last f)) = BPF_RET))"

end
