(* ===== verification/Bpf_Safety.thy ===== *)
theory Bpf_Safety
  imports Bpf
begin

text \<open>
  What the verifier gives. A locale states the contract of a machine whose program counter
  only moves forward inside its program; its lemma is that such a machine ends within as
  many steps as there are instructions. The packet filter is an instance for every program
  that \<open>bpf_validate\<close> accepts and that also satisfies the conditions it does not check.
\<close>

section \<open>Machines that move forward\<close>

locale forward_machine =
  fixes step :: "'s \<Rightarrow> 's + 'r"
    and at :: "'s \<Rightarrow> int"
    and len :: int
    and inv :: "'s \<Rightarrow> bool"
    and good :: "'r \<Rightarrow> bool"
  assumes inv_range: "inv s \<Longrightarrow> 0 \<le> at s \<and> at s < len"
    and step_forward: "inv s \<Longrightarrow> step s = Inl s' \<Longrightarrow> inv s' \<and> at s < at s'"
    and step_good: "inv s \<Longrightarrow> step s = Inr r \<Longrightarrow> good r"
begin

fun run :: "nat \<Rightarrow> 's \<Rightarrow> 'r option" where
  "run 0 s = None"
| "run (Suc n) s = (case step s of Inl s' \<Rightarrow> run n s' | Inr r \<Rightarrow> Some r)"

lemma run_ends: "inv s \<Longrightarrow> len - at s \<le> int n \<Longrightarrow> \<exists>r. run n s = Some r \<and> good r"
proof (induction n arbitrary: s)
  case 0
  then show ?case using inv_range [of s] by simp
next
  case (Suc n)
  show ?case
  proof (cases "step s")
    case (Inl s')
    with step_forward [OF Suc.prems(1)] have "inv s'" "at s < at s'" by auto
    with Suc.IH [of s'] Suc.prems(2) Inl show ?thesis by simp
  next
    case (Inr r)
    with step_good [OF Suc.prems(1)] show ?thesis by simp
  qed
qed

lemma run_more: "run n s = Some r \<Longrightarrow> n \<le> m \<Longrightarrow> run m s = Some r"
proof (induction n arbitrary: s m)
  case (Suc n)
  then obtain m' where "m = Suc m'" "n \<le> m'" by (cases m) auto
  with Suc show ?case by (auto split: sum.splits)
qed simp

end

section \<open>What the verifier checks and what it does not\<close>

text \<open>The conditions on one instruction that the verifier states, without the machine's
  wrap-around, and those it leaves out: a jump always must not go back or wrap, and the
  memory operations through \<open>X\<close> must stay inside \<open>mem\<close>.\<close>

definition bpf_unchecked_ok :: "nat \<Rightarrow> bpf_insn \<Rightarrow> bool" where
  "bpf_unchecked_ok len i \<longleftrightarrow>
     (bi_code i = BPF_JMP OR BPF_JA \<longrightarrow> 0 \<le> sint (bi_k i) \<and> sint (bi_k i) < int len)
     \<and> (bi_code i = BPF_STX \<or> bi_code i = BPF_LDX OR BPF_MEM \<longrightarrow>
          0 \<le> sint (bi_k i) \<and> sint (bi_k i) < BPF_MEMWORDS)"

definition bpf_prog_ok :: "bpf_insn list \<Rightarrow> bool" where
  "bpf_prog_ok prog \<longleftrightarrow>
     bpf_validate prog = Some True \<and> length prog \<le> 512 \<and> list_all (bpf_unchecked_ok (length prog)) prog"

lemma bpf_check_all_nth:
  "bpf_check_all len i ps \<longleftrightarrow> (\<forall>j<length ps. bpf_check len (i + int j) (ps ! j))"
proof (induction ps arbitrary: i)
  case (Cons p ps)
  have "(\<forall>j<length (p # ps). bpf_check len (i + int j) ((p # ps) ! j)) \<longleftrightarrow>
      bpf_check len i p \<and> (\<forall>j<length ps. bpf_check len (i + 1 + int j) (ps ! j))"
    by (subst length_Cons, subst All_less_Suc2) (simp add: algebra_simps)
  with Cons show ?case by simp
qed simp

lemma bpf_validate_True:
  "bpf_validate f = Some True \<longleftrightarrow>
     f \<noteq> [] \<and> (\<forall>j<length f. bpf_check (int (length f)) (int j) (f ! j))
     \<and> BPF_CLASS (bi_code (f ! (length f - 1))) = BPF_RET"
  by (cases "f = []") (auto simp: bpf_validate_def bpf_check_all_nth last_conv_nth)

section \<open>One instruction\<close>

text \<open>Every instruction but a jump goes to the next one.\<close>

definition seq_ok :: "bpf_state \<Rightarrow> bpf_res \<Rightarrow> bool" where
  "seq_ok s r \<longleftrightarrow>
     (case r of BNext s' \<Rightarrow> bs_pc s' = bs_pc s + 1 \<and> length (bs_mem s') = length (bs_mem s)
              | BRet v \<Rightarrow> True | BFault f \<Rightarrow> f = BadPkt)"

lemma seq_ok_set [simp]: "seq_ok s (set_A s v)" "seq_ok s (set_X s v)" "seq_ok s (BRet v)" "seq_ok s (BFault BadPkt)"
  by (simp_all add: seq_ok_def set_A_def set_X_def bpf_next_def)

lemma seq_ok_if: "(b \<Longrightarrow> seq_ok s x) \<Longrightarrow> (\<not> b \<Longrightarrow> seq_ok s y) \<Longrightarrow> seq_ok s (if b then x else y)"
  by simp

lemma seq_ok_loaded: "(\<And>v. seq_ok s (f v)) \<Longrightarrow> seq_ok s (loaded f l)"
  by (cases l) (simp_all add: loaded_def)

lemma seq_ok_get:
  "(\<And>v. seq_ok s (f v)) \<Longrightarrow> 0 \<le> sint k \<Longrightarrow> sint k < int (length (bs_mem s)) \<Longrightarrow> seq_ok s (mem_get f s k)"
  by (auto simp: mem_get_def aref_def)

lemma seq_ok_put: "0 \<le> sint k \<Longrightarrow> sint k < int (length (bs_mem s)) \<Longrightarrow> seq_ok s (mem_put s k v)"
  by (auto simp: mem_put_def seq_ok_def bpf_next_def)

lemma seq_ok_alu: "\<not> (bi_code i = BPF_ALU OR BPF_DIV OR BPF_K \<and> bi_k i = 0) \<Longrightarrow> seq_ok s (bpf_alu env i s)"
  unfolding bpf_alu_def Let_def by (intro seq_ok_if seq_ok_set; blast)

lemma seq_ok_misc: "seq_ok s (bpf_misc i s)"
  by (simp add: bpf_misc_def)

lemma seq_ok_ld:
  "length (bs_mem s) = 16 \<Longrightarrow> (bi_code i = BPF_LD OR BPF_MEM \<Longrightarrow> 0 \<le> sint (bi_k i) \<and> sint (bi_k i) < 16)
    \<Longrightarrow> seq_ok s (bpf_ld env i s)"
  unfolding bpf_ld_def Let_def by (auto simp: seq_ok_loaded seq_ok_get split: if_split)

lemma seq_ok_ldx:
  "length (bs_mem s) = 16 \<Longrightarrow> (bi_code i = BPF_LDX OR BPF_MEM \<Longrightarrow> 0 \<le> sint (bi_k i) \<and> sint (bi_k i) < 16)
    \<Longrightarrow> seq_ok s (bpf_ldx env i s)"
  unfolding bpf_ldx_def Let_def by (auto simp: seq_ok_loaded seq_ok_get split: if_split)

lemma seq_ok_st:
  "length (bs_mem s) = 16 \<Longrightarrow> (bi_code i \<in> {BPF_ST, BPF_STX} \<Longrightarrow> 0 \<le> sint (bi_k i) \<and> sint (bi_k i) < 16)
    \<Longrightarrow> seq_ok s (bpf_st i s)"
  unfolding bpf_st_def by (auto simp: seq_ok_put split: if_split)

text \<open>The classes of the codes that matter.\<close>

lemma bpf_class_codes:
  "BPF_CLASS (BPF_LD OR BPF_MEM) = BPF_LD" "(BPF_LD OR BPF_MEM) AND 0xe0 = BPF_MEM"
  "BPF_CLASS BPF_ST = BPF_ST" "BPF_CLASS (BPF_JMP OR BPF_JA) = BPF_JMP" "BPF_OP (BPF_JMP OR BPF_JA) = BPF_JA"
  by (simp_all add: bpf_codes BPF_CLASS_def BPF_OP_def)

lemma bpf_branch_op:
  "c \<in> {BPF_JMP OR BPF_JGT OR BPF_K, BPF_JMP OR BPF_JGE OR BPF_K, BPF_JMP OR BPF_JEQ OR BPF_K,
    BPF_JMP OR BPF_JSET OR BPF_K, BPF_JMP OR BPF_JGT OR BPF_X, BPF_JMP OR BPF_JGE OR BPF_X,
    BPF_JMP OR BPF_JEQ OR BPF_X, BPF_JMP OR BPF_JSET OR BPF_X} \<Longrightarrow> BPF_OP c \<noteq> BPF_JA"
  by (auto simp: bpf_codes BPF_OP_def)

section \<open>The filter as a forward machine\<close>

definition bpf_inv :: "bpf_insn list \<Rightarrow> bpf_state \<Rightarrow> bool" where
  "bpf_inv prog s \<longleftrightarrow>
     bpf_prog_ok prog \<and> 0 \<le> bs_pc s \<and> bs_pc s < int (length prog) \<and> length (bs_mem s) = 16"

definition bpf_machine :: "bpf_env \<Rightarrow> bpf_insn list \<Rightarrow> bpf_state \<Rightarrow> bpf_state + bpf_outcome" where
  "bpf_machine env prog s =
     (case bpf_step env prog s of
        BNext s' \<Rightarrow> Inl s' | BRet v \<Rightarrow> Inr (Value v) | BFault f \<Rightarrow> Inr (Fault f))"

definition bpf_allowed :: "bpf_outcome \<Rightarrow> bool" where
  "bpf_allowed r \<longleftrightarrow> (case r of Value v \<Rightarrow> True | Fault f \<Rightarrow> f = BadPkt)"

text \<open>A jump that the verifier accepted stays inside the program and goes forward.\<close>

lemma jump_ok:
  "0 \<le> d \<Longrightarrow> jump s d = BNext s' \<Longrightarrow>
     bs_pc s' = bs_pc s + 1 + d \<and> length (bs_mem s') = length (bs_mem s)"
  by (auto simp: jump_def bpf_next_def)

definition jump_to :: "bpf_state \<Rightarrow> int \<Rightarrow> bpf_res \<Rightarrow> bool" where
  "jump_to s len r \<longleftrightarrow>
     (case r of BNext s' \<Rightarrow> bs_pc s < bs_pc s' \<and> bs_pc s' < len \<and> length (bs_mem s') = length (bs_mem s)
              | BRet v \<Rightarrow> True | BFault f \<Rightarrow> False)"

lemma jump_to_if: "(b \<Longrightarrow> jump_to s len x) \<Longrightarrow> (\<not> b \<Longrightarrow> jump_to s len y) \<Longrightarrow> jump_to s len (if b then x else y)"
  by simp

lemma jump_to_jump: "0 \<le> d \<Longrightarrow> bs_pc s + 1 + d < len \<Longrightarrow> jump_to s len (jump s d)"
  by (simp add: jump_to_def jump_def bpf_next_def)

lemma bpf_jmp_forward:
  assumes ja: "bi_code i = BPF_JMP OR BPF_JA \<Longrightarrow> 0 \<le> sint (bi_k i) \<and> bs_pc s + 1 + sint (bi_k i) < len"
    and br: "BPF_OP (bi_code i) \<noteq> BPF_JA \<Longrightarrow>
      bs_pc s + 1 + uint (bi_jt i) < len \<and> bs_pc s + 1 + uint (bi_jf i) < len"
  shows "jump_to s len (bpf_jmp i s)"
proof -
  have branch: "jump_to s len (jump s (uint (if b then bi_jt i else bi_jf i)))"
    if "BPF_OP (bi_code i) \<noteq> BPF_JA" for b
    using br [OF that] by (auto intro!: jump_to_jump)
  have ret: "jump_to s len (BRet v)" for v by (simp add: jump_to_def)
  show ?thesis
    unfolding bpf_jmp_def Let_def
    by (intro jump_to_if jump_to_jump branch ret bpf_branch_op; use ja in simp)
qed

lemma bpf_exec_ok:
  assumes ok: "bpf_prog_ok prog" and j: "j < length prog" and pc: "bs_pc s = int j"
    and mem: "length (bs_mem s) = 16"
  shows "case bpf_exec env (prog ! j) s of
      BNext s' \<Rightarrow> bs_pc s < bs_pc s' \<and> bs_pc s' < int (length prog) \<and> length (bs_mem s') = 16
    | BRet v \<Rightarrow> True | BFault f \<Rightarrow> f = BadPkt"
proof -
  let ?i = "prog ! j" and ?len = "int (length prog)"
  have len: "?len \<le> 512" and chk: "bpf_check ?len (int j) ?i" and unc: "bpf_unchecked_ok (length prog) ?i"
    using ok j by (auto simp: bpf_prog_ok_def bpf_validate_True list_all_length)
  have small: "s32 (int j + 1) = int j + 1" using len j by (intro s32_id) auto
  have byte: "0 \<le> uint b \<and> uint b < 256" for b :: "8 word" using uint_bounded [of b] by simp
  have last: "BPF_CLASS (bi_code ?i) = BPF_RET" if "int j + 1 = ?len"
  proof -
    have "j = length prog - 1" using that by simp
    then show ?thesis using ok by (simp add: bpf_prog_ok_def bpf_validate_True)
  qed
  show ?thesis
  proof (cases "BPF_CLASS (bi_code ?i) = BPF_RET")
    case True
    then show ?thesis by (simp add: bpf_exec_def bpf_ret_def)
  next
    case False
    then have room: "int j + 1 < ?len" using last j by force
    show ?thesis
    proof (cases "BPF_CLASS (bi_code ?i) = BPF_JMP")
      case True
      have ja: "0 \<le> sint (bi_k ?i) \<and> bs_pc s + 1 + sint (bi_k ?i) < ?len"
        if c: "bi_code ?i = BPF_JMP OR BPF_JA"
      proof -
        have k: "0 \<le> sint (bi_k ?i)" "sint (bi_k ?i) < ?len" using unc c by (auto simp: bpf_unchecked_ok_def)
        have "s32 (int j + 1 + sint (bi_k ?i)) = int j + 1 + sint (bi_k ?i)"
          using k len j by (intro s32_id) auto
        moreover have "s32 (int j + 1 + sint (bi_k ?i)) < ?len"
          using chk c small by (simp add: bpf_check_def Let_def bpf_class_codes)
        ultimately show ?thesis using k pc by simp
      qed
      have br: "bs_pc s + 1 + uint (bi_jt ?i) < ?len \<and> bs_pc s + 1 + uint (bi_jf ?i) < ?len"
        if c: "BPF_OP (bi_code ?i) \<noteq> BPF_JA"
      proof -
        have "s32 (int j + 1 + uint b) = int j + 1 + uint b" for b :: "8 word"
          using byte [of b] len j by (intro s32_id) auto
        moreover have "s32 (int j + 1 + uint (bi_jt ?i)) < ?len" "s32 (int j + 1 + uint (bi_jf ?i)) < ?len"
          using chk c True small by (simp_all add: bpf_check_def Let_def)
        ultimately show ?thesis using pc by simp
      qed
      have "jump_to s ?len (bpf_jmp ?i s)" using bpf_jmp_forward ja br by blast
      then show ?thesis
        using True False mem by (auto simp: bpf_exec_def Let_def jump_to_def BPF_JMP_def BPF_LD_def BPF_LDX_def
            BPF_ST_def BPF_STX_def BPF_RET_def split: bpf_res.splits)
    next
      case notjmp: False
      have ld: "0 \<le> sint (bi_k ?i) \<and> sint (bi_k ?i) < 16"
        if "bi_code ?i = BPF_LD OR BPF_MEM \<or> bi_code ?i = BPF_ST"
        using chk that bpf_class_codes by (auto simp: bpf_check_def Let_def BPF_MEMWORDS_def)
      have ldx: "0 \<le> sint (bi_k ?i) \<and> sint (bi_k ?i) < 16"
        if "bi_code ?i = BPF_LDX OR BPF_MEM \<or> bi_code ?i = BPF_STX"
        using unc that by (auto simp: bpf_unchecked_ok_def BPF_MEMWORDS_def)
      have dv: "\<not> (bi_code ?i = BPF_ALU OR BPF_DIV OR BPF_K \<and> bi_k ?i = 0)"
        using chk by (simp add: bpf_check_def Let_def)
      have "seq_ok s (bpf_exec env ?i s)"
        using seq_ok_ld [OF mem ld] seq_ok_ldx [OF mem ldx] seq_ok_st [OF mem] ld ldx
          seq_ok_alu [OF dv] seq_ok_misc False notjmp
        by (auto simp: bpf_exec_def Let_def)
      then show ?thesis using room pc mem by (auto simp: seq_ok_def split: bpf_res.splits)
    qed
  qed
qed

interpretation bpf_m: forward_machine "bpf_machine env prog" bs_pc "int (length prog)"
  "bpf_inv prog" bpf_allowed
  for env prog
proof unfold_locales
  fix s
  assume inv: "bpf_inv prog s"
  then show "0 \<le> bs_pc s \<and> bs_pc s < int (length prog)" by (simp add: bpf_inv_def)
  define j where "j = nat (bs_pc s)"
  have j: "j < length prog" "bs_pc s = int j" using inv by (auto simp: bpf_inv_def j_def)
  have step: "bpf_step env prog s = bpf_exec env (prog ! j) s"
    using j by (simp add: bpf_step_def aref_def)
  note ok = bpf_exec_ok [OF conjunct1 [OF inv [unfolded bpf_inv_def]] j, of env, folded step]
  show "bpf_inv prog s' \<and> bs_pc s < bs_pc s'" if "bpf_machine env prog s = Inl s'" for s'
    using ok that inv by (auto simp: bpf_machine_def bpf_inv_def split: bpf_res.splits)
  show "bpf_allowed r" if "bpf_machine env prog s = Inr r" for r
    using ok that inv by (auto simp: bpf_machine_def bpf_inv_def bpf_allowed_def split: bpf_res.splits)
qed

lemma bpf_run_machine: "bpf_run n env prog s = bpf_m.run env prog n s"
  by (induction n arbitrary: s) (auto simp: bpf_machine_def split: bpf_res.split)

end
