(* ===== verification/Bpf_Claims.thy ===== *)
theory Bpf_Claims
  imports Bpf_Safety
begin

text \<open>
  What a validated filter guarantees, what the verifier lets through, and how loads from an
  mbuf chain relate to loads from the same bytes in one buffer.
\<close>

section \<open>Validated programs\<close>

text \<open>C15: A program that \<open>bpf_validate\<close> accepts, of at most \<open>BPF_MAXINSNS\<close> instructions and
  satisfying the conditions the verifier leaves out, ends on every packet after at most as
  many steps as it has instructions; it never fetches outside the program, never touches
  memory beyond \<open>mem\<close> and never divides by zero. All that can go wrong is a read outside the
  packet.\<close>
theorem bpf_validated_ends:
  assumes "bpf_validate prog = Some True" "length prog \<le> 512"
    and "list_all (bpf_unchecked_ok (length prog)) prog"
    and "length (bs_mem s) = 16" "length prog \<le> n"
  shows "\<exists>r. bpf_filter n env (Some prog) s = Some r \<and> (\<forall>f. r = Fault f \<longrightarrow> f = BadPkt)"
proof -
  have "prog \<noteq> []" using assms(1) by (simp add: bpf_validate_True)
  then have "bpf_inv prog (s\<lparr>bs_pc := 0\<rparr>)"
    using assms by (simp add: bpf_inv_def bpf_prog_ok_def)
  from bpf_m.run_ends [OF this, of n env] assms(5)
  obtain r where "bpf_filter n env (Some prog) s = Some r" "bpf_allowed r"
    by (auto simp: bpf_filter_def bpf_run_machine)
  then show ?thesis by (intro exI [of _ r]) (auto simp: bpf_allowed_def)
qed

text \<open>The filter "accept IP packets, reject the rest", on Ethernet frames.\<close>

definition ex_filter :: "bpf_insn list" where
  "ex_filter =
     [\<lparr>bi_code = 0x28, bi_jt = 0, bi_jf = 0, bi_k = 12\<rparr>,
      \<lparr>bi_code = 0x15, bi_jt = 0, bi_jf = 1, bi_k = 0x800\<rparr>,
      \<lparr>bi_code = 0x06, bi_jt = 0, bi_jf = 0, bi_k = 96\<rparr>,
      \<lparr>bi_code = 0x06, bi_jt = 0, bi_jf = 0, bi_k = 0\<rparr>]"

definition ex_bpf_env :: "8 word list \<Rightarrow> bpf_env" where
  "ex_bpf_env bs = \<lparr>be_pkt = Flat bs, be_wirelen = 60, be_shift = (\<lambda>_ a _. a)\<rparr>"

definition ex_bpf_state :: bpf_state where
  "ex_bpf_state = \<lparr>bs_pc = 0, bs_A = 0, bs_X = 0, bs_mem = replicate 16 0\<rparr>"

lemma ex_filter_ok:
  "bpf_validate ex_filter = Some True" "list_all (bpf_unchecked_ok (length ex_filter)) ex_filter"
  by code_simp+

theorem bpf_validated_ends_witness:
  "\<exists>r. bpf_filter 4 (ex_bpf_env [1, 2]) (Some ex_filter) ex_bpf_state = Some r \<and> (\<forall>f. r = Fault f \<longrightarrow> f = BadPkt)"
  by (rule bpf_validated_ends [OF ex_filter_ok(1) _ ex_filter_ok(2)])
    (simp_all add: ex_filter_def ex_bpf_state_def)

section \<open>Flat packets\<close>

text \<open>The loads whose offset the program fixes, and that do not lie before the packet.\<close>

definition bpf_fixed_loads :: "bpf_insn \<Rightarrow> bool" where
  "bpf_fixed_loads i \<longleftrightarrow>
     bi_code i \<noteq> BPF_LD OR BPF_W OR BPF_IND \<and> bi_code i \<noteq> BPF_LD OR BPF_H OR BPF_IND
     \<and> (bi_code i = BPF_LD OR BPF_W OR BPF_ABS \<or> bi_code i = BPF_LD OR BPF_H OR BPF_ABS \<longrightarrow> 0 \<le> sint (bi_k i))"

definition nopkt :: "bpf_res \<Rightarrow> bool" where
  "nopkt r \<longleftrightarrow> r \<noteq> BFault BadPkt"

lemma nopkt_if: "(b \<Longrightarrow> nopkt x) \<Longrightarrow> (\<not> b \<Longrightarrow> nopkt y) \<Longrightarrow> nopkt (if b then x else y)"
  by simp

lemma nopkt_simps [simp]:
  "nopkt (set_A s v)" "nopkt (set_X s v)" "nopkt (BRet v)" "nopkt (BFault DivZero)" "nopkt (jump s d)"
  "nopkt (mem_put s k v)"
  by (simp_all add: nopkt_def set_A_def set_X_def bpf_next_def jump_def mem_put_def)

lemma nopkt_get: "(\<And>v. nopkt (f v)) \<Longrightarrow> nopkt (mem_get f s k)"
  by (simp add: nopkt_def mem_get_def split: option.split)

lemma nopkt_loaded: "(\<And>v. nopkt (f v)) \<Longrightarrow> l \<noteq> LdFault \<Longrightarrow> nopkt (loaded f l)"
  by (cases l) (simp_all add: loaded_def nopkt_def)

lemma buflen_flat:
  assumes "bs \<noteq> []" "length bs < 2147483648"
  shows "uint (buflen (Flat bs)) = int (length bs)" "buflen (Flat bs) \<noteq> 0"
proof -
  show u: "uint (buflen (Flat bs)) = int (length bs)"
    using assms by (simp add: buflen_def unsigned_of_nat take_bit_nat_eq_self_iff)
  show "buflen (Flat bs) \<noteq> 0"
  proof
    assume "buflen (Flat bs) = 0"
    with u assms(1) show False by simp
  qed
qed

lemma byte_at_in: "0 \<le> i \<Longrightarrow> i < int (length bs) \<Longrightarrow> byte_at bs i = Some (bs ! nat i)"
  by (simp add: byte_at_def aref_def nat_less_iff)

lemma flat_loads:
  assumes bs: "bs \<noteq> []" "length bs < 2147483648"
  shows "0 \<le> sint k \<Longrightarrow> bpf_ldw (Flat bs) k =
      (if sint k + 4 \<le> int (length bs) then ld_val (EXTRACT_LONG bs (sint k)) else LdReject)"
    and "0 \<le> sint k \<Longrightarrow> bpf_ldh chk (Flat bs) k =
      (if sint k + 2 \<le> int (length bs) then ld_val (EXTRACT_SHORT bs (sint k)) else LdReject)"
    and "bpf_ldb w (Flat bs) k =
      (if uint k < int (length bs) then LdVal (ucast (bs ! unat k)) else LdReject)"
proof -
  note l = buflen_flat [OF bs]
  have s: "sint k < 2147483648" using sint_lt [of k] by simp
  show "bpf_ldw (Flat bs) k =
      (if sint k + 4 \<le> int (length bs) then ld_val (EXTRACT_LONG bs (sint k)) else LdReject)" if "0 \<le> sint k"
    using l s that by (simp add: bpf_ldw_def flat_bytes_def u64_id)
  show "bpf_ldh chk (Flat bs) k =
      (if sint k + 2 \<le> int (length bs) then ld_val (EXTRACT_SHORT bs (sint k)) else LdReject)" if "0 \<le> sint k"
    using l s that by (simp add: bpf_ldh_def flat_bytes_def u64_id)
  have "- 2147483648 \<le> uint k" using uint_ge_0 [of k] by linarith
  then have "sint k = uint k" if "uint k < int (length bs)"
    using that bs(2) by (simp add: sint_uint signed_take_bit_eq_if_positive bit_uint_iff
        signed_take_bit_int_eq_self_iff)
  then show "bpf_ldb w (Flat bs) k =
      (if uint k < int (length bs) then LdVal (ucast (bs ! unat k)) else LdReject)"
    using l by (simp add: bpf_ldb_def word_le_def flat_bytes_def ld_val_def byte_at_in)
qed

lemma extract_in:
  "0 \<le> i \<Longrightarrow> i + 4 \<le> int (length bs) \<Longrightarrow> ld_val (EXTRACT_LONG bs i) \<noteq> LdFault"
  "0 \<le> i \<Longrightarrow> i + 2 \<le> int (length bs) \<Longrightarrow> ld_val (EXTRACT_SHORT bs i) \<noteq> LdFault"
  by (simp_all add: EXTRACT_LONG_def EXTRACT_SHORT_def byte_at_in ld_val_def)

lemma flat_no_fault:
  assumes bs: "bs \<noteq> []" "length bs < 2147483648"
  shows "0 \<le> sint k \<Longrightarrow> bpf_ldw (Flat bs) k \<noteq> LdFault" "0 \<le> sint k \<Longrightarrow> bpf_ldh chk (Flat bs) k \<noteq> LdFault"
    "bpf_ldb w (Flat bs) k \<noteq> LdFault"
  using extract_in by (auto simp: flat_loads [OF bs])

lemma exec_no_pkt:
  assumes bs: "bs \<noteq> []" "length bs < 2147483648" and pkt: "be_pkt env = Flat bs" and i: "bpf_fixed_loads i"
  shows "bpf_exec env i s \<noteq> BFault BadPkt"
proof -
  have alu: "nopkt (bpf_alu env i s)"
    unfolding bpf_alu_def Let_def by (intro nopkt_if nopkt_simps)
  have jmp: "nopkt (bpf_jmp i s)"
    unfolding bpf_jmp_def Let_def by (intro nopkt_if nopkt_simps)
  have small: "nopkt (bpf_misc i s)" "nopkt (bpf_st i s)" "nopkt (bpf_ret i s)"
    by (simp_all add: bpf_misc_def bpf_st_def bpf_ret_def)
  have ld: "nopkt (bpf_ld env i s)"
    unfolding bpf_ld_def Let_def pkt
    by (intro nopkt_if nopkt_loaded nopkt_get nopkt_simps)
      (use i flat_no_fault [OF bs] in \<open>simp_all add: bpf_fixed_loads_def\<close>)
  have ldx: "nopkt (bpf_ldx env i s)"
    unfolding bpf_ldx_def Let_def pkt
    by (intro nopkt_if nopkt_loaded nopkt_get nopkt_simps) (use flat_no_fault [OF bs] in simp_all)
  show ?thesis
    using alu jmp small ld ldx by (simp add: bpf_exec_def Let_def nopkt_def)
qed

lemma run_no_pkt:
  assumes "\<And>i s. i \<in> set prog \<Longrightarrow> bpf_exec env i s \<noteq> BFault BadPkt"
  shows "bpf_run n env prog s \<noteq> Some (Fault BadPkt)"
proof (induction n arbitrary: s)
  case (Suc n)
  have "bpf_step env prog s \<noteq> BFault BadPkt"
    using assms by (auto simp: bpf_step_def aref_def split: option.split)
  with Suc show ?case by (auto split: bpf_res.split)
qed simp

text \<open>On a packet in one buffer, a validated program whose word and half-word loads have
  fixed offsets that are not negative never faults: it returns a value on every packet,
  however short.\<close>
theorem bpf_flat_no_fault:
  assumes "bpf_prog_ok prog" "list_all bpf_fixed_loads prog"
    and "be_pkt env = Flat bs" "bs \<noteq> []" "length bs < 2147483648" "length (bs_mem s) = 16"
  shows "\<exists>v. bpf_filter (length prog) env (Some prog) s = Some (Value v)"
proof -
  have "prog \<noteq> []" using assms(1) by (simp add: bpf_prog_ok_def bpf_validate_True)
  then have "bpf_inv prog (s\<lparr>bs_pc := 0\<rparr>)" using assms by (simp add: bpf_inv_def)
  from bpf_m.run_ends [OF this, of "length prog" env]
  obtain r where r: "bpf_run (length prog) env prog (s\<lparr>bs_pc := 0\<rparr>) = Some r" "bpf_allowed r"
    by (auto simp: bpf_run_machine)
  have "r \<noteq> Fault BadPkt"
    using run_no_pkt [of prog env] exec_no_pkt [OF assms(4,5,3)] assms(2) r(1)
    by (auto simp: list_all_iff)
  then obtain v where "r = Value v" using r(2) by (cases r) (auto simp: bpf_allowed_def)
  with r(1) show ?thesis by (simp add: bpf_filter_def)
qed

theorem bpf_flat_no_fault_witness:
  "\<exists>v. bpf_filter 4 (ex_bpf_env [1, 2]) (Some ex_filter) ex_bpf_state = Some (Value v)"
proof -
  have "bpf_prog_ok ex_filter" using ex_filter_ok by (simp add: bpf_prog_ok_def ex_filter_def)
  moreover have "list_all bpf_fixed_loads ex_filter" by code_simp
  moreover have "length ex_filter = 4" by (simp add: ex_filter_def)
  ultimately show ?thesis
    using bpf_flat_no_fault [of ex_filter "ex_bpf_env [1, 2]" "[1, 2]" ex_bpf_state]
    by (simp add: ex_bpf_env_def ex_bpf_state_def)
qed

section \<open>What the verifier lets through\<close>

text \<open>C25: The verifier's exact strength, for programs of at most \<open>BPF_MAXINSNS\<close> instructions: a
  conditional jump must land inside the program, a jump always only must not land beyond it
  in 32-bit arithmetic (a negative or an overflowing distance passes), stores of \<open>A\<close> and loads
  of \<open>A\<close> must stay inside \<open>mem\<close>, a constant divisor must not be zero, and the last
  instruction must be a return.\<close>
theorem bpf_validate_accepts_iff:
  assumes "length f \<le> 512"
  shows "bpf_validate f = Some True \<longleftrightarrow> f \<noteq> [] \<and> BPF_CLASS (bi_code (last f)) = BPF_RET
    \<and> (\<forall>j<length f. let p = f ! j; c = bi_code p in
        (BPF_CLASS c = BPF_JMP \<and> BPF_OP c \<noteq> BPF_JA \<longrightarrow>
            int j + 1 + uint (bi_jt p) < int (length f) \<and> int j + 1 + uint (bi_jf p) < int (length f))
        \<and> (BPF_CLASS c = BPF_JMP \<and> BPF_OP c = BPF_JA \<longrightarrow>
            int j + 1 + sint (bi_k p) < int (length f) \<or> int j + 1 + sint (bi_k p) \<ge> 2147483648)
        \<and> (BPF_CLASS c = BPF_ST \<or> BPF_CLASS c = BPF_LD \<and> BPF_MODE c = BPF_MEM \<longrightarrow>
            0 \<le> sint (bi_k p) \<and> sint (bi_k p) < 16)
        \<and> (c = BPF_ALU OR BPF_DIV OR BPF_K \<longrightarrow> bi_k p \<noteq> 0))"
proof -
  have byte: "0 \<le> uint b \<and> uint b < 256" for b :: "8 word" using uint_bounded [of b] by simp
  have chk: "bpf_check (int (length f)) (int j) p \<longleftrightarrow>
      (let c = bi_code p in
        (BPF_CLASS c = BPF_JMP \<and> BPF_OP c \<noteq> BPF_JA \<longrightarrow>
            int j + 1 + uint (bi_jt p) < int (length f) \<and> int j + 1 + uint (bi_jf p) < int (length f))
        \<and> (BPF_CLASS c = BPF_JMP \<and> BPF_OP c = BPF_JA \<longrightarrow>
            int j + 1 + sint (bi_k p) < int (length f) \<or> int j + 1 + sint (bi_k p) \<ge> 2147483648)
        \<and> (BPF_CLASS c = BPF_ST \<or> BPF_CLASS c = BPF_LD \<and> BPF_MODE c = BPF_MEM \<longrightarrow>
            0 \<le> sint (bi_k p) \<and> sint (bi_k p) < 16)
        \<and> (c = BPF_ALU OR BPF_DIV OR BPF_K \<longrightarrow> bi_k p \<noteq> 0))"
    if j: "j < length f" for j p
  proof -
    have s1: "s32 (int j + 1) = int j + 1" using assms j by (intro s32_id) auto
    have s2: "s32 (int j + 1 + uint b) = int j + 1 + uint b" for b :: "8 word"
      using byte [of b] assms j by (intro s32_id) auto
    have k: "- 2147483648 \<le> sint (bi_k p)" "sint (bi_k p) < 2147483648"
      using sint_ge [of "bi_k p"] sint_lt [of "bi_k p"] by simp_all
    have s3: "s32 (int j + 1 + sint (bi_k p)) < int (length f) \<longleftrightarrow>
        int j + 1 + sint (bi_k p) < int (length f) \<or> int j + 1 + sint (bi_k p) \<ge> 2147483648"
    proof (cases "int j + 1 + sint (bi_k p) \<ge> 2147483648")
      case True
      have "s32 (int j + 1 + sint (bi_k p)) = (int j + 1 + sint (bi_k p) + 2147483648 - 4294967296) - 2147483648"
        unfolding s32_def using True k assms j
        by (subst minus_mod_self2 [symmetric], subst mod_pos_pos_trivial) auto
      then show ?thesis using True k assms j by auto
    next
      case False
      then have "s32 (int j + 1 + sint (bi_k p)) = int j + 1 + sint (bi_k p)" using k by (intro s32_id) auto
      with False show ?thesis by auto
    qed
    show ?thesis
      by (cases "BPF_CLASS (bi_code p) = BPF_JMP"; cases "BPF_OP (bi_code p) = BPF_JA")
        (auto simp: bpf_check_def Let_def s1 s2 s3 BPF_MODE_def BPF_MEMWORDS_def not_less not_le)
  qed
  show ?thesis
    by (cases "f = []") (simp_all add: bpf_validate_True chk Let_def last_conv_nth conj_ac cong: conj_cong)
qed

theorem bpf_validate_accepts_iff_witness:
  "bpf_validate ex_filter = Some True \<and> BPF_CLASS (bi_code (last ex_filter)) = BPF_RET"
proof -
  have "length ex_filter \<le> 512" by (simp add: ex_filter_def)
  from iffD1 [OF bpf_validate_accepts_iff [OF this] ex_filter_ok(1)] ex_filter_ok(1) show ?thesis by simp
qed

text \<open>The verifier accepts a program on which the interpreter never ends, on any packet: a
  jump always with distance -1, which the check of the distance lets through.\<close>
theorem bpf_validate_accepts_loop:
  "\<exists>prog. bpf_validate prog = Some True \<and> length prog = 2 \<and> (\<forall>n env s. bpf_filter n env (Some prog) s = None)"
proof -
  let ?prog = "[\<lparr>bi_code = 0x05, bi_jt = 0, bi_jf = 0, bi_k = - 1\<rparr>, \<lparr>bi_code = 0x06, bi_jt = 0, bi_jf = 0, bi_k = 0\<rparr>]"
  have "bpf_validate ?prog = Some True" by code_simp
  moreover have "bpf_run n env ?prog s = None" if "bs_pc s = 0" for n env s
    using that
  proof (induction n arbitrary: s)
    case (Suc n)
    have "bpf_step env ?prog s = BNext (s\<lparr>bs_pc := 0\<rparr>)"
      using Suc.prems by (simp add: bpf_step_def aref_def bpf_exec_def Let_def BPF_CLASS_def bpf_jmp_def
          jump_def bpf_next_def bpf_codes)
    with Suc.IH show ?case by simp
  qed simp
  ultimately show ?thesis
    by (intro exI [of _ ?prog]) (simp add: bpf_filter_def)
qed

text \<open>The verifier accepts programs that write beyond \<open>mem\<close> through \<open>X\<close>, and programs that
  read before the packet: the bound test adds 4 to the offset in 64-bit unsigned arithmetic,
  so that offset -4 passes it.\<close>
theorem bpf_validate_accepts_overflow:
  "(\<exists>prog env s. bpf_validate prog = Some True \<and> length (bs_mem s) = 16
      \<and> bpf_filter 1 env (Some prog) s = Some (Fault BadMem))
   \<and> (\<exists>prog env s bs. bpf_validate prog = Some True \<and> be_pkt env = Flat bs \<and> bs \<noteq> []
      \<and> bpf_filter 1 env (Some prog) s = Some (Fault BadPkt))"
proof
  let ?prog = "[\<lparr>bi_code = 0x03, bi_jt = 0, bi_jf = 0, bi_k = 1000\<rparr>, \<lparr>bi_code = 0x06, bi_jt = 0, bi_jf = 0, bi_k = 0\<rparr>]"
  have "bpf_validate ?prog = Some True" by code_simp
  moreover have "length (bs_mem s) = 16 \<Longrightarrow> bpf_filter 1 env (Some ?prog) s = Some (Fault BadMem)" for env s
    by (simp add: bpf_filter_def bpf_step_def aref_def bpf_exec_def Let_def BPF_CLASS_def bpf_st_def mem_put_def bpf_codes)
  moreover have "length (bs_mem ex_bpf_state) = 16" by (simp add: ex_bpf_state_def)
  ultimately show "\<exists>prog env s. bpf_validate prog = Some True \<and> length (bs_mem s) = 16
      \<and> bpf_filter 1 env (Some prog) s = Some (Fault BadMem)" by blast
next
  let ?prog = "[\<lparr>bi_code = 0x20, bi_jt = 0, bi_jf = 0, bi_k = - 4\<rparr>, \<lparr>bi_code = 0x06, bi_jt = 0, bi_jf = 0, bi_k = 0\<rparr>]"
  have "bpf_validate ?prog = Some True" by code_simp
  moreover have "bpf_filter 1 env (Some ?prog) s = Some (Fault BadPkt)" if "be_pkt env = Flat bs" for env s bs
    using that
    by (simp add: bpf_filter_def bpf_step_def aref_def bpf_exec_def Let_def BPF_CLASS_def bpf_ld_def bpf_codes
        bpf_ldw_def loaded_def ld_val_def EXTRACT_LONG_def byte_at_def u64_def)
  moreover have "be_pkt (ex_bpf_env [1]) = Flat [1]" by (simp add: ex_bpf_env_def)
  ultimately show "\<exists>prog env s bs. bpf_validate prog = Some True \<and> be_pkt env = Flat bs \<and> bs \<noteq> []
      \<and> bpf_filter 1 env (Some prog) s = Some (Fault BadPkt)" by blast
qed

section \<open>Loads from mbuf chains\<close>

text \<open>A well-formed chain and its bytes.\<close>

definition mchain_ok :: "bpf_mbuf list \<Rightarrow> bool" where
  "mchain_ok ms \<longleftrightarrow> (\<forall>m\<in>set ms. 0 \<le> bm_len m \<and> bm_len m \<le> int (length (bm_buf m)))"

definition mchain_bytes :: "bpf_mbuf list \<Rightarrow> 8 word list" where
  "mchain_bytes ms = concat (map (\<lambda>m. take (nat (bm_len m)) (bm_buf m)) ms)"

lemma mindex_None:
  "mchain_ok ms \<Longrightarrow> 0 \<le> k \<Longrightarrow> mindex ms k = None \<longleftrightarrow> k \<ge> int (length (mchain_bytes ms))"
proof (induction ms arbitrary: k)
  case (Cons m ms)
  have m: "mchain_ok ms" "0 \<le> bm_len m" "bm_len m \<le> int (length (bm_buf m))"
    using Cons.prems(1) by (auto simp: mchain_ok_def)
  then have "int (length (mchain_bytes (m # ms))) = bm_len m + int (length (mchain_bytes ms))"
    by (simp add: mchain_bytes_def)
  then show ?case using Cons.IH [OF m(1), of "k - bm_len m"] Cons.prems(2) by auto
qed (simp add: mchain_bytes_def)

lemma mindex_offset: "mindex ms k = Some (m, rest, j) \<Longrightarrow> j < bm_len m"
  by (induction ms arbitrary: k) (auto split: if_splits)

lemma byte_at_append: "0 \<le> i \<Longrightarrow> byte_at (xs @ ys) (int (length xs) + i) = byte_at ys i"
  by (simp add: byte_at_def aref_def nat_add_distrib nth_append)

text \<open>Inside one mbuf the chain's bytes are the mbuf's.\<close>

lemma mindex_byte:
  "mchain_ok ms \<Longrightarrow> mindex ms k = Some (m, rest, j) \<Longrightarrow> 0 \<le> k \<Longrightarrow> 0 \<le> d \<Longrightarrow> j + d < bm_len m \<Longrightarrow>
     0 \<le> j \<and> byte_at (bm_buf m) (j + d) = byte_at (mchain_bytes ms) (k + d)
     \<and> k + d < int (length (mchain_bytes ms))"
proof (induction ms arbitrary: k)
  case (Cons m' ms)
  have ok: "mchain_ok ms" "0 \<le> bm_len m'" "bm_len m' \<le> int (length (bm_buf m'))"
    using Cons.prems(1) by (auto simp: mchain_ok_def)
  let ?t = "take (nat (bm_len m')) (bm_buf m')"
  have len: "int (length ?t) = bm_len m'" using ok by simp
  have bytes: "mchain_bytes (m' # ms) = ?t @ mchain_bytes ms" by (simp add: mchain_bytes_def)
  show ?case
  proof (cases "k \<ge> bm_len m'")
    case True
    have mi: "mindex ms (k - bm_len m') = Some (m, rest, j)" using Cons.prems(2) True by simp
    have "0 \<le> k - bm_len m'" using True by simp
    note ih = Cons.IH [OF ok(1) mi this Cons.prems(4,5)]
    have "k + d = int (length ?t) + (k - bm_len m' + d)" "0 \<le> k - bm_len m' + d"
      using True len Cons.prems(4) by auto
    then have "byte_at (mchain_bytes (m' # ms)) (k + d) = byte_at (mchain_bytes ms) (k - bm_len m' + d)"
      unfolding bytes by (metis byte_at_append)
    with ih len show ?thesis by (simp add: bytes)
  next
    case False
    then have m: "m = m'" "j = k" "rest = ms" using Cons.prems(2) by auto
    then show ?thesis
      using Cons.prems(3,4,5) ok len by (auto simp: bytes byte_at_def aref_def nth_append nat_less_iff)
  qed
qed simp

text \<open>An absolute byte load from a well-formed mbuf chain gives what it would give on the
  same bytes in one buffer, wherever the byte lies, and rejects the packet for offsets
  beyond its end.\<close>
theorem bpf_byte_chain_is_flat:
  assumes "mchain_ok ms" "mchain_bytes ms \<noteq> []" "length (mchain_bytes ms) < 2147483648" "0 \<le> sint k"
  shows "bpf_ldb ucast (Chain ms) k = bpf_ldb ucast (Flat (mchain_bytes ms)) k"
proof -
  have ms: "ms \<noteq> []" using assms(2) by (auto simp: mchain_bytes_def)
  have uk: "uint k = sint k"
    using assms(4) sint_lt [of k] by (simp add: uint_sint take_bit_int_eq_self)
  note flat = flat_loads(3) [OF assms(2,3)]
  have b0: "buflen (Chain ms) = 0" by (simp add: buflen_def)
  show ?thesis
  proof (cases "mindex ms (sint k)")
    case None
    then have "bpf_ldb ucast (Chain ms) k = LdReject" using ms by (simp add: bpf_ldb_def b0 mbufs_def)
    then show ?thesis using mindex_None [OF assms(1,4)] None uk by (simp add: flat)
  next
    case (Some r)
    obtain m rest j where r: "r = (m, rest, j)" by (cases r)
    have "j < bm_len m" using Some r by (auto dest: mindex_offset)
    then have at: "byte_at (bm_buf m) j = byte_at (mchain_bytes ms) (sint k)"
      and lt: "sint k < int (length (mchain_bytes ms))"
      using mindex_byte [OF assms(1) Some [unfolded r] assms(4), of 0] by simp_all
    have "nat (sint k) = unat k" using uk by (metis nat_uint_eq)
    with byte_at_in [OF assms(4) lt]
    have "byte_at (mchain_bytes ms) (sint k) = Some (mchain_bytes ms ! unat k)" by (simp only:)
    then have "bpf_ldb ucast (Chain ms) k = LdVal (ucast (mchain_bytes ms ! unat k))"
      using Some r at ms by (simp add: bpf_ldb_def b0 mbufs_def ld_val_def)
    then show ?thesis using lt uk by (simp add: flat)
  qed
qed

definition ex_chain :: "bpf_mbuf list" where
  "ex_chain = [\<lparr>bm_len = 6, bm_buf = [1, 2, 3, 4, 5, 6, 0, 0, 0, 0, 0, 0]\<rparr>, \<lparr>bm_len = 4, bm_buf = [7, 8, 0x90, 10]\<rparr>]"

lemma ex_chain_ok: "mchain_ok ex_chain" "mchain_bytes ex_chain = [1, 2, 3, 4, 5, 6, 7, 8, 0x90, 10]"
  by (simp_all add: mchain_ok_def ex_chain_def mchain_bytes_def)

theorem bpf_byte_chain_is_flat_witness:
  "bpf_ldb ucast (Chain ex_chain) 6 = LdVal 7"
proof -
  have "0 \<le> sint (6 :: 32 word)" by simp
  from bpf_byte_chain_is_flat [OF ex_chain_ok(1) _ _ this]
  have "bpf_ldb ucast (Chain ex_chain) 6 = bpf_ldb ucast (Flat (mchain_bytes ex_chain)) 6"
    by (simp add: ex_chain_ok(2))
  also have "\<dots> = LdVal 7" unfolding ex_chain_ok(2) by code_simp
  finally show ?thesis .
qed

text \<open>A word load from a well-formed chain gives the big-endian word of the packet's bytes
  when the four bytes lie in one mbuf, as it would from one buffer.\<close>
theorem bpf_word_chain_is_flat:
  assumes "mchain_ok ms" "length (mchain_bytes ms) < 2147483648" "0 \<le> sint k"
    and "mindex ms (sint k) = Some (m, rest, j)" "j + 4 \<le> bm_len m"
  shows "bpf_ldw (Chain ms) k = bpf_ldw (Flat (mchain_bytes ms)) k"
proof -
  have in_m: "byte_at (bm_buf m) (j + d) = byte_at (mchain_bytes ms) (sint k + d)
      \<and> sint k + d < int (length (mchain_bytes ms))" if "0 \<le> d" "d < 4" for d
    using mindex_byte [OF assms(1,4,3) that(1)] assms(5) that(2) by simp
  then have ext: "EXTRACT_LONG (bm_buf m) j = EXTRACT_LONG (mchain_bytes ms) (sint k)"
    using in_m [of 0] by (simp add: EXTRACT_LONG_def)
  have room: "sint k + 4 \<le> int (length (mchain_bytes ms))" using in_m [of 3] by simp
  then have "mchain_bytes ms \<noteq> []" using assms(3) by auto
  moreover have "ms \<noteq> []" using calculation by (auto simp: mchain_bytes_def)
  ultimately have ne: "mchain_bytes ms \<noteq> []" "ms \<noteq> []" by blast+
  obtain v where v: "EXTRACT_LONG (mchain_bytes ms) (sint k) = Some v"
    using extract_in(1) [OF assms(3) room] by (cases "EXTRACT_LONG (mchain_bytes ms) (sint k)") (auto simp: ld_val_def)
  have "u64 (sint k + 4) = sint k + 4" using assms(3) sint_lt [of k] by (intro u64_id) auto
  then have "bpf_ldw (Chain ms) k = LdVal v"
    using assms(3,4,5) ne ext v by (simp add: bpf_ldw_def buflen_def mbufs_def m_xword_def)
  then show ?thesis
    using flat_loads(1) [OF ne(1) assms(2,3)] room v by (simp add: ld_val_def)
qed

theorem bpf_word_chain_is_flat_witness:
  "bpf_ldw (Chain ex_chain) 1 = LdVal 0x2030405"
proof -
  have "0 \<le> sint (1 :: 32 word)" by simp
  from bpf_word_chain_is_flat [OF ex_chain_ok(1) _ this, of "ex_chain ! 0" "[ex_chain ! 1]" 1]
  have "bpf_ldw (Chain ex_chain) 1 = bpf_ldw (Flat (mchain_bytes ex_chain)) 1"
    by (simp add: ex_chain_def mchain_bytes_def)
  also have "\<dots> = LdVal 0x2030405" unfolding ex_chain_ok(2) by code_simp
  finally show ?thesis .
qed

text \<open>Where the bytes straddle two mbufs the chain loads go wrong: \<open>m_xword\<close> and
  \<open>m_xhalf\<close> add the offset twice and pick up bytes that are not the packet's; an absolute
  half-word load beyond the end of the packet yields 0 instead of rejecting it; and the
  indirect byte load sign-extends.\<close>
theorem bpf_chain_loads_differ:
  "bpf_ldw (Chain ex_chain) 4 = LdVal 0x00000708 \<and> bpf_ldw (Flat (mchain_bytes ex_chain)) 4 = LdVal 0x05060708
   \<and> bpf_ldh True (Chain ex_chain) 5 = LdVal 7 \<and> bpf_ldh True (Flat (mchain_bytes ex_chain)) 5 = LdVal 0x0607
   \<and> bpf_ldh False (Chain ex_chain) 40 = LdVal 0 \<and> bpf_ldh False (Flat (mchain_bytes ex_chain)) 40 = LdReject
   \<and> bpf_ldb scast (Chain ex_chain) 8 = LdVal 0xFFFFFF90 \<and> bpf_ldb scast (Flat (mchain_bytes ex_chain)) 8 = LdVal 0x90"
  unfolding ex_chain_ok(2) by (intro conjI) code_simp+

end
