(* ===== verification/Flock.thy ===== *)
theory Flock
  imports OSF_Prelude
begin

text \<open>
  The record lock package of \<open>vfs/vfs_flock.c\<close>: the lock records, the chain of records of a
  file, the queues of sleeping and granted requests, and the operations on one chain
  (\<open>insflck\<close>, \<open>delflck\<close>, \<open>regflck\<close>, \<open>flckadj\<close>, \<open>blocked\<close>).

  A chain is the list of its records in order; a pointer to a record of a chain is its
  index, and \<open>NULL\<close> is \<open>None\<close>.  A \<open>flino\<close> is named by its vnode.  The kernel is compiled
  for the Alpha (\<open>off_t\<close> is a signed 64 bit integer) with \<open>UNIX_LOCKS\<close> and without \<open>i386\<close>.
  The debugging output under \<open>dbg_lock\<close> and the locks of the package are left out: each
  operation is one step.
\<close>

section \<open>Data\<close>

definition F_RDLCK :: int where "F_RDLCK = 1"
definition F_WRLCK :: int where "F_WRLCK = 2"
definition F_UNLKSYS :: int where "F_UNLKSYS = 4"
definition F_UNLCK :: int where "F_UNLCK = 8"
definition MAXEND :: int where "MAXEND = 0x7fffffffffffffff"
definition GRANT_LOCK_FLAG :: int where "GRANT_LOCK_FLAG = 0xf"
definition VENF_LOCK :: "32 word" where "VENF_LOCK = 0x2000"
definition VLOCKS :: "32 word" where "VLOCKS = 0x4000"

record eflock =
  l_type :: int
  l_whence :: int
  l_start :: int
  l_len :: int
  l_pid :: int
  l_rpid :: int
  l_rsys :: int
  l_xxx :: int
  l_cb :: int

text \<open>The length field holds the end of the region once \<open>setflck\<close> has computed it.\<close>

abbreviation l_end :: "eflock \<Rightarrow> int" where "l_end \<equiv> l_len"

datatype lock_class = FILE_LOCK | IO_LOCK | LOCKMGR

record filock =
  fl_set :: eflock
  fl_blkpid :: int
  fl_class :: lock_class
  fl_blkrpid :: int
  fl_blkrsys :: int
  fl_vp :: nat

record flino =
  fi_vp :: nat
  fi_refcnt :: int
  fi_flck :: "filock list"

record flckinfo =
  recmax :: int
  filmax :: int
  reccnt :: int
  filcnt :: int
  rectot :: int
  filtot :: int

record flk_state =
  fk_fids :: "flino list"
  fk_sleep :: "filock list"
  fk_grant :: "filock list"
  fk_klm :: "filock list"
  fk_info :: flckinfo
  fk_vflag :: "nat \<Rightarrow> 32 word"
  fk_woken :: "filock list"

text \<open>
  What the package takes from its surroundings: whether the two zones have a free element
  when that many are in use, the effect of \<open>VOP_LOCKCTL\<close> with \<open>ENFFLCK\<close> on the vnode flags,
  the answer of the lock daemon to a granted message, the file system of a vnode and the
  process that runs (\<open>u.u_procp->p_pid\<close>).
\<close>

record flk_env =
  fe_rec_zone :: "int \<Rightarrow> bool"
  fe_file_zone :: "int \<Rightarrow> bool"
  fe_enfflck :: "nat \<Rightarrow> 32 word \<Rightarrow> 32 word"
  fe_klm :: "nat \<Rightarrow> eflock \<Rightarrow> int"
  fe_fsid :: "nat \<Rightarrow> int"
  fe_pid :: int

text \<open>The chain a \<open>flip\<close> pointer leads to: a file's, or one of the three queues.\<close>

datatype flk_chain = VChain nat | SleepQ | GrantQ | KlmQ

text \<open>
  The operations return a C \<open>int\<close>: an error number, or one of the flags 0, 1 and
  \<open>GRANT_LOCK_FLAG\<close>.
\<close>

primrec errno_val :: "errno \<Rightarrow> int" where
  "errno_val EPERM = 1"
| "errno_val ENOENT = 2"
| "errno_val EINTR = 4"
| "errno_val E2BIG = 7"
| "errno_val EDEADLK = 11"
| "errno_val ENOMEM = 12"
| "errno_val EACCES = 13"
| "errno_val EFAULT = 14"
| "errno_val EEXIST = 17"
| "errno_val EINVAL = 22"
| "errno_val EMFILE = 24"
| "errno_val EFBIG = 27"
| "errno_val ENOSPC = 28"
| "errno_val ERANGE = 34"
| "errno_val EAGAIN = 35"
| "errno_val ENOLCK = 77"
| "errno_val ENOMSG = 80"
| "errno_val EIDRM = 81"

section \<open>Chains\<close>

definition del_at :: "nat \<Rightarrow> 'a list \<Rightarrow> 'a list" where
  "del_at i xs = take i xs @ drop (Suc i) xs"

definition ins_at :: "nat option \<Rightarrow> 'a \<Rightarrow> 'a list \<Rightarrow> 'a list" where
  "ins_at p x xs = (case p of None \<Rightarrow> x # xs | Some i \<Rightarrow> take (Suc i) xs @ x # drop (Suc i) xs)"

definition prev_pos :: "nat \<Rightarrow> nat option" where
  "prev_pos i = (case i of 0 \<Rightarrow> None | Suc k \<Rightarrow> Some k)"

fun fids_find :: "nat \<Rightarrow> flino list \<Rightarrow> flino option" where
  "fids_find vp [] = None"
| "fids_find vp (f # fs) = (if fi_vp f = vp then Some f else fids_find vp fs)"

fun fids_upd :: "nat \<Rightarrow> (flino \<Rightarrow> flino) \<Rightarrow> flino list \<Rightarrow> flino list" where
  "fids_upd vp g [] = []"
| "fids_upd vp g (f # fs) = (if fi_vp f = vp then g f # fs else f # fids_upd vp g fs)"

fun fids_del :: "nat \<Rightarrow> flino list \<Rightarrow> flino list" where
  "fids_del vp [] = []"
| "fids_del vp (f # fs) = (if fi_vp f = vp then fs else f # fids_del vp fs)"

definition flck_chain :: "flk_chain \<Rightarrow> flk_state \<Rightarrow> filock list" where
  "flck_chain q st =
     (case q of SleepQ \<Rightarrow> fk_sleep st | GrantQ \<Rightarrow> fk_grant st | KlmQ \<Rightarrow> fk_klm st
      | VChain vp \<Rightarrow> (case fids_find vp (fk_fids st) of None \<Rightarrow> [] | Some f \<Rightarrow> fi_flck f))"

definition chain_upd :: "flk_chain \<Rightarrow> (filock list \<Rightarrow> filock list) \<Rightarrow> flk_state \<Rightarrow> flk_state" where
  "chain_upd q g st =
     (case q of SleepQ \<Rightarrow> st\<lparr>fk_sleep := g (fk_sleep st)\<rparr>
      | GrantQ \<Rightarrow> st\<lparr>fk_grant := g (fk_grant st)\<rparr>
      | KlmQ \<Rightarrow> st\<lparr>fk_klm := g (fk_klm st)\<rparr>
      | VChain vp \<Rightarrow> st\<lparr>fk_fids := fids_upd vp (\<lambda>f. f\<lparr>fi_flck := g (fi_flck f)\<rparr>) (fk_fids st)\<rparr>)"

definition info_upd :: "(flckinfo \<Rightarrow> flckinfo) \<Rightarrow> flk_state \<Rightarrow> flk_state" where
  "info_upd g st = st\<lparr>fk_info := g (fk_info st)\<rparr>"

section \<open>File identifiers\<close>

text \<open>\<open>findfid\<close> says whether the file has a \<open>flino\<close>, and then counts one more reference.\<close>

definition findfid :: "nat \<Rightarrow> flk_state \<Rightarrow> bool \<times> flk_state" where
  "findfid vp st =
     (case fids_find vp (fk_fids st) of
        None \<Rightarrow> (False, st)
      | Some f \<Rightarrow>
          (True, st\<lparr>fk_fids := fids_upd vp (\<lambda>f. f\<lparr>fi_refcnt := fi_refcnt f + 1\<rparr>) (fk_fids st)\<rparr>))"

definition allocfid :: "flk_env \<Rightarrow> nat \<Rightarrow> flk_state \<Rightarrow> bool \<times> flk_state" where
  "allocfid env vp st =
     (if \<not> fe_file_zone env (filcnt (fk_info st)) then (False, st)
      else
        let st1 = info_upd (\<lambda>fi. fi\<lparr>filcnt := filcnt fi + 1, filmax := max (filmax fi) (filcnt fi + 1),
                                    filtot := s32 (filtot fi + 1)\<rparr>) st in
        case fids_find vp (fk_fids st1) of
          Some f \<Rightarrow>
            (True, info_upd (\<lambda>fi. fi\<lparr>filcnt := filcnt fi - 1, filtot := s32 (filtot fi - 1)\<rparr>)
              (st1\<lparr>fk_fids := fids_upd vp (\<lambda>f. f\<lparr>fi_refcnt := fi_refcnt f + 1\<rparr>) (fk_fids st1)\<rparr>))
        | None \<Rightarrow>
            (True, st1\<lparr>fk_fids := \<lparr>fi_vp = vp, fi_refcnt = 1, fi_flck = []\<rparr> # fk_fids st1\<rparr>))"

definition freefid :: "nat \<Rightarrow> flk_state \<Rightarrow> flk_state" where
  "freefid vp st =
     (case fids_find vp (fk_fids st) of
        None \<Rightarrow> st
      | Some f \<Rightarrow>
          if fi_refcnt f = 1 \<and> fi_flck f = []
          then info_upd (\<lambda>fi. fi\<lparr>filcnt := filcnt fi - 1\<rparr>)
                 (st\<lparr>fk_fids := fids_del vp (fk_fids st)\<rparr>)
          else st\<lparr>fk_fids := fids_upd vp (\<lambda>f. f\<lparr>fi_refcnt := fi_refcnt f - 1\<rparr>) (fk_fids st)\<rparr>)"

definition flckinit :: "(nat \<Rightarrow> 32 word) \<Rightarrow> flk_state" where
  "flckinit vf =
     \<lparr>fk_fids = [], fk_sleep = [], fk_grant = [], fk_klm = [],
      fk_info = \<lparr>recmax = 0, filmax = 0, reccnt = 0, filcnt = 0, rectot = 0, filtot = 0\<rparr>,
      fk_vflag = vf, fk_woken = []\<rparr>"

section \<open>Inserting and deleting a record\<close>

definition clear_vlocks :: "nat \<Rightarrow> flk_state \<Rightarrow> flk_state" where
  "clear_vlocks vp st =
     st\<lparr>fk_vflag := (fk_vflag st)(vp := fk_vflag st vp AND NOT (VLOCKS OR VENF_LOCK))\<rparr>"

text \<open>
  The record \<open>insflck\<close> makes.  The two blocker fields beside \<open>blkpid\<close> hold whatever the zone
  element held; every reader of them sets them first, and the model has 0.
\<close>

definition new_filock :: "eflock \<Rightarrow> nat \<Rightarrow> lock_class \<Rightarrow> int \<Rightarrow> filock" where
  "new_filock lckdat vp class upid =
     \<lparr>fl_set = (if class \<noteq> LOCKMGR then lckdat\<lparr>l_pid := upid\<rparr> else lckdat),
      fl_blkpid = 0, fl_class = class, fl_blkrpid = 0, fl_blkrsys = 0, fl_vp = vp\<rparr>"

definition insflck ::
  "flk_env \<Rightarrow> flk_chain \<Rightarrow> eflock \<Rightarrow> nat option \<Rightarrow> nat \<Rightarrow> lock_class \<Rightarrow> int \<Rightarrow> flk_state
    \<Rightarrow> bool \<times> flk_state" where
  "insflck env q lckdat fl vp class upid st =
     (if \<not> fe_rec_zone env (reccnt (fk_info st)) then (False, st)
      else
        let st1 = info_upd (\<lambda>fi. fi\<lparr>reccnt := reccnt fi + 1, recmax := max (recmax fi) (reccnt fi + 1),
                                    rectot := s32 (rectot fi + 1)\<rparr>) st;
            new = new_filock lckdat vp class upid;
            st2 = (if q = SleepQ then chain_upd q (\<lambda>fs. fs @ [new]) st1
                   else chain_upd q (ins_at fl new) st1)
        in (True,
            if q \<noteq> SleepQ \<and> class \<noteq> LOCKMGR
            then st2\<lparr>fk_vflag := (fk_vflag st2)(vp := fe_enfflck env vp (fk_vflag st2 vp))\<rparr>
            else st2))"

definition delflck :: "flk_chain \<Rightarrow> nat \<Rightarrow> nat \<Rightarrow> flk_state \<Rightarrow> flk_state" where
  "delflck q i vp st =
     (let st1 = chain_upd q (del_at i) st;
          st2 = (if q \<noteq> SleepQ \<and> q \<noteq> GrantQ \<and> q \<noteq> KlmQ \<and> flck_chain q st1 = []
                 then clear_vlocks vp st1 else st1)
      in info_upd (\<lambda>fi. fi\<lparr>reccnt := reccnt fi - 1\<rparr>) st2)"

fun delsleep_scan :: "int \<Rightarrow> nat \<Rightarrow> filock list \<Rightarrow> nat option" where
  "delsleep_scan pid i [] = None"
| "delsleep_scan pid i (sf # fs) =
     (if l_pid (fl_set sf) = pid \<and> fl_class sf = FILE_LOCK then Some i
      else delsleep_scan pid (Suc i) fs)"

definition delsleeplck :: "int \<Rightarrow> flk_state \<Rightarrow> flk_state" where
  "delsleeplck pid st =
     (case delsleep_scan pid 0 (fk_sleep st) of
        None \<Rightarrow> st | Some i \<Rightarrow> delflck SleepQ i 0 st)"

end
