(* ===== verification/Flock_Adj.thy ===== *)
theory Flock_Adj
  imports Flock
begin

text \<open>
  The operations of \<open>vfs/vfs_flock.c\<close> that read and rewrite the chain of one file:
  \<open>regflck\<close> classifies a region against a record, \<open>flckadj\<close> sets or clears a region for
  its owner, \<open>blocked\<close> looks for a record that blocks a request.
\<close>

section \<open>Regions\<close>

text \<open>The two octal digits of a region type.\<close>

datatype s_region = S_BEFORE | S_START | S_MIDDLE | S_END | S_AFTER
datatype e_region = E_BEFORE | E_START | E_MIDDLE | E_END | E_AFTER

definition regflck :: "eflock \<Rightarrow> filock \<Rightarrow> s_region \<times> e_region" where
  "regflck ld flp =
     (let fs = l_start (fl_set flp); fe = l_end (fl_set flp);
          e = (if l_end ld > fs
               then (if l_end ld > fe then E_AFTER else if l_end ld = fe then E_END else E_MIDDLE)
               else if l_end ld = fs then E_START else E_BEFORE)
      in if l_start ld > fs
         then (if l_start ld > fe then (S_AFTER, E_AFTER)
               else if l_start ld = fe then (S_END, E_AFTER)
               else (S_MIDDLE, e))
         else if l_start ld = fs then (S_START, e)
         else (S_BEFORE, e))"

section \<open>Owners\<close>

text \<open>
  The process a request is for: a local process has no remote identity, a request of the
  lock manager carries all three numbers.
\<close>

type_synonym owner = "int \<times> int \<times> int"

definition req_owner :: "eflock \<Rightarrow> lock_class \<Rightarrow> int \<Rightarrow> owner" where
  "req_owner ld class upid = (if class = LOCKMGR then (l_pid ld, l_rpid ld, l_rsys ld) else (upid, 0, 0))"

definition set_owner :: "eflock \<Rightarrow> owner" where
  "set_owner ld = (l_pid ld, l_rpid ld, l_rsys ld)"

section \<open>Adjusting the chain\<close>

text \<open>
  The search for the place of a record: the last one, from index \<open>i\<close> on, of the run of
  records that start before \<open>s\<close>.
\<close>

fun seek :: "int \<Rightarrow> filock list \<Rightarrow> nat \<Rightarrow> nat option \<Rightarrow> nat option" where
  "seek s [] i acc = acc"
| "seek s (f # fs) i acc = (if l_start (fl_set f) < s then seek s fs (Suc i) (Some i) else acc)"

text \<open>How one turn of the loop over the chain ends.\<close>

datatype adj_turn =
    AdjReturn int eflock flk_state                           \<comment> \<open>\<open>return\<close>\<close>
  | AdjStop eflock "nat option" int flk_state                \<comment> \<open>\<open>nflp\<close> is \<open>NULL\<close>: the loop ends\<close>
  | AdjNext eflock "nat option" int nat flk_state            \<comment> \<open>on to the record at the index\<close>

definition set_fl :: "nat \<Rightarrow> (eflock \<Rightarrow> eflock) \<Rightarrow> nat \<Rightarrow> flk_state \<Rightarrow> flk_state" where
  "set_fl vp g i st = chain_upd (VChain vp) (\<lambda>fs. fs[i := (fs ! i)\<lparr>fl_set := g (fl_set (fs ! i))\<rparr>]) st"

text \<open>The piece of a record beyond the end of the region, put behind the place found from it.\<close>

definition ins_after_piece ::
  "flk_env \<Rightarrow> nat \<Rightarrow> lock_class \<Rightarrow> int \<Rightarrow> eflock \<Rightarrow> filock \<Rightarrow> nat \<Rightarrow> flk_state \<Rightarrow> bool \<times> flk_state" where
  "ins_after_piece env vp class upid ld flp i st =
     insflck env (VChain vp) ((fl_set flp)\<lparr>l_start := l_end ld\<rparr>)
       (seek (l_start ld) (drop i (flck_chain (VChain vp) st)) i (Some i)) vp class upid st"

text \<open>
  One turn for a record \<open>flp\<close> of the same owner, at index \<open>i\<close> of the chain.
\<close>

definition flckadj_own ::
  "flk_env \<Rightarrow> nat \<Rightarrow> lock_class \<Rightarrow> int \<Rightarrow> filock \<Rightarrow> nat \<Rightarrow> nat option \<Rightarrow> eflock \<Rightarrow> int \<Rightarrow> flk_state
    \<Rightarrow> adj_turn" where
  "flckadj_own env vp class upid flp i insrtp ld rv st =
     (let same = (l_type ld = l_type (fl_set flp));
          del = delflck (VChain vp) i vp st;
          back = (if insrtp = Some i then prev_pos i else insrtp)
      in case regflck ld flp of
        (S_BEFORE, E_BEFORE) \<Rightarrow> AdjStop ld insrtp rv st
      | (S_BEFORE, E_START) \<Rightarrow>
          if same then AdjNext (ld\<lparr>l_len := l_end (fl_set flp)\<rparr>) back rv i del
          else AdjStop ld insrtp rv st
      | (S_START, E_END) \<Rightarrow>
          if same then AdjReturn rv ld st else AdjNext ld (prev_pos i) 1 i del
      | (S_START, E_AFTER) \<Rightarrow> AdjNext ld (prev_pos i) 1 i del
      | (S_BEFORE, E_END) \<Rightarrow>
          if same then AdjStop ld back 1 del else AdjNext ld back 1 i del
      | (S_BEFORE, E_AFTER) \<Rightarrow> AdjNext ld back 1 i del
      | (S_BEFORE, E_MIDDLE) \<Rightarrow>
          if same then AdjStop (ld\<lparr>l_len := l_end (fl_set flp)\<rparr>) back 1 del
          else (case ins_after_piece env vp class upid ld flp i st of
                  (False, st1) \<Rightarrow> AdjReturn (errno_val ENOLCK) ld st1
                | (True, st1) \<Rightarrow> AdjStop ld back 1 (delflck (VChain vp) i vp st1))
      | (S_START, E_MIDDLE) \<Rightarrow>
          if same then AdjReturn rv ld st
          else (case ins_after_piece env vp class upid ld flp i st of
                  (False, st1) \<Rightarrow> AdjReturn (errno_val ENOLCK) ld st1
                | (True, st1) \<Rightarrow> AdjStop ld (prev_pos i) 1 (delflck (VChain vp) i vp st1))
      | (S_MIDDLE, E_MIDDLE) \<Rightarrow>
          if same then AdjReturn rv ld st
          else (case ins_after_piece env vp class upid ld flp i st of
                  (False, st1) \<Rightarrow> AdjReturn (errno_val ENOLCK) ld st1
                | (True, st1) \<Rightarrow> AdjStop ld (Some i) 1 (set_fl vp (\<lambda>s. s\<lparr>l_len := l_start ld\<rparr>) i st1))
      | (S_MIDDLE, E_END) \<Rightarrow>
          if same then AdjReturn rv ld st
          else AdjNext ld (Some i) 1 (Suc i) (set_fl vp (\<lambda>s. s\<lparr>l_len := l_start ld\<rparr>) i st)
      | (S_MIDDLE, E_AFTER) \<Rightarrow>
          if same then AdjNext (ld\<lparr>l_start := l_start (fl_set flp)\<rparr>) (prev_pos i) rv i del
          else AdjNext ld (Some i) 1 (Suc i) (set_fl vp (\<lambda>s. s\<lparr>l_len := l_start ld\<rparr>) i st)
      | (S_END, E_AFTER) \<Rightarrow>
          if same then AdjNext (ld\<lparr>l_start := l_start (fl_set flp)\<rparr>) (prev_pos i) rv i del
          else AdjNext ld (Some i) 1 (Suc i) (set_fl vp (\<lambda>s. s\<lparr>l_len := l_start ld\<rparr>) i st)
      | (S_AFTER, E_AFTER) \<Rightarrow> AdjNext ld (Some i) rv (Suc i) st
      | _ \<Rightarrow> AdjNext ld insrtp rv (Suc i) st)"

text \<open>
  The loop.  The list is the part of the chain still ahead, the number the index of its
  first record in the chain: no turn that goes on changes a record ahead.
\<close>

fun flckadj_loop ::
  "flk_env \<Rightarrow> nat \<Rightarrow> lock_class \<Rightarrow> int \<Rightarrow> owner \<Rightarrow> filock list \<Rightarrow> nat \<Rightarrow> nat option \<Rightarrow> eflock \<Rightarrow> int
    \<Rightarrow> flk_state \<Rightarrow> adj_turn" where
  "flckadj_loop env vp class upid own [] i insrtp ld rv st = AdjStop ld insrtp rv st"
| "flckadj_loop env vp class upid own (flp # rest) i insrtp ld rv st =
     (if set_owner (fl_set flp) = own
      then (case flckadj_own env vp class upid flp i insrtp ld rv st of
              AdjNext ld1 ins1 rv1 i1 st1 \<Rightarrow> flckadj_loop env vp class upid own rest i1 ins1 ld1 rv1 st1
            | turn \<Rightarrow> turn)
      else if l_start (fl_set flp) > l_end ld then AdjStop ld insrtp rv st
      else flckadj_loop env vp class upid own rest (Suc i) insrtp ld rv st)"

text \<open>
  \<open>flckadj\<close> returns its \<open>int\<close>, the request as it leaves it (joined with its neighbours of the
  same type) and the state.
\<close>

definition flckadj ::
  "flk_env \<Rightarrow> nat \<Rightarrow> nat option \<Rightarrow> eflock \<Rightarrow> lock_class \<Rightarrow> int \<Rightarrow> flk_state \<Rightarrow> int \<times> eflock \<times> flk_state" where
  "flckadj env vp insrtp ld class upid0 st =
     (let upid = (if class = LOCKMGR then l_pid ld else upid0);
          chain = flck_chain (VChain vp) st;
          i0 = (case insrtp of None \<Rightarrow> 0 | Some i \<Rightarrow> i)
      in case flckadj_loop env vp class upid (req_owner ld class upid0) (drop i0 chain) i0 insrtp ld 0 st of
           AdjReturn rv ld1 st1 \<Rightarrow> (rv, ld1, st1)
         | AdjNext ld1 ins1 rv i st1 \<Rightarrow> (rv, ld1, st1)
         | AdjStop ld1 ins1 rv st1 \<Rightarrow>
             if l_type ld = F_UNLCK then (rv, ld1, st1)
             else
               let place = (case ins1 of None \<Rightarrow> None
                              | Some i \<Rightarrow> seek (l_start ld1) (drop i (flck_chain (VChain vp) st1)) i (Some i))
               in case insflck env (VChain vp) ld1 place vp class upid st1 of
                    (True, st2) \<Rightarrow> (rv, ld1, st2)
                  | (False, st2) \<Rightarrow> (errno_val ENOLCK, ld1, st2))"

section \<open>Looking for a blocking record\<close>

text \<open>The type and overlap test both loops make.\<close>

definition type_blocks :: "eflock \<Rightarrow> eflock \<Rightarrow> bool" where
  "type_blocks f ld \<longleftrightarrow> l_type f = F_WRLCK \<or> l_type f = F_RDLCK \<and> l_type ld = F_WRLCK"

definition overlaps :: "eflock \<Rightarrow> eflock \<Rightarrow> bool" where
  "overlaps f ld \<longleftrightarrow> l_start ld < l_end f \<and> l_end ld > l_start f"

fun blocked_rest :: "owner \<Rightarrow> eflock \<Rightarrow> filock list \<Rightarrow> filock option" where
  "blocked_rest own ld [] = None"
| "blocked_rest own ld (f # fs) =
     (if overlaps (fl_set f) ld \<and> set_owner (fl_set f) \<noteq> own \<and> type_blocks (fl_set f) ld then Some f
      else if l_start (fl_set f) > l_end ld then None
      else blocked_rest own ld fs)"

text \<open>
  The first loop carries \<open>*insrt\<close>; on an own record that touches the request, and on the
  first that starts at or behind it, the second loop takes over.
\<close>

fun blocked_loop :: "owner \<Rightarrow> eflock \<Rightarrow> filock list \<Rightarrow> nat \<Rightarrow> nat option \<Rightarrow> filock option \<times> nat option" where
  "blocked_loop own ld [] i insrt = (None, insrt)"
| "blocked_loop own ld (f # fs) i insrt =
     (if \<not> l_start (fl_set f) < l_start ld then (blocked_rest own ld (f # fs), insrt)
      else if set_owner (fl_set f) = own
      then (if l_start ld \<le> l_end (fl_set f) \<and> l_end ld \<ge> l_start (fl_set f)
            then (blocked_rest own ld (f # fs), Some i)
            else blocked_loop own ld fs (Suc i) (Some i))
      else if overlaps (fl_set f) ld \<and> type_blocks (fl_set f) ld then (Some f, Some i)
      else blocked_loop own ld fs (Suc i) (Some i))"

definition blocked :: "filock list \<Rightarrow> eflock \<Rightarrow> lock_class \<Rightarrow> int \<Rightarrow> filock option \<times> nat option" where
  "blocked flp lckdat class upid = blocked_loop (req_owner lckdat class upid) lckdat flp 0 None"

end
