(* ===== verification/Flock_Ops.thy ===== *)
theory Flock_Ops
  imports Flock_Adj Svipc_Ipc
begin

text \<open>
  The entry points of \<open>vfs/vfs_flock.c\<close> (\<open>getflck\<close>, \<open>setflck\<close>, \<open>locked\<close>, \<open>cleanlocks\<close>, the
  lock manager's calls), the granting of sleeping requests, the deadlock search, and the
  way to them from the \<open>fcntl\<close> system call (\<open>bsd/kern_descrip.c\<close>, \<open>ufs/ufs_vnops.c\<close>).

  A process that goes to sleep ends the step with \<open>FSleep\<close>; \<open>setflck_resume\<close> and
  \<open>locked_resume\<close> are what it does when it runs again.
\<close>

datatype flk_outcome =
    FRet int
  | FSleep      \<comment> \<open>asleep on the request it put on the sleep queue\<close>
  | FHang       \<comment> \<open>the deadlock search never ends\<close>
  | FUndef      \<comment> \<open>an uninitialised variable is read\<close>

section \<open>Deadlock detection\<close>

fun find_sleeper :: "owner \<Rightarrow> filock list \<Rightarrow> filock option" where
  "find_sleeper own [] = None"
| "find_sleeper own (sf # fs) = (if set_owner (fl_set sf) = own then Some sf else find_sleeper own fs)"

definition blocker :: "filock \<Rightarrow> owner" where
  "blocker sf = (fl_blkpid sf, fl_blkrpid sf, fl_blkrsys sf)"

text \<open>The loop from the blocking owner on; \<open>None\<close>: it never ends.\<close>

partial_function (option) deadflck_loop :: "filock list \<Rightarrow> owner \<Rightarrow> owner \<Rightarrow> bool option" where
  "deadflck_loop sleepers me blck =
     (if blck = me then Some True
      else case find_sleeper blck sleepers of
             None \<Rightarrow> Some False
           | Some sf \<Rightarrow> deadflck_loop sleepers me (blocker sf))"

lemmas deadflck_loop_code [code] = deadflck_loop.simps

definition deadflck :: "filock \<Rightarrow> owner \<Rightarrow> flk_state \<Rightarrow> bool option" where
  "deadflck flp me st = deadflck_loop (fk_sleep st) me (set_owner (fl_set flp))"

section \<open>Granting sleeping requests\<close>

definition fl_wakeup :: "filock \<Rightarrow> flk_state \<Rightarrow> flk_state" where
  "fl_wakeup sf st = st\<lparr>fk_woken := fk_woken st @ [sf]\<rparr>"

definition set_blocker :: "nat \<Rightarrow> filock \<Rightarrow> flk_state \<Rightarrow> flk_state" where
  "set_blocker i found st =
     chain_upd SleepQ (\<lambda>fs. fs[i := (fs ! i)\<lparr>fl_blkpid := l_pid (fl_set found),
        fl_blkrpid := l_rpid (fl_set found), fl_blkrsys := l_rsys (fl_set found)\<rparr>]) st"

text \<open>
  The sleep queue is read from index \<open>i\<close> on; the list is what lies ahead.  A granted request
  leaves the queue in the form \<open>flckadj\<close> left it in.
\<close>

fun chk_loop ::
  "flk_env \<Rightarrow> nat \<Rightarrow> lock_class \<Rightarrow> filock list \<Rightarrow> nat \<Rightarrow> int \<Rightarrow> int \<Rightarrow> flk_state \<Rightarrow> int \<times> flk_state" where
  "chk_loop env vp class [] i retval nfs st = (nfs, st)"
| "chk_loop env vp class (sf # rest) i retval nfs st =
     (if fl_vp sf \<noteq> vp then chk_loop env vp class rest (Suc i) retval nfs st
      else case blocked (flck_chain (VChain vp) st) (fl_set sf) (fl_class sf) (l_pid (fl_set sf)) of
        (Some found, _) \<Rightarrow> chk_loop env vp class rest (Suc i) retval nfs (set_blocker i found st)
      | (None, insrt) \<Rightarrow>
          let (retval1, ld1, st1) =
                (if fl_class sf \<noteq> IO_LOCK
                 then flckadj env vp insrt (fl_set sf) (fl_class sf) (l_pid (fl_set sf)) st
                 else (retval, fl_set sf, st));
              sf1 = sf\<lparr>fl_set := ld1\<rparr>;
              st2 = chain_upd SleepQ (\<lambda>fs. fs[i := sf1]) st1
          in if retval1 = errno_val ENOLCK then (retval1, st2)
             else if fl_class sf \<noteq> LOCKMGR
             then chk_loop env vp class rest i retval1 nfs (delflck SleepQ i 0 (fl_wakeup sf1 st2))
             else
               let q = (if class = FILE_LOCK then KlmQ else GrantQ);
                   st3 = snd (insflck env q ld1 None vp (fl_class sf) (l_pid ld1) st2)
               in chk_loop env vp class rest i retval1 GRANT_LOCK_FLAG (delflck SleepQ i 0 st3))"

definition chk_granted :: "flk_env \<Rightarrow> nat \<Rightarrow> lock_class \<Rightarrow> flk_state \<Rightarrow> int \<times> flk_state" where
  "chk_granted env vp class st = chk_loop env vp class (fk_sleep st) 0 0 0 st"

text \<open>
  What \<open>klm_callbacks\<close> sends: the region in the form of a user request.  Its local \<open>ld\<close> takes
  the fields one by one; \<open>l_xxx\<close> stays unset and is 0 here.
\<close>

definition user_len :: "eflock \<Rightarrow> int" where
  "user_len ld = (if l_end ld = MAXEND then 0 else s64 (l_len ld - l_start ld))"

definition klm_arg :: "eflock \<Rightarrow> eflock" where
  "klm_arg s = s\<lparr>l_whence := 0, l_len := user_len s, l_xxx := 0\<rparr>"

fun klm_loop :: "flk_env \<Rightarrow> filock list \<Rightarrow> int \<Rightarrow> flk_state \<Rightarrow> int \<times> flk_state" where
  "klm_loop env [] error st = (error, st)"
| "klm_loop env (p # ps) error st =
     klm_loop env ps (fe_klm env (fl_vp p) (klm_arg (fl_set p))) (delflck KlmQ 0 0 st)"

definition klm_callbacks :: "flk_env \<Rightarrow> flk_state \<Rightarrow> int \<times> flk_state" where
  "klm_callbacks env st = klm_loop env (fk_klm st) 0 st"

text \<open>The lock manager fetches a granted request that has its callback address.\<close>

fun cb_find :: "int \<Rightarrow> nat \<Rightarrow> filock list \<Rightarrow> (nat \<times> filock) option" where
  "cb_find cb i [] = None"
| "cb_find cb i (f # fs) = (if l_cb (fl_set f) = cb then Some (i, f) else cb_find cb (Suc i) fs)"

definition do_grant_locks :: "eflock \<Rightarrow> flk_state \<Rightarrow> int \<times> eflock \<times> flk_state" where
  "do_grant_locks ld st =
     (if fk_grant st = [] then (errno_val ENOLCK, ld, st)
      else case cb_find (l_cb ld) 0 (fk_grant st) of
        None \<Rightarrow> (errno_val ENOLCK, ld, st)
      | Some (i, f) \<Rightarrow>
          let s = fl_set f;
              ld1 = ld\<lparr>l_type := l_type s, l_whence := l_whence s, l_start := l_start s,
                       l_len := user_len s,
                       l_pid := l_pid s, l_rpid := l_rpid s, l_rsys := l_rsys s\<rparr>;
              st1 = delflck GrantQ i 0 st
          in (0, if cb_find (l_cb ld) 0 (fk_grant st1) = None then ld1\<lparr>l_xxx := -1\<rparr> else ld1, st1))"

section \<open>Testing and setting a lock\<close>

text \<open>The request with its length replaced by the end of the region; the sum is a \<open>long\<close>.\<close>

definition calc_end :: "eflock \<Rightarrow> eflock" where
  "calc_end ld = ld\<lparr>l_len := (if l_len ld = 0 then MAXEND else s64 (l_len ld + l_start ld))\<rparr>"

definition getflck :: "nat \<Rightarrow> eflock \<Rightarrow> int \<Rightarrow> lock_class \<Rightarrow> flk_state \<Rightarrow> int \<times> eflock \<times> flk_state" where
  "getflck vp lckdat pid class st =
     (case findfid vp st of
        (False, st1) \<Rightarrow> (0, lckdat\<lparr>l_type := F_UNLCK\<rparr>, st1)
      | (True, st1) \<Rightarrow>
          let ld = calc_end lckdat;
              ld1 = (case fst (blocked (flck_chain (VChain vp) st1) ld class pid) of
                       Some found \<Rightarrow> fl_set found
                     | None \<Rightarrow> ld\<lparr>l_type := F_UNLCK\<rparr>)
          in (0, ld1\<lparr>l_len := user_len ld1\<rparr>, freefid vp st1))"

text \<open>
  What follows \<open>flckadj\<close> when it may have freed a region: the sleeping requests are tried;
  the grants to remote processes are sent (a local request) or announced in \<open>l_xxx\<close>.
\<close>

definition after_adj ::
  "flk_env \<Rightarrow> nat \<Rightarrow> lock_class \<Rightarrow> eflock \<Rightarrow> flk_state \<Rightarrow> int \<times> eflock \<times> flk_state" where
  "after_adj env vp class ld st =
     (case chk_granted env vp class st of
        (retval, st1) \<Rightarrow>
          if class = LOCKMGR
          then (if retval = GRANT_LOCK_FLAG then (0, ld\<lparr>l_xxx := s16 retval\<rparr>, st1)
                else (retval, ld\<lparr>l_xxx := -1\<rparr>, st1))
          else (retval, ld, st1))"

definition local_callbacks :: "flk_env \<Rightarrow> lock_class \<Rightarrow> int \<Rightarrow> flk_state \<Rightarrow> int \<times> flk_state" where
  "local_callbacks env class retval st =
     (if class = FILE_LOCK \<and> retval = GRANT_LOCK_FLAG then klm_callbacks env st else (retval, st))"

text \<open>A request that is not blocked.\<close>

definition setflck_grant ::
  "flk_env \<Rightarrow> nat \<Rightarrow> nat option \<Rightarrow> eflock \<Rightarrow> int \<Rightarrow> lock_class \<Rightarrow> flk_state \<Rightarrow> int \<times> eflock \<times> flk_state" where
  "setflck_grant env vp insrt ld pid class st =
     (case flckadj env vp insrt ld class pid st of
        (r1, ld1, st1) \<Rightarrow>
          (case (if r1 = 1 \<and> l_type ld1 = F_RDLCK then after_adj env vp class ld1 st1 else (r1, ld1, st1)) of
             (r2, ld2, st2) \<Rightarrow>
               (case local_callbacks env class r2 st2 of
                  (r3, st3) \<Rightarrow> (if r3 = 1 then 0 else r3, ld2, st3))))"

text \<open>A blocked request that may wait.\<close>

definition setflck_wait ::
  "flk_env \<Rightarrow> nat \<Rightarrow> filock \<Rightarrow> eflock \<Rightarrow> int \<Rightarrow> lock_class \<Rightarrow> flk_state \<Rightarrow> flk_outcome \<times> flk_state" where
  "setflck_wait env vp found ld pid class st =
     (if class = LOCKMGR \<and> find_sleeper (set_owner ld) (fk_sleep st) \<noteq> None
      then (FRet (errno_val EINTR), st)
      else case deadflck found (req_owner ld class (fe_pid env)) st of
        None \<Rightarrow> (FHang, st)
      | Some True \<Rightarrow> (FRet (errno_val EDEADLK), st)
      | Some False \<Rightarrow>
          (case insflck env SleepQ ld None vp class pid st of
             (False, st1) \<Rightarrow> (FRet (errno_val ENOLCK), st1)
           | (True, st1) \<Rightarrow>
               let st2 = set_blocker (length (fk_sleep st)) found st1
               in if class = LOCKMGR then (FRet (errno_val EINTR), st2) else (FSleep, st2)))"

fun owner_index :: "owner \<Rightarrow> nat \<Rightarrow> filock list \<Rightarrow> nat option" where
  "owner_index own i [] = None"
| "owner_index own i (f # fs) = (if set_owner (fl_set f) = own then Some i else owner_index own (Suc i) fs)"

definition setflck_unlock ::
  "flk_env \<Rightarrow> nat \<Rightarrow> eflock \<Rightarrow> int \<Rightarrow> lock_class \<Rightarrow> flk_state \<Rightarrow> int \<times> eflock \<times> flk_state" where
  "setflck_unlock env vp ld pid class st =
     (case (if class = LOCKMGR then owner_index (set_owner ld) 0 (fk_sleep st) else None) of
        Some i \<Rightarrow> (0, ld, delflck SleepQ i 0 st)
      | None \<Rightarrow>
          (case flckadj env vp (if flck_chain (VChain vp) st = [] then None else Some 0) ld class pid st of
             (r1, ld1, st1) \<Rightarrow>
               (case (if r1 = 1 then after_adj env vp class ld1 st1 else (r1, ld1, st1)) of
                  (r2, ld2, st2) \<Rightarrow>
                    (case local_callbacks env class r2 st2 of (r3, st3) \<Rightarrow> (r3, ld2, st3)))))"

definition setflck_typed ::
  "flk_env \<Rightarrow> nat \<Rightarrow> eflock \<Rightarrow> bool \<Rightarrow> int \<Rightarrow> lock_class \<Rightarrow> flk_state
    \<Rightarrow> flk_outcome \<times> eflock \<times> flk_state" where
  "setflck_typed env vp ld slpflg pid class st =
     (if l_type ld = F_RDLCK \<or> l_type ld = F_WRLCK
      then (case blocked (flck_chain (VChain vp) st) ld class pid of
              (None, insrt) \<Rightarrow>
                (case setflck_grant env vp insrt ld pid class st of (r, ld1, st1) \<Rightarrow> (FRet r, ld1, st1))
            | (Some found, insrt) \<Rightarrow>
                if slpflg
                then (case setflck_wait env vp found ld pid class st of (r, st1) \<Rightarrow> (r, ld, st1))
                else (FRet (errno_val EACCES), ld, st))
      else if l_type ld = F_UNLCK
      then (case setflck_unlock env vp ld pid class st of (r, ld1, st1) \<Rightarrow> (FRet r, ld1, st1))
      else (FRet (errno_val EINVAL), ld, st))"

text \<open>
  \<open>setflck\<close>; the reference to the \<open>flino\<close> is given back unless the process sleeps (it then
  keeps it) or hangs.
\<close>

definition setflck ::
  "flk_env \<Rightarrow> nat \<Rightarrow> eflock \<Rightarrow> bool \<Rightarrow> int \<Rightarrow> lock_class \<Rightarrow> flk_state \<Rightarrow> flk_outcome \<times> eflock \<times> flk_state" where
  "setflck env vp lckdat slpflg pid class st =
     (if class = LOCKMGR \<and> l_xxx lckdat = GRANT_LOCK_FLAG
      then (case do_grant_locks lckdat st of (r, ld, st1) \<Rightarrow> (FRet r, ld, st1))
      else
        let ld = calc_end lckdat in
        case findfid vp st of (have, st0) \<Rightarrow>
          if \<not> have \<and> l_type ld = F_UNLCK then (FRet 0, ld, st0)
          else case (if have then (True, st0) else allocfid env vp st0) of
            (False, st1) \<Rightarrow> (FRet (errno_val ENOLCK), ld, st1)
          | (True, st1) \<Rightarrow>
              (case setflck_typed env vp ld slpflg pid class st1 of
                 (FRet r, ld2, st2) \<Rightarrow> (FRet r, ld2, freefid vp st2)
               | res \<Rightarrow> res))"

text \<open>Back from \<open>SLEEP\<close>: \<open>retval\<close> is 0 when the lock was granted, else the request is cancelled.\<close>

definition setflck_resume :: "flk_env \<Rightarrow> nat \<Rightarrow> int \<Rightarrow> flk_state \<Rightarrow> flk_outcome \<times> flk_state" where
  "setflck_resume env vp retval st =
     (let st1 = (if retval \<noteq> 0 then delsleeplck (fe_pid env) st else st)
      in (FRet retval, freefid vp st1))"

end
