(* ===== verification/Flock_Sys.thy ===== *)
theory Flock_Sys
  imports Flock_Ops
begin

text \<open>
  The other entry points of the lock package - mandatory locking of reads and writes, the
  clean-up at close, the lock manager's purges - and the system call path to it:
  \<open>fcntl\<close> and \<open>closef\<close> of \<open>bsd/kern_descrip.c\<close> with \<open>convoff\<close>, and \<open>ufs_lockctl\<close> with
  \<open>ufs_setvlocks\<close> of \<open>ufs/ufs_vnops.c\<close>, the \<open>VOP_LOCKCTL\<close> of the local file system.
\<close>

definition SLPFLCK :: "32 word" where "SLPFLCK = 0x100"
definition VRDFLCK :: "32 word" where "VRDFLCK = 0x200"
definition VMANFLCK :: "32 word" where "VMANFLCK = 0x400"

section \<open>Mandatory locks\<close>

text \<open>
  \<open>locked\<close>: a set \<open>SLPFLCK\<close> says do not wait here.  Without \<open>VMANFLCK\<close> the pointer \<open>found\<close> is
  never set.
\<close>

definition locked_wait ::
  "flk_env \<Rightarrow> nat \<Rightarrow> filock \<Rightarrow> eflock \<Rightarrow> flk_state \<Rightarrow> flk_outcome \<times> flk_state" where
  "locked_wait env vp found ld st =
     (case deadflck found (fe_pid env, 0, 0) st of
        None \<Rightarrow> (FHang, st)
      | Some True \<Rightarrow> (FRet (errno_val EDEADLK), freefid vp st)
      | Some False \<Rightarrow>
          (case insflck env SleepQ ld None vp IO_LOCK (fe_pid env) st of
             (False, st1) \<Rightarrow> (FRet (errno_val ENOLCK), freefid vp st1)
           | (True, st1) \<Rightarrow> (FSleep, set_blocker (length (fk_sleep st)) found st1)))"

definition locked ::
  "flk_env \<Rightarrow> nat \<Rightarrow> eflock \<Rightarrow> 32 word \<Rightarrow> flk_state \<Rightarrow> flk_outcome \<times> eflock \<times> flk_state" where
  "locked env vp lckdat flag st =
     (let ld = lckdat\<lparr>l_whence := 0, l_type := (if flag AND VRDFLCK \<noteq> 0 then F_RDLCK else F_WRLCK)\<rparr> in
      case findfid vp st of
        (False, st1) \<Rightarrow> (FRet 0, ld, st1)
      | (True, st1) \<Rightarrow>
          if flag AND VMANFLCK = 0 then (FUndef, ld, st1)
          else case fst (blocked (flck_chain (VChain vp) st1) ld IO_LOCK (fe_pid env)) of
            None \<Rightarrow> (FRet 0, ld, freefid vp st1)
          | Some found \<Rightarrow>
              if flag AND SLPFLCK \<noteq> 0 then (FRet (errno_val EAGAIN), ld, freefid vp st1)
              else (case locked_wait env vp found ld st1 of (r, st2) \<Rightarrow> (r, ld, st2)))"

definition locked_resume :: "flk_env \<Rightarrow> nat \<Rightarrow> int \<Rightarrow> flk_state \<Rightarrow> flk_outcome \<times> flk_state" where
  "locked_resume env vp retval st =
     (FRet retval, freefid vp (if retval \<noteq> 0 then delsleeplck (fe_pid env) st else st))"

section \<open>Cleaning up\<close>

text \<open>
  The records of the process go one by one; after each the scan starts again at the head.
  \<open>own_index\<close> is the scan, the number of records bounds the turns.
\<close>

function clean_loop :: "owner \<Rightarrow> nat \<Rightarrow> bool \<Rightarrow> flk_state \<Rightarrow> bool \<times> flk_state" where
  "clean_loop own vp call st =
     (case owner_index own 0 (flck_chain (VChain vp) st) of
        None \<Rightarrow> (call, st)
      | Some i \<Rightarrow> clean_loop own vp True (delflck (VChain vp) i vp st))"
  by pat_completeness auto

lemma fids_find_upd:
  "fids_find vp (fids_upd vq g fs) =
     (if vp = vq then map_option g (fids_find vp fs) else fids_find vp fs)"
  if "\<And>f. fi_vp (g f) = fi_vp f"
  using that by (induction fs) auto

lemma chain_chain_upd:
  "flck_chain q (chain_upd r g st) = (if q = r \<and> (\<forall>vp. r = VChain vp \<longrightarrow> fids_find vp (fk_fids st) \<noteq> None)
     then g (flck_chain q st) else flck_chain q st)"
  by (auto simp: flck_chain_def chain_upd_def fids_find_upd split: flk_chain.splits option.splits)

lemma chain_info_upd [simp]: "flck_chain q (info_upd g st) = flck_chain q st"
  by (auto simp: flck_chain_def info_upd_def split: flk_chain.splits)

lemma chain_clear_vlocks [simp]: "flck_chain q (clear_vlocks vp st) = flck_chain q st"
  by (auto simp: flck_chain_def clear_vlocks_def split: flk_chain.splits)

lemma flck_chain_none: "fids_find vp (fk_fids st) = None \<Longrightarrow> flck_chain (VChain vp) st = []"
  by (simp add: flck_chain_def)

lemma chain_delflck:
  "flck_chain q (delflck r i vp st) = (if q = r then del_at i (flck_chain q st) else flck_chain q st)"
  by (auto simp: delflck_def Let_def chain_chain_upd flck_chain_none del_at_def)

lemma owner_index_range: "owner_index own i fs = Some j \<Longrightarrow> i \<le> j \<and> j < i + length fs"
  by (induction own i fs rule: owner_index.induct) (auto split: if_splits)

lemma del_at_length: "i < length xs \<Longrightarrow> length (del_at i xs) = length xs - 1"
  by (simp add: del_at_def)

termination clean_loop
proof (relation "measure (\<lambda>(own, vp, call, st). length (flck_chain (VChain vp) st))")
  fix own vp call st i
  assume "owner_index own 0 (flck_chain (VChain vp) st) = Some i"
  then have "i < length (flck_chain (VChain vp) st)"
    using owner_index_range by fastforce
  then have "length (del_at i (flck_chain (VChain vp) st)) < length (flck_chain (VChain vp) st)"
    by (simp add: del_at_length)
  then show "((own, vp, True, delflck (VChain vp) i vp st), own, vp, call, st)
      \<in> measure (\<lambda>(own, vp, call, st). length (flck_chain (VChain vp) st))"
    by (simp add: chain_delflck)
qed simp

declare clean_loop.simps [simp del]

definition cleanlocks :: "flk_env \<Rightarrow> nat \<Rightarrow> flk_state \<Rightarrow> int \<times> flk_state" where
  "cleanlocks env vp st =
     (case findfid vp st of
        (False, st1) \<Rightarrow> (0, st1)
      | (True, st1) \<Rightarrow>
          (case clean_loop (fe_pid env, 0, 0) vp False st1 of
             (call, st2) \<Rightarrow>
               (case (if call then chk_granted env vp FILE_LOCK st2 else (0, st2)) of
                  (r, st3) \<Rightarrow>
                    (case (if r = GRANT_LOCK_FLAG then klm_callbacks env st3 else (r, st3)) of
                       (r4, st4) \<Rightarrow> (r4, freefid vp st4)))))"

section \<open>The lock manager's purges\<close>

text \<open>One pass over a chain that deletes the records \<open>P\<close> picks, from index \<open>i\<close> on.\<close>

fun del_pass ::
  "flk_chain \<Rightarrow> nat \<Rightarrow> (filock \<Rightarrow> bool) \<Rightarrow> filock list \<Rightarrow> nat \<Rightarrow> bool \<Rightarrow> flk_state \<Rightarrow> bool \<times> flk_state" where
  "del_pass q vp P [] i call st = (call, st)"
| "del_pass q vp P (t # ts) i call st =
     (if P t then del_pass q vp P ts i True (delflck q i vp st)
      else del_pass q vp P ts (Suc i) call st)"

definition fid_hold :: "nat \<Rightarrow> flk_state \<Rightarrow> flk_state" where
  "fid_hold vp st =
     st\<lparr>fk_fids := fids_upd vp (\<lambda>f. f\<lparr>fi_refcnt := fi_refcnt f + 1\<rparr>) (fk_fids st)\<rparr>"

text \<open>The locks of all processes of the remote system \<open>l_rsys\<close>; the list is the files ahead.\<close>

fun kill_files :: "flk_env \<Rightarrow> eflock \<Rightarrow> nat list \<Rightarrow> flk_state \<Rightarrow> eflock \<times> flk_state" where
  "kill_files env ld [] st = (ld, st)"
| "kill_files env ld (vp # vps) st =
     (case del_pass (VChain vp) vp (\<lambda>t. l_rsys (fl_set t) = l_rsys ld)
             (flck_chain (VChain vp) st) 0 False (fid_hold vp st) of
        (call, st1) \<Rightarrow>
          (case (if call then chk_granted env vp LOCKMGR st1 else (0, st1)) of
             (r, st2) \<Rightarrow>
               kill_files env (if call \<and> r = GRANT_LOCK_FLAG then ld\<lparr>l_xxx := GRANT_LOCK_FLAG\<rparr> else ld)
                 vps (freefid vp st2)))"

definition kill_proc_locks :: "flk_env \<Rightarrow> eflock \<Rightarrow> flk_state \<Rightarrow> eflock \<times> flk_state" where
  "kill_proc_locks env ld st =
     (let st1 = snd (del_pass SleepQ 0 (\<lambda>t. l_rsys (fl_set t) = l_rsys ld) (fk_sleep st) 0 False st)
      in kill_files env (ld\<lparr>l_xxx := -1\<rparr>) (map fi_vp (fk_fids st1)) st1)"

definition purge_fs_list :: "flk_env \<Rightarrow> flk_chain \<Rightarrow> int \<Rightarrow> flk_state \<Rightarrow> flk_state" where
  "purge_fs_list env q fs st =
     snd (del_pass q 0 (\<lambda>t. fe_fsid env (fl_vp t) = fs \<and> fl_class t = LOCKMGR)
            (flck_chain q st) 0 False st)"

fun purge_files :: "flk_env \<Rightarrow> int \<Rightarrow> nat list \<Rightarrow> flk_state \<Rightarrow> flk_state" where
  "purge_files env fs [] st = st"
| "purge_files env fs (vp # vps) st =
     (if fe_fsid env vp \<noteq> fs then purge_files env fs vps st
      else
        let st1 = snd (del_pass (VChain vp) vp (\<lambda>t. fl_class t = LOCKMGR)
                         (flck_chain (VChain vp) st) 0 False (fid_hold vp st))
        in purge_files env fs vps (freefid vp (snd (chk_granted env vp LOCKMGR st1))))"

definition purge_fs_locks :: "flk_env \<Rightarrow> nat \<Rightarrow> flk_state \<Rightarrow> flk_state" where
  "purge_fs_locks env vp st =
     (let fs = fe_fsid env vp;
          st1 = purge_fs_list env SleepQ fs st;
          st2 = purge_files env fs (map fi_vp (fk_fids st1)) st1
      in purge_fs_list env GrantQ fs (purge_fs_list env KlmQ fs st2))"

section \<open>The file system and the system call\<close>

datatype vtype = VNON | VREG | VDIR | VBLK | VCHR | VLNK | VSOCK | VFIFO | VBAD

text \<open>The set-group-id bit without group execution marks a file for mandatory locking.\<close>

definition ufs_setvlocks :: "32 word \<Rightarrow> 32 word \<Rightarrow> 32 word" where
  "ufs_setvlocks i_mode v_flag =
     (let f = (if i_mode AND 0x400 \<noteq> 0 \<and> i_mode AND 0x8 = 0 then v_flag OR VENF_LOCK else v_flag)
      in f OR VLOCKS)"

text \<open>The request \<open>VOP_LOCKCTL\<close> passes on, one for each command flag.\<close>

datatype lockctl =
    GETFLCK | SETFLCK bool | CLNFLCK | VNOFLCK "32 word" | RGETFLCK | RSETFLCK bool | ENFFLCK

definition ufs_lockctl ::
  "flk_env \<Rightarrow> vtype \<Rightarrow> 32 word \<Rightarrow> nat \<Rightarrow> eflock \<Rightarrow> lockctl \<Rightarrow> int \<Rightarrow> flk_state
    \<Rightarrow> flk_outcome \<times> eflock \<times> flk_state" where
  "ufs_lockctl env ty i_mode vp eld cmd clid st =
     (if ty = VBLK \<or> ty = VCHR \<or> ty = VFIFO then (FRet (errno_val EINVAL), eld, st)
      else case cmd of
        CLNFLCK \<Rightarrow> (case cleanlocks env vp st of (r, st1) \<Rightarrow> (FRet r, eld, st1))
      | VNOFLCK flag \<Rightarrow> locked env vp eld flag st
      | GETFLCK \<Rightarrow> (case getflck vp eld clid FILE_LOCK st of (r, ld, st1) \<Rightarrow> (FRet r, ld, st1))
      | RGETFLCK \<Rightarrow> (case getflck vp eld clid LOCKMGR st of (r, ld, st1) \<Rightarrow> (FRet r, ld, st1))
      | SETFLCK slp \<Rightarrow> setflck env vp eld slp clid FILE_LOCK st
      | RSETFLCK slp \<Rightarrow>
          if l_type eld = F_UNLKSYS
          then (case kill_proc_locks env eld st of (ld, st1) \<Rightarrow> (FRet 0, ld, st1))
          else setflck env vp eld slp clid LOCKMGR st
      | ENFFLCK \<Rightarrow>
          (FRet 0, eld, st\<lparr>fk_vflag := (fk_vflag st)(vp := ufs_setvlocks i_mode (fk_vflag st vp))\<rparr>))"

text \<open>An open file, as far as locking looks at it, and the attributes behind it.\<close>

record lfile =
  f_vnode :: bool
  f_read :: bool
  f_write :: bool
  f_offset :: int
  f_vp :: nat
  f_vtype :: vtype
  f_mode :: "32 word"
  f_getattr :: "int \<times> int"

text \<open>\<open>convoff\<close>: the error, or the request with an offset from the start of the file.\<close>

definition convoff :: "lfile \<Rightarrow> eflock \<Rightarrow> int + eflock" where
  "convoff fp efl =
     (if l_type efl \<noteq> F_RDLCK \<and> l_type efl \<noteq> F_WRLCK \<and> l_type efl \<noteq> F_UNLCK \<and> l_type efl \<noteq> F_UNLKSYS
      then Inl (errno_val EINVAL)
      else if l_whence efl = 2 \<and> fst (f_getattr fp) \<noteq> 0 then Inl (fst (f_getattr fp))
      else if l_whence efl = 1 then Inr (efl\<lparr>l_start := s64 (l_start efl + f_offset fp), l_whence := 0\<rparr>)
      else if l_whence efl = 2
      then Inr (efl\<lparr>l_start := s64 (l_start efl + snd (f_getattr fp)), l_whence := 0\<rparr>)
      else if l_whence efl \<noteq> 0 then Inl (errno_val EINVAL)
      else Inr (efl\<lparr>l_whence := 0\<rparr>))"

text \<open>The region of the system call: a negative length runs backwards.\<close>

definition fcntl_region :: "lfile \<Rightarrow> eflock \<Rightarrow> int + eflock" where
  "fcntl_region fp efl =
     (case convoff fp efl of
        Inl e \<Rightarrow> Inl e
      | Inr ld \<Rightarrow>
          let ld1 = (if l_len ld < 0
                     then ld\<lparr>l_start := s64 (l_start ld + l_len ld), l_len := s64 (- l_len ld)\<rparr> else ld)
          in if l_start ld1 < 0 then Inl (errno_val EINVAL) else Inr ld1)"

datatype fcntl_cmd = F_GETLK | F_SETLK | F_SETLKW | F_RGETLK | F_RSETLK | F_RSETLKW | F_PURGEFS

definition EBADF_val :: int where "EBADF_val = 9"

text \<open>
  The lock commands of \<open>fcntl\<close>.  \<open>arg\<close> is what \<open>copyin\<close> reads (\<open>None\<close>: it faults), \<open>cout\<close> says
  whether \<open>copyout\<close> succeeds.  The result carries what is copied out.
\<close>

definition fcntl_get ::
  "flk_env \<Rightarrow> lfile \<Rightarrow> bool \<Rightarrow> eflock \<Rightarrow> bool \<Rightarrow> flk_state \<Rightarrow> flk_outcome \<times> eflock option \<times> flk_state" where
  "fcntl_get env fp remote eld cout st =
     (if \<not> f_vnode fp then (FRet 0, None, st)
      else case fcntl_region fp eld of
        Inl e \<Rightarrow> (FRet e, None, st)
      | Inr ld \<Rightarrow>
          (case ufs_lockctl env (f_vtype fp) (f_mode fp) (f_vp fp) ld (if remote then RGETFLCK else GETFLCK)
                  (fe_pid env) st of
             (FRet r, ld1, st1) \<Rightarrow>
               if r \<noteq> 0 then (FRet r, None, st1)
               else if \<not> cout then (FRet (errno_val EFAULT), None, st1)
               else (FRet 0, Some (if \<not> remote \<and> l_type ld1 = F_UNLCK then eld\<lparr>l_type := F_UNLCK\<rparr> else ld1), st1)
           | (r, ld1, st1) \<Rightarrow> (r, None, st1)))"

definition fcntl_set ::
  "flk_env \<Rightarrow> lfile \<Rightarrow> bool \<Rightarrow> bool \<Rightarrow> eflock \<Rightarrow> bool \<Rightarrow> flk_state
    \<Rightarrow> flk_outcome \<times> eflock option \<times> flk_state" where
  "fcntl_set env fp remote slp eld cout st =
     (if \<not> f_vnode fp then (FRet 0, None, st)
      else if l_type eld = F_RDLCK \<and> \<not> f_read fp \<or> l_type eld = F_WRLCK \<and> \<not> f_write fp
      then (FRet EBADF_val, None, st)
      else case fcntl_region fp eld of
        Inl e \<Rightarrow> (FRet e, None, st)
      | Inr ld \<Rightarrow>
          (case ufs_lockctl env (f_vtype fp) (f_mode fp) (f_vp fp) ld
                  (if remote then RSETFLCK slp else SETFLCK slp) (fe_pid env) st of
             (FRet r, ld1, st1) \<Rightarrow>
               if r \<noteq> 0 \<or> \<not> remote then (FRet r, None, st1)
               else if \<not> cout then (FRet (errno_val EFAULT), None, st1)
               else (FRet 0, Some ld1, st1)
           | (r, ld1, st1) \<Rightarrow> (r, None, st1)))"

definition fcntl_lock ::
  "flk_env \<Rightarrow> ucred \<Rightarrow> lfile \<Rightarrow> fcntl_cmd \<Rightarrow> eflock option \<Rightarrow> bool \<Rightarrow> flk_state
    \<Rightarrow> flk_outcome \<times> eflock option \<times> flk_state" where
  "fcntl_lock env cr fp cmd arg cout st =
     (let remote = (cmd = F_RGETLK \<or> cmd = F_RSETLK \<or> cmd = F_RSETLKW \<or> cmd = F_PURGEFS) in
      case (if remote then fst (suser cr False) else None) of
        Some e \<Rightarrow> (FRet (errno_val e), None, st)
      | None \<Rightarrow>
          if cmd = F_PURGEFS then (FRet 0, None, purge_fs_locks env (f_vp fp) st)
          else case arg of
            None \<Rightarrow> (FRet (errno_val EFAULT), None, st)
          | Some a \<Rightarrow>
              let eld = (if remote then a else a\<lparr>l_rpid := 0, l_rsys := 0\<rparr>) in
              if cmd = F_GETLK \<or> cmd = F_RGETLK then fcntl_get env fp remote eld cout st
              else fcntl_set env fp remote (cmd = F_SETLKW \<or> cmd = F_RSETLKW) eld cout st)"

text \<open>The start of \<open>closef\<close>: a vnode with locks is cleaned of those of the process.\<close>

definition closef_locks :: "flk_env \<Rightarrow> lfile \<Rightarrow> flk_state \<Rightarrow> flk_state" where
  "closef_locks env fp st =
     (if f_vnode fp \<and> fk_vflag st (f_vp fp) AND VLOCKS \<noteq> 0
      then snd (snd (ufs_lockctl env (f_vtype fp) (f_mode fp) (f_vp fp)
             \<lparr>l_type = 0, l_whence = 0, l_start = 0, l_len = 0, l_pid = 0, l_rpid = 0, l_rsys = 0,
              l_xxx = 0, l_cb = 0\<rparr> CLNFLCK (fe_pid env) st))
      else st)"

end
