(* ===== verification/Flock_Chain.thy ===== *)
theory Flock_Chain
  imports Flock_Sys
begin

text \<open>
  What a chain of lock records means - which owner holds which byte in which mode - and
  the shape the package expects of it: records in the order of their starts, the records of
  one owner apart.  Then \<open>blocked\<close> against its reference, and \<open>flckadj\<close> turn by turn.
\<close>

section \<open>The meaning of a chain\<close>

abbreviation fown :: "filock \<Rightarrow> owner" where "fown f \<equiv> set_owner (fl_set f)"
abbreviation f_start :: "filock \<Rightarrow> int" where "f_start f \<equiv> l_start (fl_set f)"
abbreviation f_end :: "filock \<Rightarrow> int" where "f_end f \<equiv> l_end (fl_set f)"
abbreviation f_type :: "filock \<Rightarrow> int" where "f_type f \<equiv> l_type (fl_set f)"

definition rec_locks :: "filock \<Rightarrow> owner \<Rightarrow> int \<Rightarrow> int \<Rightarrow> bool" where
  "rec_locks f own x t \<longleftrightarrow> fown f = own \<and> f_start f \<le> x \<and> x < f_end f \<and> t = f_type f"

definition locks :: "filock list \<Rightarrow> owner \<Rightarrow> int \<Rightarrow> int \<Rightarrow> bool" where
  "locks fs own x t \<longleftrightarrow> (\<exists>f\<in>set fs. rec_locks f own x t)"

text \<open>What the owner's request is to make of a chain.\<close>

definition locks_set :: "owner \<Rightarrow> eflock \<Rightarrow> filock list \<Rightarrow> owner \<Rightarrow> int \<Rightarrow> int \<Rightarrow> bool" where
  "locks_set own ld fs ow x t \<longleftrightarrow>
     (if ow = own \<and> l_start ld \<le> x \<and> x < l_end ld then l_type ld \<noteq> F_UNLCK \<and> t = l_type ld
      else locks fs ow x t)"

definition rec_ok :: "filock \<Rightarrow> bool" where
  "rec_ok f \<longleftrightarrow> f_start f < f_end f \<and> (f_type f = F_RDLCK \<or> f_type f = F_WRLCK)"

definition rec_before :: "filock \<Rightarrow> filock \<Rightarrow> bool" where
  "rec_before f g \<longleftrightarrow> f_start f \<le> f_start g \<and> (fown f = fown g \<longrightarrow> f_end f \<le> f_start g)"

definition chain_ok :: "filock list \<Rightarrow> bool" where
  "chain_ok fs \<longleftrightarrow> (\<forall>f\<in>set fs. rec_ok f) \<and> sorted_wrt rec_before fs"

text \<open>No byte is held by two owners unless both only read.\<close>

definition exclusive :: "filock list \<Rightarrow> bool" where
  "exclusive fs \<longleftrightarrow>
     (\<forall>a b x s t. locks fs a x s \<and> locks fs b x t \<and> a \<noteq> b \<longrightarrow> s = F_RDLCK \<and> t = F_RDLCK)"

lemma locks_Nil [simp]: "locks [] ow x t = False"
  by (simp add: locks_def)

lemma locks_Cons [simp]: "locks (f # fs) ow x t \<longleftrightarrow> rec_locks f ow x t \<or> locks fs ow x t"
  by (auto simp: locks_def)

lemma locks_append [simp]: "locks (fs @ gs) ow x t \<longleftrightarrow> locks fs ow x t \<or> locks gs ow x t"
  by (auto simp: locks_def)

lemma set_ins_at [simp]: "set (ins_at p x xs) = insert x (set xs)"
proof (cases p)
  case (Some i)
  have "set (take (Suc i) xs) \<union> set (drop (Suc i) xs) = set xs"
    by (metis append_take_drop_id set_append)
  then show ?thesis using Some by (auto simp: ins_at_def)
qed (simp add: ins_at_def)

lemma locks_ins_at [simp]: "locks (ins_at p f fs) ow x t \<longleftrightarrow> rec_locks f ow x t \<or> locks fs ow x t"
  by (simp add: locks_def)

lemma del_at_append [simp]: "length pre = i \<Longrightarrow> del_at i (pre @ f # rest) = pre @ rest"
  by (auto simp: del_at_def)

lemma chain_ok_Nil [simp]: "chain_ok []"
  by (simp add: chain_ok_def)

lemma chain_ok_append:
  "chain_ok (fs @ gs) \<longleftrightarrow> chain_ok fs \<and> chain_ok gs \<and> (\<forall>f\<in>set fs. \<forall>g\<in>set gs. rec_before f g)"
  by (auto simp: chain_ok_def sorted_wrt_append)

lemma chain_ok_Cons:
  "chain_ok (f # gs) \<longleftrightarrow> rec_ok f \<and> chain_ok gs \<and> (\<forall>g\<in>set gs. rec_before f g)"
  by (auto simp: chain_ok_def)

lemma chain_ok_drop: "chain_ok fs \<Longrightarrow> chain_ok (drop i fs)"
  by (metis append_take_drop_id chain_ok_append)

text \<open>Only what bounds the owner's records of a list matters of it.\<close>

lemma locks_before:
  "locks fs own x t \<Longrightarrow> \<forall>f\<in>set fs. fown f = own \<longrightarrow> f_end f \<le> s \<Longrightarrow> x < s"
  by (fastforce simp: locks_def rec_locks_def)

lemma locks_behind:
  "locks fs own x t \<Longrightarrow> \<forall>f\<in>set fs. fown f = own \<longrightarrow> s \<le> f_start f \<Longrightarrow> s \<le> x"
  by (fastforce simp: locks_def rec_locks_def)

section \<open>Blocking\<close>

definition conflicts :: "owner \<Rightarrow> eflock \<Rightarrow> filock \<Rightarrow> bool" where
  "conflicts own ld f \<longleftrightarrow> overlaps (fl_set f) ld \<and> fown f \<noteq> own \<and> type_blocks (fl_set f) ld"

definition starts_sorted :: "filock list \<Rightarrow> bool" where
  "starts_sorted fs \<longleftrightarrow> sorted (map f_start fs)"

lemma chain_ok_starts: "chain_ok fs \<Longrightarrow> starts_sorted fs"
  by (auto simp: chain_ok_def starts_sorted_def sorted_map rec_before_def
      elim: sorted_wrt_mono_rel [rotated])

lemma find_none_behind:
  "starts_sorted (f # fs) \<Longrightarrow> f_start f > l_end ld \<Longrightarrow> find (conflicts own ld) fs = None"
  by (auto simp: find_None_iff starts_sorted_def conflicts_def overlaps_def)

lemma blocked_rest_find: "starts_sorted fs \<Longrightarrow> blocked_rest own ld fs = find (conflicts own ld) fs"
proof (induction fs)
  case (Cons f fs)
  then show ?case
    using find_none_behind [of f fs ld own]
    by (auto simp: starts_sorted_def conflicts_def [of own ld f])
qed simp

lemma blocked_loop_find:
  "starts_sorted fs \<Longrightarrow> fst (blocked_loop own ld fs i p) = find (conflicts own ld) fs"
proof (induction own ld fs i p rule: blocked_loop.induct)
  case (2 own ld f fs i p)
  then show ?case
    using blocked_rest_find [of "f # fs" own ld]
    by (auto simp: starts_sorted_def conflicts_def [of own ld f] simp del: blocked_rest.simps)
qed simp

text \<open>The place \<open>blocked\<close> reports when nothing blocks, as the index where \<open>flckadj\<close> starts.\<close>

definition hint_ok :: "owner \<Rightarrow> eflock \<Rightarrow> filock list \<Rightarrow> nat option \<Rightarrow> bool" where
  "hint_ok own ld fs p \<longleftrightarrow>
     (case p of
        None \<Rightarrow> \<forall>f\<in>set fs. l_start ld \<le> f_start f
      | Some i \<Rightarrow> i < length fs \<and> (\<forall>f\<in>set (take (Suc i) fs). f_start f \<le> l_start ld)
                  \<and> (\<forall>f\<in>set (take i fs). fown f = own \<longrightarrow> f_end f \<le> l_start ld))"

lemma starts_sorted_behind:
  "starts_sorted (f # fs) \<Longrightarrow> g \<in> set (f # fs) \<Longrightarrow> f_start f \<le> f_start g"
  by (auto simp: starts_sorted_def)

text \<open>The loop has passed \<open>pre\<close>; its last own record, if any, may touch the request.\<close>

lemma blocked_loop_hint:
  assumes "blocked_loop own ld fs (length pre) p = (None, q)" "starts_sorted (pre @ fs)"
    "l_start ld < l_end ld"
    "p = prev_pos (length pre)" "\<forall>f\<in>set pre. f_start f < l_start ld"
    "\<forall>f\<in>set pre. fown f = own \<longrightarrow> f_end f \<le> l_start ld"
  shows "hint_ok own ld (pre @ fs) q"
  using assms
proof (induction fs arbitrary: pre p)
  case Nil
  then show ?case
    by (cases pre rule: rev_cases) (auto simp: hint_ok_def prev_pos_def order_less_imp_le)
next
  case (Cons f fs)
  have stop: "hint_ok own ld (pre @ f # fs) (prev_pos (length pre))" if "l_start ld \<le> f_start f"
    using Cons.prems that
    by (cases pre rule: rev_cases)
       (auto simp: hint_ok_def prev_pos_def starts_sorted_def sorted_append order_less_imp_le
          intro: order_trans)
  have at: "hint_ok own ld (pre @ f # fs) (Some (length pre))" if "f_start f < l_start ld"
    using Cons.prems that by (auto simp: hint_ok_def order_less_imp_le)
  have go: "hint_ok own ld ((pre @ [f]) @ fs) q"
    if "blocked_loop own ld fs (length (pre @ [f])) (Some (length pre)) = (None, q)"
      "f_start f < l_start ld" "fown f = own \<longrightarrow> f_end f \<le> l_start ld"
    by (rule Cons.IH [OF that(1)])
       (use Cons.prems that in \<open>auto simp: prev_pos_def\<close>)
  show ?case
    using Cons.prems(1,3,4) stop at go by (auto split: if_splits)
qed

lemma blocked_hint:
  assumes "blocked fs ld class pid = (None, q)" "starts_sorted fs" "l_start ld < l_end ld"
  shows "hint_ok (req_owner ld class pid) ld fs q"
  using blocked_loop_hint [of "req_owner ld class pid" ld fs "[]" None q] assms
  by (simp add: blocked_def prev_pos_def)

end
