(* ===== verification/Flock_Turns.thy ===== *)
theory Flock_Turns
  imports Flock_Chain
begin

text \<open>
  The turns of \<open>flckadj\<close>: what each rewriting of the chain does to the locks it stands for
  and to its order, and the invariant of the loop.
\<close>

section \<open>The chain in the state\<close>

abbreviation vchain :: "nat \<Rightarrow> flk_state \<Rightarrow> filock list" where
  "vchain vp st \<equiv> flck_chain (VChain vp) st"

definition fid_known :: "nat \<Rightarrow> flk_state \<Rightarrow> bool" where
  "fid_known vp st \<longleftrightarrow> fids_find vp (fk_fids st) \<noteq> None"

lemma known_chain_upd [simp]: "fid_known vp (chain_upd q g st) = fid_known vp st"
  by (auto simp: fid_known_def chain_upd_def fids_find_upd split: flk_chain.splits)

lemma fids_info [simp]: "fk_fids (info_upd g st) = fk_fids st"
  by (simp add: info_upd_def)

lemma known_info_upd [simp]: "fid_known vp (info_upd g st) = fid_known vp st"
  by (simp add: fid_known_def info_upd_def)

lemma known_clear [simp]: "fid_known vp (clear_vlocks vq st) = fid_known vp st"
  by (simp add: fid_known_def clear_vlocks_def)

lemma known_delflck [simp]: "fid_known vp (delflck q i vq st) = fid_known vp st"
  by (simp add: delflck_def Let_def)

lemma known_vflag [simp]: "fid_known vp (st\<lparr>fk_vflag := g\<rparr>) = fid_known vp st"
  by (simp add: fid_known_def)

lemma known_insflck:
  "insflck env q ld p vq class upid st = (b, st1) \<Longrightarrow> fid_known vp st1 = fid_known vp st"
  by (auto simp: insflck_def Let_def split: if_splits)

lemma known_set_fl [simp]: "fid_known vp (set_fl vq g i st) = fid_known vp st"
  by (simp add: set_fl_def)

lemma known_nonempty: "vchain vp st \<noteq> [] \<Longrightarrow> fid_known vp st"
  by (auto simp: fid_known_def flck_chain_def split: option.splits)

lemma vchain_vflag [simp]: "flck_chain q (st\<lparr>fk_vflag := g\<rparr>) = flck_chain q st"
  by (auto simp: flck_chain_def split: flk_chain.splits)

lemma vchain_del: "vchain vp (delflck (VChain vp) i vp st) = del_at i (vchain vp st)"
  by (simp add: chain_delflck)

lemma vchain_ins:
  assumes "insflck env (VChain vp) ld p vp class upid st = (True, st1)" "fid_known vp st"
  shows "vchain vp st1 = ins_at p (new_filock ld vp class upid) (vchain vp st)"
  using assms by (auto simp: insflck_def Let_def chain_chain_upd fid_known_def split: if_splits)

lemma insflck_fails: "insflck env q ld p vp class upid st = (False, st1) \<Longrightarrow> st1 = st"
  by (auto simp: insflck_def Let_def split: if_splits)

lemma vchain_set_fl:
  "fid_known vp st \<Longrightarrow> vchain vp st = pre @ f # rest \<Longrightarrow>
   vchain vp (set_fl vp g (length pre) st) = pre @ f\<lparr>fl_set := g (fl_set f)\<rparr> # rest"
  by (auto simp: set_fl_def chain_chain_upd fid_known_def)

section \<open>The place of the piece behind the region\<close>

lemma seek_spec:
  "\<exists>mid bk. fs = mid @ bk \<and> (\<forall>g\<in>set mid. f_start g < s) \<and> (bk \<noteq> [] \<longrightarrow> s \<le> f_start (hd bk))
     \<and> seek s fs i acc = (if mid = [] then acc else Some (i + length mid - 1))"
proof (induction s fs i acc rule: seek.induct)
  case (1 s i acc)
  then show ?case by simp
next
  case (2 s f fs i acc)
  show ?case
  proof (cases "f_start f < s")
    case True
    obtain mid bk where IH: "fs = mid @ bk" "\<forall>g\<in>set mid. f_start g < s"
      "bk \<noteq> [] \<longrightarrow> s \<le> f_start (hd bk)"
      "seek s fs (Suc i) (Some i) = (if mid = [] then Some i else Some (Suc i + length mid - 1))"
      using 2 [OF True] by blast
    show ?thesis
      by (rule exI [of _ "f # mid"], rule exI [of _ bk]) (use IH True in auto)
  next
    case False
    then show ?thesis by (intro exI [of _ "[]"] exI [of _ "f # fs"]) auto
  qed
qed

lemma seek_from:
  assumes "fs = pre @ f # rest"
  shows "\<exists>mid bk. rest = mid @ bk \<and> seek s (drop (length pre) fs) (length pre) (Some (length pre))
            = Some (length pre + length mid)
          \<and> (\<forall>g\<in>set mid. f_start g < s)
          \<and> (s \<le> f_start f \<and> mid = [] \<or> f_start f < s \<and> (bk \<noteq> [] \<longrightarrow> s \<le> f_start (hd bk)))"
proof -
  obtain mid bk where m: "f # rest = mid @ bk" "\<forall>g\<in>set mid. f_start g < s"
    "bk \<noteq> [] \<longrightarrow> s \<le> f_start (hd bk)"
    "seek s (f # rest) (length pre) (Some (length pre))
      = (if mid = [] then Some (length pre) else Some (length pre + length mid - 1))"
    using seek_spec by blast
  have d: "drop (length pre) fs = f # rest" using assms by simp
  show ?thesis
  proof (cases mid)
    case Nil
    then show ?thesis using m d by (intro exI [of _ "[]"] exI [of _ rest]) auto
  next
    case (Cons a ms)
    then show ?thesis using m d by (intro exI [of _ ms] exI [of _ bk]) auto
  qed
qed

lemma ins_at_mid:
  "ins_at (Some (length pre + length mid)) x (pre @ f # mid @ bk) = pre @ f # mid @ x # bk"
  by (simp add: ins_at_def)

text \<open>The record made by \<open>insflck\<close> for a request of the owner.\<close>

definition own_class :: "owner \<Rightarrow> lock_class \<Rightarrow> int \<Rightarrow> bool" where
  "own_class own class upid \<longleftrightarrow> (class \<noteq> LOCKMGR \<longrightarrow> own = (upid, 0, 0))"

lemma new_filock_own:
  assumes "own_class own class upid" "set_owner ld = own \<or> class \<noteq> LOCKMGR \<and> l_rpid ld = 0 \<and> l_rsys ld = 0"
  shows "fown (new_filock ld vp class upid) = own"
  using assms by (auto simp: own_class_def new_filock_def set_owner_def)

lemma new_filock_fields [simp]:
  "f_start (new_filock ld vp class upid) = l_start ld"
  "f_end (new_filock ld vp class upid) = l_end ld"
  "f_type (new_filock ld vp class upid) = l_type ld"
  by (auto simp: new_filock_def)

lemma piece_inserted:
  assumes "ins_after_piece env vp class upid ld flp (length pre) st = (True, st1)"
    "vchain vp st = pre @ flp # rest" "own_class (fown flp) class upid"
  obtains mid bk td where "rest = mid @ bk" "vchain vp st1 = pre @ flp # mid @ td # bk"
    "fown td = fown flp" "f_start td = l_end ld" "f_end td = f_end flp" "f_type td = f_type flp"
    "\<forall>g\<in>set mid. f_start g < l_start ld"
    "l_start ld \<le> f_start flp \<and> mid = []
      \<or> f_start flp < l_start ld \<and> (bk \<noteq> [] \<longrightarrow> l_start ld \<le> f_start (hd bk))"
proof -
  have known: "fid_known vp st" using assms(2) by (auto intro: known_nonempty)
  obtain mid bk where m: "rest = mid @ bk"
    "seek (l_start ld) (drop (length pre) (vchain vp st)) (length pre) (Some (length pre))
       = Some (length pre + length mid)"
    "\<forall>g\<in>set mid. f_start g < l_start ld"
    "l_start ld \<le> f_start flp \<and> mid = [] \<or> f_start flp < l_start ld \<and> (bk \<noteq> [] \<longrightarrow> l_start ld \<le> f_start (hd bk))"
    using seek_from [OF assms(2)] by blast
  let ?td = "new_filock ((fl_set flp)\<lparr>l_start := l_end ld\<rparr>) vp class upid"
  have "vchain vp st1 = pre @ flp # mid @ ?td # bk"
    using vchain_ins [OF _ known, of env _ _ "class" upid st1] assms(1,2) m(1,2)
    by (simp add: ins_after_piece_def ins_at_mid)
  moreover have "fown ?td = fown flp"
    by (rule new_filock_own) (use assms(3) in \<open>auto simp: set_owner_def\<close>)
  ultimately show ?thesis using m that [of mid bk ?td] by auto
qed

section \<open>What the rewritings do to the locks\<close>

text \<open>The owner's records of a chain around one of them.\<close>

definition around :: "owner \<Rightarrow> filock list \<Rightarrow> filock \<Rightarrow> filock list \<Rightarrow> bool" where
  "around own pre f rest \<longleftrightarrow> fown f = own \<and> f_start f < f_end f
     \<and> (\<forall>x t. locks pre own x t \<longrightarrow> x < f_start f) \<and> (\<forall>x t. locks rest own x t \<longrightarrow> f_end f \<le> x)"

lemma chain_ok_around: "chain_ok (pre @ f # rest) \<Longrightarrow> around (fown f) pre f rest"
  by (auto simp: around_def chain_ok_append chain_ok_Cons rec_ok_def rec_before_def
      elim!: locks_before locks_behind)

lemma set_delete_covered:
  assumes "around own pre f rest" "l_start ld \<le> f_start f" "f_end f \<le> l_end ld"
  shows "locks_set own ld (pre @ rest) ow x t = locks_set own ld (pre @ f # rest) ow x t"
  using assms by (auto simp: locks_set_def around_def rec_locks_def)

lemma set_delete_joined:
  assumes "around own pre f rest" "l_type ld1 = l_type ld" "f_type f = l_type ld" "l_type ld \<noteq> F_UNLCK"
    "l_start ld1 = min (l_start ld) (f_start f)" "l_end ld1 = max (l_end ld) (f_end f)"
    "l_start ld \<le> f_end f" "f_start f \<le> l_end ld"
    "\<forall>x t. locks pre own x t \<longrightarrow> x < l_start ld"
    "f_end f < l_end ld \<longrightarrow> l_start ld1 = f_start f"
  shows "locks_set own ld1 (pre @ rest) ow x t = locks_set own ld (pre @ f # rest) ow x t"
  using assms by (fastforce simp: locks_set_def around_def rec_locks_def min_def max_def split: if_splits)

lemma set_truncate:
  assumes "around own pre f rest" "f_start f < l_start ld" "l_start ld \<le> f_end f" "f_end f \<le> l_end ld"
    "fown g = own" "f_start g = f_start f" "f_end g = l_start ld" "f_type g = f_type f"
  shows "locks_set own ld (pre @ g # rest) ow x t = locks_set own ld (pre @ f # rest) ow x t"
  using assms by (auto simp: locks_set_def around_def rec_locks_def)

lemma set_split:
  assumes "around own pre f (mid @ bk)" "l_end ld < f_end f" "f_start f < l_end ld"
    "fown td = own" "f_start td = l_end ld" "f_end td = f_end f" "f_type td = f_type f"
    "l_start ld < l_end ld"
    "if f_start f < l_start ld
     then gs = [g] \<and> fown g = own \<and> f_start g = f_start f \<and> f_end g = l_start ld \<and> f_type g = f_type f
     else gs = []"
  shows "locks_set own ld (pre @ gs @ mid @ td # bk) ow x t = locks_set own ld (pre @ f # mid @ bk) ow x t"
  using assms by (auto simp: locks_set_def around_def rec_locks_def split: if_splits)

section \<open>What they do to the order\<close>

text \<open>
  The region ends inside a record of the owner, and a record of somebody else starts
  between the part cut off and the region's end: the piece behind the region then goes
  before that record, out of order.
\<close>

definition no_straddle :: "owner \<Rightarrow> eflock \<Rightarrow> filock list \<Rightarrow> bool" where
  "no_straddle own ld fs \<longleftrightarrow>
     (\<forall>f\<in>set fs. \<forall>g\<in>set fs. fown f = own \<and> f_start f < l_end ld \<and> l_end ld < f_end f \<and> fown g \<noteq> own
        \<longrightarrow> \<not> (max (f_start f) (l_start ld) \<le> f_start g \<and> f_start g < l_end ld))"

lemma chain_ok_delete: "chain_ok (pre @ f # rest) \<Longrightarrow> chain_ok (pre @ rest)"
  by (auto simp: chain_ok_append chain_ok_Cons)

lemma chain_ok_truncate:
  assumes "chain_ok (pre @ f # rest)" "fown g = fown f" "f_start g = f_start f" "f_type g = f_type f"
    "f_start f < f_end g" "f_end g \<le> f_end f"
  shows "chain_ok (pre @ g # rest)"
  using assms by (fastforce simp: chain_ok_append chain_ok_Cons rec_ok_def rec_before_def)

lemma chain_ok_split_keep:
  assumes ok: "chain_ok (pre @ f # mid @ bk)"
    and td: "l_end ld < f_end f" "f_start f < l_end ld"
      "fown td = fown f" "f_start td = l_end ld" "f_end td = f_end f" "f_type td = f_type f"
    and mid: "\<forall>g\<in>set mid. f_start g < l_end ld"
    and bk: "\<forall>g\<in>set bk. fown g \<noteq> fown f \<longrightarrow> l_end ld \<le> f_start g"
  shows "chain_ok (pre @ mid @ td # bk)"
proof -
  have b: "rec_before p f" if "p \<in> set pre" for p
    using ok that by (simp add: chain_ok_append chain_ok_Cons)
  have a: "rec_before f p" if "p \<in> set mid \<or> p \<in> set bk" for p
    using ok that by (auto simp: chain_ok_append chain_ok_Cons)
  have 1: "rec_before p td" if "p \<in> set pre" for p
    using b [OF that] td by (auto simp: rec_before_def)
  have 2: "rec_before p td" if "p \<in> set mid" for p
    using a [of p] that td mid by (auto simp: rec_before_def)
  have 3: "rec_before td p" if "p \<in> set bk" for p
    using a [of p] that td bk by (cases "fown p = fown f") (auto simp: rec_before_def)
  have 4: "rec_ok td" using ok td by (auto simp: chain_ok_append chain_ok_Cons rec_ok_def)
  show ?thesis using ok 1 2 3 4 by (auto simp: chain_ok_append chain_ok_Cons)
qed

lemma starts_tail:
  assumes "chain_ok (pre @ f # mid @ bk)" "bk \<noteq> [] \<longrightarrow> s \<le> f_start (hd bk)" "g \<in> set bk"
  shows "s \<le> f_start g"
  using assms by (cases bk) (auto simp: chain_ok_append chain_ok_Cons rec_before_def)

text \<open>The piece behind the region, when nothing straddles.\<close>

lemma chain_ok_split:
  assumes ok: "chain_ok (pre @ f # mid @ bk)" and ns: "no_straddle (fown f) ld (pre @ f # mid @ bk)"
    and td: "l_end ld < f_end f" "f_start f < l_end ld" "l_start ld < l_end ld"
      "fown td = fown f" "f_start td = l_end ld" "f_end td = f_end f" "f_type td = f_type f"
    and mid: "\<forall>g\<in>set mid. f_start g < l_start ld"
    and bk: "l_start ld \<le> f_start f \<and> mid = []
      \<or> f_start f < l_start ld \<and> (bk \<noteq> [] \<longrightarrow> l_start ld \<le> f_start (hd bk))"
  shows "chain_ok (pre @ mid @ td # bk)"
proof (rule chain_ok_split_keep [OF ok td(1,2) td(4-7)])
  show "\<forall>g\<in>set mid. f_start g < l_end ld" using mid td(3) by auto
  have "l_end ld \<le> f_start g" if g: "g \<in> set bk" "fown g \<noteq> fown f" for g
  proof -
    have "f_start f \<le> f_start g"
      using ok g by (auto simp: chain_ok_append chain_ok_Cons rec_before_def)
    moreover have "f_start f < l_start ld \<Longrightarrow> l_start ld \<le> f_start g"
      using bk starts_tail [OF ok _ g(1)] by auto
    ultimately have "max (f_start f) (l_start ld) \<le> f_start g" by linarith
    then show ?thesis using ns g td(1,2) by (fastforce simp: no_straddle_def)
  qed
  then show "\<forall>g\<in>set bk. fown g \<noteq> fown f \<longrightarrow> l_end ld \<le> f_start g" by blast
qed

section \<open>The invariant of the loop\<close>

text \<open>Where the request will go, as far as the loop has come (an unlock goes nowhere).\<close>

definition ins_ok :: "eflock \<Rightarrow> nat option \<Rightarrow> filock list \<Rightarrow> bool" where
  "ins_ok ld p fs \<longleftrightarrow>
     l_type ld = F_UNLCK
     \<or> (case p of
          None \<Rightarrow> \<forall>f\<in>set fs. l_start ld \<le> f_start f
        | Some k \<Rightarrow> k < length fs \<and> (\<forall>f\<in>set (take (Suc k) fs). f_start f \<le> l_start ld))"

definition adj_inv :: "owner \<Rightarrow> eflock \<Rightarrow> nat option \<Rightarrow> filock list \<Rightarrow> filock list \<Rightarrow> bool" where
  "adj_inv own ld p pre rest \<longleftrightarrow>
     chain_ok (pre @ rest) \<and> l_start ld < l_end ld
     \<and> (\<forall>f\<in>set pre. fown f = own \<longrightarrow> f_end f \<le> l_start ld)
     \<and> ins_ok ld p (pre @ rest) \<and> (\<forall>k. p = Some k \<longrightarrow> k \<le> length pre)"

definition adj_same :: "owner \<Rightarrow> eflock \<Rightarrow> filock list \<Rightarrow> eflock \<Rightarrow> filock list \<Rightarrow> bool" where
  "adj_same own ld fs ld1 fs1 \<longleftrightarrow>
     l_type ld1 = l_type ld \<and> set_owner ld1 = set_owner ld
     \<and> (\<forall>ow x t. locks_set own ld1 fs1 ow x t = locks_set own ld fs ow x t)
     \<and> (\<forall>ow x t. locks fs1 ow x t \<longrightarrow> locks fs ow x t)"

definition adj_apart :: "owner \<Rightarrow> eflock \<Rightarrow> filock list \<Rightarrow> bool" where
  "adj_apart own ld fs \<longleftrightarrow>
     (\<forall>f\<in>set fs. fown f = own \<longrightarrow> f_end f \<le> l_start ld \<or> l_end ld \<le> f_start f)"

text \<open>What holds of each way a turn ends, from a chain \<open>fs\<close> with \<open>rest\<close> ahead.\<close>

definition turn_ok :: "nat \<Rightarrow> owner \<Rightarrow> eflock \<Rightarrow> filock list \<Rightarrow> filock list \<Rightarrow> adj_turn \<Rightarrow> bool" where
  "turn_ok vp own ld fs rest turn \<longleftrightarrow>
     (case turn of
        AdjReturn rv ld1 st1 \<Rightarrow>
          chain_ok (vchain vp st1) \<and> (\<forall>ow x t. locks (vchain vp st1) ow x t \<longrightarrow> locks fs ow x t)
          \<and> (rv = errno_val ENOLCK
             \<or> rv \<in> {0, 1} \<and> (\<forall>ow x t. locks (vchain vp st1) ow x t = locks_set own ld fs ow x t))
      | AdjStop ld1 p rv st1 \<Rightarrow>
          rv \<in> {0, 1} \<and> fid_known vp st1 \<and> l_start ld1 < l_end ld1
          \<and> adj_same own ld fs ld1 (vchain vp st1) \<and> adj_apart own ld1 (vchain vp st1)
          \<and> (\<forall>f\<in>set (vchain vp st1). rec_ok f)
          \<and> (no_straddle own ld fs \<longrightarrow> chain_ok (vchain vp st1) \<and> ins_ok ld1 p (vchain vp st1))
      | AdjNext ld1 p rv i st1 \<Rightarrow>
          rv \<in> {0, 1} \<and> fid_known vp st1
          \<and> (\<exists>pre. vchain vp st1 = pre @ rest \<and> length pre = i \<and> adj_inv own ld1 p pre rest
                 \<and> adj_same own ld fs ld1 (pre @ rest)
                 \<and> (no_straddle own ld fs \<longrightarrow> no_straddle own ld1 (pre @ rest))))"

lemma regflck_cases:
  assumes "f_start f < f_end f" "l_start ld < l_end ld"
  obtains
    (bb) "regflck ld f = (S_BEFORE, E_BEFORE)" "l_end ld < f_start f"
  | (bs) "regflck ld f = (S_BEFORE, E_START)" "l_end ld = f_start f"
  | (bm) "regflck ld f = (S_BEFORE, E_MIDDLE)" "l_start ld < f_start f" "f_start f < l_end ld" "l_end ld < f_end f"
  | (be) "regflck ld f = (S_BEFORE, E_END)" "l_start ld < f_start f" "l_end ld = f_end f"
  | (ba) "regflck ld f = (S_BEFORE, E_AFTER)" "l_start ld < f_start f" "f_end f < l_end ld"
  | (sm) "regflck ld f = (S_START, E_MIDDLE)" "l_start ld = f_start f" "l_end ld < f_end f"
  | (se) "regflck ld f = (S_START, E_END)" "l_start ld = f_start f" "l_end ld = f_end f"
  | (sa) "regflck ld f = (S_START, E_AFTER)" "l_start ld = f_start f" "f_end f < l_end ld"
  | (mm) "regflck ld f = (S_MIDDLE, E_MIDDLE)" "f_start f < l_start ld" "l_end ld < f_end f"
  | (me) "regflck ld f = (S_MIDDLE, E_END)" "f_start f < l_start ld" "l_end ld = f_end f"
  | (ma) "regflck ld f = (S_MIDDLE, E_AFTER)" "f_start f < l_start ld" "l_start ld < f_end f" "f_end f < l_end ld"
  | (ea) "regflck ld f = (S_END, E_AFTER)" "l_start ld = f_end f"
  | (aa) "regflck ld f = (S_AFTER, E_AFTER)" "f_end f < l_start ld"
proof -
  consider (B) "l_start ld < f_start f" | (S) "l_start ld = f_start f"
    | (M) "f_start f < l_start ld" "l_start ld < f_end f" | (E) "l_start ld = f_end f" | (A) "f_end f < l_start ld"
    using assms by linarith
  then show ?thesis
  proof cases
    case B
    consider "l_end ld < f_start f" | "l_end ld = f_start f" | "f_start f < l_end ld" "l_end ld < f_end f"
      | "l_end ld = f_end f" | "f_end f < l_end ld"
      using assms by linarith
    then show ?thesis
    proof cases
      case 1
      show ?thesis by (rule bb) (use 1 B assms in \<open>auto simp: regflck_def\<close>)
    next
      case 2
      show ?thesis by (rule bs) (use 2 B assms in \<open>auto simp: regflck_def\<close>)
    next
      case 3
      show ?thesis by (rule bm) (use 3 B assms in \<open>auto simp: regflck_def\<close>)
    next
      case 4
      show ?thesis by (rule be) (use 4 B assms in \<open>auto simp: regflck_def\<close>)
    next
      case 5
      show ?thesis by (rule ba) (use 5 B assms in \<open>auto simp: regflck_def\<close>)
    qed
  next
    case S
    consider "l_end ld < f_end f" | "l_end ld = f_end f" | "f_end f < l_end ld" by linarith
    then show ?thesis
    proof cases
      case 1
      show ?thesis by (rule sm) (use 1 S assms in \<open>auto simp: regflck_def\<close>)
    next
      case 2
      show ?thesis by (rule se) (use 2 S assms in \<open>auto simp: regflck_def\<close>)
    next
      case 3
      show ?thesis by (rule sa) (use 3 S assms in \<open>auto simp: regflck_def\<close>)
    qed
  next
    case M
    consider "l_end ld < f_end f" | "l_end ld = f_end f" | "f_end f < l_end ld" by linarith
    then show ?thesis
    proof cases
      case 1
      show ?thesis by (rule mm) (use 1 M assms in \<open>auto simp: regflck_def\<close>)
    next
      case 2
      show ?thesis by (rule me) (use 2 M assms in \<open>auto simp: regflck_def\<close>)
    next
      case 3
      show ?thesis by (rule ma) (use 3 M assms in \<open>auto simp: regflck_def\<close>)
    qed
  next
    case E
    show ?thesis by (rule ea) (use E assms in \<open>auto simp: regflck_def\<close>)
  next
    case A
    show ?thesis by (rule aa) (use A assms in \<open>auto simp: regflck_def\<close>)
  qed
qed

lemma no_straddle_mono:
  assumes "no_straddle own ld fs" "\<forall>g\<in>set fs1. fown g \<noteq> own \<longrightarrow> g \<in> set fs"
    "\<forall>f\<in>set fs1. fown f = own \<and> f_start f < l_end ld1 \<and> l_end ld1 < f_end f
       \<longrightarrow> f \<in> set fs \<and> l_end ld1 = l_end ld \<and> max (f_start f) (l_start ld) = max (f_start f) (l_start ld1)"
  shows "no_straddle own ld1 fs1"
  using assms unfolding no_straddle_def by metis

lemma ins_ok_prev:
  assumes "chain_ok (pre @ f # rest)" "l_start ld = f_start f" "\<forall>g\<in>set ys. f_start f \<le> f_start g"
  shows "ins_ok ld (prev_pos (length pre)) (pre @ ys)"
    "\<forall>k. prev_pos (length pre) = Some k \<longrightarrow> k \<le> length pre"
  using assms
  by (cases pre rule: rev_cases;
      auto simp: ins_ok_def prev_pos_def chain_ok_append chain_ok_Cons rec_before_def)+

lemma ins_ok_here:
  assumes "chain_ok (pre @ f # rest)" "f_start f \<le> l_start ld"
  shows "ins_ok ld (Some (length pre)) (pre @ f # rest)"
  using assms by (fastforce simp: ins_ok_def chain_ok_append chain_ok_Cons rec_before_def)

text \<open>A record behind the request's start goes: the hint stays.\<close>

lemma ins_ok_drop:
  assumes "ins_ok ld p (pre @ f # rest)" "\<forall>k. p = Some k \<longrightarrow> k \<le> length pre" "l_start ld < f_start f"
    "q = (if p = Some (length pre) then prev_pos (length pre) else p)"
  shows "\<forall>k. q = Some k \<longrightarrow> k \<le> length pre"
    "l_start ld1 = l_start ld \<Longrightarrow> l_type ld1 = l_type ld \<Longrightarrow> \<forall>g\<in>set ys. f_start f \<le> f_start g \<Longrightarrow>
     ins_ok ld1 q (pre @ ys)"
proof -
  show "\<forall>k. q = Some k \<longrightarrow> k \<le> length pre"
    using assms(2,4) by (auto simp: prev_pos_def split: nat.splits if_splits)
  show "ins_ok ld1 q (pre @ ys)"
    if l: "l_start ld1 = l_start ld" "l_type ld1 = l_type ld" "\<forall>g\<in>set ys. f_start f \<le> f_start g"
  proof (cases "l_type ld = F_UNLCK")
    case False
    then have n: "q = p" "p \<noteq> Some (length pre)" using assms(1,3,4) by (auto simp: ins_ok_def)
    show ?thesis
    proof (cases p)
      case None
      then show ?thesis using assms l n by (fastforce simp: ins_ok_def)
    next
      case (Some k)
      then have "k < length pre" using assms(2) n by (auto simp: le_less)
      then show ?thesis using assms(1) l n Some by (auto simp: ins_ok_def)
    qed
  qed (simp add: ins_ok_def l)
qed

section \<open>One turn\<close>

lemma set_owner_upd [simp]:
  "set_owner (ld\<lparr>l_start := a\<rparr>) = set_owner ld" "set_owner (ld\<lparr>l_len := a\<rparr>) = set_owner ld"
  by (simp_all add: set_owner_def)

lemma rec_locks_shrunk:
  "rec_locks g ow x t \<Longrightarrow> fown g = fown f \<Longrightarrow> f_type g = f_type f \<Longrightarrow> f_start f \<le> f_start g \<Longrightarrow>
   f_end g \<le> f_end f \<Longrightarrow> rec_locks f ow x t"
  by (auto simp: rec_locks_def)

lemma adj_sameI:
  assumes "l_type ld1 = l_type ld" "set_owner ld1 = set_owner ld"
    "\<And>ow x t. locks_set own ld1 fs1 ow x t = locks_set own ld fs ow x t"
    "\<And>ow x t. locks fs1 ow x t \<Longrightarrow> locks fs ow x t"
  shows "adj_same own ld fs ld1 fs1"
  using assms by (auto simp: adj_same_def)

text \<open>What the turn lemmas start from.\<close>

definition turn_pre :: "nat \<Rightarrow> owner \<Rightarrow> eflock \<Rightarrow> nat option \<Rightarrow> filock list \<Rightarrow> filock \<Rightarrow> filock list \<Rightarrow> flk_state \<Rightarrow> bool" where
  "turn_pre vp own ld p pre flp rest st \<longleftrightarrow>
     vchain vp st = pre @ flp # rest \<and> fown flp = own \<and> adj_inv own ld p pre (flp # rest)
     \<and> l_type ld \<in> {F_RDLCK, F_WRLCK, F_UNLCK}"

lemma turn_preD:
  assumes "turn_pre vp own ld p pre flp rest st"
  shows "vchain vp st = pre @ flp # rest" "fown flp = own" "chain_ok (pre @ flp # rest)"
    "l_start ld < l_end ld" "f_start flp < f_end flp" "around own pre flp rest"
    "\<forall>f\<in>set pre. fown f = own \<longrightarrow> f_end f \<le> l_start ld"
    "\<forall>f\<in>set pre. fown f = own \<longrightarrow> f_end f \<le> f_start flp"
    "\<forall>f\<in>set rest. fown f = own \<longrightarrow> f_end flp \<le> f_start f"
    "\<forall>x t. locks pre own x t \<longrightarrow> x < l_start ld"
    "ins_ok ld p (pre @ flp # rest)" "\<forall>k. p = Some k \<longrightarrow> k \<le> length pre" "fid_known vp st"
    "f_type flp \<noteq> F_UNLCK" "rec_ok flp" "\<forall>f\<in>set pre. rec_ok f" "\<forall>f\<in>set rest. rec_ok f"
proof -
  have ok: "chain_ok (pre @ flp # rest)" using assms by (simp add: turn_pre_def adj_inv_def)
  show "vchain vp st = pre @ flp # rest" "fown flp = own" "chain_ok (pre @ flp # rest)"
    "l_start ld < l_end ld" "\<forall>f\<in>set pre. fown f = own \<longrightarrow> f_end f \<le> l_start ld"
    "ins_ok ld p (pre @ flp # rest)" "\<forall>k. p = Some k \<longrightarrow> k \<le> length pre"
    using assms by (auto simp: turn_pre_def adj_inv_def)
  then show "\<forall>x t. locks pre own x t \<longrightarrow> x < l_start ld" "fid_known vp st"
    by (auto elim!: locks_before intro: known_nonempty)
  show rec: "rec_ok flp" "\<forall>f\<in>set pre. rec_ok f" "\<forall>f\<in>set rest. rec_ok f"
    using ok by (auto simp: chain_ok_def)
  then show "f_start flp < f_end flp" "f_type flp \<noteq> F_UNLCK"
    by (auto simp: rec_ok_def F_RDLCK_def F_WRLCK_def F_UNLCK_def)
  show "around own pre flp rest"
    using chain_ok_around [OF ok] assms by (simp add: turn_pre_def)
  show "\<forall>f\<in>set pre. fown f = own \<longrightarrow> f_end f \<le> f_start flp"
    "\<forall>f\<in>set rest. fown f = own \<longrightarrow> f_end flp \<le> f_start f"
    using ok assms by (auto simp: turn_pre_def chain_ok_append chain_ok_Cons rec_before_def)
qed

text \<open>The record goes, and the request stays or takes its bytes over.\<close>

lemma turn_delete:
  assumes pre: "turn_pre vp own ld p pre flp rest st" and rv: "rv \<in> {0, 1::int}"
    and ld1: "l_type ld1 = l_type ld" "set_owner ld1 = set_owner ld" "l_start ld1 \<le> l_start ld" "l_end ld \<le> l_end ld1"
    and same: "\<And>ow x t. locks_set own ld1 (pre @ rest) ow x t = locks_set own ld (pre @ flp # rest) ow x t"
    and pl: "\<forall>f\<in>set pre. fown f = own \<longrightarrow> f_end f \<le> l_start ld1"
    and p1: "ins_ok ld1 p1 (pre @ rest)" "\<forall>k. p1 = Some k \<longrightarrow> k \<le> length pre"
    and str: "l_end ld1 = l_end ld \<or> l_end ld1 = f_end flp"
      "l_start ld1 = l_start ld \<or> l_start ld \<le> f_end flp"
  shows "turn_ok vp own ld (pre @ flp # rest) rest
           (AdjNext ld1 p1 rv (length pre) (delflck (VChain vp) (length pre) vp st))"
proof -
  note P = turn_preD [OF pre]
  have ns: "no_straddle own ld1 (pre @ rest)" if "no_straddle own ld (pre @ flp # rest)"
  proof (rule no_straddle_mono [OF that])
    show "\<forall>g\<in>set (pre @ rest). fown g \<noteq> own \<longrightarrow> g \<in> set (pre @ flp # rest)" by auto
    show "\<forall>f\<in>set (pre @ rest). fown f = own \<and> f_start f < l_end ld1 \<and> l_end ld1 < f_end f \<longrightarrow>
        f \<in> set (pre @ flp # rest) \<and> l_end ld1 = l_end ld
        \<and> max (f_start f) (l_start ld) = max (f_start f) (l_start ld1)"
      using P(4,7,9) ld1(3,4) str by (fastforce simp: max_def)
  qed
  have "adj_inv own ld1 p1 pre rest"
    using P(3,4) ld1 pl p1 by (auto simp: adj_inv_def intro: chain_ok_delete)
  moreover have "adj_same own ld (pre @ flp # rest) ld1 (pre @ rest)"
    by (rule adj_sameI) (use ld1 same in auto)
  ultimately show ?thesis
    using P(1,13) rv ns by (auto simp: turn_ok_def vchain_del)
qed

text \<open>The record keeps the part before the request.\<close>

lemma turn_truncate:
  assumes pre: "turn_pre vp own ld p pre flp rest st" and rv: "rv \<in> {0, 1::int}"
    and pos: "f_start flp < l_start ld" "l_start ld \<le> f_end flp" "f_end flp \<le> l_end ld"
  shows "turn_ok vp own ld (pre @ flp # rest) rest
           (AdjNext ld (Some (length pre)) rv (Suc (length pre)) (set_fl vp (\<lambda>s. s\<lparr>l_len := l_start ld\<rparr>) (length pre) st))"
proof -
  note P = turn_preD [OF pre]
  let ?g = "flp\<lparr>fl_set := (fl_set flp)\<lparr>l_len := l_start ld\<rparr>\<rparr>"
  have g: "fown ?g = own" "f_start ?g = f_start flp" "f_end ?g = l_start ld" "f_type ?g = f_type flp"
    using P(2) by (auto simp: set_owner_def)
  have ok: "chain_ok (pre @ ?g # rest)"
    by (rule chain_ok_truncate [OF P(3)]) (use g P(2) pos in auto)
  have "vchain vp (set_fl vp (\<lambda>s. s\<lparr>l_len := l_start ld\<rparr>) (length pre) st) = (pre @ [?g]) @ rest"
    using vchain_set_fl [OF P(13,1)] by simp
  moreover have "adj_inv own ld (Some (length pre)) (pre @ [?g]) rest"
    using ok P(4,7) g ins_ok_here [OF ok, of ld] pos by (auto simp: adj_inv_def)
  moreover have "adj_same own ld (pre @ flp # rest) ld ((pre @ [?g]) @ rest)"
  proof (rule adj_sameI)
    show "locks_set own ld ((pre @ [?g]) @ rest) ow x t = locks_set own ld (pre @ flp # rest) ow x t" for ow x t
      using set_truncate [OF P(6) pos g] by simp
    show "locks (pre @ flp # rest) ow x t" if "locks ((pre @ [?g]) @ rest) ow x t" for ow x t
      using that rec_locks_shrunk [of ?g ow x t flp] g P(2) pos by auto
  qed auto
  moreover have "no_straddle own ld ((pre @ [?g]) @ rest)" if "no_straddle own ld (pre @ flp # rest)"
    by (rule no_straddle_mono [OF that]) (use g pos P(4) in auto)
  ultimately show ?thesis
    using P(13) rv by (auto simp: turn_ok_def simp del: append_assoc)
qed

text \<open>The region ends inside the record: a piece goes behind it, and perhaps one before.\<close>

definition split_turn ::
  "flk_env \<Rightarrow> nat \<Rightarrow> lock_class \<Rightarrow> int \<Rightarrow> eflock \<Rightarrow> filock \<Rightarrow> nat \<Rightarrow> nat option \<Rightarrow> (flk_state \<Rightarrow> flk_state)
    \<Rightarrow> flk_state \<Rightarrow> adj_turn" where
  "split_turn env vp class upid ld flp i p1 rw st =
     (case ins_after_piece env vp class upid ld flp i st of
        (False, st1) \<Rightarrow> AdjReturn (errno_val ENOLCK) ld st1
      | (True, st1) \<Rightarrow> AdjStop ld p1 1 (rw st1))"

lemma turn_split:
  assumes pre: "turn_pre vp own ld p pre flp rest st" and cl: "own_class own class upid"
    and pos: "f_start flp < l_end ld" "l_end ld < f_end flp"
    and rw: "\<And>st1 ys. vchain vp st1 = pre @ flp # ys \<Longrightarrow> fid_known vp st1 \<Longrightarrow>
        vchain vp (rw st1) = pre @ gs @ ys \<and> fid_known vp (rw st1)"
    and gs: "if f_start flp < l_start ld
        then \<exists>g. gs = [g] \<and> fown g = own \<and> f_start g = f_start flp \<and> f_end g = l_start ld \<and> f_type g = f_type flp
        else gs = []"
    and p1: "\<And>ys. \<forall>g\<in>set ys. f_start flp \<le> f_start g \<Longrightarrow> ins_ok ld p1 (pre @ gs @ ys)"
  shows "turn_ok vp own ld (pre @ flp # rest) rest (split_turn env vp class upid ld flp (length pre) p1 rw st)"
proof (cases "ins_after_piece env vp class upid ld flp (length pre) st")
  case (Pair b st1)
  note P = turn_preD [OF pre]
  show ?thesis
  proof (cases b)
    case False
    then have "st1 = st" using Pair by (auto simp: ins_after_piece_def dest: insflck_fails)
    then show ?thesis using Pair False P(1,3) by (simp add: split_turn_def turn_ok_def)
  next
    case True
    have ins: "ins_after_piece env vp class upid ld flp (length pre) st = (True, st1)"
      using Pair True by simp
    have cl1: "own_class (fown flp) class upid" using cl P(2) by simp
    obtain mid bk td where m: "rest = mid @ bk" "vchain vp st1 = pre @ flp # mid @ td # bk"
      "fown td = own" "f_start td = l_end ld" "f_end td = f_end flp" "f_type td = f_type flp"
      "\<forall>g\<in>set mid. f_start g < l_start ld"
      "l_start ld \<le> f_start flp \<and> mid = []
        \<or> f_start flp < l_start ld \<and> (bk \<noteq> [] \<longrightarrow> l_start ld \<le> f_start (hd bk))"
      by (rule piece_inserted [OF ins P(1) cl1, unfolded P(2)])
    let ?fs1 = "pre @ gs @ mid @ td # bk"
    have c: "vchain vp (rw st1) = ?fs1" "fid_known vp (rw st1)"
      using rw [OF m(2)] known_nonempty [of vp st1] m(2) by auto
    have gsp: "if f_start flp < l_start ld
        then gs = [hd gs] \<and> fown (hd gs) = own \<and> f_start (hd gs) = f_start flp \<and> f_end (hd gs) = l_start ld
             \<and> f_type (hd gs) = f_type flp
        else gs = []"
      using gs by auto
    have gsl: "locks gs ow x t \<Longrightarrow> rec_locks flp ow x t" for ow x t
      using gsp rec_locks_shrunk [of "hd gs" ow x t flp] P(2,4) pos
      by (cases gs) (auto split: if_splits)
    have same: "adj_same own ld (pre @ flp # rest) ld ?fs1"
    proof (rule adj_sameI)
      show "locks_set own ld ?fs1 ow x t = locks_set own ld (pre @ flp # rest) ow x t" for ow x t
        using set_split [OF _ pos(2,1) m(3-6) P(4) gsp] P(6) m(1) by simp
      show "locks (pre @ flp # rest) ow x t" if "locks ?fs1 ow x t" for ow x t
        using that gsl [of ow x t] m(1) rec_locks_shrunk [of td ow x t flp] m(3-6) pos P(2) by auto
    qed auto
    have own_gs: "\<forall>g\<in>set gs. fown g = own \<and> f_end g \<le> l_start ld \<and> rec_ok g"
      using gsp P(15) by (cases gs) (auto simp: rec_ok_def split: if_splits)
    have apart: "adj_apart own ld ?fs1"
      using P(7,9) own_gs m(1,4) pos by (fastforce simp: adj_apart_def)
    have recs: "\<forall>f\<in>set ?fs1. rec_ok f"
      using P(15-17) own_gs m(1,4-6) pos by (auto simp: rec_ok_def)
    have ok: "chain_ok ?fs1" if ns: "no_straddle own ld (pre @ flp # rest)"
    proof -
      have s: "chain_ok (pre @ mid @ td # bk)"
        using chain_ok_split [of pre flp mid bk ld td] P(2,3,4) ns m pos by simp
      show ?thesis
      proof (cases "f_start flp < l_start ld")
        case False
        then show ?thesis using s gsp by simp
      next
        case True
        then obtain g where g: "gs = [g]" "fown g = own" "f_start g = f_start flp" "f_end g = l_start ld"
          "f_type g = f_type flp"
          using gs by auto
        have k: "chain_ok (pre @ g # rest)"
          by (rule chain_ok_truncate [OF P(3)]) (use True g P(2,4) pos in auto)
        have "rec_before g td" using True g m(3-5) P(4) pos by (auto simp: rec_before_def)
        then show ?thesis using g(1) s k m(1) by (auto simp: chain_ok_append chain_ok_Cons)
      qed
    qed
    have "\<forall>g\<in>set (mid @ td # bk). f_start flp \<le> f_start g"
      using P(3) m(1,4) pos by (auto simp: chain_ok_append chain_ok_Cons rec_before_def)
    from p1 [OF this] have "ins_ok ld p1 ?fs1" .
    then show ?thesis
      using Pair True c same apart recs ok P(4) by (simp add: split_turn_def turn_ok_def)
  qed
qed

text \<open>Nothing changes; the loop ends or goes on.\<close>

lemma turn_stop:
  assumes pre: "turn_pre vp own ld p pre flp rest st" and rv: "rv \<in> {0, 1::int}" and "l_end ld \<le> f_start flp"
  shows "turn_ok vp own ld (pre @ flp # rest) rest (AdjStop ld p rv st)"
proof -
  note P = turn_preD [OF pre]
  have "\<forall>f\<in>set rest. fown f = own \<longrightarrow> l_end ld \<le> f_start f"
    using P(5,9) assms(3) by fastforce
  then show ?thesis
    using P rv assms(3) by (auto simp: turn_ok_def adj_same_def adj_apart_def)
qed

lemma turn_return:
  assumes pre: "turn_pre vp own ld p pre flp rest st" and rv: "rv \<in> {0, 1::int}"
    and "f_start flp \<le> l_start ld" "l_end ld \<le> f_end flp" "l_type ld = f_type flp"
  shows "turn_ok vp own ld (pre @ flp # rest) rest (AdjReturn rv ld1 st)"
proof -
  note P = turn_preD [OF pre]
  have "locks (pre @ flp # rest) ow x t = locks_set own ld (pre @ flp # rest) ow x t" for ow x t
    using P(2,6,14) assms(3-5) by (auto simp: locks_set_def around_def rec_locks_def)
  then show ?thesis using P(1,3) rv by (auto simp: turn_ok_def)
qed

lemma turn_skip:
  assumes pre: "turn_pre vp own ld p pre flp rest st" and rv: "rv \<in> {0, 1::int}" and "f_end flp < l_start ld"
  shows "turn_ok vp own ld (pre @ flp # rest) rest (AdjNext ld (Some (length pre)) rv (Suc (length pre)) st)"
proof -
  note P = turn_preD [OF pre]
  have "adj_inv own ld (Some (length pre)) (pre @ [flp]) rest"
    using P(2,3,4,5,7) assms(3) ins_ok_here [OF P(3), of ld] by (auto simp: adj_inv_def)
  then show ?thesis
    using P(1,13) rv by (auto simp: turn_ok_def adj_same_def intro!: exI [of _ "pre @ [flp]"])
qed

lemma adj_own_split:
  assumes "regflck ld flp = (S_BEFORE, E_MIDDLE) \<or> regflck ld flp = (S_START, E_MIDDLE) \<or> regflck ld flp = (S_MIDDLE, E_MIDDLE)"
    "l_type ld \<noteq> f_type flp"
  shows "flckadj_own env vp class upid flp i p ld rv st =
    split_turn env vp class upid ld flp i
      (if fst (regflck ld flp) = S_BEFORE then (if p = Some i then prev_pos i else p)
       else if fst (regflck ld flp) = S_START then prev_pos i else Some i)
      (if fst (regflck ld flp) = S_MIDDLE then set_fl vp (\<lambda>s. s\<lparr>l_len := l_start ld\<rparr>) i
       else delflck (VChain vp) i vp) st"
  using assms by (auto simp: flckadj_own_def split_turn_def Let_def split: prod.splits bool.splits)

lemma split_delete:
  assumes pre: "turn_pre vp own ld p pre flp rest st" and cl: "own_class own class upid"
    and pos: "l_start ld \<le> f_start flp" "f_start flp < l_end ld" "l_end ld < f_end flp"
    and p1: "\<And>ys. \<forall>g\<in>set ys. f_start flp \<le> f_start g \<Longrightarrow> ins_ok ld p1 (pre @ ys)"
  shows "turn_ok vp own ld (pre @ flp # rest) rest
    (split_turn env vp class upid ld flp (length pre) p1 (delflck (VChain vp) (length pre) vp) st)"
  by (rule turn_split [OF pre cl pos(2,3), where gs = "[]"]) (use pos p1 in \<open>auto simp: vchain_del\<close>)

lemma split_keep:
  assumes pre: "turn_pre vp own ld p pre flp rest st" and cl: "own_class own class upid"
    and pos: "f_start flp < l_start ld" "l_end ld < f_end flp"
  shows "turn_ok vp own ld (pre @ flp # rest) rest
    (split_turn env vp class upid ld flp (length pre) (Some (length pre))
       (set_fl vp (\<lambda>s. s\<lparr>l_len := l_start ld\<rparr>) (length pre)) st)"
proof (rule turn_split [OF pre cl _ pos(2), where gs = "[flp\<lparr>fl_set := (fl_set flp)\<lparr>l_len := l_start ld\<rparr>\<rparr>]"])
  note P = turn_preD [OF pre]
  show "f_start flp < l_end ld" using P(4) pos by linarith
  show "ins_ok ld (Some (length pre)) (pre @ [flp\<lparr>fl_set := (fl_set flp)\<lparr>l_len := l_start ld\<rparr>\<rparr>] @ ys)" for ys
    using P(3) pos by (fastforce simp: ins_ok_def chain_ok_append chain_ok_Cons rec_before_def)
qed (use turn_preD(2) [OF pre] pos in \<open>auto simp: vchain_set_fl set_owner_def\<close>)

text \<open>A turn that could go on may end the loop when no record ahead matters.\<close>

lemma turn_next_stop:
  assumes "turn_ok vp own ld fs rest (AdjNext ld1 p rv i st1)"
    "\<forall>f\<in>set rest. fown f = own \<longrightarrow> l_end ld1 \<le> f_start f"
  shows "turn_ok vp own ld fs rest (AdjStop ld1 p rv st1)"
  using assms by (auto simp: turn_ok_def adj_inv_def adj_apart_def chain_ok_def)

lemma flckadj_own_turn:
  assumes pre: "turn_pre vp own ld p pre flp rest st" and cl: "own_class own class upid"
    and rv: "rv \<in> {0, 1::int}"
  shows "turn_ok vp own ld (pre @ flp # rest) rest (flckadj_own env vp class upid flp (length pre) p ld rv st)"
proof -
  note P = turn_preD [OF pre]
  have T: "l_type ld = f_type flp \<Longrightarrow> l_type ld \<noteq> F_UNLCK" using P(14) by simp
  have plain: "turn_ok vp own ld (pre @ flp # rest) rest
      (AdjNext ld p1 rv1 (length pre) (delflck (VChain vp) (length pre) vp st))"
    if "l_start ld \<le> f_start flp" "f_end flp \<le> l_end ld" "rv1 \<in> {0, 1}"
      "ins_ok ld p1 (pre @ rest)" "\<forall>k. p1 = Some k \<longrightarrow> k \<le> length pre" for p1 rv1
    by (rule turn_delete [OF pre]) (use that P(7) set_delete_covered [OF P(6)] in auto)
  have R: "\<forall>g\<in>set rest. f_start flp \<le> f_start g"
    using P(3) by (auto simp: chain_ok_append chain_ok_Cons rec_before_def)
  let ?b = "if p = Some (length pre) then prev_pos (length pre) else p"
  have behind: "ins_ok ld ?b (pre @ rest)" "\<forall>k. ?b = Some k \<longrightarrow> k \<le> length pre"
      "\<forall>g\<in>set ys. f_start flp \<le> f_start g \<Longrightarrow> ins_ok ld ?b (pre @ ys)"
    if "l_start ld < f_start flp" for ys
    using ins_ok_drop(1) [OF P(11,12) that refl] ins_ok_drop(2) [OF P(11,12) that refl, of ld] R by auto
  have prev: "ins_ok ld (prev_pos (length pre)) (pre @ rest)"
      "\<forall>k. prev_pos (length pre) = Some k \<longrightarrow> k \<le> length pre" if "l_start ld = f_start flp"
    using ins_ok_prev [OF P(3) that R] .
  let ?ldb = "ld\<lparr>l_start := f_start flp\<rparr>" and ?ldf = "ld\<lparr>l_len := f_end flp\<rparr>"
  have joinb: "turn_ok vp own ld (pre @ flp # rest) rest
      (AdjNext ?ldb (prev_pos (length pre)) rv (length pre) (delflck (VChain vp) (length pre) vp st))"
    if m: "f_start flp < l_start ld" "l_start ld \<le> f_end flp" "f_end flp \<le> l_end ld" "l_type ld = f_type flp"
  proof (rule turn_delete [OF pre rv])
    show "locks_set own ?ldb (pre @ rest) ow x t = locks_set own ld (pre @ flp # rest) ow x t" for ow x t
      by (rule set_delete_joined [OF P(6)]) (use m T P(10) in auto)
  qed (use m P(8) ins_ok_prev [OF P(3) _ R, of ?ldb] in auto)
  have joinf: "turn_ok vp own ld (pre @ flp # rest) rest
      (AdjNext ?ldf ?b rv1 (length pre) (delflck (VChain vp) (length pre) vp st))"
    if m: "l_start ld < f_start flp" "f_start flp \<le> l_end ld" "l_end ld < f_end flp" "l_type ld = f_type flp"
      "rv1 \<in> {0, 1}" for rv1
  proof (rule turn_delete [OF pre m(5)])
    show "locks_set own ?ldf (pre @ rest) ow x t = locks_set own ld (pre @ flp # rest) ow x t" for ow x t
      by (rule set_delete_joined [OF P(6)]) (use m T P(5,10) in auto)
    show "ins_ok ?ldf ?b (pre @ rest)" by (rule ins_ok_drop(2) [OF P(11,12) m(1) refl]) (use R in auto)
  qed (use m P(7) behind(2) in auto)
  have one: "(1::int) \<in> {0, 1}" by simp
  from P(5,4) show ?thesis
  proof (cases rule: regflck_cases)
    case bb
    then show ?thesis using turn_stop [OF pre rv] by (simp add: flckadj_own_def)
  next
    case bs
    then show ?thesis
      using turn_stop [OF pre rv] joinf [OF _ _ _ _ rv] P(4,5) by (auto simp: flckadj_own_def Let_def)
  next
    case bm
    have split: "turn_ok vp own ld (pre @ flp # rest) rest
        (split_turn env vp class upid ld flp (length pre) ?b (delflck (VChain vp) (length pre) vp) st)"
      by (rule split_delete [OF pre cl _ bm(3,4)]) (use bm(2) behind(3) in auto)
    have join: "turn_ok vp own ld (pre @ flp # rest) rest
        (AdjStop ?ldf ?b 1 (delflck (VChain vp) (length pre) vp st))" if "l_type ld = f_type flp"
      by (rule turn_next_stop [OF joinf]) (use that bm P(9) in auto)
    show ?thesis
      by (cases "l_type ld = f_type flp")
         (use split join bm in \<open>simp_all add: flckadj_own_def adj_own_split split_turn_def\<close>)
  next
    case be
    have stop: "turn_ok vp own ld (pre @ flp # rest) rest
        (AdjStop ld ?b 1 (delflck (VChain vp) (length pre) vp st))"
      by (rule turn_next_stop [OF plain]) (use be behind P(9) in auto)
    show ?thesis
      by (cases "l_type ld = f_type flp")
         (use be behind stop plain [OF _ _ one, of ?b] in \<open>simp_all add: flckadj_own_def\<close>)
  next
    case ba
    then show ?thesis using behind plain [OF _ _ one, of ?b] by (simp add: flckadj_own_def)
  next
    case sm
    show ?thesis
    proof (cases "l_type ld = f_type flp")
      case True
      then show ?thesis using sm turn_return [OF pre rv] by (simp add: flckadj_own_def)
    next
      case False
      have "turn_ok vp own ld (pre @ flp # rest) rest
          (split_turn env vp class upid ld flp (length pre) (prev_pos (length pre))
             (delflck (VChain vp) (length pre) vp) st)"
        by (rule split_delete [OF pre cl _ _ sm(3)]) (use sm(2) P(4) ins_ok_prev(1) [OF P(3) sm(2)] in auto)
      then show ?thesis using sm False by (simp add: adj_own_split)
    qed
  next
    case se
    then show ?thesis
      using turn_return [OF pre rv] plain [OF _ _ one prev] by (simp add: flckadj_own_def)
  next
    case sa
    then show ?thesis using plain [OF _ _ one prev] by (simp add: flckadj_own_def)
  next
    case mm
    then show ?thesis
      using turn_return [OF pre rv] split_keep [OF pre cl mm(2,3)]
      by (cases "l_type ld = f_type flp") (simp_all add: flckadj_own_def adj_own_split split_turn_def)
  next
    case me
    then show ?thesis
      using turn_return [OF pre rv] turn_truncate [OF pre one] P(4) by (simp add: flckadj_own_def)
  next
    case ma
    then show ?thesis
      using joinb turn_truncate [OF pre one] by (simp add: flckadj_own_def)
  next
    case ea
    then show ?thesis
      using joinb turn_truncate [OF pre one] P(4,5) by (simp add: flckadj_own_def)
  next
    case aa
    then show ?thesis using turn_skip [OF pre rv] by (simp add: flckadj_own_def)
  qed
qed

end
