(* ===== verification/Flock_Adjust.thy ===== *)
theory Flock_Adjust
  imports Flock_Turns
begin

text \<open>
  The whole of \<open>flckadj\<close>: what it makes of the chain it is given, and what it leaves alone.
\<close>

section \<open>The loop\<close>

lemma adj_same_trans:
  assumes "adj_same own ld fs ld1 fs1" "adj_same own ld1 fs1 ld2 fs2"
  shows "adj_same own ld fs ld2 fs2"
  using assms by (auto simp: adj_same_def)

lemma turn_ok_trans:
  assumes "adj_same own ld fs ld1 fs1" "no_straddle own ld fs \<longrightarrow> no_straddle own ld1 fs1"
    "turn_ok vp own ld1 fs1 rest turn"
  shows "turn_ok vp own ld fs rest turn"
proof (cases turn)
  case (AdjReturn rv ld2 st2)
  then show ?thesis using assms by (fastforce simp: turn_ok_def adj_same_def)
next
  case (AdjStop ld2 p rv st2)
  then show ?thesis using assms adj_same_trans [OF assms(1)] by (auto simp: turn_ok_def)
next
  case (AdjNext ld2 p rv i st2)
  then show ?thesis using assms adj_same_trans [OF assms(1)] by (fastforce simp: turn_ok_def)
qed

lemma turn_ok_rest:
  "turn_ok vp own ld fs rest turn \<Longrightarrow> (\<nexists>ld1 p rv i st1. turn = AdjNext ld1 p rv i st1) \<Longrightarrow>
   turn_ok vp own ld fs [] turn"
  by (cases turn) (auto simp: turn_ok_def)

lemma adj_inv_pass:
  "adj_inv own ld p pre (f # rest) \<Longrightarrow> fown f \<noteq> own \<Longrightarrow> adj_inv own ld p (pre @ [f]) rest"
  by (fastforce simp: adj_inv_def)

lemma flckadj_loop_ok:
  assumes "vchain vp st = pre @ rest" "adj_inv own ld p pre rest" "own_class own class upid"
    "rv \<in> {0, 1}" "l_type ld \<in> {F_RDLCK, F_WRLCK, F_UNLCK}" "fid_known vp st"
  shows "turn_ok vp own ld (pre @ rest) [] (flckadj_loop env vp class upid own rest (length pre) p ld rv st)"
  using assms
proof (induction rest arbitrary: pre p ld rv st)
  case Nil
  then show ?case by (auto simp: turn_ok_def adj_same_def adj_apart_def adj_inv_def chain_ok_def)
next
  case (Cons f rest)
  show ?case
  proof (cases "fown f = own")
    case True
    let ?t = "flckadj_own env vp class upid f (length pre) p ld rv st"
    have "turn_pre vp own ld p pre f rest st" using Cons.prems True by (simp add: turn_pre_def)
    then have t: "turn_ok vp own ld (pre @ f # rest) rest ?t"
      by (rule flckadj_own_turn) (use Cons.prems in auto)
    show ?thesis
    proof (cases ?t)
      case (AdjNext ld1 p1 rv1 i1 st1)
      then obtain pre1 where n: "vchain vp st1 = pre1 @ rest" "length pre1 = i1" "adj_inv own ld1 p1 pre1 rest"
        "adj_same own ld (pre @ f # rest) ld1 (pre1 @ rest)"
        "no_straddle own ld (pre @ f # rest) \<longrightarrow> no_straddle own ld1 (pre1 @ rest)"
        "rv1 \<in> {0, 1}" "fid_known vp st1"
        using t by (auto simp: turn_ok_def)
      have "l_type ld1 \<in> {F_RDLCK, F_WRLCK, F_UNLCK}" using n(4) Cons.prems(5) by (simp add: adj_same_def)
      from Cons.IH [OF n(1,3) Cons.prems(3) n(6) this n(7)] n(2)
      show ?thesis using AdjNext True turn_ok_trans [OF n(4,5)] by simp
    qed (use t True turn_ok_rest in \<open>auto simp: turn_ok_def\<close>)
  next
    case False
    have ok: "chain_ok (pre @ f # rest)" "\<forall>g\<in>set pre. fown g = own \<longrightarrow> f_end g \<le> l_start ld"
      using Cons.prems(2) by (auto simp: adj_inv_def)
    show ?thesis
    proof (cases "f_start f > l_end ld")
      case True
      have "adj_apart own ld (pre @ f # rest)"
        using ok True by (fastforce simp: adj_apart_def chain_ok_append chain_ok_Cons rec_before_def)
      then show ?thesis
        using Cons.prems False True by (auto simp: turn_ok_def adj_same_def adj_inv_def chain_ok_def)
    next
      case nb: False
      have "turn_ok vp own ld ((pre @ [f]) @ rest) []
          (flckadj_loop env vp class upid own rest (length (pre @ [f])) p ld rv st)"
        by (rule Cons.IH) (use Cons.prems adj_inv_pass [OF Cons.prems(2) False] in auto)
      then show ?thesis using False nb by simp
    qed
  qed
qed

lemma flckadj_loop_ends: "flckadj_loop env vp class upid own fs i p ld rv st \<noteq> AdjNext ld1 p1 rv1 j st1"
  by (induction fs arbitrary: i p ld rv st) (auto split: adj_turn.splits)

section \<open>Inserting the request\<close>

lemma seek_place:
  assumes ok: "chain_ok fs" and ins: "ins_ok ld p fs" and ty: "l_type ld \<noteq> F_UNLCK"
    and pl: "place = (case p of None \<Rightarrow> None | Some i \<Rightarrow> seek (l_start ld) (drop i fs) i (Some i))"
  obtains as bs where "fs = as @ bs" "\<And>new. ins_at place new fs = as @ new # bs"
    "\<forall>f\<in>set as. f_start f \<le> l_start ld" "\<forall>f\<in>set bs. l_start ld \<le> f_start f"
proof (cases p)
  case None
  then show ?thesis
    using that [of "[]" fs] ins ty pl by (simp add: ins_ok_def ins_at_def)
next
  case (Some k)
  then have k: "k < length fs" "\<forall>f\<in>set (take (Suc k) fs). f_start f \<le> l_start ld"
    using ins ty by (auto simp: ins_ok_def)
  define pre f rest where "pre = take k fs" and "f = fs ! k" and "rest = drop (Suc k) fs"
  have fs: "fs = pre @ f # rest" "length pre = k"
    using k by (auto simp: pre_def f_def rest_def id_take_nth_drop)
  obtain mid bk where m: "rest = mid @ bk" "place = Some (length pre + length mid)"
    "\<forall>g\<in>set mid. f_start g < l_start ld"
    "l_start ld \<le> f_start f \<and> mid = [] \<or> f_start f < l_start ld \<and> (bk \<noteq> [] \<longrightarrow> l_start ld \<le> f_start (hd bk))"
    using seek_from [OF fs(1), of "l_start ld"] pl Some fs(2) by auto
  have le: "\<forall>g\<in>set (pre @ [f]). f_start g \<le> l_start ld"
    using k(2) by (simp add: fs(1,2) flip: fs(2))
  have ge: "\<forall>g\<in>set bk. l_start ld \<le> f_start g"
  proof
    fix g assume g: "g \<in> set bk"
    have "f_start f \<le> f_start g"
      using ok g fs(1) m(1) by (auto simp: chain_ok_append chain_ok_Cons rec_before_def)
    then show "l_start ld \<le> f_start g"
      using m(4) starts_tail [of pre f mid bk "l_start ld" g] ok g fs(1) m(1) by auto
  qed
  show ?thesis
  proof (rule that [of "pre @ f # mid" bk])
    show "fs = (pre @ f # mid) @ bk" using fs m by simp
    show "ins_at place new fs = (pre @ f # mid) @ new # bk" for new
      using ins_at_mid [of pre mid new f bk] fs m by simp
    show "\<forall>g\<in>set (pre @ f # mid). f_start g \<le> l_start ld" using le m(3) by auto
    show "\<forall>g\<in>set bk. l_start ld \<le> f_start g" by (rule ge)
  qed
qed

lemma insert_ok:
  assumes ok: "chain_ok fs" and ins: "ins_ok ld p fs" and ap: "adj_apart own ld fs"
    and new: "rec_ok new" "fown new = own" "f_start new = l_start ld" "f_end new = l_end ld"
    and ty: "l_type ld \<noteq> F_UNLCK"
    and pl: "place = (case p of None \<Rightarrow> None | Some i \<Rightarrow> seek (l_start ld) (drop i fs) i (Some i))"
  shows "chain_ok (ins_at place new fs)"
proof (rule seek_place [OF ok ins ty pl])
  fix as bs
  assume s: "fs = as @ bs" "\<And>new. ins_at place new fs = as @ new # bs"
    "\<forall>f\<in>set as. f_start f \<le> l_start ld" "\<forall>f\<in>set bs. l_start ld \<le> f_start f"
  have r: "f_start f < f_end f" if "f \<in> set fs" for f using ok that by (auto simp: chain_ok_def rec_ok_def)
  have lt: "l_start ld < l_end ld" using new by (simp add: rec_ok_def)
  have 1: "rec_before f new" if "f \<in> set as" for f
    using s(1,3) ap new(2-4) lt that by (fastforce simp: rec_before_def adj_apart_def)
  have 2: "rec_before new f" if "f \<in> set bs" for f
    using s(1,4) ap new(2-4) that r [of f] by (fastforce simp: rec_before_def adj_apart_def)
  show ?thesis
    using ok s(1,2) new(1) 1 2 by (auto simp: chain_ok_append chain_ok_Cons)
qed

section \<open>The function\<close>

definition req_ok :: "eflock \<Rightarrow> lock_class \<Rightarrow> bool" where
  "req_ok ld class \<longleftrightarrow>
     l_start ld < l_end ld \<and> l_type ld \<in> {F_RDLCK, F_WRLCK, F_UNLCK}
     \<and> (class \<noteq> LOCKMGR \<longrightarrow> l_rpid ld = 0 \<and> l_rsys ld = 0)"

text \<open>The place the caller passes: what \<open>blocked\<close> found, or for an unlock the head.\<close>

definition start_ok :: "owner \<Rightarrow> eflock \<Rightarrow> filock list \<Rightarrow> nat option \<Rightarrow> bool" where
  "start_ok own ld fs p \<longleftrightarrow>
     (if l_type ld = F_UNLCK then p = (if fs = [] then None else Some 0) else hint_ok own ld fs p)"

lemma start_inv:
  assumes "chain_ok fs" "start_ok own ld fs p" "l_start ld < l_end ld" "i = (case p of None \<Rightarrow> 0 | Some i \<Rightarrow> i)"
  shows "adj_inv own ld p (take i fs) (drop i fs)" "length (take i fs) = i"
proof -
  show l: "length (take i fs) = i"
    using assms(2,4) by (auto simp: start_ok_def hint_ok_def split: option.splits if_splits)
  show "adj_inv own ld p (take i fs) (drop i fs)"
    using assms l by (auto simp: adj_inv_def start_ok_def hint_ok_def ins_ok_def split: option.splits if_splits)
qed

lemma locks_set_apart:
  assumes "adj_apart own ld fs"
  shows "locks_set own ld fs ow x t \<longleftrightarrow>
    locks fs ow x t \<or> ow = own \<and> l_start ld \<le> x \<and> x < l_end ld \<and> l_type ld \<noteq> F_UNLCK \<and> t = l_type ld"
proof -
  have "\<not> locks fs own x t" if "l_start ld \<le> x" "x < l_end ld"
    using assms that by (fastforce simp: adj_apart_def locks_def rec_locks_def)
  then show ?thesis by (auto simp: locks_set_def)
qed

lemma flckadj_chain:
  assumes ok: "chain_ok (vchain vp st)" and st: "start_ok (req_owner ld class pid) ld (vchain vp st) p"
    and req: "req_ok ld class" and known: "fid_known vp st"
    and adj: "flckadj env vp p ld class pid st = (rv, ld1, st1)"
  shows "(rv = errno_val ENOLCK \<and> (\<forall>ow x t. locks (vchain vp st1) ow x t \<longrightarrow> locks (vchain vp st) ow x t)
          \<or> rv \<in> {0, 1} \<and> (\<forall>ow x t. locks (vchain vp st1) ow x t
                \<longleftrightarrow> locks_set (req_owner ld class pid) ld (vchain vp st) ow x t))
       \<and> (\<forall>f\<in>set (vchain vp st1). rec_ok f)
       \<and> (no_straddle (req_owner ld class pid) ld (vchain vp st) \<longrightarrow> chain_ok (vchain vp st1))"
proof -
  define own upid i where "own = req_owner ld class pid"
    and "upid = (if class = LOCKMGR then l_pid ld else pid)"
    and "i = (case p of None \<Rightarrow> 0 | Some i \<Rightarrow> i)"
  let ?fs = "vchain vp st"
  have cl: "own_class own class upid" by (simp add: own_class_def own_def upid_def req_owner_def)
  have lt: "l_start ld < l_end ld" and ty: "l_type ld \<in> {F_RDLCK, F_WRLCK, F_UNLCK}"
    and loc: "class \<noteq> LOCKMGR \<longrightarrow> l_rpid ld = 0 \<and> l_rsys ld = 0"
    using req by (auto simp: req_ok_def)
  note inv = start_inv [OF ok st lt i_def, folded own_def]
  let ?t = "flckadj_loop env vp class upid own (drop i ?fs) i p ld 0 st"
  have t: "turn_ok vp own ld ?fs [] ?t"
    using flckadj_loop_ok [OF _ inv(1) cl _ ty known, of 0 env] inv(2) by simp
  note unf = adj [unfolded flckadj_def Let_def, folded upid_def own_def i_def]
  show ?thesis
  proof (cases ?t)
    case (AdjReturn rv2 ld2 st2)
    then show ?thesis using t unf by (auto simp: turn_ok_def own_def chain_ok_def)
  next
    case (AdjNext ld2 p2 rv2 j st2)
    then show ?thesis using flckadj_loop_ends by metis
  next
    case (AdjStop ld2 p2 rv2 st2)
    let ?fs2 = "vchain vp st2"
    have s: "rv2 \<in> {0, 1}" "fid_known vp st2" "l_start ld2 < l_end ld2" "l_type ld2 = l_type ld"
      "set_owner ld2 = set_owner ld" "adj_apart own ld2 ?fs2" "\<forall>f\<in>set ?fs2. rec_ok f"
      and same: "\<And>ow x t. locks_set own ld2 ?fs2 ow x t = locks_set own ld ?fs ow x t"
        "\<And>ow x t. locks ?fs2 ow x t \<Longrightarrow> locks ?fs ow x t"
      and ord: "no_straddle own ld ?fs \<longrightarrow> chain_ok ?fs2 \<and> ins_ok ld2 p2 ?fs2"
      using t AdjStop by (auto simp: turn_ok_def adj_same_def)
    note apart = locks_set_apart [OF s(6)]
    show ?thesis
    proof (cases "l_type ld2 = F_UNLCK")
      case True
      then show ?thesis
        using unf AdjStop s same(1) apart ord by (auto simp: own_def)
    next
      case False
      define place where "place = (case p2 of None \<Rightarrow> None | Some i \<Rightarrow> seek (l_start ld2) (drop i ?fs2) i (Some i))"
      let ?new = "new_filock ld2 vp class upid"
      have own: "fown ?new = own"
        by (rule new_filock_own [OF cl])
           (use s(5) loc in \<open>auto simp: set_owner_def own_def req_owner_def\<close>)
      have new: "rec_ok ?new" using s(3,4) ty False by (auto simp: rec_ok_def)
      obtain b st3 where i3: "insflck env (VChain vp) ld2 place vp class upid st2 = (b, st3)"
        by (cases "insflck env (VChain vp) ld2 place vp class upid st2") auto
      show ?thesis
      proof (cases b)
        case False
        then have "st3 = st2" using i3 by (auto dest: insflck_fails)
        then show ?thesis
          using unf AdjStop i3 False \<open>l_type ld2 \<noteq> F_UNLCK\<close> s(4,7) same(2) ord
          by (simp add: place_def own_def)
      next
        case True
        have c: "vchain vp st3 = ins_at place ?new ?fs2"
          by (rule vchain_ins [OF _ s(2)]) (use i3 True in simp)
        have l: "locks (vchain vp st3) ow x t = locks_set own ld ?fs ow x t" for ow x t
          using c own same(1) [of ow x t] apart [of ow x t] False by (auto simp: rec_locks_def)
        have "chain_ok (vchain vp st3)" if "no_straddle own ld ?fs"
          unfolding c by (rule insert_ok [OF _ _ s(6) new own]) (use ord that False in \<open>auto simp: place_def\<close>)
        then show ?thesis
          using unf AdjStop i3 True \<open>l_type ld2 \<noteq> F_UNLCK\<close> s(1,4,7) l new c
          by (simp add: place_def own_def)
      qed
    qed
  qed
qed

end
