(* ===== verification/Flock_Safety.thy ===== *)
theory Flock_Safety
  imports Flock_Adjust
begin

text \<open>
  Exclusion.  The interface \<open>lock_table\<close> states what the test for blocking locks and the
  adjustment of a chain promise each other; its client lemma is that a granted request never
  conflicts.  The second part follows the invariant of a system that only write-locks
  through every entry point of the package.
\<close>

section \<open>The interface\<close>

locale lock_table =
  fixes holds :: "'c \<Rightarrow> 'o \<Rightarrow> int \<Rightarrow> int \<Rightarrow> bool"
    and ok :: "'c \<Rightarrow> bool"
    and free :: "'c \<Rightarrow> 'r \<Rightarrow> 'o \<Rightarrow> bool"
    and grant :: "'c \<Rightarrow> 'r \<Rightarrow> 'o \<Rightarrow> 'c \<Rightarrow> bool"
    and covers :: "'r \<Rightarrow> int \<Rightarrow> bool"
    and mode :: "'r \<Rightarrow> int"
  assumes free_law: "\<lbrakk>ok c; free c r a; covers r x; holds c b x t; b \<noteq> a\<rbrakk> \<Longrightarrow> t = F_RDLCK \<and> mode r \<noteq> F_WRLCK"
    and grant_law: "\<lbrakk>ok c; grant c r a c'; holds c' b x t\<rbrakk> \<Longrightarrow>
        holds c b x t \<or> b = a \<and> covers r x \<and> t = mode r"
    and mode_law: "grant c r a c' \<Longrightarrow> mode r = F_UNLCK \<Longrightarrow> holds c' b x t \<Longrightarrow> holds c b x t"
    and mode_cases: "grant c r a c' \<Longrightarrow> mode r \<in> {F_RDLCK, F_WRLCK, F_UNLCK}"
begin

definition excl :: "'c \<Rightarrow> bool" where
  "excl c \<longleftrightarrow> (\<forall>a b x s t. holds c a x s \<and> holds c b x t \<and> a \<noteq> b \<longrightarrow> s = F_RDLCK \<and> t = F_RDLCK)"

lemma excl_shrink: "excl c \<Longrightarrow> (\<And>a x t. holds c' a x t \<Longrightarrow> holds c a x t) \<Longrightarrow> excl c'"
  unfolding excl_def by blast

lemma grant_excl:
  assumes "ok c" "excl c" "free c r a \<or> mode r = F_UNLCK" "grant c r a c'"
  shows "excl c'"
proof (cases "mode r = F_UNLCK")
  case True
  then show ?thesis using excl_shrink [OF assms(2)] mode_law [OF assms(4)] by blast
next
  case False
  then have fr: "free c r a" using assms(3) by simp
  have new: "s = F_RDLCK \<and> t = F_RDLCK"
    if "holds c' d x s" "holds c' b x t" "b \<noteq> d" "d = a" "covers r x" "s = mode r" for b d x s t
  proof -
    have "holds c b x t" using grant_law [OF assms(1,4) that(2)] that by auto
    from free_law [OF assms(1) fr that(5) this] show ?thesis
      using that mode_cases [OF assms(4)] False by auto
  qed
  show ?thesis
    unfolding excl_def
  proof (intro allI impI)
    fix d b x s t
    assume h: "holds c' d x s \<and> holds c' b x t \<and> d \<noteq> b"
    then consider "holds c d x s" "holds c b x t" | "d = a" "covers r x" "s = mode r"
      | "b = a" "covers r x" "t = mode r"
      using grant_law [OF assms(1,4)] by blast
    then show "s = F_RDLCK \<and> t = F_RDLCK"
    proof cases
      case 1
      then show ?thesis using assms(2) h unfolding excl_def by blast
    next
      case 2
      then show ?thesis using new h by blast
    next
      case 3
      then show ?thesis using new [of b x t d s] h by blast
    qed
  qed
qed

end

section \<open>The package provides it\<close>

type_synonym lock_req = "eflock \<times> lock_class \<times> int"

definition vfree :: "nat \<Rightarrow> flk_state \<Rightarrow> lock_req \<Rightarrow> owner \<Rightarrow> bool" where
  "vfree vp st r own \<longleftrightarrow>
     (case r of (ld, class, pid) \<Rightarrow> own = req_owner ld class pid \<and> fst (blocked (vchain vp st) ld class pid) = None)"

definition vgrant :: "nat \<Rightarrow> flk_state \<Rightarrow> lock_req \<Rightarrow> owner \<Rightarrow> flk_state \<Rightarrow> bool" where
  "vgrant vp st r own st1 \<longleftrightarrow>
     (case r of (ld, class, pid) \<Rightarrow> own = req_owner ld class pid \<and> req_ok ld class \<and> fid_known vp st
        \<and> chain_ok (vchain vp st)
        \<and> (\<exists>env p rv ld1. start_ok own ld (vchain vp st) p
             \<and> flckadj env vp p ld class pid st = (rv, ld1, st1)))"

definition vcovers :: "lock_req \<Rightarrow> int \<Rightarrow> bool" where
  "vcovers r x \<longleftrightarrow> l_start (fst r) \<le> x \<and> x < l_end (fst r)"

lemma find_none_free:
  assumes "find (conflicts own ld) fs = None" "locks fs b x t" "b \<noteq> own" "l_start ld \<le> x" "x < l_end ld"
    "\<forall>f\<in>set fs. rec_ok f"
  shows "t = F_RDLCK \<and> l_type ld \<noteq> F_WRLCK"
proof -
  obtain f where f: "f \<in> set fs" "rec_locks f b x t" using assms(2) by (auto simp: locks_def)
  have "\<not> conflicts own ld f" using assms(1) f(1) by (auto simp: find_None_iff)
  moreover have "overlaps (fl_set f) ld" "fown f \<noteq> own" "t = f_type f"
    using f(2) assms(3-5) by (auto simp: rec_locks_def overlaps_def)
  ultimately show ?thesis using assms(6) f(1) by (auto simp: conflicts_def type_blocks_def rec_ok_def)
qed

lemma vgrant_locks:
  assumes "vgrant vp st (ld, cl, pid) own st1" "locks (vchain vp st1) ow x t"
  shows "locks (vchain vp st) ow x t
    \<or> ow = own \<and> l_start ld \<le> x \<and> x < l_end ld \<and> l_type ld \<noteq> F_UNLCK \<and> t = l_type ld"
proof -
  obtain env p rv ld1 where g: "own = req_owner ld cl pid" "req_ok ld cl" "fid_known vp st"
    "chain_ok (vchain vp st)" "start_ok own ld (vchain vp st) p"
    "flckadj env vp p ld cl pid st = (rv, ld1, st1)"
    using assms by (auto simp: vgrant_def)
  have "locks (vchain vp st) ow x t \<or> locks_set own ld (vchain vp st) ow x t"
    using flckadj_chain [OF g(4) g(5) [unfolded g(1)] g(2,3,6)] g(1) assms(2) by blast
  then show ?thesis by (auto simp: locks_set_def split: if_splits)
qed

interpretation rec_table: lock_table "\<lambda>st. locks (vchain vp st)" "\<lambda>st. chain_ok (vchain vp st)"
  "vfree vp" "vgrant vp" vcovers "\<lambda>r. l_type (fst r)" for vp
proof
  fix st r own x b t
  assume a: "chain_ok (vchain vp st)" "vfree vp st r own" "vcovers r x" "locks (vchain vp st) b x t" "b \<noteq> own"
  obtain ld cl pid where r: "r = (ld, cl, pid)" by (cases r) auto
  have "find (conflicts own ld) (vchain vp st) = None"
    using a(2) blocked_loop_find [OF chain_ok_starts [OF a(1)]] by (auto simp: vfree_def r blocked_def)
  then show "t = F_RDLCK \<and> l_type (fst r) \<noteq> F_WRLCK"
    using find_none_free [OF _ a(4,5)] a(1,3) by (auto simp: r vcovers_def chain_ok_def)
next
  fix st r own st1 b x t
  assume a: "chain_ok (vchain vp st)" "vgrant vp st r own st1" "locks (vchain vp st1) b x t"
  obtain ld cl pid where r: "r = (ld, cl, pid)" by (cases r) auto
  show "locks (vchain vp st) b x t \<or> b = own \<and> vcovers r x \<and> t = l_type (fst r)"
    using vgrant_locks [OF a(2) [unfolded r] a(3)] by (simp add: r vcovers_def) blast
next
  fix st r own st1 b x t
  assume a: "vgrant vp st r own st1" "l_type (fst r) = F_UNLCK" "locks (vchain vp st1) b x t"
  obtain ld cl pid where r: "r = (ld, cl, pid)" by (cases r) auto
  show "locks (vchain vp st) b x t"
    using vgrant_locks [OF a(1) [unfolded r] a(3)] a(2) by (simp add: r)
next
  fix st r own st1
  assume "vgrant vp st r own st1"
  then show "l_type (fst r) \<in> {F_RDLCK, F_WRLCK, F_UNLCK}"
    by (auto simp: vgrant_def req_ok_def)
qed

lemma excl_exclusive: "rec_table.excl vp st \<longleftrightarrow> exclusive (vchain vp st)"
  by (simp add: rec_table.excl_def exclusive_def)

text \<open>A request that nothing blocks, or an unlock, keeps the file's locks exclusive.\<close>

lemma flckadj_exclusive:
  assumes "chain_ok (vchain vp st)" "exclusive (vchain vp st)" "req_ok ld class" "fid_known vp st"
    "start_ok (req_owner ld class pid) ld (vchain vp st) p"
    "fst (blocked (vchain vp st) ld class pid) = None \<or> l_type ld = F_UNLCK"
    "flckadj env vp p ld class pid st = (rv, ld1, st1)"
  shows "exclusive (vchain vp st1)"
proof -
  have "rec_table.excl vp st1"
    by (rule rec_table.grant_excl [where c = st and r = "(ld, class, pid)" and a = "req_owner ld class pid"])
       (use assms in \<open>auto simp: excl_exclusive vfree_def vgrant_def\<close>)
  then show ?thesis by (simp add: excl_exclusive)
qed

end
