(* ===== verification/Flock_Reach.thy ===== *)
theory Flock_Reach
  imports Flock_Safety
begin

text \<open>
  The states a system reaches that asks for write locks only, through every entry point:
  all chains keep their order and no byte has two owners.
\<close>

section \<open>What flckadj leaves alone\<close>

lemma fids_find_mem: "fids_find vp fs = Some f \<Longrightarrow> f \<in> set fs \<and> fi_vp f = vp"
  by (induction fs) (auto split: if_splits)

lemma fids_upd_all:
  "\<lbrakk>\<forall>f\<in>set fs. P f; \<And>f. fids_find vp fs = Some f \<Longrightarrow> P (g f)\<rbrakk> \<Longrightarrow> \<forall>f\<in>set (fids_upd vp g fs). P f"
  by (induction fs) auto

lemma fids_upd_id: "fids_find vp fs = None \<Longrightarrow> fids_upd vp g fs = fs"
  by (induction fs) (auto split: if_splits)

lemma fids_upd_same: "\<lbrakk>\<And>f. fids_find vp fs = Some f \<Longrightarrow> g f = f\<rbrakk> \<Longrightarrow> fids_upd vp g fs = fs"
  by (induction fs) auto

lemma fids_upd_upd:
  "\<lbrakk>\<And>f. fi_vp (g f) = fi_vp f\<rbrakk> \<Longrightarrow> fids_upd vp h (fids_upd vp g fs) = fids_upd vp (\<lambda>f. h (g f)) fs"
  by (induction fs) auto

lemma fids_upd_cong:
  "\<lbrakk>\<And>f. fids_find vp fs = Some f \<Longrightarrow> g f = h f\<rbrakk> \<Longrightarrow> fids_upd vp g fs = fids_upd vp h fs"
  by (induction fs) auto

text \<open>Only the chain of one file, the counts and the vnode flags differ.\<close>

definition only_file :: "nat \<Rightarrow> flk_state \<Rightarrow> flk_state \<Rightarrow> bool" where
  "only_file vp st st1 \<longleftrightarrow>
     (\<exists>fs. fk_fids st1 = fids_upd vp (\<lambda>f. f\<lparr>fi_flck := fs\<rparr>) (fk_fids st))
     \<and> fk_sleep st1 = fk_sleep st \<and> fk_grant st1 = fk_grant st \<and> fk_klm st1 = fk_klm st
     \<and> fk_woken st1 = fk_woken st"

lemma fids_chain_upd:
  "fk_fids (chain_upd (VChain vp) g st) = fids_upd vp (\<lambda>f. f\<lparr>fi_flck := g (vchain vp st)\<rparr>) (fk_fids st)"
  by (auto simp: chain_upd_def flck_chain_def intro!: fids_upd_cong)

lemma queues_chain_upd [simp]:
  "fk_sleep (chain_upd (VChain vp) g st) = fk_sleep st" "fk_grant (chain_upd (VChain vp) g st) = fk_grant st"
  "fk_klm (chain_upd (VChain vp) g st) = fk_klm st" "fk_woken (chain_upd q g st) = fk_woken st"
  by (auto simp: chain_upd_def split: flk_chain.splits)

lemma queues_info_upd [simp]:
  "fk_sleep (info_upd g st) = fk_sleep st" "fk_grant (info_upd g st) = fk_grant st"
  "fk_klm (info_upd g st) = fk_klm st" "fk_woken (info_upd g st) = fk_woken st"
  by (simp_all add: info_upd_def)

lemma fields_clear_vlocks [simp]:
  "fk_fids (clear_vlocks vp st) = fk_fids st" "fk_sleep (clear_vlocks vp st) = fk_sleep st"
  "fk_grant (clear_vlocks vp st) = fk_grant st" "fk_klm (clear_vlocks vp st) = fk_klm st"
  "fk_woken (clear_vlocks vp st) = fk_woken st"
  by (simp_all add: clear_vlocks_def)

lemma only_file_refl [simp]: "only_file vp st st"
proof -
  have "fk_fids st = fids_upd vp (\<lambda>f. f\<lparr>fi_flck := vchain vp st\<rparr>) (fk_fids st)"
    by (rule fids_upd_same [symmetric]) (simp add: flck_chain_def)
  then show ?thesis by (auto simp: only_file_def)
qed

lemma only_file_trans: "only_file vp st st1 \<Longrightarrow> only_file vp st1 st2 \<Longrightarrow> only_file vp st st2"
  by (fastforce simp: only_file_def fids_upd_upd)

lemma only_file_upd [simp]: "only_file vp st st1 \<Longrightarrow> only_file vp st (chain_upd (VChain vp) g st1)"
  by (rule only_file_trans, assumption) (auto simp: only_file_def fids_chain_upd)

lemma only_file_info [simp]: "only_file vp st (info_upd g st1) = only_file vp st st1"
  by (simp add: only_file_def)

lemma only_file_clear [simp]: "only_file vp st (clear_vlocks vq st1) = only_file vp st st1"
  by (simp add: only_file_def)

lemma only_file_vflag [simp]: "only_file vp st (st1\<lparr>fk_vflag := g\<rparr>) = only_file vp st st1"
  by (simp add: only_file_def)

lemma only_file_del [simp]: "only_file vp st (delflck (VChain vp) i vq st)"
  by (simp add: delflck_def Let_def)

lemma only_file_set_fl [simp]: "only_file vp st (set_fl vp g i st)"
  by (simp add: set_fl_def)

lemma only_file_ins:
  "insflck env (VChain vp) ld p vq cl upid st = (b, st1) \<Longrightarrow> only_file vp st st1"
  by (auto simp: insflck_def Let_def split: if_splits)

lemma only_file_piece:
  "ins_after_piece env vp cl upid ld f i st = (b, st1) \<Longrightarrow> only_file vp st st1"
  by (auto simp: ins_after_piece_def dest: only_file_ins)

lemma only_file_del_trans [simp]: "only_file vp st st1 \<Longrightarrow> only_file vp st (delflck (VChain vp) i vq st1)"
  by (simp add: delflck_def Let_def)

lemma only_file_own:
  "case flckadj_own env vp cl upid f i p ld rv st of
     AdjReturn _ _ st1 \<Rightarrow> only_file vp st st1 | AdjStop _ _ _ st1 \<Rightarrow> only_file vp st st1
   | AdjNext _ _ _ _ st1 \<Rightarrow> only_file vp st st1"
proof -
  obtain sr er where r: "regflck ld f = (sr, er)" by (cases "regflck ld f") auto
  obtain b st1 where p: "ins_after_piece env vp cl upid ld f i st = (b, st1)"
    by (cases "ins_after_piece env vp cl upid ld f i st") auto
  have "only_file vp st (set_fl vp g i st1)" for g
    using only_file_trans [OF only_file_piece [OF p]] by simp
  then show ?thesis
    using only_file_piece [OF p]
    by (cases sr; cases er; cases b; simp add: flckadj_own_def Let_def r p)
qed

lemma only_file_loop:
  "case flckadj_loop env vp cl upid own fs i p ld rv st of
     AdjReturn _ _ st1 \<Rightarrow> only_file vp st st1 | AdjStop _ _ _ st1 \<Rightarrow> only_file vp st st1
   | AdjNext _ _ _ _ st1 \<Rightarrow> only_file vp st st1"
proof (induction fs arbitrary: i p ld rv st)
  case (Cons f fs)
  show ?case
  proof (cases "flckadj_own env vp cl upid f i p ld rv st")
    case (AdjNext ld1 p1 rv1 i1 st1)
    then have "only_file vp st st1" using only_file_own [where env = env and vp = vp and cl = cl and upid = upid and f = f and i = i and p = p and ld = ld and rv = rv and st = st] by simp
    then show ?thesis
      using AdjNext Cons.IH [where i = i1 and p = p1 and ld = ld1 and rv = rv1 and st = st1]
        Cons.IH [where i = "Suc i" and p = p and ld = ld and rv = rv and st = st]
      by (auto split: adj_turn.splits intro: only_file_trans)
  qed (use only_file_own [where env = env and vp = vp and cl = cl and upid = upid and f = f and i = i and p = p and ld = ld and rv = rv and st = st]
        Cons.IH [where i = "Suc i" and p = p and ld = ld and rv = rv and st = st] in auto)
qed simp

lemma flckadj_only_file:
  assumes "flckadj env vp p ld cl pid st = (rv, ld1, st1)"
  shows "only_file vp st st1"
proof -
  define upid i where "upid = (if cl = LOCKMGR then l_pid ld else pid)"
    and "i = (case p of None \<Rightarrow> 0 | Some i \<Rightarrow> i)"
  let ?t = "flckadj_loop env vp cl upid (req_owner ld cl pid) (drop i (vchain vp st)) i p ld 0 st"
  note unf = assms [unfolded flckadj_def Let_def, folded upid_def i_def]
  note t = only_file_loop [where env = env and vp = vp and cl = cl and upid = upid and own = "req_owner ld cl pid"
      and fs = "drop i (vchain vp st)" and i = i and p = p and ld = ld and rv = 0 and st = st]
  show ?thesis
  proof (cases ?t)
    case (AdjStop ld2 p2 rv2 st2)
    let ?place = "case p2 of None \<Rightarrow> None | Some i \<Rightarrow> seek (l_start ld2) (drop i (vchain vp st2)) i (Some i)"
    obtain b st3 where i3: "insflck env (VChain vp) ld2 ?place vp cl upid st2 = (b, st3)"
      by (cases "insflck env (VChain vp) ld2 ?place vp cl upid st2") auto
    have "only_file vp st st2" using t AdjStop by simp
    then show ?thesis
      using unf AdjStop i3 only_file_trans [OF _ only_file_ins [OF i3]]
      by (cases b) (auto split: if_splits)
  qed (use t unf in auto)
qed

section \<open>What it returns of the request\<close>

definition ld_grown :: "eflock \<Rightarrow> eflock \<Rightarrow> bool" where
  "ld_grown ld ld1 \<longleftrightarrow> l_start ld1 \<le> l_start ld \<and> l_end ld \<le> l_end ld1
     \<and> ld1 = ld\<lparr>l_start := l_start ld1, l_len := l_len ld1\<rparr>"

lemma ld_grown_refl [simp]: "ld_grown ld ld"
  by (simp add: ld_grown_def)

lemma ld_grown_trans:
  assumes "ld_grown ld ld1" "ld_grown ld1 ld2"
  shows "ld_grown ld ld2"
proof -
  have "ld2 = ld1\<lparr>l_start := l_start ld2, l_len := l_len ld2\<rparr>" using assms(2) by (simp add: ld_grown_def)
  also have "\<dots> = ld\<lparr>l_start := l_start ld2, l_len := l_len ld2\<rparr>"
    using assms(1) by (cases ld, cases ld1) (auto simp: ld_grown_def)
  finally show ?thesis using assms by (simp add: ld_grown_def)
qed

lemma ld_grown_own:
  assumes "f_start f < f_end f" "l_start ld < l_end ld"
  shows "case flckadj_own env vp cl upid f i p ld rv st of
     AdjReturn _ ld1 _ \<Rightarrow> ld_grown ld ld1 | AdjStop ld1 _ _ _ \<Rightarrow> ld_grown ld ld1
   | AdjNext ld1 _ _ _ _ \<Rightarrow> ld_grown ld ld1"
  using assms(1,2)
  by (cases rule: regflck_cases)
     (use assms in \<open>auto simp: flckadj_own_def Let_def ld_grown_def split: prod.splits bool.splits\<close>)

lemma ld_grown_loop:
  assumes "\<forall>f\<in>set fs. rec_ok f" "l_start ld < l_end ld"
  shows "case flckadj_loop env vp cl upid own fs i p ld rv st of
     AdjReturn _ ld1 _ \<Rightarrow> ld_grown ld ld1 | AdjStop ld1 _ _ _ \<Rightarrow> ld_grown ld ld1
   | AdjNext ld1 _ _ _ _ \<Rightarrow> ld_grown ld ld1"
  using assms
proof (induction fs arbitrary: i p ld rv st)
  case (Cons f fs)
  then have f: "f_start f < f_end f" by (simp add: rec_ok_def)
  note own = ld_grown_own [OF f Cons.prems(2), where env = env and vp = vp and cl = cl and upid = upid and i = i and p = p and rv = rv and st = st]
  show ?case
  proof (cases "flckadj_own env vp cl upid f i p ld rv st")
    case (AdjNext ld1 p1 rv1 i1 st1)
    then have g: "ld_grown ld ld1" using own by simp
    then have "l_start ld1 < l_end ld1" using Cons.prems(2) by (simp add: ld_grown_def)
    then show ?thesis
      using AdjNext g Cons.prems Cons.IH [where i = i1 and p = p1 and ld = ld1 and rv = rv1 and st = st1]
        Cons.IH [where i = "Suc i" and p = p and ld = ld and rv = rv and st = st]
      by (auto split: adj_turn.splits intro: ld_grown_trans)
  qed (use own Cons in auto)
qed simp

lemma flckadj_grows:
  assumes "\<forall>f\<in>set (vchain vp st). rec_ok f" "l_start ld < l_end ld"
    "flckadj env vp p ld cl pid st = (rv, ld1, st1)"
  shows "ld_grown ld ld1"
proof -
  define upid i where "upid = (if cl = LOCKMGR then l_pid ld else pid)"
    and "i = (case p of None \<Rightarrow> 0 | Some i \<Rightarrow> i)"
  have "\<forall>f\<in>set (drop i (vchain vp st)). rec_ok f" using assms(1) by (auto dest: in_set_dropD)
  from ld_grown_loop [OF this assms(2), where env = env and vp = vp and cl = cl and upid = upid
      and own = "req_owner ld cl pid" and i = i and p = p and rv = 0 and st = st]
  show ?thesis
    using assms(3)
    by (auto simp: flckadj_def Let_def upid_def i_def
        split: adj_turn.splits if_splits prod.splits bool.splits)
qed

end
