(* ===== verification/Flock_Writers.thy ===== *)
theory Flock_Writers
  imports Flock_Reach
begin

text \<open>
  The invariant of a system whose requests are write locks and unlocks: every chain is in
  order, its records are write locks and exclude each other, and what sleeps is a proper
  request.  Each entry point of the package keeps it.
\<close>

section \<open>The invariant\<close>

definition wr_chain :: "filock list \<Rightarrow> bool" where
  "wr_chain fs \<longleftrightarrow> chain_ok fs \<and> exclusive fs \<and> (\<forall>f\<in>set fs. f_type f = F_WRLCK)"

definition wr_sleeper :: "filock \<Rightarrow> bool" where
  "wr_sleeper sf \<longleftrightarrow> (fl_class sf \<noteq> IO_LOCK \<longrightarrow> req_ok (fl_set sf) (fl_class sf) \<and> f_type sf = F_WRLCK)"

definition wr_inv :: "flk_state \<Rightarrow> bool" where
  "wr_inv st \<longleftrightarrow> (\<forall>f\<in>set (fk_fids st). wr_chain (fi_flck f)) \<and> (\<forall>sf\<in>set (fk_sleep st). wr_sleeper sf)"

lemma wr_chain_Nil [simp]: "wr_chain []"
  by (simp add: wr_chain_def exclusive_def)

lemma wr_inv_chain: "wr_inv st \<Longrightarrow> wr_chain (vchain vp st)"
  by (auto simp: wr_inv_def flck_chain_def dest: fids_find_mem split: option.splits)

lemma wr_inv_cong: "fk_fids st1 = fk_fids st \<Longrightarrow> fk_sleep st1 = fk_sleep st \<Longrightarrow> wr_inv st1 = wr_inv st"
  by (simp add: wr_inv_def)

lemma wr_inv_info [simp]: "wr_inv (info_upd g st) = wr_inv st"
  by (simp add: wr_inv_def)

lemma wr_inv_vflag [simp]: "wr_inv (st\<lparr>fk_vflag := g\<rparr>) = wr_inv st"
  by (simp add: wr_inv_def)

lemma wr_inv_woken [simp]: "wr_inv (st\<lparr>fk_woken := g\<rparr>) = wr_inv st"
  by (simp add: wr_inv_def)

lemma wr_inv_clear [simp]: "wr_inv (clear_vlocks vp st) = wr_inv st"
  by (simp add: wr_inv_def)

lemma wr_inv_queue: "q = GrantQ \<or> q = KlmQ \<Longrightarrow> wr_inv (chain_upd q g st) = wr_inv st"
  by (auto simp: wr_inv_def chain_upd_def)

lemma wr_inv_sleep:
  "wr_inv st \<Longrightarrow> \<forall>sf\<in>set (g (fk_sleep st)). wr_sleeper sf \<Longrightarrow> wr_inv (chain_upd SleepQ g st)"
  by (simp add: wr_inv_def chain_upd_def)

lemma wr_inv_file:
  assumes "wr_inv st" "only_file vp st st1" "wr_chain (vchain vp st1)"
  shows "wr_inv st1"
proof -
  obtain fs where fs: "fk_fids st1 = fids_upd vp (\<lambda>f. f\<lparr>fi_flck := fs\<rparr>) (fk_fids st)"
    and sl: "fk_sleep st1 = fk_sleep st"
    using assms(2) by (auto simp: only_file_def)
  have "wr_chain fs" if "fids_find vp (fk_fids st) = Some f" for f
    using assms(3) that by (simp add: flck_chain_def fs fids_find_upd)
  then have "\<forall>f\<in>set (fk_fids st1). wr_chain (fi_flck f)"
    using assms(1) unfolding fs by (intro fids_upd_all) (auto simp: wr_inv_def)
  then show ?thesis using assms(1) sl by (simp add: wr_inv_def)
qed

lemma in_set_del_at: "x \<in> set (del_at i xs) \<Longrightarrow> x \<in> set xs"
  by (auto simp: del_at_def dest: in_set_takeD in_set_dropD)

lemma chain_ok_del_at: "chain_ok fs \<Longrightarrow> chain_ok (del_at i fs)"
proof (cases "i < length fs")
  case True
  assume "chain_ok fs"
  then have "chain_ok (take i fs @ fs ! i # drop (Suc i) fs)" using True by (simp add: id_take_nth_drop [symmetric])
  then show ?thesis by (simp add: del_at_def chain_ok_delete)
qed (simp add: del_at_def)

lemma exclusive_mono: "exclusive fs \<Longrightarrow> (\<And>ow x t. locks gs ow x t \<Longrightarrow> locks fs ow x t) \<Longrightarrow> exclusive gs"
  unfolding exclusive_def by blast

lemma wr_chain_del_at: "wr_chain fs \<Longrightarrow> wr_chain (del_at i fs)"
  unfolding wr_chain_def
  by (intro conjI chain_ok_del_at; (rule exclusive_mono [of fs])?)
     (auto simp: locks_def dest: in_set_del_at)

lemma wr_inv_delflck:
  assumes "wr_inv st"
  shows "wr_inv (delflck q i vp st)"
proof (cases q)
  case (VChain vq)
  have "wr_inv (chain_upd q (del_at i) st)"
    by (rule wr_inv_file [OF assms, of vq])
       (use VChain wr_chain_del_at [OF wr_inv_chain [OF assms]] wr_inv_chain [OF assms] in \<open>auto simp: chain_chain_upd\<close>)
  then show ?thesis by (simp add: delflck_def Let_def)
qed (use assms in \<open>auto simp: delflck_def Let_def wr_inv_queue wr_inv_def chain_upd_def dest: in_set_del_at\<close>)

section \<open>Adjusting and granting\<close>

text \<open>Write locks that exclude each other never straddle.\<close>

lemma wr_no_straddle:
  assumes "wr_chain fs" "l_start ld < l_end ld"
  shows "no_straddle own ld fs"
proof -
  have "False" if "f \<in> set fs" "g \<in> set fs" "fown f = own" "fown g \<noteq> own" "f_start f < l_end ld"
      "l_end ld < f_end f" "max (f_start f) (l_start ld) \<le> f_start g" "f_start g < l_end ld" for f g
  proof -
    have "locks fs own (f_start g) (f_type f)" "locks fs (fown g) (f_start g) (f_type g)"
      using that assms by (auto simp: locks_def rec_locks_def wr_chain_def chain_ok_def rec_ok_def)
    then have "f_type f = F_RDLCK" using assms(1) that(4) unfolding wr_chain_def exclusive_def by metis
    then show False using assms(1) that(1) by (auto simp: wr_chain_def F_RDLCK_def F_WRLCK_def)
  qed
  then show ?thesis unfolding no_straddle_def by blast
qed

lemma flckadj_wr_chain:
  assumes wr: "wr_chain (vchain vp st)" and req: "req_ok ld cl" "l_type ld \<noteq> F_RDLCK" and known: "fid_known vp st"
    and st: "start_ok (req_owner ld cl pid) ld (vchain vp st) p"
    and free: "fst (blocked (vchain vp st) ld cl pid) = None \<or> l_type ld = F_UNLCK"
    and adj: "flckadj env vp p ld cl pid st = (rv, ld1, st1)"
  shows "wr_chain (vchain vp st1)"
proof -
  have ok: "chain_ok (vchain vp st)" "exclusive (vchain vp st)" using wr by (auto simp: wr_chain_def)
  note c = flckadj_chain [OF ok(1) st req(1) known adj]
  have lt: "l_start ld < l_end ld" using req by (simp add: req_ok_def)
  have "chain_ok (vchain vp st1)" using c wr_no_straddle [OF wr lt] by blast
  moreover have "exclusive (vchain vp st1)"
    by (rule flckadj_exclusive [OF ok req(1) known st free adj])
  moreover have "f_type f = F_WRLCK" if f: "f \<in> set (vchain vp st1)" for f
  proof -
    have "rec_ok f" using c f by blast
    then have "locks (vchain vp st1) (fown f) (f_start f) (f_type f)"
      using f by (auto simp: locks_def rec_locks_def rec_ok_def)
    then have "locks (vchain vp st) (fown f) (f_start f) (f_type f)
        \<or> locks_set (req_owner ld cl pid) ld (vchain vp st) (fown f) (f_start f) (f_type f)"
      using c by blast
    then show ?thesis
      using wr req by (auto simp: locks_set_def locks_def rec_locks_def wr_chain_def req_ok_def split: if_splits)
  qed
  ultimately show ?thesis by (auto simp: wr_chain_def)
qed

lemma flckadj_wr_inv:
  assumes "wr_inv st" "req_ok ld cl" "l_type ld \<noteq> F_RDLCK" "fid_known vp st"
    "start_ok (req_owner ld cl pid) ld (vchain vp st) p"
    "fst (blocked (vchain vp st) ld cl pid) = None \<or> l_type ld = F_UNLCK"
    "flckadj env vp p ld cl pid st = (rv, ld1, st1)"
  shows "wr_inv st1"
  by (rule wr_inv_file [OF assms(1) flckadj_only_file [OF assms(7)]])
     (rule flckadj_wr_chain [OF wr_inv_chain [OF assms(1)] assms(2-7)])

lemma ins_queue_wr_inv:
  assumes "wr_inv st" "q = GrantQ \<or> q = KlmQ"
  shows "wr_inv (snd (insflck env q ld p vp cl upid st))"
  using assms by (auto simp: insflck_def Let_def wr_inv_queue)

lemma ins_sleep_wr_inv:
  assumes "wr_inv st" "wr_sleeper (new_filock ld vp cl upid)" "insflck env SleepQ ld p vp cl upid st = (b, st1)"
  shows "wr_inv st1"
  using assms by (auto simp: insflck_def Let_def intro!: wr_inv_sleep split: if_splits; simp add: wr_inv_def)

lemma set_blocker_wr_inv:
  assumes "wr_inv st"
  shows "wr_inv (set_blocker i found st)"
proof -
  have "wr_sleeper sf" if "sf \<in> set ((fk_sleep st)[i := (fk_sleep st ! i)\<lparr>fl_blkpid := a, fl_blkrpid := b, fl_blkrsys := c\<rparr>])"
    for sf a b c
  proof (cases "i < length (fk_sleep st)")
    case True
    then have "fk_sleep st ! i \<in> set (fk_sleep st)" by simp
    then have "wr_sleeper (fk_sleep st ! i)" using assms by (simp add: wr_inv_def)
    then show ?thesis using that assms by (auto simp: wr_inv_def wr_sleeper_def dest!: set_list_updateD)
  qed (use that assms in \<open>auto simp: wr_inv_def not_less list_update_beyond\<close>)
  then show ?thesis using assms by (simp add: set_blocker_def wr_inv_sleep)
qed

lemma grown_sleeper:
  assumes "wr_sleeper sf" "fl_class sf \<noteq> IO_LOCK \<longrightarrow> ld_grown (fl_set sf) ld1" "fl_class sf = IO_LOCK \<longrightarrow> ld1 = fl_set sf"
  shows "wr_sleeper (sf\<lparr>fl_set := ld1\<rparr>)"
proof (cases "fl_class sf = IO_LOCK")
  case False
  then have g: "ld_grown (fl_set sf) ld1" using assms by simp
  then have "ld1 = (fl_set sf)\<lparr>l_start := l_start ld1, l_len := l_len ld1\<rparr>" by (simp add: ld_grown_def)
  then have "l_type ld1 = f_type sf" "l_rpid ld1 = l_rpid (fl_set sf)" "l_rsys ld1 = l_rsys (fl_set sf)"
    by (metis eflock.select_convs eflock.surjective eflock.update_convs)+
  then show ?thesis using assms(1) g False by (auto simp: wr_sleeper_def req_ok_def ld_grown_def)
qed (simp add: wr_sleeper_def)

lemma known_only_file: "only_file vp st st1 \<Longrightarrow> fid_known vp st1 = fid_known vp st"
  by (auto simp: only_file_def fid_known_def fids_find_upd)

lemma known_insflck_snd [simp]: "fid_known vp (snd (insflck env q ld p vq cl upid st)) = fid_known vp st"
  by (cases "insflck env q ld p vq cl upid st") (simp add: known_insflck)

lemma known_wakeup [simp]: "fid_known vp (fl_wakeup sf st) = fid_known vp st"
  by (simp add: fl_wakeup_def fid_known_def)

lemma free_start_ok:
  assumes "chain_ok fs" "l_start ld < l_end ld" "l_type ld \<noteq> F_UNLCK" "blocked fs ld cl pid = (None, p)"
  shows "start_ok (req_owner ld cl pid) ld fs p"
  using blocked_hint [OF assms(4) chain_ok_starts [OF assms(1)] assms(2)] assms(3) by (simp add: start_ok_def)

lemma unknown_wr_inv:
  assumes "wr_inv st" "only_file vp st st1" "\<not> fid_known vp st"
  shows "wr_inv st1"
  using assms by (auto simp: only_file_def fid_known_def fids_upd_id wr_inv_def)

lemma grant_wr_inv:
  assumes "wr_inv st" "req_ok ld cl" "l_type ld = F_WRLCK"
    "blocked (vchain vp st) ld cl pid = (None, p)" "flckadj env vp p ld cl pid st = (rv, ld1, st1)"
  shows "wr_inv st1" "ld_grown ld ld1" "fk_sleep st1 = fk_sleep st"
proof -
  have wr: "chain_ok (vchain vp st)" using wr_inv_chain [OF assms(1)] by (simp add: wr_chain_def)
  have lt: "l_start ld < l_end ld" using assms(2) by (simp add: req_ok_def)
  have st: "start_ok (req_owner ld cl pid) ld (vchain vp st) p"
    using free_start_ok [OF wr lt _ assms(4)] assms(3) by (simp add: F_WRLCK_def F_UNLCK_def)
  note only = flckadj_only_file [OF assms(5)]
  show "wr_inv st1"
  proof (cases "fid_known vp st")
    case True
    show ?thesis
      by (rule flckadj_wr_inv [OF assms(1,2) _ True st _ assms(5)])
         (use assms in \<open>auto simp: F_WRLCK_def F_RDLCK_def\<close>)
  qed (rule unknown_wr_inv [OF assms(1) only])
  show "fk_sleep st1 = fk_sleep st" using only by (simp add: only_file_def)
  show "ld_grown ld ld1" using flckadj_grows [OF _ lt assms(5)] wr by (simp add: chain_ok_def)
qed

lemma chk_loop_wr_inv:
  assumes "wr_inv st" "\<forall>sf\<in>set rest. wr_sleeper sf"
  shows "wr_inv (snd (chk_loop env vp cl rest i retval nfs st))"
  using assms
proof (induction rest arbitrary: i retval nfs st)
  case (Cons sf rest)
  have rest: "\<forall>sf\<in>set rest. wr_sleeper sf" using Cons.prems by simp
  note IH = Cons.IH [OF _ rest]
  show ?case
  proof (cases "fl_vp sf = vp")
    case vp: True
    obtain fd ins where b: "blocked (vchain vp st) (fl_set sf) (fl_class sf) (l_pid (fl_set sf)) = (fd, ins)"
      by (cases "blocked (vchain vp st) (fl_set sf) (fl_class sf) (l_pid (fl_set sf))") auto
    show ?thesis
    proof (cases fd)
      case (Some found)
      then show ?thesis
        using vp b IH [of "set_blocker i found st"] set_blocker_wr_inv [OF Cons.prems(1)]
        by simp
    next
      case None
      obtain r1 ld1 st1 where a: "(if fl_class sf \<noteq> IO_LOCK
          then flckadj env vp ins (fl_set sf) (fl_class sf) (l_pid (fl_set sf)) st
          else (retval, fl_set sf, st)) = (r1, ld1, st1)"
        using prod_cases3 by blast
      have sf: "wr_sleeper sf" using Cons.prems(2) by simp
      have s1: "wr_inv st1" "fk_sleep st1 = fk_sleep st" "wr_sleeper (sf\<lparr>fl_set := ld1\<rparr>)"
      proof -
        have "wr_inv st1 \<and> fk_sleep st1 = fk_sleep st \<and> wr_sleeper (sf\<lparr>fl_set := ld1\<rparr>)"
        proof (cases "fl_class sf = IO_LOCK")
          case True
          then show ?thesis using a Cons.prems sf by (simp add: wr_sleeper_def)
        next
          case False
          then have "flckadj env vp ins (fl_set sf) (fl_class sf) (l_pid (fl_set sf)) st = (r1, ld1, st1)"
            and "req_ok (fl_set sf) (fl_class sf)" "f_type sf = F_WRLCK"
            using a sf by (auto simp: wr_sleeper_def)
          from grant_wr_inv [OF Cons.prems(1) this(2,3) b [unfolded None] this(1)]
          show ?thesis using grown_sleeper [OF sf] False by auto
        qed
        then show "wr_inv st1" "fk_sleep st1 = fk_sleep st" "wr_sleeper (sf\<lparr>fl_set := ld1\<rparr>)"
          by auto
      qed
      let ?st2 = "chain_upd SleepQ (\<lambda>fs. fs[i := sf\<lparr>fl_set := ld1\<rparr>]) st1"
      have "wr_sleeper x" if "x \<in> set ((fk_sleep st1)[i := sf\<lparr>fl_set := ld1\<rparr>])" for x
        using set_list_updateD [OF that] s1(1,3) by (auto simp: wr_inv_def)
      then have s2: "wr_inv ?st2" using wr_inv_sleep [OF s1(1)] by auto
      have s4: "wr_inv (delflck SleepQ i 0 (fl_wakeup (sf\<lparr>fl_set := ld1\<rparr>) ?st2))"
        by (rule wr_inv_delflck) (use s2 in \<open>simp add: fl_wakeup_def\<close>)
      have remote: "wr_inv (snd (chk_loop env vp cl rest i r1 GRANT_LOCK_FLAG
            (delflck SleepQ i 0 (snd (insflck env q ld1 None vp (fl_class sf) (l_pid ld1) ?st2)))))"
        if "q = GrantQ \<or> q = KlmQ" for q
        by (rule IH [OF wr_inv_delflck [OF ins_queue_wr_inv [OF s2 that]]])
      show ?thesis
        using vp b None a s2 IH [OF s4, of i r1 nfs] remote [of GrantQ] remote [of KlmQ]
        by (cases "r1 = errno_val ENOLCK"; cases "fl_class sf = LOCKMGR"; cases "cl = FILE_LOCK")
           (simp_all add: Let_def)
    qed
  qed (use IH Cons.prems in simp)
qed simp

lemma chk_granted_wr_inv:
  assumes "wr_inv st"
  shows "wr_inv (snd (chk_granted env vp cl st))"
proof -
  have "\<forall>sf\<in>set (fk_sleep st). wr_sleeper sf" using assms by (simp add: wr_inv_def)
  from chk_loop_wr_inv [OF assms this] show ?thesis by (simp add: chk_granted_def)
qed

lemma klm_loop_wr_inv: "wr_inv st \<Longrightarrow> wr_inv (snd (klm_loop env ps e st))"
  by (induction env ps e st rule: klm_loop.induct) (auto simp: wr_inv_delflck)

lemma klm_callbacks_wr_inv: "wr_inv st \<Longrightarrow> wr_inv (snd (klm_callbacks env st))"
  by (simp add: klm_callbacks_def klm_loop_wr_inv)

lemma local_callbacks_wr_inv: "wr_inv st \<Longrightarrow> wr_inv (snd (local_callbacks env cl r st))"
  by (simp add: local_callbacks_def klm_callbacks_wr_inv)

lemma after_adj_wr_inv: "wr_inv st \<Longrightarrow> wr_inv (snd (snd (after_adj env vp cl ld st)))"
  using chk_granted_wr_inv [of st env vp cl] by (auto simp: after_adj_def split: prod.splits)

section \<open>The entry points\<close>

lemma fids_wr_inv:
  assumes "wr_inv st" "\<And>f. fi_flck (g f) = fi_flck f"
  shows "wr_inv (st\<lparr>fk_fids := fids_upd vp g (fk_fids st)\<rparr>)"
proof -
  have "\<forall>f\<in>set (fids_upd vp g (fk_fids st)). wr_chain (fi_flck f)"
    by (rule fids_upd_all) (use assms in \<open>auto simp: wr_inv_def dest: fids_find_mem\<close>)
  then show ?thesis using assms(1) by (simp add: wr_inv_def)
qed

lemma findfid_wr_inv: "wr_inv st \<Longrightarrow> wr_inv (snd (findfid vp st))"
  by (auto simp: findfid_def fids_wr_inv split: option.splits)

lemma fids_del_subset: "set (fids_del vp fs) \<subseteq> set fs"
  by (induction fs) auto

lemma freefid_wr_inv:
  assumes "wr_inv st"
  shows "wr_inv (freefid vp st)"
proof -
  have "wr_inv (st\<lparr>fk_fids := fids_del vp (fk_fids st)\<rparr>)"
    using assms fids_del_subset [of vp "fk_fids st"] by (auto simp: wr_inv_def)
  moreover have "wr_inv (st\<lparr>fk_fids := fids_upd vp (\<lambda>f. f\<lparr>fi_refcnt := fi_refcnt f - 1\<rparr>) (fk_fids st)\<rparr>)"
    by (rule fids_wr_inv [OF assms]) simp
  ultimately show ?thesis using assms by (auto simp: freefid_def split: option.splits)
qed

lemma allocfid_wr_inv: "wr_inv st \<Longrightarrow> wr_inv (snd (allocfid env vp st))"
  using fids_wr_inv [of "info_upd g st" for g]
  by (auto simp: allocfid_def Let_def split: option.splits) (auto simp: wr_inv_def)

lemma findfid_known: "findfid vp st = (b, st1) \<Longrightarrow> fid_known vp st1 = b"
  by (auto simp: findfid_def fid_known_def fids_find_upd split: option.splits)

lemma allocfid_known: "allocfid env vp st = (True, st1) \<Longrightarrow> fid_known vp st1"
  by (auto simp: allocfid_def Let_def fid_known_def fids_find_upd split: option.splits if_splits)

text \<open>A request as \<open>fcntl\<close> passes it on: a write lock or an unlock of a region that ends in range.\<close>

definition wr_request :: "eflock \<Rightarrow> lock_class \<Rightarrow> bool" where
  "wr_request ld cl \<longleftrightarrow>
     (l_type ld = F_WRLCK \<or> l_type ld = F_UNLCK) \<and> (cl \<noteq> LOCKMGR \<longrightarrow> l_rpid ld = 0 \<and> l_rsys ld = 0)
     \<and> 0 \<le> l_start ld
     \<and> (l_len ld = 0 \<and> l_start ld < MAXEND \<or> 0 < l_len ld \<and> l_start ld + l_len ld \<le> MAXEND)"

lemma calc_end_fields [simp]:
  "l_type (calc_end ld) = l_type ld" "l_start (calc_end ld) = l_start ld" "l_rpid (calc_end ld) = l_rpid ld"
  "l_rsys (calc_end ld) = l_rsys ld" "l_pid (calc_end ld) = l_pid ld" "set_owner (calc_end ld) = set_owner ld"
  "req_owner (calc_end ld) cl pid = req_owner ld cl pid"
  by (simp_all add: calc_end_def req_owner_def set_owner_def)

lemma calc_end_end:
  assumes "0 \<le> l_start ld" "l_len ld = 0 \<or> 0 < l_len ld \<and> l_start ld + l_len ld \<le> MAXEND"
  shows "l_end (calc_end ld) = (if l_len ld = 0 then MAXEND else l_start ld + l_len ld)"
  using assms by (auto simp: calc_end_def MAXEND_def cint)

lemma wr_request_ok: "wr_request ld cl \<Longrightarrow> req_ok (calc_end ld) cl"
  using calc_end_end [of ld] by (auto simp: wr_request_def req_ok_def)

lemma new_sleeper: "req_ok ld cl \<Longrightarrow> l_type ld = F_WRLCK \<Longrightarrow> wr_sleeper (new_filock ld vp cl pid)"
  by (auto simp: wr_sleeper_def new_filock_def req_ok_def)

lemma setflck_grant_wr_inv:
  assumes "wr_inv st" "req_ok ld cl" "l_type ld = F_WRLCK"
    "blocked (vchain vp st) ld cl pid = (None, p)"
  shows "wr_inv (snd (snd (setflck_grant env vp p ld pid cl st)))"
proof -
  obtain r1 ld1 st1 where a: "flckadj env vp p ld cl pid st = (r1, ld1, st1)" using prod_cases3 by blast
  note g = grant_wr_inv [OF assms a]
  have "wr_inv (snd (local_callbacks env cl r st2))" if "wr_inv st2" for r st2
    using that by (rule local_callbacks_wr_inv)
  then show ?thesis
    using a g(1) after_adj_wr_inv [OF g(1)]
    by (auto simp: setflck_grant_def split: prod.splits) (metis snd_conv)+
qed

lemma setflck_wait_wr_inv:
  assumes "wr_inv st" "req_ok ld cl" "l_type ld = F_WRLCK"
  shows "wr_inv (snd (setflck_wait env vp found ld pid cl st))"
  using assms(1) ins_sleep_wr_inv [OF assms(1) new_sleeper [OF assms(2,3)]]
  by (auto simp: setflck_wait_def Let_def set_blocker_wr_inv split: option.splits bool.splits prod.splits)

lemma setflck_unlock_wr_inv:
  assumes "wr_inv st" "req_ok ld cl" "l_type ld = F_UNLCK" "fid_known vp st"
  shows "wr_inv (snd (snd (setflck_unlock env vp ld pid cl st)))"
proof -
  let ?p = "if vchain vp st = [] then None else Some 0"
  obtain r1 ld1 st1 where a: "flckadj env vp ?p ld cl pid st = (r1, ld1, st1)" using prod_cases3 by blast
  have s1: "wr_inv st1"
    by (rule flckadj_wr_inv [OF assms(1,2) _ assms(4) _ _ a]) (use assms(3) in \<open>auto simp: start_ok_def F_UNLCK_def F_RDLCK_def\<close>)
  have "wr_inv (snd (local_callbacks env cl r st2))" if "wr_inv st2" for r st2
    using that by (rule local_callbacks_wr_inv)
  note cb = this
  show ?thesis
  proof (cases "if cl = LOCKMGR then owner_index (set_owner ld) 0 (fk_sleep st) else None")
    case (Some i)
    then show ?thesis using wr_inv_delflck [OF assms(1)] by (simp add: setflck_unlock_def)
  next
    case None
    obtain r2 ld2 st2 where b: "(if r1 = 1 then after_adj env vp cl ld1 st1 else (r1, ld1, st1)) = (r2, ld2, st2)"
      using prod_cases3 by blast
    have "wr_inv st2"
      using b s1 after_adj_wr_inv [OF s1, of env vp cl ld1] by (auto split: if_splits)
    from cb [OF this, of r2] show ?thesis
      using None a b by (cases "local_callbacks env cl r2 st2") (simp add: setflck_unlock_def)
  qed
qed

lemma setflck_typed_wr_inv:
  assumes "wr_inv st" "req_ok ld cl" "l_type ld = F_WRLCK \<or> l_type ld = F_UNLCK" "fid_known vp st"
  shows "wr_inv (snd (snd (setflck_typed env vp ld slp pid cl st)))"
proof (cases "l_type ld = F_UNLCK")
  case True
  then show ?thesis
    using setflck_unlock_wr_inv [OF assms(1,2) True assms(4), of env pid] assms(1)
    by (auto simp: setflck_typed_def F_UNLCK_def F_RDLCK_def F_WRLCK_def split: prod.splits)
next
  case False
  then have w: "l_type ld = F_WRLCK" using assms(3) by simp
  obtain fd p where b: "blocked (vchain vp st) ld cl pid = (fd, p)" by (cases "blocked (vchain vp st) ld cl pid")
  show ?thesis
  proof (cases fd)
    case None
    then show ?thesis
      using setflck_grant_wr_inv [OF assms(1,2) w b [unfolded None], of env] b w
      by (auto simp: setflck_typed_def split: prod.splits)
  next
    case (Some found)
    then show ?thesis
      using setflck_wait_wr_inv [OF assms(1,2) w, of env vp found pid] b w assms(1)
      by (auto simp: setflck_typed_def split: prod.splits)
  qed
qed

lemma do_grant_wr_inv: "wr_inv st \<Longrightarrow> wr_inv (snd (snd (do_grant_locks ld st)))"
  by (auto simp: do_grant_locks_def Let_def wr_inv_delflck split: option.splits)

lemma setflck_wr_inv:
  assumes "wr_inv st" "wr_request ld cl"
  shows "wr_inv (snd (snd (setflck env vp ld slp pid cl st)))"
proof (cases "cl = LOCKMGR \<and> l_xxx ld = GRANT_LOCK_FLAG")
  case True
  then show ?thesis
    using do_grant_wr_inv [OF assms(1), of ld] by (auto simp: setflck_def split: prod.splits)
next
  case False
  obtain b st0 where f: "findfid vp st = (b, st0)" by (cases "findfid vp st")
  have s0: "wr_inv st0" using findfid_wr_inv [OF assms(1), of vp] f by simp
  obtain c st1 where n: "(if b then (True, st0) else allocfid env vp st0) = (c, st1)"
    by (cases "if b then (True, st0) else allocfid env vp st0")
  have s1: "wr_inv st1" using s0 n allocfid_wr_inv [OF s0, of env vp] by (auto split: if_splits)
  have k1: "fid_known vp st1" if c
    using that n f by (auto split: if_splits dest: allocfid_known findfid_known)
  have ty: "l_type (calc_end ld) = F_WRLCK \<or> l_type (calc_end ld) = F_UNLCK"
    using assms(2) by (simp add: wr_request_def)
  obtain r ld2 st2 where t: "setflck_typed env vp (calc_end ld) slp pid cl st1 = (r, ld2, st2)"
    using prod_cases3 by blast
  have s2: "wr_inv st2" if c
    using setflck_typed_wr_inv [OF s1 wr_request_ok [OF assms(2)] ty k1 [OF that], of env slp pid] t by simp
  show ?thesis
    using False f n t s0 s1 s2 freefid_wr_inv [of st2 vp]
    by (cases c; cases r) (auto simp: setflck_def Let_def)
qed

lemma delsleeplck_wr_inv: "wr_inv st \<Longrightarrow> wr_inv (delsleeplck pid st)"
  by (auto simp: delsleeplck_def wr_inv_delflck split: option.splits)

lemma setflck_resume_wr_inv: "wr_inv st \<Longrightarrow> wr_inv (snd (setflck_resume env vp r st))"
  by (simp add: setflck_resume_def Let_def freefid_wr_inv delsleeplck_wr_inv)

lemma getflck_wr_inv: "wr_inv st \<Longrightarrow> wr_inv (snd (snd (getflck vp ld pid cl st)))"
  using findfid_wr_inv [of st vp] by (auto simp: getflck_def Let_def freefid_wr_inv split: prod.splits bool.splits)

lemma locked_wr_inv:
  assumes "wr_inv st"
  shows "wr_inv (snd (snd (locked env vp ld flag st)))"
proof -
  obtain b st1 where f: "findfid vp st = (b, st1)" by (cases "findfid vp st")
  have s1: "wr_inv st1" using findfid_wr_inv [OF assms, of vp] f by simp
  have "wr_sleeper (new_filock ld' vp IO_LOCK pid)" for ld' pid by (simp add: wr_sleeper_def new_filock_def)
  note ins = ins_sleep_wr_inv [OF s1 this]
  have "wr_inv (snd (locked_wait env vp found ld' st1))" for found ld'
    using s1 ins by (auto simp: locked_wait_def freefid_wr_inv set_blocker_wr_inv
        split: option.splits bool.splits prod.splits)
  then show ?thesis
    using f s1 freefid_wr_inv [OF s1]
    by (cases b) (auto simp: locked_def Let_def split: option.splits prod.splits, (metis snd_conv)+)
qed

lemma locked_resume_wr_inv: "wr_inv st \<Longrightarrow> wr_inv (snd (locked_resume env vp r st))"
  by (simp add: locked_resume_def freefid_wr_inv delsleeplck_wr_inv)

lemma clean_loop_wr_inv: "wr_inv st \<Longrightarrow> wr_inv (snd (clean_loop own vp call st))"
proof (induction own vp call st rule: clean_loop.induct)
  case (1 own vp call st)
  then show ?case
    by (cases "owner_index own 0 (vchain vp st)")
       (simp_all add: clean_loop.simps [of own vp call st] wr_inv_delflck)
qed

lemma cleanlocks_wr_inv:
  assumes "wr_inv st"
  shows "wr_inv (snd (cleanlocks env vp st))"
proof -
  obtain b st1 where f: "findfid vp st = (b, st1)" by (cases "findfid vp st")
  have s1: "wr_inv st1" using findfid_wr_inv [OF assms, of vp] f by simp
  obtain call st2 where c: "clean_loop (fe_pid env, 0, 0) vp False st1 = (call, st2)"
    by (cases "clean_loop (fe_pid env, 0, 0) vp False st1")
  have s2: "wr_inv st2" using clean_loop_wr_inv [OF s1, of "(fe_pid env, 0, 0)" vp False] c by simp
  obtain r st3 where g: "(if call then chk_granted env vp FILE_LOCK st2 else (0, st2)) = (r, st3)"
    using prod.exhaust by blast
  have s3: "wr_inv st3" using g s2 chk_granted_wr_inv [OF s2, of env vp FILE_LOCK] by (auto split: if_splits)
  have "wr_inv (snd (if r = GRANT_LOCK_FLAG then klm_callbacks env st3 else (r, st3)))"
    using s3 klm_callbacks_wr_inv by simp
  then show ?thesis
    using f c g s1 by (cases b) (auto simp: cleanlocks_def intro!: freefid_wr_inv split: prod.splits)
qed

lemma del_pass_wr_inv: "wr_inv st \<Longrightarrow> wr_inv (snd (del_pass q vp P ts i call st))"
  by (induction q vp P ts i call st rule: del_pass.induct) (auto simp: wr_inv_delflck)

lemma fid_hold_wr_inv: "wr_inv st \<Longrightarrow> wr_inv (fid_hold vp st)"
  by (simp add: fid_hold_def fids_wr_inv)

lemma kill_files_wr_inv: "wr_inv st \<Longrightarrow> wr_inv (snd (kill_files env ld vps st))"
proof (induction env ld vps st rule: kill_files.induct)
  case (2 env ld vp vps st)
  obtain call st1 where d: "del_pass (VChain vp) vp (\<lambda>t. l_rsys (fl_set t) = l_rsys ld)
      (vchain vp st) 0 False (fid_hold vp st) = (call, st1)" by fastforce
  have s1: "wr_inv st1" using del_pass_wr_inv [OF fid_hold_wr_inv [OF 2(2), of vp]] d by (metis snd_conv)
  obtain r st2 where g: "(if call then chk_granted env vp LOCKMGR st1 else (0, st1)) = (r, st2)"
    using prod.exhaust by blast
  have "wr_inv st2" using g s1 chk_granted_wr_inv [OF s1, of env vp LOCKMGR] by (auto split: if_splits)
  then have f: "wr_inv (freefid vp st2)" by (rule freefid_wr_inv)
  show ?case
    using 2(1) [OF d [symmetric] g [symmetric] f] d g by simp
qed simp

lemma kill_proc_locks_wr_inv: "wr_inv st \<Longrightarrow> wr_inv (snd (kill_proc_locks env ld st))"
  by (simp add: kill_proc_locks_def Let_def kill_files_wr_inv del_pass_wr_inv)

lemma purge_files_wr_inv: "wr_inv st \<Longrightarrow> wr_inv (purge_files env fs vps st)"
  by (induction env fs vps st rule: purge_files.induct)
     (auto simp: Let_def freefid_wr_inv chk_granted_wr_inv del_pass_wr_inv fid_hold_wr_inv)

lemma purge_fs_locks_wr_inv: "wr_inv st \<Longrightarrow> wr_inv (purge_fs_locks env vp st)"
  by (simp add: purge_fs_locks_def purge_fs_list_def Let_def purge_files_wr_inv del_pass_wr_inv)

section \<open>Reachable states\<close>

inductive wr_step :: "flk_state \<Rightarrow> flk_state \<Rightarrow> bool" where
  step_setflck: "wr_request ld cl \<Longrightarrow> setflck env vp ld slp pid cl st = (r, ld1, st1) \<Longrightarrow> wr_step st st1"
| step_getflck: "getflck vp ld pid cl st = (r, ld1, st1) \<Longrightarrow> wr_step st st1"
| step_locked: "locked env vp ld flag st = (out, ld1, st1) \<Longrightarrow> wr_step st st1"
| step_resume: "setflck_resume env vp r st = (out, st1) \<Longrightarrow> wr_step st st1"
| step_locked_resume: "locked_resume env vp r st = (out, st1) \<Longrightarrow> wr_step st st1"
| step_clean: "cleanlocks env vp st = (r, st1) \<Longrightarrow> wr_step st st1"
| step_kill: "kill_proc_locks env ld st = (ld1, st1) \<Longrightarrow> wr_step st st1"
| step_purge: "wr_step st (purge_fs_locks env vp st)"

inductive wr_reach :: "flk_state \<Rightarrow> bool" where
  wr_init: "wr_reach (flckinit vf)"
| wr_next: "wr_reach st \<Longrightarrow> wr_step st st1 \<Longrightarrow> wr_reach st1"

lemma wr_step_inv: "wr_step st st1 \<Longrightarrow> wr_inv st \<Longrightarrow> wr_inv st1"
proof (induction rule: wr_step.induct)
  case (step_setflck ld cl env vp slp pid st r ld1 st1)
  then show ?case using setflck_wr_inv [of st ld cl env vp slp pid] by simp
next
  case (step_getflck vp ld pid cl st r ld1 st1)
  then show ?case using getflck_wr_inv [of st vp ld pid cl] by simp
next
  case (step_locked env vp ld flag st out ld1 st1)
  then show ?case using locked_wr_inv [of st env vp ld flag] by simp
next
  case (step_resume env vp r st out st1)
  then show ?case using setflck_resume_wr_inv [of st env vp r] by simp
next
  case (step_locked_resume env vp r st out st1)
  then show ?case using locked_resume_wr_inv [of st env vp r] by simp
next
  case (step_clean env vp st r st1)
  then show ?case using cleanlocks_wr_inv [of st env vp] by simp
next
  case (step_kill env ld st ld1 st1)
  then show ?case using kill_proc_locks_wr_inv [of st env ld] by simp
next
  case (step_purge st env vp)
  then show ?case by (rule purge_fs_locks_wr_inv)
qed

lemma wr_reach_inv: "wr_reach st \<Longrightarrow> wr_inv st"
proof (induction rule: wr_reach.induct)
  case (wr_init vf)
  show ?case by (simp add: wr_inv_def flckinit_def)
next
  case (wr_next st st1)
  then show ?case using wr_step_inv by blast
qed

end
