(* ===== verification/Flock_Claims.thy ===== *)
theory Flock_Claims
  imports Flock_Writers
begin

text \<open>
  The properties of the record lock package, each with an example on which it says
  something.
\<close>

section \<open>Examples\<close>

definition ex_flk_env :: "int \<Rightarrow> flk_env" where
  "ex_flk_env p = \<lparr>fe_rec_zone = (\<lambda>n. n < 100), fe_file_zone = (\<lambda>n. n < 100),
     fe_enfflck = (\<lambda>v f. ufs_setvlocks 0 f), fe_klm = (\<lambda>v l. 0), fe_fsid = (\<lambda>v. 0), fe_pid = p\<rparr>"

definition ex_req :: "int \<Rightarrow> int \<Rightarrow> int \<Rightarrow> eflock" where
  "ex_req t s n = \<lparr>l_type = t, l_whence = 0, l_start = s, l_len = n, l_pid = 0, l_rpid = 0, l_rsys = 0,
     l_xxx = 0, l_cb = 0\<rparr>"

text \<open>Process \<open>p\<close> asks for the region on file 7 and is ready to wait; and the state after it.\<close>

definition ex_lock :: "int \<Rightarrow> int \<Rightarrow> int \<Rightarrow> int \<Rightarrow> flk_state \<Rightarrow> flk_outcome \<times> eflock \<times> flk_state" where
  "ex_lock p t s n st = setflck (ex_flk_env p) 7 (ex_req t s n) True p FILE_LOCK st"

definition ex_after :: "int \<Rightarrow> int \<Rightarrow> int \<Rightarrow> int \<Rightarrow> flk_state \<Rightarrow> flk_state" where
  "ex_after p t s n st = snd (snd (ex_lock p t s n st))"

definition ex_start :: flk_state where
  "ex_start = flckinit (\<lambda>_. 0)"

text \<open>What a chain and the sleep queue hold, as numbers.\<close>

definition ex_view :: "filock list \<Rightarrow> (int \<times> int \<times> int \<times> int) list" where
  "ex_view fs = map (\<lambda>f. (l_pid (fl_set f), f_type f, f_start f, f_end f)) fs"

lemmas flk_eval = ex_after_def ex_lock_def ex_start_def

section \<open>Blocking\<close>

text \<open>C37: on a chain in the order of its starts, \<open>blocked\<close> returns the first record of another
  owner that overlaps the request and excludes its type, and nothing when there is none.\<close>

theorem blocked_finds_first:
  assumes "sorted (map f_start fs)"
  shows "fst (blocked fs ld cl pid) = find (conflicts (req_owner ld cl pid) ld) fs"
  using blocked_loop_find [of fs] assms by (simp add: blocked_def starts_sorted_def)

definition ex_chain_st :: flk_state where
  "ex_chain_st = ex_after 2 1 20 10 (ex_after 1 1 0 100 ex_start)"

lemma ex_chain_view: "ex_view (vchain 7 ex_chain_st) = [(1, 1, 0, 100), (2, 1, 20, 30)]"
  by code_simp

theorem blocked_finds_first_witness:
  "fst (blocked (vchain 7 ex_chain_st) (ex_req 2 25 30) FILE_LOCK 1)
     = find (conflicts (1, 0, 0) (ex_req 2 25 30)) (vchain 7 ex_chain_st)
   \<and> map_option fown (fst (blocked (vchain 7 ex_chain_st) (ex_req 2 25 30) FILE_LOCK 1)) = Some (2, 0, 0)"
proof
  have "sorted (map f_start (vchain 7 ex_chain_st))" by code_simp
  from blocked_finds_first [OF this, of "ex_req 2 25 30" FILE_LOCK 1]
  show "fst (blocked (vchain 7 ex_chain_st) (ex_req 2 25 30) FILE_LOCK 1)
     = find (conflicts (1, 0, 0) (ex_req 2 25 30)) (vchain 7 ex_chain_st)"
    by (simp add: req_owner_def)
  show "map_option fown (fst (blocked (vchain 7 ex_chain_st) (ex_req 2 25 30) FILE_LOCK 1)) = Some (2, 0, 0)"
    by code_simp
qed

section \<open>Setting and clearing a region\<close>

text \<open>C18: on a chain in order, \<open>flckadj\<close> does to its owner's bytes exactly what was asked - the
  region gets the type, or is released - and changes nothing else; when it runs out of
  records it adds nothing.  The order is kept unless the region ends inside a record
  of its owner with a record of somebody else in between.\<close>

theorem flckadj_sets_region:
  assumes "chain_ok (vchain vp st)" "req_ok ld cl" "fid_known vp st"
    "start_ok (req_owner ld cl pid) ld (vchain vp st) p"
    "flckadj env vp p ld cl pid st = (rv, ld1, st1)"
  shows "(if rv = errno_val ENOLCK
          then \<forall>ow x t. locks (vchain vp st1) ow x t \<longrightarrow> locks (vchain vp st) ow x t
          else \<forall>ow x t. locks (vchain vp st1) ow x t
            \<longleftrightarrow> (if ow = req_owner ld cl pid \<and> l_start ld \<le> x \<and> x < l_end ld
                then l_type ld \<noteq> F_UNLCK \<and> t = l_type ld else locks (vchain vp st) ow x t))
    \<and> (no_straddle (req_owner ld cl pid) ld (vchain vp st) \<longrightarrow> chain_ok (vchain vp st1))"
proof -
  have e: "errno_val ENOLCK \<notin> {0, 1}" by simp
  note c = flckadj_chain [OF assms(1,4,2,3,5)]
  show ?thesis
  proof (cases "rv = errno_val ENOLCK")
    case True
    then have "locks (vchain vp st1) ow x t \<Longrightarrow> locks (vchain vp st) ow x t" for ow x t using c e by blast
    then show ?thesis using c True by auto
  next
    case False
    then have "locks (vchain vp st1) ow x t \<longleftrightarrow> locks_set (req_owner ld cl pid) ld (vchain vp st) ow x t" for ow x t
      using c by blast
    then show ?thesis using c False unfolding locks_set_def by presburger
  qed
qed

text \<open>Process 1 releases the middle of its region, in front of the record of process 2.\<close>

definition ex_adj :: "int \<times> eflock \<times> flk_state" where
  "ex_adj = flckadj (ex_flk_env 1) 7 (Some 0) (ex_req 8 5 15) FILE_LOCK 1 ex_chain_st"

lemma ex_adj_ok:
  "chain_ok (vchain 7 ex_chain_st)" "req_ok (ex_req 8 5 15) FILE_LOCK" "fid_known 7 ex_chain_st"
  "start_ok (req_owner (ex_req 8 5 15) FILE_LOCK 1) (ex_req 8 5 15) (vchain 7 ex_chain_st) (Some 0)"
  "no_straddle (1, 0, 0) (ex_req 8 5 15) (vchain 7 ex_chain_st)"
  by code_simp+

theorem flckadj_sets_region_witness:
  "fst ex_adj = 1 \<and> locks (vchain 7 (snd (snd ex_adj))) (1, 0, 0) 4 1 \<and> \<not> locks (vchain 7 (snd (snd ex_adj))) (1, 0, 0) 5 1
   \<and> locks (vchain 7 (snd (snd ex_adj))) (1, 0, 0) 15 1 \<and> chain_ok (vchain 7 (snd (snd ex_adj)))"
proof -
  have rv: "fst ex_adj = 1" by code_simp
  have l: "locks (vchain 7 ex_chain_st) (1, 0, 0) 4 1" "locks (vchain 7 ex_chain_st) (1, 0, 0) 15 1" by code_simp+
  obtain r ld1 st1 where a: "flckadj (ex_flk_env 1) 7 (Some 0) (ex_req 8 5 15) FILE_LOCK 1 ex_chain_st = (r, ld1, st1)"
    using prod_cases3 by blast
  have o: "req_owner (ex_req 8 5 15) FILE_LOCK 1 = (1, 0, 0)" by (simp add: req_owner_def)
  show ?thesis
    using flckadj_sets_region [OF ex_adj_ok(1-4) a] ex_adj_ok(5) rv l a
    by (simp add: o ex_adj_def) (simp add: ex_req_def F_UNLCK_def)
qed

text \<open>A request that nothing blocks, or an unlock, leaves no byte of the file with two
  owners one of which writes.\<close>

theorem granted_locks_exclude:
  assumes "chain_ok (vchain vp st)" "exclusive (vchain vp st)" "req_ok ld cl" "fid_known vp st"
    "start_ok (req_owner ld cl pid) ld (vchain vp st) p"
    "fst (blocked (vchain vp st) ld cl pid) = None \<or> l_type ld = F_UNLCK"
    "flckadj env vp p ld cl pid st = (rv, ld1, st1)"
    "locks (vchain vp st1) a x s" "locks (vchain vp st1) b x t" "a \<noteq> b"
  shows "s = F_RDLCK \<and> t = F_RDLCK"
  using flckadj_exclusive [OF assms(1-7)] assms(8-10) unfolding exclusive_def by blast

lemma ex_chain_exclusive: "exclusive (vchain 7 ex_chain_st)"
proof -
  have "t = 1" if "locks (vchain 7 ex_chain_st) a x t" for a x t
  proof -
    have "\<forall>f\<in>set (vchain 7 ex_chain_st). f_type f = 1" by code_simp
    then show ?thesis using that by (auto simp: locks_def rec_locks_def)
  qed
  then show ?thesis by (auto simp: exclusive_def F_RDLCK_def)
qed

text \<open>Process 3 reads bytes both others read.\<close>

definition ex_share :: "int \<times> eflock \<times> flk_state" where
  "ex_share = flckadj (ex_flk_env 3) 7 (Some 1) (ex_req 1 25 40) FILE_LOCK 3 ex_chain_st"

theorem granted_locks_exclude_witness:
  "locks (vchain 7 (snd (snd ex_share))) (3, 0, 0) 26 1 \<and> locks (vchain 7 (snd (snd ex_share))) (2, 0, 0) 26 1
   \<and> (1::int) = F_RDLCK"
proof -
  have l: "locks (vchain 7 (snd (snd ex_share))) (3, 0, 0) 26 1" "locks (vchain 7 (snd (snd ex_share))) (2, 0, 0) 26 1"
    by code_simp+
  have h: "req_ok (ex_req 1 25 40) FILE_LOCK" "fid_known 7 ex_chain_st"
    "start_ok (req_owner (ex_req 1 25 40) FILE_LOCK 3) (ex_req 1 25 40) (vchain 7 ex_chain_st) (Some 1)"
    "fst (blocked (vchain 7 ex_chain_st) (ex_req 1 25 40) FILE_LOCK 3) = None"
    by code_simp+
  have a: "flckadj (ex_flk_env 3) 7 (Some 1) (ex_req 1 25 40) FILE_LOCK 3 ex_chain_st
      = (fst ex_share, fst (snd ex_share), snd (snd ex_share))"
    by (simp add: ex_share_def)
  show ?thesis
    using granted_locks_exclude [OF ex_adj_ok(1) ex_chain_exclusive h(1,2,3) disjI1 [OF h(4)] a l] l by simp
qed

text \<open>C3: in every state reached with write locks and unlocks, whatever the order of requests,
  sleeps, wake-ups, closes and purges, each chain is in order and no byte of a file is
  locked by two owners.\<close>

theorem write_locks_never_conflict:
  assumes "wr_reach st"
  shows "chain_ok (vchain vp st)
    \<and> (\<forall>a b x s t. locks (vchain vp st) a x s \<and> locks (vchain vp st) b x t \<longrightarrow> a = b)"
proof -
  have w: "wr_chain (vchain vp st)" by (rule wr_inv_chain [OF wr_reach_inv [OF assms]])
  have "t = F_WRLCK" if "locks (vchain vp st) a x t" for a x t
    using w that by (auto simp: wr_chain_def locks_def rec_locks_def)
  moreover have "F_WRLCK \<noteq> F_RDLCK" by (simp add: F_WRLCK_def F_RDLCK_def)
  ultimately show ?thesis using w unfolding wr_chain_def exclusive_def by metis
qed

text \<open>Process 1 locks a region, process 2 waits for part of it, process 1 releases it.\<close>

definition ex_writers :: flk_state where
  "ex_writers = ex_after 1 8 0 10 (ex_after 2 2 5 10 (ex_after 1 2 0 10 ex_start))"

lemma ex_after_step: "wr_request (ex_req t s n) FILE_LOCK \<Longrightarrow> wr_reach st \<Longrightarrow> wr_reach (ex_after p t s n st)"
  by (rule wr_next [OF _ step_setflck [where ?r = "fst (ex_lock p t s n st)" and ?ld1.0 = "fst (snd (ex_lock p t s n st))"]])
     (auto simp: ex_after_def ex_lock_def)

lemma ex_writers_reach: "wr_reach ex_writers"
  unfolding ex_writers_def ex_start_def
  by (intro ex_after_step wr_init; code_simp)

theorem write_locks_never_conflict_witness:
  "chain_ok (vchain 7 ex_writers) \<and> locks (vchain 7 ex_writers) (2, 0, 0) 5 2
   \<and> \<not> locks (vchain 7 ex_writers) (1, 0, 0) 5 2"
proof -
  have "locks (vchain 7 ex_writers) (2, 0, 0) 5 2" by code_simp
  moreover have "(1::int, 0::int, 0::int) \<noteq> (2, 0, 0)" by simp
  ultimately show ?thesis using write_locks_never_conflict [OF ex_writers_reach, of 7] by blast
qed

section \<open>Where it goes wrong\<close>

text \<open>Process 1 holds a read lock around one of process 2 and releases bytes of it around
  that record: the piece behind the hole is put in front of process 2's record, which
  starts before it.  The search for blocking records then stops too early, and
  process 3 gets a write lock on bytes process 2 reads.\<close>

theorem misplaced_piece_hides_lock:
  "ex_view (vchain 7 (ex_after 1 8 10 40 ex_chain_st)) = [(1, 1, 0, 10), (1, 1, 50, 100), (2, 1, 20, 30)]
   \<and> fst (ex_lock 3 2 22 3 (ex_after 1 8 10 40 ex_chain_st)) = FRet 0
   \<and> ex_view (vchain 7 (ex_after 3 2 22 3 (ex_after 1 8 10 40 ex_chain_st)))
      = [(1, 1, 0, 10), (3, 2, 22, 25), (1, 1, 50, 100), (2, 1, 20, 30)]
   \<and> \<not> exclusive (vchain 7 (ex_after 3 2 22 3 (ex_after 1 8 10 40 ex_chain_st)))"
proof -
  let ?st = "ex_after 3 2 22 3 (ex_after 1 8 10 40 ex_chain_st)"
  have v: "ex_view (vchain 7 (ex_after 1 8 10 40 ex_chain_st)) = [(1, 1, 0, 10), (1, 1, 50, 100), (2, 1, 20, 30)]"
    "fst (ex_lock 3 2 22 3 (ex_after 1 8 10 40 ex_chain_st)) = FRet 0"
    "ex_view (vchain 7 ?st) = [(1, 1, 0, 10), (3, 2, 22, 25), (1, 1, 50, 100), (2, 1, 20, 30)]"
    by code_simp+
  have l: "locks (vchain 7 ?st) (3, 0, 0) 22 2" "locks (vchain 7 ?st) (2, 0, 0) 22 1" by code_simp+
  have "\<not> exclusive (vchain 7 ?st)"
  proof
    assume "exclusive (vchain 7 ?st)"
    moreover have "(3::int, 0::int, 0::int) \<noteq> (2, 0, 0)" by simp
    ultimately have "(2::int) = F_RDLCK" using l unfolding exclusive_def by blast
    then show False by (simp add: F_RDLCK_def)
  qed
  then show ?thesis using v by blast
qed

definition ex_full_env :: "int \<Rightarrow> flk_env" where
  "ex_full_env p = (ex_flk_env p)\<lparr>fe_rec_zone := (\<lambda>n. n < 1)\<rparr>"

text \<open>\<open>setflck\<close> changes the chain before it allocates the new record, so a request that fails
  for want of a record can lose locks: here process 1 holds bytes 0 to 99 for reading, asks
  for the second half for writing, is refused with \<open>ENOLCK\<close>, and is left with the first half.\<close>

theorem failed_request_loses_lock:
  "case setflck (ex_full_env 1) 7 (ex_req 1 0 100) True 1 FILE_LOCK ex_start of
     (r1, ld1, st1) \<Rightarrow> r1 = FRet 0 \<and> ex_view (vchain 7 st1) = [(1, 1, 0, 100)]
       \<and> (case setflck (ex_full_env 1) 7 (ex_req 2 50 50) True 1 FILE_LOCK st1 of
            (r2, ld2, st2) \<Rightarrow> r2 = FRet (errno_val ENOLCK) \<and> ex_view (vchain 7 st2) = [(1, 1, 0, 50)])"
  by code_simp

text \<open>The end of a region is a \<open>long\<close> sum that is not checked: a length that reaches past the
  last offset makes the end negative, the record blocks nobody, and two processes get
  write locks over the same bytes.\<close>

theorem region_end_overflows:
  "case ex_lock 1 2 5 MAXEND ex_start of
     (r1, ld1, st1) \<Rightarrow> r1 = FRet 0 \<and> ex_view (vchain 7 st1) = [(1, 2, 5, - 9223372036854775804)]
       \<and> (case ex_lock 2 2 0 10 st1 of
            (r2, ld2, st2) \<Rightarrow> r2 = FRet 0
              \<and> ex_view (vchain 7 st2) = [(2, 2, 0, 10), (1, 2, 5, - 9223372036854775804)])"
  by code_simp

definition ex_downgrade :: flk_state where
  "ex_downgrade = ex_after 2 8 10 10 (ex_after 1 1 0 20 (ex_after 3 1 0 5 (ex_after 2 2 10 10 (ex_after 1 2 0 10 ex_start))))"

text \<open>A grant may turn a write lock of the process into a read lock; the request that waits
  earlier in the queue for just that is not tried again.  Process 3 waits to read bytes
  that nobody writes any more, and its request is not among those woken.\<close>

theorem grant_leaves_sleeper:
  "ex_view (vchain 7 ex_downgrade) = [(1, 1, 0, 20)]
   \<and> ex_view (fk_sleep ex_downgrade) = [(3, 1, 0, 5)]
   \<and> ex_view (fk_woken ex_downgrade) = [(1, 1, 0, 20)]
   \<and> fst (blocked (vchain 7 ex_downgrade) (fl_set (hd (fk_sleep ex_downgrade))) FILE_LOCK 3) = None"
  by code_simp

section \<open>Deadlock detection\<close>

text \<open>The walk of \<open>deadflck\<close>: from an owner to the owner its sleeping request waits for.\<close>

definition waits :: "filock list \<Rightarrow> owner \<Rightarrow> owner option" where
  "waits sl own = map_option blocker (find_sleeper own sl)"

primrec walk :: "filock list \<Rightarrow> owner \<Rightarrow> nat \<Rightarrow> owner option" where
  "walk sl own 0 = Some own"
| "walk sl own (Suc n) = Option.bind (waits sl own) (\<lambda>o1. walk sl o1 n)"

lemma deadflck_finds: "walk sl own n = Some me \<Longrightarrow> deadflck_loop sl me own = Some True"
proof (induction n arbitrary: own)
  case 0
  then show ?case by (simp add: deadflck_loop.simps)
next
  case (Suc n)
  then obtain o1 where o1: "waits sl own = Some o1" "walk sl o1 n = Some me"
    by (auto simp: bind_eq_Some_conv)
  then show ?case
    using Suc.IH [OF o1(2)] by (subst deadflck_loop.simps) (auto simp: waits_def)
qed

lemma deadflck_ends:
  "walk sl own n = None \<Longrightarrow> \<forall>m. walk sl own m \<noteq> Some me \<Longrightarrow> deadflck_loop sl me own = Some False"
proof (induction n arbitrary: own)
  case (Suc n)
  have ne: "own \<noteq> me" using Suc.prems(2) [rule_format, of 0] by simp
  show ?case
  proof (cases "waits sl own")
    case None
    then show ?thesis using ne by (subst deadflck_loop.simps) (auto simp: waits_def)
  next
    case (Some o1)
    have "\<forall>m. walk sl o1 m \<noteq> Some me"
      using Suc.prems(2) Some by (metis bind.bind_lunit walk.simps(2))
    then show ?thesis
      using Suc.IH [of o1] Suc.prems(1) Some ne
      by (subst deadflck_loop.simps) (auto simp: waits_def)
  qed
qed simp

lemma deadflck_sound:
  "deadflck_loop sl me own = Some b \<Longrightarrow> if b then \<exists>n. walk sl own n = Some me else \<exists>n. walk sl own n = None"
proof (erule deadflck_loop.raw_induct [where P = "\<lambda>sl me own b.
    if b then \<exists>n. walk sl own n = Some me else \<exists>n. walk sl own n = None", rotated])
  fix f sl me own b
  assume IH: "\<And>sl me own b. f sl me own = Some b \<Longrightarrow>
      if b then \<exists>n. walk sl own n = Some me else \<exists>n. walk sl own n = None"
    and body: "(if own = me then Some True
      else case find_sleeper own sl of None \<Rightarrow> Some False | Some sf \<Rightarrow> f sl me (blocker sf)) = Some b"
  show "if b then \<exists>n. walk sl own n = Some me else \<exists>n. walk sl own n = None"
  proof (cases "own = me")
    case True
    then have "walk sl own 0 = Some me" by simp
    then show ?thesis using body True by (auto simp del: walk.simps)
  next
    case False
    show ?thesis
    proof (cases "find_sleeper own sl")
      case None
      then have "walk sl own (Suc 0) = None" by (simp add: waits_def)
      then show ?thesis using body False None by (auto simp del: walk.simps)
    next
      case (Some sf)
      have w: "walk sl own (Suc n) = walk sl (blocker sf) n" for n using Some by (simp add: waits_def)
      have "f sl me (blocker sf) = Some b" using body False Some by simp
      from IH [OF this] show ?thesis using w by (metis (full_types))
    qed
  qed
qed

text \<open>C38: the deadlock search says yes exactly when the chain of blockers from the holder leads
  back to the caller, no exactly when it ends without, and in every other case - the
  sleepers ahead form a cycle the caller is not part of - it never returns.\<close>

theorem deadflck_decides:
  "deadflck f me st =
     (if \<exists>n. walk (fk_sleep st) (fown f) n = Some me then Some True
      else if \<exists>n. walk (fk_sleep st) (fown f) n = None then Some False
      else None)"
proof (cases "deadflck_loop (fk_sleep st) me (fown f)")
  case None
  then show ?thesis
    using deadflck_finds [of "fk_sleep st" "fown f" _ me] deadflck_ends [of "fk_sleep st" "fown f" _ me]
    unfolding deadflck_def by (metis option.distinct(1))
next
  case (Some b)
  then show ?thesis
    using deadflck_sound [OF Some] deadflck_finds [of "fk_sleep st" "fown f" _ me]
      deadflck_ends [of "fk_sleep st" "fown f" _ me]
    unfolding deadflck_def by (cases b) (auto split: if_splits)
qed

text \<open>Processes 2 and 3 read a region process 1 wants to write: 1 waits, for 3 as far as the package
  records.  Process 2 then waits for a region of process 1.  When process 3 lets go,
  process 1 still waits, now for 2, and 2 for 1.\<close>

definition ex_cycle :: flk_state where
  "ex_cycle = ex_after 3 8 0 10 (ex_after 2 2 50 1 (ex_after 1 2 0 10 (ex_after 1 2 50 1
     (ex_after 3 1 0 10 (ex_after 2 1 0 10 ex_start)))))"

lemma setflck_hangs:
  assumes "findfid vp st = (True, st1)" "blocked (vchain vp st1) (calc_end ld) FILE_LOCK pid = (Some f, i)"
    "deadflck f (pid, 0, 0) st1 = None" "l_type ld = F_WRLCK" "fe_pid env = pid"
  shows "fst (setflck env vp ld True pid FILE_LOCK st) = FHang"
  using assms by (simp add: setflck_def setflck_typed_def setflck_wait_def req_owner_def F_WRLCK_def F_UNLCK_def)

text \<open>C40: the blocker of a sleeper is updated without a new search, so a deadlock can arise that
  is not detected; the next request that meets it hangs in the search, holding the locks of
  the package.\<close>

theorem deadlock_search_hangs:
  "ex_view (vchain 7 ex_cycle) = [(2, 1, 0, 10), (1, 2, 50, 51)]
   \<and> map (\<lambda>sf. (fown sf, blocker sf)) (fk_sleep ex_cycle) = [((1, 0, 0), (2, 0, 0)), ((2, 0, 0), (1, 0, 0))]
   \<and> fst (ex_lock 4 2 50 1 ex_cycle) = FHang"
proof -
  have v: "ex_view (vchain 7 ex_cycle) = [(2, 1, 0, 10), (1, 2, 50, 51)]"
    "map (\<lambda>sf. (fown sf, blocker sf)) (fk_sleep ex_cycle) = [((1, 0, 0), (2, 0, 0)), ((2, 0, 0), (1, 0, 0))]"
    by code_simp+
  let ?st1 = "snd (findfid 7 ex_cycle)"
  have f: "fst (findfid 7 ex_cycle)"
    "map_option fown (fst (blocked (vchain 7 ?st1) (calc_end (ex_req 2 50 1)) FILE_LOCK 4)) = Some (1, 0, 0)"
    "waits (fk_sleep ?st1) (1, 0, 0) = Some (2, 0, 0)" "waits (fk_sleep ?st1) (2, 0, 0) = Some (1, 0, 0)"
    by code_simp+
  have "walk (fk_sleep ?st1) (1, 0, 0) n \<in> {Some (1, 0, 0), Some (2, 0, 0)}
      \<and> walk (fk_sleep ?st1) (2, 0, 0) n \<in> {Some (1, 0, 0), Some (2, 0, 0)}" for n
    by (induction n) (use f(3,4) in auto)
  note cyc = this
  have w: "walk (fk_sleep ?st1) (1, 0, 0) n \<noteq> Some (4, 0, 0) \<and> walk (fk_sleep ?st1) (1, 0, 0) n \<noteq> None" for n
    using cyc [of n] by auto
  obtain g i where g: "blocked (vchain 7 ?st1) (calc_end (ex_req 2 50 1)) FILE_LOCK 4 = (Some g, i)" "fown g = (1, 0, 0)"
    using f(2) by (cases "blocked (vchain 7 ?st1) (calc_end (ex_req 2 50 1)) FILE_LOCK 4") auto
  have ff: "findfid 7 ex_cycle = (True, ?st1)" using f(1) by (simp add: prod_eq_iff)
  have "deadflck g (4, 0, 0) ?st1 = None" using w g(2) by (simp add: deadflck_decides)
  then have "fst (ex_lock 4 2 50 1 ex_cycle) = FHang"
    unfolding ex_lock_def
    by (rule setflck_hangs [OF ff g(1)]) (auto simp: ex_req_def F_WRLCK_def ex_flk_env_def)
  then show ?thesis using v by blast
qed

section \<open>Asking for a lock\<close>

lemma vchain_freefid:
  "vchain vp (freefid vp st) = (case fids_find vp (fk_fids st) of None \<Rightarrow> []
     | Some f \<Rightarrow> if fi_refcnt f = 1 \<and> fi_flck f = [] then vchain vp (freefid vp st) else fi_flck f)"
  by (auto simp: freefid_def flck_chain_def fids_find_upd split: option.splits)

lemma setflck_first:
  assumes "fids_find vp (fk_fids st) = None" "l_type ld = F_RDLCK \<or> l_type ld = F_WRLCK"
    "setflck env vp ld slp p FILE_LOCK st = (FRet 0, ld1, st1)"
  shows "vchain vp st1 = [new_filock (calc_end ld) vp FILE_LOCK p]" "fid_known vp st1"
proof -
  have f: "findfid vp st = (False, st)" using assms(1) by (simp add: findfid_def)
  have ty: "l_type ld \<noteq> F_UNLCK" using assms(2) by (auto simp: F_RDLCK_def F_WRLCK_def F_UNLCK_def)
  obtain c st2 where a: "allocfid env vp st = (c, st2)" by (cases "allocfid env vp st")
  have c: "c" using assms(3) f a ty by (cases c) (auto simp: setflck_def Let_def)
  then have k: "fid_known vp st2" and e: "vchain vp st2 = []"
    using a assms(1) allocfid_known [of env vp st st2]
    by (auto simp: allocfid_def Let_def flck_chain_def split: if_splits)
  have b: "blocked (vchain vp st2) (calc_end ld) FILE_LOCK p = (None, None)"
    by (simp add: e blocked_def)
  obtain d st3 where i: "insflck env (VChain vp) (calc_end ld) None vp FILE_LOCK p st2 = (d, st3)"
    by (cases "insflck env (VChain vp) (calc_end ld) None vp FILE_LOCK p st2")
  have adj: "flckadj env vp None (calc_end ld) FILE_LOCK p st2
      = (if d then 0 else errno_val ENOLCK, calc_end ld, st3)"
    using e i ty by (cases d) (simp_all add: flckadj_def)
  have grant: "setflck_grant env vp None (calc_end ld) p FILE_LOCK st2
      = (if d then 0 else errno_val ENOLCK, calc_end ld, st3)"
    by (simp add: setflck_grant_def adj local_callbacks_def GRANT_LOCK_FLAG_def)
  have st1: "st1 = freefid vp st3" and d: "d"
    using assms(2,3) f a c b ty grant by (cases d; auto simp: setflck_def setflck_typed_def Let_def)+
  have ch: "vchain vp st3 = [new_filock (calc_end ld) vp FILE_LOCK p]"
    using vchain_ins [OF _ k, of env "calc_end ld" None FILE_LOCK p st3] i d e by (simp add: ins_at_def)
  have k3: "fid_known vp st3" using known_insflck [OF i, of vp] k by simp
  show "vchain vp st1 = [new_filock (calc_end ld) vp FILE_LOCK p]" "fid_known vp st1"
    using ch k3 st1
    by (auto simp: vchain_freefid flck_chain_def fid_known_def freefid_def fids_find_upd split: option.splits)
qed

text \<open>A lock set on a file without locks is reported to any other process that asks for
  the region: its type, its first byte, its length (0 when it reaches the end) and its owner.\<close>

theorem setflck_getflck_roundtrip:
  assumes "fids_find vp (fk_fids st) = None" "l_type ld = F_RDLCK \<or> l_type ld = F_WRLCK"
    "0 \<le> l_start ld"
    "l_len ld = 0 \<and> l_start ld < MAXEND \<or> 0 < l_len ld \<and> l_start ld + l_len ld \<le> MAXEND"
    "l_rpid ld = 0" "l_rsys ld = 0" "q \<noteq> p"
    "setflck env vp ld slp p FILE_LOCK st = (FRet 0, ld1, st1)"
    "getflck vp (ld\<lparr>l_type := F_WRLCK\<rparr>) q FILE_LOCK st1 = (r, ld2, st2)"
  shows "r = 0 \<and> l_type ld2 = l_type ld \<and> l_start ld2 = l_start ld \<and> l_pid ld2 = p
    \<and> l_len ld2 = (if l_start ld + l_len ld = MAXEND then 0 else l_len ld)"
proof -
  let ?new = "new_filock (calc_end ld) vp FILE_LOCK p"
  note first = setflck_first [OF assms(1,2,8)]
  obtain b st3 where f: "findfid vp st1 = (b, st3)" by (cases "findfid vp st1")
  have b: "b" and c3: "vchain vp st3 = [?new]"
    using f first by (auto simp: findfid_def fid_known_def flck_chain_def fids_find_upd split: option.splits)
  let ?q = "calc_end (ld\<lparr>l_type := F_WRLCK\<rparr>)"
  have e: "l_end (calc_end ld) = (if l_len ld = 0 then MAXEND else l_start ld + l_len ld)"
    by (rule calc_end_end [OF assms(3)]) (use assms(4) in auto)
  have q: "l_start ?q = l_start ld" "l_end ?q = l_end (calc_end ld)" "l_type ?q = F_WRLCK"
    by (simp_all add: calc_end_def)
  have o: "fown ?new = (p, 0, 0)" using assms(5,6) by (simp add: new_filock_def set_owner_def)
  have cf: "conflicts (q, 0, 0) ?q ?new"
    using assms(2,4,7) e q o by (auto simp: conflicts_def overlaps_def type_blocks_def)
  have "fst (blocked [?new] ?q FILE_LOCK q) = Some ?new"
    using blocked_loop_find [of "[?new]" "(q, 0, 0)" ?q 0 None] cf
    by (simp add: blocked_def req_owner_def starts_sorted_def)
  then have g: "r = 0" "ld2 = (fl_set ?new)\<lparr>l_len := user_len (fl_set ?new)\<rparr>"
    using assms(9) f b c3 by (auto simp: getflck_def Let_def)
  have "user_len (fl_set ?new) = (if l_start ld + l_len ld = MAXEND then 0 else l_len ld)"
    using assms(3,4) e by (auto simp: user_len_def MAXEND_def cint)
  then show ?thesis using g by (simp add: new_filock_def)
qed

theorem setflck_getflck_roundtrip_witness:
  "(case getflck 7 (ex_req 2 10 5) 2 FILE_LOCK (ex_after 1 1 10 5 ex_start) of
     (r, ld2, st2) \<Rightarrow> r = 0 \<and> l_type ld2 = 1 \<and> l_start ld2 = 10 \<and> l_pid ld2 = 1 \<and> l_len ld2 = 5)"
proof -
  have s: "fst (ex_lock 1 1 10 5 ex_start) = FRet 0" by code_simp
  obtain ld1 where a: "setflck (ex_flk_env 1) 7 (ex_req 1 10 5) True 1 FILE_LOCK ex_start
      = (FRet 0, ld1, ex_after 1 1 10 5 ex_start)"
    using s by (cases "ex_lock 1 1 10 5 ex_start") (auto simp: ex_lock_def ex_after_def)
  obtain r ld2 st2 where g: "getflck 7 ((ex_req 1 10 5)\<lparr>l_type := F_WRLCK\<rparr>) 2 FILE_LOCK (ex_after 1 1 10 5 ex_start)
      = (r, ld2, st2)" using prod_cases3 by blast
  have "r = 0 \<and> l_type ld2 = l_type (ex_req 1 10 5) \<and> l_start ld2 = l_start (ex_req 1 10 5) \<and> l_pid ld2 = 1
    \<and> l_len ld2 = (if l_start (ex_req 1 10 5) + l_len (ex_req 1 10 5) = MAXEND then 0 else l_len (ex_req 1 10 5))"
    by (rule setflck_getflck_roundtrip [OF _ _ _ _ _ _ _ a g])
       (simp_all add: ex_start_def flckinit_def ex_req_def F_RDLCK_def MAXEND_def)
  moreover have "(ex_req 1 10 5)\<lparr>l_type := F_WRLCK\<rparr> = ex_req 2 10 5" by (simp add: ex_req_def F_WRLCK_def)
  ultimately show ?thesis using g by (simp add: ex_req_def MAXEND_def)
qed

end
