(* ===== verification/Flock_Purge.thy ===== *)
theory Flock_Purge
  imports Flock_Claims
begin

text \<open>
  Cleaning up: the locks of a process that closes the file, and the locks of all processes
  of a remote system.
\<close>

section \<open>Passes that delete\<close>

lemma del_pass_filter:
  assumes "flck_chain q st = pre @ ts"
  shows "flck_chain q (snd (del_pass q vp P ts (length pre) call st)) = pre @ filter (\<lambda>t. \<not> P t) ts"
  using assms
proof (induction ts arbitrary: pre call st)
  case (Cons t ts)
  show ?case
  proof (cases "P t")
    case True
    then show ?thesis
      using Cons.IH [of "delflck q (length pre) vp st" pre True] Cons.prems by (simp add: chain_delflck)
  next
    case False
    then show ?thesis
      using Cons.IH [of st "pre @ [t]" call] Cons.prems by simp
  qed
qed simp

lemma del_pass_call: "fst (del_pass q vp P ts i call st) \<longleftrightarrow> call \<or> (\<exists>t\<in>set ts. P t)"
  by (induction ts arbitrary: i call st) auto

lemma del_pass_only_file: "only_file vp st (snd (del_pass (VChain vp) vp P ts i call st))"
  by (induction "VChain vp" vp P ts i call st rule: del_pass.induct)
     (auto intro: only_file_trans [OF only_file_del])

lemma queues_delflck [simp]:
  "fk_fids (delflck SleepQ i v st) = fk_fids st" "fk_sleep (delflck SleepQ i v st) = del_at i (fk_sleep st)"
  "fk_fids (delflck GrantQ i v st) = fk_fids st" "fk_sleep (delflck GrantQ i v st) = fk_sleep st"
  "fk_fids (delflck KlmQ i v st) = fk_fids st" "fk_sleep (delflck KlmQ i v st) = fk_sleep st"
  by (simp_all add: delflck_def Let_def chain_upd_def)

lemma del_pass_sleep_fids: "fk_fids (snd (del_pass SleepQ vp P ts i call st)) = fk_fids st"
  by (induction ts arbitrary: i call st) auto

lemma vchain_sleep [simp]: "flck_chain SleepQ st = fk_sleep st"
  by (simp add: flck_chain_def)

lemma clean_loop_filter:
  "vchain vp (snd (clean_loop own vp call st)) = filter (\<lambda>f. fown f \<noteq> own) (vchain vp st)
   \<and> fst (clean_loop own vp call st) = (call \<or> (\<exists>f\<in>set (vchain vp st). fown f = own))
   \<and> only_file vp st (snd (clean_loop own vp call st))"
proof (induction own vp call st rule: clean_loop.induct)
  case (1 own vp call st)
  have none: "owner_index own i fs = None \<longleftrightarrow> (\<forall>f\<in>set fs. fown f \<noteq> own)" for i fs
    by (induction fs arbitrary: i) auto
  have some: "owner_index own i fs = Some j \<Longrightarrow>
      \<exists>pre f rest. fs = pre @ f # rest \<and> j = i + length pre \<and> fown f = own \<and> (\<forall>g\<in>set pre. fown g \<noteq> own)" for i fs j
  proof (induction fs arbitrary: i)
    case (Cons f fs)
    show ?case
    proof (cases "fown f = own")
      case True
      then show ?thesis using Cons.prems by (intro exI [of _ "[]"]) auto
    next
      case False
      then have "owner_index own (Suc i) fs = Some j" using Cons.prems by simp
      from Cons.IH [OF this] obtain pre g rest where
        "fs = pre @ g # rest" "j = Suc i + length pre" "fown g = own" "\<forall>h\<in>set pre. fown h \<noteq> own" by blast
      then show ?thesis using False by (intro exI [of _ "f # pre"] exI [of _ g] exI [of _ rest]) auto
    qed
  qed simp
  show ?case
  proof (cases "owner_index own 0 (vchain vp st)")
    case None
    then show ?thesis using none [of 0 "vchain vp st"] by (simp add: clean_loop.simps [of own vp call st])
  next
    case (Some j)
    then obtain pre f rest where s: "vchain vp st = pre @ f # rest" "j = length pre" "fown f = own"
      using some [OF Some] by auto
    show ?thesis
      using 1 [OF Some] Some s
      by (auto simp: clean_loop.simps [of own vp call st] vchain_del dest: only_file_trans [OF only_file_del])
  qed
qed

lemma chk_loop_nobody:
  "\<forall>sf\<in>set rest. fl_vp sf \<noteq> vp \<Longrightarrow> chk_loop env vp cl rest i r n st = (n, st)"
  by (induction rest arbitrary: i) auto

lemma findfid_chain:
  assumes "findfid vp st = (b, st1)"
  shows "vchain vp st1 = vchain vp st" "fk_sleep st1 = fk_sleep st"
    "fids_find vp (fk_fids st1) = map_option (\<lambda>f. f\<lparr>fi_refcnt := fi_refcnt f + 1\<rparr>) (fids_find vp (fk_fids st))"
  using assms by (auto simp: findfid_def flck_chain_def fids_find_upd split: option.splits)

text \<open>When a process closes a file on which nobody waits, all its locks on the file go and the
  others stay; the file's entry goes with them exactly when nothing is left on it and
  nobody else refers to it.\<close>

theorem cleanlocks_releases:
  assumes "\<forall>sf\<in>set (fk_sleep st). fl_vp sf \<noteq> vp" "distinct (map fi_vp (fk_fids st))"
    "fids_find vp (fk_fids st) = Some f" "cleanlocks env vp st = (r, st1)"
  shows "r = 0 \<and> vchain vp st1 = filter (\<lambda>g. fown g \<noteq> (fe_pid env, 0, 0)) (fi_flck f)
    \<and> (fid_known vp st1 \<longleftrightarrow> fi_refcnt f \<noteq> 0 \<or> vchain vp st1 \<noteq> [])"
proof -
  obtain b st2 where f2: "findfid vp st = (b, st2)" by (cases "findfid vp st")
  note c2 = findfid_chain [OF f2]
  have b: "b" using f2 assms(3) by (simp add: findfid_def)
  let ?own = "(fe_pid env, 0::int, 0::int)"
  obtain call st3 where c: "clean_loop ?own vp False st2 = (call, st3)" by (cases "clean_loop ?own vp False st2")
  have s3: "vchain vp st3 = filter (\<lambda>g. fown g \<noteq> ?own) (vchain vp st2)" "only_file vp st2 st3"
    using clean_loop_filter [of vp ?own False st2] c by auto
  have v: "vchain vp st2 = fi_flck f" using c2(1) assms(3) by (simp add: flck_chain_def)
  have sl: "fk_sleep st3 = fk_sleep st" using s3(2) c2(2) by (simp add: only_file_def)
  have "chk_granted env vp FILE_LOCK st3 = (0, st3)"
    using chk_loop_nobody [of "fk_sleep st3" vp] assms(1) sl by (simp add: chk_granted_def)
  then have r: "r = 0" "st1 = freefid vp st3"
    using assms(4) f2 b c by (auto simp: cleanlocks_def GRANT_LOCK_FLAG_def split: if_splits)
  obtain fs where fs: "fk_fids st3 = fids_upd vp (\<lambda>f. f\<lparr>fi_flck := fs\<rparr>) (fk_fids st2)"
    using s3(2) by (auto simp: only_file_def)
  have f3: "fids_find vp (fk_fids st3) = Some (f\<lparr>fi_refcnt := fi_refcnt f + 1, fi_flck := fs\<rparr>)"
    using fs c2(3) assms(3) by (simp add: fids_find_upd)
  then have fs3: "fs = filter (\<lambda>g. fown g \<noteq> ?own) (fi_flck f)"
    using s3(1) v by (simp add: flck_chain_def)
  have d: "distinct (map fi_vp (fk_fids st3))"
  proof -
    have "map fi_vp (fids_upd vp g xs) = map fi_vp xs" if "\<And>f. fi_vp (g f) = fi_vp f" for g xs
      using that by (induction xs) auto
    then show ?thesis using assms(2) fs f2 by (auto simp: findfid_def split: option.splits)
  qed
  have gone: "fids_find vp (fids_del vp xs) = None" if "distinct (map fi_vp xs)" for xs
  proof -
    have "fids_find vp xs = None" if "vp \<notin> set (map fi_vp xs)" for xs
      using that by (induction xs) auto
    then show ?thesis using that by (induction xs) auto
  qed
  show ?thesis
    using r f3 fs3 gone [OF d]
    by (auto simp: freefid_def flck_chain_def fid_known_def fids_find_upd)
qed

theorem cleanlocks_releases_witness:
  "(case cleanlocks (ex_flk_env 1) 7 ex_chain_st of
      (r, st1) \<Rightarrow> r = 0 \<and> ex_view (vchain 7 st1) = [(2, 1, 20, 30)] \<and> fid_known 7 st1)"
proof -
  have h: "\<forall>sf\<in>set (fk_sleep ex_chain_st). fl_vp sf \<noteq> 7" "distinct (map fi_vp (fk_fids ex_chain_st))"
    by code_simp+
  obtain f where f: "fids_find 7 (fk_fids ex_chain_st) = Some f"
    using ex_adj_ok(3) by (auto simp: fid_known_def)
  obtain r st1 where c: "cleanlocks (ex_flk_env 1) 7 ex_chain_st = (r, st1)"
    by (cases "cleanlocks (ex_flk_env 1) 7 ex_chain_st")
  have v: "ex_view (filter (\<lambda>g. fown g \<noteq> (1, 0, 0)) (vchain 7 ex_chain_st)) = [(2, 1, 20, 30)]" by code_simp
  have "fe_pid (ex_flk_env 1) = 1" by (simp add: ex_flk_env_def)
  then show ?thesis
    using cleanlocks_releases [OF h f c] v f c by (auto simp: flck_chain_def ex_view_def)
qed

section \<open>A remote system goes away\<close>

definition rsys_free :: "int \<Rightarrow> filock list \<Rightarrow> bool" where
  "rsys_free n fs \<longleftrightarrow> (\<forall>f\<in>set fs. l_rsys (fl_set f) \<noteq> n)"

lemma rsys_free_del_at: "rsys_free n fs \<Longrightarrow> rsys_free n (del_at i fs)"
  by (auto simp: rsys_free_def dest: in_set_del_at)

lemma rsys_free_del: "rsys_free n (vchain vp st) \<Longrightarrow> rsys_free n (vchain vp (delflck (VChain vp) i vq st))"
  by (simp add: chain_delflck rsys_free_del_at)

lemma rsys_free_ins:
  assumes "insflck env (VChain vp) ld p vp cl upid st = (b, st1)" "rsys_free n (vchain vp st)" "l_rsys ld \<noteq> n"
  shows "rsys_free n (vchain vp st1)"
  using assms
  by (auto simp: insflck_def Let_def chain_chain_upd rsys_free_def new_filock_def split: if_splits)

lemma rsys_free_set_fl:
  assumes "rsys_free n (vchain vp st)"
  shows "rsys_free n (vchain vp (set_fl vp (\<lambda>s. s\<lparr>l_len := e\<rparr>) i st))"
proof -
  have "l_rsys (fl_set f) \<noteq> n"
    if "f \<in> set ((vchain vp st)[i := (vchain vp st ! i)\<lparr>fl_set := (fl_set (vchain vp st ! i))\<lparr>l_len := e\<rparr>\<rparr>])" for f
  proof (cases "i < length (vchain vp st)")
    case True
    then have "l_rsys (fl_set (vchain vp st ! i)) \<noteq> n" using assms by (simp add: rsys_free_def)
    then show ?thesis using that assms by (auto simp: rsys_free_def dest!: set_list_updateD)
  qed (use that assms in \<open>auto simp: rsys_free_def not_less list_update_beyond\<close>)
  then show ?thesis using assms by (auto simp: set_fl_def chain_chain_upd rsys_free_def)
qed

lemma rsys_free_turn:
  assumes "rsys_free n (vchain vp st)" "l_rsys ld \<noteq> n" "l_rsys (fl_set f) \<noteq> n"
  shows "case flckadj_own env vp cl upid f i p ld rv st of
     AdjReturn _ ld1 st1 \<Rightarrow> rsys_free n (vchain vp st1) \<and> l_rsys ld1 \<noteq> n
   | AdjStop ld1 _ _ st1 \<Rightarrow> rsys_free n (vchain vp st1) \<and> l_rsys ld1 \<noteq> n
   | AdjNext ld1 _ _ _ st1 \<Rightarrow> rsys_free n (vchain vp st1) \<and> l_rsys ld1 \<noteq> n"
proof -
  obtain sr er where r: "regflck ld f = (sr, er)" by (cases "regflck ld f") auto
  obtain b st1 where p: "ins_after_piece env vp cl upid ld f i st = (b, st1)"
    by (cases "ins_after_piece env vp cl upid ld f i st") auto
  have "rsys_free n (vchain vp st1)"
    using rsys_free_ins [OF p [unfolded ins_after_piece_def] assms(1)] assms(3) by simp
  then show ?thesis
    using assms rsys_free_del rsys_free_set_fl
    by (cases sr; cases er; cases b; simp add: flckadj_own_def Let_def r p)
qed

lemma rsys_free_loop:
  assumes "rsys_free n (vchain vp st)" "l_rsys ld \<noteq> n" "rsys_free n fs"
  shows "case flckadj_loop env vp cl upid own fs i p ld rv st of
     AdjReturn _ ld1 st1 \<Rightarrow> rsys_free n (vchain vp st1) \<and> l_rsys ld1 \<noteq> n
   | AdjStop ld1 _ _ st1 \<Rightarrow> rsys_free n (vchain vp st1) \<and> l_rsys ld1 \<noteq> n
   | AdjNext ld1 _ _ _ st1 \<Rightarrow> rsys_free n (vchain vp st1) \<and> l_rsys ld1 \<noteq> n"
  using assms
proof (induction fs arbitrary: i p ld rv st)
  case (Cons f fs)
  have f: "l_rsys (fl_set f) \<noteq> n" "rsys_free n fs" using Cons.prems(3) by (auto simp: rsys_free_def)
  note own = rsys_free_turn [OF Cons.prems(1,2) f(1), where env = env and cl = cl and upid = upid and i = i
      and p = p and rv = rv]
  show ?case
  proof (cases "flckadj_own env vp cl upid f i p ld rv st")
    case (AdjNext ld1 p1 rv1 i1 st1)
    then have "rsys_free n (vchain vp st1)" "l_rsys ld1 \<noteq> n" using own by auto
    from Cons.IH [OF this f(2), where i = i1 and p = p1 and rv = rv1] show ?thesis
      using AdjNext Cons.prems Cons.IH [OF Cons.prems(1,2) f(2), where i = "Suc i" and p = p and rv = rv] by simp
  qed (use own Cons.prems Cons.IH [OF Cons.prems(1,2) f(2), where i = "Suc i" and p = p and rv = rv] in auto)
qed (simp add: rsys_free_def)

lemma rsys_free_flckadj:
  assumes "flckadj env vp p ld cl pid st = (rv, ld1, st1)" "rsys_free n (vchain vp st)" "l_rsys ld \<noteq> n"
  shows "rsys_free n (vchain vp st1) \<and> l_rsys ld1 \<noteq> n"
proof -
  define upid i where "upid = (if cl = LOCKMGR then l_pid ld else pid)"
    and "i = (case p of None \<Rightarrow> 0 | Some i \<Rightarrow> i)"
  have "rsys_free n (drop i (vchain vp st))" using assms(2) by (auto simp: rsys_free_def dest: in_set_dropD)
  note t = rsys_free_loop [OF assms(2,3) this, where env = env and cl = cl and upid = upid
      and own = "req_owner ld cl pid" and i = i and p = p and rv = 0]
  note unf = assms(1) [unfolded flckadj_def Let_def, folded upid_def i_def]
  show ?thesis
  proof (cases "flckadj_loop env vp cl upid (req_owner ld cl pid) (drop i (vchain vp st)) i p ld 0 st")
    case (AdjStop ld2 p2 rv2 st2)
    let ?place = "case p2 of None \<Rightarrow> None | Some i \<Rightarrow> seek (l_start ld2) (drop i (vchain vp st2)) i (Some i)"
    obtain b st3 where i3: "insflck env (VChain vp) ld2 ?place vp cl upid st2 = (b, st3)"
      by (cases "insflck env (VChain vp) ld2 ?place vp cl upid st2") auto
    have s2: "rsys_free n (vchain vp st2)" "l_rsys ld2 \<noteq> n" using t AdjStop by auto
    show ?thesis
      using unf AdjStop i3 s2 rsys_free_ins [OF i3 s2] by (cases b) (auto split: if_splits)
  qed (use t unf in auto)
qed

section \<open>What granting touches\<close>

definition same_files :: "nat \<Rightarrow> flk_state \<Rightarrow> flk_state \<Rightarrow> bool" where
  "same_files vp st st1 \<longleftrightarrow> map fi_vp (fk_fids st1) = map fi_vp (fk_fids st)
     \<and> (\<forall>f\<in>set (fk_fids st1). fi_vp f \<noteq> vp \<longrightarrow> f \<in> set (fk_fids st))"

lemma same_files_refl [simp]: "same_files vp st st"
  by (simp add: same_files_def)

lemma same_files_trans: "same_files vp st st1 \<Longrightarrow> same_files vp st1 st2 \<Longrightarrow> same_files vp st st2"
  by (auto simp: same_files_def)

lemma same_files_upd:
  assumes "fk_fids st1 = fids_upd vp g (fk_fids st)" "\<And>f. fi_vp (g f) = fi_vp f"
  shows "same_files vp st st1"
proof -
  have "map fi_vp (fids_upd vp g xs) = map fi_vp xs \<and> (\<forall>f\<in>set (fids_upd vp g xs). fi_vp f \<noteq> vp \<longrightarrow> f \<in> set xs)" for xs
    using assms(2) by (induction xs) auto
  then show ?thesis using assms(1) by (simp add: same_files_def)
qed

lemma same_files_only: "only_file vp st st1 \<Longrightarrow> same_files vp st st1"
  by (auto simp: only_file_def intro: same_files_upd)

lemma same_files_eq: "fk_fids st1 = fk_fids st \<Longrightarrow> same_files vp st st1"
  by (simp add: same_files_def)

lemma fids_queue_upd [simp]: "fk_fids (chain_upd SleepQ g st) = fk_fids st"
  "fk_fids (chain_upd GrantQ g st) = fk_fids st" "fk_fids (chain_upd KlmQ g st) = fk_fids st"
  "fk_sleep (chain_upd GrantQ g st) = fk_sleep st" "fk_sleep (chain_upd KlmQ g st) = fk_sleep st"
  "fk_sleep (chain_upd SleepQ g st) = g (fk_sleep st)"
  by (simp_all add: chain_upd_def)

lemma ins_queue_frame:
  assumes "q = GrantQ \<or> q = KlmQ"
  shows "fk_fids (snd (insflck env q ld p vp cl upid st)) = fk_fids st"
    "fk_sleep (snd (insflck env q ld p vp cl upid st)) = fk_sleep st"
  using assms by (auto simp: insflck_def Let_def)

lemma rsys_free_update:
  assumes "rsys_free n fs" "l_rsys (fl_set x) \<noteq> n"
  shows "rsys_free n (fs[i := x])"
  using assms by (auto simp: rsys_free_def dest!: set_list_updateD)

text \<open>Granting brings no record of the system in when no sleeper belongs to it.\<close>

definition rsys_state :: "int \<Rightarrow> nat \<Rightarrow> flk_state \<Rightarrow> flk_state \<Rightarrow> bool" where
  "rsys_state n vp st st1 \<longleftrightarrow> same_files vp st st1 \<and> rsys_free n (vchain vp st1) \<and> rsys_free n (fk_sleep st1)"

lemma vchain_fids: "fk_fids st1 = fk_fids st \<Longrightarrow> vchain vp st1 = vchain vp st"
  by (simp add: flck_chain_def)

lemma rsys_state_eq:
  assumes "rsys_state n vp st0 st" "fk_fids st1 = fk_fids st" "rsys_free n (fk_sleep st1)"
  shows "rsys_state n vp st0 st1"
  using assms vchain_fids [OF assms(2), of vp] same_files_trans [OF _ same_files_eq [OF assms(2)]]
  by (auto simp: rsys_state_def)

lemma chk_loop_rsys:
  assumes "rsys_state n vp st0 st" "rsys_free n rest"
  shows "rsys_state n vp st0 (snd (chk_loop env vp cl rest i retval nfs st))"
  using assms
proof (induction rest arbitrary: i retval nfs st)
  case (Cons sf rest)
  have sf: "l_rsys (fl_set sf) \<noteq> n" and rest: "rsys_free n rest" using Cons.prems(2) by (auto simp: rsys_free_def)
  note IH = Cons.IH [OF _ rest]
  have S: "rsys_free n (vchain vp st)" "rsys_free n (fk_sleep st)" using Cons.prems(1) by (auto simp: rsys_state_def)
  show ?case
  proof (cases "fl_vp sf = vp")
    case vp: True
    obtain fd ins where b: "blocked (vchain vp st) (fl_set sf) (fl_class sf) (l_pid (fl_set sf)) = (fd, ins)"
      by (cases "blocked (vchain vp st) (fl_set sf) (fl_class sf) (l_pid (fl_set sf))") auto
    show ?thesis
    proof (cases fd)
      case (Some found)
      have "rsys_free n (fk_sleep (set_blocker i found st))"
      proof (cases "i < length (fk_sleep st)")
        case True
        then have "l_rsys (fl_set (fk_sleep st ! i)) \<noteq> n" using S(2) by (simp add: rsys_free_def)
        then show ?thesis using S(2) by (simp add: set_blocker_def rsys_free_update)
      qed (use S(2) in \<open>simp add: set_blocker_def not_less list_update_beyond\<close>)
      then have "rsys_state n vp st0 (set_blocker i found st)"
        by (rule rsys_state_eq [OF Cons.prems(1), rotated]) (simp add: set_blocker_def)
      then show ?thesis using vp b Some IH by simp
    next
      case None
      obtain r1 ld1 st1 where a: "(if fl_class sf \<noteq> IO_LOCK
          then flckadj env vp ins (fl_set sf) (fl_class sf) (l_pid (fl_set sf)) st
          else (retval, fl_set sf, st)) = (r1, ld1, st1)"
        using prod_cases3 by blast
      have s1: "rsys_state n vp st0 st1 \<and> l_rsys ld1 \<noteq> n"
      proof (cases "fl_class sf = IO_LOCK")
        case True
        then show ?thesis using a Cons.prems(1) sf by simp
      next
        case False
        then have f: "flckadj env vp ins (fl_set sf) (fl_class sf) (l_pid (fl_set sf)) st = (r1, ld1, st1)"
          using a by simp
        have "rsys_state n vp st0 st1"
          using rsys_free_flckadj [OF f S(1) sf] flckadj_only_file [OF f] Cons.prems(1) same_files_trans same_files_only
          unfolding rsys_state_def by (metis only_file_def)
        then show ?thesis using rsys_free_flckadj [OF f S(1) sf] by simp
      qed
      let ?sf = "sf\<lparr>fl_set := ld1\<rparr>"
      let ?st2 = "chain_upd SleepQ (\<lambda>fs. fs[i := ?sf]) st1"
      have u: "rsys_free n ((fk_sleep st1)[i := ?sf])"
        using s1 by (auto simp: rsys_state_def intro: rsys_free_update)
      have s2: "rsys_state n vp st0 ?st2"
        by (rule rsys_state_eq [where st = st1]) (use s1 u in auto)
      have s4: "rsys_state n vp st0 (delflck SleepQ i 0 (fl_wakeup ?sf ?st2))"
        by (rule rsys_state_eq [OF s2]) (use u in \<open>simp_all add: fl_wakeup_def rsys_free_del_at\<close>)
      have s3: "rsys_state n vp st0 (delflck SleepQ i 0 (snd (insflck env q ld1 None vp (fl_class sf) (l_pid ld1) ?st2)))"
        if "q = GrantQ \<or> q = KlmQ" for q
        by (rule rsys_state_eq [OF s2]) (use u ins_queue_frame [OF that] in \<open>simp_all add: rsys_free_del_at\<close>)
      show ?thesis
        using vp b None a s2 IH [OF s4, of i r1 nfs] IH [OF s3 [of GrantQ], of i r1 GRANT_LOCK_FLAG]
          IH [OF s3 [of KlmQ], of i r1 GRANT_LOCK_FLAG]
        by (cases "r1 = errno_val ENOLCK"; cases "fl_class sf = LOCKMGR"; cases "cl = FILE_LOCK")
           (simp_all add: Let_def)
    qed
  qed (use IH Cons.prems in simp)
qed simp

section \<open>All files in turn\<close>

lemma fids_find_distinct: "distinct (map fi_vp fs) \<Longrightarrow> f \<in> set fs \<Longrightarrow> fids_find (fi_vp f) fs = Some f"
  by (induction fs) (auto simp: image_iff)

lemma fids_upd_distinct:
  assumes "distinct (map fi_vp fs)" "\<And>f. fi_vp (g f) = fi_vp f" "f \<in> set (fids_upd vp g fs)" "fi_vp f = vp"
  shows "\<exists>f0. fids_find vp fs = Some f0 \<and> f = g f0"
  using assms by (induction fs) (auto simp: image_iff split: if_splits)

lemma fids_upd_other: "f \<in> set (fids_upd vp g fs) \<Longrightarrow> (\<And>f. fi_vp (g f) = fi_vp f) \<Longrightarrow> fi_vp f \<noteq> vp \<Longrightarrow> f \<in> set fs"
  by (induction fs) (auto split: if_splits)

lemma fids_upd_map: "(\<And>f. fi_vp (g f) = fi_vp f) \<Longrightarrow> map fi_vp (fids_upd vp g fs) = map fi_vp fs"
  by (induction fs) auto

lemma fids_del_distinct: "distinct (map fi_vp fs) \<Longrightarrow> f \<in> set (fids_del vp fs) \<Longrightarrow> fi_vp f \<noteq> vp \<and> f \<in> set fs"
proof (induction fs)
  case (Cons a fs)
  have "f \<in> set fs \<Longrightarrow> fi_vp f \<noteq> fi_vp a" using Cons.prems(1) by (metis distinct.simps(2) image_eqI list.simps(9) set_map)
  then show ?case using Cons by (auto split: if_splits)
qed simp

lemma fids_del_map: "distinct (map fi_vp fs) \<Longrightarrow> distinct (map fi_vp (fids_del vp fs))"
  using fids_del_subset by (induction fs) fastforce+

definition files_free :: "int \<Rightarrow> nat set \<Rightarrow> flk_state \<Rightarrow> bool" where
  "files_free n left st \<longleftrightarrow> distinct (map fi_vp (fk_fids st)) \<and> rsys_free n (fk_sleep st)
     \<and> (\<forall>f\<in>set (fk_fids st). fi_vp f \<notin> left \<longrightarrow> rsys_free n (fi_flck f))"

lemma files_free_freefid:
  assumes "files_free n left st"
  shows "files_free n left (freefid vp st)"
proof (cases "fids_find vp (fk_fids st)")
  case (Some f)
  let ?g = "\<lambda>f. f\<lparr>fi_refcnt := fi_refcnt f - 1\<rparr>"
  have d: "distinct (map fi_vp (fk_fids st))" using assms by (simp add: files_free_def)
  have "rsys_free n (fi_flck h)" if "h \<in> set (fids_upd vp ?g (fk_fids st))" "fi_vp h \<notin> left" for h
  proof (cases "fi_vp h = vp")
    case True
    then have "h = ?g f" using fids_upd_distinct [OF d _ that(1)] Some by auto
    then show ?thesis using assms fids_find_mem [OF Some] that(2) by (auto simp: files_free_def)
  next
    case False
    then show ?thesis using fids_upd_other [OF that(1)] assms that(2) by (auto simp: files_free_def)
  qed
  then have u: "files_free n left (st\<lparr>fk_fids := fids_upd vp ?g (fk_fids st)\<rparr>)"
    using assms d fids_upd_map [of ?g vp "fk_fids st"] by (simp add: files_free_def)
  have "files_free n left (info_upd k (st\<lparr>fk_fids := fids_del vp (fk_fids st)\<rparr>))" for k
    using assms fids_del_distinct [OF d, of _ vp] fids_del_map [OF d] by (auto simp: files_free_def)
  then show ?thesis using Some u by (auto simp: freefid_def)
qed (use assms in \<open>simp add: freefid_def\<close>)

lemma files_free_state:
  assumes "files_free n (insert vp left) st" "rsys_state n vp st st1"
  shows "files_free n left st1"
proof -
  have d: "distinct (map fi_vp (fk_fids st1))"
    using assms by (simp add: files_free_def rsys_state_def same_files_def)
  have "rsys_free n (fi_flck f)" if f: "f \<in> set (fk_fids st1)" "fi_vp f \<notin> left" for f
  proof (cases "fi_vp f = vp")
    case True
    then have "fids_find vp (fk_fids st1) = Some f" using fids_find_distinct [OF d f(1)] by simp
    then show ?thesis using assms(2) by (simp add: rsys_state_def flck_chain_def)
  next
    case False
    then show ?thesis using assms f by (auto simp: files_free_def rsys_state_def same_files_def)
  qed
  then show ?thesis using d assms(2) by (simp add: files_free_def rsys_state_def)
qed

lemma fid_hold_frame:
  "vchain vp (fid_hold vp st) = vchain vp st" "fk_sleep (fid_hold vp st) = fk_sleep st"
  "same_files vp st (fid_hold vp st)"
proof -
  show "same_files vp st (fid_hold vp st)"
    by (rule same_files_upd [where g = "\<lambda>f. f\<lparr>fi_refcnt := fi_refcnt f + 1\<rparr>"]) (simp_all add: fid_hold_def)
qed (auto simp: fid_hold_def flck_chain_def fids_find_upd split: option.splits)

lemma kill_files_free:
  assumes "files_free n (set vps) st" "l_rsys ld = n"
  shows "files_free n {} (snd (kill_files env ld vps st))"
  using assms
proof (induction vps arbitrary: ld st)
  case (Cons vp vps)
  let ?P = "\<lambda>t. l_rsys (fl_set t) = l_rsys ld"
  obtain call st1 where d: "del_pass (VChain vp) vp ?P (vchain vp st) 0 False (fid_hold vp st) = (call, st1)"
    by (cases "del_pass (VChain vp) vp ?P (vchain vp st) 0 False (fid_hold vp st)")
  have o: "only_file vp (fid_hold vp st) st1" using del_pass_only_file d by (metis snd_conv)
  have v: "vchain vp st1 = filter (\<lambda>t. \<not> ?P t) (vchain vp st)"
    using del_pass_filter [of "VChain vp" "fid_hold vp st" "[]" "vchain vp st" vp ?P False] d
    by (simp add: fid_hold_frame)
  have s1: "rsys_state n vp st st1"
    using o v Cons.prems fid_hold_frame [of vp st] same_files_trans [OF _ same_files_only [OF o]]
    by (auto simp: rsys_state_def rsys_free_def files_free_def only_file_def)
  obtain r st2 where g: "(if call then chk_granted env vp LOCKMGR st1 else (0, st1)) = (r, st2)"
    using prod.exhaust by blast
  have "rsys_free n (fk_sleep st1)" using s1 by (simp add: rsys_state_def)
  then have s2: "rsys_state n vp st st2"
    using g s1 chk_loop_rsys [OF s1, of "fk_sleep st1" env LOCKMGR 0 0 0]
    by (auto simp: chk_granted_def split: if_splits)
  have "files_free n (set vps) (freefid vp st2)"
    by (rule files_free_freefid, rule files_free_state [OF _ s2]) (use Cons.prems(1) in simp)
  from Cons.IH [OF this] show ?case using d g Cons.prems(2) by simp
qed simp

text \<open>C28: after the lock manager has reported a remote system gone, no file has a lock of it and
  nobody of it sleeps, even when the locks of others are granted on the way.\<close>

theorem kill_proc_locks_clears:
  assumes "distinct (map fi_vp (fk_fids st))" "kill_proc_locks env ld st = (ld1, st1)"
    "r \<in> set (fk_sleep st1) \<or> (\<exists>f\<in>set (fk_fids st1). r \<in> set (fi_flck f))"
  shows "l_rsys (fl_set r) \<noteq> l_rsys ld"
proof -
  let ?P = "\<lambda>t. l_rsys (fl_set t) = l_rsys ld"
  let ?st = "snd (del_pass SleepQ 0 ?P (fk_sleep st) 0 False st)"
  have sl: "fk_sleep ?st = filter (\<lambda>t. \<not> ?P t) (fk_sleep st)"
    using del_pass_filter [of SleepQ st "[]" "fk_sleep st" 0 ?P False] by simp
  have "files_free (l_rsys ld) (set (map fi_vp (fk_fids ?st))) ?st"
    using assms(1) sl by (auto simp: files_free_def rsys_free_def del_pass_sleep_fids)
  from kill_files_free [OF this, of "ld\<lparr>l_xxx := -1\<rparr>" env]
  have "files_free (l_rsys ld) {} st1" using assms(2) by (simp add: kill_proc_locks_def Let_def)
  then show ?thesis using assms(3) by (auto simp: files_free_def rsys_free_def)
qed

text \<open>A remote process writes, a local one waits; the remote system goes away.\<close>

definition ex_remote :: flk_state where
  "ex_remote = ex_after 1 2 5 10 (snd (snd (setflck (ex_flk_env 9) 7
     ((ex_req 2 0 10)\<lparr>l_pid := 8, l_rpid := 3, l_rsys := 77\<rparr>) True 9 LOCKMGR ex_start)))"

definition ex_killed :: "eflock \<times> flk_state" where
  "ex_killed = kill_proc_locks (ex_flk_env 9) ((ex_req 4 0 0)\<lparr>l_rsys := 77\<rparr>) ex_remote"

theorem kill_proc_locks_clears_witness:
  "map (\<lambda>r. l_rsys (fl_set r)) (vchain 7 ex_remote) = [77]
   \<and> ex_view (vchain 7 (snd ex_killed)) = [(1, 2, 5, 15)]
   \<and> (case vchain 7 (snd ex_killed) of [] \<Rightarrow> False | r # rs \<Rightarrow> l_rsys (fl_set r) \<noteq> 77)"
proof -
  have v: "map (\<lambda>r. l_rsys (fl_set r)) (vchain 7 ex_remote) = [77]"
    "ex_view (vchain 7 (snd ex_killed)) = [(1, 2, 5, 15)]" "distinct (map fi_vp (fk_fids ex_remote))"
    by code_simp+
  then obtain r rs where r: "vchain 7 (snd ex_killed) = r # rs" by (auto simp: ex_view_def)
  then obtain f where f: "fids_find 7 (fk_fids (snd ex_killed)) = Some f" "fi_flck f = r # rs"
    by (auto simp: flck_chain_def split: option.splits)
  have "\<exists>f\<in>set (fk_fids (snd ex_killed)). r \<in> set (fi_flck f)"
    by (rule bexI [of _ f]) (use f fids_find_mem [OF f(1)] in auto)
  then have "l_rsys (fl_set r) \<noteq> l_rsys ((ex_req 4 0 0)\<lparr>l_rsys := 77\<rparr>)"
    using kill_proc_locks_clears [OF v(3), of "ex_flk_env 9" "(ex_req 4 0 0)\<lparr>l_rsys := 77\<rparr>" "fst ex_killed" "snd ex_killed" r]
    by (simp add: ex_killed_def)
  then show ?thesis using v r by simp
qed

end
