(* ===== verification/Slcompress.thy ===== *)
theory Slcompress
  imports OSF_Prelude
begin

text \<open>
  TCP/IP header compression for serial lines, \<open>net/slcompress.c\<close> and \<open>net/slcompress.h\<close>.

  The code works on raw headers through overlaid structures, so a header is a function from
  offsets to bytes: a packet at its start, with whatever memory lies behind it.  Fields
  are read and written in network order by \<open>get16\<close>, \<open>get32\<close>, \<open>put16\<close> and \<open>put32\<close>.  The two
  functions are modelled by \<open>sl_compress_tcp\<close>, which gives the packet type and the bytes of
  the first mbuf as they leave it, and \<open>sl_uncompress_tcp\<close>, which gives the bytes of the
  packet (none when it returns 0).  \<open>None\<close>: memory outside the packet or outside the state
  tables is written.
\<close>

section \<open>Headers in memory\<close>

type_synonym mem = "nat \<Rightarrow> 8 word"

definition get16 :: "mem \<Rightarrow> nat \<Rightarrow> 16 word" where
  "get16 m i = push_bit 8 (ucast (m i)) OR ucast (m (i + 1))"

definition get32 :: "mem \<Rightarrow> nat \<Rightarrow> 32 word" where
  "get32 m i = push_bit 16 (ucast (get16 m i)) OR ucast (get16 m (i + 2))"

definition hi8 :: "16 word \<Rightarrow> 8 word" where
  "hi8 v = ucast (drop_bit 8 v)"

definition lo8 :: "16 word \<Rightarrow> 8 word" where
  "lo8 v = ucast v"

definition put16 :: "nat \<Rightarrow> 16 word \<Rightarrow> mem \<Rightarrow> mem" where
  "put16 i v m = m(i := hi8 v, i + 1 := lo8 v)"

definition put32 :: "nat \<Rightarrow> 32 word \<Rightarrow> mem \<Rightarrow> mem" where
  "put32 i v m = put16 (i + 2) (ucast v) (put16 i (ucast (drop_bit 16 v)) m)"

text \<open>\<open>bcopy\<close> of the first \<open>n\<close> bytes, \<open>bcmp\<close> of \<open>n\<close> bytes at two places.\<close>

definition bcopy :: "nat \<Rightarrow> mem \<Rightarrow> mem \<Rightarrow> mem" where
  "bcopy n src dst = (\<lambda>i. if i < n then src i else dst i)"

definition bcmp_differs :: "mem \<Rightarrow> nat \<Rightarrow> mem \<Rightarrow> nat \<Rightarrow> nat \<Rightarrow> bool" where
  "bcmp_differs a i b j n \<longleftrightarrow> (\<exists>k\<in>set [0..<n]. a (i + k) \<noteq> b (j + k))"

text \<open>
  The offsets of \<open>struct ip\<close> (\<open>netinet/ip.h\<close>) and, from the start of the TCP header, of
  \<open>struct tcphdr\<close> (\<open>netinet/tcp.h\<close>).
\<close>

abbreviation (input) ip_len :: nat where "ip_len \<equiv> 2"
abbreviation (input) ip_id :: nat where "ip_id \<equiv> 4"
abbreviation (input) ip_off :: nat where "ip_off \<equiv> 6"
abbreviation (input) ip_p :: nat where "ip_p \<equiv> 9"
abbreviation (input) ip_sum :: nat where "ip_sum \<equiv> 10"
abbreviation (input) ip_src :: nat where "ip_src \<equiv> 12"
abbreviation (input) ip_dst :: nat where "ip_dst \<equiv> 16"
abbreviation (input) th_seq :: nat where "th_seq \<equiv> 4"
abbreviation (input) th_ack :: nat where "th_ack \<equiv> 8"
abbreviation (input) th_xoff :: nat where "th_xoff \<equiv> 12"
abbreviation (input) th_flags :: nat where "th_flags \<equiv> 13"
abbreviation (input) th_win :: nat where "th_win \<equiv> 14"
abbreviation (input) th_sum :: nat where "th_sum \<equiv> 16"
abbreviation (input) th_urp :: nat where "th_urp \<equiv> 18"

definition IPPROTO_TCP :: "8 word" where "IPPROTO_TCP = 6"

definition TH_FIN :: "8 word" where "TH_FIN = 0x01"
definition TH_SYN :: "8 word" where "TH_SYN = 0x02"
definition TH_RST :: "8 word" where "TH_RST = 0x04"
definition TH_PUSH :: "8 word" where "TH_PUSH = 0x08"
definition TH_ACK :: "8 word" where "TH_ACK = 0x10"
definition TH_URG :: "8 word" where "TH_URG = 0x20"

text \<open>The IP header length in words; the place of the TCP header; the TCP header length in words.\<close>

definition ip_hl :: "mem \<Rightarrow> nat" where
  "ip_hl m = unat (m 0 AND 0x0f)"

definition tcp_hl :: "mem \<Rightarrow> nat \<Rightarrow> nat" where
  "tcp_hl m t = unat (drop_bit 4 (m (t + th_xoff)))"

section \<open>State\<close>

definition MAX_STATES :: nat where "MAX_STATES = 16"

definition TYPE_IP :: "8 word" where "TYPE_IP = 0x40"
definition TYPE_UNCOMPRESSED_TCP :: "8 word" where "TYPE_UNCOMPRESSED_TCP = 0x70"
definition TYPE_COMPRESSED_TCP :: "8 word" where "TYPE_COMPRESSED_TCP = 0x80"

definition NEW_C :: "8 word" where "NEW_C = 0x40"
definition NEW_I :: "8 word" where "NEW_I = 0x20"
definition NEW_S :: "8 word" where "NEW_S = 0x08"
definition NEW_A :: "8 word" where "NEW_A = 0x04"
definition NEW_W :: "8 word" where "NEW_W = 0x02"
definition NEW_U :: "8 word" where "NEW_U = 0x01"
definition SPECIAL_I :: "8 word" where "SPECIAL_I = NEW_S OR NEW_W OR NEW_U"
definition SPECIAL_D :: "8 word" where "SPECIAL_D = NEW_S OR NEW_A OR NEW_W OR NEW_U"
definition SPECIALS_MASK :: "8 word" where "SPECIALS_MASK = NEW_S OR NEW_A OR NEW_W OR NEW_U"
definition TCP_PUSH_BIT :: "8 word" where "TCP_PUSH_BIT = 0x10"
definition SLF_TOSS :: "16 word" where "SLF_TOSS = 1"

lemmas sl_bits = NEW_C_def NEW_I_def NEW_S_def NEW_A_def NEW_W_def NEW_U_def SPECIAL_I_def SPECIAL_D_def
  SPECIALS_MASK_def TCP_PUSH_BIT_def

record cstate =
  cs_hlen :: nat
  cs_id :: "8 word"
  cs_hdr :: mem

text \<open>
  \<open>tstate\<close> is the circular list of the transmit states from the most recently used one (the
  successor of \<open>last_cs\<close>) to the least recently used one (\<open>last_cs\<close> itself); the link
  fields are its order.
\<close>

record slcompress =
  tstate :: "cstate list"
  rstate :: "cstate list"
  last_recv :: "8 word"
  last_xmit :: "8 word"
  sl_flags :: "16 word"
  sls_packets :: "32 word"
  sls_compressed :: "32 word"
  sls_searches :: "32 word"
  sls_misses :: "32 word"
  sls_uncompressedin :: "32 word"
  sls_compressedin :: "32 word"
  sls_errorin :: "32 word"
  sls_tossed :: "32 word"

definition sl_compress_init :: slcompress where
  "sl_compress_init =
     \<lparr>tstate = map (\<lambda>i. \<lparr>cs_hlen = 0, cs_id = of_nat i, cs_hdr = (\<lambda>_. 0)\<rparr>) (rev [0..<MAX_STATES]),
      rstate = replicate MAX_STATES \<lparr>cs_hlen = 0, cs_id = 0, cs_hdr = (\<lambda>_. 0)\<rparr>,
      last_recv = 255, last_xmit = 255, sl_flags = 0,
      sls_packets = 0, sls_compressed = 0, sls_searches = 0, sls_misses = 0,
      sls_uncompressedin = 0, sls_compressedin = 0, sls_errorin = 0, sls_tossed = 0\<rparr>"

section \<open>Coding of the numbers\<close>

definition encode_long :: "16 word \<Rightarrow> 8 word list" where
  "encode_long n = [0, hi8 n, lo8 n]"

definition ENCODE :: "16 word \<Rightarrow> 8 word list" where
  "ENCODE n = (if n \<ge> 256 then encode_long n else [lo8 n])"

definition ENCODEZ :: "16 word \<Rightarrow> 8 word list" where
  "ENCODEZ n = (if n \<ge> 256 \<or> n = 0 then encode_long n else [lo8 n])"

text \<open>The number at \<open>cp\<close> and the place behind it.\<close>

definition decode :: "mem \<Rightarrow> nat \<Rightarrow> 16 word \<times> nat" where
  "decode b cp = (if b cp = 0 then (get16 b (cp + 1), cp + 3) else (ucast (b cp), cp + 1))"

definition DECODEL :: "mem \<Rightarrow> nat \<Rightarrow> mem \<times> nat \<Rightarrow> mem \<times> nat" where
  "DECODEL b f st = (case st of (h, cp) \<Rightarrow>
     case decode b cp of (n, cp1) \<Rightarrow> (put32 f (get32 h f + ucast n) h, cp1))"

definition DECODES :: "mem \<Rightarrow> nat \<Rightarrow> mem \<times> nat \<Rightarrow> mem \<times> nat" where
  "DECODES b f st = (case st of (h, cp) \<Rightarrow>
     case decode b cp of (n, cp1) \<Rightarrow> (put16 f (get16 h f + n) h, cp1))"

definition DECODEU :: "mem \<Rightarrow> nat \<Rightarrow> mem \<times> nat \<Rightarrow> mem \<times> nat" where
  "DECODEU b f st = (case st of (h, cp) \<Rightarrow>
     case decode b cp of (n, cp1) \<Rightarrow> (put16 f n h, cp1))"

section \<open>Compressing\<close>

definition cs_match :: "mem \<Rightarrow> cstate \<Rightarrow> bool" where
  "cs_match ip cs \<longleftrightarrow> get32 ip ip_src = get32 (cs_hdr cs) ip_src \<and> get32 ip ip_dst = get32 (cs_hdr cs) ip_dst
     \<and> get32 ip (4 * ip_hl ip) = get32 (cs_hdr cs) (4 * ip_hl (cs_hdr cs))"

fun cs_search :: "mem \<Rightarrow> cstate list \<Rightarrow> nat \<Rightarrow> nat option" where
  "cs_search ip [] i = None"
| "cs_search ip (cs # css) i = (if cs_match ip cs then Some i else cs_search ip css (Suc i))"

text \<open>
  The state of the connection is brought to the front; when there is none the oldest one
  is, to be used again.
\<close>

definition sl_locate :: "mem \<Rightarrow> slcompress \<Rightarrow> bool \<times> slcompress" where
  "sl_locate ip sc =
     (case tstate sc of
        [] \<Rightarrow> (False, sc)
      | cs # rest \<Rightarrow>
          if cs_match ip cs then (True, sc)
          else case cs_search ip rest 0 of
            Some i \<Rightarrow> (True, sc\<lparr>tstate := rest ! i # cs # take i rest @ drop (Suc i) rest,
                                 sls_searches := sls_searches sc + of_nat (Suc i)\<rparr>)
          | None \<Rightarrow> (False, sc\<lparr>tstate := last (cs # rest) # butlast (cs # rest),
                                 sls_searches := sls_searches sc + of_nat (length rest),
                                 sls_misses := sls_misses sc + 1\<rparr>))"

definition front_hdr :: "mem \<Rightarrow> slcompress \<Rightarrow> slcompress" where
  "front_hdr h sc = sc\<lparr>tstate := (hd (tstate sc))\<lparr>cs_hdr := h\<rparr> # tl (tstate sc)\<rparr>"

definition mem_list :: "mem \<Rightarrow> nat \<Rightarrow> nat \<Rightarrow> 8 word list" where
  "mem_list m i j = map m [i..<j]"

definition sl_uncompressed :: "mem \<Rightarrow> nat \<Rightarrow> nat \<Rightarrow> slcompress \<Rightarrow> 8 word \<times> 8 word list \<times> slcompress" where
  "sl_uncompressed ip m_len hlen sc =
     (let cs = hd (tstate sc) in
      (TYPE_UNCOMPRESSED_TCP, mem_list (ip(ip_p := cs_id cs)) 0 m_len,
       (front_hdr (bcopy hlen ip (cs_hdr cs)) sc)\<lparr>last_xmit := cs_id cs\<rparr>))"

text \<open>Fields that are not expected to change.\<close>

definition sl_unexpected :: "mem \<Rightarrow> mem \<Rightarrow> bool" where
  "sl_unexpected ip oip =
     (let hl = ip_hl ip; t = 4 * hl; xo = unat (ip (t + th_xoff) AND 0xf0) in
      get16 ip 0 \<noteq> get16 oip 0 \<or> get16 ip 6 \<noteq> get16 oip 6 \<or> get16 ip 8 \<noteq> get16 oip 8
      \<or> ip (t + th_xoff) \<noteq> oip (t + th_xoff)
      \<or> hl > 5 \<and> bcmp_differs ip 20 oip 20 (4 * (hl - 5))
      \<or> xo > 80 \<and> bcmp_differs ip (t + 20) oip (t + 20) ((xo - 80) div 4))"

text \<open>
  The changing fields: the change mask, the coded numbers and the last values of \<open>deltaS\<close>
  and \<open>deltaA\<close>; \<open>None\<close>: send the packet uncompressed.
\<close>

definition sl_deltas :: "mem \<Rightarrow> mem \<Rightarrow> (8 word \<times> 8 word list \<times> 32 word \<times> 32 word) option" where
  "sl_deltas ip oip =
     (let t = 4 * ip_hl ip;
          urg = (ip (t + th_flags) AND TH_URG \<noteq> 0);
          (c0, s0) = (if urg then (NEW_U, ENCODEZ (get16 ip (t + th_urp))) else (0, []));
          dW = get16 ip (t + th_win) - get16 oip (t + th_win);
          (c1, s1) = (if dW \<noteq> 0 then (c0 OR NEW_W, s0 @ ENCODE dW) else (c0, s0));
          dA = get32 ip (t + th_ack) - get32 oip (t + th_ack);
          (c2, s2) = (if dA \<noteq> 0 then (c1 OR NEW_A, s1 @ ENCODE (ucast dA)) else (c1, s1));
          dS = get32 ip (t + th_seq) - get32 oip (t + th_seq);
          (c3, s3) = (if dS \<noteq> 0 then (c2 OR NEW_S, s2 @ ENCODE (ucast dS)) else (c2, s2))
      in if \<not> urg \<and> get16 ip (t + th_urp) \<noteq> get16 oip (t + th_urp) then None
         else if dA > 0xffff then None
         else if dS > 0xffff then None
         else Some (c3, s3, dS, dA))"

definition sl_special ::
  "nat \<Rightarrow> mem \<Rightarrow> mem \<Rightarrow> 8 word \<times> 8 word list \<times> 32 word \<times> 32 word \<Rightarrow> (8 word \<times> 8 word list) option" where
  "sl_special hlen ip oip ds =
     (case ds of (changes, new_seq, dS, dA) \<Rightarrow>
        let olen = get16 oip ip_len; data = ucast olen - of_nat hlen in
        if changes = 0
        then (if get16 ip ip_len \<noteq> olen \<and> unat olen = hlen then Some (changes, new_seq) else None)
        else if changes = SPECIAL_I \<or> changes = SPECIAL_D then None
        else if changes = NEW_S OR NEW_A
        then Some (if dS = dA \<and> dS = data then (SPECIAL_I, []) else (changes, new_seq))
        else if changes = NEW_S
        then Some (if dS = data then (SPECIAL_D, []) else (changes, new_seq))
        else Some (changes, new_seq))"

text \<open>
  The packet is sent compressed: the new header ends where the data begins; \<open>m_data\<close> and
  \<open>m_len\<close> are moved to it.
\<close>

definition sl_compressed ::
  "mem \<Rightarrow> nat \<Rightarrow> nat \<Rightarrow> bool \<Rightarrow> 8 word \<times> 8 word list \<Rightarrow> slcompress \<Rightarrow> (8 word \<times> 8 word list \<times> slcompress) option" where
  "sl_compressed ip m_len hlen compress_cid cn sc =
     (let cs = hd (tstate sc); oip = cs_hdr cs;
          t = 4 * ip_hl ip;
          dI = ucast (get16 ip ip_id) - ucast (get16 oip ip_id) :: 32 word;
          (c4, s4) = (if dI \<noteq> 1 then (fst cn OR NEW_I, snd cn @ ENCODEZ (ucast dI)) else cn);
          c5 = (if ip (t + th_flags) AND TH_PUSH \<noteq> 0 then c4 OR TCP_PUSH_BIT else c4);
          sum = get16 ip (t + th_sum);
          comp1 = front_hdr (bcopy hlen ip oip) sc;
          explicit = (\<not> compress_cid \<or> last_xmit sc \<noteq> cs_id cs);
          new = (if explicit then [c5 OR NEW_C, cs_id cs] else [c5]) @ [hi8 sum, lo8 sum] @ s4;
          comp2 = (if explicit then comp1\<lparr>last_xmit := cs_id cs\<rparr> else comp1)
      in if hlen < length new then None
         else Some (TYPE_COMPRESSED_TCP,
           mem_list (\<lambda>i. if i < hlen then new ! (i - (hlen - length new)) else ip i) (hlen - length new) m_len,
           comp2\<lparr>sls_compressed := sls_compressed comp2 + 1\<rparr>))"

definition sl_compress_tcp ::
  "mem \<Rightarrow> nat \<Rightarrow> slcompress \<Rightarrow> bool \<Rightarrow> (8 word \<times> 8 word list \<times> slcompress) option" where
  "sl_compress_tcp ip m_len sc compress_cid =
     (let t = 4 * ip_hl ip in
      if get16 ip ip_off AND 0x3fff \<noteq> 0 \<or> m_len < 40 then Some (TYPE_IP, mem_list ip 0 m_len, sc)
      else if ip (t + th_flags) AND (TH_SYN OR TH_FIN OR TH_RST OR TH_ACK) \<noteq> TH_ACK
      then Some (TYPE_IP, mem_list ip 0 m_len, sc)
      else
        let hlen = 4 * (ip_hl ip + tcp_hl ip t);
            (found, comp1) = sl_locate ip (sc\<lparr>sls_packets := sls_packets sc + 1\<rparr>);
            oip = cs_hdr (hd (tstate comp1))
        in if \<not> found \<or> sl_unexpected ip oip then Some (sl_uncompressed ip m_len hlen comp1)
           else case Option.bind (sl_deltas ip oip) (sl_special hlen ip oip) of
             None \<Rightarrow> Some (sl_uncompressed ip m_len hlen comp1)
           | Some cn \<Rightarrow> sl_compressed ip m_len hlen compress_cid cn comp1)"

section \<open>Uncompressing\<close>

definition sl_bad :: "slcompress \<Rightarrow> 8 word list \<times> slcompress" where
  "sl_bad sc = ([], sc\<lparr>sl_flags := sl_flags sc OR SLF_TOSS, sls_errorin := sls_errorin sc + 1\<rparr>)"

definition rstate_hdr :: "nat \<Rightarrow> mem \<Rightarrow> slcompress \<Rightarrow> slcompress" where
  "rstate_hdr i h sc = sc\<lparr>rstate := (rstate sc)[i := (rstate sc ! i)\<lparr>cs_hdr := h\<rparr>]\<rparr>"

text \<open>An uncompressed packet brings the state of its connection up to date.\<close>

definition uncompress_sync :: "mem \<Rightarrow> nat \<Rightarrow> slcompress \<Rightarrow> 8 word list \<times> slcompress" where
  "uncompress_sync b len sc =
     (let i = unat (b ip_p) in
      if i \<ge> MAX_STATES then sl_bad sc
      else
        let ip = b(ip_p := IPPROTO_TCP);
            hlen = 4 * (ip_hl ip + tcp_hl ip (4 * ip_hl ip));
            h = put16 ip_sum 0 (bcopy hlen ip (cs_hdr (rstate sc ! i)))
        in (mem_list ip 0 len,
            sc\<lparr>rstate := (rstate sc)[i := (rstate sc ! i)\<lparr>cs_hdr := h, cs_hlen := hlen\<rparr>],
                 last_recv := b ip_p, sl_flags := sl_flags sc AND NOT SLF_TOSS,
                 sls_uncompressedin := sls_uncompressedin sc + 1\<rparr>))"

text \<open>The fields of the saved header that the change mask names; \<open>cp\<close> runs over the packet.\<close>

definition uncompress_fields :: "mem \<Rightarrow> 8 word \<Rightarrow> nat \<Rightarrow> mem \<times> nat \<Rightarrow> mem \<times> nat" where
  "uncompress_fields b changes hlen0 st =
     (let h = fst st; t = 4 * ip_hl h;
          data = ucast (get16 h ip_len) - of_nat hlen0 :: 32 word;
          st1 =
            (if changes AND SPECIALS_MASK = SPECIAL_I
             then (put32 (t + th_seq) (get32 h (t + th_seq) + data)
                    (put32 (t + th_ack) (get32 h (t + th_ack) + data) h), snd st)
             else if changes AND SPECIALS_MASK = SPECIAL_D
             then (put32 (t + th_seq) (get32 h (t + th_seq) + data) h, snd st)
             else
               let sU = (if changes AND NEW_U \<noteq> 0
                         then DECODEU b (t + th_urp) (h(t + th_flags := h (t + th_flags) OR TH_URG), snd st)
                         else (h(t + th_flags := h (t + th_flags) AND NOT TH_URG), snd st));
                   sW = (if changes AND NEW_W \<noteq> 0 then DECODES b (t + th_win) sU else sU);
                   sA = (if changes AND NEW_A \<noteq> 0 then DECODEL b (t + th_ack) sW else sW)
               in (if changes AND NEW_S \<noteq> 0 then DECODEL b (t + th_seq) sA else sA))
      in (if changes AND NEW_I \<noteq> 0 then DECODES b ip_id st1
          else (put16 ip_id (get16 (fst st1) ip_id + 1) (fst st1), snd st1)))"

text \<open>
  The IP header checksum: the sum of \<open>n\<close> half words as the machine reads them (the Alpha is
  little-endian), folded twice.
\<close>

definition le16 :: "mem \<Rightarrow> nat \<Rightarrow> 16 word" where
  "le16 m i = push_bit 8 (ucast (m (i + 1))) OR ucast (m i)"

definition put_le16 :: "nat \<Rightarrow> 16 word \<Rightarrow> mem \<Rightarrow> mem" where
  "put_le16 i v m = m(i := lo8 v, i + 1 := hi8 v)"

definition fold16 :: "32 word \<Rightarrow> 32 word" where
  "fold16 x = (x AND 0xffff) + drop_bit 16 x"

definition ip_cksum :: "mem \<Rightarrow> nat \<Rightarrow> 16 word" where
  "ip_cksum m n = NOT (ucast (fold16 (fold16 (sum_list (map (\<lambda>i. ucast (le16 m (2 * i))) [0..<n])))))"

text \<open>The rebuilt packet: the saved header with its new length and checksum, then the data.\<close>

definition uncompress_packet :: "mem \<Rightarrow> nat \<Rightarrow> nat \<Rightarrow> cstate \<Rightarrow> mem \<Rightarrow> 8 word list" where
  "uncompress_packet b cp len cs h =
     (let hlen = cs_hlen cs;
          p = (\<lambda>i. if i < hlen then h i else b (cp + (i - hlen)))
      in mem_list (put_le16 ip_sum (ip_cksum p (2 * ip_hl (cs_hdr cs))) p) 0 (hlen + (len - cp)))"

definition uncompress_apply :: "mem \<Rightarrow> nat \<Rightarrow> 8 word \<Rightarrow> nat \<Rightarrow> slcompress \<Rightarrow> (8 word list \<times> slcompress) option" where
  "uncompress_apply b len changes cp sc =
     (let i = unat (last_recv sc) in
      if i \<ge> MAX_STATES then None
      else
        let cs = rstate sc ! i; h = cs_hdr cs; t = 4 * ip_hl h;
            h1 = put16 (t + th_sum) (get16 b cp) h;
            h2 = h1(t + th_flags := (if changes AND TCP_PUSH_BIT \<noteq> 0 then h1 (t + th_flags) OR TH_PUSH
                                     else h1 (t + th_flags) AND NOT TH_PUSH));
            (h3, cp3) = uncompress_fields b changes (cs_hlen cs) (h2, cp + 2)
        in if len < cp3 then Some (sl_bad (rstate_hdr i h3 sc))
           else
             let h4 = put16 ip_len (of_nat (len - cp3 + cs_hlen cs)) h3
             in Some (uncompress_packet b cp3 len cs h4, rstate_hdr i h4 sc))"

definition sl_uncompress_tcp ::
  "mem \<Rightarrow> nat \<Rightarrow> 8 word \<Rightarrow> slcompress \<Rightarrow> (8 word list \<times> slcompress) option" where
  "sl_uncompress_tcp b len type sc =
     (if type = TYPE_UNCOMPRESSED_TCP then Some (uncompress_sync b len sc)
      else if type \<noteq> TYPE_COMPRESSED_TCP then Some (sl_bad sc)
      else
        let comp1 = sc\<lparr>sls_compressedin := sls_compressedin sc + 1\<rparr>; changes = b 0 in
        if changes AND NEW_C \<noteq> 0
        then (if unat (b 1) \<ge> MAX_STATES then Some (sl_bad comp1)
              else uncompress_apply b len changes 2
                (comp1\<lparr>sl_flags := sl_flags comp1 AND NOT SLF_TOSS, last_recv := b 1\<rparr>))
        else if sl_flags comp1 AND SLF_TOSS \<noteq> 0
        then Some ([], comp1\<lparr>sls_tossed := sls_tossed comp1 + 1\<rparr>)
        else uncompress_apply b len changes 1 comp1)"

end
