(* ===== verification/Clist.thy ===== *)
theory Clist
  imports OSF_Prelude
begin

text \<open>
  Character queues of the terminal drivers, \<open>putc\<close>, \<open>b_to_q\<close>, \<open>unputc\<close> and \<open>getc\<close> of
  \<open>bsd/tty_subr.c\<close>, for characters without the quote mark.

  A queue is a chain of blocks of \<open>CBSIZE\<close> characters that come from one free list.  The
  model keeps the characters, the place of the first one in its block and the number of
  free blocks; a block is full when the place behind the last character is a multiple of
  \<open>CBSIZE\<close>.
\<close>

text \<open>\<open>CBLOCK\<close> less a pointer and the quote bits (\<open>sys/param.h\<close>).\<close>

definition CBSIZE :: nat where "CBSIZE = 64 - 8 - 8"

record clist =
  c_chars :: "8 word list"
  c_off :: nat

definition empty_clist :: clist where
  "empty_clist = \<lparr>c_chars = [], c_off = 0\<rparr>"

definition c_full :: "clist \<Rightarrow> bool" where
  "c_full q \<longleftrightarrow> c_chars q = [] \<or> (c_off q + length (c_chars q)) mod CBSIZE = 0"

text \<open>\<open>None\<close>: the result is -1.\<close>

definition c_putc :: "8 word \<Rightarrow> clist \<times> nat \<Rightarrow> (clist \<times> nat) option" where
  "c_putc c st = (case st of (q, n) \<Rightarrow>
     if c_full q
     then (if n = 0 then None
           else Some (\<lparr>c_chars = c_chars q @ [c], c_off = (if c_chars q = [] then 0 else c_off q)\<rparr>, n - 1))
     else Some (q\<lparr>c_chars := c_chars q @ [c]\<rparr>, n))"

text \<open>What is left is what could not be moved.\<close>

fun b_to_q :: "8 word list \<Rightarrow> clist \<times> nat \<Rightarrow> 8 word list \<times> clist \<times> nat" where
  "b_to_q [] st = ([], st)"
| "b_to_q (c # cs) st = (case c_putc c st of None \<Rightarrow> (c # cs, st) | Some st1 \<Rightarrow> b_to_q cs st1)"

definition c_unputc :: "clist \<times> nat \<Rightarrow> clist \<times> nat" where
  "c_unputc st = (case st of (q, n) \<Rightarrow>
     if c_chars q = [] then (q, n)
     else let cs = butlast (c_chars q) in
       if cs = [] then (empty_clist, n + 1)
       else if (c_off q + length cs) mod CBSIZE = 0 then (q\<lparr>c_chars := cs\<rparr>, n + 1)
       else (q\<lparr>c_chars := cs\<rparr>, n))"

definition c_getc :: "clist \<times> nat \<Rightarrow> 8 word option \<times> clist \<times> nat" where
  "c_getc st = (case st of (q, n) \<Rightarrow>
     (case c_chars q of
        [] \<Rightarrow> (None, empty_clist, n)
      | c # cs \<Rightarrow>
          if cs = [] then (Some c, empty_clist, n + 1)
          else if (c_off q + 1) mod CBSIZE = 0 then (Some c, \<lparr>c_chars = cs, c_off = 0\<rparr>, n + 1)
          else (Some c, \<lparr>c_chars = cs, c_off = c_off q + 1\<rparr>, n)))"

section \<open>Room\<close>

text \<open>The number of characters that can still be queued.\<close>

definition c_slack :: "clist \<Rightarrow> nat" where
  "c_slack q = (if c_chars q = [] then 0 else (CBSIZE - (c_off q + length (c_chars q)) mod CBSIZE) mod CBSIZE)"

definition c_room :: "clist \<times> nat \<Rightarrow> nat" where
  "c_room st = c_slack (fst st) + CBSIZE * snd st"

lemma CBSIZE_pos [simp]: "0 < CBSIZE" "CBSIZE \<noteq> 0" "1 < CBSIZE"
  by (simp_all add: CBSIZE_def)

lemma c_slack_less: "c_slack q < CBSIZE"
  by (simp add: c_slack_def)

lemma c_full_slack: "c_full q \<longleftrightarrow> c_slack q = 0"
proof -
  have "y < CBSIZE \<Longrightarrow> (CBSIZE - y) mod CBSIZE = 0 \<longleftrightarrow> y = 0" for y
    by (cases "y = 0") auto
  from this [OF mod_less_divisor [OF CBSIZE_pos(1)]] show ?thesis
    by (simp add: c_full_def c_slack_def)
qed

lemma slack_step: "(CBSIZE - Suc x mod CBSIZE) mod CBSIZE = (if x mod CBSIZE = 0 then CBSIZE - 1 else (CBSIZE - x mod CBSIZE) mod CBSIZE - 1)"
proof -
  have "x mod CBSIZE < CBSIZE" by simp
  then show ?thesis by (cases "Suc (x mod CBSIZE) = CBSIZE") (auto simp: mod_Suc)
qed

lemma c_putc_None: "c_putc c st = None \<longleftrightarrow> c_room st = 0"
  by (cases st) (auto simp: c_putc_def c_room_def c_full_slack)

lemma c_putc_Some:
  assumes "c_putc c st = Some st1"
  shows "c_chars (fst st1) = c_chars (fst st) @ [c]" "c_room st = Suc (c_room st1)"
proof -
  obtain q n where st: "st = (q, n)" by (cases st)
  show "c_chars (fst st1) = c_chars (fst st) @ [c]"
    using assms st by (auto simp: c_putc_def split: if_splits)
  have s: "c_slack q \<noteq> 0 \<Longrightarrow> c_slack (q\<lparr>c_chars := c_chars q @ [c]\<rparr>) = c_slack q - 1"
    using slack_step [of "c_off q + length (c_chars q)"] by (auto simp: c_slack_def)
  have e: "c_slack \<lparr>c_chars = c_chars q @ [c], c_off = (if c_chars q = [] then 0 else c_off q)\<rparr> = CBSIZE - 1" if "c_full q"
    using that slack_step [of "c_off q + length (c_chars q)"] slack_step [of 0] by (auto simp: c_slack_def c_full_def)
  show "c_room st = Suc (c_room st1)"
  proof (cases "c_full q")
    case True
    then obtain m where m: "n = Suc m" using assms st by (cases n) (auto simp: c_putc_def)
    then have "st1 = (\<lparr>c_chars = c_chars q @ [c], c_off = (if c_chars q = [] then 0 else c_off q)\<rparr>, m)"
      using assms st True by (simp add: c_putc_def)
    then show ?thesis using e [OF True] True st m by (simp add: c_room_def c_full_slack)
  next
    case False
    then have "st1 = (q\<lparr>c_chars := c_chars q @ [c]\<rparr>, n)" using assms st by (simp add: c_putc_def)
    then show ?thesis using s False st by (simp add: c_room_def c_full_slack)
  qed
qed

lemma c_putc_room: "c_room st \<noteq> 0 \<Longrightarrow> \<exists>st1. c_putc c st = Some st1"
  using c_putc_None by (cases "c_putc c st") auto

text \<open>Moving characters into a queue: as many as there is room for, in order.\<close>

lemma b_to_q_moves:
  "b_to_q cs st = (rest, st1) \<Longrightarrow>
   rest = drop (c_room st) cs \<and> c_chars (fst st1) = c_chars (fst st) @ take (c_room st) cs
   \<and> c_room st1 = c_room st - length cs"
proof (induction cs st rule: b_to_q.induct)
  case (2 c cs st)
  show ?case
  proof (cases "c_putc c st")
    case None
    moreover from None have "c_room st = 0" by (simp add: c_putc_None)
    ultimately show ?thesis using 2(2) by auto
  next
    case (Some st')
    then show ?thesis using 2 c_putc_Some [OF Some] by auto
  qed
qed auto

text \<open>Taking the last character back makes room for one, and taking the first one gives it.\<close>

lemma c_getc_first:
  "c_chars q = c # cs \<Longrightarrow> \<exists>q1 n1. c_getc (q, n) = (Some c, q1, n1) \<and> c_chars q1 = cs"
  by (auto simp: c_getc_def empty_clist_def)

lemma c_unputc_last: "c_chars (fst (c_unputc st)) = butlast (c_chars (fst st))"
  by (cases st) (auto simp: c_unputc_def empty_clist_def Let_def)

section \<open>Blocks\<close>

text \<open>
  The blocks a queue holds, from the place of its first character.  Every operation keeps
  the number of blocks in the queue and on the free list together.
\<close>

definition c_blocks :: "clist \<Rightarrow> nat" where
  "c_blocks q = (c_off q + length (c_chars q) + (CBSIZE - 1)) div CBSIZE"

definition c_inv :: "nat \<Rightarrow> clist \<times> nat \<Rightarrow> bool" where
  "c_inv k st \<longleftrightarrow> c_off (fst st) < CBSIZE \<and> (c_chars (fst st) = [] \<longrightarrow> c_off (fst st) = 0)
     \<and> snd st + c_blocks (fst st) = k"

lemma c_inv_empty: "c_inv k (empty_clist, k)"
  by (simp add: c_inv_def c_blocks_def empty_clist_def)

lemma c_inv_emptyD: "c_inv k st \<Longrightarrow> c_chars (fst st) = [] \<Longrightarrow> st = (empty_clist, k)"
  by (cases st; cases "fst st") (auto simp: c_inv_def c_blocks_def empty_clist_def)

lemma c_blocks_step:
  "c_blocks (q\<lparr>c_chars := c_chars q @ [c]\<rparr>)
   = (if (c_off q + length (c_chars q)) mod CBSIZE = 0 then Suc (c_blocks q) else c_blocks q)"
proof -
  have "(Suc x + 47) div 48 = (if x mod 48 = 0 then Suc ((x + 47) div 48) else (x + 47) div 48)" for x :: nat
    using div_Suc [of "x + 47" 48] by simp
  from this [of "c_off q + length (c_chars q)"] show ?thesis by (simp add: c_blocks_def CBSIZE_def)
qed

lemma c_putc_inv:
  assumes "c_inv k st" "c_putc c st = Some st1"
  shows "c_inv k st1"
proof -
  obtain q n where st: "st = (q, n)" by (cases st)
  have "(if c_chars q = [] then 0 else c_off q) = c_off q" using assms(1) st by (auto simp: c_inv_def)
  then have "st1 = (q\<lparr>c_chars := c_chars q @ [c]\<rparr>, if c_full q then n - 1 else n)" "c_full q \<Longrightarrow> n \<noteq> 0"
    using assms(2) by (auto simp: st c_putc_def split: if_splits)
  then show ?thesis
    using assms(1) c_blocks_step [of q c] by (auto simp: st c_inv_def c_full_def)
qed

lemma c_getc_inv:
  assumes "c_inv k st"
  shows "c_inv k (snd (c_getc st))"
proof -
  obtain cs off n where st: "st = (\<lparr>c_chars = cs, c_off = off\<rparr>, n)" by (metis clist.cases prod.exhaust)
  show ?thesis
  proof (cases cs)
    case Nil
    then show ?thesis using assms by (auto simp: st c_getc_def c_inv_def c_blocks_def empty_clist_def CBSIZE_def)
  next
    case (Cons c ds)
    have o: "off < 48" "n + (off + Suc (length ds) + 47) div 48 = k"
      using assms Cons by (simp_all add: st c_inv_def c_blocks_def CBSIZE_def)
    show ?thesis
    proof (cases "ds = []")
      case True
      then show ?thesis using o Cons by (auto simp: st c_getc_def c_inv_def c_blocks_def empty_clist_def CBSIZE_def)
    next
      case False
      show ?thesis
      proof (cases "(off + 1) mod CBSIZE = 0")
        case True
        then have "off = 47" using o(1) unfolding CBSIZE_def by presburger
        then show ?thesis using o(2) False Cons by (simp add: st c_getc_def c_inv_def c_blocks_def CBSIZE_def)
      next
        case no: False
        then have "Suc off < 48" using o(1) unfolding CBSIZE_def by presburger
        then show ?thesis using o(2) False no Cons by (simp add: st c_getc_def c_inv_def c_blocks_def CBSIZE_def)
      qed
    qed
  qed
qed

lemma c_unputc_inv:
  assumes "c_inv k st"
  shows "c_inv k (c_unputc st)"
proof -
  obtain q n where st: "st = (q, n)" by (cases st)
  show ?thesis
  proof (cases "c_chars q" rule: rev_cases)
    case Nil
    then show ?thesis using assms by (simp add: st c_unputc_def)
  next
    case (snoc ds c)
    let ?p = "q\<lparr>c_chars := ds\<rparr>"
    have q: "q = ?p\<lparr>c_chars := c_chars ?p @ [c]\<rparr>" using snoc by simp
    have B: "c_blocks q = (if (c_off q + length ds) mod CBSIZE = 0 then Suc (c_blocks ?p) else c_blocks ?p)"
      by (subst q, subst c_blocks_step) simp
    show ?thesis
    proof (cases "ds = []")
      case True
      then have "c_blocks q = 1" using assms snoc by (simp add: st c_inv_def c_blocks_def CBSIZE_def div_add_self1)
      then show ?thesis using True assms snoc by (simp add: st c_unputc_def c_inv_def c_blocks_def empty_clist_def CBSIZE_def)
    next
      case False
      then show ?thesis using assms snoc B by (auto simp: st c_unputc_def c_inv_def Let_def)
    qed
  qed
qed

lemma b_to_q_inv: "c_inv k st \<Longrightarrow> b_to_q cs st = (rest, st1) \<Longrightarrow> c_inv k st1"
  by (induction cs st rule: b_to_q.induct) (auto dest: c_putc_inv split: option.splits)

end
