(* ===== verification/If_sl.thy ===== *)
theory If_sl
  imports Slcompress Clist
begin

text \<open>
  The serial line interface \<open>net/if_sl.c\<close>: \<open>sloutput\<close> classifies, compresses and queues a
  packet, \<open>slstart\<close> frames queued packets into the terminal's output queue, \<open>slinput\<close> takes
  one received character and delivers a packet at the end of a frame.

  A packet is a list of mbufs, each the list of its bytes.  What the terminal driver sends
  (\<open>t_oproc\<close>) is taken from the front of the output queue and kept in \<open>sc_line\<close>; packets
  handed to \<open>netisr_input\<close> are kept in \<open>sc_netisr\<close>.
\<close>

section \<open>State\<close>

definition FRAME_END :: "8 word" where "FRAME_END = 0xc0"
definition FRAME_ESCAPE :: "8 word" where "FRAME_ESCAPE = 0xdb"
definition TRANS_FRAME_END :: "8 word" where "TRANS_FRAME_END = 0xdc"
definition TRANS_FRAME_ESCAPE :: "8 word" where "TRANS_FRAME_ESCAPE = 0xdd"

definition SLMTU :: nat where "SLMTU = 296"
definition SLIP_HIWAT :: nat where "SLIP_HIWAT = 100"
definition CLISTRESERVE :: nat where "CLISTRESERVE = 1024"
definition BUFOFFSET :: nat where "BUFOFFSET = 128"

definition ABT_ESC :: "8 word" where "ABT_ESC = 0x1b"
definition ABT_WAIT :: int where "ABT_WAIT = 1"
definition ABT_RECYCLE :: int where "ABT_RECYCLE = 5 * 2 + 2"
definition ABT_SOFT :: int where "ABT_SOFT = 3"

definition SC_COMPRESS :: "32 word" where "SC_COMPRESS = 0x0002"
definition SC_NOICMP :: "32 word" where "SC_NOICMP = 0x0004"
definition SC_AUTOCOMP :: "32 word" where "SC_AUTOCOMP = 0x0008"
definition SC_ABORT :: "32 word" where "SC_ABORT = 0x10000"

definition IPPROTO_ICMP :: "8 word" where "IPPROTO_ICMP = 1"

type_synonym packet = "8 word list list"

record sl_softc =
  sc_open :: bool           \<comment> \<open>\<open>sc_ttyp\<close> is set\<close>
  sc_carr :: bool           \<comment> \<open>\<open>TS_CARR_ON\<close> of the terminal\<close>
  sc_fastq :: "packet list"
  sc_snd :: "packet list"
  sc_fastq_drops :: nat
  sc_outq :: "clist \<times> nat"  \<comment> \<open>\<open>t_outq\<close> and the free blocks\<close>
  sc_line :: "8 word list"
  sc_netisr :: "8 word list list"
  sc_data :: "8 word list"  \<comment> \<open>from \<open>sc_buf\<close> up to \<open>sc_mp\<close>\<close>
  sc_escape :: bool
  sc_flags :: "32 word"
  sc_comp :: slcompress
  sc_bytessent :: "32 word"
  sc_bytesrcvd :: "32 word"
  sc_lasttime :: int
  sc_starttime :: int
  sc_abortcount :: int
  if_collisions :: nat
  if_opackets :: nat
  if_obytes :: "32 word"
  if_ipackets :: nat
  if_ibytes :: nat
  if_ierrors :: nat
  if_iqdrops :: nat

text \<open>
  What lies outside: \<open>MCLBYTES\<close>; how many characters the driver takes when it is called;
  the old contents of the input buffer; whether \<open>sl_btom\<close> gets its mbuf for so many bytes;
  whether \<open>netisr_input\<close> takes the packet; the time.
\<close>

record sl_env =
  se_mclbytes :: nat
  se_oproc :: "clist \<Rightarrow> nat"
  se_stale :: mem
  se_mget :: "nat \<Rightarrow> bool"
  se_netisr :: "8 word list \<Rightarrow> bool"
  se_now :: int

definition SLMAX :: "sl_env \<Rightarrow> nat" where
  "SLMAX env = se_mclbytes env - BUFOFFSET"

section \<open>Opening and closing\<close>

text \<open>\<open>slinit\<close> with its buffer allocated.\<close>

definition slinit :: "sl_softc \<Rightarrow> sl_softc" where
  "slinit sc = sc\<lparr>sc_data := [], sc_comp := sl_compress_init\<rparr>"

text \<open>\<open>slclose\<close>: the terminal queue is flushed and the unit given up.\<close>

definition slclose :: "sl_softc \<Rightarrow> sl_softc" where
  "slclose sc = sc\<lparr>sc_open := False, sc_data := []\<rparr>"

section \<open>Output\<close>

definition interactive_port :: "int \<Rightarrow> bool" where
  "interactive_port p \<longleftrightarrow> [0, 513, 0, 0, 0, 21, 0, 23] ! nat (p mod 8) = p"

definition is_special :: "8 word \<Rightarrow> bool" where
  "is_special c \<longleftrightarrow> c = FRAME_ESCAPE \<or> c = FRAME_END"

text \<open>
  The bytes of one mbuf: runs of ordinary characters go as they are, a special one as two;
  when the output queue is full the rest of the mbuf is dropped.
\<close>

function sl_put_mbuf :: "8 word list \<Rightarrow> (clist \<times> nat) \<times> 32 word \<Rightarrow> (clist \<times> nat) \<times> 32 word" where
  "sl_put_mbuf bs st =
     (if bs = [] then st
      else
        let run = takeWhile (\<lambda>c. \<not> is_special c) bs; rest = dropWhile (\<lambda>c. \<not> is_special c) bs;
            (left, q1) = b_to_q run (fst st)
        in if left \<noteq> [] then (q1, snd st)
           else
             let sent = snd st + of_nat (length run)
             in case rest of
                  [] \<Rightarrow> (q1, sent)
                | c # cs \<Rightarrow>
                    (case c_putc FRAME_ESCAPE q1 of
                       None \<Rightarrow> (q1, sent)
                     | Some q2 \<Rightarrow>
                         (case c_putc (if c = FRAME_ESCAPE then TRANS_FRAME_ESCAPE else TRANS_FRAME_END) q2 of
                            None \<Rightarrow> (c_unputc q2, sent)
                          | Some q3 \<Rightarrow> sl_put_mbuf cs (q3, sent + 2))))"
  by pat_completeness auto

termination sl_put_mbuf
proof (relation "measure (\<lambda>(bs, st). length bs)")
  fix bs :: "8 word list" and st :: "(clist \<times> nat) \<times> 32 word" and c cs and x y z q2 q3 and run rest left q1 sent
  assume "rest = dropWhile (\<lambda>c. \<not> is_special c) bs" "rest = c # cs"
  then have "length (c # cs) \<le> length bs" by (metis length_dropWhile_le)
  then show "((cs, q3, sent + 2), bs, st) \<in> measure (\<lambda>(bs, st). length bs)" by simp
qed simp

declare sl_put_mbuf.simps [simp del]

text \<open>One packet: the end mark in front when the line was idle, the mbufs, the end mark.\<close>

definition sl_put_packet :: "packet \<Rightarrow> sl_softc \<Rightarrow> sl_softc" where
  "sl_put_packet m sc =
     (let (q0, sent0) =
            (if c_chars (fst (sc_outq sc)) = []
             then (case c_putc FRAME_END (sc_outq sc) of Some q \<Rightarrow> q | None \<Rightarrow> sc_outq sc, sc_bytessent sc + 1)
             else (sc_outq sc, sc_bytessent sc));
          (q1, sent1) = foldl (\<lambda>st bs. sl_put_mbuf bs st) (q0, sent0) m
      in case c_putc FRAME_END q1 of
           None \<Rightarrow>
             (let q2 = c_unputc q1 in
              sc\<lparr>sc_outq := (case c_putc FRAME_END q2 of Some q \<Rightarrow> q | None \<Rightarrow> q2), sc_bytessent := sent1,
                 if_collisions := if_collisions sc + 1, if_obytes := sent1\<rparr>)
         | Some q2 \<Rightarrow>
             sc\<lparr>sc_outq := q2, sc_bytessent := sent1 + 1, if_opackets := if_opackets sc + 1, if_obytes := sent1 + 1\<rparr>)"

text \<open>The driver takes characters from the queue.\<close>

fun take_chars :: "nat \<Rightarrow> sl_softc \<Rightarrow> sl_softc" where
  "take_chars 0 sc = sc"
| "take_chars (Suc n) sc =
     (case c_getc (sc_outq sc) of
        (None, q) \<Rightarrow> sc
      | (Some c, q) \<Rightarrow> take_chars n (sc\<lparr>sc_outq := q, sc_line := sc_line sc @ [c]\<rparr>))"

definition t_oproc :: "sl_env \<Rightarrow> sl_softc \<Rightarrow> sl_softc" where
  "t_oproc env sc = take_chars (se_oproc env (fst (sc_outq sc))) sc"

text \<open>The top of the loop: the driver is started; the high water mark ends the loop.\<close>

definition slstart_kick :: "sl_env \<Rightarrow> sl_softc \<Rightarrow> bool \<times> sl_softc" where
  "slstart_kick env sc =
     (if c_chars (fst (sc_outq sc)) \<noteq> []
      then (let sc1 = t_oproc env sc in (SLIP_HIWAT < length (c_chars (fst (sc_outq sc1))), sc1))
      else (False, sc))"

lemma take_chars_queues [simp]:
  "sc_fastq (take_chars n sc) = sc_fastq sc" "sc_snd (take_chars n sc) = sc_snd sc"
  by (induction n sc rule: take_chars.induct) (auto split: prod.splits option.splits)

lemma slstart_kick_queues:
  "sc_fastq (snd (slstart_kick env sc)) = sc_fastq sc" "sc_snd (snd (slstart_kick env sc)) = sc_snd sc"
  by (simp_all add: slstart_kick_def t_oproc_def Let_def)

text \<open>The next packet: interactive traffic goes first.\<close>

definition sl_dequeue :: "sl_softc \<Rightarrow> (packet \<times> sl_softc) option" where
  "sl_dequeue sc =
     (case sc_fastq sc of
        m # ms \<Rightarrow> Some (m, sc\<lparr>sc_fastq := ms\<rparr>)
      | [] \<Rightarrow> (case sc_snd sc of
                m # ms \<Rightarrow> Some (m, sc\<lparr>sc_snd := ms\<rparr>)
              | [] \<Rightarrow> None))"

function slstart :: "sl_env \<Rightarrow> sl_softc \<Rightarrow> sl_softc" where
  "slstart env sc =
     (case slstart_kick env sc of
        (True, sc1) \<Rightarrow> sc1
      | (False, sc1) \<Rightarrow>
          if \<not> sc_open sc1 then sc1
          else case sl_dequeue sc1 of
            None \<Rightarrow> sc1
          | Some (m, sc2) \<Rightarrow>
              if CBSIZE * snd (sc_outq sc2) < CLISTRESERVE + SLMTU
              then slstart env (sc2\<lparr>if_collisions := if_collisions sc2 + 1\<rparr>)
              else slstart env (sl_put_packet m sc2))"
  by pat_completeness auto

lemma sl_dequeue_less:
  assumes "sl_dequeue sc = Some (m, sc2)"
  shows "length (sc_fastq sc2) + length (sc_snd sc2) < length (sc_fastq sc) + length (sc_snd sc)"
  using assms by (auto simp: sl_dequeue_def split: list.splits)

lemma sl_put_packet_queues [simp]:
  "sc_fastq (sl_put_packet m sc) = sc_fastq sc" "sc_snd (sl_put_packet m sc) = sc_snd sc"
  by (simp_all add: sl_put_packet_def Let_def split: prod.splits option.splits)

lemma slstart_less:
  assumes "(x, sc1) = slstart_kick env sc" "sl_dequeue sc1 = Some y" "(m, sc2) = y"
  shows "length (sc_fastq sc2) + length (sc_snd sc2) < length (sc_fastq sc) + length (sc_snd sc)"
proof -
  have "sc_fastq sc1 = sc_fastq sc" "sc_snd sc1 = sc_snd sc"
    using slstart_kick_queues [of env sc] assms(1) by (metis snd_conv)+
  then show ?thesis using sl_dequeue_less assms(2,3) by metis
qed

termination slstart
  by (relation "measure (\<lambda>(env, sc). length (sc_fastq sc) + length (sc_snd sc))") (auto dest: slstart_less)

declare slstart.simps [simp del]

text \<open>
  The packet's first mbuf is \<open>ip\<close> with \<open>m_len\<close> bytes, the other mbufs follow; \<open>None\<close>: the
  compression writes outside the packet.  The result is the error number.
\<close>

definition or_first :: "8 word \<Rightarrow> 8 word list \<Rightarrow> 8 word list" where
  "or_first p bs = (case bs of [] \<Rightarrow> [] | b # bs1 \<Rightarrow> (b OR p) # bs1)"

definition sl_interactive :: "mem \<Rightarrow> bool" where
  "sl_interactive ip =
     (let p = sint (get32 ip (4 * ip_hl ip)) in interactive_port (p mod 65536) \<or> interactive_port (p div 65536))"

definition EAFNOSUPPORT_val :: int where "EAFNOSUPPORT_val = 47"
definition ENETDOWN_val :: int where "ENETDOWN_val = 50"
definition ENOBUFS_val :: int where "ENOBUFS_val = 55"
definition EHOSTUNREACH_val :: int where "EHOSTUNREACH_val = 65"

text \<open>Queueing; only the interactive queue is tested for being full (32 packets).\<close>

definition sl_enqueue :: "sl_env \<Rightarrow> bool \<Rightarrow> packet \<Rightarrow> sl_softc \<Rightarrow> int \<times> sl_softc" where
  "sl_enqueue env fast m sc =
     (if fast \<and> length (sc_fastq sc) \<ge> 32 then (ENOBUFS_val, sc\<lparr>sc_fastq_drops := sc_fastq_drops sc + 1\<rparr>)
      else
        let sc1 = (if fast then sc\<lparr>sc_fastq := sc_fastq sc @ [m]\<rparr> else sc\<lparr>sc_snd := sc_snd sc @ [m]\<rparr>)
        in (0, if c_chars (fst (sc_outq sc1)) = [] then slstart env sc1 else sc1))"

definition sloutput ::
  "sl_env \<Rightarrow> bool \<Rightarrow> mem \<Rightarrow> nat \<Rightarrow> packet \<Rightarrow> sl_softc \<Rightarrow> (int \<times> sl_softc) option" where
  "sloutput env af_inet ip m_len rest sc =
     (if \<not> af_inet then Some (EAFNOSUPPORT_val, sc)
      else if \<not> sc_open sc then Some (ENETDOWN_val, sc)
      else if \<not> sc_carr sc then Some (EHOSTUNREACH_val, sc)
      else if ip ip_p = IPPROTO_TCP
      then
        let fast = sl_interactive ip in
        if sc_flags sc AND SC_COMPRESS \<noteq> 0
        then Option.bind (sl_compress_tcp ip m_len (sc_comp sc) fast) (\<lambda>(p, bs, comp1).
               Some (sl_enqueue env fast (or_first p bs # rest) (sc\<lparr>sc_comp := comp1\<rparr>)))
        else Some (sl_enqueue env fast (mem_list ip 0 m_len # rest) sc)
      else if sc_flags sc AND SC_NOICMP \<noteq> 0 \<and> ip ip_p = IPPROTO_ICMP then Some (0, sc)
      else Some (sl_enqueue env False (mem_list ip 0 m_len # rest) sc))"

section \<open>Input\<close>

definition sl_newpack :: "sl_softc \<Rightarrow> sl_softc" where
  "sl_newpack sc = sc\<lparr>sc_data := [], sc_escape := False\<rparr>"

definition sl_error :: "sl_softc \<Rightarrow> sl_softc" where
  "sl_error sc = sl_newpack (sc\<lparr>if_ierrors := if_ierrors sc + 1\<rparr>)"

text \<open>The escapes that abort the line: three of them with idle time around close it.\<close>

definition sl_abort :: "sl_env \<Rightarrow> 8 word \<Rightarrow> sl_softc \<Rightarrow> bool \<times> sl_softc" where
  "sl_abort env c sc =
     (if sc_flags sc AND SC_ABORT = 0 then (False, sc)
      else
        let now = se_now env;
            sc1 = (if c = ABT_ESC \<and> now \<ge> sc_lasttime sc + ABT_WAIT
                   then sc\<lparr>sc_abortcount := sc_abortcount sc + 1,
                           sc_starttime := (if sc_abortcount sc + 1 = 1 then now else sc_starttime sc)\<rparr>
                   else sc);
            sc2 = (if sc_abortcount sc1 \<noteq> 0 \<and> now \<ge> sc_starttime sc1 + ABT_RECYCLE
                   then sc1\<lparr>sc_abortcount := 0\<rparr> else sc1)
        in if sc_abortcount sc1 \<noteq> 0 \<and> sc_abortcount sc2 \<ge> ABT_SOFT \<and> now \<ge> sc_lasttime sc2 + ABT_WAIT
           then (True, slclose sc2)
           else (False, sc2\<lparr>sc_lasttime := now\<rparr>))"

text \<open>The bytes of a whole packet go up.\<close>

definition sl_deliver :: "sl_env \<Rightarrow> 8 word list \<Rightarrow> sl_softc \<Rightarrow> sl_softc" where
  "sl_deliver env p sc =
     (if \<not> se_mget env (length p) then sl_error sc
      else
        let sc1 = sc\<lparr>if_ipackets := if_ipackets sc + 1, sc_netisr := sc_netisr sc @ [p]\<rparr> in
        sl_newpack (if se_netisr env p then sc1
                    else sc1\<lparr>if_ierrors := if_ierrors sc1 + 1, if_iqdrops := if_iqdrops sc1 + 1\<rparr>))"

text \<open>
  A packet that is not plain IP: its type, and whether it may be uncompressed.  \<open>None\<close>:
  uncompressing touches memory outside the connection table.
\<close>

definition sl_expand :: "sl_env \<Rightarrow> 8 word \<Rightarrow> 8 word list \<Rightarrow> bool \<Rightarrow> sl_softc \<Rightarrow> sl_softc option" where
  "sl_expand env ty bs enable sc =
     Option.bind (sl_uncompress_tcp (\<lambda>i. if i < length bs then bs ! i else se_stale env i) (length bs) ty (sc_comp sc))
       (\<lambda>(p, comp1). let sc1 = sc\<lparr>sc_comp := comp1\<rparr> in
          Some (if p = [] then sl_error sc1
                else sl_deliver env p (if enable then sc1\<lparr>sc_flags := sc_flags sc1 OR SC_COMPRESS\<rparr> else sc1)))"

definition sl_frame :: "sl_env \<Rightarrow> sl_softc \<Rightarrow> sl_softc option" where
  "sl_frame env sc =
     (let bs = sc_data sc in
      if length bs < 3 then Some (sl_newpack sc)
      else
        let c = bs ! 0 AND 0xf0 in
        if c = 0x40 then Some (sl_deliver env bs sc)
        else
          let ty = (if c AND 0x80 \<noteq> 0 then TYPE_COMPRESSED_TCP else c);
              bs1 = (if c AND 0x80 = 0 \<and> c = TYPE_UNCOMPRESSED_TCP then bs[0 := bs ! 0 AND 0x4f] else bs)
          in if sc_flags sc AND SC_COMPRESS \<noteq> 0 then sl_expand env ty bs1 False sc
             else if sc_flags sc AND SC_AUTOCOMP \<noteq> 0 \<and> ty = TYPE_UNCOMPRESSED_TCP \<and> length bs \<ge> 40
             then sl_expand env ty bs1 True sc
             else Some (sl_error sc))"

definition slinput :: "sl_env \<Rightarrow> 8 word \<Rightarrow> sl_softc \<Rightarrow> sl_softc option" where
  "slinput env c sc =
     (if \<not> sc_open sc \<or> \<not> sc_carr sc then Some sc
      else
        let sc1 = sc\<lparr>sc_bytesrcvd := sc_bytesrcvd sc + 1, if_ibytes := if_ibytes sc + 1\<rparr> in
        case sl_abort env c sc1 of
          (True, sc2) \<Rightarrow> Some sc2
        | (False, sc2) \<Rightarrow>
            if c = FRAME_ESCAPE then Some (sc2\<lparr>sc_escape := True\<rparr>)
            else if c = FRAME_END then sl_frame env sc2
            else
              let c1 = (if c = TRANS_FRAME_ESCAPE \<and> sc_escape sc2 then FRAME_ESCAPE
                        else if c = TRANS_FRAME_END \<and> sc_escape sc2 then FRAME_END else c)
              in if length (sc_data sc2) < SLMAX env
                 then Some (sc2\<lparr>sc_data := sc_data sc2 @ [c1], sc_escape := False\<rparr>)
                 else Some (sl_error sc2))"

fun sl_receive :: "sl_env \<Rightarrow> 8 word list \<Rightarrow> sl_softc \<Rightarrow> sl_softc option" where
  "sl_receive env [] sc = Some sc"
| "sl_receive env (c # cs) sc = Option.bind (slinput env c sc) (sl_receive env cs)"

end
