(* ===== verification/Slcompress_Sync.thy ===== *)
theory Slcompress_Sync
  imports Slcompress
begin

text \<open>
  What the two ends of a line share: a saved header of the sender and its image at the
  receiver, and that one packet keeps them equal.
\<close>

section \<open>Bytes of fields\<close>

named_theorems slmem "reading what was written into a header"

lemma hi8_get16 [slmem]: "hi8 (get16 m i) = m i"
  unfolding hi8_def get16_def by (rule bit_word_eqI) (auto simp: bit_simps dest: bit_imp_le_length)

lemma lo8_get16 [slmem]: "lo8 (get16 m i) = m (i + 1)"
  unfolding lo8_def get16_def by (rule bit_word_eqI) (auto simp: bit_simps)

lemma get16_bytes: "push_bit 8 (ucast (hi8 v)) OR ucast (lo8 v) = (v :: 16 word)"
  unfolding hi8_def lo8_def by (rule bit_word_eqI) (auto simp: bit_simps)

lemma put16_byte [slmem]: "put16 i v m j = (if j = i then hi8 v else if j = i + 1 then lo8 v else m j)"
  by (auto simp: put16_def)

lemma get16_put16 [slmem]: "get16 (put16 i v m) i = v"
  by (simp add: get16_def put16_def get16_bytes)

lemma get16_cong: "m i = m' i' \<Longrightarrow> m (i + 1) = m' (i' + 1) \<Longrightarrow> get16 m i = get16 m' i'"
  by (simp add: get16_def)

lemma get16_eq_iff: "get16 m i = get16 m' i' \<longleftrightarrow> m i = m' i' \<and> m (i + 1) = m' (i' + 1)"
  by (metis get16_cong hi8_get16 lo8_get16)

lemma get32_low: "ucast (get32 m i) = get16 m (i + 2)"
  unfolding get32_def by (rule bit_word_eqI) (auto simp: bit_simps dest: bit_imp_le_length)

lemma get32_high: "ucast (drop_bit 16 (get32 m i)) = get16 m i"
  unfolding get32_def by (rule bit_word_eqI) (auto simp: bit_simps dest: bit_imp_le_length)

lemma get32_eq_iff:
  "get32 m i = get32 m' i' \<longleftrightarrow> m i = m' i' \<and> m (i + 1) = m' (i' + 1) \<and> m (i + 2) = m' (i' + 2) \<and> m (i + 3) = m' (i' + 3)"
proof
  assume e: "get32 m i = get32 m' i'"
  have "get16 m i = get16 m' i'" "get16 m (i + 2) = get16 m' (i' + 2)"
    using e get32_high [of m i] get32_high [of m' i'] get32_low [of m i] get32_low [of m' i'] by auto
  then show "m i = m' i' \<and> m (i + 1) = m' (i' + 1) \<and> m (i + 2) = m' (i' + 2) \<and> m (i + 3) = m' (i' + 3)"
    by (simp add: get16_eq_iff numeral_3_eq_3 numeral_2_eq_2)
next
  assume "m i = m' i' \<and> m (i + 1) = m' (i' + 1) \<and> m (i + 2) = m' (i' + 2) \<and> m (i + 3) = m' (i' + 3)"
  then show "get32 m i = get32 m' i'"
    by (simp add: get32_def get16_def numeral_3_eq_3 numeral_2_eq_2)
qed

text \<open>Storing a field of another header stores its bytes.\<close>

lemma put16_get16 [slmem]: "put16 i (get16 p i) m j = (if j = i \<or> j = i + 1 then p j else m j)"
  by (simp add: put16_byte hi8_get16 lo8_get16)

lemma put32_get32 [slmem]: "put32 i (get32 p i) m j = (if i \<le> j \<and> j < i + 4 then p j else m j)"
  by (auto simp: put32_def get32_low get32_high put16_byte hi8_get16 lo8_get16 numeral_2_eq_2)

section \<open>Coding\<close>

definition reads :: "mem \<Rightarrow> nat \<Rightarrow> 8 word list \<Rightarrow> bool" where
  "reads b cp s \<longleftrightarrow> (\<forall>k<length s. b (cp + k) = s ! k)"

lemma reads_nil [simp]: "reads b cp []"
  by (simp add: reads_def)

lemma reads_append: "reads b cp (s @ s') \<longleftrightarrow> reads b cp s \<and> reads b (cp + length s) s'"
proof
  assume r: "reads b cp (s @ s')"
  have "b (cp + length s + k) = s' ! k" if "k < length s'" for k
    using r that unfolding reads_def by (metis add.assoc length_append nat_add_left_cancel_less nth_append_length_plus)
  moreover have "b (cp + k) = s ! k" if "k < length s" for k
    using r that by (auto simp: reads_def nth_append dest: spec [of _ k])
  ultimately show "reads b cp s \<and> reads b (cp + length s) s'" by (simp add: reads_def)
next
  assume r: "reads b cp s \<and> reads b (cp + length s) s'"
  show "reads b cp (s @ s')"
    unfolding reads_def
  proof (intro allI impI)
    fix k assume k: "k < length (s @ s')"
    show "b (cp + k) = (s @ s') ! k"
    proof (cases "k < length s")
      case False
      then have "k - length s < length s'" "cp + length s + (k - length s) = cp + k" using k by auto
      then show ?thesis using r False by (metis nth_append reads_def)
    qed (use r in \<open>simp add: reads_def nth_append\<close>)
  qed
qed

lemma reads_cons: "reads b cp (x # s) \<longleftrightarrow> b cp = x \<and> reads b (cp + 1) s"
  using reads_append [of b cp "[x]" s] by (simp add: reads_def)

lemma small_number: "(n :: 16 word) < 256 \<Longrightarrow> ucast (lo8 n) = n"
  unfolding lo8_def by (simp add: word_less_nat_alt word_unat_eq_iff unsigned_ucast_eq unsigned_take_bit_eq take_bit_nat_eq_self)

lemma small_number_zero: "(n :: 16 word) < 256 \<Longrightarrow> lo8 n = 0 \<longleftrightarrow> n = 0"
  using small_number [of n] by (auto simp: lo8_def)

lemma decode_long: "reads b cp (encode_long n) \<Longrightarrow> decode b cp = (n, cp + length (encode_long n))"
  by (simp add: encode_long_def reads_cons decode_def get16_def get16_bytes)

lemma decode_short: "reads b cp [lo8 n] \<Longrightarrow> n \<noteq> 0 \<Longrightarrow> n < 256 \<Longrightarrow> decode b cp = (n, cp + 1)"
  by (simp add: reads_cons decode_def small_number small_number_zero)

lemma decode_ENCODEZ: "reads b cp (ENCODEZ n) \<Longrightarrow> decode b cp = (n, cp + length (ENCODEZ n))"
  by (cases "n \<ge> 256 \<or> n = 0") (simp_all add: ENCODEZ_def decode_long decode_short linorder_not_le [symmetric])

lemma decode_ENCODE: "reads b cp (ENCODE n) \<Longrightarrow> n \<noteq> 0 \<Longrightarrow> decode b cp = (n, cp + length (ENCODE n))"
  by (cases "n \<ge> 256") (simp_all add: ENCODE_def decode_long decode_short linorder_not_le [symmetric])

lemma ucast_16_32: "(d :: 32 word) \<le> 0xffff \<Longrightarrow> ucast (ucast d :: 16 word) = d"
  by (simp add: word_le_nat_alt word_unat_eq_iff unsigned_ucast_eq unsigned_take_bit_eq take_bit_nat_eq_self)

lemma ENCODE_length: "length (ENCODE n) \<le> 3" "length (ENCODEZ n) \<le> 3"
  by (auto simp: ENCODE_def ENCODEZ_def encode_long_def)

section \<open>The change mask\<close>

definition chmask :: "bool \<Rightarrow> bool \<Rightarrow> bool \<Rightarrow> bool \<Rightarrow> 8 word" where
  "chmask u w a s = (if u then NEW_U else 0) OR (if w then NEW_W else 0) OR (if a then NEW_A else 0)
     OR (if s then NEW_S else 0)"

text \<open>The bits outside the four: \<open>NEW_I\<close>, the push bit and \<open>NEW_C\<close>.\<close>

definition chrest :: "bool \<Rightarrow> bool \<Rightarrow> bool \<Rightarrow> 8 word" where
  "chrest i p c = (if i then NEW_I else 0) OR (if p then TCP_PUSH_BIT else 0) OR (if c then NEW_C else 0)"

named_theorems slmask "bits of the change mask"

lemma chmask_bits [slmask]:
  "(chmask u w a s OR chrest i p c) AND NEW_U \<noteq> 0 \<longleftrightarrow> u"
  "(chmask u w a s OR chrest i p c) AND NEW_W \<noteq> 0 \<longleftrightarrow> w"
  "(chmask u w a s OR chrest i p c) AND NEW_A \<noteq> 0 \<longleftrightarrow> a"
  "(chmask u w a s OR chrest i p c) AND NEW_S \<noteq> 0 \<longleftrightarrow> s"
  "(chmask u w a s OR chrest i p c) AND NEW_I \<noteq> 0 \<longleftrightarrow> i"
  "(chmask u w a s OR chrest i p c) AND TCP_PUSH_BIT \<noteq> 0 \<longleftrightarrow> p"
  "(chmask u w a s OR chrest i p c) AND NEW_C \<noteq> 0 \<longleftrightarrow> c"
  by (cases u; cases w; cases a; cases s; cases i; cases p; cases c; simp add: chmask_def chrest_def sl_bits)+

lemma chmask_special [slmask]:
  "(chmask u w a s OR chrest i p c) AND SPECIALS_MASK = SPECIAL_I \<longleftrightarrow> u \<and> w \<and> \<not> a \<and> s"
  "(chmask u w a s OR chrest i p c) AND SPECIALS_MASK = SPECIAL_D \<longleftrightarrow> u \<and> w \<and> a \<and> s"
  by (cases u; cases w; cases a; cases s; cases i; cases p; cases c; simp add: chmask_def chrest_def sl_bits)+

lemma chmask_eq [slmask]:
  "chmask u w a s = 0 \<longleftrightarrow> \<not> u \<and> \<not> w \<and> \<not> a \<and> \<not> s"
  "chmask u w a s = SPECIAL_I \<longleftrightarrow> u \<and> w \<and> \<not> a \<and> s"
  "chmask u w a s = SPECIAL_D \<longleftrightarrow> u \<and> w \<and> a \<and> s"
  "chmask u w a s = NEW_S OR NEW_A \<longleftrightarrow> \<not> u \<and> \<not> w \<and> a \<and> s"
  "chmask u w a s = NEW_S \<longleftrightarrow> \<not> u \<and> \<not> w \<and> \<not> a \<and> s"
  by (cases u; cases w; cases a; cases s; simp add: chmask_def sl_bits)+

lemma special_bits [slmask]:
  "(SPECIAL_I OR chrest i p c) AND SPECIALS_MASK = SPECIAL_I" "(SPECIAL_I OR chrest i p c) AND SPECIALS_MASK \<noteq> SPECIAL_D"
  "(SPECIAL_D OR chrest i p c) AND SPECIALS_MASK = SPECIAL_D" "(SPECIAL_D OR chrest i p c) AND SPECIALS_MASK \<noteq> SPECIAL_I"
  "(SPECIAL_I OR chrest i p c) AND NEW_I \<noteq> 0 \<longleftrightarrow> i" "(SPECIAL_D OR chrest i p c) AND NEW_I \<noteq> 0 \<longleftrightarrow> i"
  "(SPECIAL_I OR chrest i p c) AND NEW_C \<noteq> 0 \<longleftrightarrow> c" "(SPECIAL_D OR chrest i p c) AND NEW_C \<noteq> 0 \<longleftrightarrow> c"
  "(SPECIAL_I OR chrest i p c) AND TCP_PUSH_BIT \<noteq> 0 \<longleftrightarrow> p" "(SPECIAL_D OR chrest i p c) AND TCP_PUSH_BIT \<noteq> 0 \<longleftrightarrow> p"
  by (cases i; cases p; cases c; simp add: chrest_def sl_bits)+

text \<open>The four changes of a packet against the saved header, and what is coded for each.\<close>

definition d_urg :: "mem \<Rightarrow> bool" where
  "d_urg ip \<longleftrightarrow> ip (4 * ip_hl ip + th_flags) AND TH_URG \<noteq> 0"

definition d_win :: "mem \<Rightarrow> mem \<Rightarrow> 16 word" where
  "d_win ip oip = get16 ip (4 * ip_hl ip + th_win) - get16 oip (4 * ip_hl ip + th_win)"

definition d_ack :: "mem \<Rightarrow> mem \<Rightarrow> 32 word" where
  "d_ack ip oip = get32 ip (4 * ip_hl ip + th_ack) - get32 oip (4 * ip_hl ip + th_ack)"

definition d_seq :: "mem \<Rightarrow> mem \<Rightarrow> 32 word" where
  "d_seq ip oip = get32 ip (4 * ip_hl ip + th_seq) - get32 oip (4 * ip_hl ip + th_seq)"

definition code_if :: "bool \<Rightarrow> 8 word list \<Rightarrow> 8 word list" where
  "code_if b s = (if b then s else [])"

definition d_codes :: "mem \<Rightarrow> mem \<Rightarrow> 8 word list" where
  "d_codes ip oip = code_if (d_urg ip) (ENCODEZ (get16 ip (4 * ip_hl ip + th_urp)))
     @ code_if (d_win ip oip \<noteq> 0) (ENCODE (d_win ip oip))
     @ code_if (d_ack ip oip \<noteq> 0) (ENCODE (ucast (d_ack ip oip)))
     @ code_if (d_seq ip oip \<noteq> 0) (ENCODE (ucast (d_seq ip oip)))"

definition d_mask :: "mem \<Rightarrow> mem \<Rightarrow> 8 word" where
  "d_mask ip oip = chmask (d_urg ip) (d_win ip oip \<noteq> 0) (d_ack ip oip \<noteq> 0) (d_seq ip oip \<noteq> 0)"

lemma sl_deltas_Some:
  assumes "sl_deltas ip oip = Some ds"
  shows "ds = (d_mask ip oip, d_codes ip oip, d_seq ip oip, d_ack ip oip)"
    "d_ack ip oip \<le> 0xffff" "d_seq ip oip \<le> 0xffff"
    "\<not> d_urg ip \<Longrightarrow> get16 ip (4 * ip_hl ip + th_urp) = get16 oip (4 * ip_hl ip + th_urp)"
  using assms
  by (auto simp: sl_deltas_def Let_def d_mask_def d_codes_def chmask_def code_if_def d_urg_def d_win_def d_ack_def d_seq_def
      linorder_not_less or.assoc split: if_splits)

text \<open>Which form the changes take: as they are, or one of the two special cases.\<close>

lemma sl_special_Some:
  assumes "sl_special hlen ip oip (d_mask ip oip, d_codes ip oip, d_seq ip oip, d_ack ip oip) = Some (ch, cs)"
    and "data = ucast (get16 oip ip_len) - of_nat hlen"
  obtains "ch = d_mask ip oip" "cs = d_codes ip oip" "\<not> (d_urg ip \<and> d_win ip oip \<noteq> 0 \<and> d_seq ip oip \<noteq> 0)"
  | "ch = SPECIAL_I" "cs = []" "\<not> d_urg ip" "d_win ip oip = 0" "d_seq ip oip = data" "d_ack ip oip = data"
  | "ch = SPECIAL_D" "cs = []" "\<not> d_urg ip" "d_win ip oip = 0" "d_seq ip oip = data" "d_ack ip oip = 0"
  using assms by (auto simp: sl_special_def Let_def d_mask_def slmask split: if_splits)

section \<open>One field\<close>

lemma put16_same [simp]: "get16 h f = v \<Longrightarrow> put16 f v h = h"
  by (rule ext) (auto simp: put16_byte hi8_get16 lo8_get16)

lemma put32_same [simp]: "get32 h f = v \<Longrightarrow> put32 f v h = h"
  using get32_low [of h f] get32_high [of h f] by (simp add: put32_def)

lemma ucast_diff: "ucast (ucast (a :: 16 word) - ucast b :: 32 word) = a - b"
  by transfer (simp add: take_bit_diff)

lemma stage16:
  assumes "get16 h f = get16 oip f" "d = get16 ip f - get16 oip f" "reads b cp (code_if (d \<noteq> 0) (ENCODE d))"
  shows "(if d \<noteq> 0 then DECODES b f (h, cp) else (h, cp))
    = (put16 f (get16 ip f) h, cp + length (code_if (d \<noteq> 0) (ENCODE d)))"
  using assms by (auto simp: code_if_def DECODES_def decode_ENCODE)

lemma stage32:
  assumes "get32 h f = get32 oip f" "d = get32 ip f - get32 oip f" "d \<le> 0xffff"
    "reads b cp (code_if (d \<noteq> 0) (ENCODE (ucast d)))"
  shows "(if d \<noteq> 0 then DECODEL b f (h, cp) else (h, cp))
    = (put32 f (get32 ip f) h, cp + length (code_if (d \<noteq> 0) (ENCODE (ucast d))))"
proof (cases "d = 0")
  case False
  have "ucast d \<noteq> (0 :: 16 word)" using False ucast_16_32 [OF assms(3)] by (metis unsigned_0)
  then show ?thesis using assms False by (simp add: code_if_def DECODEL_def decode_ENCODE ucast_16_32)
qed (use assms in \<open>simp add: code_if_def\<close>)

section \<open>Flags\<close>

text \<open>The flags of a packet that can be compressed without loss: an acknowledgement with or without push and urgent.\<close>

definition flags_ok :: "8 word \<Rightarrow> bool" where
  "flags_ok f \<longleftrightarrow> f AND NOT (TH_PUSH OR TH_URG) = TH_ACK"

lemma and_single_bit: "(f :: 8 word) AND push_bit n 1 = 0 \<or> f AND push_bit n 1 = push_bit n 1"
  by (cases "bit f n") (auto intro!: bit_word_eqI simp: bit_simps)

lemma flags_ok_cases: "flags_ok f \<Longrightarrow> f = 0x10 \<or> f = 0x18 \<or> f = 0x30 \<or> f = 0x38"
proof -
  assume f: "flags_ok f"
  have "f = (f AND NOT (TH_PUSH OR TH_URG)) OR (f AND TH_PUSH) OR (f AND TH_URG)"
    by (rule bit_word_eqI) (auto simp: bit_simps)
  moreover have "f AND TH_PUSH = 0 \<or> f AND TH_PUSH = TH_PUSH" "f AND TH_URG = 0 \<or> f AND TH_URG = TH_URG"
    using and_single_bit [of f 3] and_single_bit [of f 5] by (simp_all add: TH_PUSH_def TH_URG_def)
  ultimately show ?thesis
    using f by (auto simp: flags_ok_def TH_PUSH_def TH_URG_def TH_ACK_def)
qed

definition set_push :: "bool \<Rightarrow> 8 word \<Rightarrow> 8 word" where
  "set_push p f = (if p then f OR TH_PUSH else f AND NOT TH_PUSH)"

definition set_urg :: "bool \<Rightarrow> 8 word \<Rightarrow> 8 word" where
  "set_urg u f = (if u then f OR TH_URG else f AND NOT TH_URG)"

lemma flags_restored:
  assumes "flags_ok f" "flags_ok f'"
  shows "set_urg (f AND TH_URG \<noteq> 0) (set_push (f AND TH_PUSH \<noteq> 0) f') = f"
  using flags_ok_cases [OF assms(1)] flags_ok_cases [OF assms(2)]
  by (auto simp: set_urg_def set_push_def TH_PUSH_def TH_URG_def)

lemma flags_restored_special:
  assumes "flags_ok f" "flags_ok f'" "f AND TH_URG = 0" "f' AND TH_URG = 0"
  shows "set_push (f AND TH_PUSH \<noteq> 0) f' = f"
  using flags_ok_cases [OF assms(1)] flags_ok_cases [OF assms(2)] assms(3,4)
  by (auto simp: set_push_def TH_PUSH_def TH_URG_def)

section \<open>The two ends of a connection\<close>

definition hdr_len :: "mem \<Rightarrow> nat" where
  "hdr_len m = 4 * (ip_hl m + tcp_hl m (4 * ip_hl m))"

text \<open>
  The receiver holds the header the sender holds, with the checksum cleared, and its length.
\<close>

definition synced :: "mem \<Rightarrow> cstate \<Rightarrow> bool" where
  "synced oip r \<longleftrightarrow> cs_hlen r = hdr_len oip
     \<and> (\<forall>i<hdr_len oip. cs_hdr r i = (if i = ip_sum \<or> i = ip_sum + 1 then 0 else oip i))
     \<and> 5 \<le> ip_hl oip \<and> 5 \<le> tcp_hl oip (4 * ip_hl oip) \<and> flags_ok (oip (4 * ip_hl oip + th_flags))"

text \<open>The bytes a packet may change against the saved header, and where the others stand.\<close>

definition varying :: "nat \<Rightarrow> nat \<Rightarrow> bool" where
  "varying t i \<longleftrightarrow> i = ip_len \<or> i = ip_len + 1 \<or> i = ip_id \<or> i = ip_id + 1 \<or> i = ip_sum \<or> i = ip_sum + 1
     \<or> t + th_seq \<le> i \<and> i < t + 12 \<or> t + th_flags \<le> i \<and> i < t + 20"

lemma ip_hl_cong: "m 0 = m' 0 \<Longrightarrow> ip_hl m = ip_hl m'"
  by (simp add: ip_hl_def)

lemma xoff_words: "unat ((x :: 8 word) AND 0xf0) = 16 * unat (drop_bit 4 x)"
proof -
  have m: "(0xf0 :: 8 word) = NOT (mask 4)" by (simp add: mask_eq_exp_minus_1)
  have "x AND 0xf0 = push_bit 4 (drop_bit 4 x)"
    unfolding m by (rule bit_word_eqI) (auto simp: bit_simps)
  moreover have "unat (drop_bit 4 x) < 16"
  proof -
    have "unat x < 2 ^ LENGTH(8)" by (rule unsigned_less)
    then show ?thesis by (simp add: unsigned_drop_bit_eq drop_bit_eq_div [where 'a = nat] less_mult_imp_div_less take_bit_nat_eq_self)
  qed
  ultimately show ?thesis
    by (simp add: unsigned_push_bit_eq push_bit_eq_mult [where 'a = nat] take_bit_nat_eq_self)
qed

lemma bcmp_same: "\<not> bcmp_differs a i b j n \<Longrightarrow> k < n \<Longrightarrow> a (i + k) = b (j + k)"
  by (simp add: bcmp_differs_def)

lemma unchanged_bytes:
  assumes "\<not> sl_unexpected ip oip" "get32 ip ip_src = get32 oip ip_src" "get32 ip ip_dst = get32 oip ip_dst"
    "get32 ip (4 * ip_hl ip) = get32 oip (4 * ip_hl oip)"
    "5 \<le> ip_hl oip" "5 \<le> tcp_hl oip (4 * ip_hl oip)"
  shows "ip_hl ip = ip_hl oip" "hdr_len ip = hdr_len oip"
    "i < hdr_len ip \<Longrightarrow> \<not> varying (4 * ip_hl ip) i \<Longrightarrow> ip i = oip i"
proof -
  note * = assms(1) [unfolded sl_unexpected_def Let_def de_Morgan_disj not_not]
  have u: "get16 ip 0 = get16 oip 0" "get16 ip 6 = get16 oip 6" "get16 ip 8 = get16 oip 8"
    "ip (4 * ip_hl ip + th_xoff) = oip (4 * ip_hl ip + th_xoff)"
    using * by - (elim conjE, assumption)+
  have ipopt: "\<not> (ip_hl ip > 5 \<and> bcmp_differs ip 20 oip 20 (4 * (ip_hl ip - 5)))"
    using * by (elim conjE)
  have tcpopt: "\<not> (unat (ip (4 * ip_hl ip + th_xoff) AND 0xf0) > 80 \<and>
      bcmp_differs ip (4 * ip_hl ip + 20) oip (4 * ip_hl ip + 20) ((unat (ip (4 * ip_hl ip + th_xoff) AND 0xf0) - 80) div 4))"
    using * by (elim conjE)
  show hl: "ip_hl ip = ip_hl oip" using u(1) by (intro ip_hl_cong) (simp add: get16_eq_iff)
  then have t: "tcp_hl ip (4 * ip_hl ip) = tcp_hl oip (4 * ip_hl oip)" using u(4) by (simp add: tcp_hl_def)
  then show H: "hdr_len ip = hdr_len oip" using hl by (simp add: hdr_len_def)
  assume i: "i < hdr_len ip" "\<not> varying (4 * ip_hl ip) i"
  define tp where "tp = 4 * ip_hl ip"
  have tp: "20 \<le> tp" using assms(5) hl by (simp add: tp_def)
  have xo: "unat (ip (tp + th_xoff) AND 0xf0) = 16 * tcp_hl ip tp" by (simp add: xoff_words tcp_hl_def)
  have Hl: "hdr_len ip = tp + 4 * tcp_hl ip tp" by (simp add: hdr_len_def tp_def)
  have fixed: "ip 0 = oip 0" "ip 1 = oip 1" "ip 6 = oip 6" "ip 7 = oip 7" "ip 8 = oip 8" "ip 9 = oip 9"
    using u by (simp_all add: get16_eq_iff eval_nat_numeral)
  have addr: "ip j = oip j" if "12 \<le> j" "j < 20" for j
  proof -
    have "j \<in> {12, 13, 14, 15, 16, 17, 18, 19}" using that by auto
    then show ?thesis using assms(2,3) by (auto simp: get32_eq_iff)
  qed
  have opts: "ip j = oip j" if "20 \<le> j" "j < tp" for j
    using ipopt bcmp_same [of ip 20 oip 20 "4 * (ip_hl ip - 5)" "j - 20"] that by (simp add: tp_def)
  have ports: "ip j = oip j" if "tp \<le> j" "j < tp + 4" for j
  proof -
    have "j \<in> {tp, tp + 1, tp + 2, tp + 3}" using that by auto
    then show ?thesis using assms(4) hl by (auto simp: get32_eq_iff tp_def)
  qed
  have topts: "ip j = oip j" if "tp + 20 \<le> j" "j < hdr_len ip" for j
    using tcpopt [folded tp_def, unfolded xo] that Hl
      bcmp_same [of ip "tp + 20" oip "tp + 20" "(16 * tcp_hl ip tp - 80) div 4" "j - (tp + 20)"] by simp
  consider "i \<in> {0, 1, 6, 7, 8, 9}" | "12 \<le> i" "i < 20" | "20 \<le> i" "i < tp" | "tp \<le> i" "i < tp + 4"
    | "i = tp + th_xoff" | "tp + 20 \<le> i"
  proof -
    have "i = 0 \<or> i = 1 \<or> i = 6 \<or> i = 7 \<or> i = 8 \<or> i = 9 \<or> 12 \<le> i \<and> i < 20 \<or> 20 \<le> i \<and> i < tp
        \<or> tp \<le> i \<and> i < tp + 4 \<or> i = tp + th_xoff \<or> tp + 20 \<le> i"
      using i(2) tp unfolding varying_def tp_def [symmetric] by presburger
    then show ?thesis using that by auto
  qed
  then show "ip i = oip i"
    using fixed addr opts ports topts u(4) i(1) by cases (auto simp: tp_def)
qed

section \<open>A compressed packet\<close>

text \<open>The header the receiver rebuilds from the one it holds.\<close>

definition rebuilt :: "mem \<Rightarrow> mem \<Rightarrow> mem" where
  "rebuilt ip h =
     (let t = 4 * ip_hl ip in
      put16 ip_id (get16 ip ip_id)
        (put32 (t + th_seq) (get32 ip (t + th_seq))
          (put32 (t + th_ack) (get32 ip (t + th_ack))
            (put16 (t + th_win) (get16 ip (t + th_win))
              (put16 (t + th_urp) (get16 ip (t + th_urp))
                ((put16 (t + th_sum) (get16 ip (t + th_sum)) h)(t + th_flags := ip (t + th_flags))))))))"

lemma rebuilt_byte:
  assumes "20 \<le> 4 * ip_hl ip"
  shows "rebuilt ip h i = (if i = ip_len \<or> i = ip_len + 1 \<or> i = ip_sum \<or> i = ip_sum + 1 then h i
     else if varying (4 * ip_hl ip) i then ip i else h i)"
proof -
  define t where "t = 4 * ip_hl ip"
  show ?thesis
    using assms unfolding rebuilt_def Let_def t_def [symmetric] varying_def
    by (simp add: put16_get16 put32_get32) presburger
qed

lemma get16_other [slmem]:
  "j \<noteq> i \<Longrightarrow> j \<noteq> i + 1 \<Longrightarrow> j + 1 \<noteq> i \<Longrightarrow> get16 (put16 i v m) j = get16 m j"
  "j + 1 < i \<or> i + 3 < j \<Longrightarrow> get16 (put32 i w m) j = get16 m j"
  "j \<noteq> i \<Longrightarrow> j + 1 \<noteq> i \<Longrightarrow> get16 (m(i := x)) j = get16 m j"
  by (auto simp: get16_def put32_def put16_def)

lemma get32_other [slmem]:
  "j + 3 < i \<or> i + 1 < j \<Longrightarrow> get32 (put16 i v m) j = get32 m j"
  "j + 3 < i \<or> i + 3 < j \<Longrightarrow> get32 (put32 i w m) j = get32 m j"
  "j + 3 < i \<or> i < j \<Longrightarrow> get32 (m(i := x)) j = get32 m j"
  by (auto simp: get32_def get16_def put32_def put16_def)

text \<open>The receiver's saved header at the fields a packet changes.\<close>

definition holds :: "nat \<Rightarrow> mem \<Rightarrow> mem \<Rightarrow> bool" where
  "holds t oip h \<longleftrightarrow> 4 * ip_hl h = t \<and> 20 \<le> t \<and> h (t + th_flags) = oip (t + th_flags)
     \<and> get16 h ip_len = get16 oip ip_len \<and> get16 h ip_id = get16 oip ip_id
     \<and> get32 h (t + th_seq) = get32 oip (t + th_seq) \<and> get32 h (t + th_ack) = get32 oip (t + th_ack)
     \<and> get16 h (t + th_win) = get16 oip (t + th_win) \<and> get16 h (t + th_urp) = get16 oip (t + th_urp)"

definition d_id :: "mem \<Rightarrow> mem \<Rightarrow> 32 word" where
  "d_id ip oip = ucast (get16 ip ip_id) - ucast (get16 oip ip_id)"

definition id_code :: "mem \<Rightarrow> mem \<Rightarrow> 8 word list" where
  "id_code ip oip = code_if (d_id ip oip \<noteq> 1) (ENCODEZ (ucast (d_id ip oip)))"

lemma stage_id:
  assumes "get16 h ip_id = get16 oip ip_id" "reads b cp (id_code ip oip)"
  shows "(if d_id ip oip \<noteq> 1 then DECODES b ip_id (h, cp) else (put16 ip_id (get16 h ip_id + 1) h, cp))
    = (put16 ip_id (get16 ip ip_id) h, cp + length (id_code ip oip))"
proof -
  have d: "ucast (d_id ip oip) = get16 ip ip_id - get16 oip ip_id" by (simp add: d_id_def ucast_diff)
  show ?thesis
  proof (cases "d_id ip oip = 1")
    case True
    then have "get16 ip ip_id = get16 oip ip_id + 1" using d by (simp add: diff_eq_eq)
    then show ?thesis using assms True by (simp add: id_code_def code_if_def)
  next
    case False
    then show ?thesis using assms d by (simp add: id_code_def code_if_def DECODES_def decode_ENCODEZ)
  qed
qed

lemma stage_urg:
  assumes "20 \<le> t" "h (t + th_flags) = f'" "get16 h (t + th_urp) = get16 oip (t + th_urp)"
    "u = (ip (t + th_flags) AND TH_URG \<noteq> 0)" "\<not> u \<Longrightarrow> get16 ip (t + th_urp) = get16 oip (t + th_urp)"
    "set_urg u f' = ip (t + th_flags)" "reads b cp (code_if u (ENCODEZ (get16 ip (t + th_urp))))"
  shows "(if u then DECODEU b (t + th_urp) (h(t + th_flags := h (t + th_flags) OR TH_URG), cp)
          else (h(t + th_flags := h (t + th_flags) AND NOT TH_URG), cp))
    = (put16 (t + th_urp) (get16 ip (t + th_urp)) (h(t + th_flags := ip (t + th_flags))),
       cp + length (code_if u (ENCODEZ (get16 ip (t + th_urp)))))"
  using assms by (cases u) (auto simp: DECODEU_def decode_ENCODEZ code_if_def set_urg_def slmem)

lemma code_if_False [simp]: "code_if False s = []" "code_if True s = s"
  by (simp_all add: code_if_def)

lemma ip_hl_put [slmem]:
  "0 < i \<Longrightarrow> ip_hl (put16 i v m) = ip_hl m" "0 < i \<Longrightarrow> ip_hl (put32 i w m) = ip_hl m"
  "0 < i \<Longrightarrow> ip_hl (m(i := x)) = ip_hl m"
  by (simp_all add: ip_hl_def put32_def put16_def)

text \<open>The saved header with the checksum and the push flag of the packet.\<close>

definition sum_push :: "mem \<Rightarrow> mem \<Rightarrow> mem" where
  "sum_push ip h = (let t = 4 * ip_hl ip; h1 = put16 (t + th_sum) (get16 ip (t + th_sum)) h in
     h1(t + th_flags := set_push (ip (t + th_flags) AND TH_PUSH \<noteq> 0) (h1 (t + th_flags))))"

lemma uncompress_plain:
  assumes "holds t oip h" "t = 4 * ip_hl ip" "flags_ok (ip (t + th_flags))" "flags_ok (oip (t + th_flags))"
    and d: "d_ack ip oip \<le> 0xffff" "d_seq ip oip \<le> 0xffff"
      "\<not> d_urg ip \<Longrightarrow> get16 ip (t + th_urp) = get16 oip (t + th_urp)"
    and plain: "\<not> (d_urg ip \<and> d_win ip oip \<noteq> 0 \<and> d_seq ip oip \<noteq> 0)"
    and r: "reads b cp (d_codes ip oip @ id_code ip oip)"
    and ch: "changes = d_mask ip oip OR chrest (d_id ip oip \<noteq> 1) p c"
  shows "uncompress_fields b changes hlen0 (sum_push ip h, cp)
    = (rebuilt ip h, cp + length (d_codes ip oip @ id_code ip oip))"
proof -
  let ?f = "ip (t + th_flags)" and ?h2 = "sum_push ip h" and ?u = "d_urg ip"
  note hold = assms(1) [unfolded holds_def]
  note sp = sum_push_def [of ip h, unfolded Let_def, folded assms(2)]
  have t20: "20 \<le> t" using hold by simp
  have hl: "4 * ip_hl ?h2 = t" using hold by (simp add: sp slmem)
  have mask: "changes AND NEW_U \<noteq> 0 \<longleftrightarrow> ?u" "changes AND NEW_W \<noteq> 0 \<longleftrightarrow> d_win ip oip \<noteq> 0"
    "changes AND NEW_A \<noteq> 0 \<longleftrightarrow> d_ack ip oip \<noteq> 0" "changes AND NEW_S \<noteq> 0 \<longleftrightarrow> d_seq ip oip \<noteq> 0"
    "changes AND NEW_I \<noteq> 0 \<longleftrightarrow> d_id ip oip \<noteq> 1"
    "changes AND SPECIALS_MASK \<noteq> SPECIAL_I" "changes AND SPECIALS_MASK \<noteq> SPECIAL_D"
    using plain by (auto simp: ch d_mask_def slmask)
  define cU where "cU = code_if ?u (ENCODEZ (get16 ip (t + th_urp)))"
  define cW where "cW = code_if (d_win ip oip \<noteq> 0) (ENCODE (d_win ip oip))"
  define cA where "cA = code_if (d_ack ip oip \<noteq> 0) (ENCODE (ucast (d_ack ip oip)))"
  define cS where "cS = code_if (d_seq ip oip \<noteq> 0) (ENCODE (ucast (d_seq ip oip)))"
  have codes: "d_codes ip oip = cU @ cW @ cA @ cS"
    by (simp add: d_codes_def cU_def cW_def cA_def cS_def assms(2))
  have rd: "reads b cp cU" "reads b (cp + length cU) cW" "reads b (cp + length cU + length cW) cA"
    "reads b (cp + length cU + length cW + length cA) cS"
    "reads b (cp + length cU + length cW + length cA + length cS) (id_code ip oip)"
    using r by (simp_all add: codes reads_append add.assoc)
  define hU where "hU = put16 (t + th_urp) (get16 ip (t + th_urp)) (?h2(t + th_flags := ?f))"
  define hW where "hW = put16 (t + th_win) (get16 ip (t + th_win)) hU"
  define hA where "hA = put32 (t + th_ack) (get32 ip (t + th_ack)) hW"
  define hS where "hS = put32 (t + th_seq) (get32 ip (t + th_seq)) hA"
  have fl: "set_urg ?u (?h2 (t + th_flags)) = ?f"
    using flags_restored [OF assms(3,4)] hold by (simp add: sp d_urg_def assms(2) put16_byte)
  have U: "(if ?u then DECODEU b (t + th_urp) (?h2(t + th_flags := ?h2 (t + th_flags) OR TH_URG), cp)
      else (?h2(t + th_flags := ?h2 (t + th_flags) AND NOT TH_URG), cp)) = (hU, cp + length cU)"
    unfolding hU_def cU_def
    by (rule stage_urg [OF t20 refl]) (use hold d(3) fl rd(1) in \<open>simp_all add: sp d_urg_def assms(2) cU_def slmem\<close>)
  have W: "(if d_win ip oip \<noteq> 0 then DECODES b (t + th_win) (hU, cp + length cU) else (hU, cp + length cU))
      = (hW, cp + length cU + length cW)"
    unfolding hW_def cW_def
    by (rule stage16) (use hold rd(2) in \<open>simp_all add: hU_def sp d_win_def assms(2) cW_def slmem\<close>)
  have A: "(if d_ack ip oip \<noteq> 0 then DECODEL b (t + th_ack) (hW, cp + length cU + length cW)
      else (hW, cp + length cU + length cW)) = (hA, cp + length cU + length cW + length cA)"
    unfolding hA_def cA_def
    by (rule stage32) (use hold rd(3) d(1) in \<open>simp_all add: hW_def hU_def sp d_ack_def assms(2) cA_def slmem\<close>)
  have S: "(if d_seq ip oip \<noteq> 0 then DECODEL b (t + th_seq) (hA, cp + length cU + length cW + length cA)
      else (hA, cp + length cU + length cW + length cA)) = (hS, cp + length cU + length cW + length cA + length cS)"
    unfolding hS_def cS_def
    by (rule stage32) (use hold rd(4) d(2) in \<open>simp_all add: hA_def hW_def hU_def sp d_seq_def assms(2) cS_def slmem\<close>)
  have I: "(if d_id ip oip \<noteq> 1 then DECODES b ip_id (hS, cp + length cU + length cW + length cA + length cS)
      else (put16 ip_id (get16 hS ip_id + 1) hS, cp + length cU + length cW + length cA + length cS))
    = (put16 ip_id (get16 ip ip_id) hS, cp + length cU + length cW + length cA + length cS + length (id_code ip oip))"
    by (rule stage_id) (use hold rd(5) t20 in \<open>simp_all add: hS_def hA_def hW_def hU_def sp slmem\<close>)
  have R: "put16 ip_id (get16 ip ip_id) hS = rebuilt ip h"
    by (simp add: rebuilt_def Let_def hS_def hA_def hW_def hU_def sp assms(2) [symmetric])
  show ?thesis
    unfolding uncompress_fields_def Let_def fst_conv snd_conv hl mask(6,7) [THEN eq_False [THEN iffD2]] if_False mask(1-5) U W A S I
    by (simp add: R codes)
qed

lemma uncompress_special:
  assumes "holds t oip h" "t = 4 * ip_hl ip" "flags_ok (ip (t + th_flags))" "flags_ok (oip (t + th_flags))"
    "oip (t + th_flags) AND TH_URG = 0"
    and d: "\<not> d_urg ip" "get16 ip (t + th_urp) = get16 oip (t + th_urp)" "d_win ip oip = 0" "d_seq ip oip = data"
      "data = ucast (get16 oip ip_len) - of_nat hlen0"
      "d_ack ip oip = (if interactive then data else 0)"
    and r: "reads b cp (id_code ip oip)"
    and ch: "changes = (if interactive then SPECIAL_I else SPECIAL_D) OR chrest (d_id ip oip \<noteq> 1) p c"
  shows "uncompress_fields b changes hlen0 (sum_push ip h, cp) = (rebuilt ip h, cp + length (id_code ip oip))"
proof -
  let ?f = "ip (t + th_flags)" and ?h2 = "sum_push ip h"
  note hold = assms(1) [unfolded holds_def]
  note sp = sum_push_def [of ip h, unfolded Let_def, folded assms(2)]
  have t20: "20 \<le> t" using hold by simp
  have hl: "4 * ip_hl ?h2 = t" using hold by (simp add: sp slmem)
  have mask: "changes AND SPECIALS_MASK = SPECIAL_I \<longleftrightarrow> interactive"
    "changes AND SPECIALS_MASK = SPECIAL_D \<longleftrightarrow> \<not> interactive" "changes AND NEW_I \<noteq> 0 \<longleftrightarrow> d_id ip oip \<noteq> 1"
    using special_bits(1-6) [of "d_id ip oip \<noteq> 1" p c] unfolding ch by (cases interactive; simp; fail)+
  have dd: "ucast (get16 ?h2 ip_len) - of_nat hlen0 = data" using hold t20 d(5) by (simp add: sp slmem)
  have held: "get32 h (t + th_seq) = get32 oip (t + th_seq)" "get32 h (t + th_ack) = get32 oip (t + th_ack)"
    using hold by blast+
  have "get32 ip (t + th_seq) - get32 oip (t + th_seq) = data"
    using d(4) by (simp only: d_seq_def assms(2) [symmetric])
  then have seq: "get32 h (t + th_seq) + data = get32 ip (t + th_seq)"
    unfolding held by (metis add.commute diff_eq_eq)
  have da: "get32 ip (t + th_ack) - get32 oip (t + th_ack) = (if interactive then data else 0)"
    using d(6) by (simp only: d_ack_def assms(2) [symmetric])
  have ack: "interactive \<Longrightarrow> get32 h (t + th_ack) + data = get32 ip (t + th_ack)"
    "\<not> interactive \<Longrightarrow> get32 h (t + th_ack) = get32 ip (t + th_ack)"
    using da unfolding held by (metis add.commute diff_eq_eq, metis eq_iff_diff_eq_0)
  have "?h2 (t + th_flags) = ?f"
    using flags_restored_special [OF assms(3,4)] assms(5) d(1) hold
    by (simp add: sp d_urg_def assms(2) [symmetric] put16_byte)
  then have fl: "?h2 = (put16 (t + th_sum) (get16 ip (t + th_sum)) h)(t + th_flags := ?f)"
    by (simp add: sp)
  define h3 where "h3 = put32 (t + th_seq) (get32 ip (t + th_seq)) (put32 (t + th_ack) (get32 ip (t + th_ack)) ?h2)"
  have other: "get16 ?h2 (t + th_win) = get16 ip (t + th_win)" "get16 ?h2 (t + th_urp) = get16 ip (t + th_urp)"
    using hold d(2,3) by (simp_all add: fl slmem d_win_def assms(2) [symmetric])
  have st: "(if interactive
      then (put32 (t + th_seq) (get32 ?h2 (t + th_seq) + data) (put32 (t + th_ack) (get32 ?h2 (t + th_ack) + data) ?h2), cp)
      else (put32 (t + th_seq) (get32 ?h2 (t + th_seq) + data) ?h2, cp)) = (h3, cp)"
    using seq ack by (simp add: h3_def fl slmem)
  have I: "(if d_id ip oip \<noteq> 1 then DECODES b ip_id (h3, cp) else (put16 ip_id (get16 h3 ip_id + 1) h3, cp))
    = (put16 ip_id (get16 ip ip_id) h3, cp + length (id_code ip oip))"
    by (rule stage_id) (use hold r t20 in \<open>simp_all add: h3_def sp slmem\<close>)
  have R: "put16 ip_id (get16 ip ip_id) h3 = rebuilt ip h"
    using other by (simp add: rebuilt_def Let_def h3_def fl assms(2) [symmetric])
  have "uncompress_fields b changes hlen0 (?h2, cp)
    = (if d_id ip oip \<noteq> 1 then DECODES b ip_id (h3, cp) else (put16 ip_id (get16 h3 ip_id + 1) h3, cp))"
    using st by (cases interactive) (simp_all add: uncompress_fields_def Let_def hl mask dd del: One_nat_def)
  then show ?thesis using I R by simp
qed

text \<open>All the forms together.\<close>

lemma uncompress_rebuilt:
  assumes "holds t oip h" "t = 4 * ip_hl ip" "flags_ok (ip (t + th_flags))" "flags_ok (oip (t + th_flags))"
    "d_urg ip \<or> oip (t + th_flags) AND TH_URG = 0"
    and d: "sl_deltas ip oip = Some ds" "sl_special hlen ip oip ds = Some (ch, cs)"
    and r: "reads b cp (cs @ id_code ip oip)"
  shows "uncompress_fields b (ch OR chrest (d_id ip oip \<noteq> 1) p c) hlen (sum_push ip h, cp)
    = (rebuilt ip h, cp + length (cs @ id_code ip oip))"
proof -
  note ds = sl_deltas_Some [OF d(1)]
  have sp: "sl_special hlen ip oip (d_mask ip oip, d_codes ip oip, d_seq ip oip, d_ack ip oip) = Some (ch, cs)"
    using d(2) ds(1) by simp
  show ?thesis
  proof (rule sl_special_Some [OF sp refl], goal_cases)
    case 1
    then show ?case
      using uncompress_plain [OF assms(1-4) ds(2,3), folded 1(1,2), OF _ _ r refl] ds(4) assms(2) by simp
  next
    case 2
    then show ?case
      using uncompress_special [OF assms(1-4), where interactive = True and b = b and cp = cp and p = p and c = c,
          OF _ _ _ 2(4,5) refl _ _ refl] ds(4) assms(2,5) r
      by simp
  next
    case 3
    then show ?case
      using uncompress_special [OF assms(1-4), where interactive = False and b = b and cp = cp and p = p and c = c,
          OF _ _ _ 3(4,5) refl _ _ refl] ds(4) assms(2,5) r
      by simp
  qed
qed

end
