(* ===== verification/Slcompress_Link.thy ===== *)
theory Slcompress_Link
  imports Slcompress_Sync "HOL-Library.Multiset"
begin

text \<open>
  One packet through both ends: \<open>sl_compress_tcp\<close>, the line, \<open>sl_uncompress_tcp\<close>; the
  invariant of the two connection tables and the sequence of packets.
\<close>

section \<open>Lists of bytes\<close>

lemma mem_list_length [simp]: "length (mem_list m i j) = j - i"
  by (simp add: mem_list_def)

lemma mem_list_nth [simp]: "k < j - i \<Longrightarrow> mem_list m i j ! k = m (i + k)"
  by (simp add: mem_list_def)

lemma mem_list_eq: "(\<And>k. i \<le> k \<Longrightarrow> k < j \<Longrightarrow> m k = m' k) \<Longrightarrow> mem_list m i j = mem_list m' i j"
  by (simp add: mem_list_def)

lemma mem_list_header:
  assumes "length new \<le> h" "h \<le> n"
  shows "mem_list (\<lambda>i. if i < h then new ! (i - (h - length new)) else m i) (h - length new) n = new @ mem_list m h n"
  using assms by (intro nth_equalityI) (auto simp: nth_append)

lemma reads_mem_list: "reads b cp (mem_list m i j) \<longleftrightarrow> (\<forall>k<j - i. b (cp + k) = m (i + k))"
  by (simp add: reads_def)

lemma put_le16_le16: "put_le16 i (le16 p i) m j = (if j = i \<or> j = i + 1 then p j else m j)"
proof -
  have "lo8 (le16 p i) = p i" "hi8 (le16 p i) = p (i + 1)"
    by (simp_all add: lo8_def hi8_def le16_def) (rule bit_word_eqI; auto simp: bit_simps dest: bit_imp_le_length)+
  then show ?thesis by (simp add: put_le16_def)
qed

lemma ip_cksum_cong: "(\<And>i. i < 2 * n \<Longrightarrow> m i = m' i) \<Longrightarrow> ip_cksum m n = ip_cksum m' n"
  unfolding ip_cksum_def le16_def
  by (intro arg_cong [where f = "\<lambda>l. NOT (ucast (fold16 (fold16 (sum_list l))))"] map_cong) auto

section \<open>Packets\<close>

text \<open>
  A well-formed TCP packet of \<open>n\<close> bytes: both headers complete, the total length and the
  header checksum right, the reserved flag bits clear.
\<close>

definition datagram_ok :: "mem \<Rightarrow> nat \<Rightarrow> bool" where
  "datagram_ok m n \<longleftrightarrow> 5 \<le> ip_hl m \<and> 5 \<le> tcp_hl m (4 * ip_hl m) \<and> hdr_len m \<le> n \<and> n < 65536
     \<and> get16 m ip_len = of_nat n \<and> m ip_p = IPPROTO_TCP
     \<and> le16 m ip_sum = ip_cksum (put16 ip_sum 0 m) (2 * ip_hl m)
     \<and> m (4 * ip_hl m + th_flags) AND 0xc0 = 0"

lemma hdr_len_ge: "5 \<le> ip_hl m \<Longrightarrow> 5 \<le> tcp_hl m (4 * ip_hl m) \<Longrightarrow> 4 * ip_hl m + 20 \<le> hdr_len m"
  by (simp add: hdr_len_def)

lemma compressible_flags:
  assumes "f AND 0xc0 = 0" "f AND (TH_SYN OR TH_FIN OR TH_RST OR TH_ACK) = TH_ACK"
  shows "flags_ok f"
proof -
  have m: "NOT (TH_PUSH OR TH_URG) = 0xc0 OR (TH_SYN OR TH_FIN OR TH_RST OR TH_ACK)"
    by (simp add: TH_PUSH_def TH_URG_def TH_SYN_def TH_FIN_def TH_RST_def TH_ACK_def)
  have "f AND NOT (TH_PUSH OR TH_URG) = (f AND 0xc0) OR (f AND (TH_SYN OR TH_FIN OR TH_RST OR TH_ACK))"
    unfolding m by (rule bit.conj_disj_distrib)
  then show ?thesis using assms by (simp add: flags_ok_def)
qed

section \<open>The receiver\<close>

lemma special_new_c:
  assumes "sl_deltas ip oip = Some ds" "sl_special hlen ip oip ds = Some (ch, cs)"
  shows "(ch OR chrest i p c) AND NEW_C \<noteq> 0 \<longleftrightarrow> c" "(ch OR chrest i p c) AND TCP_PUSH_BIT \<noteq> 0 \<longleftrightarrow> p"
    "length cs \<le> 12"
proof -
  have sp: "sl_special hlen ip oip (d_mask ip oip, d_codes ip oip, d_seq ip oip, d_ack ip oip) = Some (ch, cs)"
    using assms sl_deltas_Some(1) [OF assms(1)] by simp
  have len: "length (code_if x s) \<le> 3" if "length s \<le> 3" for x s using that by (simp add: code_if_def)
  have "length (d_codes ip oip) \<le> 12"
    using len [OF ENCODE_length(2), of "d_urg ip" "get16 ip (4 * ip_hl ip + th_urp)"]
      len [OF ENCODE_length(1), of "d_win ip oip \<noteq> 0" "d_win ip oip"]
      len [OF ENCODE_length(1), of "d_ack ip oip \<noteq> 0" "ucast (d_ack ip oip)"]
      len [OF ENCODE_length(1), of "d_seq ip oip \<noteq> 0" "ucast (d_seq ip oip)"]
    unfolding d_codes_def length_append by linarith
  note l = this
  show "(ch OR chrest i p c) AND NEW_C \<noteq> 0 \<longleftrightarrow> c"
    by (rule sl_special_Some [OF sp refl]; simp add: d_mask_def chmask_bits special_bits)
  show "(ch OR chrest i p c) AND TCP_PUSH_BIT \<noteq> 0 \<longleftrightarrow> p"
    by (rule sl_special_Some [OF sp refl]; simp add: d_mask_def chmask_bits special_bits)
  show "length cs \<le> 12"
    by (rule sl_special_Some [OF sp refl]) (use l in simp_all)
qed

lemma holds_synced:
  assumes "synced oip r" "ip_hl ip = ip_hl oip" "t = 4 * ip_hl ip"
  shows "holds t oip (cs_hdr r)"
proof -
  note s = assms(1) [unfolded synced_def]
  have H: "t + 20 \<le> hdr_len oip" "20 \<le> t" using s assms(2,3) by (simp_all add: hdr_len_def)
  have h: "i < hdr_len oip \<Longrightarrow> i \<noteq> 10 \<Longrightarrow> i \<noteq> 11 \<Longrightarrow> cs_hdr r i = oip i" for i using s by simp
  show ?thesis
    unfolding holds_def using H h assms(2,3) by (simp add: get32_eq_iff get16_eq_iff ip_hl_def)
qed

text \<open>A header whose changing fields, length and checksum aside, are those of the packet is restored.\<close>

lemma restored_byte:
  assumes "synced oip r" "\<not> sl_unexpected ip oip" "get32 ip ip_src = get32 oip ip_src" "get32 ip ip_dst = get32 oip ip_dst"
    "get32 ip (4 * ip_hl ip) = get32 oip (4 * ip_hl oip)" "get16 ip ip_len = of_nat n" "i < hdr_len ip"
  shows "put16 ip_len (of_nat n) (rebuilt ip (cs_hdr r)) i = (if i = ip_sum \<or> i = ip_sum + 1 then 0 else ip i)"
proof -
  note s = assms(1) [unfolded synced_def]
  note un = unchanged_bytes [OF assms(2-5)]
  have t: "20 \<le> 4 * ip_hl ip" using s un(1) by simp
  have "put16 ip_len (of_nat n) (rebuilt ip (cs_hdr r)) i
    = (if i = ip_len \<or> i = ip_len + 1 then ip i else rebuilt ip (cs_hdr r) i)"
    using put16_get16 [of ip_len ip] assms(6) by simp
  then show ?thesis
    using un(2,3) s assms(7) t by (auto simp: rebuilt_byte)
qed

lemma uncompress_apply_ok:
  assumes "i = unat (last_recv r)" "i < MAX_STATES" "synced oip (rstate r ! i)" "i < length (rstate r)"
    and un: "\<not> sl_unexpected ip oip" "get32 ip ip_src = get32 oip ip_src" "get32 ip ip_dst = get32 oip ip_dst"
      "get32 ip (4 * ip_hl ip) = get32 oip (4 * ip_hl oip)"
    and ok: "datagram_ok ip n" "t = 4 * ip_hl ip" "flags_ok (ip (t + th_flags))"
      "d_urg ip \<or> oip (t + th_flags) AND TH_URG = 0"
    and d: "sl_deltas ip oip = Some ds" "sl_special (hdr_len ip) ip oip ds = Some (ch, cs)"
    and r: "reads b cp ([hi8 cks, lo8 cks] @ (cs @ id_code ip oip) @ mem_list ip (hdr_len ip) n)" "cks = get16 ip (t + th_sum)"
    and len: "len = cp + 2 + length (cs @ id_code ip oip) + (n - hdr_len ip)"
    and ch: "changes = ch OR chrest (d_id ip oip \<noteq> 1) (ip (t + th_flags) AND TH_PUSH \<noteq> 0) c"
  shows "\<exists>h. uncompress_apply b len changes cp r = Some (mem_list ip 0 n, rstate_hdr i h r)
    \<and> synced ip ((rstate r ! i)\<lparr>cs_hdr := h\<rparr>)"
proof -
  let ?rs = "rstate r ! i" and ?H = "hdr_len ip" and ?cp3 = "cp + 2 + length (cs @ id_code ip oip)"
  let ?h4 = "put16 ip_len (of_nat n) (rebuilt ip (cs_hdr ?rs))"
  note s = assms(3) [unfolded synced_def]
  note same = unchanged_bytes [OF un]
  have hl: "ip_hl ip = ip_hl oip" and H: "hdr_len ip = hdr_len oip" using same s by simp_all
  have hold: "holds t oip (cs_hdr ?rs)" by (rule holds_synced [OF assms(3) hl ok(2)])
  then have t: "4 * ip_hl (cs_hdr ?rs) = t" by (simp add: holds_def)
  have fo: "flags_ok (oip (t + th_flags))" using s hl ok(2) by simp
  have rd: "get16 b cp = cks" "reads b (cp + 2) (cs @ id_code ip oip)" "reads b ?cp3 (mem_list ip ?H n)"
    using r(1) by (simp_all add: reads_append reads_cons get16_def get16_bytes add.assoc)
  have Hn: "?H \<le> n" "get16 ip ip_len = of_nat n" using ok(1) by (simp_all add: datagram_ok_def)
  have sp: "(put16 (t + th_sum) (get16 b cp) (cs_hdr ?rs))(t + th_flags :=
        (if changes AND TCP_PUSH_BIT \<noteq> 0 then put16 (t + th_sum) (get16 b cp) (cs_hdr ?rs) (t + th_flags) OR TH_PUSH
         else put16 (t + th_sum) (get16 b cp) (cs_hdr ?rs) (t + th_flags) AND NOT TH_PUSH))
      = sum_push ip (cs_hdr ?rs)"
    using rd(1) r(2) special_new_c(2) [OF d] by (simp add: sum_push_def Let_def set_push_def ok(2) [symmetric] ch)
  have F: "uncompress_fields b changes (cs_hlen ?rs) (sum_push ip (cs_hdr ?rs), cp + 2) = (rebuilt ip (cs_hdr ?rs), ?cp3)"
    using uncompress_rebuilt [OF hold ok(2,3) fo ok(4) d rd(2)] s H by (simp add: ch)
  have byte: "?h4 k = (if k = ip_sum \<or> k = ip_sum + 1 then 0 else ip k)" if "k < ?H" for k
    by (rule restored_byte [OF assms(3) un Hn(2) that])
  have t20: "t + 20 \<le> ?H" using s H hl ok(2) by (simp add: hdr_len_def)
  define p where "p = (\<lambda>k. if k < ?H then ?h4 k else b (?cp3 + (k - ?H)))"
  have p: "p k = put16 ip_sum 0 ip k" if "k < n" for k
  proof (cases "k < ?H")
    case True
    then show ?thesis using byte by (simp add: p_def put16_byte hi8_def lo8_def)
  next
    case False
    then have "k - ?H < n - ?H" using that by simp
    then have "b (?cp3 + (k - ?H)) = ip (?H + (k - ?H))" using rd(3) unfolding reads_mem_list by blast
    then show ?thesis using False t20 by (simp add: p_def put16_byte)
  qed
  have ck: "ip_cksum p (2 * ip_hl ip) = le16 ip ip_sum"
  proof -
    have "ip_cksum p (2 * ip_hl ip) = ip_cksum (put16 ip_sum 0 ip) (2 * ip_hl ip)"
      by (rule ip_cksum_cong) (use p t20 Hn(1) ok(2) in auto)
    then show ?thesis using ok(1) by (simp add: datagram_ok_def)
  qed
  have cl: "cs_hlen ?rs = ?H" using s H by simp
  have hn: "?H + (len - ?cp3) = n" "2 * ip_hl (cs_hdr ?rs) = 2 * ip_hl ip" using len Hn(1) t ok(2) by simp_all
  have "uncompress_packet b ?cp3 len ?rs ?h4 = mem_list (put_le16 ip_sum (le16 ip ip_sum) p) 0 n"
    unfolding uncompress_packet_def Let_def cl p_def [symmetric] hn ck ..
  also have "\<dots> = mem_list ip 0 n"
    by (rule mem_list_eq) (use p in \<open>simp add: put_le16_le16 put16_byte\<close>)
  finally have P: "uncompress_packet b ?cp3 len ?rs ?h4 = mem_list ip 0 n" .
  have L: "len - ?cp3 + cs_hlen ?rs = n" using len Hn(1) s H by simp
  have A: "uncompress_apply b len changes cp r = Some (mem_list ip 0 n, rstate_hdr i ?h4 r)"
    unfolding uncompress_apply_def Let_def assms(1) [symmetric] t sp F prod.case L P
    using assms(2) len by simp
  have "synced ip (?rs\<lparr>cs_hdr := ?h4\<rparr>)"
    using byte s H hl ok(1,3) by (simp add: synced_def datagram_ok_def ok(2))
  then show ?thesis using A by blast
qed

section \<open>The connection tables\<close>

text \<open>
  A transmit state is unused (its header all zero at the front) or in step with the receive
  state of its number; the last number sent is the last received.
\<close>

definition cs_sync :: "slcompress \<Rightarrow> cstate \<Rightarrow> bool" where
  "cs_sync r cs \<longleftrightarrow> unat (cs_id cs) < MAX_STATES
     \<and> (cs_hdr cs 0 = 0 \<or> synced (cs_hdr cs) (rstate r ! unat (cs_id cs)))"

definition sl_sync :: "slcompress \<Rightarrow> slcompress \<Rightarrow> bool" where
  "sl_sync s r \<longleftrightarrow> tstate s \<noteq> [] \<and> length (rstate r) = MAX_STATES \<and> distinct (map cs_id (tstate s))
     \<and> (\<forall>cs\<in>set (tstate s). cs_sync r cs)
     \<and> (unat (last_xmit s) < MAX_STATES \<longrightarrow> last_recv r = last_xmit s \<and> sl_flags r AND SLF_TOSS = 0)"

lemma sl_sync_init: "sl_sync sl_compress_init sl_compress_init"
proof -
  have "inj_on (of_nat :: nat \<Rightarrow> 8 word) {0..<MAX_STATES}"
  proof (rule inj_onI)
    fix x y assume "x \<in> {0..<MAX_STATES}" "y \<in> {0..<MAX_STATES}" "of_nat x = (of_nat y :: 8 word)"
    moreover have "unat (of_nat z :: 8 word) = z" if "z \<in> {0..<MAX_STATES}" for z
      using that by (simp add: MAX_STATES_def unsigned_of_nat take_bit_nat_eq_self)
    ultimately show "x = y" by metis
  qed
  moreover have "unat (of_nat i :: 8 word) = i" if "i < MAX_STATES" for i
    using that by (simp add: MAX_STATES_def unsigned_of_nat take_bit_nat_eq_self)
  ultimately show ?thesis
    by (auto simp: sl_sync_def sl_compress_init_def cs_sync_def comp_def distinct_map MAX_STATES_def)
qed

lemma cs_search_Some:
  "cs_search ip css i = Some j \<Longrightarrow> i \<le> j \<and> j - i < length css \<and> cs_match ip (css ! (j - i))"
proof (induction css arbitrary: i)
  case (Cons c css)
  show ?case
  proof (cases "cs_match ip c")
    case False
    then have "cs_search ip css (Suc i) = Some j" using Cons.prems by simp
    from Cons.IH [OF this] show ?thesis by (auto simp: nth_Cons' Suc_diff_Suc)
  qed (use Cons.prems in simp)
qed simp

lemma sl_locate_ok:
  assumes "sl_locate ip sc = (found, sc1)" "tstate sc \<noteq> []"
  shows "mset (tstate sc1) = mset (tstate sc)" "found \<Longrightarrow> cs_match ip (hd (tstate sc1))"
    "last_xmit sc1 = last_xmit sc" "tstate sc1 \<noteq> []"
proof -
  obtain c cs where c: "tstate sc = c # cs" using assms(2) by (cases "tstate sc") auto
  have "mset (tstate sc1) = mset (tstate sc) \<and> (found \<longrightarrow> cs_match ip (hd (tstate sc1)))
     \<and> last_xmit sc1 = last_xmit sc \<and> tstate sc1 \<noteq> []"
  proof (cases "cs_match ip c")
    case True
    then show ?thesis using assms c by (auto simp: sl_locate_def)
  next
    case nomatch: False
    show ?thesis
    proof (cases "cs_search ip cs 0")
      case None
      have "mset (last (c # cs) # butlast (c # cs)) = mset (c # cs)"
        by (metis append_butlast_last_id list.distinct(1) mset.simps(2) mset_append add_mset_add_single mset_single_iff_right mset.simps(1))
      then show ?thesis using assms c nomatch None by (auto simp: sl_locate_def)
    next
      case (Some i)
      note i = cs_search_Some [OF Some]
      have "mset (cs ! i # c # take i cs @ drop (Suc i) cs) = mset (c # cs)"
        using i id_take_nth_drop [of i cs] by (metis (no_types, lifting) add_mset_commute diff_zero mset.simps(2) mset_append union_mset_add_mset_right)
      then show ?thesis using assms c nomatch Some i by (auto simp: sl_locate_def)
    qed
  qed
  then show "mset (tstate sc1) = mset (tstate sc)" "found \<Longrightarrow> cs_match ip (hd (tstate sc1))"
    "last_xmit sc1 = last_xmit sc" "tstate sc1 \<noteq> []" by auto
qed

lemma sl_sync_permute:
  assumes "sl_sync s r" "mset (tstate s1) = mset (tstate s)" "last_xmit s1 = last_xmit s"
  shows "sl_sync s1 r"
proof -
  have "distinct (map cs_id (tstate s1))"
    using assms(1,2) by (metis mset_eq_imp_distinct_iff mset_map sl_sync_def)
  then show ?thesis
    using assms mset_eq_setD [OF assms(2)] by (auto simp: sl_sync_def)
qed

text \<open>The connection at the front takes the header of the packet, at both ends.\<close>

lemma sl_sync_front:
  assumes "sl_sync s r" "cs = hd (tstate s)" "i = unat (cs_id cs)"
    and s1: "tstate s1 = cs\<lparr>cs_hdr := h\<rparr> # tl (tstate s)" "last_xmit s1 = cs_id cs"
    and r1: "rstate r1 = (rstate r)[i := rs]" "last_recv r1 = cs_id cs" "sl_flags r1 AND SLF_TOSS = 0"
    and "synced h rs"
  shows "sl_sync s1 r1"
proof -
  have cs: "tstate s = cs # tl (tstate s)" using assms(1,2) by (simp add: sl_sync_def)
  then have mem: "cs \<in> set (tstate s)" by (metis list.set_intros(1))
  have i: "i < length (rstate r)" using assms(1,3) mem by (auto simp: sl_sync_def cs_sync_def)
  have other: "cs_sync r1 c" if "c \<in> set (tl (tstate s))" for c
  proof -
    have "cs_id c \<noteq> cs_id cs" using assms(1) cs that unfolding sl_sync_def
      by (metis distinct.simps(2) image_eqI list.simps(9) set_map)
    then have "unat (cs_id c) \<noteq> i" using assms(3) by (simp add: word_unat_eq_iff)
    moreover have "cs_sync r c" using assms(1) cs that unfolding sl_sync_def by (metis list.set_intros(2))
    ultimately show ?thesis using r1(1) by (simp add: cs_sync_def)
  qed
  have "distinct (map cs_id (tstate s1))" using assms(1) s1(1) cs unfolding sl_sync_def
    by (metis cstate.select_convs(2) cstate.surjective cstate.update_convs(3) list.simps(9))
  then show ?thesis
    using assms(1) s1 r1 other i assms(3,9) mem by (auto simp: sl_sync_def cs_sync_def)
qed

text \<open>What the receiver finds in its buffer: the bytes of the packet, then what was there before.\<close>

definition line_buf :: "8 word list \<Rightarrow> mem \<Rightarrow> mem" where
  "line_buf q stale = (\<lambda>i. if i < length q then q ! i else stale i)"

lemma reads_line_buf: "reads (line_buf q stale) 0 q"
  by (simp add: reads_def line_buf_def)

section \<open>One packet\<close>

lemma hdr_len_cong:
  assumes "m' 0 = m 0" "m' (4 * ip_hl m + th_xoff) = m (4 * ip_hl m + th_xoff)"
  shows "ip_hl m' = ip_hl m" "tcp_hl m' (4 * ip_hl m) = tcp_hl m (4 * ip_hl m)" "hdr_len m' = hdr_len m"
  using assms by (simp_all add: ip_hl_def tcp_hl_def hdr_len_def)

lemma synced_copy:
  assumes "datagram_ok ip n" "flags_ok (ip (4 * ip_hl ip + th_flags))"
    "\<And>i. i < hdr_len ip \<Longrightarrow> o' i = ip i"
    "\<And>i. i < hdr_len ip \<Longrightarrow> cs_hdr r i = (if i = ip_sum \<or> i = ip_sum + 1 then 0 else ip i)" "cs_hlen r = hdr_len ip"
  shows "synced o' r"
proof -
  have H: "4 * ip_hl ip + 20 \<le> hdr_len ip" using assms(1) by (simp add: datagram_ok_def hdr_len_def)
  have "o' 0 = ip 0" "o' (4 * ip_hl ip + th_xoff) = ip (4 * ip_hl ip + th_xoff)"
    "o' (4 * ip_hl ip + th_flags) = ip (4 * ip_hl ip + th_flags)"
    using assms(3) H by simp_all
  note same = hdr_len_cong [OF this(1,2)] and fl = this(3)
  show ?thesis
    unfolding synced_def same using assms fl by (auto simp: datagram_ok_def same)
qed

lemma in_set_tl: "x \<in> set (tl xs) \<Longrightarrow> x \<in> set xs"
  by (cases xs) auto

text \<open>Every state of the sender afterwards is an old one or holds the packet's header.\<close>

definition tables_follow :: "mem \<Rightarrow> slcompress \<Rightarrow> slcompress \<Rightarrow> bool" where
  "tables_follow ip s s1 \<longleftrightarrow>
     (\<forall>cs\<in>set (tstate s1). cs \<in> set (tstate s) \<or> (\<forall>i<hdr_len ip. cs_hdr cs i = ip i))"

definition received :: "mem \<Rightarrow> nat \<Rightarrow> mem \<Rightarrow> slcompress \<Rightarrow> slcompress \<Rightarrow> 8 word \<times> 8 word list \<times> slcompress \<Rightarrow> bool" where
  "received ip n stale s r out \<longleftrightarrow>
     (case out of (ty, q, s1) \<Rightarrow>
        \<exists>r1. sl_uncompress_tcp (line_buf q stale) (length q) ty r = Some (mem_list ip 0 n, r1)
          \<and> sl_sync s1 r1 \<and> tables_follow ip s s1)"

lemma uncompressed_received:
  assumes "sl_sync s r" "datagram_ok ip n" "flags_ok (ip (4 * ip_hl ip + th_flags))"
  shows "received ip n stale s r (sl_uncompressed ip n (hdr_len ip) s)"
proof -
  let ?cs = "hd (tstate s)" and ?H = "hdr_len ip"
  let ?i = "unat (cs_id ?cs)"
  define q where "q = mem_list (ip(ip_p := cs_id ?cs)) 0 n"
  define b where "b = line_buf q stale"
  define s1 where "s1 = (front_hdr (bcopy ?H ip (cs_hdr ?cs)) s)\<lparr>last_xmit := cs_id ?cs\<rparr>"
  have mem: "?cs \<in> set (tstate s)" using assms(1) by (simp add: sl_sync_def)
  then have i: "?i < MAX_STATES" "length (rstate r) = MAX_STATES" using assms(1) by (auto simp: sl_sync_def cs_sync_def)
  have H: "4 * ip_hl ip + 20 \<le> ?H" "?H \<le> n" "20 \<le> 4 * ip_hl ip" using assms(2) by (simp_all add: datagram_ok_def hdr_len_def)
  have b: "b k = (ip(ip_p := cs_id ?cs)) k" if "k < n" for k
    using that by (simp add: b_def q_def line_buf_def)
  let ?ip = "b(ip_p := IPPROTO_TCP)"
  have ip: "?ip k = ip k" if "k < n" for k using b [OF that] assms(2) by (simp add: datagram_ok_def)
  have "?ip 0 = ip 0" "?ip (4 * ip_hl ip + th_xoff) = ip (4 * ip_hl ip + th_xoff)" using H by (intro ip; simp)+
  note same = hdr_len_cong [OF this]
  let ?rs = "(rstate r ! ?i)\<lparr>cs_hdr := put16 ip_sum 0 (bcopy ?H ?ip (cs_hdr (rstate r ! ?i))), cs_hlen := ?H\<rparr>"
  define r1 where "r1 = r\<lparr>rstate := (rstate r)[?i := ?rs], last_recv := cs_id ?cs,
     sl_flags := sl_flags r AND NOT SLF_TOSS, sls_uncompressedin := sls_uncompressedin r + 1\<rparr>"
  have b9: "b ip_p = cs_id ?cs" using b [of ip_p] H by simp
  have "mem_list ?ip 0 n = mem_list ip 0 n" by (rule mem_list_eq) (use ip in simp)
  moreover have "4 * (ip_hl ?ip + tcp_hl ?ip (4 * ip_hl ?ip)) = ?H" by (simp only: same hdr_len_def)
  ultimately have "uncompress_sync b n r = (mem_list ip 0 n, r1)"
    using i b9 unfolding uncompress_sync_def Let_def r1_def by simp
  then have U: "sl_uncompress_tcp b (length q) TYPE_UNCOMPRESSED_TCP r = Some (mem_list ip 0 n, r1)"
    by (simp add: sl_uncompress_tcp_def q_def)
  have sy: "synced (bcopy ?H ip (cs_hdr ?cs)) ?rs"
    by (rule synced_copy [OF assms(2,3)]) (use ip H in \<open>simp_all add: bcopy_def put16_byte hi8_def lo8_def\<close>)
  have toss: "(x AND NOT SLF_TOSS) AND SLF_TOSS = 0" for x :: "16 word"
    by (rule bit_word_eqI) (auto simp: bit_simps)
  have S: "sl_sync s1 r1"
    by (rule sl_sync_front [OF assms(1) refl refl _ _ _ _ _ sy])
       (simp_all add: s1_def front_hdr_def r1_def toss)
  have "tables_follow ip s s1"
    using mem by (auto simp: tables_follow_def s1_def front_hdr_def bcopy_def intro: in_set_tl)
  then show ?thesis
    using U S unfolding received_def sl_uncompressed_def Let_def prod.case
    by (auto simp: q_def [symmetric] b_def [symmetric] s1_def [symmetric])
qed

lemma clear_toss: "(x AND NOT SLF_TOSS) AND SLF_TOSS = 0"
  by (rule bit_word_eqI) (auto simp: bit_simps)

text \<open>The change byte as it goes out.\<close>

lemma change_byte:
  "(let c4 = (if i then ch OR NEW_I else ch); c5 = (if p then c4 OR TCP_PUSH_BIT else c4)
    in if c then c5 OR NEW_C else c5) = ch OR chrest i p c"
  by (simp add: chrest_def Let_def or.assoc)

lemma compressed_received:
  assumes "sl_sync s r" "datagram_ok ip n" "flags_ok (ip (4 * ip_hl ip + th_flags))"
    and oip: "oip = cs_hdr (hd (tstate s))" "cs_match ip (hd (tstate s))" "\<not> sl_unexpected ip oip"
    and urg: "d_urg ip \<or> oip (4 * ip_hl ip + th_flags) AND TH_URG = 0"
    and d: "sl_deltas ip oip = Some ds" "sl_special (hdr_len ip) ip oip ds = Some (ch, codes)"
  shows "\<exists>out. sl_compressed ip n (hdr_len ip) cid (ch, codes) s = Some out \<and> received ip n stale s r out"
proof -
  let ?cs = "hd (tstate s)" and ?H = "hdr_len ip" and ?t = "4 * ip_hl ip"
  let ?i = "unat (cs_id ?cs)"
  define ex where "ex = (\<not> cid \<or> last_xmit s \<noteq> cs_id ?cs)"
  define ck where "ck = get16 ip (?t + th_sum)"
  define c5 where "c5 = ch OR chrest (d_id ip oip \<noteq> 1) (ip (?t + th_flags) AND TH_PUSH \<noteq> 0) ex"
  define new where "new = (if ex then [c5, cs_id ?cs] else [c5]) @ [hi8 ck, lo8 ck] @ (codes @ id_code ip oip)"
  define s1 where "s1 = (let s1 = front_hdr (bcopy ?H ip oip) s; s2 = (if ex then s1\<lparr>last_xmit := cs_id ?cs\<rparr> else s1)
     in s2\<lparr>sls_compressed := sls_compressed s2 + 1\<rparr>)"
  define q where "q = new @ mem_list ip ?H n"
  define b where "b = line_buf q stale"
  have H: "?t + 20 \<le> ?H" "?H \<le> n" "20 \<le> ?t" using assms(2) by (simp_all add: datagram_ok_def hdr_len_def)
  have mem: "?cs \<in> set (tstate s)" using assms(1) by (simp add: sl_sync_def)
  then have i: "?i < MAX_STATES" "length (rstate r) = MAX_STATES" and cs: "cs_sync r ?cs"
    using assms(1) by (auto simp: sl_sync_def cs_sync_def)
  have "ip 0 \<noteq> 0" using H(3) by (auto simp: ip_hl_def)
  moreover have "ip 0 = oip 0" using oip(3) by (simp add: sl_unexpected_def Let_def get16_eq_iff)
  ultimately have sy: "synced oip (rstate r ! ?i)" using cs oip(1) by (simp add: cs_sync_def)
  have m: "get32 ip ip_src = get32 oip ip_src" "get32 ip ip_dst = get32 oip ip_dst" "get32 ip ?t = get32 oip (4 * ip_hl oip)"
    using oip(2) by (simp_all add: cs_match_def oip(1))
  have "length (id_code ip oip) \<le> 3" using ENCODE_length(2) by (simp add: id_code_def code_if_def)
  then have len: "length new \<le> ?H"
    using special_new_c(3) [OF d] H by (simp add: new_def)
  have c5: "(if ex then (c4 OR NEW_C) else c4) = c5"
    if "c4 = (if ip (?t + th_flags) AND TH_PUSH \<noteq> 0 then (if d_id ip oip \<noteq> 1 then ch OR NEW_I else ch) OR TCP_PUSH_BIT
       else (if d_id ip oip \<noteq> 1 then ch OR NEW_I else ch))" for c4
    unfolding that c5_def by (rule change_byte [unfolded Let_def])
  have C: "sl_compressed ip n ?H cid (ch, codes) s = Some (TYPE_COMPRESSED_TCP, q, s1)"
  proof -
    have "(if ex then [c4 OR NEW_C, cs_id ?cs] else [c4]) = (if ex then [c5, cs_id ?cs] else [c5])"
      if "(if ex then (c4 OR NEW_C) else c4) = c5" for c4 using that by (cases ex) auto
    note e = this [OF c5 [OF refl]]
    have f: "(case (if d_id ip oip \<noteq> 1 then (fst (ch, codes) OR NEW_I, snd (ch, codes) @ ENCODEZ (ucast (d_id ip oip))) else (ch, codes)) of
        (c4, s4) \<Rightarrow> g c4 s4)
      = g (if d_id ip oip \<noteq> 1 then ch OR NEW_I else ch) (codes @ id_code ip oip)" for g :: "8 word \<Rightarrow> 8 word list \<Rightarrow> 'a"
      by (simp add: id_code_def code_if_def)
    show ?thesis
      unfolding sl_compressed_def Let_def oip(1) [symmetric] d_id_def [symmetric] ex_def [symmetric] ck_def [symmetric] f e
        new_def [symmetric]
      using len mem_list_header [OF len H(2), of ip]
      by (simp add: q_def s1_def Let_def)
  qed
  have rq: "reads b 0 q" unfolding b_def by (rule reads_line_buf)
  have rd: "reads b (if ex then 2 else 1) ([hi8 ck, lo8 ck] @ (codes @ id_code ip oip) @ mem_list ip ?H n)"
    "b 0 = c5" "ex \<Longrightarrow> b 1 = cs_id ?cs"
    using rq by (cases ex; simp add: q_def new_def reads_append reads_cons numeral_2_eq_2 add.assoc)+
  define r0 where "r0 = (let r = r\<lparr>sls_compressedin := sls_compressedin r + 1\<rparr> in
     if ex then r\<lparr>sl_flags := sl_flags r AND NOT SLF_TOSS, last_recv := cs_id ?cs\<rparr> else r)"
  have r0: "last_recv r0 = cs_id ?cs" "rstate r0 = rstate r" "sl_flags r0 AND SLF_TOSS = 0"
    using assms(1) i(1) by (cases ex; auto simp: r0_def ex_def sl_sync_def clear_toss Let_def)+
  have nc: "c5 AND NEW_C \<noteq> 0 \<longleftrightarrow> ex" unfolding c5_def by (rule special_new_c(1) [OF d])
  have lq: "length q = (if ex then 2 else 1) + 2 + length (codes @ id_code ip oip) + (n - ?H)"
    by (simp add: q_def new_def)
  obtain h where h: "uncompress_apply b (length q) c5 (if ex then 2 else 1) r0 = Some (mem_list ip 0 n, rstate_hdr ?i h r0)"
    "synced ip ((rstate r0 ! ?i)\<lparr>cs_hdr := h\<rparr>)"
    using uncompress_apply_ok [where r = r0 and i = ?i and oip = oip and ip = ip and n = n and t = ?t and b = b
        and cp = "if ex then 2 else 1" and len = "length q" and changes = c5 and c = ex and cks = ck,
        OF _ i(1) _ _ oip(3) m assms(2) refl assms(3) urg d rd(1) ck_def lq c5_def]
      r0 sy i(2) i(1) by auto
  have U: "sl_uncompress_tcp b (length q) TYPE_COMPRESSED_TCP r = Some (mem_list ip 0 n, rstate_hdr ?i h r0)"
    using h(1) rd nc i(1) assms(1)
    by (cases ex) (auto simp: sl_uncompress_tcp_def Let_def r0_def TYPE_COMPRESSED_TCP_def TYPE_UNCOMPRESSED_TCP_def ex_def sl_sync_def)
  have sy1: "synced (bcopy ?H ip oip) ((rstate r ! ?i)\<lparr>cs_hdr := h\<rparr>)"
    by (rule synced_copy [OF assms(2,3)]) (use h(2) r0(2) in \<open>simp_all add: synced_def bcopy_def\<close>)
  have S: "sl_sync s1 (rstate_hdr ?i h r0)"
    by (rule sl_sync_front [OF assms(1) refl refl _ _ _ _ _ sy1])
       (use r0 in \<open>auto simp: s1_def front_hdr_def rstate_hdr_def Let_def ex_def\<close>)
  have "tables_follow ip s s1"
    using mem by (auto simp: tables_follow_def s1_def front_hdr_def bcopy_def Let_def intro: in_set_tl)
  then show ?thesis
    using C U S by (auto simp: received_def b_def)
qed

text \<open>Either the packet goes out as it is and nothing changes, or the receiver rebuilds it.\<close>

lemma sl_step:
  assumes "sl_sync s r" "datagram_ok ip n"
    and urg: "\<And>cs. cs \<in> set (tstate s) \<Longrightarrow> \<not> sl_unexpected ip (cs_hdr cs) \<Longrightarrow>
      d_urg ip \<or> cs_hdr cs (4 * ip_hl ip + th_flags) AND TH_URG = 0"
  shows "\<exists>out. sl_compress_tcp ip n s cid = Some out
    \<and> (if fst out = TYPE_IP then out = (TYPE_IP, mem_list ip 0 n, s) else received ip n stale s r out)"
proof -
  let ?t = "4 * ip_hl ip"
  have n: "\<not> n < 40" using assms(2) by (simp add: datagram_ok_def hdr_len_def)
  have ty: "fst (sl_uncompressed a b c d) \<noteq> TYPE_IP" for a b c d
    by (simp add: sl_uncompressed_def Let_def TYPE_UNCOMPRESSED_TCP_def TYPE_IP_def)
  have ty2: "sl_compressed a b c d e f = Some out \<Longrightarrow> fst out \<noteq> TYPE_IP" for a b c d e f out
    by (auto simp: sl_compressed_def Let_def TYPE_COMPRESSED_TCP_def TYPE_IP_def split: prod.splits if_splits)
  show ?thesis
  proof (cases "get16 ip ip_off AND 0x3fff \<noteq> 0
      \<or> ip (?t + th_flags) AND (TH_SYN OR TH_FIN OR TH_RST OR TH_ACK) \<noteq> TH_ACK")
    case True
    then show ?thesis using n by (auto simp: sl_compress_tcp_def Let_def)
  next
    case False
    then have fl: "flags_ok (ip (?t + th_flags))"
      using assms(2) compressible_flags by (simp add: datagram_ok_def)
    define s0 where "s0 = s\<lparr>sls_packets := sls_packets s + 1\<rparr>"
    obtain found s1 where loc: "sl_locate ip s0 = (found, s1)" by (cases "sl_locate ip s0")
    have ne: "tstate s0 \<noteq> []" using assms(1) by (simp add: s0_def sl_sync_def)
    note l = sl_locate_ok [OF loc ne]
    have sy: "sl_sync s1 r"
      by (rule sl_sync_permute [OF assms(1)]) (use l in \<open>simp_all add: s0_def\<close>)
    have set: "set (tstate s1) = set (tstate s)" using mset_eq_setD [OF l(1)] by (simp add: s0_def)
    have weak: "received ip n stale s1 r out \<Longrightarrow> received ip n stale s r out" for out
      using set by (auto simp: received_def tables_follow_def)
    let ?oip = "cs_hdr (hd (tstate s1))"
    have E: "sl_compress_tcp ip n s cid = (if \<not> found \<or> sl_unexpected ip ?oip then Some (sl_uncompressed ip n (hdr_len ip) s1)
           else case Option.bind (sl_deltas ip ?oip) (sl_special (hdr_len ip) ip ?oip) of
             None \<Rightarrow> Some (sl_uncompressed ip n (hdr_len ip) s1)
           | Some cn \<Rightarrow> sl_compressed ip n (hdr_len ip) cid cn s1)"
      unfolding sl_compress_tcp_def Let_def hdr_len_def [symmetric] using False n loc by (simp add: s0_def)
    have unc: ?thesis if "sl_compress_tcp ip n s cid = Some (sl_uncompressed ip n (hdr_len ip) s1)"
      using that ty weak [OF uncompressed_received [OF sy assms(2) fl]] by auto
    show ?thesis
    proof (cases "\<not> found \<or> sl_unexpected ip ?oip")
      case True
      then show ?thesis using unc E by simp
    next
      case match: False
      show ?thesis
      proof (cases "Option.bind (sl_deltas ip ?oip) (sl_special (hdr_len ip) ip ?oip)")
        case None
        then show ?thesis using unc E match by simp
      next
        case (Some cn)
        obtain ch codes where cn: "cn = (ch, codes)" by (cases cn)
        obtain ds where ds: "sl_deltas ip ?oip = Some ds" "sl_special (hdr_len ip) ip ?oip ds = Some (ch, codes)"
          using Some cn by (auto simp: bind_eq_Some_conv)
        have "d_urg ip \<or> ?oip (?t + th_flags) AND TH_URG = 0"
          using urg [of "hd (tstate s1)"] match set hd_in_set [OF l(4)] by simp
        from compressed_received [OF sy assms(2) fl refl _ _ this ds, where cid = cid and stale = stale]
        obtain out where "sl_compressed ip n (hdr_len ip) cid (ch, codes) s1 = Some out" "received ip n stale s1 r out"
          using l(2) match by auto
        then show ?thesis using E match Some cn weak ty2 by auto
      qed
    qed
  qed
qed

section \<open>A sequence of packets\<close>

text \<open>
  The line between the two ends: each packet with its length, the flag that allows an
  implicit connection number, and the old contents of the receiver's buffer.
\<close>

type_synonym line_item = "mem \<times> nat \<times> bool \<times> mem"

fun sl_link :: "slcompress \<Rightarrow> slcompress \<Rightarrow> line_item list \<Rightarrow> 8 word list list option" where
  "sl_link s r [] = Some []"
| "sl_link s r ((ip, n, cid, stale) # ps) =
     Option.bind (sl_compress_tcp ip n s cid) (\<lambda>(ty, q, s1).
       if ty = TYPE_IP then map_option (Cons q) (sl_link s1 r ps)
       else Option.bind (sl_uncompress_tcp (line_buf q stale) (length q) ty r) (\<lambda>(p, r1).
         map_option (Cons p) (sl_link s1 r1 ps)))"

text \<open>No state of the sender holds an urgent packet.\<close>

definition no_urg :: "slcompress \<Rightarrow> bool" where
  "no_urg s \<longleftrightarrow> (\<forall>cs\<in>set (tstate s). cs_hdr cs 0 = 0 \<or> cs_hdr cs (4 * ip_hl (cs_hdr cs) + th_flags) AND TH_URG = 0)"

definition item_ok :: "line_item \<Rightarrow> bool" where
  "item_ok x \<longleftrightarrow> datagram_ok (fst x) (fst (snd x)) \<and> \<not> d_urg (fst x)"

definition item_bytes :: "line_item \<Rightarrow> 8 word list" where
  "item_bytes x = mem_list (fst x) 0 (fst (snd x))"

lemma no_urg_follow:
  assumes "no_urg s" "tables_follow ip s s1" "datagram_ok ip n" "\<not> d_urg ip"
  shows "no_urg s1"
  unfolding no_urg_def
proof
  fix cs assume cs: "cs \<in> set (tstate s1)"
  have H: "4 * ip_hl ip + 20 \<le> hdr_len ip" using assms(3) by (simp add: datagram_ok_def hdr_len_def)
  show "cs_hdr cs 0 = 0 \<or> cs_hdr cs (4 * ip_hl (cs_hdr cs) + th_flags) AND TH_URG = 0"
  proof (cases "cs \<in> set (tstate s)")
    case False
    then have i: "cs_hdr cs k = ip k" if "k < hdr_len ip" for k
      using assms(2) cs that by (auto simp: tables_follow_def)
    then have "ip_hl (cs_hdr cs) = ip_hl ip" using H by (intro ip_hl_cong) simp
    then show ?thesis using i H assms(4) by (simp add: d_urg_def)
  qed (use assms(1) in \<open>auto simp: no_urg_def\<close>)
qed

lemma sl_link_ok:
  assumes "sl_sync s r" "no_urg s" "\<forall>x\<in>set ps. item_ok x"
  shows "sl_link s r ps = Some (map item_bytes ps)"
  using assms
proof (induction ps arbitrary: s r)
  case (Cons x ps)
  obtain ip n cid stale where x: "x = (ip, n, cid, stale)" by (cases x)
  have ok: "datagram_ok ip n" "\<not> d_urg ip" using Cons.prems(3) x by (auto simp: item_ok_def)
  have z: "ip 0 \<noteq> 0" using ok(1) by (auto simp: datagram_ok_def ip_hl_def)
  have "d_urg ip \<or> cs_hdr cs (4 * ip_hl ip + th_flags) AND TH_URG = 0"
    if "cs \<in> set (tstate s)" "\<not> sl_unexpected ip (cs_hdr cs)" for cs
  proof -
    have "ip 0 = cs_hdr cs 0" using that(2) by (simp add: sl_unexpected_def Let_def get16_eq_iff)
    then show ?thesis using Cons.prems(2) that(1) z ip_hl_cong [of ip "cs_hdr cs"] unfolding no_urg_def by metis
  qed
  from sl_step [OF Cons.prems(1) ok(1) this, where cid = cid and stale = stale]
  obtain ty q s1 where out: "sl_compress_tcp ip n s cid = Some (ty, q, s1)"
    "if ty = TYPE_IP then q = mem_list ip 0 n \<and> s1 = s else received ip n stale s r (ty, q, s1)"
    by (auto split: if_splits)
  show ?case
  proof (cases "ty = TYPE_IP")
    case True
    then show ?thesis using out x Cons.IH [OF Cons.prems(1,2)] Cons.prems(3) by (simp add: item_bytes_def)
  next
    case False
    then obtain r1 where r1: "sl_uncompress_tcp (line_buf q stale) (length q) ty r = Some (mem_list ip 0 n, r1)"
      "sl_sync s1 r1" "tables_follow ip s s1"
      using out(2) by (auto simp: received_def)
    have "no_urg s1" by (rule no_urg_follow [OF Cons.prems(2) r1(3) ok])
    then show ?thesis using out(1) False r1 x Cons.IH [OF r1(2)] Cons.prems(3) by (simp add: item_bytes_def)
  qed
qed simp

end
