(* ===== verification/If_sl_Line.thy ===== *)
theory If_sl_Line
  imports If_sl Slcompress_Link
begin

text \<open>
  Framing: what \<open>slstart\<close> puts on the line for a packet, and what \<open>slinput\<close> makes of it.
\<close>

section \<open>Escaping\<close>

definition slip_char :: "8 word \<Rightarrow> 8 word list" where
  "slip_char c = (if c = FRAME_ESCAPE then [FRAME_ESCAPE, TRANS_FRAME_ESCAPE]
     else if c = FRAME_END then [FRAME_ESCAPE, TRANS_FRAME_END] else [c])"

definition slip_escape :: "8 word list \<Rightarrow> 8 word list" where
  "slip_escape bs = concat (map slip_char bs)"

lemma slip_escape_simps [simp]:
  "slip_escape [] = []" "slip_escape (b # bs) = slip_char b @ slip_escape bs"
  "slip_escape (bs @ cs) = slip_escape bs @ slip_escape cs"
  by (simp_all add: slip_escape_def)

lemma slip_escape_plain: "\<forall>b\<in>set bs. \<not> is_special b \<Longrightarrow> slip_escape bs = bs"
  by (induction bs) (auto simp: slip_char_def is_special_def)

lemma slip_escape_length: "length (slip_escape bs) \<le> 2 * length bs" "length bs \<le> length (slip_escape bs)"
  by (induction bs) (auto simp: slip_char_def)

section \<open>Output\<close>

lemma b_to_q_room:
  assumes "length cs \<le> c_room st"
  shows "\<exists>st1. b_to_q cs st = ([], st1) \<and> c_chars (fst st1) = c_chars (fst st) @ cs \<and> c_room st1 = c_room st - length cs"
  using b_to_q_moves [of cs st] assms by (cases "b_to_q cs st") auto

lemma sl_put_mbuf_room:
  assumes "length (slip_escape bs) \<le> c_room (fst st)"
  shows "c_chars (fst (fst (sl_put_mbuf bs st))) = c_chars (fst (fst st)) @ slip_escape bs
    \<and> c_room (fst (sl_put_mbuf bs st)) = c_room (fst st) - length (slip_escape bs)"
  using assms
proof (induction bs st rule: sl_put_mbuf.induct)
  case (1 bs st)
  let ?run = "takeWhile (\<lambda>c. \<not> is_special c) bs" and ?rest = "dropWhile (\<lambda>c. \<not> is_special c) bs"
  show ?case
  proof (cases "bs = []")
    case True
    then show ?thesis by (simp add: sl_put_mbuf.simps)
  next
    case ne: False
    have run: "slip_escape ?run = ?run" by (rule slip_escape_plain) (auto dest: set_takeWhileD)
    then have E: "slip_escape bs = ?run @ slip_escape ?rest"
      by (metis slip_escape_simps(3) takeWhile_dropWhile_id)
    then have "length ?run \<le> c_room (fst st)" using "1.prems" by simp
    from b_to_q_room [OF this] obtain q1 where q1: "b_to_q ?run (fst st) = ([], q1)"
      "c_chars (fst q1) = c_chars (fst (fst st)) @ ?run" "c_room q1 = c_room (fst st) - length ?run" by blast
    show ?thesis
    proof (cases ?rest)
      case Nil
      then have "sl_put_mbuf bs st = (q1, snd st + of_nat (length ?run))"
        using ne q1(1) by (subst sl_put_mbuf.simps) (simp only: Let_def if_False prod.case list.case not_False_eq_True simp_thms)
      then show ?thesis using E q1 Nil by simp
    next
      case (Cons c cs)
      then have c: "is_special c" by (metis dropWhile_eq_Cons_conv)
      let ?c = "if c = FRAME_ESCAPE then TRANS_FRAME_ESCAPE else TRANS_FRAME_END"
      have sc: "slip_char c = [FRAME_ESCAPE, ?c]" using c by (auto simp: slip_char_def is_special_def)
      have room: "2 + length (slip_escape cs) \<le> c_room q1" using E Cons "1.prems" q1(3) sc by simp
      then have "c_room q1 \<noteq> 0" by auto
      then obtain q2 where q2: "c_putc FRAME_ESCAPE q1 = Some q2" using c_putc_room by blast
      note s2 = c_putc_Some [OF q2]
      then have "c_room q2 \<noteq> 0" using room by auto
      then obtain q3 where q3: "c_putc ?c q2 = Some q3" using c_putc_room by blast
      note s3 = c_putc_Some [OF q3]
      have less: "length (slip_escape cs) \<le> c_room (fst (q3, snd st + of_nat (length ?run) + 2))"
        using room s2(2) s3(2) by simp
      have IH: "c_chars (fst (fst (sl_put_mbuf cs (q3, snd st + of_nat (length ?run) + 2)))) = c_chars (fst q3) @ slip_escape cs
        \<and> c_room (fst (sl_put_mbuf cs (q3, snd st + of_nat (length ?run) + 2))) = c_room q3 - length (slip_escape cs)"
        using "1.IH" [OF ne refl refl refl q1(1) [symmetric] _ refl Cons q2 q3 less] by simp
      have S: "sl_put_mbuf bs st = sl_put_mbuf cs (q3, snd st + of_nat (length ?run) + 2)"
        using ne q1(1) Cons q2 q3
        by (subst sl_put_mbuf.simps) (simp only: Let_def if_False prod.case list.case option.case not_False_eq_True simp_thms)
      show ?thesis
        unfolding S using IH s2 s3 q1 E Cons sc room by simp
    qed
  qed
qed

lemma sl_put_packet_room:
  assumes "c_chars (fst (sc_outq sc)) = []" "length (slip_escape bs) + 2 \<le> c_room (sc_outq sc)"
  shows "c_chars (fst (sc_outq (sl_put_packet [bs] sc))) = [FRAME_END] @ slip_escape bs @ [FRAME_END]"
    "sc_line (sl_put_packet [bs] sc) = sc_line sc" "sc_comp (sl_put_packet [bs] sc) = sc_comp sc"
    "sc_flags (sl_put_packet [bs] sc) = sc_flags sc"
    "sc_open (sl_put_packet [bs] sc) = sc_open sc" "sc_carr (sl_put_packet [bs] sc) = sc_carr sc"
proof -
  have "c_room (sc_outq sc) \<noteq> 0" using assms(2) by auto
  then obtain q0 where q0: "c_putc FRAME_END (sc_outq sc) = Some q0" using c_putc_room by blast
  note s0 = c_putc_Some [OF q0]
  obtain q1 sent where q1: "sl_put_mbuf bs (q0, sc_bytessent sc + 1) = (q1, sent)" by (cases "sl_put_mbuf bs (q0, sc_bytessent sc + 1)")
  have s1: "c_chars (fst q1) = [FRAME_END] @ slip_escape bs" "c_room q1 \<noteq> 0"
    using sl_put_mbuf_room [of bs "(q0, sc_bytessent sc + 1)"] s0 assms q1 by auto
  obtain q2 where q2: "c_putc FRAME_END q1 = Some q2" using c_putc_room s1(2) by blast
  note s2 = c_putc_Some(1) [OF q2]
  show "c_chars (fst (sc_outq (sl_put_packet [bs] sc))) = [FRAME_END] @ slip_escape bs @ [FRAME_END]"
    using assms(1) q0 q1 q2 s2 s1(1) by (simp add: sl_put_packet_def)
  show "sc_line (sl_put_packet [bs] sc) = sc_line sc" "sc_comp (sl_put_packet [bs] sc) = sc_comp sc"
    "sc_flags (sl_put_packet [bs] sc) = sc_flags sc"
    "sc_open (sl_put_packet [bs] sc) = sc_open sc" "sc_carr (sl_put_packet [bs] sc) = sc_carr sc"
    by (simp_all add: sl_put_packet_def Let_def split: prod.splits option.splits)
qed

text \<open>The characters that have left for the line or wait for it.\<close>

definition sl_sent :: "sl_softc \<Rightarrow> 8 word list" where
  "sl_sent sc = sc_line sc @ c_chars (fst (sc_outq sc))"

lemma take_chars_sent:
  "sl_sent (take_chars n sc) = sl_sent sc \<and> sc_comp (take_chars n sc) = sc_comp sc
   \<and> sc_flags (take_chars n sc) = sc_flags sc \<and> sc_open (take_chars n sc) = sc_open sc
   \<and> sc_carr (take_chars n sc) = sc_carr sc"
proof (induction n sc rule: take_chars.induct)
  case (2 n sc)
  obtain q k where q: "sc_outq sc = (q, k)" by (cases "sc_outq sc")
  show ?case
  proof (cases "c_chars q")
    case Nil
    then show ?thesis using q by (simp add: c_getc_def)
  next
    case (Cons c cs)
    then obtain q1 n1 where g: "c_getc (q, k) = (Some c, q1, n1)" "c_chars q1 = cs" using c_getc_first by blast
    then show ?thesis using 2 [OF g(1) [folded q, symmetric]] q Cons by (auto simp: sl_sent_def)
  qed
qed simp

text \<open>The settings an output or a received character leaves alone.\<close>

definition same_setup :: "sl_softc \<Rightarrow> sl_softc \<Rightarrow> bool" where
  "same_setup sc sc1 \<longleftrightarrow> sc_open sc1 = sc_open sc \<and> sc_carr sc1 = sc_carr sc \<and> sc_flags sc1 = sc_flags sc"

lemma slstart_kick_sent:
  assumes "slstart_kick env sc = (stop, sc1)"
  shows "sl_sent sc1 = sl_sent sc" "sc_comp sc1 = sc_comp sc" "same_setup sc sc1"
    "sc_fastq sc1 = sc_fastq sc" "sc_snd sc1 = sc_snd sc"
    "c_chars (fst (sc_outq sc)) = [] \<Longrightarrow> \<not> stop \<and> sc1 = sc"
  using assms take_chars_sent slstart_kick_queues [of env sc]
  by (auto simp: slstart_kick_def t_oproc_def Let_def same_setup_def split: if_splits)

lemma slstart_idle:
  assumes "sc_fastq sc = []" "sc_snd sc = []"
  shows "sl_sent (slstart env sc) = sl_sent sc \<and> sc_comp (slstart env sc) = sc_comp sc \<and> same_setup sc (slstart env sc)
    \<and> sc_fastq (slstart env sc) = [] \<and> sc_snd (slstart env sc) = []"
proof -
  obtain stop sc1 where k: "slstart_kick env sc = (stop, sc1)" by (cases "slstart_kick env sc")
  note s = slstart_kick_sent [OF k]
  have "sl_dequeue sc1 = None" using s(4,5) assms by (simp add: sl_dequeue_def)
  then show ?thesis
    using k s assms by (subst (1 2 3 4 5) slstart.simps) (auto split: bool.splits)
qed

text \<open>A packet queued on an idle line is on its way as one frame.\<close>

lemma sl_enqueue_idle:
  assumes "sc_fastq sc = []" "sc_snd sc = []" "sc_outq sc = (empty_clist, k)" "sc_open sc"
    "CLISTRESERVE + SLMTU \<le> CBSIZE * k" "length (slip_escape bs) + 2 \<le> CBSIZE * k"
    "sl_enqueue env fast [bs] sc = (e, sc1)"
  shows "e = 0" "sl_sent sc1 = sc_line sc @ [FRAME_END] @ slip_escape bs @ [FRAME_END]"
    "sc_comp sc1 = sc_comp sc" "same_setup sc sc1" "sc_fastq sc1 = []" "sc_snd sc1 = []"
proof -
  define q where "q = (if fast then sc\<lparr>sc_fastq := [[bs]]\<rparr> else sc\<lparr>sc_snd := [[bs]]\<rparr>)"
  have E: "e = 0" "sc1 = slstart env q"
    using assms(1-3,7) by (auto simp: sl_enqueue_def q_def empty_clist_def Let_def split: if_splits)
  have c: "c_chars (fst (sc_outq q)) = []" using assms(3) by (simp add: q_def empty_clist_def)
  have kick: "slstart_kick env q = (False, q)" using c by (simp add: slstart_kick_def)
  define d where "d = (if fast then q\<lparr>sc_fastq := []\<rparr> else q\<lparr>sc_snd := []\<rparr>)"
  have deq: "sl_dequeue q = Some ([bs], d)" using assms(1,2) by (simp add: sl_dequeue_def q_def d_def)
  have d: "sc_outq d = (empty_clist, k)" "sc_open d" "sc_line d = sc_line sc" "sc_comp d = sc_comp sc" "same_setup sc d"
    "sc_fastq d = []" "sc_snd d = []"
    using assms by (simp_all add: d_def q_def same_setup_def)
  have S: "slstart env q = slstart env (sl_put_packet [bs] d)"
    using kick deq d(1,2) assms(4,5) by (subst slstart.simps) (simp add: q_def)
  have room: "c_room (sc_outq d) = CBSIZE * k" using d(1) by (simp add: c_room_def c_slack_def empty_clist_def)
  have emp: "c_chars (fst (sc_outq d)) = []" using d(1) by (simp add: empty_clist_def)
  have "length (slip_escape bs) + 2 \<le> c_room (sc_outq d)" using assms(6) room by simp
  note p = sl_put_packet_room [OF emp this]
  have "sc_fastq (sl_put_packet [bs] d) = []" "sc_snd (sl_put_packet [bs] d) = []" using d by simp_all
  note i = slstart_idle [OF this, of env]
  show "e = 0" by (rule E)
  show "sl_sent sc1 = sc_line sc @ [FRAME_END] @ slip_escape bs @ [FRAME_END]"
    using i p d(3) by (simp add: E(2) S sl_sent_def)
  show "sc_comp sc1 = sc_comp sc" "sc_fastq sc1 = []" "sc_snd sc1 = []" using i p d(4) by (simp_all add: E(2) S)
  show "same_setup sc sc1" using i p d(5) by (simp add: E(2) S same_setup_def)
qed

section \<open>Input\<close>

definition line_up :: "sl_softc \<Rightarrow> bool" where
  "line_up sc \<longleftrightarrow> sc_open sc \<and> sc_carr sc \<and> sc_flags sc AND SC_ABORT = 0"

definition same_input :: "sl_softc \<Rightarrow> sl_softc \<Rightarrow> bool" where
  "same_input sc sc1 \<longleftrightarrow> same_setup sc sc1 \<and> sc_comp sc1 = sc_comp sc \<and> sc_netisr sc1 = sc_netisr sc"

lemma same_input_trans: "same_input a b \<Longrightarrow> same_input b c \<Longrightarrow> same_input a c"
  by (simp add: same_input_def same_setup_def)

lemma line_up_same: "line_up sc \<Longrightarrow> same_setup sc sc1 \<Longrightarrow> line_up sc1"
  by (simp add: line_up_def same_setup_def)

lemma sl_receive_append: "sl_receive env (xs @ ys) sc = Option.bind (sl_receive env xs sc) (sl_receive env ys)"
  by (induction xs arbitrary: sc) (auto split: bind_splits)

lemma sl_receive_none [simp]: "Option.bind x (sl_receive env []) = x"
  by (cases x) auto

lemma sl_receive_char:
  assumes "line_up sc" "\<not> sc_escape sc" "length (sc_data sc) < SLMAX env"
  shows "\<exists>sc1. sl_receive env (slip_char c) sc = Some sc1 \<and> sc_data sc1 = sc_data sc @ [c] \<and> \<not> sc_escape sc1 \<and> same_input sc sc1"
  using assms
  by (auto simp: slip_char_def slinput_def line_up_def sl_abort_def Let_def same_input_def same_setup_def
      FRAME_ESCAPE_def FRAME_END_def TRANS_FRAME_END_def TRANS_FRAME_ESCAPE_def)

lemma sl_receive_escape:
  assumes "line_up sc" "\<not> sc_escape sc" "length (sc_data sc) + length bs \<le> SLMAX env"
  shows "\<exists>sc1. sl_receive env (slip_escape bs) sc = Some sc1 \<and> sc_data sc1 = sc_data sc @ bs \<and> \<not> sc_escape sc1 \<and> same_input sc sc1"
  using assms
proof (induction bs arbitrary: sc)
  case Nil
  then show ?case by (simp add: same_input_def same_setup_def)
next
  case (Cons b bs)
  have "length (sc_data sc) < SLMAX env" using Cons.prems(3) by simp
  from sl_receive_char [OF Cons.prems(1,2) this, of b] obtain sc1 where
    1: "sl_receive env (slip_char b) sc = Some sc1" "sc_data sc1 = sc_data sc @ [b]" "\<not> sc_escape sc1" "same_input sc sc1" by blast
  have "line_up sc1" using line_up_same Cons.prems(1) 1(4) by (auto simp: same_input_def)
  from Cons.IH [OF this 1(3)] 1 Cons.prems(3) obtain sc2 where
    "sl_receive env (slip_escape bs) sc1 = Some sc2" "sc_data sc2 = sc_data sc1 @ bs" "\<not> sc_escape sc2" "same_input sc1 sc2"
    by auto
  then show ?case using 1 same_input_trans by (auto simp: sl_receive_append)
qed

text \<open>A whole frame: the bytes between the end marks are what \<open>sl_frame\<close> sees.\<close>

lemma sl_receive_frame:
  assumes "line_up sc" "sc_data sc = []" "length bs \<le> SLMAX env"
  shows "\<exists>sc1. sl_receive env ([FRAME_END] @ slip_escape bs @ [FRAME_END]) sc = sl_frame env sc1
    \<and> sc_data sc1 = bs \<and> same_input sc sc1"
proof -
  have F: "slinput env FRAME_END s = sl_frame env (s\<lparr>sc_bytesrcvd := sc_bytesrcvd s + 1, if_ibytes := if_ibytes s + 1\<rparr>)"
    if "line_up s" for s
    using that by (simp add: slinput_def line_up_def sl_abort_def FRAME_ESCAPE_def FRAME_END_def Let_def)
  define s0 where "s0 = sl_newpack (sc\<lparr>sc_bytesrcvd := sc_bytesrcvd sc + 1, if_ibytes := if_ibytes sc + 1\<rparr>)"
  have 0: "slinput env FRAME_END sc = Some s0" using F [OF assms(1)] assms(2) by (simp add: sl_frame_def s0_def)
  have s0: "sc_data s0 = []" "\<not> sc_escape s0" "same_input sc s0"
    by (simp_all add: s0_def sl_newpack_def same_input_def same_setup_def)
  have up: "line_up s0" using line_up_same assms(1) s0(3) by (auto simp: same_input_def)
  from sl_receive_escape [OF up s0(2), of bs env] assms(3) s0(1) obtain s1 where
    1: "sl_receive env (slip_escape bs) s0 = Some s1" "sc_data s1 = bs" "same_input s0 s1" by auto
  have up1: "line_up s1" using line_up_same up 1(3) by (auto simp: same_input_def)
  have R: "sl_receive env ([FRAME_END] @ slip_escape bs @ [FRAME_END]) sc
    = sl_frame env (s1\<lparr>sc_bytesrcvd := sc_bytesrcvd s1 + 1, if_ibytes := if_ibytes s1 + 1\<rparr>)"
    using 0 1(1) F [OF up1] by (simp add: sl_receive_append)
  show ?thesis
    by (rule exI [of _ "s1\<lparr>sc_bytesrcvd := sc_bytesrcvd s1 + 1, if_ibytes := if_ibytes s1 + 1\<rparr>"])
       (use R 1(2) same_input_trans [OF s0(3) 1(3)] in \<open>auto simp: same_input_def same_setup_def\<close>)
qed

end
