(* ===== verification/If_sl_Blocks.thy ===== *)
theory If_sl_Blocks
  imports If_sl_Line
begin

text \<open>
  The blocks of the terminal's output queue: queueing and sending packets loses none, and a
  driver that sends everything leaves the queue empty with its blocks free.
\<close>

definition outq_inv :: "nat \<Rightarrow> sl_softc \<Rightarrow> bool" where
  "outq_inv k sc \<longleftrightarrow> c_inv k (sc_outq sc)"

lemma sl_put_mbuf_inv: "c_inv k (fst st) \<Longrightarrow> c_inv k (fst (sl_put_mbuf bs st))"
proof (induction bs st rule: sl_put_mbuf.induct)
  case (1 bs st)
  show ?case
  proof (cases "bs = []")
    case True
    then show ?thesis using 1 by (simp add: sl_put_mbuf.simps)
  next
    case False
    let ?run = "takeWhile (\<lambda>c. \<not> is_special c) bs" and ?rest = "dropWhile (\<lambda>c. \<not> is_special c) bs"
    obtain left q1 where b: "b_to_q ?run (fst st) = (left, q1)" by (cases "b_to_q ?run (fst st)")
    have q1: "c_inv k q1" using b_to_q_inv [OF "1.prems" b] .
    show ?thesis
    proof (cases "left = []")
      case no: False
      then show ?thesis using b q1 False by (subst sl_put_mbuf.simps) simp
    next
      case yes: True
      show ?thesis
      proof (cases ?rest)
        case Nil
        then show ?thesis using yes b q1 False by (subst sl_put_mbuf.simps) (simp del: dropWhile_eq_Nil_conv add: Let_def)
      next
        case (Cons c cs)
        let ?c = "if c = FRAME_ESCAPE then TRANS_FRAME_ESCAPE else TRANS_FRAME_END"
        show ?thesis
        proof (cases "c_putc FRAME_ESCAPE q1")
          case None
          then show ?thesis using yes b q1 False Cons by (subst sl_put_mbuf.simps) simp
        next
          case (Some q2)
          then have q2: "c_inv k q2" using c_putc_inv q1 by blast
          show ?thesis
          proof (cases "c_putc ?c q2")
            case None
            then show ?thesis using yes b False Cons Some c_unputc_inv [OF q2] by (subst sl_put_mbuf.simps) simp
          next
            case q3: (Some q3)
            have I: "c_inv k (fst (q3, snd st + of_nat (length ?run) + 2))" using c_putc_inv [OF q2 q3] by simp
            note IH = "1.IH" [OF False refl refl refl b [symmetric] _ refl Cons Some q3 I]
            have "sl_put_mbuf bs st = sl_put_mbuf cs (q3, snd st + of_nat (length ?run) + 2)"
              using yes b False Cons Some q3 by (subst sl_put_mbuf.simps) simp
            then show ?thesis using IH yes by simp
          qed
        qed
      qed
    qed
  qed
qed

lemma put_mbufs_inv: "c_inv k (fst st) \<Longrightarrow> c_inv k (fst (foldl (\<lambda>st bs. sl_put_mbuf bs st) st m))"
  by (induction m arbitrary: st) (simp_all add: sl_put_mbuf_inv)

lemma sl_put_packet_inv:
  assumes "outq_inv k sc"
  shows "outq_inv k (sl_put_packet m sc)"
proof -
  obtain q0 n0 where q0: "(if c_chars (fst (sc_outq sc)) = []
      then (case c_putc FRAME_END (sc_outq sc) of Some q \<Rightarrow> q | None \<Rightarrow> sc_outq sc, sc_bytessent sc + 1)
      else (sc_outq sc, sc_bytessent sc)) = (q0, n0)" by fastforce
  have 0: "c_inv k q0"
    using assms q0 by (auto simp: outq_inv_def dest: c_putc_inv split: if_splits option.splits)
  obtain q1 n1 where q1: "foldl (\<lambda>st bs. sl_put_mbuf bs st) (q0, n0) m = (q1, n1)" by fastforce
  have 1: "c_inv k q1" using put_mbufs_inv [of k "(q0, n0)" m] 0 q1 by simp
  show ?thesis
    unfolding sl_put_packet_def Let_def q0 prod.case q1 outq_inv_def
    using 1 c_unputc_inv [OF 1] by (auto dest: c_putc_inv split: option.splits)
qed

lemma take_chars_inv: "outq_inv k sc \<Longrightarrow> outq_inv k (take_chars n sc)"
proof (induction n sc rule: take_chars.induct)
  case (2 n sc)
  have "c_inv k (snd (c_getc (sc_outq sc)))" using 2(2) by (simp add: outq_inv_def c_getc_inv)
  then show ?case using 2 by (auto simp: outq_inv_def split: prod.splits option.splits)
qed simp

lemma slstart_inv: "outq_inv k sc \<Longrightarrow> outq_inv k (slstart env sc)"
proof (induction env sc rule: slstart.induct)
  case (1 env sc)
  obtain stop sc1 where kick: "slstart_kick env sc = (stop, sc1)" by (cases "slstart_kick env sc")
  have k1: "outq_inv k sc1"
    using kick 1(3) take_chars_inv by (auto simp: slstart_kick_def t_oproc_def Let_def split: if_splits)
  have k2: "outq_inv k sc2" if "sl_dequeue sc1 = Some (m, sc2)" for m sc2
    using that k1 by (auto simp: sl_dequeue_def outq_inv_def split: list.splits)
  show ?case
  proof (cases "stop \<or> \<not> sc_open sc1 \<or> sl_dequeue sc1 = None")
    case True
    then show ?thesis using kick k1 by (subst slstart.simps) (auto split: bool.splits)
  next
    case False
    then obtain m sc2 where d: "sl_dequeue sc1 = Some (m, sc2)" "stop = False" by auto
    have A: "outq_inv k (sc2\<lparr>if_collisions := if_collisions sc2 + 1\<rparr>)" using k2 [OF d(1)] by (simp add: outq_inv_def)
    note IH = 1(1) [OF kick [symmetric] d(2) _ d(1) refl _ A] 1(2) [OF kick [symmetric] d(2) _ d(1) refl _ sl_put_packet_inv [OF k2 [OF d(1)]]]
    show ?thesis using False kick d IH by (subst slstart.simps) simp
  qed
qed

lemma sl_enqueue_inv:
  assumes "outq_inv k sc" "sl_enqueue env fast m sc = (e, sc1)"
  shows "outq_inv k sc1"
  using assms slstart_inv [of k "sc\<lparr>sc_fastq := sc_fastq sc @ [m]\<rparr>" env]
    slstart_inv [of k "sc\<lparr>sc_snd := sc_snd sc @ [m]\<rparr>" env]
  by (auto simp: sl_enqueue_def Let_def outq_inv_def split: if_splits)

text \<open>The driver sends all there is.\<close>

definition sl_drain :: "sl_softc \<Rightarrow> sl_softc" where
  "sl_drain sc = take_chars (length (c_chars (fst (sc_outq sc)))) sc"

lemma take_chars_all: "n = length (c_chars (fst (sc_outq sc))) \<Longrightarrow> c_chars (fst (sc_outq (take_chars n sc))) = []"
proof (induction n arbitrary: sc)
  case (Suc n)
  obtain q k where q: "sc_outq sc = (q, k)" by (cases "sc_outq sc")
  obtain c cs where c: "c_chars q = c # cs" using Suc.prems q by (cases "c_chars q") auto
  then obtain q1 n1 where g: "c_getc (q, k) = (Some c, q1, n1)" "c_chars q1 = cs" using c_getc_first by blast
  then have E: "take_chars (Suc n) sc = take_chars n (sc\<lparr>sc_outq := (q1, n1), sc_line := sc_line sc @ [c]\<rparr>)"
    using q by simp
  have "n = length (c_chars (fst (sc_outq (sc\<lparr>sc_outq := (q1, n1), sc_line := sc_line sc @ [c]\<rparr>))))"
    using Suc.prems q c g(2) by simp
  from Suc.IH [OF this] show ?case by (simp only: E)
qed simp

lemma sl_drain_sent:
  assumes "outq_inv k sc"
  shows "sc_outq (sl_drain sc) = (empty_clist, k)" "sc_line (sl_drain sc) = sl_sent sc"
    "sc_comp (sl_drain sc) = sc_comp sc" "same_setup sc (sl_drain sc)"
    "sc_fastq (sl_drain sc) = sc_fastq sc" "sc_snd (sl_drain sc) = sc_snd sc"
proof -
  have e: "c_chars (fst (sc_outq (sl_drain sc))) = []" by (simp add: sl_drain_def take_chars_all)
  have "c_inv k (sc_outq (sl_drain sc))" using assms take_chars_inv by (simp add: sl_drain_def outq_inv_def)
  then show "sc_outq (sl_drain sc) = (empty_clist, k)" using c_inv_emptyD e by blast
  have "sl_sent (sl_drain sc) = sl_sent sc" using take_chars_sent by (simp add: sl_drain_def)
  then show "sc_line (sl_drain sc) = sl_sent sc" using e by (simp add: sl_sent_def)
  show "sc_comp (sl_drain sc) = sc_comp sc" "same_setup sc (sl_drain sc)"
    "sc_fastq (sl_drain sc) = sc_fastq sc" "sc_snd (sl_drain sc) = sc_snd sc"
    using take_chars_sent by (simp_all add: sl_drain_def same_setup_def)
qed

end
