(* ===== verification/If_sl_Wire.thy ===== *)
theory If_sl_Wire
  imports If_sl_Blocks
begin

text \<open>
  Both ends of a serial line: \<open>sloutput\<close> with compression on one side, the characters on the
  line, \<open>slinput\<close> on the other.
\<close>

section \<open>The type bit of the first byte\<close>

text \<open>
  A compressed packet arrives with the type in the top bit of its change mask; uncompressing
  does not look at that bit.
\<close>

definition typed :: "mem \<Rightarrow> mem" where
  "typed b = b(0 := b 0 OR TYPE_COMPRESSED_TCP)"

lemma typed_other [simp]: "0 < i \<Longrightarrow> typed b i = b i"
  by (simp add: typed_def)

lemma or_type_mask: "m AND TYPE_COMPRESSED_TCP = 0 \<Longrightarrow> (x OR TYPE_COMPRESSED_TCP) AND m = x AND m"
  unfolding bit.conj_disj_distrib2 by (simp add: and.commute)

lemma type_mask_zero:
  "NEW_C AND TYPE_COMPRESSED_TCP = 0" "NEW_I AND TYPE_COMPRESSED_TCP = 0" "NEW_S AND TYPE_COMPRESSED_TCP = 0"
  "NEW_A AND TYPE_COMPRESSED_TCP = 0" "NEW_W AND TYPE_COMPRESSED_TCP = 0" "NEW_U AND TYPE_COMPRESSED_TCP = 0"
  "SPECIALS_MASK AND TYPE_COMPRESSED_TCP = 0" "TCP_PUSH_BIT AND TYPE_COMPRESSED_TCP = 0"
  by (simp_all add: sl_bits TYPE_COMPRESSED_TCP_def)

lemmas type_masks = type_mask_zero [THEN or_type_mask]

lemma decode_typed [simp]: "0 < cp \<Longrightarrow> decode (typed b) cp = decode b cp"
  by (simp add: decode_def get16_def)

lemma decode_moves: "cp < snd (decode b cp)"
  by (simp add: decode_def)

lemma DECODE_typed [simp]:
  "0 < snd st \<Longrightarrow> DECODEL (typed b) f st = DECODEL b f st" "0 < snd st \<Longrightarrow> DECODES (typed b) f st = DECODES b f st"
  "0 < snd st \<Longrightarrow> DECODEU (typed b) f st = DECODEU b f st"
  by (cases st; simp add: DECODEL_def DECODES_def DECODEU_def)+

lemma DECODE_moves:
  "snd st \<le> snd (DECODEL b f st)" "snd st \<le> snd (DECODES b f st)" "snd st \<le> snd (DECODEU b f st)"
  using decode_moves [of "snd st" b] by (auto simp: DECODEL_def DECODES_def DECODEU_def split: prod.splits)

lemma uncompress_fields_typed:
  assumes "0 < snd st"
  shows "uncompress_fields (typed b) (ch OR TYPE_COMPRESSED_TCP) hl st = uncompress_fields b ch hl st
    \<and> snd st \<le> snd (uncompress_fields b ch hl st)"
proof -
  have L: "0 < snd s \<Longrightarrow> DECODEL (typed b) f s = DECODEL b f s \<and> snd s \<le> snd (DECODEL b f s)" for s f
    using DECODE_moves by simp
  have S: "0 < snd s \<Longrightarrow> DECODES (typed b) f s = DECODES b f s \<and> snd s \<le> snd (DECODES b f s)" for s f
    using DECODE_moves by simp
  have U: "0 < snd s \<Longrightarrow> DECODEU (typed b) f s = DECODEU b f s \<and> snd s \<le> snd (DECODEU b f s)" for s f
    using DECODE_moves by simp
  define t where "t = 4 * ip_hl (fst st)"
  have I: "(if c then DECODES (typed b) ip_id s else (put16 ip_id (get16 (fst s) ip_id + 1) (fst s), snd s))
      = (if c then DECODES b ip_id s else (put16 ip_id (get16 (fst s) ip_id + 1) (fst s), snd s))
    \<and> snd s \<le> snd (if c then DECODES b ip_id s else (put16 ip_id (get16 (fst s) ip_id + 1) (fst s), snd s))"
    if "0 < snd s" for c s using S [OF that] by simp
  have P: "(if c then D s else s) = (if c then D' s else s) \<and> snd s \<le> snd (if c then D' s else s)"
    if "0 < snd s" "\<And>s. 0 < snd s \<Longrightarrow> D s = D' s \<and> snd s \<le> snd (D' s)" for c s and D D' :: "mem \<times> nat \<Rightarrow> mem \<times> nat"
    using that by simp
  define plain where "plain b' ch =
      (let sU = (if ch AND NEW_U \<noteq> 0
                 then DECODEU b' (t + th_urp) ((fst st)(t + th_flags := fst st (t + th_flags) OR TH_URG), snd st)
                 else ((fst st)(t + th_flags := fst st (t + th_flags) AND NOT TH_URG), snd st));
           sW = (if ch AND NEW_W \<noteq> 0 then DECODES b' (t + th_win) sU else sU);
           sA = (if ch AND NEW_A \<noteq> 0 then DECODEL b' (t + th_ack) sW else sW)
       in (if ch AND NEW_S \<noteq> 0 then DECODEL b' (t + th_seq) sA else sA))" for b' and ch :: "8 word"
  have plain: "plain (typed b) (ch OR TYPE_COMPRESSED_TCP) = plain b ch \<and> snd st \<le> snd (plain b ch)"
  proof -
    define sU where "sU = (if ch AND NEW_U \<noteq> 0
                 then DECODEU b (t + th_urp) ((fst st)(t + th_flags := fst st (t + th_flags) OR TH_URG), snd st)
                 else ((fst st)(t + th_flags := fst st (t + th_flags) AND NOT TH_URG), snd st))"
    define sW where "sW = (if ch AND NEW_W \<noteq> 0 then DECODES b (t + th_win) sU else sU)"
    define sA where "sA = (if ch AND NEW_A \<noteq> 0 then DECODEL b (t + th_ack) sW else sW)"
    have u: "snd st \<le> snd sU" unfolding sU_def using DECODE_moves(3) [of "(_, snd st)"] by auto
    have w: "snd sU \<le> snd sW" unfolding sW_def using DECODE_moves(2) by auto
    have a: "snd sW \<le> snd sA" unfolding sA_def using DECODE_moves(1) by auto
    have "plain b ch = (if ch AND NEW_S \<noteq> 0 then DECODEL b (t + th_seq) sA else sA)"
      by (simp only: plain_def Let_def sU_def sW_def sA_def)
    moreover have "plain (typed b) (ch OR TYPE_COMPRESSED_TCP) = (if ch AND NEW_S \<noteq> 0 then DECODEL b (t + th_seq) sA else sA)"
    proof -
      let ?ch = "ch OR TYPE_COMPRESSED_TCP"
      have U': "(if ?ch AND NEW_U \<noteq> 0
                 then DECODEU (typed b) (t + th_urp) ((fst st)(t + th_flags := fst st (t + th_flags) OR TH_URG), snd st)
                 else ((fst st)(t + th_flags := fst st (t + th_flags) AND NOT TH_URG), snd st)) = sU"
        using assms by (simp add: type_masks sU_def)
      have W': "(if ?ch AND NEW_W \<noteq> 0 then DECODES (typed b) (t + th_win) sU else sU) = sW"
        using u assms by (simp add: type_masks sW_def)
      have A': "(if ?ch AND NEW_A \<noteq> 0 then DECODEL (typed b) (t + th_ack) sW else sW) = sA"
        using u w assms by (simp add: type_masks sA_def)
      have "(if ?ch AND NEW_S \<noteq> 0 then DECODEL (typed b) (t + th_seq) sA else sA)
        = (if ch AND NEW_S \<noteq> 0 then DECODEL b (t + th_seq) sA else sA)"
        using u w a assms by (simp add: type_masks)
      then show ?thesis unfolding plain_def Let_def U' W' A' .
    qed
    moreover have "snd sA \<le> snd (DECODEL b (t + th_seq) sA)" by (rule DECODE_moves)
    ultimately show ?thesis using u w a by auto
  qed
  define st1 where "st1 b' ch = (if ch AND SPECIALS_MASK = SPECIAL_I
      then (put32 (t + th_seq) (get32 (fst st) (t + th_seq) + (ucast (get16 (fst st) ip_len) - of_nat hl))
             (put32 (t + th_ack) (get32 (fst st) (t + th_ack) + (ucast (get16 (fst st) ip_len) - of_nat hl)) (fst st)), snd st)
      else if ch AND SPECIALS_MASK = SPECIAL_D
      then (put32 (t + th_seq) (get32 (fst st) (t + th_seq) + (ucast (get16 (fst st) ip_len) - of_nat hl)) (fst st), snd st)
      else plain b' ch)" for b' and ch :: "8 word"
  have s1: "st1 (typed b) (ch OR TYPE_COMPRESSED_TCP) = st1 b ch" "snd st \<le> snd (st1 b ch)"
    using plain by (simp_all add: st1_def type_masks)
  have F: "uncompress_fields b' ch hl st = (if ch AND NEW_I \<noteq> 0 then DECODES b' ip_id (st1 b' ch)
      else (put16 ip_id (get16 (fst (st1 b' ch)) ip_id + 1) (fst (st1 b' ch)), snd (st1 b' ch)))" for b' and ch :: "8 word"
    by (simp only: uncompress_fields_def Let_def t_def [symmetric] plain_def [unfolded Let_def, symmetric] st1_def [symmetric])
  show ?thesis
    unfolding F type_masks s1(1) using I [of "st1 b ch"] s1(2) assms by (meson le_trans less_le_trans)
qed

lemma uncompress_apply_typed:
  assumes "0 < cp"
  shows "uncompress_apply (typed b) len (ch OR TYPE_COMPRESSED_TCP) cp sc = uncompress_apply b len ch cp sc"
proof -
  have g: "get16 (typed b) cp = get16 b cp" using assms by (simp add: get16_def)
  have p: "0 < cp3 \<Longrightarrow> uncompress_packet (typed b) cp3 len cs h = uncompress_packet b cp3 len cs h" for cp3 cs h
    unfolding uncompress_packet_def Let_def by (simp cong: if_cong)
  have f: "uncompress_fields (typed b) (ch OR TYPE_COMPRESSED_TCP) hl (h, cp + 2) = uncompress_fields b ch hl (h, cp + 2)"
    "0 < snd (uncompress_fields b ch hl (h, cp + 2))" for hl h
    using uncompress_fields_typed [of "(h, cp + 2)" b ch hl] by auto
  show ?thesis
    unfolding uncompress_apply_def Let_def g type_masks f(1)
    using p f(2) by (auto split: prod.splits) (metis snd_conv)+
qed

lemma sl_uncompress_typed:
  "sl_uncompress_tcp (typed b) len TYPE_COMPRESSED_TCP sc = sl_uncompress_tcp b len TYPE_COMPRESSED_TCP sc"
proof -
  have "typed b 0 = b 0 OR TYPE_COMPRESSED_TCP" by (simp add: typed_def)
  moreover have "TYPE_COMPRESSED_TCP \<noteq> TYPE_UNCOMPRESSED_TCP"
    by (simp add: TYPE_COMPRESSED_TCP_def TYPE_UNCOMPRESSED_TCP_def)
  ultimately show ?thesis
    by (simp add: sl_uncompress_tcp_def Let_def uncompress_apply_typed type_masks)
qed

section \<open>One packet across the line\<close>

lemma sl_compress_shape:
  assumes "sl_compress_tcp ip n sc cid = Some (ty, q, sc1)" "hdr_len ip \<le> n"
  shows "ty = TYPE_IP \<and> q = mem_list ip 0 n
    \<or> ty = TYPE_UNCOMPRESSED_TCP \<and> (\<exists>i. q = mem_list (ip(ip_p := i)) 0 n)
    \<or> ty = TYPE_COMPRESSED_TCP \<and> 3 \<le> length q \<and> length q \<le> n"
proof -
  obtain found s1 where loc: "sl_locate ip (sc\<lparr>sls_packets := sls_packets sc + 1\<rparr>) = (found, s1)"
    by (cases "sl_locate ip (sc\<lparr>sls_packets := sls_packets sc + 1\<rparr>)")
  have unc: "\<exists>i r. sl_uncompressed ip n h s1 = (TYPE_UNCOMPRESSED_TCP, mem_list (ip(ip_p := i)) 0 n, r)" for h
    by (auto simp: sl_uncompressed_def Let_def)
  have comp: "ty = TYPE_COMPRESSED_TCP \<and> 3 \<le> length q \<and> length q \<le> n"
    if "sl_compressed ip n (hdr_len ip) cid cn s1 = Some (ty, q, sc1)" for cn
    using that assms(2) by (auto simp: sl_compressed_def Let_def split: prod.splits if_splits)
  show ?thesis
    using assms(1) unc comp loc unfolding sl_compress_tcp_def Let_def hdr_len_def [symmetric]
    by (auto split: if_splits option.splits) (metis Pair_inject)+
qed

text \<open>What the receiver may be sent.\<close>

definition wire_ok :: "sl_env \<Rightarrow> mem \<Rightarrow> nat \<Rightarrow> bool" where
  "wire_ok env ip n \<longleftrightarrow> ip 0 AND 0xf0 = 0x40 \<and> 20 \<le> n \<and> n \<le> SLMTU \<and> n \<le> SLMAX env
     \<and> (ip ip_p = IPPROTO_TCP \<longrightarrow> datagram_ok ip n \<and> \<not> d_urg ip)"

text \<open>A sender with an idle line, a receiver between two frames, and tables in step.\<close>

definition wire_inv :: "sl_softc \<Rightarrow> sl_softc \<Rightarrow> bool" where
  "wire_inv s r \<longleftrightarrow> sc_open s \<and> sc_carr s \<and> sc_flags s AND SC_COMPRESS \<noteq> 0 \<and> sc_flags s AND SC_NOICMP = 0
     \<and> sc_fastq s = [] \<and> sc_snd s = [] \<and> sc_line s = []
     \<and> (\<exists>k. sc_outq s = (empty_clist, k) \<and> CLISTRESERVE + SLMTU \<le> CBSIZE * k)
     \<and> line_up r \<and> sc_flags r AND SC_COMPRESS \<noteq> 0 \<and> sc_data r = []
     \<and> sl_sync (sc_comp s) (sc_comp r) \<and> no_urg (sc_comp s)"

lemma enqueue_idle_line:
  assumes "wire_inv s r" "length bs \<le> SLMTU" "sl_enqueue env fast [bs] (s\<lparr>sc_comp := c\<rparr>) = (e, s1)"
  shows "e = 0" "sl_sent s1 = [FRAME_END] @ slip_escape bs @ [FRAME_END]" "sc_comp s1 = c"
    "same_setup s s1" "sc_fastq s1 = []" "sc_snd s1 = []"
proof -
  obtain k where k: "sc_outq s = (empty_clist, k)" "CLISTRESERVE + SLMTU \<le> CBSIZE * k"
    using assms(1) by (auto simp: wire_inv_def)
  have "length (slip_escape bs) + 2 \<le> CBSIZE * k"
    using slip_escape_length(1) [of bs] assms(2) k(2) by (simp add: CLISTRESERVE_def SLMTU_def)
  note q = sl_enqueue_idle [OF _ _ _ _ k(2) this assms(3)]
  show "e = 0" "sl_sent s1 = [FRAME_END] @ slip_escape bs @ [FRAME_END]" "sc_comp s1 = c"
    "same_setup s s1" "sc_fastq s1 = []" "sc_snd s1 = []"
    using q assms(1) k(1) by (auto simp: wire_inv_def same_setup_def)
qed

text \<open>Delivery when buffers can be had and the queue to the protocol has room.\<close>

lemma sl_deliver_ok:
  assumes "\<forall>m. se_mget env m" "\<forall>p. se_netisr env p"
  shows "sc_netisr (sl_deliver env p sc) = sc_netisr sc @ [p]" "sc_data (sl_deliver env p sc) = []"
    "same_setup sc (sl_deliver env p sc)" "sc_comp (sl_deliver env p sc) = sc_comp sc"
  using assms by (simp_all add: sl_deliver_def sl_newpack_def same_setup_def)

lemma type_bits_plain: "(x :: 8 word) AND 0xf0 = 0x40 \<Longrightarrow> x OR TYPE_IP = x"
proof -
  assume x: "x AND 0xf0 = 0x40"
  have "x AND 0x40 = (x AND 0xf0) AND 0x40" by (simp add: and.assoc)
  then have "x AND 0x40 = 0x40" using x by simp
  then have "x OR 0x40 = x OR (x AND 0x40)" by simp
  then show ?thesis by (simp add: TYPE_IP_def)
qed

lemma low_high_bits: "(x :: 8 word) AND 0xf0 = h \<Longrightarrow> x = h OR (x AND 0x0f)"
proof -
  assume x: "x AND 0xf0 = h"
  have "(0xf0 OR 0x0f :: 8 word) = - 1" by simp
  then have "x AND (0xf0 OR 0x0f) = x" by (simp only: and.right_neutral)
  then have "(x AND 0xf0) OR (x AND 0x0f) = x" by (simp only: bit.conj_disj_distrib)
  then show ?thesis using x by simp
qed

lemma type_bits_uncompressed:
  assumes "(x :: 8 word) AND 0xf0 = 0x40"
  shows "(x OR TYPE_UNCOMPRESSED_TCP) AND 0x4f = x" "(x OR TYPE_UNCOMPRESSED_TCP) AND 0xf0 = TYPE_UNCOMPRESSED_TCP"
proof -
  have x: "x = 0x40 OR (x AND 0x0f)" by (rule low_high_bits [OF assms])
  have "(x OR TYPE_UNCOMPRESSED_TCP) AND 0x4f = ((0x40 OR (x AND 0x0f)) OR TYPE_UNCOMPRESSED_TCP) AND 0x4f" by (subst x) (rule refl)
  also have "\<dots> = 0x40 OR (x AND 0x0f)"
    by (simp add: TYPE_UNCOMPRESSED_TCP_def bit.conj_disj_distrib2 and.assoc or.assoc or.commute or.left_commute)
  finally show "(x OR TYPE_UNCOMPRESSED_TCP) AND 0x4f = x" by (simp only: x [symmetric])
  have "(x OR TYPE_UNCOMPRESSED_TCP) AND 0xf0 = ((0x40 OR (x AND 0x0f)) OR TYPE_UNCOMPRESSED_TCP) AND 0xf0" by (subst x) (rule refl)
  also have "\<dots> = TYPE_UNCOMPRESSED_TCP"
    by (simp add: TYPE_UNCOMPRESSED_TCP_def bit.conj_disj_distrib2 and.assoc)
  finally show "(x OR TYPE_UNCOMPRESSED_TCP) AND 0xf0 = TYPE_UNCOMPRESSED_TCP" .
qed

lemma type_bits_compressed: "((x :: 8 word) OR TYPE_COMPRESSED_TCP) AND 0x80 \<noteq> 0"
  "(x OR TYPE_COMPRESSED_TCP) AND 0xf0 \<noteq> 0x40"
proof -
  have b: "(x OR TYPE_COMPRESSED_TCP) AND 0x80 = 0x80"
    by (simp add: TYPE_COMPRESSED_TCP_def bit.conj_disj_distrib2 or.commute)
  then show "(x OR TYPE_COMPRESSED_TCP) AND 0x80 \<noteq> 0" by simp
  show "(x OR TYPE_COMPRESSED_TCP) AND 0xf0 \<noteq> 0x40"
  proof
    assume "(x OR TYPE_COMPRESSED_TCP) AND 0xf0 = 0x40"
    then have "((x OR TYPE_COMPRESSED_TCP) AND 0xf0) AND 0x80 = 0x40 AND 0x80" by simp
    then have "(x OR TYPE_COMPRESSED_TCP) AND 0x80 = 0" by (simp add: and.assoc)
    then show False using b by simp
  qed
qed

lemma or_first_nth: "q \<noteq> [] \<Longrightarrow> or_first p q ! 0 = q ! 0 OR p" "length (or_first p q) = length q"
  by (auto simp: or_first_def split: list.splits)

lemma sl_expand_ok:
  assumes "\<forall>m. se_mget env m" "\<forall>p. se_netisr env p"
    and "sl_uncompress_tcp (line_buf bs (se_stale env)) (length bs) ty (sc_comp sc) = Some (p, c1)" "p \<noteq> []"
  shows "\<exists>sc1. sl_expand env ty bs False sc = Some sc1 \<and> sc_netisr sc1 = sc_netisr sc @ [p] \<and> sc_data sc1 = []
    \<and> same_setup sc sc1 \<and> sc_comp sc1 = c1"
  using assms(3,4) sl_deliver_ok [OF assms(1,2), where p = p and sc = "sc\<lparr>sc_comp := c1\<rparr>"]
  unfolding sl_expand_def line_buf_def by (auto simp: Let_def same_setup_def)

lemma sl_frame_plain:
  assumes "\<forall>m. se_mget env m" "\<forall>p. se_netisr env p" "sc_data sc = p" "3 \<le> length p" "p ! 0 AND 0xf0 = 0x40"
  shows "\<exists>sc1. sl_frame env sc = Some sc1 \<and> sc_netisr sc1 = sc_netisr sc @ [p] \<and> sc_data sc1 = []
    \<and> same_setup sc sc1 \<and> sc_comp sc1 = sc_comp sc"
  using assms(3-) sl_deliver_ok [OF assms(1,2), where p = p and sc = sc] by (auto simp: sl_frame_def Let_def)

lemma sl_frame_uncompressed:
  assumes "\<forall>m. se_mget env m" "\<forall>p. se_netisr env p" "sc_data sc = or_first TYPE_UNCOMPRESSED_TCP q" "3 \<le> length q"
    and "q ! 0 AND 0xf0 = 0x40" "sc_flags sc AND SC_COMPRESS \<noteq> 0"
    and "sl_uncompress_tcp (line_buf q (se_stale env)) (length q) TYPE_UNCOMPRESSED_TCP (sc_comp sc) = Some (p, c1)" "p \<noteq> []"
  shows "\<exists>sc1. sl_frame env sc = Some sc1 \<and> sc_netisr sc1 = sc_netisr sc @ [p] \<and> sc_data sc1 = []
    \<and> same_setup sc sc1 \<and> sc_comp sc1 = c1"
proof -
  have ne: "q \<noteq> []" using assms(4) by auto
  note b = or_first_nth(1) [OF ne, of TYPE_UNCOMPRESSED_TCP] type_bits_uncompressed [OF assms(5)]
  have c: "(q ! 0 OR TYPE_UNCOMPRESSED_TCP) AND 0xf0 = 0x70" using b(3) by (simp add: TYPE_UNCOMPRESSED_TCP_def)
  have q: "(or_first TYPE_UNCOMPRESSED_TCP q)[0 := q ! 0] = q" using ne by (auto simp: or_first_def split: list.splits)
  have "sl_frame env sc = sl_expand env TYPE_UNCOMPRESSED_TCP q False sc"
    using assms(4,6) unfolding sl_frame_def Let_def assms(3) or_first_nth(2) b(1,2) c
    by (simp add: TYPE_UNCOMPRESSED_TCP_def q [unfolded TYPE_UNCOMPRESSED_TCP_def])
  then show ?thesis using sl_expand_ok [OF assms(1,2,7,8)] by simp
qed

lemma sl_frame_compressed:
  assumes "\<forall>m. se_mget env m" "\<forall>p. se_netisr env p" "sc_data sc = or_first TYPE_COMPRESSED_TCP q" "3 \<le> length q"
    and "sc_flags sc AND SC_COMPRESS \<noteq> 0"
    and "sl_uncompress_tcp (line_buf q (se_stale env)) (length q) TYPE_COMPRESSED_TCP (sc_comp sc) = Some (p, c1)" "p \<noteq> []"
  shows "\<exists>sc1. sl_frame env sc = Some sc1 \<and> sc_netisr sc1 = sc_netisr sc @ [p] \<and> sc_data sc1 = []
    \<and> same_setup sc sc1 \<and> sc_comp sc1 = c1"
proof -
  let ?q = "or_first TYPE_COMPRESSED_TCP q"
  have ne: "q \<noteq> []" using assms(4) by auto
  note b = or_first_nth(1) [OF ne, of TYPE_COMPRESSED_TCP] type_bits_compressed [of "q ! 0"]
  have "((q ! 0 OR TYPE_COMPRESSED_TCP) AND 0xf0) AND 0x80 \<noteq> 0" using b(2) by (simp add: and.assoc)
  then have F: "sl_frame env sc = sl_expand env TYPE_COMPRESSED_TCP ?q False sc"
    using assms(4,5) b(3) unfolding sl_frame_def Let_def assms(3) or_first_nth(2) b(1) by simp
  have "line_buf ?q (se_stale env) = typed (line_buf q (se_stale env))"
    using ne by (auto simp: line_buf_def typed_def or_first_def nth_Cons split: list.splits nat.splits)
  then have "sl_uncompress_tcp (line_buf ?q (se_stale env)) (length ?q) TYPE_COMPRESSED_TCP (sc_comp sc) = Some (p, c1)"
    using assms(6) sl_uncompress_typed by (simp add: or_first_nth(2))
  from sl_expand_ok [OF assms(1,2) this assms(7)] show ?thesis unfolding F .
qed


text \<open>The line takes all that the driver has.\<close>

definition sl_taken :: "sl_softc \<Rightarrow> sl_softc" where
  "sl_taken sc = (sl_drain sc)\<lparr>sc_line := []\<rparr>"

lemma wire_drain:
  assumes "wire_inv s r" "sl_enqueue es fast [bs] (s\<lparr>sc_comp := c\<rparr>) = (e, s1)"
  shows "sc_line (sl_drain s1) = sl_sent s1" "\<exists>k. sc_outq s = (empty_clist, k) \<and> outq_inv k s1"
proof -
  obtain k where k: "sc_outq s = (empty_clist, k)" using assms(1) by (auto simp: wire_inv_def)
  then have "outq_inv k (s\<lparr>sc_comp := c\<rparr>)" by (simp add: outq_inv_def c_inv_empty)
  then have "outq_inv k s1" using sl_enqueue_inv assms(2) by blast
  then show "sc_line (sl_drain s1) = sl_sent s1" "\<exists>k. sc_outq s = (empty_clist, k) \<and> outq_inv k s1"
    using k sl_drain_sent(2) by auto
qed

lemma wire_sent:
  assumes "wire_inv s r" "length bs \<le> SLMTU" "length bs \<le> SLMAX er"
    "sl_enqueue es fast [bs] (s\<lparr>sc_comp := c\<rparr>) = (e, s1)"
  shows "\<exists>r0. sl_receive er (sc_line (sl_drain s1)) r = sl_frame er r0 \<and> sc_data r0 = bs \<and> same_input r r0"
  unfolding wire_drain(1) [OF assms(1,4)]
  using sl_receive_frame [of r bs er] enqueue_idle_line(2) [OF assms(1,2,4)] assms(1,3) by (auto simp: wire_inv_def)

lemma wire_inv_step:
  assumes "wire_inv s r" "same_setup s s1" "sc_fastq s1 = []" "sc_snd s1 = []" "same_setup r r1" "sc_data r1 = []"
    and "sl_sync (sc_comp s1) (sc_comp r1)" "no_urg (sc_comp s1)" "sc_outq s = (empty_clist, k)" "outq_inv k s1"
  shows "wire_inv (sl_taken s1) r1"
  using assms(1-9) sl_drain_sent [OF assms(10)] by (auto simp: wire_inv_def same_setup_def line_up_def sl_taken_def)

text \<open>One packet out and in: it arrives as it was sent, and both ends are ready for the next.\<close>

lemma wire_enqueued:
  assumes inv: "wire_inv s r" and env: "\<forall>m. se_mget er m" "\<forall>p. se_netisr er p"
    and bs: "length bs \<le> SLMTU" "length bs \<le> SLMAX er"
    and enq: "sl_enqueue es fast [bs] (s\<lparr>sc_comp := c\<rparr>) = (e, s1)"
    and frame: "\<And>r0. sc_data r0 = bs \<Longrightarrow> same_input r r0 \<Longrightarrow>
      \<exists>r1. sl_frame er r0 = Some r1 \<and> sc_netisr r1 = sc_netisr r0 @ [p] \<and> sc_data r1 = []
        \<and> same_setup r0 r1 \<and> sl_sync c (sc_comp r1)"
    and urg: "no_urg c"
  shows "e = 0 \<and> (\<exists>r1. sl_receive er (sc_line (sl_drain s1)) r = Some r1 \<and> sc_netisr r1 = sc_netisr r @ [p]
    \<and> wire_inv (sl_taken s1) r1)"
proof -
  note q = enqueue_idle_line [OF inv bs(1) enq]
  obtain r0 where r0: "sl_receive er (sc_line (sl_drain s1)) r = sl_frame er r0" "sc_data r0 = bs" "same_input r r0"
    using wire_sent [OF inv bs enq] by blast
  obtain r1 where r1: "sl_frame er r0 = Some r1" "sc_netisr r1 = sc_netisr r0 @ [p]" "sc_data r1 = []"
    "same_setup r0 r1" "sl_sync c (sc_comp r1)" using frame [OF r0(2,3)] by blast
  have "same_setup r r1" using r0(3) r1(4) by (simp add: same_input_def same_setup_def)
  from wire_inv_step [OF inv q(4-6) this r1(3)] show ?thesis
    using wire_drain(2) [OF inv enq] q(1,3) r0 r1 urg by (auto simp: same_input_def)
qed


lemma no_urg_fields:
  assumes "no_urg s" "datagram_ok ip n" "\<not> sl_unexpected ip (cs_hdr cs)" "cs \<in> set (tstate s)"
  shows "cs_hdr cs (4 * ip_hl ip + th_flags) AND TH_URG = 0"
proof -
  have "ip 0 \<noteq> 0" using assms(2) by (auto simp: datagram_ok_def ip_hl_def)
  moreover have "ip 0 = cs_hdr cs 0" using assms(3) by (simp add: sl_unexpected_def Let_def get16_eq_iff)
  ultimately show ?thesis using assms(1,4) ip_hl_cong [of ip "cs_hdr cs"] unfolding no_urg_def by metis
qed

lemma wire_step_plain:
  assumes inv: "wire_inv s r" and env: "\<forall>m. se_mget er m" "\<forall>p. se_netisr er p" and ok: "wire_ok er ip n"
    and enq: "sl_enqueue es fast [mem_list ip 0 n] s = (e, s1)"
  shows "e = 0 \<and> (\<exists>r1. sl_receive er (sc_line (sl_drain s1)) r = Some r1 \<and> sc_netisr r1 = sc_netisr r @ [mem_list ip 0 n]
    \<and> wire_inv (sl_taken s1) r1)"
proof -
  have f: "mem_list ip 0 n ! 0 AND 0xf0 = 0x40" "3 \<le> length (mem_list ip 0 n)"
    and n: "length (mem_list ip 0 n) \<le> SLMTU" "length (mem_list ip 0 n) \<le> SLMAX er"
    using ok by (simp_all add: wire_ok_def)
  have s: "sl_sync (sc_comp s) (sc_comp r)" "no_urg (sc_comp s)" using inv by (simp_all add: wire_inv_def)
  have enq': "sl_enqueue es fast [mem_list ip 0 n] (s\<lparr>sc_comp := sc_comp s\<rparr>) = (e, s1)" using enq by simp
  show ?thesis
  proof (rule wire_enqueued [OF inv env n enq' _ s(2)])
    fix r0 assume "sc_data r0 = mem_list ip 0 n" "same_input r r0"
    then show "\<exists>r1. sl_frame er r0 = Some r1 \<and> sc_netisr r1 = sc_netisr r0 @ [mem_list ip 0 n] \<and> sc_data r1 = []
        \<and> same_setup r0 r1 \<and> sl_sync (sc_comp s) (sc_comp r1)"
      using sl_frame_plain [OF env _ f(2,1), of r0] s(1) by (auto simp: same_input_def)
  qed
qed

lemma wire_step_received:
  assumes inv: "wire_inv s r" and env: "\<forall>m. se_mget er m" "\<forall>p. se_netisr er p" and ok: "wire_ok er ip n"
    and tcp: "datagram_ok ip n" "\<not> d_urg ip"
    and out: "sl_compress_tcp ip n (sc_comp s) cid = Some (ty, q, c)" "ty \<noteq> TYPE_IP"
    and rcv: "received ip n (se_stale er) (sc_comp s) (sc_comp r) (ty, q, c)"
    and enq: "sl_enqueue es fast [or_first ty q] (s\<lparr>sc_comp := c\<rparr>) = (e, s1)"
  shows "e = 0 \<and> (\<exists>r1. sl_receive er (sc_line (sl_drain s1)) r = Some r1 \<and> sc_netisr r1 = sc_netisr r @ [mem_list ip 0 n]
    \<and> wire_inv (sl_taken s1) r1)"
proof -
  have n: "20 \<le> n" "n \<le> SLMTU" "n \<le> SLMAX er" "ip 0 AND 0xf0 = 0x40" using ok by (simp_all add: wire_ok_def)
  have h: "hdr_len ip \<le> n" using tcp(1) by (simp add: datagram_ok_def)
  have p: "mem_list ip 0 n \<noteq> []" using n(1) by (metis length_0_conv mem_list_length diff_zero not_numeral_le_zero)
  note shape = sl_compress_shape [OF out(1) h]
  then have len: "3 \<le> length q" "length q \<le> n" using n(1) out(2) by auto
  have bs: "length (or_first ty q) \<le> SLMTU" "length (or_first ty q) \<le> SLMAX er"
    using len n by (simp_all add: or_first_nth(2))
  obtain r2 where r2: "sl_uncompress_tcp (line_buf q (se_stale er)) (length q) ty (sc_comp r) = Some (mem_list ip 0 n, r2)"
    "sl_sync c r2" "tables_follow ip (sc_comp s) c" using rcv by (auto simp: received_def)
  have urg: "no_urg c" using no_urg_follow [OF _ r2(3) tcp] inv by (simp add: wire_inv_def)
  have fl: "sc_flags r AND SC_COMPRESS \<noteq> 0" using inv by (simp add: wire_inv_def)
  show ?thesis
  proof (rule wire_enqueued [OF inv env bs enq _ urg])
    fix r0 assume d: "sc_data r0 = or_first ty q" and same: "same_input r r0"
    have f0: "sc_flags r0 AND SC_COMPRESS \<noteq> 0" "sc_comp r0 = sc_comp r"
      using fl same by (simp_all add: same_input_def same_setup_def)
    note u = r2(1) [folded f0(2)]
    from shape out(2) consider (sync) i where "ty = TYPE_UNCOMPRESSED_TCP" "q = mem_list (ip(ip_p := i)) 0 n"
      | (comp) "ty = TYPE_COMPRESSED_TCP" by blast
    then show "\<exists>r1. sl_frame er r0 = Some r1 \<and> sc_netisr r1 = sc_netisr r0 @ [mem_list ip 0 n] \<and> sc_data r1 = []
        \<and> same_setup r0 r1 \<and> sl_sync c (sc_comp r1)"
    proof cases
      case sync
      have "q ! 0 AND 0xf0 = 0x40" using sync(2) n by simp
      from sl_frame_uncompressed [OF env d [unfolded sync(1)] len(1) this f0(1) u [unfolded sync(1)] p]
      show ?thesis using r2(2) by blast
    next
      case comp
      from sl_frame_compressed [OF env d [unfolded comp] len(1) f0(1) u [unfolded comp] p]
      show ?thesis using r2(2) by blast
    qed
  qed
qed

lemma wire_step:
  assumes inv: "wire_inv s r" and env: "\<forall>m. se_mget er m" "\<forall>p. se_netisr er p" and ok: "wire_ok er ip n"
  shows "\<exists>s1 r1. sloutput es True ip n [] s = Some (0, s1) \<and> sl_receive er (sc_line (sl_drain s1)) r = Some r1
    \<and> sc_netisr r1 = sc_netisr r @ [mem_list ip 0 n] \<and> wire_inv (sl_taken s1) r1"
proof -
  have up: "sc_open s" "sc_carr s" "sc_flags s AND SC_COMPRESS \<noteq> 0" "sc_flags s AND SC_NOICMP = 0"
    and sy: "sl_sync (sc_comp s) (sc_comp r)" "no_urg (sc_comp s)"
    using inv by (simp_all add: wire_inv_def)
  have plain: ?thesis if "sloutput es True ip n [] s = Some (sl_enqueue es fast [mem_list ip 0 n] s)" for fast
  proof -
    obtain e s1 where q: "sl_enqueue es fast [mem_list ip 0 n] s = (e, s1)" by fastforce
    show ?thesis using wire_step_plain [OF inv env ok q] that q by auto
  qed
  show ?thesis
  proof (cases "ip ip_p = IPPROTO_TCP")
    case False
    then show ?thesis using plain [of False] up by (simp add: sloutput_def)
  next
    case True
    have tcp: "datagram_ok ip n" "\<not> d_urg ip" using ok True by (simp_all add: wire_ok_def)
    obtain ty q c where out: "sl_compress_tcp ip n (sc_comp s) (sl_interactive ip) = Some (ty, q, c)"
      "if ty = TYPE_IP then q = mem_list ip 0 n \<and> c = sc_comp s else received ip n (se_stale er) (sc_comp s) (sc_comp r) (ty, q, c)"
      using sl_step [OF sy(1) tcp(1), where cid = "sl_interactive ip" and stale = "se_stale er"]
        no_urg_fields [OF sy(2) tcp(1)] by (auto split: if_splits)
    have S: "sloutput es True ip n [] s = Some (sl_enqueue es (sl_interactive ip) [or_first ty q] (s\<lparr>sc_comp := c\<rparr>))"
      using True up out(1) by (simp add: sloutput_def Let_def)
    show ?thesis
    proof (cases "ty = TYPE_IP")
      case ip: True
      have "20 \<le> n" "ip 0 AND 0xf0 = 0x40" using ok by (simp_all add: wire_ok_def)
      then have "or_first ty q = mem_list ip 0 n"
        using out(2) ip type_bits_plain by (auto simp: or_first_def mem_list_def upt_rec [of 0])
      then show ?thesis using plain [of "sl_interactive ip"] S out(2) ip by simp
    next
      case False
      obtain e s1 where q: "sl_enqueue es (sl_interactive ip) [or_first ty q] (s\<lparr>sc_comp := c\<rparr>) = (e, s1)" by fastforce
      show ?thesis
        using wire_step_received [OF inv env ok tcp out(1) False _ q] out(2) False S q by auto
    qed
  qed
qed


section \<open>A sequence of packets\<close>

text \<open>
  The two ends at work: each packet is given to \<open>sloutput\<close>, the driver sends what is queued
  and every character reaches \<open>slinput\<close> before the next packet comes.
\<close>

fun sl_wire :: "sl_env \<Rightarrow> sl_env \<Rightarrow> (mem \<times> nat) list \<Rightarrow> sl_softc \<Rightarrow> sl_softc \<Rightarrow> (sl_softc \<times> sl_softc) option" where
  "sl_wire es er [] s r = Some (s, r)"
| "sl_wire es er ((ip, n) # ps) s r =
     Option.bind (sloutput es True ip n [] s) (\<lambda>(e, s1).
       Option.bind (sl_receive er (sc_line (sl_drain s1)) r) (\<lambda>r1. sl_wire es er ps (sl_taken s1) r1))"

lemma sl_wire_ok:
  assumes env: "\<forall>m. se_mget er m" "\<forall>p. se_netisr er p"
  shows "wire_inv s r \<Longrightarrow> \<forall>(ip, n)\<in>set ps. wire_ok er ip n \<Longrightarrow>
    \<exists>s1 r1. sl_wire es er ps s r = Some (s1, r1)
      \<and> sc_netisr r1 = sc_netisr r @ map (\<lambda>(ip, n). mem_list ip 0 n) ps \<and> wire_inv s1 r1"
proof (induction ps arbitrary: s r)
  case (Cons x ps)
  obtain ip n where x: "x = (ip, n)" by (cases x)
  have "wire_ok er ip n" using Cons.prems(2) x by simp
  from wire_step [OF Cons.prems(1) env this] obtain s1 r1 where
    1: "sloutput es True ip n [] s = Some (0, s1)" "sl_receive er (sc_line (sl_drain s1)) r = Some r1"
    "sc_netisr r1 = sc_netisr r @ [mem_list ip 0 n]" "wire_inv (sl_taken s1) r1" by blast
  from Cons.IH [OF 1(4)] Cons.prems(2) show ?case using 1 x by auto
qed simp

text \<open>The two ends as \<open>slinit\<close> leaves them, on a line that is up.\<close>

lemma wire_inv_init:
  assumes "sc_open s" "sc_carr s" "sc_flags s AND SC_COMPRESS \<noteq> 0" "sc_flags s AND SC_NOICMP = 0"
    and "sc_fastq s = []" "sc_snd s = []" "sc_line s = []" "sc_outq s = (empty_clist, k)" "CLISTRESERVE + SLMTU \<le> CBSIZE * k"
    and "line_up r" "sc_flags r AND SC_COMPRESS \<noteq> 0"
  shows "wire_inv (slinit s) (slinit r)"
proof -
  have "no_urg sl_compress_init" by (auto simp: no_urg_def sl_compress_init_def)
  then show ?thesis
    using assms sl_sync_init by (auto simp: wire_inv_def slinit_def line_up_def)
qed

end
