(* ===== verification/If_sl_Queues.thy ===== *)
theory If_sl_Queues
  imports If_sl_Wire "HOL-Library.Sublist"
begin

text \<open>
  Many packets on their way at once: both queues of \<open>sloutput\<close>, the order in which \<open>slstart\<close>
  takes from them, and a line that carries the characters whenever it likes.
\<close>

section \<open>A queue with two priorities\<close>

text \<open>
  What was accepted (with its class), what waits in the interactive queue and in the other one, and
  what was sent: anything waiting in the interactive queue goes first.
\<close>

inductive pqueue :: "(bool \<times> 'a) list \<Rightarrow> 'a list \<Rightarrow> 'a list \<Rightarrow> 'a list \<Rightarrow> bool" where
  empty: "pqueue [] [] [] []"
| fast: "pqueue A F B D \<Longrightarrow> pqueue (A @ [(True, x)]) (F @ [x]) B D"
| slow: "pqueue A F B D \<Longrightarrow> pqueue (A @ [(False, x)]) F (B @ [x]) D"
| send_fast: "pqueue A (x # F) B D \<Longrightarrow> pqueue A F B (D @ [x])"
| send_slow: "pqueue A [] (x # B) D \<Longrightarrow> pqueue A [] B (D @ [x])"

definition of_class :: "bool \<Rightarrow> (bool \<times> 'a) list \<Rightarrow> 'a list" where
  "of_class c A = map snd (filter (\<lambda>x. fst x = c) A)"

lemma of_class_simps [simp]: "of_class c [] = []" "of_class c (A @ A') = of_class c A @ of_class c A'"
  "of_class c [(d, x)] = (if c = d then [x] else [])"
  by (auto simp: of_class_def)

lemma shuffles_last: "ys @ [x] \<in> shuffles [x] ys" "xs @ [x] \<in> shuffles xs [x]"
  by (induction ys) (auto simp: shuffles_commutes [of xs] intro: image_eqI, induction xs, auto)

lemma shuffles_snoc: "D \<in> shuffles X Y \<Longrightarrow> D @ [x] \<in> shuffles (X @ [x]) Y \<and> D @ [x] \<in> shuffles X (Y @ [x])"
proof (induction X Y arbitrary: D rule: shuffles.induct)
  case (3 a X b Y)
  then show ?case by (auto simp: shuffles.simps)
qed (auto simp: shuffles_last)

text \<open>Each class stays in its order; nothing is lost, invented or sent twice.\<close>

lemma pqueue_order:
  "pqueue A F B D \<Longrightarrow> \<exists>X Y. of_class True A = X @ F \<and> of_class False A = Y @ B \<and> D \<in> shuffles X Y"
proof (induction rule: pqueue.induct)
  case (send_fast A x F B D)
  then obtain X Y where "of_class True A = X @ x # F" "of_class False A = Y @ B" "D \<in> shuffles X Y" by blast
  then show ?case using shuffles_snoc [of D X Y x] by (intro exI [of _ "X @ [x]"] exI [of _ Y]) simp
next
  case (send_slow A x B D)
  then obtain X Y where "of_class True A = X @ []" "of_class False A = Y @ x # B" "D \<in> shuffles X Y" by blast
  then show ?case using shuffles_snoc [of D X Y x] by (intro exI [of _ X] exI [of _ "Y @ [x]"]) simp
qed force+

section \<open>Frames on the line\<close>

inductive framed :: "8 word list list \<Rightarrow> 8 word list \<Rightarrow> bool" where
  none: "framed [] []"
| frame: "framed D cs \<Longrightarrow> framed (D @ [bs]) (cs @ slip_escape bs @ [FRAME_END])"
| first: "framed D cs \<Longrightarrow> framed (D @ [bs]) (cs @ [FRAME_END] @ slip_escape bs @ [FRAME_END])"

lemma foldl_one: "foldl f a [x] = f a x" by simp

lemma put_packet_frame:
  assumes "framed D (sl_sent sc)" "length (slip_escape bs) + 2 \<le> c_room (sc_outq sc)"
  shows "framed (D @ [bs]) (sl_sent (sl_put_packet [bs] sc))" "sc_line (sl_put_packet [bs] sc) = sc_line sc"
    "same_setup sc (sl_put_packet [bs] sc)" "sc_comp (sl_put_packet [bs] sc) = sc_comp sc"
proof -
  show "sc_line (sl_put_packet [bs] sc) = sc_line sc" "same_setup sc (sl_put_packet [bs] sc)" "sc_comp (sl_put_packet [bs] sc) = sc_comp sc"
    by (simp_all add: sl_put_packet_def same_setup_def Let_def split: prod.splits option.splits)
  show "framed (D @ [bs]) (sl_sent (sl_put_packet [bs] sc))"
  proof (cases "c_chars (fst (sc_outq sc)) = []")
    case True
    note p = sl_put_packet_room(1,2) [OF True assms(2)]
    have "sl_sent sc = sc_line sc" using True by (simp add: sl_sent_def)
    then show ?thesis using framed.first [OF assms(1), of bs] p by (simp add: sl_sent_def)
  next
    case False
    obtain q1 sent where q1: "sl_put_mbuf bs (sc_outq sc, sc_bytessent sc) = (q1, sent)" by (cases "sl_put_mbuf bs (sc_outq sc, sc_bytessent sc)")
    have s1: "c_chars (fst q1) = c_chars (fst (sc_outq sc)) @ slip_escape bs" "c_room q1 \<noteq> 0"
      using sl_put_mbuf_room [of bs "(sc_outq sc, sc_bytessent sc)"] assms q1 by auto
    obtain q2 where q2: "c_putc FRAME_END q1 = Some q2" using c_putc_room s1(2) by blast
    note s2 = c_putc_Some(1) [OF q2]
    have "sl_sent (sl_put_packet [bs] sc) = sl_sent sc @ slip_escape bs @ [FRAME_END]"
      using False q1 q2 s2 s1(1) by (simp add: sl_put_packet_def sl_sent_def)
    then show ?thesis using framed.frame [OF assms(1), of bs] by simp
  qed
qed

section \<open>The sender\<close>

text \<open>
  The queues hold packets of one mbuf; \<open>k\<close> blocks belong to the terminal's queue and the free list.
\<close>

definition sender :: "nat \<Rightarrow> sl_softc \<Rightarrow> 8 word list list \<Rightarrow> 8 word list list \<Rightarrow> 8 word list list \<Rightarrow> bool" where
  "sender k sc F B D \<longleftrightarrow> sc_open sc \<and> sc_fastq sc = map (\<lambda>p. [p]) F \<and> sc_snd sc = map (\<lambda>p. [p]) B \<and> framed D (sl_sent sc)
     \<and> outq_inv k sc \<and> (\<forall>p\<in>set F \<union> set B. length p \<le> SLMTU)"

lemma low_queue_room:
  assumes "c_inv k q" "32 \<le> k" "length (c_chars (fst q)) \<le> SLIP_HIWAT"
  shows "CLISTRESERVE + SLMTU \<le> CBSIZE * snd q"
proof -
  have "c_off (fst q) + length (c_chars (fst q)) + 47 \<le> 194" using assms(1,3) by (simp add: c_inv_def CBSIZE_def SLIP_HIWAT_def)
  then have "(c_off (fst q) + length (c_chars (fst q)) + 47) div 48 \<le> 194 div 48" by (rule div_le_mono)
  then have "c_blocks (fst q) \<le> 4" by (simp add: c_blocks_def CBSIZE_def)
  then have "28 \<le> snd q" using assms(1,2) by (simp add: c_inv_def)
  then show ?thesis by (simp add: CLISTRESERVE_def SLMTU_def CBSIZE_def)
qed

lemma take_chars_line: "prefix (sc_line sc) (sc_line (take_chars n sc))"
  by (induction n sc rule: take_chars.induct) (auto split: prod.splits option.splits dest: append_prefixD)

lemma slstart_kick_sender:
  assumes "sender k sc F B D" "slstart_kick env sc = (stop, sc1)"
  shows "sender k sc1 F B D" "same_setup sc sc1" "sc_comp sc1 = sc_comp sc" "prefix (sc_line sc) (sc_line sc1)"
    "\<not> stop \<Longrightarrow> length (c_chars (fst (sc_outq sc1))) \<le> SLIP_HIWAT"
proof -
  note s = slstart_kick_sent [OF assms(2)]
  have "outq_inv k sc1" using assms take_chars_inv by (auto simp: sender_def slstart_kick_def t_oproc_def Let_def split: if_splits)
  then show "sender k sc1 F B D" using assms(1) s by (simp add: sender_def same_setup_def)
  show "same_setup sc sc1" "sc_comp sc1 = sc_comp sc" by (fact s)+
  show "prefix (sc_line sc) (sc_line sc1)" using assms(2) take_chars_line
    by (auto simp: slstart_kick_def t_oproc_def Let_def split: if_splits)
  show "length (c_chars (fst (sc_outq sc1))) \<le> SLIP_HIWAT" if "\<not> stop"
    using assms(2) that by (auto simp: slstart_kick_def Let_def split: if_splits)
qed

lemma put_sender:
  assumes "sender k sc F B D" "length bs \<le> SLMTU" "CLISTRESERVE + SLMTU \<le> CBSIZE * snd (sc_outq sc)"
  shows "sender k (sl_put_packet [bs] sc) F B (D @ [bs])" "same_setup sc (sl_put_packet [bs] sc)" "sc_comp (sl_put_packet [bs] sc) = sc_comp sc"
    "sc_line (sl_put_packet [bs] sc) = sc_line sc"
proof -
  have "length (slip_escape bs) + 2 \<le> c_room (sc_outq sc)"
    using slip_escape_length(1) [of bs] assms(2,3) by (simp add: c_room_def CLISTRESERVE_def SLMTU_def)
  note p = put_packet_frame [OF _ this, of D]
  have f: "framed D (sl_sent sc)" using assms(1) by (simp add: sender_def)
  show "sender k (sl_put_packet [bs] sc) F B (D @ [bs])" "same_setup sc (sl_put_packet [bs] sc)" "sc_comp (sl_put_packet [bs] sc) = sc_comp sc"
    "sc_line (sl_put_packet [bs] sc) = sc_line sc"
    using assms(1) p [OF f] sl_put_packet_inv [of k sc "[bs]"] by (simp_all add: sender_def same_setup_def)
qed

lemma dequeue_sender:
  assumes "sender k sc F B D" "pqueue A F B D" "sl_dequeue sc = Some (m, sc2)"
  shows "\<exists>bs F' B'. m = [bs] \<and> sender k sc2 F' B' D \<and> pqueue A F' B' (D @ [bs]) \<and> length bs \<le> SLMTU \<and> length F' \<le> length F
    \<and> same_setup sc sc2 \<and> sc_comp sc2 = sc_comp sc \<and> sc_line sc2 = sc_line sc \<and> sc_outq sc2 = sc_outq sc"
proof (cases F)
  case (Cons x F')
  then have "m = [x]" "sc2 = sc\<lparr>sc_fastq := map (\<lambda>p. [p]) F'\<rparr>" using assms(1,3) by (auto simp: sl_dequeue_def sender_def)
  then show ?thesis using assms(1,2) Cons
    by (intro exI [of _ x] exI [of _ F'] exI [of _ B]) (auto simp: sender_def sl_sent_def outq_inv_def same_setup_def intro: pqueue.send_fast)
next
  case Nil
  then obtain x B' where B: "B = x # B'" using assms(1,3) by (cases B) (auto simp: sl_dequeue_def sender_def)
  then have "m = [x]" "sc2 = sc\<lparr>sc_snd := map (\<lambda>p. [p]) B'\<rparr>" using assms(1,3) Nil by (auto simp: sl_dequeue_def sender_def)
  then show ?thesis using assms(1,2) Nil B
    by (intro exI [of _ x] exI [of _ "[]"] exI [of _ B']) (auto simp: sender_def sl_sent_def outq_inv_def same_setup_def intro: pqueue.send_slow)
qed

lemma slstart_sender:
  "sender k sc F B D \<Longrightarrow> 32 \<le> k \<Longrightarrow> pqueue A F B D \<Longrightarrow>
   \<exists>F' B' D'. sender k (slstart env sc) F' B' D' \<and> pqueue A F' B' D' \<and> same_setup sc (slstart env sc) \<and> sc_comp (slstart env sc) = sc_comp sc
     \<and> prefix (sc_line sc) (sc_line (slstart env sc)) \<and> length F' \<le> length F"
proof (induction env sc arbitrary: F B D rule: slstart.induct)
  case (1 env sc)
  obtain stop sc1 where kick: "slstart_kick env sc = (stop, sc1)" by (cases "slstart_kick env sc")
  note k = slstart_kick_sender [OF "1.prems"(1) kick]
  show ?case
  proof (cases "stop \<or> sl_dequeue sc1 = None")
    case True
    have "slstart env sc = sc1" using True kick k(1) by (subst slstart.simps) (auto simp: sender_def split: bool.splits)
    then show ?thesis using k "1.prems"(3) by blast
  next
    case False
    then obtain m sc2 where d: "sl_dequeue sc1 = Some (m, sc2)" "stop = False" by auto
    obtain bs F' B' where q: "m = [bs]" "sender k sc2 F' B' D" "pqueue A F' B' (D @ [bs])" "length bs \<le> SLMTU" "length F' \<le> length F"
      "same_setup sc1 sc2" "sc_comp sc2 = sc_comp sc1" "sc_line sc2 = sc_line sc1" "sc_outq sc2 = sc_outq sc1"
      using dequeue_sender [OF k(1) "1.prems"(3) d(1)] by blast
    have room: "CLISTRESERVE + SLMTU \<le> CBSIZE * snd (sc_outq sc2)"
      using low_queue_room [of k "sc_outq sc1"] k(1) k(5) d(2) "1.prems"(2) q(9) by (simp add: sender_def outq_inv_def)
    note p = put_sender [OF q(2,4) room]
    have op: "sc_open sc1" using k(1) by (simp add: sender_def)
    have nr: "\<not> CBSIZE * snd (sc_outq sc2) < CLISTRESERVE + SLMTU" using room by simp
    have e: "slstart env sc = slstart env (sl_put_packet [bs] sc2)"
      using kick d op nr q(1) by (subst slstart.simps) simp
    have p1: "sender k (sl_put_packet m sc2) F' B' (D @ [bs])" using p(1) q(1) by simp
    have "\<exists>F'' B'' D''. sender k (slstart env (sl_put_packet m sc2)) F'' B'' D'' \<and> pqueue A F'' B'' D''
       \<and> same_setup (sl_put_packet m sc2) (slstart env (sl_put_packet m sc2)) \<and> sc_comp (slstart env (sl_put_packet m sc2)) = sc_comp (sl_put_packet m sc2)
       \<and> prefix (sc_line (sl_put_packet m sc2)) (sc_line (slstart env (sl_put_packet m sc2))) \<and> length F'' \<le> length F'"
      by (rule "1.IH"(2) [OF kick [symmetric] d(2) _ d(1) refl nr p1 "1.prems"(2) q(3)]) (use op in simp)
    then obtain F'' B'' D'' where i: "sender k (slstart env (sl_put_packet [bs] sc2)) F'' B'' D''" "pqueue A F'' B'' D''"
       "same_setup (sl_put_packet [bs] sc2) (slstart env (sl_put_packet [bs] sc2))" "sc_comp (slstart env (sl_put_packet [bs] sc2)) = sc_comp (sl_put_packet [bs] sc2)"
       "prefix (sc_line (sl_put_packet [bs] sc2)) (sc_line (slstart env (sl_put_packet [bs] sc2)))" "length F'' \<le> length F'" unfolding q(1) by blast
    show ?thesis unfolding e
      by (intro exI [of _ F''] exI [of _ B''] exI [of _ D''])
        (use i p k(2-4) q in \<open>auto simp: same_setup_def intro: prefix_order.trans\<close>)
  qed
qed

section \<open>The receiver\<close>

text \<open>A packet that arrives uncompressed.\<close>

definition plain_ok :: "sl_env \<Rightarrow> 8 word list \<Rightarrow> bool" where
  "plain_ok er p \<longleftrightarrow> p ! 0 AND 0xf0 = 0x40 \<and> 20 \<le> length p \<and> length p \<le> SLMTU \<and> length p \<le> SLMAX er"

definition ready :: "sl_softc \<Rightarrow> bool" where
  "ready r \<longleftrightarrow> line_up r \<and> sc_data r = [] \<and> \<not> sc_escape r"

lemma plain_arrives:
  assumes r: "line_up r" "sc_data r = p" and env: "\<forall>m. se_mget er m" "\<forall>p. se_netisr er p" and p: "plain_ok er p"
  shows "\<exists>r1. sl_frame er r = Some r1 \<and> ready r1 \<and> sc_netisr r1 = sc_netisr r @ [p]"
proof -
  have "sl_frame er r = Some (sl_deliver er p r)" using r(2) p by (auto simp: sl_frame_def plain_ok_def Let_def)
  moreover have "ready (sl_deliver er p r)" using r env by (auto simp: ready_def line_up_def sl_deliver_def sl_newpack_def)
  ultimately show ?thesis using sl_deliver_ok(1) [OF env, of p r] by simp
qed

lemma frame_char:
  assumes "line_up r"
  shows "\<exists>r1. slinput er FRAME_END r = sl_frame er r1 \<and> same_input r r1 \<and> sc_data r1 = sc_data r \<and> line_up r1"
proof -
  let ?r = "r\<lparr>sc_bytesrcvd := sc_bytesrcvd r + 1, if_ibytes := if_ibytes r + 1\<rparr>"
  have "slinput er FRAME_END r = sl_frame er ?r" using assms
    by (simp add: slinput_def line_up_def sl_abort_def FRAME_ESCAPE_def FRAME_END_def Let_def)
  then show ?thesis using assms by (intro exI [of _ ?r]) (simp add: same_input_def same_setup_def line_up_def)
qed

lemma frame_arrives:
  assumes r: "ready r" and env: "\<forall>m. se_mget er m" "\<forall>p. se_netisr er p" and p: "plain_ok er p"
  shows "\<exists>r1. sl_receive er (slip_escape p @ [FRAME_END]) r = Some r1 \<and> ready r1 \<and> sc_netisr r1 = sc_netisr r @ [p]"
proof -
  have l: "length (sc_data r) + length p \<le> SLMAX er" using r p by (simp add: ready_def plain_ok_def)
  obtain r1 where 1: "sl_receive er (slip_escape p) r = Some r1" "sc_data r1 = p" "same_input r r1"
    using sl_receive_escape [OF _ _ l] r by (auto simp: ready_def)
  have up: "line_up r1" using line_up_same r 1(3) by (auto simp: ready_def same_input_def)
  obtain r2 where 2: "slinput er FRAME_END r1 = sl_frame er r2" "same_input r1 r2" "sc_data r2 = sc_data r1" "line_up r2"
    using frame_char [OF up] by blast
  have "sc_data r2 = p" using 1(2) 2(3) by simp
  from plain_arrives [OF 2(4) this env p] obtain r3 where "sl_frame er r2 = Some r3" "ready r3" "sc_netisr r3 = sc_netisr r2 @ [p]" by blast
  then show ?thesis using 1 2 by (auto simp: sl_receive_append same_input_def)
qed

lemma end_mark:
  assumes "ready r"
  shows "\<exists>r1. sl_receive er [FRAME_END] r = Some r1 \<and> ready r1 \<and> sc_netisr r1 = sc_netisr r"
proof -
  obtain r1 where 1: "slinput er FRAME_END r = sl_frame er r1" "same_input r r1" "sc_data r1 = sc_data r" "line_up r1"
    using frame_char [of r er] assms unfolding ready_def by blast
  have "sl_frame er r1 = Some (sl_newpack r1)" using assms 1(3) by (simp add: sl_frame_def ready_def Let_def)
  then show ?thesis using 1 assms by (auto simp: ready_def sl_newpack_def line_up_def same_input_def)
qed

lemma framed_arrives:
  assumes env: "\<forall>m. se_mget er m" "\<forall>p. se_netisr er p"
  shows "framed D cs \<Longrightarrow> \<forall>p\<in>set D. plain_ok er p \<Longrightarrow> ready r \<Longrightarrow>
    \<exists>r1. sl_receive er cs r = Some r1 \<and> ready r1 \<and> sc_netisr r1 = sc_netisr r @ D"
proof (induction rule: framed.induct)
  case none
  then show ?case by simp
next
  case (frame D cs bs)
  obtain r1 where 1: "sl_receive er cs r = Some r1" "ready r1" "sc_netisr r1 = sc_netisr r @ D" using frame by auto
  obtain r2 where "sl_receive er (slip_escape bs @ [FRAME_END]) r1 = Some r2" "ready r2" "sc_netisr r2 = sc_netisr r1 @ [bs]"
    using frame_arrives [OF 1(2) env] frame.prems(1) by auto
  then show ?case using 1 by (simp add: sl_receive_append [of er cs])
next
  case (first D cs bs)
  obtain r1 where 1: "sl_receive er cs r = Some r1" "ready r1" "sc_netisr r1 = sc_netisr r @ D" using first by auto
  obtain r0 where 0: "sl_receive er [FRAME_END] r1 = Some r0" "ready r0" "sc_netisr r0 = sc_netisr r1" using end_mark [OF 1(2)] by blast
  obtain r2 where "sl_receive er (slip_escape bs @ [FRAME_END]) r0 = Some r2" "ready r2" "sc_netisr r2 = sc_netisr r0 @ [bs]"
    using frame_arrives [OF 0(2) env] first.prems(1) by auto
  moreover from this have "sl_receive er ([FRAME_END] @ slip_escape bs @ [FRAME_END]) r1 = Some r2"
    unfolding sl_receive_append [of er "[FRAME_END]"] 0(1) by simp
  ultimately show ?case using 0 1 unfolding sl_receive_append [of er cs] 1(1) by simp
qed

text \<open>What was given to the protocol stays.\<close>

lemma sl_frame_netisr:
  assumes "sl_frame env sc = Some sc1"
  shows "prefix (sc_netisr sc) (sc_netisr sc1)"
proof -
  have d: "prefix (sc_netisr s) (sc_netisr (sl_deliver env p s))" for p s
    by (auto simp: sl_deliver_def sl_error_def sl_newpack_def Let_def)
  have e: "prefix (sc_netisr sc) (sc_netisr s1)" if x: "sl_expand env ty bs en sc = Some s1" for ty bs en s1
  proof -
    obtain p c where "s1 = (let sc1 = sc\<lparr>sc_comp := c\<rparr> in if p = [] then sl_error sc1
                else sl_deliver env p (if en then sc1\<lparr>sc_flags := sc_flags sc1 OR SC_COMPRESS\<rparr> else sc1))"
      using x by (auto simp: sl_expand_def Let_def bind_eq_Some_conv)
    then show ?thesis using d [of "sc\<lparr>sc_comp := c\<rparr>" p] d [of "sc\<lparr>sc_comp := c, sc_flags := sc_flags sc OR SC_COMPRESS\<rparr>" p]
      by (auto simp: Let_def sl_error_def sl_newpack_def)
  qed
  show ?thesis using assms d [of sc] e by (auto simp: sl_frame_def Let_def sl_newpack_def sl_error_def split: if_splits)
qed

lemma slinput_netisr:
  assumes "slinput env c sc = Some sc1"
  shows "prefix (sc_netisr sc) (sc_netisr sc1)"
proof -
  let ?s = "sc\<lparr>sc_bytesrcvd := sc_bytesrcvd sc + 1, if_ibytes := if_ibytes sc + 1\<rparr>"
  obtain b s2 where a: "sl_abort env c ?s = (b, s2)" by (cases "sl_abort env c ?s")
  then have n: "sc_netisr s2 = sc_netisr sc" by (auto simp: sl_abort_def slclose_def Let_def split: if_splits)
  show ?thesis using assms a n sl_frame_netisr [of env s2 sc1]
    by (auto simp: slinput_def Let_def sl_error_def sl_newpack_def split: if_splits bool.splits)
qed

lemma sl_receive_netisr: "sl_receive env cs sc = Some sc1 \<Longrightarrow> prefix (sc_netisr sc) (sc_netisr sc1)"
proof (induction cs arbitrary: sc)
  case (Cons c cs)
  obtain s where "slinput env c sc = Some s" "sl_receive env cs s = Some sc1" using Cons.prems by (auto simp: bind_eq_Some_conv)
  then show ?case using Cons.IH slinput_netisr prefix_order.trans by blast
qed simp

section \<open>Runs\<close>

text \<open>
  A packet for \<open>sloutput\<close>, a call of \<open>slstart\<close> by the driver, a number of characters that reach the
  other end.  The environment of the sender says how many characters the driver takes.
\<close>

datatype sl_event = Output sl_env mem nat | Start sl_env | Carry nat

type_synonym sl_ends = "sl_softc \<times> nat \<times> sl_softc"

text \<open>The number counts the characters of \<open>sc_line\<close> that have arrived; the result are the packets accepted.\<close>

definition sl_do_event :: "sl_env \<Rightarrow> sl_event \<Rightarrow> sl_ends \<Rightarrow> ((bool \<times> 8 word list) list \<times> sl_ends) option" where
  "sl_do_event er ev x = (case x of (s, i, r) \<Rightarrow> (case ev of
     Output es ip n \<Rightarrow> Option.bind (sloutput es True ip n [] s) (\<lambda>(e, s1).
       Some (if e = 0 then [(ip ip_p = IPPROTO_TCP \<and> sl_interactive ip, mem_list ip 0 n)] else [], s1, i, r))
   | Start es \<Rightarrow> Some ([], slstart es s, i, r)
   | Carry m \<Rightarrow> (let cs = take m (drop i (sc_line s)) in
       Option.bind (sl_receive er cs r) (\<lambda>r1. Some ([], s, i + length cs, r1)))))"

primrec sl_events :: "sl_env \<Rightarrow> sl_event list \<Rightarrow> sl_ends \<Rightarrow> ((bool \<times> 8 word list) list \<times> sl_ends) option" where
  "sl_events er [] x = Some ([], x)"
| "sl_events er (ev # evs) x = Option.bind (sl_do_event er ev x) (\<lambda>(A, y). Option.bind (sl_events er evs y) (\<lambda>(A', z). Some (A @ A', z)))"

definition event_ok :: "sl_env \<Rightarrow> sl_event \<Rightarrow> bool" where
  "event_ok er ev \<longleftrightarrow> (case ev of Output es ip n \<Rightarrow> plain_ok er (mem_list ip 0 n) | _ \<Rightarrow> True)"

definition ends_inv :: "nat \<Rightarrow> sl_env \<Rightarrow> sl_softc \<Rightarrow> (bool \<times> 8 word list) list \<Rightarrow> 8 word list list \<Rightarrow> 8 word list list \<Rightarrow> 8 word list list \<Rightarrow> sl_ends \<Rightarrow> bool" where
  "ends_inv k er r0 A F B D x \<longleftrightarrow> (case x of (s, i, r) \<Rightarrow> sender k s F B D \<and> pqueue A F B D \<and> length F \<le> 32
     \<and> sc_carr s \<and> sc_flags s AND SC_COMPRESS = 0 \<and> sc_flags s AND SC_NOICMP = 0
     \<and> (\<forall>a\<in>set A. plain_ok er (snd a)) \<and> i \<le> length (sc_line s) \<and> sl_receive er (take i (sc_line s)) r0 = Some r)"

lemma pqueue_sent: "pqueue A F B D \<Longrightarrow> set D \<subseteq> snd ` set A"
proof -
  assume "pqueue A F B D"
  then obtain X Y where x: "of_class True A = X @ F" "of_class False A = Y @ B" "D \<in> shuffles X Y" using pqueue_order by blast
  have "set (of_class c A) \<subseteq> snd ` set A" for c by (auto simp: of_class_def)
  from this [of True] this [of False] show ?thesis using set_shuffles [OF x(3)] unfolding x(1,2) by auto
qed

lemma split_at: "L @ c = (take i L @ take m (drop i L)) @ drop m (drop i L) @ c"
proof -
  have "take i L @ take m (drop i L) @ drop m (drop i L) = L" by (metis append_take_drop_id)
  then show ?thesis by (metis append.assoc)
qed

lemma sl_event_inv:
  assumes inv: "ends_inv k er r0 A F B D x" and k: "32 \<le> k" and ev: "event_ok er ev" and r0: "ready r0"
    and env: "\<forall>m. se_mget er m" "\<forall>p. se_netisr er p"
  shows "\<exists>A' x' F' B' D'. sl_do_event er ev x = Some (A', x') \<and> ends_inv k er r0 (A @ A') F' B' D' x'"
proof -
  obtain s i r where x: "x = (s, i, r)" by (cases x)
  have h: "sender k s F B D" "pqueue A F B D" "length F \<le> 32" "sc_carr s" "sc_flags s AND SC_COMPRESS = 0" "sc_flags s AND SC_NOICMP = 0"
     "\<forall>a\<in>set A. plain_ok er (snd a)" "i \<le> length (sc_line s)" "sl_receive er (take i (sc_line s)) r0 = Some r"
    using inv by (simp_all add: ends_inv_def x)
  have keep: "i \<le> length (sc_line s') \<and> sl_receive er (take i (sc_line s')) r0 = Some r" if "prefix (sc_line s) (sc_line s')" for s'
    using that h(8,9) by (auto simp: prefix_def)
  show ?thesis
  proof (cases ev)
    case (Start es)
    obtain F' B' D' where t: "sender k (slstart es s) F' B' D'" "pqueue A F' B' D'" "same_setup s (slstart es s)"
      "prefix (sc_line s) (sc_line (slstart es s))" "length F' \<le> length F" using slstart_sender [OF h(1) k h(2)] by blast
    then show ?thesis using h keep [OF t(4)] Start
      by (intro exI [of _ "[]"] exI [of _ "(slstart es s, i, r)"] exI [of _ F'] exI [of _ B'] exI [of _ D'])
        (auto simp: sl_do_event_def x ends_inv_def same_setup_def)
  next
    case (Carry m)
    let ?cs = "take m (drop i (sc_line s))"
    have cs: "framed D (sl_sent s)" using h(1) by (simp add: sender_def)
    have "\<forall>p\<in>set D. plain_ok er p" using pqueue_sent [OF h(2)] h(7) by auto
    from framed_arrives [OF env cs this r0] obtain r1 where r1: "sl_receive er (sl_sent s) r0 = Some r1" by blast
    have "sl_sent s = (take i (sc_line s) @ ?cs) @ drop m (drop i (sc_line s)) @ c_chars (fst (sc_outq s))"
      unfolding sl_sent_def by (rule split_at)
    then have "sl_receive er ((take i (sc_line s) @ ?cs) @ drop m (drop i (sc_line s)) @ c_chars (fst (sc_outq s))) r0 = Some r1" using r1 by simp
    then obtain r2 where r2: "sl_receive er (take i (sc_line s) @ ?cs) r0 = Some r2" unfolding sl_receive_append [of er "take i (sc_line s) @ ?cs"]
      by (auto simp: bind_eq_Some_conv)
    then have c: "sl_receive er ?cs r = Some r2" using h(9) by (simp add: sl_receive_append)
    have "take (i + length ?cs) (sc_line s) = take i (sc_line s) @ ?cs" by (simp add: take_add min_def)
    then have "sl_receive er (take (i + length ?cs) (sc_line s)) r0 = Some r2" using r2 by simp
    then show ?thesis using h c Carry
      by (intro exI [of _ "[]"] exI [of _ "(s, i + length ?cs, r2)"] exI [of _ F] exI [of _ B] exI [of _ D])
        (auto simp: sl_do_event_def x ends_inv_def Let_def)
  next
    case (Output es ip n)
    let ?fast = "ip ip_p = IPPROTO_TCP \<and> sl_interactive ip" let ?p = "mem_list ip 0 n"
    have p: "plain_ok er ?p" using ev Output by (simp add: event_ok_def)
    have op: "sc_open s" using h(1) by (simp add: sender_def)
    obtain e s1 where q: "sl_enqueue es ?fast [?p] s = (e, s1)" by (cases "sl_enqueue es ?fast [?p] s")
    have o: "sloutput es True ip n [] s = Some (e, s1)" using op h(4-6) q by (auto simp: sloutput_def Let_def)
    show ?thesis
    proof (cases "?fast \<and> 32 \<le> length F")
      case True
      then have f: "32 \<le> length (sc_fastq s)" using h(1) by (simp add: sender_def)
      then have "e \<noteq> 0" "s1 = s\<lparr>sc_fastq_drops := sc_fastq_drops s + 1\<rparr>" using q True by (auto simp: sl_enqueue_def ENOBUFS_val_def)
      then show ?thesis using h o Output
        by (intro exI [of _ "[]"] exI [of _ "(s1, i, r)"] exI [of _ F] exI [of _ B] exI [of _ D])
          (auto simp: sl_do_event_def x ends_inv_def sender_def sl_sent_def outq_inv_def)
    next
      case False
      define s2 where "s2 = (if ?fast then s\<lparr>sc_fastq := sc_fastq s @ [[?p]]\<rparr> else s\<lparr>sc_snd := sc_snd s @ [[?p]]\<rparr>)"
      define F1 where "F1 = (if ?fast then F @ [?p] else F)" define B1 where "B1 = (if ?fast then B else B @ [?p])"
      have len: "length (sc_fastq s) = length F" using h(1) by (simp add: sender_def)
      have e: "e = 0" "s1 = (if c_chars (fst (sc_outq s2)) = [] then slstart es s2 else s2)"
        using q False len by (auto simp: sl_enqueue_def s2_def Let_def)
      have pq: "pqueue (A @ [(?fast, ?p)]) F1 B1 D" using h(2) by (auto simp: F1_def B1_def intro: pqueue.fast pqueue.slow)
      have s2: "sender k s2 F1 B1 D" "same_setup s s2" "sc_line s2 = sc_line s" "length F1 \<le> 32"
        using h(1,3) p False by (auto simp: s2_def F1_def B1_def sender_def sl_sent_def outq_inv_def same_setup_def plain_ok_def)
      obtain F' B' D' where t: "sender k s1 F' B' D'" "pqueue (A @ [(?fast, ?p)]) F' B' D'" "same_setup s2 s1" "prefix (sc_line s2) (sc_line s1)"
        "length F' \<le> length F1"
      proof (cases "c_chars (fst (sc_outq s2)) = []")
        case True
        then show ?thesis using slstart_sender [OF s2(1) k pq, of es] e(2) that by auto
      next
        case False
        then show ?thesis using e(2) that [of F1 B1 D] s2(1) pq by (simp add: same_setup_def)
      qed
      have "prefix (sc_line s) (sc_line s1)" using t(4) s2(3) by simp
      note kp = keep [OF this]
      show ?thesis
        by (intro exI [of _ "[(?fast, ?p)]"] exI [of _ "(s1, i, r)"] exI [of _ F'] exI [of _ B'] exI [of _ D'])
          (use h o Output e(1) t s2(2,4) kp p in \<open>auto simp: sl_do_event_def x ends_inv_def same_setup_def\<close>)
    qed
  qed
qed

lemma sl_events_inv:
  assumes k: "32 \<le> k" and r0: "ready r0" and env: "\<forall>m. se_mget er m" "\<forall>p. se_netisr er p"
  shows "ends_inv k er r0 A F B D x \<Longrightarrow> \<forall>ev\<in>set evs. event_ok er ev \<Longrightarrow>
    \<exists>A' x' F' B' D'. sl_events er evs x = Some (A', x') \<and> ends_inv k er r0 (A @ A') F' B' D' x'"
proof (induction evs arbitrary: A F B D x)
  case Nil
  then show ?case by (intro exI [of _ "[]"] exI [of _ x] exI [of _ F] exI [of _ B] exI [of _ D]) simp
next
  case (Cons ev evs)
  have "event_ok er ev" using Cons.prems(2) by simp
  from sl_event_inv [OF Cons.prems(1) k this r0 env] obtain A1 x1 F1 B1 D1 where
    1: "sl_do_event er ev x = Some (A1, x1)" "ends_inv k er r0 (A @ A1) F1 B1 D1 x1" by blast
  obtain A2 x2 F2 B2 D2 where "sl_events er evs x1 = Some (A2, x2)" "ends_inv k er r0 ((A @ A1) @ A2) F2 B2 D2 x2"
    using Cons.IH [OF 1(2)] Cons.prems(2) by auto
  then show ?case using 1(1) by (intro exI [of _ "A1 @ A2"] exI [of _ x2]) auto
qed

end
