(* ===== verification/If_sl_Claims.thy ===== *)
theory If_sl_Claims
  imports If_sl_Queues "HOL-Library.Code_Target_Nat"
begin

text \<open>
  The promises of the serial line: compression and framing deliver what was sent, the queues
  keep within their bounds, and the places where the code does not keep them.
\<close>

section \<open>Packets and ends for the examples\<close>

definition in_mem :: "8 word list \<Rightarrow> mem" where
  "in_mem p = line_buf p (\<lambda>_. 0)"

definition set_cksum :: "8 word list \<Rightarrow> 8 word list" where
  "set_cksum p = (let s = ip_cksum (in_mem p) 10 in p[10 := lo8 s, 11 := hi8 s])"

definition tcp_packet :: "8 word \<Rightarrow> 8 word \<Rightarrow> 8 word \<Rightarrow> 8 word \<Rightarrow> 8 word \<Rightarrow> 8 word \<Rightarrow> 8 word list \<Rightarrow> 8 word list" where
  "tcp_packet host port ident seq urp flags data =
     set_cksum ([0x45, 0, 0, of_nat (40 + length data), 0, ident, 0, 0, 64, 6, 0, 0, 10, 0, 0, 1, 10, 0, 0, host,
       0, port, 4, 0, 0, 0, 0, seq, 0, 0, 0, 1, 0x50, flags, 0x10, 0, 0, 0, 0, urp] @ data)"

definition busy_env :: sl_env where
  "busy_env = \<lparr>se_mclbytes = 2048, se_oproc = (\<lambda>q. 0), se_stale = (\<lambda>_. 0), se_mget = (\<lambda>_. True),
     se_netisr = (\<lambda>_. True), se_now = 0\<rparr>"

definition ready_env :: sl_env where
  "ready_env = busy_env\<lparr>se_oproc := (\<lambda>q. length (c_chars q))\<rparr>"

definition line_end :: sl_softc where
  "line_end = \<lparr>sc_open = True, sc_carr = True, sc_fastq = [], sc_snd = [], sc_fastq_drops = 0, sc_outq = (empty_clist, 30),
     sc_line = [], sc_netisr = [], sc_data = [], sc_escape = False, sc_flags = SC_COMPRESS, sc_comp = sl_compress_init,
     sc_bytessent = 0, sc_bytesrcvd = 0, sc_lasttime = 0, sc_starttime = 0, sc_abortcount = 0, if_collisions = 0,
     if_opackets = 0, if_obytes = 0, if_ipackets = 0, if_ibytes = 0, if_ierrors = 0, if_iqdrops = 0\<rparr>"

section \<open>Compression\<close>

text \<open>C19: what \<open>sl_compress_tcp\<close> makes of any sequence of valid datagrams without urgent
  data, \<open>sl_uncompress_tcp\<close> at the other end turns back into the same bytes, from the tables
  as \<open>sl_compress_init\<close> leaves them.\<close>

theorem sl_link_roundtrip:
  assumes "\<forall>x\<in>set ps. item_ok x"
  shows "sl_link sl_compress_init sl_compress_init ps = Some (map item_bytes ps)"
proof -
  have "no_urg sl_compress_init" by (auto simp: no_urg_def sl_compress_init_def)
  from sl_link_ok [OF sl_sync_init this assms] show ?thesis .
qed

definition ex_items :: "line_item list" where
  "ex_items = map (\<lambda>p. (in_mem p, length p, True, \<lambda>_. 0))
     [tcp_packet 2 80 1 1 0 0x10 [1], tcp_packet 2 80 2 2 0 0x18 [4], tcp_packet 3 23 3 1 0 0x10 []]"

lemma ex_items_ok: "list_all item_ok ex_items"
  by code_simp

theorem sl_link_roundtrip_witness:
  "list_all item_ok ex_items
   \<and> sl_link sl_compress_init sl_compress_init ex_items = Some (map item_bytes ex_items)"
  using sl_link_roundtrip [of ex_items] ex_items_ok by (simp add: list_all_iff)

section \<open>The line\<close>





text \<open>With compression on, each packet carried over before the next one is given to \<open>sloutput\<close>: packets
  arrive in order and byte for byte.  TCP packets carry no urgent data.\<close>

theorem sl_wire_delivers:
  assumes "sc_open s" "sc_carr s" "sc_flags s AND SC_COMPRESS \<noteq> 0" "sc_flags s AND SC_NOICMP = 0"
    and "sc_fastq s = []" "sc_snd s = []" "sc_line s = []" "sc_outq s = (empty_clist, k)" "CLISTRESERVE + SLMTU \<le> CBSIZE * k"
    and "line_up r" "sc_flags r AND SC_COMPRESS \<noteq> 0"
    and "\<forall>m. se_mget er m" "\<forall>p. se_netisr er p" "\<forall>(ip, n)\<in>set ps. wire_ok er ip n"
  shows "\<exists>s1 r1. sl_wire es er ps (slinit s) (slinit r) = Some (s1, r1)
    \<and> sc_netisr r1 = sc_netisr r @ map (\<lambda>(ip, n). mem_list ip 0 n) ps"
proof -
  have "wire_inv (slinit s) (slinit r)" by (rule wire_inv_init [OF assms(1-11)])
  from sl_wire_ok [OF assms(12,13) this assms(14), of es] obtain s1 r1 where
    "sl_wire es er ps (slinit s) (slinit r) = Some (s1, r1)"
    "sc_netisr r1 = sc_netisr (slinit r) @ map (\<lambda>(ip, n). mem_list ip 0 n) ps" by blast
  then show ?thesis by (simp add: slinit_def)
qed

definition ex_packets :: "(mem \<times> nat) list" where
  "ex_packets = map (\<lambda>p. (in_mem p, length p))
     [tcp_packet 2 80 1 1 0 0x10 [0xc0, 0xdb], tcp_packet 2 80 2 3 0 0x18 [4],
      set_cksum [0x45, 0, 0, 22, 0, 3, 0, 0, 64, 17, 0, 0, 10, 0, 0, 1, 10, 0, 0, 4, 0xc0, 0xdb],
      tcp_packet 2 80 4 4 0 0x10 []]"

lemma ex_packets_ok: "list_all (\<lambda>(ip, n). wire_ok ready_env ip n) ex_packets"
  by code_simp

theorem sl_wire_delivers_witness:
  "\<exists>s1 r1. sl_wire busy_env ready_env ex_packets (slinit line_end) (slinit line_end) = Some (s1, r1)
    \<and> sc_netisr r1 = map (\<lambda>(ip, n). mem_list ip 0 n) ex_packets"
proof -
  have e: "\<forall>m. se_mget ready_env m" "\<forall>p. se_netisr ready_env p"
    by (simp_all add: ready_env_def busy_env_def)
  have f: "\<forall>(ip, n)\<in>set ex_packets. wire_ok ready_env ip n" using ex_packets_ok by (simp add: list_all_iff)
  have l: "sc_open line_end" "sc_carr line_end" "sc_flags line_end AND SC_COMPRESS \<noteq> 0" "sc_flags line_end AND SC_NOICMP = 0"
    "sc_fastq line_end = []" "sc_snd line_end = []" "sc_line line_end = []" "sc_outq line_end = (empty_clist, 30)"
    "CLISTRESERVE + SLMTU \<le> CBSIZE * 30" "line_up line_end" "sc_netisr line_end = []"
    by (simp_all add: line_end_def line_up_def SC_COMPRESS_def SC_NOICMP_def SC_ABORT_def CLISTRESERVE_def SLMTU_def CBSIZE_def)
  show ?thesis using sl_wire_delivers [OF l(1-10) l(3) e f, of busy_env] l(11) by simp
qed


section \<open>The queues\<close>

text \<open>Packets in the interactive queue, and characters and blocks in the output queue.\<close>

definition sl_queues :: "nat \<Rightarrow> sl_softc \<Rightarrow> bool" where
  "sl_queues k sc \<longleftrightarrow> outq_inv k sc \<and> length (sc_fastq sc) \<le> 32"

lemma slstart_fastq: "length (sc_fastq (slstart env sc)) \<le> length (sc_fastq sc)"
proof (induction env sc rule: slstart.induct)
  case (1 env sc)
  obtain stop sc1 where kick: "slstart_kick env sc = (stop, sc1)" by (cases "slstart_kick env sc")
  have k1: "sc_fastq sc1 = sc_fastq sc" using slstart_kick_queues [of env sc] kick by simp
  show ?case
  proof (cases "stop \<or> \<not> sc_open sc1 \<or> sl_dequeue sc1 = None")
    case True
    then show ?thesis using kick k1 by (subst slstart.simps) (auto split: bool.splits)
  next
    case False
    then obtain m sc2 where d: "sl_dequeue sc1 = Some (m, sc2)" "stop = False" by auto
    have k2: "length (sc_fastq sc2) \<le> length (sc_fastq sc1)" using d(1) by (auto simp: sl_dequeue_def split: list.splits)
    note IH = 1(1) [OF kick [symmetric] d(2) _ d(1) refl] 1(2) [OF kick [symmetric] d(2) _ d(1) refl]
    show ?thesis using False kick d IH k1 k2 by (subst slstart.simps) auto
  qed
qed

text \<open>\<open>sloutput\<close> loses and invents no block of the terminal's queue and never lets the
  interactive queue grow past its 32 packets, whatever the packet and however much the
  driver sends at once; and so does \<open>slstart\<close> when the driver calls it.\<close>

theorem sloutput_keeps_queues:
  assumes "sl_queues k sc" "sloutput env af_inet ip m_len rest sc = Some (e, sc1)"
  shows "sl_queues k sc1 \<and> sl_queues k (slstart env' sc1)"
proof -
  have start: "sl_queues k s \<Longrightarrow> sl_queues k (slstart env s)" for env s
    using slstart_inv slstart_fastq [of env s] by (auto simp: sl_queues_def)
  have enq: "sl_queues k s1" if "sl_enqueue env fast m s = (d, s1)" "sl_queues k s" for fast m s d s1
    using that start [of "s\<lparr>sc_fastq := sc_fastq s @ [m]\<rparr>" env] start [of "s\<lparr>sc_snd := sc_snd s @ [m]\<rparr>" env]
    by (auto simp: sl_enqueue_def Let_def sl_queues_def outq_inv_def split: if_splits)
  have "sl_queues k (sc\<lparr>sc_comp := c\<rparr>)" for c using assms(1) by (simp add: sl_queues_def outq_inv_def)
  then have "sl_queues k sc1"
    using assms enq by (auto simp: sloutput_def Let_def bind_eq_Some_conv split: if_splits)
  then show ?thesis using start by blast
qed

definition ex_udp :: mem where
  "ex_udp = in_mem [0x45, 0, 0, 20, 0, 3, 0, 0, 64, 17, 0, 0, 10, 0, 0, 1, 10, 0, 0, 4]"

theorem sloutput_keeps_queues_witness:
  "\<exists>sc1. sloutput busy_env True ex_udp 20 [] line_end = Some (0, sc1) \<and> sl_queues 30 sc1 \<and> sl_queues 30 (slstart ready_env sc1)"
proof -
  obtain e sc1 where r: "sl_enqueue busy_env False [mem_list ex_udp 0 20] line_end = (e, sc1)" by fastforce
  have "e = 0" using r by (simp add: sl_enqueue_def Let_def)
  moreover have "ex_udp ip_p = 17" by (simp add: ex_udp_def in_mem_def line_buf_def)
  ultimately have o: "sloutput busy_env True ex_udp 20 [] line_end = Some (0, sc1)"
    using r by (simp add: sloutput_def line_end_def IPPROTO_TCP_def SC_NOICMP_def SC_COMPRESS_def)
  have "sl_queues 30 line_end" by (simp add: sl_queues_def outq_inv_def line_end_def c_inv_empty)
  from sloutput_keeps_queues [OF this o] o show ?thesis by blast
qed

section \<open>What goes wrong\<close>

text \<open>The first compressed packet of a session, with no connection number in it, makes the
  receiver use its table far outside: \<open>sl_compress_init\<close> sets \<open>last_recv\<close> to 255 and leaves
  \<open>SLF_TOSS\<close> clear.
\<close>

theorem sl_first_packet_out_of_bounds:
  assumes "line_up r" "sc_flags r AND SC_COMPRESS \<noteq> 0" "c AND 0x80 \<noteq> 0" "c AND NEW_C = 0"
    and "2 \<le> length bs" "length bs < SLMAX er"
  shows "sl_receive er ([FRAME_END] @ slip_escape (c # bs) @ [FRAME_END]) (slinit r) = None"
proof -
  have up: "line_up (slinit r)" "sc_data (slinit r) = []" using assms(1) by (simp_all add: line_up_def slinit_def)
  from sl_receive_frame [OF up, of "c # bs" er] assms(6) obtain r0 where
    r0: "sl_receive er ([FRAME_END] @ slip_escape (c # bs) @ [FRAME_END]) (slinit r) = sl_frame er r0"
    "sc_data r0 = c # bs" "same_input (slinit r) r0" by auto
  have s: "sc_flags r0 AND SC_COMPRESS \<noteq> 0" "sc_comp r0 = sl_compress_init"
    using r0(3) assms(2) by (simp_all add: same_input_def same_setup_def slinit_def)
  have k: "(c AND 0xf0) AND 0x80 \<noteq> 0" "c AND 0xf0 \<noteq> 0x40"
  proof -
    have "(c AND 0xf0) AND 0x80 = c AND 0x80" by (simp add: and.assoc)
    then show "(c AND 0xf0) AND 0x80 \<noteq> 0" "c AND 0xf0 \<noteq> 0x40" using assms(3) by auto
  qed
  have "sl_uncompress_tcp b n TYPE_COMPRESSED_TCP sl_compress_init = None" if "b 0 = c" for b n
    using that assms(4)
    by (simp add: sl_uncompress_tcp_def sl_compress_init_def uncompress_apply_def MAX_STATES_def
        TYPE_COMPRESSED_TCP_def TYPE_UNCOMPRESSED_TCP_def)
  then have "sl_frame er r0 = None"
    using r0(2) s k assms(5) by (simp add: sl_frame_def Let_def sl_expand_def)
  then show ?thesis using r0(1) by simp
qed

theorem sl_first_packet_out_of_bounds_witness:
  "sl_receive ready_env ([FRAME_END] @ slip_escape [0x80, 0, 0] @ [FRAME_END]) (slinit line_end) = None"
  by (rule sl_first_packet_out_of_bounds)
     (simp_all add: line_up_def line_end_def SC_COMPRESS_def SC_ABORT_def NEW_C_def SLMAX_def ready_env_def
       busy_env_def BUFOFFSET_def)

end
