(* ===== verification/Slcompress_Faults.thy ===== *)
theory Slcompress_Faults
  imports If_sl_Claims
begin

text \<open>
  What a received packet takes from the saved header, and two ways in which that is not what
  was sent.
\<close>

lemma DECODE_below:
  "j < f \<Longrightarrow> fst (DECODEL b f st) j = fst st j" "j < f \<Longrightarrow> fst (DECODES b f st) j = fst st j"
  "j < f \<Longrightarrow> fst (DECODEU b f st) j = fst st j" "f + 1 < j \<Longrightarrow> fst (DECODES b f st) j = fst st j"
  by (cases st; simp add: DECODEL_def DECODES_def DECODEU_def put32_def put16_def split: prod.split)+

text \<open>The addresses of the saved header are those of the packet.\<close>

lemma uncompress_fields_address:
  assumes "5 \<le> ip_hl (fst st)" "12 \<le> j" "j < 20"
  shows "fst (uncompress_fields b changes hl st) j = fst st j"
proof -
  let ?t = "4 * ip_hl (fst st)"
  have j: "j < ?t + k" for k using assms by simp
  have I: "fst (if c then DECODES b ip_id s else (put16 ip_id v (fst s), snd s)) j = fst s j" for c s v
    using assms(2) DECODE_below(4) [of ip_id j b s] by (auto simp: put16_byte)
  have P: "put32 (?t + k) v m j = m j" "(m(?t + k := w)) j = m j" for k v m w
    using j [of k] by (simp_all add: put32_def put16_byte)
  have D: "fst (if c then D b (?t + k) s else s) j = fst s j" if "D = DECODEL \<or> D = DECODES \<or> D = DECODEU" for c k s D
    using that by (elim disjE) (simp_all add: DECODE_below(1-3) [OF j])
  have "j \<noteq> ?t + th_flags" using j [of th_flags] by simp
  then show ?thesis
    unfolding uncompress_fields_def Let_def I
    by (simp add: D DECODE_below(1-3) [OF j] P j)
qed


lemma uncompress_fields_special:
  assumes "5 \<le> ip_hl (fst st)" "changes AND SPECIALS_MASK = SPECIAL_I \<or> changes AND SPECIALS_MASK = SPECIAL_D"
  shows "fst (uncompress_fields b changes hl st) (4 * ip_hl (fst st) + th_flags) = fst st (4 * ip_hl (fst st) + th_flags)"
proof -
  let ?j = "4 * ip_hl (fst st) + th_flags"
  have I: "fst (if c then DECODES b ip_id s else (put16 ip_id v (fst s), snd s)) ?j = fst s ?j" for c s v
    using assms(1) DECODE_below(4) [of ip_id ?j b s] by (auto simp: put16_byte)
  show ?thesis
    unfolding uncompress_fields_def Let_def I using assms(2) by (auto simp: put32_def put16_byte)
qed

lemma ip_hl_put16: "0 < i \<Longrightarrow> ip_hl (put16 i v m) = ip_hl m"
  by (simp add: ip_hl_def put16_byte)

text \<open>What an accepted packet has of the saved header.\<close>

lemma uncompress_apply_shape:
  assumes "uncompress_apply b len changes cp r = Some (p, r1)" "p \<noteq> []"
    and "cs = rstate r ! unat (last_recv r)" "5 \<le> ip_hl (cs_hdr cs)" "t = 4 * ip_hl (cs_hdr cs)" "t + 20 \<le> cs_hlen cs"
  shows "last_recv r1 = last_recv r" "t + 20 \<le> length p" "12 \<le> j \<Longrightarrow> j < 20 \<Longrightarrow> p ! j = cs_hdr cs j"
    and "changes AND SPECIALS_MASK = SPECIAL_I \<or> changes AND SPECIALS_MASK = SPECIAL_D \<Longrightarrow>
      p ! (t + th_flags) = (if changes AND TCP_PUSH_BIT \<noteq> 0 then cs_hdr cs (t + th_flags) OR TH_PUSH
        else cs_hdr cs (t + th_flags) AND NOT TH_PUSH)"
proof -
  define f where "f = (if changes AND TCP_PUSH_BIT \<noteq> 0 then cs_hdr cs (t + th_flags) OR TH_PUSH
        else cs_hdr cs (t + th_flags) AND NOT TH_PUSH)"
  define h2 where "h2 = (put16 (t + th_sum) (get16 b cp) (cs_hdr cs))(t + th_flags := f)"
  obtain h3 cp3 where h3: "uncompress_fields b changes (cs_hlen cs) (h2, cp + 2) = (h3, cp3)" by fastforce
  define h4 where "h4 = put16 ip_len (of_nat (len - cp3 + cs_hlen cs)) h3"
  have e: "put16 (t + th_sum) (get16 b cp) (cs_hdr cs) (t + th_flags) = cs_hdr cs (t + th_flags)"
    by (simp add: put16_byte)
  have A: "uncompress_apply b len changes cp r
     = (if unat (last_recv r) \<ge> MAX_STATES then None
        else if len < cp3 then Some (sl_bad (rstate_hdr (unat (last_recv r)) h3 r))
        else Some (uncompress_packet b cp3 len cs h4, rstate_hdr (unat (last_recv r)) h4 r))"
    unfolding uncompress_apply_def Let_def assms(3) [symmetric] assms(5) [symmetric] e f_def [symmetric] h2_def [symmetric] h3 prod.case h4_def [symmetric]
    by (simp add: linorder_not_less)
  have R: "p = uncompress_packet b cp3 len cs h4" "r1 = rstate_hdr (unat (last_recv r)) h4 r"
    using assms(1,2) unfolding A by (auto simp: sl_bad_def split: if_splits)
  show "last_recv r1 = last_recv r" by (simp add: R(2) rstate_hdr_def)
  show "t + 20 \<le> length p" using assms(6) by (simp add: R(1) uncompress_packet_def Let_def)
  have p: "p ! k = h3 k" if "12 \<le> k" "k < t + 20" for k
    using that assms(6) by (simp add: R(1) uncompress_packet_def Let_def put_le16_def put16_byte h4_def)
  have hl: "ip_hl h2 = ip_hl (cs_hdr cs)" using assms(4,5) by (simp add: h2_def ip_hl_def put16_byte)
  then have five: "5 \<le> ip_hl (fst (h2, cp + 2))" using assms(4) by simp
  have t20: "20 \<le> t" using assms(4,5) by simp
  show "p ! j = cs_hdr cs j" if "12 \<le> j" "j < 20"
    using uncompress_fields_address [OF five that, of b changes "cs_hlen cs"] h3 p [of j] that t20
    by (simp add: h2_def put16_byte)
  show "p ! (t + th_flags) = (if changes AND TCP_PUSH_BIT \<noteq> 0 then cs_hdr cs (t + th_flags) OR TH_PUSH
        else cs_hdr cs (t + th_flags) AND NOT TH_PUSH)"
    if "changes AND SPECIALS_MASK = SPECIAL_I \<or> changes AND SPECIALS_MASK = SPECIAL_D"
    using uncompress_fields_special [OF five that, of b "cs_hlen cs"] h3 p [of "t + th_flags"] t20 hl assms(5)
    by (simp add: h2_def f_def)
qed


lemma uncompress_implicit:
  assumes "sl_uncompress_tcp b len TYPE_COMPRESSED_TCP r = Some (p, r1)" "p \<noteq> []" "b 0 AND NEW_C = 0"
  shows "uncompress_apply b len (b 0) 1 (r\<lparr>sls_compressedin := sls_compressedin r + 1\<rparr>) = Some (p, r1)"
  using assms by (auto simp: sl_uncompress_tcp_def Let_def TYPE_COMPRESSED_TCP_def TYPE_UNCOMPRESSED_TCP_def split: if_splits)

definition ex_sync :: "8 word list" where
  "ex_sync = (tcp_packet 2 80 1 1 0 0x30 [1])[9 := 3]"

definition ex_implicit :: "8 word list" where
  "ex_implicit = [0x0f, 0, 0, 2]"

lemma ex_run:
  obtains pa r1 r2 where
    "sl_uncompress_tcp (in_mem ex_sync) 41 TYPE_UNCOMPRESSED_TCP sl_compress_init = Some (pa, r1)" "pa \<noteq> []"
    "sl_uncompress_tcp (in_mem ex_implicit) 4 TYPE_COMPRESSED_TCP r1 = Some (tcp_packet 2 80 2 2 0 0x30 [2], r2)"
    "ip_hl (cs_hdr (rstate r1 ! unat (last_recv r1))) = 5" "cs_hlen (rstate r1 ! unat (last_recv r1)) = 40"
    "cs_hdr (rstate r1 ! unat (last_recv r1)) 33 AND TH_URG \<noteq> 0"
proof -
  have "case sl_uncompress_tcp (in_mem ex_sync) 41 TYPE_UNCOMPRESSED_TCP sl_compress_init of
      None \<Rightarrow> False
    | Some (pa, r1) \<Rightarrow> pa \<noteq> []
        \<and> (let cs = rstate r1 ! unat (last_recv r1) in
             ip_hl (cs_hdr cs) = 5 \<and> cs_hlen cs = 40 \<and> cs_hdr cs 33 AND TH_URG \<noteq> 0)
        \<and> (case sl_uncompress_tcp (in_mem ex_implicit) 4 TYPE_COMPRESSED_TCP r1 of
             None \<Rightarrow> False | Some (pb, r2) \<Rightarrow> pb = tcp_packet 2 80 2 2 0 0x30 [2])"
    by code_simp
  then show ?thesis using that by (auto simp: Let_def split: option.splits)
qed

lemma ex_parts:
  "in_mem ex_implicit 0 AND NEW_C = 0" "in_mem ex_implicit 0 AND SPECIALS_MASK = SPECIAL_D"
  "5 \<le> ip_hl (in_mem ex_sync)" "5 \<le> tcp_hl (in_mem ex_sync) (4 * ip_hl (in_mem ex_sync))"
  by code_simp+

lemma tcp_packet_ne [simp]: "tcp_packet host port ident seq urp flags data \<noteq> []"
  by (simp add: tcp_packet_def set_cksum_def Let_def)

text \<open>A packet without a connection number goes to the connection of the packet before it on
  the line, whichever packet the sender compressed before it: it has the addresses of the
  uncompressed packet that came last.  \<open>sloutput\<close> compresses when it queues, and \<open>slstart\<close>
  sends the interactive queue first, so that the two orders differ.
\<close>

theorem sl_implicit_follows_the_line:
  assumes "sl_uncompress_tcp a la TYPE_UNCOMPRESSED_TCP r = Some (pa, r1)" "pa \<noteq> []" "length (rstate r) = MAX_STATES"
    and "5 \<le> ip_hl a" "5 \<le> tcp_hl a (4 * ip_hl a)"
    and "sl_uncompress_tcp b lb TYPE_COMPRESSED_TCP r1 = Some (pb, r2)" "pb \<noteq> []" "b 0 AND NEW_C = 0"
    and "12 \<le> j" "j < 20"
  shows "pb ! j = a j"
proof -
  let ?i = "unat (a ip_p)" and ?hlen = "4 * (ip_hl a + tcp_hl a (4 * ip_hl a))"
  define ip where "ip = a(ip_p := IPPROTO_TCP)"
  have hl: "ip_hl ip = ip_hl a" "tcp_hl ip (4 * ip_hl a) = tcp_hl a (4 * ip_hl a)"
    using assms(4) by (simp_all add: ip_def ip_hl_def tcp_hl_def)
  have i: "?i < MAX_STATES" and r1: "last_recv r1 = a ip_p"
    "rstate r1 ! ?i = (rstate r ! ?i)\<lparr>cs_hdr := put16 ip_sum 0 (bcopy ?hlen ip (cs_hdr (rstate r ! ?i))), cs_hlen := ?hlen\<rparr>"
    using assms(1-3) hl
    by (auto simp: sl_uncompress_tcp_def uncompress_sync_def sl_bad_def Let_def ip_def [symmetric] split: if_splits)
  define cs where "cs = rstate r1 ! unat (last_recv r1)"
  have h: "cs_hdr cs k = (if k = ip_sum \<or> k = ip_sum + 1 then 0 else ip k)" if "k < ?hlen" for k
    using r1 that by (simp add: cs_def put16_byte bcopy_def hi8_def lo8_def)
  have cs: "5 \<le> ip_hl (cs_hdr cs)" "4 * ip_hl (cs_hdr cs) + 20 \<le> cs_hlen cs"
    using h [of 0] hl(1) assms(4,5) r1 by (simp_all add: ip_hl_def cs_def)
  from uncompress_apply_shape(3) [OF uncompress_implicit [OF assms(6-8)] assms(7) _ cs(1) refl cs(2) assms(9,10)] cs_def
  have "pb ! j = cs_hdr cs j" by simp
  then show ?thesis using h [of j] assms(4,5,9,10) by (simp add: ip_def)
qed

theorem sl_implicit_follows_the_line_witness:
  "tcp_packet 2 80 2 2 0 0x30 [2] ! 19 = in_mem ex_sync 19"
proof -
  obtain pa r1 r2 where r: "sl_uncompress_tcp (in_mem ex_sync) 41 TYPE_UNCOMPRESSED_TCP sl_compress_init = Some (pa, r1)" "pa \<noteq> []"
    "sl_uncompress_tcp (in_mem ex_implicit) 4 TYPE_COMPRESSED_TCP r1 = Some (tcp_packet 2 80 2 2 0 0x30 [2], r2)"
    by (rule ex_run)
  have l: "length (rstate sl_compress_init) = MAX_STATES" by (simp add: sl_compress_init_def)
  show ?thesis
    by (rule sl_implicit_follows_the_line [OF r(1,2) l ex_parts(3,4) r(3) tcp_packet_ne ex_parts(1)]) simp_all
qed

text \<open>The special encodings leave the urgent flag alone: a packet in one of them is delivered
  with \<open>TH_URG\<close> whenever the saved header has it, although the sender uses them only for
  packets without urgent data.
\<close>

theorem sl_special_keeps_urgent:
  assumes "sl_uncompress_tcp b len TYPE_COMPRESSED_TCP r = Some (p, r1)" "p \<noteq> []" "b 0 AND NEW_C = 0"
    and "b 0 AND SPECIALS_MASK = SPECIAL_I \<or> b 0 AND SPECIALS_MASK = SPECIAL_D"
    and "cs = rstate r ! unat (last_recv r)" "t = 4 * ip_hl (cs_hdr cs)" "5 \<le> ip_hl (cs_hdr cs)" "t + 20 \<le> cs_hlen cs"
    and "cs_hdr cs (t + th_flags) AND TH_URG \<noteq> 0"
  shows "p ! (t + th_flags) AND TH_URG \<noteq> 0"
proof -
  have m: "(x OR TH_PUSH) AND TH_URG = x AND TH_URG" "(x AND NOT TH_PUSH) AND TH_URG = x AND TH_URG" for x :: "8 word"
    by (simp_all add: TH_PUSH_def TH_URG_def bit.conj_disj_distrib2 and.assoc)
  have f: "p ! (t + th_flags) = (if b 0 AND TCP_PUSH_BIT \<noteq> 0 then cs_hdr cs (t + th_flags) OR TH_PUSH
        else cs_hdr cs (t + th_flags) AND NOT TH_PUSH)"
    by (rule uncompress_apply_shape(4) [OF uncompress_implicit [OF assms(1-3)] assms(2) _ assms(7,6,8,4)])
       (simp add: assms(5))
  show ?thesis unfolding f using m assms(9) by simp
qed


theorem sl_special_keeps_urgent_witness:
  "tcp_packet 2 80 2 2 0 0x30 [2] ! 33 AND TH_URG \<noteq> 0"
proof -
  obtain pa r1 r2 where r:
    "sl_uncompress_tcp (in_mem ex_implicit) 4 TYPE_COMPRESSED_TCP r1 = Some (tcp_packet 2 80 2 2 0 0x30 [2], r2)"
    "ip_hl (cs_hdr (rstate r1 ! unat (last_recv r1))) = 5" "cs_hlen (rstate r1 ! unat (last_recv r1)) = 40"
    "cs_hdr (rstate r1 ! unat (last_recv r1)) 33 AND TH_URG \<noteq> 0"
    by (rule ex_run)
  have "tcp_packet 2 80 2 2 0 0x30 [2] ! (20 + th_flags) AND TH_URG \<noteq> 0"
    by (rule sl_special_keeps_urgent [OF r(1) tcp_packet_ne ex_parts(1) disjI2 [OF ex_parts(2)] refl]) (use r in simp_all)
  then show ?thesis by simp
qed

end
