(* ===== verification/Rmap.thy ===== *)
theory Rmap
  imports OSF_Prelude
begin

text \<open>
  Resource maps, \<open>bsd/subr_rmap.c\<close> with \<open>sys/map.h\<close>, without \<open>USE_MACH_MAPS\<close>: first-fit
  allocation of address ranges from a fixed array of free segments.

  The array is dense and ends with a segment of size 0; the model keeps the segments in
  front of it, and in \<open>m_limit\<close> the number of slots up to the limit, the delimiter's
  included.  Addresses and sizes are C \<open>long\<close>s.  The operations compute with unbounded integers,
  which is the code as long as no segment and no range asked for reaches the largest \<open>long\<close>;
  \<open>rmfree_long\<close> is \<open>rmfree\<close> with the wrap-around written out, and agrees with it there.
\<close>

record mapent =
  m_size :: int
  m_addr :: int

record rmap =
  m_limit :: nat
  m_ents :: "mapent list"
  m_lost :: "mapent list"  \<comment> \<open>segments reported as lost\<close>

definition seg :: "int \<Rightarrow> int \<Rightarrow> mapent" where
  "seg a s = \<lparr>m_size = s, m_addr = a\<rparr>"

definition m_end :: "mapent \<Rightarrow> int" where
  "m_end b = m_addr b + m_size b"

text \<open>\<open>panic\<close>, and a write in front of the array.\<close>

datatype rm_error = RmPanic | RmOutside

text \<open>One of the \<open>mapsize\<close> slots is the map itself.  The map starts zeroed.\<close>

definition rminit :: "int \<Rightarrow> int \<Rightarrow> nat \<Rightarrow> rmap" where
  "rminit sz addr mapsize = \<lparr>m_limit = mapsize - 1, m_ents = (if sz = 0 then [] else [seg addr sz]), m_lost = []\<rparr>"

text \<open>The search of \<open>rmalloc\<close>: the first segment that is large enough is cut at its front.\<close>

fun first_fit :: "int \<Rightarrow> mapent list \<Rightarrow> (int \<times> mapent list) option" where
  "first_fit sz [] = None"
| "first_fit sz (bp # bs) =
     (if m_size bp \<ge> sz
      then Some (m_addr bp,
        if m_size bp - sz = 0 then bs else seg (m_addr bp + sz) (m_size bp - sz) # bs)
      else map_option (\<lambda>(a, bs1). (a, bp # bs1)) (first_fit sz bs))"

definition rmalloc :: "rmap \<Rightarrow> int \<Rightarrow> rm_error + int \<times> rmap" where
  "rmalloc mp sz =
     (if sz \<le> 0 then Inl RmPanic
      else case first_fit sz (m_ents mp) of
        None \<Rightarrow> Inr (0, mp)
      | Some (addr, bs) \<Rightarrow> Inr (addr, mp\<lparr>m_ents := bs\<rparr>))"

text \<open>
  A new segment between two others; when the delimiter has no slot left, the last but one
  segment is given up.
\<close>

definition rm_insert :: "rmap \<Rightarrow> mapent list \<Rightarrow> mapent list \<Rightarrow> int \<Rightarrow> int \<Rightarrow> rm_error + rmap" where
  "rm_insert mp left right addr sz =
     (let bs = left @ seg addr sz # right; n = length bs in
      if n + 1 > m_limit mp
      then (if n < 2 then Inl RmOutside
            else Inr (mp\<lparr>m_ents := take (n - 2) bs @ [last bs], m_lost := m_lost mp @ [bs ! (n - 2)]\<rparr>))
      else Inr (mp\<lparr>m_ents := bs\<rparr>))"

text \<open>
  \<open>left\<close> are the segments in front of the place where the search of \<open>rmfree\<close> ends.
\<close>

definition rmfree :: "rmap \<Rightarrow> int \<Rightarrow> int \<Rightarrow> rm_error + rmap" where
  "rmfree mp sz addr =
     (if addr = 0 \<or> sz \<le> 0 then Inl RmPanic
      else
        let left = takeWhile (\<lambda>b. m_addr b \<le> addr) (m_ents mp);
            right = dropWhile (\<lambda>b. m_addr b \<le> addr) (m_ents mp)
        in if left \<noteq> [] \<and> m_end (last left) \<ge> addr
           then (if m_end (last left) > addr then Inl RmPanic
                 else
                   let b1 = (last left)\<lparr>m_size := m_size (last left) + sz\<rparr>
                   in case right of
                        [] \<Rightarrow> Inr (mp\<lparr>m_ents := butlast left @ [b1]\<rparr>)
                      | b # bs \<Rightarrow>
                          if addr + sz \<ge> m_addr b
                          then (if addr + sz > m_addr b then Inl RmPanic
                                else Inr (mp\<lparr>m_ents := butlast left @ b1\<lparr>m_size := m_size b1 + m_size b\<rparr> # bs\<rparr>))
                          else Inr (mp\<lparr>m_ents := butlast left @ b1 # b # bs\<rparr>))
           else case right of
                  [] \<Rightarrow> rm_insert mp left right addr sz
                | b # bs \<Rightarrow>
                    if addr + sz \<ge> m_addr b
                    then (if addr + sz > m_addr b then Inl RmPanic
                          else Inr (mp\<lparr>m_ents := left @ seg (m_addr b - sz) (m_size b + sz) # bs\<rparr>))
                    else rm_insert mp left right addr sz)"

text \<open>\<open>rmfree\<close> with every sum a \<open>long\<close>.\<close>

definition m_end_long :: "mapent \<Rightarrow> int" where
  "m_end_long b = s64 (m_addr b + m_size b)"

definition rmfree_long :: "rmap \<Rightarrow> int \<Rightarrow> int \<Rightarrow> rm_error + rmap" where
  "rmfree_long mp sz addr =
     (if addr = 0 \<or> sz \<le> 0 then Inl RmPanic
      else
        let left = takeWhile (\<lambda>b. m_addr b \<le> addr) (m_ents mp);
            right = dropWhile (\<lambda>b. m_addr b \<le> addr) (m_ents mp);
            e = s64 (addr + sz)
        in if left \<noteq> [] \<and> m_end_long (last left) \<ge> addr
           then (if m_end_long (last left) > addr then Inl RmPanic
                 else
                   let b1 = (last left)\<lparr>m_size := s64 (m_size (last left) + sz)\<rparr>
                   in case right of
                        [] \<Rightarrow> Inr (mp\<lparr>m_ents := butlast left @ [b1]\<rparr>)
                      | b # bs \<Rightarrow>
                          if e \<ge> m_addr b
                          then (if e > m_addr b then Inl RmPanic
                                else Inr (mp\<lparr>m_ents := butlast left @ b1\<lparr>m_size := s64 (m_size b1 + m_size b)\<rparr> # bs\<rparr>))
                          else Inr (mp\<lparr>m_ents := butlast left @ b1 # b # bs\<rparr>))
           else case right of
                  [] \<Rightarrow> rm_insert mp left right addr sz
                | b # bs \<Rightarrow>
                    if e \<ge> m_addr b
                    then (if e > m_addr b then Inl RmPanic
                          else Inr (mp\<lparr>m_ents := left @ seg (s64 (m_addr b - sz)) (s64 (m_size b + sz)) # bs\<rparr>))
                    else rm_insert mp left right addr sz)"

text \<open>
  \<open>rmget\<close> takes a given range out of the segment that has its first address; the result is an
  \<open>int\<close>.
\<close>

definition rmget :: "rmap \<Rightarrow> int \<Rightarrow> int \<Rightarrow> rm_error + int \<times> rmap" where
  "rmget mp sz addr =
     (if sz \<le> 0 then Inl RmPanic
      else
        let out = (\<lambda>b. \<not> (m_addr b \<le> addr \<and> m_end b > addr));
            left = takeWhile out (m_ents mp)
        in case dropWhile out (m_ents mp) of
             [] \<Rightarrow> Inr (0, mp)
           | b # bs \<Rightarrow>
               if m_end b < addr + sz then Inr (0, mp)
               else if m_addr b = addr
               then (if m_end b = addr + sz then Inr (s32 addr, mp\<lparr>m_ents := left @ bs\<rparr>)
                     else Inr (s32 addr, mp\<lparr>m_ents := left @ seg (m_addr b + sz) (m_size b - sz) # bs\<rparr>))
               else if m_end b = addr + sz
               then Inr (s32 addr, mp\<lparr>m_ents := left @ b\<lparr>m_size := m_size b - sz\<rparr> # bs\<rparr>)
               else if length (m_ents mp) + 1 \<ge> m_limit mp then Inr (0, mp)
               else Inr (s32 addr, mp\<lparr>m_ents := left @ b\<lparr>m_size := addr - m_addr b\<rparr>
                           # seg (addr + sz) (m_end b - (addr + sz)) # bs\<rparr>))"

section \<open>What a map stands for\<close>

fun rm_free :: "mapent list \<Rightarrow> int set" where
  "rm_free [] = {}"
| "rm_free (b # bs) = {m_addr b..<m_end b} \<union> rm_free bs"

text \<open>Segments in order, none empty, no two touching, all behind \<open>lo\<close>.\<close>

fun rm_sorted :: "int \<Rightarrow> mapent list \<Rightarrow> bool" where
  "rm_sorted lo [] \<longleftrightarrow> True"
| "rm_sorted lo (b # bs) \<longleftrightarrow> lo < m_addr b \<and> 0 < m_size b \<and> rm_sorted (m_end b) bs"

definition rm_ok :: "rmap \<Rightarrow> bool" where
  "rm_ok mp \<longleftrightarrow> rm_sorted 0 (m_ents mp) \<and> length (m_ents mp) < m_limit mp"

definition mp_free :: "rmap \<Rightarrow> int set" where
  "mp_free mp = rm_free (m_ents mp)"

lemma seg_simps [simp]: "m_size (seg a s) = s" "m_addr (seg a s) = a" "m_end (seg a s) = a + s"
  by (simp_all add: seg_def m_end_def)

lemma m_end_update [simp]: "m_end (b\<lparr>m_size := s\<rparr>) = m_addr b + s"
  by (simp add: m_end_def)

lemma rm_free_append [simp]: "rm_free (xs @ ys) = rm_free xs \<union> rm_free ys"
  by (induction xs) auto

lemma rm_sorted_weaken: "rm_sorted lo bs \<Longrightarrow> lo' \<le> lo \<Longrightarrow> rm_sorted lo' bs"
  by (cases bs) auto

lemma rm_sorted_above: "rm_sorted lo bs \<Longrightarrow> x \<in> rm_free bs \<Longrightarrow> lo < x"
proof (induction bs arbitrary: lo)
  case (Cons b bs)
  then show ?case by (fastforce simp: m_end_def)
qed simp

text \<open>Where one list of segments ends and the next may start.\<close>

fun rm_top :: "int \<Rightarrow> mapent list \<Rightarrow> int" where
  "rm_top lo [] = lo"
| "rm_top lo (b # bs) = rm_top (m_end b) bs"

lemma rm_top_append [simp]: "rm_top lo (xs @ ys) = rm_top (rm_top lo xs) ys"
  by (induction xs arbitrary: lo) auto

lemma rm_sorted_append: "rm_sorted lo (xs @ ys) \<longleftrightarrow> rm_sorted lo xs \<and> rm_sorted (rm_top lo xs) ys"
  by (induction xs arbitrary: lo) auto

lemma rm_top_ge: "rm_sorted lo xs \<Longrightarrow> lo \<le> rm_top lo xs"
  by (induction xs arbitrary: lo) (force simp: m_end_def)+

lemma rm_free_below: "rm_sorted lo xs \<Longrightarrow> x \<in> rm_free xs \<Longrightarrow> x < rm_top lo xs"
proof (induction xs arbitrary: lo)
  case (Cons b xs)
  then have "m_end b \<le> rm_top (m_end b) xs" using rm_top_ge by simp
  then show ?case using Cons by auto
qed simp

text \<open>A run of free addresses lies in one segment.\<close>

lemma run_in_segment:
  "rm_sorted lo bs \<Longrightarrow> 0 < n \<Longrightarrow> {x..<x + n} \<subseteq> rm_free bs \<Longrightarrow> \<exists>b\<in>set bs. m_addr b \<le> x \<and> x + n \<le> m_end b"
proof (induction bs arbitrary: lo)
  case Nil
  then show ?case by auto
next
  case (Cons b bs)
  have above: "y \<in> rm_free bs \<Longrightarrow> m_end b < y" for y using rm_sorted_above Cons.prems(1) by auto
  have gap: "m_end b \<notin> rm_free (b # bs)" using above by fastforce
  have "x \<in> {x..<x + n}" using Cons.prems(2) by simp
  then have x: "x \<in> rm_free (b # bs)" using Cons.prems(3) by blast
  show ?case
  proof (cases "x < m_end b")
    case True
    then have "m_addr b \<le> x" using x above by force
    moreover have "x + n \<le> m_end b"
    proof (rule ccontr)
      assume "\<not> x + n \<le> m_end b"
      then have "m_end b \<in> {x..<x + n}" using True by simp
      then show False using Cons.prems(3) gap by blast
    qed
    ultimately show ?thesis by simp
  next
    case False
    have "{x..<x + n} \<subseteq> rm_free bs"
    proof
      fix y assume y: "y \<in> {x..<x + n}"
      then have "y \<in> rm_free (b # bs)" "m_end b \<le> y" using Cons.prems(3) False by auto
      then show "y \<in> rm_free bs" by auto
    qed
    then show ?thesis using Cons.IH [of "m_end b"] Cons.prems(1,2) by auto
  qed
qed

lemma segment_free: "b \<in> set bs \<Longrightarrow> {m_addr b..<m_end b} \<subseteq> rm_free bs"
  by (induction bs) auto

text \<open>The representation is unique.\<close>

lemma rm_unique:
  "rm_sorted lo bs \<Longrightarrow> rm_sorted lo' cs \<Longrightarrow> rm_free bs = rm_free cs \<Longrightarrow> bs = cs"
proof (induction bs arbitrary: cs lo lo')
  case Nil
  then show ?case by (cases cs) (auto simp: m_end_def)
next
  case (Cons b bs)
  have first: "m_addr b \<in> rm_free (b # bs)" using Cons.prems(1) by (simp add: m_end_def)
  then obtain c cs' where c: "cs = c # cs'" using Cons.prems(3) by (cases cs) auto
  have ab: "y \<in> rm_free bs \<Longrightarrow> m_end b < y" for y using rm_sorted_above Cons.prems(1) by auto
  have ac: "y \<in> rm_free cs' \<Longrightarrow> m_end c < y" for y using rm_sorted_above Cons.prems(2) c by auto
  have sb: "m_addr b < m_end b" "m_addr c < m_end c" using Cons.prems(1,2) c by (simp_all add: m_end_def)
  have eq: "rm_free (b # bs) = rm_free (c # cs')" using Cons.prems(3) c by simp
  have a: "m_addr b = m_addr c"
  proof -
    have "m_addr b \<in> rm_free (c # cs')" "m_addr c \<in> rm_free (b # bs)" using sb eq by auto
    then have "m_addr c \<le> m_addr b" "m_addr b \<le> m_addr c" using ab ac sb by fastforce+
    then show ?thesis by simp
  qed
  have e: "m_end b = m_end c"
  proof (rule ccontr)
    assume "m_end b \<noteq> m_end c"
    then consider "m_end b < m_end c" | "m_end c < m_end b" by linarith
    then show False
    proof cases
      case 1
      then have "m_end b \<in> rm_free (c # cs')" using a sb by simp
      then have "m_end b \<in> rm_free (b # bs)" using eq by blast
      then show False using ab by fastforce
    next
      case 2
      then have "m_end c \<in> rm_free (b # bs)" using a sb by simp
      then have "m_end c \<in> rm_free (c # cs')" using eq by blast
      then show False using ac by fastforce
    qed
  qed
  have "rm_free bs = rm_free (b # bs) - {m_addr b..<m_end b}" using ab by fastforce
  moreover have "rm_free cs' = rm_free (c # cs') - {m_addr c..<m_end c}" using ac by fastforce
  ultimately have "rm_free bs = rm_free cs'" using eq a e by simp
  then have "bs = cs'" using Cons.IH Cons.prems(1,2) c by auto
  moreover have "b = c" using a e by (cases b; cases c) (simp add: m_end_def)
  ultimately show ?case using c by simp
qed

end
