(* ===== verification/Rmap_Laws.thy ===== *)
theory Rmap_Laws
  imports Rmap
begin

text \<open>
  Each operation of the resource maps as an operation on the set of free addresses.
\<close>

section \<open>Allocation\<close>

lemma first_fit_None:
  assumes "rm_sorted lo bs" "0 < sz" "first_fit sz bs = None"
  shows "\<not> {x..<x + sz} \<subseteq> rm_free bs"
proof
  assume "{x..<x + sz} \<subseteq> rm_free bs"
  from run_in_segment [OF assms(1,2) this] obtain b where "b \<in> set bs" "m_addr b \<le> x" "x + sz \<le> m_end b" by blast
  moreover have "first_fit sz bs = None \<Longrightarrow> \<forall>b\<in>set bs. m_size b < sz"
    by (induction bs) (auto split: if_splits)
  ultimately show False using assms(3) by (auto simp: m_end_def)
qed

lemma first_fit_Some:
  assumes "rm_sorted lo bs" "0 < sz" "first_fit sz bs = Some (a, cs)"
  shows "rm_sorted lo cs" "lo < a" "rm_free bs = {a..<a + sz} \<union> rm_free cs" "{a..<a + sz} \<inter> rm_free cs = {}"
    "length cs \<le> length bs" "{x..<x + sz} \<subseteq> rm_free bs \<Longrightarrow> a \<le> x"
proof -
  have "rm_sorted lo cs \<and> lo < a \<and> rm_free bs = {a..<a + sz} \<union> rm_free cs \<and> {a..<a + sz} \<inter> rm_free cs = {}
    \<and> length cs \<le> length bs \<and> ({x..<x + sz} \<subseteq> rm_free bs \<longrightarrow> a \<le> x)"
    using assms(1,3)
  proof (induction bs arbitrary: lo cs)
    case (Cons b bs)
    have above: "y \<in> rm_free bs \<Longrightarrow> m_end b < y" for y using rm_sorted_above Cons.prems(1) by auto
    show ?case
    proof (cases "m_size b \<ge> sz")
      case True
      then have a: "a = m_addr b" "cs = (if m_size b - sz = 0 then bs else seg (m_addr b + sz) (m_size b - sz) # bs)"
        using Cons.prems(2) by auto
      have e: "m_addr b + sz \<le> m_end b" "m_size b - sz = 0 \<longleftrightarrow> m_end b = m_addr b + sz"
        using True by (auto simp: m_end_def)
      have s: "rm_sorted (m_end b) bs" "lo < m_addr b" using Cons.prems(1) by simp_all
      have "{x..<x + sz} \<subseteq> rm_free (b # bs) \<Longrightarrow> m_addr b \<le> x"
      proof -
        assume "{x..<x + sz} \<subseteq> rm_free (b # bs)"
        moreover have "x \<in> {x..<x + sz}" using assms(2) by simp
        ultimately have "x \<in> rm_free (b # bs)" by blast
        then show "m_addr b \<le> x" using above [of x] Cons.prems(1) by (auto simp: m_end_def)
      qed
      moreover have "rm_sorted lo cs" using a e s assms(2) True rm_sorted_weaken [OF s(1), of lo]
        by (auto simp: m_end_def)
      moreover have "rm_free (b # bs) = {a..<a + sz} \<union> rm_free cs"
        using a e assms(2) by (auto simp: m_end_def)
      moreover have "{a..<a + sz} \<inter> rm_free cs = {}"
      proof -
        have "y \<in> rm_free bs \<Longrightarrow> a + sz \<le> y" for y using above [of y] e(1) a(1) by simp
        then have "y \<in> rm_free cs \<Longrightarrow> a + sz \<le> y" for y using a by (auto split: if_splits)
        then show ?thesis by fastforce
      qed
      ultimately show ?thesis using s(2) a by simp
    next
      case False
      then obtain ds where d: "first_fit sz bs = Some (a, ds)" "cs = b # ds" using Cons.prems(2) by auto
      have s: "rm_sorted (m_end b) bs" using Cons.prems(1) by simp
      note IH = Cons.IH [OF s d(1)]
      have ab: "m_end b < a" using IH by simp
      have disj: "{a..<a + sz} \<inter> rm_free cs = {}" using IH ab d(2) by auto
      have least: "{x..<x + sz} \<subseteq> rm_free (b # bs) \<longrightarrow> a \<le> x"
      proof
        assume r: "{x..<x + sz} \<subseteq> rm_free (b # bs)"
        from run_in_segment [OF Cons.prems(1) assms(2) r] obtain c where
          c: "c \<in> set (b # bs)" "m_addr c \<le> x" "x + sz \<le> m_end c" by blast
        have "c \<noteq> b" using c(2,3) False by (auto simp: m_end_def)
        then have "{x..<x + sz} \<subseteq> rm_free bs" using segment_free [of c bs] c by auto
        then show "a \<le> x" using IH by blast
      qed
      have "lo < a" using ab Cons.prems(1) by (simp add: m_end_def)
      moreover have "rm_free (b # bs) = {a..<a + sz} \<union> rm_free cs" using IH d(2) by auto
      moreover have "rm_sorted lo cs" "length cs \<le> length (b # bs)" using IH Cons.prems(1) d(2) by simp_all
      ultimately show ?thesis using disj least by blast
    qed
  qed simp
  then show "rm_sorted lo cs" "lo < a" "rm_free bs = {a..<a + sz} \<union> rm_free cs" "{a..<a + sz} \<inter> rm_free cs = {}"
    "length cs \<le> length bs" "{x..<x + sz} \<subseteq> rm_free bs \<Longrightarrow> a \<le> x"
    by blast+
qed

lemma rmalloc_ok:
  assumes "rm_ok mp" "0 < sz" "rmalloc mp sz = Inr (a, mp1)"
  shows "rm_ok mp1" "m_limit mp1 = m_limit mp" "m_lost mp1 = m_lost mp" "length (m_ents mp1) \<le> length (m_ents mp)"
    "a \<noteq> 0 \<Longrightarrow> 0 < a \<and> mp_free mp = {a..<a + sz} \<union> mp_free mp1 \<and> {a..<a + sz} \<inter> mp_free mp1 = {}"
    "a \<noteq> 0 \<Longrightarrow> {x..<x + sz} \<subseteq> mp_free mp \<Longrightarrow> a \<le> x"
    "a = 0 \<Longrightarrow> mp1 = mp \<and> \<not> {x..<x + sz} \<subseteq> mp_free mp"
proof -
  have s: "rm_sorted 0 (m_ents mp)" "length (m_ents mp) < m_limit mp" using assms(1) by (simp_all add: rm_ok_def)
  have "rm_ok mp1 \<and> m_limit mp1 = m_limit mp \<and> m_lost mp1 = m_lost mp \<and> length (m_ents mp1) \<le> length (m_ents mp)
    \<and> (a \<noteq> 0 \<longrightarrow> 0 < a \<and> mp_free mp = {a..<a + sz} \<union> mp_free mp1 \<and> {a..<a + sz} \<inter> mp_free mp1 = {}
         \<and> ({x..<x + sz} \<subseteq> mp_free mp \<longrightarrow> a \<le> x))
    \<and> (a = 0 \<longrightarrow> mp1 = mp \<and> \<not> {x..<x + sz} \<subseteq> mp_free mp)"
  proof (cases "first_fit sz (m_ents mp)")
    case None
    then show ?thesis
      using assms first_fit_None [OF s(1) assms(2) None] by (simp add: rmalloc_def mp_free_def)
  next
    case (Some r)
    then obtain cs where c: "first_fit sz (m_ents mp) = Some (a, cs)" "mp1 = mp\<lparr>m_ents := cs\<rparr>"
      using assms(2,3) by (cases r) (auto simp: rmalloc_def)
    note f = first_fit_Some [OF s(1) assms(2) c(1)]
    show ?thesis using f(1-5) f(6) [of x] c(2) s(2) by (simp add: rm_ok_def mp_free_def)
  qed
  then show "rm_ok mp1" "m_limit mp1 = m_limit mp" "m_lost mp1 = m_lost mp" "length (m_ents mp1) \<le> length (m_ents mp)"
    "a \<noteq> 0 \<Longrightarrow> 0 < a \<and> mp_free mp = {a..<a + sz} \<union> mp_free mp1 \<and> {a..<a + sz} \<inter> mp_free mp1 = {}"
    "a \<noteq> 0 \<Longrightarrow> {x..<x + sz} \<subseteq> mp_free mp \<Longrightarrow> a \<le> x"
    "a = 0 \<Longrightarrow> mp1 = mp \<and> \<not> {x..<x + sz} \<subseteq> mp_free mp"
    by blast+
qed

section \<open>Release\<close>

lemma rm_top_last: "bs \<noteq> [] \<Longrightarrow> rm_top lo bs = m_end (last bs)"
  by (induction bs arbitrary: lo) auto

text \<open>The place of an address among the segments.\<close>

lemma rmfree_place:
  assumes "rm_sorted 0 bs" "0 < addr" "0 < sz"
    and "left = takeWhile (\<lambda>b. m_addr b \<le> addr) bs" "right = dropWhile (\<lambda>b. m_addr b \<le> addr) bs"
  shows "bs = left @ right" "rm_sorted 0 left" "rm_sorted (rm_top 0 left) right"
    "right \<noteq> [] \<Longrightarrow> addr < m_addr (hd right)"
    "{addr..<addr + sz} \<inter> rm_free bs = {} \<longleftrightarrow> rm_top 0 left \<le> addr \<and> (right \<noteq> [] \<longrightarrow> addr + sz \<le> m_addr (hd right))"
proof -
  show bs: "bs = left @ right" using assms(4,5) by simp
  show s: "rm_sorted 0 left" "rm_sorted (rm_top 0 left) right" using assms(1) unfolding bs by (simp_all add: rm_sorted_append)
  show r: "right \<noteq> [] \<Longrightarrow> addr < m_addr (hd right)"
    using hd_dropWhile [of "\<lambda>b. m_addr b \<le> addr" bs] assms(5) by simp
  have L: "{addr..<addr + sz} \<inter> rm_free left = {} \<longleftrightarrow> rm_top 0 left \<le> addr"
  proof (cases "rm_top 0 left \<le> addr")
    case True
    then show ?thesis using rm_free_below [OF s(1)] by fastforce
  next
    case False
    then have ne: "left \<noteq> []" using assms(2) by auto
    then have "last left \<in> set left" by simp
    then have "m_addr (last left) \<le> addr" using assms(4) set_takeWhileD by fastforce
    moreover have "addr < m_end (last left)" using False rm_top_last [OF ne] by simp
    ultimately have "addr \<in> rm_free left" using segment_free [of "last left" left] ne by auto
    moreover have "addr \<in> {addr..<addr + sz}" using assms(3) by simp
    ultimately show ?thesis using False by blast
  qed
  have R: "{addr..<addr + sz} \<inter> rm_free right = {} \<longleftrightarrow> (right \<noteq> [] \<longrightarrow> addr + sz \<le> m_addr (hd right))"
  proof (cases right)
    case (Cons b cs)
    have b: "rm_sorted (m_addr b - 1) right" using s(2) Cons by simp
    have le: "m_addr b \<le> y" if "y \<in> rm_free right" for y using rm_sorted_above [OF b that] by simp
    have b_in: "m_addr b \<in> rm_free right" using s(2) Cons by (simp add: m_end_def)
    have "addr < m_addr b" using r Cons by simp
    then have "m_addr b \<in> {addr..<addr + sz}" if "\<not> addr + sz \<le> m_addr b" using that by simp
    then have "{addr..<addr + sz} \<inter> rm_free right \<noteq> {}" if "\<not> addr + sz \<le> m_addr b" using that b_in by blast
    moreover have "{addr..<addr + sz} \<inter> rm_free right = {}" if "addr + sz \<le> m_addr b" using that le by fastforce
    ultimately have "{addr..<addr + sz} \<inter> rm_free right = {} \<longleftrightarrow> addr + sz \<le> m_addr b" by blast
    then show ?thesis using Cons by simp
  qed simp
  show "{addr..<addr + sz} \<inter> rm_free bs = {} \<longleftrightarrow> rm_top 0 left \<le> addr \<and> (right \<noteq> [] \<longrightarrow> addr + sz \<le> m_addr (hd right))"
    unfolding bs rm_free_append Int_Un_distrib Un_empty using L R by simp
qed

text \<open>What \<open>rmfree\<close> is to make of the list, with room for one more segment.\<close>

definition rm_put :: "mapent list \<Rightarrow> mapent list \<Rightarrow> int \<Rightarrow> int \<Rightarrow> mapent list" where
  "rm_put left right addr sz =
     (let (l, a, s) = (if left \<noteq> [] \<and> m_end (last left) = addr
                       then (butlast left, m_addr (last left), m_size (last left) + sz) else (left, addr, sz));
          (r, s1) = (if right \<noteq> [] \<and> m_addr (hd right) = addr + sz
                     then (tl right, s + m_size (hd right)) else (right, s))
      in l @ seg a s1 # r)"

lemma rm_put_ok:
  assumes "rm_sorted 0 left" "rm_sorted (rm_top 0 left) right" "0 < addr" "0 < sz"
    "rm_top 0 left \<le> addr" "right \<noteq> [] \<longrightarrow> addr + sz \<le> m_addr (hd right)"
  shows "rm_sorted 0 (rm_put left right addr sz)"
    "rm_free (rm_put left right addr sz) = rm_free (left @ right) \<union> {addr..<addr + sz}"
proof -
  define touch where "touch = (left \<noteq> [] \<and> m_end (last left) = addr)"
  define l where "l = (if touch then butlast left else left)"
  define a where "a = (if touch then m_addr (last left) else addr)"
  define s where "s = (if touch then m_size (last left) + sz else sz)"
  define join where "join = (right \<noteq> [] \<and> m_addr (hd right) = addr + sz)"
  define r where "r = (if join then tl right else right)"
  define s1 where "s1 = (if join then s + m_size (hd right) else s)"
  have P: "rm_put left right addr sz = l @ seg a s1 # r"
    by (simp add: rm_put_def Let_def touch_def l_def a_def s_def join_def r_def s1_def)
  have l: "rm_sorted 0 l" "rm_top 0 l < a" "0 < s" "a + s = addr + sz" "rm_free left \<union> {addr..<addr + sz} = rm_free l \<union> {a..<a + s}"
  proof -
    have "rm_sorted 0 l \<and> rm_top 0 l < a \<and> 0 < s \<and> a + s = addr + sz
      \<and> rm_free left \<union> {addr..<addr + sz} = rm_free l \<union> {a..<a + s}"
    proof (cases touch)
      case True
      then obtain l0 b where b: "left = l0 @ [b]" "m_end b = addr" by (cases left rule: rev_cases) (auto simp: touch_def)
      then have sz: "rm_sorted 0 l0" "rm_top 0 l0 < m_addr b" "0 < m_size b" "m_addr b + m_size b = addr"
        using assms(1) by (simp_all add: rm_sorted_append m_end_def)
      have "{m_addr b..<m_end b} \<union> {addr..<addr + sz} = {m_addr b..<addr + sz}"
        using sz(3,4) assms(4) b(2) by auto
      then show ?thesis
        using sz True b assms(4) by (simp add: l_def a_def s_def Un_assoc add.assoc [symmetric])
    next
      case False
      then have "rm_top 0 left < addr"
        using assms(3,5) rm_top_last [of left 0] by (cases "left = []") (auto simp: touch_def)
      then show ?thesis using False assms(1,4) by (simp add: l_def a_def s_def)
    qed
    then show "rm_sorted 0 l" "rm_top 0 l < a" "0 < s" "a + s = addr + sz"
      "rm_free left \<union> {addr..<addr + sz} = rm_free l \<union> {a..<a + s}" by blast+
  qed
  have r: "rm_sorted (a + s1) r" "0 < s1" "{a..<a + s} \<union> rm_free right = {a..<a + s1} \<union> rm_free r"
  proof -
    have "rm_sorted (a + s1) r \<and> 0 < s1 \<and> {a..<a + s} \<union> rm_free right = {a..<a + s1} \<union> rm_free r"
    proof (cases join)
      case True
      then obtain c cs where c: "right = c # cs" "m_addr c = a + s" using l(4) by (cases right) (auto simp: join_def)
      then have "rm_sorted (m_end c) cs" "0 < m_size c" using assms(2) by simp_all
      moreover have "{a..<a + s} \<union> {m_addr c..<m_end c} = {a..<a + (s + m_size c)}"
        using c(2) l(3) calculation(2) by (auto simp: m_end_def)
      ultimately show ?thesis
        using True c l(3) by (simp add: r_def s1_def m_end_def add.assoc Un_assoc [symmetric])
    next
      case False
      have "rm_sorted (a + s) right"
        using assms(2,6) False l(4) by (cases right) (auto simp: join_def)
      then show ?thesis using False l(3) by (simp add: r_def s1_def)
    qed
    then show "rm_sorted (a + s1) r" "0 < s1" "{a..<a + s} \<union> rm_free right = {a..<a + s1} \<union> rm_free r" by blast+
  qed
  show "rm_sorted 0 (rm_put left right addr sz)"
    unfolding P using l(1,2) r(1,2) by (simp add: rm_sorted_append)
  have "rm_free (rm_put left right addr sz) = rm_free l \<union> ({a..<a + s1} \<union> rm_free r)" by (simp add: P)
  also have "\<dots> = (rm_free l \<union> {a..<a + s}) \<union> rm_free right" using r(3) by (simp add: Un_assoc)
  also have "\<dots> = rm_free (left @ right) \<union> {addr..<addr + sz}" unfolding l(5) [symmetric] by (simp add: Un_ac)
  finally show "rm_free (rm_put left right addr sz) = rm_free (left @ right) \<union> {addr..<addr + sz}" .
qed


lemma rmfree_cases:
  assumes "rm_ok mp" "0 < addr" "0 < sz"
    and "left = takeWhile (\<lambda>b. m_addr b \<le> addr) (m_ents mp)" "right = dropWhile (\<lambda>b. m_addr b \<le> addr) (m_ents mp)"
  shows "rmfree mp sz addr =
    (if {addr..<addr + sz} \<inter> mp_free mp \<noteq> {} then Inl RmPanic
     else if (left = [] \<or> m_end (last left) \<noteq> addr) \<and> (right = [] \<or> m_addr (hd right) \<noteq> addr + sz)
     then rm_insert mp left right addr sz
     else Inr (mp\<lparr>m_ents := rm_put left right addr sz\<rparr>))"
proof -
  have "rm_sorted 0 (m_ents mp)" using assms(1) by (simp add: rm_ok_def)
  note p = rmfree_place [OF this assms(2-5)]
  have top: "rm_top 0 left = (if left = [] then 0 else m_end (last left))" by (simp add: rm_top_last)
  have seg: "b\<lparr>m_size := s\<rparr> = seg (m_addr b) s" for b :: mapent and s by (cases b) (simp add: seg_def)
  have gt: "right = b # bs \<Longrightarrow> addr < m_addr b" for b bs using p(4) by simp
  have R: "rmfree mp sz addr = (if left \<noteq> [] \<and> m_end (last left) \<ge> addr
           then (if m_end (last left) > addr then Inl RmPanic
                 else
                   let b1 = (last left)\<lparr>m_size := m_size (last left) + sz\<rparr>
                   in case right of
                        [] \<Rightarrow> Inr (mp\<lparr>m_ents := butlast left @ [b1]\<rparr>)
                      | b # bs \<Rightarrow>
                          if addr + sz \<ge> m_addr b
                          then (if addr + sz > m_addr b then Inl RmPanic
                                else Inr (mp\<lparr>m_ents := butlast left @ b1\<lparr>m_size := m_size b1 + m_size b\<rparr> # bs\<rparr>))
                          else Inr (mp\<lparr>m_ents := butlast left @ b1 # b # bs\<rparr>))
           else case right of
                  [] \<Rightarrow> rm_insert mp left right addr sz
                | b # bs \<Rightarrow>
                    if addr + sz \<ge> m_addr b
                    then (if addr + sz > m_addr b then Inl RmPanic
                          else Inr (mp\<lparr>m_ents := left @ seg (m_addr b - sz) (m_size b + sz) # bs\<rparr>))
                    else rm_insert mp left right addr sz)"
    using assms(2,3) unfolding rmfree_def assms(4,5) Let_def by simp
  have P: "{addr..<addr + sz} \<inter> mp_free mp \<noteq> {} \<longleftrightarrow> \<not> (rm_top 0 left \<le> addr \<and> (right \<noteq> [] \<longrightarrow> addr + sz \<le> m_addr (hd right)))"
    using p(5) by (simp add: mp_free_def)
  show ?thesis
  proof (cases right)
    case Nil
    then show ?thesis
      unfolding R P using assms(2) by (auto simp: top rm_put_def Let_def seg)
  next
    case (Cons b bs)
    have "addr < m_addr b" using gt Cons by blast
    then show ?thesis
      unfolding R P using assms(2) Cons by (auto simp: top rm_put_def Let_def seg)
  qed
qed

text \<open>Without room for another delimiter one segment is given up.\<close>

lemma take_last_two:
  assumes "2 \<le> length bs"
  obtains pre x y where "bs = pre @ [x, y]" "take (length bs - 2) bs @ [last bs] = pre @ [y]" "bs ! (length bs - 2) = x"
proof -
  obtain cs y where 1: "bs = cs @ [y]" using assms by (cases bs rule: rev_cases) auto
  obtain pre x where 2: "cs = pre @ [x]" using assms 1 by (cases cs rule: rev_cases) auto
  show ?thesis using that [of pre x y] 1 2 by (simp add: nth_append)
qed

lemma rm_insert_ok:
  assumes "rm_sorted 0 (left @ seg addr sz # right)" "length (left @ right) < m_limit mp" "2 \<le> m_limit mp"
  shows "\<exists>mp1. rm_insert mp left right addr sz = Inr mp1 \<and> rm_ok mp1 \<and> m_limit mp1 = m_limit mp
    \<and> (\<exists>gone. m_lost mp1 = m_lost mp @ gone
        \<and> mp_free mp1 \<union> rm_free gone = rm_free (left @ right) \<union> {addr..<addr + sz} \<and> mp_free mp1 \<inter> rm_free gone = {}
        \<and> (length (left @ right) + 1 < m_limit mp \<longrightarrow> gone = []))"
proof -
  let ?bs = "left @ seg addr sz # right"
  have F: "rm_free ?bs = rm_free (left @ right) \<union> {addr..<addr + sz}" by auto
  show ?thesis
  proof (cases "length ?bs + 1 > m_limit mp")
    case True
    then have len: "length ?bs = m_limit mp" "2 \<le> length ?bs" using assms(2,3) by simp_all
    from take_last_two [OF len(2)] obtain pre x y where
      b: "?bs = pre @ [x, y]" "take (length ?bs - 2) ?bs @ [last ?bs] = pre @ [y]" "?bs ! (length ?bs - 2) = x" .
    let ?mp = "mp\<lparr>m_ents := pre @ [y], m_lost := m_lost mp @ [x]\<rparr>"
    have I: "rm_insert mp left right addr sz = Inr ?mp"
      unfolding rm_insert_def Let_def using True len b(2,3) by simp
    have s: "rm_sorted 0 pre" "rm_top 0 pre < m_addr x" "0 < m_size x" "m_end x < m_addr y" "0 < m_size y"
      using assms(1) unfolding b(1) by (simp_all add: rm_sorted_append)
    have "length pre + 2 = m_limit mp" using len(1) arg_cong [OF b(1), of length] by simp
    then have ok: "rm_ok ?mp" using s by (simp add: rm_ok_def rm_sorted_append m_end_def)
    have "rm_free pre \<inter> {m_addr x..<m_end x} = {}" using rm_free_below [OF s(1)] s(2) by fastforce
    then have "mp_free ?mp \<inter> rm_free [x] = {}" using s(4) by (auto simp: mp_free_def)
    moreover have "mp_free ?mp \<union> rm_free [x] = rm_free (left @ right) \<union> {addr..<addr + sz}"
      unfolding F [symmetric] b(1) by (auto simp: mp_free_def)
    ultimately show ?thesis using I ok len(1) by auto
  next
    case False
    let ?mp = "mp\<lparr>m_ents := ?bs\<rparr>"
    have "rm_insert mp left right addr sz = Inr ?mp" using False by (simp add: rm_insert_def Let_def)
    moreover have "rm_ok ?mp" using assms(1) False by (simp add: rm_ok_def)
    ultimately show ?thesis using F by (auto simp: mp_free_def)
  qed
qed

lemma rmfree_ok:
  assumes "rm_ok mp" "0 < addr" "0 < sz" "{addr..<addr + sz} \<inter> mp_free mp = {}" "2 \<le> m_limit mp"
  shows "\<exists>mp1. rmfree mp sz addr = Inr mp1 \<and> rm_ok mp1 \<and> m_limit mp1 = m_limit mp
    \<and> (\<exists>gone. m_lost mp1 = m_lost mp @ gone
        \<and> mp_free mp1 \<union> rm_free gone = mp_free mp \<union> {addr..<addr + sz} \<and> mp_free mp1 \<inter> rm_free gone = {}
        \<and> (length (m_ents mp) + 1 < m_limit mp \<longrightarrow> gone = []))"
proof -
  define left where "left = takeWhile (\<lambda>b. m_addr b \<le> addr) (m_ents mp)"
  define right where "right = dropWhile (\<lambda>b. m_addr b \<le> addr) (m_ents mp)"
  have s: "rm_sorted 0 (m_ents mp)" "length (m_ents mp) < m_limit mp" using assms(1) by (simp_all add: rm_ok_def)
  note p = rmfree_place [OF s(1) assms(2,3) left_def right_def]
  note c = rmfree_cases [OF assms(1-3) left_def right_def]
  have d: "rm_top 0 left \<le> addr" "right \<noteq> [] \<longrightarrow> addr + sz \<le> m_addr (hd right)"
    using p(5) assms(4) by (simp_all add: mp_free_def)
  note put = rm_put_ok [OF p(2,3) assms(2,3) d]
  show ?thesis
  proof (cases "(left = [] \<or> m_end (last left) \<noteq> addr) \<and> (right = [] \<or> m_addr (hd right) \<noteq> addr + sz)")
    case True
    then have "rm_put left right addr sz = left @ seg addr sz # right" by (auto simp: rm_put_def)
    then have "rm_sorted 0 (left @ seg addr sz # right)" using put(1) by simp
    moreover have E: "left @ right = m_ents mp" using p(1) by simp
    ultimately have "\<exists>mp1. rm_insert mp left right addr sz = Inr mp1 \<and> rm_ok mp1 \<and> m_limit mp1 = m_limit mp
      \<and> (\<exists>gone. m_lost mp1 = m_lost mp @ gone
        \<and> mp_free mp1 \<union> rm_free gone = mp_free mp \<union> {addr..<addr + sz} \<and> mp_free mp1 \<inter> rm_free gone = {}
        \<and> (length (m_ents mp) + 1 < m_limit mp \<longrightarrow> gone = []))"
      using rm_insert_ok [of left addr sz right mp] assms(5) s(2) unfolding E mp_free_def by blast
    moreover have "rmfree mp sz addr = rm_insert mp left right addr sz" using c True assms(4) by simp
    ultimately show ?thesis by simp
  next
    case False
    have "length (rm_put left right addr sz) \<le> length (m_ents mp)"
      using False p(1) by (cases left rule: rev_cases; cases right) (auto simp: rm_put_def Let_def)
    then have "rm_ok (mp\<lparr>m_ents := rm_put left right addr sz\<rparr>)" using put(1) s(2) by (simp add: rm_ok_def)
    moreover have "rmfree mp sz addr = Inr (mp\<lparr>m_ents := rm_put left right addr sz\<rparr>)" using c False assms(4) by simp
    moreover have "mp_free (mp\<lparr>m_ents := rm_put left right addr sz\<rparr>) = mp_free mp \<union> {addr..<addr + sz}"
      using put(2) p(1) by (simp add: mp_free_def)
    ultimately show ?thesis by (intro exI [of _ "mp\<lparr>m_ents := rm_put left right addr sz\<rparr>"] conjI exI [of _ "[]"]) simp_all
  qed
qed

section \<open>A given range\<close>

lemma rmget_place:
  assumes "rm_sorted 0 bs" "0 < sz"
    and "left = takeWhile (\<lambda>b. \<not> (m_addr b \<le> addr \<and> m_end b > addr)) bs"
    and "dropWhile (\<lambda>b. \<not> (m_addr b \<le> addr \<and> m_end b > addr)) bs = b # cs"
  shows "bs = left @ b # cs" "m_addr b \<le> addr" "addr < m_end b" "rm_sorted 0 left" "rm_top 0 left < m_addr b"
    "0 < m_size b" "rm_sorted (m_end b) cs" "{addr..<addr + sz} \<subseteq> rm_free bs \<longleftrightarrow> addr + sz \<le> m_end b"
proof -
  let ?out = "\<lambda>b. \<not> (m_addr b \<le> addr \<and> m_end b > addr)"
  show bs: "bs = left @ b # cs" using assms(3,4) takeWhile_dropWhile_id [of ?out bs] by simp
  show b: "m_addr b \<le> addr" "addr < m_end b" using assms(4) by (simp_all add: dropWhile_eq_Cons_conv)
  show s: "rm_sorted 0 left" "rm_top 0 left < m_addr b" "0 < m_size b" "rm_sorted (m_end b) cs"
    using assms(1) unfolding bs by (simp_all add: rm_sorted_append)
  have "addr + sz \<le> m_end b" if run: "{addr..<addr + sz} \<subseteq> rm_free bs"
  proof -
    from run_in_segment [OF assms(1,2) run] obtain c where c: "c \<in> set bs" "m_addr c \<le> addr" "addr + sz \<le> m_end c" by blast
    have "c \<notin> set left" using c assms(2,3) set_takeWhileD [of c ?out bs] by auto
    moreover have "c \<notin> set cs"
    proof
      assume "c \<in> set cs"
      then have "{m_addr c..<m_end c} \<subseteq> rm_free cs" by (rule segment_free)
      moreover have "addr \<in> {m_addr c..<m_end c}" using c assms(2) by simp
      ultimately show False using rm_sorted_above [OF s(4)] b(2) by fastforce
    qed
    ultimately show ?thesis using c bs by auto
  qed
  moreover have "{addr..<addr + sz} \<subseteq> {m_addr b..<m_end b}" if "addr + sz \<le> m_end b" using that b by auto
  ultimately show "{addr..<addr + sz} \<subseteq> rm_free bs \<longleftrightarrow> addr + sz \<le> m_end b" unfolding bs by auto
qed

text \<open>The segments behind and in front of a range cut out of one.\<close>

definition rm_cut :: "mapent \<Rightarrow> int \<Rightarrow> int \<Rightarrow> mapent list" where
  "rm_cut b addr sz = (if m_addr b = addr then [] else [seg (m_addr b) (addr - m_addr b)])
     @ (if m_end b = addr + sz then [] else [seg (addr + sz) (m_end b - (addr + sz))])"

lemma rm_cut_ok:
  assumes "rm_sorted 0 (left @ b # cs)" "0 < sz" "m_addr b \<le> addr" "addr + sz \<le> m_end b"
  shows "rm_sorted 0 (left @ rm_cut b addr sz @ cs)"
    "rm_free (left @ rm_cut b addr sz @ cs) = rm_free (left @ b # cs) - {addr..<addr + sz}"
proof -
  have s: "rm_sorted 0 left" "rm_top 0 left < m_addr b" "0 < m_size b" "rm_sorted (m_end b) cs"
    using assms(1) by (simp_all add: rm_sorted_append)
  show "rm_sorted 0 (left @ rm_cut b addr sz @ cs)"
    using s assms(2-4) rm_sorted_weaken [OF s(4), of "rm_top 0 left"] rm_sorted_weaken [OF s(4), of addr]
    by (auto simp: rm_sorted_append rm_cut_def)
  have cut: "rm_free (rm_cut b addr sz) = {m_addr b..<m_end b} - {addr..<addr + sz}"
    using assms(2-4) by (auto simp: rm_cut_def)
  have "rm_free left \<inter> {addr..<addr + sz} = {}" using rm_free_below [OF s(1)] s(2) assms(3) by fastforce
  moreover have "rm_free cs \<inter> {addr..<addr + sz} = {}" using rm_sorted_above [OF s(4)] assms(4) by fastforce
  ultimately show "rm_free (left @ rm_cut b addr sz @ cs) = rm_free (left @ b # cs) - {addr..<addr + sz}"
    by (auto simp: cut)
qed

lemma rmget_ok:
  assumes "rm_ok mp" "0 < sz" "0 < addr" "addr < 2 ^ 31"
  shows "\<exists>r mp1. rmget mp sz addr = Inr (r, mp1) \<and> rm_ok mp1
    \<and> (r = 0 \<and> mp1 = mp \<or> r = addr \<and> {addr..<addr + sz} \<subseteq> mp_free mp \<and> mp_free mp1 = mp_free mp - {addr..<addr + sz})
    \<and> ({addr..<addr + sz} \<subseteq> mp_free mp \<and> length (m_ents mp) + 1 < m_limit mp \<longrightarrow> r = addr)"
proof -
  let ?out = "\<lambda>b. \<not> (m_addr b \<le> addr \<and> m_end b > addr)"
  define left where "left = takeWhile ?out (m_ents mp)"
  have so: "rm_sorted 0 (m_ents mp)" "length (m_ents mp) < m_limit mp" using assms(1) by (simp_all add: rm_ok_def)
  have a32: "s32 addr = addr" using assms(3,4) by (simp add: s32_def)
  show ?thesis
  proof (cases "dropWhile ?out (m_ents mp)")
    case Nil
    have "\<not> {addr..<addr + sz} \<subseteq> mp_free mp"
    proof
      assume "{addr..<addr + sz} \<subseteq> mp_free mp"
      from run_in_segment [OF so(1) assms(2) this [unfolded mp_free_def]] obtain c where
        "c \<in> set (m_ents mp)" "m_addr c \<le> addr" "addr + sz \<le> m_end c" by blast
      moreover have "?out c" if "c \<in> set (m_ents mp)" for c using that Nil by (simp add: dropWhile_eq_Nil_conv)
      ultimately show False using assms(2) by fastforce
    qed
    moreover have "rmget mp sz addr = Inr (0, mp)" using assms(2) unfolding rmget_def Let_def Nil by simp
    ultimately show ?thesis using assms(1) by auto
  next
    case (Cons b cs)
    note p = rmget_place [OF so(1) assms(2) left_def Cons]
    have R: "rmget mp sz addr = (if m_end b < addr + sz then Inr (0, mp)
               else if m_addr b = addr
               then (if m_end b = addr + sz then Inr (addr, mp\<lparr>m_ents := left @ cs\<rparr>)
                     else Inr (addr, mp\<lparr>m_ents := left @ seg (m_addr b + sz) (m_size b - sz) # cs\<rparr>))
               else if m_end b = addr + sz
               then Inr (addr, mp\<lparr>m_ents := left @ b\<lparr>m_size := m_size b - sz\<rparr> # cs\<rparr>)
               else if length (m_ents mp) + 1 \<ge> m_limit mp then Inr (0, mp)
               else Inr (addr, mp\<lparr>m_ents := left @ b\<lparr>m_size := addr - m_addr b\<rparr>
                           # seg (addr + sz) (m_end b - (addr + sz)) # cs\<rparr>))"
      using assms(2) unfolding rmget_def Let_def left_def Cons a32 by simp
    have seg: "b\<lparr>m_size := s\<rparr> = seg (m_addr b) s" for s by (cases b) (simp add: seg_def)
    show ?thesis
    proof (cases "m_end b < addr + sz \<or> m_addr b \<noteq> addr \<and> m_end b \<noteq> addr + sz \<and> length (m_ents mp) + 1 \<ge> m_limit mp")
      case True
      then have "rmget mp sz addr = Inr (0, mp)" unfolding R by auto
      then show ?thesis using True assms(1) p(8) by (auto simp: mp_free_def)
    next
      case False
      have sum: "m_size b - sz = addr - m_addr b \<longleftrightarrow> m_end b = addr + sz" by (auto simp: m_end_def)
      have eq: "rmget mp sz addr = Inr (addr, mp\<lparr>m_ents := left @ rm_cut b addr sz @ cs\<rparr>)"
        unfolding R using False by (auto simp: rm_cut_def seg m_end_def algebra_simps)
      have e: "addr + sz \<le> m_end b" using False by simp
      note c = rm_cut_ok [OF so(1) [unfolded p(1)] assms(2) p(2) e]
      have "length (left @ rm_cut b addr sz @ cs) < m_limit mp"
        using False so(2) arg_cong [OF p(1), of length] by (auto simp: rm_cut_def)
      then show ?thesis
        using eq c e p(8) p(1) by (auto simp: rm_ok_def mp_free_def)
    qed
  qed
qed

end
