(* ===== verification/Rmap_Claims.thy ===== *)
theory Rmap_Claims
  imports Rmap_Laws
begin

text \<open>
  What the clients of a resource map rely on: the contract of an allocator as a locale, the
  bookkeeping of a client proved inside it, its instance for the resource maps, and the
  properties.
\<close>

section \<open>An allocator and its client\<close>

text \<open>Ranges held: apart from each other and from the set of addresses given.\<close>

fun held_apart :: "int set \<Rightarrow> (int \<times> int) list \<Rightarrow> bool" where
  "held_apart F [] \<longleftrightarrow> True"
| "held_apart F ((a, n) # hs) \<longleftrightarrow> 0 < a \<and> 0 < n \<and> {a..<a + n} \<inter> F = {} \<and> held_apart (F \<union> {a..<a + n}) hs"

fun held_set :: "(int \<times> int) list \<Rightarrow> int set" where
  "held_set [] = {}"
| "held_set ((a, n) # hs) = {a..<a + n} \<union> held_set hs"

lemma held_apart_disjoint: "held_apart F hs \<Longrightarrow> F \<inter> held_set hs = {}"
  by (induction F hs rule: held_apart.induct) auto

lemma held_apart_mono: "held_apart F hs \<Longrightarrow> G \<subseteq> F \<Longrightarrow> held_apart G hs"
proof (induction F hs arbitrary: G rule: held_apart.induct)
  case (2 F a n hs)
  then have "G \<union> {a..<a + n} \<subseteq> F \<union> {a..<a + n}" by blast
  then have "held_apart (G \<union> {a..<a + n}) hs" using "2.IH" "2.prems"(1) by simp
  then show ?case using "2.prems" by auto
qed simp

lemma held_apart_drop:
  "held_apart F hs \<Longrightarrow> i < length hs \<Longrightarrow> hs ! i = (a, n) \<Longrightarrow>
   0 < a \<and> 0 < n \<and> {a..<a + n} \<inter> F = {} \<and> held_apart (F \<union> {a..<a + n}) (take i hs @ drop (Suc i) hs)
   \<and> held_set hs = {a..<a + n} \<union> held_set (take i hs @ drop (Suc i) hs)"
proof (induction F hs arbitrary: i rule: held_apart.induct)
  case (2 F b k hs)
  show ?case
  proof (cases i)
    case 0
    then show ?thesis using 2 by simp
  next
    case (Suc j)
    note IH = "2.IH" [of j]
    have 1: "held_apart (F \<union> {b..<b + k}) hs" "j < length hs" "hs ! j = (a, n)" using "2.prems" Suc by simp_all
    note I = IH [OF this]
    have "{b..<b + k} \<inter> (F \<union> {a..<a + n}) = {}" using I "2.prems"(1) by auto
    moreover have "held_apart (F \<union> {a..<a + n} \<union> {b..<b + k}) (take j hs @ drop (Suc j) hs)"
      using I by (simp add: Un_ac)
    ultimately show ?thesis using I "2.prems"(1) Suc by auto
  qed
qed simp

definition client_ok :: "int set \<Rightarrow> int set \<Rightarrow> (int \<times> int) list \<Rightarrow> bool" where
  "client_ok whole unheld hs \<longleftrightarrow> held_apart unheld hs \<and> unheld \<union> held_set hs = whole"

locale allocator =
  fixes good :: "'m \<Rightarrow> bool" and free_set :: "'m \<Rightarrow> int set" and lost_set :: "'m \<Rightarrow> int set"
    and alloc :: "'m \<Rightarrow> int \<Rightarrow> (int \<times> 'm) option" and release :: "'m \<Rightarrow> int \<Rightarrow> int \<Rightarrow> 'm option"
  assumes alloc_law: "\<lbrakk>good m; 0 < n; alloc m n = Some (a, m1)\<rbrakk> \<Longrightarrow>
      good m1 \<and> 0 < a \<and> {a..<a + n} \<inter> (free_set m1 \<union> lost_set m1) = {}
      \<and> free_set m \<union> lost_set m = {a..<a + n} \<union> (free_set m1 \<union> lost_set m1)"
    and release_law: "\<lbrakk>good m; 0 < a; 0 < n; {a..<a + n} \<inter> (free_set m \<union> lost_set m) = {}\<rbrakk> \<Longrightarrow>
      \<exists>m1. release m n a = Some m1 \<and> good m1
        \<and> free_set m1 \<union> lost_set m1 = free_set m \<union> lost_set m \<union> {a..<a + n}"
begin

text \<open>What nobody holds.\<close>

definition unheld :: "'m \<Rightarrow> int set" where
  "unheld m = free_set m \<union> lost_set m"

lemma alloc_keeps:
  assumes "good m" "client_ok whole (unheld m) hs" "0 < n" "alloc m n = Some (a, m1)"
  shows "good m1" "client_ok whole (unheld m1) ((a, n) # hs)"
proof -
  note l = alloc_law [OF assms(1,3,4)]
  show "good m1" using l by blast
  have "unheld m1 \<union> {a..<a + n} = unheld m" using l by (auto simp: unheld_def)
  then show "client_ok whole (unheld m1) ((a, n) # hs)"
    using assms(2,3) l by (auto simp: client_ok_def unheld_def)
qed

lemma release_keeps:
  assumes "good m" "client_ok whole (unheld m) hs" "i < length hs" "hs ! i = (a, n)"
  shows "\<exists>m1. release m n a = Some m1 \<and> good m1 \<and> client_ok whole (unheld m1) (take i hs @ drop (Suc i) hs)"
proof -
  have c: "held_apart (unheld m) hs" "unheld m \<union> held_set hs = whole" using assms(2) by (simp_all add: client_ok_def)
  note d = held_apart_drop [OF c(1) assms(3,4)]
  then have "0 < a" "0 < n" "{a..<a + n} \<inter> (free_set m \<union> lost_set m) = {}" by (auto simp: unheld_def)
  from release_law [OF assms(1) this] obtain m1 where
    r: "release m n a = Some m1" "good m1" "unheld m1 = unheld m \<union> {a..<a + n}" by (auto simp: unheld_def)
  have "client_ok whole (unheld m1) (take i hs @ drop (Suc i) hs)"
    using d c(2) r(3) by (auto simp: client_ok_def)
  then show ?thesis using r by blast
qed

end

section \<open>The resource map as an allocator\<close>

definition rm_inv :: "rmap \<Rightarrow> bool" where
  "rm_inv mp \<longleftrightarrow> rm_ok mp \<and> 2 \<le> m_limit mp"

definition rm_alloc :: "rmap \<Rightarrow> int \<Rightarrow> (int \<times> rmap) option" where
  "rm_alloc mp n = (case rmalloc mp n of Inr (a, mp1) \<Rightarrow> (if a = 0 then None else Some (a, mp1)) | Inl _ \<Rightarrow> None)"

definition rm_release :: "rmap \<Rightarrow> int \<Rightarrow> int \<Rightarrow> rmap option" where
  "rm_release mp n a = (case rmfree mp n a of Inr mp1 \<Rightarrow> Some mp1 | Inl _ \<Rightarrow> None)"

text \<open>Lost segments were free ones, so that they stay apart from what is allocated later.\<close>

definition rm_kept :: "rmap \<Rightarrow> bool" where
  "rm_kept mp \<longleftrightarrow> rm_inv mp \<and> mp_free mp \<inter> rm_free (m_lost mp) = {}"

interpretation rm: allocator rm_kept mp_free "\<lambda>mp. rm_free (m_lost mp)" rm_alloc rm_release
proof unfold_locales
  fix m n a m1
  assume a: "rm_kept m" "0 < n" "rm_alloc m n = Some (a, m1)"
  then have r: "rmalloc m n = Inr (a, m1)" "a \<noteq> 0"
    by (auto simp: rm_alloc_def split: sum.splits if_splits)
  have ok: "rm_ok m" using a(1) by (simp add: rm_kept_def rm_inv_def)
  note l = rmalloc_ok [OF ok a(2) r(1)]
  show "rm_kept m1 \<and> 0 < a \<and> {a..<a + n} \<inter> (mp_free m1 \<union> rm_free (m_lost m1)) = {}
      \<and> mp_free m \<union> rm_free (m_lost m) = {a..<a + n} \<union> (mp_free m1 \<union> rm_free (m_lost m1))"
    using l(1-3) l(5) [OF r(2)] a(1) by (auto simp: rm_kept_def rm_inv_def)
next
  fix m a n
  assume a: "rm_kept m" "0 < a" "0 < n" "{a..<a + n} \<inter> (mp_free m \<union> rm_free (m_lost m)) = {}"
  have "rm_ok m" "2 \<le> m_limit m" using a(1) by (simp_all add: rm_kept_def rm_inv_def)
  moreover have d: "{a..<a + n} \<inter> mp_free m = {}" "{a..<a + n} \<inter> rm_free (m_lost m) = {}" using a(4) by blast+
  ultimately obtain m1 gone where r: "rmfree m n a = Inr m1" "rm_ok m1" "m_limit m1 = m_limit m" "m_lost m1 = m_lost m @ gone"
    "mp_free m1 \<union> rm_free gone = mp_free m \<union> {a..<a + n}" "mp_free m1 \<inter> rm_free gone = {}"
    using rmfree_ok [OF _ a(2,3)] by blast
  have "mp_free m1 \<inter> rm_free (m_lost m1) = {}"
    using r(4-6) d a(1) unfolding rm_kept_def by auto
  moreover have "mp_free m1 \<union> rm_free (m_lost m1) = mp_free m \<union> rm_free (m_lost m) \<union> {a..<a + n}"
    using r(4,5) by auto
  ultimately show "\<exists>m1. rm_release m n a = Some m1 \<and> rm_kept m1
      \<and> mp_free m1 \<union> rm_free (m_lost m1) = mp_free m \<union> rm_free (m_lost m) \<union> {a..<a + n}"
    using r(1-3) a(1) by (simp add: rm_release_def rm_kept_def rm_inv_def)
qed

section \<open>Properties\<close>

text \<open>C20: \<open>rmalloc\<close> is first fit: it takes the lowest range of free addresses that is long
  enough, and nothing else, and fails with 0 only when there is none.\<close>

theorem rmalloc_takes_first_fit:
  assumes "rm_ok mp" "0 < sz" "rmalloc mp sz = Inr (a, mp1)"
  shows "rm_ok mp1
    \<and> (if a = 0 then mp1 = mp \<and> (\<forall>x. \<not> {x..<x + sz} \<subseteq> mp_free mp)
       else {a..<a + sz} \<subseteq> mp_free mp \<and> (\<forall>x. {x..<x + sz} \<subseteq> mp_free mp \<longrightarrow> a \<le> x)
         \<and> mp_free mp1 = mp_free mp - {a..<a + sz})"
  using rmalloc_ok [OF assms] by auto

definition ex_map :: rmap where
  "ex_map = \<lparr>m_limit = 4, m_ents = [seg 1 2, seg 10 5, seg 20 9], m_lost = []\<rparr>"

lemma ex_map_ok: "rm_ok ex_map"
  by (simp add: rm_ok_def ex_map_def)

theorem rmalloc_takes_first_fit_witness:
  "rmalloc ex_map 4 = Inr (10, ex_map\<lparr>m_ents := [seg 1 2, seg 14 1, seg 20 9]\<rparr>)
   \<and> mp_free (ex_map\<lparr>m_ents := [seg 1 2, seg 14 1, seg 20 9]\<rparr>) = mp_free ex_map - {10..<14}"
proof -
  have r: "rmalloc ex_map 4 = Inr (10, ex_map\<lparr>m_ents := [seg 1 2, seg 14 1, seg 20 9]\<rparr>)"
    by (simp add: rmalloc_def ex_map_def)
  show ?thesis using rmalloc_takes_first_fit [OF ex_map_ok _ r] r by simp
qed

text \<open>No segment reaches the largest \<open>long\<close>.\<close>

definition long_ents :: "mapent list \<Rightarrow> bool" where
  "long_ents bs \<longleftrightarrow> (\<forall>b\<in>set bs. m_end b < 9223372036854775808)"

lemma rm_sorted_mem: "rm_sorted lo bs \<Longrightarrow> b \<in> set bs \<Longrightarrow> lo < m_addr b \<and> 0 < m_size b"
proof (induction bs arbitrary: lo)
  case (Cons c bs)
  then have "rm_sorted lo bs" using rm_sorted_weaken [of "m_end c" bs lo] by (simp add: m_end_def)
  then show ?case using Cons by auto
qed simp

lemma rmfree_long_same:
  assumes "rm_ok mp" "long_ents (m_ents mp)" "0 \<le> addr" "addr + sz < 9223372036854775808"
  shows "rmfree_long mp sz addr = rmfree mp sz addr"
proof (cases "addr = 0 \<or> sz \<le> 0")
  case True
  then show ?thesis by (simp add: rmfree_long_def rmfree_def)
next
  case False
  then have p: "0 < addr" "0 < sz" using assms(3) by simp_all
  define left where "left = takeWhile (\<lambda>b. m_addr b \<le> addr) (m_ents mp)"
  define right where "right = dropWhile (\<lambda>b. m_addr b \<le> addr) (m_ents mp)"
  have mem: "0 < m_addr b" "0 < m_size b" "m_addr b + m_size b < 9223372036854775808" if "b \<in> set (m_ents mp)" for b
    using that rm_sorted_mem [of 0 "m_ents mp" b] assms(1,2) by (auto simp: rm_ok_def long_ents_def m_end_def)
  have l: "last left \<in> set (m_ents mp)" if "left \<noteq> []"
    using that last_in_set [OF that] set_takeWhileD unfolding left_def by metis
  have r: "b \<in> set (m_ents mp)" if "right = b # bs" for b bs
    using that set_dropWhileD [of b "\<lambda>b. m_addr b \<le> addr" "m_ents mp"] by (simp add: right_def)
  have e: "s64 (addr + sz) = addr + sz" using p assms(4) by (intro s64_id) auto
  have ends: "left \<noteq> [] \<Longrightarrow> m_end_long (last left) = m_end (last left)"
    using mem [OF l] by (simp add: m_end_long_def m_end_def s64_id)
  have one: "s64 (m_size (last left) + sz) = m_size (last left) + sz" if "left \<noteq> []" "m_end (last left) = addr"
    using mem [OF l [OF that(1)]] that p assms(4) by (intro s64_id) (auto simp: m_end_def)
  have two: "s64 (m_size (last left) + sz + m_size b) = m_size (last left) + sz + m_size b"
    if "left \<noteq> []" "m_end (last left) = addr" "right = b # bs" "addr + sz = m_addr b" for b bs
    using mem [OF l [OF that(1)]] mem [OF r [OF that(3)]] that p by (intro s64_id) (auto simp: m_end_def)
  have three: "s64 (m_addr b - sz) = m_addr b - sz" "s64 (m_size b + sz) = m_size b + sz" if "right = b # bs" "addr + sz = m_addr b" for b bs
    using mem [OF r [OF that(1)]] that p by (auto intro!: s64_id)
  show ?thesis
    unfolding rmfree_long_def rmfree_def Let_def left_def [symmetric] right_def [symmetric]
    using False e ends one two three by (cases right) auto
qed

text \<open>C22: with the arithmetic of \<open>long\<close>s, as long as no free segment and not the range itself reaches
  the largest \<open>long\<close>, \<open>rmfree\<close> panics exactly on the address 0, on a size that is not positive and on a
  range that is free in part: its two tests of the neighbours find every overlap.\<close>

theorem rmfree_panics_iff:
  assumes "rm_ok mp" "2 \<le> m_limit mp" "0 \<le> addr" "long_ents (m_ents mp)" "addr + sz < 9223372036854775808"
  shows "rmfree_long mp sz addr = Inl RmPanic \<longleftrightarrow> addr = 0 \<or> sz \<le> 0 \<or> {addr..<addr + sz} \<inter> mp_free mp \<noteq> {}"
proof (cases "addr = 0 \<or> sz \<le> 0")
  case True
  then show ?thesis by (auto simp: rmfree_long_def)
next
  case False
  then have p: "0 < addr" "0 < sz" using assms(3) by simp_all
  note same = rmfree_long_same [OF assms(1,4,3,5)]
  show ?thesis
  proof (cases "{addr..<addr + sz} \<inter> mp_free mp = {}")
    case True
    from rmfree_ok [OF assms(1) p True assms(2)] obtain mp1 where "rmfree mp sz addr = Inr mp1" by blast
    then show ?thesis using False True same by simp
  next
    case no: False
    then have "rmfree mp sz addr = Inl RmPanic" unfolding rmfree_cases [OF assms(1) p refl refl] by simp
    then show ?thesis using no same by simp
  qed
qed

theorem rmfree_panics_iff_witness:
  "(rmfree_long ex_map 3 8 = Inl RmPanic) = ({8..<8 + 3 :: int} \<inter> mp_free ex_map \<noteq> {})"
  using rmfree_panics_iff [OF ex_map_ok, of 8 3] by (simp add: ex_map_def long_ents_def)

text \<open>Without the bound an overlap goes unnoticed: the end of the range wraps around.\<close>

theorem rmfree_wrap_unnoticed:
  "\<exists>mp'. rmfree_long ex_map 9223372036854775807 8 = Inr mp' \<and> {8..<8 + 9223372036854775807} \<inter> mp_free ex_map \<noteq> {}"
proof -
  have "\<exists>mp'. rmfree_long ex_map 9223372036854775807 8 = Inr mp'"
    by (simp add: rmfree_long_def ex_map_def m_end_long_def rm_insert_def s64_def)
  moreover have "10 \<in> {8..<8 + 9223372036854775807 :: int} \<inter> mp_free ex_map" by (simp add: mp_free_def ex_map_def)
  ultimately show ?thesis by blast
qed

text \<open>C21: freeing what was allocated restores the map, segment by segment.\<close>

theorem rmalloc_rmfree_roundtrip:
  assumes "rm_ok mp" "2 \<le> m_limit mp" "0 < sz" "rmalloc mp sz = Inr (a, mp1)" "a \<noteq> 0"
  shows "rmfree mp1 sz a = Inr mp"
proof -
  note l = rmalloc_ok [OF assms(1,3,4)]
  note f = l(5) [OF assms(5)]
  have d: "{a..<a + sz} \<inter> mp_free mp1 = {}" and a: "0 < a" and lim: "2 \<le> m_limit mp1" using f l(2) assms(2) by auto
  define left where "left = takeWhile (\<lambda>b. m_addr b \<le> a) (m_ents mp1)"
  define right where "right = dropWhile (\<lambda>b. m_addr b \<le> a) (m_ents mp1)"
  note c = rmfree_cases [OF l(1) a assms(3) left_def right_def]
  have s: "rm_sorted 0 (m_ents mp1)" "rm_sorted 0 (m_ents mp)" using l(1) assms(1) by (simp_all add: rm_ok_def)
  note p = rmfree_place [OF s(1) a assms(3) left_def right_def]
  have dd: "rm_top 0 left \<le> a" "right \<noteq> [] \<longrightarrow> a + sz \<le> m_addr (hd right)" using p(5) d by (simp_all add: mp_free_def)
  note put = rm_put_ok [OF p(2,3) a assms(3) dd]
  have "rm_free (rm_put left right a sz) = rm_free (m_ents mp)"
    using put(2) f p(1) by (auto simp: mp_free_def)
  then have E: "rm_put left right a sz = m_ents mp" using rm_unique [OF put(1) s(2)] by blast
  have M: "mp1\<lparr>m_ents := m_ents mp\<rparr> = mp" using l(2,3) by simp
  show ?thesis
  proof (cases "(left = [] \<or> m_end (last left) \<noteq> a) \<and> (right = [] \<or> m_addr (hd right) \<noteq> a + sz)")
    case True
    then have "left @ seg a sz # right = m_ents mp" using E by (auto simp: rm_put_def)
    moreover from this have "length (left @ seg a sz # right) + 1 \<le> m_limit mp1"
      using assms(1) l(2) by (simp add: rm_ok_def)
    ultimately show ?thesis using c True d M by (simp add: rm_insert_def Let_def)
  next
    case False
    then show ?thesis using c d E M by auto
  qed
qed

theorem rmalloc_rmfree_roundtrip_witness:
  "rmfree (ex_map\<lparr>m_ents := [seg 1 2, seg 20 9]\<rparr>) 5 10 = Inr ex_map"
proof -
  have "rmalloc ex_map 5 = Inr (10, ex_map\<lparr>m_ents := [seg 1 2, seg 20 9]\<rparr>)"
    by (simp add: rmalloc_def ex_map_def)
  from rmalloc_rmfree_roundtrip [OF ex_map_ok _ _ this] show ?thesis by (simp add: ex_map_def)
qed

text \<open>\<open>rmget\<close> takes a given range if it is free and there is a slot for the piece behind
  it, and leaves the map alone otherwise.\<close>

theorem rmget_takes_range:
  assumes "rm_ok mp" "0 < sz" "0 < addr" "addr < 2 ^ 31"
  shows "\<exists>r mp1. rmget mp sz addr = Inr (r, mp1) \<and> rm_ok mp1
    \<and> (if r = addr then {addr..<addr + sz} \<subseteq> mp_free mp \<and> mp_free mp1 = mp_free mp - {addr..<addr + sz}
       else r = 0 \<and> mp1 = mp \<and> \<not> ({addr..<addr + sz} \<subseteq> mp_free mp \<and> length (m_ents mp) + 1 < m_limit mp))"
  using rmget_ok [OF assms] assms(3) by fastforce

theorem rmget_takes_range_witness:
  "\<exists>mp1. rmget ex_map 2 11 = Inr (0, mp1) \<and> mp1 = ex_map \<and> \<not> length (m_ents ex_map) + 1 < m_limit ex_map"
proof -
  have r: "rmget ex_map 2 11 = Inr (0, ex_map)"
    by (simp add: rmget_def ex_map_def m_end_def seg_def)
  from rmget_takes_range [OF ex_map_ok, of 2 11] show ?thesis unfolding r by (simp add: ex_map_def)
qed

text \<open>Its result is an \<open>int\<close>: a range at an address that needs more bits is taken, and the
  result is another address or the 0 of a failure.\<close>

theorem rmget_truncates_address:
  "rmget \<lparr>m_limit = 4, m_ents = [seg 0x100000000 8], m_lost = []\<rparr> 8 0x100000000
   = Inr (0, \<lparr>m_limit = 4, m_ents = [], m_lost = []\<rparr>)"
  by (simp add: rmget_def s32_def m_end_def seg_def)

section \<open>A client\<close>

datatype rm_req = Alloc int | Release nat

text \<open>
  The requests of one client, or of all of them together; \<open>Release i\<close> gives back the range at
  place \<open>i\<close> of those held.  \<open>None\<close>: a panic.
\<close>

fun rm_run :: "rmap \<Rightarrow> (int \<times> int) list \<Rightarrow> rm_req list \<Rightarrow> (rmap \<times> (int \<times> int) list) option" where
  "rm_run mp hs [] = Some (mp, hs)"
| "rm_run mp hs (Alloc n # rs) =
     (case rmalloc mp n of
        Inl e \<Rightarrow> None
      | Inr (a, mp1) \<Rightarrow> rm_run mp1 (if a = 0 then hs else (a, n) # hs) rs)"
| "rm_run mp hs (Release i # rs) =
     (if i < length hs
      then (case rmfree mp (snd (hs ! i)) (fst (hs ! i)) of
              Inl e \<Rightarrow> None
            | Inr mp1 \<Rightarrow> rm_run mp1 (take i hs @ drop (Suc i) hs) rs)
      else rm_run mp hs rs)"

definition req_ok_size :: "rm_req \<Rightarrow> bool" where
  "req_ok_size r = (case r of Alloc n \<Rightarrow> 0 < n | Release i \<Rightarrow> True)"

lemma rm_run_keeps:
  assumes "rm_kept mp" "client_ok whole (rm.unheld mp) hs" "list_all req_ok_size rs"
  shows "\<exists>mp1 hs1. rm_run mp hs rs = Some (mp1, hs1) \<and> rm_kept mp1 \<and> client_ok whole (rm.unheld mp1) hs1"
  using assms
proof (induction mp hs rs rule: rm_run.induct)
  case (2 mp hs n rs)
  have r: "req_ok_size (Alloc n)" and n2: "list_all req_ok_size rs" using "2.prems"(3) by simp_all
  have n: "0 < n" "list_all req_ok_size rs" using r n2 by (simp_all add: req_ok_size_def [of "Alloc n"])
  obtain a mp1 where r: "rmalloc mp n = Inr (a, mp1)"
    using n(1) by (cases "first_fit n (m_ents mp)") (auto simp: rmalloc_def)
  show ?case
  proof (cases "a = 0")
    case True
    then have "mp1 = mp" using rmalloc_ok(7) [OF _ n(1) r] "2.prems"(1) by (auto simp: rm_kept_def rm_inv_def)
    then show ?thesis using "2.IH" [OF r refl] "2.prems" n True r by simp
  next
    case False
    then have "rm_alloc mp n = Some (a, mp1)" using r by (simp add: rm_alloc_def)
    from rm.alloc_keeps [OF "2.prems"(1,2) n(1) this] show ?thesis using "2.IH" [OF r refl] n r False by simp
  qed
next
  case (3 mp hs i rs)
  show ?case
  proof (cases "i < length hs")
    case True
    obtain a n where h: "hs ! i = (a, n)" by (cases "hs ! i")
    from rm.release_keeps [OF "3.prems"(1,2) True h] obtain mp1 where
      m: "rm_release mp n a = Some mp1" "rm_kept mp1" "client_ok whole (rm.unheld mp1) (take i hs @ drop (Suc i) hs)" by blast
    then have r: "rmfree mp n a = Inr mp1" by (auto simp: rm_release_def split: sum.splits)
    then show ?thesis using "3.IH"(1) [OF True, of mp1] "3.prems"(3) m h True by (simp add: req_ok_size_def)
  next
    case False
    then show ?thesis using "3.IH"(2) "3.prems" by simp
  qed
qed auto

text \<open>C4: from \<open>rminit\<close> on, any sequence of allocations and releases runs without a panic,
  keeps the map in order, never hands out an address twice and loses none but those reported:
  the ranges held are apart from each other and from the free ones, and together with the
  lost segments they are the range the map started with.\<close>

theorem rmap_never_hands_out_twice:
  assumes "0 < addr" "0 < sz" "3 \<le> mapsize" "list_all req_ok_size rs"
  shows "\<exists>mp hs. rm_run (rminit sz addr mapsize) [] rs = Some (mp, hs) \<and> rm_ok mp
    \<and> held_apart (mp_free mp \<union> rm_free (m_lost mp)) hs
    \<and> mp_free mp \<inter> rm_free (m_lost mp) = {}
    \<and> mp_free mp \<union> rm_free (m_lost mp) \<union> held_set hs = {addr..<addr + sz}"
proof -
  have "rm_kept (rminit sz addr mapsize)" "client_ok {addr..<addr + sz} (rm.unheld (rminit sz addr mapsize)) []"
    using assms(1-3) by (auto simp: rm_kept_def rm_inv_def rm_ok_def rminit_def client_ok_def rm.unheld_def mp_free_def)
  from rm_run_keeps [OF this assms(4)] show ?thesis
    by (auto simp: rm_kept_def rm_inv_def client_ok_def rm.unheld_def)
qed

theorem rmap_never_hands_out_twice_witness:
  "rm_run (rminit 9 1 3) [] [Alloc 3, Alloc 2, Alloc 2, Release 2, Release 0]
   = Some (\<lparr>m_limit = 2, m_ents = [seg 6 4], m_lost = [seg 1 3]\<rparr>, [(4, 2)])
   \<and> held_apart ({6..<10} \<union> {1..<4}) [(4, 2)]"
proof -
  have r: "rm_run (rminit 9 1 3) [] [Alloc 3, Alloc 2, Alloc 2, Release 2, Release 0]
     = Some (\<lparr>m_limit = 2, m_ents = [seg 6 4], m_lost = [seg 1 3]\<rparr>, [(4, 2)])"
    by (simp add: rminit_def rmalloc_def rmfree_def rm_insert_def seg_def m_end_def Let_def)
  have "list_all req_ok_size [Alloc 3, Alloc 2, Alloc 2, Release 2, Release 0]" by (simp add: req_ok_size_def)
  from rmap_never_hands_out_twice [OF _ _ _ this, of 1 9 3] show ?thesis
    unfolding r by (simp add: mp_free_def)
qed

end
