(* ===== verification/Mbuf.thy ===== *)
theory Mbuf
  imports OSF_Prelude "HOL-Library.Word"
begin

unbundle bit_operations_syntax

text \<open>
  Network buffers, \<open>bsd/uipc_mbuf.c\<close> with the macros of \<open>sys/mbuf.h\<close>, on the Alpha.

  A chain is the list of its mbufs; each owns its internal data area \<open>m_store\<close> and may use a
  cluster instead, which several mbufs share.  The ring of references of a cluster is kept as
  its size.  An mbuf belongs to one chain; the packet header and the description of the
  cluster, which the C structure lays over the first bytes of the data area, are fields of
  their own, and the bytes below \<open>m_pktdat\<close> are not data of an mbuf with a header.
\<close>

section \<open>State\<close>

definition MSIZE :: nat where "MSIZE = 256"

text \<open>\<open>sizeof (struct m_hdr)\<close> is 72 and \<open>sizeof (struct pkthdr)\<close> is 16.\<close>

definition MLEN :: nat where "MLEN = MSIZE - 72"
definition MHLEN :: nat where "MHLEN = MLEN - 16"

definition M_EXT :: "32 word" where "M_EXT = 0x0001"
definition M_PKTHDR :: "32 word" where "M_PKTHDR = 0x0002"
definition M_FASTFREE :: "32 word" where "M_FASTFREE = 0x0008"
definition M_COPYFLAGS :: "32 word" where "M_COPYFLAGS = 0x0002 OR 0x0004 OR 0x0100 OR 0x0200 OR 0x0400"
definition M_COPYALL :: int where "M_COPYALL = 1000000000"

record mbuf =
  m_flags :: "32 word"
  m_type :: nat
  m_data :: nat          \<comment> \<open>offset in the data area in use\<close>
  m_len :: nat
  m_pktlen :: int        \<comment> \<open>\<open>m_pkthdr.len\<close>\<close>
  m_store :: "8 word list"
  m_ext_buf :: nat       \<comment> \<open>the cluster\<close>

type_synonym chain = "mbuf list"

record mb_state =
  mb_bytes :: "nat \<Rightarrow> 8 word list"  \<comment> \<open>contents of the clusters\<close>
  mb_refs :: "nat \<Rightarrow> nat"           \<comment> \<open>size of the ring \<open>ext_ref\<close>; 0: not in use\<close>
  mb_custom :: "nat \<Rightarrow> bool"        \<comment> \<open>\<open>ext_free\<close> is set\<close>
  mb_freed :: "nat list"             \<comment> \<open>clusters given back\<close>
  mfreelater :: chain
  mb_tries :: nat                    \<comment> \<open>calls of \<open>MALLOC\<close> so far\<close>
  m_mbufs :: int
  m_clusters :: int
  m_drops :: nat

text \<open>
  Outside: which calls of \<open>MALLOC\<close> succeed, the cluster each of them gives, what the memory it
  gives contains (\<open>me_new\<close> read as an mbuf, \<open>me_page\<close> as a cluster), \<open>max_protohdr\<close>.
\<close>

record mb_env =
  me_malloc :: "nat \<Rightarrow> bool"
  me_cluster :: "nat \<Rightarrow> nat"
  me_new :: "nat \<Rightarrow> mbuf"
  me_page :: "nat \<Rightarrow> 8 word list"
  max_protohdr :: int

definition ext_on :: "mbuf \<Rightarrow> bool" where
  "ext_on m \<longleftrightarrow> m_flags m AND M_EXT \<noteq> 0"

definition hdr_on :: "mbuf \<Rightarrow> bool" where
  "hdr_on m \<longleftrightarrow> m_flags m AND M_PKTHDR \<noteq> 0"

text \<open>The area in use and the data (\<open>mtod\<close>).\<close>

definition m_area :: "mb_state \<Rightarrow> mbuf \<Rightarrow> 8 word list" where
  "m_area st m = (if ext_on m then mb_bytes st (m_ext_buf m) else m_store m)"

definition mtod :: "mb_state \<Rightarrow> mbuf \<Rightarrow> 8 word list" where
  "mtod st m = take (m_len m) (drop (m_data m) (m_area st m))"

definition put_bytes :: "nat \<Rightarrow> 8 word list \<Rightarrow> 8 word list \<Rightarrow> 8 word list" where
  "put_bytes i bs a = take i a @ bs @ drop (i + length bs) a"

section \<open>Allocation and release\<close>

text \<open>
  \<open>MALLOC\<close> and the assignments of \<open>MGET\<close>: flags, type and data pointer are set, the length, the
  packet header and the data area hold whatever the memory held.
\<close>

definition mget_try :: "mb_env \<Rightarrow> nat \<Rightarrow> mb_state \<Rightarrow> mbuf option \<times> mb_state" where
  "mget_try env type st =
     (let st1 = st\<lparr>mb_tries := mb_tries st + 1\<rparr> in
      if me_malloc env (mb_tries st)
      then (Some ((me_new env (mb_tries st))\<lparr>m_flags := 0, m_type := type, m_data := 0\<rparr>),
            st1\<lparr>m_mbufs := m_mbufs st + 1\<rparr>)
      else (None, st1))"

text \<open>\<open>MGET\<close> with \<open>m_retry\<close>: a caller that may wait gets a second attempt.\<close>

definition MGET :: "mb_env \<Rightarrow> bool \<Rightarrow> nat \<Rightarrow> mb_state \<Rightarrow> mbuf option \<times> mb_state" where
  "MGET env wait type st =
     (case mget_try env type st of
        (Some m, st1) \<Rightarrow> (Some m, st1)
      | (None, st1) \<Rightarrow>
          (case (if wait then mget_try env type st1 else (None, st1)) of
             (Some m, st2) \<Rightarrow> (Some m, st2)
           | (None, st2) \<Rightarrow> (None, st2\<lparr>m_drops := m_drops st2 + 1\<rparr>)))"

definition m_pktdat :: nat where "m_pktdat = MLEN - MHLEN"

text \<open>\<open>MGETHDR\<close> with \<open>m_retryhdr\<close>, and \<open>m_getclr\<close>.\<close>

definition MGETHDR :: "mb_env \<Rightarrow> bool \<Rightarrow> nat \<Rightarrow> mb_state \<Rightarrow> mbuf option \<times> mb_state" where
  "MGETHDR env wait type st =
     (case MGET env wait type st of (r, st1) \<Rightarrow> (map_option (\<lambda>m. m\<lparr>m_flags := M_PKTHDR, m_data := m_pktdat\<rparr>) r, st1))"

definition m_getclr :: "mb_env \<Rightarrow> bool \<Rightarrow> nat \<Rightarrow> mb_state \<Rightarrow> mbuf option \<times> mb_state" where
  "m_getclr env wait type st =
     (case MGET env wait type st of (r, st1) \<Rightarrow> (map_option (\<lambda>m. m\<lparr>m_store := put_bytes (m_data m) (replicate MLEN 0) (m_store m)\<rparr>) r, st1))"

text \<open>\<open>m_clalloc8\<close> and \<open>m_clalloc2\<close> with an mbuf, by the size of the cluster.\<close>

definition MCLBYTES :: nat where "MCLBYTES = 8192"
definition MCL2KBYTES :: nat where "MCL2KBYTES = 2048"

definition cl_try :: "mb_env \<Rightarrow> mb_state \<Rightarrow> nat option \<times> mb_state" where
  "cl_try env st =
     (if me_malloc env (mb_tries st) then Some (me_cluster env (mb_tries st)) else None, st\<lparr>mb_tries := mb_tries st + 1\<rparr>)"

definition m_clalloc_size :: "nat \<Rightarrow> mb_env \<Rightarrow> bool \<Rightarrow> mbuf \<Rightarrow> mb_state \<Rightarrow> mbuf \<times> mb_state" where
  "m_clalloc_size sz env canwait m st =
     (let (r1, st1) = cl_try env st;
          (r2, st2) = (if r1 = None \<and> canwait then cl_try env st1 else (r1, st1))
      in case r2 of
        None \<Rightarrow> (m, st2\<lparr>m_drops := m_drops st2 + 1\<rparr>)
      | Some c \<Rightarrow> (m\<lparr>m_data := 0, m_ext_buf := c, m_flags := m_flags m OR M_EXT\<rparr>,
          st2\<lparr>mb_bytes := (mb_bytes st2)(c := take sz (me_page env c)), mb_refs := (mb_refs st2)(c := 1),
              mb_custom := (mb_custom st2)(c := False), m_clusters := m_clusters st2 + 1\<rparr>))"

definition m_clalloc8 :: "mb_env \<Rightarrow> bool \<Rightarrow> mbuf \<Rightarrow> mb_state \<Rightarrow> mbuf \<times> mb_state" where
  "m_clalloc8 env canwait m st = m_clalloc_size MCLBYTES env canwait m st"

definition m_clalloc2 :: "mb_env \<Rightarrow> bool \<Rightarrow> mbuf \<Rightarrow> mb_state \<Rightarrow> mbuf \<times> mb_state" where
  "m_clalloc2 env canwait m st = m_clalloc_size MCL2KBYTES env canwait m st"

text \<open>
  A buffer from elsewhere becomes the cluster of an mbuf, with a routine of its own to free it:
  the body of the loop of \<open>mblk_to_mbuf\<close> for one stream buffer, and \<open>mclgetx\<close>
  (\<open>rpc/subr_kudp.c\<close>), whose buffers may be freed at once.  The buffer \<open>c\<close> holds \<open>bs\<close>.
\<close>

definition mblk_attach :: "nat \<Rightarrow> 8 word list \<Rightarrow> nat \<Rightarrow> nat \<Rightarrow> mbuf \<Rightarrow> mb_state \<Rightarrow> mbuf \<times> mb_state" where
  "mblk_attach c bs rptr len m st =
     (m\<lparr>m_data := rptr, m_len := len, m_flags := m_flags m OR M_EXT, m_ext_buf := c\<rparr>,
      st\<lparr>mb_bytes := (mb_bytes st)(c := bs), mb_refs := (mb_refs st)(c := 1), mb_custom := (mb_custom st)(c := True)\<rparr>)"

definition MT_DATA :: nat where "MT_DATA = 1"

definition mclgetx :: "mb_env \<Rightarrow> bool \<Rightarrow> nat \<Rightarrow> 8 word list \<Rightarrow> mb_state \<Rightarrow> mbuf option \<times> mb_state" where
  "mclgetx env wait c bs st =
     (case MGET env wait MT_DATA st of
        (None, st1) \<Rightarrow> (None, st1)
      | (Some m, st1) \<Rightarrow>
          (Some (m\<lparr>m_flags := m_flags m OR (M_EXT OR M_FASTFREE), m_data := 0, m_ext_buf := c, m_len := length bs\<rparr>),
           st1\<lparr>mb_bytes := (mb_bytes st1)(c := bs), mb_refs := (mb_refs st1)(c := 1), mb_custom := (mb_custom st1)(c := True)\<rparr>))"

definition MCLREFERENCED :: "mb_state \<Rightarrow> mbuf \<Rightarrow> bool" where
  "MCLREFERENCED st m \<longleftrightarrow> mb_refs st (m_ext_buf m) > 1"

definition cl_unref :: "nat \<Rightarrow> mb_state \<Rightarrow> mb_state" where
  "cl_unref c st = st\<lparr>mb_refs := (mb_refs st)(c := mb_refs st c - 1)\<rparr>"

definition cl_free :: "nat \<Rightarrow> mb_state \<Rightarrow> mb_state" where
  "cl_free c st = (cl_unref c st)\<lparr>mb_freed := mb_freed st @ [c]\<rparr>"

text \<open>
  \<open>m_free\<close>: the cluster goes with its last reference; one with a routine of its own is freed
  later unless the mbuf says otherwise.  The mark \<open>MT_FREE\<close> of a freed mbuf, and the panic on
  it, are left out: an mbuf that is freed is in no chain.
\<close>

definition m_free :: "mbuf \<Rightarrow> mb_state \<Rightarrow> mb_state" where
  "m_free m st =
     (let c = m_ext_buf m; gone = (\<lambda>s. s\<lparr>m_mbufs := m_mbufs s - 1\<rparr>) in
      if \<not> ext_on m then gone st
      else if MCLREFERENCED st m then gone (cl_unref c st)
      else if \<not> mb_custom st c then gone ((cl_free c st)\<lparr>m_clusters := m_clusters st - 1\<rparr>)
      else if m_flags m AND M_FASTFREE \<noteq> 0 then gone (cl_free c st)
      else st\<lparr>mfreelater := m # mfreelater st\<rparr>)"

fun m_freem :: "chain \<Rightarrow> mb_state \<Rightarrow> mb_state" where
  "m_freem [] st = st"
| "m_freem (m # ms) st = m_freem ms (m_free m st)"

text \<open>\<open>mbufintr\<close>; \<open>None\<close>: the panic.\<close>

fun free_later :: "chain \<Rightarrow> mb_state \<Rightarrow> mb_state option" where
  "free_later [] st = Some st"
| "free_later (m # ms) st =
     (if ext_on m
      then (if MCLREFERENCED st m \<or> \<not> mb_custom st (m_ext_buf m) then None
            else free_later ms (m_free (m\<lparr>m_flags := m_flags m AND NOT M_EXT\<rparr>) (cl_free (m_ext_buf m) st)))
      else free_later ms (m_free m st))"

definition mbufintr :: "mb_state \<Rightarrow> mb_state option" where
  "mbufintr st = free_later (mfreelater st) (st\<lparr>mfreelater := []\<rparr>)"

section \<open>Space and headers\<close>

definition m_leadingspace :: "mb_state \<Rightarrow> mbuf \<Rightarrow> int" where
  "m_leadingspace st m =
     (if ext_on m then (if MCLREFERENCED st m then 0 else int (m_data m))
      else if hdr_on m then int (m_data m) - int m_pktdat
      else int (m_data m))"

definition m_trailingspace :: "mb_state \<Rightarrow> mbuf \<Rightarrow> int" where
  "m_trailingspace st m =
     (if ext_on m
      then (if MCLREFERENCED st m then 0 else int (length (mb_bytes st (m_ext_buf m))) - int (m_data m + m_len m))
      else int MLEN - int (m_data m + m_len m))"

definition M_COPY_PKTHDR :: "mbuf \<Rightarrow> mbuf \<Rightarrow> mbuf" where
  "M_COPY_PKTHDR to from =
     to\<lparr>m_pktlen := m_pktlen from, m_flags := m_flags from AND M_COPYFLAGS, m_data := m_pktdat\<rparr>"

definition MH_ALIGN :: "nat \<Rightarrow> mbuf \<Rightarrow> mbuf" where
  "MH_ALIGN len m = m\<lparr>m_data := m_data m + (MHLEN - len) div 8 * 8\<rparr>"

definition m_prepend :: "mb_env \<Rightarrow> nat \<Rightarrow> bool \<Rightarrow> mbuf \<Rightarrow> chain \<Rightarrow> mb_state \<Rightarrow> chain option \<times> mb_state" where
  "m_prepend env len how m ms st =
     (case MGET env how (m_type m) st of
        (None, st1) \<Rightarrow> (None, m_freem (m # ms) st1)
      | (Some mn, st1) \<Rightarrow>
          let mn1 = (if hdr_on m then M_COPY_PKTHDR mn m else mn);
              m1 = (if hdr_on m then m\<lparr>m_flags := m_flags m AND NOT M_PKTHDR\<rparr> else m);
              mn2 = (if len < MHLEN then MH_ALIGN len mn1 else mn1)
          in (Some (mn2\<lparr>m_len := len\<rparr> # m1 # ms), st1))"

definition M_PREPEND :: "mb_env \<Rightarrow> nat \<Rightarrow> bool \<Rightarrow> mbuf \<Rightarrow> chain \<Rightarrow> mb_state \<Rightarrow> chain option \<times> mb_state" where
  "M_PREPEND env plen how m ms st =
     (let (r, st1) =
        (if m_leadingspace st m \<ge> int plen
         then (Some (m\<lparr>m_data := m_data m - plen, m_len := m_len m + plen\<rparr> # ms), st)
         else m_prepend env plen how m ms st)
      in (case r of
            Some (m1 # ms1) \<Rightarrow>
              Some ((if hdr_on m1 then m1\<lparr>m_pktlen := m_pktlen m1 + int plen\<rparr> else m1) # ms1)
          | _ \<Rightarrow> r, st1))"

section \<open>Copying\<close>

text \<open>The search for an offset; \<open>None\<close>: the panic.\<close>

fun m_skip :: "nat \<Rightarrow> chain \<Rightarrow> (nat \<times> chain) option" where
  "m_skip off [] = (if off > 0 then None else Some (0, []))"
| "m_skip off (m # ms) =
     (if off = 0 \<or> off < m_len m then Some (off, m # ms) else m_skip (off - m_len m) ms)"

text \<open>
  The loop of \<open>m_copym\<close>; \<open>acc\<close> is the copy so far.  Clusters are shared, other data copied.
  Outer \<open>None\<close>: the panic, or the null pointer read for its flags; inner \<open>None\<close>: no space, and the copy so far is freed.
\<close>

definition m_copy_one :: "bool \<Rightarrow> nat \<Rightarrow> int \<Rightarrow> int \<Rightarrow> mbuf \<Rightarrow> mbuf \<Rightarrow> mb_state \<Rightarrow> mbuf \<times> mb_state" where
  "m_copy_one copyhdr off off0 len m n st =
     (let n1 = (if copyhdr
                then (M_COPY_PKTHDR n m)\<lparr>m_pktlen := (if len = M_COPYALL then m_pktlen m - off0 else len)\<rparr> else n);
          k = nat (min len (int (m_len m) - int off))
      in if ext_on m
         then (n1\<lparr>m_len := k, m_ext_buf := m_ext_buf m, m_data := m_data m + off, m_flags := m_flags n1 OR M_EXT\<rparr>,
               st\<lparr>mb_refs := (mb_refs st)(m_ext_buf m := mb_refs st (m_ext_buf m) + 1)\<rparr>)
         else (n1\<lparr>m_len := k, m_store := put_bytes (m_data n1) (take k (drop (m_data m + off) (m_store m))) (m_store n1)\<rparr>, st))"

fun m_copy_loop ::
  "mb_env \<Rightarrow> bool \<Rightarrow> bool \<Rightarrow> nat \<Rightarrow> int \<Rightarrow> int \<Rightarrow> chain \<Rightarrow> chain \<Rightarrow> mb_state \<Rightarrow> (chain option \<times> mb_state) option" where
  "m_copy_loop env wait copyhdr off off0 len acc [] st =
     (if len > 0 \<and> len \<noteq> M_COPYALL then None else Some (Some acc, st))"
| "m_copy_loop env wait copyhdr off off0 len acc (m # ms) st =
     (if len \<le> 0 then Some (Some acc, st)
      else case MGET env wait (m_type m) st of
        (None, st1) \<Rightarrow> Some (None, m_freem acc st1)
      | (Some n, st1) \<Rightarrow>
          let (n1, st2) = m_copy_one copyhdr off off0 len m n st1
          in m_copy_loop env wait False 0 off0 (if len = M_COPYALL then len else len - int (m_len n1)) (acc @ [n1]) ms st2)"

definition m_copym :: "mb_env \<Rightarrow> chain \<Rightarrow> int \<Rightarrow> int \<Rightarrow> bool \<Rightarrow> mb_state \<Rightarrow> (chain option \<times> mb_state) option" where
  "m_copym env ms off0 len wait st =
     (if off0 < 0 \<or> len < 0 \<or> off0 = 0 \<and> ms = [] then None
      else case m_skip (nat off0) ms of
        None \<Rightarrow> None
      | Some (off, ms1) \<Rightarrow>
          m_copy_loop env wait (off0 = 0 \<and> hdr_on (hd ms)) off off0 len [] ms1 st)"

text \<open>\<open>m_copydata\<close>: the bytes written to the buffer.\<close>

fun m_copydata_loop :: "mb_state \<Rightarrow> nat \<Rightarrow> nat \<Rightarrow> chain \<Rightarrow> 8 word list option" where
  "m_copydata_loop st off len [] = (if len > 0 then None else Some [])"
| "m_copydata_loop st off len (m # ms) =
     (if len = 0 then Some []
      else let count = min (m_len m - off) len
           in map_option (\<lambda>bs. take count (drop off (mtod st m)) @ bs) (m_copydata_loop st 0 (len - count) ms))"

definition m_copydata :: "mb_state \<Rightarrow> chain \<Rightarrow> int \<Rightarrow> int \<Rightarrow> 8 word list option" where
  "m_copydata st ms off len =
     (if off < 0 \<or> len < 0 then None
      else case m_skip (nat off) ms of
        None \<Rightarrow> None
      | Some (off1, ms1) \<Rightarrow> m_copydata_loop st off1 (nat len) ms1)"

section \<open>Joining and trimming\<close>

definition m_append_data :: "mb_state \<Rightarrow> nat \<Rightarrow> mbuf \<Rightarrow> mbuf \<Rightarrow> mbuf" where
  "m_append_data st k n m =
     m\<lparr>m_store := put_bytes (m_data m + m_len m) (take k (mtod st n)) (m_store m), m_len := m_len m + k\<rparr>"

fun m_cat_loop :: "mbuf \<Rightarrow> chain \<Rightarrow> mb_state \<Rightarrow> chain \<times> mb_state" where
  "m_cat_loop m [] st = ([m], st)"
| "m_cat_loop m (n # ns) st =
     (if ext_on m \<or> m_data m + m_len m + m_len n \<ge> MLEN
      then (if m_len n = 0 then (m # ns, m_free n st) else (m # n # ns, st))
      else m_cat_loop (m_append_data st (m_len n) n m) ns (m_free n st))"

definition m_cat :: "chain \<Rightarrow> chain \<Rightarrow> mb_state \<Rightarrow> chain \<times> mb_state" where
  "m_cat ms ns st = (case m_cat_loop (last ms) ns st of (r, st1) \<Rightarrow> (butlast ms @ r, st1))"

text \<open>\<open>m_adj\<close> from the front: what is left to trim, and the chain.\<close>

fun adj_head :: "nat \<Rightarrow> chain \<Rightarrow> nat \<times> chain" where
  "adj_head len [] = (len, [])"
| "adj_head len (m # ms) =
     (if len = 0 then (0, m # ms)
      else if m_len m \<le> len
      then (case adj_head (len - m_len m) ms of (l, ms1) \<Rightarrow> (l, m\<lparr>m_len := 0\<rparr> # ms1))
      else (0, m\<lparr>m_len := m_len m - len, m_data := m_data m + len\<rparr> # ms))"

fun adj_tail :: "nat \<Rightarrow> chain \<Rightarrow> chain" where
  "adj_tail count [] = []"
| "adj_tail count (m # ms) =
     (if m_len m \<ge> count then m\<lparr>m_len := count\<rparr> # map (\<lambda>m. m\<lparr>m_len := 0\<rparr>) ms
      else m # adj_tail (count - m_len m) ms)"

definition m_length :: "chain \<Rightarrow> nat" where
  "m_length ms = sum_list (map m_len ms)"

definition set_pktlen :: "(int \<Rightarrow> int) \<Rightarrow> chain \<Rightarrow> chain" where
  "set_pktlen f ms = (case ms of [] \<Rightarrow> [] | m # ms1 \<Rightarrow> (if hdr_on m then m\<lparr>m_pktlen := f (m_pktlen m)\<rparr> else m) # ms1)"

definition m_adj :: "chain \<Rightarrow> int \<Rightarrow> chain" where
  "m_adj mp req_len =
     (if mp = [] then []
      else if req_len \<ge> 0
      then (case adj_head (nat req_len) mp of (l, ms) \<Rightarrow> set_pktlen (\<lambda>p. p - (req_len - int l)) ms)
      else
        let len = nat (- req_len); m = last mp
        in if m_len m \<ge> len
           then set_pktlen (\<lambda>p. p - int len) (butlast mp @ [m\<lparr>m_len := m_len m - len\<rparr>])
           else let count = m_length mp - len in adj_tail count (set_pktlen (\<lambda>p. int count) mp))"

section \<open>Pulling up\<close>

text \<open>
  The loop of \<open>m_pullup\<close>; \<open>None\<close>: it does not end.  With \<open>proto\<close> 0 it is the loop of
  \<open>m_pullup_exact\<close>, as \<open>len\<close> is not negative where it is compared.
\<close>

partial_function (option) pull_loop ::
  "int \<Rightarrow> int \<Rightarrow> mbuf \<Rightarrow> int \<Rightarrow> chain \<Rightarrow> mb_state \<Rightarrow> (int \<times> mbuf \<times> chain \<times> mb_state) option" where
  "pull_loop proto len m space ns st =
     (case ns of
        [] \<Rightarrow> None
      | n # ns1 \<Rightarrow>
          let count = nat (min (min (max len proto) space) (int (m_len n)));
              m1 = m_append_data st count n m;
              n1 = n\<lparr>m_len := m_len n - count, m_data := m_data n + count\<rparr>;
              (ns2, st1) = (if m_len n1 \<noteq> 0 then (n1 # ns1, st) else (ns1, m_free n1 st))
          in if len - int count > 0 \<and> ns2 \<noteq> []
             then pull_loop proto (len - int count) m1 (space - int count) ns2 st1
             else Some (len - int count, m1, ns2, st1))"

definition m_pullup_with :: "int \<Rightarrow> mb_env \<Rightarrow> chain \<Rightarrow> int \<Rightarrow> mb_state \<Rightarrow> (chain option \<times> mb_state) option" where
  "m_pullup_with proto env ms len st =
     (let n = hd ms;
          pull = (\<lambda>m ns l s. Option.bind (pull_loop proto l m (int MLEN - int (m_data m + m_len m)) ns s)
                    (\<lambda>(l1, m1, ns1, s1). Some (if l1 > 0 then (None, m_freem ns1 (m_free m1 s1)) else (Some (m1 # ns1), s1))))
      in if \<not> ext_on n \<and> int (m_data n) + len < int MLEN \<and> tl ms \<noteq> []
         then (if int (m_len n) \<ge> len then Some (Some ms, st) else pull n (tl ms) (len - int (m_len n)) st)
         else if len > int MHLEN then Some (None, m_freem ms st)
         else case MGET env False (m_type n) st of
           (None, st1) \<Rightarrow> Some (None, m_freem ms st1)
         | (Some m0, st1) \<Rightarrow>
             let m = m0\<lparr>m_len := 0\<rparr>
             in if hdr_on n
                then pull (M_COPY_PKTHDR m n) (n\<lparr>m_flags := m_flags n AND NOT M_PKTHDR\<rparr> # tl ms) len st1
                else pull m ms len st1)"

definition m_pullup :: "mb_env \<Rightarrow> chain \<Rightarrow> int \<Rightarrow> mb_state \<Rightarrow> (chain option \<times> mb_state) option" where
  "m_pullup env ms len st = m_pullup_with (max_protohdr env) env ms len st"

definition m_pullup_exact :: "mb_env \<Rightarrow> chain \<Rightarrow> int \<Rightarrow> mb_state \<Rightarrow> (chain option \<times> mb_state) option" where
  "m_pullup_exact env ms len st = m_pullup_with 0 env ms len st"

end
