(* ===== verification/Mbuf_Laws.thy ===== *)
theory Mbuf_Laws
  imports Mbuf "HOL-Library.Multiset"
begin

text \<open>
  What every operation on mbufs keeps: the data lies in the area, and each cluster has as many
  references as there are mbufs that use it.
\<close>

section \<open>The invariant\<close>

definition uses :: "nat \<Rightarrow> mbuf \<Rightarrow> bool" where
  "uses c m \<longleftrightarrow> ext_on m \<and> m_ext_buf m = c"

definition refs_to :: "nat \<Rightarrow> chain \<Rightarrow> nat" where
  "refs_to c ms = length (filter (uses c) ms)"

definition mbuf_ok :: "mb_state \<Rightarrow> mbuf \<Rightarrow> bool" where
  "mbuf_ok st m \<longleftrightarrow> length (m_store m) = MLEN \<and> m_data m + m_len m \<le> length (m_area st m)
     \<and> (hdr_on m \<and> \<not> ext_on m \<longrightarrow> m_pktdat \<le> m_data m)"

text \<open>All mbufs in use are in \<open>ms\<close>; those that wait to be freed are apart.\<close>

definition mb_inv :: "mb_state \<Rightarrow> chain \<Rightarrow> bool" where
  "mb_inv st ms \<longleftrightarrow> (\<forall>c. mb_refs st c = refs_to c ms + refs_to c (mfreelater st))
     \<and> (\<forall>m\<in>set ms. mbuf_ok st m)
     \<and> (\<forall>m\<in>set (mfreelater st). ext_on m \<and> mb_custom st (m_ext_buf m) \<and> mb_refs st (m_ext_buf m) = 1)"

lemma refs_to_simps [simp]:
  "refs_to c [] = 0" "refs_to c (m # ms) = (if uses c m then 1 else 0) + refs_to c ms"
  "refs_to c (ms @ ns) = refs_to c ms + refs_to c ns"
  by (simp_all add: refs_to_def)

lemma mb_inv_perm: "mset ms = mset ns \<Longrightarrow> mb_inv st ms = mb_inv st ns"
proof -
  assume e: "mset ms = mset ns"
  then have "refs_to c ms = refs_to c ns" for c
    unfolding refs_to_def by (metis mset_filter size_mset)
  then show ?thesis using mset_eq_setD [OF e] by (simp add: mb_inv_def)
qed

lemma mb_inv_ok: "mb_inv st ms \<Longrightarrow> m \<in> set ms \<Longrightarrow> mbuf_ok st m"
  by (simp add: mb_inv_def)

lemma mb_inv_later:
  "mb_inv st ms \<Longrightarrow> m \<in> set (mfreelater st) \<Longrightarrow> ext_on m \<and> mb_custom st (m_ext_buf m) \<and> mb_refs st (m_ext_buf m) = 1"
  unfolding mb_inv_def by blast

lemma mb_inv_cong:
  assumes "mb_inv st ms" "mb_refs st1 = mb_refs st" "mfreelater st1 = mfreelater st" "mb_bytes st1 = mb_bytes st"
    "mb_custom st1 = mb_custom st" "\<And>c. refs_to c ns = refs_to c ms" "\<And>m. m \<in> set ns \<Longrightarrow> mbuf_ok st m"
  shows "mb_inv st1 ns"
proof -
  have "mbuf_ok st1 = mbuf_ok st" using assms(4) by (simp add: fun_eq_iff mbuf_ok_def m_area_def)
  then show ?thesis using assms(1,7) unfolding mb_inv_def assms(2,3,5,6) by metis
qed

text \<open>
  One piece of work turns the mbufs \<open>ms\<close> into \<open>ns\<close>, whatever other mbufs there are, and leaves
  the contents of all clusters alone.
\<close>

definition mb_step :: "mb_state \<Rightarrow> chain \<Rightarrow> mb_state \<Rightarrow> chain \<Rightarrow> bool" where
  "mb_step st ms st1 ns \<longleftrightarrow> mb_bytes st1 = mb_bytes st \<and> mb_custom st1 = mb_custom st
     \<and> (\<forall>others. mb_inv st (ms @ others) \<longrightarrow> mb_inv st1 (ns @ others))"

lemma mb_step_refl [simp]: "mb_step st ms st ms"
  by (simp add: mb_step_def)

lemma mb_step_trans [trans]: "mb_step st ms st1 ns \<Longrightarrow> mb_step st1 ns st2 ks \<Longrightarrow> mb_step st ms st2 ks"
  by (simp add: mb_step_def)

lemma mb_step_perm: "mb_step st ms st1 ns \<Longrightarrow> mset ms = mset ms' \<Longrightarrow> mset ns = mset ns' \<Longrightarrow> mb_step st ms' st1 ns'"
  unfolding mb_step_def using mb_inv_perm by (metis mset_append)

lemma mb_step_frame:
  assumes "mb_step st ms st1 ns"
  shows "mb_step st (ms @ xs) st1 (ns @ xs)" "mb_step st (xs @ ms) st1 (xs @ ns)"
proof -
  show 1: "mb_step st (ms @ xs) st1 (ns @ xs)" using assms by (simp add: mb_step_def)
  show "mb_step st (xs @ ms) st1 (xs @ ns)" by (rule mb_step_perm [OF 1]) simp_all
qed

lemma mb_step_cons: "mb_step st ms st1 ns \<Longrightarrow> mb_step st (x # ms) st1 (x # ns)"
  using mb_step_frame(2) [of st ms st1 ns "[x]"] by simp

lemma mb_step_bytes:
  assumes "mb_step st ms st1 ns"
  shows "mtod st1 = mtod st" "m_area st1 = m_area st" "mbuf_ok st1 = mbuf_ok st"
  using assms by (auto simp: mb_step_def fun_eq_iff mtod_def m_area_def mbuf_ok_def)

lemma mb_step_inv: "mb_step st ms st1 ns \<Longrightarrow> mb_inv st (ms @ others) \<Longrightarrow> mb_inv st1 (ns @ others)"
  by (simp add: mb_step_def)

text \<open>A change of an mbuf that keeps its cluster.\<close>

lemma mb_step_update:
  assumes "\<And>c. uses c m' = uses c m" "mbuf_ok st m \<Longrightarrow> mbuf_ok st m'"
  shows "mb_step st [m] st [m']"
proof -
  have "mb_inv st (m' # others)" if i: "mb_inv st (m # others)" for others
    by (rule mb_inv_cong [OF i refl refl refl refl]) (use assms mb_inv_ok [OF i] in auto)
  then show ?thesis by (simp add: mb_step_def)
qed

section \<open>Release\<close>

lemma mb_inv_refs:
  assumes "mb_inv st (m # ms)" "ext_on m"
  shows "mb_refs st (m_ext_buf m) = Suc (refs_to (m_ext_buf m) ms + refs_to (m_ext_buf m) (mfreelater st))"
  using assms by (simp add: mb_inv_def uses_def)

lemma refs_to_zero: "refs_to c ms = 0 \<longleftrightarrow> (\<forall>m\<in>set ms. \<not> uses c m)"
  by (simp add: refs_to_def filter_empty_conv)

lemma later_apart:
  assumes "mb_inv st (m # ms)" "ext_on m"
  shows "\<forall>n\<in>set (mfreelater st). m_ext_buf n \<noteq> m_ext_buf m"
proof
  fix n assume n: "n \<in> set (mfreelater st)"
  show "m_ext_buf n \<noteq> m_ext_buf m"
  proof
    assume e: "m_ext_buf n = m_ext_buf m"
    have "ext_on n" "mb_refs st (m_ext_buf n) = 1" using mb_inv_later [OF assms(1) n] by simp_all
    moreover have "refs_to (m_ext_buf n) (mfreelater st) \<noteq> 0"
      using n calculation(1) by (auto simp: refs_to_zero uses_def)
    ultimately show False using mb_inv_refs [OF assms] e by simp
  qed
qed

lemma mb_inv_unref:
  assumes "mb_inv st (m # ms)" "ext_on m" "mb_refs st1 = (mb_refs st)(m_ext_buf m := mb_refs st (m_ext_buf m) - 1)"
    "mb_bytes st1 = mb_bytes st" "mb_custom st1 = mb_custom st" "mfreelater st1 = mfreelater st"
  shows "mb_inv st1 ms"
proof -
  have "mbuf_ok st1 = mbuf_ok st" using assms(4) by (simp add: fun_eq_iff mbuf_ok_def m_area_def)
  moreover have "mb_refs st1 c = refs_to c ms + refs_to c (mfreelater st1)" for c
    using assms(1,2,3,6) by (auto simp: mb_inv_def uses_def)
  moreover have "ext_on n \<and> mb_custom st1 (m_ext_buf n) \<and> mb_refs st1 (m_ext_buf n) = 1" if "n \<in> set (mfreelater st1)" for n
  proof -
    have n: "n \<in> set (mfreelater st)" using that assms(6) by simp
    then have "ext_on n" "mb_custom st (m_ext_buf n)" "mb_refs st (m_ext_buf n) = 1"
      using mb_inv_later [OF assms(1) n] by simp_all
    moreover have "m_ext_buf n \<noteq> m_ext_buf m" using later_apart [OF assms(1,2)] n by blast
    ultimately show ?thesis unfolding assms(3,5) by simp
  qed
  ultimately show ?thesis using assms(1) by (simp add: mb_inv_def)
qed

lemma m_free_step: "mb_step st [m] (m_free m st) []"
proof -
  have b: "mb_bytes (m_free m st) = mb_bytes st" "mb_custom (m_free m st) = mb_custom st"
    by (simp_all add: m_free_def Let_def cl_free_def cl_unref_def)
  have "mb_inv (m_free m st) others" if i: "mb_inv st (m # others)" for others
  proof (cases "ext_on m")
    case False
    then have "mb_refs (m_free m st) = mb_refs st" "mfreelater (m_free m st) = mfreelater st"
      by (simp_all add: m_free_def Let_def)
    then show ?thesis by (rule mb_inv_cong [OF i]) (use b False mb_inv_ok [OF i] in \<open>auto simp: uses_def\<close>)
  next
    case True
    show ?thesis
    proof (cases "\<not> MCLREFERENCED st m \<and> mb_custom st (m_ext_buf m) \<and> m_flags m AND M_FASTFREE = 0")
      case later: True
      then have f: "m_free m st = st\<lparr>mfreelater := m # mfreelater st\<rparr>" using True by (simp add: m_free_def)
      have "mb_refs st (m_ext_buf m) = 1" using later mb_inv_refs [OF i True] by (simp add: MCLREFERENCED_def)
      then show ?thesis using i later True unfolding f by (auto simp: mb_inv_def mbuf_ok_def m_area_def)
    next
      case False
      then have "mb_refs (m_free m st) = (mb_refs st)(m_ext_buf m := mb_refs st (m_ext_buf m) - 1)"
        "mfreelater (m_free m st) = mfreelater st"
        using True by (auto simp: m_free_def Let_def cl_free_def cl_unref_def)
      then show ?thesis using mb_inv_unref [OF i True] b by blast
    qed
  qed
  then show ?thesis using b by (simp add: mb_step_def)
qed

lemma m_freem_step: "mb_step st ms (m_freem ms st) []"
proof (induction ms st rule: m_freem.induct)
  case (2 m ms st)
  have "mb_step st (m # ms) (m_free m st) ms" using mb_step_frame(1) [OF m_free_step, of st m ms] by simp
  then show ?case using mb_step_trans 2 by simp
qed simp

text \<open>The routines for clusters of their own are called once the last reference is gone.\<close>

lemma free_later_ok:
  assumes "mb_inv st ms" "mfreelater st = later @ keep"
  shows "\<exists>st1. free_later later (st\<lparr>mfreelater := keep\<rparr>) = Some st1 \<and> mb_inv st1 ms \<and> mfreelater st1 = keep
    \<and> mb_bytes st1 = mb_bytes st"
  using assms
proof (induction later arbitrary: st)
  case Nil
  then have "keep = mfreelater st" by simp
  then show ?case using Nil(1) by simp
next
  case (Cons m later)
  let ?c = "m_ext_buf m" and ?s = "st\<lparr>mfreelater := keep\<rparr>"
  have m: "ext_on m" "mb_custom st ?c" "mb_refs st ?c = 1"
    using mb_inv_later [OF Cons.prems(1), of m] Cons.prems(2) by simp_all
  let ?m = "m\<lparr>m_flags := m_flags m AND NOT M_EXT\<rparr>"
  have off: "\<not> ext_on ?m" by (simp add: ext_on_def and.assoc)
  define st2 where "st2 = (m_free ?m (cl_free ?c st))\<lparr>mfreelater := later @ keep\<rparr>"
  have S: "free_later (m # later) ?s = free_later later (st2\<lparr>mfreelater := keep\<rparr>)"
    using m off by (simp add: MCLREFERENCED_def st2_def m_free_def Let_def cl_free_def cl_unref_def)
      (rule arg_cong [of _ _ "free_later later"], simp)
  have s2: "mb_refs st2 = (mb_refs st)(?c := 0)" "mb_bytes st2 = mb_bytes st" "mb_custom st2 = mb_custom st"
    "mfreelater st2 = later @ keep"
    using off m(3) by (simp_all add: st2_def m_free_def Let_def cl_free_def cl_unref_def)
  have R: "mb_refs st c = refs_to c ms + ((if uses c m then 1 else 0) + refs_to c (later @ keep))" for c
    using Cons.prems by (simp add: mb_inv_def)
  have none: "refs_to ?c ms = 0" "refs_to ?c (later @ keep) = 0" using R [of ?c] m by (simp_all add: uses_def)
  have ok: "mbuf_ok st2 = mbuf_ok st" using s2(2) by (simp add: fun_eq_iff mbuf_ok_def m_area_def)
  have refs2: "mb_refs st2 c = refs_to c ms + refs_to c (mfreelater st2)" for c
    using R [of c] none s2 m(1) by (cases "c = ?c") (auto simp: uses_def)
  have "ext_on n \<and> mb_custom st2 (m_ext_buf n) \<and> mb_refs st2 (m_ext_buf n) = 1" if n: "n \<in> set (mfreelater st2)" for n
  proof -
    have "ext_on n" "mb_custom st (m_ext_buf n)" "mb_refs st (m_ext_buf n) = 1"
      using mb_inv_later [OF Cons.prems(1), of n] Cons.prems(2) n s2(4) by simp_all
    moreover have "m_ext_buf n \<noteq> ?c" using none(2) n s2(4) calculation(1) unfolding refs_to_zero by (auto simp: uses_def)
    ultimately show ?thesis using s2 by simp
  qed
  then have "mb_inv st2 ms" using Cons.prems(1) refs2 ok by (simp add: mb_inv_def)
  from Cons.IH [OF this s2(4)] show ?case unfolding S using s2(2) by simp
qed

section \<open>Allocation\<close>

definition env_ok :: "mb_env \<Rightarrow> bool" where
  "env_ok env \<longleftrightarrow> (\<forall>i. length (m_store (me_new env i)) = MLEN)"

text \<open>What \<open>MGET\<close> promises of a new mbuf; the length is not part of it.\<close>

definition is_new :: "mbuf \<Rightarrow> bool" where
  "is_new m \<longleftrightarrow> m_flags m = 0 \<and> m_data m = 0 \<and> length (m_store m) = MLEN"

definition no_data :: "mbuf \<Rightarrow> mbuf" where
  "no_data m = m\<lparr>m_len := 0\<rparr>"

lemma no_data_simps [simp]:
  "m_flags (no_data m) = m_flags m" "m_type (no_data m) = m_type m" "m_data (no_data m) = m_data m" "m_len (no_data m) = 0"
  "m_pktlen (no_data m) = m_pktlen m" "m_store (no_data m) = m_store m" "m_ext_buf (no_data m) = m_ext_buf m"
  "ext_on (no_data m) = ext_on m" "hdr_on (no_data m) = hdr_on m" "is_new (no_data m) = is_new m"
  "uses c (no_data m) = uses c m" "m_area st (no_data m) = m_area st m" "no_data (no_data m) = no_data m"
  "(no_data m)\<lparr>m_len := k\<rparr> = m\<lparr>m_len := k\<rparr>"
  by (simp_all add: no_data_def ext_on_def hdr_on_def is_new_def uses_def m_area_def)

lemma refs_to_no_data [simp]: "refs_to c (map no_data ms) = refs_to c ms"
  by (induction ms) simp_all

lemma is_newD: "is_new m \<Longrightarrow> \<not> ext_on m \<and> \<not> hdr_on m \<and> m_data m = 0 \<and> m_flags m = 0 \<and> length (m_store m) = MLEN"
  by (simp add: is_new_def ext_on_def hdr_on_def)

lemma is_new_ok: "is_new m \<Longrightarrow> mbuf_ok st (no_data m)"
  using is_newD by (simp add: mbuf_ok_def m_area_def)

lemma mb_step_same:
  assumes "mb_bytes st1 = mb_bytes st" "mb_custom st1 = mb_custom st" "mb_refs st1 = mb_refs st" "mfreelater st1 = mfreelater st"
  shows "mb_step st ms st1 ms"
proof -
  have "mb_inv st1 ns" if "mb_inv st ns" for ns
    by (rule mb_inv_cong [OF that]) (use assms mb_inv_ok [OF that] in auto)
  then show ?thesis using assms by (simp add: mb_step_def)
qed

lemma MGET_result:
  assumes "MGET env wait type st = (r, st1)" "env_ok env"
  shows "case r of None \<Rightarrow> mb_step st [] st1 [] | Some n \<Rightarrow> is_new n \<and> mb_step st [] st1 [no_data n]"
proof -
  have s: "mb_bytes st1 = mb_bytes st" "mb_custom st1 = mb_custom st" "mb_refs st1 = mb_refs st" "mfreelater st1 = mfreelater st"
    and r: "case r of None \<Rightarrow> True | Some n \<Rightarrow> is_new n"
    using assms by (auto simp: MGET_def mget_try_def Let_def is_new_def env_ok_def split: if_splits)
  have "mb_step st [] st [no_data n]" if n: "is_new n" for n
  proof -
    have "mb_inv st (no_data n # others)" if i: "mb_inv st others" for others
      by (rule mb_inv_cong [OF i refl refl refl refl]) (use is_new_ok [OF n] is_newD [OF n] mb_inv_ok [OF i] in \<open>auto simp: uses_def\<close>)
    then show ?thesis by (simp add: mb_step_def)
  qed
  then have "mb_step st [] st1 [no_data n]" if "is_new n" for n using mb_step_trans [OF _ mb_step_same [OF s]] that by blast
  then show ?thesis using r mb_step_same [OF s] by (cases r) auto
qed

text \<open>Allocation that cannot fail.\<close>

lemma MGET_succeeds: "\<forall>i. me_malloc env i \<Longrightarrow> \<exists>m st1. MGET env wait type st = (Some m, st1)"
  by (simp add: MGET_def mget_try_def Let_def)

end
