(* ===== verification/Mbuf_Ops.thy ===== *)
theory Mbuf_Ops
  imports Mbuf_Laws
begin

text \<open>
  The operations on chains as operations on the bytes a chain holds.
\<close>

definition chain_bytes :: "mb_state \<Rightarrow> chain \<Rightarrow> 8 word list" where
  "chain_bytes st ms = concat (map (mtod st) ms)"

definition chain_ok :: "mb_state \<Rightarrow> chain \<Rightarrow> bool" where
  "chain_ok st ms \<longleftrightarrow> (\<forall>m\<in>set ms. mbuf_ok st m)"

lemma chain_simps [simp]:
  "chain_bytes st [] = []" "chain_bytes st (m # ms) = mtod st m @ chain_bytes st ms"
  "chain_bytes st (ms @ ns) = chain_bytes st ms @ chain_bytes st ns"
  "chain_ok st []" "chain_ok st (m # ms) \<longleftrightarrow> mbuf_ok st m \<and> chain_ok st ms"
  "chain_ok st (ms @ ns) \<longleftrightarrow> chain_ok st ms \<and> chain_ok st ns"
  "m_length [] = 0" "m_length (m # ms) = m_len m + m_length ms" "m_length (ms @ ns) = m_length ms + m_length ns"
  by (auto simp: chain_bytes_def chain_ok_def m_length_def)

lemma mtod_length: "mbuf_ok st m \<Longrightarrow> length (mtod st m) = m_len m"
  by (auto simp: mbuf_ok_def mtod_def)

lemma chain_length: "chain_ok st ms \<Longrightarrow> length (chain_bytes st ms) = m_length ms"
  by (induction ms) (simp_all add: mtod_length)

lemma mb_step_chain:
  assumes "mb_step st ms st1 ns"
  shows "chain_bytes st1 = chain_bytes st" "chain_ok st1 = chain_ok st"
proof -
  show "chain_bytes st1 = chain_bytes st" by (rule ext) (simp only: chain_bytes_def mb_step_bytes [OF assms])
  show "chain_ok st1 = chain_ok st" by (rule ext) (simp only: chain_ok_def mb_step_bytes [OF assms])
qed

lemma put_bytes_length [simp]: "i + length bs \<le> length a \<Longrightarrow> length (put_bytes i bs a) = length a"
  by (simp add: put_bytes_def)

lemma put_bytes_append:
  assumes "d + n + length bs \<le> length a"
  shows "take (n + length bs) (drop d (put_bytes (d + n) bs a)) = take n (drop d a) @ bs"
proof -
  have "drop d (take (d + n) a) = take n (drop d a)" by (simp add: drop_take)
  then show ?thesis using assms by (simp add: put_bytes_def)
qed

lemma put_bytes_same: "d + length bs \<le> length a \<Longrightarrow> take (length bs) (drop d (put_bytes d bs a)) = bs"
  using put_bytes_append [of d 0 bs a] by simp

section \<open>Finding an offset\<close>

lemma m_skip_None: "m_skip off ms = None \<longleftrightarrow> m_length ms < off"
  by (induction off ms rule: m_skip.induct) auto

lemma m_skip_Some:
  assumes "m_skip off ms = Some (o1, ms1)" "chain_ok st ms"
  shows "\<exists>pre. ms = pre @ ms1" "drop off (chain_bytes st ms) = drop o1 (chain_bytes st ms1)"
    "ms1 \<noteq> [] \<Longrightarrow> o1 = 0 \<or> o1 < m_len (hd ms1)" "ms1 = [] \<Longrightarrow> o1 = 0" "off = 0 \<Longrightarrow> o1 = 0 \<and> ms1 = ms"
    "m_length ms1 + off = m_length ms + o1"
proof -
  have "(\<exists>pre. ms = pre @ ms1) \<and> drop off (chain_bytes st ms) = drop o1 (chain_bytes st ms1)
    \<and> (ms1 \<noteq> [] \<longrightarrow> o1 = 0 \<or> o1 < m_len (hd ms1)) \<and> (ms1 = [] \<longrightarrow> o1 = 0) \<and> (off = 0 \<longrightarrow> o1 = 0 \<and> ms1 = ms)
    \<and> m_length ms1 + off = m_length ms + o1"
    using assms
  proof (induction off ms rule: m_skip.induct)
    case (2 off m ms)
    show ?case
    proof (cases "off = 0 \<or> off < m_len m")
      case True
      then show ?thesis using 2 by auto
    next
      case False
      then have "m_skip (off - m_len m) ms = Some (o1, ms1)" "chain_ok st ms" using "2.prems" by auto
      note IH = "2.IH" [OF False this]
      have "drop off (mtod st m @ chain_bytes st ms) = drop (off - m_len m) (chain_bytes st ms)"
        using False "2.prems"(2) mtod_length by simp
      moreover obtain pre where "ms = pre @ ms1" using IH by blast
      then have "m # ms = (m # pre) @ ms1" by simp
      ultimately show ?thesis using IH False by (metis chain_simps(2,8) add.assoc add.left_commute le_add_diff_inverse linorder_not_less)
    qed
  qed (auto split: if_splits)
  then show "\<exists>pre. ms = pre @ ms1" "drop off (chain_bytes st ms) = drop o1 (chain_bytes st ms1)"
    "ms1 \<noteq> [] \<Longrightarrow> o1 = 0 \<or> o1 < m_len (hd ms1)" "ms1 = [] \<Longrightarrow> o1 = 0" "off = 0 \<Longrightarrow> o1 = 0 \<and> ms1 = ms"
    "m_length ms1 + off = m_length ms + o1"
    by blast+
qed

lemma m_copydata_loop_bytes:
  "chain_ok st ms \<Longrightarrow> off \<le> (if ms = [] then 0 else m_len (hd ms)) \<Longrightarrow>
   m_copydata_loop st off len ms = (if off + len \<le> m_length ms then Some (take len (drop off (chain_bytes st ms))) else None)"
proof (induction st off len ms rule: m_copydata_loop.induct)
  case (2 st off len m ms)
  have l: "length (mtod st m) = m_len m" using 2(2) mtod_length by simp
  have IH: "m_copydata_loop st 0 (len - min (m_len m - off) len) ms
      = (if 0 + (len - min (m_len m - off) len) \<le> m_length ms
         then Some (take (len - min (m_len m - off) len) (drop 0 (chain_bytes st ms))) else None)" if "len \<noteq> 0"
    by (rule "2.IH" [OF that refl]) (use 2(2) in simp_all)
  show ?case
  proof (cases "len = 0")
    case False
    show ?thesis
    proof (cases "m_len m - off \<le> len")
      case True
      then have a: "min (m_len m - off) len = m_len m - off" by simp
      have "off + len \<le> m_len m + m_length ms \<longleftrightarrow> len - (m_len m - off) \<le> m_length ms" using 2(3) True by simp linarith
      then show ?thesis using IH [OF False] False l 2(3) True unfolding a by (simp add: Let_def)
    next
      case short: False
      then have a: "min (m_len m - off) len = len" by simp
      show ?thesis using IH [OF False] False l short unfolding a by (simp add: Let_def)
    qed
  qed (use 2(3) in simp)
qed simp

text \<open>\<open>m_copydata\<close> against its specification.\<close>

lemma m_copydata_bytes:
  assumes "chain_ok st ms" "0 \<le> off" "0 \<le> len"
  shows "m_copydata st ms off len =
    (if off + len \<le> int (m_length ms) then Some (take (nat len) (drop (nat off) (chain_bytes st ms))) else None)"
proof (cases "m_skip (nat off) ms")
  case None
  then have "\<not> off + len \<le> int (m_length ms)" using assms(2,3) unfolding m_skip_None by linarith
  then show ?thesis using None assms by (simp add: m_copydata_def)
next
  case (Some p)
  obtain o1 ms1 where p: "p = (o1, ms1)" by (cases p)
  note s = m_skip_Some [OF Some [unfolded p] assms(1)]
  have "chain_ok st ms1" "o1 \<le> (if ms1 = [] then 0 else m_len (hd ms1))" using s(1,3,4) assms(1) by auto
  note c = m_copydata_loop_bytes [OF this, of "nat len"]
  have "o1 + nat len \<le> m_length ms1 \<longleftrightarrow> off + len \<le> int (m_length ms)" using s(6) assms(2,3) by linarith
  then show ?thesis using Some p c s(2) assms(2,3) by (simp add: m_copydata_def)
qed

section \<open>Copying\<close>

lemma copyflags: "(x AND M_COPYFLAGS) AND M_EXT = 0" "((x AND M_COPYFLAGS) AND M_PKTHDR = 0) = (x AND M_PKTHDR = 0)"
  "((x AND M_COPYFLAGS) OR M_EXT) AND M_EXT \<noteq> 0" "((x AND M_COPYFLAGS) OR M_EXT) AND M_PKTHDR = x AND M_PKTHDR"
  "(x AND M_COPYFLAGS) AND M_PKTHDR = x AND M_PKTHDR"
  by (simp_all add: and.assoc M_COPYFLAGS_def M_EXT_def M_PKTHDR_def bit.conj_disj_distrib2)

lemma copy_hdr_simps [simp]:
  "\<not> ext_on (M_COPY_PKTHDR n m)" "hdr_on (M_COPY_PKTHDR n m) = hdr_on m" "m_store (M_COPY_PKTHDR n m) = m_store n"
  "m_data (M_COPY_PKTHDR n m) = m_pktdat" "m_len (M_COPY_PKTHDR n m) = m_len n"
  by (simp_all add: M_COPY_PKTHDR_def ext_on_def hdr_on_def copyflags)

lemma mb_inv_share:
  assumes "mb_inv st (m # ms)" "ext_on m" "mbuf_ok st n" "ext_on n" "m_ext_buf n = m_ext_buf m"
  shows "mb_inv (st\<lparr>mb_refs := (mb_refs st)(m_ext_buf m := mb_refs st (m_ext_buf m) + 1)\<rparr>) (n # m # ms)"
    (is "mb_inv ?st _")
proof -
  have ok: "mbuf_ok ?st = mbuf_ok st" by (simp add: fun_eq_iff mbuf_ok_def m_area_def)
  have r: "mb_refs ?st c = refs_to c (n # m # ms) + refs_to c (mfreelater ?st)" for c
    using assms by (simp add: mb_inv_def uses_def)
  have "ext_on k \<and> mb_custom ?st (m_ext_buf k) \<and> mb_refs ?st (m_ext_buf k) = 1" if k: "k \<in> set (mfreelater ?st)" for k
  proof -
    have k: "k \<in> set (mfreelater st)" using k by simp
    then have "m_ext_buf k \<noteq> m_ext_buf m" using later_apart [OF assms(1,2)] by blast
    then show ?thesis using mb_inv_later [OF assms(1) k] by simp
  qed
  moreover have "\<forall>k\<in>set (n # m # ms). mbuf_ok ?st k" unfolding ok using mb_inv_ok [OF assms(1)] assms(3) by auto
  ultimately show ?thesis unfolding mb_inv_def using r by blast
qed

lemma m_copy_one_ok:
  assumes "mbuf_ok st m" "off \<le> m_len m" "0 \<le> len" "copyhdr \<longrightarrow> hdr_on m \<and> off = 0" "length (m_store n) = MLEN"
    "\<not> ext_on n" "\<not> hdr_on n" "m_data n = 0" "m_flags n = 0"
    "m_copy_one copyhdr off off0 len m n st = (n1, st1)"
  shows "mb_step st [m, n] st1 [m, n1]" "mtod st n1 = take (nat len) (drop off (mtod st m))"
    "m_len n1 = min (nat len) (m_len m - off)" "mbuf_ok st n1"
proof -
  define k where "k = nat (min len (int (m_len m) - int off))"
  have k: "k = min (nat len) (m_len m - off)" "off + k \<le> m_len m" using assms(2,3) by (auto simp: k_def)
  define n0 where "n0 = (if copyhdr then (M_COPY_PKTHDR n m)\<lparr>m_pktlen := (if len = M_COPYALL then m_pktlen m - off0 else len)\<rparr> else n)"
  have n0: "m_store n0 = m_store n" "\<not> ext_on n0" "hdr_on n0 = copyhdr" "m_data n0 = (if copyhdr then m_pktdat else 0)"
    "m_flags n0 = (if copyhdr then m_flags m AND M_COPYFLAGS else 0)"
    using assms(4,6-9) by (auto simp: n0_def ext_on_def hdr_on_def M_COPY_PKTHDR_def copyflags)
  have area: "m_data m + m_len m \<le> length (m_area st m)" using assms(1) by (simp add: mbuf_ok_def)
  have src: "take k (drop (m_data m + off) (m_area st m)) = take (nat len) (drop off (mtod st m))"
    using k by (simp add: mtod_def drop_take take_take min.commute add.commute)
  show "mb_step st [m, n] st1 [m, n1]" "mtod st n1 = take (nat len) (drop off (mtod st m))"
    "m_len n1 = min (nat len) (m_len m - off)" "mbuf_ok st n1"
  proof -
    have "mb_step st [m, n] st1 [m, n1] \<and> mtod st n1 = take (nat len) (drop off (mtod st m))
      \<and> m_len n1 = k \<and> mbuf_ok st n1"
    proof (cases "ext_on m")
      case True
      have r: "n1 = n0\<lparr>m_len := k, m_ext_buf := m_ext_buf m, m_data := m_data m + off, m_flags := m_flags n0 OR M_EXT\<rparr>"
        "st1 = st\<lparr>mb_refs := (mb_refs st)(m_ext_buf m := mb_refs st (m_ext_buf m) + 1)\<rparr>"
        using assms(10) True by (auto simp: m_copy_one_def Let_def n0_def [symmetric] k_def [symmetric])
      have e: "ext_on n1" "m_ext_buf n1 = m_ext_buf m" "m_store n1 = m_store n" "m_data n1 = m_data m + off" "m_len n1 = k"
        using n0 by (auto simp: r(1) ext_on_def copyflags M_EXT_def)
      have a: "m_area st n1 = m_area st m" using e True by (simp add: m_area_def)
      have ok: "mbuf_ok st n1" using e a area k(2) assms(5) by (simp add: mbuf_ok_def)
      have t: "mtod st n1 = take (nat len) (drop off (mtod st m))" using e a src by (simp add: mtod_def)
      have "mb_inv st1 ([m, n1] @ others)" if i: "mb_inv st ([m, n] @ others)" for others
      proof -
        have "mb_inv st (m # others)"
          by (rule mb_inv_cong [OF i refl refl refl refl]) (use assms(6) mb_inv_ok [OF i] in \<open>auto simp: uses_def\<close>)
        from mb_inv_share [OF this True ok e(1,2)] show ?thesis unfolding r(2)
          using mb_inv_perm [of "n1 # m # others" "[m, n1] @ others"] by simp
      qed
      then have "mb_step st [m, n] st1 [m, n1]" by (simp add: mb_step_def r(2))
      then show ?thesis using t e(5) ok by simp
    next
      case False
      have r: "n1 = n0\<lparr>m_len := k, m_store := put_bytes (m_data n0) (take k (drop (m_data m + off) (m_store m))) (m_store n0)\<rparr>"
        "st1 = st"
        using assms(10) False by (auto simp: m_copy_one_def Let_def n0_def [symmetric] k_def [symmetric])
      have e: "\<not> ext_on n1" "hdr_on n1 = copyhdr" "m_data n1 = m_data n0" "m_len n1 = k" using n0 by (auto simp: r(1) ext_on_def hdr_on_def)
      have am: "m_area st m = m_store m" using False by (simp add: m_area_def)
      let ?bs = "take k (drop (m_data m + off) (m_store m))"
      have lb: "length ?bs = k" using area k(2) am by simp
      have "m_data n0 + k \<le> MLEN"
        using assms(1,4) k(2) n0(4) False area am by (auto simp: mbuf_ok_def)
      then have fit: "m_data n0 + length ?bs \<le> length (m_store n0)" using lb n0(1) assms(5) by simp
      have st: "length (m_store n1) = MLEN" using put_bytes_length [OF fit] n0(1) assms(5) by (simp add: r(1))
      have ok: "mbuf_ok st n1" using e st n0(4) \<open>m_data n0 + k \<le> MLEN\<close> by (auto simp: mbuf_ok_def m_area_def)
      have "mtod st n1 = ?bs" using put_bytes_same [OF fit] e(1) lb by (simp add: mtod_def m_area_def r(1))
      then have t: "mtod st n1 = take (nat len) (drop off (mtod st m))" using src am by simp
      have "mb_step st [n] st [n1]" by (rule mb_step_update) (use e(1) assms(6) ok in \<open>auto simp: uses_def\<close>)
      then have "mb_step st [m, n] st1 [m, n1]" unfolding r(2) by (rule mb_step_cons)
      then show ?thesis using t e(4) ok by simp
    qed
    then show "mb_step st [m, n] st1 [m, n1]" "mtod st n1 = take (nat len) (drop off (mtod st m))"
      "m_len n1 = min (nat len) (m_len m - off)" "mbuf_ok st n1"
      using k(1) by blast+
  qed
qed

end
