(* ===== verification/Mbuf_Copy.thy ===== *)
theory Mbuf_Copy
  imports Mbuf_Ops
begin

text \<open>
  \<open>m_copym\<close> against its specification, and what \<open>m_cat\<close> and \<open>m_adj\<close> do to the bytes of a chain.
\<close>

section \<open>Copies\<close>

text \<open>The length of the new mbuf is set, whatever it was.\<close>

lemma m_copy_one_no_data: "m_copy_one copyhdr off off0 len m (no_data n) st = m_copy_one copyhdr off off0 len m n st"
  by (simp add: m_copy_one_def Let_def no_data_def M_COPY_PKTHDR_def)

lemma m_copy_one_hdr:
  assumes "copyhdr \<longrightarrow> hdr_on m" "is_new n" "m_copy_one copyhdr off off0 len m n st = (n1, st1)"
  shows "hdr_on n1 = copyhdr" "copyhdr \<Longrightarrow> m_pktlen n1 = (if len = M_COPYALL then m_pktlen m - off0 else len)"
proof -
  have "M_EXT AND M_PKTHDR = 0" by (simp add: M_EXT_def M_PKTHDR_def)
  then show "hdr_on n1 = copyhdr" using assms
    by (auto simp: m_copy_one_def Let_def hdr_on_def is_new_def M_COPY_PKTHDR_def copyflags bit.conj_disj_distrib2 split: if_splits)
  show "m_pktlen n1 = (if len = M_COPYALL then m_pktlen m - off0 else len)" if copyhdr
    using assms that by (auto simp: m_copy_one_def Let_def split: if_splits)
qed

definition copy_result :: "bool \<Rightarrow> int \<Rightarrow> int \<Rightarrow> chain \<Rightarrow> mb_state \<Rightarrow> chain \<Rightarrow> bool" where
  "copy_result copyhdr off0 len ms st new \<longleftrightarrow> chain_ok st new
     \<and> (case new of [] \<Rightarrow> True
        | c # cs \<Rightarrow> hdr_on c = copyhdr \<and> list_all (\<lambda>m. \<not> hdr_on m) cs
            \<and> (copyhdr \<longrightarrow> m_pktlen c = (if len = M_COPYALL then m_pktlen (hd ms) - off0 else len)))"

lemma copy_result_hdrs: "copy_result False off0 len ms st new \<Longrightarrow> list_all (\<lambda>m. \<not> hdr_on m) new \<and> chain_ok st new"
  by (cases new) (auto simp: copy_result_def)

lemma m_copy_loop_ok:
  assumes "env_ok env" "chain_ok st ms" "off \<le> (if ms = [] then 0 else m_len (hd ms))"
    "copyhdr \<longrightarrow> ms \<noteq> [] \<and> hdr_on (hd ms) \<and> off = 0" "0 \<le> len" "len \<le> M_COPYALL" "int (m_length ms) \<le> M_COPYALL"
    "m_copy_loop env wait copyhdr off off0 len acc ms st = Some (r, st1)"
  shows "case r of None \<Rightarrow> mb_step st (ms @ acc) st1 ms
    | Some cs \<Rightarrow> \<exists>new. cs = acc @ new \<and> mb_step st (ms @ acc) st1 (ms @ cs)
        \<and> chain_bytes st new = take (nat len) (drop off (chain_bytes st ms)) \<and> copy_result copyhdr off0 len ms st new"
  using assms
proof (induction env wait copyhdr off off0 len acc ms st rule: m_copy_loop.induct)
  case (1 env wait copyhdr off off0 len acc st)
  then show ?case by (auto simp: copy_result_def split: if_splits)
next
  case (2 env wait copyhdr off off0 len acc m ms st)
  note eq = "2.prems"(8)
  have m: "mbuf_ok st m" "chain_ok st ms" "off \<le> m_len m" using "2.prems"(2,3) by auto
  show ?case
  proof (cases "len \<le> 0")
    case True
    then have "len = 0" "r = Some acc" "st1 = st" using eq "2.prems"(5) by auto
    then show ?thesis by (simp add: copy_result_def)
  next
    case False
    obtain o1 s1 where g: "MGET env wait (m_type m) st = (o1, s1)" by fastforce
    note g1 = MGET_result [OF g "2.prems"(1)]
    show ?thesis
    proof (cases o1)
      case None
      then have r: "r = None" "st1 = m_freem acc s1" using eq g False by auto
      have "mb_step st ((m # ms) @ acc) s1 ((m # ms) @ acc)" using mb_step_frame(1) [of st "[]" s1 "[]"] g1 None by simp
      also have "mb_step s1 ((m # ms) @ acc) (m_freem acc s1) ((m # ms) @ [])" by (rule mb_step_frame(2) [OF m_freem_step])
      finally show ?thesis using r by simp
    next
      case (Some k)
      define n where "n = no_data k"
      have n: "is_new n" and st1: "mb_step st [] s1 [n]" using g1 unfolding Some by (simp_all add: n_def)
      obtain n1 s2 where ck: "m_copy_one copyhdr off off0 len m k s1 = (n1, s2)" by fastforce
      then have c: "m_copy_one copyhdr off off0 len m n s1 = (n1, s2)" by (simp add: n_def m_copy_one_no_data)
      define len1 where "len1 = (if len = M_COPYALL then len else len - int (m_len n1))"
      have rest: "m_copy_loop env wait False 0 off0 len1 (acc @ [n1]) ms s2 = Some (r, st1)"
        using eq g Some ck False by (simp add: len1_def)
      have bytes1: "mtod s1 = mtod st" "mbuf_ok s1 = mbuf_ok st" using mb_step_bytes [OF st1] by simp_all
      have m1: "mbuf_ok s1 m" using m(1) bytes1 by simp
      have junk: "length (m_store n) = MLEN" using is_newD [OF n] by simp
      have hdr: "copyhdr \<longrightarrow> hdr_on m \<and> off = 0" using "2.prems"(4) by simp
      have new: "\<not> ext_on n" "\<not> hdr_on n" "m_data n = 0" "m_flags n = 0" using is_newD [OF n] by simp_all
      note one = m_copy_one_ok [OF m1 m(3) "2.prems"(5) hdr junk new c]
      have hdr': "copyhdr \<longrightarrow> hdr_on m" using hdr by blast
      note h1 = m_copy_one_hdr [OF hdr' n c]
      have chain2: "chain_bytes s2 = chain_bytes st" "chain_ok s2 = chain_ok st"
        using mb_step_chain [OF st1] mb_step_chain [OF one(1)] by simp_all
      have ok2: "chain_ok s2 ms" using m(2) chain2 by simp
      have h2: "0 \<le> (if ms = [] then 0 else m_len (hd ms))" "False \<longrightarrow> ms \<noteq> [] \<and> hdr_on (hd ms) \<and> (0::nat) = 0" by simp_all
      have l2: "0 \<le> len1" "len1 \<le> M_COPYALL" "int (m_length ms) \<le> M_COPYALL"
        using one(3) False "2.prems"(5-7) by (auto simp: len1_def)
      have IH: "case r of None \<Rightarrow> mb_step s2 (ms @ acc @ [n1]) st1 ms
        | Some cs \<Rightarrow> \<exists>new. cs = (acc @ [n1]) @ new \<and> mb_step s2 (ms @ acc @ [n1]) st1 (ms @ cs)
          \<and> chain_bytes s2 new = take (nat len1) (drop 0 (chain_bytes s2 ms)) \<and> copy_result False off0 len1 ms s2 new"
        using "2.IH" [OF False g [symmetric] Some ck [symmetric] refl "2.prems"(1) ok2 h2 l2 [unfolded len1_def] rest [unfolded len1_def]]
        unfolding len1_def .
      have "mb_step st ((m # ms) @ acc) s1 ([m, n] @ ms @ acc)"
        by (rule mb_step_perm [OF mb_step_frame(1) [OF st1, of "m # ms @ acc"]]) simp_all
      also have "mb_step s1 ([m, n] @ ms @ acc) s2 ([m, n1] @ ms @ acc)" by (rule mb_step_frame(1) [OF one(1)])
      also have "mb_step s2 ([m, n1] @ ms @ acc) s2 (m # ms @ acc @ [n1])"
        by (rule mb_step_perm [OF mb_step_refl [of s2 "[m, n1] @ ms @ acc"]]) simp_all
      finally have pre: "mb_step st ((m # ms) @ acc) s2 (m # ms @ acc @ [n1])" .
      have lm: "length (mtod st m) = m_len m" by (rule mtod_length [OF m(1)])
      have lc: "length (chain_bytes st ms) = m_length ms" by (rule chain_length [OF m(2)])
      have split: "take (nat len) (drop off (mtod st m)) @ take (nat len1) (chain_bytes st ms)
          = take (nat len) (drop off (mtod st m @ chain_bytes st ms))"
        using one(3) m(3) lm lc "2.prems"(5-7) False by (auto simp: len1_def min_def nat_diff_distrib)
      show ?thesis
      proof (cases r)
        case None
        then have "mb_step s2 (m # ms @ acc @ [n1]) st1 (m # ms)" using IH mb_step_cons by simp
        then show ?thesis using mb_step_trans [OF pre] None by simp
      next
        case (Some cs)
        then obtain new where w: "cs = (acc @ [n1]) @ new" "mb_step s2 (ms @ acc @ [n1]) st1 (ms @ cs)"
          "chain_bytes s2 new = take (nat len1) (chain_bytes s2 ms)" "copy_result False off0 len1 ms s2 new"
          using IH by auto
        have "mb_step st ((m # ms) @ acc) st1 ((m # ms) @ cs)" using mb_step_trans [OF pre mb_step_cons [OF w(2)]] by simp
        moreover have "chain_bytes st (n1 # new) = take (nat len) (drop off (chain_bytes st (m # ms)))"
          using one(2) w(3) split unfolding chain2 bytes1 by simp
        moreover have "copy_result copyhdr off0 len (m # ms) st (n1 # new)"
          using copy_result_hdrs [OF w(4)] h1 one(4) unfolding copy_result_def chain2 bytes1 by simp
        ultimately show ?thesis using Some w(1) by auto
      qed
    qed
  qed
qed

lemma m_copy_loop_returns:
  assumes "off \<le> (if ms = [] then 0 else m_len (hd ms))" "0 \<le> len" "off + nat len \<le> m_length ms \<or> len = M_COPYALL"
  shows "\<exists>r st1. m_copy_loop env wait copyhdr off off0 len acc ms st = Some (r, st1)"
  using assms
proof (induction env wait copyhdr off off0 len acc ms st rule: m_copy_loop.induct)
  case (2 env wait copyhdr off off0 len acc m ms st)
  show ?case
  proof (cases "len \<le> 0")
    case False
    obtain o1 s1 where g: "MGET env wait (m_type m) st = (o1, s1)" by fastforce
    show ?thesis
    proof (cases o1)
      case (Some n)
      obtain n1 s2 where c: "m_copy_one copyhdr off off0 len m n s1 = (n1, s2)" by fastforce
      have k: "int (m_len n1) = min len (int (m_len m) - int off)"
        using c "2.prems"(1,2) by (auto simp: m_copy_one_def Let_def split: if_splits)
      define len1 where "len1 = (if len = M_COPYALL then len else len - int (m_len n1))"
      have p: "0 \<le> (if ms = [] then 0 else m_len (hd ms))" "0 \<le> len1" "0 + nat len1 \<le> m_length ms \<or> len1 = M_COPYALL"
        using k "2.prems" by (auto simp: len1_def min_def split: if_splits)
      show ?thesis using "2.IH" [OF False g [symmetric] Some c [symmetric] refl p [unfolded len1_def]] False g Some c by simp
    qed (use False g in simp)
  qed simp
qed auto

lemma m_copy_loop_succeeds:
  assumes "m_copy_loop env wait copyhdr off off0 len acc ms st = Some (r, st1)" "\<forall>i. me_malloc env i"
  shows "r \<noteq> None"
  using assms
proof (induction env wait copyhdr off off0 len acc ms st rule: m_copy_loop.induct)
  case (2 env wait copyhdr off off0 len acc m ms st)
  show ?case
  proof (cases "len \<le> 0")
    case False
    obtain k s1 where g: "MGET env wait (m_type m) st = (Some k, s1)"
      using MGET_succeeds [OF "2.prems"(2)] by blast
    obtain n1 s2 where c: "m_copy_one copyhdr off off0 len m k s1 = (n1, s2)" by fastforce
    show ?thesis using "2.IH" [OF False g [symmetric] refl c [symmetric] refl _ "2.prems"(2)] "2.prems"(1) False g c by simp
  qed (use 2(2) in auto)
qed (auto split: if_splits)

text \<open>Whatever comes back, the original is as it was.\<close>

lemma m_copym_result:
  assumes "env_ok env" "chain_ok st ms" "len \<le> M_COPYALL" "int (m_length ms) \<le> M_COPYALL"
    "m_copym env ms off len wait st = Some (r, st1)"
  shows "case r of
      None \<Rightarrow> mb_step st ms st1 ms \<and> (\<exists>i. \<not> me_malloc env i)
    | Some cs \<Rightarrow> mb_step st ms st1 (ms @ cs) \<and> chain_bytes st cs = take (nat len) (drop (nat off) (chain_bytes st ms))
        \<and> copy_result (off = 0 \<and> hdr_on (hd ms)) 0 len ms st cs"
proof -
  have a: "ms \<noteq> [] \<or> off \<noteq> 0" "0 \<le> off" "0 \<le> len" using assms(5) by (auto simp: m_copym_def split: if_splits)
  obtain o1 ms1 where s: "m_skip (nat off) ms = Some (o1, ms1)"
    using assms(5) by (auto simp: m_copym_def split: if_splits option.splits)
  note k = m_skip_Some [OF s assms(2)]
  obtain pre where pre: "ms = pre @ ms1" using k(1) by blast
  have ok1: "chain_ok st ms1" and l1: "int (m_length ms1) \<le> M_COPYALL" and o1: "o1 \<le> (if ms1 = [] then 0 else m_len (hd ms1))"
    using assms(2,4) k(3,4) pre by auto
  define copyhdr where "copyhdr \<longleftrightarrow> off = 0 \<and> hdr_on (hd ms)"
  have h: "copyhdr \<longrightarrow> ms1 \<noteq> [] \<and> hdr_on (hd ms1) \<and> o1 = 0" using k(5) a(1) by (auto simp: copyhdr_def)
  have c: "m_copy_loop env wait copyhdr o1 off len [] ms1 st = Some (r, st1)"
    using assms(5) s a by (auto simp: m_copym_def copyhdr_def)
  note loop = m_copy_loop_ok [OF assms(1) ok1 o1 h a(3) assms(3) l1 c]
  show ?thesis
  proof (cases r)
    case None
    then have "mb_step st ms1 st1 ms1" using loop by simp
    then have "mb_step st ms st1 ms" unfolding pre by (rule mb_step_frame(2))
    moreover have "\<exists>i. \<not> me_malloc env i" using m_copy_loop_succeeds [OF c] None by blast
    ultimately show ?thesis using None by auto
  next
    case (Some cs)
    then have w: "mb_step st ms1 st1 (ms1 @ cs)" "chain_bytes st cs = take (nat len) (drop o1 (chain_bytes st ms1))"
      "copy_result copyhdr off len ms1 st cs" using loop by auto
    have "mb_step st ms st1 (ms @ cs)" using mb_step_frame(2) [OF w(1), of pre] pre by simp
    moreover have "copy_result copyhdr 0 len ms st cs"
      using w(3) k(5) by (auto simp: copy_result_def copyhdr_def split: list.splits)
    ultimately show ?thesis using Some w(2) k(2) by (auto simp: copyhdr_def)
  qed
qed

text \<open>It does not panic on a range that lies in the chain.\<close>

lemma m_copym_returns:
  assumes "chain_ok st ms" "ms \<noteq> []" "0 \<le> off" "0 \<le> len"
    "off + len \<le> int (m_length ms) \<or> len = M_COPYALL \<and> off \<le> int (m_length ms)"
  shows "\<exists>r st1. m_copym env ms off len wait st = Some (r, st1)"
proof -
  have "m_skip (nat off) ms \<noteq> None" using assms(3-5) unfolding m_skip_None by linarith
  then obtain o1 ms1 where s: "m_skip (nat off) ms = Some (o1, ms1)" by fastforce
  note k = m_skip_Some [OF s assms(1)]
  have o1: "o1 \<le> (if ms1 = [] then 0 else m_len (hd ms1))" using k(3,4) by auto
  have "o1 + nat len \<le> m_length ms1 \<or> len = M_COPYALL" using k(6) assms(3-5) by linarith
  from m_copy_loop_returns [OF o1 assms(4) this] show ?thesis using s assms(2-4) by (simp add: m_copym_def)
qed

end
