(* ===== verification/Mbuf_Edit.thy ===== *)
theory Mbuf_Edit
  imports Mbuf_Ops
begin

text \<open>
  What \<open>m_cat\<close>, \<open>m_adj\<close>, \<open>m_prepend\<close> and \<open>m_pullup\<close> do to the bytes of a chain.
\<close>

section \<open>Joining\<close>

lemma m_append_data_ok:
  assumes "mbuf_ok st m" "mbuf_ok st n" "\<not> ext_on m" "k \<le> m_len n" "m_data m + m_len m + k \<le> MLEN"
  shows "mtod st (m_append_data st k n m) = mtod st m @ take k (mtod st n)" "mbuf_ok st (m_append_data st k n m)"
    "uses c (m_append_data st k n m) = uses c m" "\<not> ext_on (m_append_data st k n m)"
    "hdr_on (m_append_data st k n m) = hdr_on m" "m_len (m_append_data st k n m) = m_len m + k"
    "m_data (m_append_data st k n m) = m_data m" "m_pktlen (m_append_data st k n m) = m_pktlen m"
proof -
  let ?bs = "take k (mtod st n)" and ?m = "m_append_data st k n m"
  have l: "length ?bs = k" using mtod_length [OF assms(2)] assms(4) by simp
  have s: "length (m_store m) = MLEN" "m_area st m = m_store m" using assms(1,3) by (simp_all add: mbuf_ok_def m_area_def)
  show e: "\<not> ext_on ?m" "hdr_on ?m = hdr_on m" "uses c ?m = uses c m" "m_len ?m = m_len m + k" "m_data ?m = m_data m"
    "m_pktlen ?m = m_pktlen m"
    using assms(3) by (simp_all add: m_append_data_def ext_on_def hdr_on_def uses_def)
  have fit: "m_data m + m_len m + length ?bs \<le> length (m_store m)" using l s assms(5) by simp
  have st: "length (m_store ?m) = MLEN" using put_bytes_length [OF fit] s by (simp add: m_append_data_def)
  show "mtod st ?m = mtod st m @ ?bs"
    using put_bytes_append [OF fit] l s(2) e(1) assms(3)
    by (simp add: mtod_def m_area_def m_append_data_def)
  show "mbuf_ok st ?m" using assms(1,3,5) e st by (simp add: mbuf_ok_def m_area_def)
qed

lemma mb_step_append:
  assumes "mbuf_ok st m" "mbuf_ok st n" "\<not> ext_on m" "k \<le> m_len n" "m_data m + m_len m + k \<le> MLEN"
  shows "mb_step st [m] st [m_append_data st k n m]"
  by (rule mb_step_update) (use m_append_data_ok [OF assms] in auto)

lemma mb_step_free: "mb_step st (m # n # ns) (m_free n st) (m # ns)"
  using mb_step_cons [OF mb_step_frame(1) [OF m_free_step]] by fastforce

lemma m_cat_loop_ok:
  assumes "mbuf_ok st m" "chain_ok st ns" "m_cat_loop m ns st = (r, st1)"
  shows "mb_step st (m # ns) st1 r \<and> chain_bytes st r = mtod st m @ chain_bytes st ns
    \<and> r \<noteq> [] \<and> hdr_on (hd r) = hdr_on m \<and> m_pktlen (hd r) = m_pktlen m"
  using assms
proof (induction m ns st rule: m_cat_loop.induct)
  case (2 m n ns st)
  have n: "mbuf_ok st n" "chain_ok st ns" using "2.prems"(2) by simp_all
  show ?case
  proof (cases "ext_on m \<or> m_data m + m_len m + m_len n \<ge> MLEN")
    case True
    have "mtod st n = []" if "m_len n = 0" using mtod_length [OF n(1)] that by simp
    then show ?thesis using True "2.prems"(3) mb_step_free by (auto split: if_splits)
  next
    case False
    let ?m = "m_append_data st (m_len n) n m"
    have p: "\<not> ext_on m" "m_len n \<le> m_len n" "m_data m + m_len m + m_len n \<le> MLEN" using False by auto
    note a = m_append_data_ok [OF "2.prems"(1) n(1) p]
    have "mb_step st (m # n # ns) st (?m # n # ns)"
      using mb_step_frame(1) [OF mb_step_append [OF "2.prems"(1) n(1) p], of "n # ns"] by simp
    also note mb_step_free [of st ?m n ns]
    finally have s: "mb_step st (m # n # ns) (m_free n st) (?m # ns)" .
    note b = mb_step_bytes [OF s] mb_step_chain [OF s]
    have "mb_step (m_free n st) (?m # ns) st1 r \<and> chain_bytes (m_free n st) r = mtod (m_free n st) ?m @ chain_bytes (m_free n st) ns
        \<and> r \<noteq> [] \<and> hdr_on (hd r) = hdr_on ?m \<and> m_pktlen (hd r) = m_pktlen ?m"
      by (rule "2.IH" [OF False]) (use a(2) n(2) b "2.prems"(3) False in simp_all)
    moreover have "take (m_len n) (mtod st n) = mtod st n" using mtod_length [OF n(1)] by simp
    ultimately show ?thesis using mb_step_trans [OF s] a b by simp
  qed
qed auto

lemma m_cat_ok:
  assumes "chain_ok st ms" "chain_ok st ns" "ms \<noteq> []" "m_cat ms ns st = (r, st1)"
  shows "mb_step st (ms @ ns) st1 r" "chain_bytes st r = chain_bytes st ms @ chain_bytes st ns" "r \<noteq> []"
    "hdr_on (hd r) = hdr_on (hd ms)" "m_pktlen (hd r) = m_pktlen (hd ms)"
proof -
  obtain ks m where ms: "ms = ks @ [m]" using assms(3) by (cases ms rule: rev_cases) auto
  obtain r1 where l: "m_cat_loop m ns st = (r1, st1)" and r: "r = ks @ r1"
    using assms(4) ms by (auto simp: m_cat_def split: prod.splits)
  have ok: "mbuf_ok st m" using assms(1) ms by simp
  note c = m_cat_loop_ok [OF ok assms(2) l]
  show "mb_step st (ms @ ns) st1 r" using mb_step_frame(2) [of st "m # ns" st1 r1 ks] c ms r by simp
  show "chain_bytes st r = chain_bytes st ms @ chain_bytes st ns" using c ms r by simp
  show "r \<noteq> []" "hdr_on (hd r) = hdr_on (hd ms)" "m_pktlen (hd r) = m_pktlen (hd ms)"
    using c ms r by (cases ks; simp)+
qed

section \<open>Trimming\<close>

text \<open>Shrinking the data of an mbuf.\<close>

lemma trim_mbuf:
  assumes "mbuf_ok st m" "a + k \<le> m_len m"
  defines "m' \<equiv> m\<lparr>m_len := k, m_data := m_data m + a\<rparr>"
  shows "mbuf_ok st m'" "uses c m' = uses c m" "mtod st m' = take k (drop a (mtod st m))" "mb_step st [m] st [m']"
proof -
  have area: "m_area st m' = m_area st m" by (simp add: m_area_def m'_def ext_on_def)
  show ok: "mbuf_ok st m'" using assms(1,2) area by (auto simp: mbuf_ok_def m'_def ext_on_def hdr_on_def)
  show u: "uses c m' = uses c m" for c by (simp add: uses_def m'_def ext_on_def)
  have "take k (drop (m_data m + a) (m_area st m)) = take k (drop a (take (m_len m) (drop (m_data m) (m_area st m))))"
    using assms(2) by (simp add: drop_take take_take min_def add.commute)
  then show "mtod st m' = take k (drop a (mtod st m))" using area by (simp add: mtod_def m'_def)
  show "mb_step st [m] st [m']" by (rule mb_step_update) (use ok u in auto)
qed

lemmas trim_tail = trim_mbuf [where a = 0, simplified]

lemma mb_step_two: "mb_step st [m] st [m'] \<Longrightarrow> mb_step st ms st ms' \<Longrightarrow> mb_step st (m # ms) st (m' # ms')"
  using mb_step_trans mb_step_frame(1) [of st "[m]" st "[m']" ms] mb_step_cons [of st ms st ms' m'] by fastforce

lemma adj_head_ok:
  assumes "chain_ok st ms" "adj_head len ms = (l, ms1)"
  shows "mb_step st ms st ms1 \<and> chain_bytes st ms1 = drop len (chain_bytes st ms) \<and> l = len - m_length ms
    \<and> length ms1 = length ms \<and> (ms \<noteq> [] \<longrightarrow> hdr_on (hd ms1) = hdr_on (hd ms) \<and> m_pktlen (hd ms1) = m_pktlen (hd ms))"
  using assms
proof (induction len ms arbitrary: l ms1 rule: adj_head.induct)
  case (2 len m ms)
  have m: "mbuf_ok st m" "chain_ok st ms" "length (mtod st m) = m_len m" using "2.prems"(1) mtod_length by simp_all
  consider "len = 0" | "len \<noteq> 0" "m_len m \<le> len" | "len \<noteq> 0" "len < m_len m" by linarith
  then show ?case
  proof cases
    case 1
    then show ?thesis using "2.prems"(2) by simp
  next
    case 2
    obtain l2 ms2 where r: "adj_head (len - m_len m) ms = (l2, ms2)" by fastforce
    have o: "l = l2" "ms1 = m\<lparr>m_len := 0\<rparr> # ms2" using "2.prems"(2) 2 r by simp_all
    have t: "mb_step st [m] st [m\<lparr>m_len := 0\<rparr>]" "mtod st (m\<lparr>m_len := 0\<rparr>) = []"
      using trim_tail(3,4) [OF m(1), of 0] by simp_all
    show ?thesis using "2.IH" [OF 2 m(2) r] mb_step_two [OF t(1)] t(2) o 2 m(3) by (auto simp: hdr_on_def)
  next
    case 3
    have le: "len + (m_len m - len) \<le> m_len m" using 3 by simp
    note t = trim_mbuf [OF m(1) le]
    show ?thesis using "2.prems"(2) 3 t(3) m(3) mb_step_two [OF t(4) mb_step_refl] by (auto simp: hdr_on_def)
  qed
qed auto

lemma zero_tail:
  assumes "chain_ok st ms"
  shows "mb_step st ms st (map (\<lambda>m. m\<lparr>m_len := 0\<rparr>) ms) \<and> chain_bytes st (map (\<lambda>m. m\<lparr>m_len := 0\<rparr>) ms) = []"
  using assms
proof (induction ms)
  case (Cons m ms)
  have m: "mbuf_ok st m" "chain_ok st ms" using Cons.prems by simp_all
  then show ?case using Cons.IH trim_tail(3,4) [OF m(1), of 0] mb_step_two by simp
qed simp

lemma adj_tail_ok:
  assumes "chain_ok st ms" "cnt \<le> m_length ms"
  shows "mb_step st ms st (adj_tail cnt ms) \<and> chain_bytes st (adj_tail cnt ms) = take cnt (chain_bytes st ms)
    \<and> length (adj_tail cnt ms) = length ms
    \<and> (ms \<noteq> [] \<longrightarrow> hdr_on (hd (adj_tail cnt ms)) = hdr_on (hd ms) \<and> m_pktlen (hd (adj_tail cnt ms)) = m_pktlen (hd ms))"
  using assms
proof (induction cnt ms rule: adj_tail.induct)
  case (2 cnt m ms)
  have m: "mbuf_ok st m" "chain_ok st ms" "length (mtod st m) = m_len m" using "2.prems"(1) mtod_length by simp_all
  show ?case
  proof (cases "m_len m \<ge> cnt")
    case True
    then show ?thesis
      using trim_tail(3,4) [OF m(1) True] zero_tail [OF m(2)] mb_step_two m(3) by (simp add: hdr_on_def)
  next
    case False
    then show ?thesis using "2.IH" [OF False m(2)] "2.prems"(2) m(3) mb_step_cons by auto
  qed
qed auto

lemma pktlen_only [simp]:
  "mbuf_ok st (m\<lparr>m_pktlen := p\<rparr>) = mbuf_ok st m" "mtod st (m\<lparr>m_pktlen := p\<rparr>) = mtod st m"
  "uses c (m\<lparr>m_pktlen := p\<rparr>) = uses c m" "hdr_on (m\<lparr>m_pktlen := p\<rparr>) = hdr_on m"
  by (simp_all add: mbuf_ok_def m_area_def ext_on_def hdr_on_def mtod_def uses_def)

lemma mb_step_pktlen: "mb_step st [m] st [m\<lparr>m_pktlen := p\<rparr>]"
  by (rule mb_step_update) simp_all

lemma set_pktlen_ok:
  assumes "chain_ok st ms"
  shows "mb_step st ms st (set_pktlen f ms)" "chain_bytes st (set_pktlen f ms) = chain_bytes st ms"
    "chain_ok st (set_pktlen f ms)" "m_length (set_pktlen f ms) = m_length ms" "length (set_pktlen f ms) = length ms"
    "ms \<noteq> [] \<Longrightarrow> hdr_on (hd (set_pktlen f ms)) = hdr_on (hd ms)"
    "ms \<noteq> [] \<Longrightarrow> hdr_on (hd ms) \<Longrightarrow> m_pktlen (hd (set_pktlen f ms)) = f (m_pktlen (hd ms))"
proof -
  have "mb_step st ms st (set_pktlen f ms) \<and> chain_bytes st (set_pktlen f ms) = chain_bytes st ms
    \<and> chain_ok st (set_pktlen f ms) \<and> m_length (set_pktlen f ms) = m_length ms"
  proof (cases ms)
    case (Cons m ks)
    show ?thesis using assms Cons mb_step_two [OF mb_step_pktlen mb_step_refl] by (simp add: set_pktlen_def)
  qed (simp add: set_pktlen_def)
  then show "mb_step st ms st (set_pktlen f ms)" "chain_bytes st (set_pktlen f ms) = chain_bytes st ms"
    "chain_ok st (set_pktlen f ms)" "m_length (set_pktlen f ms) = m_length ms" by simp_all
  show "length (set_pktlen f ms) = length ms" by (cases ms) (simp_all add: set_pktlen_def)
  show "ms \<noteq> [] \<Longrightarrow> hdr_on (hd (set_pktlen f ms)) = hdr_on (hd ms)"
    "ms \<noteq> [] \<Longrightarrow> hdr_on (hd ms) \<Longrightarrow> m_pktlen (hd (set_pktlen f ms)) = f (m_pktlen (hd ms))"
    by (cases ms; simp add: set_pktlen_def hdr_on_def)+
qed

definition adj_bytes :: "int \<Rightarrow> 8 word list \<Rightarrow> 8 word list" where
  "adj_bytes n bs = (if n \<ge> 0 then drop (nat n) bs else take (length bs - nat (- n)) bs)"

lemma m_adj_head:
  assumes "chain_ok st ms" "ms \<noteq> []" "n \<ge> 0"
  defines "r \<equiv> m_adj ms n"
  shows "mb_step st ms st r \<and> chain_bytes st r = adj_bytes n (chain_bytes st ms) \<and> length r = length ms
    \<and> hdr_on (hd r) = hdr_on (hd ms)
    \<and> (hdr_on (hd ms) \<longrightarrow> m_pktlen (hd r) = m_pktlen (hd ms) - min n (int (length (chain_bytes st ms))))"
proof -
  obtain l ms1 where a: "adj_head (nat n) ms = (l, ms1)" by fastforce
  have r: "r = set_pktlen (\<lambda>p. p - (n - int l)) ms1" using a assms(2,3) by (simp add: r_def m_adj_def)
  note h = adj_head_ok [OF assms(1) a]
  have one: "ms1 \<noteq> []" using h assms(2) by auto
  have p: "mb_step st ms1 st r \<and> chain_bytes st r = chain_bytes st ms1 \<and> length r = length ms1
      \<and> hdr_on (hd r) = hdr_on (hd ms1) \<and> (hdr_on (hd ms1) \<longrightarrow> m_pktlen (hd r) = m_pktlen (hd ms1) - (n - int l))"
  proof (cases ms1)
    case (Cons m ks)
    show ?thesis using Cons r mb_step_two [OF mb_step_pktlen mb_step_refl] by (simp add: set_pktlen_def)
  qed (use one in simp)
  have "n - int l = min n (int (length (chain_bytes st ms)))"
    using h chain_length [OF assms(1)] assms(3) by (simp add: min_def)
  moreover have "mb_step st ms st r" using h p mb_step_trans by blast
  ultimately show ?thesis using h p assms(2,3) by (simp add: adj_bytes_def)
qed

lemma m_adj_tail:
  assumes "chain_ok st ms" "ms \<noteq> []" "n < 0"
  defines "r \<equiv> m_adj ms n"
  shows "mb_step st ms st r \<and> chain_bytes st r = adj_bytes n (chain_bytes st ms) \<and> length r = length ms
    \<and> hdr_on (hd r) = hdr_on (hd ms)
    \<and> (hdr_on (hd ms) \<and> m_pktlen (hd ms) = int (length (chain_bytes st ms)) \<longrightarrow>
        m_pktlen (hd r) = int (length (chain_bytes st r)))"
proof -
  let ?len = "nat (- n)"
  obtain ks m where ms: "ms = ks @ [m]" using assms(2) by (cases ms rule: rev_cases) auto
  have m: "mbuf_ok st m" "length (mtod st m) = m_len m" and kl: "length (chain_bytes st ks) = m_length ks"
    using assms(1) ms mtod_length chain_length by auto
  show ?thesis
  proof (cases "m_len m \<ge> ?len")
    case True
    let ?m = "m\<lparr>m_len := m_len m - ?len\<rparr>"
    have le: "m_len m - ?len \<le> m_len m" by simp
    note t = trim_tail [OF m(1) le]
    have r: "r = set_pktlen (\<lambda>p. p - int ?len) (ks @ [?m])" using True assms(2,3) by (simp add: r_def m_adj_def Let_def ms)
    have ok: "chain_ok st (ks @ [?m])" using assms(1) t(1) ms by simp
    note s = set_pktlen_ok [OF ok, of "\<lambda>p. p - int ?len", folded r]
    have "mb_step st ms st (ks @ [?m])" unfolding ms by (rule mb_step_frame(2) [OF t(4)])
    then have st: "mb_step st ms st r" using s(1) mb_step_trans by blast
    have hd: "hdr_on (hd (ks @ [?m])) = hdr_on (hd ms)" "m_pktlen (hd (ks @ [?m])) = m_pktlen (hd ms)"
      by (cases ks; simp add: ms hdr_on_def)+
    have bytes: "chain_bytes st r = adj_bytes n (chain_bytes st ms)"
      using s(2) t(3) True assms(3) m(2) kl by (simp add: ms adj_bytes_def)
    have "length (chain_bytes st r) = length (chain_bytes st ms) - ?len" unfolding bytes using assms(3) by (simp add: adj_bytes_def)
    moreover have "?len \<le> length (chain_bytes st ms)" using True m(2) by (simp add: ms)
    ultimately show ?thesis using st bytes s(5,6,7) hd by (auto simp: ms)
  next
    case False
    define cnt where "cnt = m_length ms - ?len"
    have r: "r = adj_tail cnt (set_pktlen (\<lambda>p. int cnt) ms)" using False assms(2,3) by (simp add: r_def m_adj_def Let_def ms cnt_def)
    note s = set_pktlen_ok [OF assms(1), of "\<lambda>p. int cnt"]
    have le: "cnt \<le> m_length (set_pktlen (\<lambda>p. int cnt) ms)" using s(4) by (simp add: cnt_def)
    note t = adj_tail_ok [OF s(3) le, folded r]
    have ne: "set_pktlen (\<lambda>p. int cnt) ms \<noteq> []" using s(5) assms(2) by (metis length_0_conv)
    have L: "length (chain_bytes st ms) = m_length ms" by (rule chain_length [OF assms(1)])
    have "mb_step st ms st r" using s(1) t mb_step_trans by blast
    moreover have "chain_bytes st r = adj_bytes n (chain_bytes st ms)" using t s(2) L assms(3) by (simp add: adj_bytes_def cnt_def)
    moreover have "length (chain_bytes st r) = cnt" using t s(2) L by (simp add: cnt_def)
    ultimately show ?thesis using t ne s(5-7) assms(2) by simp
  qed
qed

end
