(* ===== verification/Mbuf_Pull.thy ===== *)
theory Mbuf_Pull
  imports Mbuf_Edit
begin

text \<open>
  Room in front of a chain, and pulling its first bytes together.
\<close>

section \<open>Prepending\<close>

lemma hdr_off: "\<not> hdr_on (m\<lparr>m_flags := m_flags m AND NOT M_PKTHDR\<rparr>)" "ext_on (m\<lparr>m_flags := m_flags m AND NOT M_PKTHDR\<rparr>) = ext_on m"
  by (simp_all add: hdr_on_def ext_on_def M_PKTHDR_def M_EXT_def and.assoc)

text \<open>The header of the first mbuf moves to a new one.\<close>

lemma hdr_off_ok:
  fixes m :: mbuf
  defines "m' \<equiv> m\<lparr>m_flags := m_flags m AND NOT M_PKTHDR\<rparr>"
  shows "mbuf_ok st m \<Longrightarrow> mbuf_ok st m'" "mtod st m' = mtod st m" "mb_step st [m] st [m']"
proof -
  have u: "uses c m' = uses c m" for c by (simp add: uses_def m'_def hdr_off)
  have a: "m_area st m' = m_area st m" by (simp add: m_area_def hdr_off m'_def)
  show ok: "mbuf_ok st m \<Longrightarrow> mbuf_ok st m'" using a by (auto simp: mbuf_ok_def m'_def hdr_off)
  show "mtod st m' = mtod st m" using a by (simp add: mtod_def m'_def)
  show "mb_step st [m] st [m']" by (rule mb_step_update) (use ok u in auto)
qed

definition hdr_moved :: "mbuf \<Rightarrow> mbuf \<Rightarrow> mbuf \<times> mbuf" where
  "hdr_moved mn m = (if hdr_on m then (M_COPY_PKTHDR mn m, m\<lparr>m_flags := m_flags m AND NOT M_PKTHDR\<rparr>) else (mn, m))"

lemma hdr_moved_ok:
  assumes "is_new n" "m_len n = 0" "hdr_moved n m = (n1, m1)"
  shows "mbuf_ok st m \<Longrightarrow> mbuf_ok st m1" "mtod st m1 = mtod st m" "mbuf_ok st n1" "\<not> ext_on n1" "hdr_on n1 = hdr_on m"
    "m_len n1 = 0" "m_data n1 = (if hdr_on m then m_pktdat else 0)" "hdr_on m \<Longrightarrow> m_pktlen n1 = m_pktlen m"
    "\<not> hdr_on m1" "mb_step st [n, m] st [n1, m1]"
proof -
  note n = is_newD [OF assms(1)]
  then have junk: "length (m_store n) = MLEN" by simp
  have pd: "m_pktdat \<le> MLEN" by (simp add: m_pktdat_def)
  show "mbuf_ok st m \<Longrightarrow> mbuf_ok st m1" "mtod st m1 = mtod st m" "\<not> ext_on n1" "hdr_on n1 = hdr_on m"
    "m_len n1 = 0" "m_data n1 = (if hdr_on m then m_pktdat else 0)" "\<not> hdr_on m1"
    using assms(2,3) n hdr_off hdr_off_ok by (auto simp: hdr_moved_def split: if_splits)
  show n1: "mbuf_ok st n1"
    using assms(2,3) n junk pd by (auto simp: hdr_moved_def mbuf_ok_def m_area_def split: if_splits)
  show "hdr_on m \<Longrightarrow> m_pktlen n1 = m_pktlen m" using assms(2,3) n by (auto simp: hdr_moved_def M_COPY_PKTHDR_def)
  have "uses c n1 = uses c n" for c using assms(2,3) n by (auto simp: uses_def hdr_moved_def split: if_splits)
  then have "mb_step st [n] st [n1]" by (rule mb_step_update) (rule n1)
  moreover have "mb_step st [m] st [m1]" using assms(2,3) n hdr_off_ok(3) by (auto simp: hdr_moved_def split: if_splits)
  ultimately show "mb_step st [n, m] st [n1, m1]" using mb_step_two by blast
qed

lemma m_prepend_ok:
  assumes "env_ok env" "chain_ok st (m # ms)" "len \<le> MHLEN" "m_prepend env len how m ms st = (r, st1)"
  shows "case r of
      None \<Rightarrow> mb_step st (m # ms) st1 [] \<and> (\<exists>i. \<not> me_malloc env i)
    | Some cs \<Rightarrow> mb_step st (m # ms) st1 cs \<and> chain_ok st cs \<and> drop len (chain_bytes st cs) = chain_bytes st (m # ms)
        \<and> m_len (hd cs) = len \<and> cs \<noteq> [] \<and> \<not> ext_on (hd cs) \<and> hdr_on (hd cs) = hdr_on m \<and> (hdr_on m \<longrightarrow> m_pktlen (hd cs) = m_pktlen m)"
proof -
  obtain o1 s1 where g: "MGET env how (m_type m) st = (o1, s1)" by fastforce
  note g1 = MGET_result [OF g assms(1)]
  show ?thesis
  proof (cases o1)
    case None
    then have r: "r = None" "st1 = m_freem (m # ms) s1" using assms(4) g by (auto simp: m_prepend_def)
    have "mb_step st (m # ms) s1 (m # ms)" using mb_step_frame(1) [of st "[]" s1 "[]" "m # ms"] g1 None by simp
    also have "mb_step s1 (m # ms) st1 []" unfolding r(2) by (rule m_freem_step)
    finally show ?thesis using r g None MGET_succeeds [of env how "m_type m" st] by auto
  next
    case (Some k)
    define n where "n = no_data k"
    have n: "is_new n" "m_len n = 0" and s: "mb_step st [] s1 [n]" using g1 unfolding Some by (simp_all add: n_def)
    obtain n1 m1 where h: "hdr_moved n m = (n1, m1)" by fastforce
    note v = hdr_moved_ok [OF n h]
    have mv: "mb_step s1 [n, m] s1 [n1, m1]" by (rule hdr_moved_ok(10) [OF n h])
    define n2 where "n2 = (if len < MHLEN then MH_ALIGN len n1 else n1)\<lparr>m_len := len\<rparr>"
    have r: "r = Some (n2 # m1 # ms)" "st1 = s1"
      using assms(4) g Some h
      by (auto simp: m_prepend_def hdr_moved_def n2_def n_def no_data_def MH_ALIGN_def M_COPY_PKTHDR_def Let_def split: if_splits)
    have d: "m_data n2 + len \<le> MLEN" "m_data n1 \<le> m_data n2"
    proof -
      have "(MHLEN - len) div 8 * 8 \<le> MHLEN - len" by simp
      moreover have "m_pktdat + MHLEN = MLEN" by (simp add: m_pktdat_def MLEN_def MHLEN_def MSIZE_def)
      ultimately show "m_data n2 + len \<le> MLEN" using v(7) assms(3) by (auto simp: n2_def MH_ALIGN_def)
      show "m_data n1 \<le> m_data n2" by (simp add: n2_def MH_ALIGN_def)
    qed
    have e: "\<not> ext_on n2" "hdr_on n2 = hdr_on m" "m_store n2 = m_store n1" "m_len n2 = len" "m_pktlen n2 = m_pktlen n1"
      using v(4,5) by (simp_all add: n2_def MH_ALIGN_def ext_on_def hdr_on_def)
    have ok: "mbuf_ok st n2" using v(3,4,5,7) e d by (auto simp: mbuf_ok_def m_area_def)
    have ok1: "mbuf_ok s1 n2" using ok mb_step_bytes(3) [OF s] by simp
    have "mb_step s1 [n1] s1 [n2]" by (rule mb_step_update) (use ok1 e v(4) in \<open>auto simp: uses_def\<close>)
    have "mb_step st (m # ms) s1 (n # m # ms)" using mb_step_frame(1) [OF s, of "m # ms"] by simp
    also have "mb_step s1 (n # m # ms) s1 (n1 # m1 # ms)" using mb_step_frame(1) [OF mv, of ms] by simp
    also have "mb_step s1 (n1 # m1 # ms) s1 (n2 # m1 # ms)" using \<open>mb_step s1 [n1] s1 [n2]\<close> mb_step_two mb_step_refl by blast
    finally have "mb_step st (m # ms) st1 (n2 # m1 # ms)" using r by simp
    moreover have "length (mtod st n2) = len" using mtod_length [OF ok] e by simp
    ultimately show ?thesis using r ok v(1,2,8) e assms(2) by simp
  qed
qed

definition grow_pktlen :: "nat \<Rightarrow> mbuf \<Rightarrow> mbuf" where
  "grow_pktlen k m = (if hdr_on m then m\<lparr>m_pktlen := m_pktlen m + int k\<rparr> else m)"

lemma grow_pktlen_ok:
  "mbuf_ok st (grow_pktlen k m) = mbuf_ok st m" "mtod st (grow_pktlen k m) = mtod st m" "uses c (grow_pktlen k m) = uses c m"
  "hdr_on (grow_pktlen k m) = hdr_on m" "m_len (grow_pktlen k m) = m_len m" "ext_on (grow_pktlen k m) = ext_on m"
  "m_ext_buf (grow_pktlen k m) = m_ext_buf m" "hdr_on m \<Longrightarrow> m_pktlen (grow_pktlen k m) = m_pktlen m + int k"
  "mb_step st [m] st [grow_pktlen k m]"
  using mb_step_pktlen by (simp_all add: grow_pktlen_def ext_on_def)

lemma M_PREPEND_alt:
  "M_PREPEND env plen how m ms st =
     (if m_leadingspace st m \<ge> int plen
      then (Some (grow_pktlen plen (m\<lparr>m_data := m_data m - plen, m_len := m_len m + plen\<rparr>) # ms), st)
      else (case m_prepend env plen how m ms st of (r, st1) \<Rightarrow>
        ((case r of Some (m1 # ms1) \<Rightarrow> Some (grow_pktlen plen m1 # ms1) | _ \<Rightarrow> r), st1)))"
  by (simp add: M_PREPEND_def grow_pktlen_def hdr_on_def split: option.splits list.splits prod.splits)

text \<open>Room inside the mbuf: a cluster is written only when no one else refers to it.\<close>

lemma lead_ok:
  assumes "mbuf_ok st m" "m_leadingspace st m \<ge> int len"
  defines "m' \<equiv> m\<lparr>m_data := m_data m - len, m_len := m_len m + len\<rparr>"
  shows "mbuf_ok st m'" "drop len (mtod st m') = mtod st m" "mb_step st [m] st [m']" "0 < len \<Longrightarrow> ext_on m \<Longrightarrow> \<not> MCLREFERENCED st m"
proof -
  have d: "len \<le> m_data m" "hdr_on m \<and> \<not> ext_on m \<longrightarrow> m_pktdat \<le> m_data m - len"
    using assms(1,2) by (auto simp: m_leadingspace_def split: if_splits)
  have f: "ext_on m' = ext_on m" "hdr_on m' = hdr_on m" "m_area st m' = m_area st m" "uses c m' = uses c m" for c
    by (simp_all add: m'_def ext_on_def hdr_on_def m_area_def uses_def)
  show ok: "mbuf_ok st m'" using assms(1) d f by (simp add: mbuf_ok_def) (simp add: m'_def)
  show "drop len (mtod st m') = mtod st m" using d f by (simp add: mtod_def drop_take) (simp add: m'_def)
  show "mb_step st [m] st [m']" by (rule mb_step_update) (use ok f in auto)
  show "0 < len \<Longrightarrow> ext_on m \<Longrightarrow> \<not> MCLREFERENCED st m" using assms(2) by (auto simp: m_leadingspace_def split: if_splits)
qed

lemma M_PREPEND_ok:
  assumes "env_ok env" "chain_ok st (m # ms)" "len \<le> MHLEN" "M_PREPEND env len how m ms st = (r, st1)"
  shows "case r of
      None \<Rightarrow> mb_step st (m # ms) st1 [] \<and> (\<exists>i. \<not> me_malloc env i)
    | Some cs \<Rightarrow> mb_step st (m # ms) st1 cs \<and> drop len (chain_bytes st cs) = chain_bytes st (m # ms) \<and> len \<le> m_len (hd cs)
        \<and> cs \<noteq> [] \<and> hdr_on (hd cs) = hdr_on m \<and> (hdr_on m \<longrightarrow> m_pktlen (hd cs) = m_pktlen m + int len)
        \<and> (0 < len \<and> ext_on (hd cs) \<longrightarrow> \<not> MCLREFERENCED st m \<and> ext_on m \<and> uses (m_ext_buf m) (hd cs))"
proof -
  have ok: "mbuf_ok st m" using assms(2) by simp
  show ?thesis
  proof (cases "m_leadingspace st m \<ge> int len")
    case True
    define m' where "m' = m\<lparr>m_data := m_data m - len, m_len := m_len m + len\<rparr>"
    have f: "ext_on m' = ext_on m" "hdr_on m' = hdr_on m" "m_len m' = m_len m + len" "m_ext_buf m' = m_ext_buf m" "m_pktlen m' = m_pktlen m"
      by (simp_all add: m'_def ext_on_def hdr_on_def)
    have r: "r = Some (grow_pktlen len m' # ms)" "st1 = st" using assms(4) True by (simp_all add: M_PREPEND_alt m'_def)
    note l = lead_ok [OF ok True, folded m'_def]
    have "mb_step st [m] st [grow_pktlen len m']" using mb_step_trans [OF l(3) grow_pktlen_ok(9)] .
    then have "mb_step st (m # ms) st1 (grow_pktlen len m' # ms)" unfolding r(2) by (rule mb_step_two) simp
    moreover have "length (mtod st m') = m_len m + len" using mtod_length [OF l(1)] f by simp
    ultimately show ?thesis using r l(2,4) f by (simp add: grow_pktlen_ok uses_def)
  next
    case False
    obtain r1 s1 where p: "m_prepend env len how m ms st = (r1, s1)" by fastforce
    note q = m_prepend_ok [OF assms(1-3) p]
    show ?thesis
    proof (cases r1)
      case None
      then show ?thesis using assms(4) q p False by (auto simp: M_PREPEND_alt)
    next
      case (Some cs)
      then obtain c cs' where c: "cs = c # cs'" using q by (cases cs) auto
      have r: "r = Some (grow_pktlen len c # cs')" "st1 = s1" using assms(4) p False Some c by (simp_all add: M_PREPEND_alt)
      have nx: "\<not> ext_on c" using q Some c by simp
      have "mb_step s1 cs st1 (grow_pktlen len c # cs')" unfolding r(2) c by (rule mb_step_two [OF grow_pktlen_ok(9) mb_step_refl])
      then show ?thesis using q Some c r nx mb_step_trans by (auto simp: grow_pktlen_ok)
    qed
  qed
qed

section \<open>Pulling up\<close>

text \<open>
  The loop ends: either an mbuf is used up, or all that was asked for is there.
\<close>

lemma pull_loop_ok:
  assumes "mbuf_ok st m" "\<not> ext_on m" "chain_ok st ns" "ns \<noteq> []" "space = int MLEN - int (m_data m + m_len m)"
    "0 \<le> len" "len \<le> space"
  shows "\<exists>l m1 ns1 st1. pull_loop proto len m space ns st = Some (l, m1, ns1, st1)
    \<and> mb_step st (m # ns) st1 (m1 # ns1) \<and> chain_bytes st (m1 # ns1) = chain_bytes st (m # ns)
    \<and> hdr_on m1 = hdr_on m \<and> m_pktlen m1 = m_pktlen m \<and> \<not> ext_on m1
    \<and> int (m_len m) + len \<le> int (m_len m1) + l \<and> (l > 0 \<longrightarrow> int (m_length ns) < len)"
  using assms
proof (induction ns arbitrary: len m space st)
  case (Cons n ns)
  define k where "k = nat (min (min (max len proto) space) (int (m_len n)))"
  have n: "mbuf_ok st n" "chain_ok st ns" using Cons.prems(3) by simp_all
  have kint: "int k = min (min (max len proto) space) (int (m_len n))" using Cons.prems(6,7) by (simp add: k_def max_def)
  have k: "k \<le> m_len n" "int k \<le> space" "len - int k > 0 \<longrightarrow> k = m_len n" using kint Cons.prems(6,7) by linarith+
  have fit: "m_data m + m_len m + k \<le> MLEN" using k(2) Cons.prems(5) by linarith
  define m1 where "m1 = m_append_data st k n m"
  note a = m_append_data_ok [OF Cons.prems(1) n(1) Cons.prems(2) k(1) fit, folded m1_def]
  have s1: "mb_step st [m] st [m1]" unfolding m1_def by (rule mb_step_append [OF Cons.prems(1) n(1) Cons.prems(2) k(1) fit])
  define n1 where "n1 = n\<lparr>m_len := m_len n - k, m_data := m_data n + k\<rparr>"
  have le: "k + (m_len n - k) \<le> m_len n" using k(1) by simp
  note t = trim_mbuf [OF n(1) le, folded n1_def]
  have ln: "length (mtod st n) = m_len n" by (rule mtod_length [OF n(1)])
  have two: "mb_step st (m # n # ns) st (m1 # n1 # ns)" using mb_step_two [OF s1 mb_step_two [OF t(4) mb_step_refl]] .
  have n1l: "m_len n1 = m_len n - k" by (simp add: n1_def)
  have split: "mtod st m1 @ mtod st n1 = mtod st m @ mtod st n" using a(1) t(3) ln k(1) by simp
  define s2 where "s2 = m_free n1 st"
  have unf: "pull_loop proto len m space (n # ns) st =
      (case (if m_len n1 \<noteq> 0 then (n1 # ns, st) else (ns, s2)) of (ns2, s) \<Rightarrow>
        if len - int k > 0 \<and> ns2 \<noteq> [] then pull_loop proto (len - int k) m1 (space - int k) ns2 s
        else Some (len - int k, m1, ns2, s))"
    unfolding s2_def n1_def m1_def k_def by (subst pull_loop.simps) (simp only: Let_def list.case)
  show ?case
  proof (cases "m_len n1 = 0")
    case False
    then have "\<not> len - int k > 0" using k(3) n1l by auto
    then have "pull_loop proto len m space (n # ns) st = Some (len - int k, m1, n1 # ns, st)" using unf False by simp
    then show ?thesis using two split a(4-8) \<open>\<not> len - int k > 0\<close> by simp
  next
    case True
    then have kn: "k = m_len n" "mtod st n1 = []" using n1l k(1) t(3) ln by auto
    have "mb_step st (m1 # n1 # ns) s2 (m1 # ns)" unfolding s2_def by (rule mb_step_free)
    then have st2: "mb_step st (m # n # ns) s2 (m1 # ns)" using mb_step_trans [OF two] by blast
    note b = mb_step_bytes [OF st2] mb_step_chain [OF st2]
    show ?thesis
    proof (cases "len - int k > 0 \<and> ns \<noteq> []")
      case False
      then have "pull_loop proto len m space (n # ns) st = Some (len - int k, m1, ns, s2)" using unf True False by auto
      then show ?thesis using st2 split kn a(4-8) False by auto
    next
      case more: True
      then have go: "pull_loop proto len m space (n # ns) st = pull_loop proto (len - int k) m1 (space - int k) ns s2" using unf True more by simp
      have p: "mbuf_ok s2 m1" "chain_ok s2 ns" "space - int k = int MLEN - int (m_data m1 + m_len m1)"
        "0 \<le> len - int k" "len - int k \<le> space - int k"
        using a n(2) b Cons.prems(5,7) more by simp_all
      from Cons.IH [OF p(1) a(4) p(2) conjunct2 [OF more] p(3-5)]
      obtain l m2 ns2 st2' where r: "pull_loop proto (len - int k) m1 (space - int k) ns s2 = Some (l, m2, ns2, st2')"
        "mb_step s2 (m1 # ns) st2' (m2 # ns2)" "chain_bytes s2 (m2 # ns2) = chain_bytes s2 (m1 # ns)"
        "hdr_on m2 = hdr_on m1" "m_pktlen m2 = m_pktlen m1" "\<not> ext_on m2"
        "int (m_len m1) + (len - int k) \<le> int (m_len m2) + l" "l > 0 \<longrightarrow> int (m_length ns) < len - int k" by blast
      have "mb_step st (m # n # ns) st2' (m2 # ns2)" by (rule mb_step_trans [OF st2 r(2)])
      moreover have "chain_bytes st (m2 # ns2) = chain_bytes st (m # n # ns)"
        using r(3) split kn(2) unfolding b by simp
      ultimately show ?thesis using go r(1,4-8) a(5,6,8) kn(1) by auto
    qed
  qed
qed simp

definition pulled :: "mbuf \<Rightarrow> int \<Rightarrow> mb_state \<Rightarrow> chain \<Rightarrow> mb_state \<Rightarrow> chain \<Rightarrow> bool" where
  "pulled n len st ms st1 cs \<longleftrightarrow> mb_step st ms st1 cs \<and> chain_bytes st cs = chain_bytes st ms \<and> cs \<noteq> []
     \<and> hdr_on (hd cs) = hdr_on n \<and> (hdr_on n \<longrightarrow> m_pktlen (hd cs) = m_pktlen n) \<and> \<not> ext_on (hd cs) \<and> len \<le> int (m_len (hd cs))"

definition pull_end :: "(int \<times> mbuf \<times> chain \<times> mb_state) option \<Rightarrow> (chain option \<times> mb_state) option" where
  "pull_end r = Option.bind r (\<lambda>(l1, m1, ns1, s1). Some (if l1 > 0 then (None, m_freem ns1 (m_free m1 s1)) else (Some (m1 # ns1), s1)))"

lemma m_freem_cons: "mb_step st (m # ms) (m_freem ms (m_free m st)) []"
  using m_freem_step [of st "m # ms"] by simp

lemma pull_end_ok:
  assumes "mbuf_ok st m" "\<not> ext_on m" "chain_ok st ns" "ns \<noteq> []" "0 \<le> len" "len \<le> int MLEN - int (m_data m + m_len m)"
  shows "\<exists>r st1. pull_end (pull_loop proto len m (int MLEN - int (m_data m + m_len m)) ns st) = Some (r, st1)
    \<and> (case r of None \<Rightarrow> mb_step st (m # ns) st1 [] \<and> int (m_length ns) < len
       | Some cs \<Rightarrow> pulled m (int (m_len m) + len) st (m # ns) st1 cs)"
proof -
  from pull_loop_ok [OF assms(1-4) refl assms(5,6)]
  obtain l m1 ns1 s1 where r: "pull_loop proto len m (int MLEN - int (m_data m + m_len m)) ns st = Some (l, m1, ns1, s1)"
    "mb_step st (m # ns) s1 (m1 # ns1)" "chain_bytes st (m1 # ns1) = chain_bytes st (m # ns)"
    "hdr_on m1 = hdr_on m" "m_pktlen m1 = m_pktlen m" "\<not> ext_on m1"
    "int (m_len m) + len \<le> int (m_len m1) + l" "l > 0 \<longrightarrow> int (m_length ns) < len" by blast
  show ?thesis
  proof (cases "l > 0")
    case True
    have "mb_step st (m # ns) (m_freem ns1 (m_free m1 s1)) []" by (rule mb_step_trans [OF r(2) m_freem_cons])
    then show ?thesis using r(1,8) True by (simp add: pull_end_def)
  next
    case False
    then show ?thesis using r by (simp add: pull_end_def pulled_def)
  qed
qed

lemma m_pullup_with_alt:
  "m_pullup_with proto env (n # ns) len st =
     (if \<not> ext_on n \<and> int (m_data n) + len < int MLEN \<and> ns \<noteq> []
      then (if int (m_len n) \<ge> len then Some (Some (n # ns), st)
            else pull_end (pull_loop proto (len - int (m_len n)) n (int MLEN - int (m_data n + m_len n)) ns st))
      else if len > int MHLEN then Some (None, m_freem (n # ns) st)
      else case MGET env False (m_type n) st of
        (None, st1) \<Rightarrow> Some (None, m_freem (n # ns) st1)
      | (Some m, st1) \<Rightarrow> (case hdr_moved (no_data m) n of (m1, n1) \<Rightarrow>
          pull_end (pull_loop proto len m1 (int MLEN - int (m_data m1 + m_len m1)) (n1 # ns) st1)))"
  by (simp add: m_pullup_with_def pull_end_def hdr_moved_def no_data_def Let_def split: option.splits prod.splits)

lemma m_pullup_with_ok:
  assumes "env_ok env" "chain_ok st ms" "ms \<noteq> []" "0 \<le> len"
  shows "\<exists>r st1. m_pullup_with proto env ms len st = Some (r, st1) \<and>
    (case r of None \<Rightarrow> mb_step st ms st1 [] \<and> (int MHLEN < len \<or> int (m_length ms) < len \<or> (\<exists>i. \<not> me_malloc env i))
     | Some cs \<Rightarrow> pulled (hd ms) len st ms st1 cs)"
proof -
  obtain n ns where ms: "ms = n # ns" using assms(3) by (cases ms) auto
  have n: "mbuf_ok st n" "chain_ok st ns" using assms(2) ms by simp_all
  show ?thesis
  proof (cases "\<not> ext_on n \<and> int (m_data n) + len < int MLEN \<and> ns \<noteq> []")
    case here: True
    show ?thesis
    proof (cases "int (m_len n) \<ge> len")
      case True
      then show ?thesis using here unfolding ms m_pullup_with_alt by (simp add: pulled_def)
    next
      case False
      have p: "\<not> ext_on n" "ns \<noteq> []" "0 \<le> len - int (m_len n)" "len - int (m_len n) \<le> int MLEN - int (m_data n + m_len n)"
        using False here by auto
      from pull_end_ok [OF n(1) p(1) n(2) p(2-4)]
      obtain r st1 where r: "pull_end (pull_loop proto (len - int (m_len n)) n (int MLEN - int (m_data n + m_len n)) ns st) = Some (r, st1)"
        "case r of None \<Rightarrow> mb_step st (n # ns) st1 [] \<and> int (m_length ns) < len - int (m_len n)
          | Some cs \<Rightarrow> pulled n (int (m_len n) + (len - int (m_len n))) st (n # ns) st1 cs" by blast
      have e: "m_pullup_with proto env ms len st = Some (r, st1)"
        unfolding ms m_pullup_with_alt if_P [OF here] if_not_P [OF False] by (rule r(1))
      show ?thesis unfolding e using r(2) ms by (cases r) simp_all
    qed
  next
    case away: False
    show ?thesis
    proof (cases "len > int MHLEN")
      case True
      have e: "m_pullup_with proto env ms len st = Some (None, m_freem ms st)"
        unfolding ms m_pullup_with_alt if_not_P [OF away] if_P [OF True] ..
      show ?thesis unfolding e using m_freem_step True by simp
    next
      case False
      obtain o1 s1 where g: "MGET env False (m_type n) st = (o1, s1)" by fastforce
      note g1 = MGET_result [OF g assms(1)]
      note alt = m_pullup_with_alt [of proto env n ns len st, unfolded if_not_P [OF away] if_not_P [OF False] g, folded ms]
      show ?thesis
      proof (cases o1)
        case None
        have "mb_step st ms s1 ms" using mb_step_frame(1) [of st "[]" s1 "[]" ms] g1 None by simp
        then have "mb_step st ms (m_freem ms s1) []" using m_freem_step mb_step_trans by blast
        moreover have "\<exists>i. \<not> me_malloc env i" using MGET_succeeds [of env False "m_type n" st] g None by auto
        ultimately show ?thesis using alt None by simp
      next
        case (Some k)
        define m where "m = no_data k"
        have m: "is_new m" "m_len m = 0" and s: "mb_step st [] s1 [m]" using g1 unfolding Some by (simp_all add: m_def)
        obtain m1 n1 where h: "hdr_moved m n = (m1, n1)" by fastforce
        note v = hdr_moved_ok [OF m h]
        note b = mb_step_bytes [OF s] mb_step_chain [OF s]
        have "mb_step st ms s1 (m # n # ns)" using mb_step_frame(1) [OF s, of ms] ms by simp
        also have "mb_step s1 (m # n # ns) s1 (m1 # n1 # ns)" using mb_step_frame(1) [OF v(10), of s1 ns] by simp
        finally have pre: "mb_step st ms s1 (m1 # n1 # ns)" .
        have ok: "chain_ok s1 (n1 # ns)" using v(1) n b by simp
        have fit: "len \<le> int MLEN - int (m_data m1 + m_len m1)"
          using False v(6,7) by (auto simp: m_pktdat_def MLEN_def MHLEN_def MSIZE_def)
        from pull_end_ok [OF v(3,4) ok _ assms(4) fit]
        obtain r st1 where r: "pull_end (pull_loop proto len m1 (int MLEN - int (m_data m1 + m_len m1)) (n1 # ns) s1) = Some (r, st1)"
          "case r of None \<Rightarrow> mb_step s1 (m1 # n1 # ns) st1 [] \<and> int (m_length (n1 # ns)) < len
            | Some cs \<Rightarrow> pulled m1 (int (m_len m1) + len) s1 (m1 # n1 # ns) st1 cs" by blast
        have e: "m_pullup_with proto env ms len st = Some (r, st1)" using alt Some h [unfolded m_def] r(1) by simp
        have none: "mtod st m1 = []" using mtod_length [OF v(3)] v(6) by simp
        have n1l: "m_len n1 = m_len n" using h by (auto simp: hdr_moved_def split: if_splits)
        show ?thesis
        proof (cases r)
          case None
          then show ?thesis using e r(2) mb_step_trans [OF pre] n1l ms by simp
        next
          case (Some cs)
          then have p: "pulled m1 (int (m_len m1) + len) s1 (m1 # n1 # ns) st1 cs" using r(2) by simp
          have "pulled n len st ms st1 cs"
            using p mb_step_trans [OF pre] none v(2,5,6,8) ms unfolding pulled_def b by simp
          then show ?thesis using e Some ms by simp
        qed
      qed
    qed
  qed
qed

end
