(* ===== verification/Mbuf_Run.thy ===== *)
theory Mbuf_Run
  imports Mbuf_Copy Mbuf_Pull
begin

text \<open>
  The states the operations lead to, whatever the clients do with their chains.
\<close>

section \<open>Headers and clusters\<close>

lemma new_with_header: "ext_on (m\<lparr>m_flags := M_PKTHDR, m_data := d\<rparr>) = False" "hdr_on (m\<lparr>m_flags := M_PKTHDR, m_data := d\<rparr>)"
  by (simp_all add: ext_on_def hdr_on_def M_PKTHDR_def M_EXT_def)

lemma MGETHDR_result:
  assumes "MGETHDR env wait type st = (r, st1)" "env_ok env"
  shows "case r of None \<Rightarrow> mb_step st [] st1 [] | Some m \<Rightarrow> mb_step st [] st1 [no_data m] \<and> hdr_on m"
proof -
  obtain o1 where g: "MGET env wait type st = (o1, st1)" and r: "r = map_option (\<lambda>m. m\<lparr>m_flags := M_PKTHDR, m_data := m_pktdat\<rparr>) o1"
    using assms(1) by (auto simp: MGETHDR_def split: prod.splits)
  note g1 = MGET_result [OF g assms(2)]
  show ?thesis
  proof (cases o1)
    case (Some n)
    then have n: "is_new n" and s: "mb_step st [] st1 [no_data n]" using g1 by auto
    let ?m = "n\<lparr>m_flags := M_PKTHDR, m_data := m_pktdat\<rparr>"
    have "mbuf_ok st1 (no_data ?m)" using is_newD [OF n] new_with_header
      by (simp add: mbuf_ok_def m_area_def m_pktdat_def)
    then have "mb_step st1 [no_data n] st1 [no_data ?m]"
      by (intro mb_step_update) (use is_newD [OF n] new_with_header in \<open>auto simp: uses_def\<close>)
    then show ?thesis using r Some new_with_header mb_step_trans [OF s] by simp
  qed (use g1 r in simp)
qed

lemma m_getclr_result:
  assumes "m_getclr env wait type st = (r, st1)" "env_ok env"
  shows "case r of None \<Rightarrow> mb_step st [] st1 [] | Some m \<Rightarrow> mb_step st [] st1 [no_data m] \<and> m_store m = replicate MLEN 0"
proof -
  obtain o1 where g: "MGET env wait type st = (o1, st1)"
    and r: "r = map_option (\<lambda>m. m\<lparr>m_store := put_bytes (m_data m) (replicate MLEN 0) (m_store m)\<rparr>) o1"
    using assms(1) by (auto simp: m_getclr_def split: prod.splits)
  note g1 = MGET_result [OF g assms(2)]
  show ?thesis
  proof (cases o1)
    case (Some n)
    then have n: "is_new n" and s: "mb_step st [] st1 [no_data n]" using g1 by auto
    let ?m = "n\<lparr>m_store := put_bytes (m_data n) (replicate MLEN 0) (m_store n)\<rparr>"
    have z: "m_store ?m = replicate MLEN 0" using is_newD [OF n] by (simp add: put_bytes_def)
    have f: "\<not> ext_on ?m" "\<not> hdr_on ?m" using is_newD [OF n] by (simp_all add: ext_on_def hdr_on_def)
    have "mbuf_ok st1 (no_data ?m)" using f z is_newD [OF n] by (simp add: mbuf_ok_def m_area_def)
    then have "mb_step st1 [no_data n] st1 [no_data ?m]" by (intro mb_step_update) (use f is_newD [OF n] in \<open>auto simp: uses_def\<close>)
    then show ?thesis using r Some z mb_step_trans [OF s] by simp
  qed (use g1 r in simp)
qed

text \<open>\<open>MALLOC\<close> does not hand out a cluster in use, and gives the size asked for.\<close>

definition fresh_cluster :: "mb_env \<Rightarrow> mb_state \<Rightarrow> bool" where
  "fresh_cluster env st \<longleftrightarrow> mb_refs st (me_cluster env (mb_tries st)) = 0 \<and> mb_refs st (me_cluster env (mb_tries st + 1)) = 0
     \<and> MCLBYTES \<le> length (me_page env (me_cluster env (mb_tries st)))
     \<and> MCLBYTES \<le> length (me_page env (me_cluster env (mb_tries st + 1)))"

text \<open>Memory no mbuf uses may change.\<close>

lemma mb_inv_unused:
  assumes "mb_inv st ms" "mb_refs st c = 0"
    "mb_refs st1 = mb_refs st" "mfreelater st1 = mfreelater st" "mb_bytes st1 = (mb_bytes st)(c := bs)"
    "mb_custom st1 = (mb_custom st)(c := b)"
  shows "mb_inv st1 ms" "\<And>m. m \<in> set ms \<Longrightarrow> m_area st1 m = m_area st m"
proof -
  have R: "mb_refs st c = refs_to c ms + refs_to c (mfreelater st)" using assms(1) by (simp add: mb_inv_def)
  then have none: "refs_to c ms = 0" "refs_to c (mfreelater st) = 0" using assms(2) by simp_all
  show area: "m_area st1 m = m_area st m" if "m \<in> set ms" for m
    using none(1) that unfolding refs_to_zero m_area_def assms(5) by (auto simp: uses_def)
  have ok: "\<forall>m\<in>set ms. mbuf_ok st1 m" using mb_inv_ok [OF assms(1)] area by (simp add: mbuf_ok_def)
  have "ext_on k \<and> mb_custom st1 (m_ext_buf k) \<and> mb_refs st1 (m_ext_buf k) = 1" if k: "k \<in> set (mfreelater st)" for k
  proof -
    have "m_ext_buf k \<noteq> c" using mb_inv_later [OF assms(1) k] assms(2) by auto
    then show ?thesis using mb_inv_later [OF assms(1) k] unfolding assms(3,6) by simp
  qed
  then show "mb_inv st1 ms" using assms(1) ok unfolding mb_inv_def assms(3,4) by blast
qed

text \<open>An mbuf gets memory that no other mbuf uses as its cluster.\<close>

lemma mb_inv_attach:
  assumes "mb_inv st (m # ms)" "\<not> ext_on m" "mb_refs st c = 0"
    "mb_bytes st1 = (mb_bytes st)(c := bs)" "mb_refs st1 = (mb_refs st)(c := 1)" "mb_custom st1 = (mb_custom st)(c := b)"
    "mfreelater st1 = mfreelater st"
    "ext_on m1" "m_ext_buf m1 = c" "m_store m1 = m_store m" "m_data m1 + m_len m1 \<le> length bs"
  shows "mb_inv st1 (m1 # ms)" "\<And>x. x \<in> set ms \<Longrightarrow> m_area st1 x = m_area st x"
proof -
  define s2 where "s2 = st1\<lparr>mb_refs := mb_refs st\<rparr>"
  have i2: "mb_inv s2 (m # ms)" and area: "\<And>x. x \<in> set (m # ms) \<Longrightarrow> m_area s2 x = m_area st x"
    by (rule mb_inv_unused [OF assms(1) assms(3)]; simp add: s2_def assms)+
  have ma: "m_area st1 x = m_area s2 x" for x by (simp add: m_area_def s2_def)
  have u: "uses c' m1 = (c' = c)" "\<not> uses c' m" for c' using assms(2,8,9) by (auto simp: uses_def)
  have a1: "m_area st1 m1 = bs" using assms(4,8,9) by (simp add: m_area_def)
  have "mbuf_ok st m" by (rule mb_inv_ok [OF assms(1)]) simp
  then have ok1: "mbuf_ok st1 m1" using a1 assms(8,10,11) by (simp add: mbuf_ok_def)
  have R: "mb_refs st c' = refs_to c' ms + refs_to c' (mfreelater st)" for c'
    using assms(1) u(2) by (simp add: mb_inv_def)
  have r1: "mb_refs st1 c' = refs_to c' (m1 # ms) + refs_to c' (mfreelater st1)" for c'
    using R [of c'] R [of c] assms(3,5,7) u(1) by simp
  have "ext_on x \<and> mb_custom st1 (m_ext_buf x) \<and> mb_refs st1 (m_ext_buf x) = 1" if x: "x \<in> set (mfreelater st1)" for x
  proof -
    have x: "x \<in> set (mfreelater st)" using x assms(7) by simp
    have "m_ext_buf x \<noteq> c" using mb_inv_later [OF assms(1) x] assms(3) by auto
    then show ?thesis using mb_inv_later [OF assms(1) x] assms(5,6) by simp
  qed
  moreover have "mbuf_ok st1 x" if "x \<in> set (m1 # ms)" for x
    using that ok1 mb_inv_ok [OF i2, of x] ma by (auto simp: mbuf_ok_def)
  ultimately show "mb_inv st1 (m1 # ms)" unfolding mb_inv_def using r1 by blast
  show "m_area st1 x = m_area st x" if "x \<in> set ms" for x using ma area that by simp
qed

lemma or_ext_on: "m_flags m1 = m_flags m OR M_EXT OR f \<Longrightarrow> ext_on m1"
  by (simp add: ext_on_def bit.conj_disj_distrib2 bit.conj_disj_distrib M_EXT_def)

lemma m_clalloc_result:
  assumes "mb_inv st (no_data m # ms)" "\<not> ext_on m" "fresh_cluster env st" "sz \<le> MCLBYTES"
    "m_clalloc_size sz env w m st = (m1, st1)"
  shows "mb_inv st1 (no_data m1 # ms)" "m1 = m \<or> ext_on m1 \<and> length (m_area st1 m1) = sz"
proof -
  define given where "given c \<longleftrightarrow> mb_refs st c = 0 \<and> MCLBYTES \<le> length (me_page env c)
      \<and> m1 = m\<lparr>m_data := 0, m_ext_buf := c, m_flags := m_flags m OR M_EXT\<rparr>
      \<and> st1 = st\<lparr>mb_tries := mb_tries st1, mb_bytes := (mb_bytes st)(c := take sz (me_page env c)),
           mb_refs := (mb_refs st)(c := 1), mb_custom := (mb_custom st)(c := False), m_clusters := m_clusters st1\<rparr>" for c
  have "m1 = m \<and> st1 = st\<lparr>mb_tries := mb_tries st1, m_drops := m_drops st1\<rparr>
      \<or> given (me_cluster env (mb_tries st)) \<or> given (me_cluster env (mb_tries st + 1))"
    using assms(3,5) by (auto simp: given_def m_clalloc_size_def cl_try_def Let_def fresh_cluster_def split: if_splits)
  then have "m1 = m \<and> st1 = st\<lparr>mb_tries := mb_tries st1, m_drops := m_drops st1\<rparr> \<or> (\<exists>c. given c)" by blast
  then have "mb_inv st1 (no_data m1 # ms) \<and> (m1 = m \<or> ext_on m1 \<and> length (m_area st1 m1) = sz)"
  proof (elim disjE exE conjE)
    assume e1: "m1 = m" and e2: "st1 = st\<lparr>mb_tries := mb_tries st1, m_drops := m_drops st1\<rparr>"
    have e: "mb_refs st1 = mb_refs st" "mfreelater st1 = mfreelater st" "mb_bytes st1 = mb_bytes st" "mb_custom st1 = mb_custom st"
      by (subst e2, simp)+
    have "mb_inv st1 (no_data m1 # ms)" unfolding e1 by (rule mb_inv_cong [OF assms(1) e refl]) (rule mb_inv_ok [OF assms(1)])
    then show ?thesis using e1 by simp
  next
    fix c assume g: "given c"
    have c: "mb_refs st c = 0" "MCLBYTES \<le> length (me_page env c)" using g by (simp_all add: given_def)
    have e1: "m1 = m\<lparr>m_data := 0, m_ext_buf := c, m_flags := m_flags m OR M_EXT\<rparr>" using g by (simp add: given_def)
    have e2: "st1 = st\<lparr>mb_tries := mb_tries st1, mb_bytes := (mb_bytes st)(c := take sz (me_page env c)),
           mb_refs := (mb_refs st)(c := 1), mb_custom := (mb_custom st)(c := False), m_clusters := m_clusters st1\<rparr>"
      using g by (simp add: given_def)
    have e: "mb_bytes st1 = (mb_bytes st)(c := take sz (me_page env c))" "mb_refs st1 = (mb_refs st)(c := 1)"
      "mb_custom st1 = (mb_custom st)(c := False)" "mfreelater st1 = mfreelater st"
      by (subst e2, simp)+
    have ext: "ext_on m1" by (rule or_ext_on [of _ m 0]) (simp add: e1)
    have "mb_inv st1 (no_data m1 # ms)"
      by (rule mb_inv_attach(1) [OF assms(1) _ c(1) e]) (use assms(2) ext in \<open>simp_all add: e1\<close>)
    moreover have "length (m_area st1 m1) = sz" using ext c(2) assms(4) by (simp add: m_area_def e e1)
    ultimately show ?thesis using ext by blast
  qed
  then show "mb_inv st1 (no_data m1 # ms)" "m1 = m \<or> ext_on m1 \<and> length (m_area st1 m1) = sz" by blast+
qed

lemma mblk_attach_ok:
  assumes "mb_inv st (no_data m # ms)" "\<not> ext_on m" "mb_refs st c = 0" "d + l \<le> length bs" "mblk_attach c bs d l m st = (m1, st1)"
  shows "mb_inv st1 (m1 # ms)"
proof -
  have m1: "m1 = m\<lparr>m_data := d, m_len := l, m_flags := m_flags m OR M_EXT, m_ext_buf := c\<rparr>"
    and st1: "mb_bytes st1 = (mb_bytes st)(c := bs)" "mb_refs st1 = (mb_refs st)(c := 1)" "mb_custom st1 = (mb_custom st)(c := True)"
      "mfreelater st1 = mfreelater st" using assms(5) by (auto simp: mblk_attach_def)
  have "ext_on m1" by (rule or_ext_on [of _ m 0]) (simp add: m1)
  then show ?thesis by (intro mb_inv_attach(1) [OF assms(1) _ assms(3) st1]) (use assms(2,4) in \<open>simp_all add: m1\<close>)
qed

lemma mclgetx_ok:
  assumes "mclgetx env w c bs st = (r, st1)" "env_ok env" "mb_inv st ms" "mb_refs st c = 0"
  shows "mb_inv st1 ((case r of None \<Rightarrow> [] | Some m \<Rightarrow> [m]) @ ms)"
proof -
  obtain o1 s1 where g: "MGET env w MT_DATA st = (o1, s1)" by fastforce
  note g1 = MGET_result [OF g assms(2)]
  show ?thesis
  proof (cases o1)
    case None
    then show ?thesis using assms(1) g g1 mb_step_inv [of st "[]" s1 "[]" ms] assms(3) by (auto simp: mclgetx_def)
  next
    case (Some n)
    then have n: "is_new n" and s: "mb_step st [] s1 [no_data n]" using g1 by auto
    have i: "mb_inv s1 (no_data n # ms)" using mb_step_inv [OF s, of ms] assms(3) by simp
    have c: "mb_refs s1 c = 0"
      using g assms(4) by (auto simp: MGET_def mget_try_def Let_def split: if_splits prod.splits option.splits)
    obtain m1 where r: "r = Some m1" and m1: "m1 = n\<lparr>m_flags := m_flags n OR (M_EXT OR M_FASTFREE), m_data := 0, m_ext_buf := c, m_len := length bs\<rparr>"
      and st1: "mb_bytes st1 = (mb_bytes s1)(c := bs)" "mb_refs st1 = (mb_refs s1)(c := 1)" "mb_custom st1 = (mb_custom s1)(c := True)"
        "mfreelater st1 = mfreelater s1" using assms(1) g Some by (auto simp: mclgetx_def)
    have "ext_on m1" by (rule or_ext_on [of _ n M_FASTFREE]) (simp add: m1)
    then show ?thesis unfolding r option.case append.simps
      by (intro mb_inv_attach(1) [OF i _ c st1]) (use is_newD [OF n] in \<open>simp_all add: m1\<close>)
  qed
qed

section \<open>Data from the clients\<close>

text \<open>A client appends bytes to an mbuf, in the room that \<open>m_trailingspace\<close> reports.\<close>

definition m_fill :: "8 word list \<Rightarrow> mbuf \<Rightarrow> mb_state \<Rightarrow> mbuf \<times> mb_state" where
  "m_fill bs m st =
     (let i = m_data m + m_len m; c = m_ext_buf m in
      if ext_on m then (m\<lparr>m_len := m_len m + length bs\<rparr>, st\<lparr>mb_bytes := (mb_bytes st)(c := put_bytes i bs (mb_bytes st c))\<rparr>)
      else (m\<lparr>m_len := m_len m + length bs, m_store := put_bytes i bs (m_store m)\<rparr>, st))"

lemma mb_inv_alone:
  assumes "mb_inv st (m # ms)" "ext_on m" "\<not> MCLREFERENCED st m"
  shows "x \<in> set ms \<Longrightarrow> \<not> uses (m_ext_buf m) x"
  using mb_inv_refs [OF assms(1,2)] assms(3) refs_to_zero [of "m_ext_buf m" ms] by (simp add: MCLREFERENCED_def)

lemma m_fill_ok:
  assumes "mb_inv st (m # ms)" "bs \<noteq> []" "int (length bs) \<le> m_trailingspace st m" "m_fill bs m st = (m1, st1)"
  shows "mb_inv st1 (m1 # ms)" "mtod st1 m1 = mtod st m @ bs" "\<And>x. x \<in> set ms \<Longrightarrow> m_area st1 x = m_area st x"
proof -
  have m: "mbuf_ok st m" by (rule mb_inv_ok [OF assms(1)]) simp
  let ?i = "m_data m + m_len m"
  have fit: "?i + length bs \<le> length (m_area st m)" and alone: "ext_on m \<Longrightarrow> \<not> MCLREFERENCED st m"
    using assms(2,3) m by (auto simp: m_trailingspace_def m_area_def mbuf_ok_def split: if_splits)
  have f: "ext_on m1 = ext_on m" "hdr_on m1 = hdr_on m" "m_ext_buf m1 = m_ext_buf m" "m_data m1 = m_data m"
    "m_len m1 = m_len m + length bs" "m_area st1 m1 = put_bytes ?i bs (m_area st m)"
    "mb_refs st1 = mb_refs st" "mfreelater st1 = mfreelater st" "mb_custom st1 = mb_custom st"
    using assms(4) by (auto simp: m_fill_def Let_def ext_on_def hdr_on_def m_area_def split: if_splits)
  have store: "length (m_store m1) = MLEN"
    using assms(4) fit m by (auto simp: m_fill_def Let_def m_area_def mbuf_ok_def split: if_splits)
  have l: "length (m_area st1 m1) = length (m_area st m)" unfolding f(6) by (rule put_bytes_length [OF fit])
  have ok1: "mbuf_ok st1 m1" using m fit f store l by (simp add: mbuf_ok_def)
  show "mtod st1 m1 = mtod st m @ bs" using put_bytes_append [OF fit] f by (simp add: mtod_def)
  show area: "m_area st1 x = m_area st x" if x: "x \<in> set ms" for x
  proof (cases "ext_on m")
    case True
    then have "\<not> uses (m_ext_buf m) x" using mb_inv_alone [OF assms(1) True alone] x by blast
    then show ?thesis using assms(4) True by (auto simp: m_fill_def Let_def m_area_def uses_def)
  next
    case False
    then show ?thesis using assms(4) by (auto simp: m_fill_def Let_def)
  qed
  have "mbuf_ok st1 x" if "x \<in> set (m1 # ms)" for x
    using that ok1 area mb_inv_ok [OF assms(1), of x] by (auto simp: mbuf_ok_def)
  moreover have "mb_refs st c = refs_to c (m1 # ms) + refs_to c (mfreelater st)" for c
  proof -
    have "uses c m1 = uses c m" by (simp add: uses_def f)
    then show ?thesis using assms(1) by (simp add: mb_inv_def)
  qed
  ultimately show "mb_inv st1 (m1 # ms)" unfolding mb_inv_def f(7-9) using mb_inv_later [OF assms(1)] by blast
qed

section \<open>Runs\<close>

text \<open>
  A state with the chains its clients hold, and with the new mbufs whose length no client has set
  yet.  A client sets the length with the place of the data and the packet length, appends data
  where there is room, and copies at most \<open>M_COPYALL\<close> bytes.  A buffer from elsewhere is one no mbuf
  uses.
\<close>

definition m_set :: "nat \<Rightarrow> nat \<Rightarrow> int \<Rightarrow> mbuf \<Rightarrow> mbuf" where
  "m_set d l p m = m\<lparr>m_data := d, m_len := l, m_pktlen := p\<rparr>"

inductive mb_run :: "mb_env \<Rightarrow> mb_state \<Rightarrow> chain \<Rightarrow> chain list \<Rightarrow> bool" for env where
  run_start: "mb_refs st = (\<lambda>_. 0) \<Longrightarrow> mfreelater st = [] \<Longrightarrow> mb_run env st [] []"
| run_order: "mb_run env st new cs \<Longrightarrow> mset new' = mset new \<Longrightarrow> mset cs' = mset cs \<Longrightarrow> mb_run env st new' cs'"
| run_get: "mb_run env st new cs \<Longrightarrow> MGET env w t st = (r, st1) \<Longrightarrow>
    mb_run env st1 ((case r of None \<Rightarrow> [] | Some m \<Rightarrow> [m]) @ new) cs"
| run_gethdr: "mb_run env st new cs \<Longrightarrow> MGETHDR env w t st = (r, st1) \<Longrightarrow>
    mb_run env st1 ((case r of None \<Rightarrow> [] | Some m \<Rightarrow> [m]) @ new) cs"
| run_getclr: "mb_run env st new cs \<Longrightarrow> m_getclr env w t st = (r, st1) \<Longrightarrow>
    mb_run env st1 ((case r of None \<Rightarrow> [] | Some m \<Rightarrow> [m]) @ new) cs"
| run_cluster: "mb_run env st (m # new) cs \<Longrightarrow> \<not> ext_on m \<Longrightarrow> fresh_cluster env st \<Longrightarrow> m_clalloc8 env w m st = (m1, st1) \<Longrightarrow>
    mb_run env st1 (m1 # new) cs"
| run_cluster2: "mb_run env st (m # new) cs \<Longrightarrow> \<not> ext_on m \<Longrightarrow> fresh_cluster env st \<Longrightarrow> m_clalloc2 env w m st = (m1, st1) \<Longrightarrow>
    mb_run env st1 (m1 # new) cs"
| run_attach: "mb_run env st (m # new) cs \<Longrightarrow> \<not> ext_on m \<Longrightarrow> mb_refs st c = 0 \<Longrightarrow> d + l \<le> length bs \<Longrightarrow>
    mblk_attach c bs d l m st = (m1, st1) \<Longrightarrow> mb_run env st1 new ([m1] # cs)"
| run_getx: "mb_run env st new cs \<Longrightarrow> mb_refs st c = 0 \<Longrightarrow> mclgetx env w c bs st = (r, st1) \<Longrightarrow>
    mb_run env st1 new ((case r of None \<Rightarrow> [] | Some m \<Rightarrow> [[m]]) @ cs)"
| run_set: "mb_run env st (m # new) cs \<Longrightarrow> m_data m \<le> d \<Longrightarrow> d + l \<le> length (m_area st m) \<Longrightarrow> mb_run env st new ([m_set d l p m] # cs)"
| run_unset: "mb_run env st new ([m] # cs) \<Longrightarrow> mb_run env st (m # new) cs"
| run_free_new: "mb_run env st (m # new) cs \<Longrightarrow> mb_run env (m_free m st) new cs"
| run_fill: "mb_run env st new ((ks @ m # ms) # cs) \<Longrightarrow> bs \<noteq> [] \<Longrightarrow> int (length bs) \<le> m_trailingspace st m \<Longrightarrow> m_fill bs m st = (m1, st1) \<Longrightarrow>
    mb_run env st1 new ((ks @ m1 # ms) # cs)"
| run_prepend: "mb_run env st new ((m # ms) # cs) \<Longrightarrow> len \<le> MHLEN \<Longrightarrow> M_PREPEND env len w m ms st = (r, st1) \<Longrightarrow>
    mb_run env st1 new ((case r of None \<Rightarrow> [] | Some ns \<Rightarrow> [ns]) @ cs)"
| run_copy: "mb_run env st new (ms # cs) \<Longrightarrow> len \<le> M_COPYALL \<Longrightarrow> int (m_length ms) \<le> M_COPYALL \<Longrightarrow>
    m_copym env ms off len w st = Some (r, st1) \<Longrightarrow> mb_run env st1 new (ms # (case r of None \<Rightarrow> [] | Some ns \<Rightarrow> [ns]) @ cs)"
| run_cat: "mb_run env st new (ms # ns # cs) \<Longrightarrow> ms \<noteq> [] \<Longrightarrow> m_cat ms ns st = (r, st1) \<Longrightarrow> mb_run env st1 new (r # cs)"
| run_adj: "mb_run env st new (ms # cs) \<Longrightarrow> mb_run env st new (m_adj ms n # cs)"
| run_pullup: "mb_run env st new (ms # cs) \<Longrightarrow> ms \<noteq> [] \<Longrightarrow> 0 \<le> len \<Longrightarrow> m_pullup env ms len st = Some (r, st1) \<Longrightarrow>
    mb_run env st1 new ((case r of None \<Rightarrow> [] | Some ns \<Rightarrow> [ns]) @ cs)"
| run_pullup_exact: "mb_run env st new (ms # cs) \<Longrightarrow> ms \<noteq> [] \<Longrightarrow> 0 \<le> len \<Longrightarrow> m_pullup_exact env ms len st = Some (r, st1) \<Longrightarrow>
    mb_run env st1 new ((case r of None \<Rightarrow> [] | Some ns \<Rightarrow> [ns]) @ cs)"
| run_free: "mb_run env st new (ms # cs) \<Longrightarrow> mb_run env (m_freem ms st) new cs"
| run_intr: "mb_run env st new cs \<Longrightarrow> mbufintr st = Some st1 \<Longrightarrow> mb_run env st1 new cs"

lemma concat_case [simp]: "concat ((case r of None \<Rightarrow> [] | Some x \<Rightarrow> [x]) @ cs) = (case r of None \<Rightarrow> [] | Some x \<Rightarrow> x) @ concat cs"
  by (cases r) simp_all

lemma concat_case1 [simp]: "concat ((case r of None \<Rightarrow> [] | Some m \<Rightarrow> [[m]]) @ cs) = (case r of None \<Rightarrow> [] | Some m \<Rightarrow> [m]) @ concat cs"
  by (cases r) simp_all

lemma mset_concat_perm: "mset cs' = mset cs \<Longrightarrow> mset (concat cs') = mset (concat cs)"
  by (metis mset_concat mset_map sum_mset_sum_list)

lemma mb_inv_chain_ok: "mb_inv st (ms @ others) \<Longrightarrow> chain_ok st ms"
  using mb_inv_ok by (fastforce simp: chain_ok_def)

lemma mbufintr_ok:
  assumes "mb_inv st ms"
  shows "\<exists>st1. mbufintr st = Some st1 \<and> mb_inv st1 ms \<and> mfreelater st1 = [] \<and> mb_bytes st1 = mb_bytes st"
  using free_later_ok [OF assms, of "mfreelater st" "[]"] by (simp add: mbufintr_def)

lemma m_adj_ok:
  assumes "chain_ok st ms"
  shows "mb_step st ms st (m_adj ms n)"
  using m_adj_head [OF assms] m_adj_tail [OF assms] by (cases "ms = []"; cases "n \<ge> 0") (auto simp: m_adj_def)

text \<open>All mbufs in the hands of the clients; a length that is not set does not count.\<close>

definition held :: "chain \<Rightarrow> chain list \<Rightarrow> chain" where
  "held new cs = map no_data new @ concat cs"

lemma held_simps [simp]:
  "held (m # new) cs = no_data m # held new cs" "held [] [] = []" "held [] cs = concat cs"
  "held ((case r of None \<Rightarrow> [] | Some m \<Rightarrow> [m]) @ new) cs = (case r of None \<Rightarrow> [] | Some m \<Rightarrow> [no_data m]) @ held new cs"
  by (simp_all add: held_def split: option.splits)

text \<open>The chain at the front is worked on.\<close>

lemma held_front: "mb_inv st (held new (ms # cs)) = mb_inv st (ms @ held new cs)"
  by (rule mb_inv_perm) (simp add: held_def)

lemma held_front_case: "mb_inv st (held new ((case r of None \<Rightarrow> [] | Some ns \<Rightarrow> [ns]) @ cs)) = mb_inv st ((case r of None \<Rightarrow> [] | Some ns \<Rightarrow> ns) @ held new cs)"
  by (cases r) (simp_all add: held_front)

lemma mb_inv_new:
  assumes "mb_inv st (no_data m # ms)" "m_data m \<le> d" "d + l \<le> length (m_area st m)"
  shows "mb_inv st (m_set d l p m # ms)"
proof (rule mb_inv_cong [OF assms(1) refl refl refl refl])
  have u: "uses c (m_set d l p m) = uses c m" for c by (simp add: uses_def m_set_def ext_on_def)
  show "refs_to c (m_set d l p m # ms) = refs_to c (no_data m # ms)" for c by (simp add: u)
  show "mbuf_ok st x" if "x \<in> set (m_set d l p m # ms)" for x
    using that mb_inv_ok [OF assms(1), of x] mb_inv_ok [OF assms(1), of "no_data m"] assms(2,3)
    by (auto simp: mbuf_ok_def m_set_def m_area_def ext_on_def hdr_on_def)
qed

lemma mb_inv_unset:
  assumes "mb_inv st (m # ms)"
  shows "mb_inv st (no_data m # ms)"
proof (rule mb_inv_cong [OF assms refl refl refl refl])
  show "mbuf_ok st x" if "x \<in> set (no_data m # ms)" for x
    using that mb_inv_ok [OF assms, of x] mb_inv_ok [OF assms, of m] by (auto simp: mbuf_ok_def)
qed simp

lemma mb_inv_later_cong:
  assumes "mb_inv st ms" "mb_refs st1 = mb_refs st" "mb_bytes st1 = mb_bytes st" "mb_custom st1 = mb_custom st"
    "map no_data (mfreelater st1) = map no_data (mfreelater st)"
  shows "mb_inv st1 ms"
proof -
  have r: "refs_to c (mfreelater st1) = refs_to c (mfreelater st)" for c
    using assms(5) refs_to_no_data by metis
  have ok: "mbuf_ok st1 = mbuf_ok st" using assms(3) by (simp add: fun_eq_iff mbuf_ok_def m_area_def)
  have "ext_on m \<and> mb_custom st (m_ext_buf m) \<and> mb_refs st (m_ext_buf m) = 1" if m: "m \<in> set (mfreelater st1)" for m
  proof -
    have "no_data m \<in> no_data ` set (mfreelater st)" using m assms(5) by (metis image_eqI list.set_map)
    then obtain k where k: "k \<in> set (mfreelater st)" "no_data m = no_data k" by auto
    then have "ext_on m = ext_on k" "m_ext_buf m = m_ext_buf k" by (metis no_data_simps(8), metis no_data_simps(7))
    then show ?thesis using mb_inv_later [OF assms(1) k(1)] by simp
  qed
  then show ?thesis using assms(1) unfolding mb_inv_def ok r assms(2,4) by blast
qed

lemma m_free_new: "mb_inv st (no_data m # ms) \<Longrightarrow> mb_inv (m_free m st) ms"
proof -
  assume i: "mb_inv st (no_data m # ms)"
  have "mb_inv (m_free (no_data m) st) ms" using mb_step_inv [OF m_free_step, of st "no_data m" ms] i by simp
  then show ?thesis
    by (rule mb_inv_later_cong) (simp_all add: m_free_def Let_def MCLREFERENCED_def cl_free_def cl_unref_def)
qed

lemma mb_run_inv:
  assumes "mb_run env st new cs" "env_ok env"
  shows "mb_inv st (held new cs)"
  using assms(1)
proof (induction rule: mb_run.induct)
  case (run_start st)
  then show ?case by (simp add: mb_inv_def)
next
  case (run_order st new cs new' cs')
  have "mset (held new' cs') = mset (held new cs)"
    using mset_concat_perm [OF run_order.hyps(3)] run_order.hyps(2) by (simp add: held_def)
  then show ?case using mb_inv_perm run_order.IH by blast
next
  case (run_get st new cs w t r st1)
  from MGET_result [OF run_get.hyps(2) assms(2)]
  have "mb_step st [] st1 (case r of None \<Rightarrow> [] | Some m \<Rightarrow> [no_data m])" by (cases r) auto
  then show ?case using mb_step_inv [of st "[]"] run_get.IH by fastforce
next
  case (run_gethdr st new cs w t r st1)
  from MGETHDR_result [OF run_gethdr.hyps(2) assms(2)]
  have "mb_step st [] st1 (case r of None \<Rightarrow> [] | Some m \<Rightarrow> [no_data m])" by (cases r) auto
  then show ?case using mb_step_inv [of st "[]"] run_gethdr.IH by fastforce
next
  case (run_getclr st new cs w t r st1)
  from m_getclr_result [OF run_getclr.hyps(2) assms(2)]
  have "mb_step st [] st1 (case r of None \<Rightarrow> [] | Some m \<Rightarrow> [no_data m])" by (cases r) auto
  then show ?case using mb_step_inv [of st "[]"] run_getclr.IH by fastforce
next
  case (run_cluster st m new cs w m1 st1)
  then have i: "mb_inv st (no_data m # held new cs)" by simp
  show ?case using m_clalloc_result(1) [OF i run_cluster.hyps(2,3) _ run_cluster.hyps(4) [unfolded m_clalloc8_def]] by simp
next
  case (run_cluster2 st m new cs w m1 st1)
  then have i: "mb_inv st (no_data m # held new cs)" by simp
  show ?case using m_clalloc_result(1) [OF i run_cluster2.hyps(2,3) _ run_cluster2.hyps(4) [unfolded m_clalloc2_def]]
    by (simp add: MCLBYTES_def MCL2KBYTES_def)
next
  case (run_attach st m new cs c d l bs m1 st1)
  then have i: "mb_inv st (no_data m # held new cs)" by simp
  show ?case unfolding held_front using mblk_attach_ok [OF i run_attach.hyps(2-5)] by simp
next
  case (run_getx st new cs c w bs r st1)
  from mclgetx_ok [OF run_getx.hyps(3) assms(2) run_getx.IH run_getx.hyps(2)]
  show ?case by (cases r) (simp_all add: held_front)
next
  case (run_set st m new cs d l p)
  then show ?case unfolding held_front using mb_inv_new by simp
next
  case (run_unset st new m cs)
  then show ?case unfolding held_front using mb_inv_unset by simp
next
  case (run_free_new st m new cs)
  then show ?case using m_free_new by simp
next
  case (run_fill st new ks m ms cs bs m1 st1)
  have front: "mb_inv s (held new ((ks @ x # ms) # cs)) = mb_inv s (x # ks @ ms @ held new cs)" for s x
    unfolding held_front by (rule mb_inv_perm) simp
  from m_fill_ok(1) [OF run_fill.IH [unfolded front] run_fill.hyps(2-4)] show ?case unfolding front .
next
  case (run_prepend st new m ms cs len w r st1)
  note i = run_prepend.IH [unfolded held_front]
  from M_PREPEND_ok [OF assms(2) mb_inv_chain_ok [OF i] run_prepend.hyps(2,3)]
  have "mb_step st (m # ms) st1 (case r of None \<Rightarrow> [] | Some x \<Rightarrow> x)" by (cases r) auto
  then show ?case unfolding held_front_case using i by (rule mb_step_inv)
next
  case (run_copy st new ms cs len off w r st1)
  note i = run_copy.IH [unfolded held_front]
  from m_copym_result [OF assms(2) mb_inv_chain_ok [OF i] run_copy.hyps(2-4)]
  have "mb_step st ms st1 (ms @ (case r of None \<Rightarrow> [] | Some x \<Rightarrow> x))" by (cases r) auto
  from mb_step_inv [OF this i] have "mb_inv st1 (ms @ (case r of None \<Rightarrow> [] | Some x \<Rightarrow> x) @ held new cs)" by simp
  moreover have "mset (ms @ (case r of None \<Rightarrow> [] | Some x \<Rightarrow> x) @ held new cs)
      = mset (held new (ms # (case r of None \<Rightarrow> [] | Some ns \<Rightarrow> [ns]) @ cs))" by (cases r) (simp_all add: held_def)
  ultimately show ?case using mb_inv_perm by blast
next
  case (run_cat st new ms ns cs r st1)
  have i: "mb_inv st ((ms @ ns) @ held new cs)"
    using run_cat.IH mb_inv_perm [of "held new (ms # ns # cs)" "(ms @ ns) @ held new cs"] by (simp add: held_def)
  have "chain_ok st ms" "chain_ok st ns" using mb_inv_chain_ok [OF i] by simp_all
  from m_cat_ok(1) [OF this run_cat.hyps(2,3)] mb_step_inv [OF _ i] show ?case unfolding held_front by simp
next
  case (run_adj st new ms cs n)
  note i = run_adj.IH [unfolded held_front]
  from mb_step_inv [OF m_adj_ok [OF mb_inv_chain_ok [OF i]] i] show ?case unfolding held_front .
next
  case (run_pullup st new ms cs len r st1)
  note i = run_pullup.IH [unfolded held_front]
  from m_pullup_with_ok [OF assms(2) mb_inv_chain_ok [OF i] run_pullup.hyps(2,3), of "max_protohdr env"]
  have "mb_step st ms st1 (case r of None \<Rightarrow> [] | Some x \<Rightarrow> x)"
    using run_pullup.hyps(4) by (cases r) (auto simp: m_pullup_def pulled_def)
  then show ?case unfolding held_front_case using i by (rule mb_step_inv)
next
  case (run_pullup_exact st new ms cs len r st1)
  note i = run_pullup_exact.IH [unfolded held_front]
  from m_pullup_with_ok [OF assms(2) mb_inv_chain_ok [OF i] run_pullup_exact.hyps(2,3), of 0]
  have "mb_step st ms st1 (case r of None \<Rightarrow> [] | Some x \<Rightarrow> x)"
    using run_pullup_exact.hyps(4) by (cases r) (auto simp: m_pullup_exact_def pulled_def)
  then show ?case unfolding held_front_case using i by (rule mb_step_inv)
next
  case (run_free st new ms cs)
  from mb_step_inv [OF m_freem_step run_free.IH [unfolded held_front]] show ?case by simp
next
  case (run_intr st new cs st1)
  then show ?case using mbufintr_ok [OF run_intr.IH] by auto
qed

section \<open>Giving back\<close>

text \<open>How often a cluster has been given back, counting one that is still in use.\<close>

definition given_back :: "mb_state \<Rightarrow> nat \<Rightarrow> nat" where
  "given_back st c = count_list (mb_freed st) c + (if mb_refs st c > 0 then 1 else 0)"

lemma given_back_same: "mb_freed st1 = mb_freed st \<Longrightarrow> mb_refs st1 = mb_refs st \<Longrightarrow> given_back st1 = given_back st"
  by (simp add: given_back_def fun_eq_iff)

lemma given_back_free:
  assumes "mb_freed st1 = mb_freed st @ [c]" "mb_refs st1 = (mb_refs st)(c := mb_refs st c - 1)" "mb_refs st c = 1"
  shows "given_back st1 = given_back st"
  using assms by (auto simp: given_back_def fun_eq_iff)

lemma given_back_m_free:
  assumes "mb_inv st (m # ms)"
  shows "given_back (m_free m st) = given_back st"
proof (cases "ext_on m")
  case False
  then show ?thesis by (intro given_back_same) (simp_all add: m_free_def Let_def)
next
  case True
  have r: "mb_refs st (m_ext_buf m) \<noteq> 0" using mb_inv_refs [OF assms True] by simp
  show ?thesis
  proof (cases "MCLREFERENCED st m")
    case more: True
    then show ?thesis using True
      by (auto simp: given_back_def fun_eq_iff m_free_def Let_def MCLREFERENCED_def cl_unref_def)
  next
    case last: False
    then have one: "mb_refs st (m_ext_buf m) = 1" using r by (simp add: MCLREFERENCED_def)
    show ?thesis
    proof (cases "mb_custom st (m_ext_buf m) \<and> m_flags m AND M_FASTFREE = 0")
      case True
      then show ?thesis using last \<open>ext_on m\<close> by (intro given_back_same) (simp_all add: m_free_def)
    next
      case False
      then show ?thesis using last \<open>ext_on m\<close>
        by (intro given_back_free [OF _ _ one]) (auto simp: m_free_def Let_def cl_free_def cl_unref_def)
    qed
  qed
qed

lemma given_back_m_freem: "mb_inv st (ms @ others) \<Longrightarrow> given_back (m_freem ms st) = given_back st"
proof (induction ms arbitrary: st)
  case (Cons m ms)
  have "mb_inv (m_free m st) (ms @ others)" using mb_step_inv [OF m_free_step, of st m "ms @ others"] Cons.prems by simp
  from Cons.IH [OF this] show ?case using given_back_m_free [of st m "ms @ others"] Cons.prems by simp
qed simp

text \<open>New mbufs are freed like the others.\<close>

lemma given_back_m_free_new: "mb_inv st (no_data m # ms) \<Longrightarrow> given_back (m_free m st) = given_back st"
proof -
  assume i: "mb_inv st (no_data m # ms)"
  have "given_back (m_free m st) = given_back (m_free (no_data m) st)"
    by (rule given_back_same) (simp_all add: m_free_def Let_def MCLREFERENCED_def cl_free_def cl_unref_def)
  then show ?thesis using given_back_m_free [OF i] by simp
qed

lemma m_freem_new: "mb_inv st (map no_data new @ ms) \<Longrightarrow> mb_inv (m_freem new st) ms \<and> given_back (m_freem new st) = given_back st"
proof (induction new arbitrary: st)
  case (Cons m new)
  have i: "mb_inv st (no_data m # map no_data new @ ms)" using Cons.prems by simp
  show ?case using Cons.IH [OF m_free_new [OF i]] given_back_m_free_new [OF i] by simp
qed simp

lemma m_freem_append: "m_freem (ms @ ns) st = m_freem ns (m_freem ms st)"
  by (induction ms st rule: m_freem.induct) simp_all

lemma given_back_later:
  assumes "free_later ms st = Some st1" "\<And>m. m \<in> set ms \<Longrightarrow> ext_on m \<and> mb_refs st (m_ext_buf m) = 1" "distinct (map m_ext_buf ms)"
  shows "given_back st1 = given_back st"
  using assms
proof (induction ms arbitrary: st)
  case (Cons m ms)
  let ?c = "m_ext_buf m" and ?m = "m\<lparr>m_flags := m_flags m AND NOT M_EXT\<rparr>"
  have off: "\<not> ext_on ?m" by (simp add: ext_on_def and.assoc)
  define s2 where "s2 = m_free ?m (cl_free ?c st)"
  have s2: "mb_refs s2 = (mb_refs st)(?c := mb_refs st ?c - 1)" "mb_freed s2 = mb_freed st @ [?c]"
    using off by (simp_all add: s2_def m_free_def Let_def cl_free_def cl_unref_def)
  have m: "ext_on m" "mb_refs st ?c = 1" using Cons.prems(2) [of m] by simp_all
  have later: "free_later ms s2 = Some st1" using Cons.prems(1) m by (simp add: s2_def split: if_splits)
  have ok: "ext_on k \<and> mb_refs s2 (m_ext_buf k) = 1" if k: "k \<in> set ms" for k
  proof -
    have "m_ext_buf k \<noteq> ?c" using Cons.prems(3) imageI [OF k, of m_ext_buf] by auto
    then show ?thesis using Cons.prems(2) [of k] k s2(1) by simp
  qed
  have "distinct (map m_ext_buf ms)" using Cons.prems(3) by simp
  from Cons.IH [OF later ok this] show ?case using given_back_free [OF s2(2,1) m(2)] by simp
qed simp

lemma later_distinct:
  assumes "mb_inv st ms"
  shows "distinct (map m_ext_buf (mfreelater st))"
proof (rule ccontr)
  assume "\<not> distinct (map m_ext_buf (mfreelater st))"
  then obtain xs ys zs c where e: "map m_ext_buf (mfreelater st) = xs @ [c] @ ys @ [c] @ zs" using not_distinct_decomp by blast
  have ext: "\<forall>m\<in>set (mfreelater st). ext_on m" using mb_inv_later [OF assms] by blast
  have "refs_to c ks = count_list (map m_ext_buf ks) c" if "\<forall>m\<in>set ks. ext_on m" for ks
    using that by (induction ks) (auto simp: uses_def)
  from this [OF ext] have "refs_to c (mfreelater st) \<ge> 2" unfolding e by simp
  moreover have "c \<in> set (map m_ext_buf (mfreelater st))" unfolding e by simp
  then obtain m where m: "m \<in> set (mfreelater st)" "m_ext_buf m = c" by auto
  then have "mb_refs st c = 1" using mb_inv_later [OF assms m(1)] by simp
  moreover have "mb_refs st c \<ge> refs_to c (mfreelater st)" using assms by (simp add: mb_inv_def)
  ultimately show False by simp
qed

lemma mbufintr_given_back:
  assumes "mb_inv st ms" "mbufintr st = Some st1"
  shows "given_back st1 = given_back st"
proof -
  have "free_later (mfreelater st) (st\<lparr>mfreelater := []\<rparr>) = Some st1" using assms(2) by (simp add: mbufintr_def)
  from given_back_later [OF this] mb_inv_later [OF assms(1)] later_distinct [OF assms(1)]
  have "given_back st1 = given_back (st\<lparr>mfreelater := []\<rparr>)" by simp
  then show ?thesis using given_back_same [of "st\<lparr>mfreelater := []\<rparr>" st] by simp
qed

lemma free_everything:
  assumes "mb_inv st (held new cs)"
  shows "\<exists>st1. mbufintr (m_freem (new @ concat cs) st) = Some st1 \<and> mb_inv st1 [] \<and> mfreelater st1 = []
    \<and> given_back st1 = given_back st"
proof -
  define s1 where "s1 = m_freem new st"
  define s2 where "s2 = m_freem (concat cs) s1"
  have i1: "mb_inv s1 (concat cs)" and g1: "given_back s1 = given_back st"
    using m_freem_new [of st new "concat cs"] assms by (simp_all add: held_def s1_def)
  have i2: "mb_inv s2 []" using mb_step_inv [OF m_freem_step, of s1 "concat cs" "[]"] i1 by (simp add: s2_def)
  have g2: "given_back s2 = given_back s1" using given_back_m_freem [of s1 "concat cs" "[]"] i1 by (simp add: s2_def)
  from mbufintr_ok [OF i2] obtain st1 where r: "mbufintr s2 = Some st1" "mb_inv st1 []" "mfreelater st1 = []" by blast
  have "given_back st1 = given_back st" using mbufintr_given_back [OF i2 r(1)] g1 g2 by simp
  moreover have "mbufintr (m_freem (new @ concat cs) st) = Some st1" using r(1) by (simp add: m_freem_append s1_def s2_def)
  ultimately show ?thesis using r(2,3) by blast
qed

end
