(* ===== verification/Mbuf_Claims.thy ===== *)
theory Mbuf_Claims
  imports Mbuf_Run "HOL-Library.Code_Target_Nat"
begin

text \<open>
  The properties of the network buffers, each with an instance on small chains.
\<close>

section \<open>Example states\<close>

definition bytes_of :: "8 word list \<Rightarrow> mbuf" where
  "bytes_of bs = \<lparr>m_flags = 0, m_type = 1, m_data = 16, m_len = length bs, m_pktlen = 0,
     m_store = replicate 16 0 @ bs @ replicate (168 - length bs) 0, m_ext_buf = 0\<rparr>"

definition packet_of :: "nat \<Rightarrow> 8 word list \<Rightarrow> mbuf" where
  "packet_of n bs = (bytes_of bs)\<lparr>m_flags := M_PKTHDR, m_pktlen := int n\<rparr>"

definition cluster_of :: "nat \<Rightarrow> nat \<Rightarrow> mbuf" where
  "cluster_of c n = \<lparr>m_flags = M_EXT, m_type = 1, m_data = 8, m_len = n, m_pktlen = 0, m_store = replicate 184 0, m_ext_buf = c\<rparr>"

definition idle :: mb_state where
  "idle = \<lparr>mb_bytes = (\<lambda>_. []), mb_refs = (\<lambda>_. 0), mb_custom = (\<lambda>_. False), mb_freed = [], mfreelater = [], mb_tries = 0,
     m_mbufs = 0, m_clusters = 0, m_drops = 0\<rparr>"

text \<open>Cluster 7 holds a page and has two references.\<close>

definition shared :: mb_state where
  "shared = idle\<lparr>mb_bytes := (\<lambda>_. replicate 8192 5), mb_refs := (\<lambda>c. if c = 7 then 2 else 0)\<rparr>"

definition alone :: mb_state where
  "alone = idle\<lparr>mb_bytes := (\<lambda>_. replicate 8192 5), mb_refs := (\<lambda>c. if c = 7 then 1 else 0)\<rparr>"

text \<open>New memory holds whatever was in it.\<close>

definition old_memory :: mbuf where
  "old_memory = \<lparr>m_flags = 0xFFFF, m_type = 9, m_data = 77, m_len = 1000, m_pktlen = -1, m_store = replicate 184 9, m_ext_buf = 5\<rparr>"

definition plenty :: mb_env where
  "plenty = \<lparr>me_malloc = (\<lambda>_. True), me_cluster = (\<lambda>n. n), me_new = (\<lambda>_. old_memory), me_page = (\<lambda>_. replicate 8192 0), max_protohdr = 40\<rparr>"

lemma sizes: "MLEN = 184" "MHLEN = 168" "m_pktdat = 16"
  by (simp_all add: MLEN_def MHLEN_def m_pktdat_def MSIZE_def)

lemma bytes_of_simps [simp]:
  "length bs \<le> 168 \<Longrightarrow> mbuf_ok st (bytes_of bs)" "\<not> uses c (bytes_of bs)" "m_len (bytes_of bs) = length bs"
  "\<not> hdr_on (bytes_of bs)" "\<not> ext_on (bytes_of bs)" "m_data (bytes_of bs) = 16"
  by (simp_all add: bytes_of_def mbuf_ok_def m_area_def ext_on_def hdr_on_def uses_def sizes)

lemma packet_of_simps [simp]:
  "length bs \<le> 168 \<Longrightarrow> mbuf_ok st (packet_of n bs)" "\<not> uses c (packet_of n bs)" "m_len (packet_of n bs) = length bs"
  "hdr_on (packet_of n bs)" "m_pktlen (packet_of n bs) = int n" "\<not> ext_on (packet_of n bs)" "m_data (packet_of n bs) = 16"
  by (simp_all add: packet_of_def bytes_of_def mbuf_ok_def m_area_def ext_on_def hdr_on_def uses_def sizes M_PKTHDR_def M_EXT_def)

lemma cluster_of_simps [simp]:
  "n + 8 \<le> length (mb_bytes st c) \<Longrightarrow> mbuf_ok st (cluster_of c n)" "uses c (cluster_of d n) = (c = d)" "m_len (cluster_of c n) = n"
  "ext_on (cluster_of c n)" "\<not> hdr_on (cluster_of c n)" "m_data (cluster_of c n) = 8" "m_ext_buf (cluster_of c n) = c"
  by (auto simp: cluster_of_def mbuf_ok_def m_area_def ext_on_def hdr_on_def uses_def sizes M_PKTHDR_def M_EXT_def)

lemma plenty_ok [simp]: "env_ok plenty"
  by (simp add: env_ok_def plenty_def old_memory_def sizes)

lemma idle_inv: "(\<And>m c. m \<in> set ms \<Longrightarrow> mbuf_ok idle m \<and> \<not> uses c m) \<Longrightarrow> mb_inv idle ms"
  by (simp add: mb_inv_def idle_def refs_to_zero)

lemma mb_step_gone: "mb_step st ms st1 [] \<Longrightarrow> mb_inv st (ms @ others) \<Longrightarrow> mb_inv st1 others"
  using mb_step_inv [of st ms st1 "[]" others] by simp

section \<open>States and clusters\<close>


lemma idle_run: "mb_run plenty idle [] []"
  by (rule run_start) (simp_all add: idle_def)

lemma plenty_MGET: "MGET plenty w t st = (Some (old_memory\<lparr>m_flags := 0, m_type := t, m_data := 0\<rparr>),
    st\<lparr>mb_tries := mb_tries st + 1, m_mbufs := m_mbufs st + 1\<rparr>)"
  by (simp add: MGET_def mget_try_def plenty_def Let_def)

text \<open>An mbuf with a header, its length not set, and a copy of one that uses a buffer from elsewhere, whose original is freed.\<close>

definition ex_new :: mbuf where
  "ex_new = old_memory\<lparr>m_flags := M_PKTHDR, m_type := 1, m_data := m_pktdat\<rparr>"

definition ex_copy :: mbuf where
  "ex_copy = old_memory\<lparr>m_flags := M_EXT, m_type := 1, m_data := 0, m_len := 3, m_ext_buf := 7\<rparr>"

definition ex_state :: mb_state where
  "ex_state = idle\<lparr>mb_bytes := (\<lambda>c. if c = 7 then [1, 2, 3] else []), mb_refs := (\<lambda>c. if c = 7 then 1 else 0),
     mb_custom := (\<lambda>c. c = 7), mb_tries := 3, m_mbufs := 2\<rparr>"

lemma example_run: "mb_run plenty ex_state [ex_new] [[ex_copy]]"
proof -
  let ?m = "old_memory\<lparr>m_flags := M_EXT OR M_FASTFREE, m_type := 1, m_data := 0, m_ext_buf := 7, m_len := 3\<rparr>"
  define s1 where "s1 = idle\<lparr>mb_bytes := (\<lambda>c. if c = 7 then [1, 2, 3] else []), mb_refs := (\<lambda>c. if c = 7 then 1 else 0),
     mb_custom := (\<lambda>c. c = 7), mb_tries := 1, m_mbufs := 1\<rparr>"
  define s2 where "s2 = s1\<lparr>mb_refs := (\<lambda>c. if c = 7 then 2 else 0), mb_tries := 2, m_mbufs := 2\<rparr>"
  have "mclgetx plenty True 7 [1, 2, 3] idle = (Some ?m, s1)"
    by (auto simp: mclgetx_def plenty_MGET s1_def idle_def MT_DATA_def old_memory_def fun_eq_iff)
  from run_getx [OF idle_run _ this] have 1: "mb_run plenty s1 [] [[?m]]" by (simp add: idle_def)
  have e: "ext_on ?m" "\<not> hdr_on ?m" by (simp_all add: ext_on_def hdr_on_def M_EXT_def M_FASTFREE_def M_PKTHDR_def)
  have "m_copym plenty [?m] 0 3 True s1 = Some (Some [ex_copy], s2)"
    using e by (auto simp: m_copym_def m_copy_one_def plenty_MGET M_COPYALL_def Let_def s1_def s2_def ex_copy_def old_memory_def
        idle_def fun_eq_iff)
  from run_copy [OF 1 _ _ this] have 2: "mb_run plenty s2 [] [[?m], [ex_copy]]" by (simp add: M_COPYALL_def)
  have "m_freem [?m] s2 = ex_state\<lparr>mb_tries := 2, m_mbufs := 1\<rparr>"
    using e by (auto simp: m_free_def MCLREFERENCED_def cl_unref_def Let_def s1_def s2_def ex_state_def idle_def fun_eq_iff)
  with run_free [OF 2] have 3: "mb_run plenty (ex_state\<lparr>mb_tries := 2, m_mbufs := 1\<rparr>) [] [[ex_copy]]" by simp
  have "MGETHDR plenty True 1 (ex_state\<lparr>mb_tries := 2, m_mbufs := 1\<rparr>) = (Some ex_new, ex_state)"
    by (simp add: MGETHDR_def plenty_MGET ex_new_def ex_state_def old_memory_def)
  from run_gethdr [OF 3 this] show ?thesis by simp
qed


text \<open>C29: once the clients have freed all their mbufs and the interrupt routine has run, no cluster has a
  reference, no mbuf waits to be freed, and every cluster that was in use has been given back exactly
  once more, those with a routine of their own included; the panic of the interrupt routine cannot happen.\<close>
theorem mb_run_frees_everything:
  assumes "mb_run env st new cs" "env_ok env"
  shows "\<exists>st1. mbufintr (m_freem (new @ concat cs) st) = Some st1 \<and> mb_refs st1 = (\<lambda>_. 0) \<and> mfreelater st1 = []
    \<and> (\<forall>c. count_list (mb_freed st1) c = count_list (mb_freed st) c + (if mb_refs st c > 0 then 1 else 0))"
proof -
  note i = mb_run_inv [OF assms]
  from free_everything [OF i] obtain st1 where r: "mbufintr (m_freem (new @ concat cs) st) = Some st1" "mb_inv st1 []"
    "mfreelater st1 = []" "given_back st1 = given_back st" by blast
  have none: "mb_refs st1 c = 0" for c using r(2,3) by (simp add: mb_inv_def)
  have "count_list (mb_freed st1) c = count_list (mb_freed st) c + (if mb_refs st c > 0 then 1 else 0)" for c
    using fun_cong [OF r(4), of c] none [of c] by (simp add: given_back_def)
  then show ?thesis using r(1,3) none by (simp add: fun_eq_iff)
qed

theorem mb_run_frees_everything_witness:
  "map m_ext_buf (mfreelater (m_freem [ex_new, ex_copy] ex_state)) = [7]
   \<and> (\<exists>st1. mbufintr (m_freem [ex_new, ex_copy] ex_state) = Some st1 \<and> mb_refs st1 = (\<lambda>_. 0) \<and> mfreelater st1 = []
        \<and> count_list (mb_freed st1) 7 = 1)"
proof -
  have "\<not> ext_on ex_new" "ext_on ex_copy" by (simp_all add: ex_new_def ex_copy_def ext_on_def M_PKTHDR_def M_EXT_def)
  then have l: "map m_ext_buf (mfreelater (m_freem [ex_new, ex_copy] ex_state)) = [7]"
    by (simp add: m_free_def Let_def MCLREFERENCED_def) (simp add: ex_state_def ex_copy_def idle_def M_EXT_def M_FASTFREE_def)
  have "count_list (mb_freed ex_state) 7 + (if mb_refs ex_state 7 > 0 then 1 else 0) = 1"
    by (simp add: ex_state_def idle_def)
  then show ?thesis using l mb_run_frees_everything [OF example_run plenty_ok] by fastforce
qed

text \<open>C30: the room m_trailingspace reports may be written: the bytes a client puts there are appended
  to the data of that mbuf, and the data of every other mbuf stays as it was, clusters included.\<close>
theorem mbuf_room_is_private:
  assumes "mb_inv st (m # others)" "bs \<noteq> []" "int (length bs) \<le> m_trailingspace st m" "m_fill bs m st = (m1, st1)"
  shows "mb_inv st1 (m1 # others) \<and> mtod st1 m1 = mtod st m @ bs \<and> chain_bytes st1 others = chain_bytes st others"
proof -
  note f = m_fill_ok [OF assms]
  have "map (mtod st1) others = map (mtod st) others" by (rule map_cong [OF refl]) (simp add: mtod_def f(3))
  then have "chain_bytes st1 others = chain_bytes st others" unfolding chain_bytes_def by (rule arg_cong)
  then show ?thesis using f(1,2) by blast
qed

theorem mbuf_room_is_private_witness:
  "mb_inv (snd (m_fill [1, 2] (cluster_of 7 100) alone)) [fst (m_fill [1, 2] (cluster_of 7 100) alone), bytes_of [3]]
   \<and> mtod (snd (m_fill [1, 2] (cluster_of 7 100) alone)) (fst (m_fill [1, 2] (cluster_of 7 100) alone)) = mtod alone (cluster_of 7 100) @ [1, 2]
   \<and> chain_bytes (snd (m_fill [1, 2] (cluster_of 7 100) alone)) [bytes_of [3]] = chain_bytes alone [bytes_of [3]]"
proof (rule mbuf_room_is_private)
  show "mb_inv alone [cluster_of 7 100, bytes_of [3]]" by (simp add: mb_inv_def) (simp add: alone_def idle_def)
  show "int (length [1, 2 :: 8 word]) \<le> m_trailingspace alone (cluster_of 7 100)"
    by (simp add: m_trailingspace_def MCLREFERENCED_def) (simp add: alone_def idle_def)
qed simp_all

section \<open>Operations on chains\<close>

text \<open>C13: m_copym of a range inside the chain never panics.  Without memory it gives back every mbuf of
  the copy it had made; otherwise the copy holds exactly the bytes of the range, the original and its
  bytes are unchanged, clusters are shared with the right count, and a copied packet header has the
  length of the copy.\<close>
theorem m_copym_copies:
  assumes "mb_inv st (ms @ others)" "env_ok env" "ms \<noteq> []" "0 \<le> off" "0 \<le> len" "len \<le> M_COPYALL" "int (m_length ms) \<le> M_COPYALL"
    "off + len \<le> int (m_length ms) \<or> len = M_COPYALL \<and> off \<le> int (m_length ms)"
  shows "\<exists>r st1. m_copym env ms off len wait st = Some (r, st1) \<and> (case r of
      None \<Rightarrow> mb_inv st1 (ms @ others) \<and> (\<exists>i. \<not> me_malloc env i)
    | Some cs \<Rightarrow> mb_inv st1 ((ms @ cs) @ others) \<and> chain_bytes st1 (ms @ others) = chain_bytes st (ms @ others)
        \<and> chain_bytes st1 cs = take (nat len) (drop (nat off) (chain_bytes st ms))
        \<and> (off = 0 \<and> hdr_on (hd ms) \<and> m_pktlen (hd ms) = int (m_length ms) \<and> cs \<noteq> [] \<longrightarrow>
             hdr_on (hd cs) \<and> m_pktlen (hd cs) = int (m_length cs)))"
proof -
  have ok: "chain_ok st ms" by (rule mb_inv_chain_ok [OF assms(1)])
  from m_copym_returns [OF ok assms(3,4,5,8)] obtain r st1 where r: "m_copym env ms off len wait st = Some (r, st1)" by blast
  note c = m_copym_result [OF assms(2) ok assms(6,7) r]
  show ?thesis
  proof (cases r)
    case None
    then show ?thesis using r c mb_step_inv [OF _ assms(1)] by auto
  next
    case (Some cs)
    then have k: "mb_step st ms st1 (ms @ cs)" "chain_bytes st cs = take (nat len) (drop (nat off) (chain_bytes st ms))"
      "copy_result (off = 0 \<and> hdr_on (hd ms)) 0 len ms st cs" using c by auto
    have l: "m_length cs = length (chain_bytes st cs)" using k(3) chain_length by (fastforce simp: copy_result_def)
    have "hdr_on (hd cs) \<and> m_pktlen (hd cs) = int (m_length cs)"
      if h: "off = 0" "hdr_on (hd ms)" "m_pktlen (hd ms) = int (m_length ms)" "cs \<noteq> []"
      using k(3) h assms(5,7,8) chain_length [OF ok] unfolding l k(2) by (cases cs) (auto simp: copy_result_def)
    then show ?thesis using r Some k(2) mb_step_chain(1) [OF k(1)] mb_step_inv [OF k(1) assms(1)] by auto
  qed
qed

theorem m_copym_copies_witness:
  "\<exists>cs st1. m_copym plenty [packet_of 103 [1, 2, 3], cluster_of 7 100] 0 50 True shared = Some (Some cs, st1)
     \<and> mb_inv st1 ([packet_of 103 [1, 2, 3], cluster_of 7 100] @ cs @ [cluster_of 7 4])
     \<and> chain_bytes st1 cs = take 50 (chain_bytes shared [packet_of 103 [1, 2, 3], cluster_of 7 100])"
proof -
  have i: "mb_inv shared ([packet_of 103 [1, 2, 3], cluster_of 7 100] @ [cluster_of 7 4])"
    by (simp add: mb_inv_def) (simp add: shared_def idle_def)
  have "\<exists>r st1. m_copym plenty [packet_of 103 [1, 2, 3], cluster_of 7 100] 0 50 True shared = Some (r, st1) \<and> (case r of
      None \<Rightarrow> mb_inv st1 ([packet_of 103 [1, 2, 3], cluster_of 7 100] @ [cluster_of 7 4]) \<and> (\<exists>i. \<not> me_malloc plenty i)
    | Some cs \<Rightarrow> mb_inv st1 (([packet_of 103 [1, 2, 3], cluster_of 7 100] @ cs) @ [cluster_of 7 4])
        \<and> chain_bytes st1 cs = take (nat 50) (drop (nat 0) (chain_bytes shared [packet_of 103 [1, 2, 3], cluster_of 7 100])))"
    using m_copym_copies [OF i plenty_ok, of 0 50 True] by (fastforce simp: M_COPYALL_def split: option.splits)
  then show ?thesis by (auto simp: plenty_def split: option.splits)
qed

text \<open>C8: m_pullup always returns.  When it gives back a chain, that chain holds the same bytes, its first
  mbuf uses its own data area and holds the first \<open>len\<close> bytes in one piece, and the packet header has
  moved with them.  It fails, and gives back every mbuf, only when \<open>len\<close> exceeds what fits behind a
  packet header, the chain is shorter than \<open>len\<close>, or there is no memory.\<close>
theorem m_pullup_gathers:
  assumes "mb_inv st (ms @ others)" "env_ok env" "ms \<noteq> []" "0 \<le> len"
  shows "\<exists>r st1. m_pullup env ms len st = Some (r, st1) \<and> (case r of
      None \<Rightarrow> mb_inv st1 others \<and> (int MHLEN < len \<or> int (m_length ms) < len \<or> (\<exists>i. \<not> me_malloc env i))
    | Some cs \<Rightarrow> mb_inv st1 (cs @ others) \<and> chain_bytes st1 cs = chain_bytes st ms
        \<and> \<not> ext_on (hd cs) \<and> take (nat len) (mtod st1 (hd cs)) = take (nat len) (chain_bytes st ms)
        \<and> len \<le> int (m_len (hd cs)) \<and> hdr_on (hd cs) = hdr_on (hd ms))"
proof -
  have ok: "chain_ok st ms" by (rule mb_inv_chain_ok [OF assms(1)])
  from m_pullup_with_ok [OF assms(2) ok assms(3,4), of "max_protohdr env"]
  obtain r st1 where r: "m_pullup env ms len st = Some (r, st1)"
    and c: "case r of None \<Rightarrow> mb_step st ms st1 [] \<and> (int MHLEN < len \<or> int (m_length ms) < len \<or> (\<exists>i. \<not> me_malloc env i))
     | Some cs \<Rightarrow> pulled (hd ms) len st ms st1 cs" unfolding m_pullup_def by blast
  show ?thesis
  proof (cases r)
    case None
    then show ?thesis using r c mb_step_gone [OF _ assms(1)] by auto
  next
    case (Some cs)
    then have p: "pulled (hd ms) len st ms st1 cs" using c by simp
    then have i: "mb_inv st1 (cs @ others)" using mb_step_inv [OF _ assms(1)] by (simp add: pulled_def)
    obtain m ns where cs: "cs = m # ns" using p by (cases cs) (auto simp: pulled_def)
    have bytes: "chain_bytes st1 cs = chain_bytes st ms" using p mb_step_chain(1) by (simp add: pulled_def) fastforce
    have "length (mtod st1 m) = m_len m" using mb_inv_ok [OF i] cs mtod_length by simp
    then have "take (nat len) (mtod st1 m) = take (nat len) (chain_bytes st ms)"
      using bytes p unfolding cs pulled_def by (metis chain_simps(2) list.sel(1) nat_le_iff take_append append_Nil2 diff_is_0_eq take0)
    then show ?thesis using r Some i p bytes cs by (simp add: pulled_def)
  qed
qed

theorem m_pullup_gathers_witness:
  "\<exists>cs st1. m_pullup plenty [packet_of 103 [1, 2, 3], cluster_of 7 100] 20 alone = Some (Some cs, st1)
     \<and> take 20 (mtod st1 (hd cs)) = take 20 (chain_bytes alone [packet_of 103 [1, 2, 3], cluster_of 7 100])"
proof -
  have i: "mb_inv alone ([packet_of 103 [1, 2, 3], cluster_of 7 100] @ [])"
    by (simp add: mb_inv_def) (simp add: alone_def idle_def)
  have "\<exists>r st1. m_pullup plenty [packet_of 103 [1, 2, 3], cluster_of 7 100] 20 alone = Some (r, st1) \<and> (case r of
      None \<Rightarrow> int MHLEN < 20 \<or> int (m_length [packet_of 103 [1, 2, 3], cluster_of 7 100]) < 20 \<or> (\<exists>i. \<not> me_malloc plenty i)
    | Some cs \<Rightarrow> take (nat 20) (mtod st1 (hd cs)) = take (nat 20) (chain_bytes alone [packet_of 103 [1, 2, 3], cluster_of 7 100]))"
    using m_pullup_gathers [OF i plenty_ok, of 20] by (fastforce split: option.splits)
  then show ?thesis by (auto simp: plenty_def sizes split: option.splits)
qed

text \<open>C23: m_adj trims exactly the requested bytes, from the front for a positive count and from the end for
  a negative one, all of them when there are fewer; a packet header that held the length of the packet
  holds it afterwards, and no mbuf or reference is lost.\<close>
theorem m_adj_trims:
  assumes "mb_inv st (ms @ others)" "ms \<noteq> []"
  shows "mb_inv st (m_adj ms n @ others) \<and> chain_bytes st (m_adj ms n) = adj_bytes n (chain_bytes st ms)
    \<and> length (m_adj ms n) = length ms
    \<and> (hdr_on (hd ms) \<and> m_pktlen (hd ms) = int (m_length ms) \<longrightarrow>
        hdr_on (hd (m_adj ms n)) \<and> m_pktlen (hd (m_adj ms n)) = int (m_length (m_adj ms n)))"
proof -
  have ok: "chain_ok st ms" by (rule mb_inv_chain_ok [OF assms(1)])
  have i: "mb_inv st (m_adj ms n @ others)" by (rule mb_step_inv [OF m_adj_ok [OF ok] assms(1)])
  have l: "m_length ms = length (chain_bytes st ms)" "m_length (m_adj ms n) = length (chain_bytes st (m_adj ms n))"
    using chain_length ok mb_inv_chain_ok [OF i] by simp_all
  show ?thesis
  proof (cases "n \<ge> 0")
    case True
    have "int (length (chain_bytes st ms)) - min n (int (length (chain_bytes st ms))) = int (length (adj_bytes n (chain_bytes st ms)))"
      using True by (simp add: adj_bytes_def)
    then show ?thesis using i l m_adj_head [OF ok assms(2) True] by simp
  next
    case False
    then have "n < 0" by simp
    then show ?thesis using i l m_adj_tail [OF ok assms(2)] by simp
  qed
qed

theorem m_adj_trims_witness:
  "chain_bytes idle (m_adj [packet_of 7 [1, 2, 3], bytes_of [4, 5], bytes_of [6, 7]] (-3))
     = adj_bytes (-3) (chain_bytes idle [packet_of 7 [1, 2, 3], bytes_of [4, 5], bytes_of [6, 7]])
   \<and> m_pktlen (hd (m_adj [packet_of 7 [1, 2, 3], bytes_of [4, 5], bytes_of [6, 7]] (-3))) = 4"
proof -
  have i: "mb_inv idle ([packet_of 7 [1, 2, 3], bytes_of [4, 5], bytes_of [6, 7]] @ [])" by (rule idle_inv) auto
  note t = m_adj_trims [OF i, of "-3"]
  have "m_length (m_adj [packet_of 7 [1, 2, 3], bytes_of [4, 5], bytes_of [6, 7]] (-3)) = 4"
    by (simp add: m_adj_def set_pktlen_def Let_def)
  then show ?thesis using t by simp
qed

text \<open>M_cat gives a chain with the bytes of the first chain and then those of the second; no mbuf is
  lost or freed twice, and the data of all other chains stays as it was.\<close>
theorem m_cat_joins:
  assumes "mb_inv st ((ms @ ns) @ others)" "ms \<noteq> []" "m_cat ms ns st = (r, st1)"
  shows "mb_inv st1 (r @ others) \<and> chain_bytes st1 r = chain_bytes st ms @ chain_bytes st ns
    \<and> chain_bytes st1 others = chain_bytes st others \<and> hdr_on (hd r) = hdr_on (hd ms) \<and> m_pktlen (hd r) = m_pktlen (hd ms)"
proof -
  have ok: "chain_ok st ms" "chain_ok st ns" using mb_inv_chain_ok [OF assms(1)] by simp_all
  note c = m_cat_ok [OF ok assms(2,3)]
  show ?thesis using c mb_step_inv [OF c(1) assms(1)] mb_step_chain(1) [OF c(1)] by simp
qed

theorem m_cat_joins_witness:
  "chain_bytes (snd (m_cat [packet_of 3 [1, 2, 3]] [bytes_of [4, 5], cluster_of 7 100] alone))
      (fst (m_cat [packet_of 3 [1, 2, 3]] [bytes_of [4, 5], cluster_of 7 100] alone))
    = chain_bytes alone [packet_of 3 [1, 2, 3]] @ chain_bytes alone [bytes_of [4, 5], cluster_of 7 100]"
proof -
  have i: "mb_inv alone (([packet_of 3 [1, 2, 3]] @ [bytes_of [4, 5], cluster_of 7 100]) @ [])"
    by (simp add: mb_inv_def) (simp add: alone_def idle_def)
  show ?thesis using m_cat_joins [OF i _ surjective_pairing] by simp
qed



end
