(* ===== verification/Mbuf_Bpf.thy ===== *)
theory Mbuf_Bpf
  imports Mbuf_Claims Bpf_Claims
begin

text \<open>
  The packet filter on packets held in mbufs.  Its loads of several bytes go wrong where the
  bytes straddle two mbufs; a caller that pulls the packet up first gets them right.
\<close>

text \<open>What the filter reads of a chain: the storage from the data pointer on.\<close>

definition bpf_view :: "mb_state \<Rightarrow> chain \<Rightarrow> bpf_mbuf list" where
  "bpf_view st ms = map (\<lambda>m. \<lparr>bm_len = int (m_len m), bm_buf = drop (m_data m) (m_area st m)\<rparr>) ms"

lemma bpf_view_ok:
  "chain_ok st ms \<Longrightarrow> mchain_ok (bpf_view st ms)" "mchain_bytes (bpf_view st ms) = chain_bytes st ms"
proof -
  show "mchain_ok (bpf_view st ms)" if "chain_ok st ms"
    using that unfolding mchain_ok_def chain_ok_def bpf_view_def by (fastforce simp: mbuf_ok_def)
  show "mchain_bytes (bpf_view st ms) = chain_bytes st ms"
    by (simp add: mchain_bytes_def bpf_view_def chain_bytes_def comp_def mtod_def [abs_def])
qed

text \<open>The other loads inside one mbuf.\<close>

lemma bpf_half_chain_is_flat:
  assumes "mchain_ok ms" "length (mchain_bytes ms) < 2147483648" "0 \<le> sint k"
    and "mindex ms (sint k) = Some (m, rest, j)" "j + 2 \<le> bm_len m"
  shows "bpf_ldh check (Chain ms) k = bpf_ldh check (Flat (mchain_bytes ms)) k"
proof -
  have in_m: "byte_at (bm_buf m) (j + d) = byte_at (mchain_bytes ms) (sint k + d)
      \<and> sint k + d < int (length (mchain_bytes ms))" if "0 \<le> d" "d < 2" for d
    using mindex_byte [OF assms(1,4,3) that(1)] assms(5) that(2) by simp
  then have ext: "EXTRACT_SHORT (bm_buf m) j = EXTRACT_SHORT (mchain_bytes ms) (sint k)"
    using in_m [of 0] by (simp add: EXTRACT_SHORT_def)
  have room: "sint k + 2 \<le> int (length (mchain_bytes ms))" using in_m [of 1] by simp
  then have "mchain_bytes ms \<noteq> []" using assms(3) by auto
  moreover have "ms \<noteq> []" using calculation by (auto simp: mchain_bytes_def)
  ultimately have ne: "mchain_bytes ms \<noteq> []" "ms \<noteq> []" by blast+
  obtain v where v: "EXTRACT_SHORT (mchain_bytes ms) (sint k) = Some v"
    using extract_in(2) [OF assms(3) room] by (cases "EXTRACT_SHORT (mchain_bytes ms) (sint k)") (auto simp: ld_val_def)
  have "u64 (sint k + 2) = sint k + 2" using assms(3) sint_lt [of k] by (intro u64_id) auto
  then have "bpf_ldh check (Chain ms) k = LdVal v"
    using assms(3,4,5) ne ext v by (simp add: bpf_ldh_def buflen_def mbufs_def m_xhalf_def)
  then show ?thesis
    using flat_loads(2) [OF ne(1) assms(2,3)] room v by (simp add: ld_val_def)
qed

lemma bpf_byte_chain_widened:
  assumes "mchain_ok ms" "length (mchain_bytes ms) < 2147483648" "0 \<le> sint k" "sint k < int (length (mchain_bytes ms))"
  shows "bpf_ldb w (Chain ms) k = LdVal (w (mchain_bytes ms ! unat k))"
    "bpf_ldb w (Flat (mchain_bytes ms)) k = LdVal (ucast (mchain_bytes ms ! unat k))"
proof -
  have ne: "mchain_bytes ms \<noteq> []" using assms(3,4) by auto
  then have ms: "ms \<noteq> []" by (auto simp: mchain_bytes_def)
  have uk: "uint k = sint k" using assms(3) sint_lt [of k] by (simp add: uint_sint take_bit_int_eq_self)
  show "bpf_ldb w (Flat (mchain_bytes ms)) k = LdVal (ucast (mchain_bytes ms ! unat k))"
    using flat_loads(3) [OF ne assms(2)] assms(4) uk by simp
  obtain m rest j where r: "mindex ms (sint k) = Some (m, rest, j)"
    using mindex_None [OF assms(1,3)] assms(4) by (cases "mindex ms (sint k)") auto
  have "byte_at (bm_buf m) j = byte_at (mchain_bytes ms) (sint k)"
    using mindex_byte [OF assms(1) r assms(3), of 0] mindex_offset [OF r] by simp
  moreover have "nat (sint k) = unat k" using uk by (metis nat_uint_eq)
  with byte_at_in [OF assms(3,4)] have "byte_at (mchain_bytes ms) (sint k) = Some (mchain_bytes ms ! unat k)" by (simp only:)
  ultimately show "bpf_ldb w (Chain ms) k = LdVal (w (mchain_bytes ms ! unat k))"
    using r ms by (simp add: bpf_ldb_def buflen_def mbufs_def ld_val_def)
qed

text \<open>The widened byte: the low four bits do not depend on the sign.\<close>

lemma low_bits: "push_bit 2 ((scast (b :: 8 word) :: 32 word) AND 0xf) = push_bit 2 ((ucast b :: 32 word) AND 0xf)"
proof -
  have "(scast b :: 32 word) AND mask 4 = ucast b AND mask 4"
    by (rule bit_word_eqI) (auto simp: bit_simps)
  then show ?thesis by (simp add: mask_numeral)
qed

lemma below_128: "(b :: 8 word) < 128 \<longleftrightarrow> \<not> bit b 7"
proof -
  have "bit b 7 \<longleftrightarrow> bit (uint b) 7" by (simp add: bit_uint_iff)
  then have "bit b 7 \<longleftrightarrow> odd (uint b div 128)" by (simp add: bit_iff_odd [of "uint b"])
  moreover have "0 \<le> uint b" "uint b < 256" using unsigned_less [of b, where ?'a = int] by simp_all
  then have "uint b div 128 = (if uint b < 128 then 0 else 1)" by auto
  ultimately show ?thesis by (simp add: word_less_def)
qed
lemma sign_is_lost: "(scast (b :: 8 word) :: 32 word) = ucast b \<longleftrightarrow> b < 128"
unfolding below_128
proof
  assume "(scast b :: 32 word) = ucast b"
  then have "bit (scast b :: 32 word) 8 = bit (ucast b :: 32 word) 8" by simp
  moreover have "\<not> bit b 8" using bit_imp_le_length [of b 8] by auto
  ultimately show "\<not> bit b 7" by (simp add: bit_simps)
next
  assume n: "\<not> bit b 7"
  have "n < 7" if "bit b n" for n using bit_imp_le_length [OF that] that n by (cases "n = 7") auto
  then show "(scast b :: 32 word) = ucast b"
    by (intro bit_word_eqI) (use n in \<open>auto simp: bit_simps min_def dest: leD\<close>)
qed

text \<open>C26: after m_pullup of \<open>len\<close> bytes every load of the packet filter that lies in those bytes reads the mbuf
  chain like the packet held in one buffer, however the packet was split over mbufs and clusters
  before: word loads and half-word loads, absolute and indirect, the absolute byte load and the load of
  the header length (BPF_MSH).  The indirect byte load reads the same byte of the chain but extends its
  sign, so it agrees exactly when the byte is below 128.\<close>
theorem pullup_makes_filter_loads_flat:
  assumes "mb_inv st (ms @ others)" "env_ok env" "ms \<noteq> []" "m_pullup env ms len st = Some (Some cs, st1)"
    "0 \<le> sint k" "length (chain_bytes st ms) < 2147483648"
  defines "c \<equiv> Chain (bpf_view st1 cs)" and "f \<equiv> Flat (chain_bytes st ms)"
  shows "(sint k + 4 \<le> len \<longrightarrow> bpf_ldw c k = bpf_ldw f k)
    \<and> (sint k + 2 \<le> len \<longrightarrow> bpf_ldh check c k = bpf_ldh check f k)
    \<and> (sint k < len \<longrightarrow> bpf_ldb ucast c k = bpf_ldb ucast f k
        \<and> (bpf_ldb scast c k = bpf_ldb scast f k \<longleftrightarrow> chain_bytes st ms ! unat k < 128)
        \<and> (bi_code i = BPF_LDX OR BPF_MSH OR BPF_B \<and> bi_k i = k \<longrightarrow>
              bpf_ldx (be\<lparr>be_pkt := c\<rparr>) i s = bpf_ldx (be\<lparr>be_pkt := f\<rparr>) i s))"
proof (cases "sint k < len")
  case False
  then show ?thesis by auto
next
  case in_len: True
  have len: "0 \<le> len" using assms(5) in_len by linarith
  have ok: "chain_ok st ms" by (rule mb_inv_chain_ok [OF assms(1)])
  have p: "pulled (hd ms) len st ms st1 cs"
    using m_pullup_with_ok [OF assms(2) ok assms(3) len, of "max_protohdr env"] assms(4) unfolding m_pullup_def by auto
  then obtain m ns where cs: "cs = m # ns" by (cases cs) (auto simp: pulled_def)
  have s: "mb_step st ms st1 cs" "chain_bytes st cs = chain_bytes st ms" "len \<le> int (m_len m)" using p cs by (simp_all add: pulled_def)
  have bytes: "mchain_bytes (bpf_view st1 cs) = chain_bytes st ms"
    using s(2) mb_step_chain(1) [OF s(1)] by (simp add: bpf_view_ok(2))
  have ok1: "mchain_ok (bpf_view st1 cs)"
    by (rule bpf_view_ok(1) [OF mb_inv_chain_ok [OF mb_step_inv [OF s(1) assms(1)]]])
  have small: "length (mchain_bytes (bpf_view st1 cs)) < 2147483648" using assms(6) bytes by simp
  obtain b rest where v: "bpf_view st1 cs = b # rest" "bm_len b = int (m_len m)" by (simp add: bpf_view_def cs)
  have at: "mindex (bpf_view st1 cs) (sint k) = Some (b, rest, sint k)" using v s(3) in_len by simp
  have "mbuf_ok st1 m" using mb_inv_ok [OF mb_step_inv [OF s(1) assms(1)]] cs by simp
  then have "m_len m \<le> length (chain_bytes st1 cs)" using mtod_length cs by simp
  then have k: "sint k < int (length (mchain_bytes (bpf_view st1 cs)))" using in_len s(3) by (simp add: bpf_view_ok(2))
  note B = bpf_byte_chain_widened [OF ok1 small assms(5) k, unfolded bytes, folded c_def f_def]
  have "bpf_ldw c k = bpf_ldw f k" if "sint k + 4 \<le> len"
    using bpf_word_chain_is_flat [OF ok1 small assms(5) at] that v(2) s(3) unfolding bytes c_def f_def by linarith
  moreover have "bpf_ldh check c k = bpf_ldh check f k" if "sint k + 2 \<le> len"
    using bpf_half_chain_is_flat [OF ok1 small assms(5) at] that v(2) s(3) unfolding bytes c_def f_def by simp
  moreover have "bpf_ldx (be\<lparr>be_pkt := c\<rparr>) i s = bpf_ldx (be\<lparr>be_pkt := f\<rparr>) i s"
    if "bi_code i = BPF_LDX OR BPF_MSH OR BPF_B" "bi_k i = k"
  proof -
    have "loaded (\<lambda>v. set_X s (push_bit 2 (v AND 0xf))) (bpf_ldb scast c k) = loaded (\<lambda>v. set_X s (push_bit 2 (v AND 0xf))) (bpf_ldb scast f k)"
      unfolding B loaded_def bpf_load.case by (simp only: low_bits)
    then show ?thesis using that by (simp add: bpf_ldx_def bpf_codes)
  qed
  ultimately show ?thesis using B sign_is_lost by simp
qed

theorem pullup_makes_filter_loads_flat_witness:
  "\<exists>cs st1. m_pullup plenty [packet_of 7 [1, 2, 3], bytes_of [4, 5, 0x90, 7]] 6 idle = Some (Some cs, st1)
     \<and> bpf_ldw (Chain (bpf_view st1 cs)) 1 = bpf_ldw (Flat [1, 2, 3, 4, 5, 0x90, 7]) 1
     \<and> bpf_ldh True (Chain (bpf_view st1 cs)) 2 = bpf_ldh True (Flat [1, 2, 3, 4, 5, 0x90, 7]) 2
     \<and> bpf_ldb ucast (Chain (bpf_view st1 cs)) 5 = bpf_ldb ucast (Flat [1, 2, 3, 4, 5, 0x90, 7]) 5
     \<and> bpf_ldb scast (Chain (bpf_view st1 cs)) 5 \<noteq> bpf_ldb scast (Flat [1, 2, 3, 4, 5, 0x90, 7]) 5"
proof -
  let ?ms = "[packet_of 7 [1, 2, 3], bytes_of [4, 5, 0x90, 7]]"
  have i: "mb_inv idle (?ms @ [])" by (rule idle_inv) auto
  have "chain_bytes idle ?ms = [1, 2, 3, 4, 5, 0x90, 7]"
    by (simp add: mtod_def m_area_def) (simp add: packet_of_def bytes_of_def)
  note t = pullup_makes_filter_loads_flat [OF i plenty_ok, of 6, unfolded this]
  have ok: "chain_ok idle ?ms" by simp
  have "\<exists>cs st1. m_pullup plenty ?ms 6 idle = Some (Some cs, st1)"
    using m_pullup_with_ok [OF plenty_ok ok, of 6 "max_protohdr plenty"]
    by (auto simp: m_pullup_def plenty_def sizes split: option.splits)
  then obtain cs st1 where r: "m_pullup plenty ?ms 6 idle = Some (Some cs, st1)" by blast
  note u = t [OF _ r]
  have "bpf_ldw (Chain (bpf_view st1 cs)) 1 = bpf_ldw (Flat [1, 2, 3, 4, 5, 0x90, 7]) 1" using u [of 1] by simp
  moreover have "bpf_ldh True (Chain (bpf_view st1 cs)) 2 = bpf_ldh True (Flat [1, 2, 3, 4, 5, 0x90, 7]) 2" using u [of 2 True] by simp
  moreover have "bpf_ldb ucast (Chain (bpf_view st1 cs)) 5 = bpf_ldb ucast (Flat [1, 2, 3, 4, 5, 0x90, 7]) 5"
    "bpf_ldb scast (Chain (bpf_view st1 cs)) 5 \<noteq> bpf_ldb scast (Flat [1, 2, 3, 4, 5, 0x90, 7]) 5"
    using u [of 5] by simp_all
  ultimately show ?thesis using r by blast
qed

end
