(* ===== verification/Lock.thy ===== *)
theory Lock
  imports OSF_Prelude
begin

text \<open>
  The read/write locks of the Mach kernel, \<open>kern/lock.c\<close>.

  A simple lock, the interlock, protects the fields of a lock, so a call is a series of critical
  sections: each runs from the point where the interlock is taken to the point where it is given
  back, by a return, before a spin without the interlock, or in \<open>thread_sleep\<close>, which gives it back
  once the thread is on the queue.  A section is a function from the fields to its end, the fields
  it leaves and whether it called \<open>thread_wakeup\<close>.  Threads are numbers.  Statistics and the
  debugging fields are left out.
\<close>

section \<open>Locks and sections\<close>

record lock =
  want_write :: bool
  want_upgrade :: bool
  waiting :: bool
  can_sleep :: bool
  read_count :: int
  l_thread :: "nat option"      \<comment> \<open>\<open>None\<close>: -1\<close>
  recursion_depth :: int

text \<open>The waiting loops.\<close>

datatype place = InWrite1 | InWrite2 | InRead | InUpgrade | InTryUpgrade

text \<open>The end of a section; \<open>Loop\<close>: round the loop again with the interlock held.\<close>

datatype sec_end = Returned bool | Spin place | Sleep place | Loop place | Panic

type_synonym sec = "sec_end \<times> lock \<times> bool"

definition lock_init :: "bool \<Rightarrow> lock" where
  "lock_init slp = \<lparr>want_write = False, want_upgrade = False, waiting = False, can_sleep = slp, read_count = 0,
     l_thread = None, recursion_depth = 0\<rparr>"

definition lock_sleepable :: "bool \<Rightarrow> lock \<Rightarrow> sec" where
  "lock_sleepable slp l = (Returned True, l\<lparr>can_sleep := slp\<rparr>, False)"

text \<open>The condition of each loop.\<close>

primrec blocked_at :: "place \<Rightarrow> lock \<Rightarrow> bool" where
  "blocked_at InWrite1 l = want_write l"
| "blocked_at InWrite2 l = (read_count l \<noteq> 0 \<or> want_upgrade l)"
| "blocked_at InRead l = (want_write l \<or> want_upgrade l)"
| "blocked_at InUpgrade l = (read_count l \<noteq> 0)"
| "blocked_at InTryUpgrade l = (read_count l \<noteq> 0)"

text \<open>
  The body of a loop up to the point where the interlock is given back, \<open>lwt\<close> being
  \<open>lock_wait_time\<close>.
\<close>

definition wait_round :: "nat \<Rightarrow> place \<Rightarrow> lock \<Rightarrow> sec" where
  "wait_round lwt p l =
     (if lwt > 0 then (Spin p, l, False)
      else if can_sleep l \<and> blocked_at p l then (Sleep p, l\<lparr>waiting := True\<rparr>, False)
      else (Loop p, l, False))"

definition write_readers :: "nat \<Rightarrow> lock \<Rightarrow> sec" where
  "write_readers lwt l = (if blocked_at InWrite2 l then wait_round lwt InWrite2 l else (Returned True, l, False))"

definition write_want :: "nat \<Rightarrow> lock \<Rightarrow> sec" where
  "write_want lwt l =
     (if blocked_at InWrite1 l then wait_round lwt InWrite1 l else write_readers lwt (l\<lparr>want_write := True\<rparr>))"

definition lock_write :: "nat \<Rightarrow> nat \<Rightarrow> lock \<Rightarrow> sec" where
  "lock_write lwt t l =
     (if l_thread l = Some t then (Returned True, l\<lparr>recursion_depth := recursion_depth l + 1\<rparr>, False)
      else write_want lwt l)"

text \<open>The end of a section that may wake the sleepers.\<close>

definition wake_and_return :: "bool \<Rightarrow> lock \<Rightarrow> sec" where
  "wake_and_return r l = (if waiting l then (Returned r, l\<lparr>waiting := False\<rparr>, True) else (Returned r, l, False))"

definition lock_done :: "lock \<Rightarrow> sec" where
  "lock_done l = wake_and_return True
     (if read_count l \<noteq> 0 then l\<lparr>read_count := read_count l - 1\<rparr>
      else if recursion_depth l \<noteq> 0 then l\<lparr>recursion_depth := recursion_depth l - 1\<rparr>
      else if want_upgrade l then l\<lparr>want_upgrade := False\<rparr>
      else l\<lparr>want_write := False\<rparr>)"

definition read_wait :: "nat \<Rightarrow> lock \<Rightarrow> sec" where
  "read_wait lwt l =
     (if blocked_at InRead l then wait_round lwt InRead l
      else (Returned True, l\<lparr>read_count := read_count l + 1\<rparr>, False))"

definition lock_read :: "nat \<Rightarrow> nat \<Rightarrow> lock \<Rightarrow> sec" where
  "lock_read lwt t l =
     (if l_thread l = Some t then (Returned True, l\<lparr>read_count := read_count l + 1\<rparr>, False) else read_wait lwt l)"

text \<open>Upgrades; \<open>lock_read_to_write\<close> returns whether it failed.\<close>

definition upgrade_wait :: "nat \<Rightarrow> lock \<Rightarrow> sec" where
  "upgrade_wait lwt l = (if blocked_at InUpgrade l then wait_round lwt InUpgrade l else (Returned False, l, False))"

definition lock_read_to_write :: "nat \<Rightarrow> nat \<Rightarrow> lock \<Rightarrow> sec" where
  "lock_read_to_write lwt t l =
     (if read_count l = 0 then (Panic, l, False)
      else
        let l1 = l\<lparr>read_count := read_count l - 1\<rparr> in
        if l_thread l1 = Some t then (Returned False, l1\<lparr>recursion_depth := recursion_depth l1 + 1\<rparr>, False)
        else if want_upgrade l1 then wake_and_return True l1
        else upgrade_wait lwt (l1\<lparr>want_upgrade := True\<rparr>))"

definition lock_write_to_read :: "lock \<Rightarrow> sec" where
  "lock_write_to_read l =
     (let l1 = l\<lparr>read_count := read_count l + 1\<rparr> in
      wake_and_return True
        (if recursion_depth l1 \<noteq> 0 then l1\<lparr>recursion_depth := recursion_depth l1 - 1\<rparr>
         else if want_upgrade l1 then l1\<lparr>want_upgrade := False\<rparr>
         else l1\<lparr>want_write := False\<rparr>))"

section \<open>Attempts\<close>

definition lock_try_write :: "nat \<Rightarrow> lock \<Rightarrow> sec" where
  "lock_try_write t l =
     (if l_thread l = Some t then (Returned True, l\<lparr>recursion_depth := recursion_depth l + 1\<rparr>, False)
      else if want_write l \<or> want_upgrade l \<or> read_count l \<noteq> 0 then (Returned False, l, False)
      else (Returned True, l\<lparr>want_write := True\<rparr>, False))"

definition lock_try_read :: "nat \<Rightarrow> lock \<Rightarrow> sec" where
  "lock_try_read t l =
     (if l_thread l = Some t then (Returned True, l\<lparr>read_count := read_count l + 1\<rparr>, False)
      else if want_write l \<or> want_upgrade l then (Returned False, l, False)
      else (Returned True, l\<lparr>read_count := read_count l + 1\<rparr>, False))"

text \<open>This loop sleeps whether or not the lock allows it.\<close>

definition try_upgrade_wait :: "lock \<Rightarrow> sec" where
  "try_upgrade_wait l =
     (if blocked_at InTryUpgrade l then (Sleep InTryUpgrade, l\<lparr>waiting := True\<rparr>, False) else (Returned True, l, False))"

definition lock_try_read_to_write :: "nat \<Rightarrow> lock \<Rightarrow> sec" where
  "lock_try_read_to_write t l =
     (if l_thread l = Some t
      then (if read_count l = 0 then (Panic, l, False)
            else (Returned True, l\<lparr>read_count := read_count l - 1, recursion_depth := recursion_depth l + 1\<rparr>, False))
      else if want_upgrade l then (Returned False, l, False)
      else
        let l1 = l\<lparr>want_upgrade := True\<rparr> in
        if read_count l1 = 0 then (Panic, l1, False)
        else try_upgrade_wait (l1\<lparr>read_count := read_count l1 - 1\<rparr>))"

section \<open>Recursion and tests\<close>

definition lock_set_recursive :: "nat \<Rightarrow> lock \<Rightarrow> sec" where
  "lock_set_recursive t l =
     (if \<not> want_write l then (Panic, l, False) else (Returned True, l\<lparr>l_thread := Some t\<rparr>, False))"

definition lock_clear_recursive :: "nat \<Rightarrow> lock \<Rightarrow> sec" where
  "lock_clear_recursive t l =
     (if l_thread l \<noteq> Some t then (Panic, l, False)
      else (Returned True, (if recursion_depth l = 0 then l\<lparr>l_thread := None\<rparr> else l), False))"

text \<open>\<open>taken\<close>: another processor holds the interlock.\<close>

definition lock_islocked :: "bool \<Rightarrow> lock \<Rightarrow> bool" where
  "lock_islocked taken l \<longleftrightarrow> (if \<not> taken then want_write l \<or> read_count l \<noteq> 0 else True)"

section \<open>Going on\<close>

text \<open>Where a thread goes on in a loop: after a spin the second test comes first.\<close>

primrec loop_top :: "place \<Rightarrow> nat \<Rightarrow> lock \<Rightarrow> sec" where
  "loop_top InWrite1 lwt l = write_want lwt l"
| "loop_top InWrite2 lwt l = write_readers lwt l"
| "loop_top InRead lwt l = read_wait lwt l"
| "loop_top InUpgrade lwt l = upgrade_wait lwt l"
| "loop_top InTryUpgrade lwt l = try_upgrade_wait l"

definition after_spin :: "place \<Rightarrow> nat \<Rightarrow> lock \<Rightarrow> sec" where
  "after_spin p lwt l =
     (if can_sleep l \<and> blocked_at p l then (Sleep p, l\<lparr>waiting := True\<rparr>, False) else loop_top p lwt l)"

end
