(* ===== verification/Lock_System.thy ===== *)
theory Lock_System
  imports Lock "HOL-Library.Multiset"
begin

text \<open>
  Any number of threads on one lock, with the interlock, and with a record of who holds the lock:
  the read and write holds as multisets of threads, the thread that set \<open>want_write\<close> and the one
  that set \<open>want_upgrade\<close>.  This record takes no part in the steps.
\<close>

section \<open>The system\<close>

datatype tpc = Running | Spinning place | Sleeping place | Woken place | Stuck place

record lsys =
  lk :: lock
  interlock :: "nat option"
  pc :: "nat \<Rightarrow> tpc"
  rd :: "nat multiset"
  wr :: "nat multiset"
  writer :: "nat option"
  upgrader :: "nat option"
  panicked :: bool

datatype lk_op = LWrite | LDone | LRead | LUpgrade | LDowngrade | LTryWrite | LTryRead | LTryUpgrade | LSetRec | LClearRec
  | LSleepable bool

primrec run_op :: "lk_op \<Rightarrow> nat \<Rightarrow> nat \<Rightarrow> lock \<Rightarrow> sec" where
  "run_op LWrite lwt t l = lock_write lwt t l"
| "run_op LDone lwt t l = lock_done l"
| "run_op LRead lwt t l = lock_read lwt t l"
| "run_op LUpgrade lwt t l = lock_read_to_write lwt t l"
| "run_op LDowngrade lwt t l = lock_write_to_read l"
| "run_op LTryWrite lwt t l = lock_try_write t l"
| "run_op LTryRead lwt t l = lock_try_read t l"
| "run_op LTryUpgrade lwt t l = lock_try_read_to_write t l"
| "run_op LSetRec lwt t l = lock_set_recursive t l"
| "run_op LClearRec lwt t l = lock_clear_recursive t l"
| "run_op (LSleepable b) lwt t l = lock_sleepable b l"

fun wake :: "tpc \<Rightarrow> tpc" where
  "wake (Sleeping p) = Woken p"
| "wake x = x"

fun pc_after :: "sec_end \<Rightarrow> tpc" where
  "pc_after (Spin p) = Spinning p"
| "pc_after (Sleep p) = Sleeping p"
| "pc_after (Loop p) = Stuck p"
| "pc_after _ = Running"

text \<open>A section of thread \<open>t\<close> ends.\<close>

definition settle :: "nat \<Rightarrow> sec \<Rightarrow> lsys \<Rightarrow> lsys" where
  "settle t r s = (case r of (e, l, woke) \<Rightarrow>
     s\<lparr>lk := l, interlock := (case e of Loop p \<Rightarrow> Some t | _ \<Rightarrow> None),
       pc := (if woke then wake \<circ> pc s else pc s)(t := pc_after e),
       writer := (if \<not> want_write l then None else if want_write (lk s) then writer s else Some t),
       upgrader := (if \<not> want_upgrade l then None else if want_upgrade (lk s) then upgrader s else Some t),
       panicked := (e = Panic)\<rparr>)"

text \<open>What a call gives and takes when its first section ends, and a waiting loop when it is left.\<close>

definition give_rd :: "nat \<Rightarrow> lsys \<Rightarrow> lsys" where "give_rd t s = s\<lparr>rd := add_mset t (rd s)\<rparr>"
definition give_wr :: "nat \<Rightarrow> lsys \<Rightarrow> lsys" where "give_wr t s = s\<lparr>wr := add_mset t (wr s)\<rparr>"
definition take_rd :: "nat \<Rightarrow> lsys \<Rightarrow> lsys" where "take_rd t s = s\<lparr>rd := rd s - {#t#}\<rparr>"
definition take_wr :: "nat \<Rightarrow> lsys \<Rightarrow> lsys" where "take_wr t s = s\<lparr>wr := wr s - {#t#}\<rparr>"

fun op_holds :: "lk_op \<Rightarrow> sec_end \<Rightarrow> nat \<Rightarrow> lsys \<Rightarrow> lsys" where
  "op_holds LWrite (Returned _) t s = give_wr t s"
| "op_holds LRead (Returned _) t s = give_rd t s"
| "op_holds LDone (Returned _) t s = (if t \<in># rd s then take_rd t s else take_wr t s)"
| "op_holds LDowngrade (Returned _) t s = give_rd t (take_wr t s)"
| "op_holds LUpgrade (Returned failed) t s = (if failed then take_rd t s else give_wr t (take_rd t s))"
| "op_holds LUpgrade _ t s = take_rd t s"
| "op_holds LTryWrite (Returned b) t s = (if b then give_wr t s else s)"
| "op_holds LTryRead (Returned b) t s = (if b then give_rd t s else s)"
| "op_holds LTryUpgrade (Returned b) t s = (if b then give_wr t (take_rd t s) else s)"
| "op_holds LTryUpgrade (Sleep _) t s = take_rd t s"
| "op_holds _ _ t s = s"

fun loop_holds :: "place \<Rightarrow> sec_end \<Rightarrow> nat \<Rightarrow> lsys \<Rightarrow> lsys" where
  "loop_holds InRead (Returned _) t s = give_rd t s"
| "loop_holds _ (Returned _) t s = give_wr t s"
| "loop_holds _ _ t s = s"

text \<open>
  The discipline of the clients: a thread that holds the lock calls only what gives it back or
  changes it, unless the lock is recursive for it; the last hold is not given back or lowered
  while the lock is recursive; and only the owner of \<open>want_write\<close> makes it recursive.
\<close>

fun allowed :: "lsys \<Rightarrow> nat \<Rightarrow> lk_op \<Rightarrow> bool" where
  "allowed s t LDone \<longleftrightarrow> t \<in># rd s \<or> t \<in># wr s \<and> (l_thread (lk s) = Some t \<longrightarrow> count (wr s) t \<ge> 2)"
| "allowed s t LDowngrade \<longleftrightarrow> t \<in># wr s \<and> (l_thread (lk s) = Some t \<longrightarrow> count (wr s) t \<ge> 2)"
| "allowed s t LUpgrade \<longleftrightarrow> t \<in># rd s \<and> (l_thread (lk s) = Some t \<or> count (rd s) t = 1 \<and> t \<notin># wr s)"
| "allowed s t LTryUpgrade \<longleftrightarrow> t \<in># rd s \<and> (l_thread (lk s) = Some t \<or> count (rd s) t = 1 \<and> t \<notin># wr s)"
| "allowed s t LSetRec \<longleftrightarrow> t \<in># wr s \<and> writer s = Some t"
| "allowed s t LClearRec \<longleftrightarrow> l_thread (lk s) = Some t"
| "allowed s t (LSleepable b) \<longleftrightarrow> True"
| "allowed s t _ \<longleftrightarrow> l_thread (lk s) = Some t \<or> t \<notin># rd s \<and> t \<notin># wr s"

inductive lk_step :: "nat \<Rightarrow> lsys \<Rightarrow> lsys \<Rightarrow> bool" for lwt where
  lk_call: "\<not> panicked s \<Longrightarrow> interlock s = None \<Longrightarrow> pc s t = Running \<Longrightarrow> allowed s t c \<Longrightarrow> run_op c lwt t (lk s) = r \<Longrightarrow>
    lk_step lwt s (op_holds c (fst r) t (settle t r s))"
| lk_spun: "\<not> panicked s \<Longrightarrow> interlock s = None \<Longrightarrow> pc s t = Spinning p \<Longrightarrow> after_spin p lwt (lk s) = r \<Longrightarrow>
    lk_step lwt s (loop_holds p (fst r) t (settle t r s))"
| lk_woken: "\<not> panicked s \<Longrightarrow> interlock s = None \<Longrightarrow> pc s t = Woken p \<Longrightarrow> loop_top p lwt (lk s) = r \<Longrightarrow>
    lk_step lwt s (loop_holds p (fst r) t (settle t r s))"
| lk_stuck: "\<not> panicked s \<Longrightarrow> interlock s = Some t \<Longrightarrow> pc s t = Stuck p \<Longrightarrow> loop_top p lwt (lk s) = r \<Longrightarrow>
    lk_step lwt s (loop_holds p (fst r) t (settle t r s))"

definition lk_start :: "bool \<Rightarrow> lsys" where
  "lk_start slp = \<lparr>lk = lock_init slp, interlock = None, pc = (\<lambda>_. Running), rd = {#}, wr = {#}, writer = None, upgrader = None,
     panicked = False\<rparr>"

inductive lk_reach :: "nat \<Rightarrow> lsys \<Rightarrow> bool" for lwt where
  lk_first: "lk_reach lwt (lk_start slp)"
| lk_next: "lk_reach lwt s \<Longrightarrow> lk_step lwt s s' \<Longrightarrow> lk_reach lwt s'"

end
