(* ===== verification/Lock_Inv.thy ===== *)
theory Lock_Inv
  imports Lock_System
begin

text \<open>
  A specification of read/write locks with claims, and its invariant.
\<close>

section \<open>The specification\<close>

text \<open>
  Who waits where, who holds the lock for reading and writing and how often, who has claimed it
  for writing and for an upgrade, and for whom it is recursive.
\<close>

record rwspec =
  a_at :: "nat \<Rightarrow> place option"
  a_rd :: "nat multiset"
  a_wr :: "nat multiset"
  a_writer :: "nat option"
  a_upgrader :: "nat option"
  a_rec :: "nat option"

text \<open>A thread that waits holds nothing; past the first loop, or in an upgrade, it has its claim.\<close>

definition at_ok :: "rwspec \<Rightarrow> nat \<Rightarrow> place \<Rightarrow> bool" where
  "at_ok a t p \<longleftrightarrow> t \<notin># a_rd a \<and> t \<notin># a_wr a \<and> (p = InWrite2 \<longrightarrow> a_writer a = Some t)
     \<and> (p = InUpgrade \<or> p = InTryUpgrade \<longrightarrow> a_upgrader a = Some t)"

definition rw_places :: "rwspec \<Rightarrow> bool" where
  "rw_places a \<longleftrightarrow> (\<forall>t p. a_at a t = Some p \<longrightarrow> at_ok a t p)"

text \<open>Who has a claim holds the lock or waits for the others to leave.\<close>

definition claim_ok :: "rwspec \<Rightarrow> nat \<Rightarrow> bool" where
  "claim_ok a t \<longleftrightarrow> (a_writer a = Some t \<longrightarrow> t \<in># a_wr a \<or> a_at a t = Some InWrite2)
     \<and> (a_upgrader a = Some t \<longrightarrow> t \<in># a_wr a \<or> a_at a t = Some InUpgrade \<or> a_at a t = Some InTryUpgrade)"

definition rw_claims :: "rwspec \<Rightarrow> bool" where
  "rw_claims a \<longleftrightarrow> (\<forall>t. claim_ok a t)"

text \<open>A write hold is exclusive and rests on a claim.\<close>

definition excl_ok :: "rwspec \<Rightarrow> nat \<Rightarrow> bool" where
  "excl_ok a t \<longleftrightarrow> set_mset (a_wr a) \<subseteq> {t} \<and> set_mset (a_rd a) \<subseteq> {t}
     \<and> (a_writer a = Some t \<and> a_upgrader a = None \<or> a_upgrader a = Some t \<and> a_writer a \<noteq> Some t)"

definition rw_excl :: "rwspec \<Rightarrow> bool" where
  "rw_excl a \<longleftrightarrow> (\<forall>t. t \<in># a_wr a \<longrightarrow> excl_ok a t)"

definition rw_rec :: "rwspec \<Rightarrow> bool" where
  "rw_rec a \<longleftrightarrow> (a_rec a = None \<longrightarrow> size (a_wr a) \<le> 1) \<and> (\<forall>t. a_rec a = Some t \<longrightarrow> t \<in># a_wr a \<and> a_writer a = Some t)"

definition rw_ok :: "rwspec \<Rightarrow> bool" where
  "rw_ok a \<longleftrightarrow> rw_places a \<and> rw_claims a \<and> rw_excl a \<and> rw_rec a"

lemma rw_okD:
  assumes "rw_ok a"
  shows "a_at a t = Some p \<Longrightarrow> at_ok a t p" "claim_ok a t" "t \<in># a_wr a \<Longrightarrow> excl_ok a t"
    "a_rec a = None \<Longrightarrow> size (a_wr a) \<le> 1" "a_rec a = Some t \<Longrightarrow> t \<in># a_wr a \<and> a_writer a = Some t"
  using assms unfolding rw_ok_def rw_places_def rw_claims_def rw_excl_def rw_rec_def by blast+

text \<open>One thread moves; what the invariant says of the others stays.\<close>

definition apart :: "nat \<Rightarrow> rwspec \<Rightarrow> rwspec \<Rightarrow> bool" where
  "apart t a b \<longleftrightarrow> (\<forall>u. u \<noteq> t \<longrightarrow> a_at b u = a_at a u \<and> (u \<in># a_rd b) = (u \<in># a_rd a) \<and> (u \<in># a_wr b) = (u \<in># a_wr a)
     \<and> (a_writer b = Some u) = (a_writer a = Some u) \<and> (a_upgrader b = Some u) = (a_upgrader a = Some u))"

lemma rw_ok_move:
  assumes "rw_ok a" "apart t a b" "\<And>p. a_at b t = Some p \<Longrightarrow> at_ok b t p" "claim_ok b t" "rw_excl b" "rw_rec b"
  shows "rw_ok b"
proof -
  have "at_ok b u p" if u: "a_at b u = Some p" for u p
  proof (cases "u = t")
    case False
    then have o: "a_at b u = a_at a u" "(u \<in># a_rd b) = (u \<in># a_rd a)" "(u \<in># a_wr b) = (u \<in># a_wr a)"
      "(a_writer b = Some u) = (a_writer a = Some u)" "(a_upgrader b = Some u) = (a_upgrader a = Some u)"
      using assms(2) unfolding apart_def by blast+
    have "at_ok a u p" using rw_okD(1) [OF assms(1)] u o(1) by simp
    then show ?thesis unfolding at_ok_def o by simp
  qed (use assms(3) u in simp)
  moreover have "claim_ok b u" for u
  proof (cases "u = t")
    case False
    then have o: "a_at b u = a_at a u" "(u \<in># a_wr b) = (u \<in># a_wr a)"
      "(a_writer b = Some u) = (a_writer a = Some u)" "(a_upgrader b = Some u) = (a_upgrader a = Some u)"
      using assms(2) unfolding apart_def by blast+
    show ?thesis using rw_okD(2) [OF assms(1), of u] unfolding claim_ok_def o .
  qed (use assms(4) in simp)
  ultimately show ?thesis using assms(5,6) by (simp add: rw_ok_def rw_places_def rw_claims_def)
qed

text \<open>The moves.\<close>

definition rw_wait :: "nat \<Rightarrow> place \<Rightarrow> rwspec \<Rightarrow> rwspec" where
  "rw_wait t p a = a\<lparr>a_at := (a_at a)(t := Some p)\<rparr>"

definition rw_read :: "nat \<Rightarrow> rwspec \<Rightarrow> rwspec" where
  "rw_read t a = a\<lparr>a_at := (a_at a)(t := None), a_rd := add_mset t (a_rd a)\<rparr>"

definition rw_unread :: "nat \<Rightarrow> rwspec \<Rightarrow> rwspec" where
  "rw_unread t a = a\<lparr>a_rd := a_rd a - {#t#}\<rparr>"

definition rw_claim :: "nat \<Rightarrow> rwspec \<Rightarrow> rwspec" where
  "rw_claim t a = a\<lparr>a_at := (a_at a)(t := Some InWrite2), a_writer := Some t\<rparr>"

definition rw_claim_upgrade :: "nat \<Rightarrow> place \<Rightarrow> rwspec \<Rightarrow> rwspec" where
  "rw_claim_upgrade t p a = a\<lparr>a_at := (a_at a)(t := Some p), a_rd := a_rd a - {#t#}, a_upgrader := Some t\<rparr>"

definition rw_win :: "nat \<Rightarrow> rwspec \<Rightarrow> rwspec" where
  "rw_win t a = a\<lparr>a_at := (a_at a)(t := None), a_wr := add_mset t (a_wr a)\<rparr>"

definition rw_unwrite :: "nat \<Rightarrow> rwspec \<Rightarrow> rwspec" where
  "rw_unwrite t a =
     (if size (a_wr a) > 1 then a\<lparr>a_wr := a_wr a - {#t#}\<rparr>
      else if a_upgrader a = None then a\<lparr>a_wr := {#}, a_writer := None\<rparr>
      else a\<lparr>a_wr := {#}, a_upgrader := None\<rparr>)"

lemmas rw_moves = rw_wait_def rw_read_def rw_unread_def rw_claim_def rw_claim_upgrade_def rw_win_def rw_unwrite_def

lemma one_holder: "set_mset M \<subseteq> {t} \<Longrightarrow> M = replicate_mset (size M) t"
  by (metis set_mset_subset_singletonD size_replicate_mset)

lemma rw_wait_ok:
  assumes "rw_ok a" "a_at a t = None \<or> a_at a t = Some p" "t \<notin># a_rd a" "t \<notin># a_wr a" "p = InWrite1 \<or> p = InRead \<or> a_at a t = Some p"
  shows "rw_ok (rw_wait t p a)"
proof (rule rw_ok_move [OF assms(1)])
  show "apart t a (rw_wait t p a)" by (simp add: apart_def rw_wait_def)
  show "at_ok (rw_wait t p a) t q" if "a_at (rw_wait t p a) t = Some q" for q
    using that assms(3-5) rw_okD(1) [OF assms(1), of t p] by (auto simp: at_ok_def rw_wait_def)
  show "claim_ok (rw_wait t p a) t"
    using rw_okD(2) [OF assms(1), of t] assms(2,4) by (auto simp: claim_ok_def rw_wait_def)
  show "rw_excl (rw_wait t p a)" "rw_rec (rw_wait t p a)"
    using assms(1) by (simp_all add: rw_ok_def rw_excl_def rw_rec_def excl_ok_def rw_wait_def)
qed

lemma rw_read_ok:
  assumes "rw_ok a" "t \<in># a_wr a \<or> a_writer a = None \<and> a_upgrader a = None" "a_at a t = None \<or> a_at a t = Some InRead"
  shows "rw_ok (rw_read t a)"
proof (rule rw_ok_move [OF assms(1)])
  show "apart t a (rw_read t a)" by (simp add: apart_def rw_read_def)
  show "claim_ok (rw_read t a) t"
    using rw_okD(2) [OF assms(1), of t] assms(3) by (auto simp: claim_ok_def rw_read_def)
  show "rw_excl (rw_read t a)" unfolding rw_excl_def
  proof (intro allI impI)
    fix u assume u: "u \<in># a_wr (rw_read t a)"
    then have e: "excl_ok a u" using rw_okD(3) [OF assms(1)] by (simp add: rw_read_def)
    then have "t = u" using assms(2) by (auto simp: excl_ok_def)
    then show "excl_ok (rw_read t a) u" using e by (simp add: excl_ok_def rw_read_def)
  qed
  show "rw_rec (rw_read t a)" using assms(1) by (simp add: rw_ok_def rw_rec_def rw_read_def)
qed (simp add: rw_read_def)

lemma in_diff_other: "u \<noteq> t \<Longrightarrow> (u \<in># M - {#t#}) = (u \<in># M)"
  by (simp only: count_greater_zero_iff [symmetric] count_diff) simp

lemma rw_unread_ok:
  assumes "rw_ok a" "a_at a t = None"
  shows "rw_ok (rw_unread t a)"
proof (rule rw_ok_move [OF assms(1)])
  show "apart t a (rw_unread t a)" by (simp add: apart_def rw_unread_def in_diff_other)
  show "claim_ok (rw_unread t a) t" using rw_okD(2) [OF assms(1), of t] by (simp add: claim_ok_def rw_unread_def)
  show "rw_excl (rw_unread t a)" unfolding rw_excl_def
  proof (intro allI impI)
    fix u assume "u \<in># a_wr (rw_unread t a)"
    then have "excl_ok a u" using rw_okD(3) [OF assms(1)] by (simp add: rw_unread_def)
    then show "excl_ok (rw_unread t a) u" by (auto simp: excl_ok_def rw_unread_def dest: in_diffD)
  qed
  show "rw_rec (rw_unread t a)" using assms(1) by (simp add: rw_ok_def rw_rec_def rw_unread_def)
qed (use assms(2) in \<open>simp add: rw_unread_def\<close>)

lemma rw_claim_ok:
  assumes "rw_ok a" "a_writer a = None" "a_at a t = None \<or> a_at a t = Some InWrite1" "t \<notin># a_rd a" "t \<notin># a_wr a"
  shows "rw_ok (rw_claim t a)"
proof (rule rw_ok_move [OF assms(1)])
  show "apart t a (rw_claim t a)" using assms(2) by (simp add: apart_def rw_claim_def)
  show "at_ok (rw_claim t a) t q" if "a_at (rw_claim t a) t = Some q" for q
    using that assms(4,5) by (auto simp: at_ok_def rw_claim_def)
  show "claim_ok (rw_claim t a) t"
    using rw_okD(2) [OF assms(1), of t] assms(3,5) by (auto simp: claim_ok_def rw_claim_def)
  show "rw_excl (rw_claim t a)" unfolding rw_excl_def
  proof (intro allI impI)
    fix u assume u: "u \<in># a_wr (rw_claim t a)"
    then have "excl_ok a u" "u \<noteq> t" using rw_okD(3) [OF assms(1)] assms(5) by (auto simp: rw_claim_def)
    then show "excl_ok (rw_claim t a) u" using assms(2) by (auto simp: excl_ok_def rw_claim_def)
  qed
  show "rw_rec (rw_claim t a)" using assms(1,2) by (auto simp: rw_ok_def rw_rec_def rw_claim_def)
qed

lemma rw_claim_upgrade_ok:
  assumes "rw_ok a" "a_upgrader a = None" "a_at a t = None" "count (a_rd a) t = 1" "t \<notin># a_wr a" "p = InUpgrade \<or> p = InTryUpgrade"
  shows "rw_ok (rw_claim_upgrade t p a)"
proof (rule rw_ok_move [OF assms(1)])
  have r: "t \<in># a_rd a" "t \<notin># a_rd a - {#t#}" using assms(4) by (auto simp: not_in_iff intro: ccontr)
  have w: "a_wr a = {#}"
  proof (rule ccontr)
    assume "a_wr a \<noteq> {#}"
    then obtain u where u: "u \<in># a_wr a" by blast
    then have "t = u" using rw_okD(3) [OF assms(1) u] r(1) by (auto simp: excl_ok_def)
    then show False using u assms(5) by simp
  qed
  show "apart t a (rw_claim_upgrade t p a)" using assms(2) by (simp add: apart_def rw_claim_upgrade_def in_diff_other)
  show "at_ok (rw_claim_upgrade t p a) t q" if "a_at (rw_claim_upgrade t p a) t = Some q" for q
    using that r assms(5,6) by (auto simp: at_ok_def rw_claim_upgrade_def)
  show "claim_ok (rw_claim_upgrade t p a) t"
    using rw_okD(2) [OF assms(1), of t] assms(3,5,6) by (auto simp: claim_ok_def rw_claim_upgrade_def)
  show "rw_excl (rw_claim_upgrade t p a)" using w by (simp add: rw_excl_def rw_claim_upgrade_def)
  show "rw_rec (rw_claim_upgrade t p a)" using assms(1) by (simp add: rw_ok_def rw_rec_def rw_claim_upgrade_def)
qed

text \<open>A wait for the others to leave ends with nobody left.\<close>

lemma rw_win_alone:
  assumes "rw_ok a" "a_at a t = Some InWrite2 \<and> a_upgrader a = None \<or> a_at a t = Some InUpgrade \<or> a_at a t = Some InTryUpgrade"
  shows "a_wr a = {#}"
proof (rule ccontr)
  assume "a_wr a \<noteq> {#}"
  then obtain u where u: "u \<in># a_wr a" by blast
  obtain p where p: "a_at a t = Some p" "p = InWrite2 \<and> a_upgrader a = None \<or> p = InUpgrade \<or> p = InTryUpgrade" using assms(2) by blast
  have "at_ok a t p" by (rule rw_okD(1) [OF assms(1) p(1)])
  then have t: "t \<notin># a_wr a" "p = InWrite2 \<longrightarrow> a_writer a = Some t" "p = InUpgrade \<or> p = InTryUpgrade \<longrightarrow> a_upgrader a = Some t"
    by (auto simp: at_ok_def)
  have "excl_ok a u" by (rule rw_okD(3) [OF assms(1) u])
  then have "u = t" using t p(2) by (auto simp: excl_ok_def)
  then show False using u t(1) by simp
qed

lemma rw_win_ok:
  assumes "rw_ok a" "a_rd a = {#}" "a_at a t = Some InWrite2 \<and> a_upgrader a = None \<or> a_at a t = Some InUpgrade \<or> a_at a t = Some InTryUpgrade"
  shows "rw_ok (rw_win t a)"
proof (rule rw_ok_move [OF assms(1)])
  note w = rw_win_alone [OF assms(1,3)]
  obtain p where p: "a_at a t = Some p" "p = InWrite2 \<and> a_upgrader a = None \<or> p = InUpgrade \<or> p = InTryUpgrade" using assms(3) by blast
  have at: "at_ok a t p" by (rule rw_okD(1) [OF assms(1) p(1)])
  show "apart t a (rw_win t a)" by (simp add: apart_def rw_win_def)
  show "claim_ok (rw_win t a) t" by (simp add: claim_ok_def rw_win_def)
  have "a_writer a \<noteq> Some t" if "p = InUpgrade \<or> p = InTryUpgrade"
    using rw_okD(2) [OF assms(1), of t] w p(1) that by (auto simp: claim_ok_def)
  then show "rw_excl (rw_win t a)" using w assms(2) at p(2) by (auto simp: rw_excl_def excl_ok_def rw_win_def at_ok_def)
  have "a_rec a = None" using rw_okD(5) [OF assms(1)] w by (cases "a_rec a") auto
  then show "rw_rec (rw_win t a)" using w by (simp add: rw_rec_def rw_win_def)
qed (simp add: rw_win_def)

text \<open>One more hold of the thread the lock is recursive for.\<close>

lemma rw_again_ok:
  assumes "rw_ok a" "a_rec a = Some t"
  shows "rw_ok (a\<lparr>a_wr := add_mset t (a_wr a)\<rparr>)"
proof (rule rw_ok_move [OF assms(1)])
  have t: "t \<in># a_wr a" "a_writer a = Some t" using rw_okD(5) [OF assms] by simp_all
  show "apart t a (a\<lparr>a_wr := add_mset t (a_wr a)\<rparr>)" by (simp add: apart_def)
  show "at_ok (a\<lparr>a_wr := add_mset t (a_wr a)\<rparr>) t q" if "a_at (a\<lparr>a_wr := add_mset t (a_wr a)\<rparr>) t = Some q" for q
    using that rw_okD(1) [OF assms(1), of t q] t(1) by (auto simp: at_ok_def)
  show "claim_ok (a\<lparr>a_wr := add_mset t (a_wr a)\<rparr>) t" by (simp add: claim_ok_def)
  show "rw_excl (a\<lparr>a_wr := add_mset t (a_wr a)\<rparr>)"
    unfolding rw_excl_def
  proof (intro allI impI)
    fix u assume u: "u \<in># a_wr (a\<lparr>a_wr := add_mset t (a_wr a)\<rparr>)"
    have e: "excl_ok a t" by (rule rw_okD(3) [OF assms(1) t(1)])
    then have "u = t" using u by (auto simp: excl_ok_def)
    then show "excl_ok (a\<lparr>a_wr := add_mset t (a_wr a)\<rparr>) u" using e by (simp add: excl_ok_def)
  qed
  show "rw_rec (a\<lparr>a_wr := add_mset t (a_wr a)\<rparr>)" using assms(2) t by (simp add: rw_rec_def)
qed

lemma rw_unwrite_ok:
  assumes "rw_ok a" "t \<in># a_wr a" "a_rec a = Some t \<longrightarrow> count (a_wr a) t \<ge> 2"
  shows "rw_ok (rw_unwrite t a)"
proof -
  have e: "excl_ok a t" by (rule rw_okD(3) [OF assms(1,2)])
  then have w: "a_wr a = replicate_mset (size (a_wr a)) t" by (intro one_holder) (simp add: excl_ok_def)
  have at: "a_at a t = None" using rw_okD(1) [OF assms(1), of t] assms(2) by (cases "a_at a t") (auto simp: at_ok_def)
  show ?thesis
  proof (cases "size (a_wr a) > 1")
    case True
    then obtain n where k: "size (a_wr a) = Suc (Suc n)" by (auto simp: less_iff_Suc_add)
    have n: "a_wr a = replicate_mset (Suc (Suc n)) t" by (rule w [unfolded k])
    have u: "rw_unwrite t a = a\<lparr>a_wr := replicate_mset (Suc n) t\<rparr>" by (simp add: rw_unwrite_def n)
    show ?thesis unfolding u
    proof (rule rw_ok_move [OF assms(1)])
      show "apart t a (a\<lparr>a_wr := replicate_mset (Suc n) t\<rparr>)" by (simp add: apart_def n)
      show "claim_ok (a\<lparr>a_wr := replicate_mset (Suc n) t\<rparr>) t" by (simp add: claim_ok_def)
      show "rw_excl (a\<lparr>a_wr := replicate_mset (Suc n) t\<rparr>)" using e by (simp add: rw_excl_def excl_ok_def)
      show "rw_rec (a\<lparr>a_wr := replicate_mset (Suc n) t\<rparr>)" using assms(1) by (auto simp: rw_ok_def rw_rec_def n)
    qed (use at in simp)
  next
    case False
    have "count (a_wr a) t = size (a_wr a)" by (subst w) simp
    then have "a_rec a \<noteq> Some t" using assms(3) False by auto
    have r: "a_rec a = None"
    proof (cases "a_rec a")
      case (Some u)
      then have "u \<in># a_wr a" using rw_okD(5) [OF assms(1)] by simp
      then have "u = t" using e by (auto simp: excl_ok_def)
      then show ?thesis using \<open>a_rec a \<noteq> Some t\<close> Some by simp
    qed
    have "size (a_wr a) = 1" using False assms(2) by (cases "a_wr a") auto
    then have w1: "a_wr a = {#t#}" using w [unfolded \<open>size (a_wr a) = 1\<close>] by simp
    define b where "b = (if a_upgrader a = None then a\<lparr>a_wr := {#}, a_writer := None\<rparr> else a\<lparr>a_wr := {#}, a_upgrader := None\<rparr>)"
    have "rw_unwrite t a = b" using False by (simp add: rw_unwrite_def b_def)
    moreover have "rw_ok b"
    proof (rule rw_ok_move [OF assms(1)])
      show "apart t a b" using e w1 by (auto simp: apart_def b_def excl_ok_def)
      show "claim_ok b t" using e by (auto simp: claim_ok_def b_def excl_ok_def)
      show "rw_excl b" by (simp add: rw_excl_def b_def)
      show "rw_rec b" using r by (simp add: rw_rec_def b_def)
    qed (use at in \<open>simp add: b_def split: if_splits\<close>)
    ultimately show ?thesis by simp
  qed
qed

lemma rw_rec_on_ok:
  assumes "rw_ok a" "t \<in># a_wr a" "a_writer a = Some t"
  shows "rw_ok (a\<lparr>a_rec := Some t\<rparr>)"
  using assms by (simp add: rw_ok_def rw_places_def rw_claims_def rw_excl_def at_ok_def claim_ok_def excl_ok_def rw_rec_def)

lemma rw_rec_off_ok: "rw_ok a \<Longrightarrow> size (a_wr a) \<le> 1 \<Longrightarrow> rw_ok (a\<lparr>a_rec := None\<rparr>)"
  by (simp add: rw_ok_def rw_places_def rw_claims_def rw_excl_def at_ok_def claim_ok_def excl_ok_def rw_rec_def)

section \<open>The steps of the specification\<close>

text \<open>
  A read hold is given while nobody has a claim, or to the writer; a claim to write while there
  is none; a claim to upgrade to a reader while there is none; and a claim wins when nobody is
  left.
\<close>

inductive rw_step :: "rwspec \<Rightarrow> rwspec \<Rightarrow> bool" where
  sp_wait: "a_at a t = None \<Longrightarrow> t \<notin># a_rd a \<Longrightarrow> t \<notin># a_wr a \<Longrightarrow> p = InWrite1 \<or> p = InRead \<Longrightarrow> rw_step a (rw_wait t p a)"
| sp_read: "t \<in># a_wr a \<or> a_writer a = None \<and> a_upgrader a = None \<Longrightarrow> a_at a t = None \<or> a_at a t = Some InRead \<Longrightarrow> rw_step a (rw_read t a)"
| sp_unread: "t \<in># a_rd a \<Longrightarrow> a_at a t = None \<Longrightarrow> rw_step a (rw_unread t a)"
| sp_claim: "a_writer a = None \<Longrightarrow> a_at a t = None \<or> a_at a t = Some InWrite1 \<Longrightarrow> t \<notin># a_rd a \<Longrightarrow> t \<notin># a_wr a \<Longrightarrow> rw_step a (rw_claim t a)"
| sp_claim_upgrade: "a_upgrader a = None \<Longrightarrow> a_at a t = None \<Longrightarrow> count (a_rd a) t = 1 \<Longrightarrow> t \<notin># a_wr a \<Longrightarrow>
    p = InUpgrade \<or> p = InTryUpgrade \<Longrightarrow> rw_step a (rw_claim_upgrade t p a)"
| sp_win: "a_rd a = {#} \<Longrightarrow> a_at a t = Some InWrite2 \<and> a_upgrader a = None \<or> a_at a t = Some InUpgrade \<or> a_at a t = Some InTryUpgrade \<Longrightarrow>
    rw_step a (rw_win t a)"
| sp_again: "a_rec a = Some t \<Longrightarrow> rw_step a (a\<lparr>a_wr := add_mset t (a_wr a)\<rparr>)"
| sp_unwrite: "t \<in># a_wr a \<Longrightarrow> a_rec a = Some t \<longrightarrow> count (a_wr a) t \<ge> 2 \<Longrightarrow> rw_step a (rw_unwrite t a)"
| sp_rec_on: "t \<in># a_wr a \<Longrightarrow> a_writer a = Some t \<Longrightarrow> rw_step a (a\<lparr>a_rec := Some t\<rparr>)"
| sp_rec_off: "size (a_wr a) \<le> 1 \<Longrightarrow> rw_step a (a\<lparr>a_rec := None\<rparr>)"

lemma rw_step_ok: "rw_step a b \<Longrightarrow> rw_ok a \<Longrightarrow> rw_ok b"
  by (induction rule: rw_step.induct)
    (auto intro: rw_wait_ok rw_read_ok rw_unread_ok rw_claim_ok rw_claim_upgrade_ok rw_win_ok rw_again_ok rw_unwrite_ok rw_rec_on_ok rw_rec_off_ok)

lemma rw_steps_ok: "rw_step\<^sup>*\<^sup>* a b \<Longrightarrow> rw_ok a \<Longrightarrow> rw_ok b"
  by (induction rule: rtranclp_induct) (auto intro: rw_step_ok)

end
