(* ===== verification/Lock_Steps.thy ===== *)
theory Lock_Steps
  imports Lock_Inv
begin

text \<open>
  The code of the locks implements the specification: each section is some moves of it, and no
  wakeup is lost.
\<close>

section \<open>The view and the invariant\<close>

fun pc_place :: "tpc \<Rightarrow> place option" where
  "pc_place Running = None"
| "pc_place (Spinning p) = Some p"
| "pc_place (Sleeping p) = Some p"
| "pc_place (Woken p) = Some p"
| "pc_place (Stuck p) = Some p"

lemma pc_place_wake [simp]: "pc_place (wake x) = pc_place x"
  by (cases x) simp_all

lemma wake_not_sleeping [simp]: "wake x \<noteq> Sleeping p"
  by (cases x) simp_all

definition rw_view :: "lsys \<Rightarrow> rwspec" where
  "rw_view s = \<lparr>a_at = (\<lambda>t. pc_place (pc s t)), a_rd = rd s, a_wr = wr s, a_writer = writer s, a_upgrader = upgrader s, a_rec = l_thread (lk s)\<rparr>"

text \<open>The fields of the lock count the holds and say whether there are claims.\<close>

definition lk_fields :: "lsys \<Rightarrow> bool" where
  "lk_fields s \<longleftrightarrow> read_count (lk s) = int (size (rd s)) \<and> recursion_depth (lk s) = int (size (wr s) - 1)
     \<and> want_write (lk s) = (writer s \<noteq> None) \<and> want_upgrade (lk s) = (upgrader s \<noteq> None)"

text \<open>Who sleeps has something to wait for, and will be woken.\<close>

definition lk_sleepers :: "lsys \<Rightarrow> bool" where
  "lk_sleepers s \<longleftrightarrow> (\<forall>t p. pc s t = Sleeping p \<longrightarrow> waiting (lk s) \<and> blocked_at p (lk s))"

definition lk_inv :: "lsys \<Rightarrow> bool" where
  "lk_inv s \<longleftrightarrow> \<not> panicked s \<and> lk_fields s \<and> lk_sleepers s \<and> rw_ok (rw_view s)"

definition lk_sim :: "lsys \<Rightarrow> lsys \<Rightarrow> bool" where
  "lk_sim s s' \<longleftrightarrow> \<not> panicked s' \<and> lk_fields s' \<and> lk_sleepers s' \<and> rw_step\<^sup>*\<^sup>* (rw_view s) (rw_view s')"

lemma lk_sim_inv: "lk_inv s \<Longrightarrow> lk_sim s s' \<Longrightarrow> lk_inv s'"
  unfolding lk_inv_def lk_sim_def using rw_steps_ok by blast

lemma lk_sim_after: "rw_step\<^sup>*\<^sup>* (rw_view s) (rw_view s1) \<Longrightarrow> lk_sim s1 s' \<Longrightarrow> lk_sim s s'"
  unfolding lk_sim_def by (meson rtranclp_trans)

lemma view_simps [simp]:
  "a_at (rw_view s) t = pc_place (pc s t)" "a_rd (rw_view s) = rd s" "a_wr (rw_view s) = wr s"
  "a_writer (rw_view s) = writer s" "a_upgrader (rw_view s) = upgrader s" "a_rec (rw_view s) = l_thread (lk s)"
  by (simp_all add: rw_view_def)

lemma holds_simps [simp]:
  "lk (give_rd t s) = lk s" "lk (give_wr t s) = lk s" "lk (take_rd t s) = lk s" "lk (take_wr t s) = lk s"
  "pc (give_rd t s) = pc s" "pc (give_wr t s) = pc s" "pc (take_rd t s) = pc s" "pc (take_wr t s) = pc s"
  "writer (give_rd t s) = writer s" "writer (give_wr t s) = writer s" "writer (take_rd t s) = writer s" "writer (take_wr t s) = writer s"
  "upgrader (give_rd t s) = upgrader s" "upgrader (give_wr t s) = upgrader s" "upgrader (take_rd t s) = upgrader s" "upgrader (take_wr t s) = upgrader s"
  "panicked (give_rd t s) = panicked s" "panicked (give_wr t s) = panicked s" "panicked (take_rd t s) = panicked s" "panicked (take_wr t s) = panicked s"
  "rd (give_rd t s) = add_mset t (rd s)" "rd (give_wr t s) = rd s" "rd (take_rd t s) = rd s - {#t#}" "rd (take_wr t s) = rd s"
  "wr (give_rd t s) = wr s" "wr (give_wr t s) = add_mset t (wr s)" "wr (take_rd t s) = wr s" "wr (take_wr t s) = wr s - {#t#}"
  by (simp_all add: give_rd_def give_wr_def take_rd_def take_wr_def)

lemma settle_simps [simp]:
  "lk (settle t (e, l, w) s) = l" "rd (settle t (e, l, w) s) = rd s" "wr (settle t (e, l, w) s) = wr s"
  "pc (settle t (e, l, w) s) = (if w then wake \<circ> pc s else pc s)(t := pc_after e)"
  "writer (settle t (e, l, w) s) = (if \<not> want_write l then None else if want_write (lk s) then writer s else Some t)"
  "upgrader (settle t (e, l, w) s) = (if \<not> want_upgrade l then None else if want_upgrade (lk s) then upgrader s else Some t)"
  "panicked (settle t (e, l, w) s) = (e = Panic)"
  by (simp_all add: settle_def)

lemma view_settle:
  "rw_view (settle t (e, l, w) s) = (rw_view s)\<lparr>a_at := (a_at (rw_view s))(t := pc_place (pc_after e)), a_rec := l_thread l,
     a_writer := (if \<not> want_write l then None else if want_write (lk s) then writer s else Some t),
     a_upgrader := (if \<not> want_upgrade l then None else if want_upgrade (lk s) then upgrader s else Some t)\<rparr>"
  by (auto simp: rw_view_def fun_eq_iff)

lemma view_holds:
  "rw_view (give_rd t s) = (rw_view s)\<lparr>a_rd := add_mset t (rd s)\<rparr>" "rw_view (give_wr t s) = (rw_view s)\<lparr>a_wr := add_mset t (wr s)\<rparr>"
  "rw_view (take_rd t s) = (rw_view s)\<lparr>a_rd := rd s - {#t#}\<rparr>" "rw_view (take_wr t s) = (rw_view s)\<lparr>a_wr := wr s - {#t#}\<rparr>"
  by (simp_all add: rw_view_def)

section \<open>Sleepers\<close>

lemma sleepers_settle:
  assumes "lk_sleepers s" "\<And>p. e = Sleep p \<Longrightarrow> waiting l \<and> blocked_at p l"
    "w = waiting (lk s) \<or> \<not> w \<and> (waiting (lk s) \<longrightarrow> waiting l)
      \<and> (\<forall>u p. u \<noteq> t \<longrightarrow> pc s u = Sleeping p \<longrightarrow> blocked_at p (lk s) \<longrightarrow> blocked_at p l)"
  shows "lk_sleepers (settle t (e, l, w) s)"
  unfolding lk_sleepers_def
proof (intro allI impI)
  fix u p assume u: "pc (settle t (e, l, w) s) u = Sleeping p"
  show "waiting (lk (settle t (e, l, w) s)) \<and> blocked_at p (lk (settle t (e, l, w) s))"
  proof (cases "u = t")
    case True
    then have "pc_after e = Sleeping p" using u by simp
    then have "e = Sleep p" by (cases e) simp_all
    then show ?thesis using assms(2) by simp
  next
    case False
    then have n: "\<not> w" "pc s u = Sleeping p" using u by (auto split: if_splits)
    then have "waiting (lk s)" "blocked_at p (lk s)" using assms(1) unfolding lk_sleepers_def by blast+
    then show ?thesis using assms(3) n False by simp
  qed
qed

lemma sleepers_same:
  assumes "lk s' = lk s" "pc s' = pc s"
  shows "lk_sleepers s' = lk_sleepers s"
  using assms by (simp add: lk_sleepers_def)

section \<open>The loops\<close>

lemma lk_invD:
  assumes "lk_inv s"
  shows "read_count (lk s) = int (size (rd s))" "recursion_depth (lk s) = int (size (wr s) - 1)"
    "want_write (lk s) = (writer s \<noteq> None)" "want_upgrade (lk s) = (upgrader s \<noteq> None)" "lk_sleepers s" "\<not> panicked s"
    "rw_ok (rw_view s)"
  using assms by (simp_all add: lk_inv_def lk_fields_def)

lemma waiting_holds_nothing:
  assumes "lk_inv s" "pc_place (pc s t) = Some p"
  shows "t \<notin># rd s" "t \<notin># wr s" "p = InWrite2 \<Longrightarrow> writer s = Some t" "p = InUpgrade \<or> p = InTryUpgrade \<Longrightarrow> upgrader s = Some t"
  using rw_okD(1) [OF lk_invD(7) [OF assms(1)], of t p] assms(2) by (auto simp: at_ok_def)

text \<open>A thread goes to wait, or goes on waiting.\<close>

definition may_wait :: "lsys \<Rightarrow> nat \<Rightarrow> place \<Rightarrow> bool" where
  "may_wait s t p \<longleftrightarrow> pc_place (pc s t) = Some p \<or> pc s t = Running \<and> (p = InWrite1 \<or> p = InRead) \<and> t \<notin># rd s \<and> t \<notin># wr s"

lemma settle_wait:
  assumes "lk_inv s" "may_wait s t p" "pc_place (pc_after e) = Some p" "l = lk s \<or> l = (lk s)\<lparr>waiting := True\<rparr>"
    "\<And>q. e = Sleep q \<Longrightarrow> waiting l \<and> blocked_at q l"
  shows "lk_sim s (settle t (e, l, False) s)"
proof -
  note f = lk_invD [OF assms(1)]
  have l: "read_count l = read_count (lk s)" "recursion_depth l = recursion_depth (lk s)" "want_write l = want_write (lk s)"
    "want_upgrade l = want_upgrade (lk s)" "l_thread l = l_thread (lk s)" "blocked_at q l = blocked_at q (lk s)"
    "waiting (lk s) \<longrightarrow> waiting l" for q
    using assms(4) by (cases q; auto)+
  have b: "rw_view (settle t (e, l, False) s) = rw_wait t p (rw_view s)"
    using assms(3) l(3-5) f(3,4) by (cases "writer s"; cases "upgrader s") (simp_all add: rw_wait_def rw_view_def fun_eq_iff)
  have "rw_step\<^sup>*\<^sup>* (rw_view s) (rw_wait t p (rw_view s))"
  proof (cases "pc s t = Running")
    case True
    then show ?thesis using assms(2) by (intro r_into_rtranclp sp_wait) (auto simp: may_wait_def)
  next
    case False
    then have "rw_wait t p (rw_view s) = rw_view s" using assms(2) by (auto simp: may_wait_def rw_wait_def rw_view_def fun_eq_iff)
    then show ?thesis by simp
  qed
  moreover have "lk_sleepers (settle t (e, l, False) s)"
    by (rule sleepers_settle [OF f(5) assms(5)]) (use l(6,7) in auto)
  moreover have "lk_fields (settle t (e, l, False) s)" using f(1-4) l by (simp add: lk_fields_def)
  moreover have "e \<noteq> Panic" using assms(3) by auto
  ultimately show ?thesis using b by (simp add: lk_sim_def)
qed

lemma wait_round_end: "wait_round lwt p l = (e, l1, w) \<Longrightarrow> blocked_at p l \<Longrightarrow>
    (e = Spin p \<or> e = Sleep p \<or> e = Loop p) \<and> \<not> w \<and> (l1 = l \<or> l1 = l\<lparr>waiting := True\<rparr>) \<and> (\<forall>q. e = Sleep q \<longrightarrow> waiting l1 \<and> blocked_at q l1)"
  by (cases p) (auto simp: wait_round_def split: if_splits)

lemma wait_round_sim:
  assumes "lk_inv s" "may_wait s t p" "blocked_at p (lk s)" "wait_round lwt p (lk s) = (e, l, w)"
  shows "lk_sim s (settle t (e, l, w) s)" "e = Spin p \<or> e = Sleep p \<or> e = Loop p"
proof -
  note r = wait_round_end [OF assms(4,3)]
  then show "e = Spin p \<or> e = Sleep p \<or> e = Loop p" by blast
  have "lk_sim s (settle t (e, l, False) s)" by (rule settle_wait [OF assms(1,2)]) (use r in auto)
  then show "lk_sim s (settle t (e, l, w) s)" using r by simp
qed

text \<open>A claim wins.\<close>

lemma settle_win:
  assumes "lk_inv s" "rd s = {#}" "pc_place (pc s t) = Some p" "p = InWrite2 \<and> upgrader s = None \<or> p = InUpgrade \<or> p = InTryUpgrade"
  shows "lk_sim s (give_wr t (settle t (Returned b, lk s, False) s))"
proof -
  note f = lk_invD [OF assms(1)]
  let ?s = "give_wr t (settle t (Returned b, lk s, False) s)"
  have at: "a_at (rw_view s) t = Some InWrite2 \<and> a_upgrader (rw_view s) = None \<or> a_at (rw_view s) t = Some InUpgrade \<or> a_at (rw_view s) t = Some InTryUpgrade"
    using assms(3,4) by auto
  have "rw_view ?s = rw_win t (rw_view s)"
    using f(3,4) by (cases "writer s"; cases "upgrader s") (simp_all add: rw_win_def rw_view_def fun_eq_iff)
  then have "rw_step\<^sup>*\<^sup>* (rw_view s) (rw_view ?s)" using sp_win [OF _ at] assms(2) by auto
  moreover have "wr s = {#}" using rw_win_alone [OF f(7) at] by simp
  then have "lk_fields ?s" using f(1-4) by (simp add: lk_fields_def)
  moreover have "lk_sleepers (settle t (Returned b, lk s, False) s)" by (rule sleepers_settle [OF f(5)]) auto
  then have "lk_sleepers ?s" by (simp add: sleepers_same [of ?s "settle t (Returned b, lk s, False) s"])
  ultimately show ?thesis by (simp add: lk_sim_def)
qed

lemma write_readers_sim:
  assumes "lk_inv s" "pc_place (pc s t) = Some InWrite2" "write_readers lwt (lk s) = (e, l, w)"
  shows "lk_sim s (loop_holds InWrite2 e t (settle t (e, l, w) s))"
proof (cases "blocked_at InWrite2 (lk s)")
  case True
  have m: "may_wait s t InWrite2" using assms(2) by (simp add: may_wait_def)
  have r: "wait_round lwt InWrite2 (lk s) = (e, l, w)" using assms(3) True unfolding write_readers_def by simp
  show ?thesis using wait_round_sim [OF assms(1) m True r] by auto
next
  case False
  then have r: "e = Returned True" "l = lk s" "w = False" using assms(3) unfolding write_readers_def by simp_all
  have "rd s = {#}" "upgrader s = None" using False lk_invD(1,4) [OF assms(1)] by simp_all
  then show ?thesis using settle_win [OF assms(1) _ assms(2)] r by simp
qed

lemma upgrade_wait_sim:
  assumes "lk_inv s" "pc_place (pc s t) = Some InUpgrade" "upgrade_wait lwt (lk s) = (e, l, w)"
  shows "lk_sim s (loop_holds InUpgrade e t (settle t (e, l, w) s))"
proof (cases "blocked_at InUpgrade (lk s)")
  case True
  have m: "may_wait s t InUpgrade" using assms(2) by (simp add: may_wait_def)
  have r: "wait_round lwt InUpgrade (lk s) = (e, l, w)" using assms(3) True unfolding upgrade_wait_def by simp
  show ?thesis using wait_round_sim [OF assms(1) m True r] by auto
next
  case False
  then have r: "e = Returned False" "l = lk s" "w = False" using assms(3) unfolding upgrade_wait_def by simp_all
  have "rd s = {#}" using False lk_invD(1) [OF assms(1)] by simp
  then show ?thesis using settle_win [OF assms(1) _ assms(2)] r by simp
qed

lemma try_upgrade_wait_sim:
  assumes "lk_inv s" "pc_place (pc s t) = Some InTryUpgrade" "try_upgrade_wait (lk s) = (e, l, w)"
  shows "lk_sim s (loop_holds InTryUpgrade e t (settle t (e, l, w) s))"
proof (cases "blocked_at InTryUpgrade (lk s)")
  case True
  have m: "may_wait s t InTryUpgrade" using assms(2) by (simp add: may_wait_def)
  have r: "e = Sleep InTryUpgrade" "l = (lk s)\<lparr>waiting := True\<rparr>" "w = False"
    using assms(3) True unfolding try_upgrade_wait_def by simp_all
  have "lk_sim s (settle t (e, l, False) s)" by (rule settle_wait [OF assms(1) m]) (use r True in auto)
  then show ?thesis using r by simp
next
  case False
  then have r: "e = Returned True" "l = lk s" "w = False" using assms(3) unfolding try_upgrade_wait_def by simp_all
  have "rd s = {#}" using False lk_invD(1) [OF assms(1)] by simp
  then show ?thesis using settle_win [OF assms(1) _ assms(2)] r by simp
qed

text \<open>A read hold.\<close>

lemma settle_read:
  assumes "lk_inv s" "t \<in># wr s \<or> writer s = None \<and> upgrader s = None" "pc s t = Running \<or> pc_place (pc s t) = Some InRead"
  shows "lk_sim s (give_rd t (settle t (Returned b, (lk s)\<lparr>read_count := read_count (lk s) + 1\<rparr>, False) s))"
proof -
  note f = lk_invD [OF assms(1)]
  let ?l = "(lk s)\<lparr>read_count := read_count (lk s) + 1\<rparr>"
  let ?s = "give_rd t (settle t (Returned b, ?l, False) s)"
  have "rw_view ?s = rw_read t (rw_view s)"
    using f(3,4) by (cases "writer s"; cases "upgrader s") (simp_all add: rw_read_def rw_view_def fun_eq_iff)
  moreover have "rw_step (rw_view s) (rw_read t (rw_view s))" by (rule sp_read) (use assms(2,3) in auto)
  ultimately have "rw_step\<^sup>*\<^sup>* (rw_view s) (rw_view ?s)" by auto
  moreover have "lk_fields ?s" using f(1-4) by (simp add: lk_fields_def)
  moreover have "blocked_at p (lk s) \<Longrightarrow> blocked_at p ?l" for p using f(1) by (cases p) auto
  then have "lk_sleepers (settle t (Returned b, ?l, False) s)" by (intro sleepers_settle [OF f(5)]) auto
  then have "lk_sleepers ?s" by (simp add: sleepers_same [of ?s "settle t (Returned b, ?l, False) s"])
  ultimately show ?thesis by (simp add: lk_sim_def)
qed

lemma read_wait_sim:
  assumes "lk_inv s" "pc_place (pc s t) = Some InRead \<or> pc s t = Running \<and> t \<notin># rd s \<and> t \<notin># wr s" "read_wait lwt (lk s) = (e, l, w)"
  shows "lk_sim s (loop_holds InRead e t (settle t (e, l, w) s))"
proof (cases "blocked_at InRead (lk s)")
  case True
  have m: "may_wait s t InRead" using assms(2) by (auto simp: may_wait_def)
  have r: "wait_round lwt InRead (lk s) = (e, l, w)" using assms(3) True unfolding read_wait_def by simp
  show ?thesis using wait_round_sim [OF assms(1) m True r] by auto
next
  case False
  then have r: "e = Returned True" "l = (lk s)\<lparr>read_count := read_count (lk s) + 1\<rparr>" "w = False"
    using assms(3) unfolding read_wait_def by simp_all
  have "writer s = None" "upgrader s = None" using False lk_invD(3,4) [OF assms(1)] by simp_all
  then have "lk_sim s (give_rd t (settle t (Returned True, (lk s)\<lparr>read_count := read_count (lk s) + 1\<rparr>, False) s))"
    by (intro settle_read [OF assms(1)]) (use assms(2) in auto)
  then show ?thesis by (simp add: r)
qed

text \<open>The state between the two loops of \<open>lock_write\<close>: the claim is made.\<close>

definition claimed :: "nat \<Rightarrow> lsys \<Rightarrow> lsys" where
  "claimed t s = s\<lparr>lk := (lk s)\<lparr>want_write := True\<rparr>, writer := Some t, pc := (pc s)(t := Spinning InWrite2)\<rparr>"

lemma claimed_ok:
  assumes "lk_inv s" "\<not> want_write (lk s)" "pc_place (pc s t) = Some InWrite1 \<or> pc s t = Running \<and> t \<notin># rd s \<and> t \<notin># wr s"
  shows "lk_inv (claimed t s)" "rw_step (rw_view s) (rw_view (claimed t s))"
proof -
  note f = lk_invD [OF assms(1)]
  have v: "rw_view (claimed t s) = rw_claim t (rw_view s)" by (auto simp: rw_view_def claimed_def rw_claim_def fun_eq_iff)
  have n: "writer s = None" using assms(2) f(3) by simp
  have h: "t \<notin># rd s" "t \<notin># wr s" using assms(3) waiting_holds_nothing [OF assms(1), of t InWrite1] by auto
  show st: "rw_step (rw_view s) (rw_view (claimed t s))" unfolding v by (rule sp_claim) (use n h assms(3) in auto)
  have mono: "blocked_at p (lk s) \<Longrightarrow> blocked_at p ((lk s)\<lparr>want_write := True\<rparr>)" for p by (cases p) auto
  have "lk_sleepers (claimed t s)" unfolding lk_sleepers_def
  proof (intro allI impI)
    fix u p assume u: "pc (claimed t s) u = Sleeping p"
    then have "pc s u = Sleeping p" by (simp add: claimed_def split: if_splits)
    then show "waiting (lk (claimed t s)) \<and> blocked_at p (lk (claimed t s))"
      using f(5) mono unfolding lk_sleepers_def by (fastforce simp: claimed_def)
  qed
  moreover have "lk_fields (claimed t s)" using f(1-4) by (simp add: lk_fields_def claimed_def)
  moreover have "\<not> panicked (claimed t s)" using f(6) by (simp add: claimed_def)
  ultimately show "lk_inv (claimed t s)" using rw_step_ok [OF st f(7)] by (simp add: lk_inv_def)
qed

lemma write_readers_keeps: "write_readers lwt l = (e, l1, w) \<Longrightarrow> want_write l1 = want_write l"
  by (auto simp: write_readers_def wait_round_def split: if_splits)

lemma settle_claimed:
  assumes "\<not> want_write (lk s)" "want_write l"
  shows "settle t (e, l, w) (claimed t s) = settle t (e, l, w) s"
  using assms by (simp add: settle_def claimed_def fun_eq_iff)

lemma write_want_sim:
  assumes "lk_inv s" "pc_place (pc s t) = Some InWrite1 \<or> pc s t = Running \<and> t \<notin># rd s \<and> t \<notin># wr s" "write_want lwt (lk s) = (e, l, w)"
  shows "lk_sim s (loop_holds InWrite1 e t (settle t (e, l, w) s))"
proof (cases "blocked_at InWrite1 (lk s)")
  case True
  have m: "may_wait s t InWrite1" using assms(2) by (auto simp: may_wait_def)
  have r: "wait_round lwt InWrite1 (lk s) = (e, l, w)" using assms(3) True unfolding write_want_def by simp
  show ?thesis using wait_round_sim [OF assms(1) m True r] by auto
next
  case False
  then have n: "\<not> want_write (lk s)" by simp
  have r: "write_readers lwt (lk (claimed t s)) = (e, l, w)" using assms(3) n by (simp add: write_want_def claimed_def)
  have ww: "want_write l" using write_readers_keeps [OF r] by (simp add: claimed_def)
  note c = claimed_ok [OF assms(1) n assms(2)]
  have "pc_place (pc (claimed t s) t) = Some InWrite2" by (simp add: claimed_def)
  from write_readers_sim [OF c(1) this r]
  have "lk_sim (claimed t s) (loop_holds InWrite2 e t (settle t (e, l, w) s))" unfolding settle_claimed [OF n ww] .
  moreover have "loop_holds InWrite2 e t x = loop_holds InWrite1 e t x" for x by (cases e) simp_all
  ultimately show ?thesis using lk_sim_after [OF r_into_rtranclp [where r = rw_step, OF c(2)]] by simp
qed

text \<open>The state in which a reader has made the claim of an upgrade.\<close>

definition upgrading :: "place \<Rightarrow> nat \<Rightarrow> lsys \<Rightarrow> lsys" where
  "upgrading p t s = s\<lparr>lk := (lk s)\<lparr>want_upgrade := True, read_count := read_count (lk s) - 1\<rparr>, upgrader := Some t,
     rd := rd s - {#t#}, pc := (pc s)(t := Spinning p)\<rparr>"

lemma size_diff_one: "t \<in># M \<Longrightarrow> int (size (M - {#t#})) = int (size M) - 1"
  by (drule insert_DiffM [symmetric], erule ssubst) simp

lemma upgrading_ok:
  assumes "lk_inv s" "\<not> want_upgrade (lk s)" "pc s t = Running" "count (rd s) t = 1" "t \<notin># wr s" "p = InUpgrade \<or> p = InTryUpgrade"
  shows "lk_inv (upgrading p t s)" "rw_step (rw_view s) (rw_view (upgrading p t s))"
proof -
  note f = lk_invD [OF assms(1)]
  have v: "rw_view (upgrading p t s) = rw_claim_upgrade t p (rw_view s)"
    by (auto simp: rw_view_def upgrading_def rw_claim_upgrade_def fun_eq_iff)
  have n: "upgrader s = None" using assms(2) f(4) by simp
  have t: "t \<in># rd s" using assms(4) by (auto simp: not_in_iff intro: ccontr)
  show st: "rw_step (rw_view s) (rw_view (upgrading p t s))" unfolding v by (rule sp_claim_upgrade) (use n assms(3-6) in auto)
  have "lk_sleepers (upgrading p t s)" unfolding lk_sleepers_def
  proof (intro allI impI)
    fix u q assume u: "pc (upgrading p t s) u = Sleeping q"
    then have q: "pc s u = Sleeping q" by (simp add: upgrading_def split: if_splits)
    then have b: "waiting (lk s)" "blocked_at q (lk s)" using f(5) unfolding lk_sleepers_def by blast+
    have "q \<noteq> InUpgrade" "q \<noteq> InTryUpgrade" using waiting_holds_nothing(4) [OF assms(1), of u q] q n by auto
    then show "waiting (lk (upgrading p t s)) \<and> blocked_at q (lk (upgrading p t s))" using b by (cases q) (auto simp: upgrading_def)
  qed
  moreover have "lk_fields (upgrading p t s)" using f(1-4) size_diff_one [OF t] by (simp add: lk_fields_def upgrading_def)
  moreover have "\<not> panicked (upgrading p t s)" using f(6) by (simp add: upgrading_def)
  ultimately show "lk_inv (upgrading p t s)" using rw_step_ok [OF st f(7)] by (simp add: lk_inv_def)
qed

lemma settle_upgrading:
  assumes "\<not> want_upgrade (lk s)" "want_upgrade l"
  shows "settle t (e, l, w) (upgrading p t s) = take_rd t (settle t (e, l, w) s)"
  using assms by (simp add: settle_def upgrading_def take_rd_def fun_eq_iff)

section \<open>The loops of a waiting thread\<close>

lemma loop_top_sim:
  assumes "lk_inv s" "pc_place (pc s t) = Some p" "loop_top p lwt (lk s) = (e, l, w)"
  shows "lk_sim s (loop_holds p e t (settle t (e, l, w) s))"
  using assms write_want_sim [OF assms(1)] write_readers_sim [OF assms(1)] read_wait_sim [OF assms(1)]
    upgrade_wait_sim [OF assms(1)] try_upgrade_wait_sim [OF assms(1)]
  by (cases p) auto

lemma after_spin_sim:
  assumes "lk_inv s" "pc_place (pc s t) = Some p" "after_spin p lwt (lk s) = (e, l, w)"
  shows "lk_sim s (loop_holds p e t (settle t (e, l, w) s))"
proof (cases "can_sleep (lk s) \<and> blocked_at p (lk s)")
  case True
  then have r: "e = Sleep p" "l = (lk s)\<lparr>waiting := True\<rparr>" "w = False" using assms(3) by (auto simp: after_spin_def)
  have m: "may_wait s t p" using assms(2) by (simp add: may_wait_def)
  have "blocked_at p l" using True r by (cases p) auto
  then have "lk_sim s (settle t (e, l, False) s)" by (intro settle_wait [OF assms(1) m]) (use r in auto)
  then show ?thesis using r by (cases p) simp_all
next
  case False
  then show ?thesis using loop_top_sim [OF assms(1,2)] assms(3) by (simp add: after_spin_def split: if_splits)
qed

section \<open>The calls\<close>

lemma wake_and_return_eq: "wake_and_return r l = (Returned r, l\<lparr>waiting := False\<rparr>, waiting l)"
  by (cases "waiting l") (simp_all add: wake_and_return_def)

text \<open>A section that returns, and wakes the sleepers or does not let one of them go on.\<close>

lemma settle_return:
  assumes "lk_inv s" "w = waiting (lk s) \<or> \<not> w \<and> waiting l = waiting (lk s) \<and> (\<forall>p. blocked_at p (lk s) \<longrightarrow> blocked_at p l)"
    "lk s' = l" "pc s' = pc (settle t (Returned b, l, w) s)" "\<not> panicked s'" "lk_fields s'" "rw_step\<^sup>*\<^sup>* (rw_view s) (rw_view s')"
  shows "lk_sim s s'"
proof -
  have "lk_sleepers (settle t (Returned b, l, w) s)" by (rule sleepers_settle [OF lk_invD(5) [OF assms(1)]]) (use assms(2) in auto)
  then have "lk_sleepers s'" using sleepers_same [of s' "settle t (Returned b, l, w) s"] assms(3,4) by simp
  then show ?thesis using assms(5-7) by (simp add: lk_sim_def)
qed

lemma again_sim:
  assumes "lk_inv s" "pc s t = Running" "l_thread (lk s) = Some t"
  shows "lk_sim s (give_wr t (settle t (Returned b, (lk s)\<lparr>recursion_depth := recursion_depth (lk s) + 1\<rparr>, False) s))"
proof -
  note f = lk_invD [OF assms(1)]
  let ?l = "(lk s)\<lparr>recursion_depth := recursion_depth (lk s) + 1\<rparr>"
  let ?s = "give_wr t (settle t (Returned b, ?l, False) s)"
  have t: "t \<in># wr s" using rw_okD(5) [OF f(7), of t] assms(3) by simp
  have v: "rw_view ?s = (rw_view s)\<lparr>a_wr := add_mset t (wr s)\<rparr>"
    using f(3,4) assms(2) by (cases "writer s"; cases "upgrader s") (simp_all add: rw_view_def fun_eq_iff)
  have "rw_step (rw_view s) (rw_view ?s)" unfolding v using sp_again [of "rw_view s" t] assms(3) by simp
  then have "rw_step\<^sup>*\<^sup>* (rw_view s) (rw_view ?s)" by (rule r_into_rtranclp)
  moreover have "lk_fields ?s" using f(1-4) size_diff_one [OF t] t by (simp add: lk_fields_def)
  moreover have "blocked_at p (lk s) \<longrightarrow> blocked_at p ?l" for p by (cases p) simp_all
  ultimately show ?thesis by (intro settle_return [OF assms(1), of False ?l _ t b]) simp_all
qed

lemma nothing_sim:
  assumes "lk_inv s" "pc s t = Running"
  shows "lk_sim s (settle t (Returned b, lk s, False) s)"
proof -
  note f = lk_invD [OF assms(1)]
  have "rw_view (settle t (Returned b, lk s, False) s) = rw_view s"
    using f(3,4) assms(2) by (cases "writer s"; cases "upgrader s") (simp_all add: rw_view_def fun_eq_iff)
  moreover have "lk_fields (settle t (Returned b, lk s, False) s)" using f(1-4) by (simp add: lk_fields_def)
  ultimately show ?thesis by (intro settle_return [OF assms(1), of False "lk s" _ t b]) simp_all
qed

lemma holder_running:
  assumes "lk_inv s" "t \<in># rd s \<or> t \<in># wr s"
  shows "pc s t = Running"
  using waiting_holds_nothing(1,2) [OF assms(1), of t] assms(2) by (cases "pc s t") auto

lemma unread_sim:
  assumes "lk_inv s" "t \<in># rd s"
  shows "lk_sim s (take_rd t (settle t (Returned b, (lk s)\<lparr>read_count := read_count (lk s) - 1, waiting := False\<rparr>, waiting (lk s)) s))"
proof -
  note f = lk_invD [OF assms(1)]
  have run: "pc s t = Running" using holder_running [OF assms(1)] assms(2) by simp
  let ?l = "(lk s)\<lparr>read_count := read_count (lk s) - 1, waiting := False\<rparr>"
  let ?s = "take_rd t (settle t (Returned b, ?l, waiting (lk s)) s)"
  have v: "rw_view ?s = rw_unread t (rw_view s)"
    using f(3,4) run by (cases "writer s"; cases "upgrader s") (simp_all add: rw_view_def rw_unread_def fun_eq_iff)
  have "rw_step (rw_view s) (rw_view ?s)" unfolding v by (rule sp_unread) (use assms(2) run in simp_all)
  then have "rw_step\<^sup>*\<^sup>* (rw_view s) (rw_view ?s)" by (rule r_into_rtranclp)
  moreover have "lk_fields ?s" using f(1-4) size_diff_one [OF assms(2)] by (simp add: lk_fields_def)
  ultimately show ?thesis by (intro settle_return [OF assms(1), of "waiting (lk s)" ?l _ t b]) simp_all
qed

text \<open>The end of a write hold in \<open>lock_done\<close> and \<open>lock_write_to_read\<close>.\<close>

definition write_end :: "lock \<Rightarrow> lock" where
  "write_end l =
     (if recursion_depth l \<noteq> 0 then l\<lparr>recursion_depth := recursion_depth l - 1\<rparr>
      else if want_upgrade l then l\<lparr>want_upgrade := False\<rparr> else l\<lparr>want_write := False\<rparr>)"

lemma write_end_keeps [simp]:
  "read_count (write_end l) = read_count l" "waiting (write_end l) = waiting l" "l_thread (write_end l) = l_thread l"
  by (simp_all add: write_end_def)

lemma sole_holder:
  assumes "lk_inv s" "t \<in># wr s"
  shows "set_mset (wr s) \<subseteq> {t}" "set_mset (rd s) \<subseteq> {t}" "writer s = Some t \<and> upgrader s = None \<or> upgrader s = Some t \<and> writer s \<noteq> Some t"
  using rw_okD(3) [OF lk_invD(7) [OF assms(1)], of t] assms(2) by (auto simp: excl_ok_def)

lemma write_end_view:
  assumes "lk_inv s" "t \<in># wr s"
  shows "(size (wr s) > 1) = (recursion_depth (lk s) \<noteq> 0)"
    "(if \<not> want_write (write_end (lk s)) then None else if want_write (lk s) then writer s else Some t) = a_writer (rw_unwrite t (rw_view s))"
    "(if \<not> want_upgrade (write_end (lk s)) then None else if want_upgrade (lk s) then upgrader s else Some t) = a_upgrader (rw_unwrite t (rw_view s))"
    "a_wr (rw_unwrite t (rw_view s)) = wr s - {#t#}" "recursion_depth (write_end (lk s)) = int (size (wr s - {#t#}) - 1)"
proof -
  note f = lk_invD [OF assms(1)]
  note h = sole_holder [OF assms]
  have w: "wr s = replicate_mset (size (wr s)) t" by (rule one_holder [OF h(1)])
  have s0: "size (wr s) > 0" using assms(2) by (metis empty_iff nonempty_has_size set_mset_empty)
  show d: "(size (wr s) > 1) = (recursion_depth (lk s) \<noteq> 0)" using f(2) by auto
  show "(if \<not> want_write (write_end (lk s)) then None else if want_write (lk s) then writer s else Some t) = a_writer (rw_unwrite t (rw_view s))"
    using h(3) f(3,4) d by (auto simp: write_end_def rw_unwrite_def)
  show "(if \<not> want_upgrade (write_end (lk s)) then None else if want_upgrade (lk s) then upgrader s else Some t) = a_upgrader (rw_unwrite t (rw_view s))"
    using h(3) f(3,4) d by (auto simp: write_end_def rw_unwrite_def)
  have one: "\<not> size (wr s) > 1 \<Longrightarrow> wr s = {#t#}"
  proof -
    assume "\<not> size (wr s) > 1"
    then have "size (wr s) = 1" using s0 by simp
    then show "wr s = {#t#}" using w by (metis One_nat_def replicate_mset_0 replicate_mset_Suc)
  qed
  show "a_wr (rw_unwrite t (rw_view s)) = wr s - {#t#}" using one by (cases "size (wr s) > 1") (simp_all add: rw_unwrite_def)
  show "recursion_depth (write_end (lk s)) = int (size (wr s - {#t#}) - 1)"
    using d f(2) assms(2) one by (cases "size (wr s) > 1") (auto simp: write_end_def size_Diff_singleton of_nat_diff)
qed

lemma unwrite_sim:
  assumes "lk_inv s" "t \<in># wr s" "l_thread (lk s) = Some t \<longrightarrow> count (wr s) t \<ge> 2"
  shows "lk_sim s (take_wr t (settle t (Returned b, (write_end (lk s))\<lparr>waiting := False\<rparr>, waiting (lk s)) s))"
proof -
  note f = lk_invD [OF assms(1)]
  have run: "pc s t = Running" using holder_running [OF assms(1)] assms(2) by simp
  let ?l = "(write_end (lk s))\<lparr>waiting := False\<rparr>"
  let ?s = "take_wr t (settle t (Returned b, ?l, waiting (lk s)) s)"
  note e = write_end_view [OF assms(1,2)]
  have fs: "writer ?s = a_writer (rw_unwrite t (rw_view s))" "upgrader ?s = a_upgrader (rw_unwrite t (rw_view s))"
    using e(2,3) by simp_all
  have keep: "a_at (rw_unwrite t a) = a_at a" "a_rd (rw_unwrite t a) = a_rd a" "a_rec (rw_unwrite t a) = a_rec a" for a
    by (simp_all add: rw_unwrite_def)
  have v: "rw_view ?s = rw_unwrite t (rw_view s)"
    by (rule rwspec.equality) (use fs e(4) keep run in \<open>auto simp: fun_eq_iff\<close>)
  have "rw_step (rw_view s) (rw_view ?s)" unfolding v by (rule sp_unwrite) (use assms(2,3) in simp_all)
  then have "rw_step\<^sup>*\<^sup>* (rw_view s) (rw_view ?s)" by (rule r_into_rtranclp)
  moreover have "want_write ?l = (writer ?s \<noteq> None)" "want_upgrade ?l = (upgrader ?s \<noteq> None)"
    using f(3,4) by (auto simp: write_end_def)
  then have "lk_fields ?s" using f(1) e(5) by (simp add: lk_fields_def)
  ultimately show ?thesis by (intro settle_return [OF assms(1), of "waiting (lk s)" ?l _ t b]) simp_all
qed

lemma downgrade_sim:
  assumes "lk_inv s" "t \<in># wr s" "l_thread (lk s) = Some t \<longrightarrow> count (wr s) t \<ge> 2"
  shows "lk_sim s (give_rd t (take_wr t (settle t (Returned b, (write_end (lk s))\<lparr>read_count := read_count (lk s) + 1, waiting := False\<rparr>, waiting (lk s)) s)))"
proof -
  note f = lk_invD [OF assms(1)]
  have run: "pc s t = Running" using holder_running [OF assms(1)] assms(2) by simp
  let ?l = "(write_end (lk s))\<lparr>read_count := read_count (lk s) + 1, waiting := False\<rparr>"
  let ?s = "give_rd t (take_wr t (settle t (Returned b, ?l, waiting (lk s)) s))"
  note e = write_end_view [OF assms(1,2)]
  have fs: "writer ?s = a_writer (rw_unwrite t (rw_view s))" "upgrader ?s = a_upgrader (rw_unwrite t (rw_view s))"
    using e(2,3) by simp_all
  have keep: "a_at (rw_unwrite t (rw_read t a)) = (a_at a)(t := None)" "a_rd (rw_unwrite t (rw_read t a)) = add_mset t (a_rd a)"
    "a_rec (rw_unwrite t (rw_read t a)) = a_rec a" "a_wr (rw_unwrite t (rw_read t a)) = a_wr (rw_unwrite t a)"
    "a_writer (rw_unwrite t (rw_read t a)) = a_writer (rw_unwrite t a)" "a_upgrader (rw_unwrite t (rw_read t a)) = a_upgrader (rw_unwrite t a)" for a
    by (simp_all add: rw_unwrite_def rw_read_def)
  have v: "rw_view ?s = rw_unwrite t (rw_read t (rw_view s))"
    by (rule rwspec.equality) (use fs e(4) keep run in \<open>auto simp: fun_eq_iff\<close>)
  have "rw_step (rw_view s) (rw_read t (rw_view s))" by (rule sp_read) (use assms(2) run in simp_all)
  moreover have "rw_step (rw_read t (rw_view s)) (rw_view ?s)" unfolding v by (rule sp_unwrite) (use assms(2,3) in \<open>simp_all add: rw_read_def\<close>)
  ultimately have "rw_step\<^sup>*\<^sup>* (rw_view s) (rw_view ?s)" by (meson rtranclp.rtrancl_into_rtrancl rtranclp.rtrancl_refl)
  moreover have "want_write ?l = (writer ?s \<noteq> None)" "want_upgrade ?l = (upgrader ?s \<noteq> None)"
    using f(3,4) by (auto simp: write_end_def)
  then have "lk_fields ?s" using f(1) e(5) by (simp add: lk_fields_def)
  ultimately show ?thesis by (intro settle_return [OF assms(1), of "waiting (lk s)" ?l _ t b]) simp_all
qed

text \<open>A recursive upgrade.\<close>

lemma again_upgrade_sim:
  assumes "lk_inv s" "t \<in># rd s" "l_thread (lk s) = Some t"
  shows "lk_sim s (give_wr t (take_rd t (settle t
    (Returned b, (lk s)\<lparr>read_count := read_count (lk s) - 1, recursion_depth := recursion_depth (lk s) + 1\<rparr>, False) s)))"
proof -
  note f = lk_invD [OF assms(1)]
  have run: "pc s t = Running" using holder_running [OF assms(1)] assms(2) by simp
  let ?l = "(lk s)\<lparr>read_count := read_count (lk s) - 1, recursion_depth := recursion_depth (lk s) + 1\<rparr>"
  let ?t = "settle t (Returned b, ?l, False) s"
  let ?s = "give_wr t (take_rd t ?t)"
  have t: "t \<in># wr s" "writer s = Some t" using rw_okD(5) [OF f(7), of t] assms(3) by simp_all
  have none: "upgrader s = None" using sole_holder(3) [OF assms(1) t(1)] t(2) by simp
  have v: "rw_view ?s = (rw_unread t (rw_view s))\<lparr>a_wr := add_mset t (wr s)\<rparr>"
    using f(3,4) run none t(2) by (simp add: rw_view_def rw_unread_def fun_eq_iff)
  have "rw_step (rw_view s) (rw_unread t (rw_view s))" by (rule sp_unread) (use assms(2) run in simp_all)
  moreover have "rw_step (rw_unread t (rw_view s)) (rw_view ?s)"
    unfolding v using sp_again [of "rw_unread t (rw_view s)" t] assms(3) by (simp add: rw_unread_def)
  ultimately have "rw_step\<^sup>*\<^sup>* (rw_view s) (rw_view ?s)" by (meson rtranclp.rtrancl_into_rtrancl rtranclp.rtrancl_refl)
  moreover have "lk_fields ?s" using f(1-4) size_diff_one [OF t(1)] size_diff_one [OF assms(2)] t(1) by (simp add: lk_fields_def)
  moreover have "lk_sleepers ?t"
  proof (rule sleepers_settle [OF f(5)])
    have "blocked_at p ?l" if "u \<noteq> t" "pc s u = Sleeping p" "blocked_at p (lk s)" for u p
      using that waiting_holds_nothing(3,4) [OF assms(1), of u p] t(2) none by (cases p) auto
    then show "False = waiting (lk s) \<or> \<not> False \<and> (waiting (lk s) \<longrightarrow> waiting ?l)
        \<and> (\<forall>u p. u \<noteq> t \<longrightarrow> pc s u = Sleeping p \<longrightarrow> blocked_at p (lk s) \<longrightarrow> blocked_at p ?l)" by simp
  qed simp
  then have "lk_sleepers ?s" by (simp add: sleepers_same [of ?s ?t])
  ultimately show ?thesis by (simp add: lk_sim_def)
qed

lemma flag_sim:
  assumes "lk_inv s" "pc s t = Running" "read_count l = read_count (lk s)" "recursion_depth l = recursion_depth (lk s)"
    "want_write l = want_write (lk s)" "want_upgrade l = want_upgrade (lk s)" "waiting l = waiting (lk s)"
    "l_thread l = l_thread (lk s) \<or> l_thread l = Some t \<and> t \<in># wr s \<and> writer s = Some t \<or> l_thread l = None \<and> size (wr s) \<le> 1"
  shows "lk_sim s (settle t (Returned b, l, False) s)"
proof -
  note f = lk_invD [OF assms(1)]
  have v: "rw_view (settle t (Returned b, l, False) s) = (rw_view s)\<lparr>a_rec := l_thread l\<rparr>"
    using f(3,4) assms(2,5,6) by (cases "writer s"; cases "upgrader s") (simp_all add: rw_view_def fun_eq_iff)
  have same: "(rw_view s)\<lparr>a_rec := l_thread (lk s)\<rparr> = rw_view s" by (simp add: rw_view_def)
  have "rw_step\<^sup>*\<^sup>* (rw_view s) ((rw_view s)\<lparr>a_rec := l_thread l\<rparr>)"
    using assms(8)
  proof (elim disjE conjE)
    assume "l_thread l = l_thread (lk s)"
    then show ?thesis unfolding \<open>l_thread l = l_thread (lk s)\<close> same by simp
  qed (use sp_rec_on [of t "rw_view s"] sp_rec_off [of "rw_view s"] in \<open>auto intro: r_into_rtranclp\<close>)
  moreover have "lk_fields (settle t (Returned b, l, False) s)" using f(1-4) assms(3-6) by (simp add: lk_fields_def)
  moreover have "blocked_at p l = blocked_at p (lk s)" for p using assms(3,5,6) by (cases p) simp_all
  ultimately show ?thesis
    using v assms(7) by (intro settle_return [OF assms(1), of False l _ t b]) simp_all
qed

lemma try_win_sim:
  assumes "lk_inv s" "pc s t = Running" "t \<notin># rd s" "t \<notin># wr s" "\<not> want_write (lk s)" "\<not> want_upgrade (lk s)" "read_count (lk s) = 0"
  shows "lk_sim s (give_wr t (settle t (Returned b, (lk s)\<lparr>want_write := True\<rparr>, False) s))"
proof -
  note c = claimed_ok [OF assms(1,5), of t]
  have ok: "lk_inv (claimed t s)" "rw_step (rw_view s) (rw_view (claimed t s))" using c assms(2-4) by simp_all
  have r: "rd s = {#}" "upgrader s = None" using lk_invD(1,4) [OF assms(1)] assms(6,7) by simp_all
  have "lk_sim (claimed t s) (give_wr t (settle t (Returned b, lk (claimed t s), False) (claimed t s)))"
    by (rule settle_win [OF ok(1), of t InWrite2]) (simp_all add: claimed_def r)
  moreover have "settle t (Returned b, lk (claimed t s), False) (claimed t s) = settle t (Returned b, (lk s)\<lparr>want_write := True\<rparr>, False) s"
    using assms(5) by (simp add: settle_def claimed_def fun_eq_iff)
  ultimately show ?thesis using lk_sim_after [OF r_into_rtranclp [where r = rw_step, OF ok(2)]] by simp
qed

lemma rec_holds:
  assumes "lk_inv s" "l_thread (lk s) = Some t"
  shows "t \<in># wr s" "writer s = Some t"
  using rw_okD(5) [OF lk_invD(7) [OF assms(1)], of t] assms(2) by simp_all

lemma done_end:
  "read_count l = 0 \<Longrightarrow> lock_done l = (Returned True, (write_end l)\<lparr>waiting := False\<rparr>, waiting l)"
  "lock_write_to_read l = (Returned True, (write_end l)\<lparr>read_count := read_count l + 1, waiting := False\<rparr>, waiting l)"
  by (auto simp: lock_done_def lock_write_to_read_def wake_and_return_eq write_end_def Let_def)

lemma done_sim:
  assumes "lk_inv s" "allowed s t LDone" "lock_done (lk s) = (e, l, w)"
  shows "lk_sim s (op_holds LDone e t (settle t (e, l, w) s))"
proof (cases "t \<in># rd s")
  case True
  then have "read_count (lk s) \<noteq> 0" using lk_invD(1) [OF assms(1)] by auto
  then have "e = Returned True" "l = (lk s)\<lparr>read_count := read_count (lk s) - 1, waiting := False\<rparr>" "w = waiting (lk s)"
    using assms(3) by (auto simp: lock_done_def wake_and_return_eq)
  then show ?thesis using unread_sim [OF assms(1) True] True by simp
next
  case False
  then have t: "t \<in># wr s" "l_thread (lk s) = Some t \<longrightarrow> count (wr s) t \<ge> 2" using assms(2) by simp_all
  have "rd s = {#}" using sole_holder(2) [OF assms(1) t(1)] False by (metis empty_subsetI set_mset_eq_empty_iff subset_antisym subset_singletonD insertI1)
  then have "read_count (lk s) = 0" using lk_invD(1) [OF assms(1)] by simp
  then have "e = Returned True" "l = (write_end (lk s))\<lparr>waiting := False\<rparr>" "w = waiting (lk s)"
    using assms(3) done_end(1) [of "lk s"] by auto
  then show ?thesis using unwrite_sim [OF assms(1) t] False by simp
qed

lemma downgrade_op_sim:
  assumes "lk_inv s" "allowed s t LDowngrade" "lock_write_to_read (lk s) = (e, l, w)"
  shows "lk_sim s (op_holds LDowngrade e t (settle t (e, l, w) s))"
proof -
  have t: "t \<in># wr s" "l_thread (lk s) = Some t \<longrightarrow> count (wr s) t \<ge> 2" using assms(2) by simp_all
  have "e = Returned True" "l = (write_end (lk s))\<lparr>read_count := read_count (lk s) + 1, waiting := False\<rparr>" "w = waiting (lk s)"
    using assms(3) done_end(2) [of "lk s"] by auto
  then show ?thesis using downgrade_sim [OF assms(1) t] by simp
qed

lemma upgrade_op_sim:
  assumes "lk_inv s" "pc s t = Running" "allowed s t LUpgrade" "lock_read_to_write lwt t (lk s) = (e, l, w)"
  shows "lk_sim s (op_holds LUpgrade e t (settle t (e, l, w) s))"
proof -
  have t: "t \<in># rd s" using assms(3) by simp
  then have rc: "read_count (lk s) \<noteq> 0" using lk_invD(1) [OF assms(1)] by auto
  consider "l_thread (lk s) = Some t" | "l_thread (lk s) \<noteq> Some t" "want_upgrade (lk s)" | "l_thread (lk s) \<noteq> Some t" "\<not> want_upgrade (lk s)" by blast
  then show ?thesis
  proof cases
    case 1
    then have "e = Returned False" "l = (lk s)\<lparr>read_count := read_count (lk s) - 1, recursion_depth := recursion_depth (lk s) + 1\<rparr>" "w = False"
      using assms(4) rc by (auto simp: lock_read_to_write_def Let_def)
    then show ?thesis using again_upgrade_sim [OF assms(1) t 1] by simp
  next
    case 2
    then have "e = Returned True" "l = (lk s)\<lparr>read_count := read_count (lk s) - 1, waiting := False\<rparr>" "w = waiting (lk s)"
      using assms(4) rc by (auto simp: lock_read_to_write_def Let_def wake_and_return_eq)
    then show ?thesis using unread_sim [OF assms(1) t] by simp
  next
    case 3
    have one: "count (rd s) t = 1" "t \<notin># wr s" using assms(3) 3(1) by simp_all
    let ?u = "upgrading InUpgrade t s"
    note c = upgrading_ok [OF assms(1) 3(2) assms(2) one, of InUpgrade]
    have "(lk s)\<lparr>read_count := read_count (lk s) - 1, want_upgrade := True\<rparr> = lk ?u" by (simp add: upgrading_def)
    then have r: "upgrade_wait lwt (lk ?u) = (e, l, w)" using assms(4) rc 3 by (simp add: lock_read_to_write_def Let_def)
    have wu: "want_upgrade l" using r by (auto simp: upgrade_wait_def wait_round_def upgrading_def split: if_splits)
    have "lk_inv ?u" "pc_place (pc ?u t) = Some InUpgrade" using c(1) by (simp_all add: upgrading_def)
    from upgrade_wait_sim [OF this r]
    have "lk_sim ?u (loop_holds InUpgrade e t (take_rd t (settle t (e, l, w) s)))" unfolding settle_upgrading [OF 3(2) wu] .
    moreover have "loop_holds InUpgrade e t (take_rd t x) = op_holds LUpgrade e t x" for x
      using r by (auto simp: upgrade_wait_def wait_round_def split: if_splits)
    ultimately show ?thesis using lk_sim_after [OF r_into_rtranclp [where r = rw_step, OF c(2)]] by simp
  qed
qed

lemma try_upgrade_op_sim:
  assumes "lk_inv s" "pc s t = Running" "allowed s t LTryUpgrade" "lock_try_read_to_write t (lk s) = (e, l, w)"
  shows "lk_sim s (op_holds LTryUpgrade e t (settle t (e, l, w) s))"
proof -
  have t: "t \<in># rd s" using assms(3) by simp
  then have rc: "read_count (lk s) \<noteq> 0" using lk_invD(1) [OF assms(1)] by auto
  consider "l_thread (lk s) = Some t" | "l_thread (lk s) \<noteq> Some t" "want_upgrade (lk s)" | "l_thread (lk s) \<noteq> Some t" "\<not> want_upgrade (lk s)" by blast
  then show ?thesis
  proof cases
    case 1
    then have "e = Returned True" "l = (lk s)\<lparr>read_count := read_count (lk s) - 1, recursion_depth := recursion_depth (lk s) + 1\<rparr>" "w = False"
      using assms(4) rc by (auto simp: lock_try_read_to_write_def Let_def)
    then show ?thesis using again_upgrade_sim [OF assms(1) t 1] by simp
  next
    case 2
    then have "e = Returned False" "l = lk s" "w = False" using assms(4) by (simp_all add: lock_try_read_to_write_def)
    then show ?thesis using nothing_sim [OF assms(1,2)] by simp
  next
    case 3
    have one: "count (rd s) t = 1" "t \<notin># wr s" using assms(3) 3(1) by simp_all
    let ?u = "upgrading InTryUpgrade t s"
    note c = upgrading_ok [OF assms(1) 3(2) assms(2) one, of InTryUpgrade]
    have r: "try_upgrade_wait (lk ?u) = (e, l, w)" using assms(4) rc 3 by (simp add: lock_try_read_to_write_def Let_def upgrading_def)
    have wu: "want_upgrade l" using r by (auto simp: try_upgrade_wait_def upgrading_def split: if_splits)
    have "lk_inv ?u" "pc_place (pc ?u t) = Some InTryUpgrade" using c(1) by (simp_all add: upgrading_def)
    from try_upgrade_wait_sim [OF this r]
    have "lk_sim ?u (loop_holds InTryUpgrade e t (take_rd t (settle t (e, l, w) s)))" unfolding settle_upgrading [OF 3(2) wu] .
    moreover have "loop_holds InTryUpgrade e t (take_rd t x) = op_holds LTryUpgrade e t x" for x
      using r by (auto simp: try_upgrade_wait_def split: if_splits)
    ultimately show ?thesis using lk_sim_after [OF r_into_rtranclp [where r = rw_step, OF c(2)]] by simp
  qed
qed

lemma write_op_sim:
  assumes "lk_inv s" "pc s t = Running" "l_thread (lk s) = Some t \<or> t \<notin># rd s \<and> t \<notin># wr s"
  shows "lock_write lwt t (lk s) = (e, l, w) \<Longrightarrow> lk_sim s (op_holds LWrite e t (settle t (e, l, w) s))"
    "lock_read lwt t (lk s) = (e, l, w) \<Longrightarrow> lk_sim s (op_holds LRead e t (settle t (e, l, w) s))"
    "lock_try_write t (lk s) = (e, l, w) \<Longrightarrow> lk_sim s (op_holds LTryWrite e t (settle t (e, l, w) s))"
    "lock_try_read t (lk s) = (e, l, w) \<Longrightarrow> lk_sim s (op_holds LTryRead e t (settle t (e, l, w) s))"
proof -
  note f = lk_invD [OF assms(1)]
  have holds: "loop_holds InWrite1 e t x = op_holds LWrite e t x" "loop_holds InRead e t x = op_holds LRead e t x" for x
    by (cases e; simp)+
  have free: "t \<notin># rd s" "t \<notin># wr s" if "l_thread (lk s) \<noteq> Some t" using assms(3) that by simp_all
  show "lk_sim s (op_holds LWrite e t (settle t (e, l, w) s))" if "lock_write lwt t (lk s) = (e, l, w)"
  proof (cases "l_thread (lk s) = Some t")
    case True
    then show ?thesis using again_sim [OF assms(1,2) True] that by (auto simp: lock_write_def)
  next
    case False
    then show ?thesis using write_want_sim [OF assms(1), of t lwt e l w] that assms(2) free holds by (simp add: lock_write_def)
  qed
  show "lk_sim s (op_holds LRead e t (settle t (e, l, w) s))" if "lock_read lwt t (lk s) = (e, l, w)"
  proof (cases "l_thread (lk s) = Some t")
    case True
    then show ?thesis using settle_read [OF assms(1)] rec_holds [OF assms(1) True] assms(2) that by (auto simp: lock_read_def)
  next
    case False
    then show ?thesis using read_wait_sim [OF assms(1), of t lwt e l w] that assms(2) free holds by (simp add: lock_read_def)
  qed
  show "lk_sim s (op_holds LTryWrite e t (settle t (e, l, w) s))" if "lock_try_write t (lk s) = (e, l, w)"
  proof (cases "l_thread (lk s) = Some t")
    case True
    then show ?thesis using again_sim [OF assms(1,2) True] that by (auto simp: lock_try_write_def)
  next
    case False
    then show ?thesis using nothing_sim [OF assms(1,2)] try_win_sim [OF assms(1,2) free] that
      by (auto simp: lock_try_write_def split: if_splits)
  qed
  show "lk_sim s (op_holds LTryRead e t (settle t (e, l, w) s))" if "lock_try_read t (lk s) = (e, l, w)"
  proof (cases "l_thread (lk s) = Some t")
    case True
    then show ?thesis using settle_read [OF assms(1)] rec_holds [OF assms(1) True] assms(2) that by (auto simp: lock_try_read_def)
  next
    case False
    show ?thesis
    proof (cases "want_write (lk s) \<or> want_upgrade (lk s)")
      case True
      then show ?thesis using nothing_sim [OF assms(1,2)] that False by (auto simp: lock_try_read_def)
    next
      case n: False
      then have "writer s = None" "upgrader s = None" using f(3,4) by simp_all
      then show ?thesis using settle_read [OF assms(1)] assms(2) that False n by (auto simp: lock_try_read_def)
    qed
  qed
qed

lemma op_sim:
  assumes "lk_inv s" "pc s t = Running" "allowed s t c" "run_op c lwt t (lk s) = (e, l, w)"
  shows "lk_sim s (op_holds c e t (settle t (e, l, w) s))"
proof (cases c)
  case LSetRec
  have "t \<in># wr s" "writer s = Some t" using assms(3) LSetRec by simp_all
  moreover have "want_write (lk s)" using calculation(2) lk_invD(3) [OF assms(1)] by simp
  ultimately show ?thesis using assms(4) LSetRec by (auto simp: lock_set_recursive_def intro!: flag_sim [OF assms(1,2)])
next
  case LClearRec
  have t: "t \<in># wr s" "l_thread (lk s) = Some t" using assms(3) LClearRec rec_holds [OF assms(1)] by simp_all
  have "size (wr s) \<le> 1" if "recursion_depth (lk s) = 0" using lk_invD(2) [OF assms(1)] that by simp
  moreover have "e = Returned True" "l = (if recursion_depth (lk s) = 0 then (lk s)\<lparr>l_thread := None\<rparr> else lk s)" "\<not> w"
    using assms(4) LClearRec t(2) by (simp_all add: lock_clear_recursive_def)
  ultimately show ?thesis
    using LClearRec by (cases "recursion_depth (lk s) = 0") (auto intro!: flag_sim [OF assms(1,2)])
next
  case (LSleepable b)
  then show ?thesis using assms(4) by (auto simp: lock_sleepable_def intro!: flag_sim [OF assms(1,2)])
qed (use assms write_op_sim [OF assms(1,2)] done_sim [OF assms(1)] downgrade_op_sim [OF assms(1)] upgrade_op_sim [OF assms(1,2)]
      try_upgrade_op_sim [OF assms(1,2)] in \<open>simp_all\<close>)

lemma step_sim:
  assumes "lk_step lwt s s'" "lk_inv s"
  shows "lk_sim s s'"
  using assms
proof (induction rule: lk_step.induct)
  case (lk_call s t c r)
  then show ?case using op_sim [of s t c lwt] by (cases r) simp
next
  case (lk_spun s t p r)
  then show ?case using after_spin_sim [of s t p lwt] by (cases r) simp
next
  case (lk_woken s t p r)
  then show ?case using loop_top_sim [of s t p lwt] by (cases r) simp
next
  case (lk_stuck s t p r)
  then show ?case using loop_top_sim [of s t p lwt] by (cases r) simp
qed

end
