(* ===== verification/Lock_Claims.thy ===== *)
theory Lock_Claims
  imports Lock_Steps
begin

text \<open>
  The properties of the locks: a simulation of the specification carries its invariant to every
  reachable state of any number of threads.
\<close>

section \<open>Simulations\<close>

text \<open>
  A system with an invariant under which each step is a number of moves of a specification.
\<close>

locale simulation =
  fixes start :: "'s \<Rightarrow> bool" and move :: "'s \<Rightarrow> 's \<Rightarrow> bool" and good :: "'s \<Rightarrow> bool"
    and view :: "'s \<Rightarrow> 'a" and spec_move :: "'a \<Rightarrow> 'a \<Rightarrow> bool" and spec_start :: 'a
  assumes start_good: "start s \<Longrightarrow> good s" and start_view: "start s \<Longrightarrow> view s = spec_start"
    and move_good: "good s \<Longrightarrow> move s s' \<Longrightarrow> good s'"
    and move_view: "good s \<Longrightarrow> move s s' \<Longrightarrow> spec_move\<^sup>*\<^sup>* (view s) (view s')"
begin

lemma reached_good: "move\<^sup>*\<^sup>* s s' \<Longrightarrow> start s \<Longrightarrow> good s'"
  by (induction rule: rtranclp_induct) (auto intro: start_good move_good)

lemma reached_view: "move\<^sup>*\<^sup>* s s' \<Longrightarrow> start s \<Longrightarrow> spec_move\<^sup>*\<^sup>* spec_start (view s')"
proof (induction rule: rtranclp_induct)
  case (step y z)
  have "spec_move\<^sup>*\<^sup>* (view y) (view z)" by (rule move_view [OF reached_good step.hyps(2)]) (use step in auto)
  then show ?case using step.IH [OF step.prems] by (meson rtranclp_trans)
qed (simp add: start_view)

end

definition rw_start :: rwspec where
  "rw_start = \<lparr>a_at = (\<lambda>_. None), a_rd = {#}, a_wr = {#}, a_writer = None, a_upgrader = None, a_rec = None\<rparr>"

lemma lk_start_good: "lk_inv (lk_start slp)" "rw_view (lk_start slp) = rw_start"
proof -
  show v: "rw_view (lk_start slp) = rw_start" by (simp add: rw_view_def lk_start_def rw_start_def lock_init_def)
  have "rw_ok rw_start" by (simp add: rw_ok_def rw_places_def rw_claims_def rw_excl_def rw_rec_def claim_ok_def rw_start_def)
  then have "rw_ok (rw_view (lk_start slp))" unfolding v .
  then show "lk_inv (lk_start slp)" by (simp add: lk_inv_def lk_fields_def lk_sleepers_def) (simp add: lk_start_def lock_init_def)
qed

interpretation lks: simulation "\<lambda>s. \<exists>slp. s = lk_start slp" "lk_step lwt" lk_inv rw_view rw_step rw_start for lwt
proof
  show "lk_inv s" if "\<exists>slp. s = lk_start slp" for s using that lk_start_good(1) by blast
  show "rw_view s = rw_start" if "\<exists>slp. s = lk_start slp" for s using that lk_start_good(2) by blast
  show "lk_inv s'" if "lk_inv s" "lk_step lwt s s'" for s s' using lk_sim_inv [OF that(1) step_sim [OF that(2,1)]] .
  show "rw_step\<^sup>*\<^sup>* (rw_view s) (rw_view s')" if "lk_inv s" "lk_step lwt s s'" for s s'
    using step_sim [OF that(2,1)] by (simp add: lk_sim_def)
qed

lemma reach_moves: "lk_reach lwt s \<Longrightarrow> \<exists>slp. (lk_step lwt)\<^sup>*\<^sup>* (lk_start slp) s"
  by (induction rule: lk_reach.induct) (auto intro: rtranclp.rtrancl_into_rtrancl)

lemma reach_inv: "lk_reach lwt s \<Longrightarrow> lk_inv s"
  using reach_moves lks.reached_good by blast

section \<open>No processor keeps the interlock\<close>

lemma no_loop:
  assumes "0 < lwt"
  shows "fst (run_op c lwt t l) \<noteq> Loop p" "fst (loop_top q lwt l) \<noteq> Loop p" "fst (after_spin q lwt l) \<noteq> Loop p"
proof -
  have w: "fst (wait_round lwt q l) \<noteq> Loop p" for q l using assms by (simp add: wait_round_def)
  have a: "fst (write_readers lwt l) \<noteq> Loop p" "fst (read_wait lwt l) \<noteq> Loop p" "fst (upgrade_wait lwt l) \<noteq> Loop p" "fst (try_upgrade_wait l) \<noteq> Loop p" for l
    using w by (simp_all add: write_readers_def read_wait_def upgrade_wait_def try_upgrade_wait_def)
  have b: "fst (write_want lwt l) \<noteq> Loop p" for l using w a by (simp add: write_want_def)
  have k: "fst (wake_and_return r l) \<noteq> Loop p" for r l by (simp add: wake_and_return_def)
  show "fst (loop_top q lwt l) \<noteq> Loop p" using a b by (cases q) simp_all
  then show "fst (after_spin q lwt l) \<noteq> Loop p" by (simp add: after_spin_def)
  show "fst (run_op c lwt t l) \<noteq> Loop p"
    using a b k by (cases c) (simp_all add: lock_write_def lock_done_def lock_read_def lock_read_to_write_def lock_write_to_read_def
      lock_try_write_def lock_try_read_def lock_try_read_to_write_def lock_set_recursive_def lock_clear_recursive_def lock_sleepable_def Let_def)
qed

definition never_stuck :: "lsys \<Rightarrow> bool" where
  "never_stuck s \<longleftrightarrow> interlock s = None \<and> (\<forall>u q. pc s u \<noteq> Stuck q)"

lemma holds_keep [simp]:
  "pc (op_holds c e t s) = pc s" "interlock (op_holds c e t s) = interlock s"
  "pc (loop_holds p e t s) = pc s" "interlock (loop_holds p e t s) = interlock s"
proof -
  have i: "interlock (give_rd t s) = interlock s" "interlock (give_wr t s) = interlock s" "interlock (take_rd t s) = interlock s"
    "interlock (take_wr t s) = interlock s" for t s
    by (simp_all add: give_rd_def give_wr_def take_rd_def take_wr_def)
  show "pc (op_holds c e t s) = pc s" "interlock (op_holds c e t s) = interlock s" by (cases c; cases e; simp add: i)+
  show "pc (loop_holds p e t s) = pc s" "interlock (loop_holds p e t s) = interlock s" by (cases p; cases e; simp add: i)+
qed

lemma never_stuck_settle:
  assumes "never_stuck s" "\<And>p. e \<noteq> Loop p"
  shows "never_stuck (settle t (e, l, w) s)"
proof -
  have "wake x \<noteq> Stuck q" if "x \<noteq> Stuck q" for x q using that by (cases x) simp_all
  moreover have "pc_after e \<noteq> Stuck q" for q using assms(2) [of q] by (cases e) simp_all
  moreover have "interlock (settle t (e, l, w) s) = None" using assms(2) by (cases e) (auto simp: settle_def)
  ultimately show ?thesis using assms(1) by (simp add: never_stuck_def)
qed

lemma reach_never_stuck:
  assumes "lk_reach lwt s" "0 < lwt"
  shows "never_stuck s"
  using assms(1)
proof (induction rule: lk_reach.induct)
  case (lk_first slp)
  then show ?case by (simp add: never_stuck_def lk_start_def)
next
  case (lk_next s s')
  have go: "never_stuck (op_holds c (fst r) t (settle t r s))" "never_stuck (loop_holds p (fst r) t (settle t r s))"
    if "\<And>q. fst r \<noteq> Loop q" for c p r t
    using never_stuck_settle [OF lk_next.IH, of "fst r" t "fst (snd r)" "snd (snd r)"] that by (simp_all add: never_stuck_def)
  from lk_next.hyps(2) show ?case
  proof (cases rule: lk_step.cases)
    case (lk_call t c r)
    then show ?thesis using go(1) [of r c t] no_loop(1) [OF assms(2)] by blast
  next
    case (lk_spun t p r)
    then show ?thesis using go(2) [of r p t] no_loop(3) [OF assms(2)] by blast
  next
    case (lk_woken t p r)
    then show ?thesis using go(2) [of r p t] no_loop(2) [OF assms(2)] by blast
  next
    case (lk_stuck t p r)
    then show ?thesis using go(2) [of r p t] no_loop(2) [OF assms(2)] by blast
  qed
qed

section \<open>What the clients see\<close>

text \<open>C2: Exclusion.  However the calls of any number of threads interleave on a lock, with the
  clients of it keeping to their discipline, a thread that has the lock for writing is the only
  one that has it in either mode, the fields \<open>read_count\<close> and \<open>recursion_depth\<close> count its holds,
  and no call has panicked.\<close>

theorem lock_excludes:
  assumes "lk_reach lwt s" "t \<in># wr s"
  shows "set_mset (wr s) \<union> set_mset (rd s) = {t} \<and> read_count (lk s) = int (size (rd s))
    \<and> recursion_depth (lk s) + 1 = int (size (wr s)) \<and> \<not> panicked s"
proof -
  have i: "lk_inv s" by (rule reach_inv [OF assms(1)])
  have "0 < size (wr s)" using assms(2) by (cases "wr s") auto
  then show ?thesis using sole_holder(1,2) [OF i assms(2)] assms(2) lk_invD(1,2,6) [OF i] by auto
qed

text \<open>A first writer, in a lock that may sleep.\<close>

definition wrote :: lsys where
  "wrote = op_holds LWrite (Returned True) 3 (settle 3 (lock_write 1 3 (lock_init True)) (lk_start True))"

lemma wrote_reach: "lk_reach 1 wrote"
proof -
  have "lk_step 1 (lk_start True) (op_holds LWrite (fst (lock_write 1 3 (lock_init True))) 3 (settle 3 (lock_write 1 3 (lock_init True)) (lk_start True)))"
    by (rule lk_call) (simp_all add: lk_start_def lock_init_def)
  moreover have "fst (lock_write 1 3 (lock_init True)) = Returned True" by code_simp
  ultimately show ?thesis unfolding wrote_def using lk_next [OF lk_first] by auto
qed

lemma wrote_wr: "wr wrote = {#3#}"
  by (simp add: wrote_def give_wr_def settle_def lk_start_def split_beta)

theorem lock_excludes_witness: "set_mset (wr wrote) \<union> set_mset (rd wrote) = {3}"
  using lock_excludes [OF wrote_reach, of 3] wrote_wr by simp

text \<open>C9: Refinement.  Every interleaving of the critical sections of the locks is a run of the
  specification with claims: a section is some moves of it, where a read hold is given only
  while nobody claims the lock, a claim to write or to upgrade is made only while there is none,
  and a claim wins only when nobody is left.\<close>

theorem lock_refines_spec:
  assumes "lk_reach lwt s" "lk_step lwt s s'"
  shows "rw_step\<^sup>*\<^sup>* rw_start (rw_view s) \<and> rw_step\<^sup>*\<^sup>* (rw_view s) (rw_view s')"
proof -
  have "rw_step\<^sup>*\<^sup>* rw_start (rw_view s)" using reach_moves [OF assms(1)] lks.reached_view by blast
  moreover have "rw_step\<^sup>*\<^sup>* (rw_view s) (rw_view s')" using lks.move_view [OF reach_inv [OF assms(1)] assms(2)] .
  ultimately show ?thesis ..
qed

lemma holders_run: "lk_inv s \<Longrightarrow> u \<in># rd s \<or> u \<in># wr s \<Longrightarrow> pc s u = Running"
  using waiting_holds_nothing(1,2) [of s u] by (cases "pc s u") auto

lemma reader_runs:
  assumes "lk_inv s" "read_count (lk s) \<noteq> 0"
  shows "\<exists>u. u \<in># rd s \<and> pc s u = Running"
proof -
  have "rd s \<noteq> {#}" using lk_invD(1) [OF assms(1)] assms(2) by auto
  then show ?thesis using holders_run [OF assms(1)] by (metis multiset_nonemptyE)
qed

definition goes_on :: "lsys \<Rightarrow> nat \<Rightarrow> bool" where
  "goes_on s u \<longleftrightarrow> (u \<in># rd s \<or> u \<in># wr s) \<and> pc s u = Running \<or> (\<exists>q. pc s u = Spinning q \<or> pc s u = Woken q)"

lemma place_goes_on:
  assumes "never_stuck s" "pc_place (pc s u) = Some q"
  shows "goes_on s u \<or> pc s u = Sleeping q"
  using assms by (cases "pc s u") (auto simp: goes_on_def never_stuck_def)

lemma sleeperD: "lk_inv s \<Longrightarrow> pc s u = Sleeping q \<Longrightarrow> waiting (lk s) \<and> blocked_at q (lk s)"
  using lk_invD(5) unfolding lk_sleepers_def by blast

lemma upgrader_goes_on:
  assumes "lk_inv s" "never_stuck s" "want_upgrade (lk s)"
  shows "\<exists>u. goes_on s u"
proof -
  obtain v where v: "upgrader s = Some v" using lk_invD(4) [OF assms(1)] assms(3) by auto
  then consider "v \<in># wr s" | q where "pc_place (pc s v) = Some q" "q = InUpgrade \<or> q = InTryUpgrade"
    using rw_okD(2) [OF lk_invD(7) [OF assms(1)], of v] by (auto simp: claim_ok_def)
  then show ?thesis
  proof cases
    case 1
    then show ?thesis using holders_run [OF assms(1)] by (auto simp: goes_on_def)
  next
    case (2 q)
    from place_goes_on [OF assms(2) 2(1)] show ?thesis
    proof
      assume "pc s v = Sleeping q"
      then have "read_count (lk s) \<noteq> 0" using sleeperD [OF assms(1)] 2(2) by fastforce
      then show ?thesis using reader_runs [OF assms(1)] by (auto simp: goes_on_def)
    qed blast
  qed
qed

lemma blocked_goes_on:
  assumes "lk_inv s" "never_stuck s" "blocked_at p (lk s)"
  shows "\<exists>u. goes_on s u"
proof -
  have r: "\<exists>u. goes_on s u" if "read_count (lk s) \<noteq> 0"
    using reader_runs [OF assms(1) that] by (auto simp: goes_on_def)
  have u: "\<exists>u. goes_on s u" if "want_upgrade (lk s)" by (rule upgrader_goes_on [OF assms(1,2) that])
  have "\<exists>u. goes_on s u" if ww: "want_write (lk s)"
  proof -
    obtain v where v: "writer s = Some v" using lk_invD(3) [OF assms(1)] ww by auto
    then consider "v \<in># wr s" | "pc_place (pc s v) = Some InWrite2"
      using rw_okD(2) [OF lk_invD(7) [OF assms(1)], of v] by (auto simp: claim_ok_def)
    then show ?thesis
    proof cases
      case 1
      then show ?thesis using holders_run [OF assms(1)] by (auto simp: goes_on_def)
    next
      case 2
      from place_goes_on [OF assms(2) 2] show ?thesis
      proof
        assume "pc s v = Sleeping InWrite2"
        then show ?thesis using sleeperD [OF assms(1)] r u by fastforce
      qed blast
    qed
  qed
  then show ?thesis using assms(3) r u by (cases p) auto
qed

lemma done_wakes: "waiting (lk s) \<Longrightarrow> pc s t = Sleeping p \<Longrightarrow> v \<noteq> t \<Longrightarrow> pc (settle v (lock_done (lk s)) s) t = Woken p"
  by (simp add: lock_done_def wake_and_return_def settle_def)

text \<open>C10: No wakeup is lost and no deadlock is reached.  When a thread sleeps in one of the loops,
  the condition it waits for still holds, the next \<open>lock_done\<close> of any other thread wakes it, and
  there is another thread that will go on: one that holds the lock and runs, one that spins, or
  one that has been woken.  Here the waiting time is not zero.\<close>

theorem lock_sleeper_has_reason:
  assumes "lk_reach lwt s" "0 < lwt" "pc s t = Sleeping p"
  shows "blocked_at p (lk s) \<and> (\<forall>v. v \<noteq> t \<longrightarrow> pc (settle v (lock_done (lk s)) s) t = Woken p)
    \<and> (\<exists>u. u \<noteq> t \<and> ((u \<in># rd s \<or> u \<in># wr s) \<and> pc s u = Running \<or> (\<exists>q. pc s u = Spinning q \<or> pc s u = Woken q)))"
proof -
  have i: "lk_inv s" by (rule reach_inv [OF assms(1)])
  note b = sleeperD [OF i assms(3)]
  obtain u where u: "goes_on s u" using blocked_goes_on [OF i reach_never_stuck [OF assms(1,2)]] b by blast
  then have "u \<noteq> t" using assms(3) by (auto simp: goes_on_def)
  then show ?thesis using b u done_wakes [OF _ assms(3)] unfolding goes_on_def by blast
qed

text \<open>A second writer spins and goes to sleep.\<close>

definition wrote_waits :: lsys where
  "wrote_waits = (let s1 = op_holds LWrite (fst (lock_write 1 5 (lk wrote))) 5 (settle 5 (lock_write 1 5 (lk wrote)) wrote) in
     loop_holds InWrite1 (fst (after_spin InWrite1 1 (lk s1))) 5 (settle 5 (after_spin InWrite1 1 (lk s1)) s1))"

lemma wrote_lk: "lk wrote = (lock_init True)\<lparr>want_write := True\<rparr>" "pc wrote = (\<lambda>_. Running)(3 := Running)"
  "interlock wrote = None" "panicked wrote = False" "rd wrote = {#}"
  by (simp_all add: wrote_def give_wr_def settle_def lk_start_def lock_write_def write_want_def write_readers_def lock_init_def fun_eq_iff)

lemma wrote_waits_pc: "pc wrote_waits 5 = Sleeping InWrite1"
  by (simp add: wrote_waits_def Let_def settle_def split_beta wrote_lk lock_write_def write_want_def wait_round_def after_spin_def lock_init_def)

lemma wrote_waits_reach: "lk_reach 1 wrote_waits"
proof -
  define s1 where "s1 = op_holds LWrite (fst (lock_write 1 5 (lk wrote))) 5 (settle 5 (lock_write 1 5 (lk wrote)) wrote)"
  have l: "lock_write 1 5 (lk wrote) = (Spin InWrite1, lk wrote, False)"
    by (simp add: wrote_lk lock_init_def lock_write_def write_want_def wait_round_def)
  have a: "lk_step 1 wrote s1" unfolding s1_def by (rule lk_call) (simp_all add: wrote_lk lock_init_def wrote_wr)
  have "s1 = settle 5 (Spin InWrite1, lk wrote, False) wrote" unfolding s1_def l by simp
  then have "pc s1 5 = Spinning InWrite1" "interlock s1 = None" "\<not> panicked s1" by (simp_all add: settle_def)
  then have "lk_step 1 s1 wrote_waits" unfolding wrote_waits_def Let_def s1_def [symmetric] by (intro lk_spun) simp_all
  then show ?thesis using lk_next [OF lk_next [OF wrote_reach a]] by blast
qed

theorem lock_sleeper_has_reason_witness: "pc (settle 3 (lock_done (lk wrote_waits)) wrote_waits) 5 = Woken InWrite1 \<and> blocked_at InWrite1 (lk wrote_waits)"
  using lock_sleeper_has_reason [OF wrote_waits_reach _ wrote_waits_pc] by simp

theorem lock_refines_spec_witness: "rw_step\<^sup>*\<^sup>* rw_start (rw_view wrote)"
proof -
  have "lk_step 1 wrote (op_holds LDone (fst (lock_done (lk wrote))) 3 (settle 3 (lock_done (lk wrote)) wrote))"
    by (rule lk_call) (simp_all add: wrote_lk lock_init_def wrote_wr)
  then show ?thesis using lock_refines_spec [OF wrote_reach] by blast
qed

section \<open>Locks got by an upgrade\<close>

text \<open>C31: While no other thread has announced a write and nobody reads, a lock that a thread has for
  writing by an upgrade looks free to \<open>lock_islocked\<close>, which tests \<open>want_write\<close> and \<open>read_count\<close> and not
  \<open>want_upgrade\<close>, and \<open>lock_set_recursive\<close> panics when its holder calls it, since it takes
  \<open>want_write\<close> for the write lock; yet nobody else gets it.\<close>

theorem upgraded_lock_looks_free:
  assumes "lk_reach lwt s" "t \<in># wr s" "upgrader s = Some t" "writer s = None" "rd s = {#}" "u \<noteq> t"
  shows "\<not> lock_islocked False (lk s) \<and> fst (lock_set_recursive t (lk s)) = Panic
    \<and> fst (lock_try_write u (lk s)) = Returned False \<and> fst (lock_try_read u (lk s)) = Returned False"
proof -
  note f = lk_invD [OF reach_inv [OF assms(1)]]
  have "l_thread (lk s) \<noteq> Some u" using rec_holds(2) [OF reach_inv [OF assms(1)]] assms(4) by fastforce
  then show ?thesis using f(1,3,4) assms(3-5)
    by (simp add: lock_islocked_def lock_set_recursive_def lock_try_write_def lock_try_read_def)
qed

definition upgraded :: lsys where
  "upgraded = (let s1 = op_holds LRead (fst (lock_read 1 3 (lock_init True))) 3 (settle 3 (lock_read 1 3 (lock_init True)) (lk_start True)) in
     op_holds LUpgrade (fst (lock_read_to_write 1 3 (lk s1))) 3 (settle 3 (lock_read_to_write 1 3 (lk s1)) s1))"

lemmas upgraded_run = settle_def lk_start_def give_rd_def give_wr_def take_rd_def lock_init_def lock_read_def read_wait_def lock_read_to_write_def
  upgrade_wait_def Let_def

lemma upgraded_state: "wr upgraded = {#3#}" "rd upgraded = {#}" "upgrader upgraded = Some 3" "writer upgraded = None"
  by (simp_all add: upgraded_def upgraded_run)

lemma upgraded_reach: "lk_reach 1 upgraded"
proof -
  define s1 where "s1 = op_holds LRead (fst (lock_read 1 3 (lock_init True))) 3 (settle 3 (lock_read 1 3 (lock_init True)) (lk_start True))"
  have a: "lk_step 1 (lk_start True) s1" unfolding s1_def by (rule lk_call) (simp_all add: lk_start_def)
  have s: "pc s1 3 = Running" "interlock s1 = None" "\<not> panicked s1" "rd s1 = {#3#}" "wr s1 = {#}"
    by (simp_all add: s1_def upgraded_run)
  have "lk_step 1 s1 upgraded" unfolding upgraded_def Let_def s1_def [symmetric] by (rule lk_call [OF s(3,2,1)]) (simp_all add: s)
  then show ?thesis using lk_next [OF lk_next [OF lk_first a]] by blast
qed

theorem upgraded_lock_looks_free_witness: "\<not> lock_islocked False (lk upgraded) \<and> fst (lock_set_recursive 3 (lk upgraded)) = Panic"
  using upgraded_lock_looks_free [OF upgraded_reach, of 3 4] by (simp add: upgraded_state)

end
