(* ===== verification/Svipc_Shm.thy ===== *)
theory Svipc_Shm
  imports Svipc_Ipc
begin

text \<open>
  System V shared memory: the system calls of \<open>bsd/svipc_shm.c\<close> and the life of the memory
  objects behind the segments, \<open>vm/u_mape_shm.c\<close>.

  A segment has an entry in the table \<open>shmem\<close>, a memory object with a count of references, and a
  map entry in every address space for each time it is attached there.  An address space is the
  list of its map entries; what the map code decides (the address of a new entry, a failure) and
  the allocation of memory are arguments.  A call of \<open>shmat\<close> may sleep while it enters the object
  in the map, and is two functions.  \<open>shm_panic\<close> is set by a panic and by a use of an object that
  is no longer there.  Counters are integers that do not overflow; pages are left out.
\<close>

section \<open>Data\<close>

record shmid_ds =
  shm_perm :: ipc_perm
  shm_segsz :: int
  shm_lpid :: int
  shm_cpid :: int
  shm_nattch :: int
  shm_atime :: int
  shm_dtime :: int
  shm_ctime :: int

record shmid_internal =
  shm_ds :: shmid_ds
  shm_object :: "nat option"

record shminfo =
  shmmax :: int
  shmmin :: int
  shmmni :: int
  shmseg :: int

record vm_shm_attach =
  at_count :: int
  at_map :: nat
  at_pid :: int

text \<open>\<open>so_attach\<close>: the array of attachments, empty for a null pointer.\<close>

record vm_shm_object =
  so_refcnt :: int
  so_sp :: "nat option"
  so_attach :: "vm_shm_attach list"

datatype vm_object = OtherObject | ShmObject nat

record vm_map_entry =
  vme_start :: int
  vme_end :: int
  vme_object :: vm_object

text \<open>Address spaces and user areas are numbered together; \<open>tasks\<close> of them have been used.\<close>

record shm_state =
  shmem :: "shmid_internal list"
  shm_objects :: "nat \<Rightarrow> vm_shm_object option"
  vm_maps :: "nat \<Rightarrow> vm_map_entry list"
  tasks :: nat
  u_shmsegs :: "nat \<Rightarrow> int"
  shm_asu :: bool
  shm_panic :: bool

record shm_env =
  sh_cred :: ucred
  sh_pid :: int
  sh_time :: int
  sh_task :: nat

definition SHM_REMOVED :: "32 word" where "SHM_REMOVED = 0x400"
definition SHM_RDONLY :: "64 word" where "SHM_RDONLY = 0x1000"
definition SHM_RND :: "64 word" where "SHM_RND = 0x2000"
definition SHM_R :: "64 word" where "SHM_R = IPC_R"
definition SHM_W :: "64 word" where "SHM_W = IPC_W"
definition VM_MIN_ADDRESS :: int where "VM_MIN_ADDRESS = 0x10000"
definition PAGE_SIZE :: int where "PAGE_SIZE = 8192"
definition round_page :: "int \<Rightarrow> int" where "round_page x = (x + (PAGE_SIZE - 1)) div PAGE_SIZE * PAGE_SIZE"
definition trunc_page :: "int \<Rightarrow> int" where "trunc_page x = x div PAGE_SIZE * PAGE_SIZE"

definition shmid_upd :: "(shmid_internal \<Rightarrow> shmid_internal) \<Rightarrow> nat \<Rightarrow> shm_state \<Rightarrow> shm_state" where
  "shmid_upd f slot st = st\<lparr>shmem := (shmem st)[slot := f (shmem st ! slot)]\<rparr>"

definition ds_upd :: "(shmid_ds \<Rightarrow> shmid_ds) \<Rightarrow> nat \<Rightarrow> shm_state \<Rightarrow> shm_state" where
  "ds_upd f = shmid_upd (\<lambda>e. e\<lparr>shm_ds := f (shm_ds e)\<rparr>)"

definition obj_upd :: "(vm_shm_object \<Rightarrow> vm_shm_object) \<Rightarrow> nat \<Rightarrow> shm_state \<Rightarrow> shm_state" where
  "obj_upd f oid st = (case shm_objects st oid of
     None \<Rightarrow> st\<lparr>shm_panic := True\<rparr> | Some o1 \<Rightarrow> st\<lparr>shm_objects := (shm_objects st)(oid := Some (f o1))\<rparr>)"

definition shm_ip :: "shmid_internal \<Rightarrow> ipc_perm" where "shm_ip e = shm_perm (shm_ds e)"

definition shm_set_ip :: "ipc_perm \<Rightarrow> shmid_internal \<Rightarrow> shmid_internal" where
  "shm_set_ip p e = e\<lparr>shm_ds := (shm_ds e)\<lparr>shm_perm := p\<rparr>\<rparr>"

section \<open>Memory objects\<close>

definition shm_free_entry :: "shminfo \<Rightarrow> nat \<Rightarrow> shm_state \<Rightarrow> shm_state" where
  "shm_free_entry info slot = shmid_upd (\<lambda>e. e\<lparr>shm_object := None, shm_ds := (shm_ds e)
     \<lparr>shm_segsz := 0, shm_perm := (shm_ip e)\<lparr>ip_mode := 0, ip_seq :=
        (let seq = u16 (ip_seq (shm_ip e) + 1) in if s32 (seq * shmmni info + int slot) < 0 then 0 else seq)\<rparr>\<rparr>\<rparr>) slot"

text \<open>
  A reference is given back; the last one frees the object and the entry of its segment.
\<close>

definition u_shm_oop_deallocate :: "shminfo \<Rightarrow> nat \<Rightarrow> shm_state \<Rightarrow> shm_state" where
  "u_shm_oop_deallocate info oid st = (case shm_objects st oid of
     None \<Rightarrow> st\<lparr>shm_panic := True\<rparr>
   | Some o1 \<Rightarrow>
       if (case so_sp o1 of None \<Rightarrow> False | Some slot \<Rightarrow> so_refcnt o1 \<le> shm_nattch (shm_ds (shmem st ! slot))) then st
       else if so_refcnt o1 - 1 \<noteq> 0
       then st\<lparr>shm_objects := (shm_objects st)(oid := Some (o1\<lparr>so_refcnt := so_refcnt o1 - 1\<rparr>))\<rparr>
       else (case so_sp o1 of None \<Rightarrow> st | Some slot \<Rightarrow> shm_free_entry info slot st)\<lparr>shm_objects := (shm_objects st)(oid := None)\<rparr>)"

definition vm_object_reference :: "nat \<Rightarrow> shm_state \<Rightarrow> shm_state" where
  "vm_object_reference = obj_upd (\<lambda>o1. o1\<lparr>so_refcnt := so_refcnt o1 + 1\<rparr>)"

text \<open>
  \<open>oid\<close> is the new object; \<open>alloc\<close> and \<open>reserve\<close> say whether the object and its backing store can be
  had.  The result is whether it failed.
\<close>

definition u_shm_allocate :: "shminfo \<Rightarrow> nat \<Rightarrow> bool \<Rightarrow> bool \<Rightarrow> shm_state \<Rightarrow> bool \<times> shm_state" where
  "u_shm_allocate info oid alloc reserve st =
     (if \<not> alloc then (True, st)
      else
        let st = st\<lparr>shm_objects := (shm_objects st)(oid := Some \<lparr>so_refcnt = 1, so_sp = None, so_attach = []\<rparr>)\<rparr>
        in if \<not> reserve then (True, u_shm_oop_deallocate info oid st) else (False, st))"

section \<open>The attach array\<close>

fun at_add :: "nat \<Rightarrow> int \<Rightarrow> vm_shm_attach list \<Rightarrow> vm_shm_attach list" where
  "at_add m pid [] = [\<lparr>at_count = 1, at_map = m, at_pid = pid\<rparr>]"
| "at_add m pid (a # as) = (if m = at_map a then a\<lparr>at_count := at_count a + 1\<rparr> # as else a # at_add m pid as)"

fun at_del :: "nat \<Rightarrow> vm_shm_attach list \<Rightarrow> (int \<times> vm_shm_attach list) option" where
  "at_del m [] = None"
| "at_del m (a # as) =
     (if m = at_map a then Some (at_pid a, if at_count a - 1 \<noteq> 0 then a\<lparr>at_count := at_count a - 1\<rparr> # as else as)
      else map_option (\<lambda>(pid, bs). (pid, a # bs)) (at_del m as))"

definition u_shm_attach :: "int \<Rightarrow> nat \<Rightarrow> nat \<Rightarrow> shm_state \<Rightarrow> shm_state" where
  "u_shm_attach pid oid m = obj_upd (\<lambda>o1. o1\<lparr>so_attach := at_add m pid (so_attach o1)\<rparr>) oid"

text \<open>\<open>reaper\<close>: the reaper thread is running.\<close>

definition u_shm_dettach :: "shm_env \<Rightarrow> bool \<Rightarrow> nat \<Rightarrow> nat \<Rightarrow> shm_state \<Rightarrow> int \<times> shm_state" where
  "u_shm_dettach env reaper oid m st =
     (let st = (if reaper then st
                else st\<lparr>u_shmsegs := (u_shmsegs st)(sh_task env := u16 (u_shmsegs st (sh_task env) - 1))\<rparr>)
      in case shm_objects st oid of
           None \<Rightarrow> (0, st\<lparr>shm_panic := True\<rparr>)
         | Some o1 \<Rightarrow>
             (case at_del m (so_attach o1) of
                None \<Rightarrow> (0, st\<lparr>shm_panic := True\<rparr>)
              | Some (pid, as) \<Rightarrow> (pid, st\<lparr>shm_objects := (shm_objects st)(oid := Some (o1\<lparr>so_attach := as\<rparr>))\<rparr>)))"

section \<open>Map entries\<close>

definition u_shm_unmap ::
  "shm_env \<Rightarrow> bool \<Rightarrow> nat \<Rightarrow> vm_map_entry \<Rightarrow> nat \<Rightarrow> int \<Rightarrow> int \<Rightarrow> shm_state \<Rightarrow> errno option \<times> shm_state" where
  "u_shm_unmap env reaper m e oid addr len st =
     (if vme_start e \<noteq> addr \<or> vme_end e \<noteq> addr + len then (Some EINVAL, st)
      else case shm_objects st oid of
        None \<Rightarrow> (None, st\<lparr>shm_panic := True\<rparr>)
      | Some o1 \<Rightarrow>
          (case so_sp o1 of
             None \<Rightarrow> (None, st\<lparr>shm_panic := True\<rparr>)
           | Some slot \<Rightarrow>
               let st = ds_upd (\<lambda>d. d\<lparr>shm_nattch := shm_nattch d - 1, shm_dtime := sh_time env\<rparr>) slot st;
                   (pid, st) = u_shm_dettach env reaper oid m st
               in (None, ds_upd (\<lambda>d. d\<lparr>shm_lpid := pid\<rparr>) slot st)))"

text \<open>An entry leaves the map and gives its reference back.\<close>

definition vm_map_entry_delete :: "shminfo \<Rightarrow> nat \<Rightarrow> vm_map_entry \<Rightarrow> shm_state \<Rightarrow> shm_state" where
  "vm_map_entry_delete info m e st =
     (let st = st\<lparr>vm_maps := (vm_maps st)(m := remove1 e (vm_maps st m))\<rparr>
      in case vme_object e of OtherObject \<Rightarrow> st | ShmObject oid \<Rightarrow> u_shm_oop_deallocate info oid st)"

definition entry_delete ::
  "shm_env \<Rightarrow> shminfo \<Rightarrow> bool \<Rightarrow> nat \<Rightarrow> vm_map_entry \<Rightarrow> int \<Rightarrow> int \<Rightarrow> shm_state \<Rightarrow> errno option \<times> shm_state" where
  "entry_delete env info reaper m e addr len st =
     (case (case vme_object e of OtherObject \<Rightarrow> (None, st) | ShmObject oid \<Rightarrow> u_shm_unmap env reaper m e oid addr len st) of
        (Some err, st) \<Rightarrow> (Some err, st)
      | (None, st) \<Rightarrow> (None, vm_map_entry_delete info m e st))"

text \<open>A fork puts a copy of each entry in the map of the child \<open>c\<close> with process number \<open>pid\<close>.\<close>

definition u_shm_dup :: "int \<Rightarrow> nat \<Rightarrow> nat \<Rightarrow> shm_state \<Rightarrow> shm_state" where
  "u_shm_dup pid c oid st =
     (let st = vm_object_reference oid st
      in case shm_objects st oid of
           None \<Rightarrow> st\<lparr>shm_panic := True\<rparr>
         | Some o1 \<Rightarrow>
             (case so_sp o1 of
                None \<Rightarrow> st\<lparr>shm_panic := True\<rparr>
              | Some slot \<Rightarrow> u_shm_attach pid oid c (ds_upd (\<lambda>d. d\<lparr>shm_nattch := shm_nattch d + 1\<rparr>) slot st)))"

fun map_fork :: "int \<Rightarrow> nat \<Rightarrow> vm_map_entry list \<Rightarrow> shm_state \<Rightarrow> shm_state" where
  "map_fork pid c [] st = st"
| "map_fork pid c (e # es) st =
     (let st = st\<lparr>vm_maps := (vm_maps st)(c := vm_maps st c @ [e])\<rparr>
      in map_fork pid c es (case vme_object e of OtherObject \<Rightarrow> st | ShmObject oid \<Rightarrow> u_shm_dup pid c oid st))"

text \<open>\<open>segs\<close>: the count of segments in the user area of the child.\<close>

definition u_map_fork :: "int \<Rightarrow> int \<Rightarrow> nat \<Rightarrow> shm_state \<Rightarrow> shm_state" where
  "u_map_fork pid segs parent st =
     (let c = tasks st in map_fork pid c (vm_maps st parent) (st\<lparr>tasks := c + 1, u_shmsegs := (u_shmsegs st)(c := segs)\<rparr>))"

section \<open>System calls\<close>

definition shmconv :: "shminfo \<Rightarrow> shmid_internal list \<Rightarrow> int \<Rightarrow> nat option" where
  "shmconv info tbl s =
     (if s < 0 then None
      else
        let slot = nat (s mod shmmni info)
        in case aref tbl slot of
             None \<Rightarrow> None
           | Some sp \<Rightarrow>
               if \<not> ipc_allocated (shm_ip sp) \<or> s div shmmni info \<noteq> ip_seq (shm_ip sp) then None else Some slot)"

text \<open>
  \<open>shmat\<close> up to the call of \<open>u_map_enter\<close>, with what it passes: the object, the size, the address
  asked for or \<open>None\<close>, and whether the memory may be written.
\<close>

record shm_attaching =
  sa_slot :: nat
  sa_object :: nat
  sa_size :: int
  sa_addr :: "int option"
  sa_write :: bool
  sa_task :: nat

definition shmat :: "shm_env \<Rightarrow> shminfo \<Rightarrow> int \<Rightarrow> int \<Rightarrow> 64 word \<Rightarrow> shm_state \<Rightarrow> (errno + shm_attaching) \<times> shm_state" where
  "shmat env info shmid addr flag st =
     (case shmconv info (shmem st) shmid of
        None \<Rightarrow> (Inl EINVAL, st)
      | Some slot \<Rightarrow>
          let sp = shmem st ! slot in
          case shm_object sp of
            None \<Rightarrow> (Inl EINVAL, st)
          | Some oid \<Rightarrow>
              (case shm_objects st oid of
                 None \<Rightarrow> (Inl EINVAL, st\<lparr>shm_panic := True\<rparr>)
               | Some o1 \<Rightarrow>
                   if so_refcnt o1 \<le> shm_nattch (shm_ds sp) then (Inl EINVAL, st)
                   else if ipcaccess (sh_cred env) (shm_ip sp) SHM_R then (Inl EACCES, st)
                   else if flag AND SHM_RDONLY = 0 \<and> ipcaccess (sh_cred env) (shm_ip sp) SHM_W then (Inl EACCES, st)
                   else if u_shmsegs st (sh_task env) \<ge> shmseg info then (Inl EMFILE, st)
                   else
                     (Inr \<lparr>sa_slot = slot, sa_object = oid, sa_size = round_page (shm_segsz (shm_ds sp)),
                        sa_addr = (if addr = 0 then None else Some (if flag AND SHM_RND \<noteq> 0 then trunc_page addr else addr)),
                        sa_write = (flag AND SHM_RDONLY = 0), sa_task = sh_task env\<rparr>,
                      vm_object_reference oid st)))"

text \<open>
  \<open>u_map_enter\<close> gives back the reference it was passed when it fails; when the task wires all its
  future memory and that fails, it removes the entry it has made.
\<close>

datatype kern_return = KERN_NO_SPACE | KERN_MEMORY_FAILURE | KERN_MEMORY_ERROR | KERN_OTHER
datatype enter_result = Entered int | EnterFailed kern_return | WireFailed kern_return int

primrec shmat_error :: "kern_return \<Rightarrow> errno" where
  "shmat_error KERN_NO_SPACE = ENOMEM"
| "shmat_error KERN_MEMORY_FAILURE = ENOMEM"
| "shmat_error KERN_MEMORY_ERROR = ENOMEM"
| "shmat_error KERN_OTHER = EINVAL"

definition enter_entry :: "shm_attaching \<Rightarrow> int \<Rightarrow> vm_map_entry" where
  "enter_entry a addr = \<lparr>vme_start = addr, vme_end = addr + sa_size a, vme_object = ShmObject (sa_object a)\<rparr>"

definition map_link :: "nat \<Rightarrow> vm_map_entry \<Rightarrow> shm_state \<Rightarrow> shm_state" where
  "map_link m e st = st\<lparr>vm_maps := (vm_maps st)(m := e # vm_maps st m)\<rparr>"

text \<open>\<open>shmat\<close> after \<open>u_map_enter\<close>.\<close>

definition shmat_entered :: "shm_env \<Rightarrow> shminfo \<Rightarrow> shm_attaching \<Rightarrow> enter_result \<Rightarrow> shm_state \<Rightarrow> (errno + int) \<times> shm_state" where
  "shmat_entered env info a r st =
     (case r of
        EnterFailed k \<Rightarrow> (Inl (shmat_error k), u_shm_oop_deallocate info (sa_object a) st)
      | WireFailed k addr \<Rightarrow>
          let e = enter_entry a addr
          in (Inl (shmat_error k), snd (entry_delete env info False (sa_task a) e addr (sa_size a) (map_link (sa_task a) e st)))
      | Entered addr \<Rightarrow>
          let st = map_link (sa_task a) (enter_entry a addr) st;
              st = u_shm_attach (sh_pid env) (sa_object a) (sa_task a) st;
              st = st\<lparr>u_shmsegs := (u_shmsegs st)(sa_task a := u16 (u_shmsegs st (sa_task a) + 1))\<rparr>
          in (Inr addr, ds_upd (\<lambda>d. d\<lparr>shm_atime := sh_time env, shm_lpid := sh_pid env, shm_nattch := shm_nattch d + 1\<rparr>) (sa_slot a) st))"

definition shm_owner :: "ucred \<Rightarrow> ipc_perm \<Rightarrow> shm_state \<Rightarrow> errno option \<times> shm_state" where
  "shm_owner cr p st =
     (if cr_uid cr \<noteq> ip_uid p \<and> cr_uid cr \<noteq> ip_cuid p then
        let (e, asu) = suser cr (shm_asu st) in (e, st\<lparr>shm_asu := asu\<rparr>)
      else (None, st))"

text \<open>\<open>shmctl\<close>: the data for the caller is the second component.\<close>

type_synonym shm_res = "(errno + int) \<times> shmid_ds option \<times> shm_state"

definition shmctl_rmid :: "shm_env \<Rightarrow> shminfo \<Rightarrow> nat \<Rightarrow> shm_state \<Rightarrow> shm_res" where
  "shmctl_rmid env info slot st =
     (case shm_owner (sh_cred env) (shm_ip (shmem st ! slot)) st of
        (Some e, st) \<Rightarrow> (Inl e, None, st)
      | (None, st) \<Rightarrow>
          let st = (case shm_object (shmem st ! slot) of
                      None \<Rightarrow> st\<lparr>shm_panic := True\<rparr> | Some oid \<Rightarrow> u_shm_oop_deallocate info oid st)
          in (Inr 0, None, ds_upd (\<lambda>d. d\<lparr>shm_perm := (shm_perm d)
               \<lparr>ip_key := IPC_PRIVATE, ip_mode := ip_mode (shm_perm d) OR SHM_REMOVED\<rparr>\<rparr>) slot st))"

definition shmctl_set :: "shm_env \<Rightarrow> nat \<Rightarrow> shmid_ds option \<Rightarrow> shm_state \<Rightarrow> shm_res" where
  "shmctl_set env slot uds st =
     (case shm_owner (sh_cred env) (shm_ip (shmem st ! slot)) st of
        (Some e, st) \<Rightarrow> (Inl e, None, st)
      | (None, st) \<Rightarrow>
          (case uds of
             None \<Rightarrow> (Inl EFAULT, None, st)
           | Some ds \<Rightarrow>
               (Inr 0, None, ds_upd (\<lambda>d. d\<lparr>shm_perm := (shm_perm d)
                  \<lparr>ip_uid := ip_uid (shm_perm ds), ip_gid := ip_gid (shm_perm ds),
                   ip_mode := (ip_mode (shm_perm ds) AND 0x1FF) OR (ip_mode (shm_perm d) AND NOT 0x1FF)\<rparr>,
                   shm_ctime := sh_time env\<rparr>) slot st)))"

definition shmctl_stat :: "shm_env \<Rightarrow> nat \<Rightarrow> bool \<Rightarrow> shm_state \<Rightarrow> shm_res" where
  "shmctl_stat env slot copyout st =
     (let sp = shmem st ! slot in
      if ipcaccess (sh_cred env) (shm_ip sp) SHM_R then (Inl EACCES, None, st)
      else if \<not> copyout then (Inl EFAULT, None, st)
      else (Inr 0, Some (shm_ds sp), st))"

definition shmctl :: "shm_env \<Rightarrow> shminfo \<Rightarrow> shmid_ds option \<Rightarrow> bool \<Rightarrow> int \<Rightarrow> int \<Rightarrow> shm_state \<Rightarrow> shm_res" where
  "shmctl env info uds copyout shmid cmd st =
     (case shmconv info (shmem st) shmid of
        None \<Rightarrow> (Inl EINVAL, None, st)
      | Some slot \<Rightarrow>
          if cmd = 0 then shmctl_rmid env info slot st
          else if cmd = 1 then shmctl_set env slot uds st
          else if cmd = 2 then shmctl_stat env slot copyout st
          else (Inl EINVAL, None, st))"

text \<open>The entry of the table with the object.\<close>

fun find_object :: "vm_object \<Rightarrow> nat \<Rightarrow> shmid_internal list \<Rightarrow> nat option" where
  "find_object ob i [] = None"
| "find_object ob i (sp # sps) =
     (if (case shm_object sp of None \<Rightarrow> False | Some oid \<Rightarrow> ob = ShmObject oid) then Some i else find_object ob (Suc i) sps)"

text \<open>
  \<open>vm_deallocate\<close> of a range that begins with the entry \<open>e\<close>; an entry of a segment has the rounded
  size of the segment, so the range is that entry.
\<close>

definition shmdt :: "shm_env \<Rightarrow> shminfo \<Rightarrow> int \<Rightarrow> shm_state \<Rightarrow> (errno + int) \<times> shm_state" where
  "shmdt env info addr st =
     (if addr < VM_MIN_ADDRESS then (Inl EINVAL, st)
      else case find (\<lambda>e. vme_start e \<le> addr \<and> addr < vme_end e) (vm_maps st (sh_task env)) of
        None \<Rightarrow> (Inl EINVAL, st)
      | Some e \<Rightarrow>
          if vme_start e \<noteq> addr then (Inl EINVAL, st)
          else case find_object (vme_object e) 0 (shmem st) of
            None \<Rightarrow> (Inl EINVAL, st)
          | Some slot \<Rightarrow>
              let len = min (round_page (addr + shm_segsz (shm_ds (shmem st ! slot)))) (vme_end e) - addr
              in case entry_delete env info False (sh_task env) e addr len st of
                   (Some err, st) \<Rightarrow> (Inl EINVAL, st)
                 | (None, st) \<Rightarrow> (Inr 0, ds_upd (\<lambda>d. d\<lparr>shm_dtime := sh_time env, shm_lpid := sh_pid env\<rparr>) slot st))"

definition shmget ::
  "shm_env \<Rightarrow> shminfo \<Rightarrow> int \<Rightarrow> int \<Rightarrow> 64 word \<Rightarrow> nat \<Rightarrow> bool \<Rightarrow> bool \<Rightarrow> shm_state \<Rightarrow> (errno + int) \<times> shm_state" where
  "shmget env info key sz flag oid alloc reserve st =
     (case ipcget shm_ip shm_set_ip (sh_cred env) (s32 key) flag (shmem st) of
        Inl e \<Rightarrow> (Inl e, st)
      | Inr (s, slot, tbl) \<Rightarrow>
          let st = st\<lparr>shmem := tbl\<rparr>; ret = ip_seq (shm_ip (tbl ! slot)) * shmmni info + int slot in
          if s then
            if sz < u64 (shmmin info) \<or> sz > u64 (shmmax info)
            then (Inl EINVAL, ds_upd (\<lambda>d. d\<lparr>shm_perm := (shm_perm d)\<lparr>ip_mode := 0\<rparr>\<rparr>) slot st)
            else
              (case u_shm_allocate info oid alloc reserve st of
                 (True, st) \<Rightarrow> (Inl ENOMEM, shm_free_entry info slot st)
               | (False, st) \<Rightarrow>
                   let st = obj_upd (\<lambda>o1. o1\<lparr>so_sp := Some slot\<rparr>) oid st;
                       st = shmid_upd (\<lambda>e. e\<lparr>shm_object := Some oid\<rparr>) slot st
                   in (Inr ret, ds_upd (\<lambda>d. d\<lparr>shm_segsz := s32 sz, shm_ctime := sh_time env, shm_cpid := sh_pid env,
                        shm_atime := 0, shm_dtime := 0, shm_lpid := 0, shm_nattch := 0\<rparr>) slot st))
          else if sz \<noteq> 0 \<and> sz > u64 (shm_segsz (shm_ds (tbl ! slot))) then (Inl EINVAL, st)
          else (Inr ret, st))"

definition svr4_shmem_cnt :: "shm_state \<Rightarrow> int" where
  "svr4_shmem_cnt st = int (length (filter (\<lambda>sp. shm_object sp \<noteq> None) (shmem st)))"

text \<open>The table starts with zeros; one task runs.\<close>

definition shm_init :: "shminfo \<Rightarrow> shm_state" where
  "shm_init info = \<lparr>shmem = replicate (nat (shmmni info))
     \<lparr>shm_ds = \<lparr>shm_perm = \<lparr>ip_uid = 0, ip_gid = 0, ip_cuid = 0, ip_cgid = 0, ip_mode = 0, ip_seq = 0, ip_key = 0\<rparr>,
        shm_segsz = 0, shm_lpid = 0, shm_cpid = 0, shm_nattch = 0, shm_atime = 0, shm_dtime = 0, shm_ctime = 0\<rparr>,
      shm_object = None\<rparr>,
     shm_objects = (\<lambda>_. None), vm_maps = (\<lambda>_. []), tasks = 1, u_shmsegs = (\<lambda>_. 0), shm_asu = False, shm_panic = False\<rparr>"

end
