(* ===== verification/Svipc_Shm_Inv.thy ===== *)
theory Svipc_Shm_Inv
  imports Svipc_Shm
begin

text \<open>
  The invariant of the shared memory segments: the references of an object are its map entries,
  the calls of \<open>shmat\<close> under way and, until the segment is removed, the table.
\<close>

section \<open>The IPC contracts\<close>

definition shminfo_ok :: "shminfo \<Rightarrow> bool" where
  "shminfo_ok info \<longleftrightarrow> 0 < shmmni info \<and> shmmni info \<le> 32767 \<and> 0 \<le> shmmin info \<and> 0 \<le> shmmax info \<and> shmmax info < 2147483648"

interpretation shm_fac: ipc_facility shm_ip shm_set_ip
  by unfold_locales (simp add: shm_ip_def shm_set_ip_def)

interpretation shm_ids: ipc_ids shm_ip "shmmni info" "shmconv info" "\<lambda>_. True" for info
  by unfold_locales (auto simp: shmconv_def Let_def aref_def split: option.splits)

section \<open>Attach arrays\<close>

definition at_sum :: "nat \<Rightarrow> vm_shm_attach list \<Rightarrow> int" where
  "at_sum m as = sum_list (map (\<lambda>a. if at_map a = m then at_count a else 0) as)"

definition at_pos :: "vm_shm_attach list \<Rightarrow> bool" where
  "at_pos as \<longleftrightarrow> (\<forall>a\<in>set as. 0 < at_count a)"

lemma at_add_sum: "at_sum u (at_add m pid as) = at_sum u as + (if u = m then 1 else 0)"
  by (induction m pid as rule: at_add.induct) (auto simp: at_sum_def)

lemma at_add_pos: "at_pos as \<Longrightarrow> at_pos (at_add m pid as)"
  by (induction m pid as rule: at_add.induct) (auto simp: at_pos_def)

lemma at_del_sum: "at_del m as = Some (pid, bs) \<Longrightarrow> at_sum u bs = at_sum u as - (if u = m then 1 else 0)"
  by (induction m as arbitrary: bs rule: at_del.induct) (auto simp: at_sum_def split: if_splits)

lemma at_del_pos: "at_del m as = Some (pid, bs) \<Longrightarrow> at_pos as \<Longrightarrow> at_pos bs"
proof (induction m as arbitrary: bs rule: at_del.induct)
  case (2 m a as)
  then show ?case by (auto simp: at_pos_def split: if_splits)
qed simp

lemma at_del_Some: "at_sum m as \<noteq> 0 \<Longrightarrow> \<exists>pid bs. at_del m as = Some (pid, bs)"
  by (induction m as rule: at_del.induct) (auto simp: at_sum_def split: if_splits)

section \<open>The invariant\<close>

definition shm_removed :: "shmid_internal \<Rightarrow> bool" where
  "shm_removed e \<longleftrightarrow> ip_mode (shm_ip e) AND SHM_REMOVED \<noteq> 0"

definition task_ents :: "nat \<Rightarrow> shm_state \<Rightarrow> nat \<Rightarrow> vm_map_entry list" where
  "task_ents oid st m = filter (\<lambda>e. vme_object e = ShmObject oid) (vm_maps st m)"

lemma task_ents_same [simp]:
  "task_ents u (st\<lparr>shm_objects := a\<rparr>) = task_ents u st" "task_ents u (st\<lparr>shmem := b\<rparr>) = task_ents u st"
  "task_ents u (st\<lparr>u_shmsegs := c\<rparr>) = task_ents u st" "task_ents u (st\<lparr>tasks := n\<rparr>) = task_ents u st"
  by (simp_all add: task_ents_def fun_eq_iff)

definition pend_of :: "nat \<Rightarrow> shm_attaching list \<Rightarrow> shm_attaching list" where
  "pend_of oid ps = filter (\<lambda>a. sa_object a = oid) ps"

definition mapped :: "nat \<Rightarrow> (nat \<Rightarrow> vm_map_entry list) \<Rightarrow> int" where
  "mapped n ents = (\<Sum>m<n. int (length (ents m)))"

text \<open>One segment, whose object has \<open>k\<close> references to spare.\<close>

definition seg_ok ::
  "int \<Rightarrow> nat \<Rightarrow> nat \<Rightarrow> nat \<Rightarrow> (nat \<Rightarrow> vm_map_entry list) \<Rightarrow> shm_attaching list \<Rightarrow> shmid_internal \<Rightarrow> vm_shm_object \<Rightarrow> bool" where
  "seg_ok k oid slot n ents pend e o1 \<longleftrightarrow>
     shm_object e = Some oid \<and> ipc_allocated (shm_ip e) \<and> shm_nattch (shm_ds e) = mapped n ents
     \<and> so_refcnt o1 = mapped n ents + int (length pend) + (if shm_removed e then 0 else 1) + k \<and> 0 < so_refcnt o1
     \<and> at_pos (so_attach o1) \<and> (\<forall>m. at_sum m (so_attach o1) = int (length (ents m)))
     \<and> (\<forall>m. \<forall>x\<in>set (ents m). vme_end x = vme_start x + round_page (shm_segsz (shm_ds e)))
     \<and> (\<forall>a\<in>set pend. sa_slot a = slot \<and> sa_size a = round_page (shm_segsz (shm_ds e)) \<and> sa_task a < n)"

definition obj_ok :: "int \<Rightarrow> shm_state \<Rightarrow> shm_attaching list \<Rightarrow> nat \<Rightarrow> bool" where
  "obj_ok k st ps oid \<longleftrightarrow> (case shm_objects st oid of
     None \<Rightarrow> (\<forall>m. task_ents oid st m = []) \<and> pend_of oid ps = []
   | Some o1 \<Rightarrow> \<exists>slot. so_sp o1 = Some slot \<and> slot < length (shmem st)
       \<and> seg_ok k oid slot (tasks st) (task_ents oid st) (pend_of oid ps) (shmem st ! slot) o1)"

definition slot_ok :: "shm_state \<Rightarrow> nat \<Rightarrow> bool" where
  "slot_ok st slot \<longleftrightarrow> (case shm_object (shmem st ! slot) of
     None \<Rightarrow> \<not> ipc_allocated (shm_ip (shmem st ! slot))
   | Some oid \<Rightarrow> \<exists>o1. shm_objects st oid = Some o1 \<and> so_sp o1 = Some slot)
   \<and> 0 \<le> ip_seq (shm_ip (shmem st ! slot)) \<and> ip_seq (shm_ip (shmem st ! slot)) < 65536"

definition shm_base :: "shminfo \<Rightarrow> shm_state \<Rightarrow> bool" where
  "shm_base info st \<longleftrightarrow> \<not> shm_panic st \<and> length (shmem st) = nat (shmmni info) \<and> ipc_keys_unique shm_ip (shmem st)
     \<and> (\<forall>m\<ge>tasks st. vm_maps st m = [])"

text \<open>The invariant, except that the object \<open>oid\<close> has \<open>k\<close> references to spare.\<close>

definition shm_but :: "nat \<Rightarrow> int \<Rightarrow> shminfo \<Rightarrow> shm_state \<Rightarrow> shm_attaching list \<Rightarrow> bool" where
  "shm_but oid k info st ps \<longleftrightarrow> shm_base info st \<and> (\<forall>slot<length (shmem st). slot_ok st slot)
     \<and> (\<forall>x. obj_ok (if x = oid then k else 0) st ps x)"

definition shm_inv :: "shminfo \<Rightarrow> shm_state \<Rightarrow> shm_attaching list \<Rightarrow> bool" where
  "shm_inv info st ps \<longleftrightarrow> shm_base info st \<and> (\<forall>slot<length (shmem st). slot_ok st slot) \<and> (\<forall>x. obj_ok 0 st ps x)"

lemma shm_but_0: "shm_but oid 0 info st ps = shm_inv info st ps"
  by (simp add: shm_but_def shm_inv_def)

lemma shm_butD:
  assumes "shm_but oid k info st ps"
  shows "shm_base info st" "slot < length (shmem st) \<Longrightarrow> slot_ok st slot" "obj_ok k st ps oid" "x \<noteq> oid \<Longrightarrow> obj_ok 0 st ps x"
  using assms unfolding shm_but_def by (blast, blast, metis, metis)

text \<open>The segment of an object.\<close>

lemma seg_of:
  assumes "shm_but oid k info st ps" "shm_objects st oid = Some o1" "so_sp o1 = Some slot"
  shows "slot < length (shmem st)" "seg_ok k oid slot (tasks st) (task_ents oid st) (pend_of oid ps) (shmem st ! slot) o1"
  using shm_butD(3) [OF assms(1)] assms(2,3) by (auto simp: obj_ok_def)

text \<open>An operation on one segment leaves the others alone.\<close>

lemma seg_frame:
  assumes inv: "shm_but oid k info st ps"
    and o1: "shm_objects st oid = Some o1" "so_sp o1 = Some slot"
    and obj: "shm_objects st' = (shm_objects st)(oid := x)" and tbl: "shmem st' = (shmem st)[slot := e]"
    and ents: "\<And>u m. u \<noteq> oid \<Longrightarrow> task_ents u st' m = task_ents u st m" and n: "tasks st' = tasks st"
    and pend: "\<And>u. u \<noteq> oid \<Longrightarrow> pend_of u ps' = pend_of u ps"
    and base: "shm_base info st'" and slot: "slot_ok st' slot" and new: "obj_ok k' st' ps' oid"
  shows "shm_but oid k' info st' ps'"
  unfolding shm_but_def
proof (intro conjI allI impI)
  have so: "shm_object (shmem st ! slot) = Some oid" using seg_of [OF inv o1] by (simp add: seg_ok_def)
  show "shm_base info st'" by (rule base)
  fix j assume j: "j < length (shmem st')"
  show "slot_ok st' j"
  proof (cases "j = slot")
    case False
    have old: "slot_ok st j" using shm_butD(2) [OF inv] j tbl by simp
    have "shm_object (shmem st ! j) \<noteq> Some oid"
    proof
      assume "shm_object (shmem st ! j) = Some oid"
      then have "so_sp o1 = Some j" using old o1(1) by (auto simp: slot_ok_def)
      then show False using False o1(2) by simp
    qed
    then show ?thesis using old False by (auto simp: slot_ok_def tbl obj split: option.splits)
  qed (use slot in simp)
next
  fix u
  show "obj_ok (if u = oid then k' else 0) st' ps' u"
  proof (cases "u = oid")
    case False
    have old: "obj_ok 0 st ps u" using shm_butD(4) [OF inv False] .
    have e: "task_ents u st' = task_ents u st" using ents [OF False] by blast
    have so: "shm_object (shmem st ! slot) = Some oid" using seg_of [OF inv o1] by (simp add: seg_ok_def)
    show ?thesis
    proof (cases "shm_objects st u")
      case None
      then show ?thesis using old False e pend [OF False] by (simp add: obj_ok_def obj)
    next
      case (Some o2)
      then obtain j where j: "so_sp o2 = Some j" "j < length (shmem st)"
        "seg_ok 0 u j (tasks st) (task_ents u st) (pend_of u ps) (shmem st ! j) o2" using old by (auto simp: obj_ok_def)
      then have "j \<noteq> slot" using so False by (auto simp: seg_ok_def)
      then show ?thesis using Some j False e pend [OF False] by (simp add: obj_ok_def obj n tbl)
    qed
  qed (use new in simp)
qed

text \<open>The keys of the table.\<close>

lemma shm_keys_upd:
  assumes "ipc_keys_unique shm_ip tbl" "slot < length tbl"
    "\<And>key. key \<noteq> IPC_PRIVATE \<Longrightarrow> ipc_has_key shm_ip key e \<Longrightarrow> ipc_has_key shm_ip key (tbl ! slot)"
  shows "ipc_keys_unique shm_ip (tbl[slot := e])"
  unfolding ipc_keys_unique_def
  using assms(1) [unfolded ipc_keys_unique_def] assms(2,3)
  by (metis length_list_update nth_list_update_eq nth_list_update_neq)

section \<open>Giving a reference back\<close>

text \<open>The last reference: nothing is mapped and nothing is under way.\<close>

lemma seg_free:
  assumes inv: "shm_but oid k info st ps" and o1: "shm_objects st oid = Some o1" "so_sp o1 = Some slot"
    and none: "mapped (tasks st) (task_ents oid st) = 0" "pend_of oid ps = []"
    and e: "shm_object e = None" "\<not> ipc_allocated (shm_ip e)" "0 \<le> ip_seq (shm_ip e)" "ip_seq (shm_ip e) < 65536"
    and st': "shm_objects st' = (shm_objects st)(oid := None)" "shmem st' = (shmem st)[slot := e]"
      "vm_maps st' = vm_maps st" "tasks st' = tasks st" "shm_panic st' = shm_panic st"
  shows "shm_inv info st' ps"
proof -
  have b: "shm_base info st" by (rule shm_butD(1) [OF inv])
  note s = seg_of [OF inv o1]
  have ents: "task_ents u st' = task_ents u st" for u by (simp add: task_ents_def st' fun_eq_iff)
  have "task_ents oid st m = []" for m
  proof (cases "m < tasks st")
    case True
    have "\<forall>m<tasks st. int (length (task_ents oid st m)) = 0"
      using none(1) unfolding mapped_def by (subst (asm) sum_nonneg_eq_0_iff) auto
    then show ?thesis using True by simp
  next
    case False
    then show ?thesis using b by (simp add: shm_base_def task_ents_def)
  qed
  then have new: "obj_ok 0 st' ps oid" using none(2) by (simp add: obj_ok_def st' ents)
  have "ipc_keys_unique shm_ip (shmem st')" unfolding st'
    by (rule shm_keys_upd) (use b s e in \<open>auto simp: shm_base_def ipc_has_key_def\<close>)
  then have base: "shm_base info st'" using b by (simp add: shm_base_def st')
  have "slot_ok st' slot" using e s(1) by (simp add: slot_ok_def st')
  from seg_frame [OF inv o1 st'(1,2) _ st'(4) _ base this new] show ?thesis
    using ents by (simp add: shm_but_0 fun_eq_iff)
qed

lemma mapped_nonneg: "0 \<le> mapped n ents"
  by (simp add: mapped_def sum_nonneg)

lemma dealloc_inv:
  assumes inv: "shm_but oid 1 info st ps" and o1: "shm_objects st oid = Some o1" and info: "shminfo_ok info"
  shows "shm_inv info (u_shm_oop_deallocate info oid st) ps"
proof -
  obtain slot where sp: "so_sp o1 = Some slot" using shm_butD(3) [OF inv] o1 by (auto simp: obj_ok_def)
  note s = seg_of [OF inv o1 sp]
  let ?e = "shmem st ! slot"
  have r: "so_refcnt o1 = mapped (tasks st) (task_ents oid st) + int (length (pend_of oid ps)) + (if shm_removed ?e then 0 else 1) + 1"
    "shm_nattch (shm_ds ?e) = mapped (tasks st) (task_ents oid st)" using s(2) by (simp_all add: seg_ok_def)
  then have gt: "\<not> so_refcnt o1 \<le> shm_nattch (shm_ds ?e)" by simp
  show ?thesis
  proof (cases "so_refcnt o1 = 1")
    case True
    then have "mapped (tasks st) (task_ents oid st) + int (length (pend_of oid ps)) \<le> 0" using r(1) by (simp split: if_splits)
    then have "mapped (tasks st) (task_ents oid st) = 0" "int (length (pend_of oid ps)) = 0"
      using mapped_nonneg [of "tasks st" "task_ents oid st"] by linarith+
    then have z: "mapped (tasks st) (task_ents oid st) = 0" "pend_of oid ps = []" by simp_all
    have d: "u_shm_oop_deallocate info oid st = (shm_free_entry info slot st)\<lparr>shm_objects := (shm_objects st)(oid := None)\<rparr>"
      using o1 sp gt True by (simp add: u_shm_oop_deallocate_def)
    have "0 \<le> u16 x \<and> u16 x < 65536" for x by (simp add: u16_def)
    then show ?thesis unfolding d
      by (intro seg_free [OF inv o1 sp z]) (auto simp: shm_free_entry_def shmid_upd_def shm_ip_def ipc_allocated_def Let_def)
  next
    case False
    let ?o = "o1\<lparr>so_refcnt := so_refcnt o1 - 1\<rparr>"
    have d: "u_shm_oop_deallocate info oid st = st\<lparr>shm_objects := (shm_objects st)(oid := Some ?o)\<rparr>"
      using o1 sp gt False by (simp add: u_shm_oop_deallocate_def)
    have "seg_ok 0 oid slot (tasks st) (task_ents oid st) (pend_of oid ps) ?e ?o" using s(2) False by (simp add: seg_ok_def)
    then have "obj_ok 0 (st\<lparr>shm_objects := (shm_objects st)(oid := Some ?o)\<rparr>) ps oid"
      using sp s(1) by (simp add: obj_ok_def task_ents_def)
    moreover have "slot_ok (st\<lparr>shm_objects := (shm_objects st)(oid := Some ?o)\<rparr>) slot"
      using shm_butD(2) [OF inv s(1)] s(2) sp by (simp add: slot_ok_def seg_ok_def)
    ultimately show ?thesis unfolding d shm_but_0 [symmetric, of _ _ _ oid]
      using shm_butD(1) [OF inv]
      by (intro seg_frame [OF inv o1 sp, where x = "Some ?o" and e = ?e]) (simp_all add: task_ents_def shm_base_def)
  qed
qed

end
