(* ===== verification/Svipc_Shm_Ops.thy ===== *)
theory Svipc_Shm_Ops
  imports Svipc_Shm_Inv
begin

text \<open>Every operation on shared memory keeps the invariant.\<close>

section \<open>One entry more or less\<close>

lemma mapped_upd:
  assumes "m < n" "\<And>u. u \<noteq> m \<Longrightarrow> ents' u = ents u"
  shows "mapped n ents' = mapped n ents + int (length (ents' m)) - int (length (ents m))"
proof -
  have "(\<Sum>u\<in>{..<n} - {m}. int (length (ents' u))) = (\<Sum>u\<in>{..<n} - {m}. int (length (ents u)))"
    by (rule sum.cong) (use assms(2) in auto)
  then show ?thesis using assms(1) by (simp add: mapped_def sum.remove [of "{..<n}" m])
qed

lemma seg_more:
  assumes s: "seg_ok k oid slot n ents pend e o1" and m: "m < n" and other: "\<And>u. u \<noteq> m \<Longrightarrow> ents' u = ents u"
    and len: "length (ents' m) = Suc (length (ents m))" and sub: "set (ents' m) \<subseteq> insert x (set (ents m))"
    and x: "vme_end x = vme_start x + round_page (shm_segsz (shm_ds e))"
    and e': "shm_object e' = shm_object e" "shm_ip e' = shm_ip e" "shm_segsz (shm_ds e') = shm_segsz (shm_ds e)"
      "shm_nattch (shm_ds e') = shm_nattch (shm_ds e) + 1"
    and o': "so_attach o' = at_add m pid (so_attach o1)" "so_refcnt o' = so_refcnt o1 + d" "0 \<le> d"
    and p: "set pend' \<subseteq> set pend" and k: "k' = k + d - 1 + int (length pend) - int (length pend')"
  shows "seg_ok k' oid slot n ents' pend' e' o'"
proof -
  have "mapped n ents' = mapped n ents + 1" using mapped_upd [OF m, of ents' ents] other len by simp
  moreover have "at_sum u (so_attach o') = int (length (ents' u))" for u
    using s other [of u] len by (cases "u = m") (simp_all add: seg_ok_def o'(1) at_add_sum)
  moreover have "vme_end y = vme_start y + round_page (shm_segsz (shm_ds e))" if "y \<in> set (ents' u)" for u y
    using s other [of u] sub x that by (cases "u = m") (auto simp: seg_ok_def)
  ultimately show ?thesis using s e' o'(2,3) p k at_add_pos [of "so_attach o1" m pid]
    by (auto simp: seg_ok_def shm_removed_def o'(1))
qed

lemma seg_less:
  assumes s: "seg_ok k oid slot n ents pend e o1" and m: "m < n" and other: "\<And>u. u \<noteq> m \<Longrightarrow> ents' u = ents u"
    and len: "Suc (length (ents' m)) = length (ents m)" and sub: "set (ents' m) \<subseteq> set (ents m)"
    and e': "shm_object e' = shm_object e" "shm_ip e' = shm_ip e" "shm_segsz (shm_ds e') = shm_segsz (shm_ds e)"
      "shm_nattch (shm_ds e') = shm_nattch (shm_ds e) - 1"
    and o': "at_del m (so_attach o1) = Some (pid, as)"
  shows "seg_ok (k + 1) oid slot n ents' pend e' (o1\<lparr>so_attach := as\<rparr>)"
proof -
  have "mapped n ents' = mapped n ents - 1" using mapped_upd [OF m, of ents' ents] other len [symmetric] by simp
  moreover have "at_sum u as = int (length (ents' u))" for u
    using s other [of u] len [symmetric] by (cases "u = m") (simp_all add: seg_ok_def at_del_sum [OF o'])
  moreover have "vme_end y = vme_start y + round_page (shm_segsz (shm_ds e))" if "y \<in> set (ents' u)" for u y
    using s other [of u] sub that by (cases "u = m") (auto simp: seg_ok_def)
  ultimately show ?thesis using s e' at_del_pos [OF o'] by (auto simp: seg_ok_def shm_removed_def)
qed

lemma seg_pend:
  assumes "seg_ok k oid slot n ents pend e o1" "set pend' \<subseteq> set pend"
  shows "seg_ok (k + int (length pend) - int (length pend')) oid slot n ents pend' e o1"
  using assms by (auto simp: seg_ok_def)

text \<open>What an operation on a segment does to the state, apart from the maps.\<close>

lemma seg_step:
  assumes inv: "shm_but oid k info st ps" and o1: "shm_objects st oid = Some o1" "so_sp o1 = Some slot"
    and st': "shm_objects st' = (shm_objects st)(oid := Some o')" "shmem st' = (shmem st)[slot := e]" "tasks st' = tasks st"
      "shm_panic st' = shm_panic st"
    and maps: "\<And>u m. u \<noteq> oid \<Longrightarrow> task_ents u st' m = task_ents u st m" "\<And>m. tasks st \<le> m \<Longrightarrow> vm_maps st' m = []"
    and sp: "so_sp o' = Some slot" and perm: "ip_seq (shm_ip e) = ip_seq (shm_ip (shmem st ! slot))"
    and key: "\<And>key. key \<noteq> IPC_PRIVATE \<Longrightarrow> ipc_has_key shm_ip key e \<Longrightarrow> ipc_has_key shm_ip key (shmem st ! slot)"
    and pend: "\<And>u. u \<noteq> oid \<Longrightarrow> pend_of u ps' = pend_of u ps"
    and seg: "seg_ok k' oid slot (tasks st) (task_ents oid st') (pend_of oid ps') e o'"
  shows "shm_but oid k' info st' ps'"
proof (rule seg_frame [OF inv o1 st'(1,2) maps(1) st'(3) pend])
  note s = seg_of [OF inv o1]
  have "ipc_keys_unique shm_ip (shmem st')" unfolding st'
    by (rule shm_keys_upd) (use shm_butD(1) [OF inv] s(1) key in \<open>auto simp: shm_base_def\<close>)
  then show "shm_base info st'" using shm_butD(1) [OF inv] maps(2) by (simp add: shm_base_def st')
  show "slot_ok st' slot" using shm_butD(2) [OF inv s(1)] seg sp s(1) perm by (simp add: slot_ok_def seg_ok_def st')
  show "obj_ok k' st' ps' oid" using seg sp s(1) by (simp add: obj_ok_def st')
qed

section \<open>Attaching\<close>

lemma shm_inv_slot:
  assumes "shm_inv info st ps" "slot < length (shmem st)" "shm_object (shmem st ! slot) = Some oid"
  obtains o1 where "shm_objects st oid = Some o1" "so_sp o1 = Some slot"
proof -
  have "slot_ok st slot" using assms(1,2) by (simp add: shm_inv_def)
  then show thesis using assms(3) that by (auto simp: slot_ok_def)
qed

lemma vm_object_reference_eq:
  "shm_objects st oid = Some o1 \<Longrightarrow> vm_object_reference oid st = st\<lparr>shm_objects := (shm_objects st)(oid := Some (o1\<lparr>so_refcnt := so_refcnt o1 + 1\<rparr>))\<rparr>"
  by (simp add: vm_object_reference_def obj_upd_def)

lemma shmconv_slot:
  assumes "shminfo_ok info" "shm_base info st" "shmconv info (shmem st) d = Some slot"
  shows "slot < length (shmem st)" "ipc_allocated (shm_ip (shmem st ! slot))"
    "d = ip_seq (shm_ip (shmem st ! slot)) * shmmni info + int slot"
proof -
  have "int (length (shmem st)) = shmmni info" using assms(1,2) by (simp add: shm_base_def shminfo_ok_def)
  from shm_ids.conv_slot [OF this _ assms(3)] show "slot < length (shmem st)" "ipc_allocated (shm_ip (shmem st ! slot))"
    "d = ip_seq (shm_ip (shmem st ! slot)) * shmmni info + int slot" by simp_all
qed

lemma shmat_Inr:
  assumes "shmat env info d addr flag st = (Inr a, st')" "shminfo_ok info" "shm_inv info st ps" "sh_task env < tasks st"
  shows "shm_inv info st' (a # ps)"
proof -
  have b: "shm_base info st" using assms(3) by (simp add: shm_inv_def)
  obtain slot oid o1 where c: "shmconv info (shmem st) d = Some slot" "shm_object (shmem st ! slot) = Some oid" "shm_objects st oid = Some o1"
    "sa_slot a = slot" "sa_object a = oid" "sa_size a = round_page (shm_segsz (shm_ds (shmem st ! slot)))" "sa_task a = sh_task env"
    "st' = vm_object_reference oid st"
    using assms(1) by (auto simp: shmat_def Let_def split: option.splits if_splits)
  note sl = shmconv_slot [OF assms(2) b c(1)]
  obtain o2 where "shm_objects st oid = Some o2" "so_sp o2 = Some slot" by (rule shm_inv_slot [OF assms(3) sl(1) c(2)])
  then have sp: "so_sp o1 = Some slot" using c(3) by simp
  have inv: "shm_but oid 0 info st ps" using assms(3) by (simp add: shm_but_0)
  note s = seg_of [OF inv c(3) sp]
  let ?o = "o1\<lparr>so_refcnt := so_refcnt o1 + 1\<rparr>"
  have p: "pend_of oid (a # ps) = a # pend_of oid ps" "u \<noteq> oid \<Longrightarrow> pend_of u (a # ps) = pend_of u ps" for u
    using c(5) by (simp_all add: pend_of_def)
  have "seg_ok 0 oid slot (tasks st) (task_ents oid st) (a # pend_of oid ps) (shmem st ! slot) ?o"
    using s(2) c(4,6,7) assms(4) unfolding seg_ok_def by simp
  then have "seg_ok 0 oid slot (tasks st) (task_ents oid st') (pend_of oid (a # ps)) (shmem st ! slot) ?o"
    by (simp add: p(1) c(8) vm_object_reference_eq [OF c(3)])
  moreover have "vm_maps st m = []" if "tasks st \<le> m" for m using b that by (simp add: shm_base_def)
  ultimately have "shm_but oid 0 info st' (a # ps)"
    by (intro seg_step [OF inv c(3) sp, where e = "shmem st ! slot" and o' = ?o])
      (simp_all add: c(8) vm_object_reference_eq [OF c(3)] p(2) sp)
  then show ?thesis by (simp add: shm_but_0)
qed

lemma pend_of_remove: "pend_of u (remove1 a ps) = (if u = sa_object a then remove1 a (pend_of u ps) else pend_of u ps)"
  by (simp add: pend_of_def filter_remove1 remove1_idem)

lemma pend_seg:
  assumes "shm_inv info st ps" "a \<in> set ps"
  obtains o1 where "shm_objects st (sa_object a) = Some o1" "so_sp o1 = Some (sa_slot a)" "sa_task a < tasks st"
    "sa_size a = round_page (shm_segsz (shm_ds (shmem st ! sa_slot a)))"
proof -
  have a: "a \<in> set (pend_of (sa_object a) ps)" using assms(2) by (simp add: pend_of_def)
  have "obj_ok 0 st ps (sa_object a)" using assms(1) by (simp add: shm_inv_def)
  then show thesis using a that by (auto simp: obj_ok_def seg_ok_def split: option.splits)
qed

lemma shmat_entered_inv:
  assumes "shm_inv info st ps" "a \<in> set ps" "shminfo_ok info"
  shows "shm_inv info (snd (shmat_entered env info a (Entered addr) st)) (remove1 a ps)"
    "shm_inv info (snd (shmat_entered env info a (EnterFailed r) st)) (remove1 a ps)"
proof -
  obtain o1 where p: "shm_objects st (sa_object a) = Some o1" "so_sp o1 = Some (sa_slot a)" "sa_task a < tasks st"
    "sa_size a = round_page (shm_segsz (shm_ds (shmem st ! sa_slot a)))" by (rule pend_seg [OF assms(1,2)])
  let ?oid = "sa_object a" let ?slot = "sa_slot a"
  have inv: "shm_but ?oid 0 info st ps" using assms(1) by (simp add: shm_but_0)
  note s = seg_of [OF inv p(1,2)]
  have a: "a \<in> set (pend_of ?oid ps)" using assms(2) by (simp add: pend_of_def)
  then have len: "int (length (remove1 a (pend_of ?oid ps))) = int (length (pend_of ?oid ps)) - 1"
  proof -
    have "Suc (length (remove1 a (pend_of ?oid ps))) = length (pend_of ?oid ps)"
      using length_pos_if_in_set [OF a] a by (simp add: length_remove1)
    then show ?thesis by linarith
  qed
  have nil: "vm_maps st m = []" if "tasks st \<le> m" for m using shm_butD(1) [OF inv] that by (simp add: shm_base_def)
  show "shm_inv info (snd (shmat_entered env info a (EnterFailed r) st)) (remove1 a ps)"
  proof -
    have "seg_ok 1 ?oid ?slot (tasks st) (task_ents ?oid st) (remove1 a (pend_of ?oid ps)) (shmem st ! ?slot) o1"
      using seg_pend [OF s(2) set_remove1_subset [of a "pend_of ?oid ps"]] unfolding len by simp
    then have "seg_ok 1 ?oid ?slot (tasks st) (task_ents ?oid st) (pend_of ?oid (remove1 a ps)) (shmem st ! ?slot) o1"
      by (simp add: pend_of_remove)
    then have "shm_but ?oid 1 info st (remove1 a ps)"
      by (intro seg_step [OF inv p(1,2), where e = "shmem st ! ?slot" and o' = o1])
        (simp_all add: p fun_upd_idem pend_of_remove nil)
    from dealloc_inv [OF this p(1) assms(3)] show ?thesis by (simp add: shmat_entered_def)
  qed
  let ?x = "enter_entry a addr" let ?m = "sa_task a"
  define e where "e = (shmem st ! ?slot)\<lparr>shm_ds := (shm_ds (shmem st ! ?slot))\<lparr>shm_atime := sh_time env, shm_lpid := sh_pid env,
    shm_nattch := shm_nattch (shm_ds (shmem st ! ?slot)) + 1\<rparr>\<rparr>"
  define o' where "o' = o1\<lparr>so_attach := at_add ?m (sh_pid env) (so_attach o1)\<rparr>"
  define st' where "st' = snd (shmat_entered env info a (Entered addr) st)"
  have st': "shm_objects st' = (shm_objects st)(?oid := Some o')" "shmem st' = (shmem st)[?slot := e]" "tasks st' = tasks st"
    "shm_panic st' = shm_panic st" "vm_maps st' = (vm_maps st)(?m := ?x # vm_maps st ?m)"
    using p(1) s(1) by (simp_all add: st'_def shmat_entered_def map_link_def u_shm_attach_def obj_upd_def ds_upd_def shmid_upd_def e_def o'_def)
  have ents: "task_ents u st' m = (if u = ?oid \<and> m = ?m then ?x # task_ents u st m else task_ents u st m)" for u m
    by (simp add: task_ents_def st' enter_entry_def)
  have "seg_ok 0 ?oid ?slot (tasks st) (task_ents ?oid st') (pend_of ?oid (remove1 a ps)) e o'"
    by (rule seg_more [OF s(2) p(3), where x = ?x and d = 0 and pid = "sh_pid env"])
      (use a len set_remove1_subset [of a "pend_of ?oid ps"] in
        \<open>auto simp: ents e_def o'_def shm_ip_def enter_entry_def p(4) pend_of_remove\<close>)
  then have "shm_but ?oid 0 info st' (remove1 a ps)"
    by (intro seg_step [OF inv p(1,2) st'(1-4)])
      (use p(2,3) in \<open>simp_all add: ents st'(5) e_def o'_def shm_ip_def ipc_has_key_def pend_of_remove nil\<close>)
  then show "shm_inv info (snd (shmat_entered env info a (Entered addr) st)) (remove1 a ps)" by (simp add: shm_but_0 st'_def)
qed

section \<open>Detaching\<close>

lemma in_task_ents: "e \<in> set (vm_maps st m) \<Longrightarrow> vme_object e = ShmObject oid \<Longrightarrow> e \<in> set (task_ents oid st m)"
  by (simp add: task_ents_def)

lemma ent_seg:
  assumes "shm_inv info st ps" "e \<in> set (vm_maps st m)" "vme_object e = ShmObject oid"
  obtains o1 slot where "shm_objects st oid = Some o1" "so_sp o1 = Some slot" "m < tasks st" "slot < length (shmem st)"
    "vme_end e = vme_start e + round_page (shm_segsz (shm_ds (shmem st ! slot)))"
    "seg_ok 0 oid slot (tasks st) (task_ents oid st) (pend_of oid ps) (shmem st ! slot) o1"
proof -
  have e: "e \<in> set (task_ents oid st m)" by (rule in_task_ents [OF assms(2,3)])
  have "obj_ok 0 st ps oid" using assms(1) by (simp add: shm_inv_def)
  moreover have "shm_objects st oid \<noteq> None" using calculation e by (auto simp: obj_ok_def split: option.splits)
  ultimately obtain o1 slot where o: "shm_objects st oid = Some o1" "so_sp o1 = Some slot" "slot < length (shmem st)"
    "seg_ok 0 oid slot (tasks st) (task_ents oid st) (pend_of oid ps) (shmem st ! slot) o1" by (auto simp: obj_ok_def)
  have "m < tasks st"
  proof (rule ccontr)
    assume "\<not> m < tasks st"
    then have "vm_maps st m = []" using assms(1) by (simp add: shm_inv_def shm_base_def)
    then show False using assms(2) by simp
  qed
  moreover have "vme_end e = vme_start e + round_page (shm_segsz (shm_ds (shmem st ! slot)))" using o(4) e unfolding seg_ok_def by blast
  ultimately show thesis using that o by blast
qed

text \<open>The state of the segment after the unmapping and before its reference is given back.\<close>

lemma unmap_but:
  assumes inv: "shm_inv info st ps" and e: "e \<in> set (vm_maps st m)" "vme_object e = ShmObject oid"
    and r: "u_shm_unmap env reaper m e oid addr len st = (None, st1)"
  shows "shm_but oid 1 info (st1\<lparr>vm_maps := (vm_maps st1)(m := remove1 e (vm_maps st1 m))\<rparr>) ps" "shm_objects st1 oid \<noteq> None"
proof -
  obtain o1 slot where o: "shm_objects st oid = Some o1" "so_sp o1 = Some slot" "m < tasks st" "slot < length (shmem st)"
    "vme_end e = vme_start e + round_page (shm_segsz (shm_ds (shmem st ! slot)))"
    and s: "seg_ok 0 oid slot (tasks st) (task_ents oid st) (pend_of oid ps) (shmem st ! slot) o1" by (rule ent_seg [OF inv e])
  have em: "e \<in> set (task_ents oid st m)" by (rule in_task_ents [OF e])
  have pos: "0 < length (task_ents oid st m)" using em by (cases "task_ents oid st m") auto
  have "at_sum m (so_attach o1) \<noteq> 0" using s pos by (simp add: seg_ok_def)
  then obtain pid as where d: "at_del m (so_attach o1) = Some (pid, as)" using at_del_Some by blast
  let ?e = "(shmem st ! slot)\<lparr>shm_ds := (shm_ds (shmem st ! slot))\<lparr>shm_nattch := shm_nattch (shm_ds (shmem st ! slot)) - 1,
      shm_dtime := sh_time env, shm_lpid := pid\<rparr>\<rparr>"
  let ?o = "o1\<lparr>so_attach := as\<rparr>"
  define st' where "st' = st1\<lparr>vm_maps := (vm_maps st1)(m := remove1 e (vm_maps st1 m))\<rparr>"
  have st1: "shm_objects st1 = (shm_objects st)(oid := Some ?o)" "shmem st1 = (shmem st)[slot := ?e]" "tasks st1 = tasks st"
    "shm_panic st1 = shm_panic st" "vm_maps st1 = vm_maps st"
    using r o d by (auto simp: u_shm_unmap_def u_shm_dettach_def ds_upd_def shmid_upd_def Let_def split: if_splits)
  show "shm_objects st1 oid \<noteq> None" by (simp add: st1)
  have ents: "task_ents u st' v = (if u = oid \<and> v = m then remove1 e (task_ents u st v) else task_ents u st v)" for u v
    by (simp add: task_ents_def st'_def st1 filter_remove1 remove1_idem e(2))
  have seg: "seg_ok (0 + 1) oid slot (tasks st) (task_ents oid st') (pend_of oid ps) ?e ?o"
    by (rule seg_less [OF s o(3) _ _ _ _ _ _ _ d])
      (use em pos set_remove1_subset [of e "task_ents oid st m"] in \<open>simp_all add: ents shm_ip_def length_remove1\<close>)
  have nil: "vm_maps st' v = []" if "tasks st \<le> v" for v
    using inv that o(3) by (simp add: st'_def st1 shm_inv_def shm_base_def)
  have "shm_but oid 0 info st ps" using inv by (simp add: shm_but_0)
  from seg_step [OF this o(1,2), of st' ?o ?e ps 1] seg show "shm_but oid 1 info (st1\<lparr>vm_maps := (vm_maps st1)(m := remove1 e (vm_maps st1 m))\<rparr>) ps"
    unfolding st'_def [symmetric]
    by (simp add: ents nil o(2) shm_ip_def ipc_has_key_def) (simp add: st'_def st1)
qed

lemma shm_inv_cong:
  assumes "shm_inv info st ps" "shm_objects st' = shm_objects st" "shmem st' = shmem st" "tasks st' = tasks st" "shm_panic st' = shm_panic st"
    "\<And>u. task_ents u st' = task_ents u st" "\<And>m. tasks st \<le> m \<Longrightarrow> vm_maps st' m = []"
  shows "shm_inv info st' ps"
  using assms(1,7) unfolding shm_inv_def shm_base_def slot_ok_def obj_ok_def assms(2-6) by simp

lemma maps_other:
  assumes "shm_inv info st ps" "m < tasks st" "filter (\<lambda>e. vme_object e \<noteq> OtherObject) es = filter (\<lambda>e. vme_object e \<noteq> OtherObject) (vm_maps st m)"
  shows "shm_inv info (st\<lparr>vm_maps := (vm_maps st)(m := es)\<rparr>) ps"
proof -
  have f: "filter (\<lambda>e. vme_object e = ShmObject u) xs = filter (\<lambda>e. vme_object e = ShmObject u) (filter (\<lambda>e. vme_object e \<noteq> OtherObject) xs)" for u xs
    by (induction xs) auto
  have "filter (\<lambda>e. vme_object e = ShmObject u) es = filter (\<lambda>e. vme_object e = ShmObject u) (vm_maps st m)" for u
    using f [of u es] f [of u "vm_maps st m"] assms(3) by simp
  then have "task_ents u (st\<lparr>vm_maps := (vm_maps st)(m := es)\<rparr>) = task_ents u st" for u
    by (auto simp: task_ents_def fun_eq_iff)
  then show ?thesis by (rule shm_inv_cong [OF assms(1), rotated 4]) (use assms(1,2) in \<open>auto simp: shm_inv_def shm_base_def\<close>)
qed

lemma inv_task: "shm_inv info st ps \<Longrightarrow> e \<in> set (vm_maps st m) \<Longrightarrow> m < tasks st"
  by (rule ccontr) (auto simp: shm_inv_def shm_base_def)

lemma entry_delete_inv:
  assumes inv: "shm_inv info st ps" and e: "e \<in> set (vm_maps st m)" and info: "shminfo_ok info"
    and r: "entry_delete env info reaper m e addr len st = (res, st')"
  shows "shm_inv info st' ps"
proof (cases "vme_object e")
  case OtherObject
  have "filter (\<lambda>e. vme_object e \<noteq> OtherObject) (remove1 e (vm_maps st m)) = filter (\<lambda>e. vme_object e \<noteq> OtherObject) (vm_maps st m)"
    by (simp add: filter_remove1 remove1_idem OtherObject)
  from maps_other [OF inv inv_task [OF inv e] this] show ?thesis
    using r OtherObject by (auto simp: entry_delete_def vm_map_entry_delete_def)
next
  case (ShmObject oid)
  obtain x st1 where u: "u_shm_unmap env reaper m e oid addr len st = (x, st1)" by fastforce
  show ?thesis
  proof (cases x)
    case (Some err)
    then have "st1 = st" using u by (auto simp: u_shm_unmap_def Let_def split: if_splits option.splits prod.splits)
    then show ?thesis using r u ShmObject Some inv by (simp add: entry_delete_def)
  next
    case None
    note b = unmap_but [OF inv e ShmObject u [unfolded None]]
    obtain o2 where "shm_objects st1 oid = Some o2" using b(2) by blast
    then have "shm_objects (st1\<lparr>vm_maps := (vm_maps st1)(m := remove1 e (vm_maps st1 m))\<rparr>) oid = Some o2" by simp
    from dealloc_inv [OF b(1) this info] show ?thesis
      using r u ShmObject None by (auto simp: entry_delete_def vm_map_entry_delete_def)
  qed
qed

text \<open>Changes of the other fields of an entry of the table.\<close>

lemma ds_upd_inv:
  assumes inv: "shm_inv info st ps"
    and f: "\<And>d. shm_perm (f d) = shm_perm d \<and> shm_segsz (f d) = shm_segsz d \<and> shm_nattch (f d) = shm_nattch d"
  shows "shm_inv info (ds_upd f slot st) ps"
proof (cases "slot < length (shmem st)")
  case True
  let ?e = "(shmem st ! slot)\<lparr>shm_ds := f (shm_ds (shmem st ! slot))\<rparr>"
  have ip: "shm_ip ?e = shm_ip (shmem st ! slot)" using f by (simp add: shm_ip_def)
  have seg: "seg_ok 0 u slot n ents pend ?e o1 = seg_ok 0 u slot n ents pend (shmem st ! slot) o1" for u n ents pend o1
    using f [of "shm_ds (shmem st ! slot)"] ip by (simp add: seg_ok_def shm_removed_def)
  have "obj_ok 0 (ds_upd f slot st) ps u" for u
  proof -
    have o: "obj_ok 0 st ps u" using inv by (simp add: shm_inv_def)
    show ?thesis
    proof (cases "shm_objects st u")
      case None
      then show ?thesis using o by (simp add: obj_ok_def ds_upd_def shmid_upd_def)
    next
      case (Some o1)
      then obtain j where "so_sp o1 = Some j" "j < length (shmem st)"
        "seg_ok 0 u j (tasks st) (task_ents u st) (pend_of u ps) (shmem st ! j) o1" using o by (auto simp: obj_ok_def)
      then show ?thesis using Some seg True by (cases "j = slot") (simp_all add: obj_ok_def ds_upd_def shmid_upd_def)
    qed
  qed
  moreover have "slot_ok (ds_upd f slot st) j" if "j < length (shmem st)" for j
  proof -
    have "shm_objects (ds_upd f slot st) = shm_objects st" "shmem (ds_upd f slot st) = (shmem st)[slot := ?e]"
      by (simp_all add: ds_upd_def shmid_upd_def)
    moreover have "slot_ok st j" using inv that by (simp add: shm_inv_def)
    ultimately show ?thesis using ip True unfolding slot_ok_def by (cases "j = slot") (simp_all split: option.splits)
  qed
  moreover have "map shm_ip (shmem st) = map shm_ip (shmem (ds_upd f slot st))"
    using True ip by (intro nth_equalityI) (auto simp: ds_upd_def shmid_upd_def nth_list_update)
  then have "ipc_keys_unique shm_ip (shmem (ds_upd f slot st))"
    using inv ipc_keys_unique_cong unfolding shm_inv_def shm_base_def by metis
  ultimately show ?thesis using inv by (simp add: shm_inv_def shm_base_def) (simp_all add: ds_upd_def shmid_upd_def)
next
  case False
  then have "ds_upd f slot st = st" by (simp add: ds_upd_def shmid_upd_def list_update_beyond not_less)
  then show ?thesis using inv by simp
qed

lemma shmdt_inv:
  assumes inv: "shm_inv info st ps" and info: "shminfo_ok info" and r: "shmdt env info addr st = (res, st')"
  shows "shm_inv info st' ps"
proof (cases "find (\<lambda>e. vme_start e \<le> addr \<and> addr < vme_end e) (vm_maps st (sh_task env))")
  case (Some e)
  then have e: "e \<in> set (vm_maps st (sh_task env))" by (auto simp: find_Some_iff)
  then show ?thesis using r inv entry_delete_inv [OF inv e info] Some
    by (auto simp: shmdt_def Let_def split: if_splits option.splits prod.splits intro: ds_upd_inv)
qed (use r inv in \<open>auto simp: shmdt_def split: if_splits\<close>)

end
