(* ===== verification/Svipc_Shm_Reach.thy ===== *)
theory Svipc_Shm_Reach
  imports Svipc_Shm_Ops
begin

text \<open>Forks, \<open>shmctl\<close> and \<open>shmget\<close>, and the reachable states of any number of tasks.\<close>

section \<open>Forks\<close>

lemma dup_inv:
  assumes inv: "shm_inv info st ps" and e: "e \<in> set (vm_maps st p)" "vme_object e = ShmObject oid" and c: "c < tasks st"
  shows "shm_inv info (u_shm_dup pid c oid (st\<lparr>vm_maps := (vm_maps st)(c := vm_maps st c @ [e])\<rparr>)) ps"
proof -
  obtain o1 slot where o: "shm_objects st oid = Some o1" "so_sp o1 = Some slot" "slot < length (shmem st)"
    and x: "vme_end e = vme_start e + round_page (shm_segsz (shm_ds (shmem st ! slot)))"
    and s: "seg_ok 0 oid slot (tasks st) (task_ents oid st) (pend_of oid ps) (shmem st ! slot) o1" by (rule ent_seg [OF inv e])
  let ?e = "(shmem st ! slot)\<lparr>shm_ds := (shm_ds (shmem st ! slot))\<lparr>shm_nattch := shm_nattch (shm_ds (shmem st ! slot)) + 1\<rparr>\<rparr>"
  let ?o = "o1\<lparr>so_refcnt := so_refcnt o1 + 1, so_attach := at_add c pid (so_attach o1)\<rparr>"
  define st' where "st' = u_shm_dup pid c oid (st\<lparr>vm_maps := (vm_maps st)(c := vm_maps st c @ [e])\<rparr>)"
  have st': "shm_objects st' = (shm_objects st)(oid := Some ?o)" "shmem st' = (shmem st)[slot := ?e]" "tasks st' = tasks st"
    "shm_panic st' = shm_panic st" "vm_maps st' = (vm_maps st)(c := vm_maps st c @ [e])"
    using o by (simp_all add: st'_def u_shm_dup_def vm_object_reference_def obj_upd_def u_shm_attach_def ds_upd_def shmid_upd_def Let_def)
  have ents: "task_ents u st' v = (if u = oid \<and> v = c then task_ents u st v @ [e] else task_ents u st v)" for u v
    by (simp add: task_ents_def st' e(2))
  have seg: "seg_ok 0 oid slot (tasks st) (task_ents oid st') (pend_of oid ps) ?e ?o"
    by (rule seg_more [OF s c, where x = e and d = 1 and pid = pid]) (use x in \<open>simp_all add: ents shm_ip_def\<close>)
  have nil: "vm_maps st' v = []" if "tasks st \<le> v" for v
    using inv that c by (simp add: st' shm_inv_def shm_base_def)
  have "shm_but oid 0 info st ps" using inv by (simp add: shm_but_0)
  from seg_step [OF this o(1,2) st'(1-4), where ps' = ps and k' = 0] seg have "shm_but oid 0 info st' ps"
    by (simp add: ents nil o(2) shm_ip_def ipc_has_key_def)
  then show ?thesis by (simp add: shm_but_0 st'_def)
qed

lemma dup_frame:
  assumes "shm_inv info st ps" "e \<in> set (vm_maps st p)" "vme_object e = ShmObject oid"
  shows "tasks (u_shm_dup pid c oid (st\<lparr>vm_maps := f\<rparr>)) = tasks st" "vm_maps (u_shm_dup pid c oid (st\<lparr>vm_maps := f\<rparr>)) = f"
proof -
  obtain o1 slot where o: "shm_objects st oid = Some o1" "so_sp o1 = Some slot" by (rule ent_seg [OF assms])
  show "tasks (u_shm_dup pid c oid (st\<lparr>vm_maps := f\<rparr>)) = tasks st" "vm_maps (u_shm_dup pid c oid (st\<lparr>vm_maps := f\<rparr>)) = f"
    using o by (simp_all add: u_shm_dup_def vm_object_reference_def obj_upd_def u_shm_attach_def ds_upd_def shmid_upd_def Let_def)
qed

lemma map_fork_inv:
  assumes "shm_inv info st ps" "set es \<subseteq> set (vm_maps st p)" "c < tasks st" "p \<noteq> c"
  shows "shm_inv info (map_fork pid c es st) ps"
  using assms
proof (induction es arbitrary: st)
  case (Cons e es)
  let ?l = "st\<lparr>vm_maps := (vm_maps st)(c := vm_maps st c @ [e])\<rparr>"
  have e: "e \<in> set (vm_maps st p)" using Cons.prems(2) by simp
  show ?case
  proof (cases "vme_object e")
    case OtherObject
    have "shm_inv info ?l ps" by (rule maps_other [OF Cons.prems(1,3)]) (simp add: OtherObject)
    from Cons.IH [OF this] Cons.prems(2-4) show ?thesis by (simp add: OtherObject Let_def)
  next
    case (ShmObject oid)
    note d = dup_inv [OF Cons.prems(1) e ShmObject Cons.prems(3), of pid]
    note f = dup_frame [OF Cons.prems(1) e ShmObject, of pid c]
    from Cons.IH [OF d] Cons.prems(2-4) show ?thesis by (simp add: ShmObject Let_def f)
  qed
qed simp

lemma u_map_fork_inv:
  assumes "shm_inv info st ps" "p < tasks st"
  shows "shm_inv info (u_map_fork pid segs p st) ps"
proof -
  let ?s = "st\<lparr>tasks := tasks st + 1, u_shmsegs := (u_shmsegs st)(tasks st := segs)\<rparr>"
  have "vm_maps st (tasks st) = []" using assms(1) by (simp add: shm_inv_def shm_base_def)
  then have m: "mapped (tasks st + 1) (task_ents u st) = mapped (tasks st) (task_ents u st)" for u
    by (simp add: mapped_def task_ents_def)
  have seg: "seg_ok 0 u slot (tasks st) (task_ents u st) pend e o1 \<Longrightarrow> seg_ok 0 u slot (tasks st + 1) (task_ents u st) pend e o1" for u slot pend e o1
    using m [of u] by (auto simp: seg_ok_def)
  have "obj_ok 0 ?s ps u" for u
  proof -
    have "obj_ok 0 st ps u" using assms(1) by (simp add: shm_inv_def)
    then show ?thesis using seg by (cases "shm_objects st u") (auto simp: obj_ok_def)
  qed
  moreover have "slot_ok ?s j = slot_ok st j" for j by (simp add: slot_ok_def split: option.splits)
  ultimately have "shm_inv info ?s ps" using assms(1) by (simp add: shm_inv_def) (simp add: shm_base_def)
  from map_fork_inv [OF this, of "vm_maps st p" p "tasks st" pid] assms(2) show ?thesis
    by (simp add: u_map_fork_def Let_def)
qed

section \<open>Control\<close>

lemma shm_owner_frame: "shm_owner cr p st = (e, st') \<Longrightarrow> \<exists>b. st' = st\<lparr>shm_asu := b\<rparr>"
proof -
  assume "shm_owner cr p st = (e, st')"
  then have "st' = st\<lparr>shm_asu := shm_asu st'\<rparr>" by (auto simp: shm_owner_def suser_def split: if_splits)
  then show ?thesis ..
qed

lemma shm_inv_asu: "shm_inv info (st\<lparr>shm_asu := b\<rparr>) ps = shm_inv info st ps"
proof -
  have "task_ents u (st\<lparr>shm_asu := b\<rparr>) = task_ents u st" for u by (simp add: task_ents_def fun_eq_iff)
  then show ?thesis unfolding shm_inv_def shm_base_def slot_ok_def obj_ok_def by (simp cong: option.case_cong)
qed

lemma set_mode_bits:
  "((x AND 0x1FF) OR (m AND NOT 0x1FF)) AND IPC_ALLOC = m AND IPC_ALLOC"
  "((x AND 0x1FF) OR (m AND NOT 0x1FF)) AND SHM_REMOVED = m AND SHM_REMOVED"
  "(m OR SHM_REMOVED) AND IPC_ALLOC = m AND IPC_ALLOC" "(m OR SHM_REMOVED) AND SHM_REMOVED = SHM_REMOVED"
  "SHM_REMOVED \<noteq> 0"
  for m x :: "32 word"
  by (simp_all add: SHM_REMOVED_def IPC_ALLOC_def and.assoc bit.conj_disj_distrib2)

lemma slot_segment:
  assumes "shm_inv info st ps" "slot < length (shmem st)" "ipc_allocated (shm_ip (shmem st ! slot))"
  obtains oid o1 where "shm_object (shmem st ! slot) = Some oid" "shm_objects st oid = Some o1" "so_sp o1 = Some slot"
proof -
  have "slot_ok st slot" using assms(1,2) by (simp add: shm_inv_def)
  then show thesis using assms(3) that by (auto simp: slot_ok_def split: option.splits)
qed

lemma shmctl_set_inv:
  assumes inv: "shm_inv info st ps" and slot: "slot < length (shmem st)" "ipc_allocated (shm_ip (shmem st ! slot))"
    and r: "shmctl_set env slot uds st = (res, d, st')"
  shows "shm_inv info st' ps"
proof -
  obtain oid o1 where o: "shm_object (shmem st ! slot) = Some oid" "shm_objects st oid = Some o1" "so_sp o1 = Some slot"
    by (rule slot_segment [OF inv slot])
  have but: "shm_but oid 0 info st ps" using inv by (simp add: shm_but_0)
  note s = seg_of [OF but o(2,3)]
  let ?mode = "\<lambda>ds. (ip_mode (shm_perm ds) AND 0x1FF) OR (ip_mode (shm_perm (shm_ds (shmem st ! slot))) AND NOT 0x1FF)"
  have upd: "shm_inv info (ds_upd (\<lambda>d. d\<lparr>shm_perm := (shm_perm d)\<lparr>ip_uid := ip_uid (shm_perm ds), ip_gid := ip_gid (shm_perm ds),
      ip_mode := (ip_mode (shm_perm ds) AND 0x1FF) OR (ip_mode (shm_perm d) AND NOT 0x1FF)\<rparr>, shm_ctime := t\<rparr>) slot st) ps" for ds t
  proof -
    define e where "e = (shmem st ! slot)\<lparr>shm_ds := (shm_ds (shmem st ! slot))\<lparr>shm_perm := (shm_perm (shm_ds (shmem st ! slot)))
       \<lparr>ip_uid := ip_uid (shm_perm ds), ip_gid := ip_gid (shm_perm ds), ip_mode := ?mode ds\<rparr>, shm_ctime := t\<rparr>\<rparr>"
    have b: "ipc_allocated (shm_ip e) = ipc_allocated (shm_ip (shmem st ! slot))" "shm_removed e = shm_removed (shmem st ! slot)"
      unfolding ipc_allocated_def shm_removed_def by (simp_all only: e_def shm_ip_def) (simp_all add: set_mode_bits [simplified])
    have "seg_ok 0 oid slot (tasks st) (task_ents oid st) (pend_of oid ps) e o1"
      using s(2) b by (simp add: seg_ok_def) (simp add: e_def)
    moreover have "vm_maps st m = []" if "tasks st \<le> m" for m using inv that by (simp add: shm_inv_def shm_base_def)
    moreover have "ip_seq (shm_ip e) = ip_seq (shm_ip (shmem st ! slot))" "ip_key (shm_ip e) = ip_key (shm_ip (shmem st ! slot))"
      by (simp_all add: e_def shm_ip_def)
    ultimately have "shm_but oid 0 info (st\<lparr>shmem := (shmem st)[slot := e]\<rparr>) ps"
      by (intro seg_step [OF but o(2,3), where o' = o1 and e = e]) (simp_all add: o b fun_upd_idem ipc_has_key_def)
    then show ?thesis by (simp add: shm_but_0 ds_upd_def shmid_upd_def e_def)
  qed
  obtain err st1 where w: "shm_owner (sh_cred env) (shm_ip (shmem st ! slot)) st = (err, st1)" by fastforce
  then obtain b where st1: "st1 = st\<lparr>shm_asu := b\<rparr>" using shm_owner_frame by blast
  have "ds_upd f slot (st\<lparr>shm_asu := b\<rparr>) = (ds_upd f slot st)\<lparr>shm_asu := b\<rparr>" for f by (simp add: ds_upd_def shmid_upd_def)
  then show ?thesis using r w inv upd unfolding shmctl_set_def st1
    by (auto simp: shm_inv_asu split: option.splits)
qed

text \<open>
  A segment is removed twice only when no \<open>shmat\<close> of it is under way.
\<close>

definition rmid_safe :: "nat \<Rightarrow> shm_state \<Rightarrow> shm_attaching list \<Rightarrow> bool" where
  "rmid_safe slot st ps \<longleftrightarrow> (shm_removed (shmem st ! slot) \<longrightarrow> (\<forall>a\<in>set ps. sa_slot a \<noteq> slot))"

lemma shm_rmid_inv:
  assumes inv: "shm_inv info st ps" and slot: "slot < length (shmem st)" "ipc_allocated (shm_ip (shmem st ! slot))"
    and safe: "rmid_safe slot st ps"
    and st': "st' = ds_upd (\<lambda>d. d\<lparr>shm_perm := (shm_perm d)\<lparr>ip_key := IPC_PRIVATE, ip_mode := ip_mode (shm_perm d) OR SHM_REMOVED\<rparr>\<rparr>) slot
      (case shm_object (shmem st ! slot) of None \<Rightarrow> st\<lparr>shm_panic := True\<rparr> | Some oid \<Rightarrow> u_shm_oop_deallocate info oid st)"
  shows "shm_inv info st' ps"
proof -
  obtain oid o1 where o: "shm_object (shmem st ! slot) = Some oid" "shm_objects st oid = Some o1" "so_sp o1 = Some slot"
    by (rule slot_segment [OF inv slot])
  have but: "shm_but oid 0 info st ps" using inv by (simp add: shm_but_0)
  note s = seg_of [OF but o(2,3)]
  define e where "e = (shmem st ! slot)\<lparr>shm_ds := (shm_ds (shmem st ! slot))\<lparr>shm_perm := (shm_perm (shm_ds (shmem st ! slot)))
     \<lparr>ip_key := IPC_PRIVATE, ip_mode := ip_mode (shm_perm (shm_ds (shmem st ! slot))) OR SHM_REMOVED\<rparr>\<rparr>\<rparr>"
  have b: "ipc_allocated (shm_ip e) = ipc_allocated (shm_ip (shmem st ! slot))" "shm_removed e"
    unfolding ipc_allocated_def shm_removed_def by (simp_all only: e_def shm_ip_def) (simp_all add: set_mode_bits)
  have e: "shm_object e = Some oid" "ip_key (shm_ip e) = IPC_PRIVATE" "ip_seq (shm_ip e) = ip_seq (shm_ip (shmem st ! slot))"
    "shm_nattch (shm_ds e) = shm_nattch (shm_ds (shmem st ! slot))" "shm_segsz (shm_ds e) = shm_segsz (shm_ds (shmem st ! slot))"
    by (simp_all add: e_def shm_ip_def o(1))
  have nil: "vm_maps st m = []" if "tasks st \<le> m" for m using inv that by (simp add: shm_inv_def shm_base_def)
  have r: "so_refcnt o1 = mapped (tasks st) (task_ents oid st) + int (length (pend_of oid ps)) + (if shm_removed (shmem st ! slot) then 0 else 1)"
    "shm_nattch (shm_ds (shmem st ! slot)) = mapped (tasks st) (task_ents oid st)" using s(2) by (simp_all add: seg_ok_def)
  show ?thesis
  proof (cases "shm_removed (shmem st ! slot)")
    case True
    have "\<forall>a\<in>set (pend_of oid ps). sa_slot a = slot" using s(2) by (simp add: seg_ok_def)
    moreover have "sa_slot a \<noteq> slot" if "a \<in> set (pend_of oid ps)" for a
      using safe True that by (auto simp: rmid_safe_def pend_of_def)
    ultimately have p: "pend_of oid ps = []" by (metis list.set_intros(1) neq_Nil_conv)
    have f: "st' = st\<lparr>shmem := (shmem st)[slot := e]\<rparr>"
      using r True p o by (simp add: st' u_shm_oop_deallocate_def ds_upd_def shmid_upd_def e_def)
    have "seg_ok 0 oid slot (tasks st) (task_ents oid st) (pend_of oid ps) e o1"
      using s(2) b e True by (simp add: seg_ok_def)
    then have "shm_but oid 0 info st' ps"
      by (intro seg_step [OF but o(2,3), where o' = o1 and e = e]) (simp_all add: f nil o e fun_upd_idem ipc_has_key_def)
    then show ?thesis by (simp add: shm_but_0)
  next
    case False
    then have gt: "\<not> so_refcnt o1 \<le> shm_nattch (shm_ds (shmem st ! slot))" using r by simp
    show ?thesis
    proof (cases "so_refcnt o1 = 1")
      case True
      then have "mapped (tasks st) (task_ents oid st) + int (length (pend_of oid ps)) \<le> 0" using r(1) False by simp
      then have "mapped (tasks st) (task_ents oid st) = 0" "int (length (pend_of oid ps)) = 0"
        using mapped_nonneg [of "tasks st" "task_ents oid st"] by linarith+
      then have z: "mapped (tasks st) (task_ents oid st) = 0" "pend_of oid ps = []" by simp_all
      have u: "0 \<le> u16 x \<and> u16 x < 65536" for x by (simp add: u16_def)
      define x where "x = (let q = u16 (ip_seq (shm_ip (shmem st ! slot)) + 1) in if s32 (q * shmmni info + int slot) < 0 then 0 else q)"
      define g where "g = (shmem st ! slot)\<lparr>shm_object := None, shm_ds := (shm_ds (shmem st ! slot))\<lparr>shm_segsz := 0, shm_perm :=
         (shm_ip (shmem st ! slot))\<lparr>ip_seq := x, ip_key := IPC_PRIVATE, ip_mode := SHM_REMOVED\<rparr>\<rparr>\<rparr>"
      have f: "st' = st\<lparr>shm_objects := (shm_objects st)(oid := None), shmem := (shmem st)[slot := g]\<rparr>"
        using gt True o slot(1) by (simp add: st' u_shm_oop_deallocate_def shm_free_entry_def ds_upd_def shmid_upd_def g_def x_def shm_ip_def)
      have "shm_object g = None" "\<not> ipc_allocated (shm_ip g)" "0 \<le> ip_seq (shm_ip g)" "ip_seq (shm_ip g) < 65536"
        using u by (simp_all add: g_def x_def shm_ip_def ipc_allocated_def IPC_ALLOC_def SHM_REMOVED_def Let_def)
      from seg_free [OF but o(2,3) z this] show ?thesis by (simp add: f)
    next
      case n: False
      let ?o = "o1\<lparr>so_refcnt := so_refcnt o1 - 1\<rparr>"
      have f: "st' = st\<lparr>shm_objects := (shm_objects st)(oid := Some ?o), shmem := (shmem st)[slot := e]\<rparr>"
        using gt n o by (simp add: st' u_shm_oop_deallocate_def ds_upd_def shmid_upd_def e_def)
      have "0 < so_refcnt o1" using s(2) by (simp add: seg_ok_def)
      then have "seg_ok 0 oid slot (tasks st) (task_ents oid st) (pend_of oid ps) e ?o"
        using s(2) b e n False by (simp add: seg_ok_def)
      then have "shm_but oid 0 info st' ps"
        by (intro seg_step [OF but o(2,3), where o' = ?o and e = e]) (simp_all add: f nil o e ipc_has_key_def)
      then show ?thesis by (simp add: shm_but_0)
    qed
  qed
qed

lemma shmctl_inv:
  assumes inv: "shm_inv info st ps" and info: "shminfo_ok info" and r: "shmctl env info uds c shmid cmd st = (res, d, st')"
    and safe: "\<And>slot. cmd = 0 \<Longrightarrow> shmconv info (shmem st) shmid = Some slot \<Longrightarrow> rmid_safe slot st ps"
  shows "shm_inv info st' ps"
proof (cases "shmconv info (shmem st) shmid")
  case None
  then show ?thesis using r inv by (simp add: shmctl_def)
next
  case (Some slot)
  note s = shmconv_slot [OF info _ Some] 
  have b: "shm_base info st" using inv by (simp add: shm_inv_def)
  have rmid: "shmctl_rmid env info slot st = (res, d, st') \<Longrightarrow> cmd = 0 \<Longrightarrow> shm_inv info st' ps"
  proof -
    assume rm: "shmctl_rmid env info slot st = (res, d, st')" "cmd = 0"
    obtain err st1 where w: "shm_owner (sh_cred env) (shm_ip (shmem st ! slot)) st = (err, st1)" by fastforce
    then obtain b1 where st1: "st1 = st\<lparr>shm_asu := b1\<rparr>" using shm_owner_frame by blast
    have i: "shm_inv info st1 ps" using inv by (simp add: st1 shm_inv_asu)
    have "rmid_safe slot st1 ps" using safe [OF rm(2) Some] by (simp add: rmid_safe_def st1)
    from shm_rmid_inv [OF i _ _ this refl] show ?thesis
      using rm(1) w i s(1,2) [OF b] by (auto simp: shmctl_rmid_def Let_def st1 split: option.splits)
  qed
  show ?thesis using r Some inv rmid shmctl_set_inv [OF inv s(1,2) [OF b]]
    by (auto simp: shmctl_def shmctl_stat_def Let_def split: if_splits)
qed

section \<open>New segments\<close>

lemma idle_slot:
  assumes "shm_inv info st ps" "slot < length (shmem st)" "\<not> ipc_allocated (shm_ip (shmem st ! slot))"
  shows "shm_object (shmem st ! slot) = None"
proof (rule ccontr)
  assume "shm_object (shmem st ! slot) \<noteq> None"
  then obtain oid where o: "shm_object (shmem st ! slot) = Some oid" by blast
  obtain o1 where o1: "shm_objects st oid = Some o1" "so_sp o1 = Some slot" by (rule shm_inv_slot [OF assms(1,2) o])
  have "shm_but oid 0 info st ps" using assms(1) by (simp add: shm_but_0)
  from seg_of(2) [OF this o1] show False using assms(3) by (simp add: seg_ok_def)
qed

text \<open>An entry of the table that has no segment changes, and may get one.\<close>

lemma slot_frame:
  assumes inv: "shm_inv info st ps" and slot: "slot < length (shmem st)" "shm_object (shmem st ! slot) = None"
    and st': "shmem st' = (shmem st)[slot := e]" "tasks st' = tasks st" "shm_panic st' = shm_panic st" "vm_maps st' = vm_maps st"
    and obj: "\<And>u. u \<noteq> oid \<Longrightarrow> shm_objects st' u = shm_objects st u" and new: "shm_objects st oid = None"
    and keys: "ipc_keys_unique shm_ip ((shmem st)[slot := e])" and ok: "slot_ok st' slot" "obj_ok 0 st' ps oid"
  shows "shm_inv info st' ps"
proof -
  have ents: "task_ents u st' = task_ents u st" for u by (simp add: task_ents_def st' fun_eq_iff)
  have "slot_ok st' j" if "j < length (shmem st)" for j
  proof (cases "j = slot")
    case False
    have "slot_ok st j" using inv that by (simp add: shm_inv_def)
    moreover have "shm_objects st' u = shm_objects st u" if "shm_objects st u \<noteq> None" for u using obj new that by (cases "u = oid") auto
    ultimately show ?thesis using False by (auto simp: slot_ok_def st' split: option.splits)
  qed (use ok in simp)
  moreover have "obj_ok 0 st' ps u" for u
  proof (cases "u = oid")
    case False
    have o: "obj_ok 0 st ps u" using inv by (simp add: shm_inv_def)
    show ?thesis
    proof (cases "shm_objects st u")
      case None
      then show ?thesis using o obj [OF False] by (simp add: obj_ok_def ents)
    next
      case (Some o1)
      then obtain j where j: "so_sp o1 = Some j" "j < length (shmem st)"
        "seg_ok 0 u j (tasks st) (task_ents u st) (pend_of u ps) (shmem st ! j) o1" using o by (auto simp: obj_ok_def)
      then have "j \<noteq> slot" using slot(2) by (auto simp: seg_ok_def)
      then show ?thesis using Some j obj [OF False] by (simp add: obj_ok_def ents st')
    qed
  qed (use ok in simp)
  ultimately show ?thesis using inv keys by (simp add: shm_inv_def shm_base_def st')
qed

lemma idle_upd:
  assumes inv: "shm_inv info st ps" and slot: "slot < length (shmem st)" "shm_object (shmem st ! slot) = None"
    and e: "shm_object e = None" "\<not> ipc_allocated (shm_ip e)" "0 \<le> ip_seq (shm_ip e)" "ip_seq (shm_ip e) < 65536"
    and new: "shm_objects st oid = None"
  shows "shm_inv info (st\<lparr>shmem := (shmem st)[slot := e]\<rparr>) ps"
proof (rule slot_frame [OF inv slot, where oid = oid and e = e])
  show "ipc_keys_unique shm_ip ((shmem st)[slot := e])"
    by (rule shm_keys_upd) (use inv slot e in \<open>simp_all add: shm_inv_def shm_base_def ipc_has_key_def\<close>)
  show "slot_ok (st\<lparr>shmem := (shmem st)[slot := e]\<rparr>) slot" using e slot(1) by (simp add: slot_ok_def)
  have "obj_ok 0 st ps oid" using inv by (simp add: shm_inv_def)
  then show "obj_ok 0 (st\<lparr>shmem := (shmem st)[slot := e]\<rparr>) ps oid" using new by (simp add: obj_ok_def)
qed (simp_all add: new)

lemma init_not_removed: "(IPC_ALLOC OR ucast (flag AND 0x1FF)) AND SHM_REMOVED = 0" for flag :: "64 word"
proof (rule bit_word_eqI)
  fix n
  assume "n < LENGTH(32)"
  have "bit (0x400 :: 32 word) n = (n = 10)" using bit_exp_iff [of 10 n, where 'a = "32 word"] \<open>n < LENGTH(32)\<close> by simp
  moreover have "\<not> bit (0x8000 :: 32 word) 10" "\<not> bit (0x1FF :: 64 word) 10" by simp_all
  ultimately show "bit ((IPC_ALLOC OR ucast (flag AND 0x1FF)) AND SHM_REMOVED) n = bit (0 :: 32 word) n"
    by (auto simp: IPC_ALLOC_def SHM_REMOVED_def bit_simps)
qed

lemma shmget_inv:
  assumes info: "shminfo_ok info" and inv: "shm_inv info st ps" and fresh: "shm_objects st oid = None"
    and r: "shmget env info key sz flag oid alloc reserve st = (res, st')"
  shows "shm_inv info st' ps"
proof (cases "ipcget shm_ip shm_set_ip (sh_cred env) (s32 key) flag (shmem st)")
  case (Inl e)
  then show ?thesis using inv r by (simp add: shmget_def)
next
  case (Inr x)
  obtain s slot tbl where x: "x = (s, slot, tbl)" by (cases x)
  show ?thesis
  proof (cases s)
    case False
    with Inr x have "tbl = shmem st" using shm_fac.ipcget_old by simp
    then show ?thesis using Inr x r False inv by (auto simp: shmget_def Let_def split: if_splits)
  next
    case True
    define e where "e = shmem st ! slot"
    define p where "p = ipc_init (sh_cred env) (s32 key) flag (shm_ip e)"
    have new: "slot < length (shmem st)" "tbl = (shmem st)[slot := shm_set_ip p e]" "\<not> ipc_allocated (shm_ip e)"
      using shm_fac.ipcget_new Inr [unfolded x] True by (auto simp: p_def e_def)
    have so: "shm_object (shmem st ! slot) = None" using idle_slot [OF inv new(1)] new(3) by (simp add: e_def)
    have seq: "0 \<le> ip_seq (shm_ip e)" "ip_seq (shm_ip e) < 65536"
      using inv new(1) by (simp_all add: shm_inv_def slot_ok_def e_def)
    have set_ip: "shm_ip (shm_set_ip p e) = p" by (simp add: shm_ip_def shm_set_ip_def)
    have u: "0 \<le> u16 y \<and> u16 y < 65536" for y by (simp add: u16_def)
    consider "sz < u64 (shmmin info) \<or> sz > u64 (shmmax info)" | "\<not> (sz < u64 (shmmin info) \<or> sz > u64 (shmmax info))" "\<not> (alloc \<and> reserve)"
      | "\<not> (sz < u64 (shmmin info) \<or> sz > u64 (shmmax info))" "alloc" "reserve" by blast
    then show ?thesis
    proof cases
      case 1
      define g where "g = (shm_set_ip p e)\<lparr>shm_ds := (shm_ds (shm_set_ip p e))\<lparr>shm_perm := p\<lparr>ip_mode := 0\<rparr>\<rparr>\<rparr>"
      have "st' = st\<lparr>shmem := (shmem st)[slot := g]\<rparr>"
        using r Inr x True new 1 by (auto simp: shmget_def Let_def ds_upd_def shmid_upd_def g_def shm_set_ip_def)
      moreover have "shm_object g = None" "shm_ip g = p\<lparr>ip_mode := 0\<rparr>" using so by (simp_all add: g_def shm_set_ip_def shm_ip_def e_def)
      ultimately show ?thesis using idle_upd [OF inv new(1) so, of g oid] fresh seq by (simp add: ipc_allocated_def p_def)
    next
      case 2
      define q where "q = (let q = u16 (ip_seq p + 1) in if s32 (q * shmmni info + int slot) < 0 then 0 else q)"
      define g where "g = (shm_set_ip p e)\<lparr>shm_object := None, shm_ds := (shm_ds (shm_set_ip p e))\<lparr>shm_segsz := 0, shm_perm := p\<lparr>ip_mode := 0, ip_seq := q\<rparr>\<rparr>\<rparr>"
      have "st' = st\<lparr>shmem := (shmem st)[slot := g]\<rparr>"
        using r Inr x True new 2 fresh
        by (auto simp: shmget_def Let_def u_shm_allocate_def u_shm_oop_deallocate_def shm_free_entry_def shmid_upd_def g_def set_ip q_def fun_upd_idem
            split: if_splits)
      moreover have "shm_object g = None" "shm_ip g = p\<lparr>ip_mode := 0, ip_seq := q\<rparr>" "0 \<le> q" "q < 65536"
        using u by (simp_all add: g_def shm_set_ip_def shm_ip_def q_def Let_def)
      ultimately show ?thesis using idle_upd [OF inv new(1) so, of g oid] fresh by (simp add: ipc_allocated_def)
    next
      case 3
      define g where "g = (shm_set_ip p e)\<lparr>shm_object := Some oid, shm_ds := (shm_ds (shm_set_ip p e))\<lparr>shm_segsz := s32 sz,
        shm_ctime := sh_time env, shm_cpid := sh_pid env, shm_atime := 0, shm_dtime := 0, shm_lpid := 0, shm_nattch := 0\<rparr>\<rparr>"
      let ?o = "\<lparr>so_refcnt = 1, so_sp = Some slot, so_attach = []\<rparr>"
      have f: "shmem st' = (shmem st)[slot := g]" "tasks st' = tasks st" "shm_panic st' = shm_panic st" "vm_maps st' = vm_maps st"
        "shm_objects st' = (shm_objects st)(oid := Some ?o)"
        using r Inr x True new 3
        by (auto simp: shmget_def Let_def u_shm_allocate_def obj_upd_def ds_upd_def shmid_upd_def g_def split: if_splits)
      have g: "shm_ip g = p" "shm_object g = Some oid" "shm_nattch (shm_ds g) = 0" by (simp_all add: g_def shm_set_ip_def shm_ip_def)
      have "shm_ip g = shm_ip (shm_set_ip p e)" using g set_ip by simp
      then have "map shm_ip tbl = map shm_ip ((shmem st)[slot := g])" by (simp add: new(2) map_update)
      moreover have "ipc_keys_unique shm_ip tbl"
        using shm_fac.ipcget_keys_unique [of "shmem st"] inv Inr x by (simp add: shm_inv_def shm_base_def)
      ultimately have keys: "ipc_keys_unique shm_ip ((shmem st)[slot := g])" using ipc_keys_unique_cong by metis
      have none: "task_ents oid st m = []" "pend_of oid ps = []" for m
        using inv fresh by (auto simp: shm_inv_def obj_ok_def split: option.splits dest: spec [of _ oid])
      have ents: "task_ents oid st' = task_ents oid st" by (simp add: task_ents_def f fun_eq_iff)
      have al: "ipc_allocated p" by (simp add: p_def)
      have "\<not> shm_removed g" using g init_not_removed [of flag] by (simp add: p_def shm_removed_def ipc_init_def)
      have "seg_ok 0 oid slot (tasks st') (task_ents oid st') (pend_of oid ps) g ?o"
        using g al none \<open>\<not> shm_removed g\<close> by (simp add: seg_ok_def ents mapped_def at_pos_def at_sum_def)
      then have "obj_ok 0 st' ps oid" using new(1) by (simp add: obj_ok_def f)
      moreover have "slot_ok st' slot" using new(1) g seq by (simp add: slot_ok_def f p_def)
      ultimately show ?thesis by (intro slot_frame [OF inv new(1) so f(1-4) _ fresh keys]) (simp_all add: f)
    qed
  qed
qed

section \<open>Steps and reachable states\<close>

text \<open>
  A step is a system call, the end of a \<open>shmat\<close>, the removal of an entry by the map code (in the
  task or in the reaper), a fork, or a mapping of other memory.  A segment is not removed a second
  time while a \<open>shmat\<close> of it is under way, and the wiring of new memory does not fail.
\<close>

inductive shm_step :: "shminfo \<Rightarrow> shm_state \<times> shm_attaching list \<Rightarrow> shm_state \<times> shm_attaching list \<Rightarrow> bool" for info where
  shstep_get: "shmget env info key sz flag oid alloc reserve st = (r, st') \<Longrightarrow> shm_objects st oid = None \<Longrightarrow> shm_step info (st, ps) (st', ps)"
| shstep_at: "shmat env info shmid addr flag st = (Inr a, st') \<Longrightarrow> sh_task env < tasks st \<Longrightarrow> shm_step info (st, ps) (st', a # ps)"
| shstep_entered: "a \<in> set ps \<Longrightarrow> shmat_entered env info a (Entered addr) st = (r, st') \<Longrightarrow> shm_step info (st, ps) (st', remove1 a ps)"
| shstep_failed: "a \<in> set ps \<Longrightarrow> shmat_entered env info a (EnterFailed k) st = (r, st') \<Longrightarrow> shm_step info (st, ps) (st', remove1 a ps)"
| shstep_dt: "shmdt env info addr st = (r, st') \<Longrightarrow> shm_step info (st, ps) (st', ps)"
| shstep_ctl: "shmctl env info uds c shmid cmd st = (r, d, st') \<Longrightarrow>
    (\<And>slot. cmd = 0 \<Longrightarrow> shmconv info (shmem st) shmid = Some slot \<Longrightarrow> rmid_safe slot st ps) \<Longrightarrow> shm_step info (st, ps) (st', ps)"
| shstep_unmap: "e \<in> set (vm_maps st m) \<Longrightarrow> entry_delete env info reaper m e addr len st = (r, st') \<Longrightarrow> shm_step info (st, ps) (st', ps)"
| shstep_fork: "p < tasks st \<Longrightarrow> shm_step info (st, ps) (u_map_fork pid segs p st, ps)"
| shstep_other: "m < tasks st \<Longrightarrow>
    filter (\<lambda>e. vme_object e \<noteq> OtherObject) es = filter (\<lambda>e. vme_object e \<noteq> OtherObject) (vm_maps st m) \<Longrightarrow>
    shm_step info (st, ps) (st\<lparr>vm_maps := (vm_maps st)(m := es)\<rparr>, ps)"

inductive shm_reach :: "shminfo \<Rightarrow> shm_state \<Rightarrow> shm_attaching list \<Rightarrow> bool" for info where
  shreach_init: "shm_reach info (shm_init info) []"
| shreach_step: "shm_reach info st ps \<Longrightarrow> shm_step info (st, ps) (st', ps') \<Longrightarrow> shm_reach info st' ps'"

lemma shm_step_inv:
  assumes "shm_step info (st, ps) (st', ps')" "shminfo_ok info" "shm_inv info st ps"
  shows "shm_inv info st' ps'"
  using assms(1)
proof cases
  case shstep_get
  then show ?thesis using shmget_inv [OF assms(2,3)] by blast
next
  case shstep_at
  then show ?thesis using shmat_Inr [OF _ assms(2,3)] by blast
next
  case (shstep_entered a env addr r)
  then show ?thesis using shmat_entered_inv(1) [OF assms(3) _ assms(2), of a env addr] by simp
next
  case (shstep_failed a env k r)
  then show ?thesis using shmat_entered_inv(2) [OF assms(3) _ assms(2), of a env k] by simp
next
  case shstep_dt
  then show ?thesis using shmdt_inv [OF assms(3,2)] by blast
next
  case (shstep_ctl env uds c shmid cmd r d)
  show ?thesis using shmctl_inv [OF assms(3,2) shstep_ctl(2)] shstep_ctl(1,3) by blast
next
  case shstep_unmap
  then show ?thesis using entry_delete_inv [OF assms(3) _ assms(2)] by blast
next
  case shstep_fork
  then show ?thesis using u_map_fork_inv [OF assms(3)] by blast
next
  case shstep_other
  then show ?thesis using maps_other [OF assms(3)] by blast
qed

lemma shm_init_inv: "shm_inv info (shm_init info) []"
proof -
  have "slot_ok (shm_init info) j" if "j < length (shmem (shm_init info))" for j
    using that by (simp add: slot_ok_def shm_init_def shm_ip_def ipc_allocated_def)
  moreover have "obj_ok 0 (shm_init info) [] u" for u by (simp add: obj_ok_def shm_init_def task_ents_def pend_of_def)
  moreover have "shm_base info (shm_init info)"
    by (simp add: shm_base_def shm_init_def ipc_keys_unique_def ipc_has_key_def shm_ip_def ipc_allocated_def)
  ultimately show ?thesis by (simp add: shm_inv_def)
qed

lemma shm_reach_inv: "shm_reach info st ps \<Longrightarrow> shminfo_ok info \<Longrightarrow> shm_inv info st ps"
  by (induction rule: shm_reach.induct) (auto intro: shm_init_inv shm_step_inv)

end
