(* ===== verification/Svipc_Shm_Claims.thy ===== *)
theory Svipc_Shm_Claims
  imports Svipc_Shm_Reach
begin

text \<open>The properties of shared memory segments.\<close>

section \<open>References\<close>

text \<open>C7: The bookkeeping of shared memory.  Whatever \<open>shmget\<close>, \<open>shmat\<close>, \<open>shmdt\<close>, \<open>shmctl\<close>, forks,
  exits and removals of map entries any number of tasks make, with calls of \<open>shmat\<close> under way, the
  count \<open>shm_nattch\<close> of a segment is the number of map entries with its object, the attach array has
  their number for every address space, the references of the object are the entries, the calls
  under way and one more until the segment is removed, and nothing panics.  Two things are excluded
  from these runs, because the code does not survive them: an \<open>IPC_RMID\<close> of a segment that is
  already removed while a \<open>shmat\<close> of it is under way, and a new mapping whose memory cannot be
  wired; the last section shows what they do.\<close>

theorem shm_references_counted:
  assumes "shm_reach info st ps" "shminfo_ok info" "slot < length (shmem st)" "shm_object (shmem st ! slot) = Some oid"
  shows "\<exists>o1. shm_objects st oid = Some o1 \<and> so_sp o1 = Some slot
    \<and> shm_nattch (shm_ds (shmem st ! slot)) = mapped (tasks st) (task_ents oid st)
    \<and> (\<forall>m. at_sum m (so_attach o1) = int (length (task_ents oid st m)))
    \<and> so_refcnt o1 = mapped (tasks st) (task_ents oid st) + int (length (pend_of oid ps))
        + (if shm_removed (shmem st ! slot) then 0 else 1)
    \<and> \<not> shm_panic st"
proof -
  have inv: "shm_inv info st ps" by (rule shm_reach_inv [OF assms(1,2)])
  obtain o1 where o: "shm_objects st oid = Some o1" "so_sp o1 = Some slot" by (rule shm_inv_slot [OF inv assms(3,4)])
  have "shm_but oid 0 info st ps" using inv by (simp add: shm_but_0)
  from seg_of(2) [OF this o] show ?thesis using o inv by (simp add: seg_ok_def shm_inv_def shm_base_def)
qed

text \<open>A segment that its creator attaches.\<close>

definition ex_sinfo :: shminfo where "ex_sinfo = \<lparr>shmmax = 4194304, shmmin = 1, shmmni = 4, shmseg = 32\<rparr>"

definition ex_senv :: shm_env where
  "ex_senv = \<lparr>sh_cred = \<lparr>cr_uid = 7, cr_gid = 7\<rparr>, sh_pid = 100, sh_time = 50, sh_task = 0\<rparr>"

definition ex_seg :: shm_state where
  "ex_seg = snd (shmget ex_senv ex_sinfo 5 10000 0x380 0 True True (shm_init ex_sinfo))"

definition ex_attaching :: shm_attaching where
  "ex_attaching = \<lparr>sa_slot = 0, sa_object = 0, sa_size = 16384, sa_addr = None, sa_write = True, sa_task = 0\<rparr>"

definition ex_started :: shm_state where "ex_started = snd (shmat ex_senv ex_sinfo 0 0 0 ex_seg)"

definition ex_attached :: shm_state where
  "ex_attached = snd (shmat_entered ex_senv ex_sinfo ex_attaching (Entered 0x100000) ex_started)"

lemma ex_sinfo_ok: "shminfo_ok ex_sinfo"
  by (simp add: shminfo_ok_def ex_sinfo_def)

lemma ex_seg_reach: "shm_reach ex_sinfo ex_seg []"
proof -
  have "shm_step ex_sinfo (shm_init ex_sinfo, []) (ex_seg, [])"
    by (rule shstep_get [where env = ex_senv and key = 5 and sz = 10000 and flag = "0x380" and oid = 0 and alloc = True and reserve = True
        and r = "fst (shmget ex_senv ex_sinfo 5 10000 0x380 0 True True (shm_init ex_sinfo))"])
      (simp_all add: ex_seg_def shm_init_def)
  then show ?thesis using shreach_step [OF shreach_init] by blast
qed

lemma ex_seg_task: "tasks ex_seg = 1"
  by code_simp

lemma ex_started_at: "fst (shmat ex_senv ex_sinfo 0 0 0 ex_seg) = Inr ex_attaching"
  by code_simp

lemma ex_started_reach: "shm_reach ex_sinfo ex_started [ex_attaching]"
proof -
  have "shmat ex_senv ex_sinfo 0 0 0 ex_seg = (Inr ex_attaching, ex_started)"
    using ex_started_at by (simp add: ex_started_def prod_eq_iff)
  then have "shm_step ex_sinfo (ex_seg, []) (ex_started, [ex_attaching])"
    by (rule shstep_at) (simp add: ex_seg_task ex_senv_def)
  then show ?thesis using shreach_step [OF ex_seg_reach] by blast
qed

lemma ex_attached_reach: "shm_reach ex_sinfo ex_attached []"
proof -
  have "shm_step ex_sinfo (ex_started, [ex_attaching]) (ex_attached, remove1 ex_attaching [ex_attaching])"
    by (rule shstep_entered [where env = ex_senv and addr = "0x100000"
        and r = "fst (shmat_entered ex_senv ex_sinfo ex_attaching (Entered 0x100000) ex_started)"])
      (simp_all add: ex_attached_def)
  then show ?thesis using shreach_step [OF ex_started_reach] by fastforce
qed

lemma ex_attached_table: "length (shmem ex_attached) = 4" "shm_object (shmem ex_attached ! 0) = Some 0"
  "shm_nattch (shm_ds (shmem ex_attached ! 0)) = 1"
  by code_simp+

theorem shm_references_counted_witness: "mapped (tasks ex_attached) (task_ents 0 ex_attached) = 1"
  using shm_references_counted [OF ex_attached_reach ex_sinfo_ok, of 0 0] ex_attached_table by auto

text \<open>C11: The life of a memory object.  In every state reached by runs in which no segment is removed
  a second time while a \<open>shmat\<close> of it is under way, and the wiring of new memory does not fail, a
  map entry or a call of \<open>shmat\<close> under way has an object that exists, and an object exists only as
  the object of an entry of the table that has not been removed, or is still mapped, or is about to
  be: in such runs nothing is used after it is freed, and nothing is kept for ever.  Without the first
  condition an object is used after it is freed, without the second one the kernel panics, as the
  last section shows.\<close>

theorem shm_object_lives:
  assumes "shm_reach info st ps" "shminfo_ok info"
  shows "((\<exists>m. \<exists>e\<in>set (vm_maps st m). vme_object e = ShmObject oid) \<or> (\<exists>a\<in>set ps. sa_object a = oid) \<longrightarrow> shm_objects st oid \<noteq> None)
    \<and> (shm_objects st oid \<noteq> None \<longrightarrow> (\<exists>slot<length (shmem st). shm_object (shmem st ! slot) = Some oid
        \<and> (\<not> shm_removed (shmem st ! slot) \<or> (\<exists>m. \<exists>e\<in>set (vm_maps st m). vme_object e = ShmObject oid) \<or> (\<exists>a\<in>set ps. sa_object a = oid))))"
proof (intro conjI impI)
  have inv: "shm_inv info st ps" by (rule shm_reach_inv [OF assms])
  then have o: "obj_ok 0 st ps oid" by (simp add: shm_inv_def)
  have ent: "(\<exists>m. \<exists>e\<in>set (vm_maps st m). vme_object e = ShmObject oid) = (\<exists>m. task_ents oid st m \<noteq> [])"
    by (simp add: task_ents_def filter_empty_conv)
  have pend: "(\<exists>a\<in>set ps. sa_object a = oid) = (pend_of oid ps \<noteq> [])" by (simp add: pend_of_def filter_empty_conv)
  show "shm_objects st oid \<noteq> None"
    if "(\<exists>m. \<exists>e\<in>set (vm_maps st m). vme_object e = ShmObject oid) \<or> (\<exists>a\<in>set ps. sa_object a = oid)"
    using that o unfolding ent pend by (auto simp: obj_ok_def split: option.splits)
  assume "shm_objects st oid \<noteq> None"
  then obtain o1 slot where s: "slot < length (shmem st)"
    "seg_ok 0 oid slot (tasks st) (task_ents oid st) (pend_of oid ps) (shmem st ! slot) o1"
    using o by (auto simp: obj_ok_def)
  have "\<exists>m. task_ents oid st m \<noteq> []" if "shm_removed (shmem st ! slot)" "pend_of oid ps = []"
  proof (rule ccontr)
    assume "\<nexists>m. task_ents oid st m \<noteq> []"
    then have "mapped (tasks st) (task_ents oid st) = 0" by (simp add: mapped_def)
    then show False using s(2) that by (auto simp: seg_ok_def)
  qed
  then show "\<exists>slot<length (shmem st). shm_object (shmem st ! slot) = Some oid
        \<and> (\<not> shm_removed (shmem st ! slot) \<or> (\<exists>m. \<exists>e\<in>set (vm_maps st m). vme_object e = ShmObject oid) \<or> (\<exists>a\<in>set ps. sa_object a = oid))"
    unfolding ent pend using s by (auto simp: seg_ok_def)
qed

theorem shm_object_lives_witness: "shm_objects ex_started 0 \<noteq> None"
  using shm_object_lives [OF ex_started_reach ex_sinfo_ok, of 0] by (simp add: ex_attaching_def)

section \<open>Attaching and detaching\<close>

lemma at_del_add: "at_pos as \<Longrightarrow> \<exists>pid'. at_del m (at_add m pid as) = Some (pid', as)"
proof (induction m pid as rule: at_add.induct)
  case (2 m pid a as)
  then show ?case by (auto simp: at_pos_def)
qed simp

lemma find_object_only:
  assumes "i < length tbl" "shm_object (tbl ! i) = Some oid" "\<And>j. j < length tbl \<Longrightarrow> shm_object (tbl ! j) = Some oid \<Longrightarrow> j = i"
  shows "find_object (ShmObject oid) k tbl = Some (k + i)"
  using assms
proof (induction tbl arbitrary: i k)
  case (Cons e tbl)
  show ?case
  proof (cases "shm_object e = Some oid")
    case True
    then have "i = 0" using Cons.prems(3) [of 0] by simp
    then show ?thesis using True by simp
  next
    case False
    then obtain j where j: "i = Suc j" using Cons.prems(2) by (cases i) simp_all
    have only: "u = j" if "u < length tbl" "shm_object (tbl ! u) = Some oid" for u
      using Cons.prems(3) [of "Suc u"] that j by simp
    have "find_object (ShmObject oid) (Suc k) tbl = Some (Suc k + j)"
      using Cons.prems j by (intro Cons.IH only) auto
    then show ?thesis using False j by (auto split: option.splits)
  qed
qed simp

lemma round_page_add: "addr mod PAGE_SIZE = 0 \<Longrightarrow> round_page (addr + x) = addr + round_page x"
proof -
  assume "addr mod PAGE_SIZE = 0"
  then obtain q where q: "addr = PAGE_SIZE * q" by (auto simp: mod_eq_0_iff_dvd dvd_def)
  have "(PAGE_SIZE * q + x + (PAGE_SIZE - 1)) div PAGE_SIZE = (PAGE_SIZE * q + (x + (PAGE_SIZE - 1))) div PAGE_SIZE"
    by (simp only: add.assoc)
  also have "\<dots> = q + (x + (PAGE_SIZE - 1)) div PAGE_SIZE" by (rule div_mult_self4) (simp add: PAGE_SIZE_def)
  finally show ?thesis unfolding round_page_def q by (simp add: distrib_left mult.commute)
qed

text \<open>C36: Round trip.  When \<open>shmat\<close> attaches a segment of a nonempty size at an address the map
  chose, \<open>shmdt\<close> of that address by the same task succeeds and restores everything but the times
  and the last process of the segment: the map, the objects with their references and attach
  arrays, the number of attachments and the count of the task.\<close>

theorem shmat_shmdt_roundtrip:
  assumes reach: "shm_reach info st ps" "shminfo_ok info" "sh_task env < tasks st" "0 \<le> u_shmsegs st (sh_task env)" "u_shmsegs st (sh_task env) < 65536"
    and a: "shmat env info shmid hint flag st = (Inr a, st1)" "0 < sa_size a"
    and e: "shmat_entered env info a (Entered addr) st1 = (Inr v, st2)" "addr mod PAGE_SIZE = 0" "VM_MIN_ADDRESS \<le> addr"
    and d: "shmdt env info v st2 = (r, st3)"
  shows "r = Inr 0 \<and> vm_maps st3 = vm_maps st \<and> shm_objects st3 = shm_objects st \<and> u_shmsegs st3 = u_shmsegs st
    \<and> map (\<lambda>x. (shm_object x, shm_ip x, shm_segsz (shm_ds x), shm_nattch (shm_ds x))) (shmem st3)
      = map (\<lambda>x. (shm_object x, shm_ip x, shm_segsz (shm_ds x), shm_nattch (shm_ds x))) (shmem st)"
proof -
  have inv: "shm_inv info st ps" by (rule shm_reach_inv [OF reach(1,2)])
  then have base: "shm_base info st" by (simp add: shm_inv_def)
  let ?t = "sh_task env"
  obtain slot oid o1 where c: "shmconv info (shmem st) shmid = Some slot" "shm_object (shmem st ! slot) = Some oid" "shm_objects st oid = Some o1"
    "\<not> so_refcnt o1 \<le> shm_nattch (shm_ds (shmem st ! slot))"
    "sa_slot a = slot" "sa_object a = oid" "sa_size a = round_page (shm_segsz (shm_ds (shmem st ! slot)))" "sa_task a = ?t"
    "st1 = st\<lparr>shm_objects := (shm_objects st)(oid := Some (o1\<lparr>so_refcnt := so_refcnt o1 + 1\<rparr>))\<rparr>"
    using a(1) by (auto simp: shmat_def Let_def vm_object_reference_def obj_upd_def split: option.splits if_splits)
  note slot = shmconv_slot(1) [OF reach(2) base c(1)]
  obtain o2 where "shm_objects st oid = Some o2" "so_sp o2 = Some slot" by (rule shm_inv_slot [OF inv slot c(2)])
  then have sp: "so_sp o1 = Some slot" using c(3) by simp
  have but: "shm_but oid 0 info st ps" using inv by (simp add: shm_but_0)
  have seg: "at_pos (so_attach o1)" "0 < so_refcnt o1" using seg_of(2) [OF but c(3) sp] by (simp_all add: seg_ok_def)
  let ?e = "shmem st ! slot" let ?x = "enter_entry a addr"
  let ?as = "at_add ?t (sh_pid env) (so_attach o1)"
  define e2 where "e2 = ?e\<lparr>shm_ds := (shm_ds ?e)\<lparr>shm_atime := sh_time env, shm_lpid := sh_pid env, shm_nattch := shm_nattch (shm_ds ?e) + 1\<rparr>\<rparr>"
  have st2: "v = addr" "shmem st2 = (shmem st)[slot := e2]" "vm_maps st2 = (vm_maps st)(?t := ?x # vm_maps st ?t)"
    "shm_objects st2 = (shm_objects st)(oid := Some (o1\<lparr>so_refcnt := so_refcnt o1 + 1, so_attach := ?as\<rparr>))"
    "u_shmsegs st2 = (u_shmsegs st)(?t := u16 (u_shmsegs st ?t + 1))"
    using e(1) slot c(5-8)
    by (auto simp: shmat_entered_def c(9) map_link_def u_shm_attach_def obj_upd_def ds_upd_def shmid_upd_def e2_def Let_def)
  have x: "vme_start ?x = addr" "vme_end ?x = addr + sa_size a" "vme_object ?x = ShmObject oid" by (simp_all add: enter_entry_def c(6))
  have e2: "shm_object e2 = Some oid" "shm_segsz (shm_ds e2) = shm_segsz (shm_ds ?e)" by (simp_all add: e2_def c(2))
  have only: "j = slot" if jj: "j < length (shmem st)" "shm_object (shmem st ! j) = Some oid" for j
  proof -
    obtain o3 where "shm_objects st oid = Some o3" "so_sp o3 = Some j" by (rule shm_inv_slot [OF inv jj])
    then show ?thesis using c(3) sp by simp
  qed
  have only2: "j = slot" if "j < length (shmem st2)" "shm_object (shmem st2 ! j) = Some oid" for j
  proof (rule ccontr)
    assume n: "j \<noteq> slot"
    then have "j < length (shmem st)" "shm_object (shmem st ! j) = Some oid" using that by (simp_all add: st2(2))
    then show False using only n by blast
  qed
  have l2: "slot < length (shmem st2)" "shm_object (shmem st2 ! slot) = Some oid" using slot e2 by (simp_all add: st2(2))
  have fo: "find_object (ShmObject oid) 0 (shmem st2) = Some slot"
    using find_object_only [OF l2 only2, of 0] by simp
  have len: "min (round_page (addr + shm_segsz (shm_ds (shmem st2 ! slot)))) (vme_end ?x) - addr = sa_size a"
    using slot e2 by (simp add: st2(2) round_page_add [OF e(2)] x c(7))
  obtain pid where del: "at_del ?t ?as = Some (pid, so_attach o1)" using at_del_add [OF seg(1)] by blast
  have segs: "u16 (u16 (u_shmsegs st ?t + 1) - 1) = u_shmsegs st ?t" using reach(4,5) by (simp add: u16_def mod_simps)
  define e3 where "e3 = e2\<lparr>shm_ds := (shm_ds e2)\<lparr>shm_nattch := shm_nattch (shm_ds e2) - 1, shm_dtime := sh_time env, shm_lpid := pid\<rparr>\<rparr>"
  obtain rr st4 where u: "entry_delete env info False ?t ?x addr (sa_size a) st2 = (rr, st4)" by fastforce
  have st4: "rr = None" "shmem st4 = (shmem st)[slot := e3]" "vm_maps st4 = vm_maps st" "shm_objects st4 = shm_objects st" "u_shmsegs st4 = u_shmsegs st"
    using u slot x c(3,4) sp del seg(2) segs
    by (auto simp: entry_delete_def u_shm_unmap_def u_shm_dettach_def vm_map_entry_delete_def u_shm_oop_deallocate_def ds_upd_def shmid_upd_def
        st2 e3_def e2_def Let_def fun_upd_idem)
  have "find (\<lambda>e. vme_start e \<le> addr \<and> addr < vme_end e) (vm_maps st2 ?t) = Some ?x" using a(2) by (simp add: st2 x)
  then have fin: "r = Inr 0" "st3 = ds_upd (\<lambda>d. d\<lparr>shm_dtime := sh_time env, shm_lpid := sh_pid env\<rparr>) slot st4"
    using d e(3) u by (auto simp: shmdt_def Let_def st2(1) x fo len [unfolded x] st4(1))
  define e5 where "e5 = e3\<lparr>shm_ds := (shm_ds e3)\<lparr>shm_dtime := sh_time env, shm_lpid := sh_pid env\<rparr>\<rparr>"
  have "shmem st3 = (shmem st)[slot := e5]" using slot by (simp add: fin(2) ds_upd_def shmid_upd_def st4 e5_def)
  moreover have "(shm_object e5, shm_ip e5, shm_segsz (shm_ds e5), shm_nattch (shm_ds e5)) = (shm_object ?e, shm_ip ?e, shm_segsz (shm_ds ?e), shm_nattch (shm_ds ?e))"
    by (simp add: e5_def e3_def e2_def shm_ip_def)
  ultimately have "map (\<lambda>x. (shm_object x, shm_ip x, shm_segsz (shm_ds x), shm_nattch (shm_ds x))) (shmem st3)
      = map (\<lambda>x. (shm_object x, shm_ip x, shm_segsz (shm_ds x), shm_nattch (shm_ds x))) (shmem st)"
    using slot by (intro nth_equalityI) (auto simp: nth_list_update)
  then show ?thesis using fin(1) by (simp add: fin(2) ds_upd_def shmid_upd_def st4)
qed

lemma ex_detached: "fst (shmdt ex_senv ex_sinfo 0x100000 ex_attached) = Inr 0" "u_shmsegs ex_seg 0 = 0"
  "fst (shmat_entered ex_senv ex_sinfo ex_attaching (Entered 0x100000) ex_started) = Inr 0x100000"
  by code_simp+

theorem shmat_shmdt_roundtrip_witness:
  "vm_maps (snd (shmdt ex_senv ex_sinfo 0x100000 ex_attached)) = vm_maps ex_seg"
proof -
  have a: "shmat ex_senv ex_sinfo 0 0 0 ex_seg = (Inr ex_attaching, ex_started)"
    using ex_started_at by (simp add: ex_started_def prod_eq_iff)
  have e: "shmat_entered ex_senv ex_sinfo ex_attaching (Entered 0x100000) ex_started = (Inr 0x100000, ex_attached)"
    using ex_detached(3) by (simp add: ex_attached_def prod_eq_iff)
  have t: "sh_task ex_senv = 0" "sa_size ex_attaching = 16384" by (simp_all add: ex_senv_def ex_attaching_def)
  have d: "shmdt ex_senv ex_sinfo 0x100000 ex_attached = (Inr 0, snd (shmdt ex_senv ex_sinfo 0x100000 ex_attached))"
    using ex_detached(1) by (simp add: prod_eq_iff)
  show ?thesis
    using shmat_shmdt_roundtrip [OF ex_seg_reach ex_sinfo_ok _ _ _ a _ e _ _ d] ex_seg_task ex_detached(2)
    by (simp add: t PAGE_SIZE_def VM_MIN_ADDRESS_def)
qed

section \<open>What the protocol does not cover\<close>

lemma shmctl_rmid_refcnt:
  assumes c: "shmconv info (shmem st) shmid = Some slot" "slot < length (shmem st)" "cr_uid (sh_cred env) = ip_uid (shm_ip (shmem st ! slot))"
    and o: "shm_object (shmem st ! slot) = Some oid" "shm_objects st oid = Some o1" "so_sp o1 = Some slot"
      "shm_nattch (shm_ds (shmem st ! slot)) < so_refcnt o1"
    and r: "shmctl env info uds co shmid 0 st = (r, d, st')"
  shows "r = Inr 0" "so_refcnt o1 = 1 \<Longrightarrow> shm_objects st' oid = None"
    "so_refcnt o1 \<noteq> 1 \<Longrightarrow> shm_objects st' oid = Some (o1\<lparr>so_refcnt := so_refcnt o1 - 1\<rparr>)
      \<and> length (shmem st') = length (shmem st) \<and> shmconv info (shmem st') shmid = Some slot
      \<and> shm_object (shmem st' ! slot) = Some oid \<and> shm_nattch (shm_ds (shmem st' ! slot)) = shm_nattch (shm_ds (shmem st ! slot))
      \<and> ip_uid (shm_ip (shmem st' ! slot)) = ip_uid (shm_ip (shmem st ! slot))"
proof -
  let ?g = "ds_upd (\<lambda>d. d\<lparr>shm_perm := (shm_perm d)\<lparr>ip_key := IPC_PRIVATE, ip_mode := ip_mode (shm_perm d) OR SHM_REMOVED\<rparr>\<rparr>) slot"
  have e: "r = Inr 0 \<and> st' = ?g (u_shm_oop_deallocate info oid st)"
    using r c o(1) by (simp add: shmctl_def shmctl_rmid_def shm_owner_def Let_def)
  then show "r = Inr 0" by blast
  show "shm_objects st' oid = None" if "so_refcnt o1 = 1"
    using e o that by (simp add: u_shm_oop_deallocate_def ds_upd_def shmid_upd_def)
  assume more: "so_refcnt o1 \<noteq> 1"
  let ?e = "shmem st ! slot"
  define e1 where "e1 = ?e\<lparr>shm_ds := (shm_ds ?e)\<lparr>shm_perm := (shm_ip ?e)\<lparr>ip_key := IPC_PRIVATE, ip_mode := ip_mode (shm_ip ?e) OR SHM_REMOVED\<rparr>\<rparr>\<rparr>"
  have f: "shm_objects st' = (shm_objects st)(oid := Some (o1\<lparr>so_refcnt := so_refcnt o1 - 1\<rparr>))" "shmem st' = (shmem st)[slot := e1]"
    using e o more by (simp_all add: u_shm_oop_deallocate_def ds_upd_def shmid_upd_def e1_def shm_ip_def)
  have e1: "ipc_allocated (shm_ip e1) = ipc_allocated (shm_ip ?e)" "ip_seq (shm_ip e1) = ip_seq (shm_ip ?e)" "ip_uid (shm_ip e1) = ip_uid (shm_ip ?e)"
    "shm_object e1 = Some oid" "shm_nattch (shm_ds e1) = shm_nattch (shm_ds ?e)"
    using o(1) by (simp_all add: e1_def shm_ip_def ipc_allocated_def set_mode_bits)
  have "shmconv info (shmem st') shmid = Some slot"
    using c(1,2) e1(1,2) by (auto simp: f(2) shmconv_def Let_def aref_def nth_list_update split: if_splits option.splits)
  then show "shm_objects st' oid = Some (o1\<lparr>so_refcnt := so_refcnt o1 - 1\<rparr>)
      \<and> length (shmem st') = length (shmem st) \<and> shmconv info (shmem st') shmid = Some slot
      \<and> shm_object (shmem st' ! slot) = Some oid \<and> shm_nattch (shm_ds (shmem st' ! slot)) = shm_nattch (shm_ds (shmem st ! slot))
      \<and> ip_uid (shm_ip (shmem st' ! slot)) = ip_uid (shm_ip (shmem st ! slot))"
    using c(2) e1 by (simp add: f)
qed

text \<open>C35: A segment removed twice while it is attached.  A call of \<open>shmat\<close> has taken its reference and
  waits for the map; two calls of \<open>IPC_RMID\<close> by the owner both succeed, and the second one, which
  \<open>shmctl\<close> still allows, takes a reference that is not the table's: the object is left with one
  reference fewer than it has map entries and waiting calls.  When the waiting call is the only one
  of them the object is freed, and the call goes on with an object that is gone.\<close>

theorem rmid_twice_frees_attaching:
  assumes "shm_reach info st ps" "shminfo_ok info" "a \<in> set ps" "\<not> shm_removed (shmem st ! sa_slot a)"
    "shmconv info (shmem st) shmid = Some (sa_slot a)" "cr_uid (sh_cred env) = ip_uid (shm_ip (shmem st ! sa_slot a))"
    "shmctl env info uds co shmid 0 st = (r1, d1, st1)" "shmctl env info uds co shmid 0 st1 = (r2, d2, st2)"
    "n = mapped (tasks st) (task_ents (sa_object a) st) + int (length (pend_of (sa_object a) ps))"
  shows "r1 = Inr 0 \<and> r2 = Inr 0
    \<and> (if n = 1 then shm_objects st2 (sa_object a) = None \<and> shm_panic (snd (shmat_entered env2 info a (Entered addr) st2))
        else \<exists>o2. shm_objects st2 (sa_object a) = Some o2 \<and> so_refcnt o2 = n - 1)"
proof -
  let ?o = "sa_object a" and ?s = "sa_slot a"
  have inv: "shm_inv info st ps" by (rule shm_reach_inv [OF assms(1,2)])
  then have base: "shm_base info st" by (simp add: shm_inv_def)
  obtain o1 where o: "shm_objects st ?o = Some o1" "so_sp o1 = Some ?s" by (rule pend_seg [OF inv assms(3)])
  have "shm_but ?o 0 info st ps" using inv by (simp add: shm_but_0)
  note s = seg_of [OF this o]
  have p: "0 < length (pend_of ?o ps)" using assms(3) by (auto simp: pend_of_def filter_empty_conv)
  have att: "shm_nattch (shm_ds (shmem st ! ?s)) = mapped (tasks st) (task_ents ?o st)" "so_refcnt o1 = n + 1"
    and obj: "shm_object (shmem st ! ?s) = Some ?o"
    using s(2) assms(4,9) by (auto simp: seg_ok_def)
  have n: "shm_nattch (shm_ds (shmem st ! ?s)) < n" "1 \<le> n"
    using p att(1) assms(9) mapped_nonneg [of "tasks st" "task_ents ?o st"] by linarith+
  have c: "shm_object (shmem st ! ?s) = Some ?o" "shm_nattch (shm_ds (shmem st ! ?s)) < so_refcnt o1" "so_refcnt o1 = n + 1"
    using obj att(2) n(1) by simp_all
  note one = shmctl_rmid_refcnt [OF assms(5) s(1) assms(6) c(1) o c(2) assms(7)]
  define o2 where "o2 = o1\<lparr>so_refcnt := so_refcnt o1 - 1\<rparr>"
  have "so_refcnt o1 \<noteq> 1" using c(3) n(2) by simp
  from one(3) [OF this] have st1: "shm_objects st1 ?o = Some o2" "?s < length (shmem st1)" "shmconv info (shmem st1) shmid = Some ?s"
    "shm_object (shmem st1 ! ?s) = Some ?o" "shm_nattch (shm_ds (shmem st1 ! ?s)) < so_refcnt o2"
    "cr_uid (sh_cred env) = ip_uid (shm_ip (shmem st1 ! ?s))" "so_sp o2 = Some ?s" "so_refcnt o2 = n"
    using s(1) assms(6) n(1) c(3) o(2) by (simp_all add: o2_def)
  note two = shmctl_rmid_refcnt [OF st1(3,2,6,4,1,7,5) assms(8)]
  show ?thesis
  proof (cases "n = 1")
    case True
    then have gone: "shm_objects st2 ?o = None" using two(2) st1(8) by simp
    then have "shm_panic (snd (shmat_entered env2 info a (Entered addr) st2))"
      by (simp add: shmat_entered_def map_link_def u_shm_attach_def obj_upd_def ds_upd_def shmid_upd_def Let_def)
    then show ?thesis using True one(1) two(1) gone by simp
  next
    case False
    then show ?thesis using one(1) two(1,3) st1(8) by simp
  qed
qed

definition ex_rmid :: "shm_state \<Rightarrow> shm_res" where
  "ex_rmid st = shmctl ex_senv ex_sinfo None True 0 0 st"

lemma ex_rmid_table: "\<not> shm_removed (shmem ex_started ! 0)" "shmconv ex_sinfo (shmem ex_started) 0 = Some 0"
  "cr_uid (sh_cred ex_senv) = ip_uid (shm_ip (shmem ex_started ! 0))" "sa_slot ex_attaching = 0" "sa_object ex_attaching = 0"
  "mapped (tasks ex_started) (task_ents 0 ex_started) + int (length (pend_of 0 [ex_attaching])) = 1"
  by code_simp+

theorem rmid_twice_frees_attaching_witness:
  "shm_objects (snd (snd (ex_rmid (snd (snd (ex_rmid ex_started)))))) 0 = None"
proof -
  have r: "ex_rmid st = (fst (ex_rmid st), fst (snd (ex_rmid st)), snd (snd (ex_rmid st)))" for st by simp
  note t = rmid_twice_frees_attaching [OF ex_started_reach ex_sinfo_ok _ _ _ _ r [unfolded ex_rmid_def] r [unfolded ex_rmid_def],
      of ex_attaching 1 ex_senv 0, folded ex_rmid_def]
  show ?thesis using t by (simp add: ex_rmid_table)
qed

text \<open>A first attachment whose memory cannot be wired: the map removes the entry it has made, and
  \<open>u_shm_unmap\<close> looks for an attachment that \<open>shmat\<close> has not recorded yet.\<close>

theorem wire_failure_panics:
  assumes "shm_reach info st ps" "shminfo_ok info" "a \<in> set ps" "task_ents (sa_object a) st (sa_task a) = []"
  shows "shm_panic (snd (shmat_entered env info a (WireFailed k addr) st))"
proof -
  have inv: "shm_inv info st ps" by (rule shm_reach_inv [OF assms(1,2)])
  obtain o1 where p: "shm_objects st (sa_object a) = Some o1" "so_sp o1 = Some (sa_slot a)" "sa_task a < tasks st" by (rule pend_seg [OF inv assms(3)])
  have "shm_but (sa_object a) 0 info st ps" using inv by (simp add: shm_but_0)
  from seg_of(2) [OF this p(1,2)] have z: "at_sum (sa_task a) (so_attach o1) = 0" "at_pos (so_attach o1)"
    using assms(4) by (simp_all add: seg_ok_def)
  have "at_del m as = None" if "at_sum m as = 0" "at_pos as" for m as
    using that
  proof (induction m as rule: at_del.induct)
    case (2 m a as)
    have s: "0 \<le> at_sum m as" using 2(3) unfolding at_sum_def at_pos_def by (intro sum_list_nonneg) (auto intro: less_imp_le)
    have n: "m \<noteq> at_map a" using 2(2,3) s by (auto simp: at_sum_def at_pos_def)
    then have "at_sum m as = 0" using 2(2) by (simp add: at_sum_def)
    then show ?case using n 2(1) 2(3) by (auto simp: at_pos_def)
  qed simp
  then have "at_del (sa_task a) (so_attach o1) = None" using z by blast
  then show ?thesis using p
    by (simp add: shmat_entered_def Let_def map_link_def enter_entry_def entry_delete_def u_shm_unmap_def u_shm_dettach_def ds_upd_def shmid_upd_def
        vm_map_entry_delete_def u_shm_oop_deallocate_def shm_free_entry_def split: prod.splits)
qed

end
