(* ===== verification/Clist_Blocks.thy ===== *)
theory Clist_Blocks
  imports Clist
begin

unbundle bit_operations_syntax

text \<open>
  The character queues of \<open>bsd/tty_subr.c\<close> as the code has them: blocks linked by pointers, the
  quote bit of each character, and pointers to the first character and behind the last one.

  Blocks are aligned, so a pointer into a block is the block and the place in \<open>c_info\<close>; place
  \<open>CBSIZE\<close> is the end of the block, where the address is a multiple of the size of a block.
  \<open>None\<close> stands for a null pointer, and as a result for a use of one.
\<close>

section \<open>Blocks and the free list\<close>

record cblock =
  cb_next :: "nat option"
  cb_quote :: "bool list"
  cb_info :: "8 word list"

type_synonym cptr = "nat \<times> nat"

record cqueue =
  c_cc :: int
  c_cf :: "cptr option"
  c_cl :: "cptr option"

record cpool =
  cblocks :: "nat \<Rightarrow> cblock"
  cfreelist :: "nat option"
  cfreecount :: int

definition zblock :: cblock where
  "zblock = \<lparr>cb_next = None, cb_quote = replicate CBSIZE False, cb_info = replicate CBSIZE 0\<rparr>"

definition no_chars :: cqueue where "no_chars = \<lparr>c_cc = 0, c_cf = None, c_cl = None\<rparr>"

definition TTY_QUOTE :: int where "TTY_QUOTE = 0x100"

definition CFREELIST_RETURN :: "nat \<Rightarrow> cpool \<Rightarrow> cpool" where
  "CFREELIST_RETURN b st = st\<lparr>cblocks := (cblocks st)(b := zblock\<lparr>cb_next := cfreelist st\<rparr>), cfreelist := Some b,
     cfreecount := cfreecount st + int CBSIZE\<rparr>"

definition set_next :: "nat \<Rightarrow> nat option \<Rightarrow> cpool \<Rightarrow> cpool" where
  "set_next b n st = st\<lparr>cblocks := (cblocks st)(b := (cblocks st b)\<lparr>cb_next := n\<rparr>)\<rparr>"

definition CFREELIST_FETCH :: "cpool \<Rightarrow> nat option \<times> cpool" where
  "CFREELIST_FETCH st = (case cfreelist st of
     None \<Rightarrow> (None, st)
   | Some b \<Rightarrow> (Some b, set_next b None (st\<lparr>cfreelist := cb_next (cblocks st b), cfreecount := cfreecount st - int CBSIZE\<rparr>)))"

text \<open>The first character of a block.\<close>

definition info_of :: "nat option \<Rightarrow> cptr option" where
  "info_of n = map_option (\<lambda>b. (b, 0)) n"

section \<open>Characters\<close>

definition blk_getc :: "cqueue \<Rightarrow> cpool \<Rightarrow> (int \<times> cqueue \<times> cpool) option" where
  "blk_getc p st =
     (if c_cc p \<le> 0 then Some (- 1, no_chars, st)
      else case c_cf p of
        None \<Rightarrow> None
      | Some (b, i) \<Rightarrow>
        let c = uint (cb_info (cblocks st b) ! i);
            c = (if cb_quote (cblocks st b) ! i then c OR TTY_QUOTE else c);
            p = p\<lparr>c_cf := Some (b, i + 1), c_cc := c_cc p - 1\<rparr>
        in if c_cc p \<le> 0 then Some (c, p\<lparr>c_cf := None, c_cl := None\<rparr>, CFREELIST_RETURN b st)
        else if i + 1 = CBSIZE then Some (c, p\<lparr>c_cf := info_of (cb_next (cblocks st b))\<rparr>, CFREELIST_RETURN b st)
        else Some (c, p, st))"

definition put_at :: "int \<Rightarrow> cptr \<Rightarrow> cpool \<Rightarrow> cpool" where
  "put_at c cp st = (case cp of (b, i) \<Rightarrow>
     st\<lparr>cblocks := (cblocks st)(b := (cblocks st b)
       \<lparr>cb_quote := (if c AND TTY_QUOTE \<noteq> 0 then (cb_quote (cblocks st b))[i := True] else cb_quote (cblocks st b)),
        cb_info := (cb_info (cblocks st b))[i := word_of_int c]\<rparr>)\<rparr>)"

text \<open>Where the next character goes, with a new block when one is needed.\<close>

definition put_place :: "cqueue \<Rightarrow> cpool \<Rightarrow> cptr option \<times> cqueue \<times> cpool" where
  "put_place p st =
     (case (if c_cc p < 0 then None else c_cl p) of
        None \<Rightarrow>
          (case CFREELIST_FETCH st of
             (None, st) \<Rightarrow> (None, p, st)
           | (Some b, st) \<Rightarrow> (Some (b, 0), p\<lparr>c_cf := Some (b, 0)\<rparr>, st))
      | Some (b, i) \<Rightarrow>
          if i = CBSIZE then
            (case CFREELIST_FETCH st of
               (None, st) \<Rightarrow> (None, p, set_next b None st)
             | (Some n, st) \<Rightarrow> (Some (n, 0), p, set_next b (Some n) st))
          else (Some (b, i), p, st))"

definition blk_putc :: "int \<Rightarrow> cqueue \<Rightarrow> cpool \<Rightarrow> int \<times> cqueue \<times> cpool" where
  "blk_putc c p st = (case put_place p st of
     (None, p, st) \<Rightarrow> (- 1, p, st)
   | (Some (b, i), p, st) \<Rightarrow> (0, p\<lparr>c_cc := c_cc p + 1, c_cl := Some (b, i + 1)\<rparr>, put_at c (b, i) st))"

text \<open>The block in front of the last one, for \<open>unputc\<close>.\<close>

partial_function (option) find_prev :: "(nat \<Rightarrow> cblock) \<Rightarrow> nat \<Rightarrow> nat \<Rightarrow> nat option" where
  "find_prev cb b bp = (case cb_next (cb bp) of None \<Rightarrow> None | Some n \<Rightarrow> if n = b then Some bp else find_prev cb b n)"

text \<open>The character is a signed one here and in \<open>nextc\<close>, unlike in \<open>getc\<close>.\<close>

definition signed_char :: "cpool \<Rightarrow> cptr \<Rightarrow> int" where
  "signed_char st cp = (case cp of (b, i) \<Rightarrow>
     if cb_quote (cblocks st b) ! i then sint (cb_info (cblocks st b) ! i) OR TTY_QUOTE else sint (cb_info (cblocks st b) ! i))"

definition blk_unputc :: "cqueue \<Rightarrow> cpool \<Rightarrow> (int \<times> cqueue \<times> cpool) option" where
  "blk_unputc p st =
     (if c_cc p \<le> 0 then Some (- 1, p, st)
      else case c_cl p of
        None \<Rightarrow> None
      | Some (b, j) \<Rightarrow>
        let i = j - 1;
            c = signed_char st (b, i);
            p = p\<lparr>c_cl := Some (b, i), c_cc := c_cc p - 1\<rparr>
        in if c_cc p \<le> 0 then Some (c, p\<lparr>c_cf := None, c_cl := None\<rparr>, CFREELIST_RETURN b st)
        else if i = 0 then
          (case c_cf p of
             None \<Rightarrow> None
           | Some (f, _) \<Rightarrow>
               map_option (\<lambda>bp. (c, p\<lparr>c_cl := Some (bp, CBSIZE)\<rparr>, set_next bp None (CFREELIST_RETURN b st)))
                 (find_prev (cblocks st) b f))
        else Some (c, p, st))"

definition blk_nextc :: "cqueue \<Rightarrow> cptr \<Rightarrow> cpool \<Rightarrow> (cptr \<times> int) option" where
  "blk_nextc p cp st = (case cp of (b, i) \<Rightarrow>
     if c_cc p \<noteq> 0 \<and> Some (b, i + 1) \<noteq> c_cl p
     then map_option (\<lambda>cp. (cp, signed_char st cp))
       (if i + 1 = CBSIZE then info_of (cb_next (cblocks st b)) else Some (b, i + 1))
     else None)"

section \<open>Several characters\<close>

text \<open>The characters from a place to the end of its block.\<close>

definition blk_left :: "nat \<Rightarrow> int" where
  "blk_left i = 64 - (16 + int i) mod 64"

text \<open>Each round moves a character, so \<open>cc\<close> rounds are enough.\<close>

primrec q_to_b_loop :: "nat \<Rightarrow> int \<Rightarrow> cqueue \<Rightarrow> cpool \<Rightarrow> (8 word list \<times> cqueue \<times> cpool) option" where
  "q_to_b_loop 0 cc q st = None"
| "q_to_b_loop (Suc fuel) cc q st = (case c_cf q of
     None \<Rightarrow> None
   | Some (b, i) \<Rightarrow>
     let nc = min (min (blk_left i) cc) (c_cc q);
         bytes = take (nat nc) (drop i (cb_info (cblocks st b)));
         q = q\<lparr>c_cf := Some (b, i + nat nc), c_cc := c_cc q - nc\<rparr>;
         cc = cc - nc
     in if c_cc q \<le> 0 then Some (bytes, q\<lparr>c_cf := None, c_cl := None\<rparr>, CFREELIST_RETURN b st)
     else
       let (q, st) = (if i + nat nc = CBSIZE then (q\<lparr>c_cf := info_of (cb_next (cblocks st b))\<rparr>, CFREELIST_RETURN b st) else (q, st))
       in if cc = 0 then Some (bytes, q, st)
       else map_option (\<lambda>(more, r). (bytes @ more, r)) (q_to_b_loop fuel cc q st))"

definition q_to_b :: "int \<Rightarrow> cqueue \<Rightarrow> cpool \<Rightarrow> (8 word list \<times> cqueue \<times> cpool) option" where
  "q_to_b cc q st =
     (if cc \<le> 0 then Some ([], q, st)
      else if c_cc q \<le> 0 then Some ([], no_chars, st)
      else q_to_b_loop (nat cc) cc q st)"

definition ndqb :: "cqueue \<Rightarrow> int \<Rightarrow> cpool \<Rightarrow> int option" where
  "ndqb q flag st =
     (if c_cc q \<le> 0 then Some (- c_cc q)
      else case c_cf q of
        None \<Rightarrow> None
      | Some (b, i) \<Rightarrow>
        let cc = min (int CBSIZE - int i) (c_cc q)
        in if flag \<noteq> 0 then Some (int (length (takeWhile (\<lambda>x. \<not> x) (take (nat cc) (drop i (cb_quote (cblocks st b)))))))
        else Some cc)"

primrec ndflush_loop :: "nat \<Rightarrow> int \<Rightarrow> cqueue \<Rightarrow> cpool \<Rightarrow> (cqueue \<times> cpool) option" where
  "ndflush_loop 0 cc q st = None"
| "ndflush_loop (Suc fuel) cc q st =
     (if \<not> (cc > 0 \<and> c_cc q \<noteq> 0) then Some (q, st)
      else case (c_cf q, c_cl q) of
        (Some (b, i), Some (lb, e)) \<Rightarrow>
        let rem = int (if b = lb then e else CBSIZE) - int i
        in if cc \<ge> rem then
          ndflush_loop fuel (cc - rem) (q\<lparr>c_cc := c_cc q - rem, c_cf := info_of (cb_next (cblocks st b))\<rparr>) (CFREELIST_RETURN b st)
        else Some (q\<lparr>c_cc := c_cc q - cc, c_cf := Some (b, i + nat cc)\<rparr>,
                   if c_cc q - cc \<le> 0 then CFREELIST_RETURN b st else st)
      | _ \<Rightarrow> None)"

definition ndflush :: "int \<Rightarrow> cqueue \<Rightarrow> cpool \<Rightarrow> (cqueue \<times> cpool) option" where
  "ndflush cc q st =
     (if c_cc q \<le> 0 then Some (q, st)
      else map_option (\<lambda>(q, st). (if c_cc q \<le> 0 then no_chars else q, st)) (ndflush_loop (Suc (nat cc)) cc q st))"

text \<open>\<open>getc\<close> leaves one character less, so the rounds are bounded by the number of characters.\<close>

primrec catq_loop :: "nat \<Rightarrow> cqueue \<Rightarrow> cqueue \<Rightarrow> cpool \<Rightarrow> (cqueue \<times> cqueue \<times> cpool) option" where
  "catq_loop 0 from to st = None"
| "catq_loop (Suc fuel) from to st = (case blk_getc from st of
     None \<Rightarrow> None
   | Some (c, from, st) \<Rightarrow>
       if c \<ge> 0 then (case blk_putc c to st of (r, to, st) \<Rightarrow> catq_loop fuel from to st)
       else Some (from, to, st))"

definition catq :: "cqueue \<Rightarrow> cqueue \<Rightarrow> cpool \<Rightarrow> (cqueue \<times> cqueue \<times> cpool) option" where
  "catq from to st =
     (if c_cc to = 0 then Some (no_chars, from, st)
      else catq_loop (Suc (nat (c_cc from))) from to st)"

text \<open>\<open>b_to_q\<close>; what is left could not be moved.  It does not touch the quote bits.\<close>

definition put_bytes_at :: "8 word list \<Rightarrow> cptr \<Rightarrow> cpool \<Rightarrow> cpool" where
  "put_bytes_at bs cp st = (case cp of (b, i) \<Rightarrow>
     st\<lparr>cblocks := (cblocks st)(b := (cblocks st b)
       \<lparr>cb_info := take i (cb_info (cblocks st b)) @ bs @ drop (i + length bs) (cb_info (cblocks st b))\<rparr>)\<rparr>)"

primrec b_to_q_loop :: "nat \<Rightarrow> 8 word list \<Rightarrow> cptr \<Rightarrow> cpool \<Rightarrow> 8 word list \<times> cptr \<times> cpool" where
  "b_to_q_loop 0 cs cq st = (cs, cq, st)"
| "b_to_q_loop (Suc fuel) cs cq st =
     (if cs = [] then (cs, cq, st)
      else case (if snd cq = CBSIZE then
                   (case CFREELIST_FETCH st of
                      (None, st) \<Rightarrow> (None, set_next (fst cq) None st)
                    | (Some n, st) \<Rightarrow> (Some (n, 0), set_next (fst cq) (Some n) st))
                 else (Some cq, st)) of
        (None, st) \<Rightarrow> (cs, cq, st)
      | (Some cq, st) \<Rightarrow>
          let nc = min (length cs) (nat (blk_left (snd cq)))
          in b_to_q_loop fuel (drop nc cs) (fst cq, snd cq + nc) (put_bytes_at (take nc cs) cq st))"

definition blk_b_to_q :: "8 word list \<Rightarrow> cqueue \<Rightarrow> cpool \<Rightarrow> 8 word list \<times> cqueue \<times> cpool" where
  "blk_b_to_q cs q st =
     (if cs = [] then ([], q, st)
      else case (if c_cc q < 0 then None else c_cl q) of
        Some cq \<Rightarrow>
          (case b_to_q_loop (length cs) cs cq st of
             (rest, cq, st) \<Rightarrow> (rest, q\<lparr>c_cl := Some cq, c_cc := c_cc q + int (length cs) - int (length rest)\<rparr>, st))
      | None \<Rightarrow>
          (case CFREELIST_FETCH st of
             (None, st) \<Rightarrow> (cs, q, st)
           | (Some b, st) \<Rightarrow>
               (case b_to_q_loop (length cs) cs (b, 0) st of
                  (rest, cq, st) \<Rightarrow>
                    (rest, q\<lparr>c_cf := Some (b, 0), c_cl := Some cq, c_cc := c_cc q + int (length cs) - int (length rest)\<rparr>, st))))"

end
