(* ===== verification/Clist_Rep.thy ===== *)
theory Clist_Rep
  imports Clist_Blocks
begin

text \<open>
  What a queue of blocks stands for: a list of characters with their quote marks; and what the
  operations on blocks do to it.
\<close>

section \<open>Chains of blocks\<close>

definition content :: "cblock \<Rightarrow> (8 word \<times> bool) list" where
  "content b = zip (cb_info b) (cb_quote b)"

definition cb_ok :: "cblock \<Rightarrow> bool" where
  "cb_ok b \<longleftrightarrow> length (cb_info b) = CBSIZE \<and> length (cb_quote b) = CBSIZE"

text \<open>The characters of a chain from a place in the first block to one in the last.\<close>

fun cb_seg :: "(nat \<Rightarrow> cblock) \<Rightarrow> nat list \<Rightarrow> nat \<Rightarrow> nat \<Rightarrow> (8 word \<times> bool) list" where
  "cb_seg cb [] i e = []"
| "cb_seg cb [b] i e = drop i (take e (content (cb b)))"
| "cb_seg cb (b # c # bs) i e = drop i (content (cb b)) @ cb_seg cb (c # bs) 0 e"

fun linked :: "(nat \<Rightarrow> cblock) \<Rightarrow> nat list \<Rightarrow> bool" where
  "linked cb [] = True"
| "linked cb [b] = (cb_next (cb b) = None)"
| "linked cb (b # c # bs) = (cb_next (cb b) = Some c \<and> linked cb (c # bs))"

definition cq_place :: "cqueue \<Rightarrow> nat" where
  "cq_place q = (case c_cf q of None \<Rightarrow> 0 | Some (b, i) \<Rightarrow> i)"

definition end_place :: "cqueue \<Rightarrow> nat" where
  "end_place q = (case c_cl q of None \<Rightarrow> 0 | Some (b, e) \<Rightarrow> e)"

definition q_rep :: "(nat \<Rightarrow> cblock) \<Rightarrow> cqueue \<Rightarrow> nat list \<Rightarrow> (8 word \<times> bool) list \<Rightarrow> bool" where
  "q_rep cb q bs xs \<longleftrightarrow> c_cc q = int (length xs)
     \<and> (if bs = [] then q = no_chars \<and> xs = []
        else c_cf q = Some (hd bs, cq_place q) \<and> c_cl q = Some (last bs, end_place q)
          \<and> cq_place q < CBSIZE \<and> 0 < end_place q \<and> end_place q \<le> CBSIZE \<and> (tl bs = [] \<longrightarrow> cq_place q < end_place q)
          \<and> linked cb bs \<and> (\<forall>b\<in>set bs. cb_ok (cb b)) \<and> xs = cb_seg cb bs (cq_place q) (end_place q))"

definition free_rep :: "cpool \<Rightarrow> nat list \<Rightarrow> bool" where
  "free_rep st fs \<longleftrightarrow> cfreelist st = (case fs of [] \<Rightarrow> None | b # _ \<Rightarrow> Some b) \<and> linked (cblocks st) fs
     \<and> cfreecount st = int (CBSIZE * length fs) \<and> (\<forall>b\<in>set fs. cb_ok (cblocks st b) \<and> cb_quote (cblocks st b) = replicate CBSIZE False)"

text \<open>The queue owns the blocks \<open>bs\<close> and the free list \<open>fs\<close>.\<close>

definition owns :: "cpool \<Rightarrow> cqueue \<Rightarrow> nat list \<Rightarrow> (8 word \<times> bool) list \<Rightarrow> nat list \<Rightarrow> bool" where
  "owns st q bs xs fs \<longleftrightarrow> q_rep (cblocks st) q bs xs \<and> free_rep st fs \<and> distinct (bs @ fs)"

text \<open>No stale quote marks behind the last character.\<close>

definition q_clean :: "cpool \<Rightarrow> cqueue \<Rightarrow> bool" where
  "q_clean st q \<longleftrightarrow> (case c_cl q of None \<Rightarrow> True | Some (b, e) \<Rightarrow> \<forall>j. e \<le> j \<and> j < CBSIZE \<longrightarrow> \<not> cb_quote (cblocks st b) ! j)"

text \<open>Blocks of others are not touched, and none gets lost.\<close>

definition only_blocks :: "nat list \<Rightarrow> nat list \<Rightarrow> cpool \<Rightarrow> cpool \<Rightarrow> bool" where
  "only_blocks us vs st st' \<longleftrightarrow> set vs = set us \<and> length vs = length us \<and> (\<forall>b. b \<notin> set us \<longrightarrow> cblocks st' b = cblocks st b)"

lemma content_length [simp]: "cb_ok b \<Longrightarrow> length (content b) = CBSIZE"
  by (simp add: content_def cb_ok_def)

lemma seg_cong: "(\<And>b. b \<in> set bs \<Longrightarrow> content (cb' b) = content (cb b)) \<Longrightarrow> cb_seg cb' bs i e = cb_seg cb bs i e"
  by (induction cb bs i e rule: cb_seg.induct) simp_all

lemma linked_cong: "(\<And>b. b \<in> set bs \<Longrightarrow> cb_next (cb' b) = cb_next (cb b)) \<Longrightarrow> linked cb' bs = linked cb bs"
  by (induction cb bs rule: linked.induct) simp_all

lemma linked_upd [simp]: "b \<notin> set bs \<Longrightarrow> linked (cb(b := x)) bs = linked cb bs"
  by (rule linked_cong) auto

lemma seg_upd [simp]: "b \<notin> set bs \<Longrightarrow> cb_seg (cb(b := x)) bs i e = cb_seg cb bs i e"
  by (rule seg_cong) auto

lemma seg_length:
  assumes "bs \<noteq> []" "\<forall>b\<in>set bs. cb_ok (cb b)" "i \<le> CBSIZE" "e \<le> CBSIZE" "tl bs = [] \<longrightarrow> i \<le> e"
  shows "length (cb_seg cb bs i e) + i + CBSIZE = CBSIZE * length bs + e"
  using assms
proof (induction cb bs i e rule: cb_seg.induct)
  case (3 cb b c bs i e)
  have "length (cb_seg cb (c # bs) 0 e) + 0 + CBSIZE = CBSIZE * length (c # bs) + e" using 3 by simp
  then show ?case using 3(2-4) by simp
qed simp_all

lemma zblock_ok [simp]: "cb_ok (zblock\<lparr>cb_next := n\<rparr>)" "cb_quote (zblock\<lparr>cb_next := n\<rparr>) = replicate CBSIZE False"
  by (simp_all add: cb_ok_def zblock_def)

lemma free_return:
  assumes "free_rep st fs" "b \<notin> set fs"
  shows "free_rep (CFREELIST_RETURN b st) (b # fs)"
proof -
  have "linked ((cblocks st)(b := zblock\<lparr>cb_next := cfreelist st\<rparr>)) (b # fs)"
    using assms by (cases fs) (simp_all add: free_rep_def)
  then show ?thesis using assms by (auto simp: free_rep_def CFREELIST_RETURN_def algebra_simps)
qed

text \<open>Other changes of the pool.\<close>

lemma free_cong:
  assumes "free_rep st fs" "cfreelist st' = cfreelist st" "cfreecount st' = cfreecount st" "\<And>b. b \<in> set fs \<Longrightarrow> cblocks st' b = cblocks st b"
  shows "free_rep st' fs"
  using assms linked_cong [of fs "cblocks st'" "cblocks st"] by (simp add: free_rep_def)

lemma q_cong: "q_rep cb q bs xs \<Longrightarrow> (\<And>b. b \<in> set bs \<Longrightarrow> cb' b = cb b) \<Longrightarrow> q_rep cb' q bs xs"
  using linked_cong [of bs cb' cb] seg_cong [of bs cb' cb] by (simp add: q_rep_def split: if_splits)

section \<open>Taking characters from the front\<close>

text \<open>
  Within the first block: \<open>k\<close> characters are gone, and the block when it is used up.
\<close>

definition consume :: "nat \<Rightarrow> cqueue \<Rightarrow> cpool \<Rightarrow> cqueue \<times> cpool" where
  "consume k q st = (case c_cf q of
     None \<Rightarrow> (q, st)
   | Some (b, i) \<Rightarrow>
       let q = q\<lparr>c_cf := Some (b, i + k), c_cc := c_cc q - int k\<rparr>
       in if c_cc q \<le> 0 then (q\<lparr>c_cf := None, c_cl := None\<rparr>, CFREELIST_RETURN b st)
       else if i + k = CBSIZE then (q\<lparr>c_cf := info_of (cb_next (cblocks st b))\<rparr>, CFREELIST_RETURN b st)
       else (q, st))"

lemma q_repD:
  assumes "q_rep cb q bs xs" "bs \<noteq> []"
  shows "c_cf q = Some (hd bs, cq_place q)" "c_cl q = Some (last bs, end_place q)" "cq_place q < CBSIZE" "0 < end_place q" "end_place q \<le> CBSIZE"
    "tl bs = [] \<Longrightarrow> cq_place q < end_place q" "linked cb bs" "\<forall>b\<in>set bs. cb_ok (cb b)" "xs = cb_seg cb bs (cq_place q) (end_place q)"
    "length xs + cq_place q + CBSIZE = CBSIZE * length bs + end_place q" "c_cc q = int (length xs)"
proof -
  show r: "c_cf q = Some (hd bs, cq_place q)" "c_cl q = Some (last bs, end_place q)" "cq_place q < CBSIZE" "0 < end_place q" "end_place q \<le> CBSIZE"
    "tl bs = [] \<Longrightarrow> cq_place q < end_place q" "linked cb bs" "\<forall>b\<in>set bs. cb_ok (cb b)" "xs = cb_seg cb bs (cq_place q) (end_place q)" "c_cc q = int (length xs)"
    using assms by (simp_all add: q_rep_def)
  show "length xs + cq_place q + CBSIZE = CBSIZE * length bs + end_place q"
    unfolding r(9) by (rule seg_length) (use assms(2) r in auto)
qed

text \<open>The state after \<open>k\<close> characters of the first block.\<close>

definition taken :: "nat \<Rightarrow> cpool \<Rightarrow> cqueue \<Rightarrow> nat list \<Rightarrow> (8 word \<times> bool) list \<Rightarrow> nat list \<Rightarrow> cpool \<Rightarrow> cqueue \<Rightarrow> nat list \<Rightarrow> nat list \<Rightarrow> bool" where
  "taken k st q bs xs fs st' q' bs' fs' \<longleftrightarrow> owns st' q' bs' (drop k xs) fs' \<and> only_blocks (bs @ fs) (bs' @ fs') st st'
     \<and> (q_clean st q \<longrightarrow> q_clean st' q')
     \<and> (if k = length xs \<or> cq_place q + k = CBSIZE then cq_place q' = 0 \<and> length fs' = Suc (length fs) else cq_place q' = cq_place q + k \<and> fs' = fs)"

lemma consume_owns:
  assumes own: "owns st q bs xs fs" and k: "0 < k" "k \<le> length xs" "cq_place q + k \<le> CBSIZE" and r: "consume k q st = (q', st')"
  shows "\<exists>bs' fs'. taken k st q bs xs fs st' q' bs' fs'"
    "take k xs = take k (drop (cq_place q) (content (cblocks st (hd bs))))" "bs \<noteq> []"
proof -
  show ne: "bs \<noteq> []" using own k by (auto simp: owns_def q_rep_def)
  have q: "q_rep (cblocks st) q bs xs" "free_rep st fs" "distinct (bs @ fs)" using own by (simp_all add: owns_def)
  note d = q_repD [OF q(1) ne]
  obtain b rest where bs: "bs = b # rest" using ne by (cases bs) auto
  have okb: "cb_ok (cblocks st b)" using d(8) bs by simp
  show "take k xs = take k (drop (cq_place q) (content (cblocks st (hd bs))))"
  proof (cases rest)
    case Nil
    then have "length xs = end_place q - cq_place q" using d(10) bs by simp
    then show ?thesis using d(9) Nil bs k by (simp add: take_drop min_def)
  next
    case (Cons c cs)
    then show ?thesis using d(9) bs k okb by simp
  qed
  let ?i = "cq_place q" let ?e = "end_place q"
  have cc: "c_cc q - int k = int (length (drop k xs))" using d(11) k by (simp add: of_nat_diff)
  consider "k = length xs" | "k < length xs" "?i + k = CBSIZE" | "k < length xs" "?i + k < CBSIZE" using k by linarith
  then show "\<exists>bs' fs'. taken k st q bs xs fs st' q' bs' fs'"
  proof cases
    case 1
    have "rest = []" using d(10) bs k d(3,4) 1 by (cases rest) auto
    moreover have e: "q' = no_chars" "st' = CFREELIST_RETURN b st"
      using r d(1,11) 1 bs by (auto simp: consume_def no_chars_def)
    ultimately have "owns st' q' [] (drop k xs) (b # fs)"
      using free_return [OF q(2), of b] q(3) bs 1 by (simp add: owns_def q_rep_def no_chars_def)
    moreover have "only_blocks (bs @ fs) ([] @ b # fs) st st'" using \<open>rest = []\<close> bs e by (simp add: only_blocks_def CFREELIST_RETURN_def)
    moreover have "cq_place q' = 0" "q_clean st' q'" using e by (simp_all add: cq_place_def no_chars_def q_clean_def)
    ultimately have "taken k st q bs xs fs st' q' [] (b # fs)" using 1 by (simp add: taken_def)
    then show ?thesis by blast
  next
    case 2
    then obtain c cs where rest: "rest = c # cs" using d(5,10) bs by (cases rest) auto
    have e: "q' = q\<lparr>c_cf := Some (c, 0), c_cc := c_cc q - int k\<rparr>" "st' = CFREELIST_RETURN b st"
      using r d(1,7,11) 2 bs rest by (auto simp: consume_def Let_def info_of_def)
    have x: "drop k xs = cb_seg (cblocks st) rest 0 ?e" using d(9) bs rest okb 2 by (simp add: drop_append)
    have p: "cq_place q' = 0" "end_place q' = ?e" by (simp_all add: e cq_place_def end_place_def)
    have nb: "b \<notin> set rest" "b \<notin> set fs" using q(3) bs by auto
    have l: "linked (cblocks st) rest" using d(7) bs rest by simp
    have "q_rep (cblocks st') q' rest (drop k xs)"
      unfolding q_rep_def p by (rule conjI) (use e cc in simp, use e d(2,4,5,8) 2 rest bs nb l x in \<open>simp add: CFREELIST_RETURN_def\<close>)
    then have "owns st' q' rest (drop k xs) (b # fs)" using free_return [OF q(2) nb(2)] q(3) bs by (simp add: owns_def e(2))
    moreover have "only_blocks (bs @ fs) (rest @ b # fs) st st'" using bs e by (auto simp: only_blocks_def CFREELIST_RETURN_def)
    moreover have "last rest \<noteq> b" using nb(1) rest last_in_set [of rest] by auto
    then have "q_clean st q \<longrightarrow> q_clean st' q'" using e d(2) bs rest by (auto simp: q_clean_def CFREELIST_RETURN_def)
    ultimately have "taken k st q bs xs fs st' q' rest (b # fs)" using 2 p by (simp add: taken_def)
    then show ?thesis by blast
  next
    case 3
    have e: "q' = q\<lparr>c_cf := Some (b, ?i + k), c_cc := c_cc q - int k\<rparr>" "st' = st"
      using r d(1,11) 3 bs by (auto simp: consume_def Let_def)
    have p: "cq_place q' = ?i + k" "end_place q' = ?e" by (simp_all add: e cq_place_def end_place_def)
    have x: "drop k xs = cb_seg (cblocks st) bs (?i + k) ?e" using d(9) bs 3 okb by (cases rest) (simp_all add: drop_append add.commute)
    have en: "rest = [] \<Longrightarrow> ?i + k < ?e" using d(10) bs 3 by simp
    have "q_rep (cblocks st') q' bs (drop k xs)"
      unfolding q_rep_def p by (rule conjI) (use e cc in simp, use e d(2,4,5,7,8) 3 bs x en in simp)
    then have "owns st' q' bs (drop k xs) fs" using q(2,3) by (simp add: owns_def e(2))
    moreover have "only_blocks (bs @ fs) (bs @ fs) st st'" using e by (simp add: only_blocks_def)
    moreover have "q_clean st q \<longrightarrow> q_clean st' q'" using e d(2) by (simp add: q_clean_def)
    ultimately have "taken k st q bs xs fs st' q' bs fs" using 3 p by (simp add: taken_def)
    then show ?thesis by blast
  qed
qed

end
