(* ===== verification/Clist_Put.thy ===== *)
theory Clist_Put
  imports Clist_Rep
begin

unbundle bit_operations_syntax

text \<open>
  Adding characters at the end of a queue of blocks: one with \<open>putc\<close>, many with \<open>b_to_q\<close>.
\<close>

section \<open>A chain that may still be empty in its last block\<close>

definition cb_chain :: "(nat \<Rightarrow> cblock) \<Rightarrow> nat list \<Rightarrow> nat \<Rightarrow> nat \<Rightarrow> (8 word \<times> bool) list \<Rightarrow> bool" where
  "cb_chain cb bs i e xs \<longleftrightarrow> bs \<noteq> [] \<and> linked cb bs \<and> (\<forall>b\<in>set bs. cb_ok (cb b)) \<and> i < CBSIZE \<and> e \<le> CBSIZE
     \<and> (tl bs = [] \<longrightarrow> i \<le> e) \<and> xs = cb_seg cb bs i e"

lemma q_rep_chain:
  "bs \<noteq> [] \<Longrightarrow> q_rep cb q bs xs \<longleftrightarrow> c_cc q = int (length xs) \<and> c_cf q = Some (hd bs, cq_place q) \<and> c_cl q = Some (last bs, end_place q)
     \<and> cb_chain cb bs (cq_place q) (end_place q) xs \<and> 0 < end_place q \<and> (tl bs = [] \<longrightarrow> cq_place q < end_place q)"
  by (auto simp: q_rep_def cb_chain_def)

lemma seg_snoc:
  "bs \<noteq> [] \<Longrightarrow> n \<notin> set bs \<Longrightarrow> (\<forall>b\<in>set bs. cb_ok (cb b)) \<Longrightarrow> (tl bs = [] \<longrightarrow> i \<le> CBSIZE)
   \<Longrightarrow> cb_seg cb (bs @ [n]) i 0 = cb_seg cb bs i CBSIZE"
  by (induction cb bs i CBSIZE rule: cb_seg.induct) auto

lemma linked_snoc:
  "linked cb bs \<Longrightarrow> bs \<noteq> [] \<Longrightarrow> n \<notin> set bs \<Longrightarrow> distinct bs \<Longrightarrow> cb_next (cb n) = None
   \<Longrightarrow> linked (cb(last bs := (cb (last bs))\<lparr>cb_next := Some n\<rparr>)) (bs @ [n])"
  by (induction cb bs rule: linked.induct) auto

lemma linked_last: "linked cb bs \<Longrightarrow> bs \<noteq> [] \<Longrightarrow> cb_next (cb (last bs)) = None"
  by (induction cb bs rule: linked.induct) auto

lemma seg_extend:
  assumes "take (e + length ws) (content y) = take e (content (cb (last bs))) @ ws" "bs \<noteq> []" "distinct bs" "tl bs = [] \<longrightarrow> i \<le> e"
    "cb_ok (cb (last bs))" "e \<le> CBSIZE"
  shows "cb_seg (cb(last bs := y)) bs i (e + length ws) = cb_seg cb bs i e @ ws"
  using assms
  by (induction cb bs i e rule: cb_seg.induct) (auto simp: drop_append split: if_splits)

text \<open>The last block has no quote marks behind the last character.\<close>

definition clean_from :: "cpool \<Rightarrow> nat \<Rightarrow> nat \<Rightarrow> bool" where
  "clean_from st b e \<longleftrightarrow> (\<forall>j. e \<le> j \<and> j < CBSIZE \<longrightarrow> \<not> cb_quote (cblocks st b) ! j)"

definition openq :: "cpool \<Rightarrow> nat list \<Rightarrow> nat \<Rightarrow> nat \<Rightarrow> (8 word \<times> bool) list \<Rightarrow> nat list \<Rightarrow> bool" where
  "openq st bs i e xs fs \<longleftrightarrow> cb_chain (cblocks st) bs i e xs \<and> free_rep st fs \<and> distinct (bs @ fs) \<and> clean_from st (last bs) e"

lemma q_clean_from: "c_cl q = Some (b, e) \<Longrightarrow> q_clean st q \<longleftrightarrow> clean_from st b e"
  by (simp add: q_clean_def clean_from_def)

lemma owns_openq:
  assumes "owns st q bs xs fs" "q_clean st q" "bs \<noteq> []"
  shows "openq st bs (cq_place q) (end_place q) xs fs"
  using assms q_rep_chain [OF assms(3)] q_clean_from by (auto simp: owns_def openq_def)

lemma openq_owns:
  assumes "openq st bs i e xs fs" "c_cc q = int (length xs)" "c_cf q = Some (hd bs, i)" "c_cl q = Some (last bs, e)" "0 < e" "tl bs = [] \<Longrightarrow> i < e"
  shows "owns st q bs xs fs" "q_clean st q"
proof -
  have "bs \<noteq> []" "cq_place q = i" "end_place q = e" using assms by (auto simp: openq_def cb_chain_def cq_place_def end_place_def)
  then show "owns st q bs xs fs" using assms by (auto simp: owns_def q_rep_chain openq_def)
  show "q_clean st q" using assms q_clean_from by (auto simp: openq_def)
qed

section \<open>A new block\<close>

lemma fetch_none: "free_rep st [] \<Longrightarrow> CFREELIST_FETCH st = (None, st)"
  by (simp add: free_rep_def CFREELIST_FETCH_def)

lemma fetch_some:
  assumes "free_rep st (n # fs)" "n \<notin> set fs"
  obtains st1 where "CFREELIST_FETCH st = (Some n, st1)" "free_rep st1 fs" "cb_ok (cblocks st1 n)" "cb_next (cblocks st1 n) = None"
    "cb_quote (cblocks st1 n) = replicate CBSIZE False" "\<And>b. b \<noteq> n \<Longrightarrow> cblocks st1 b = cblocks st b"
proof -
  have f: "cfreelist st = Some n" "cb_next (cblocks st n) = (case fs of [] \<Rightarrow> None | b # _ \<Rightarrow> Some b)" "linked (cblocks st) fs"
    "cb_ok (cblocks st n)" "cb_quote (cblocks st n) = replicate CBSIZE False" "cfreecount st = int (CBSIZE * length (n # fs))"
    "\<forall>b\<in>set fs. cb_ok (cblocks st b) \<and> cb_quote (cblocks st b) = replicate CBSIZE False"
    using assms(1) by (cases fs; simp add: free_rep_def)+
  show ?thesis
    by (rule that [of "set_next n None (st\<lparr>cfreelist := cb_next (cblocks st n), cfreecount := cfreecount st - int CBSIZE\<rparr>)"])
      (use f assms(2) in \<open>auto simp: CFREELIST_FETCH_def set_next_def free_rep_def cb_ok_def algebra_simps\<close>)
qed

lemma set_next_same: "cb_next (cblocks st b) = n \<Longrightarrow> set_next b n st = st"
proof -
  assume "cb_next (cblocks st b) = n"
  then have "(cblocks st b)\<lparr>cb_next := n\<rparr> = cblocks st b" by (cases "cblocks st b") simp
  then show ?thesis by (simp add: set_next_def)
qed

lemma open_first:
  assumes "free_rep st fs" "CFREELIST_FETCH st = (Some n, st1)" "distinct fs"
  shows "\<exists>fs'. fs = n # fs' \<and> openq st1 [n] 0 0 [] fs' \<and> only_blocks fs (n # fs') st st1"
proof (cases fs)
  case Nil
  then show ?thesis using assms fetch_none [of st] by simp
next
  case (Cons m fs')
  then show ?thesis using assms
    by (auto elim!: fetch_some simp: openq_def cb_chain_def clean_from_def only_blocks_def)
qed

lemma open_next:
  assumes o: "openq st bs i CBSIZE xs fs" and f: "CFREELIST_FETCH st = (Some n, st1)"
  shows "\<exists>fs'. fs = n # fs' \<and> openq (set_next (last bs) (Some n) st1) (bs @ [n]) i 0 xs fs'
    \<and> only_blocks (bs @ fs) ((bs @ [n]) @ fs') st (set_next (last bs) (Some n) st1)"
proof (cases fs)
  case Nil
  then show ?thesis using o f fetch_none [of st] by (simp add: openq_def)
next
  case (Cons m fs')
  let ?st = "set_next (last bs) (Some n) st1"
  have c: "bs \<noteq> []" "linked (cblocks st) bs" "\<forall>b\<in>set bs. cb_ok (cblocks st b)" "xs = cb_seg (cblocks st) bs i CBSIZE" "i < CBSIZE"
    "distinct (bs @ m # fs')" "free_rep st (m # fs')"
    using o Cons by (auto simp: openq_def cb_chain_def)
  have d: "m \<notin> set fs'" "m \<notin> set bs" "last bs \<in> set bs" "last bs \<notin> set fs'" "distinct bs" using c(1,6) by (auto dest: last_in_set)
  obtain s where s: "CFREELIST_FETCH st = (Some m, s)" "free_rep s fs'" "cb_ok (cblocks s m)" "cb_next (cblocks s m) = None"
    "cb_quote (cblocks s m) = replicate CBSIZE False" "\<And>b. b \<noteq> m \<Longrightarrow> cblocks s b = cblocks st b"
    using fetch_some [OF c(7) d(1)] by metis
  then have g: "n = m" "free_rep st1 fs'" "cb_ok (cblocks st1 n)" "cb_next (cblocks st1 n) = None"
    "cb_quote (cblocks st1 n) = replicate CBSIZE False" "\<And>b. b \<noteq> n \<Longrightarrow> cblocks st1 b = cblocks st b"
    using f by simp_all
  have nb: "n \<noteq> last bs" using d(2,3) g(1) by auto
  have sm: "cblocks st1 b = cblocks st b" if "b \<in> set bs" for b using that d(2) g(1) g(6) [of b] by (cases "b = m") auto
  have "linked (cblocks st1) bs" using linked_cong [of bs "cblocks st1" "cblocks st"] c(2) sm by simp
  then have l: "linked (cblocks ?st) (bs @ [n])"
    using linked_snoc [of "cblocks st1" bs n] c(1) d(2,5) g(1,4) by (simp add: set_next_def)
  have t: "content (cblocks ?st b) = content (cblocks st b)" if "b \<in> set bs" for b
    using sm [OF that] sm [OF d(3)] by (simp add: set_next_def content_def)
  have k: "\<forall>b\<in>set (bs @ [n]). cb_ok (cblocks ?st b)" using c(3) d(3) sm g(1,3) nb by (auto simp: set_next_def cb_ok_def)
  have "cb_seg (cblocks ?st) (bs @ [n]) i 0 = cb_seg (cblocks ?st) bs i CBSIZE"
    by (rule seg_snoc) (use c(1,5) d(2) g(1) k in auto)
  then have x: "xs = cb_seg (cblocks ?st) (bs @ [n]) i 0" using c(4) seg_cong [of bs "cblocks ?st" "cblocks st"] t by simp
  have "free_rep ?st fs'" by (rule free_cong [OF g(2)]) (use d in \<open>auto simp: set_next_def\<close>)
  moreover have "clean_from ?st n 0" using g(5) nb by (simp add: clean_from_def set_next_def)
  moreover have "cb_chain (cblocks ?st) (bs @ [n]) i 0 xs" unfolding cb_chain_def using l k x c(1,5) by simp
  ultimately have "openq ?st (bs @ [n]) i 0 xs fs'" using c(6) g(1) by (auto simp: openq_def)
  moreover have "only_blocks (bs @ fs) ((bs @ [n]) @ fs') st ?st"
    using Cons c(1) d(3) g by (auto simp: only_blocks_def set_next_def)
  ultimately show ?thesis using Cons g(1) by blast
qed

section \<open>Characters into the last block\<close>

lemma open_write:
  assumes o: "openq st bs i e xs fs" and y: "cb_next y = cb_next (cblocks st (last bs))" "cb_ok y"
    "take (e + length ws) (content y) = take e (content (cblocks st (last bs))) @ ws"
    "\<And>j. e + length ws \<le> j \<Longrightarrow> j < CBSIZE \<Longrightarrow> cb_quote y ! j = cb_quote (cblocks st (last bs)) ! j" and n: "e + length ws \<le> CBSIZE"
  shows "openq (st\<lparr>cblocks := (cblocks st)(last bs := y)\<rparr>) bs i (e + length ws) (xs @ ws) fs"
    "only_blocks (bs @ fs) (bs @ fs) st (st\<lparr>cblocks := (cblocks st)(last bs := y)\<rparr>)"
proof -
  let ?cb = "(cblocks st)(last bs := y)"
  have c: "bs \<noteq> []" "linked (cblocks st) bs" "\<forall>b\<in>set bs. cb_ok (cblocks st b)" "xs = cb_seg (cblocks st) bs i e" "i < CBSIZE" "e \<le> CBSIZE"
    "tl bs = [] \<longrightarrow> i \<le> e" "distinct (bs @ fs)" "free_rep st fs" "clean_from st (last bs) e"
    using o by (auto simp: openq_def cb_chain_def)
  have l: "last bs \<in> set bs" "last bs \<notin> set fs" using c(1,8) by (auto dest: last_in_set)
  have k: "linked ?cb bs" using linked_cong [of bs ?cb "cblocks st"] c(2) y(1) by simp
  have x: "cb_seg ?cb bs i (e + length ws) = xs @ ws" unfolding c(4)
    by (rule seg_extend) (use y(3) c l in auto)
  have "free_rep (st\<lparr>cblocks := ?cb\<rparr>) fs" by (rule free_cong [OF c(9)]) (use l in auto)
  moreover have "clean_from (st\<lparr>cblocks := ?cb\<rparr>) (last bs) (e + length ws)" using c(10) y(4) by (simp add: clean_from_def)
  moreover have "cb_chain ?cb bs i (e + length ws) (xs @ ws)" unfolding cb_chain_def using k x c(1,3,5,7) y(2) n by auto
  ultimately show "openq (st\<lparr>cblocks := ?cb\<rparr>) bs i (e + length ws) (xs @ ws) fs" using c(8) by (simp add: openq_def)
  show "only_blocks (bs @ fs) (bs @ fs) st (st\<lparr>cblocks := ?cb\<rparr>)" using l by (auto simp: only_blocks_def)
qed

text \<open>A character and its mark as the number that \<open>putc\<close> takes and \<open>getc\<close> gives.\<close>

definition char_val :: "8 word \<times> bool \<Rightarrow> int" where
  "char_val x = (if snd x then uint (fst x) OR TTY_QUOTE else uint (fst x))"

lemma char_val_bounds: "0 \<le> char_val x" "char_val x < 512"
proof -
  have u: "uint (fst x) < 256" "0 \<le> uint (fst x)" using uint_bounded [of "fst x"] by simp_all
  have "0 \<le> uint (fst x) OR 256" by simp
  moreover have "uint (fst x) OR 256 < 2 ^ 9" by (rule OR_upper) (use u in auto)
  ultimately show "0 \<le> char_val x" "char_val x < 512" using u by (simp_all add: char_val_def TTY_QUOTE_def)
qed

lemma char_val_parts: "(char_val x AND TTY_QUOTE \<noteq> 0) = snd x" "word_of_int (char_val x) = fst x"
proof -
  have b: "bit (256::int) n \<longleftrightarrow> n = 8" for n using bit_exp_iff [where 'a = int, of 8 n] by simp
  have c: "\<not> bit (uint (fst x)) 8" using bit_uint_iff [of "fst x" 8] by simp
  have "uint (fst x) AND 256 = 0" by (rule bit_eqI) (use c in \<open>auto simp: bit_and_iff b\<close>)
  moreover have "bit ((uint (fst x) OR 256) AND 256) 8" by (simp add: bit_and_iff bit_or_iff b)
  then have "(uint (fst x) OR 256) AND 256 \<noteq> 0" by force
  ultimately show "(char_val x AND TTY_QUOTE \<noteq> 0) = snd x" by (simp add: char_val_def TTY_QUOTE_def)
  have "word_of_int (uint (fst x) OR 256) = fst x"
    by (rule bit_word_eqI) (simp add: bit_word_of_int_iff bit_or_iff b bit_uint_iff)
  then show "word_of_int (char_val x) = fst x" by (simp add: char_val_def TTY_QUOTE_def)
qed

lemma open_put:
  assumes o: "openq st bs i e xs fs" and e: "e < CBSIZE"
  shows "openq (put_at (char_val x) (last bs, e) st) bs i (e + 1) (xs @ [x]) fs"
    "only_blocks (bs @ fs) (bs @ fs) st (put_at (char_val x) (last bs, e) st)"
proof -
  let ?b = "cblocks st (last bs)"
  let ?y = "?b\<lparr>cb_quote := (if char_val x AND TTY_QUOTE \<noteq> 0 then (cb_quote ?b)[e := True] else cb_quote ?b),
        cb_info := (cb_info ?b)[e := word_of_int (char_val x)]\<rparr>"
  have b: "cb_ok ?b" "\<not> cb_quote ?b ! e" using o e last_in_set [of bs] by (auto simp: openq_def cb_chain_def clean_from_def)
  have c: "content ?y = (content ?b)[e := x]"
    using b e by (intro nth_equalityI) (auto simp: content_def cb_ok_def char_val_parts nth_list_update prod_eq_iff)
  have t: "take (e + length [x]) (content ?y) = take e (content ?b) @ [x]" using b e by (simp add: c take_Suc_conv_app_nth)
  note w = open_write [OF o, of ?y "[x]"]
  have p: "put_at (char_val x) (last bs, e) st = st\<lparr>cblocks := (cblocks st)(last bs := ?y)\<rparr>" by (simp add: put_at_def)
  have k: "cb_ok ?y" using b(1) by (simp add: cb_ok_def)
  show "openq (put_at (char_val x) (last bs, e) st) bs i (e + 1) (xs @ [x]) fs"
    unfolding p using w(1) k t e by (simp add: nth_list_update)
  show "only_blocks (bs @ fs) (bs @ fs) st (put_at (char_val x) (last bs, e) st)"
    unfolding p using w(2) k t e by (simp add: nth_list_update)
qed

lemma only_blocks_trans: "only_blocks us vs st st1 \<Longrightarrow> only_blocks vs ws st1 st2 \<Longrightarrow> only_blocks us ws st st2"
  by (simp add: only_blocks_def)

lemma only_blocks_refl [simp]: "only_blocks us us st st"
  by (simp add: only_blocks_def)

section \<open>One character\<close>

text \<open>The queue as the model of \<open>Clist\<close> sees it: characters, a place and the number of free blocks.\<close>

definition q_abs :: "cqueue \<Rightarrow> (8 word \<times> bool) list \<Rightarrow> nat list \<Rightarrow> clist \<times> nat" where
  "q_abs q xs fs = (\<lparr>c_chars = map fst xs, c_off = cq_place q\<rparr>, length fs)"

lemma owns_empty_iff: "owns st q bs xs fs \<Longrightarrow> xs = [] \<longleftrightarrow> bs = []"
proof
  assume o: "owns st q bs xs fs" and x: "xs = []"
  show "bs = []"
  proof (rule ccontr)
    assume ne: "bs \<noteq> []"
    have "q_rep (cblocks st) q bs xs" using o by (simp add: owns_def)
    note d = q_repD [OF this ne]
    show False using d(3,4,6,10) x ne by (cases "tl bs"; cases bs) auto
  qed
qed (simp add: owns_def q_rep_def)

lemma owns_emptyD: "owns st q [] xs fs \<Longrightarrow> q = no_chars \<and> xs = [] \<and> free_rep st fs \<and> distinct fs"
  by (simp add: owns_def q_rep_def)

lemma owns_end:
  assumes "owns st q bs xs fs" "bs \<noteq> []"
  shows "(cq_place q + length xs) mod CBSIZE = end_place q mod CBSIZE"
proof -
  have "q_rep (cblocks st) q bs xs" using assms(1) by (simp add: owns_def)
  from q_repD(10) [OF this assms(2)] have "cq_place q + length xs + CBSIZE = CBSIZE * length bs + end_place q" by simp
  then have "(cq_place q + length xs + CBSIZE) mod CBSIZE = (CBSIZE * length bs + end_place q) mod CBSIZE" by simp
  then show ?thesis by simp
qed

lemma owns_full:
  assumes "owns st q bs xs fs"
  shows "c_full (fst (q_abs q xs fs)) \<longleftrightarrow> bs = [] \<or> end_place q = CBSIZE"
proof (cases "bs = []")
  case False
  have "q_rep (cblocks st) q bs xs" using assms(1) by (simp add: owns_def)
  then have e: "0 < end_place q" "end_place q \<le> CBSIZE" using q_repD(4,5) [OF _ False] by auto
  then have "end_place q mod CBSIZE = 0 \<longleftrightarrow> end_place q = CBSIZE" by (cases "end_place q = CBSIZE") auto
  then show ?thesis using owns_end [OF assms False] owns_empty_iff [OF assms] False by (simp add: q_abs_def c_full_def)
qed (use owns_emptyD [of st q xs fs] assms in \<open>simp add: c_full_def q_abs_def\<close>)

definition putc_ok :: "8 word \<times> bool \<Rightarrow> cpool \<Rightarrow> cqueue \<Rightarrow> nat list \<Rightarrow> (8 word \<times> bool) list \<Rightarrow> nat list \<Rightarrow> cpool \<Rightarrow> cqueue \<Rightarrow> bool" where
  "putc_ok x st q bs xs fs st' q' \<longleftrightarrow> (\<exists>bs' fs'. owns st' q' bs' (xs @ [x]) fs' \<and> q_clean st' q' \<and> only_blocks (bs @ fs) (bs' @ fs') st st'
     \<and> c_putc (fst x) (q_abs q xs fs) = Some (q_abs q' (xs @ [x]) fs'))"

lemma putc_place:
  assumes o: "openq st1 bs' i e xs fs'" and e: "e < CBSIZE" and ob: "only_blocks (bs @ fs) (bs' @ fs') st st1"
    and q: "c_cc q' = int (length xs) + 1" "c_cf q' = Some (hd bs', i)" "c_cl q' = Some (last bs', e + 1)"
    and a: "c_putc (fst x) (q_abs q xs fs) = Some (\<lparr>c_chars = map fst xs @ [fst x], c_off = i\<rparr>, length fs')"
  shows "putc_ok x st q bs xs fs (put_at (char_val x) (last bs', e) st1) q'"
proof -
  have i: "tl bs' = [] \<Longrightarrow> i < e + 1" "cq_place q' = i" using o q by (auto simp: openq_def cb_chain_def cq_place_def)
  note p = open_put [OF o e, of x]
  note w = openq_owns [OF p(1), of q'] only_blocks_trans [OF ob p(2)]
  show ?thesis unfolding putc_ok_def using w q a i by (intro exI [of _ bs'] exI [of _ fs']) (simp add: q_abs_def)
qed

lemma putc_owns:
  assumes o: "owns st q bs xs fs" and cl: "q_clean st q" and r: "blk_putc (char_val x) q st = (r, q', st')"
  shows "r = - 1 \<and> q' = q \<and> st' = st \<and> c_putc (fst x) (q_abs q xs fs) = None \<or> r = 0 \<and> putc_ok x st q bs xs fs st' q'"
proof (cases "bs = []")
  case True
  have e: "q = no_chars" "xs = []" "free_rep st fs" "distinct fs" using owns_emptyD [of st q xs fs] o True by auto
  show ?thesis
  proof (cases "CFREELIST_FETCH st")
    case (Pair n st1)
    show ?thesis
    proof (cases n)
      case None
      then have f: "fs = []" using Pair e fetch_some [of st] by (cases fs) auto
      then have "st1 = st" using fetch_none [of st] e Pair by simp
      then show ?thesis using r Pair None e f by (simp add: blk_putc_def put_place_def no_chars_def c_putc_def c_full_def q_abs_def)
    next
      case (Some b)
      obtain fs' where f: "fs = b # fs'" "openq st1 [b] 0 0 [] fs'" "only_blocks fs (b # fs') st st1"
        using open_first [OF e(3) _ e(4)] Pair Some by blast
      have q: "r = 0" "q' = \<lparr>c_cc = 1, c_cf = Some (b, 0), c_cl = Some (b, 1)\<rparr>" "st' = put_at (char_val x) (b, 0) st1"
        using r Pair Some e by (auto simp: blk_putc_def put_place_def no_chars_def)
      have "putc_ok x st q bs xs fs (put_at (char_val x) (last [b], 0) st1) q'"
        by (rule putc_place [where i = 0 and fs' = fs']) (use f q e True in \<open>simp_all add: c_putc_def c_full_def q_abs_def\<close>)
      then show ?thesis using q by simp
    qed
  qed
next
  case False
  note oq = owns_openq [OF o cl False]
  have "q_rep (cblocks st) q bs xs" using o by (simp add: owns_def)
  note d = q_repD [OF this False]
  have ne: "xs \<noteq> []" using owns_empty_iff [OF o] False by simp
  show ?thesis
  proof (cases "end_place q = CBSIZE")
    case full: True
    show ?thesis
    proof (cases "CFREELIST_FETCH st")
      case (Pair n st1)
      show ?thesis
      proof (cases n)
        case None
        have fr: "free_rep st fs" "distinct fs" using oq by (simp_all add: openq_def)
        then have f: "fs = []" using Pair None fetch_some [of st] by (cases fs) auto
        then have "st1 = st" using fetch_none [of st] fr Pair by simp
        then show ?thesis using r Pair None full d owns_full [OF o] f set_next_same [OF linked_last [OF d(7) False]]
          by (simp add: blk_putc_def put_place_def c_putc_def q_abs_def)
      next
        case (Some b)
        let ?st = "set_next (last bs) (Some b) st1"
        obtain fs' where f: "fs = b # fs'" "openq ?st (bs @ [b]) (cq_place q) 0 xs fs'" "only_blocks (bs @ fs) ((bs @ [b]) @ fs') st ?st"
          using open_next [OF _ Pair [unfolded Some]] oq full by metis
        have q: "r = 0" "q' = q\<lparr>c_cc := c_cc q + 1, c_cl := Some (b, 1)\<rparr>" "st' = put_at (char_val x) (b, 0) ?st"
          using r Pair Some full d by (auto simp: blk_putc_def put_place_def)
        have "putc_ok x st q bs xs fs (put_at (char_val x) (last (bs @ [b]), 0) ?st) q'"
          by (rule putc_place [OF f(2) _ f(3)]) (use q d ne False full owns_full [OF o] f(1) in \<open>simp_all add: c_putc_def q_abs_def\<close>)
        then show ?thesis using q by simp
      qed
    qed
  next
    case part: False
    have q: "r = 0" "q' = q\<lparr>c_cc := c_cc q + 1, c_cl := Some (last bs, end_place q + 1)\<rparr>" "st' = put_at (char_val x) (last bs, end_place q) st"
      using r part d by (auto simp: blk_putc_def put_place_def)
    have "putc_ok x st q bs xs fs (put_at (char_val x) (last bs, end_place q) st) q'"
      by (rule putc_place [OF oq]) (use q d part False owns_full [OF o] in \<open>simp_all add: c_putc_def q_abs_def\<close>)
    then show ?thesis using q by simp
  qed
qed

section \<open>Many characters\<close>

abbreviation plain :: "8 word list \<Rightarrow> (8 word \<times> bool) list" where
  "plain \<equiv> map (\<lambda>c. (c, False))"

lemma open_puts:
  assumes o: "openq st bs i e xs fs" and n: "e + length ws \<le> CBSIZE"
  shows "openq (put_bytes_at ws (last bs, e) st) bs i (e + length ws) (xs @ plain ws) fs"
    "only_blocks (bs @ fs) (bs @ fs) st (put_bytes_at ws (last bs, e) st)"
proof -
  let ?b = "cblocks st (last bs)"
  let ?y = "?b\<lparr>cb_info := take e (cb_info ?b) @ ws @ drop (e + length ws) (cb_info ?b)\<rparr>"
  have b: "cb_ok ?b" "\<And>j. e \<le> j \<Longrightarrow> j < CBSIZE \<Longrightarrow> \<not> cb_quote ?b ! j" using o last_in_set [of bs] by (auto simp: openq_def cb_chain_def clean_from_def)
  have k: "cb_ok ?y" using b(1) n by (simp add: cb_ok_def)
  have t: "take (e + length (plain ws)) (content ?y) = take e (content ?b) @ plain ws"
  proof (rule nth_equalityI)
    show "length (take (e + length (plain ws)) (content ?y)) = length (take e (content ?b) @ plain ws)" using b(1) k n by simp
    show "take (e + length (plain ws)) (content ?y) ! j = (take e (content ?b) @ plain ws) ! j"
      if "j < length (take (e + length (plain ws)) (content ?y))" for j
      using that b k n by (cases "j < e") (auto simp: content_def cb_ok_def nth_append)
  qed
  have p: "put_bytes_at ws (last bs, e) st = st\<lparr>cblocks := (cblocks st)(last bs := ?y)\<rparr>" by (simp add: put_bytes_at_def)
  note w = open_write [OF o _ k t]
  show "openq (put_bytes_at ws (last bs, e) st) bs i (e + length ws) (xs @ plain ws) fs" unfolding p using w(1) n by simp
  show "only_blocks (bs @ fs) (bs @ fs) st (put_bytes_at ws (last bs, e) st)" unfolding p using w(2) n by simp
qed

text \<open>The room behind a place in the last block.\<close>

definition room_at :: "nat \<Rightarrow> nat list \<Rightarrow> nat" where
  "room_at e fs = CBSIZE - e + CBSIZE * length fs"

definition puts_ok :: "8 word list \<Rightarrow> cpool \<Rightarrow> nat list \<Rightarrow> nat \<Rightarrow> nat \<Rightarrow> (8 word \<times> bool) list \<Rightarrow> nat list \<Rightarrow> 8 word list \<times> cptr \<times> cpool \<Rightarrow> bool" where
  "puts_ok cs st bs i e xs fs r \<longleftrightarrow> (case r of (rest, (b, e'), st') \<Rightarrow> \<exists>bs' fs'.
     openq st' bs' i e' (xs @ plain (take (room_at e fs) cs)) fs' \<and> b = last bs' \<and> hd bs' = hd bs \<and> rest = drop (room_at e fs) cs
     \<and> room_at e' fs' = room_at e fs - length cs \<and> only_blocks (bs @ fs) (bs' @ fs') st st' \<and> (0 < e \<or> cs \<noteq> [] \<longrightarrow> 0 < e'))"

lemma puts_stuck:
  assumes "openq st bs i e xs fs" "cs = [] \<or> room_at e fs = 0"
  shows "puts_ok cs st bs i e xs fs (cs, (last bs, e), st)"
  unfolding puts_ok_def prod.case by (intro exI [of _ bs] exI [of _ fs]) (use assms in \<open>auto simp: room_at_def openq_def cb_chain_def\<close>)

lemma puts_step:
  assumes o: "openq st bs i e xs fs" and e: "e < CBSIZE" and cs: "cs \<noteq> []" and nc: "nc = min (length cs) (CBSIZE - e)"
    and IH: "\<And>st bs e xs. openq st bs i e xs fs \<Longrightarrow> puts_ok (drop nc cs) st bs i e xs fs (b_to_q_loop fuel (drop nc cs) (last bs, e) st)"
  shows "puts_ok cs st bs i e xs fs (b_to_q_loop fuel (drop nc cs) (last bs, e + nc) (put_bytes_at (take nc cs) (last bs, e) st))"
proof -
  have l: "length (take nc cs) = nc" "e + nc \<le> CBSIZE" "0 < nc" using nc e cs by simp_all
  note p = open_puts [OF o, of "take nc cs", unfolded l(1), OF l(2)]
  obtain rest b e' st' where r: "b_to_q_loop fuel (drop nc cs) (last bs, e + nc) (put_bytes_at (take nc cs) (last bs, e) st) = (rest, (b, e'), st')"
    by (metis prod.exhaust)
  have room: "room_at e fs = nc + room_at (e + nc) fs" using l(2) by (simp add: room_at_def)
  have t: "take (room_at e fs) cs = take nc cs @ take (room_at (e + nc) fs) (drop nc cs)" unfolding room take_add ..
  have d: "drop (room_at e fs) cs = drop (room_at (e + nc) fs) (drop nc cs)" unfolding room by (simp add: add.commute)
  obtain bs' fs' where h: "openq st' bs' i e' ((xs @ plain (take nc cs)) @ plain (take (room_at (e + nc) fs) (drop nc cs))) fs'" "b = last bs'" "hd bs' = hd bs"
    "rest = drop (room_at (e + nc) fs) (drop nc cs)" "room_at e' fs' = room_at (e + nc) fs - length (drop nc cs)"
    "only_blocks (bs @ fs) (bs' @ fs') (put_bytes_at (take nc cs) (last bs, e) st) st'" "0 < e'"
    using IH [OF p(1)] l(3) unfolding r puts_ok_def prod.case by auto
  have "nc \<le> length cs" using nc by simp
  then have "room_at e' fs' = room_at e fs - length cs" using h(5) room by simp
  then show ?thesis unfolding r puts_ok_def prod.case t d
    by (intro exI [of _ bs'] exI [of _ fs']) (use h only_blocks_trans [OF p(2) h(6)] in simp)
qed

lemma b_to_q_loop_ok:
  "openq st bs i e xs fs \<Longrightarrow> length cs \<le> fuel \<Longrightarrow> puts_ok cs st bs i e xs fs (b_to_q_loop fuel cs (last bs, e) st)"
proof (induction fuel arbitrary: st bs e xs fs cs)
  case 0
  then show ?case using puts_stuck [of st bs i e xs fs cs] by simp
next
  case (Suc fuel)
  show ?case
  proof (cases "cs = []")
    case True
    then show ?thesis using puts_stuck [OF Suc.prems(1), of cs] by simp
  next
    case cs: False
    have le: "e \<le> CBSIZE" using Suc.prems(1) by (simp add: openq_def cb_chain_def)
    show ?thesis
    proof (cases "e = CBSIZE")
      case False
      define nc where "nc = min (length cs) (CBSIZE - e)"
      have e: "e < CBSIZE" "nat (blk_left e) = CBSIZE - e" using le False by (simp_all add: blk_left_def CBSIZE_def nat_diff_distrib)
      have "puts_ok cs st bs i e xs fs (b_to_q_loop fuel (drop nc cs) (last bs, e + nc) (put_bytes_at (take nc cs) (last bs, e) st))"
        by (rule puts_step [OF Suc.prems(1) e(1) cs nc_def]) (erule Suc.IH, use Suc.prems(2) cs e(1) nc_def in \<open>cases cs; auto\<close>)
      then show ?thesis using cs False e(2) nc_def by (simp add: Let_def)
    next
      case full: True
      have fr: "free_rep st fs" "distinct fs" "linked (cblocks st) bs" "bs \<noteq> []" using Suc.prems(1) by (simp_all add: openq_def cb_chain_def)
      show ?thesis
      proof (cases "CFREELIST_FETCH st")
        case (Pair n st1)
        show ?thesis
        proof (cases n)
          case None
          then have f: "fs = []" using Pair fr fetch_some [of st] by (cases fs) auto
          then have s: "set_next (last bs) None st1 = st"
            using fetch_none [of st] fr Pair set_next_same [OF linked_last [OF fr(3,4)]] by simp
          then have "b_to_q_loop (Suc fuel) cs (last bs, e) st = (cs, (last bs, e), st)" using cs full Pair None by simp
          then show ?thesis using puts_stuck [OF Suc.prems(1), of cs] f full by (simp add: room_at_def del: b_to_q_loop.simps)
        next
          case (Some m)
          let ?st = "set_next (last bs) (Some m) st1"
          obtain fs' where f: "fs = m # fs'" "openq ?st (bs @ [m]) i 0 xs fs'" "only_blocks (bs @ fs) ((bs @ [m]) @ fs') st ?st"
            using open_next [OF _ Pair [unfolded Some]] Suc.prems(1) full by metis
          define nc where "nc = min (length cs) (CBSIZE - 0)"
          have b: "nat (blk_left 0) = CBSIZE" by (simp add: blk_left_def CBSIZE_def)
          have "puts_ok cs ?st (bs @ [m]) i 0 xs fs' (b_to_q_loop fuel (drop nc cs) (last (bs @ [m]), 0 + nc) (put_bytes_at (take nc cs) (last (bs @ [m]), 0) ?st))"
            by (rule puts_step [OF f(2) _ cs nc_def]) (simp, erule Suc.IH, use Suc.prems(2) cs nc_def in \<open>cases cs; auto simp: CBSIZE_def\<close>)
          moreover have "b_to_q_loop (Suc fuel) cs (last bs, e) st
             = b_to_q_loop fuel (drop nc cs) (last (bs @ [m]), 0 + nc) (put_bytes_at (take nc cs) (last (bs @ [m]), 0) ?st)"
            using cs full Pair Some b nc_def by (simp add: Let_def)
          moreover have "room_at e fs = room_at 0 fs'" using full f(1) by (simp add: room_at_def)
          ultimately show ?thesis using fr(4) cs only_blocks_trans [OF f(3)]
            by (simp add: puts_ok_def split: prod.splits del: b_to_q_loop.simps) metis
        qed
      qed
    qed
  qed
qed

text \<open>Room, characters and place of the model without blocks say what its state is.\<close>

lemma b_to_q_off: "b_to_q cs st = (rest, st1) \<Longrightarrow> (c_chars (fst st) = [] \<longrightarrow> c_off (fst st) = 0) \<Longrightarrow> c_off (fst st1) = c_off (fst st)"
proof (induction cs st rule: b_to_q.induct)
  case (2 c cs st)
  show ?case
  proof (cases "c_putc c st")
    case (Some st')
    have "c_off (fst st') = c_off (fst st)" using Some 2(3) by (cases st) (auto simp: c_putc_def split: if_splits)
    then show ?thesis using 2 c_putc_Some(1) [OF Some] Some by simp
  qed (use 2 in simp)
qed simp

lemma clist_state_eq:
  assumes "c_chars (fst s) = c_chars (fst t)" "c_off (fst s) = c_off (fst t)" "c_room s = c_room t"
  shows "s = t"
proof -
  have f: "fst s = fst t" using assms(1,2) by (metis clist.equality unit.exhaust)
  then have "CBSIZE * snd s = CBSIZE * snd t" using assms(3) by (simp add: c_room_def)
  then show ?thesis using f by (simp add: prod_eq_iff)
qed

lemma owns_room:
  assumes "owns st q bs xs fs"
  shows "c_room (q_abs q xs fs) = (if bs = [] then CBSIZE * length fs else room_at (end_place q) fs)"
proof (cases "bs = []")
  case True
  then show ?thesis using owns_empty_iff [OF assms] by (simp add: c_room_def c_slack_def q_abs_def)
next
  case False
  have "q_rep (cblocks st) q bs xs" using assms(1) by (simp add: owns_def)
  then have e: "0 < end_place q" "end_place q \<le> CBSIZE" using q_repD(4,5) [OF _ False] by auto
  then have "(CBSIZE - end_place q mod CBSIZE) mod CBSIZE = CBSIZE - end_place q" by (cases "end_place q = CBSIZE") auto
  then show ?thesis using owns_end [OF assms False] owns_empty_iff [OF assms] False
    by (simp add: c_room_def c_slack_def q_abs_def room_at_def)
qed

lemma openq_place: "openq st bs i e xs fs \<Longrightarrow> xs \<noteq> [] \<Longrightarrow> tl bs = [] \<Longrightarrow> i < e"
  by (cases bs; cases "tl bs") (auto simp: openq_def cb_chain_def)

definition puts_done :: "8 word list \<Rightarrow> cpool \<Rightarrow> cqueue \<Rightarrow> nat list \<Rightarrow> (8 word \<times> bool) list \<Rightarrow> nat list \<Rightarrow> 8 word list \<Rightarrow> cqueue \<Rightarrow> cpool \<Rightarrow> bool" where
  "puts_done cs st q bs xs fs rest q' st' \<longleftrightarrow> (\<exists>bs' fs'. owns st' q' bs' (xs @ plain (take (length cs - length rest) cs)) fs' \<and> q_clean st' q'
     \<and> only_blocks (bs @ fs) (bs' @ fs') st st'
     \<and> b_to_q cs (q_abs q xs fs) = (rest, q_abs q' (xs @ plain (take (length cs - length rest) cs)) fs'))"

lemma puts_finish:
  assumes o: "openq st1 bs1 i e xs fs1" and p: "puts_ok cs st1 bs1 i e xs fs1 (rest, (b, e'), st')" and cs: "cs \<noteq> []"
    and ob: "only_blocks (bs @ fs) (bs1 @ fs1) st st1" and rm: "c_room (q_abs q xs fs) = room_at e fs1" "room_at e fs1 \<noteq> 0 \<or> xs \<noteq> []"
    and i: "cq_place q = i" "xs = [] \<Longrightarrow> i = 0"
    and q': "q' = q\<lparr>c_cc := int (length xs) + int (length cs) - int (length rest), c_cf := Some (hd bs1, i), c_cl := Some (b, e')\<rparr>"
  shows "puts_done cs st q bs xs fs rest q' st'"
proof -
  let ?m = "take (room_at e fs1) cs"
  obtain bs' fs' where h: "openq st' bs' i e' (xs @ plain ?m) fs'" "b = last bs'" "hd bs' = hd bs1"
    "rest = drop (room_at e fs1) cs" "room_at e' fs' = room_at e fs1 - length cs"
    "only_blocks (bs1 @ fs1) (bs' @ fs') st1 st'" "0 < e'"
    using p cs unfolding puts_ok_def prod.case by auto
  have m: "take (length cs - length rest) cs = ?m" using h(4) by (cases "length cs \<le> room_at e fs1") auto
  have ne: "xs @ plain ?m \<noteq> []" using rm(2) cs by auto
  have c: "c_cc q' = int (length (xs @ plain ?m))" using h(4) q' by auto
  have w: "owns st' q' bs' (xs @ plain ?m) fs'" "q_clean st' q'"
    using openq_owns [OF h(1) c _ _ h(7) openq_place [OF h(1) ne]] q' h(2,3) by auto
  have k: "cq_place q' = i" "end_place q' = e'" "bs' \<noteq> []" using q' h(1) by (auto simp: cq_place_def end_place_def openq_def cb_chain_def)
  obtain r t where b: "b_to_q cs (q_abs q xs fs) = (r, t)" by (cases "b_to_q cs (q_abs q xs fs)")
  note mv = b_to_q_moves [OF b] b_to_q_off [OF b]
  have "t = q_abs q' (xs @ plain ?m) fs'"
    by (rule clist_state_eq) (use mv rm(1) i k owns_room [OF w(1)] h(5) in \<open>auto simp: q_abs_def comp_def\<close>)
  then have "b_to_q cs (q_abs q xs fs) = (rest, q_abs q' (xs @ plain ?m) fs')" using b mv(1) rm(1) h(4) by simp
  then show ?thesis unfolding puts_done_def m using w only_blocks_trans [OF ob h(6)] by blast
qed

lemma puts_none:
  assumes "owns st q bs xs fs" "q_clean st q" "cs = [] \<or> c_room (q_abs q xs fs) = 0"
  shows "puts_done cs st q bs xs fs cs q st"
proof -
  have "b_to_q cs (q_abs q xs fs) = (cs, q_abs q xs fs)" using assms(3) c_putc_None [of "hd cs" "q_abs q xs fs"] by (cases cs) auto
  then show ?thesis unfolding puts_done_def by (intro exI [of _ bs] exI [of _ fs]) (use assms in simp)
qed

lemma b_to_q_owns:
  assumes o: "owns st q bs xs fs" and cl: "q_clean st q" and r: "blk_b_to_q cs q st = (rest, q', st')"
  shows "puts_done cs st q bs xs fs rest q' st'"
proof (cases "cs = []")
  case True
  then show ?thesis using r puts_none [OF o cl] by (simp add: blk_b_to_q_def)
next
  case cs: False
  have cc: "c_cc q = int (length xs)" using o by (simp add: owns_def q_rep_def)
  show ?thesis
  proof (cases "bs = []")
    case True
    have e: "q = no_chars" "xs = []" "free_rep st fs" "distinct fs" using owns_emptyD [of st q xs fs] o True by auto
    show ?thesis
    proof (cases "CFREELIST_FETCH st")
      case (Pair n st1)
      show ?thesis
      proof (cases n)
        case None
        then have f: "fs = []" using Pair e fetch_some [of st] by (cases fs) auto
        then have "st1 = st" using fetch_none [of st] e Pair by simp
        then have "rest = cs" "q' = q" "st' = st" using r Pair None cs e(1) by (simp_all add: blk_b_to_q_def no_chars_def)
        moreover have "c_room (q_abs q xs fs) = 0" using owns_room [OF o] True f by simp
        ultimately show ?thesis using puts_none [OF o cl] by simp
      next
        case (Some b)
        obtain fs' where f: "fs = b # fs'" "openq st1 [b] 0 0 [] fs'" "only_blocks fs (b # fs') st st1"
          using open_first [OF e(3) _ e(4)] Pair Some by blast
        obtain rest1 b1 e1 st2 where l: "b_to_q_loop (length cs) cs (b, 0) st1 = (rest1, (b1, e1), st2)" by (metis prod.exhaust)
        have q': "rest = rest1" "st' = st2" "q' = q\<lparr>c_cc := int (length xs) + int (length cs) - int (length rest), c_cf := Some (hd [b], 0), c_cl := Some (b1, e1)\<rparr>"
          using r Pair Some l cs e(1,2) by (auto simp: blk_b_to_q_def no_chars_def)
        have p: "puts_ok cs st1 [b] 0 0 xs fs' (rest, (b1, e1), st')" using b_to_q_loop_ok [OF f(2) order_refl, of cs] l q'(1,2) e(2) by simp
        have "room_at 0 fs' \<noteq> 0" by (simp add: room_at_def CBSIZE_def)
        then show ?thesis using puts_finish [OF _ p cs _ _ _ _ _ q'(3), of bs fs st] f e True owns_room [OF o]
          by (simp add: room_at_def cq_place_def no_chars_def)
      qed
    qed
  next
    case False
    have "q_rep (cblocks st) q bs xs" using o by (simp add: owns_def)
    note d = q_repD [OF this False]
    note oq = owns_openq [OF o cl False]
    have ne: "xs \<noteq> []" using owns_empty_iff [OF o] False by simp
    obtain rest1 b1 e1 st2 where l: "b_to_q_loop (length cs) cs (last bs, end_place q) st = (rest1, (b1, e1), st2)" by (metis prod.exhaust)
    have q': "rest = rest1" "st' = st2" "q' = q\<lparr>c_cc := int (length xs) + int (length cs) - int (length rest), c_cf := Some (hd bs, cq_place q), c_cl := Some (b1, e1)\<rparr>"
      using r l cs d(1,2,11) by (auto simp: blk_b_to_q_def)
    have p: "puts_ok cs st bs (cq_place q) (end_place q) xs fs (rest, (b1, e1), st')" using b_to_q_loop_ok [OF oq order_refl, of cs] l q'(1,2) by simp
    show ?thesis by (rule puts_finish [OF oq p cs _ _ _ _ _ q'(3)]) (use ne False owns_room [OF o] in simp_all)
  qed
qed

end
