(* ===== verification/Clist_Take.thy ===== *)
theory Clist_Take
  imports Clist_Put
begin

text \<open>
  Taking characters from the front of a queue of blocks: \<open>getc\<close>, \<open>q_to_b\<close> and \<open>ndflush\<close>.
\<close>

section \<open>Several \<open>getc\<close> on the model without blocks\<close>

definition c_getcs :: "nat \<Rightarrow> clist \<times> nat \<Rightarrow> clist \<times> nat" where
  "c_getcs k st = ((\<lambda>s. snd (c_getc s)) ^^ k) st"

lemma c_getcs_0 [simp]: "c_getcs 0 st = st"
  by (simp add: c_getcs_def)

lemma c_getcs_Suc: "c_getcs (Suc k) st = snd (c_getc (c_getcs k st))"
  by (simp add: c_getcs_def)

lemma c_getcs_add: "c_getcs (j + k) st = c_getcs k (c_getcs j st)"
  by (simp add: c_getcs_def add.commute [of j] funpow_add)

lemma c_getcs_empty: "c_getcs k (empty_clist, n) = (empty_clist, n)"
  by (induction k) (simp_all add: c_getcs_Suc c_getc_def empty_clist_def)

lemma c_getcs_block:
  "0 < k \<Longrightarrow> k \<le> length cs \<Longrightarrow> off + k \<le> CBSIZE \<Longrightarrow> c_getcs k (\<lparr>c_chars = cs, c_off = off\<rparr>, n)
   = (if k = length cs then (empty_clist, n + 1) else if off + k = CBSIZE then (\<lparr>c_chars = drop k cs, c_off = 0\<rparr>, n + 1)
      else (\<lparr>c_chars = drop k cs, c_off = off + k\<rparr>, n))"
proof (induction k)
  case (Suc k)
  have "c_getcs k (\<lparr>c_chars = cs, c_off = off\<rparr>, n) = (\<lparr>c_chars = drop k cs, c_off = off + k\<rparr>, n)"
    using Suc by (cases k) simp_all
  moreover obtain c ds where d: "drop k cs = c # ds" using Suc.prems by (cases "drop k cs") auto
  moreover have "drop (Suc k) cs = ds" using d by (metis drop_Suc list.sel(3) tl_drop)
  moreover have "ds = [] \<longleftrightarrow> Suc k = length cs" using d Suc.prems(2) by (metis \<open>drop (Suc k) cs = ds\<close> drop_eq_Nil le_antisym)
  moreover have "(off + k + 1) mod CBSIZE = 0 \<longleftrightarrow> off + Suc k = CBSIZE"
    using Suc.prems(3) by (cases "off + Suc k = CBSIZE") auto
  ultimately show ?case by (simp add: c_getcs_Suc c_getc_def)
qed simp

lemma taken_abs:
  assumes "taken k st q bs xs fs st' q' bs' fs'" "0 < k" "k \<le> length xs" "cq_place q + k \<le> CBSIZE"
  shows "q_abs q' (drop k xs) fs' = c_getcs k (q_abs q xs fs)"
proof -
  have "c_getcs k (q_abs q xs fs) = (if k = length xs then (empty_clist, length fs + 1)
      else if cq_place q + k = CBSIZE then (\<lparr>c_chars = drop k (map fst xs), c_off = 0\<rparr>, length fs + 1)
      else (\<lparr>c_chars = drop k (map fst xs), c_off = cq_place q + k\<rparr>, length fs))"
    unfolding q_abs_def using c_getcs_block [of k "map fst xs" "cq_place q" "length fs"] assms(2-4) by simp
  then show ?thesis using assms(1) by (auto simp: taken_def q_abs_def drop_map empty_clist_def)
qed

section \<open>One character\<close>

definition gets_ok :: "nat \<Rightarrow> cpool \<Rightarrow> cqueue \<Rightarrow> nat list \<Rightarrow> (8 word \<times> bool) list \<Rightarrow> nat list \<Rightarrow> cpool \<Rightarrow> cqueue \<Rightarrow> bool" where
  "gets_ok k st q bs xs fs st' q' \<longleftrightarrow> (\<exists>bs' fs'. owns st' q' bs' (drop k xs) fs' \<and> only_blocks (bs @ fs) (bs' @ fs') st st'
     \<and> (q_clean st q \<longrightarrow> q_clean st' q') \<and> q_abs q' (drop k xs) fs' = c_getcs k (q_abs q xs fs))"

lemma consume_gets:
  assumes "owns st q bs xs fs" "0 < k" "k \<le> length xs" "cq_place q + k \<le> CBSIZE" "consume k q st = (q', st')"
  shows "gets_ok k st q bs xs fs st' q'"
proof -
  obtain bs' fs' where t: "taken k st q bs xs fs st' q' bs' fs'" using consume_owns(1) [OF assms] by blast
  then show ?thesis using taken_abs [OF t assms(2-4)] by (auto simp: gets_ok_def taken_def)
qed

lemma gets_trans:
  assumes "owns st1 q1 bs1 (drop k xs) fs1" "only_blocks (bs @ fs) (bs1 @ fs1) st st1" "q_clean st q \<longrightarrow> q_clean st1 q1"
    "q_abs q1 (drop k xs) fs1 = c_getcs k (q_abs q xs fs)" "gets_ok j st1 q1 bs1 (drop k xs) fs1 st2 q2"
  shows "gets_ok (k + j) st q bs xs fs st2 q2"
proof -
  obtain bs2 fs2 where "owns st2 q2 bs2 (drop j (drop k xs)) fs2" "only_blocks (bs1 @ fs1) (bs2 @ fs2) st1 st2"
    "q_clean st1 q1 \<longrightarrow> q_clean st2 q2" "q_abs q2 (drop j (drop k xs)) fs2 = c_getcs j (q_abs q1 (drop k xs) fs1)"
    using assms(5) by (auto simp: gets_ok_def)
  moreover have "drop (k + j) xs = drop j (drop k xs)" by (simp add: add.commute)
  moreover have "c_getcs (k + j) (q_abs q xs fs) = c_getcs j (q_abs q1 (drop k xs) fs1)" unfolding assms(4) c_getcs_add ..
  ultimately show ?thesis unfolding gets_ok_def using only_blocks_trans [OF assms(2)] assms(3) by metis
qed

lemma gets_empty:
  assumes "owns st q bs [] fs"
  shows "gets_ok k st q bs [] fs st q" "q = no_chars"
proof -
  have "bs = []" using owns_empty_iff [OF assms] by simp
  then show q: "q = no_chars" using owns_emptyD assms by blast
  have "q_abs q [] fs = (empty_clist, length fs)" by (simp add: q q_abs_def empty_clist_def cq_place_def no_chars_def)
  then show "gets_ok k st q bs [] fs st q" using assms c_getcs_empty [of k] only_blocks_refl by (fastforce simp: gets_ok_def)
qed

lemma getc_consume:
  assumes "owns st q bs xs fs" "xs \<noteq> []"
  shows "blk_getc q st = Some (char_val (hd xs), consume 1 q st)" "1 \<le> length xs" "cq_place q + 1 \<le> CBSIZE"
proof -
  have ne: "bs \<noteq> []" using owns_empty_iff [OF assms(1)] assms(2) by simp
  have q: "q_rep (cblocks st) q bs xs" using assms(1) by (simp add: owns_def)
  note d = q_repD [OF q ne]
  show l: "1 \<le> length xs" "cq_place q + 1 \<le> CBSIZE" using assms(2) d(3) by (cases xs; simp)+
  let ?b = "cblocks st (hd bs)"
  have k: "cb_ok ?b" using d(8) ne by simp
  have "take 1 xs = take 1 (drop (cq_place q) (content ?b))" using consume_owns(2) [OF assms(1) _ l] by (metis prod.exhaust zero_less_one)
  moreover have "drop (cq_place q) (content ?b) = content ?b ! cq_place q # drop (Suc (cq_place q)) (content ?b)"
    by (rule Cons_nth_drop_Suc [symmetric]) (use k d(3) in simp)
  ultimately have "hd xs = content ?b ! cq_place q" using assms(2) by (cases xs) simp_all
  then have h: "hd xs = (cb_info ?b ! cq_place q, cb_quote ?b ! cq_place q)" using k d(3) by (simp add: content_def cb_ok_def)
  have c: "c_cc q = int (length xs)" "0 < length xs" using d(11) l by auto
  show "blk_getc q st = Some (char_val (hd xs), consume 1 q st)"
    using d(1) c by (simp add: blk_getc_def consume_def Let_def h char_val_def)
qed

lemma getc_owns:
  assumes "owns st q bs xs fs"
  shows "\<exists>q' st'. blk_getc q st = Some (case xs of [] \<Rightarrow> - 1 | x # _ \<Rightarrow> char_val x, q', st') \<and> gets_ok 1 st q bs xs fs st' q'"
proof (cases xs)
  case Nil
  then show ?thesis using gets_empty [of st q bs fs] assms by (simp add: blk_getc_def no_chars_def)
next
  case (Cons x ys)
  then have ne: "xs \<noteq> []" by simp
  obtain q' st' where c: "consume 1 q st = (q', st')" by (cases "consume 1 q st")
  then show ?thesis using getc_consume [OF assms ne] consume_gets [OF assms _ getc_consume(2,3) [OF assms ne] c] Cons by simp
qed

section \<open>Several characters\<close>

text \<open>What one round takes: no more than wanted, than there are, and than the block has.\<close>

definition round_of :: "int \<Rightarrow> cqueue \<Rightarrow> (8 word \<times> bool) list \<Rightarrow> nat" where
  "round_of cc q xs = min (CBSIZE - cq_place q) (min (nat cc) (length xs))"

lemma blk_left_eq: "i < CBSIZE \<Longrightarrow> blk_left i = int (CBSIZE - i)"
  by (simp add: blk_left_def CBSIZE_def of_nat_diff)

lemma owns_front:
  assumes "owns st q bs xs fs" "xs \<noteq> []"
  shows "c_cf q = Some (hd bs, cq_place q)" "c_cl q = Some (last bs, end_place q)" "cq_place q < CBSIZE" "c_cc q = int (length xs)" "0 < length xs" "bs \<noteq> []"
    "cb_ok (cblocks st (hd bs))"
    "hd bs = last bs \<Longrightarrow> end_place q - cq_place q = length xs \<and> cq_place q < end_place q \<and> end_place q \<le> CBSIZE \<and> cb_next (cblocks st (hd bs)) = None"
    "hd bs \<noteq> last bs \<Longrightarrow> CBSIZE - cq_place q < length xs"
proof -
  have q: "q_rep (cblocks st) q bs xs" "distinct bs" using assms(1) by (simp_all add: owns_def)
  show ne: "bs \<noteq> []" using owns_empty_iff [OF assms(1)] assms(2) by simp
  note d = q_repD [OF q(1) ne]
  show "c_cf q = Some (hd bs, cq_place q)" "c_cl q = Some (last bs, end_place q)" "cq_place q < CBSIZE" "c_cc q = int (length xs)" "0 < length xs"
    "cb_ok (cblocks st (hd bs))" using d assms(2) ne by simp_all
  show "end_place q - cq_place q = length xs \<and> cq_place q < end_place q \<and> end_place q \<le> CBSIZE \<and> cb_next (cblocks st (hd bs)) = None" if e: "hd bs = last bs"
  proof -
    obtain b where "bs = [b]" using e q(2) ne by (cases bs; cases "tl bs") (auto split: if_splits)
    then show ?thesis using d(5-7,10) by auto
  qed
  show "CBSIZE - cq_place q < length xs" if e: "hd bs \<noteq> last bs"
  proof -
    obtain b c cs where "bs = b # c # cs" using e ne by (cases bs; cases "tl bs") auto
    then show ?thesis using d(3,4,10) by auto
  qed
qed

lemma round_of_bounds:
  assumes "owns st q bs xs fs" "xs \<noteq> []" "0 < cc"
  shows "0 < round_of cc q xs" "round_of cc q xs \<le> length xs" "cq_place q + round_of cc q xs \<le> CBSIZE" "int (round_of cc q xs) \<le> cc"
    "min (min (blk_left (cq_place q)) cc) (c_cc q) = int (round_of cc q xs)"
proof -
  note f = owns_front [OF assms(1,2)]
  show r: "0 < round_of cc q xs" "round_of cc q xs \<le> length xs" "cq_place q + round_of cc q xs \<le> CBSIZE" "int (round_of cc q xs) \<le> cc"
    using f(3,5) assms(3) by (auto simp: round_of_def)
  show "min (min (blk_left (cq_place q)) cc) (c_cc q) = int (round_of cc q xs)"
    using assms(3) by (simp add: round_of_def blk_left_eq [OF f(3)] f(4) of_nat_min min.assoc del: of_nat_diff)
qed

lemma q_to_b_round:
  assumes o: "owns st q bs xs fs" and x: "xs \<noteq> []" "0 < cc" and k: "k = round_of cc q xs" and c: "consume k q st = (q', st')"
  shows "q_to_b_loop (Suc fuel) cc q st = (if k = length xs \<or> int k = cc then Some (map fst (take k xs), q', st')
    else map_option (\<lambda>(more, r). (map fst (take k xs) @ more, r)) (q_to_b_loop fuel (cc - int k) q' st'))"
proof -
  note f = owns_front [OF o x(1)]
  note r = round_of_bounds [OF o x, folded k]
  have "take k xs = take k (drop (cq_place q) (content (cblocks st (hd bs))))" using consume_owns(2) [OF o r(1-3) c] .
  then have t: "map fst (take k xs) = take k (drop (cq_place q) (cb_info (cblocks st (hd bs))))"
    using f(7) by (simp add: content_def cb_ok_def drop_map [symmetric] take_map [symmetric])
  have n: "int (length xs) - int k \<le> 0 \<longleftrightarrow> k = length xs" using r(2) by linarith
  show ?thesis unfolding t
    by (simp only: q_to_b_loop.simps f(1) option.case prod.case r(5) Let_def nat_int) (use f(1,4) c n in \<open>auto simp: consume_def Let_def\<close>)
qed

lemma ndflush_step:
  assumes "c_cf q = Some (b, i)" "c_cl q = Some (lb, e)" "0 < cc" "c_cc q \<noteq> 0" "rem = int (if b = lb then e else CBSIZE) - int i"
  shows "ndflush_loop (Suc fuel) cc q st = (if cc \<ge> rem then
          ndflush_loop fuel (cc - rem) (q\<lparr>c_cc := c_cc q - rem, c_cf := info_of (cb_next (cblocks st b))\<rparr>) (CFREELIST_RETURN b st)
        else Some (q\<lparr>c_cc := c_cc q - cc, c_cf := Some (b, i + nat cc)\<rparr>,
                   if c_cc q - cc \<le> 0 then CFREELIST_RETURN b st else st))"
  using assms by (simp add: Let_def)

lemma ndflush_done: "\<not> (cc > 0 \<and> c_cc q \<noteq> 0) \<Longrightarrow> ndflush_loop (Suc fuel) cc q st = Some (q, st)"
  by auto

lemma ndflush_round:
  assumes o: "owns st q bs xs fs" and x: "xs \<noteq> []" "0 < cc" and k: "k = round_of cc q xs" and c: "consume k q st = (q', st')"
  shows "map_option (\<lambda>(q, st). (if c_cc q \<le> 0 then no_chars else q, st)) (ndflush_loop (Suc (Suc fuel)) cc q st)
    = (if k = length xs \<or> int k = cc then Some (q', st')
       else map_option (\<lambda>(q, st). (if c_cc q \<le> 0 then no_chars else q, st)) (ndflush_loop (Suc fuel) (cc - int k) q' st'))"
proof -
  note f = owns_front [OF o x(1)]
  note r = round_of_bounds [OF o x, folded k]
  let ?rem = "int (if hd bs = last bs then end_place q else CBSIZE) - int (cq_place q)"
  have rem: "?rem = int (min (CBSIZE - cq_place q) (length xs))" using f(3,8,9) by (cases "hd bs = last bs") (auto simp: of_nat_diff)
  have kr: "k = min (nat ?rem) (nat cc)" unfolding k round_of_def rem by (simp add: min.left_commute min.commute)
  have cc: "c_cc q \<noteq> 0" using f(4,5) by simp
  note st = ndflush_step [OF f(1,2) x(2) cc refl]
  consider "hd bs = last bs" "cc \<ge> ?rem" | "hd bs \<noteq> last bs" "cc \<ge> ?rem" | "cc < ?rem" by linarith
  then show ?thesis
  proof cases
    case 1
    then have k1: "k = length xs" "?rem = int (length xs)" using kr f(3,8) rem by auto
    have "ndflush_loop (Suc (Suc fuel)) cc q st = Some (q\<lparr>c_cc := 0, c_cf := None\<rparr>, CFREELIST_RETURN (hd bs) st)"
      unfolding st k1(2) using 1 k1 f(4,8) by (subst if_P) (simp_all add: ndflush_done info_of_def del: ndflush_loop.simps)
    moreover have "q' = no_chars" "st' = CFREELIST_RETURN (hd bs) st" using c f(1,4) k1(1) by (auto simp: consume_def Let_def no_chars_def)
    ultimately show ?thesis using k1(1) by (simp add: no_chars_def del: ndflush_loop.simps)
  next
    case 2
    then have k2: "?rem = int k" "k < length xs" "cq_place q + k = CBSIZE" using kr f(3,9) rem by auto
    have "ndflush_loop (Suc (Suc fuel)) cc q st = ndflush_loop (Suc fuel) (cc - int k) q' st'"
      unfolding st k2(1) using 2(2) k2 c f(1,4) by (auto simp: consume_def Let_def simp del: ndflush_loop.simps)
    then show ?thesis using k2 f(4) c f(1) by (auto simp: ndflush_done consume_def Let_def simp del: ndflush_loop.simps)
  next
    case 3
    then have k3: "cc = int k" "k < length xs" "cq_place q + k < CBSIZE" using kr rem x(2) by (auto simp: min_def split: if_splits)
    then show ?thesis unfolding st using 3 f(1,4) c by (auto simp: consume_def Let_def)
  qed
qed

lemma loops_take:
  "owns st q bs xs fs \<Longrightarrow> xs \<noteq> [] \<Longrightarrow> 0 < cc \<Longrightarrow> nat cc \<le> fuel \<Longrightarrow>
   \<exists>q' st'. q_to_b_loop fuel cc q st = Some (map fst (take (nat cc) xs), q', st') \<and> gets_ok (nat cc) st q bs xs fs st' q'
     \<and> map_option (\<lambda>(q, st). (if c_cc q \<le> 0 then no_chars else q, st)) (ndflush_loop (Suc fuel) cc q st) = Some (q', st')"
proof (induction fuel arbitrary: st q bs xs fs cc)
  case (Suc fuel)
  define k where "k = round_of cc q xs"
  obtain q1 st1 where c: "consume k q st = (q1, st1)" by (cases "consume k q st")
  note r = round_of_bounds [OF Suc.prems(1-3), folded k_def]
  note rounds = q_to_b_round [OF Suc.prems(1-3) k_def c] ndflush_round [OF Suc.prems(1-3) k_def c]
  obtain bs1 fs1 where g: "owns st1 q1 bs1 (drop k xs) fs1" "only_blocks (bs @ fs) (bs1 @ fs1) st st1" "q_clean st q \<longrightarrow> q_clean st1 q1"
    "q_abs q1 (drop k xs) fs1 = c_getcs k (q_abs q xs fs)"
    using consume_gets [OF Suc.prems(1) r(1-3) c] by (auto simp: gets_ok_def)
  consider "int k = cc" | "k = length xs" "int k < cc" | "k < length xs" "int k < cc" using r(2,4) by linarith
  then show ?case
  proof cases
    case 1
    then show ?thesis using rounds consume_gets [OF Suc.prems(1) r(1-3) c] by auto
  next
    case 2
    have j: "k + (nat cc - k) = nat cc" using 2 by simp
    have "gets_ok (nat cc) st q bs xs fs st1 q1"
      using gets_trans [OF g, of "nat cc - k" st1 q1] gets_empty(1) [of st1 q1 bs1 fs1] g(1) 2 unfolding j by simp
    then show ?thesis using rounds 2 by auto
  next
    case 3
    have j: "k + nat (cc - int k) = nat cc" using 3 by simp
    have "\<exists>q' st'. q_to_b_loop fuel (cc - int k) q1 st1 = Some (map fst (take (nat (cc - int k)) (drop k xs)), q', st')
        \<and> gets_ok (nat (cc - int k)) st1 q1 bs1 (drop k xs) fs1 st' q'
        \<and> map_option (\<lambda>(q, st). (if c_cc q \<le> 0 then no_chars else q, st)) (ndflush_loop (Suc fuel) (cc - int k) q1 st1) = Some (q', st')"
      by (rule Suc.IH [OF g(1)]) (use 3 r(1) Suc.prems(4) in auto)
    then obtain q' st' where s: "q_to_b_loop fuel (cc - int k) q1 st1 = Some (map fst (take (nat (cc - int k)) (drop k xs)), q', st')"
        "gets_ok (nat (cc - int k)) st1 q1 bs1 (drop k xs) fs1 st' q'"
        "map_option (\<lambda>(q, st). (if c_cc q \<le> 0 then no_chars else q, st)) (ndflush_loop (Suc fuel) (cc - int k) q1 st1) = Some (q', st')"
      by blast
    have "take (nat cc) xs = take k xs @ take (nat (cc - int k)) (drop k xs)" unfolding j [symmetric] take_add ..
    then show ?thesis using rounds s 3 gets_trans [OF g s(2)] unfolding j by auto
  qed
qed simp

lemma q_to_b_owns:
  assumes "owns st q bs xs fs"
  shows "\<exists>q' st'. q_to_b cc q st = Some (map fst (take (nat cc) xs), q', st') \<and> ndflush cc q st = Some (q', st') \<and> gets_ok (nat cc) st q bs xs fs st' q'"
proof -
  have c: "c_cc q = int (length xs)" using assms by (simp add: owns_def q_rep_def)
  have z: "gets_ok 0 st q bs xs fs st q" unfolding gets_ok_def by (intro exI [of _ bs] exI [of _ fs]) (use assms in simp)
  show ?thesis
  proof (cases "xs = []")
    case True
    then show ?thesis using gets_empty [of st q bs fs] assms z by (simp add: q_to_b_def ndflush_def no_chars_def)
  next
    case x: False
    show ?thesis
    proof (cases "0 < cc")
      case True
      obtain q' st' where l: "q_to_b_loop (nat cc) cc q st = Some (map fst (take (nat cc) xs), q', st')" "gets_ok (nat cc) st q bs xs fs st' q'"
        "map_option (\<lambda>(q, st). (if c_cc q \<le> 0 then no_chars else q, st)) (ndflush_loop (Suc (nat cc)) cc q st) = Some (q', st')"
        using loops_take [OF assms x True, of "nat cc"] by blast
      then have "ndflush cc q st = Some (q', st')" using c x unfolding ndflush_def by simp
      then show ?thesis using l c x True by (simp add: q_to_b_def)
    next
      case False
      then show ?thesis using z c x by (simp add: q_to_b_def ndflush_def)
    qed
  qed
qed

end
