(* ===== verification/Clist_Queues.thy ===== *)
theory Clist_Queues
  imports Clist_Take
begin

text \<open>
  Any number of queues over one free list: what each operation does to its queue, to the free list
  and to the others.  The specification keeps the characters of each queue with their marks, the
  place of the first one and the number of free blocks.
\<close>

section \<open>Operations on the queues\<close>

datatype cop = Getc nat | Putc nat "8 word \<times> bool" | Q_to_b nat int | Ndflush nat int | B_to_q nat "8 word list"

datatype cres = Char int | Bytes "8 word list" | Done

type_synonym queues = "(nat \<Rightarrow> cqueue) \<times> cpool"

definition clist_op :: "cop \<Rightarrow> queues \<Rightarrow> (cres \<times> queues) option" where
  "clist_op op s = (case s of (qs, st) \<Rightarrow>
     (case op of
        Getc k \<Rightarrow> map_option (\<lambda>(c, q, st). (Char c, qs(k := q), st)) (blk_getc (qs k) st)
      | Putc k x \<Rightarrow> (case blk_putc (char_val x) (qs k) st of (r, q, st) \<Rightarrow> Some (Char r, qs(k := q), st))
      | Q_to_b k cc \<Rightarrow> map_option (\<lambda>(cs, q, st). (Bytes cs, qs(k := q), st)) (q_to_b cc (qs k) st)
      | Ndflush k cc \<Rightarrow> map_option (\<lambda>(q, st). (Done, qs(k := q), st)) (ndflush cc (qs k) st)
      | B_to_q k cs \<Rightarrow> (case blk_b_to_q cs (qs k) st of (rest, q, st) \<Rightarrow> Some (Char (int (length rest)), qs(k := q), st))))"

primrec clist_run :: "cop list \<Rightarrow> queues \<Rightarrow> (cres list \<times> queues) option" where
  "clist_run [] s = Some ([], s)"
| "clist_run (op # ops) s = (case clist_op op s of None \<Rightarrow> None
   | Some (r, s) \<Rightarrow> map_option (\<lambda>(rs, s). (r # rs, s)) (clist_run ops s))"

section \<open>The specification\<close>

type_synonym aqueues = "(nat \<Rightarrow> (8 word \<times> bool) list \<times> nat) \<times> nat"

definition a_clist :: "nat \<Rightarrow> aqueues \<Rightarrow> clist \<times> nat" where
  "a_clist k a = (\<lparr>c_chars = map fst (fst (fst a k)), c_off = snd (fst a k)\<rparr>, snd a)"

definition a_set :: "nat \<Rightarrow> (8 word \<times> bool) list \<Rightarrow> clist \<times> nat \<Rightarrow> aqueues \<Rightarrow> aqueues" where
  "a_set k xs c a = ((fst a)(k := (xs, c_off (fst c))), snd c)"

definition a_take :: "nat \<Rightarrow> nat \<Rightarrow> aqueues \<Rightarrow> aqueues" where
  "a_take k n a = a_set k (drop n (fst (fst a k))) (c_getcs n (a_clist k a)) a"

definition a_op :: "cop \<Rightarrow> aqueues \<Rightarrow> cres \<times> aqueues" where
  "a_op op a = (case op of
     Getc k \<Rightarrow> (Char (case fst (fst a k) of [] \<Rightarrow> - 1 | x # _ \<Rightarrow> char_val x), a_take k 1 a)
   | Putc k x \<Rightarrow> (case c_putc (fst x) (a_clist k a) of
                    None \<Rightarrow> (Char (- 1), a) | Some c \<Rightarrow> (Char 0, a_set k (fst (fst a k) @ [x]) c a))
   | Q_to_b k cc \<Rightarrow> (Bytes (map fst (take (nat cc) (fst (fst a k)))), a_take k (nat cc) a)
   | Ndflush k cc \<Rightarrow> (Done, a_take k (nat cc) a)
   | B_to_q k cs \<Rightarrow> (case b_to_q cs (a_clist k a) of (rest, c) \<Rightarrow>
                      (Char (int (length rest)), a_set k (fst (fst a k) @ plain (take (length cs - length rest) cs)) c a)))"

primrec a_run :: "cop list \<Rightarrow> aqueues \<Rightarrow> cres list \<times> aqueues" where
  "a_run [] a = ([], a)"
| "a_run (op # ops) a = (case a_op op a of (r, a) \<Rightarrow> (case a_run ops a of (rs, a) \<Rightarrow> (r # rs, a)))"

section \<open>The queues do not share blocks\<close>

definition sys_rep :: "queues \<Rightarrow> (nat \<Rightarrow> nat list) \<Rightarrow> (nat \<Rightarrow> (8 word \<times> bool) list) \<Rightarrow> nat list \<Rightarrow> bool" where
  "sys_rep s B X fs \<longleftrightarrow> (\<forall>k. owns (snd s) (fst s k) (B k) (X k) fs \<and> q_clean (snd s) (fst s k))
     \<and> (\<forall>j k. j \<noteq> k \<longrightarrow> set (B j) \<inter> set (B k) = {})"

definition sys_abs :: "queues \<Rightarrow> (nat \<Rightarrow> (8 word \<times> bool) list) \<Rightarrow> nat list \<Rightarrow> aqueues" where
  "sys_abs s X fs = (\<lambda>k. (X k, cq_place (fst s k)), length fs)"

lemma owns_frame:
  assumes o2: "owns st q2 bs2 xs2 fs" "q_clean st q2" and ob: "only_blocks (bs @ fs) (bs' @ fs') st st'"
    and dj: "set bs2 \<inter> set bs = {}" and o1: "owns st' q' bs' xs' fs'"
  shows "owns st' q2 bs2 xs2 fs'" "q_clean st' q2" "set bs2 \<inter> set bs' = {}"
proof -
  have d: "distinct (bs2 @ fs)" "q_rep (cblocks st) q2 bs2 xs2" "free_rep st' fs'" "distinct (bs' @ fs')" using o1 o2 by (simp_all add: owns_def)
  have s: "set bs' \<union> set fs' = set bs \<union> set fs" using ob by (simp add: only_blocks_def)
  have n: "set bs2 \<inter> (set bs' \<union> set fs') = {}" using d(1) dj unfolding s by auto
  have c: "cblocks st' b = cblocks st b" if "b \<in> set bs2" for b
  proof -
    have "b \<notin> set (bs @ fs)" using that d(1) dj by auto
    then show ?thesis using ob unfolding only_blocks_def by blast
  qed
  show "owns st' q2 bs2 xs2 fs'" using q_cong [OF d(2) c] d(1,3,4) n by (auto simp: owns_def)
  show "set bs2 \<inter> set bs' = {}" using n by blast
  show "q_clean st' q2"
  proof (cases "bs2 = []")
    case True
    then show ?thesis using d(2) by (simp add: q_rep_def q_clean_def no_chars_def)
  next
    case False
    have "c_cl q2 = Some (last bs2, end_place q2)" using q_repD(2) [OF d(2) False] .
    then show ?thesis using o2(2) c last_in_set [OF False] by (simp add: q_clean_def)
  qed
qed

lemma sys_upd:
  assumes s: "sys_rep (qs, st) B X fs" and o: "owns st' q' bs' xs' fs'" "q_clean st' q'" and ob: "only_blocks (B k @ fs) (bs' @ fs') st st'"
  shows "sys_rep (qs(k := q'), st') (B(k := bs')) (X(k := xs')) fs'"
proof -
  have r: "owns st (qs j) (B j) (X j) fs" "q_clean st (qs j)" "i \<noteq> j \<Longrightarrow> set (B i) \<inter> set (B j) = {}" for i j
    using s by (auto simp: sys_rep_def)
  have f: "owns st' (qs j) (B j) (X j) fs'" "q_clean st' (qs j)" "set (B j) \<inter> set bs' = {}" if "j \<noteq> k" for j
    using owns_frame [OF r(1,2) ob r(3) o(1)] that by auto
  show ?thesis using f o r(3) unfolding sys_rep_def by (auto simp: Int_commute)
qed

definition op_ok :: "cop \<Rightarrow> queues \<Rightarrow> (nat \<Rightarrow> (8 word \<times> bool) list) \<Rightarrow> nat list \<Rightarrow> cres \<Rightarrow> queues \<Rightarrow> bool" where
  "op_ok op s X fs r s' \<longleftrightarrow> clist_op op s = Some (r, s')
     \<and> (\<exists>B' X' fs'. sys_rep s' B' X' fs' \<and> a_op op (sys_abs s X fs) = (r, sys_abs s' X' fs'))"

lemma sys_repD: "sys_rep (qs, st) B X fs \<Longrightarrow> owns st (qs k) (B k) (X k) fs" "sys_rep (qs, st) B X fs \<Longrightarrow> q_clean st (qs k)"
  by (simp_all add: sys_rep_def)

lemma a_clist_abs: "a_clist k (sys_abs (qs, st) X fs) = q_abs (qs k) (X k) fs"
  by (simp add: a_clist_def sys_abs_def q_abs_def)

lemma a_set_abs: "a_set k xs' (q_abs q' xs' fs') (sys_abs (qs, st) X fs) = sys_abs (qs(k := q'), st') (X(k := xs')) fs'"
  by (auto simp: a_set_def sys_abs_def q_abs_def)

lemma take_sim:
  assumes "sys_rep (qs, st) B X fs" "gets_ok n st (qs k) (B k) (X k) fs st' q'"
  shows "\<exists>B' X' fs'. sys_rep (qs(k := q'), st') B' X' fs' \<and> a_take k n (sys_abs (qs, st) X fs) = sys_abs (qs(k := q'), st') X' fs'"
proof -
  obtain bs' fs' where g: "owns st' q' bs' (drop n (X k)) fs'" "only_blocks (B k @ fs) (bs' @ fs') st st'" "q_clean st' q'"
    "q_abs q' (drop n (X k)) fs' = c_getcs n (q_abs (qs k) (X k) fs)"
    using assms(2) sys_repD(2) [OF assms(1), of k] by (auto simp: gets_ok_def)
  have "a_take k n (sys_abs (qs, st) X fs) = a_set k (drop n (X k)) (q_abs q' (drop n (X k)) fs') (sys_abs (qs, st) X fs)"
    unfolding a_take_def a_clist_abs g(4) by (simp add: sys_abs_def)
  then show ?thesis using sys_upd [OF assms(1) g(1,3,2)] a_set_abs by metis
qed

lemma upd_ok:
  assumes "clist_op op (qs, st) = Some (r, qs(k := q'), st')" "sys_rep (qs(k := q'), st') B' (X(k := xs')) fs'"
    "a_op op (sys_abs (qs, st) X fs) = (r, a_set k xs' (q_abs q' xs' fs') (sys_abs (qs, st) X fs))"
  shows "\<exists>r s'. op_ok op (qs, st) X fs r s'"
  using assms unfolding a_set_abs [where st' = st'] op_ok_def by blast

lemma clist_op_sim:
  assumes s: "sys_rep (qs, st) B X fs"
  shows "\<exists>r s'. op_ok op (qs, st) X fs r s'"
proof (cases op)
  case (Getc k)
  obtain q' st' where g: "blk_getc (qs k) st = Some (case X k of [] \<Rightarrow> - 1 | x # _ \<Rightarrow> char_val x, q', st')" "gets_ok 1 st (qs k) (B k) (X k) fs st' q'"
    using getc_owns [OF sys_repD(1) [OF s, of k]] by blast
  then show ?thesis using take_sim [OF s g(2)] Getc
    by (intro exI [of _ "Char (case X k of [] \<Rightarrow> - 1 | x # _ \<Rightarrow> char_val x)"] exI [of _ "(qs(k := q'), st')"]) (simp add: op_ok_def clist_op_def a_op_def sys_abs_def)
next
  case (Q_to_b k cc)
  obtain q' st' where g: "q_to_b cc (qs k) st = Some (map fst (take (nat cc) (X k)), q', st')" "gets_ok (nat cc) st (qs k) (B k) (X k) fs st' q'"
    using q_to_b_owns [OF sys_repD(1) [OF s, of k]] by blast
  then show ?thesis using take_sim [OF s g(2)] Q_to_b
    by (intro exI [of _ "Bytes (map fst (take (nat cc) (X k)))"] exI [of _ "(qs(k := q'), st')"]) (simp add: op_ok_def clist_op_def a_op_def sys_abs_def)
next
  case (Ndflush k cc)
  obtain q' st' where g: "ndflush cc (qs k) st = Some (q', st')" "gets_ok (nat cc) st (qs k) (B k) (X k) fs st' q'"
    using q_to_b_owns [OF sys_repD(1) [OF s, of k]] by blast
  then show ?thesis using take_sim [OF s g(2)] Ndflush
    by (intro exI [of _ Done] exI [of _ "(qs(k := q'), st')"]) (simp add: op_ok_def clist_op_def a_op_def)
next
  case (Putc k x)
  obtain r q' st' where p: "blk_putc (char_val x) (qs k) st = (r, q', st')" by (metis prod.exhaust)
  have c: "clist_op op (qs, st) = Some (Char r, qs(k := q'), st')" using Putc p by (simp add: clist_op_def)
  consider "r = - 1" "q' = qs k" "st' = st" "c_putc (fst x) (q_abs (qs k) (X k) fs) = None" | "r = 0" "putc_ok x st (qs k) (B k) (X k) fs st' q'"
    using putc_owns [OF sys_repD(1) [OF s, of k] sys_repD(2) [OF s, of k] p] by auto
  then show ?thesis
  proof cases
    case 1
    then have "op_ok op (qs, st) X fs (Char r) (qs(k := q'), st')"
      using c s Putc a_clist_abs [of k qs st X fs] by (auto simp: op_ok_def a_op_def)
    then show ?thesis by blast
  next
    case 2
    obtain bs' fs' where h: "owns st' q' bs' (X k @ [x]) fs'" "q_clean st' q'" "only_blocks (B k @ fs) (bs' @ fs') st st'"
      "c_putc (fst x) (q_abs (qs k) (X k) fs) = Some (q_abs q' (X k @ [x]) fs')"
      using 2(2) by (auto simp: putc_ok_def)
    have "a_op op (sys_abs (qs, st) X fs) = (Char r, a_set k (X k @ [x]) (q_abs q' (X k @ [x]) fs') (sys_abs (qs, st) X fs))"
      using Putc 2(1) by (simp add: a_op_def a_clist_abs h(4)) (simp add: sys_abs_def)
    then show ?thesis using c sys_upd [OF s h(1-3)] upd_ok by blast
  qed
next
  case (B_to_q k cs)
  obtain rest q' st' where p: "blk_b_to_q cs (qs k) st = (rest, q', st')" by (metis prod.exhaust)
  have c: "clist_op op (qs, st) = Some (Char (int (length rest)), qs(k := q'), st')" using B_to_q p by (simp add: clist_op_def)
  let ?xs = "X k @ plain (take (length cs - length rest) cs)"
  obtain bs' fs' where h: "owns st' q' bs' ?xs fs'" "q_clean st' q'" "only_blocks (B k @ fs) (bs' @ fs') st st'"
      "b_to_q cs (q_abs (qs k) (X k) fs) = (rest, q_abs q' ?xs fs')"
    using b_to_q_owns [OF sys_repD [OF s, of k] p] by (auto simp: puts_done_def)
  have "a_op op (sys_abs (qs, st) X fs) = (Char (int (length rest)), a_set k ?xs (q_abs q' ?xs fs') (sys_abs (qs, st) X fs))"
    using B_to_q by (simp add: a_op_def a_clist_abs h(4)) (simp add: sys_abs_def)
  then show ?thesis using c sys_upd [OF s h(1-3)] upd_ok by blast
qed

lemma run_sim:
  "sys_rep s B X fs \<Longrightarrow> \<exists>rs s' B' X' fs'. clist_run ops s = Some (rs, s') \<and> sys_rep s' B' X' fs' \<and> a_run ops (sys_abs s X fs) = (rs, sys_abs s' X' fs')"
proof (induction ops arbitrary: s B X fs)
  case (Cons op ops)
  obtain r s1 where o: "op_ok op s X fs r s1" using clist_op_sim Cons.prems by (cases s) metis
  then obtain B1 X1 fs1 where s1: "clist_op op s = Some (r, s1)" "sys_rep s1 B1 X1 fs1" "a_op op (sys_abs s X fs) = (r, sys_abs s1 X1 fs1)"
    by (auto simp: op_ok_def)
  obtain rs s' B' X' fs' where "clist_run ops s1 = Some (rs, s')" "sys_rep s' B' X' fs'" "a_run ops (sys_abs s1 X1 fs1) = (rs, sys_abs s' X' fs')"
    using Cons.IH [OF s1(2)] by blast
  then show ?case using s1 by (intro exI [of _ "r # rs"] exI [of _ s']) auto
qed auto

text \<open>All queues empty, all blocks on the free list.\<close>

text \<open>
  \<open>cinit\<close>: the blocks of the zeroed array \<open>cfree\<close> are put on the free list.  One is given up for the
  alignment, so \<open>nclist - 1\<close> are left wherever the array begins.
\<close>

definition cinit :: "nat \<Rightarrow> cpool" where
  "cinit nclist = fold (\<lambda>b st. set_next b (cfreelist st) st\<lparr>cfreelist := Some b, cfreecount := cfreecount st + int CBSIZE\<rparr>)
     [0..<nclist - 1] \<lparr>cblocks = \<lambda>_. zblock, cfreelist = None, cfreecount = 0\<rparr>"

lemma sys_start: "free_rep st fs \<Longrightarrow> distinct fs \<Longrightarrow> sys_rep (\<lambda>_. no_chars, st) (\<lambda>_. []) (\<lambda>_. []) fs"
  by (simp add: sys_rep_def owns_def q_rep_def q_clean_def no_chars_def)

lemma zblock_eq: "zblock\<lparr>cb_next := n\<rparr> = \<lparr>cb_next = n, cb_quote = replicate CBSIZE False, cb_info = replicate CBSIZE 0\<rparr>"
  by (simp add: zblock_def)

lemma cinit_free:
  "free_rep (cinit (Suc n)) (rev [0..<n]) \<and> (\<forall>b. n \<le> b \<longrightarrow> cblocks (cinit (Suc n)) b = zblock)"
proof (induction n)
  case 0
  then show ?case by (simp add: cinit_def free_rep_def)
next
  case (Suc n)
  let ?st = "cinit (Suc n)"
  have f: "free_rep ?st (rev [0..<n])" "cblocks ?st n = zblock" using Suc by auto
  have e: "cinit (Suc (Suc n)) = CFREELIST_RETURN n ?st"
    using f(2) by (simp add: cinit_def CFREELIST_RETURN_def set_next_def)
  show ?case unfolding e using free_return [OF f(1), of n] Suc by (auto simp: CFREELIST_RETURN_def)
qed

end
