(* ===== verification/Clist_Tail.thy ===== *)
theory Clist_Tail
  imports Clist_Queues
begin

unbundle bit_operations_syntax

text \<open>
  The last character of a queue: \<open>unputc\<close>; walking over a queue: \<open>nextc\<close>; and the one queue
  behind the other: \<open>catq\<close>.
\<close>

section \<open>Taking the last character back\<close>

text \<open>A character as a signed number.\<close>

definition signed_val :: "8 word \<times> bool \<Rightarrow> int" where
  "signed_val x = (if snd x then sint (fst x) OR TTY_QUOTE else sint (fst x))"

lemma signed_char_content: "cb_ok (cblocks st b) \<Longrightarrow> i < CBSIZE \<Longrightarrow> signed_char st (b, i) = signed_val (content (cblocks st b) ! i)"
  by (simp add: signed_char_def signed_val_def content_def cb_ok_def)

lemma seg_last:
  "bs \<noteq> [] \<Longrightarrow> e < CBSIZE \<Longrightarrow> (tl bs = [] \<longrightarrow> i \<le> e) \<Longrightarrow> \<forall>b\<in>set bs. cb_ok (cb b)
   \<Longrightarrow> cb_seg cb bs i (Suc e) = cb_seg cb bs i e @ [content (cb (last bs)) ! e]"
  by (induction cb bs i e rule: cb_seg.induct) (simp_all add: take_Suc_conv_app_nth)

lemma find_prev_last:
  "linked cb (ps @ [p, b]) \<Longrightarrow> distinct (ps @ [p, b]) \<Longrightarrow> find_prev cb b (hd (ps @ [p, b])) = Some p"
proof (induction ps)
  case Nil
  then show ?case by (subst find_prev.simps) simp
next
  case (Cons a ps)
  obtain c cs where c: "ps @ [p, b] = c # cs" by (cases ps) auto
  then have "c \<noteq> b" using Cons.prems(2) by (cases ps) auto
  moreover have "cb_next (cb a) = Some c" "linked cb (ps @ [p, b])" using Cons.prems(1) c by simp_all
  moreover have "find_prev cb b c = Some p" using Cons.IH Cons.prems(2) calculation(3) c by simp
  ultimately show ?case by (subst find_prev.simps) simp
qed

lemma linked_butlast: "linked cb (ps @ [p, b]) \<Longrightarrow> linked (cb(p := (cb p)\<lparr>cb_next := None\<rparr>)) (ps @ [p])" if "distinct (ps @ [p, b])"
  using that
proof (induction ps)
  case (Cons a ps)
  obtain c cs where c: "ps @ [p] = c # cs" by (cases ps) auto
  then have d: "ps @ [p, b] = c # cs @ [b]" by (metis append.assoc append_Cons append_Nil)
  have l: "cb_next (cb a) = Some c" "linked cb (ps @ [p, b])" unfolding d using Cons.prems d by simp_all
  have "linked (cb(p := (cb p)\<lparr>cb_next := None\<rparr>)) (c # cs)" using Cons.IH l(2) Cons.prems c by (simp add: fun_upd_def)
  then show ?case using Cons.prems c l(1) by (auto simp: fun_upd_def)
qed simp

definition unput_ok :: "8 word \<times> bool \<Rightarrow> cpool \<Rightarrow> cqueue \<Rightarrow> nat list \<Rightarrow> (8 word \<times> bool) list \<Rightarrow> nat list \<Rightarrow> cpool \<Rightarrow> cqueue \<Rightarrow> bool" where
  "unput_ok x st q bs xs fs st' q' \<longleftrightarrow> (\<exists>bs' fs'. owns st' q' bs' xs fs' \<and> only_blocks (bs @ fs) (bs' @ fs') st st'
     \<and> q_abs q' xs fs' = c_unputc (q_abs q (xs @ [x]) fs) \<and> (q_clean st q \<and> \<not> snd x \<longrightarrow> q_clean st' q'))"

lemma unputc_last:
  assumes o: "owns st q bs (xs @ [x]) fs"
  shows "\<exists>e. end_place q = Suc e \<and> e < CBSIZE \<and> x = content (cblocks st (last bs)) ! e \<and> xs = cb_seg (cblocks st) bs (cq_place q) e
    \<and> signed_char st (last bs, e) = signed_val x \<and> (tl bs = [] \<longrightarrow> cq_place q \<le> e)"
proof -
  have ne: "bs \<noteq> []" using owns_empty_iff [OF o] by simp
  have "q_rep (cblocks st) q bs (xs @ [x])" using o by (simp add: owns_def)
  note d = q_repD [OF this ne]
  obtain e where e: "end_place q = Suc e" using d(4) by (cases "end_place q") auto
  then have "e < CBSIZE" "tl bs = [] \<longrightarrow> cq_place q \<le> e" using d(5,6) by auto
  moreover from this have "xs @ [x] = cb_seg (cblocks st) bs (cq_place q) e @ [content (cblocks st (last bs)) ! e]"
    using seg_last [OF ne, of e "cq_place q" "cblocks st"] d(8,9) e by simp
  ultimately show ?thesis using e signed_char_content [of st "last bs" e] d(8) ne by auto
qed

lemma unputc_owns:
  assumes o: "owns st q bs (xs @ [x]) fs"
  shows "\<exists>q' st'. blk_unputc q st = Some (signed_val x, q', st') \<and> unput_ok x st q bs xs fs st' q'"
proof -
  have ne: "bs \<noteq> []" using owns_empty_iff [OF o] by simp
  have q: "q_rep (cblocks st) q bs (xs @ [x])" "free_rep st fs" "distinct (bs @ fs)" using o by (simp_all add: owns_def)
  note d = q_repD [OF q(1) ne]
  obtain e where e: "end_place q = Suc e" "e < CBSIZE" "x = content (cblocks st (last bs)) ! e" "xs = cb_seg (cblocks st) bs (cq_place q) e"
    "signed_char st (last bs, e) = signed_val x" "tl bs = [] \<longrightarrow> cq_place q \<le> e"
    using unputc_last [OF o] by blast
  have cc: "c_cc q - 1 = int (length xs)" using d(11) by simp
  have mod: "(cq_place q + length xs) mod CBSIZE = e"
  proof -
    have "(cq_place q + Suc (length xs)) mod CBSIZE = Suc e mod CBSIZE" using owns_end [OF o ne] e(1) by simp
    moreover have "cq_place q + Suc (length xs) + CBSIZE = CBSIZE * length bs + Suc e" using d(10) e(1) by simp
    then have "cq_place q + length xs + CBSIZE = CBSIZE * length bs + e" by simp
    then have "(cq_place q + length xs + CBSIZE) mod CBSIZE = (CBSIZE * length bs + e) mod CBSIZE" by simp
    then show ?thesis using e(2) by simp
  qed
  show ?thesis
  proof (cases "xs = []")
    case True
    have b: "bs = [last bs]" using d(3,4,10) True ne e(1) by (cases bs; cases "tl bs") auto
    let ?st = "CFREELIST_RETURN (last bs) st"
    have "blk_unputc q st = Some (signed_val x, no_chars, ?st)"
      using d(2,11) e(1,5) True by (simp add: blk_unputc_def Let_def no_chars_def)
    moreover have nf: "last bs \<notin> set fs" "distinct fs" using q(3) last_in_set [OF ne] by auto
    then have "owns ?st no_chars [] [] (last bs # fs)" using free_return [OF q(2) nf(1)] by (simp add: owns_def q_rep_def no_chars_def)
    moreover obtain c where c: "bs = [c]" using b by metis
    then have "only_blocks (bs @ fs) ([] @ last bs # fs) st ?st" by (simp add: only_blocks_def CFREELIST_RETURN_def)
    moreover have "q_abs no_chars [] (last bs # fs) = c_unputc (q_abs q [x] fs)"
      by (simp add: q_abs_def c_unputc_def empty_clist_def cq_place_def no_chars_def)
    moreover have "q_clean ?st no_chars" by (simp add: q_clean_def no_chars_def)
    ultimately have "unput_ok x st q bs xs fs ?st no_chars" unfolding unput_ok_def True by (intro exI [of _ "[]"] exI [of _ "last bs # fs"]) simp
    then show ?thesis using \<open>blk_unputc q st = _\<close> by blast
  next
    case x: False
    show ?thesis
    proof (cases e)
      case (Suc e')
      let ?q = "q\<lparr>c_cl := Some (last bs, e), c_cc := c_cc q - 1\<rparr>"
      have "blk_unputc q st = Some (signed_val x, ?q, st)" using d(2) cc e(1,5) x Suc by (simp add: blk_unputc_def Let_def)
      moreover have p: "cq_place ?q = cq_place q" "end_place ?q = e" by (simp_all add: cq_place_def end_place_def)
      have "tl bs = [] \<longrightarrow> cq_place q < e" using d(10) e(1) x ne by (cases bs) auto
      then have "q_rep (cblocks st) ?q bs xs" unfolding q_rep_def p using d(1,3,7,8) e cc x Suc ne by simp
      then have "owns st ?q bs xs fs" using q by (simp add: owns_def)
      moreover have "q_abs ?q xs fs = c_unputc (q_abs q (xs @ [x]) fs)"
        using mod x Suc by (simp add: q_abs_def c_unputc_def cq_place_def butlast_append)
      moreover have "q_clean st ?q" if "q_clean st q" "\<not> snd x"
      proof -
        have "\<not> cb_quote (cblocks st (last bs)) ! j" if "e \<le> j" "j < CBSIZE" for j
        proof (cases "j = e")
          case True
          then show ?thesis using \<open>\<not> snd x\<close> e(2,3) d(8) ne by (simp add: content_def cb_ok_def)
        next
          case False
          then show ?thesis using \<open>q_clean st q\<close> d(2) e(1) that by (simp add: q_clean_def)
        qed
        then show ?thesis by (simp add: q_clean_def)
      qed
      ultimately show ?thesis unfolding unput_ok_def using only_blocks_refl by blast
    next
      case 0
      have "tl bs \<noteq> []" using d(3,10) e(1) x 0 ne by (cases bs) auto
      then obtain ps p b where b: "bs = ps @ [p, b]" using ne
        by (metis append_butlast_last_id append.assoc append_Cons append_Nil butlast.simps(2) list.collapse list.sel(3) butlast_tl)
      have dist: "distinct (ps @ [p, b])" "b \<notin> set fs" "p \<notin> set fs" "b \<noteq> p" "b \<notin> set ps" using q(3) b by auto
      let ?st = "set_next p None (CFREELIST_RETURN b st)"
      let ?q = "q\<lparr>c_cl := Some (p, CBSIZE), c_cc := c_cc q - 1\<rparr>"
      have fp: "find_prev (cblocks st) b (hd bs) = Some p" using find_prev_last [of "cblocks st" ps p b] d(7) dist(1) b by simp
      have u: "blk_unputc q st = Some (signed_val x, ?q, ?st)"
        using d(1,2) cc e(1,5) x 0 fp b by (simp add: blk_unputc_def Let_def)
      have pl: "cq_place ?q = cq_place q" "end_place ?q = CBSIZE" by (simp_all add: cq_place_def end_place_def)
      have cbl: "cblocks ?st = (cblocks st)(b := zblock\<lparr>cb_next := cfreelist st\<rparr>, p := (cblocks st p)\<lparr>cb_next := None\<rparr>)"
        using dist(4) by (simp add: set_next_def CFREELIST_RETURN_def)
      have ok: "\<forall>c\<in>set (ps @ [p]). cb_ok (cblocks ?st c)" using d(8) b dist by (auto simp: cbl cb_ok_def)
      have "linked ((cblocks st)(p := (cblocks st p)\<lparr>cb_next := None\<rparr>)) (ps @ [p])" using linked_butlast [OF dist(1)] d(7) b by simp
      then have l: "linked (cblocks ?st) (ps @ [p])"
        by (rule linked_cong [THEN iffD2, rotated]) (use dist in \<open>auto simp: cbl\<close>)
      have "cb_seg (cblocks ?st) (ps @ [p]) (cq_place q) CBSIZE = cb_seg (cblocks st) (ps @ [p]) (cq_place q) CBSIZE"
        by (rule seg_cong) (use dist in \<open>auto simp: cbl content_def\<close>)
      also have "\<dots> = cb_seg (cblocks st) ((ps @ [p]) @ [b]) (cq_place q) 0"
        by (rule seg_snoc [symmetric]) (use dist d(3,8) b in auto)
      finally have sg: "xs = cb_seg (cblocks ?st) (ps @ [p]) (cq_place q) CBSIZE" using e(4) b 0 by simp
      have h: "hd bs = hd (ps @ [p])" using b by (cases ps) auto
      have "q_rep (cblocks ?st) ?q (ps @ [p]) xs" unfolding q_rep_def pl using d(1,3) cc l ok sg h by simp
      moreover have "free_rep ?st (b # fs)"
        by (rule free_cong [OF free_return [OF q(2) dist(2)]]) (use dist in \<open>auto simp: set_next_def CFREELIST_RETURN_def\<close>)
      ultimately have "owns ?st ?q (ps @ [p]) xs (b # fs)" using q(3) b by (auto simp: owns_def)
      moreover have "only_blocks (bs @ fs) ((ps @ [p]) @ b # fs) st ?st" using b by (auto simp: only_blocks_def cbl)
      moreover have "q_abs ?q xs (b # fs) = c_unputc (q_abs q (xs @ [x]) fs)"
        using mod x 0 by (simp add: q_abs_def c_unputc_def cq_place_def butlast_append)
      moreover have "q_clean ?st ?q" by (auto simp: q_clean_def)
      ultimately show ?thesis unfolding unput_ok_def using u by blast
    qed
  qed
qed

end
