(* ===== verification/Clist_Cat.thy ===== *)
theory Clist_Cat
  imports Clist_Tail
begin

text \<open>
  \<open>nextc\<close> walks over the characters of a queue; \<open>catq\<close> moves them one at a time behind another queue,
  and what it loses when no block is free.
\<close>

section \<open>Walking over a queue\<close>

text \<open>The place of the character with number \<open>j\<close>.\<close>

definition cptr_at :: "nat list \<Rightarrow> nat \<Rightarrow> nat \<Rightarrow> cptr" where
  "cptr_at bs i j = (bs ! ((i + j) div CBSIZE), (i + j) mod CBSIZE)"

lemma seg_nth:
  "j < length (cb_seg cb bs i e) \<Longrightarrow> \<forall>b\<in>set bs. cb_ok (cb b) \<Longrightarrow> i < CBSIZE \<Longrightarrow> e \<le> CBSIZE
   \<Longrightarrow> cb_seg cb bs i e ! j = content (cb (bs ! ((i + j) div CBSIZE))) ! ((i + j) mod CBSIZE) \<and> (i + j) div CBSIZE < length bs"
proof (induction cb bs i e arbitrary: j rule: cb_seg.induct)
  case (3 cb b c bs i e)
  show ?case
  proof (cases "j < CBSIZE - i")
    case True
    then show ?thesis using 3 by (simp add: nth_append)
  next
    case False
    define m where "m = j - (CBSIZE - i)"
    have m: "i + j = CBSIZE + m" using False 3(4) by (simp add: m_def)
    have "m < length (cb_seg cb (c # bs) 0 e)" using 3(2,3) False by (simp add: m_def)
    then have IH: "cb_seg cb (c # bs) 0 e ! m = content (cb ((c # bs) ! (m div CBSIZE))) ! (m mod CBSIZE)" "m div CBSIZE < length (c # bs)"
      using 3(1) [of m] 3(3,5) by auto
    have dm: "(i + j) div CBSIZE = Suc (m div CBSIZE)" "(i + j) mod CBSIZE = m mod CBSIZE" unfolding m by (simp_all add: div_add_self1)
    have "cb_seg cb (b # c # bs) i e ! j = cb_seg cb (c # bs) 0 e ! m" using False 3(3) by (simp add: nth_append m_def)
    then show ?thesis unfolding dm using IH by simp
  qed
qed auto

lemma linked_nth: "linked cb bs \<Longrightarrow> Suc k < length bs \<Longrightarrow> cb_next (cb (bs ! k)) = Some (bs ! Suc k)"
proof (induction cb bs arbitrary: k rule: linked.induct)
  case (3 cb b c bs)
  then show ?case by (cases k) auto
qed auto

lemma nextc_owns:
  assumes o: "owns st q bs xs fs" and j: "j < length xs"
  shows "blk_nextc q (cptr_at bs (cq_place q) j) st
    = (if Suc j < length xs then Some (cptr_at bs (cq_place q) (Suc j), signed_val (xs ! Suc j)) else None)"
proof -
  have ne: "bs \<noteq> []" using owns_empty_iff [OF o] j by auto
  have q: "q_rep (cblocks st) q bs xs" "distinct bs" using o by (simp_all add: owns_def)
  note d = q_repD [OF q(1) ne]
  let ?n = "cq_place q + j"
  have total: "cq_place q + length xs = CBSIZE * (length bs - 1) + end_place q" using d(10) ne by (cases bs) simp_all
  have nth: "xs ! m = content (cblocks st (bs ! ((cq_place q + m) div CBSIZE))) ! ((cq_place q + m) mod CBSIZE)" "(cq_place q + m) div CBSIZE < length bs"
    if "m < length xs" for m using seg_nth [of m "cblocks st" bs "cq_place q" "end_place q"] that d(3,5,8,9) by auto
  have at_end: "Some (bs ! (?n div CBSIZE), ?n mod CBSIZE + 1) = c_cl q \<longleftrightarrow> Suc j = length xs"
  proof
    assume "Some (bs ! (?n div CBSIZE), ?n mod CBSIZE + 1) = c_cl q"
    then have e: "bs ! (?n div CBSIZE) = bs ! (length bs - 1)" "?n mod CBSIZE + 1 = end_place q" using d(2) ne by (simp_all add: last_conv_nth)
    then have "?n div CBSIZE = length bs - 1" using nth_eq_iff_index_eq [OF q(2)] nth(2) [OF j] ne by simp
    then have "?n + 1 = CBSIZE * (length bs - 1) + end_place q" using e(2) mult_div_mod_eq [of CBSIZE ?n] by simp
    then show "Suc j = length xs" using total by simp
  next
    assume "Suc j = length xs"
    then have n: "?n = CBSIZE * (length bs - 1) + (end_place q - 1)" using total d(4) by simp
    have "end_place q - 1 < CBSIZE" using d(4,5) by simp
    then have "?n div CBSIZE = length bs - 1" "?n mod CBSIZE = end_place q - 1" unfolding n by simp_all
    then show "Some (bs ! (?n div CBSIZE), ?n mod CBSIZE + 1) = c_cl q" using d(2,4) ne by (simp add: last_conv_nth)
  qed
  show ?thesis
  proof (cases "Suc j < length xs")
    case False
    then show ?thesis using at_end j by (auto simp: blk_nextc_def cptr_at_def)
  next
    case True
    have sv: "signed_char st (cptr_at bs (cq_place q) (Suc j)) = signed_val (xs ! Suc j)"
      unfolding cptr_at_def nth(1) [OF True] by (rule signed_char_content) (use nth(2) [OF True] d(8) in auto)
    have "(if ?n mod CBSIZE + 1 = CBSIZE then info_of (cb_next (cblocks st (bs ! (?n div CBSIZE)))) else Some (bs ! (?n div CBSIZE), ?n mod CBSIZE + 1))
       = Some (cptr_at bs (cq_place q) (Suc j))"
    proof (cases "?n mod CBSIZE + 1 = CBSIZE")
      case wrap: True
      then have s: "Suc ?n mod CBSIZE = 0" "Suc ?n div CBSIZE = Suc (?n div CBSIZE)" by (simp_all add: mod_Suc div_Suc)
      moreover have "Suc (?n div CBSIZE) < length bs" using nth(2) [OF True] s(2) by simp
      ultimately show ?thesis using wrap linked_nth [OF d(7)] by (simp add: cptr_at_def info_of_def)
    next
      case stay: False
      then have "Suc ?n mod CBSIZE = Suc (?n mod CBSIZE)" "Suc ?n div CBSIZE = ?n div CBSIZE" by (simp_all add: mod_Suc div_Suc)
      then show ?thesis using stay by (simp add: cptr_at_def)
    qed
    moreover have "c_cc q \<noteq> 0" using d(11) j by auto
    ultimately show ?thesis using True at_end sv by (simp add: blk_nextc_def cptr_at_def [of bs "cq_place q" j])
  qed
qed

section \<open>One queue behind another\<close>

text \<open>\<open>catq\<close> on the specification: the characters of queue \<open>j\<close> are taken and put one at a time.\<close>

primrec a_cat :: "(8 word \<times> bool) list \<Rightarrow> nat \<Rightarrow> nat \<Rightarrow> aqueues \<Rightarrow> aqueues" where
  "a_cat [] j k a = snd (a_op (Getc j) a)"
| "a_cat (x # xs) j k a = a_cat xs j k (snd (a_op (Putc k x) (snd (a_op (Getc j) a))))"

lemma op_sim_abs:
  assumes "sys_rep (qs, st) B X fs"
  obtains r qs' st' B' X' fs' where "clist_op op (qs, st) = Some (r, qs', st')" "sys_rep (qs', st') B' X' fs'"
    "a_op op (sys_abs (qs, st) X fs) = (r, sys_abs (qs', st') X' fs')"
  using clist_op_sim [OF assms, of op] by (metis op_ok_def prod.exhaust)

lemma abs_chars: "fst (fst (sys_abs s X fs) k) = X k"
  by (simp add: sys_abs_def)

lemma getc_op:
  assumes "clist_op (Getc j) (qs, st) = Some (r, qs', st')"
  shows "\<exists>c q. blk_getc (qs j) st = Some (c, q, st') \<and> r = Char c \<and> qs' = qs(j := q)"
  using assms by (auto simp: clist_op_def)

lemma putc_op:
  assumes "clist_op (Putc k x) (qs, st) = Some (r, qs', st')"
  shows "\<exists>c q. blk_putc (char_val x) (qs k) st = (c, q, st') \<and> qs' = qs(k := q)"
  using assms by (auto simp: clist_op_def split: prod.splits)

text \<open>How many characters of queue \<open>j\<close> are in front of the end of its first block.\<close>

definition a_first :: "nat \<Rightarrow> aqueues \<Rightarrow> nat" where
  "a_first j a = min (length (fst (fst a j))) (CBSIZE - snd (fst a j))"

lemma a_getc:
  fixes x :: "8 word \<times> bool" and a :: aqueues
  assumes "fst (fst a j) = x # xs" "snd (fst a j) < CBSIZE" "j \<noteq> k"
  defines "b \<equiv> snd (a_op (Getc j) a)"
  shows "fst (fst b j) = xs" "snd (fst b j) < CBSIZE" "fst b k = fst a k"
    "c_room (a_clist k b) = (if a_first j a = 1 then c_room (a_clist k a) + CBSIZE else c_room (a_clist k a))"
    "2 \<le> a_first j a \<Longrightarrow> a_first j b = a_first j a - 1"
proof -
  obtain off where a: "fst a j = (x # xs, off)" "off < CBSIZE" using assms(1,2) by (cases "fst a j") auto
  have m: "(off + 1) mod CBSIZE = 0 \<longleftrightarrow> off + 1 = CBSIZE" using a(2) by (cases "off + 1 = CBSIZE") auto
  have b: "b = ((fst a)(j := (xs, if xs = [] \<or> off + 1 = CBSIZE then 0 else off + 1)), snd a + (if xs = [] \<or> off + 1 = CBSIZE then 1 else 0))"
    using m a by (auto simp: b_def a_op_def a_take_def a_set_def a_clist_def c_getcs_def c_getc_def empty_clist_def)
  have f: "a_first j a = 1 \<longleftrightarrow> xs = [] \<or> off + 1 = CBSIZE" using a by (cases xs) (auto simp: a_first_def min_def)
  show "fst (fst b j) = xs" "snd (fst b j) < CBSIZE" "fst b k = fst a k" using a assms(3) by (auto simp: b)
  show "c_room (a_clist k b) = (if a_first j a = 1 then c_room (a_clist k a) + CBSIZE else c_room (a_clist k a))"
    unfolding f using assms(3) by (simp add: b c_room_def a_clist_def)
  show "a_first j b = a_first j a - 1" if "2 \<le> a_first j a"
    using that a f by (auto simp: a_first_def b)
qed

lemma a_putc:
  fixes x :: "8 word \<times> bool" and a :: aqueues
  assumes "j \<noteq> k"
  defines "b \<equiv> snd (a_op (Putc k x) a)"
  shows "fst b j = fst a j" "fst (fst b k) = fst (fst a k) @ (if c_room (a_clist k a) = 0 then [] else [x])"
    "c_room (a_clist k b) = c_room (a_clist k a) - 1"
proof -
  have "fst b j = fst a j \<and> fst (fst b k) = fst (fst a k) @ (if c_room (a_clist k a) = 0 then [] else [x])
    \<and> c_room (a_clist k b) = c_room (a_clist k a) - 1"
  proof (cases "c_putc (fst x) (a_clist k a)")
    case None
    then show ?thesis using c_putc_None [of "fst x" "a_clist k a"] by (simp add: b_def a_op_def)
  next
    case (Some c)
    note s = c_putc_Some [OF Some]
    have "a_clist k b = c" using Some s(1) by (cases c) (simp add: b_def a_op_def a_set_def a_clist_def)
    then show ?thesis using Some s(2) assms(1) by (simp add: b_def a_op_def a_set_def)
  qed
  then show "fst b j = fst a j" "fst (fst b k) = fst (fst a k) @ (if c_room (a_clist k a) = 0 then [] else [x])"
    "c_room (a_clist k b) = c_room (a_clist k a) - 1" by blast+
qed

lemma a_cat_chars:
  "fst (fst a j) = xs \<Longrightarrow> snd (fst a j) < CBSIZE \<Longrightarrow> j \<noteq> k \<Longrightarrow>
   fst (fst (a_cat xs j k a) j) = [] \<and> fst (fst (a_cat xs j k a) k)
     = fst (fst a k) @ take (c_room (a_clist k a)) xs @ drop (max (c_room (a_clist k a)) (a_first j a - 1)) xs"
proof (induction xs arbitrary: a)
  case Nil
  then show ?case by (simp add: a_op_def a_take_def a_set_def)
next
  case (Cons x xs)
  define b where "b = snd (a_op (Getc j) a)"
  define c where "c = snd (a_op (Putc k x) b)"
  let ?r = "c_room (a_clist k a)" let ?g = "a_first j a"
  note g = a_getc [OF Cons.prems, folded b_def]
  note p = a_putc [OF Cons.prems(3), of x b, folded c_def]
  have "fst (fst c j) = xs" "snd (fst c j) < CBSIZE" using g(1,2) p(1) by simp_all
  note IH = Cons.IH [OF this Cons.prems(3)]
  have e: "a_cat (x # xs) j k a = a_cat xs j k c" by (simp add: b_def c_def)
  have g0: "0 < ?g" using Cons.prems(1,2) by (simp add: a_first_def)
  have fc: "a_first j c = a_first j b" by (simp add: a_first_def p(1))
  show ?case
  proof (cases "?g = 1")
    case True
    have r: "c_room (a_clist k c) = ?r + (CBSIZE - 1)" "c_room (a_clist k b) \<noteq> 0" using p(3) g(4) True by (simp_all add: CBSIZE_def)
    have "a_first j c \<le> CBSIZE" by (simp add: a_first_def)
    then have "max (c_room (a_clist k c)) (a_first j c - 1) = c_room (a_clist k c)" unfolding r by simp
    then show ?thesis unfolding e using IH p(2) r(2) g(3) True by simp
  next
    case False
    then have gg: "2 \<le> ?g" "a_first j c = ?g - 1" "c_room (a_clist k b) = ?r" using g0 g(4,5) fc by auto
    obtain h where h: "?g = Suc (Suc h)" using gg(1) by (metis Suc_le_D numeral_2_eq_2 Suc_le_mono)
    show ?thesis
    proof (cases ?r)
      case 0
      then show ?thesis unfolding e using IH p(2,3) gg g(3) h by simp
    next
      case (Suc r)
      then show ?thesis unfolding e using IH p(2,3) gg g(3) h by simp
    qed
  qed
qed

lemma catq_loop_sim:
  "sys_rep (qs, st) B X fs \<Longrightarrow> j \<noteq> k \<Longrightarrow> length (X j) < fuel \<Longrightarrow>
   \<exists>qs' st' B' X' fs'. catq_loop fuel (qs j) (qs k) st = Some (qs' j, qs' k, st') \<and> (\<forall>i. i \<noteq> j \<longrightarrow> i \<noteq> k \<longrightarrow> qs' i = qs i)
     \<and> sys_rep (qs', st') B' X' fs' \<and> a_cat (X j) j k (sys_abs (qs, st) X fs) = sys_abs (qs', st') X' fs'"
proof (induction fuel arbitrary: qs st B X fs)
  case (Suc fuel)
  note jk = Suc.prems(2)
  obtain r qs1 st1 B1 X1 fs1 where g: "clist_op (Getc j) (qs, st) = Some (r, qs1, st1)" "sys_rep (qs1, st1) B1 X1 fs1"
    "a_op (Getc j) (sys_abs (qs, st) X fs) = (r, sys_abs (qs1, st1) X1 fs1)"
    using op_sim_abs [OF Suc.prems(1)] by metis
  obtain c q where c: "blk_getc (qs j) st = Some (c, q, st1)" "r = Char c" "qs1 = qs(j := q)" using getc_op [OF g(1)] by blast
  have cv: "c = (case X j of [] \<Rightarrow> - 1 | x # _ \<Rightarrow> char_val x)" using g(3) c(2) by (simp add: a_op_def abs_chars)
  have X1: "X1 j = tl (X j)"
  proof -
    have "fst (fst (sys_abs (qs1, st1) X1 fs1) j) = fst (fst (a_take j 1 (sys_abs (qs, st) X fs)) j)" using g(3) by (simp add: a_op_def)
    then show ?thesis by (simp add: abs_chars a_take_def a_set_def drop_Suc)
  qed
  show ?case
  proof (cases "X j")
    case Nil
    then have "catq_loop (Suc fuel) (qs j) (qs k) st = Some (qs1 j, qs1 k, st1)" using c cv jk by simp
    moreover have "\<forall>i. i \<noteq> j \<longrightarrow> i \<noteq> k \<longrightarrow> qs1 i = qs i" using c(3) by simp
    moreover have "a_cat (X j) j k (sys_abs (qs, st) X fs) = sys_abs (qs1, st1) X1 fs1" using Nil g(3) by simp
    ultimately show ?thesis using g(2) by blast
  next
    case (Cons x xs)
    obtain r2 qs2 st2 B2 X2 fs2 where p: "clist_op (Putc k x) (qs1, st1) = Some (r2, qs2, st2)" "sys_rep (qs2, st2) B2 X2 fs2"
      "a_op (Putc k x) (sys_abs (qs1, st1) X1 fs1) = (r2, sys_abs (qs2, st2) X2 fs2)"
      using op_sim_abs [OF g(2)] by metis
    obtain d q2 where d: "blk_putc (char_val x) (qs1 k) st1 = (d, q2, st2)" "qs2 = qs1(k := q2)" using putc_op [OF p(1)] by blast
    have X2: "X2 j = X1 j"
    proof -
      have "fst (fst (sys_abs (qs2, st2) X2 fs2) j) = fst (fst (sys_abs (qs1, st1) X1 fs1) j)"
        using a_putc(1) [OF jk, of x "sys_abs (qs1, st1) X1 fs1"] p(3) by simp
      then show ?thesis by (simp add: abs_chars)
    qed
    have l: "catq_loop (Suc fuel) (qs j) (qs k) st = catq_loop fuel (qs2 j) (qs2 k) st2"
      using c cv Cons d jk char_val_bounds(1) [of x] by simp
    have xs: "X2 j = xs" using X1 X2 Cons by simp
    have "length (X2 j) < fuel" using Suc.prems(3) Cons xs by simp
    from Suc.IH [OF p(2) jk this] obtain qs' st' B' X' fs' where
      h: "catq_loop fuel (qs2 j) (qs2 k) st2 = Some (qs' j, qs' k, st')" "\<forall>i. i \<noteq> j \<longrightarrow> i \<noteq> k \<longrightarrow> qs' i = qs2 i"
        "sys_rep (qs', st') B' X' fs'" "a_cat xs j k (sys_abs (qs2, st2) X2 fs2) = sys_abs (qs', st') X' fs'" unfolding xs by blast
    have "a_cat (X j) j k (sys_abs (qs, st) X fs) = sys_abs (qs', st') X' fs'" using h(4) g(3) p(3) Cons by simp
    moreover have "\<forall>i. i \<noteq> j \<longrightarrow> i \<noteq> k \<longrightarrow> qs' i = qs i" using h(2) c(3) d(2) by simp
    moreover have "catq_loop (Suc fuel) (qs j) (qs k) st = Some (qs' j, qs' k, st')" using l h(1) by simp
    ultimately show ?thesis using h(3) by blast
  qed
qed simp

end
