(* ===== verification/Clist_Claims.thy ===== *)
theory Clist_Claims
  imports Clist_Cat
begin

unbundle bit_operations_syntax

text \<open>The properties of the character queues, for every state that operations reach from \<open>cinit\<close>.\<close>

section \<open>Reached states\<close>

definition clist_start :: "nat \<Rightarrow> queues" where
  "clist_start nclist = (\<lambda>_. no_chars, cinit nclist)"

definition clist_spec :: "nat \<Rightarrow> aqueues" where
  "clist_spec nclist = (\<lambda>_. ([], 0), nclist - 1)"

text \<open>The specification after operations, and its characters of a queue.\<close>

definition spec_after :: "cop list \<Rightarrow> nat \<Rightarrow> aqueues" where
  "spec_after ops nclist = snd (a_run ops (clist_spec nclist))"

definition chars_after :: "cop list \<Rightarrow> nat \<Rightarrow> nat \<Rightarrow> (8 word \<times> bool) list" where
  "chars_after ops nclist k = fst (fst (spec_after ops nclist) k)"

lemma start_rep: "\<exists>B fs. sys_rep (clist_start nclist) B (\<lambda>_. []) fs \<and> sys_abs (clist_start nclist) (\<lambda>_. []) fs = clist_spec nclist"
proof -
  let ?fs = "rev [0..<nclist - 1]"
  have "cinit nclist = cinit (Suc (nclist - 1))" by (cases nclist) (simp_all add: cinit_def)
  then have "free_rep (cinit nclist) ?fs" using cinit_free [of "nclist - 1"] by simp
  then have "sys_rep (clist_start nclist) (\<lambda>_. []) (\<lambda>_. []) ?fs" unfolding clist_start_def by (rule sys_start) simp
  moreover have "sys_abs (clist_start nclist) (\<lambda>_. []) ?fs = clist_spec nclist"
    by (simp add: sys_abs_def clist_start_def clist_spec_def cq_place_def no_chars_def)
  ultimately show ?thesis by blast
qed

lemma run_reached:
  "\<exists>s B X fs. clist_run ops (clist_start nclist) = Some (fst (a_run ops (clist_spec nclist)), s) \<and> sys_rep s B X fs
     \<and> spec_after ops nclist = sys_abs s X fs"
proof -
  obtain B fs where s: "sys_rep (clist_start nclist) B (\<lambda>_. []) fs" "sys_abs (clist_start nclist) (\<lambda>_. []) fs = clist_spec nclist"
    using start_rep by blast
  obtain rs s' B' X' fs' where "clist_run ops (clist_start nclist) = Some (rs, s')" "sys_rep s' B' X' fs'"
    "a_run ops (clist_spec nclist) = (rs, sys_abs s' X' fs')"
    using run_sim [OF s(1), of ops] unfolding s(2) by blast
  then show ?thesis by (intro exI [of _ s'] exI [of _ B'] exI [of _ X'] exI [of _ fs']) (simp add: spec_after_def)
qed

lemma reachedE:
  assumes "clist_run ops (clist_start nclist) = Some (rs, qs, st)"
  obtains B X fs where "sys_rep (qs, st) B X fs" "spec_after ops nclist = sys_abs (qs, st) X fs" "\<And>k. chars_after ops nclist k = X k"
proof -
  obtain s B X fs where r: "clist_run ops (clist_start nclist) = Some (fst (a_run ops (clist_spec nclist)), s)" "sys_rep s B X fs"
    "spec_after ops nclist = sys_abs s X fs"
    using run_reached by blast
  then have "s = (qs, st)" using assms by simp
  then show ?thesis using that r by (simp add: chars_after_def abs_chars)
qed

section \<open>Refinement\<close>

text \<open>C12: Blocks linked by pointers implement bounded queues.  For any sequence of \<open>getc\<close>, \<open>putc\<close>,
  \<open>q_to_b\<close>, \<open>ndflush\<close> and \<open>b_to_q\<close> on any number of queues that share the free list set up by \<open>cinit\<close>, no null
  pointer is used, every loop ends, and each result is that of the specification: each queue gives
  its own characters with their quote marks, first in first out, and a character is refused only
  when a new block is needed and none is free.\<close>

theorem clist_blocks_refine:
  "\<exists>s. clist_run ops (clist_start nclist) = Some (fst (a_run ops (clist_spec nclist)), s)"
  using run_reached by blast

section \<open>Buffers\<close>

text \<open>C33: In every reached state \<open>q_to_b\<close> copies the first \<open>cc\<close> characters of the queue without
  their marks, all of them when there are fewer, and \<open>ndflush\<close> with the same count leaves the same
  queue and the same free list.\<close>

theorem q_to_b_takes_front:
  assumes "clist_run ops (clist_start nclist) = Some (rs, qs, st)"
  shows "\<exists>q' st'. q_to_b cc (qs k) st = Some (map fst (take (nat cc) (chars_after ops nclist k)), q', st') \<and> ndflush cc (qs k) st = Some (q', st')
    \<and> c_cc q' = int (length (chars_after ops nclist k) - nat cc)"
proof -
  obtain B X fs where r: "sys_rep (qs, st) B X fs" "\<And>k. chars_after ops nclist k = X k" using reachedE [OF assms] by metis
  obtain q' st' where q: "q_to_b cc (qs k) st = Some (map fst (take (nat cc) (X k)), q', st')" "ndflush cc (qs k) st = Some (q', st')"
    "gets_ok (nat cc) st (qs k) (B k) (X k) fs st' q'"
    using q_to_b_owns [OF sys_repD(1) [OF r(1)]] by blast
  have "c_cc q' = int (length (drop (nat cc) (X k)))" using q(3) by (auto simp: gets_ok_def owns_def q_rep_def)
  then show ?thesis using q r(2) by simp
qed

theorem q_to_b_takes_front_witness:
  "\<exists>rs qs st q' st'. clist_run [B_to_q 0 [104, 105], Putc 0 (33, True)] (clist_start 3) = Some (rs, qs, st)
     \<and> q_to_b 2 (qs 0) st = Some ([104, 105], q', st') \<and> ndflush 2 (qs 0) st = Some (q', st') \<and> c_cc q' = 1"
proof -
  let ?ops = "[B_to_q 0 [104, 105], Putc 0 (33, True)]"
  have c: "chars_after ?ops 3 0 = [(104, False), (105, False), (33, True)]"
    by (simp add: chars_after_def spec_after_def clist_spec_def a_op_def a_clist_def a_set_def c_putc_def c_full_def CBSIZE_def)
  obtain s where r: "clist_run ?ops (clist_start 3) = Some (fst (a_run ?ops (clist_spec 3)), s)" using run_reached by blast
  obtain qs st where s: "s = (qs, st)" by (cases s)
  show ?thesis using q_to_b_takes_front [OF r [unfolded s], of 2 0] r unfolding s c by auto
qed

section \<open>One queue behind another\<close>

definition catq_chars :: "nat \<Rightarrow> nat \<Rightarrow> aqueues \<Rightarrow> (8 word \<times> bool) list" where
  "catq_chars j k a =
     (let xs = fst (fst a j); ys = fst (fst a k); room = c_room (a_clist k a)
      in if ys = [] then xs else ys @ take room xs @ drop (max room (a_first j a - 1)) xs)"

text \<open>C32: In every reached state \<open>catq\<close> ends, leaves the first queue empty and gives the second one the
  characters it had and, behind them, those of the first, but with a gap when room is short: of the
  characters in the first block of the first queue those that find no room are taken and lost, up
  to the last one, whose block becomes free in time.  A loss needs a nonempty second queue with
  less room than all but one of the characters of that block.\<close>

theorem catq_drops_characters:
  assumes "clist_run ops (clist_start nclist) = Some (rs, qs, st)" "j \<noteq> k"
  shows "\<exists>f t st' t' st''. catq (qs j) (qs k) st = Some (f, t, st') \<and> f = no_chars
    \<and> q_to_b (c_cc t) t st' = Some (map fst (catq_chars j k (spec_after ops nclist)), t', st'')"
proof -
  obtain B X fs where r: "sys_rep (qs, st) B X fs" "spec_after ops nclist = sys_abs (qs, st) X fs" using reachedE [OF assms(1)] by metis
  have cc: "c_cc (qs i) = int (length (X i))" for i using sys_repD(1) [OF r(1), of i] by (simp add: owns_def q_rep_def)
  have all: "\<exists>t' st''. q_to_b (c_cc q) q st' = Some (map fst xs, t', st'')" if "owns st' q bs xs fs'" for q st' bs xs fs'
  proof -
    have "nat (c_cc q) = length xs" using that by (simp add: owns_def q_rep_def)
    then show ?thesis using q_to_b_owns [OF that, of "c_cc q"] by auto
  qed
  show ?thesis
  proof (cases "X k = []")
    case True
    then have "catq (qs j) (qs k) st = Some (no_chars, qs j, st)" using cc by (simp add: catq_def)
    moreover have "catq_chars j k (spec_after ops nclist) = X j" using True by (simp add: catq_chars_def r(2) abs_chars)
    ultimately show ?thesis using all [OF sys_repD(1) [OF r(1), of j]] by auto
  next
    case False
    obtain qs' st' B' X' fs' where c: "catq_loop (Suc (length (X j))) (qs j) (qs k) st = Some (qs' j, qs' k, st')"
      "sys_rep (qs', st') B' X' fs'" "a_cat (X j) j k (sys_abs (qs, st) X fs) = sys_abs (qs', st') X' fs'"
      using catq_loop_sim [OF r(1) assms(2), of "Suc (length (X j))"] by auto
    have "cq_place (qs j) < CBSIZE"
      using sys_repD(1) [OF r(1), of j] by (auto simp: owns_def q_rep_def cq_place_def no_chars_def split: if_splits)
    then have "snd (fst (sys_abs (qs, st) X fs) j) < CBSIZE" by (simp add: sys_abs_def)
    from a_cat_chars [OF abs_chars this assms(2)] have x: "X' j = []" "X' k = catq_chars j k (spec_after ops nclist)"
      using False by (simp_all add: c(3) abs_chars r(2) catq_chars_def Let_def)
    have "catq (qs j) (qs k) st = Some (qs' j, qs' k, st')" using c(1) cc False by (simp add: catq_def)
    moreover have "qs' j = no_chars" using gets_empty(2) [of st' "qs' j" "B' j" fs'] sys_repD(1) [OF c(2), of j] x(1) by simp
    ultimately show ?thesis using all [OF sys_repD(1) [OF c(2), of k]] x(2) by auto
  qed
qed

lemma b_to_q_eq:
  assumes "length cs \<le> c_room st" "c_room st1 = c_room st - length cs" "c_chars (fst st1) = c_chars (fst st) @ cs"
    "c_off (fst st1) = c_off (fst st)" "c_chars (fst st) = [] \<longrightarrow> c_off (fst st) = 0"
  shows "b_to_q cs st = ([], st1)"
proof -
  obtain rest t where b: "b_to_q cs st = (rest, t)" by (cases "b_to_q cs st")
  have "t = st1" by (rule clist_state_eq) (use b_to_q_moves [OF b] b_to_q_off [OF b assms(5)] assms in simp_all)
  then show ?thesis using b b_to_q_moves [OF b] assms(1) by simp
qed

text \<open>Two blocks, one of them full: of three characters two are lost.\<close>

theorem catq_drops_characters_witness:
  "\<exists>rs qs st f t st' t' st''. clist_run [B_to_q 1 (replicate 48 65), B_to_q 0 [66, 67, 68]] (clist_start 3) = Some (rs, qs, st)
     \<and> catq (qs 0) (qs 1) st = Some (f, t, st') \<and> f = no_chars \<and> q_to_b (c_cc t) t st' = Some (replicate 48 65 @ [68], t', st'')"
proof -
  let ?ops = "[B_to_q 1 (replicate 48 65), B_to_q 0 [66, 67, 68]]"
  let ?A = "plain (replicate 48 65)" let ?B = "plain [66, 67, 68]"
  have 1: "b_to_q (replicate 48 65) (a_clist 1 (clist_spec 3)) = ([], (\<lparr>c_chars = replicate 48 65, c_off = 0\<rparr>, 1))"
    by (rule b_to_q_eq) (simp_all add: a_clist_def clist_spec_def c_room_def c_slack_def CBSIZE_def)
  have 2: "b_to_q [66, 67, 68] (a_clist 0 ((\<lambda>_. ([], 0))(1 := (?A, 0)), 1)) = ([], (\<lparr>c_chars = [66, 67, 68], c_off = 0\<rparr>, 0))"
    by (rule b_to_q_eq) (simp_all add: a_clist_def c_room_def c_slack_def CBSIZE_def)
  have a1: "a_op (B_to_q 1 (replicate 48 65)) (clist_spec 3) = (Char 0, (\<lambda>_. ([], 0))(1 := (?A, 0)), 1)"
    unfolding a_op_def cop.case 1 by (simp add: a_set_def clist_spec_def)
  have a2: "a_op (B_to_q 0 [66, 67, 68]) ((\<lambda>_. ([], 0))(1 := (?A, 0)), 1) = (Char 0, (\<lambda>_. ([], 0))(1 := (?A, 0), 0 := (?B, 0)), 0)"
    unfolding a_op_def cop.case 2 by (simp add: a_set_def)
  have a: "spec_after ?ops 3 = ((\<lambda>_. ([], 0))(1 := (?A, 0), 0 := (?B, 0)), 0)"
    unfolding spec_after_def a_run.simps a1 prod.case a2 by simp
  have c: "map fst (catq_chars 0 1 (spec_after ?ops 3)) = replicate 48 65 @ [68]"
    unfolding a by (simp add: catq_chars_def a_first_def a_clist_def c_room_def c_slack_def CBSIZE_def comp_def)
  obtain s where r: "clist_run ?ops (clist_start 3) = Some (fst (a_run ?ops (clist_spec 3)), s)" using run_reached by blast
  obtain qs st where s: "s = (qs, st)" by (cases s)
  show ?thesis using catq_drops_characters [OF r [unfolded s], of 0 1] r unfolding s c by auto
qed

section \<open>The last character\<close>

text \<open>C34: \<open>unputc\<close> takes a quoted character back but not its mark: when it was put behind other
  characters in a block with room, in any reached state, the character put next counts as quoted.\<close>

theorem unputc_keeps_quote:
  assumes "clist_run ops (clist_start nclist) = Some (rs, qs, st)" "\<not> c_full (fst (a_clist k (spec_after ops nclist)))"
    "blk_putc (char_val (c, True)) (qs k) st = (r, q1, st1)"
  shows "r = 0 \<and> (\<exists>q2 st2. blk_unputc q1 st1 = Some (signed_val (c, True), q2, st2)
    \<and> blk_putc (char_val (d, False)) q2 st2 = blk_putc (char_val (d, True)) (qs k) st)"
proof -
  obtain B X fs where s: "sys_rep (qs, st) B X fs" "spec_after ops nclist = sys_abs (qs, st) X fs" using reachedE [OF assms(1)] by metis
  let ?q = "qs k"
  have o: "owns st ?q (B k) (X k) fs" "q_clean st ?q" using sys_repD [OF s(1)] by auto
  have f: "B k \<noteq> []" "end_place ?q \<noteq> CBSIZE" using assms(2) owns_full [OF o(1)] by (auto simp: s(2) a_clist_abs)
  have x: "X k \<noteq> []" using owns_empty_iff [OF o(1)] f(1) by simp
  note w = owns_front [OF o(1) x]
  have "q_rep (cblocks st) ?q (B k) (X k)" using o(1) by (simp add: owns_def)
  note e = q_repD(4,5,8) [OF this f(1)]
  let ?b = "last (B k)" let ?e = "end_place ?q"
  have lt: "?e < CBSIZE" "cb_ok (cblocks st ?b)" using e f by auto
  have put: "blk_putc (char_val y) ?q st = (0, ?q\<lparr>c_cc := c_cc ?q + 1, c_cl := Some (?b, ?e + 1)\<rparr>, put_at (char_val y) (?b, ?e) st)" for y
    using w(2,4) f(2) by (simp add: blk_putc_def put_place_def)
  let ?st1 = "put_at (char_val (c, True)) (?b, ?e) st"
  have q1: "r = 0" "q1 = ?q\<lparr>c_cc := c_cc ?q + 1, c_cl := Some (?b, ?e + 1)\<rparr>" "st1 = ?st1" using assms(3) put by simp_all
  have sv: "signed_char ?st1 (?b, ?e) = signed_val (c, True)"
    using lt by (simp add: put_at_def signed_char_def signed_val_def cb_ok_def char_val_parts)
  have "blk_unputc q1 st1 = Some (signed_val (c, True), ?q, ?st1)"
    unfolding q1 using w(2,4,5) e(1) sv by (simp add: blk_unputc_def Let_def)
  moreover have "put_at (char_val (d, False)) (?b, ?e) ?st1 = put_at (char_val (d, True)) (?b, ?e) st"
    using char_val_parts [of "(d, False)"] char_val_parts [of "(d, True)"] char_val_parts [of "(c, True)"] by (simp add: put_at_def)
  moreover have "blk_putc (char_val (d, False)) ?q ?st1
      = (0, ?q\<lparr>c_cc := c_cc ?q + 1, c_cl := Some (?b, ?e + 1)\<rparr>, put_at (char_val (d, False)) (?b, ?e) ?st1)"
    using w(2,4) f(2) by (simp add: blk_putc_def put_place_def)
  ultimately show ?thesis using put [of "(d, True)"] q1(1) by auto
qed

theorem unputc_keeps_quote_witness:
  "\<exists>rs qs st q1 st1 q2 st2. clist_run [Putc 0 (97, False)] (clist_start 2) = Some (rs, qs, st)
     \<and> blk_putc (char_val (4, True)) (qs 0) st = (0, q1, st1) \<and> blk_unputc q1 st1 = Some (signed_val (4, True), q2, st2)
     \<and> blk_putc (char_val (98, False)) q2 st2 = blk_putc (char_val (98, True)) (qs 0) st"
proof -
  have n: "\<not> c_full (fst (a_clist 0 (spec_after [Putc 0 (97, False)] 2)))"
    by (simp add: spec_after_def clist_spec_def a_op_def a_clist_def a_set_def c_putc_def c_full_def CBSIZE_def)
  obtain s where r: "clist_run [Putc 0 (97, False)] (clist_start 2) = Some (fst (a_run [Putc 0 (97, False)] (clist_spec 2)), s)" using run_reached by blast
  obtain qs st where s: "s = (qs, st)" by (cases s)
  obtain t q1 st1 where p: "blk_putc (char_val (4, True)) (qs 0) st = (t, q1, st1)" by (metis prod.exhaust)
  show ?thesis using unputc_keeps_quote [OF r [unfolded s] n p, of 98] p r unfolding s by auto
qed

text \<open>\<open>unputc\<close> gives the last character, but as a signed one: 255 is taken for the -1 of an empty queue.\<close>

theorem unputc_gives_last:
  assumes "clist_run ops (clist_start nclist) = Some (rs, qs, st)" "chars_after ops nclist k = xs @ [x]"
  shows "\<exists>q' st' t st''. blk_unputc (qs k) st = Some (signed_val x, q', st') \<and> q_to_b (c_cc q') q' st' = Some (map fst xs, t, st'')"
proof -
  obtain B X fs where s: "sys_rep (qs, st) B X fs" "\<And>k. chars_after ops nclist k = X k" using reachedE [OF assms(1)] by metis
  have "owns st (qs k) (B k) (xs @ [x]) fs" using sys_repD(1) [OF s(1), of k] s(2) assms(2) by simp
  from unputc_owns [OF this] obtain q' st' bs' fs' where u: "blk_unputc (qs k) st = Some (signed_val x, q', st')" "owns st' q' bs' xs fs'"
    by (auto simp: unput_ok_def)
  have "nat (c_cc q') = length xs" using u(2) by (simp add: owns_def q_rep_def)
  then show ?thesis using u q_to_b_owns [OF u(2), of "c_cc q'"] by auto
qed

lemma signed_val_255: "signed_val (255, False) = - 1" "char_val (255, False) = 255"
  by (simp_all add: signed_val_def char_val_def)

text \<open>So does \<open>nextc\<close>, which visits the characters in order.\<close>

theorem nextc_sees_signed:
  assumes "clist_run ops (clist_start nclist) = Some (rs, qs, st)"
  shows "\<exists>pos. (chars_after ops nclist k \<noteq> [] \<longrightarrow> c_cf (qs k) = Some (pos 0))
    \<and> (\<forall>j<length (chars_after ops nclist k). blk_nextc (qs k) (pos j) st
        = (if Suc j < length (chars_after ops nclist k) then Some (pos (Suc j), signed_val (chars_after ops nclist k ! Suc j)) else None))"
proof -
  obtain B X fs where s: "sys_rep (qs, st) B X fs" "\<And>k. chars_after ops nclist k = X k" using reachedE [OF assms(1)] by metis
  have o: "owns st (qs k) (B k) (X k) fs" using sys_repD(1) [OF s(1)] .
  have "c_cf (qs k) = Some (cptr_at (B k) (cq_place (qs k)) 0)" if "X k \<noteq> []"
    using owns_front(1,3,6) [OF o that] by (simp add: cptr_at_def hd_conv_nth)
  then show ?thesis using nextc_owns [OF o] s(2) by (intro exI [of _ "cptr_at (B k) (cq_place (qs k))"]) simp
qed

text \<open>\<open>ndqb\<close> counts the characters that lie in one piece in front of the queue, up to the first quoted one
  when it is asked to.\<close>

theorem ndqb_counts:
  assumes "clist_run ops (clist_start nclist) = Some (rs, qs, st)" "chars_after ops nclist k \<noteq> []"
  shows "\<exists>n>0. n \<le> length (chars_after ops nclist k) \<and> ndqb (qs k) flag st
    = Some (int (if flag = 0 then n else length (takeWhile (\<lambda>x. \<not> snd x) (take n (chars_after ops nclist k)))))"
proof -
  obtain B X fs where s: "sys_rep (qs, st) B X fs" "\<And>k. chars_after ops nclist k = X k" using reachedE [OF assms(1)] by metis
  have o: "owns st (qs k) (B k) (X k) fs" and x: "X k \<noteq> []" using sys_repD(1) [OF s(1)] assms(2) s(2) by auto
  note f = owns_front [OF o x]
  let ?i = "cq_place (qs k)" let ?b = "cblocks st (hd (B k))"
  define n where "n = min (CBSIZE - ?i) (length (X k))"
  have n: "0 < n" "n \<le> length (X k)" "?i + n \<le> CBSIZE" using f(3,5) by (auto simp: n_def)
  have "take n (X k) = take n (drop ?i (content ?b))" using consume_owns(2) [OF o n] by (metis prod.exhaust)
  then have q: "map snd (take n (X k)) = take n (drop ?i (cb_quote ?b))"
    using f(7) by (simp add: content_def cb_ok_def drop_map [symmetric] take_map [symmetric])
  have t: "length (takeWhile (\<lambda>x. \<not> x) (take n (drop ?i (cb_quote ?b)))) = length (takeWhile (\<lambda>x. \<not> snd x) (take n (X k)))"
    unfolding q [symmetric] by (simp add: takeWhile_map comp_def)
  have "min (int CBSIZE - int ?i) (c_cc (qs k)) = int n" using f(3,4) by (simp add: n_def of_nat_min of_nat_diff)
  then have "ndqb (qs k) flag st = Some (int (if flag = 0 then n else length (takeWhile (\<lambda>x. \<not> snd x) (take n (X k)))))"
    using f(1,4,5) t by (simp add: ndqb_def)
  then show ?thesis using n s(2) by auto
qed

end
