(* ===== verification/Spec2Isabelle.thy ===== *)
theory Spec2Isabelle
  imports Svipc_Sem_Claims Svipc_Msg_Claims Bpf_Claims Flock_Claims Flock_Purge Slcompress_Faults Rmap_Claims Mbuf_Bpf Lock_Claims
    Svipc_Shm_Claims Clist_Claims
begin

text \<open>
  A verification library for parts of the OSF/1 1.0 kernel (\<open>src/usr/opt/OSC200/src/kernel\<close>;
  file names below are relative to it).

  The kernel is a BSD system call layer (\<open>bsd/\<close>, \<open>vfs/\<close>, \<open>ufs/\<close>, \<open>net/\<close>) over the Mach
  kernel (\<open>kern/\<close>, \<open>vm/\<close>).  The library takes up self-contained services of the BSD layer,
  each a set of operations on tables the kernel owns, and models them as functions on an
  explicit state.  The C integers are those of the Alpha: \<open>int\<close> has 32 bits, \<open>long\<close> and
  pointers 64; a field is a word where its width matters and an integer reduced by \<open>u16\<close>,
  \<open>s32\<close>, \<open>u64\<close> where the code stores into a narrow field.

  \<^bold>\<open>Shared material.\<close>  \<open>OSF_Prelude\<close>: error numbers, integer conversions (collection \<open>cint\<close>),
  list lemmas.

  \<^bold>\<open>System V IPC\<close> (\<open>bsd/svipc_ipc.c\<close>, \<open>svipc_sem.c\<close>, \<open>svipc_msg.c\<close>).  \<open>Svipc_Ipc\<close> has the
  permission check and the key search, and two locales: \<open>ipc_facility\<close> (a table of entries with
  keys) and \<open>ipc_ids\<close> (identifiers made of a sequence number and a slot).  Semaphores
  (\<open>Svipc_Sem\<close>, \<open>Svipc_Semctl\<close>) and messages (\<open>Svipc_Msg\<close>) interpret both.  The state records
  \<open>sem_state\<close> and \<open>msg_state\<close> are the global tables; a system call is one function, a call that
  sleeps ends in an outcome that names the channel, and a second function continues it after
  the wakeup.  \<open>Svipc_Sem_Undo\<close> relates the adjust-on-exit lists to a map, \<open>Svipc_Sem_Atomic\<close>
  proves the back-out through the locale \<open>rollback\<close>, \<open>Svipc_Sem_Reach\<close> and
  \<open>Svipc_Msg_Props\<close> have the step relations and the invariants of all reachable states.
  \<open>Svipc_Msg_Wait\<close> adds the calls that are asleep, and which of them have been woken: \<open>msg_run\<close> is
  the runs in which only a sleeper goes on, and \<open>waits_ok\<close> what the wait lists say of the sleepers.
  It is assumed there that a call that has been woken is not interrupted before it goes on.  The
  \<open>_Claims\<close> theories have the properties.

  \<^bold>\<open>Shared memory\<close> (\<open>bsd/svipc_shm.c\<close>, \<open>vm/u_mape_shm.c\<close>, the parts of \<open>vm/vm_umap.c\<close> they rest
  on).  \<open>Svipc_Shm\<close>: the table of segments, the memory objects with their references and attach
  arrays, an address space as the list of its map entries, the system calls, forks and the
  removal of entries.  \<open>shmat\<close> is two functions, since it may sleep in the map code.
  Two things the code can do are not steps of the relation \<open>shm_step\<close>, since it does not survive them: a
  second IPC_RMID of a segment during a call of \<open>shmat\<close> (\<open>rmid_safe\<close>; what it does is
  \<open>rmid_twice_frees_attaching\<close>) and a new mapping that cannot be wired (\<open>wire_failure_panics\<close>).  The
  invariant and what follows from it is of the runs without them.
  \<open>Svipc_Shm_Inv\<close>: what the references count, as an invariant of each segment with a number of
  references to spare, and the frame of an operation on one segment; \<open>Svipc_Shm_Ops\<close> and
  \<open>Svipc_Shm_Reach\<close>: every operation keeps it; \<open>Svipc_Shm_Claims\<close>: the properties.  The two locales
  of \<open>Svipc_Ipc\<close> have their third instance here.

  \<^bold>\<open>Packet filter\<close> (\<open>net/bpf_filter.c\<close>).  \<open>Bpf\<close>: loads from a buffer and from an mbuf chain, the
  interpreter one instruction at a time, the verifier.  The interpreter runs with fuel; the
  locale \<open>forward_machine\<close> of \<open>Bpf_Safety\<close> shows that fuel for each instruction of the program
  is enough for programs that only jump forward, and the filter is its instance.

  \<^bold>\<open>Record locks\<close> (\<open>vfs/vfs_flock.c\<close>, \<open>fcntl\<close> and \<open>closef\<close> of \<open>bsd/kern_descrip.c\<close>,
  \<open>ufs_lockctl\<close>).  \<open>Flock\<close>: records and chains, in \<open>flk_state\<close> a chain for every file and the
  sleep queue.  \<open>Flock_Adj\<close>: \<open>blocked\<close> and \<open>flckadj\<close>, \<open>Flock_Ops\<close> and \<open>Flock_Sys\<close>: the entry
  points.  \<open>Flock_Chain\<close> gives a chain its meaning, who holds which byte in which mode;
  \<open>Flock_Turns\<close> and \<open>Flock_Adjust\<close> prove that \<open>flckadj\<close> changes exactly the requested bytes;
  \<open>Flock_Safety\<close> states exclusion as the locale \<open>lock_table\<close>; \<open>Flock_Writers\<close> and
  \<open>Flock_Reach\<close> have the reachable states of a system of writers, \<open>Flock_Purge\<close> the clean-up.

  \<^bold>\<open>Serial line\<close> (\<open>net/slcompress.c\<close>, \<open>net/if_sl.c\<close>, clists of \<open>bsd/tty_subr.c\<close>).
  \<open>Slcompress\<close> has header compression over packets as functions from offsets to bytes,
  \<open>Slcompress_Sync\<close> and \<open>Slcompress_Link\<close> the relation between the two ends and the round trip
  of every packet without urgent data.  \<open>Clist\<close> and \<open>If_sl\<close>: character queues and the interface.  \<open>If_sl_Line\<close>
  shows the framing, \<open>If_sl_Blocks\<close> that no block of a queue is lost, \<open>If_sl_Wire\<close> that two ends
  deliver packets that follow each other, compressed or not.  \<open>If_sl_Queues\<close> has both ends at work at
  once, with any number of packets in the two queues and on the line: they refine a queue with two
  priorities (\<open>pqueue\<close>), in which interactive packets overtake the others.  That holds without
  compression; with it overtaking can misdeliver.  \<open>If_sl_Claims\<close> and \<open>Slcompress_Faults\<close> have the properties, the
  latter what goes wrong when packets overtake each other or carry urgent data.

  \<^bold>\<open>Terminal character queues\<close> (\<open>bsd/tty_subr.c\<close>).  \<open>Clist_Blocks\<close>: every function on linked blocks with
  quote bits and one free list; a null pointer that is used is \<open>None\<close>.  \<open>Clist_Rep\<close>: the characters a
  queue stands for and the blocks it owns; \<open>Clist_Put\<close>, \<open>Clist_Take\<close>, \<open>Clist_Tail\<close>, \<open>Clist_Cat\<close>: each
  function on them; \<open>Clist_Queues\<close>: any number of queues over the free list, and their specification,
  which rests on \<open>Clist\<close>; \<open>Clist_Claims\<close>: the properties.

  \<^bold>\<open>Resource maps\<close> (\<open>bsd/subr_rmap.c\<close>).  \<open>Rmap\<close>: the array of free segments; \<open>Rmap_Laws\<close>: each
  operation on the set of free addresses it stands for; \<open>Rmap_Claims\<close>: the locale \<open>allocator\<close>,
  its client, and the instance.  Addresses and sizes are integers that do not overflow, as a map whose
  initial range fits a \<open>long\<close> guarantees for ranges taken from it; \<open>rmfree\<close>, which takes any
  arguments, is there with sums that wrap around as well (\<open>rmfree_long\<close>), and the two agree as long as
  nothing reaches the largest \<open>long\<close>.

  \<^bold>\<open>Network buffers\<close> (\<open>bsd/uipc_mbuf.c\<close>, the macros of \<open>sys/mbuf.h\<close>).  \<open>Mbuf\<close>: chains as lists,
  clusters with contents and a number of references, every operation, each allocation able to
  fail.  The memory of a new mbuf is not initialised: its lengths are whatever \<open>me_new\<close> says.  Two
  clients give buffers of their own to an mbuf, \<open>mclgetx\<close> (\<open>rpc/subr_kudp.c\<close>) and the loop of
  \<open>mblk_to_mbuf\<close> (\<open>mblk_attach\<close>); such a cluster may have to wait for \<open>mbufintr\<close> to be freed.
  \<open>Mbuf_Laws\<close>: the invariant and the relation \<open>mb_step\<close>, by which an operation turns some mbufs
  into others and leaves the rest alone; \<open>Mbuf_Ops\<close>, \<open>Mbuf_Copy\<close>, \<open>Mbuf_Edit\<close> and \<open>Mbuf_Pull\<close>: each
  operation on the bytes a chain holds; \<open>Mbuf_Run\<close>: the states reached by any clients,
  with the mbufs whose length no client has set yet (they count as mbufs without data) apart from the
  chains; \<open>Mbuf_Claims\<close>: the properties.  \<open>Mbuf_Bpf\<close> puts the packet filter on top of the buffers:
  all loads behind \<open>m_pullup\<close>, with the one that differs on a chain.

  \<^bold>\<open>Read/write locks\<close> (\<open>kern/lock.c\<close>).  \<open>Lock\<close>: each operation as the critical sections it
  consists of, functions from the fields of the lock to the fields and to how the section ends
  (return, spin, sleep).  \<open>Lock_System\<close>: any number of threads on one lock, one section a step.
  \<open>Lock_Inv\<close>: a specification of read/write locks with claims, and its invariant; \<open>Lock_Steps\<close>: each
  section is moves of it and loses no wakeup; \<open>Lock_Claims\<close>: the locale \<open>simulation\<close>, its instance,
  exclusion and freedom from deadlock.

  \<^bold>\<open>What the lemmas show.\<close>  Invariants of all reachable states (semaphores, messages, lock chains,
  queues, maps, buffers and their references, locks, memory objects); refinements of abstract
  objects (a map of adjustments, bytes held by owners, a queue with two priorities, a set of
  addresses, a lock with claims); equivalence of optimised code with a reference (\<open>blocked\<close>,
  \<open>bpf_validate\<close>, \<open>ipcaccess\<close>); round trips; termination of the filter and of the deadlock search;
  and concrete runs where the code does not do what it means to.

  \<^bold>\<open>Bounds.\<close>  Recursion is structural or on a measure.  Fuel occurs in the filter, where the
  number of instructions is enough for validated programs; the deadlock search is a partial
  function whose \<open>None\<close> stands for a search that does not end, and so is the loop of \<open>m_pullup\<close>,
  which is shown to end.  The loops over character blocks have fuel for each character, which is
  shown to be enough.

  \<^bold>\<open>Not modelled.\<close>  Except in the read/write locks, sleeping and waking are steps between calls,
  not threads; copies from and to
  user memory and allocations are parameters that may fail; statistics and messages to the
  console are left out unless a property needs them.  The security options, which the
  configuration leaves out, the drivers, the virtual memory and thread layers, the protocol
  stacks, file systems other than the lock entry of UFS, the user commands and the window system
  are not modelled.
\<close>

end
